(* ===== verification/Prelude.thy ===== *)
theory Prelude
  imports Main "HOL-Library.Word" "HOL-Library.Monad_Syntax"
begin

text \<open>
  Shared vocabulary of the development: the machine types of the code, the way an aborting
  \<^verbatim>\<open>assert\<close> is written, the memory operations \<^verbatim>\<open>memcpy\<close>/\<^verbatim>\<open>std::copy\<close> on
  a vector of bytes, little-endian encodings, and the collections of facts that the proofs of the
  components share.

  A function of the code that may hit a failed \<^verbatim>\<open>assert\<close> or leave the bounds of an array
  returns an \<open>option\<close>: \<open>None\<close> is "the process aborts here", and the \<open>do\<close> notation
  of \<^theory_text>\<open>Monad_Syntax\<close> runs statements one after the other.
\<close>

section \<open>Machine types\<close>

type_synonym byte = "8 word"
type_synonym u32 = "32 word"
type_synonym u64 = "64 word"
type_synonym bytes = "byte list"

named_theorems abort_simps \<open>unfolding of runs that may abort\<close>
named_theorems keeps_wf \<open>the operations of the code keep the invariant of their component\<close>

section \<open>Assertions\<close>

definition assert_that :: "bool \<Rightarrow> unit option" where
  "assert_that b = (if b then Some () else None)"

lemma assert_that_True [simp]: "assert_that True = Some ()"
  by (simp add: assert_that_def)

lemma assert_that_False [simp]: "assert_that False = None"
  by (simp add: assert_that_def)

lemma assert_bind_Some [simp, abort_simps]:
  "(assert_that b \<bind> f) = Some r \<longleftrightarrow> b \<and> f () = Some r"
  by (cases b) simp_all

lemma assert_that_iff [simp, abort_simps]: "assert_that b = Some u \<longleftrightarrow> b"
  by (cases b) simp_all

lemma assert_bind_if: "(assert_that b \<bind> f) = (if b then f () else None)"
  by simp

lemmas bind_Some_conv [abort_simps] = Option.bind_eq_Some_conv

section \<open>Loops over a range\<close>

text \<open>A \<^verbatim>\<open>for\<close> loop whose body may abort.\<close>

fun for_each :: "('i \<Rightarrow> 's \<Rightarrow> 's option) \<Rightarrow> 'i list \<Rightarrow> 's \<Rightarrow> 's option" where
  "for_each f [] s = Some s"
| "for_each f (i # is) s = (f i s \<bind> for_each f is)"

lemma for_each_append: "for_each f (is @ js) s = (for_each f is s \<bind> for_each f js)"
  by (induction "is" arbitrary: s) (auto split: Option.bind_split)

text \<open>A property that every round keeps holds at the end.\<close>

lemma for_each_inv:
  assumes "for_each f is s = Some s'" and "P s"
    and "\<And>i t t'. i \<in> set is \<Longrightarrow> P t \<Longrightarrow> f i t = Some t' \<Longrightarrow> P t'"
  shows "P s'"
  using assms
proof (induction "is" arbitrary: s)
  case Nil
  then show ?case by simp
next
  case (Cons i "is")
  from Cons.prems(1) obtain t where t: "f i s = Some t" "for_each f is t = Some s'"
    by (auto simp: Option.bind_eq_Some_conv)
  have "P t" by (rule Cons.prems(3) [OF _ Cons.prems(2) t(1)]) simp
  then show ?case by (rule Cons.IH [OF t(2)]) (rule Cons.prems(3); simp)
qed

lemma for_each_mono:
  assumes "for_each f is s = Some s'" and "\<And>t. R t t" and "\<And>t u v. R t u \<Longrightarrow> R u v \<Longrightarrow> R t v"
    and "\<And>i t t'. i \<in> set is \<Longrightarrow> f i t = Some t' \<Longrightarrow> R t t'"
  shows "R s s'"
  using assms(1) by (rule for_each_inv [where P = "R s"]) (use assms in blast)+

section \<open>Copying bytes into a vector\<close>

text \<open>\<^verbatim>\<open>std::copy(data, data + len, q + i)\<close> for a destination inside the vector.\<close>

definition splice_at :: "nat \<Rightarrow> 'a list \<Rightarrow> 'a list \<Rightarrow> 'a list" where
  "splice_at i ys xs = take i xs @ ys @ drop (i + length ys) xs"

lemma length_splice_at [simp]:
  "i + length ys \<le> length xs \<Longrightarrow> length (splice_at i ys xs) = length xs"
  by (simp add: splice_at_def)

lemma take_splice_at:
  "i + length ys \<le> length xs \<Longrightarrow> n \<le> i \<Longrightarrow> take n (splice_at i ys xs) = take n xs"
  by (simp add: splice_at_def min_def)

lemma take_splice_at_end:
  "i + length ys \<le> length xs \<Longrightarrow> take (i + length ys) (splice_at i ys xs) = take i xs @ ys"
  by (simp add: splice_at_def)

lemma drop_splice_at:
  "i + length ys \<le> length xs \<Longrightarrow> i + length ys \<le> n \<Longrightarrow> drop n (splice_at i ys xs) = drop n xs"
  by (simp add: splice_at_def)

text \<open>The bytes between two positions of a vector.\<close>

definition span :: "nat \<Rightarrow> nat \<Rightarrow> 'a list \<Rightarrow> 'a list" where
  "span i j xs = take (j - i) (drop i xs)"

lemma length_span [simp]: "j \<le> length xs \<Longrightarrow> length (span i j xs) = j - i"
  by (simp add: span_def)

lemma span_empty [simp]: "span i i xs = []"
  by (simp add: span_def)

lemma span_drop_take: "span i j xs = drop i (take j xs)"
  by (simp add: span_def drop_take)

lemma drop_span: "drop n (span i j xs) = span (i + n) j xs"
  by (simp add: span_drop_take add.commute)

lemma span_splice_at:
  assumes "i \<le> j" and "j + length ys \<le> length xs"
  shows "span i (j + length ys) (splice_at j ys xs) = span i j xs @ ys"
  using assms by (simp add: span_drop_take take_splice_at_end)

lemma span_append_right:
  "j \<le> length xs \<Longrightarrow> span i j (xs @ ys) = span i j xs"
  by (simp add: span_drop_take)

lemma span_append_left:
  "length xs \<le> i \<Longrightarrow> span i j (xs @ ys) = span (i - length xs) (j - length xs) ys"
  by (simp add: span_def)

lemma span_whole [simp]: "j = length xs \<Longrightarrow> span 0 j xs = xs"
  by (simp add: span_def)

lemmas span_append = span_append_left span_append_right

section \<open>Little-endian integers\<close>

fun le_bytes :: "nat \<Rightarrow> nat \<Rightarrow> bytes" where
  "le_bytes 0 v = []"
| "le_bytes (Suc n) v = of_nat v # le_bytes n (v div 256)"

fun le_nat :: "bytes \<Rightarrow> nat" where
  "le_nat [] = 0"
| "le_nat (b # bs) = unat b + 256 * le_nat bs"

lemma length_le_bytes [simp]: "length (le_bytes n v) = n"
  by (induction n v rule: le_bytes.induct) simp_all

lemma le_nat_le_bytes: "le_nat (le_bytes n v) = v mod 256 ^ n"
proof (induction n v rule: le_bytes.induct)
  case (1 v)
  then show ?case by simp
next
  case (2 n v)
  have "unat (of_nat v :: byte) = v mod 256" by (simp add: unat_of_nat)
  with 2 show ?case by (simp add: mod_mult2_eq)
qed

lemma le_word [simp]:
  fixes w :: "'a :: len word"
  assumes "LENGTH('a) = 8 * n"
  shows "of_nat (le_nat (le_bytes n (unat w))) = w"
proof -
  have "(256 :: nat) ^ n = 2 ^ LENGTH('a)"
    using assms by (simp add: power_mult)
  moreover have "unat w < 2 ^ LENGTH('a)" by (rule unsigned_less)
  ultimately have "le_nat (le_bytes n (unat w)) = unat w"
    by (simp add: le_nat_le_bytes)
  then show ?thesis by simp
qed

end
