(* ===== verification/Interfaces.thy ===== *)
theory Interfaces
  imports Prelude
begin

text \<open>
  The interfaces between the components, as locales: what a client calls is a \<^theory_text>\<open>fixes\<close>,
  what the provider promises is an \<^theory_text>\<open>assumes\<close>, and the client's lemmas are proved once
  inside. Every locale is interpreted on the model of the code in the theory of the component that
  provides it.
\<close>

section \<open>A queue of bytes\<close>

text \<open>
  What the protocol code relies on when it uses a \<^verbatim>\<open>Buffer\<close>: bytes are put in at the end
  and taken from the front. A script is a sequence of such calls; \<open>run_fifo\<close> runs one and
  collects the bytes the reader took.
\<close>

datatype fifo_call = Put bytes | Get nat

fun run_fifo :: "(bytes \<Rightarrow> 'b \<Rightarrow> 'b option) \<Rightarrow> (nat \<Rightarrow> 'b \<Rightarrow> 'b option) \<Rightarrow> ('b \<Rightarrow> bytes) \<Rightarrow>
    fifo_call list \<Rightarrow> 'b \<Rightarrow> (bytes \<times> 'b) option" where
  "run_fifo enq deq view [] b = Some ([], b)"
| "run_fifo enq deq view (Put d # cs) b = do {
     b' \<leftarrow> enq d b;
     run_fifo enq deq view cs b'
   }"
| "run_fifo enq deq view (Get n # cs) b = do {
     b' \<leftarrow> deq n b;
     (out, b'') \<leftarrow> run_fifo enq deq view cs b';
     Some (take n (view b) @ out, b'')
   }"

fun fifo_input :: "fifo_call list \<Rightarrow> bytes" where
  "fifo_input [] = []"
| "fifo_input (Put d # cs) = d @ fifo_input cs"
| "fifo_input (Get n # cs) = fifo_input cs"

text \<open>The specification: the queue is the list of its bytes.\<close>

definition list_enq :: "bytes \<Rightarrow> bytes \<Rightarrow> bytes option" where
  "list_enq d q = Some (q @ d)"

definition list_deq :: "nat \<Rightarrow> bytes \<Rightarrow> bytes option" where
  "list_deq n q = (if n \<le> length q then Some (drop n q) else None)"

definition run_list :: "fifo_call list \<Rightarrow> bytes \<Rightarrow> (bytes \<times> bytes) option" where
  "run_list = run_fifo list_enq list_deq (\<lambda>q. q)"

lemma run_list_simps [simp]:
  "run_list [] q = Some ([], q)"
  "run_list (Put d # cs) q = run_list cs (q @ d)"
  "run_list (Get n # cs) q =
     (if n \<le> length q
      then map_option (\<lambda>(out, q'). (take n q @ out, q')) (run_list cs (drop n q)) else None)"
  by (simp_all add: run_list_def list_enq_def list_deq_def map_option_case split: option.split)

lemma run_list_conserves:
  "run_list cs q = Some (out, q') \<Longrightarrow> out @ q' = q @ fifo_input cs"
proof (induction cs arbitrary: q out q')
  case Nil
  then show ?case by simp
next
  case (Cons c cs)
  show ?case
  proof (cases c)
    case (Put d)
    with Cons.prems have "run_list cs (q @ d) = Some (out, q')" by simp
    from Cons.IH [OF this] show ?thesis by (simp add: Put)
  next
    case (Get n)
    with Cons.prems obtain o' where *: "run_list cs (drop n q) = Some (o', q')"
      and out: "out = take n q @ o'"
      by (auto split: if_splits)
    from Cons.IH [OF *] show ?thesis
      by (simp add: Get out)
  qed
qed

locale byte_fifo =
  fixes enq :: "bytes \<Rightarrow> 'b \<Rightarrow> 'b option"
    and deq :: "nat \<Rightarrow> 'b \<Rightarrow> 'b option"
    and view :: "'b \<Rightarrow> bytes"
    and ok :: "'b \<Rightarrow> bool"
  assumes enq_ok: "ok b \<Longrightarrow> \<exists>b'. enq d b = Some b' \<and> ok b' \<and> view b' = view b @ d"
    and deq_ok: "ok b \<Longrightarrow> n \<le> length (view b) \<Longrightarrow>
      \<exists>b'. deq n b = Some b' \<and> ok b' \<and> view b' = drop n (view b)"
    and deq_abort: "ok b \<Longrightarrow> length (view b) < n \<Longrightarrow> deq n b = None"
begin

text \<open>Every script of calls does to the provider what it does to the list of bytes.\<close>

lemma run_refines:
  "ok b \<Longrightarrow>
     map_option (\<lambda>(out, b'). (out, view b')) (run_fifo enq deq view cs b) = run_list cs (view b)"
proof (induction cs arbitrary: b)
  case Nil
  then show ?case by simp
next
  case (Cons c cs)
  show ?case
  proof (cases c)
    case (Put d)
    obtain b' where "enq d b = Some b'" "ok b'" "view b' = view b @ d"
      using enq_ok [OF Cons.prems] by blast
    with Cons.IH [of b'] show ?thesis by (simp add: Put)
  next
    case (Get n)
    show ?thesis
    proof (cases "n \<le> length (view b)")
      case True
      then obtain b' where b': "deq n b = Some b'" "ok b'" "view b' = drop n (view b)"
        using deq_ok [OF Cons.prems] by blast
      from Cons.IH [OF b'(2)] b' True show ?thesis
        by (cases "run_fifo enq deq view cs b'") (auto simp: Get dest: sym)
    next
      case False
      with deq_abort [OF Cons.prems, of n] show ?thesis by (simp add: Get)
    qed
  qed
qed

lemma run_ok:
  "ok b \<Longrightarrow> run_fifo enq deq view cs b = Some (out, b') \<Longrightarrow> ok b'"
proof (induction cs arbitrary: b out)
  case Nil
  then show ?case by simp
next
  case (Cons c cs)
  show ?case
  proof (cases c)
    case (Put d)
    with Cons show ?thesis
      using enq_ok [OF Cons.prems(1), of d] by (auto simp: abort_simps)
  next
    case (Get n)
    with Cons.prems obtain b1 o1 where 1: "deq n b = Some b1"
      and 2: "run_fifo enq deq view cs b1 = Some (o1, b')"
      by (auto simp: abort_simps)
    from 1 have "n \<le> length (view b)"
      using deq_abort [OF Cons.prems(1), of n] by (metis not_le option.distinct(1))
    with 1 deq_ok [OF Cons.prems(1), of n] have "ok b1" by auto
    from Cons.IH [OF this 2] show ?thesis .
  qed
qed

text \<open>Nothing is lost, duplicated or reordered between the writer and the reader.\<close>

lemma fifo_order:
  assumes "ok b" and "run_fifo enq deq view cs b = Some (out, b')"
  shows "out @ view b' = view b @ fifo_input cs"
proof -
  from run_refines [OF assms(1), of cs] assms(2)
  have "run_list cs (view b) = Some (out, view b')" by simp
  then show ?thesis by (rule run_list_conserves)
qed

text \<open>Appending pieces one after the other is appending their concatenation.\<close>

lemma enq_enq:
  assumes "ok b" and "enq d b = Some b1" and "enq e b1 = Some b2"
  shows "view b2 = view b @ d @ e"
  using enq_ok [OF assms(1), of d] enq_ok [of b1 e] assms(2,3) by auto

end

section \<open>A log of messages\<close>

text \<open>
  What the broker relies on when it stores a message: the log grows at its end by the message, in the
  form the log keeps it under its number. \<open>put_all\<close> stores one message after the other.
\<close>

fun put_all :: "('m \<Rightarrow> 'p \<Rightarrow> 'p option) \<Rightarrow> 'm list \<Rightarrow> 'p \<Rightarrow> 'p option" where
  "put_all put [] p = Some p"
| "put_all put (m # ms) p = (put m p \<bind> put_all put ms)"

fun number_from :: "(nat \<Rightarrow> 'm \<Rightarrow> 'm) \<Rightarrow> nat \<Rightarrow> 'm list \<Rightarrow> 'm list" where
  "number_from keep n [] = []"
| "number_from keep n (m # ms) = keep n m # number_from keep (Suc n) ms"

locale message_log =
  fixes put :: "'m \<Rightarrow> 'p \<Rightarrow> 'p option"
    and log :: "'p \<Rightarrow> 'm list \<Rightarrow> bool"
    and keep :: "nat \<Rightarrow> 'm \<Rightarrow> 'm"
    and fits :: "'p \<Rightarrow> 'm \<Rightarrow> bool"
    and limit :: nat
  assumes put_ok: "log p ms \<Longrightarrow> fits p m \<Longrightarrow> length ms + 1 < limit \<Longrightarrow>
      \<exists>p'. put m p = Some p' \<and> log p' (ms @ [keep (length ms) m]) \<and> fits p' = fits p"
begin

text \<open>Messages that are stored one after the other are the end of the log, in order, each once.\<close>

lemma put_all_ok:
  "log p ms \<Longrightarrow> \<forall>m \<in> set xs. fits p m \<Longrightarrow> length ms + length xs < limit \<Longrightarrow>
     \<exists>p'. put_all put xs p = Some p' \<and> log p' (ms @ number_from keep (length ms) xs) \<and> fits p' = fits p"
proof (induction xs arbitrary: p ms)
  case Nil
  then show ?case by simp
next
  case (Cons x xs)
  then obtain p1 where p1: "put x p = Some p1" "log p1 (ms @ [keep (length ms) x])" "fits p1 = fits p"
    using put_ok [of p ms x] by auto
  have "\<exists>p'. put_all put xs p1 = Some p' \<and> log p' ((ms @ [keep (length ms) x]) @
      number_from keep (length (ms @ [keep (length ms) x])) xs) \<and> fits p' = fits p1"
    using Cons.prems p1 by (intro Cons.IH) simp_all
  with p1 show ?case by simp
qed

end

section \<open>Cutting a byte stream into frames\<close>

text \<open>
  A receiver looks at the bytes it has so far and decides: not enough for a frame, a whole frame
  and the rest, or a broken stream, which it throws away.
\<close>

datatype cut = Need_More | Frame bytes bytes | Broken

fun drain_fuel :: "(bytes \<Rightarrow> cut) \<Rightarrow> nat \<Rightarrow> bytes \<Rightarrow> bytes list \<times> bytes" where
  "drain_fuel cutter 0 xs = ([], xs)"
| "drain_fuel cutter (Suc n) xs =
     (case cutter xs of
        Need_More \<Rightarrow> ([], xs)
      | Broken \<Rightarrow> ([], [])
      | Frame f rest \<Rightarrow> (let (fs, r) = drain_fuel cutter n rest in (f # fs, r)))"

text \<open>Every frame is at least one byte, so one round per byte is enough.\<close>

definition drain :: "(bytes \<Rightarrow> cut) \<Rightarrow> bytes \<Rightarrow> bytes list \<times> bytes" where
  "drain cutter xs = drain_fuel cutter (length xs) xs"

text \<open>The receiver is called after each chunk with what was left over and the chunk.\<close>

fun feed :: "(bytes \<Rightarrow> cut) \<Rightarrow> bytes list \<Rightarrow> bytes \<Rightarrow> bytes list \<times> bytes" where
  "feed cutter [] left = ([], left)"
| "feed cutter (c # cs) left =
     (let (fs, left') = drain cutter (left @ c); (gs, r) = feed cutter cs left' in (fs @ gs, r))"

locale framing =
  fixes cutter :: "bytes \<Rightarrow> cut"
    and frame :: "bytes \<Rightarrow> bool"
  assumes cut_frame: "frame f \<Longrightarrow> cutter (f @ rest) = Frame f rest"
    and cut_prefix: "frame f \<Longrightarrow> f = p @ q \<Longrightarrow> q \<noteq> [] \<Longrightarrow> cutter p = Need_More"
    and cut_nil: "cutter [] = Need_More"
    and frame_nonempty: "frame f \<Longrightarrow> f \<noteq> []"
    and cut_shrinks: "cutter xs = Frame f rest \<Longrightarrow> length rest < length xs"
begin

lemma drain_fuel_enough: "length xs \<le> n \<Longrightarrow> drain_fuel cutter n xs = drain cutter xs"
proof (induction n arbitrary: xs rule: less_induct)
  case (less n)
  show ?case
  proof (cases "cutter xs")
    case Need_More
    with less.prems show ?thesis by (cases n; cases "length xs") (simp_all add: drain_def)
  next
    case Broken
    with less.prems cut_nil show ?thesis
      by (cases n; cases "length xs") (auto simp: drain_def)
  next
    case (Frame f rest)
    from cut_shrinks [OF Frame] obtain k where k: "length xs = Suc k" "length rest \<le> k"
      by (cases "length xs") auto
    with less.prems obtain n' where n': "n = Suc n'" "length rest \<le> n'"
      by (cases n) auto
    have "drain_fuel cutter n' rest = drain cutter rest"
      using n' by (intro less.IH) simp_all
    moreover have "drain_fuel cutter k rest = drain cutter rest"
      using k n' less.prems by (intro less.IH) (cases "k = n'", simp_all)
    ultimately show ?thesis using Frame k(1) n'(1) by (simp add: drain_def)
  qed
qed

lemma drain_unfold:
  "drain cutter xs =
     (case cutter xs of
        Need_More \<Rightarrow> ([], xs)
      | Broken \<Rightarrow> ([], [])
      | Frame f rest \<Rightarrow> (let (fs, r) = drain cutter rest in (f # fs, r)))"
proof -
  have "drain cutter xs = drain_fuel cutter (Suc (length xs)) xs"
    by (rule drain_fuel_enough [symmetric]) simp
  also have "\<dots> = (case cutter xs of Need_More \<Rightarrow> ([], xs) | Broken \<Rightarrow> ([], [])
      | Frame f rest \<Rightarrow> (let (fs, r) = drain cutter rest in (f # fs, r)))"
    by (auto simp: drain_fuel_enough dest: cut_shrinks split: cut.split)
  finally show ?thesis .
qed

text \<open>A proper beginning of a frame, or nothing: what may be left over.\<close>

definition partial :: "bytes \<Rightarrow> bool" where
  "partial p \<longleftrightarrow> p = [] \<or> (\<exists>f q. frame f \<and> f = p @ q \<and> q \<noteq> [])"

lemma cut_partial: "partial p \<Longrightarrow> cutter p = Need_More"
  using cut_prefix cut_nil by (auto simp: partial_def)

lemma drain_fuel_frames:
  "\<forall>f \<in> set fs. frame f \<Longrightarrow> partial p \<Longrightarrow> length (concat fs @ p) \<le> n \<Longrightarrow>
     drain_fuel cutter n (concat fs @ p) = (fs, p)"
proof (induction fs arbitrary: n)
  case Nil
  then show ?case by (cases n) (simp_all add: cut_partial)
next
  case (Cons f fs)
  then have f: "frame f" "f \<noteq> []" by (simp_all add: frame_nonempty)
  with Cons.prems(3) obtain m where n: "n = Suc m" by (cases n) auto
  with Cons.prems(3) f(2) have "length (concat fs @ p) \<le> m"
    by (cases f) auto
  with Cons have "drain_fuel cutter m (concat fs @ p) = (fs, p)" by simp
  with cut_frame [OF f(1), of "concat fs @ p"] show ?case by (simp add: n)
qed

lemma drain_frames:
  "\<forall>f \<in> set fs. frame f \<Longrightarrow> partial p \<Longrightarrow> drain cutter (concat fs @ p) = (fs, p)"
  by (simp add: drain_def drain_fuel_frames)

text \<open>Any cut of a stream of frames is at a frame boundary or inside one frame.\<close>

lemma stream_split:
  "\<forall>f \<in> set fs. frame f \<Longrightarrow> concat fs = xs @ ys \<Longrightarrow>
     \<exists>gs hs p. fs = gs @ hs \<and> xs = concat gs @ p \<and> partial p \<and> p @ ys = concat hs"
proof (induction fs arbitrary: xs)
  case Nil
  then have "[] = [] @ ([] :: bytes list)" "xs = concat [] @ []" "partial []" "[] @ ys = concat []"
    by (simp_all add: partial_def)
  then show ?case by blast
next
  case (Cons f fs)
  show ?case
  proof (cases "length f \<le> length xs")
    case True
    from Cons.prems(2) have "f @ concat fs = xs @ ys" by simp
    then obtain us where "f = xs @ us \<or> xs = f @ us"
      unfolding append_eq_append_conv2 by blast
    with True have "xs = f @ drop (length f) xs" by (elim disjE) simp_all
    then obtain xs' where xs: "xs = f @ xs'" ..
    with Cons.prems have "concat fs = xs' @ ys" by simp
    with Cons.prems(1) have "\<exists>gs hs p. fs = gs @ hs \<and> xs' = concat gs @ p \<and> partial p
        \<and> p @ ys = concat hs" by (intro Cons.IH) simp_all
    then obtain gs hs p where "fs = gs @ hs" "xs' = concat gs @ p" "partial p"
        "p @ ys = concat hs" by (elim exE conjE)
    with xs have "f # fs = (f # gs) @ hs" "xs = concat (f # gs) @ p" "partial p" "p @ ys = concat hs"
      by simp_all
    then show ?thesis by blast
  next
    case False
    from Cons.prems(2) have "f @ concat fs = xs @ ys" by simp
    then obtain us where "f = xs @ us \<or> f @ us = xs"
      unfolding append_eq_append_conv2 by blast
    with False have "f = xs @ us \<and> us \<noteq> []" by (elim disjE) auto
    then obtain q where q: "f = xs @ q" "q \<noteq> []" by blast
    with Cons.prems(1) have "partial xs" by (auto simp: partial_def)
    with Cons.prems(2) have "f # fs = [] @ (f # fs)" "xs = concat [] @ xs" "partial xs"
        "xs @ ys = concat (f # fs)" by simp_all
    then show ?thesis by blast
  qed
qed

text \<open>
  However the stream of frames is chopped into chunks, the receiver delivers the frames, each once
  and in order, and nothing is left over.
\<close>

lemma feed_frames:
  "\<forall>f \<in> set fs. frame f \<Longrightarrow> partial left \<Longrightarrow> concat fs = left @ concat chunks \<Longrightarrow>
     feed cutter chunks left = (fs, [])"
proof (induction chunks arbitrary: fs left)
  case Nil
  then have eq: "concat fs @ [] = concat [] @ left" by simp
  have "drain cutter (concat fs @ []) = (fs, [])"
    using Nil.prems(1) by (intro drain_frames) (simp_all add: partial_def)
  moreover have "drain cutter (concat [] @ left) = ([], left)"
    using Nil.prems(2) by (intro drain_frames) simp_all
  ultimately show ?case using eq by simp
next
  case (Cons c chunks)
  from Cons.prems(3) have "concat fs = (left @ c) @ concat chunks" by simp
  from stream_split [OF Cons.prems(1) this] obtain gs hs p
    where *: "fs = gs @ hs" "left @ c = concat gs @ p" "partial p" "p @ concat chunks = concat hs"
    by (elim exE conjE)
  from Cons.prems(1) *(1) have gs: "\<forall>f \<in> set gs. frame f" and hs: "\<forall>f \<in> set hs. frame f"
    by simp_all
  have "drain cutter (left @ c) = (gs, p)"
    unfolding *(2) by (rule drain_frames [OF gs *(3)])
  moreover have "feed cutter chunks p = (hs, [])"
    by (rule Cons.IH [OF hs *(3) *(4) [symmetric]])
  ultimately show ?case by (simp add: *(1))
qed

end

section \<open>A source of ids\<close>

text \<open>
  What a sender relies on when it tags its messages: an id that is drawn was never issued before. A draw
  may fail (left summand) without harm.
\<close>

fun draws :: "('g \<Rightarrow> 'e \<Rightarrow> (('x + 'i) \<times> 'g \<times> 'e) option) \<Rightarrow> nat \<Rightarrow> 'g \<Rightarrow> 'e \<Rightarrow> 'i list option" where
  "draws draw 0 g e = Some []"
| "draws draw (Suc n) g e = do {
     (r, g', e') \<leftarrow> draw g e;
     tags \<leftarrow> draws draw n g' e';
     Some (case r of Inl _ \<Rightarrow> tags | Inr i \<Rightarrow> i # tags)
   }"

locale id_source =
  fixes draw :: "'g \<Rightarrow> 'e \<Rightarrow> (('x + 'i) \<times> 'g \<times> 'e) option"
    and ok :: "'g \<Rightarrow> bool"
    and env :: "'e \<Rightarrow> bool"
    and issued :: "'g \<Rightarrow> 'i \<Rightarrow> bool"
  assumes draw_ok: "draw g e = Some (r, g', e') \<Longrightarrow> ok g \<Longrightarrow> env e \<Longrightarrow>
      ok g' \<and> env e' \<and> (\<forall>i. issued g i \<longrightarrow> issued g' i) \<and> (\<forall>i. r = Inr i \<longrightarrow> \<not> issued g i \<and> issued g' i)"
begin

lemma fresh:
  assumes "draw g e = Some (Inr i, g', e')" and "ok g" and "env e" and "\<forall>j \<in> A. issued g j"
  shows "i \<notin> A" and "\<forall>j \<in> insert i A. issued g' j" and "ok g'"
  using draw_ok [OF assms(1-3)] assms(4) by auto

lemma draws_distinct:
  "draws draw n g e = Some tags \<Longrightarrow> ok g \<Longrightarrow> env e \<Longrightarrow>
     distinct tags \<and> (\<forall>i \<in> set tags. \<not> issued g i)"
proof (induction n arbitrary: g e tags)
  case (Suc n)
  then obtain r g' e' rest where d: "draw g e = Some (r, g', e')" "draws draw n g' e' = Some rest"
    "tags = (case r of Inl _ \<Rightarrow> rest | Inr i \<Rightarrow> i # rest)"
    by (auto split: Option.bind_split_asm prod.split_asm)
  note step = draw_ok [OF d(1) Suc.prems(2,3)]
  have "distinct rest \<and> (\<forall>i \<in> set rest. \<not> issued g' i)"
    using Suc.IH [OF d(2)] step by blast
  with step d(3) show ?case by (cases r) auto
qed simp

end

end
