(* ===== verification/Buffer.thy ===== *)
theory Buffer
  imports Interfaces
begin

text \<open>
  \<^verbatim>\<open>skylu/net/buffer.h\<close> and \<^verbatim>\<open>buffer.cc\<close>: the byte buffer between a socket and
  the protocol code. The vector \<open>m_queue\<close> holds the readable bytes between the read and the
  write position; appending moves the bytes to the front, or enlarges the vector, when the space
  behind the write position is too small.

  The positions are \<^verbatim>\<open>size_t\<close> in the code and \<open>nat\<close> here: every subtraction of the
  code is one of two positions that \<open>wf_buffer\<close> orders, so it never wraps. A failed
  \<^verbatim>\<open>assert\<close> is \<open>None\<close>.
\<close>

section \<open>State and operations\<close>

record buffer =
  m_wpos :: nat
  m_rpos :: nat
  m_queue :: bytes

definition kInitialSize :: nat where "kInitialSize = 1024"

definition kInitPos :: nat where "kInitPos = 0"

text \<open>The constructor: a vector of \<open>n\<close> zero bytes.\<close>

definition buffer_new :: "nat \<Rightarrow> buffer" where
  "buffer_new n = \<lparr>m_wpos = 0, m_rpos = 0, m_queue = replicate n 0\<rparr>"

definition readableBytes :: "buffer \<Rightarrow> nat" where
  "readableBytes b = m_wpos b - m_rpos b"

definition writeableBytes :: "buffer \<Rightarrow> nat" where
  "writeableBytes b = length (m_queue b) - m_wpos b"

definition capacity :: "buffer \<Rightarrow> nat" where
  "capacity b = length (m_queue b)"

text \<open>What a reader of \<^verbatim>\<open>curRead()\<close> sees: the bytes up to the write position.\<close>

definition contents :: "buffer \<Rightarrow> bytes" where
  "contents b = span (m_rpos b) (m_wpos b) (m_queue b)"

definition resetAll :: "buffer \<Rightarrow> buffer" where
  "resetAll b = b\<lparr>m_rpos := kInitPos, m_wpos := kInitPos\<rparr>"

text \<open>\<^verbatim>\<open>swap(rhs)\<close>: the pair (this, rhs) after the call.\<close>

definition swap_buffer :: "buffer \<Rightarrow> buffer \<Rightarrow> buffer \<times> buffer" where
  "swap_buffer b rhs =
     (b\<lparr>m_queue := m_queue rhs, m_wpos := m_wpos rhs, m_rpos := m_rpos rhs\<rparr>,
      rhs\<lparr>m_queue := m_queue b, m_wpos := m_wpos b, m_rpos := m_rpos b\<rparr>)"

definition updatePos :: "nat \<Rightarrow> buffer \<Rightarrow> buffer option" where
  "updatePos len b = do {
     assert_that (len \<le> readableBytes b);
     if len < readableBytes b then Some (b\<lparr>m_rpos := m_rpos b + len\<rparr>)
     else Some (resetAll b)
   }"

text \<open>
  \<^verbatim>\<open>updatePosUntil(end)\<close>: a pointer into the buffer is its distance from
  \<^verbatim>\<open>curRead()\<close>.
\<close>

definition updatePosUntil :: "nat \<Rightarrow> buffer \<Rightarrow> buffer option" where
  "updatePosUntil end_off b = updatePos end_off b"

definition hasWriteten :: "nat \<Rightarrow> buffer \<Rightarrow> buffer option" where
  "hasWriteten len b = do {
     assert_that (len \<le> writeableBytes b);
     Some (b\<lparr>m_wpos := m_wpos b + len\<rparr>)
   }"

text \<open>\<^verbatim>\<open>vector::resize\<close> to a larger size appends zero bytes, to a smaller one truncates.\<close>

definition vec_resize :: "nat \<Rightarrow> bytes \<Rightarrow> bytes" where
  "vec_resize n q = take n q @ replicate (n - length q) 0"

definition resize :: "nat \<Rightarrow> buffer \<Rightarrow> buffer option" where
  "resize len b =
     (if writeableBytes b + m_rpos b < len + kInitPos
      then Some (b\<lparr>m_queue := vec_resize (m_wpos b + len) (m_queue b)\<rparr>)
      else do {
        assert_that (kInitPos < m_rpos b);
        let readable = readableBytes b;
        let b' = b\<lparr>m_queue := splice_at kInitPos (span (m_rpos b) (m_wpos b) (m_queue b)) (m_queue b),
                   m_rpos := kInitPos,
                   m_wpos := kInitPos + readable\<rparr>;
        assert_that (readable = readableBytes b');
        Some b'
      })"

definition ensureWriteableBytes :: "nat \<Rightarrow> buffer \<Rightarrow> buffer option" where
  "ensureWriteableBytes len b = do {
     b' \<leftarrow> (if writeableBytes b < len then resize len b else Some b);
     assert_that (writeableBytes b' \<ge> len);
     Some b'
   }"

definition buf_append :: "bytes \<Rightarrow> buffer \<Rightarrow> buffer option" where
  "buf_append data b = do {
     b' \<leftarrow> ensureWriteableBytes (length data) b;
     let b'' = b'\<lparr>m_queue := splice_at (m_wpos b') data (m_queue b')\<rparr>;
     hasWriteten (length data) b''
   }"

text \<open>
  \<^verbatim>\<open>findCRLF()\<close>: \<^verbatim>\<open>std::search\<close> for the two bytes carriage return, line feed
  in the readable bytes; the result is the distance from \<^verbatim>\<open>curRead()\<close>, \<open>None\<close> the
  null pointer.
\<close>

fun search_crlf :: "bytes \<Rightarrow> nat option" where
  "search_crlf (x # y # zs) =
     (if x = 13 \<and> y = 10 then Some 0 else map_option Suc (search_crlf (y # zs)))"
| "search_crlf _ = None"

definition findCRLF :: "buffer \<Rightarrow> nat option" where
  "findCRLF b = search_crlf (contents b)"

text \<open>
  \<^verbatim>\<open>readFd\<close> on a stream socket. What \<^verbatim>\<open>readv\<close> returned is an argument: an error
  number, or the bytes received; it fills the space behind the write position first and the stack
  buffer \<^verbatim>\<open>extrabuf\<close> with the rest. The result is \<^verbatim>\<open>n\<close> with the saved error
  number, and the buffer.
\<close>

datatype sys_read = Read_Error int | Read_Bytes bytes

definition extrabuf_size :: nat where "extrabuf_size = 65536"

definition readv_limit :: "buffer \<Rightarrow> nat" where
  "readv_limit b =
     (if writeableBytes b < extrabuf_size then writeableBytes b + extrabuf_size
      else writeableBytes b)"

definition readFd :: "sys_read \<Rightarrow> buffer \<Rightarrow> (int \<times> int option \<times> buffer) option" where
  "readFd r b =
     (case r of
        Read_Error e \<Rightarrow> Some (-1, Some e, b)
      | Read_Bytes data \<Rightarrow> do {
          let writeable = writeableBytes b;
          let b1 = b\<lparr>m_queue := splice_at (m_wpos b) (take writeable data) (m_queue b)\<rparr>;
          b' \<leftarrow> (if length data \<le> writeable then hasWriteten (length data) b1
                else do {
                  b2 \<leftarrow> hasWriteten writeable b1;
                  buf_append (drop writeable data) b2
                });
          Some (int (length data), None, b')
        })"

text \<open>\<^verbatim>\<open>readFd\<close> on a datagram socket: everything goes through the stack buffer.\<close>

definition readFd_udp :: "sys_read \<Rightarrow> buffer \<Rightarrow> (int \<times> int option \<times> buffer) option" where
  "readFd_udp r b =
     (case r of
        Read_Error e \<Rightarrow> Some (-1, Some e, b)
      | Read_Bytes data \<Rightarrow> do {
          b' \<leftarrow> buf_append data b;
          Some (int (length data), None, b')
        })"

section \<open>Invariant\<close>

definition wf_buffer :: "buffer \<Rightarrow> bool" where
  "wf_buffer b \<longleftrightarrow> m_rpos b \<le> m_wpos b \<and> m_wpos b \<le> length (m_queue b)"

lemma wf_buffer_new [simp, keeps_wf]: "wf_buffer (buffer_new n)"
  by (simp add: wf_buffer_def buffer_new_def)

lemma contents_buffer_new [simp]: "contents (buffer_new n) = []"
  by (simp add: contents_def buffer_new_def)

lemma length_contents [simp]: "wf_buffer b \<Longrightarrow> length (contents b) = readableBytes b"
  by (simp add: wf_buffer_def contents_def readableBytes_def)

text \<open>The memory from the read position on starts with the readable bytes.\<close>

lemma pointer_contents:
  assumes "wf_buffer b"
  shows "\<exists>rest. drop (m_rpos b) (m_queue b) = contents b @ rest"
proof -
  have "drop (m_rpos b) (m_queue b) = contents b @ drop (m_wpos b) (m_queue b)"
    using assms by (simp add: wf_buffer_def contents_def span_drop_take)
      (metis append_take_drop_id drop_append le_trans length_take min.absorb2 diff_is_0_eq drop0)
  then show ?thesis ..
qed

lemma resetAll_wf [simp, keeps_wf]: "wf_buffer (resetAll b)"
  by (simp add: wf_buffer_def resetAll_def kInitPos_def)

lemma contents_resetAll [simp]: "contents (resetAll b) = []"
  by (simp add: contents_def resetAll_def)

lemma readableBytes_resetAll [simp]: "readableBytes (resetAll b) = 0"
  by (simp add: readableBytes_def resetAll_def)

lemma updatePos_spec:
  assumes "wf_buffer b" and "len \<le> readableBytes b"
  shows "\<exists>b'. updatePos len b = Some b' \<and> wf_buffer b' \<and> contents b' = drop len (contents b)"
  using assms
  by (auto simp: updatePos_def wf_buffer_def contents_def readableBytes_def resetAll_def
      kInitPos_def drop_span)

lemma updatePos_abort: "readableBytes b < len \<Longrightarrow> updatePos len b = None"
  by (simp add: updatePos_def)

lemma hasWriteten_spec:
  assumes "wf_buffer b" and "len \<le> writeableBytes b"
  shows "hasWriteten len b = Some (b\<lparr>m_wpos := m_wpos b + len\<rparr>)"
    and "wf_buffer (b\<lparr>m_wpos := m_wpos b + len\<rparr>)"
  using assms by (auto simp: hasWriteten_def wf_buffer_def writeableBytes_def)

lemma resize_spec:
  assumes "wf_buffer b" and "writeableBytes b < len"
  shows "\<exists>b'. resize len b = Some b' \<and> wf_buffer b' \<and> contents b' = contents b
          \<and> len \<le> writeableBytes b'"
proof (cases "writeableBytes b + m_rpos b < len + kInitPos")
  case True
  with assms show ?thesis
    by (auto simp: resize_def wf_buffer_def contents_def writeableBytes_def vec_resize_def
        kInitPos_def span_append_right)
next
  case False
  with assms show ?thesis
    by (auto simp: resize_def wf_buffer_def contents_def writeableBytes_def readableBytes_def
        kInitPos_def splice_at_def Let_def span_def)
qed

lemma ensureWriteableBytes_spec:
  assumes "wf_buffer b"
  shows "\<exists>b'. ensureWriteableBytes len b = Some b' \<and> wf_buffer b' \<and> contents b' = contents b
          \<and> len \<le> writeableBytes b'"
  using resize_spec [OF assms, of len] assms
  by (cases "writeableBytes b < len") (auto simp: ensureWriteableBytes_def)

lemma write_behind:
  assumes "wf_buffer b" and "length data \<le> writeableBytes b"
  defines "b' \<equiv> b\<lparr>m_queue := splice_at (m_wpos b) data (m_queue b),
                    m_wpos := m_wpos b + length data\<rparr>"
  shows "wf_buffer b'" and "contents b' = contents b @ data"
  using assms by (auto simp: wf_buffer_def contents_def writeableBytes_def span_splice_at)

lemma buf_append_spec:
  assumes "wf_buffer b"
  shows "\<exists>b'. buf_append data b = Some b' \<and> wf_buffer b' \<and> contents b' = contents b @ data"
proof -
  obtain b' where b': "ensureWriteableBytes (length data) b = Some b'" "wf_buffer b'"
      "contents b' = contents b" "length data \<le> writeableBytes b'"
    using ensureWriteableBytes_spec [OF assms] by blast
  then show ?thesis
    using write_behind [OF b'(2), of data]
    by (auto simp: buf_append_def hasWriteten_def writeableBytes_def wf_buffer_def)
qed


section \<open>The buffer is a queue of bytes\<close>

interpretation buf: byte_fifo buf_append updatePos contents wf_buffer
proof unfold_locales
  fix b d assume "wf_buffer b"
  then show "\<exists>b'. buf_append d b = Some b' \<and> wf_buffer b' \<and> contents b' = contents b @ d"
    by (rule buf_append_spec)
next
  fix b n assume "wf_buffer b" "n \<le> length (contents b)"
  then show "\<exists>b'. updatePos n b = Some b' \<and> wf_buffer b' \<and> contents b' = drop n (contents b)"
    by (simp add: updatePos_spec)
next
  fix b n assume "wf_buffer b" "length (contents b) < n"
  then show "updatePos n b = None"
    by (simp add: updatePos_abort)
qed

lemma buf_append_keeps [keeps_wf]:
  "buf_append d b = Some b' \<Longrightarrow> wf_buffer b \<Longrightarrow> wf_buffer b' \<and> contents b' = contents b @ d"
  using buf_append_spec [of b d] by auto

lemma updatePos_keeps [keeps_wf]:
  "updatePos n b = Some b' \<Longrightarrow> wf_buffer b \<Longrightarrow>
     n \<le> readableBytes b \<and> wf_buffer b' \<and> contents b' = drop n (contents b)"
  using updatePos_spec [of b n] updatePos_abort [of b n] by (cases "n \<le> readableBytes b") auto

lemma readFd_spec:
  assumes "wf_buffer b"
  shows "\<exists>b'. readFd (Read_Bytes data) b = Some (int (length data), None, b') \<and> wf_buffer b'
          \<and> contents b' = contents b @ data"
proof (cases "length data \<le> writeableBytes b")
  case True
  with write_behind [OF assms True] show ?thesis
    using assms by (auto simp: readFd_def hasWriteten_def writeableBytes_def wf_buffer_def Let_def)
next
  case False
  let ?w = "writeableBytes b"
  let ?b2 = "b\<lparr>m_queue := splice_at (m_wpos b) (take ?w data) (m_queue b), m_wpos := m_wpos b + ?w\<rparr>"
  from False have len: "length (take ?w data) = ?w" by simp
  with write_behind [OF assms, of "take ?w data"]
  have b2: "wf_buffer ?b2" "contents ?b2 = contents b @ take ?w data" by simp_all
  from False assms have "hasWriteten ?w (b\<lparr>m_queue := splice_at (m_wpos b) (take ?w data) (m_queue b)\<rparr>)
      = Some ?b2"
    using len by (auto simp: hasWriteten_def writeableBytes_def wf_buffer_def)
  with False b2 buf_append_spec [OF b2(1), of "drop ?w data"] show ?thesis
    by (auto simp: readFd_def Let_def)
qed

text \<open>A buffer that holds just these bytes.\<close>

definition buffer_of :: "bytes \<Rightarrow> buffer" where
  "buffer_of bs = \<lparr>m_wpos = length bs, m_rpos = 0, m_queue = bs\<rparr>"

lemma buffer_of_ok: "wf_buffer (buffer_of bs)" "contents (buffer_of bs) = bs"
  by (simp_all add: buffer_of_def wf_buffer_def contents_def)

section \<open>Searching for the end of a line\<close>

lemma search_crlf_Some:
  "search_crlf xs = Some k \<longleftrightarrow>
     Suc k < length xs \<and> xs ! k = 13 \<and> xs ! Suc k = 10 \<and>
     (\<forall>j<k. \<not> (xs ! j = 13 \<and> xs ! Suc j = 10))"
proof (induction xs arbitrary: k rule: search_crlf.induct)
  case (1 x y zs)
  show ?case
  proof (cases "x = 13 \<and> y = 10")
    case True
    then show ?thesis by (cases k) auto
  next
    case False
    with 1 show ?thesis
      by (cases k) (auto simp: less_Suc_eq_0_disj)
  qed
qed simp_all

lemma search_crlf_append:
  "search_crlf xs = Some k \<Longrightarrow> search_crlf (xs @ ys) = Some k"
  by (auto simp: search_crlf_Some nth_append)

text \<open>The first line of the buffer, and what is left when it is taken.\<close>

lemma first_line:
  assumes "wf_buffer b" and "contents b = l @ [13, 10] @ rest" and "13 \<notin> set l"
  shows "findCRLF b = Some (length l)" and "take (length l) (contents b) = l"
    and "\<exists>b'. updatePosUntil (length l + 2) b = Some b' \<and> wf_buffer b' \<and> contents b' = rest"
proof -
  have nth: "(l @ [13, 10] @ rest) ! j \<noteq> 13" if "j < length l" for j
    using assms(3) that by (metis nth_append nth_mem)
  then show "findCRLF b = Some (length l)"
    by (simp add: findCRLF_def assms(2) search_crlf_Some nth_append)
  show "take (length l) (contents b) = l" by (simp add: assms(2))
  have "length l + 2 \<le> readableBytes b"
    using length_contents [OF assms(1)] unfolding assms(2) by simp
  then show "\<exists>b'. updatePosUntil (length l + 2) b = Some b' \<and> wf_buffer b' \<and> contents b' = rest"
    using updatePos_spec [OF assms(1), of "length l + 2"] by (auto simp: updatePosUntil_def assms(2))
qed

lemma first_line_moves:
  assumes "wf_buffer b" and "contents b = l @ [13, 10] @ rest" and "rest \<noteq> []"
  shows "updatePosUntil (length l + 2) b = Some (b\<lparr>m_rpos := m_rpos b + (length l + 2)\<rparr>)"
proof -
  have "length l + 2 < readableBytes b"
    using length_contents [OF assms(1)] assms(3) unfolding assms(2) by (cases rest) simp_all
  then show ?thesis by (simp add: updatePosUntil_def updatePos_def assert_that_def)
qed


section \<open>Properties\<close>

text \<open>
  C13: a buffer is a queue of bytes. Any sequence of \<^verbatim>\<open>append\<close> and \<^verbatim>\<open>updatePos\<close>
  calls on a well-formed buffer hands the reader the same bytes, and leaves the same readable
  bytes, as on an unbounded list of bytes, and it aborts exactly when the list version takes more
  than there is: moving bytes to the front and enlarging the vector are invisible.
\<close>

theorem buffer_refines_byte_queue:
  assumes "wf_buffer b"
  shows "map_option (\<lambda>(out, b'). (out, contents b')) (run_fifo buf_append updatePos contents cs b)
         = run_list cs (contents b)"
  using assms by (rule buf.run_refines)

theorem buffer_refines_byte_queue_witness:
  "map_option (\<lambda>(out, b'). (out, contents b'))
     (run_fifo buf_append updatePos contents [Put [1,2,3], Get 2, Put [4,5], Get 1] (buffer_new 4))
   = Some ([1,2,3], [4,5])"
  using buffer_refines_byte_queue [OF wf_buffer_new, of "[Put [1,2,3], Get 2, Put [4,5], Get 1]" 4]
  by (simp add: eval_nat_numeral)

text \<open>
  \<^verbatim>\<open>readFd\<close> on a stream socket appends exactly the bytes that \<^verbatim>\<open>readv\<close>
  delivered, in order, whether they fit behind the write position or spill into the stack buffer;
  no assertion fails, and an error of the system call leaves the buffer alone.
\<close>

lemma readFd_appends_received:
  assumes "wf_buffer b"
  shows "case r of
           Read_Bytes data \<Rightarrow> \<exists>b'. readFd r b = Some (int (length data), None, b') \<and> wf_buffer b'
                               \<and> contents b' = contents b @ data
         | Read_Error e \<Rightarrow> readFd r b = Some (-1, Some e, b)"
  using readFd_spec [OF assms] by (cases r) (auto simp: readFd_def)

text \<open>
  \<^verbatim>\<open>findCRLF\<close> returns the first carriage return that a line feed follows among the
  readable bytes, and the null pointer exactly when there is none.
\<close>

lemma findCRLF_first:
  "findCRLF b = Some k \<longleftrightarrow>
     Suc k < length (contents b) \<and> contents b ! k = 13 \<and> contents b ! Suc k = 10 \<and>
     (\<forall>j<k. \<not> (contents b ! j = 13 \<and> contents b ! Suc j = 10))"
  by (simp add: findCRLF_def search_crlf_Some)

end
