(* ===== verification/Poll.thy ===== *)
theory Poll
  imports Prelude
begin

text \<open>
  Waiting for descriptors: \<^verbatim>\<open>net/channel.h/.cc\<close> (a descriptor with the events it waits
  for and its callbacks), \<^verbatim>\<open>net/poller.h/.cc\<close> (\<^verbatim>\<open>poll\<close>) and
  \<^verbatim>\<open>net/epoller.h/.cc\<close> (\<^verbatim>\<open>epoll\<close>), the two implementations of
  \<^verbatim>\<open>net/poll.h\<close>.

  Channels are objects: a channel is its number, and the state of a loop's poll object holds what
  the channels store, the table \<open>m_channels\<close> from descriptors to channels, and what the kernel
  is told to wait for: the array \<open>m_pollfds\<close> for \<^verbatim>\<open>poll\<close>, the interest list of the
  \<^verbatim>\<open>epoll\<close> descriptor for the other. \<^verbatim>\<open>epoll_ctl\<close> follows its manual: adding a
  descriptor that is there, changing or deleting one that is not, fails, and the code only logs it.
\<close>

unbundle bit_operations_syntax

section \<open>Channels\<close>

record channel =
  m_fd :: int
  m_events :: u32
  m_retevents :: u32
  m_index :: int

definition POLLIN :: u32 where "POLLIN = 1"
definition POLLPRI :: u32 where "POLLPRI = 2"
definition POLLOUT :: u32 where "POLLOUT = 4"
definition POLLERR :: u32 where "POLLERR = 8"
definition POLLHUP :: u32 where "POLLHUP = 0x10"
definition POLLNVAL :: u32 where "POLLNVAL = 0x20"
definition POLLRDHUP :: u32 where "POLLRDHUP = 0x2000"

definition kNoneEvent :: u32 where "kNoneEvent = 0"
definition kReadEvent :: u32 where "kReadEvent = POLLIN OR POLLPRI"
definition kWriteEvent :: u32 where "kWriteEvent = POLLOUT"

definition Channel :: "int \<Rightarrow> channel" where
  "Channel fd = \<lparr>m_fd = fd, m_events = 0, m_retevents = 0, m_index = -1\<rparr>"

definition isNoneEvent :: "channel \<Rightarrow> bool" where
  "isNoneEvent c \<longleftrightarrow> m_events c = kNoneEvent"

definition isWriting :: "channel \<Rightarrow> bool" where
  "isWriting c \<longleftrightarrow> m_events c AND kWriteEvent \<noteq> 0"

text \<open>What each of the four functions makes of the event mask before it calls \<^verbatim>\<open>update\<close>.\<close>

datatype channel_op = EnableReading | EnableWriting | DisableWriting | DisableAll

fun new_events :: "channel_op \<Rightarrow> u32 \<Rightarrow> u32" where
  "new_events EnableReading e = e OR kReadEvent"
| "new_events EnableWriting e = e OR kWriteEvent"
| "new_events DisableWriting e = e AND NOT kWriteEvent"
| "new_events DisableAll e = kNoneEvent"

text \<open>\<^verbatim>\<open>handleEvent\<close>: the callbacks it calls for the returned events, in order.\<close>

datatype callback = CloseCb | ErrorCb | ReadCb | WriteCb

definition handleEvent :: "channel \<Rightarrow> callback list" where
  "handleEvent c =
     (let r = m_retevents c in
      (if r AND POLLHUP \<noteq> 0 \<and> r AND POLLIN = 0 then [CloseCb] else []) @
      (if r AND (POLLERR OR POLLNVAL) \<noteq> 0 then [ErrorCb] else []) @
      (if r AND (POLLIN OR POLLPRI OR POLLRDHUP) \<noteq> 0 then [ReadCb] else []) @
      (if r AND POLLOUT \<noteq> 0 then [WriteCb] else []))"

section \<open>poll\<close>

record pollfd =
  fd :: int
  events :: "16 word"
  revents :: "16 word"

record poller =
  chan :: "nat \<Rightarrow> channel"
  m_channels :: "int \<Rightarrow> nat option"
  m_pollfds :: "pollfd list"

definition set_index :: "nat \<Rightarrow> int \<Rightarrow> (nat \<Rightarrow> channel) \<Rightarrow> nat \<Rightarrow> channel" where
  "set_index c i chs = chs(c := (chs c)\<lparr>m_index := i\<rparr>)"

definition poller_updateChannel :: "nat \<Rightarrow> poller \<Rightarrow> poller option" where
  "poller_updateChannel c p = do {
     let ch = chan p c;
     if m_index ch < 0 then do {
       assert_that (m_channels p (m_fd ch) = None);
       let pfd = \<lparr>fd = m_fd ch, events = ucast (m_events ch), revents = 0\<rparr>;
       let p = p\<lparr>m_pollfds := m_pollfds p @ [pfd]\<rparr>;
       let index = int (length (m_pollfds p)) - 1;
       Some (p\<lparr>chan := set_index c index (chan p), m_channels := (m_channels p)(m_fd ch \<mapsto> c)\<rparr>)
     } else do {
       assert_that (m_channels p (m_fd ch) \<noteq> None);
       assert_that (m_channels p (m_fd ch) = Some c);
       let index = m_index ch;
       assert_that (0 \<le> index \<and> index < int (length (m_pollfds p)));
       let pfd = m_pollfds p ! nat index;
       assert_that (fd pfd = m_fd ch \<or> fd pfd = - m_fd ch - 1);
       let pfd = pfd\<lparr>fd := m_fd ch, events := ucast (m_events ch), revents := 0\<rparr>;
       let pfd = (if isNoneEvent ch then pfd\<lparr>fd := - m_fd ch - 1\<rparr> else pfd);
       Some (p\<lparr>m_pollfds := (m_pollfds p)[nat index := pfd]\<rparr>)
     }
   }"

definition poller_removeChannel :: "nat \<Rightarrow> poller \<Rightarrow> poller option" where
  "poller_removeChannel c p = do {
     let ch = chan p c;
     assert_that (m_channels p (m_fd ch) \<noteq> None);
     assert_that (m_channels p (m_fd ch) = Some c);
     assert_that (isNoneEvent ch);
     let index = m_index ch;
     assert_that (0 \<le> index \<and> index < int (length (m_pollfds p)));
     let pfd = m_pollfds p ! nat index;
     assert_that (fd pfd = - m_fd ch - 1 \<and> sint (events pfd) = sint (m_events ch));
     let p = p\<lparr>m_channels := (m_channels p)(m_fd ch := None)\<rparr>;
     if nat index = length (m_pollfds p) - 1 then
       Some (p\<lparr>m_pollfds := butlast (m_pollfds p)\<rparr>)
     else do {
       let channelAtEnd = fd (last (m_pollfds p));
       let pfds = (m_pollfds p)[nat index := last (m_pollfds p), length (m_pollfds p) - 1 := pfd];
       let channelAtEnd = (if channelAtEnd < 0 then - channelAtEnd - 1 else channelAtEnd);
       c' \<leftarrow> m_channels p channelAtEnd;
       Some (p\<lparr>chan := set_index c' index (chan p), m_pollfds := butlast pfds\<rparr>)
     }
   }"

text \<open>
  \<^verbatim>\<open>fillActiveChannels\<close>: the channels whose entries have returned events, as many as the
  call reported. The look-up is dereferenced before the assertion that it found something.
\<close>

fun poller_fill :: "(int \<Rightarrow> nat option) \<Rightarrow> pollfd list \<Rightarrow> int \<Rightarrow> (nat \<Rightarrow> channel) \<Rightarrow>
    (nat list \<times> (nat \<Rightarrow> channel)) option" where
  "poller_fill ch [] n chs = Some ([], chs)"
| "poller_fill ch (pfd # pfds) n chs =
     (if n \<le> 0 then Some ([], chs)
      else if 0 < sint (revents pfd) then do {
        c \<leftarrow> ch (fd pfd);
        assert_that (m_fd (chs c) = fd pfd);
        (cs, chs) \<leftarrow> poller_fill ch pfds (n - 1) (chs(c := (chs c)\<lparr>m_retevents := scast (revents pfd)\<rparr>));
        Some (c # cs, chs)
      } else poller_fill ch pfds n chs)"

section \<open>epoll\<close>

definition kNew :: int where "kNew = -1"
definition kAdd :: int where "kAdd = 0"
definition kDel :: int where "kDel = 1"

datatype epoll_operation = EPOLL_CTL_ADD | EPOLL_CTL_MOD | EPOLL_CTL_DEL

text \<open>The kernel's interest list: events and channel pointer of each descriptor.\<close>

record epoller =
  ep_chan :: "nat \<Rightarrow> channel"
  ep_channels :: "int \<Rightarrow> nat option"
  interest_list :: "int \<Rightarrow> (u32 \<times> nat) option"

fun epoll_ctl :: "epoll_operation \<Rightarrow> int \<Rightarrow> u32 \<times> nat \<Rightarrow> (int \<Rightarrow> (u32 \<times> nat) option) \<Rightarrow>
    int \<Rightarrow> (u32 \<times> nat) option" where
  "epoll_ctl EPOLL_CTL_ADD f e l = (if l f = None then l(f \<mapsto> e) else l)"
| "epoll_ctl EPOLL_CTL_MOD f e l = (if l f = None then l else l(f \<mapsto> e))"
| "epoll_ctl EPOLL_CTL_DEL f e l = l(f := None)"

definition epoller_update :: "epoll_operation \<Rightarrow> nat \<Rightarrow> epoller \<Rightarrow> epoller" where
  "epoller_update operation c p =
     p\<lparr>interest_list := epoll_ctl operation (m_fd (ep_chan p c)) (m_events (ep_chan p c), c) (interest_list p)\<rparr>"

definition epoller_updateChannel :: "nat \<Rightarrow> epoller \<Rightarrow> epoller option" where
  "epoller_updateChannel c p = do {
     let ch = ep_chan p c;
     let index = m_index ch;
     if index = kNew \<or> index = kDel then do {
       let p = (if index = kNew then p\<lparr>ep_channels := (ep_channels p)(m_fd ch \<mapsto> c)\<rparr> else p);
       let p = p\<lparr>ep_chan := set_index c kAdd (ep_chan p)\<rparr>;
       Some (epoller_update EPOLL_CTL_ADD c p)
     } else do {
       assert_that (ep_channels p (m_fd ch) \<noteq> None);
       assert_that (ep_channels p (m_fd ch) = Some c);
       assert_that (index = kAdd);
       if isNoneEvent ch then do {
         let p = epoller_update EPOLL_CTL_DEL c p;
         Some (p\<lparr>ep_chan := set_index c kDel (ep_chan p)\<rparr>)
       } else Some (epoller_update EPOLL_CTL_MOD c p)
     }
   }"

definition epoller_removeChannel :: "nat \<Rightarrow> epoller \<Rightarrow> epoller option" where
  "epoller_removeChannel c p = do {
     let ch = ep_chan p c;
     assert_that (ep_channels p (m_fd ch) \<noteq> None);
     assert_that (ep_channels p (m_fd ch) = Some c);
     assert_that (isNoneEvent ch);
     let index = m_index ch;
     assert_that (index = kAdd \<or> index = kDel);
     let p = p\<lparr>ep_channels := (ep_channels p)(m_fd ch := None)\<rparr>;
     let p = (if index = kAdd then epoller_update EPOLL_CTL_DEL c p else p);
     Some (p\<lparr>ep_chan := set_index c kNew (ep_chan p)\<rparr>)
   }"

text \<open>\<open>ready\<close> are the events the kernel returned, at most as many as the array holds.\<close>

fun epoller_fill :: "(int \<Rightarrow> nat option) \<Rightarrow> (u32 \<times> nat) list \<Rightarrow> (nat \<Rightarrow> channel) \<Rightarrow>
    (nat list \<times> (nat \<Rightarrow> channel)) option" where
  "epoller_fill ch [] chs = Some ([], chs)"
| "epoller_fill ch ((ev, c) # rest) chs = do {
     assert_that (ch (m_fd (chs c)) = Some c);
     (cs, chs) \<leftarrow> epoller_fill ch rest (chs(c := (chs c)\<lparr>m_retevents := ev\<rparr>));
     Some (c # cs, chs)
   }"

definition kInitSize :: nat where "kInitSize = 32"

text \<open>\<^verbatim>\<open>Epoller::poll\<close>: the size of the event array doubles when it was filled.\<close>

definition epoller_poll :: "(u32 \<times> nat) list \<Rightarrow> nat \<Rightarrow> epoller \<Rightarrow> (nat list \<times> nat \<times> epoller) option" where
  "epoller_poll ready room p = do {
     assert_that (length ready \<le> room);
     (cs, chs) \<leftarrow> epoller_fill (ep_channels p) ready (ep_chan p);
     Some (cs, if ready \<noteq> [] \<and> length ready = room then length ready * 2 else room, p\<lparr>ep_chan := chs\<rparr>)
   }"

section \<open>What a channel asks of its loop\<close>

definition set_events :: "nat \<Rightarrow> channel_op \<Rightarrow> (nat \<Rightarrow> channel) \<Rightarrow> nat \<Rightarrow> channel" where
  "set_events c op chs = chs(c := (chs c)\<lparr>m_events := new_events op (m_events (chs c))\<rparr>)"

datatype poll_call = Update nat channel_op | Remove nat

fun poller_call :: "poll_call \<Rightarrow> poller \<Rightarrow> poller option" where
  "poller_call (Update c op) p = poller_updateChannel c (p\<lparr>chan := set_events c op (chan p)\<rparr>)"
| "poller_call (Remove c) p = poller_removeChannel c p"

fun epoller_call :: "poll_call \<Rightarrow> epoller \<Rightarrow> epoller option" where
  "epoller_call (Update c op) p = epoller_updateChannel c (p\<lparr>ep_chan := set_events c op (ep_chan p)\<rparr>)"
| "epoller_call (Remove c) p = epoller_removeChannel c p"

section \<open>The contract of a poll object\<close>

text \<open>
  The abstract state: which channels are registered, the events each asks for, and which were ever
  registered. \<open>fd_of\<close> is the descriptor of each channel. A channel registers itself with its
  first call, which must ask for something, on a descriptor that no other registered channel has;
  it is removed when it asks for nothing.
\<close>

record poll_spec =
  sp_reg :: "nat set"
  sp_events :: "nat \<Rightarrow> u32"
  sp_used :: "nat set"

definition spec_new :: poll_spec where
  "spec_new = \<lparr>sp_reg = {}, sp_events = (\<lambda>_. 0), sp_used = {}\<rparr>"

fun poll_legal :: "(nat \<Rightarrow> int) \<Rightarrow> poll_call \<Rightarrow> poll_spec \<Rightarrow> bool" where
  "poll_legal fd_of (Update c op) \<sigma> \<longleftrightarrow> c \<in> sp_reg \<sigma> \<or>
     c \<notin> sp_used \<sigma> \<and> fd_of c \<notin> fd_of ` sp_reg \<sigma> \<and> new_events op 0 \<noteq> 0"
| "poll_legal fd_of (Remove c) \<sigma> \<longleftrightarrow> c \<in> sp_reg \<sigma> \<and> sp_events \<sigma> c = 0"

fun poll_step :: "poll_call \<Rightarrow> poll_spec \<Rightarrow> poll_spec" where
  "poll_step (Update c op) \<sigma> =
     \<sigma>\<lparr>sp_reg := insert c (sp_reg \<sigma>), sp_used := insert c (sp_used \<sigma>),
       sp_events := (sp_events \<sigma>)(c := new_events op (sp_events \<sigma> c))\<rparr>"
| "poll_step (Remove c) \<sigma> = \<sigma>\<lparr>sp_reg := sp_reg \<sigma> - {c}\<rparr>"

fun poll_run_legal :: "(nat \<Rightarrow> int) \<Rightarrow> poll_call list \<Rightarrow> poll_spec \<Rightarrow> bool" where
  "poll_run_legal fd_of [] \<sigma> \<longleftrightarrow> True"
| "poll_run_legal fd_of (x # xs) \<sigma> \<longleftrightarrow> poll_legal fd_of x \<sigma> \<and> poll_run_legal fd_of xs (poll_step x \<sigma>)"

definition spec_watched :: "(nat \<Rightarrow> int) \<Rightarrow> poll_spec \<Rightarrow> (int \<times> u32) set" where
  "spec_watched fd_of \<sigma> = (\<lambda>c. (fd_of c, sp_events \<sigma> c)) ` {c \<in> sp_reg \<sigma>. sp_events \<sigma> c \<noteq> 0}"

locale event_poll =
  fixes fd_of :: "nat \<Rightarrow> int"
    and call :: "poll_call \<Rightarrow> 's \<Rightarrow> 's option"
    and watched :: "'s \<Rightarrow> (int \<times> u32) set"
    and sim :: "poll_spec \<Rightarrow> 's \<Rightarrow> bool"
  assumes sim_step: "sim \<sigma> s \<Longrightarrow> poll_legal fd_of x \<sigma> \<Longrightarrow> \<exists>s'. call x s = Some s' \<and> sim (poll_step x \<sigma>) s'"
    and sim_watched: "sim \<sigma> s \<Longrightarrow> watched s = spec_watched fd_of \<sigma>"
begin

lemma sim_run:
  "sim \<sigma> s \<Longrightarrow> poll_run_legal fd_of xs \<sigma> \<Longrightarrow>
   \<exists>s'. for_each call xs s = Some s' \<and> sim (fold poll_step xs \<sigma>) s'"
proof (induction xs arbitrary: \<sigma> s)
  case (Cons x xs)
  then obtain t where "call x s = Some t" "sim (poll_step x \<sigma>) t"
    using sim_step by fastforce
  with Cons show ?case by simp
qed simp

lemma run_watches:
  assumes "sim \<sigma> s" and "poll_run_legal fd_of xs \<sigma>"
  shows "\<exists>s'. for_each call xs s = Some s' \<and> watched s' = spec_watched fd_of (fold poll_step xs \<sigma>)"
  using sim_run [OF assms] sim_watched by blast

end

section \<open>The array of poll keeps the contract\<close>

definition poller_watched :: "poller \<Rightarrow> (int \<times> u32) set" where
  "poller_watched p = (\<lambda>x. (fd x, scast (events x))) ` {x \<in> set (m_pollfds p). 0 \<le> fd x}"

definition poller_new :: "(nat \<Rightarrow> int) \<Rightarrow> poller" where
  "poller_new fd_of = \<lparr>chan = (\<lambda>c. Channel (fd_of c)), m_channels = (\<lambda>_. None), m_pollfds = []\<rparr>"

definition pfd_of :: "int \<Rightarrow> u32 \<Rightarrow> pollfd \<Rightarrow> bool" where
  "pfd_of f e x \<longleftrightarrow> fd x = (if e = 0 then - f - 1 else f) \<and> events x = ucast e"

definition poller_sim :: "(nat \<Rightarrow> int) \<Rightarrow> poll_spec \<Rightarrow> poller \<Rightarrow> bool" where
  "poller_sim fd_of \<sigma> p \<longleftrightarrow>
     (\<forall>c. m_fd (chan p c) = fd_of c \<and> 0 \<le> fd_of c) \<and>
     (\<forall>c. m_events (chan p c) = sp_events \<sigma> c \<and> sp_events \<sigma> c < 8) \<and>
     (\<forall>f c. m_channels p f = Some c \<longleftrightarrow> c \<in> sp_reg \<sigma> \<and> fd_of c = f) \<and>
     (\<forall>c \<in> sp_reg \<sigma>. \<exists>i < length (m_pollfds p). m_index (chan p c) = int i \<and>
        pfd_of (fd_of c) (sp_events \<sigma> c) (m_pollfds p ! i)) \<and>
     (\<forall>i < length (m_pollfds p). \<exists>c \<in> sp_reg \<sigma>. m_index (chan p c) = int i) \<and>
     (\<forall>c. c \<notin> sp_used \<sigma> \<longrightarrow> m_index (chan p c) = -1 \<and> sp_events \<sigma> c = 0) \<and>
     sp_reg \<sigma> \<subseteq> sp_used \<sigma>"

lemma less8: "e < 8 \<Longrightarrow> e \<in> {0, 1, 2, 3, 4, 5, 6, 7}" for e :: u32
proof -
  assume "e < 8"
  then have "unat e < 8" by (simp add: word_less_nat_alt)
  moreover have "e = word_of_nat (unat e)" by simp
  ultimately obtain n where n: "e = word_of_nat n" "n < 8" by blast
  from n(2) have "n = 0 \<or> n = 1 \<or> n = 2 \<or> n = 3 \<or> n = 4 \<or> n = 5 \<or> n = 6 \<or> n = 7" by arith
  then show ?thesis using n(1) by auto
qed

lemmas event_defs = kReadEvent_def kWriteEvent_def kNoneEvent_def POLLIN_def POLLPRI_def POLLOUT_def

lemma new_events_less8: "e < 8 \<Longrightarrow> new_events op e < 8"
  by (drule less8, cases op) (auto simp: event_defs)

lemma event_cast: "e < 8 \<Longrightarrow> scast (ucast e :: 16 word) = e" for e :: u32
  by (drule less8) auto

lemma event_sint: "e < 8 \<Longrightarrow> sint (ucast e :: 16 word) = sint e" for e :: u32
  by (drule less8) auto

lemma poller_sim_new:
  assumes "\<And>c. 0 \<le> fd_of c"
  shows "poller_sim fd_of spec_new (poller_new fd_of)"
  using assms by (simp add: poller_sim_def poller_new_def spec_new_def Channel_def)

lemma poller_sim_watched:
  assumes "poller_sim fd_of \<sigma> p"
  shows "poller_watched p = spec_watched fd_of \<sigma>"
proof (intro set_eqI iffI)
  note S = assms [unfolded poller_sim_def]
  fix x
  assume "x \<in> poller_watched p"
  then obtain i where i: "i < length (m_pollfds p)" "0 \<le> fd (m_pollfds p ! i)"
    and x: "x = (fd (m_pollfds p ! i), scast (events (m_pollfds p ! i)))"
    by (auto simp: poller_watched_def in_set_conv_nth)
  then obtain c where c: "c \<in> sp_reg \<sigma>" "m_index (chan p c) = int i" using S by blast
  then obtain j where "m_index (chan p c) = int j" "pfd_of (fd_of c) (sp_events \<sigma> c) (m_pollfds p ! j)"
    using S by blast
  then have "pfd_of (fd_of c) (sp_events \<sigma> c) (m_pollfds p ! i)" using c by simp
  moreover have "0 \<le> fd_of c" "sp_events \<sigma> c < 8" using S by blast+
  ultimately show "x \<in> spec_watched fd_of \<sigma>"
    using c(1) i(2) by (auto simp: x pfd_of_def spec_watched_def event_cast split: if_splits)
next
  note S = assms [unfolded poller_sim_def]
  fix x
  assume "x \<in> spec_watched fd_of \<sigma>"
  then obtain c where c: "c \<in> sp_reg \<sigma>" "sp_events \<sigma> c \<noteq> 0" and x: "x = (fd_of c, sp_events \<sigma> c)"
    by (auto simp: spec_watched_def)
  obtain i where "i < length (m_pollfds p)" "pfd_of (fd_of c) (sp_events \<sigma> c) (m_pollfds p ! i)"
    using S c(1) by blast
  moreover have "0 \<le> fd_of c" "sp_events \<sigma> c < 8" using S by blast+
  ultimately show "x \<in> poller_watched p"
    using c(2) by (auto simp: x poller_watched_def pfd_of_def event_cast
        intro!: image_eqI [of _ _ "m_pollfds p ! i"])
qed

lemma poller_sim_register:
  assumes sim: "poller_sim fd_of \<sigma> p" and new: "c \<notin> sp_used \<sigma>" "fd_of c \<notin> fd_of ` sp_reg \<sigma>"
    and ev: "new_events op 0 \<noteq> 0"
  shows "\<exists>p'. poller_call (Update c op) p = Some p' \<and> poller_sim fd_of (poll_step (Update c op) \<sigma>) p'"
proof -
  note S = sim [unfolded poller_sim_def]
  let ?ch = "(chan p c)\<lparr>m_events := new_events op 0\<rparr>"
  let ?pfd = "\<lparr>fd = fd_of c, events = ucast (new_events op 0), revents = 0\<rparr> :: pollfd"
  let ?n = "length (m_pollfds p)"
  have i: "m_index (chan p c) = -1" and e: "m_events (chan p c) = 0" "sp_events \<sigma> c = 0"
    and f: "m_fd (chan p c) = fd_of c" using S new(1) by auto
  have none: "m_channels p (fd_of c) = None"
  proof (cases "m_channels p (fd_of c)")
    case (Some d)
    then have "d \<in> sp_reg \<sigma>" "fd_of d = fd_of c" using S by blast+
    then have "fd_of c \<in> fd_of ` sp_reg \<sigma>" by (metis imageI)
    with new(2) show ?thesis by blast
  qed
  have nreg: "c \<notin> sp_reg \<sigma>" using S new(1) by blast
  define p' where "p' = p\<lparr>m_pollfds := m_pollfds p @ [?pfd],
      chan := (chan p)(c := ?ch\<lparr>m_index := int ?n\<rparr>), m_channels := (m_channels p)(fd_of c \<mapsto> c)\<rparr>"
  have run: "poller_call (Update c op) p = Some p'"
    by (simp add: poller_updateChannel_def Let_def set_events_def set_index_def i e f none p'_def)
  have small: "new_events op 0 < 8" by (rule new_events_less8) simp
  have "poller_sim fd_of (poll_step (Update c op) \<sigma>) p'"
    unfolding poller_sim_def
  proof (intro conjI)
    show "\<forall>d. m_fd (chan p' d) = fd_of d \<and> 0 \<le> fd_of d" using S by (simp add: p'_def)
    show "\<forall>d. m_events (chan p' d) = sp_events (poll_step (Update c op) \<sigma>) d \<and>
        sp_events (poll_step (Update c op) \<sigma>) d < 8"
      using S small e by (simp add: p'_def)
    show "\<forall>f d. (m_channels p' f = Some d) = (d \<in> sp_reg (poll_step (Update c op) \<sigma>) \<and> fd_of d = f)"
    proof -
      have "(m_channels p f = Some d) = (d \<in> sp_reg \<sigma> \<and> fd_of d = f)" for f d using S by blast
      moreover have "fd_of d \<noteq> fd_of c" if "d \<in> sp_reg \<sigma>" for d using that new(2) by (metis imageI)
      ultimately show ?thesis using nreg by (auto simp: p'_def)
    qed
    show "\<forall>d\<in>sp_reg (poll_step (Update c op) \<sigma>). \<exists>i<length (m_pollfds p'). m_index (chan p' d) = int i \<and>
        pfd_of (fd_of d) (sp_events (poll_step (Update c op) \<sigma>) d) (m_pollfds p' ! i)"
    proof
      fix d
      assume d: "d \<in> sp_reg (poll_step (Update c op) \<sigma>)"
      show "\<exists>i<length (m_pollfds p'). m_index (chan p' d) = int i \<and>
        pfd_of (fd_of d) (sp_events (poll_step (Update c op) \<sigma>) d) (m_pollfds p' ! i)"
      proof (cases "d = c")
        case True
        then show ?thesis using ev e by (intro exI [of _ ?n]) (simp add: p'_def pfd_of_def)
      next
        case False
        then have "d \<in> sp_reg \<sigma>" using d by simp
        then obtain k where "k < ?n" "m_index (chan p d) = int k"
          "pfd_of (fd_of d) (sp_events \<sigma> d) (m_pollfds p ! k)" using S by blast
        then show ?thesis using False by (intro exI [of _ k]) (simp add: p'_def nth_append)
      qed
    qed
    show "\<forall>i<length (m_pollfds p'). \<exists>d\<in>sp_reg (poll_step (Update c op) \<sigma>). m_index (chan p' d) = int i"
    proof (intro allI impI)
      fix k
      assume k: "k < length (m_pollfds p')"
      show "\<exists>d\<in>sp_reg (poll_step (Update c op) \<sigma>). m_index (chan p' d) = int k"
      proof (cases "k = ?n")
        case True
        then show ?thesis by (simp add: p'_def)
      next
        case False
        then have "k < ?n" using k by (simp add: p'_def)
        then obtain d where "d \<in> sp_reg \<sigma>" "m_index (chan p d) = int k" using S by blast
        moreover have "d \<noteq> c" using calculation(1) nreg by blast
        ultimately show ?thesis by (intro bexI [of _ d]) (simp_all add: p'_def)
      qed
    qed
    show "\<forall>d. d \<notin> sp_used (poll_step (Update c op) \<sigma>) \<longrightarrow>
        m_index (chan p' d) = -1 \<and> sp_events (poll_step (Update c op) \<sigma>) d = 0"
      using S by (simp add: p'_def)
    show "sp_reg (poll_step (Update c op) \<sigma>) \<subseteq> sp_used (poll_step (Update c op) \<sigma>)"
      using S by auto
  qed
  with run show ?thesis by blast
qed

lemma pollfd_rewrite:
  "x\<lparr>fd := a, events := b, revents := c\<rparr> = \<lparr>fd = a, events = b, revents = c\<rparr>"
  "x\<lparr>events := b, revents := c, fd := a\<rparr> = \<lparr>fd = a, events = b, revents = c\<rparr>" for x :: pollfd
  by (cases x; simp)+

lemma poller_sim_change:
  assumes sim: "poller_sim fd_of \<sigma> p" and reg: "c \<in> sp_reg \<sigma>"
  shows "\<exists>p'. poller_call (Update c op) p = Some p' \<and> poller_sim fd_of (poll_step (Update c op) \<sigma>) p'"
proof -
  note S = sim [unfolded poller_sim_def]
  let ?e = "new_events op (sp_events \<sigma> c)"
  have f: "m_fd (chan p c) = fd_of c" and e: "m_events (chan p c) = sp_events \<sigma> c"
    and e8: "sp_events \<sigma> c < 8" using S by blast+
  have m: "m_channels p (fd_of c) = Some c" using S reg by blast
  obtain k where k: "k < length (m_pollfds p)" "m_index (chan p c) = int k"
    and pk: "pfd_of (fd_of c) (sp_events \<sigma> c) (m_pollfds p ! k)" using S reg by blast
  let ?pfd = "\<lparr>fd = (if ?e = 0 then - fd_of c - 1 else fd_of c), events = ucast ?e, revents = 0\<rparr> :: pollfd"
  define p' where "p' = p\<lparr>chan := (chan p)(c := (chan p c)\<lparr>m_events := ?e\<rparr>),
      m_pollfds := (m_pollfds p)[k := ?pfd]\<rparr>"
  have fdk: "fd (m_pollfds p ! k) = fd_of c \<or> fd (m_pollfds p ! k) = - fd_of c - 1"
    using pk by (auto simp: pfd_of_def)
  have run: "poller_call (Update c op) p = Some p'"
    using k(1) fdk
    by (simp add: poller_updateChannel_def Let_def set_events_def f e m k(2) p'_def isNoneEvent_def
        kNoneEvent_def pollfd_rewrite)
  have small: "?e < 8" by (rule new_events_less8 [OF e8])
  have reg': "sp_reg (poll_step (Update c op) \<sigma>) = sp_reg \<sigma>" using reg by auto
  have "poller_sim fd_of (poll_step (Update c op) \<sigma>) p'"
    unfolding poller_sim_def reg'
  proof (intro conjI)
    show "\<forall>d. m_fd (chan p' d) = fd_of d \<and> 0 \<le> fd_of d" using S by (simp add: p'_def)
    show "\<forall>d. m_events (chan p' d) = sp_events (poll_step (Update c op) \<sigma>) d \<and>
        sp_events (poll_step (Update c op) \<sigma>) d < 8"
      using S small by (simp add: p'_def)
    show "\<forall>f d. (m_channels p' f = Some d) = (d \<in> sp_reg \<sigma> \<and> fd_of d = f)"
      using S by (simp add: p'_def)
    show "\<forall>d\<in>sp_reg \<sigma>. \<exists>i<length (m_pollfds p'). m_index (chan p' d) = int i \<and>
        pfd_of (fd_of d) (sp_events (poll_step (Update c op) \<sigma>) d) (m_pollfds p' ! i)"
    proof
      fix d
      assume d: "d \<in> sp_reg \<sigma>"
      show "\<exists>i<length (m_pollfds p'). m_index (chan p' d) = int i \<and>
        pfd_of (fd_of d) (sp_events (poll_step (Update c op) \<sigma>) d) (m_pollfds p' ! i)"
      proof (cases "d = c")
        case True
        then show ?thesis using k by (intro exI [of _ k]) (simp add: p'_def pfd_of_def)
      next
        case False
        obtain i where i: "i < length (m_pollfds p)" "m_index (chan p d) = int i"
          "pfd_of (fd_of d) (sp_events \<sigma> d) (m_pollfds p ! i)" using S d by blast
        have "i \<noteq> k"
        proof
          assume "i = k"
          have ne: "fd_of d \<noteq> fd_of c"
          proof
            assume "fd_of d = fd_of c"
            then have "m_channels p (fd_of c) = Some d" using S d by metis
            with m False show False by simp
          qed
          moreover have "0 \<le> fd_of d" "0 \<le> fd_of c" using S by blast+
          ultimately show False
            using i(3) pk \<open>i = k\<close> by (auto simp: pfd_of_def split: if_splits)
        qed
        then show ?thesis using i False by (intro exI [of _ i]) (simp add: p'_def)
      qed
    qed
    show "\<forall>i<length (m_pollfds p'). \<exists>d\<in>sp_reg \<sigma>. m_index (chan p' d) = int i"
    proof (intro allI impI)
      fix i
      assume "i < length (m_pollfds p')"
      then have "i < length (m_pollfds p)" by (simp add: p'_def)
      then obtain d where "d \<in> sp_reg \<sigma>" "m_index (chan p d) = int i" using S by blast
      then show "\<exists>d\<in>sp_reg \<sigma>. m_index (chan p' d) = int i"
        by (intro bexI [of _ d]) (auto simp: p'_def)
    qed
    show "\<forall>d. d \<notin> sp_used (poll_step (Update c op) \<sigma>) \<longrightarrow>
        m_index (chan p' d) = -1 \<and> sp_events (poll_step (Update c op) \<sigma>) d = 0"
      using S by (simp add: p'_def)
    show "sp_reg \<sigma> \<subseteq> sp_used (poll_step (Update c op) \<sigma>)"
      using S by auto
  qed
  with run show ?thesis by blast
qed

text \<open>The entry at the end takes the place of the removed one, and its channel learns the index.\<close>

lemma poller_sim_remove:
  assumes sim: "poller_sim fd_of \<sigma> p" and reg: "c \<in> sp_reg \<sigma>" and idle: "sp_events \<sigma> c = 0"
  shows "\<exists>p'. poller_call (Remove c) p = Some p' \<and> poller_sim fd_of (poll_step (Remove c) \<sigma>) p'"
proof -
  note S = sim [unfolded poller_sim_def]
  have f: "m_fd (chan p c) = fd_of c" and e: "m_events (chan p c) = 0" using S idle by auto
  have m: "m_channels p (fd_of c) = Some c" using S reg by blast
  have pos: "0 \<le> fd_of d" for d using S by blast
  obtain k where k: "k < length (m_pollfds p)" "m_index (chan p c) = int k"
    and pk: "pfd_of (fd_of c) 0 (m_pollfds p ! k)" using S reg idle by fastforce
  define n where "n = length (m_pollfds p) - 1"
  have len: "length (m_pollfds p) = Suc n" using k(1) by (simp add: n_def)
  have ne: "m_pollfds p \<noteq> []" using len by auto
  obtain d where d: "d \<in> sp_reg \<sigma>" "m_index (chan p d) = int n" using S len by (metis lessI)
  obtain i where "m_index (chan p d) = int i" "pfd_of (fd_of d) (sp_events \<sigma> d) (m_pollfds p ! i)"
    using S d(1) by blast
  then have pn: "pfd_of (fd_of d) (sp_events \<sigma> d) (m_pollfds p ! n)" using d(2) by simp
  have last: "last (m_pollfds p) = m_pollfds p ! n" using ne len by (simp add: last_conv_nth)
  have dc: "d = c \<longleftrightarrow> k = n"
  proof
    assume "k = n"
    then have "fd_of d = fd_of c"
      using pk pn pos [of c] pos [of d] by (auto simp: pfd_of_def split: if_splits)
    then have "m_channels p (fd_of c) = Some d" using S d(1) by metis
    then show "d = c" using m by simp
  qed (use d(2) k(2) in simp)
  have md: "m_channels p (fd_of d) = Some d" using S d(1) by blast
  have fdn: "(if fd (m_pollfds p ! n) < 0 then - fd (m_pollfds p ! n) - 1 else fd (m_pollfds p ! n)) = fd_of d"
    using pn pos [of d] by (auto simp: pfd_of_def)
  have fne: "fd_of d \<noteq> fd_of c" if "k \<noteq> n" using that dc md m by auto
  define chan' where "chan' = (if k = n then chan p else set_index d (int k) (chan p))"
  define pfds' where "pfds' = (if k = n then butlast (m_pollfds p)
      else butlast ((m_pollfds p)[k := m_pollfds p ! n, n := m_pollfds p ! k]))"
  define p' where "p' = p\<lparr>m_channels := (m_channels p)(fd_of c := None), chan := chan', m_pollfds := pfds'\<rparr>"
  have run: "poller_call (Remove c) p = Some p'"
  proof (cases "k = n")
    case True
    then show ?thesis using k(1) pk len
      by (simp add: poller_removeChannel_def Let_def f e m k(2) isNoneEvent_def kNoneEvent_def pfd_of_def
          p'_def pfds'_def chan'_def)
  next
    case False
    then show ?thesis using k(1) pk len fdn md fne
      by (simp add: poller_removeChannel_def Let_def f e m k(2) isNoneEvent_def kNoneEvent_def pfd_of_def
          p'_def pfds'_def chan'_def last n_def [symmetric] cong: if_cong)
  qed
  have len': "length pfds' = n" using len by (simp add: pfds'_def)
  have nth': "pfds' ! i = (if i = k then m_pollfds p ! n else m_pollfds p ! i)" if "i < n" for i
    using that len by (simp add: pfds'_def nth_butlast nth_list_update)
  have idx: "m_index (chan' a) = (if a = d \<and> k \<noteq> n then int k else m_index (chan p a))"
    and fd': "m_fd (chan' a) = m_fd (chan p a)" and ev': "m_events (chan' a) = m_events (chan p a)" for a
    by (simp_all add: chan'_def set_index_def)
  have "poller_sim fd_of (poll_step (Remove c) \<sigma>) p'"
    unfolding poller_sim_def
  proof (intro conjI)
    show "\<forall>d. m_fd (chan p' d) = fd_of d \<and> 0 \<le> fd_of d" using S by (simp add: p'_def fd')
    show "\<forall>d. m_events (chan p' d) = sp_events (poll_step (Remove c) \<sigma>) d \<and>
        sp_events (poll_step (Remove c) \<sigma>) d < 8"
      using S by (simp add: p'_def ev')
    show "\<forall>f a. (m_channels p' f = Some a) = (a \<in> sp_reg (poll_step (Remove c) \<sigma>) \<and> fd_of a = f)"
    proof -
      have R: "(m_channels p f = Some a) = (a \<in> sp_reg \<sigma> \<and> fd_of a = f)" for f a using S by blast
      have "fd_of a \<noteq> fd_of c" if "a \<in> sp_reg \<sigma>" "a \<noteq> c" for a
        using that m R [of "fd_of a" a] by auto
      then show ?thesis by (auto simp: p'_def R)
    qed
    show "\<forall>a\<in>sp_reg (poll_step (Remove c) \<sigma>). \<exists>i<length (m_pollfds p'). m_index (chan p' a) = int i \<and>
        pfd_of (fd_of a) (sp_events (poll_step (Remove c) \<sigma>) a) (m_pollfds p' ! i)"
    proof
      fix a
      assume "a \<in> sp_reg (poll_step (Remove c) \<sigma>)"
      then have a: "a \<in> sp_reg \<sigma>" "a \<noteq> c" by auto
      obtain i where i: "i < length (m_pollfds p)" "m_index (chan p a) = int i"
        "pfd_of (fd_of a) (sp_events \<sigma> a) (m_pollfds p ! i)" using S a(1) by blast
      have "i \<noteq> k"
      proof
        assume "i = k"
        then have "fd_of a = fd_of c"
          using i(3) pk pos [of a] pos [of c] by (auto simp: pfd_of_def split: if_splits)
        then have "m_channels p (fd_of c) = Some a" using S a(1) by metis
        with m a(2) show False by simp
      qed
      show "\<exists>i<length (m_pollfds p'). m_index (chan p' a) = int i \<and>
        pfd_of (fd_of a) (sp_events (poll_step (Remove c) \<sigma>) a) (m_pollfds p' ! i)"
      proof (cases "a = d")
        case True
        then have "k \<noteq> n" using dc a(2) by blast
        then have "k < n" using k(1) len by simp
        then show ?thesis
          using True pn \<open>k \<noteq> n\<close> by (intro exI [of _ k]) (simp add: p'_def len' nth' idx)
      next
        case False
        have "i \<noteq> n"
        proof
          assume "i = n"
          then have "fd_of a = fd_of d"
            using i(3) pn pos [of a] pos [of d] by (auto simp: pfd_of_def split: if_splits)
          then have "m_channels p (fd_of d) = Some a" using S a(1) by metis
          with md False show False by simp
        qed
        then have "i < n" using i(1) len by simp
        then show ?thesis
          using i False \<open>i \<noteq> k\<close> by (intro exI [of _ i]) (simp add: p'_def len' nth' idx)
      qed
    qed
    show "\<forall>i<length (m_pollfds p'). \<exists>a\<in>sp_reg (poll_step (Remove c) \<sigma>). m_index (chan p' a) = int i"
    proof (intro allI impI)
      fix i
      assume "i < length (m_pollfds p')"
      then have i: "i < n" by (simp add: p'_def len')
      show "\<exists>a\<in>sp_reg (poll_step (Remove c) \<sigma>). m_index (chan p' a) = int i"
      proof (cases "i = k")
        case True
        then have "k \<noteq> n" using i by simp
        then show ?thesis using d(1) dc True by (intro bexI [of _ d]) (simp_all add: p'_def idx)
      next
        case False
        have "i < length (m_pollfds p)" using i len by simp
        then obtain a where a: "a \<in> sp_reg \<sigma>" "m_index (chan p a) = int i" using S by blast
        have "a \<noteq> c" using a(2) k(2) False by auto
        moreover have "a \<noteq> d" using a(2) d(2) i by auto
        ultimately show ?thesis using a by (intro bexI [of _ a]) (simp_all add: p'_def idx)
      qed
    qed
    show "\<forall>a. a \<notin> sp_used (poll_step (Remove c) \<sigma>) \<longrightarrow>
        m_index (chan p' a) = -1 \<and> sp_events (poll_step (Remove c) \<sigma>) a = 0"
    proof (intro allI impI)
      fix a
      assume "a \<notin> sp_used (poll_step (Remove c) \<sigma>)"
      then have "a \<notin> sp_used \<sigma>" by simp
      moreover have "a \<noteq> d" using calculation S d(1) by blast
      ultimately show "m_index (chan p' a) = -1 \<and> sp_events (poll_step (Remove c) \<sigma>) a = 0"
        using S by (simp add: p'_def idx)
    qed
    show "sp_reg (poll_step (Remove c) \<sigma>) \<subseteq> sp_used (poll_step (Remove c) \<sigma>)"
      using S by auto
  qed
  with run show ?thesis by blast
qed

interpretation poll_array: event_poll fd_of poller_call poller_watched "poller_sim fd_of" for fd_of
proof
  fix \<sigma> p x
  assume sim: "poller_sim fd_of \<sigma> p" and legal: "poll_legal fd_of x \<sigma>"
  show "\<exists>p'. poller_call x p = Some p' \<and> poller_sim fd_of (poll_step x \<sigma>) p'"
  proof (cases x)
    case (Update c op)
    then show ?thesis
      using legal poller_sim_change [OF sim, of c op] poller_sim_register [OF sim, of c op] by auto
  next
    case (Remove c)
    then show ?thesis using legal poller_sim_remove [OF sim, of c] by simp
  qed
qed (rule poller_sim_watched)

section \<open>The interest list of epoll keeps the contract\<close>

definition epoller_watched :: "epoller \<Rightarrow> (int \<times> u32) set" where
  "epoller_watched p = {(f, e). e \<noteq> 0 \<and> (\<exists>c. interest_list p f = Some (e, c))}"

definition epoller_new :: "(nat \<Rightarrow> int) \<Rightarrow> epoller" where
  "epoller_new fd_of = \<lparr>ep_chan = (\<lambda>c. Channel (fd_of c)), ep_channels = (\<lambda>_. None),
     interest_list = (\<lambda>_. None)\<rparr>"

definition epoller_sim :: "(nat \<Rightarrow> int) \<Rightarrow> poll_spec \<Rightarrow> epoller \<Rightarrow> bool" where
  "epoller_sim fd_of \<sigma> p \<longleftrightarrow>
     (\<forall>c. m_fd (ep_chan p c) = fd_of c) \<and> (\<forall>c. m_events (ep_chan p c) = sp_events \<sigma> c) \<and>
     (\<forall>f c. ep_channels p f = Some c \<longleftrightarrow> c \<in> sp_reg \<sigma> \<and> fd_of c = f) \<and>
     (\<forall>c \<in> sp_reg \<sigma>.
        m_index (ep_chan p c) = kAdd \<and> interest_list p (fd_of c) = Some (sp_events \<sigma> c, c) \<or>
        m_index (ep_chan p c) = kDel \<and> interest_list p (fd_of c) = None \<and> sp_events \<sigma> c = 0) \<and>
     (\<forall>c. c \<notin> sp_reg \<sigma> \<longrightarrow> m_index (ep_chan p c) = kNew) \<and>
     (\<forall>f. interest_list p f \<noteq> None \<longrightarrow> f \<in> fd_of ` sp_reg \<sigma>) \<and>
     (\<forall>c. c \<notin> sp_used \<sigma> \<longrightarrow> sp_events \<sigma> c = 0) \<and> sp_reg \<sigma> \<subseteq> sp_used \<sigma>"

lemma epoller_sim_new: "epoller_sim fd_of spec_new (epoller_new fd_of)"
  by (simp add: epoller_sim_def epoller_new_def spec_new_def Channel_def kNew_def)

lemma epoller_sim_watched:
  assumes "epoller_sim fd_of \<sigma> p"
  shows "epoller_watched p = spec_watched fd_of \<sigma>"
proof (intro set_eqI iffI)
  note S = assms [unfolded epoller_sim_def]
  fix x
  assume "x \<in> epoller_watched p"
  then obtain f e c where x: "x = (f, e)" "e \<noteq> 0" "interest_list p f = Some (e, c)"
    by (auto simp: epoller_watched_def)
  then have "f \<in> fd_of ` sp_reg \<sigma>" using S by blast
  then obtain d where d: "d \<in> sp_reg \<sigma>" "fd_of d = f" by auto
  then have "interest_list p f = Some (sp_events \<sigma> d, d)" using S x(3) by force
  then show "x \<in> spec_watched fd_of \<sigma>" using x d by (auto simp: spec_watched_def)
next
  note S = assms [unfolded epoller_sim_def]
  fix x
  assume "x \<in> spec_watched fd_of \<sigma>"
  then obtain c where c: "c \<in> sp_reg \<sigma>" "sp_events \<sigma> c \<noteq> 0" and x: "x = (fd_of c, sp_events \<sigma> c)"
    by (auto simp: spec_watched_def)
  then have "interest_list p (fd_of c) = Some (sp_events \<sigma> c, c)" using S by blast
  then show "x \<in> epoller_watched p" using c x by (auto simp: epoller_watched_def)
qed

lemma epoller_sim_update:
  assumes sim: "epoller_sim fd_of \<sigma> p" and legal: "poll_legal fd_of (Update c op) \<sigma>"
  shows "\<exists>p'. epoller_call (Update c op) p = Some p' \<and> epoller_sim fd_of (poll_step (Update c op) \<sigma>) p'"
proof -
  note S = sim [unfolded epoller_sim_def]
  let ?e = "new_events op (sp_events \<sigma> c)"
  have f: "m_fd (ep_chan p c) = fd_of c" and e: "m_events (ep_chan p c) = sp_events \<sigma> c" using S by blast+
  have R: "(ep_channels p f = Some d) = (d \<in> sp_reg \<sigma> \<and> fd_of d = f)" for f d using S by blast
  have inj: "d = c" if "d \<in> sp_reg \<sigma>" "fd_of d = fd_of c" for d
  proof (cases "c \<in> sp_reg \<sigma>")
    case True
    then show ?thesis using R [of "fd_of c" c] R [of "fd_of c" d] that by simp
  next
    case False
    then show ?thesis using legal that by (metis imageI poll_legal.simps(1))
  qed
  define idle where "idle \<longleftrightarrow> m_index (ep_chan p c) = kAdd \<and> ?e = 0"
  define ch' where "ch' = (ep_chan p c)\<lparr>m_events := ?e, m_index := (if idle then kDel else kAdd)\<rparr>"
  define p' where "p' = p\<lparr>ep_chan := (ep_chan p)(c := ch'), ep_channels := (ep_channels p)(fd_of c \<mapsto> c),
      interest_list := (interest_list p)(fd_of c := (if idle then None else Some (?e, c)))\<rparr>"
  consider (add) "m_index (ep_chan p c) = kNew" "c \<notin> sp_reg \<sigma>" "interest_list p (fd_of c) = None"
    | (gone) "m_index (ep_chan p c) = kDel" "c \<in> sp_reg \<sigma>" "interest_list p (fd_of c) = None"
    | (there) "m_index (ep_chan p c) = kAdd" "c \<in> sp_reg \<sigma>" "interest_list p (fd_of c) = Some (sp_events \<sigma> c, c)"
  proof (cases "c \<in> sp_reg \<sigma>")
    case True
    then have "m_index (ep_chan p c) = kAdd \<and> interest_list p (fd_of c) = Some (sp_events \<sigma> c, c) \<or>
        m_index (ep_chan p c) = kDel \<and> interest_list p (fd_of c) = None" using S by blast
    then show ?thesis using that(2,3) True by auto
  next
    case False
    have "interest_list p (fd_of c) = None"
    proof (rule ccontr)
      assume "interest_list p (fd_of c) \<noteq> None"
      then have "fd_of c \<in> fd_of ` sp_reg \<sigma>" using S by blast
      with legal False show False by simp
    qed
    moreover have "m_index (ep_chan p c) = kNew" using S False by blast
    ultimately show ?thesis using that(1) False by auto
  qed
  then have run: "epoller_call (Update c op) p = Some p'"
  proof cases
    case add
    then show ?thesis
      by (simp add: epoller_updateChannel_def Let_def set_events_def set_index_def f e epoller_update_def
          p'_def ch'_def idle_def kNew_def kAdd_def fun_eq_iff)
  next
    case gone
    have "(ep_channels p)(fd_of c \<mapsto> c) = ep_channels p" using R gone(2) by (simp add: fun_upd_idem_iff)
    with gone show ?thesis
      by (simp add: epoller_updateChannel_def Let_def set_events_def set_index_def f e epoller_update_def
          p'_def ch'_def idle_def kNew_def kAdd_def kDel_def)
  next
    case there
    have id: "(ep_channels p)(fd_of c \<mapsto> c) = ep_channels p" "ep_channels p (fd_of c) = Some c"
      using R there(2) by (simp_all add: fun_upd_idem_iff)
    have eq: "(ep_chan p c)\<lparr>m_events := ?e, m_index := 0\<rparr> = (ep_chan p c)\<lparr>m_events := ?e\<rparr>"
      using there(1) by (cases "ep_chan p c") (simp add: kAdd_def)
    show ?thesis using there(1,3)
      by (simp add: epoller_updateChannel_def Let_def set_events_def set_index_def f e epoller_update_def
          p'_def ch'_def idle_def kNew_def kAdd_def kDel_def isNoneEvent_def kNoneEvent_def id eq)
  qed
  have "epoller_sim fd_of (poll_step (Update c op) \<sigma>) p'"
    unfolding epoller_sim_def
  proof (intro conjI)
    show "\<forall>d. m_fd (ep_chan p' d) = fd_of d" using S by (simp add: p'_def ch'_def)
    show "\<forall>d. m_events (ep_chan p' d) = sp_events (poll_step (Update c op) \<sigma>) d"
      using S by (simp add: p'_def ch'_def)
    show "\<forall>f d. (ep_channels p' f = Some d) = (d \<in> sp_reg (poll_step (Update c op) \<sigma>) \<and> fd_of d = f)"
      using inj by (auto simp: p'_def R)
    show "\<forall>d\<in>sp_reg (poll_step (Update c op) \<sigma>).
        m_index (ep_chan p' d) = kAdd \<and>
          interest_list p' (fd_of d) = Some (sp_events (poll_step (Update c op) \<sigma>) d, d) \<or>
        m_index (ep_chan p' d) = kDel \<and> interest_list p' (fd_of d) = None \<and>
          sp_events (poll_step (Update c op) \<sigma>) d = 0"
    proof
      fix d
      assume d: "d \<in> sp_reg (poll_step (Update c op) \<sigma>)"
      show "m_index (ep_chan p' d) = kAdd \<and>
          interest_list p' (fd_of d) = Some (sp_events (poll_step (Update c op) \<sigma>) d, d) \<or>
        m_index (ep_chan p' d) = kDel \<and> interest_list p' (fd_of d) = None \<and>
          sp_events (poll_step (Update c op) \<sigma>) d = 0"
      proof (cases "d = c")
        case True
        then show ?thesis by (simp add: p'_def ch'_def idle_def)
      next
        case False
        then have "d \<in> sp_reg \<sigma>" "fd_of d \<noteq> fd_of c" using d inj by auto
        then show ?thesis using S False by (simp add: p'_def)
      qed
    qed
    show "\<forall>d. d \<notin> sp_reg (poll_step (Update c op) \<sigma>) \<longrightarrow> m_index (ep_chan p' d) = kNew"
      using S by (simp add: p'_def)
    show "\<forall>f. interest_list p' f \<noteq> None \<longrightarrow> f \<in> fd_of ` sp_reg (poll_step (Update c op) \<sigma>)"
      using S by (simp add: p'_def)
    show "\<forall>d. d \<notin> sp_used (poll_step (Update c op) \<sigma>) \<longrightarrow> sp_events (poll_step (Update c op) \<sigma>) d = 0"
      using S by simp
    show "sp_reg (poll_step (Update c op) \<sigma>) \<subseteq> sp_used (poll_step (Update c op) \<sigma>)" using S by auto
  qed
  with run show ?thesis by blast
qed

lemma epoller_sim_remove:
  assumes sim: "epoller_sim fd_of \<sigma> p" and reg: "c \<in> sp_reg \<sigma>" and none: "sp_events \<sigma> c = 0"
  shows "\<exists>p'. epoller_call (Remove c) p = Some p' \<and> epoller_sim fd_of (poll_step (Remove c) \<sigma>) p'"
proof -
  note S = sim [unfolded epoller_sim_def]
  have f: "m_fd (ep_chan p c) = fd_of c" and e: "m_events (ep_chan p c) = 0" using S none by auto
  have R: "(ep_channels p f = Some d) = (d \<in> sp_reg \<sigma> \<and> fd_of d = f)" for f d using S by blast
  have inj: "d = c" if "d \<in> sp_reg \<sigma>" "fd_of d = fd_of c" for d
    using R [of "fd_of c" c] R [of "fd_of c" d] that reg by simp
  have m: "ep_channels p (fd_of c) = Some c" using R reg by simp
  have i: "m_index (ep_chan p c) = kAdd \<or> m_index (ep_chan p c) = kDel \<and> interest_list p (fd_of c) = None"
    using S reg by blast
  define p' where "p' = p\<lparr>ep_chan := (ep_chan p)(c := (ep_chan p c)\<lparr>m_index := kNew\<rparr>),
      ep_channels := (ep_channels p)(fd_of c := None), interest_list := (interest_list p)(fd_of c := None)\<rparr>"
  have "(interest_list p)(fd_of c := None) = interest_list p" if "interest_list p (fd_of c) = None"
    using that by auto
  then have run: "epoller_call (Remove c) p = Some p'"
    using i by (auto simp: epoller_removeChannel_def Let_def f e m isNoneEvent_def kNoneEvent_def
        epoller_update_def set_index_def p'_def kAdd_def kDel_def)
  have "epoller_sim fd_of (poll_step (Remove c) \<sigma>) p'"
    unfolding epoller_sim_def
  proof (intro conjI)
    show "\<forall>d. m_fd (ep_chan p' d) = fd_of d" using S by (simp add: p'_def)
    show "\<forall>d. m_events (ep_chan p' d) = sp_events (poll_step (Remove c) \<sigma>) d" using S by (simp add: p'_def)
    show "\<forall>f d. (ep_channels p' f = Some d) = (d \<in> sp_reg (poll_step (Remove c) \<sigma>) \<and> fd_of d = f)"
      using inj by (auto simp: p'_def R)
    show "\<forall>d\<in>sp_reg (poll_step (Remove c) \<sigma>).
        m_index (ep_chan p' d) = kAdd \<and>
          interest_list p' (fd_of d) = Some (sp_events (poll_step (Remove c) \<sigma>) d, d) \<or>
        m_index (ep_chan p' d) = kDel \<and> interest_list p' (fd_of d) = None \<and>
          sp_events (poll_step (Remove c) \<sigma>) d = 0"
    proof
      fix d
      assume "d \<in> sp_reg (poll_step (Remove c) \<sigma>)"
      then have "d \<in> sp_reg \<sigma>" "d \<noteq> c" "fd_of d \<noteq> fd_of c" using inj by auto
      then show "m_index (ep_chan p' d) = kAdd \<and>
          interest_list p' (fd_of d) = Some (sp_events (poll_step (Remove c) \<sigma>) d, d) \<or>
        m_index (ep_chan p' d) = kDel \<and> interest_list p' (fd_of d) = None \<and>
          sp_events (poll_step (Remove c) \<sigma>) d = 0"
        using S by (simp add: p'_def)
    qed
    show "\<forall>d. d \<notin> sp_reg (poll_step (Remove c) \<sigma>) \<longrightarrow> m_index (ep_chan p' d) = kNew"
      using S by (simp add: p'_def)
    show "\<forall>f. interest_list p' f \<noteq> None \<longrightarrow> f \<in> fd_of ` sp_reg (poll_step (Remove c) \<sigma>)"
    proof (intro allI impI)
      fix f
      assume "interest_list p' f \<noteq> None"
      then have "f \<noteq> fd_of c" "interest_list p f \<noteq> None" by (auto simp: p'_def split: if_splits)
      then obtain d where "d \<in> sp_reg \<sigma>" "f = fd_of d" "d \<noteq> c" using S by (metis imageE)
      then show "f \<in> fd_of ` sp_reg (poll_step (Remove c) \<sigma>)" by simp
    qed
    show "\<forall>d. d \<notin> sp_used (poll_step (Remove c) \<sigma>) \<longrightarrow> sp_events (poll_step (Remove c) \<sigma>) d = 0"
      using S by simp
    show "sp_reg (poll_step (Remove c) \<sigma>) \<subseteq> sp_used (poll_step (Remove c) \<sigma>)" using S by auto
  qed
  with run show ?thesis by blast
qed

interpretation poll_list: event_poll fd_of epoller_call epoller_watched "epoller_sim fd_of" for fd_of
proof
  fix \<sigma> p x
  assume sim: "epoller_sim fd_of \<sigma> p" and legal: "poll_legal fd_of x \<sigma>"
  show "\<exists>p'. epoller_call x p = Some p' \<and> epoller_sim fd_of (poll_step x \<sigma>) p'"
  proof (cases x)
    case (Update c op)
    show ?thesis using epoller_sim_update [OF sim legal [unfolded Update]] unfolding Update .
  next
    case (Remove c)
    then show ?thesis using legal epoller_sim_remove [OF sim, of c] by simp
  qed
qed (rule epoller_sim_watched)

section \<open>What the two promise\<close>

text \<open>
  C31: Whatever channels register, change and are removed, in any order, both poll objects
  accept every call without a failed assertion and watch exactly the descriptors of the registered
  channels that ask for something, each for exactly these events: they are interchangeable.
\<close>

theorem polls_watch_what_channels_ask:
  assumes "\<And>c. 0 \<le> fd_of c" and "poll_run_legal fd_of xs spec_new"
  shows "\<exists>p q. for_each poller_call xs (poller_new fd_of) = Some p \<and>
    for_each epoller_call xs (epoller_new fd_of) = Some q \<and>
    poller_watched p = spec_watched fd_of (fold poll_step xs spec_new) \<and>
    epoller_watched q = poller_watched p"
  using poll_array.run_watches [OF poller_sim_new [OF assms(1)] assms(2)]
    poll_list.run_watches [OF epoller_sim_new assms(2)] by auto

text \<open>Two channels; the first one removed, so that the second one moves in the array.\<close>

theorem polls_watch_what_channels_ask_witness:
  "\<exists>p q. for_each poller_call
      [Update 0 EnableReading, Update 1 EnableReading, Update 1 EnableWriting, Update 0 DisableAll, Remove 0]
      (poller_new (\<lambda>c. int c + 5)) = Some p \<and>
    for_each epoller_call
      [Update 0 EnableReading, Update 1 EnableReading, Update 1 EnableWriting, Update 0 DisableAll, Remove 0]
      (epoller_new (\<lambda>c. int c + 5)) = Some q \<and>
    poller_watched p = {(6, 7)} \<and> epoller_watched q = {(6, 7)}"
proof -
  let ?xs = "[Update 0 EnableReading, Update 1 EnableReading, Update 1 EnableWriting, Update 0 DisableAll, Remove 0]"
  have legal: "poll_run_legal (\<lambda>c. int c + 5) ?xs spec_new"
    by (simp add: spec_new_def event_defs)
  have "{c \<in> {Suc 0}. c = Suc 0} = {Suc 0}" by auto
  then have "spec_watched (\<lambda>c. int c + 5) (fold poll_step ?xs spec_new) = {(6, 7)}"
    by (auto simp: spec_watched_def spec_new_def event_defs)
  with polls_watch_what_channels_ask [OF _ legal] show ?thesis by auto
qed

text \<open>
  The active channels of \<^verbatim>\<open>poll\<close>: those whose entries have returned events, in the order
  of the array, when the kernel reports their number.
\<close>

lemma poller_fill_spec:
  assumes "\<And>x. x \<in> set pfds \<Longrightarrow> 0 < sint (revents x) \<Longrightarrow> \<exists>c. ch (fd x) = Some c \<and> m_fd (chs c) = fd x"
    and "int (length (filter (\<lambda>x. 0 < sint (revents x)) pfds)) \<le> n"
  shows "\<exists>chs'. poller_fill ch pfds n chs =
      Some (map (\<lambda>x. the (ch (fd x))) (filter (\<lambda>x. 0 < sint (revents x)) pfds), chs') \<and>
    (\<forall>c. m_fd (chs' c) = m_fd (chs c) \<and> m_events (chs' c) = m_events (chs c))"
  using assms
proof (induction pfds arbitrary: n chs)
  case (Cons x pfds)
  show ?case
  proof (cases "0 < sint (revents x)")
    case True
    then obtain c where c: "ch (fd x) = Some c" "m_fd (chs c) = fd x" using Cons.prems(1) by auto
    let ?chs = "chs(c := (chs c)\<lparr>m_retevents := scast (revents x)\<rparr>)"
    have "\<exists>chs'. poller_fill ch pfds (n - 1) ?chs =
        Some (map (\<lambda>x. the (ch (fd x))) (filter (\<lambda>x. 0 < sint (revents x)) pfds), chs') \<and>
      (\<forall>d. m_fd (chs' d) = m_fd (?chs d) \<and> m_events (chs' d) = m_events (?chs d))"
    proof (rule Cons.IH)
      fix y
      assume "y \<in> set pfds" "0 < sint (revents y)"
      then obtain d where "ch (fd y) = Some d" "m_fd (chs d) = fd y" using Cons.prems(1) by auto
      then show "\<exists>d. ch (fd y) = Some d \<and> m_fd (?chs d) = fd y" by auto
    qed (use Cons.prems(2) True in simp)
    moreover have "\<not> n \<le> 0" using Cons.prems(2) True by simp
    ultimately show ?thesis using True c by auto
  next
    case False
    have "\<exists>chs'. poller_fill ch pfds n chs =
        Some (map (\<lambda>x. the (ch (fd x))) (filter (\<lambda>x. 0 < sint (revents x)) pfds), chs') \<and>
      (\<forall>d. m_fd (chs' d) = m_fd (chs d) \<and> m_events (chs' d) = m_events (chs d))"
      by (rule Cons.IH) (use Cons.prems False in auto)
    moreover have "filter (\<lambda>x. 0 < sint (revents x)) pfds = []" if "n \<le> 0"
      using Cons.prems(2) False that by (cases "filter (\<lambda>x. 0 < sint (revents x)) pfds") auto
    ultimately show ?thesis using False by auto
  qed
qed auto

text \<open>
  A channel that was removed keeps its old index in the array, so registering it again
  fails an assertion of the poll object; the epoll object takes it back.
\<close>

lemma poller_channel_cannot_return:
  assumes "poller_sim fd_of \<sigma> p" and "c \<in> sp_reg \<sigma>" and "poller_call (Remove c) p = Some p'"
  shows "poller_call (Update c op) p' = None"
proof -
  note S = assms(1) [unfolded poller_sim_def]
  obtain k where "m_index (chan p c) = int k" using S assms(2) by blast
  then have "0 \<le> m_index (chan p c)" by simp
  have f: "m_fd (chan p c) = fd_of c" using S by blast
  have "m_channels p' (fd_of c) = None \<and> 0 \<le> m_index (chan p' c) \<and> m_fd (chan p' c) = fd_of c"
    using assms(3) \<open>0 \<le> m_index (chan p c)\<close>
    by (auto simp: poller_removeChannel_def Let_def abort_simps f set_index_def split: if_split_asm)
  then show ?thesis
    by (simp add: poller_updateChannel_def set_events_def Let_def)
qed

end
