(* ===== verification/UdpConnection.thy ===== *)
theory UdpConnection
  imports Buffer Poll
begin

text \<open>
  \<^verbatim>\<open>net/udpconnection.h/.cc\<close>: a datagram socket in its loop. Addresses are numbers.
  \<open>datagrams\<close> is what the kernel took, each with the address it was sent to, or none for those of
  \<^verbatim>\<open>write\<close>. What a system call returns is an argument: \<open>Sent\<close> is a call that took the datagram,
  which it does as a whole, and \<open>Send_Error b\<close> one that failed, with \<open>b\<close> for
  \<^verbatim>\<open>EWOULDBLOCK\<close>. Callbacks are recorded in \<open>calls\<close>, in order.
\<close>

section \<open>State and operations\<close>

datatype udp_state = kConnected | kdisConnected

datatype udp_call = MessageCall nat | CloseCall | WriteCompleteCall nat | HighWaterCall nat nat

record udp =
  m_state :: udp_state
  m_channel :: channel
  m_highMark :: nat
  m_input_buffer :: buffer
  m_output_buffer :: buffer
  m_message_cb :: bool
  m_close_cb :: bool
  m_highwater_cb :: bool
  m_writecomplete_cb :: bool
  calls :: "udp_call list"
  removed :: bool
  datagrams :: "(nat option \<times> bytes) list"

definition channel_do :: "channel_op \<Rightarrow> udp \<Rightarrow> udp" where
  "channel_do op c = c\<lparr>m_channel := (m_channel c)\<lparr>m_events := new_events op (m_events (m_channel c))\<rparr>\<rparr>"

definition call_if :: "bool \<Rightarrow> udp_call \<Rightarrow> udp \<Rightarrow> udp" where
  "call_if b x c = (if b then c\<lparr>calls := calls c @ [x]\<rparr> else c)"

text \<open>The constructor; which callbacks the user sets right after it are its further arguments.\<close>

definition UdpConnection :: "int \<Rightarrow> bool \<Rightarrow> bool \<Rightarrow> bool \<Rightarrow> udp" where
  "UdpConnection sock message_cb close_cb writecomplete_cb = channel_do EnableReading
     \<lparr>m_state = kConnected, m_channel = Channel sock, m_highMark = 64 * 1024 * 1024,
      m_input_buffer = buffer_new kInitialSize, m_output_buffer = buffer_new kInitialSize,
      m_message_cb = message_cb, m_close_cb = close_cb, m_highwater_cb = False, m_writecomplete_cb = writecomplete_cb,
      calls = [], removed = False, datagrams = []\<rparr>"

definition setHighWaterCallback :: "nat \<Rightarrow> udp \<Rightarrow> udp" where
  "setHighWaterCallback len c = c\<lparr>m_highwater_cb := True, m_highMark := len\<rparr>"

datatype send_result = Sent | Send_Error bool

definition handleWrite :: "send_result \<Rightarrow> udp \<Rightarrow> udp option" where
  "handleWrite r c =
     (if isWriting (m_channel c) then
        case r of
          Sent \<Rightarrow>
            if 0 < readableBytes (m_output_buffer c) then do {
              let data = contents (m_output_buffer c);
              let c = c\<lparr>datagrams := datagrams c @ [(None, data)]\<rparr>;
              b \<leftarrow> updatePos (length data) (m_output_buffer c);
              Some (c\<lparr>m_output_buffer := b\<rparr>)
            } else Some (c\<lparr>datagrams := datagrams c @ [(None, [])]\<rparr>)
        | Send_Error b \<Rightarrow> Some c
      else Some c)"

text \<open>The close callback is called without a test: when there is none, the call throws.\<close>

definition handleClose :: "udp \<Rightarrow> udp option" where
  "handleClose c = do {
     assert_that (m_state c = kConnected);
     let c = channel_do DisableAll (c\<lparr>m_state := kdisConnected\<rparr>);
     assert_that (m_close_cb c);
     Some (call_if True CloseCall c)
   }"

text \<open>\<open>from_addr\<close> is the address that \<^verbatim>\<open>recvfrom\<close> writes.\<close>

definition handleRead :: "sys_read \<Rightarrow> nat \<Rightarrow> udp \<Rightarrow> udp option" where
  "handleRead r from_addr c = do {
     (n, savedError, b) \<leftarrow> readFd_udp r (m_input_buffer c);
     let c = c\<lparr>m_input_buffer := b\<rparr>;
     if 0 < n then Some (call_if (m_message_cb c) (MessageCall from_addr) c)
     else if n = 0 then handleClose c
     else Some c
   }"

definition connectDestroyed :: "udp \<Rightarrow> udp option" where
  "connectDestroyed c = do {
     let c = (if m_state c = kConnected then channel_do DisableAll (c\<lparr>m_state := kdisConnected\<rparr>) else c);
     assert_that (isNoneEvent (m_channel c));
     Some (c\<lparr>removed := True\<rparr>)
   }"

definition sendInLoop :: "bytes \<Rightarrow> nat \<Rightarrow> send_result \<Rightarrow> udp \<Rightarrow> udp option" where
  "sendInLoop data addr r c =
     (if m_state c = kdisConnected then Some c
      else do {
        let (nwrite, Error, c) =
          (if \<not> isWriting (m_channel c) \<and> readableBytes (m_output_buffer c) = 0 then
             case r of
               Sent \<Rightarrow> (length data, False, call_if (m_writecomplete_cb c) (WriteCompleteCall addr)
                          (c\<lparr>datagrams := datagrams c @ [(Some addr, data)]\<rparr>))
             | Send_Error wouldblock \<Rightarrow> (0, \<not> wouldblock, c)
           else (0, False, c));
        let remaning = length data - nwrite;
        if \<not> Error \<and> 0 < remaning then do {
          let oldlen = readableBytes (m_output_buffer c);
          let c = call_if (m_highMark c \<le> oldlen + remaning \<and> oldlen < m_highMark c \<and> m_highwater_cb c)
                    (HighWaterCall (oldlen + remaning) addr) c;
          b \<leftarrow> buf_append (drop nwrite data) (m_output_buffer c);
          let c = c\<lparr>m_output_buffer := b\<rparr>;
          Some (if \<not> isWriting (m_channel c) then channel_do EnableWriting c else c)
        } else Some c
      })"

definition send :: "bytes \<Rightarrow> nat \<Rightarrow> send_result \<Rightarrow> udp \<Rightarrow> udp option" where
  "send data addr r c = (if m_state c = kConnected then sendInLoop data addr r c else Some c)"

definition send_buffer :: "buffer \<Rightarrow> nat \<Rightarrow> send_result \<Rightarrow> udp \<Rightarrow> (udp \<times> buffer) option" where
  "send_buffer b addr r c =
     (if m_state c = kConnected then do {
        c \<leftarrow> sendInLoop (contents b) addr r c;
        Some (c, resetAll b)
      } else Some (c, b))"

section \<open>A connection in use\<close>

text \<open>\<open>Queued\<close> is the second half of a send of another thread; \<open>Consume\<close> is a message callback that takes
  bytes out of the input buffer.\<close>

datatype udp_op = Send bytes nat send_result | Queued bytes nat send_result | Writable send_result
  | Readable sys_read nat | Hangup | Destroy | Consume nat

fun udp_step :: "udp_op \<Rightarrow> udp \<Rightarrow> udp option" where
  "udp_step (Send data addr r) c = send data addr r c"
| "udp_step (Queued data addr r) c = sendInLoop data addr r c"
| "udp_step (Writable r) c = handleWrite r c"
| "udp_step (Readable r a) c = handleRead r a c"
| "udp_step Hangup c = handleClose c"
| "udp_step Destroy c = connectDestroyed c"
| "udp_step (Consume n) c = do {
     b \<leftarrow> updatePos n (m_input_buffer c);
     Some (c\<lparr>m_input_buffer := b\<rparr>)
   }"

text \<open>The loop calls the handlers of an active channel only.\<close>

fun udp_enabled :: "udp_op \<Rightarrow> udp \<Rightarrow> bool" where
  "udp_enabled (Readable r a) c \<longleftrightarrow> m_state c = kConnected"
| "udp_enabled Hangup c \<longleftrightarrow> m_state c = kConnected"
| "udp_enabled (Consume n) c \<longleftrightarrow> n \<le> readableBytes (m_input_buffer c)"
| "udp_enabled _ c \<longleftrightarrow> True"

fun udp_run :: "udp_op list \<Rightarrow> udp \<Rightarrow> udp option" where
  "udp_run [] c = Some c"
| "udp_run (op # ops) c = do { c \<leftarrow> udp_step op c; udp_run ops c }"

fun udp_legal :: "udp_op list \<Rightarrow> udp \<Rightarrow> bool" where
  "udp_legal [] c \<longleftrightarrow> True"
| "udp_legal (op # ops) c \<longleftrightarrow>
     udp_enabled op c \<and> (case udp_step op c of None \<Rightarrow> True | Some c' \<Rightarrow> udp_legal ops c')"

section \<open>What is sent to an address\<close>

text \<open>
  A connection that is up sends each datagram to its address, until one would block; from then on, for good,
  it sends nothing to any address.
\<close>

datatype udp_phase = Up | Blocked | Closed

definition sent_phase :: "bytes \<Rightarrow> send_result \<Rightarrow> udp_phase" where
  "sent_phase data r = (if r = Send_Error True \<and> data \<noteq> [] then Blocked else Up)"

fun next_phase :: "udp_op \<Rightarrow> udp_phase \<Rightarrow> udp_phase" where
  "next_phase (Send data addr r) Up = sent_phase data r"
| "next_phase (Queued data addr r) Up = sent_phase data r"
| "next_phase (Readable (Read_Bytes []) a) ph = Closed"
| "next_phase Hangup ph = Closed"
| "next_phase Destroy ph = Closed"
| "next_phase op ph = ph"

fun sent_now :: "udp_op \<Rightarrow> udp_phase \<Rightarrow> (nat \<times> bytes) list" where
  "sent_now (Send data addr Sent) Up = [(addr, data)]"
| "sent_now (Queued data addr Sent) Up = [(addr, data)]"
| "sent_now op ph = []"

fun sent_to :: "udp_op list \<Rightarrow> udp_phase \<Rightarrow> (nat \<times> bytes) list" where
  "sent_to [] ph = []"
| "sent_to (op # ops) ph = sent_now op ph @ sent_to ops (next_phase op ph)"

definition addressed :: "udp \<Rightarrow> (nat \<times> bytes) list" where
  "addressed c = concat (map (\<lambda>(a, d). case a of None \<Rightarrow> [] | Some a \<Rightarrow> [(a, d)]) (datagrams c))"

definition in_phase :: "udp_phase \<Rightarrow> udp \<Rightarrow> bool" where
  "in_phase ph c \<longleftrightarrow> wf_buffer (m_input_buffer c) \<and> wf_buffer (m_output_buffer c) \<and> m_close_cb c \<and>
     (case ph of
        Up \<Rightarrow> m_state c = kConnected \<and> \<not> isWriting (m_channel c) \<and> contents (m_output_buffer c) = []
      | Blocked \<Rightarrow> m_state c = kConnected \<and> isWriting (m_channel c)
      | Closed \<Rightarrow> m_state c = kdisConnected \<and> m_events (m_channel c) = 0)"

lemma in_phase_new: "in_phase Up (UdpConnection sock message_cb True writecomplete_cb)"
  by (simp add: in_phase_def UdpConnection_def channel_do_def Channel_def isWriting_def event_defs)

lemma udp_writing_after [simp]:
  "isWriting (ch\<lparr>m_events := new_events EnableWriting e\<rparr>)"
proof -
  have "(e OR 4) AND 4 = (4 :: u32)" by (rule bit_word_eqI) (auto simp: bit_simps)
  then show ?thesis by (simp add: isWriting_def event_defs)
qed

declare new_events.simps [simp del]

lemma in_phase_input: "wf_buffer b \<Longrightarrow> in_phase ph c \<Longrightarrow> in_phase ph (c\<lparr>m_input_buffer := b\<rparr>)"
  by (cases ph) (simp_all add: in_phase_def)

lemma in_phase_call: "in_phase ph (call_if t x c) = in_phase ph c"
  by (cases ph) (simp_all add: in_phase_def call_if_def)

lemma addressed_append [simp]:
  "addressed (c\<lparr>datagrams := datagrams c @ [(None, d)]\<rparr>) = addressed c"
  "addressed (c\<lparr>datagrams := datagrams c @ [(Some a, d)]\<rparr>) = addressed c @ [(a, d)]"
  by (simp_all add: addressed_def)

lemma udp_frame [simp]:
  "addressed (c\<lparr>m_output_buffer := b\<rparr>) = addressed c" "addressed (c\<lparr>m_input_buffer := b\<rparr>) = addressed c"
  "addressed (c\<lparr>m_state := s\<rparr>) = addressed c" "addressed (c\<lparr>removed := r\<rparr>) = addressed c"
  "addressed (channel_do op c) = addressed c" "addressed (call_if t x c) = addressed c"
  "m_state (channel_do op c) = m_state c" "m_close_cb (channel_do op c) = m_close_cb c"
  "m_output_buffer (channel_do op c) = m_output_buffer c" "m_input_buffer (channel_do op c) = m_input_buffer c"
  "m_channel (channel_do op c) = (m_channel c)\<lparr>m_events := new_events op (m_events (m_channel c))\<rparr>"
  "m_state (call_if t x c) = m_state c" "m_close_cb (call_if t x c) = m_close_cb c"
  "m_output_buffer (call_if t x c) = m_output_buffer c" "m_input_buffer (call_if t x c) = m_input_buffer c"
  "m_channel (call_if t x c) = m_channel c"
  by (simp_all add: addressed_def channel_do_def call_if_def)

lemma readable_empty: "wf_buffer b \<Longrightarrow> readableBytes b = 0 \<longleftrightarrow> contents b = []"
  by (metis length_0_conv length_contents)

lemma udp_close:
  assumes "in_phase ph c" "m_state c = kConnected"
  shows "\<exists>c'. handleClose c = Some c' \<and> in_phase Closed c' \<and> addressed c' = addressed c"
  using assms by (simp add: handleClose_def in_phase_def Let_def new_events.simps event_defs)

lemma udp_send:
  assumes ph: "in_phase ph c"
  shows "\<exists>c'. sendInLoop data addr r c = Some c' \<and> in_phase (next_phase (Queued data addr r) ph) c' \<and>
    addressed c' = addressed c @ sent_now (Queued data addr r) ph"
proof (cases ph)
  case Closed
  then show ?thesis using ph by (simp add: sendInLoop_def in_phase_def)
next
  case Blocked
  have wf: "wf_buffer (m_output_buffer c)" using ph by (simp add: in_phase_def)
  let ?b = "m_highMark c \<le> readableBytes (m_output_buffer c) + length data \<and> readableBytes (m_output_buffer c) < m_highMark c \<and> m_highwater_cb c"
  obtain b where "buf_append data (m_output_buffer c) = Some b" "wf_buffer b" using buf_append_spec [OF wf] by blast
  then show ?thesis using ph Blocked by (auto simp: sendInLoop_def in_phase_def Let_def)
next
  case Up
  have wf: "wf_buffer (m_output_buffer c)" "readableBytes (m_output_buffer c) = 0"
    using ph Up readable_empty by (auto simp: in_phase_def)
  obtain b where b: "buf_append data (m_output_buffer c) = Some b" "wf_buffer b"
    using buf_append_spec [OF wf(1)] by blast
  show ?thesis
  proof (cases r)
    case Sent
    then show ?thesis using ph Up wf by (simp add: sendInLoop_def in_phase_def Let_def sent_phase_def)
  next
    case (Send_Error w)
    then show ?thesis using ph Up wf b by (cases w) (auto simp: sendInLoop_def in_phase_def Let_def sent_phase_def)
  qed
qed

lemma udp_step_ok:
  assumes ph: "in_phase ph c" and en: "udp_enabled op c"
  shows "\<exists>c'. udp_step op c = Some c' \<and> in_phase (next_phase op ph) c' \<and> addressed c' = addressed c @ sent_now op ph"
proof (cases op)
  case (Send data addr r)
  show ?thesis
  proof (cases "m_state c = kConnected")
    case True
    have "next_phase op ph = next_phase (Queued data addr r) ph" "sent_now op ph = sent_now (Queued data addr r) ph"
      using Send by (cases ph; cases r; simp)+
    then show ?thesis using udp_send [OF ph, of data addr r] Send True by (simp add: send_def)
  next
    case False
    then show ?thesis using ph Send by (cases ph) (simp_all add: send_def in_phase_def)
  qed
next
  case (Queued data addr r)
  then show ?thesis using udp_send [OF ph, of data addr r] by simp
next
  case (Writable r)
  show ?thesis
  proof (cases "r = Sent \<and> isWriting (m_channel c) \<and> 0 < readableBytes (m_output_buffer c)")
    case True
    have wf: "wf_buffer (m_output_buffer c)" using ph by (simp add: in_phase_def)
    obtain b where "updatePos (readableBytes (m_output_buffer c)) (m_output_buffer c) = Some b" "wf_buffer b"
      using updatePos_spec [OF wf order_refl] by blast
    then show ?thesis using True ph wf Writable
      by (cases ph) (auto simp: handleWrite_def in_phase_def Let_def isWriting_def)
  next
    case False
    then show ?thesis using ph Writable
      by (cases r; cases ph) (auto simp: handleWrite_def in_phase_def)
  qed
next
  case (Readable r a)
  have up: "m_state c = kConnected" and wf: "wf_buffer (m_input_buffer c)"
    using en ph Readable by (simp_all add: in_phase_def)
  show ?thesis
  proof (cases r)
    case (Read_Error e)
    then show ?thesis using ph Readable by (simp add: handleRead_def readFd_udp_def in_phase_def)
  next
    case (Read_Bytes data)
    obtain b where b: "buf_append data (m_input_buffer c) = Some b" "wf_buffer b" using buf_append_spec [OF wf] by blast
    have ph': "in_phase ph (c\<lparr>m_input_buffer := b\<rparr>)" using ph b(2) by (rule in_phase_input [rotated])
    show ?thesis
    proof (cases data)
      case Nil
      then show ?thesis using udp_close [OF ph'] up b(1) Readable Read_Bytes
        by (simp add: handleRead_def readFd_udp_def Let_def)
    next
      case (Cons x xs)
      have "in_phase ph (call_if t y (c\<lparr>m_input_buffer := b\<rparr>))" for t y using ph' by (simp add: in_phase_call)
      then show ?thesis using b(1) Readable Read_Bytes Cons
        by (simp add: handleRead_def readFd_udp_def Let_def)
    qed
  qed
next
  case Hangup
  then show ?thesis using udp_close [OF ph] en by simp
next
  case Destroy
  then show ?thesis using ph
    by (cases ph) (simp_all add: connectDestroyed_def in_phase_def Let_def isNoneEvent_def new_events.simps event_defs)
next
  case (Consume n)
  have wf: "wf_buffer (m_input_buffer c)" using ph by (simp add: in_phase_def)
  obtain b where "updatePos n (m_input_buffer c) = Some b" "wf_buffer b"
    using updatePos_spec [OF wf] en Consume by auto
  then show ?thesis using in_phase_input [OF _ ph] Consume by simp
qed

lemma udp_run_ok:
  "in_phase ph c \<Longrightarrow> udp_legal ops c \<Longrightarrow>
   \<exists>c'. udp_run ops c = Some c' \<and> addressed c' = addressed c @ sent_to ops ph"
proof (induction ops arbitrary: c ph)
  case (Cons op ops)
  then obtain d where d: "udp_step op c = Some d" "in_phase (next_phase op ph) d" "addressed d = addressed c @ sent_now op ph"
    using udp_step_ok [of ph c op] by auto
  then obtain c' where "udp_run ops d = Some c'" "addressed c' = addressed d @ sent_to ops (next_phase op ph)"
    using Cons.IH [OF d(2)] Cons.prems(2) by auto
  with d show ?case by auto
qed simp

text \<open>
  C39: Whatever is called on a datagram connection with a close callback, no assertion fails, and to addresses it
  sends exactly what \<open>sent_to\<close> says: each datagram as a whole and to its own address, until one would
  block; after that the channel asks for writing for good, and every later datagram goes into the output buffer, which
  \<^verbatim>\<open>write\<close> empties without an address; and nothing after a close, which an empty datagram is taken for.
\<close>

theorem udp_sends_to_addresses:
  assumes "udp_legal ops (UdpConnection sock message_cb True writecomplete_cb)"
  shows "\<exists>c. udp_run ops (UdpConnection sock message_cb True writecomplete_cb) = Some c \<and> addressed c = sent_to ops Up"
  using udp_run_ok [OF in_phase_new assms] by (simp add: addressed_def UdpConnection_def channel_do_def)

text \<open>After the second datagram would have blocked, the third is lost to its address.\<close>

theorem udp_sends_to_addresses_witness:
  "\<exists>c. udp_run [Send [1] 7 Sent, Send [2] 8 (Send_Error True), Send [3] 9 Sent, Writable Sent, Send [4] 9 Sent]
       (UdpConnection 5 True True False) = Some c \<and> addressed c = [(7, [1])]"
proof -
  let ?ops = "[Send [1] 7 Sent, Send [2] 8 (Send_Error True), Send [3] 9 Sent, Writable Sent, Send [4] 9 Sent]"
  have "udp_legal ?ops (UdpConnection 5 True True False)" by (simp split: option.splits)
  from udp_sends_to_addresses [OF this] show ?thesis by (simp add: sent_phase_def)
qed

end
