(* ===== verification/ThreadPool.thy ===== *)
theory ThreadPool
  imports Prelude
begin

text \<open>
  \<^verbatim>\<open>base/safequeue.h\<close> and \<^verbatim>\<open>base/threadpool.h/.cc\<close>: a queue with a lock and a condition,
  and threads that take tasks from it. Tasks are numbers. What a thread does under the lock is one step; it
  sleeps in \<^verbatim>\<open>m_cond.wait\<close>, which gives the lock back, until it is woken, by
  \<^verbatim>\<open>notify\<close>, which wakes one of those that sleep, or for no reason, as POSIX allows. \<open>pushed\<close> and
  \<open>begun\<close> record the tasks in the order in which they were added and taken.
\<close>

section \<open>The queue\<close>

record safe_queue =
  m_capacity :: nat
  m_que :: "nat list"

definition SafeQueue :: "nat \<Rightarrow> safe_queue" where
  "SafeQueue capacity = \<lparr>m_capacity = capacity, m_que = []\<rparr>"

definition queue_size :: "safe_queue \<Rightarrow> nat" where "queue_size q = length (m_que q)"

definition queue_empty :: "safe_queue \<Rightarrow> bool" where "queue_empty q \<longleftrightarrow> m_que q = []"

text \<open>The result of \<^verbatim>\<open>push\<close>, which notifies when it is \<open>True\<close>.\<close>

definition push :: "nat \<Rightarrow> safe_queue \<Rightarrow> bool \<times> safe_queue" where
  "push v q =
     (if m_capacity q \<noteq> 0 \<and> length (m_que q) = m_capacity q then (False, q)
      else (True, q\<lparr>m_que := m_que q @ [v]\<rparr>))"

definition pop :: "safe_queue \<Rightarrow> (nat \<times> safe_queue) option" where
  "pop q = (case m_que q of [] \<Rightarrow> None | v # vs \<Rightarrow> Some (v, q\<lparr>m_que := vs\<rparr>))"

section \<open>The pool\<close>

text \<open>Where a thread is: at the test of \<^verbatim>\<open>isStop\<close>, about to lock the queue, asleep in
  \<^verbatim>\<open>wait\<close>, woken there and about to lock again, in its task, or at its end.\<close>

datatype worker = Testing | Popping | Waiting | Woken | Calling nat | Ended

record thread_pool =
  isStop :: bool
  m_tasks :: safe_queue
  m_threads :: "worker list"
  pushed :: "nat list"
  begun :: "nat list"

definition start :: "thread_pool \<Rightarrow> thread_pool" where
  "start p = p\<lparr>m_threads := replicate (length (m_threads p)) Testing\<rparr>"

text \<open>A pool that is started at once.\<close>

definition ThreadPool :: "nat \<Rightarrow> nat \<Rightarrow> thread_pool" where
  "ThreadPool threads capacity =
     start \<lparr>isStop = False, m_tasks = SafeQueue capacity, m_threads = replicate threads Ended, pushed = [], begun = []\<rparr>"

definition set_worker :: "nat \<Rightarrow> worker \<Rightarrow> thread_pool \<Rightarrow> thread_pool" where
  "set_worker i w p = p\<lparr>m_threads := (m_threads p)[i := w]\<rparr>"

text \<open>\<open>wake\<close> is the thread that \<^verbatim>\<open>notify\<close> wakes, if one sleeps.\<close>

definition notify :: "nat option \<Rightarrow> thread_pool \<Rightarrow> thread_pool" where
  "notify wake p = (case wake of None \<Rightarrow> p | Some i \<Rightarrow> set_worker i Woken p)"

definition addTask :: "nat \<Rightarrow> nat option \<Rightarrow> thread_pool \<Rightarrow> bool \<times> thread_pool" where
  "addTask t wake p =
     (case push t (m_tasks p) of
        (False, q) \<Rightarrow> (False, p)
      | (True, q) \<Rightarrow> (True, notify wake (p\<lparr>m_tasks := q, pushed := pushed p @ [t]\<rparr>)))"

text \<open>The loop of \<^verbatim>\<open>pop_wait\<close>, under the lock: it waits, or leaves with the front.\<close>

definition pop_wait :: "nat \<Rightarrow> thread_pool \<Rightarrow> thread_pool" where
  "pop_wait i p =
     (case m_que (m_tasks p) of
        [] \<Rightarrow> set_worker i Waiting p
      | v # vs \<Rightarrow> set_worker i (Calling v) (p\<lparr>m_tasks := (m_tasks p)\<lparr>m_que := vs\<rparr>, begun := begun p @ [v]\<rparr>))"

text \<open>What \<^verbatim>\<open>join\<close> does before it waits for the threads to end.\<close>

definition join_begin :: "thread_pool \<Rightarrow> thread_pool" where
  "join_begin p = p\<lparr>isStop := True\<rparr>"

definition join_returns :: "thread_pool \<Rightarrow> bool" where
  "join_returns p \<longleftrightarrow> (\<forall>w \<in> set (m_threads p). w = Ended)"

datatype pool_event = Add nat "nat option" | Test nat | Lock nat | Wake nat | Return nat | Stop

fun pool_step :: "pool_event \<Rightarrow> thread_pool \<Rightarrow> thread_pool" where
  "pool_step (Add t wake) p = snd (addTask t wake p)"
| "pool_step (Test i) p = set_worker i (if \<not> isStop p then Popping else Ended) p"
| "pool_step (Lock i) p = pop_wait i p"
| "pool_step (Wake i) p = set_worker i Woken p"
| "pool_step (Return i) p = set_worker i Testing p"
| "pool_step Stop p = join_begin p"

fun is_calling :: "worker \<Rightarrow> bool" where
  "is_calling (Calling t) = True"
| "is_calling _ = False"

fun pool_legal :: "pool_event \<Rightarrow> thread_pool \<Rightarrow> bool" where
  "pool_legal (Add t wake) p \<longleftrightarrow>
     (case wake of None \<Rightarrow> Waiting \<notin> set (m_threads p) | Some i \<Rightarrow> i < length (m_threads p) \<and> m_threads p ! i = Waiting)"
| "pool_legal (Test i) p \<longleftrightarrow> i < length (m_threads p) \<and> m_threads p ! i = Testing"
| "pool_legal (Lock i) p \<longleftrightarrow> i < length (m_threads p) \<and> m_threads p ! i \<in> {Popping, Woken}"
| "pool_legal (Wake i) p \<longleftrightarrow> i < length (m_threads p) \<and> m_threads p ! i = Waiting"
| "pool_legal (Return i) p \<longleftrightarrow> i < length (m_threads p) \<and> is_calling (m_threads p ! i)"
| "pool_legal Stop p \<longleftrightarrow> True"

inductive pool_reachable :: "thread_pool \<Rightarrow> bool" where
  new: "pool_reachable (ThreadPool threads capacity)"
| step: "pool_reachable p \<Longrightarrow> pool_legal e p \<Longrightarrow> pool_reachable (pool_step e p)"

section \<open>Tasks run, in order\<close>

lemma count_list_update:
  "i < length xs \<Longrightarrow> count_list (xs[i := x]) y + of_bool (xs ! i = y) = count_list xs y + of_bool (x = y)"
proof (induction xs arbitrary: i)
  case (Cons z zs)
  show ?case
  proof (cases i)
    case 0
    then show ?thesis by simp
  next
    case (Suc n)
    then have "n < length zs" using Cons.prems by simp
    from Cons.IH [OF this] Suc show ?thesis by (cases "z = y") simp_all
  qed
qed simp

definition pool_inv :: "thread_pool \<Rightarrow> bool" where
  "pool_inv p \<longleftrightarrow> pushed p = begun p @ m_que (m_tasks p) \<and>
     (m_capacity (m_tasks p) = 0 \<or> length (m_que (m_tasks p)) \<le> m_capacity (m_tasks p)) \<and>
     (\<forall>t. Calling t \<in> set (m_threads p) \<longrightarrow> t \<in> set (begun p)) \<and>
     (Waiting \<in> set (m_threads p) \<longrightarrow> length (m_que (m_tasks p)) \<le> count_list (m_threads p) Woken)"

lemma in_set_update: "x \<in> set (xs[i := y]) \<Longrightarrow> x = y \<or> x \<in> set xs"
  by (meson insertE set_update_subset_insert subsetD)

lemma pool_step_inv:
  assumes inv: "pool_inv p" and legal: "pool_legal e p"
  shows "pool_inv (pool_step e p)"
proof (cases e)
  case (Add t wake)
  show ?thesis
  proof (cases wake)
    case None
    then show ?thesis using inv legal Add by (auto simp: addTask_def push_def pool_inv_def notify_def)
  next
    case (Some i)
    then show ?thesis
      using inv legal Add count_list_update [of i "m_threads p" Woken Woken]
      by (auto simp: addTask_def push_def pool_inv_def notify_def set_worker_def dest: in_set_update)
  qed
next
  case (Test i)
  then show ?thesis using inv legal count_list_update [of i "m_threads p" _ Woken]
    by (auto simp: pool_inv_def set_worker_def dest!: in_set_update)
next
  case (Lock i)
  show ?thesis
  proof (cases "m_que (m_tasks p)")
    case Nil
    then show ?thesis using inv Lock by (auto simp: pool_inv_def set_worker_def pop_wait_def dest: in_set_update)
  next
    case (Cons v vs)
    then show ?thesis using inv legal Lock count_list_update [of i "m_threads p" "Calling v" Woken]
      by (auto simp: pool_inv_def set_worker_def pop_wait_def split: if_splits dest!: in_set_update)
  qed
next
  case (Wake i)
  then show ?thesis using inv legal count_list_update [of i "m_threads p" Woken Woken]
    by (auto simp: pool_inv_def set_worker_def dest: in_set_update)
next
  case (Return i)
  then have "m_threads p ! i \<noteq> Woken" using legal by auto
  with Return show ?thesis using inv legal count_list_update [of i "m_threads p" Testing Woken]
    by (auto simp: pool_inv_def set_worker_def dest: in_set_update)
next
  case Stop
  then show ?thesis using inv by (simp add: pool_inv_def join_begin_def)
qed

lemma threads_reachable_inv: "pool_reachable p \<Longrightarrow> pool_inv p"
proof (induction rule: pool_reachable.induct)
  case (new threads capacity)
  show ?case by (simp add: pool_inv_def ThreadPool_def start_def SafeQueue_def)
qed (rule pool_step_inv)

text \<open>
  C40: Tasks begin in the order in which they were added, each once, and no more wait than the capacity; and no
  task is left behind: while a thread sleeps, at least as many threads are woken and on their way to the queue as
  tasks wait, so when all threads sleep, no task waits.
\<close>

theorem tasks_are_served:
  assumes "pool_reachable p"
  shows "pushed p = begun p @ m_que (m_tasks p) \<and>
    (m_capacity (m_tasks p) = 0 \<or> length (m_que (m_tasks p)) \<le> m_capacity (m_tasks p)) \<and>
    (Waiting \<notin> set (m_threads p) \<or> length (m_que (m_tasks p)) \<le> count_list (m_threads p) Woken)"
  using threads_reachable_inv [OF assms] by (auto simp: pool_inv_def)

theorem tasks_are_served_witness:
  "let p = pool_step (Add 7 (Some 0)) (pool_step (Lock 0) (pool_step (Test 0) (ThreadPool 3 1)))
   in pushed p = [7] \<and> begun p = [] \<and> m_threads p = [Woken, Testing, Testing] \<and>
     pushed p = begun p @ m_que (m_tasks p) \<and> fst (addTask 8 None p) = False"
proof -
  let ?p1 = "pool_step (Test 0) (ThreadPool 3 1)"
  let ?p2 = "pool_step (Lock 0) ?p1"
  let ?p3 = "pool_step (Add 7 (Some 0)) ?p2"
  note eval = ThreadPool_def start_def SafeQueue_def set_worker_def pop_wait_def addTask_def push_def notify_def
    numeral_3_eq_3
  have "pool_reachable ?p1" by (rule pool_reachable.step [OF pool_reachable.new]) (simp add: eval)
  then have "pool_reachable ?p2" by (rule pool_reachable.step) (simp add: eval)
  then have "pool_reachable ?p3" by (rule pool_reachable.step) (simp add: eval)
  from tasks_are_served [OF this] have "pushed ?p3 = begun ?p3 @ m_que (m_tasks ?p3)" by blast
  then show ?thesis by (simp add: eval)
qed

text \<open>
  \<^verbatim>\<open>join\<close> sets the flag but wakes nobody: with a thread that sleeps, or is about to find the
  queue empty, it comes back only if somebody adds another task.
\<close>

fun adds :: "pool_event \<Rightarrow> bool" where
  "adds (Add t wake) = True"
| "adds _ = False"

definition asleep :: "nat \<Rightarrow> thread_pool \<Rightarrow> bool" where
  "asleep i p \<longleftrightarrow> m_que (m_tasks p) = [] \<and> i < length (m_threads p) \<and> m_threads p ! i \<in> {Popping, Waiting, Woken}"

lemma asleep_step: "asleep i p \<Longrightarrow> pool_legal e p \<Longrightarrow> \<not> adds e \<Longrightarrow> asleep i (pool_step e p)"
  by (cases e) (auto simp: asleep_def set_worker_def pop_wait_def join_begin_def nth_list_update)

fun pool_run :: "pool_event list \<Rightarrow> thread_pool \<Rightarrow> thread_pool option" where
  "pool_run [] p = Some p"
| "pool_run (e # es) p = (if pool_legal e p then pool_run es (pool_step e p) else None)"

lemma join_hangs:
  "asleep i p \<Longrightarrow> \<not> list_ex adds es \<Longrightarrow> pool_run es (join_begin p) = Some p' \<Longrightarrow> \<not> join_returns p'"
proof -
  have run: "pool_run es q = Some p' \<Longrightarrow> asleep i q \<Longrightarrow> \<not> list_ex adds es \<Longrightarrow> asleep i p'" for q
    by (induction es arbitrary: q) (auto simp: asleep_step simp del: pool_step.simps pool_legal.simps split: if_splits)
  assume "asleep i p" "\<not> list_ex adds es" "pool_run es (join_begin p) = Some p'"
  then have "asleep i p'" using run [of "join_begin p"] by (simp add: asleep_def join_begin_def)
  then show "\<not> join_returns p'" unfolding asleep_def join_returns_def by (auto simp: all_set_conv_all_nth)
qed

section \<open>How a thread starts\<close>

text \<open>
  \<^verbatim>\<open>base/thread.h/.cc\<close>: the constructor makes the thread and waits at a semaphore; the thread
  prepares itself, notifies, and waits until it is started. The statements of the two and of \<^verbatim>\<open>start\<close>
  come in any order.
\<close>

datatype run_at = Preparing | At_test | In_wait | In_callback | Finished

record thread =
  m_isStart :: bool
  m_semaphore :: nat
  constructed :: bool
  running :: run_at

text \<open>\<^verbatim>\<open>Semaphore(count)\<close>, which makes 1 of 0, and 1 when nothing is given.\<close>

definition Semaphore :: "nat option \<Rightarrow> nat" where
  "Semaphore count = (case count of None \<Rightarrow> 1 | Some n \<Rightarrow> if n = 0 then 1 else n)"

definition Thread :: "bool \<Rightarrow> thread" where
  "Thread autoStart =
     \<lparr>m_isStart = autoStart, m_semaphore = Semaphore None, constructed = False, running = Preparing\<rparr>"

definition thread_start :: "thread \<Rightarrow> thread" where
  "thread_start t = t\<lparr>m_isStart := True, m_semaphore := m_semaphore t + 1\<rparr>"

inductive thread_step :: "thread \<Rightarrow> thread \<Rightarrow> bool" where
  construct: "\<not> constructed t \<Longrightarrow> 0 < m_semaphore t \<Longrightarrow>
    thread_step t (t\<lparr>constructed := True, m_semaphore := m_semaphore t - 1\<rparr>)"
| prepared: "running t = Preparing \<Longrightarrow> thread_step t (t\<lparr>running := At_test, m_semaphore := m_semaphore t + 1\<rparr>)"
| go: "running t = At_test \<Longrightarrow> m_isStart t \<Longrightarrow> thread_step t (t\<lparr>running := In_callback\<rparr>)"
| wait: "running t = At_test \<Longrightarrow> \<not> m_isStart t \<Longrightarrow> thread_step t (t\<lparr>running := In_wait\<rparr>)"
| woken: "running t = In_wait \<Longrightarrow> 0 < m_semaphore t \<Longrightarrow>
    thread_step t (t\<lparr>running := At_test, m_semaphore := m_semaphore t - 1\<rparr>)"
| finished: "running t = In_callback \<Longrightarrow> thread_step t (t\<lparr>running := Finished, m_isStart := False\<rparr>)"
| start: "constructed t \<Longrightarrow> thread_step t (thread_start t)"

inductive thread_reachable :: "thread \<Rightarrow> bool" where
  new: "thread_reachable (Thread autoStart)"
| step: "thread_reachable t \<Longrightarrow> thread_step t t' \<Longrightarrow> thread_reachable t'"

text \<open>A thread that was started does not stay in the wait: it can go on.\<close>

lemma started_thread_goes_on:
  "thread_reachable t \<Longrightarrow> m_isStart t \<and> running t = In_wait \<longrightarrow> constructed t \<and> 0 < m_semaphore t"
proof (induction rule: thread_reachable.induct)
  case (step t t')
  from step.hyps(2) step.IH show ?case by cases (auto simp: thread_start_def)
qed (simp add: Thread_def)

text \<open>The constructor is meant to come back after the preparations; the semaphore does not start at 0, so it need not.\<close>

lemma constructor_does_not_wait:
  "thread_step (Thread False) (Thread False\<lparr>constructed := True, m_semaphore := 0\<rparr>) \<and>
   running (Thread False\<lparr>constructed := True, m_semaphore := 0\<rparr>) = Preparing"
  using thread_step.construct [of "Thread False"] by (simp add: Thread_def Semaphore_def)

end
