(* ===== verification/TcpConnection.thy ===== *)
theory TcpConnection
  imports Buffer Poll
begin

text \<open>
  \<^verbatim>\<open>net/tcpconnection.h/.cc\<close>: a connection in its loop. The state holds the channel, the
  two buffers and which callbacks are set; \<open>calls\<close> is what the code hands to callbacks (at once or
  through the loop's queue), in order. The kernel's side of the socket is part of the state:
  \<open>wire\<close> are the bytes it took, \<open>wr_closed\<close> says that the writing side was shut down.

  What a system call returns is an argument: \<open>Room n\<close> is a socket that takes up to \<open>n\<close> bytes
  now, \<open>Write_Error b\<close> a failed call, with \<open>b\<close> for \<^verbatim>\<open>EWOULDBLOCK\<close>; a write
  after the shutdown fails with \<^verbatim>\<open>EPIPE\<close>. Callbacks run last in the function that calls
  them, so what they do to the connection is the operations that follow.
\<close>

section \<open>State\<close>

datatype conn_state = kConnceting | kConnected | kdisConnecting | kdisConnected

datatype conn_call = ConnectionCall | MessageCall | CloseCall | WriteCompleteCall | HighWaterCall nat

record connection =
  m_state :: conn_state
  m_channel :: channel
  m_highMark :: nat
  m_input_buffer :: buffer
  m_output_buffer :: buffer
  m_connection_cb :: bool
  m_message_cb :: bool
  m_close_cb :: bool
  m_highwater_cb :: bool
  m_writecomplete_cb :: bool
  calls :: "conn_call list"
  removed :: bool
  wire :: bytes
  wr_closed :: bool

text \<open>All callbacks but the high water mark's are those that the server sets.\<close>

definition TcpConnection :: "int \<Rightarrow> connection" where
  "TcpConnection sock =
     \<lparr>m_state = kConnceting, m_channel = Channel sock, m_highMark = 64 * 1024 * 1024,
      m_input_buffer = buffer_new kInitialSize, m_output_buffer = buffer_new kInitialSize,
      m_connection_cb = True, m_message_cb = True, m_close_cb = True, m_highwater_cb = False,
      m_writecomplete_cb = False, calls = [], removed = False, wire = [], wr_closed = False\<rparr>"

definition setHighWaterCallback :: "nat \<Rightarrow> connection \<Rightarrow> connection" where
  "setHighWaterCallback len c = c\<lparr>m_highwater_cb := True, m_highMark := len\<rparr>"

definition setWriteCompleteCallback :: "connection \<Rightarrow> connection" where
  "setWriteCompleteCallback c = c\<lparr>m_writecomplete_cb := True\<rparr>"

definition channel_do :: "channel_op \<Rightarrow> connection \<Rightarrow> connection" where
  "channel_do op c = c\<lparr>m_channel := (m_channel c)\<lparr>m_events := new_events op (m_events (m_channel c))\<rparr>\<rparr>"

definition call_if :: "bool \<Rightarrow> conn_call \<Rightarrow> connection \<Rightarrow> connection" where
  "call_if b x c = (if b then c\<lparr>calls := calls c @ [x]\<rparr> else c)"

section \<open>Operations\<close>

datatype sys_write = Room nat | Write_Error bool

text \<open>\<^verbatim>\<open>::write\<close>: the number of bytes taken or the error (\<open>True\<close> for
  \<^verbatim>\<open>EWOULDBLOCK\<close>).\<close>

definition sys_write_result :: "sys_write \<Rightarrow> bytes \<Rightarrow> connection \<Rightarrow> bool + nat" where
  "sys_write_result w data c =
     (if wr_closed c then Inl False
      else case w of Room n \<Rightarrow> Inr (min n (length data)) | Write_Error b \<Rightarrow> Inl b)"

definition connectEstablished :: "connection \<Rightarrow> connection option" where
  "connectEstablished c = do {
     assert_that (m_state c = kConnceting);
     let c = channel_do EnableReading (c\<lparr>m_state := kConnected\<rparr>);
     Some (call_if (m_connection_cb c) ConnectionCall c)
   }"

definition connectDestroyed :: "connection \<Rightarrow> connection option" where
  "connectDestroyed c = do {
     let c = (if m_state c = kConnected then
         let c = channel_do DisableAll (c\<lparr>m_state := kdisConnected\<rparr>)
         in call_if (m_connection_cb c) ConnectionCall c
       else c);
     assert_that (isNoneEvent (m_channel c));
     Some (c\<lparr>removed := True\<rparr>)
   }"

definition handleClose :: "connection \<Rightarrow> connection option" where
  "handleClose c = do {
     assert_that (m_state c = kConnected \<or> m_state c = kdisConnecting);
     let c = channel_do DisableAll (c\<lparr>m_state := kdisConnected\<rparr>);
     Some (call_if (m_close_cb c) CloseCall c)
   }"

definition shutdownInLoop :: "connection \<Rightarrow> connection" where
  "shutdownInLoop c = (if \<not> isWriting (m_channel c) then c\<lparr>wr_closed := True\<rparr> else c)"

definition shutdown :: "connection \<Rightarrow> connection" where
  "shutdown c = (if m_state c = kConnected then shutdownInLoop (c\<lparr>m_state := kdisConnecting\<rparr>) else c)"

definition handleWrite :: "sys_write \<Rightarrow> connection \<Rightarrow> connection option" where
  "handleWrite w c =
     (if isWriting (m_channel c) then
        case sys_write_result w (contents (m_output_buffer c)) c of
          Inr n \<Rightarrow>
            if 0 < n then do {
              let c = c\<lparr>wire := wire c @ take n (contents (m_output_buffer c))\<rparr>;
              b \<leftarrow> updatePos n (m_output_buffer c);
              let c = c\<lparr>m_output_buffer := b\<rparr>;
              if readableBytes b = 0 then do {
                let c = channel_do DisableWriting c;
                let c = call_if (m_writecomplete_cb c) WriteCompleteCall c;
                Some (if m_state c = kdisConnecting then shutdownInLoop c else c)
              } else Some c
            } else Some c
        | Inl _ \<Rightarrow> Some c
      else Some c)"

text \<open>\<^verbatim>\<open>handleError\<close> only logs.\<close>

definition handleRead :: "sys_read \<Rightarrow> connection \<Rightarrow> connection option" where
  "handleRead r c = do {
     (n, savedError, b) \<leftarrow> readFd r (m_input_buffer c);
     let c = c\<lparr>m_input_buffer := b\<rparr>;
     if 0 < n then Some (call_if (m_message_cb c) MessageCall c)
     else if n = 0 then handleClose c
     else Some c
   }"

definition sendInLoop :: "bytes \<Rightarrow> sys_write \<Rightarrow> connection \<Rightarrow> connection option" where
  "sendInLoop data w c =
     (if m_state c = kdisConnected then Some c
      else do {
        let (nwrite, Error, c) =
          (if \<not> isWriting (m_channel c) \<and> readableBytes (m_output_buffer c) = 0 then
             case sys_write_result w data c of
               Inr n \<Rightarrow> (n, False, call_if (length data - n = 0 \<and> m_writecomplete_cb c) WriteCompleteCall
                          (c\<lparr>wire := wire c @ take n data\<rparr>))
             | Inl wouldblock \<Rightarrow> (0, \<not> wouldblock, c)
           else (0, False, c));
        let remaning = length data - nwrite;
        if \<not> Error \<and> 0 < remaning then do {
          let oldlen = readableBytes (m_output_buffer c);
          let c = call_if (m_highMark c \<le> oldlen + remaning \<and> oldlen < m_highMark c \<and> m_highwater_cb c)
                    (HighWaterCall (oldlen + remaning)) c;
          b \<leftarrow> buf_append (drop nwrite data) (m_output_buffer c);
          let c = c\<lparr>m_output_buffer := b\<rparr>;
          Some (if \<not> isWriting (m_channel c) then channel_do EnableWriting c else c)
        } else Some c
      })"

definition send :: "bytes \<Rightarrow> sys_write \<Rightarrow> connection \<Rightarrow> connection option" where
  "send data w c = (if m_state c = kConnected then sendInLoop data w c else Some c)"

text \<open>\<^verbatim>\<open>send(Buffer *)\<close>: the buffer is emptied when the connection is up.\<close>

definition send_buffer :: "buffer \<Rightarrow> sys_write \<Rightarrow> connection \<Rightarrow> (connection \<times> buffer) option" where
  "send_buffer b w c =
     (if m_state c = kConnected then do {
        c \<leftarrow> sendInLoop (contents b) w c;
        Some (c, resetAll b)
      } else Some (c, b))"

text \<open>\<open>data\<close> are the \<^verbatim>\<open>len\<close> bytes of the file from \<^verbatim>\<open>offset\<close> on.\<close>

definition sendFileInLoop :: "bytes \<Rightarrow> sys_write \<Rightarrow> connection \<Rightarrow> connection" where
  "sendFileInLoop data w c =
     (if m_state c = kdisConnected then c
      else if \<not> isWriting (m_channel c) \<and> readableBytes (m_output_buffer c) = 0 then
        (case sys_write_result w data c of
           Inr n \<Rightarrow> c\<lparr>wire := wire c @ take n data\<rparr>
         | Inl _ \<Rightarrow> c)
      else c)"

definition sendFile :: "bytes \<Rightarrow> sys_write \<Rightarrow> connection \<Rightarrow> connection" where
  "sendFile data w c = (if m_state c = kConnected then sendFileInLoop data w c else c)"

section \<open>A connection in use\<close>

text \<open>
  \<open>SendQueued\<close> is the second half of a \<^verbatim>\<open>send\<close> of another thread, which may come after
  a shutdown; \<open>Consume\<close> is a message callback that takes bytes out of the input buffer.
\<close>

datatype conn_op = Establish | Destroy | Send bytes sys_write | SendQueued bytes sys_write
  | SendFile bytes sys_write | Shutdown | Readable sys_read | Writable sys_write | Hangup | Consume nat

fun conn_step :: "conn_op \<Rightarrow> connection \<Rightarrow> connection option" where
  "conn_step Establish c = connectEstablished c"
| "conn_step Destroy c = connectDestroyed c"
| "conn_step (Send data w) c = send data w c"
| "conn_step (SendQueued data w) c = sendInLoop data w c"
| "conn_step (SendFile data w) c = Some (sendFile data w c)"
| "conn_step Shutdown c = Some (shutdown c)"
| "conn_step (Readable r) c = handleRead r c"
| "conn_step (Writable w) c = handleWrite w c"
| "conn_step Hangup c = handleClose c"
| "conn_step (Consume n) c = do {
     b \<leftarrow> updatePos n (m_input_buffer c);
     Some (c\<lparr>m_input_buffer := b\<rparr>)
   }"

text \<open>
  When the loop and the server make the calls: a connection is established once, its channel is
  active and its sends are queued only while or after it was up, and it is destroyed when it is
  up or closed.
\<close>

fun enabled :: "conn_op \<Rightarrow> connection \<Rightarrow> bool" where
  "enabled Establish c \<longleftrightarrow> m_state c = kConnceting"
| "enabled Destroy c \<longleftrightarrow> m_state c = kConnected \<or> m_state c = kdisConnected"
| "enabled (SendQueued data w) c \<longleftrightarrow> m_state c \<noteq> kConnceting"
| "enabled (Readable r) c \<longleftrightarrow> m_state c = kConnected \<or> m_state c = kdisConnecting"
| "enabled Hangup c \<longleftrightarrow> m_state c = kConnected \<or> m_state c = kdisConnecting"
| "enabled (Consume n) c \<longleftrightarrow> n \<le> readableBytes (m_input_buffer c)"
| "enabled _ c \<longleftrightarrow> True"

fun conn_run :: "conn_op list \<Rightarrow> connection \<Rightarrow> connection option" where
  "conn_run [] c = Some c"
| "conn_run (op # ops) c = do { c \<leftarrow> conn_step op c; conn_run ops c }"

fun all_enabled :: "conn_op list \<Rightarrow> connection \<Rightarrow> bool" where
  "all_enabled [] c \<longleftrightarrow> True"
| "all_enabled (op # ops) c \<longleftrightarrow> 
     enabled op c \<and> (case conn_step op c of None \<Rightarrow> True | Some c' \<Rightarrow> all_enabled ops c')"

text \<open>
  What a call gives the connection, whatever becomes of it; and how many bytes of it the connection
  keeps. A send keeps all, or nothing when the connection is not up (a queued one: when it is closed) or
  when the write that is tried on an idle connection fails with another error than
  \<^verbatim>\<open>EWOULDBLOCK\<close>. Of a file it keeps what the one call to \<^verbatim>\<open>sendfile\<close> takes.
\<close>

definition idle :: "connection \<Rightarrow> bool" where
  "idle c \<longleftrightarrow> \<not> isWriting (m_channel c) \<and> readableBytes (m_output_buffer c) = 0"

fun given :: "conn_op \<Rightarrow> bytes" where
  "given (Send data w) = data"
| "given (SendQueued data w) = data"
| "given (SendFile data w) = data"
| "given _ = []"

fun kept :: "conn_op \<Rightarrow> connection \<Rightarrow> nat" where
  "kept (Send data w) c =
     (if m_state c \<noteq> kConnected \<or> idle c \<and> sys_write_result w data c = Inl False then 0 else length data)"
| "kept (SendQueued data w) c =
     (if m_state c = kdisConnected \<or> idle c \<and> sys_write_result w data c = Inl False then 0 else length data)"
| "kept (SendFile data w) c =
     (if m_state c = kConnected \<and> idle c then
        (case sys_write_result w data c of Inr n \<Rightarrow> n | Inl _ \<Rightarrow> 0) else 0)"
| "kept _ c = 0"

fun run_kept :: "conn_op list \<Rightarrow> connection \<Rightarrow> nat list" where
  "run_kept [] c = []"
| "run_kept (op # ops) c =
     kept op c # (case conn_step op c of None \<Rightarrow> map (\<lambda>_. 0) ops | Some c' \<Rightarrow> run_kept ops c')"

text \<open>
  A run in which nothing is dropped: every send is made while the connection is up, no write of a send
  fails with another error than \<^verbatim>\<open>EWOULDBLOCK\<close>, and no file is sent.
\<close>

fun undropped :: "conn_op \<Rightarrow> connection \<Rightarrow> bool" where
  "undropped (Send data w) c \<longleftrightarrow> m_state c = kConnected \<and> w \<noteq> Write_Error False"
| "undropped (SendQueued data w) c \<longleftrightarrow> m_state c = kConnected \<and> w \<noteq> Write_Error False"
| "undropped (SendFile data w) c \<longleftrightarrow> False"
| "undropped _ c \<longleftrightarrow> True"

fun all_undropped :: "conn_op list \<Rightarrow> connection \<Rightarrow> bool" where
  "all_undropped [] c \<longleftrightarrow> True"
| "all_undropped (op # ops) c \<longleftrightarrow>
     undropped op c \<and> (case conn_step op c of None \<Rightarrow> True | Some c' \<Rightarrow> all_undropped ops c')"

text \<open>The bytes a send adds to the stream.\<close>

definition accepted :: "bytes \<Rightarrow> sys_write \<Rightarrow> connection \<Rightarrow> bytes" where
  "accepted data w c =
     (if m_state c = kdisConnected then []
      else if idle c \<and> sys_write_result w data c = Inl False then [] else data)"

section \<open>The invariant of a connection\<close>

text \<open>
  While a connection is up, it asks its loop for writability exactly when bytes wait in its output
  buffer; the writing side of the socket is shut down only when none wait.
\<close>

definition conn_ok :: "connection \<Rightarrow> bool" where
  "conn_ok c \<longleftrightarrow> wf_buffer (m_input_buffer c) \<and> wf_buffer (m_output_buffer c) \<and>
     (m_state c = kConnected \<or> m_state c = kdisConnecting \<longrightarrow>
        (isWriting (m_channel c) \<longleftrightarrow> contents (m_output_buffer c) \<noteq> [])) \<and>
     (m_state c = kConnceting \<or> m_state c = kdisConnected \<longrightarrow> m_events (m_channel c) = 0) \<and>
     (m_state c = kConnceting \<longrightarrow> contents (m_output_buffer c) = []) \<and>
     (wr_closed c \<longrightarrow> m_state c = kdisConnecting \<and> contents (m_output_buffer c) = [] \<or> m_state c = kdisConnected)"

lemma conn_ok_new: "conn_ok (TcpConnection sock)"
  by (simp add: conn_ok_def TcpConnection_def Channel_def)

lemma isWriting_more [simp]:
  "\<not> isWriting (ch\<lparr>m_events := new_events DisableAll e\<rparr>)"
  "\<not> isWriting (ch\<lparr>m_events := new_events DisableWriting e\<rparr>)"
  "isWriting (ch\<lparr>m_events := new_events EnableWriting e\<rparr>)"
  "isWriting (ch\<lparr>m_events := new_events EnableReading e\<rparr>) \<longleftrightarrow> isWriting (ch\<lparr>m_events := e\<rparr>)"
proof -
  have w: "POLLOUT \<noteq> 0" by (simp add: POLLOUT_def)
  have "(e OR 4) AND 4 = (4 :: u32)" by (rule bit_word_eqI) (auto simp: bit_simps)
  then show "isWriting (ch\<lparr>m_events := new_events EnableWriting e\<rparr>)"
    by (simp add: isWriting_def event_defs)
  have "(e AND NOT 4) AND 4 = (0 :: u32)" by (rule bit_word_eqI) (auto simp: bit_simps)
  then show "\<not> isWriting (ch\<lparr>m_events := new_events DisableWriting e\<rparr>)"
    by (simp add: isWriting_def event_defs)
  have "(e OR 3) AND 4 = e AND (4 :: u32)" by (simp add: bit.conj_disj_distrib2)
  then show "isWriting (ch\<lparr>m_events := new_events EnableReading e\<rparr>) \<longleftrightarrow> isWriting (ch\<lparr>m_events := e\<rparr>)"
    by (simp add: isWriting_def event_defs)
qed (simp add: isWriting_def event_defs)

declare new_events.simps [simp del]

lemma channel_do_frame [simp]:
  "m_state (channel_do op c) = m_state c" "m_output_buffer (channel_do op c) = m_output_buffer c"
  "m_input_buffer (channel_do op c) = m_input_buffer c" "wire (channel_do op c) = wire c"
  "wr_closed (channel_do op c) = wr_closed c" "calls (channel_do op c) = calls c"
  "m_channel (channel_do op c) = (m_channel c)\<lparr>m_events := new_events op (m_events (m_channel c))\<rparr>"
  by (simp_all add: channel_do_def)

lemma call_if_frame [simp]:
  "m_state (call_if b x c) = m_state c" "m_output_buffer (call_if b x c) = m_output_buffer c"
  "m_input_buffer (call_if b x c) = m_input_buffer c" "wire (call_if b x c) = wire c"
  "wr_closed (call_if b x c) = wr_closed c" "m_channel (call_if b x c) = m_channel c"
  "m_highMark (call_if b x c) = m_highMark c" "m_highwater_cb (call_if b x c) = m_highwater_cb c"
  by (simp_all add: call_if_def)

lemma idle_empty:
  assumes "conn_ok c" and "m_state c = kConnected \<or> m_state c = kdisConnecting"
  shows "idle c \<longleftrightarrow> contents (m_output_buffer c) = []" and "isWriting (m_channel c) \<longleftrightarrow> \<not> idle c"
proof -
  have "wf_buffer (m_output_buffer c)" using assms(1) by (simp add: conn_ok_def)
  then have "readableBytes (m_output_buffer c) = 0 \<longleftrightarrow> contents (m_output_buffer c) = []"
    by (metis length_0_conv length_contents)
  then show "idle c \<longleftrightarrow> contents (m_output_buffer c) = []" and "isWriting (m_channel c) \<longleftrightarrow> \<not> idle c"
    using assms unfolding idle_def conn_ok_def by blast+
qed

text \<open>The stream of a connection: what the kernel has and what waits.\<close>

definition stream :: "connection \<Rightarrow> bytes" where
  "stream c = wire c @ contents (m_output_buffer c)"

lemma sendInLoop_spec:
  assumes ok: "conn_ok c" and state: "m_state c \<noteq> kConnceting"
  shows "\<exists>c'. sendInLoop data w c = Some c' \<and> conn_ok c' \<and> m_state c' = m_state c \<and>
    stream c' = stream c @ accepted data w c"
proof (cases "m_state c = kdisConnected")
  case True
  then show ?thesis using ok by (simp add: sendInLoop_def accepted_def)
next
  case False
  then have up: "m_state c = kConnected \<or> m_state c = kdisConnecting" using state by (cases "m_state c") auto
  have wf: "wf_buffer (m_output_buffer c)" using ok by (simp add: conn_ok_def)
  note I = idle_empty [OF ok up]
  show ?thesis
  proof (cases "idle c")
    case idle: True
    then have empty: "contents (m_output_buffer c) = []" "\<not> isWriting (m_channel c)" using I by auto
    show ?thesis
    proof (cases "sys_write_result w data c")
      case (Inl wouldblock)
      obtain b where b: "buf_append data (m_output_buffer c) = Some b" "wf_buffer b" "contents b = data"
        using buf_append_spec [OF wf, of data] empty by auto
      have "wouldblock \<longrightarrow> \<not> wr_closed c" using Inl by (auto simp: sys_write_result_def split: if_splits)
      then show ?thesis
        using idle Inl b ok up empty False
        by (cases "wouldblock \<and> data \<noteq> []")
          (auto simp: sendInLoop_def idle_def accepted_def stream_def conn_ok_def Let_def)
    next
      case (Inr n)
      then have n: "n \<le> length data" "\<not> wr_closed c"
        by (auto simp: sys_write_result_def split: if_splits sys_write.splits)
      let ?c = "call_if (length data - n = 0 \<and> m_writecomplete_cb c) WriteCompleteCall
        (c\<lparr>wire := wire c @ take n data\<rparr>)"
      obtain b where b: "buf_append (drop n data) (m_output_buffer c) = Some b" "wf_buffer b"
        "contents b = drop n data"
        using buf_append_spec [OF wf, of "drop n data"] empty by auto
      show ?thesis
        using idle Inr b ok up empty False n
        by (cases "n = length data")
          (auto simp: sendInLoop_def idle_def accepted_def stream_def conn_ok_def Let_def)
    qed
  next
    case busy: False
    then have writing: "isWriting (m_channel c)" "contents (m_output_buffer c) \<noteq> []" using I by auto
    obtain b where b: "buf_append data (m_output_buffer c) = Some b" "wf_buffer b"
      "contents b = contents (m_output_buffer c) @ data"
      using buf_append_spec [OF wf, of data] by auto
    have "\<not> wr_closed c" using ok up writing(2) by (auto simp: conn_ok_def)
    then show ?thesis
      using busy b ok up writing False
      by (cases "data = []") (auto simp: sendInLoop_def accepted_def stream_def conn_ok_def Let_def)
  qed
qed

lemma handleWrite_spec:
  assumes ok: "conn_ok c"
  shows "\<exists>c'. handleWrite w c = Some c' \<and> conn_ok c' \<and> m_state c' = m_state c \<and> stream c' = stream c"
proof (cases "isWriting (m_channel c)")
  case False
  then show ?thesis using ok by (simp add: handleWrite_def)
next
  case True
  have "m_events (m_channel c) \<noteq> 0" using True by (auto simp: isWriting_def)
  then have up: "m_state c = kConnected \<or> m_state c = kdisConnecting"
    using ok by (cases "m_state c") (auto simp: conn_ok_def)
  have wf: "wf_buffer (m_output_buffer c)" using ok by (simp add: conn_ok_def)
  show ?thesis
  proof (cases "sys_write_result w (contents (m_output_buffer c)) c")
    case (Inl b)
    then show ?thesis using True ok by (simp add: handleWrite_def)
  next
    case (Inr n)
    then have n: "n \<le> length (contents (m_output_buffer c))" "\<not> wr_closed c"
      by (auto simp: sys_write_result_def split: if_splits sys_write.splits)
    show ?thesis
    proof (cases "0 < n")
      case False
      then show ?thesis using True ok Inr by (simp add: handleWrite_def)
    next
      case pos: True
      have "n \<le> readableBytes (m_output_buffer c)" using n(1) wf by simp
      then obtain b where b: "updatePos n (m_output_buffer c) = Some b" "wf_buffer b"
        "contents b = drop n (contents (m_output_buffer c))"
        using updatePos_spec [OF wf] by blast
      have r: "readableBytes b = 0 \<longleftrightarrow> contents b = []" using b(2) by (metis length_0_conv length_contents)
      show ?thesis
      proof (cases "contents b = []")
        case True
        then show ?thesis
          using \<open>isWriting (m_channel c)\<close> ok up Inr n b(1,2) b(3) [symmetric] pos r
          by (auto simp: handleWrite_def Let_def shutdownInLoop_def stream_def conn_ok_def)
      next
        case False
        then show ?thesis
          using \<open>isWriting (m_channel c)\<close> ok up Inr n b(1,2) pos r
          by (auto simp: handleWrite_def Let_def stream_def conn_ok_def b(3))
      qed
    qed
  qed
qed

lemma handleClose_spec:
  assumes "conn_ok c" and "m_state c = kConnected \<or> m_state c = kdisConnecting"
  shows "\<exists>c'. handleClose c = Some c' \<and> conn_ok c' \<and> m_state c' = kdisConnected \<and> stream c' = stream c"
  using assms by (auto simp: handleClose_def Let_def conn_ok_def stream_def new_events.simps kNoneEvent_def)

lemma conn_handleRead_spec:
  assumes ok: "conn_ok c" and up: "m_state c = kConnected \<or> m_state c = kdisConnecting"
  shows "\<exists>c'. handleRead r c = Some c' \<and> conn_ok c' \<and> stream c' = stream c"
proof (cases r)
  case (Read_Error e)
  then show ?thesis using ok by (simp add: handleRead_def readFd_def)
next
  case (Read_Bytes data)
  have "wf_buffer (m_input_buffer c)" using ok by (simp add: conn_ok_def)
  then obtain b where b: "readFd r (m_input_buffer c) = Some (int (length data), None, b)" "wf_buffer b"
    using readFd_spec [of "m_input_buffer c" data] Read_Bytes by auto
  have ok': "conn_ok (c\<lparr>m_input_buffer := b\<rparr>)" using ok b(2) by (auto simp: conn_ok_def)
  show ?thesis
  proof (cases "data = []")
    case True
    have "m_state (c\<lparr>m_input_buffer := b\<rparr>) = kConnected \<or> m_state (c\<lparr>m_input_buffer := b\<rparr>) = kdisConnecting"
      using up by simp
    from handleClose_spec [OF ok' this] show ?thesis
      using True b(1) by (auto simp: handleRead_def stream_def)
  next
    case False
    then show ?thesis using b(1) ok' by (auto simp: handleRead_def stream_def conn_ok_def)
  qed
qed

lemma conn_step_spec:
  assumes ok: "conn_ok c" and en: "enabled op c"
  shows "\<exists>c'. conn_step op c = Some c' \<and> conn_ok c' \<and> stream c' = stream c @ take (kept op c) (given op)"
proof (cases op)
  case Establish
  then show ?thesis
    using ok en by (auto simp: connectEstablished_def Let_def conn_ok_def stream_def new_events.simps
        isWriting_def event_defs)
next
  case Destroy
  then show ?thesis
    using ok en by (auto simp: connectDestroyed_def Let_def conn_ok_def stream_def new_events.simps
        isNoneEvent_def kNoneEvent_def)
next
  case (Send data w)
  then show ?thesis
    using sendInLoop_spec [OF ok, of data w] ok by (auto simp: send_def accepted_def)
next
  case (SendQueued data w)
  then show ?thesis
    using sendInLoop_spec [OF ok, of data w] en by (auto simp: accepted_def)
next
  case (SendFile data w)
  show ?thesis
  proof (cases "m_state c = kConnected \<and> idle c")
    case True
    then have "contents (m_output_buffer c) = []" using idle_empty(1) [OF ok] by blast
    then show ?thesis using True ok SendFile
      by (auto simp: sendFile_def sendFileInLoop_def idle_def stream_def conn_ok_def split: sum.splits)
  next
    case False
    then show ?thesis using ok SendFile
      by (auto simp: sendFile_def sendFileInLoop_def idle_def)
  qed
next
  case Shutdown
  then show ?thesis
    using ok by (auto simp: shutdown_def shutdownInLoop_def conn_ok_def stream_def)
next
  case (Readable r)
  then show ?thesis using conn_handleRead_spec [OF ok] en by simp
next
  case (Writable w)
  then show ?thesis using handleWrite_spec [OF ok, of w] by auto
next
  case Hangup
  then show ?thesis using handleClose_spec [OF ok] en by auto
next
  case (Consume n)
  then obtain b where "updatePos n (m_input_buffer c) = Some b" "wf_buffer b"
    using updatePos_spec [of "m_input_buffer c" n] ok en by (auto simp: conn_ok_def)
  then show ?thesis using ok Consume by (auto simp: conn_ok_def stream_def)
qed

lemma conn_run_spec:
  "conn_ok c \<Longrightarrow> all_enabled ops c \<Longrightarrow>
   \<exists>c'. conn_run ops c = Some c' \<and> conn_ok c' \<and>
     stream c' = stream c @ concat (map2 take (run_kept ops c) (map given ops))"
proof (induction ops arbitrary: c)
  case (Cons op ops)
  then obtain d where d: "conn_step op c = Some d" "conn_ok d" "stream d = stream c @ take (kept op c) (given op)"
    using conn_step_spec [of c op] by auto
  then obtain c' where "conn_run ops d = Some c'" "conn_ok c'"
    "stream c' = stream d @ concat (map2 take (run_kept ops d) (map given ops))"
    using Cons.IH [OF d(2)] Cons.prems(2) d(1) by auto
  with d show ?case by auto
qed simp

lemma kept_undropped:
  assumes "conn_ok c" and "undropped op c"
  shows "take (kept op c) (given op) = given op"
proof -
  have "sys_write_result w data c \<noteq> Inl False" if "m_state c = kConnected" "w \<noteq> Write_Error False" for w data
    using assms(1) that by (cases w) (auto simp: sys_write_result_def conn_ok_def)
  then show ?thesis using assms(2) by (cases op) auto
qed

lemma run_kept_undropped:
  "conn_ok c \<Longrightarrow> all_enabled ops c \<Longrightarrow> all_undropped ops c \<Longrightarrow>
   concat (map2 take (run_kept ops c) (map given ops)) = concat (map given ops)"
proof (induction ops arbitrary: c)
  case (Cons op ops)
  obtain d where "conn_step op c = Some d" "conn_ok d" using conn_step_spec [of c op] Cons.prems by auto
  with Cons.IH [of d] Cons.prems show ?case by (simp add: kept_undropped)
qed simp

section \<open>Writing out what waits\<close>

lemma writable_progress:
  assumes ok: "conn_ok c" and up: "m_state c = kConnected \<or> m_state c = kdisConnecting"
    and pending: "contents (m_output_buffer c) \<noteq> []"
  shows "\<exists>c'. handleWrite (Room (Suc n)) c = Some c' \<and> conn_ok c' \<and> m_state c' = m_state c \<and>
    stream c' = stream c \<and> contents (m_output_buffer c') = drop (Suc n) (contents (m_output_buffer c)) \<and>
    (contents (m_output_buffer c') = [] \<longrightarrow> wr_closed c' = (m_state c = kdisConnecting))"
proof -
  have wf: "wf_buffer (m_output_buffer c)" using ok by (simp add: conn_ok_def)
  have writing: "isWriting (m_channel c)" using ok up pending unfolding conn_ok_def by blast
  have open_: "\<not> wr_closed c" using ok up pending by (auto simp: conn_ok_def)
  let ?k = "min (Suc n) (length (contents (m_output_buffer c)))"
  have res: "sys_write_result (Room (Suc n)) (contents (m_output_buffer c)) c = Inr ?k"
    by (simp add: sys_write_result_def open_)
  have k: "0 < ?k" "?k \<le> readableBytes (m_output_buffer c)"
    unfolding length_contents [OF wf, symmetric] using pending by simp_all
  then obtain b where b: "updatePos ?k (m_output_buffer c) = Some b" "wf_buffer b"
    "contents b = drop ?k (contents (m_output_buffer c))"
    using updatePos_spec [OF wf] by blast
  have dr: "drop ?k (contents (m_output_buffer c)) = drop (Suc n) (contents (m_output_buffer c))"
    by (simp add: min_def)
  have r: "readableBytes b = 0 \<longleftrightarrow> contents b = []" using b(2) by (metis length_0_conv length_contents)
  obtain c' where c': "handleWrite (Room (Suc n)) c = Some c'" "conn_ok c'" "m_state c' = m_state c"
    "stream c' = stream c" using handleWrite_spec [OF ok, of "Room (Suc n)"] by auto
  have "m_output_buffer c' = b \<and> (contents b = [] \<longrightarrow> wr_closed c' = (m_state c = kdisConnecting))"
    using c'(1) writing res k(1) b(1) r open_ up
    by (auto simp: handleWrite_def Let_def shutdownInLoop_def split: if_splits)
  then show ?thesis using c' b(3) dr by auto
qed

text \<open>
  C35: For every sequence of sends, reads, writes, shutdowns and closes no assertion fails, and the bytes
  the kernel took, followed by those that wait in the output buffer, are what the sends gave, in order,
  each whole but for the calls that drop: a send to a connection that is not up, one whose first write
  fails with a real error, and the part of a file that its one call does not take. When no call drops,
  they are exactly all bytes given. When the writing side has been shut down before a close, none wait.
\<close>

theorem connection_keeps_stream:
  assumes "all_enabled ops (TcpConnection sock)"
  shows "\<exists>c. conn_run ops (TcpConnection sock) = Some c \<and>
    wire c @ contents (m_output_buffer c) =
      concat (map2 take (run_kept ops (TcpConnection sock)) (map given ops)) \<and>
    (all_undropped ops (TcpConnection sock) \<longrightarrow>
      wire c @ contents (m_output_buffer c) = concat (map given ops)) \<and>
    (wr_closed c \<and> m_state c = kdisConnecting \<longrightarrow> contents (m_output_buffer c) = [])"
proof -
  have "stream (TcpConnection sock) = []" by (simp add: stream_def TcpConnection_def)
  then obtain c where c: "conn_run ops (TcpConnection sock) = Some c" "conn_ok c"
    "stream c = concat (map2 take (run_kept ops (TcpConnection sock)) (map given ops))"
    using conn_run_spec [OF conn_ok_new assms] by auto
  moreover have "all_undropped ops (TcpConnection sock) \<longrightarrow> stream c = concat (map given ops)"
    using run_kept_undropped [OF conn_ok_new assms] c(3) by simp
  ultimately show ?thesis by (auto simp: stream_def conn_ok_def)
qed

text \<open>
  C36: What waits is written: while a connection is up and bytes wait, its channel asks for
  writability, and after as many writable events as bytes, if each finds some room, all have gone to
  the kernel and a shutdown that waited for them is done.
\<close>

theorem pending_output_is_written:
  assumes "conn_ok c" and "m_state c = kConnected \<or> m_state c = kdisConnecting"
    and "length (contents (m_output_buffer c)) \<le> length ns" and "contents (m_output_buffer c) \<noteq> []"
  shows "isWriting (m_channel c) \<and>
    (\<exists>c'. conn_run (map (\<lambda>n. Writable (Room (Suc n))) ns) c = Some c' \<and>
      wire c' = wire c @ contents (m_output_buffer c) \<and> contents (m_output_buffer c') = [] \<and>
      \<not> isWriting (m_channel c') \<and> wr_closed c' = (m_state c = kdisConnecting))"
proof
  show "isWriting (m_channel c)" using assms(1,2,4) unfolding conn_ok_def by blast
  have empty: "\<exists>c'. conn_run (map (\<lambda>n. Writable (Room (Suc n))) ns) d = Some c' \<and> conn_ok c' \<and>
      m_state c' = m_state d \<and> stream c' = stream d \<and> contents (m_output_buffer c') = [] \<and>
      wr_closed c' = wr_closed d"
    if "conn_ok d" "contents (m_output_buffer d) = []" "m_state d = kConnected \<or> m_state d = kdisConnecting" for d ns
  proof -
    have "\<not> isWriting (m_channel d)" using that unfolding conn_ok_def by blast
    then have "conn_run (map (\<lambda>n. Writable (Room (Suc n))) ns) d = Some d"
      by (induction ns) (simp_all add: handleWrite_def)
    with that show ?thesis by simp
  qed
  have "\<exists>c'. conn_run (map (\<lambda>n. Writable (Room (Suc n))) ns) c = Some c' \<and> conn_ok c' \<and>
      m_state c' = m_state c \<and> stream c' = stream c \<and> contents (m_output_buffer c') = [] \<and>
      wr_closed c' = (m_state c = kdisConnecting)"
    using assms
  proof (induction ns arbitrary: c)
    case (Cons n ns)
    obtain d where d: "handleWrite (Room (Suc n)) c = Some d" "conn_ok d" "m_state d = m_state c"
      "stream d = stream c" "contents (m_output_buffer d) = drop (Suc n) (contents (m_output_buffer c))"
      "contents (m_output_buffer d) = [] \<longrightarrow> wr_closed d = (m_state c = kdisConnecting)"
      using writable_progress [OF Cons.prems(1,2,4)] by blast
    have up: "m_state d = kConnected \<or> m_state d = kdisConnecting" using d(3) Cons.prems(2) by simp
    show ?case
    proof (cases "contents (m_output_buffer d) = []")
      case True
      then show ?thesis using empty [OF d(2) True up, of ns] d by auto
    next
      case False
      have "length (contents (m_output_buffer d)) \<le> length ns" using d(5) Cons.prems(3) by simp
      from Cons.IH [OF d(2) up this False] show ?thesis using d by simp
    qed
  qed simp
  then obtain c' where c': "conn_run (map (\<lambda>n. Writable (Room (Suc n))) ns) c = Some c'" "conn_ok c'"
    "m_state c' = m_state c" "stream c' = stream c" "contents (m_output_buffer c') = []"
    "wr_closed c' = (m_state c = kdisConnecting)" by blast
  then have "\<not> isWriting (m_channel c')" using assms(2) unfolding conn_ok_def by metis
  with c' show "\<exists>c'. conn_run (map (\<lambda>n. Writable (Room (Suc n))) ns) c = Some c' \<and>
      wire c' = wire c @ contents (m_output_buffer c) \<and> contents (m_output_buffer c') = [] \<and>
      \<not> isWriting (m_channel c') \<and> wr_closed c' = (m_state c = kdisConnecting)"
    by (auto simp: stream_def)
qed

text \<open>
  A send whose write fails for another reason than a full socket is dropped whole, and the
  connection stays up: what is sent next follows as if it had never been there.
\<close>

lemma failed_write_leaves_gap:
  "\<exists>c. conn_run [Establish, Send [1, 2] (Room 9), Send [3] (Write_Error False), Send [4] (Room 9)]
      (TcpConnection 5) = Some c \<and> m_state c = kConnected \<and> wire c = [1, 2, 4] \<and>
      contents (m_output_buffer c) = []"
  by (simp add: TcpConnection_def connectEstablished_def send_def sendInLoop_def channel_do_def call_if_def
      sys_write_result_def Let_def readableBytes_def buffer_new_def Channel_def isWriting_def event_defs
      new_events.simps contents_def)

text \<open>A file is sent by one call: what the socket does not take at once is lost.\<close>

lemma file_tail_lost:
  "\<exists>c. conn_run [Establish, SendFile [1, 2, 3] (Room 2), Shutdown] (TcpConnection 5) = Some c \<and>
      wire c = [1, 2] \<and> wr_closed c"
  by (simp add: TcpConnection_def connectEstablished_def sendFile_def sendFileInLoop_def channel_do_def
      call_if_def sys_write_result_def Let_def readableBytes_def buffer_new_def Channel_def isWriting_def
      event_defs new_events.simps shutdown_def shutdownInLoop_def)

theorem connection_keeps_stream_witness:
  "\<exists>c. conn_run [Establish, Send [1, 2, 3] (Room 1), Send [4] (Room 9), Shutdown, Writable (Room 7)]
      (TcpConnection 5) = Some c \<and> wire c @ contents (m_output_buffer c) = [1, 2, 3, 4]"
proof -
  let ?ops = "[Establish, Send [1, 2, 3] (Room 1), Send [4] (Room 9), Shutdown, Writable (Room 7)]"
  let ?c0 = "TcpConnection 5"
  have en: "all_enabled ?ops ?c0"
    by (simp add: TcpConnection_def split: option.splits)
  obtain c1 where c1: "conn_step Establish ?c0 = Some c1" "m_state c1 = kConnected" "idle c1" "\<not> wr_closed c1"
    and ok1: "conn_ok c1"
    using conn_step_spec [OF conn_ok_new, of Establish 5]
    by (auto simp: TcpConnection_def connectEstablished_def Let_def idle_def readableBytes_def buffer_new_def
        Channel_def isWriting_def event_defs new_events.simps)
  obtain c2 where c2: "conn_step (Send [1, 2, 3] (Room 1)) c1 = Some c2" "m_state c2 = kConnected" "conn_ok c2"
    using sendInLoop_spec [OF ok1, of "[1, 2, 3]" "Room 1"] c1(2) by (auto simp: send_def)
  obtain c3 where c3: "conn_step (Send [4] (Room 9)) c2 = Some c3"
    using sendInLoop_spec [OF c2(3), of "[4]" "Room 9"] c2(2) by (auto simp: send_def)
  have "all_undropped ?ops ?c0" using c1 c2(1,2) by (auto simp: c3 split: option.splits)
  moreover have "concat (map given ?ops) = [1, 2, 3, 4]" by simp
  ultimately show ?thesis using connection_keeps_stream [OF en] by metis
qed

theorem pending_output_is_written_witness:
  "\<exists>c c'. conn_run [Establish, Send [1, 2, 3] (Room 1), Shutdown] (TcpConnection 5) = Some c \<and>
     conn_run [Writable (Room 1), Writable (Room 1)] c = Some c' \<and> wire c' = [1, 2, 3] \<and> wr_closed c'"
proof -
  let ?c0 = "TcpConnection 5"
  obtain c1 where c1: "conn_step Establish ?c0 = Some c1" "m_state c1 = kConnected" "idle c1" "\<not> wr_closed c1"
    and ok1: "conn_ok c1" and m1: "wire c1 = []" "m_output_buffer c1 = buffer_new kInitialSize"
    using conn_step_spec [OF conn_ok_new, of Establish 5]
    by (auto simp: TcpConnection_def connectEstablished_def Let_def idle_def readableBytes_def buffer_new_def
        Channel_def isWriting_def event_defs new_events.simps call_if_def channel_do_def)
  obtain b where b: "buf_append [2, 3] (m_output_buffer c1) = Some b" "wf_buffer b" "contents b = [2, 3]"
    using buf_append_spec [of "m_output_buffer c1" "[2, 3]"] ok1 m1(2) by (auto simp: conn_ok_def)
  obtain c2 where c2: "conn_step (Send [1, 2, 3] (Room 1)) c1 = Some c2" "m_state c2 = kConnected" "conn_ok c2"
    using sendInLoop_spec [OF ok1, of "[1, 2, 3]" "Room 1"] c1(2) by (auto simp: send_def)
  have o2: "wire c2 = [1]" "m_output_buffer c2 = b"
    using c2(1) c1(2,3,4) b(1) m1(1)
    by (auto simp: send_def sendInLoop_def idle_def sys_write_result_def Let_def split: if_splits)
  let ?c3 = "shutdown c2"
  have w2: "isWriting (m_channel c2)" using c2(2,3) o2(2) b(3) by (auto simp: conn_ok_def)
  have s3: "m_state ?c3 = kdisConnecting" "m_output_buffer ?c3 = b" "wire ?c3 = [1]"
    using c2(2) o2 w2 by (simp_all add: shutdown_def shutdownInLoop_def)
  have ok3: "conn_ok ?c3" using conn_step_spec [OF c2(3), of Shutdown] by auto
  have r: "conn_run [Establish, Send [1, 2, 3] (Room 1), Shutdown] ?c0 = Some ?c3"
    using c1(1) c2(1) by simp
  from pending_output_is_written [OF ok3, of "[0, 0]"] show ?thesis
    using r s3 b(3) by auto
qed
end
