(* ===== verification/Text.thy ===== *)
theory Text
  imports Prelude
begin

text \<open>
  The library routines on strings that several components use: decimal numbers as
  \<^verbatim>\<open>std::to_string\<close> and \<^verbatim>\<open>operator<<\<close> print them and
  \<^verbatim>\<open>std::stol\<close>, \<^verbatim>\<open>std::stoi\<close> and \<^verbatim>\<open>atoi\<close> read them,
  \<^verbatim>\<open>std::getline\<close>, \<^verbatim>\<open>std::string::find\<close> and
  \<^verbatim>\<open>std::string::substr\<close>. A string is the list of its bytes. The exceptions of
  \<^verbatim>\<open>stol\<close> and \<^verbatim>\<open>stoi\<close> are caught nowhere, so they end the process: \<open>None\<close>.
\<close>

section \<open>Decimal numbers\<close>

fun to_string :: "nat \<Rightarrow> bytes" where
  "to_string n =
     (if n < 10 then [48 + of_nat n] else to_string (n div 10) @ [48 + of_nat (n mod 10)])"

declare to_string.simps [simp del]

text \<open>\<^verbatim>\<open>std::to_string(int)\<close>\<close>

definition to_string_int :: "int \<Rightarrow> bytes" where
  "to_string_int i = (if i < 0 then 45 # to_string (nat (- i)) else to_string (nat i))"

definition is_digit :: "byte \<Rightarrow> bool" where
  "is_digit c \<longleftrightarrow> 48 \<le> c \<and> c \<le> 57"

definition is_space :: "byte \<Rightarrow> bool" where
  "is_space c \<longleftrightarrow> c = 32 \<or> (9 \<le> c \<and> c \<le> 13)"

definition digits_value :: "bytes \<Rightarrow> nat" where
  "digits_value ds = foldl (\<lambda>n c. 10 * n + (unat c - 48)) 0 ds"

text \<open>\<^verbatim>\<open>strtol\<close>: white space, a sign, digits; the rest of the string is not looked at.\<close>

definition parse_sign :: "bytes \<Rightarrow> int \<times> bytes" where
  "parse_sign s =
     (case s of c # cs \<Rightarrow> if c = 45 then (-1, cs) else if c = 43 then (1, cs) else (1, s) | [] \<Rightarrow> (1, s))"

definition strtol :: "bytes \<Rightarrow> int option" where
  "strtol s =
     (let (sign, rest) = parse_sign (dropWhile is_space s); ds = takeWhile is_digit rest
      in if ds = [] then None else Some (sign * int (digits_value ds)))"

definition stol :: "bytes \<Rightarrow> int option" where
  "stol s = do {
     n \<leftarrow> strtol s;
     assert_that (- (2 ^ 63) \<le> n \<and> n < 2 ^ 63);
     Some n
   }"

definition stoi :: "bytes \<Rightarrow> int option" where
  "stoi s = do {
     n \<leftarrow> strtol s;
     assert_that (- (2 ^ 31) \<le> n \<and> n < 2 ^ 31);
     Some n
   }"

text \<open>\<^verbatim>\<open>atoi\<close>: the \<^verbatim>\<open>long\<close> that \<^verbatim>\<open>strtol\<close> gives, cut to 32 bits.\<close>

definition atoi :: "bytes \<Rightarrow> int" where
  "atoi s =
     (case strtol s of None \<Rightarrow> 0
      | Some n \<Rightarrow> sint (word_of_int (max (- (2 ^ 63)) (min (2 ^ 63 - 1) n)) :: 32 word))"

lemma is_digit_char: "n < 10 \<Longrightarrow> is_digit (48 + of_nat n) \<and> unat (48 + of_nat n :: byte) = 48 + n"
proof -
  assume n: "n < 10"
  then have "unat (of_nat n :: byte) = n" by (simp add: unat_of_nat)
  with n have "unat (48 + of_nat n :: byte) = 48 + n"
    by (subst unat_add_lem [THEN iffD1]) simp_all
  with n show ?thesis by (simp add: is_digit_def word_le_nat_alt)
qed

lemma to_string_digits: "\<forall>c \<in> set (to_string n). is_digit c"
proof (induction n rule: to_string.induct)
  case (1 n)
  then show ?case
    using is_digit_char [of n] is_digit_char [of "n mod 10"]
    by (cases "n < 10") (simp_all add: to_string.simps [of n])
qed

lemma to_string_nonempty [simp]: "to_string n \<noteq> []"
  by (cases "n < 10") (simp_all add: to_string.simps [of n])

lemma digits_value_to_string: "digits_value (to_string n) = n"
proof (induction n rule: to_string.induct)
  case (1 n)
  show ?case
  proof (cases "n < 10")
    case True
    then show ?thesis
      using is_digit_char [of n] by (simp add: to_string.simps [of n] digits_value_def)
  next
    case False
    with 1 have "digits_value (to_string (n div 10)) = n div 10" by simp
    with False show ?thesis
      using is_digit_char [of "n mod 10"]
      by (simp add: to_string.simps [of n] digits_value_def)
  qed
qed

lemma to_string_inj: "to_string m = to_string n \<longleftrightarrow> m = n"
  by (metis digits_value_to_string)

text \<open>Reading back what was printed, whatever that is not a digit follows.\<close>

lemma strtol_to_string:
  assumes "rest = [] \<or> \<not> is_digit (hd rest)"
  shows "strtol (to_string n @ rest) = Some (int n)"
proof -
  obtain c cs where c: "to_string n = c # cs" by (cases "to_string n") simp_all
  then have "is_digit c" using to_string_digits [of n] by simp
  then have "\<not> is_space c" "c \<noteq> 45" "c \<noteq> 43"
    by (auto simp: is_digit_def is_space_def word_le_nat_alt)
  then have sign: "parse_sign (dropWhile is_space (to_string n @ rest)) = (1, to_string n @ rest)"
    by (simp add: c parse_sign_def)
  have "takeWhile is_digit (to_string n @ rest) = to_string n"
    using to_string_digits [of n] assms by (cases rest) (simp_all add: takeWhile_append2)
  with sign show ?thesis by (simp add: strtol_def digits_value_to_string)
qed

lemma stol_to_string:
  "rest = [] \<or> \<not> is_digit (hd rest) \<Longrightarrow>
     stol (to_string n @ rest) = (if n < 2 ^ 63 then Some (int n) else None)"
  by (simp add: stol_def strtol_to_string assert_that_def)

lemma stoi_to_string:
  "rest = [] \<or> \<not> is_digit (hd rest) \<Longrightarrow>
     stoi (to_string n @ rest) = (if n < 2 ^ 31 then Some (int n) else None)"
  by (simp add: stoi_def strtol_to_string assert_that_def)

lemma stoi_to_string_int:
  assumes "rest = [] \<or> \<not> is_digit (hd rest)" and "- (2 ^ 31) \<le> i" and "i < 2 ^ 31"
  shows "stoi (to_string_int i @ rest) = Some i"
proof (cases "i < 0")
  case False
  with assms stoi_to_string [of rest "nat i"] show ?thesis by (simp add: to_string_int_def nat_less_iff)
next
  case True
  have "takeWhile is_digit (to_string (nat (- i)) @ rest) = to_string (nat (- i))"
    using to_string_digits [of "nat (- i)"] assms(1) by (cases rest) (simp_all add: takeWhile_append2)
  then have "strtol (to_string_int i @ rest) = Some i"
    using True by (simp add: to_string_int_def strtol_def parse_sign_def is_space_def digits_value_to_string)
  with assms show ?thesis by (simp add: stoi_def)
qed

lemma atoi_to_string_int:
  assumes "rest = [] \<or> \<not> is_digit (hd rest)" and "- (2 ^ 31) \<le> i" and "i < 2 ^ 31"
  shows "atoi (to_string_int i @ rest) = i"
proof -
  have "strtol (to_string_int i @ rest) = Some i"
    using stoi_to_string_int [OF assms] by (auto simp: stoi_def assert_that_def bind_eq_Some_conv split: if_splits)
  then show ?thesis using assms(2,3) by (simp add: atoi_def signed_of_int signed_take_bit_int_eq_self)
qed

section \<open>Splitting\<close>

text \<open>
  All the pieces \<^verbatim>\<open>getline\<close> with the given delimiter yields: a last piece that is empty
  is not one.
\<close>

fun getlines :: "byte \<Rightarrow> bytes \<Rightarrow> bytes \<Rightarrow> bytes list" where
  "getlines d acc [] = (if acc = [] then [] else [acc])"
| "getlines d acc (c # cs) = (if c = d then acc # getlines d [] cs else getlines d (acc @ [c]) cs)"

definition split_at :: "byte \<Rightarrow> bytes \<Rightarrow> bytes list" where
  "split_at d s = getlines d [] s"

lemma getlines_line:
  "d \<notin> set l \<Longrightarrow> getlines d acc (l @ d # rest) = (acc @ l) # getlines d [] rest"
  by (induction l arbitrary: acc) auto

lemma getlines_last: "d \<notin> set l \<Longrightarrow> getlines d acc l = (if acc @ l = [] then [] else [acc @ l])"
  by (induction l arbitrary: acc) auto

lemma split_at_line: "d \<notin> set l \<Longrightarrow> split_at d (l @ d # rest) = l # split_at d rest"
  by (simp add: split_at_def getlines_line)

lemma split_at_last: "d \<notin> set l \<Longrightarrow> split_at d l = (if l = [] then [] else [l])"
  by (simp add: split_at_def getlines_last)

lemma split_at_lines:
  "\<forall>l \<in> set ls. d \<notin> set l \<Longrightarrow> split_at d (concat (map (\<lambda>l. l @ [d]) ls)) = ls"
  by (induction ls) (simp_all add: split_at_line split_at_last)

text \<open>\<^verbatim>\<open>s.find(c)\<close>; \<open>None\<close> is \<^verbatim>\<open>npos\<close>.\<close>

fun find_byte :: "byte \<Rightarrow> bytes \<Rightarrow> nat option" where
  "find_byte c [] = None"
| "find_byte c (x # xs) = (if x = c then Some 0 else map_option Suc (find_byte c xs))"

lemma find_byte_append: "c \<notin> set xs \<Longrightarrow> find_byte c (xs @ c # ys) = Some (length xs)"
  by (induction xs) auto

lemma find_byte_None: "find_byte c xs = None \<longleftrightarrow> c \<notin> set xs"
  by (induction xs) auto

lemma find_byte_Some:
  "find_byte c xs = Some i \<Longrightarrow> i < length xs \<and> xs ! i = c \<and> c \<notin> set (take i xs)"
  by (induction xs arbitrary: i) (auto split: if_splits)

text \<open>\<^verbatim>\<open>s.substr(pos, n)\<close> throws when \<^verbatim>\<open>pos\<close> is behind the end.\<close>

definition substr :: "nat \<Rightarrow> nat \<Rightarrow> bytes \<Rightarrow> bytes option" where
  "substr pos n s = (if pos \<le> length s then Some (take n (drop pos s)) else None)"

end
