(* ===== verification/TcpServer.thy ===== *)
theory TcpServer
  imports TcpConnection Text
begin

text \<open>
  \<^verbatim>\<open>net/tcpserver.h/.cc\<close> and \<^verbatim>\<open>net/eventloopthreadpool.h/.cc\<close>: a server
  accepts connections in its base loop, gives each to the next loop of its pool, and keeps them in a map by
  name until they close. Loops are numbers, the base loop is 0; each runs in its own thread the tasks of its
  queue, in order (\<open>EventLoop\<close> shows that it does), and the handlers of its connections. The threads
  share only the queues, which are locked, so a task or a handler is one step; \<open>thr\<close> is the loop whose
  thread runs it, which \<^verbatim>\<open>isInLoopThread\<close> asks for. The connection objects are shared by pointer: \<open>conns\<close> holds
  their names, their loops and their states, and a connection is its position there. \<open>closes\<close> is
  what the close callback was called with.
\<close>

section \<open>The pool of loops\<close>

record loop_pool =
  m_isStart :: bool
  m_numThreads :: int
  m_next :: nat
  m_loops :: "nat list"

definition EventLoopThreadPool :: loop_pool where
  "EventLoopThreadPool = \<lparr>m_isStart = False, m_numThreads = 0, m_next = 0, m_loops = []\<rparr>"

text \<open>The server gives no function that is to run in the new threads; \<^verbatim>\<open>startLoop\<close> of
  the \<open>i\<close>-th thread returns the loop \<open>Suc i\<close>.\<close>

definition pool_start :: "nat \<Rightarrow> loop_pool \<Rightarrow> loop_pool option" where
  "pool_start thr p = do {
     assert_that (\<not> m_isStart p);
     assert_that (thr = 0);
     Some (p\<lparr>m_isStart := True, m_loops := m_loops p @ map Suc [0..<nat (m_numThreads p)]\<rparr>)
   }"

definition getNextLoop :: "nat \<Rightarrow> loop_pool \<Rightarrow> (nat \<times> loop_pool) option" where
  "getNextLoop thr p = do {
     assert_that (thr = 0);
     assert_that (m_isStart p);
     if m_loops p \<noteq> [] then do {
       assert_that (m_next p < length (m_loops p));
       let loop = m_loops p ! m_next p;
       let p = p\<lparr>m_next := m_next p + 1\<rparr>;
       Some (loop, if length (m_loops p) \<le> m_next p then p\<lparr>m_next := 0\<rparr> else p)
     } else Some (0, p)
   }"

section \<open>The server\<close>

text \<open>What is bound and given to \<^verbatim>\<open>runInLoop\<close> and \<^verbatim>\<open>queueInLoop\<close>.\<close>

datatype task = Listen | Established nat | Remove nat | Destroyed nat

record server =
  m_name :: bytes
  m_close_cb :: bool
  isStart :: bool
  m_isListening :: bool
  m_connections :: "bytes \<rightharpoonup> nat"
  m_threadpool :: loop_pool
  count :: nat
  queues :: "nat \<Rightarrow> task list"
  conns :: "(bytes \<times> nat \<times> connection) list"
  closes :: "nat list"

text \<open>\<open>count\<close> is the static counter that all servers of the process share; \<open>n\<close> is its value.\<close>

definition TcpServer :: "bytes \<Rightarrow> bool \<Rightarrow> nat \<Rightarrow> server" where
  "TcpServer name close_cb n =
     \<lparr>m_name = name, m_close_cb = close_cb, isStart = False, m_isListening = False,
      m_connections = Map.empty, m_threadpool = EventLoopThreadPool, count = n, queues = (\<lambda>_. []), conns = [],
      closes = []\<rparr>"

abbreviation name_of :: "server \<Rightarrow> nat \<Rightarrow> bytes" where "name_of s i \<equiv> fst (conns s ! i)"
abbreviation loop_of :: "server \<Rightarrow> nat \<Rightarrow> nat" where "loop_of s i \<equiv> fst (snd (conns s ! i))"
abbreviation conn_of :: "server \<Rightarrow> nat \<Rightarrow> connection" where "conn_of s i \<equiv> snd (snd (conns s ! i))"

definition set_conn :: "nat \<Rightarrow> connection \<Rightarrow> server \<Rightarrow> server" where
  "set_conn i c s = s\<lparr>conns := (conns s)[i := (name_of s i, loop_of s i, c)]\<rparr>"

definition setThreadNum :: "int \<Rightarrow> server \<Rightarrow> server option" where
  "setThreadNum n s = do {
     assert_that (0 \<le> n);
     Some (s\<lparr>m_threadpool := (m_threadpool s)\<lparr>m_numThreads := n\<rparr>\<rparr>)
   }"

definition queueInLoop :: "nat \<Rightarrow> task \<Rightarrow> server \<Rightarrow> server" where
  "queueInLoop k t s = s\<lparr>queues := (queues s)(k := queues s k @ [t])\<rparr>"

definition listen :: "nat \<Rightarrow> server \<Rightarrow> server option" where
  "listen thr s = do {
     assert_that (thr = 0);
     Some (s\<lparr>m_isListening := True\<rparr>)
   }"

text \<open>\<^verbatim>\<open>connectEstablished\<close> and \<^verbatim>\<open>connectDestroyed\<close> of a connection, which
  must run in its loop.\<close>

definition call_conn :: "nat \<Rightarrow> (connection \<Rightarrow> connection option) \<Rightarrow> nat \<Rightarrow> server \<Rightarrow> server option" where
  "call_conn thr f i s = do {
     assert_that (thr = loop_of s i);
     c \<leftarrow> f (conn_of s i);
     Some (set_conn i c s)
   }"

definition removeConnectionInLoop :: "nat \<Rightarrow> nat \<Rightarrow> server \<Rightarrow> server option" where
  "removeConnectionInLoop thr i s = do {
     assert_that (thr = 0);
     let n = (if m_connections s (name_of s i) = None then 0 else 1 :: nat);
     let s = s\<lparr>m_connections := (m_connections s)(name_of s i := None)\<rparr>;
     assert_that (n = 1);
     Some (queueInLoop (loop_of s i) (Destroyed i) s)
   }"

fun run_task :: "nat \<Rightarrow> task \<Rightarrow> server \<Rightarrow> server option" where
  "run_task thr Listen s = listen thr s"
| "run_task thr (Established i) s = call_conn thr connectEstablished i s"
| "run_task thr (Remove i) s = removeConnectionInLoop thr i s"
| "run_task thr (Destroyed i) s = call_conn thr connectDestroyed i s"

definition runInLoop :: "nat \<Rightarrow> nat \<Rightarrow> task \<Rightarrow> server \<Rightarrow> server option" where
  "runInLoop thr k t s = (if thr = k then run_task thr t s else Some (queueInLoop k t s))"

definition start :: "nat \<Rightarrow> server \<Rightarrow> server option" where
  "start thr s = do {
     let s = s\<lparr>isStart := True\<rparr>;
     p \<leftarrow> pool_start thr (m_threadpool s);
     let s = s\<lparr>m_threadpool := p\<rparr>;
     assert_that (\<not> m_isListening s);
     runInLoop thr 0 Listen s
   }"

definition removeConnection :: "nat \<Rightarrow> nat \<Rightarrow> server \<Rightarrow> server option" where
  "removeConnection thr i s = do {
     let s = (if m_close_cb s then s\<lparr>closes := closes s @ [i]\<rparr> else s);
     runInLoop thr 0 (Remove i) s
   }"

definition newConnection :: "nat \<Rightarrow> int \<Rightarrow> server \<Rightarrow> server option" where
  "newConnection thr sock s = do {
     let name = m_name s @ [35] @ to_string (count s);
     let s = s\<lparr>count := count s + 1\<rparr>;
     (ioloop, p) \<leftarrow> getNextLoop thr (m_threadpool s);
     let s = s\<lparr>m_threadpool := p\<rparr>;
     let conne = length (conns s);
     let s = s\<lparr>conns := conns s @ [(name, ioloop, TcpConnection sock)]\<rparr>;
     let s = s\<lparr>m_connections := (m_connections s)(name \<mapsto> conne)\<rparr>;
     runInLoop thr ioloop (Established conne) s
   }"

text \<open>\<^verbatim>\<open>Socket::accept\<close>: no socket, one that is not valid, which is closed, or a good one.\<close>

datatype accept_result = No_socket | Invalid_socket | Good_socket int

definition Acceptor_handleRead :: "nat \<Rightarrow> accept_result \<Rightarrow> server \<Rightarrow> server option" where
  "Acceptor_handleRead thr r s = do {
     assert_that (thr = 0);
     (case r of
        No_socket \<Rightarrow> Some s
      | Invalid_socket \<Rightarrow> Some s
      | Good_socket sock \<Rightarrow> newConnection thr sock s)
   }"

section \<open>A server in use\<close>

text \<open>
  What happens to a server, in any order: its calls, another server that takes a number of the counter, a
  connection that waits to be accepted, a loop that runs the first task of its queue, and the events and calls of
  a connection, in the thread of its loop. A connection that closes calls \<open>removeConnection\<close>.
\<close>

datatype server_event = Set_threads int | Start | Other_server | Acceptable accept_result | Run nat
  | On_connection nat conn_op

definition is_up :: "connection \<Rightarrow> bool" where
  "is_up c \<longleftrightarrow> m_state c = kConnected \<or> m_state c = kdisConnecting"

definition is_closed :: "connection \<Rightarrow> bool" where
  "is_closed c \<longleftrightarrow> m_state c = kdisConnected"

fun server_step :: "server_event \<Rightarrow> server \<Rightarrow> server option" where
  "server_step (Set_threads n) s = setThreadNum n s"
| "server_step Start s = start 0 s"
| "server_step Other_server s = Some (s\<lparr>count := count s + 1\<rparr>)"
| "server_step (Acceptable r) s = Acceptor_handleRead 0 r s"
| "server_step (Run k) s =
     (case queues s k of
        [] \<Rightarrow> Some s
      | t # ts \<Rightarrow> run_task k t (s\<lparr>queues := (queues s)(k := ts)\<rparr>))"
| "server_step (On_connection i op) s = do {
     c \<leftarrow> conn_step op (conn_of s i);
     let s' = set_conn i c s;
     if is_up (conn_of s i) \<and> is_closed c then removeConnection (loop_of s i) i s' else Some s'
   }"

fun server_legal :: "server_event \<Rightarrow> server \<Rightarrow> bool" where
  "server_legal (Set_threads n) s \<longleftrightarrow> 0 \<le> n"
| "server_legal Start s \<longleftrightarrow> \<not> isStart s"
| "server_legal (Acceptable r) s \<longleftrightarrow> m_isListening s"
| "server_legal (On_connection i op) s \<longleftrightarrow>
     i < length (conns s) \<and> op \<noteq> Establish \<and> op \<noteq> Destroy \<and> enabled op (conn_of s i)"
| "server_legal _ s \<longleftrightarrow> True"

inductive server_reachable :: "server \<Rightarrow> bool" where
  new: "server_reachable (TcpServer name close_cb n)"
| step: "server_reachable s \<Longrightarrow> server_legal e s \<Longrightarrow> server_step e s = Some s' \<Longrightarrow> server_reachable s'"

section \<open>Connections one by one\<close>

text \<open>What a connection does that is neither established nor destroyed by the operation.\<close>

lemma handleWrite_frame: "handleWrite w c = Some c' \<Longrightarrow> m_state c' = m_state c \<and> removed c' = removed c"
  by (auto simp: handleWrite_def shutdownInLoop_def Let_def call_if_def channel_do_def split: sum.splits if_splits
      option.splits bind_splits)

lemma sendInLoop_frame: "sendInLoop data w c = Some c' \<Longrightarrow> m_state c' = m_state c \<and> removed c' = removed c"
  by (auto simp: sendInLoop_def Let_def call_if_def channel_do_def split: sum.splits if_splits option.splits bind_splits)

lemma handleClose_frame: "handleClose c = Some c' \<Longrightarrow> is_closed c' \<and> is_up c \<and> removed c' = removed c"
  by (auto simp: handleClose_def assert_that_def is_closed_def is_up_def Let_def call_if_def channel_do_def split: if_splits)

lemma handleRead_frame:
  assumes "handleRead r c = Some c'"
  shows "(m_state c' = m_state c \<or> is_closed c' \<and> is_up c) \<and> removed c' = removed c"
proof -
  obtain n e b where b: "readFd r (m_input_buffer c) = Some (n, e, b)"
    using assms by (auto simp: handleRead_def split: bind_splits)
  show ?thesis
  proof (cases "n = 0")
    case True
    then have "handleClose (c\<lparr>m_input_buffer := b\<rparr>) = Some c'" using assms b by (simp add: handleRead_def Let_def)
    from handleClose_frame [OF this] show ?thesis by (simp add: is_up_def)
  next
    case False
    then show ?thesis using assms b by (auto simp: handleRead_def call_if_def Let_def split: if_splits)
  qed
qed

lemma other_op:
  assumes "conn_ok c" "enabled op c" "op \<noteq> Establish" "op \<noteq> Destroy"
  shows "\<exists>c'. conn_step op c = Some c' \<and> conn_ok c' \<and> removed c' = removed c \<and> (is_closed c \<longrightarrow> is_closed c') \<and>
    (m_state c' = kConnceting \<longleftrightarrow> m_state c = kConnceting) \<and> (is_closed c' \<longrightarrow> is_closed c \<or> is_up c)"
proof -
  obtain c' where c': "conn_step op c = Some c'" "conn_ok c'" using conn_step_spec [OF assms(1,2)] by blast
  have "removed c' = removed c \<and> (m_state c' = m_state c \<or> is_up c \<and> m_state c' \<noteq> kConnceting)"
  proof (cases op)
    case (Send data w)
    then show ?thesis using c'(1) sendInLoop_frame [of data w c c'] by (auto simp: send_def split: if_splits)
  next
    case (SendQueued data w)
    then show ?thesis using c'(1) sendInLoop_frame [of data w c c'] by auto
  next
    case (SendFile data w)
    then show ?thesis using c'(1)
      by (auto simp: sendFile_def sendFileInLoop_def split: if_splits sum.splits)
  next
    case Shutdown
    then show ?thesis using c'(1) by (auto simp: shutdown_def shutdownInLoop_def is_up_def split: if_splits)
  next
    case (Readable r)
    then show ?thesis using c'(1) handleRead_frame [of r c c'] by (auto simp: is_closed_def)
  next
    case (Writable w)
    then show ?thesis using c'(1) handleWrite_frame [of w c c'] by auto
  next
    case Hangup
    then show ?thesis using c'(1) handleClose_frame [of c c'] by (auto simp: is_closed_def)
  next
    case (Consume n)
    then show ?thesis using c'(1) by (auto split: bind_splits)
  qed (use assms in simp_all)
  with c' show ?thesis by (cases "m_state c") (auto simp: is_closed_def is_up_def)
qed

lemma establish_op:
  assumes "conn_ok c" "m_state c = kConnceting"
  shows "\<exists>c'. connectEstablished c = Some c' \<and> conn_ok c' \<and> removed c' = removed c \<and> m_state c' = kConnected"
  using conn_step_spec [OF assms(1), of Establish] assms(2)
  by (auto simp: connectEstablished_def assert_that_def Let_def call_if_def channel_do_def split: if_splits)

lemma destroy_op:
  assumes "conn_ok c" "is_closed c"
  shows "\<exists>c'. connectDestroyed c = Some c' \<and> conn_ok c' \<and> removed c' \<and> is_closed c'"
  using conn_step_spec [OF assms(1), of Destroy] assms(2)
  by (auto simp: connectDestroyed_def is_closed_def assert_that_def Let_def split: if_splits)

section \<open>The invariant\<close>

text \<open>
  Of every connection: it waits to be established in its loop, or is up, or waits to be taken out of the map, in
  the base loop, or waits to be destroyed, in its own, or has been; and it is in the map up to the third.
\<close>

definition in_map :: "server \<Rightarrow> nat \<Rightarrow> bool" where
  "in_map s i \<longleftrightarrow> m_connections s (name_of s i) = Some i"

definition stage_ok :: "server \<Rightarrow> nat \<Rightarrow> bool" where
  "stage_ok s i \<longleftrightarrow>
     conn_ok (conn_of s i) \<and> (\<not> is_closed (conn_of s i) \<longrightarrow> in_map s i) \<and>
     (removed (conn_of s i) \<longrightarrow> is_closed (conn_of s i) \<and> \<not> in_map s i) \<and>
     (\<forall>k. count_list (queues s k) (Established i) = of_bool (k = loop_of s i \<and> m_state (conn_of s i) = kConnceting)) \<and>
     (\<forall>k. count_list (queues s k) (Remove i) = of_bool (k = 0 \<and> is_closed (conn_of s i) \<and> in_map s i)) \<and>
     (\<forall>k. count_list (queues s k) (Destroyed i) =
        of_bool (k = loop_of s i \<and> is_closed (conn_of s i) \<and> \<not> in_map s i \<and> \<not> removed (conn_of s i)))"

definition numbered :: "server \<Rightarrow> bool" where
  "numbered s \<longleftrightarrow> distinct (map fst (conns s)) \<and>
     (\<forall>i < length (conns s). \<exists>k < count s. name_of s i = m_name s @ 35 # to_string k)"

definition pool_ok :: "server \<Rightarrow> bool" where
  "pool_ok s \<longleftrightarrow> (let p = m_threadpool s; n = length (m_loops p) in
     (m_isStart p \<longleftrightarrow> isStart s) \<and> (m_isListening s \<longleftrightarrow> isStart s) \<and> 0 \<le> m_numThreads p \<and>
     m_loops p = map Suc [0..<n] \<and> (\<not> isStart s \<longrightarrow> n = 0 \<and> conns s = []) \<and>
     m_next p = (if n = 0 then 0 else length (conns s) mod n) \<and>
     (\<forall>i < length (conns s). loop_of s i = (if n = 0 then 0 else Suc (i mod n))))"

definition map_ok :: "server \<Rightarrow> bool" where
  "map_ok s \<longleftrightarrow> (\<forall>name i. m_connections s name = Some i \<longrightarrow> i < length (conns s) \<and> name_of s i = name)"

fun task_conn :: "task \<Rightarrow> nat option" where
  "task_conn Listen = None"
| "task_conn (Established i) = Some i"
| "task_conn (Remove i) = Some i"
| "task_conn (Destroyed i) = Some i"

definition tasks_ok :: "server \<Rightarrow> bool" where
  "tasks_ok s \<longleftrightarrow> (\<forall>k. \<forall>t \<in> set (queues s k). \<exists>i < length (conns s). task_conn t = Some i)"

definition closes_ok :: "server \<Rightarrow> bool" where
  "closes_ok s \<longleftrightarrow> distinct (closes s) \<and>
     set (closes s) = {i. m_close_cb s \<and> i < length (conns s) \<and> is_closed (conn_of s i)}"

definition server_inv :: "server \<Rightarrow> bool" where
  "server_inv s \<longleftrightarrow> (\<forall>i < length (conns s). stage_ok s i) \<and> numbered s \<and> pool_ok s \<and> map_ok s \<and> tasks_ok s \<and> closes_ok s"

lemma server_inv_new: "server_inv (TcpServer name close_cb n)"
  by (simp add: server_inv_def TcpServer_def numbered_def pool_ok_def map_ok_def tasks_ok_def closes_ok_def
      EventLoopThreadPool_def)

text \<open>What concerns one connection leaves the others where they are.\<close>

definition only_at :: "nat \<Rightarrow> server \<Rightarrow> server \<Rightarrow> bool" where
  "only_at i s s' \<longleftrightarrow> length (conns s') = length (conns s) \<and>
     (\<forall>j. name_of s' j = name_of s j \<and> loop_of s' j = loop_of s j \<and> (j \<noteq> i \<longrightarrow> conn_of s' j = conn_of s j)) \<and>
     (\<forall>name. name \<noteq> name_of s i \<longrightarrow> m_connections s' name = m_connections s name) \<and>
     (m_connections s' (name_of s i) = m_connections s (name_of s i) \<or> m_connections s' (name_of s i) = None) \<and>
     (\<forall>k t. task_conn t \<noteq> Some i \<longrightarrow> count_list (queues s' k) t = count_list (queues s k) t) \<and>
     m_name s' = m_name s \<and> count s' = count s \<and> m_threadpool s' = m_threadpool s \<and>
     m_isListening s' = m_isListening s \<and> isStart s' = isStart s \<and> m_close_cb s' = m_close_cb s"

lemma only_at_stage:
  assumes "only_at i s s'" "stage_ok s j" "j \<noteq> i" "name_of s j \<noteq> name_of s i"
  shows "stage_ok s' j"
  using assms by (simp add: stage_ok_def only_at_def in_map_def)

lemma nth_map_fst: "i < length xs \<Longrightarrow> map fst xs ! i = fst (xs ! i)" by simp

lemma numbered_names: "numbered s \<Longrightarrow> i < length (conns s) \<Longrightarrow> j < length (conns s) \<Longrightarrow> j \<noteq> i \<Longrightarrow> name_of s j \<noteq> name_of s i"
  unfolding numbered_def by (metis distinct_conv_nth length_map nth_map_fst)

lemma only_at_tasks:
  assumes "only_at i s s'" "tasks_ok s" "i < length (conns s)"
  shows "tasks_ok s'"
  unfolding tasks_ok_def
proof (intro allI ballI)
  fix k t
  assume t: "t \<in> set (queues s' k)"
  show "\<exists>j < length (conns s'). task_conn t = Some j"
  proof (cases "task_conn t = Some i")
    case True
    then show ?thesis using assms by (auto simp: only_at_def)
  next
    case False
    then have "count_list (queues s k) t = count_list (queues s' k) t" using assms(1) by (simp add: only_at_def)
    then have "t \<in> set (queues s k)" using t by (metis count_list_0_iff)
    then show ?thesis using assms by (auto simp: tasks_ok_def only_at_def)
  qed
qed

lemma only_at_numbered:
  assumes "only_at i s s'" "numbered s"
  shows "numbered s'"
proof -
  have "map fst (conns s') = map fst (conns s)"
    using assms(1) by (intro nth_equalityI) (auto simp: only_at_def)
  then show ?thesis using assms by (simp add: numbered_def only_at_def)
qed

lemma only_at_map:
  assumes "only_at i s s'" "map_ok s"
  shows "map_ok s'"
proof -
  have "m_connections s' name = Some j \<Longrightarrow> m_connections s name = Some j" for name j
    using assms(1) by (cases "name = name_of s i") (auto simp: only_at_def)
  then show ?thesis using assms by (simp add: map_ok_def only_at_def) blast
qed

lemma only_at_pool: "only_at i s s' \<Longrightarrow> pool_ok s \<Longrightarrow> pool_ok s'"
  by (auto simp: pool_ok_def only_at_def Let_def)

text \<open>So the invariant is left to show for the connection alone.\<close>

lemma only_at_inv:
  assumes inv: "server_inv s" and only: "only_at i s s'" and i: "i < length (conns s)"
    and stage: "stage_ok s' i" and closes: "closes_ok s'"
  shows "server_inv s'"
proof -
  have "stage_ok s' j" if "j < length (conns s')" for j
  proof (cases "j = i")
    case False
    have "j < length (conns s)" using that only by (simp add: only_at_def)
    then show ?thesis
      using only_at_stage [OF only _ False] numbered_names [of s i j] inv i False by (simp add: server_inv_def)
  qed (simp add: stage)
  then show ?thesis
    using inv only_at_tasks [OF only _ i] only_at_numbered [OF only] only_at_map [OF only] only_at_pool [OF only] closes
    by (simp add: server_inv_def)
qed

lemma set_conn_simps [simp]:
  "length (conns (set_conn i c s)) = length (conns s)"
  "m_name (set_conn i c s) = m_name s" "count (set_conn i c s) = count s" "queues (set_conn i c s) = queues s"
  "m_threadpool (set_conn i c s) = m_threadpool s" "m_isListening (set_conn i c s) = m_isListening s"
  "isStart (set_conn i c s) = isStart s" "m_close_cb (set_conn i c s) = m_close_cb s"
  "closes (set_conn i c s) = closes s" "m_connections (set_conn i c s) = m_connections s"
  by (simp_all add: set_conn_def)

lemma conns_set_conn [simp]:
  "i < length (conns s) \<Longrightarrow> conns (set_conn i c s) ! j = (if j = i then (name_of s i, loop_of s i, c) else conns s ! j)"
  by (simp add: set_conn_def)

text \<open>A task is in a queue only at its stage.\<close>

lemma queued_at_stage:
  assumes "stage_ok s i" "queues s k = t # ts" "task_conn t = Some i"
  shows "case t of Listen \<Rightarrow> False
    | Established _ \<Rightarrow> k = loop_of s i \<and> m_state (conn_of s i) = kConnceting
    | Remove _ \<Rightarrow> k = 0 \<and> is_closed (conn_of s i) \<and> in_map s i
    | Destroyed _ \<Rightarrow> k = loop_of s i \<and> is_closed (conn_of s i) \<and> \<not> in_map s i \<and> \<not> removed (conn_of s i)"
proof -
  have "0 < count_list (queues s k) t" using assms(2) by simp
  then show ?thesis using assms(1,3) by (cases t) (auto simp: stage_ok_def simp del: gr_implies_not0 split: if_splits)
qed

lemma stage_counts:
  assumes "stage_ok s i"
  shows "count_list (queues s k) (Established i) = of_bool (k = loop_of s i \<and> m_state (conn_of s i) = kConnceting)"
    "count_list (queues s k) (Remove i) = of_bool (k = 0 \<and> is_closed (conn_of s i) \<and> in_map s i)"
    "count_list (queues s k) (Destroyed i) =
        of_bool (k = loop_of s i \<and> is_closed (conn_of s i) \<and> \<not> in_map s i \<and> \<not> removed (conn_of s i))"
  using assms by (simp_all add: stage_ok_def)

lemma run_established:
  assumes inv: "server_inv s" and q: "queues s k = Established i # ts" and i: "i < length (conns s)"
  shows "\<exists>c. server_step (Run k) s = Some (set_conn i c (s\<lparr>queues := (queues s)(k := ts)\<rparr>)) \<and>
    server_inv (set_conn i c (s\<lparr>queues := (queues s)(k := ts)\<rparr>)) \<and> m_state (conn_of s i) = kConnceting \<and> m_state c = kConnected"
proof -
  let ?s = "s\<lparr>queues := (queues s)(k := ts)\<rparr>"
  have st: "stage_ok s i" using inv i by (simp add: server_inv_def)
  have at: "k = loop_of s i" "m_state (conn_of s i) = kConnceting" using queued_at_stage [OF st q] by simp_all
  have "conn_ok (conn_of s i)" using st by (simp add: stage_ok_def)
  then obtain c where c: "connectEstablished (conn_of s i) = Some c" "conn_ok c" "removed c = removed (conn_of s i)"
      "m_state c = kConnected"
    using establish_op at(2) by blast
  have step: "server_step (Run k) s = Some (set_conn i c ?s)" using q c(1) at(1) by (simp add: call_conn_def)
  have ts: "count_list ts (Established i) = 0" "count_list ts (Remove i) = 0" "count_list ts (Destroyed i) = 0"
    using stage_counts [OF st, of k] q at by (simp_all add: is_closed_def)
  have only: "only_at i s (set_conn i c ?s)" using i q by (auto simp: only_at_def)
  have in_map: "in_map (set_conn i c ?s) i \<longleftrightarrow> in_map s i" using i by (simp add: in_map_def)
  have "stage_ok (set_conn i c ?s) i"
    using st c at i ts in_map unfolding stage_ok_def by (auto simp: is_closed_def)
  moreover have "closes_ok (set_conn i c ?s)"
    using inv i c(4) at(2) by (auto simp: server_inv_def closes_ok_def is_closed_def split: if_splits)
  ultimately have "server_inv (set_conn i c ?s)" using only_at_inv [OF inv only i] by blast
  then show ?thesis using step c(4) at(2) by blast
qed

lemma run_destroyed:
  assumes inv: "server_inv s" and q: "queues s k = Destroyed i # ts" and i: "i < length (conns s)"
  shows "\<exists>c. server_step (Run k) s = Some (set_conn i c (s\<lparr>queues := (queues s)(k := ts)\<rparr>)) \<and>
    server_inv (set_conn i c (s\<lparr>queues := (queues s)(k := ts)\<rparr>)) \<and> \<not> removed (conn_of s i) \<and> removed c"
proof -
  let ?s = "s\<lparr>queues := (queues s)(k := ts)\<rparr>"
  have st: "stage_ok s i" using inv i by (simp add: server_inv_def)
  have at: "k = loop_of s i" "is_closed (conn_of s i)" "\<not> in_map s i" "\<not> removed (conn_of s i)"
    using queued_at_stage [OF st q] by simp_all
  have "conn_ok (conn_of s i)" using st by (simp add: stage_ok_def)
  then obtain c where c: "connectDestroyed (conn_of s i) = Some c" "conn_ok c" "removed c" "is_closed c"
    using destroy_op at(2) by blast
  have step: "server_step (Run k) s = Some (set_conn i c ?s)" using q c(1) at(1) by (simp add: call_conn_def)
  have ts: "count_list ts (Established i) = 0" "count_list ts (Remove i) = 0" "count_list ts (Destroyed i) = 0"
    using stage_counts [OF st, of k] q at by (simp_all add: is_closed_def)
  have only: "only_at i s (set_conn i c ?s)" using i q by (auto simp: only_at_def)
  have in_map: "in_map (set_conn i c ?s) i \<longleftrightarrow> in_map s i" using i by (simp add: in_map_def)
  have "stage_ok (set_conn i c ?s) i"
    using st c at i ts in_map unfolding stage_ok_def by (auto simp: is_closed_def)
  moreover have "closes_ok (set_conn i c ?s)"
    using inv i c(4) at(2) by (auto simp: server_inv_def closes_ok_def split: if_splits)
  ultimately have "server_inv (set_conn i c ?s)" using only_at_inv [OF inv only i] by blast
  then show ?thesis using step c(3) at(4) by blast
qed

text \<open>Taking a connection that is closed out of the map.\<close>

lemma remove_in_loop:
  assumes inv: "\<forall>j < length (conns s). j \<noteq> i \<longrightarrow> stage_ok s j" "numbered s" "pool_ok s" "map_ok s" "tasks_ok s" "closes_ok s"
    and i: "i < length (conns s)" and c: "conn_ok (conn_of s i)" "is_closed (conn_of s i)" "in_map s i" "\<not> removed (conn_of s i)"
    and none: "\<forall>k t. task_conn t = Some i \<longrightarrow> count_list (queues s k) t = 0"
  shows "\<exists>s'. removeConnectionInLoop 0 i s = Some s' \<and> server_inv s' \<and> conns s' = conns s \<and> \<not> in_map s' i \<and>
    (\<forall>j. j \<noteq> i \<longrightarrow> j < length (conns s) \<longrightarrow> in_map s' j = in_map s j)"
proof -
  let ?s = "queueInLoop (loop_of s i) (Destroyed i) (s\<lparr>m_connections := (m_connections s)(name_of s i := None)\<rparr>)"
  have step: "removeConnectionInLoop 0 i s = Some ?s" using c(3) by (simp add: removeConnectionInLoop_def in_map_def Let_def)
  have only: "only_at i s ?s" by (auto simp: only_at_def queueInLoop_def)
  have st: "stage_ok ?s i"
    using c none by (auto simp: stage_ok_def queueInLoop_def in_map_def is_closed_def)
  have others: "stage_ok ?s j" if "j < length (conns s)" "j \<noteq> i" for j
    using only_at_stage [OF only _ that(2)] numbered_names [OF inv(2) i that] inv(1) that by blast
  have "closes_ok ?s" using inv(6) by (simp add: closes_ok_def queueInLoop_def)
  moreover have "\<forall>j < length (conns ?s). stage_ok ?s j" using st others by (auto simp: queueInLoop_def)
  ultimately have "server_inv ?s"
    using only_at_tasks [OF only inv(5) i] only_at_numbered [OF only inv(2)] only_at_map [OF only inv(4)]
      only_at_pool [OF only inv(3)] by (simp add: server_inv_def)
  moreover have "in_map ?s j = in_map s j" if "j < length (conns s)" "j \<noteq> i" for j
    using numbered_names [OF inv(2) i that] by (simp add: in_map_def queueInLoop_def)
  moreover have "conns ?s = conns s" "\<not> in_map ?s i" by (simp_all add: queueInLoop_def in_map_def)
  ultimately show ?thesis using step by blast
qed

lemma run_remove:
  assumes inv: "server_inv s" and q: "queues s k = Remove i # ts" and i: "i < length (conns s)"
  shows "\<exists>s'. server_step (Run k) s = Some s' \<and> server_inv s' \<and> conns s' = conns s \<and> is_closed (conn_of s i) \<and>
    in_map s i \<and> \<not> in_map s' i \<and> (\<forall>j. j \<noteq> i \<longrightarrow> j < length (conns s) \<longrightarrow> in_map s' j = in_map s j)"
proof -
  let ?s = "s\<lparr>queues := (queues s)(k := ts)\<rparr>"
  have st: "stage_ok s i" using inv i by (simp add: server_inv_def)
  have at: "k = 0" "is_closed (conn_of s i)" "in_map s i" using queued_at_stage [OF st q] by simp_all
  have c: "conn_ok (conn_of s i)" "\<not> removed (conn_of s i)" using st at by (auto simp: stage_ok_def)
  have only: "only_at i s ?s" using q by (auto simp: only_at_def)
  have none: "\<forall>k' t. task_conn t = Some i \<longrightarrow> count_list (queues ?s k') t = 0"
  proof (intro allI impI)
    fix k' t
    assume "task_conn t = Some i"
    moreover have "count_list ts (Remove i) = 0" using stage_counts(2) [OF st, of k] q at by simp
    ultimately show "count_list (queues ?s k') t = 0"
      using stage_counts [OF st, of k'] at q stage_counts [OF st, of k] by (cases t) (auto simp: is_closed_def split: if_splits)
  qed
  have others: "\<forall>j < length (conns ?s). j \<noteq> i \<longrightarrow> stage_ok ?s j"
  proof (intro allI impI)
    fix j
    assume "j < length (conns ?s)" "j \<noteq> i"
    then show "stage_ok ?s j"
      using only_at_stage [OF only _ \<open>j \<noteq> i\<close>] numbered_names [of s i j] inv i by (simp add: server_inv_def)
  qed
  have "numbered ?s" "pool_ok ?s" "map_ok ?s" "tasks_ok ?s" "closes_ok ?s"
    using inv only_at_tasks [OF only _ i] only_at_numbered [OF only] only_at_map [OF only] only_at_pool [OF only]
    by (simp_all add: server_inv_def closes_ok_def)
  from remove_in_loop [OF others this] i c at none
  obtain s' where "removeConnectionInLoop 0 i ?s = Some s'" "server_inv s'" "conns s' = conns s" "\<not> in_map s' i"
      "\<forall>j. j \<noteq> i \<longrightarrow> j < length (conns s) \<longrightarrow> in_map s' j = in_map ?s j"
    by (auto simp: in_map_def)
  then show ?thesis using q at by (auto simp: in_map_def)
qed

lemma queue_remove_stage:
  assumes "conn_ok (conn_of s i)" "is_closed (conn_of s i)" "in_map s i" "\<not> removed (conn_of s i)"
    and "\<forall>k t. task_conn t = Some i \<longrightarrow> count_list (queues s k) t = 0"
  shows "stage_ok (queueInLoop 0 (Remove i) s) i"
  using assms by (auto simp: stage_ok_def queueInLoop_def in_map_def is_closed_def)

text \<open>A connection that does something else, or closes.\<close>

lemma conn_event:
  assumes inv: "server_inv s" and i: "i < length (conns s)" and op: "enabled op (conn_of s i)" "op \<noteq> Establish" "op \<noteq> Destroy"
  shows "\<exists>s'. server_step (On_connection i op) s = Some s' \<and> server_inv s'"
proof -
  have st: "stage_ok s i" using inv i by (simp add: server_inv_def)
  then have "conn_ok (conn_of s i)" by (simp add: stage_ok_def)
  from other_op [OF this op] obtain c where c: "conn_step op (conn_of s i) = Some c" "conn_ok c"
      "removed c = removed (conn_of s i)" "is_closed (conn_of s i) \<longrightarrow> is_closed c"
      "m_state c = kConnceting \<longleftrightarrow> m_state (conn_of s i) = kConnceting" "is_closed c \<longrightarrow> is_closed (conn_of s i) \<or> is_up (conn_of s i)"
    by blast
  let ?s = "set_conn i c s"
  have only: "only_at i s ?s" using i by (auto simp: only_at_def)
  show ?thesis
  proof (cases "is_up (conn_of s i) \<and> is_closed c")
    case False
    then have same: "is_closed c = is_closed (conn_of s i)" using c(4,6) by blast
    have "in_map ?s i = in_map s i" using i by (simp add: in_map_def)
    then have "stage_ok ?s i" using st c i same by (simp add: stage_ok_def)
    moreover have "closes_ok ?s" using inv i same by (auto simp: server_inv_def closes_ok_def split: if_splits)
    ultimately have "server_inv ?s" using only_at_inv [OF inv only i] by blast
    moreover have "server_step (On_connection i op) s = Some ?s" using False c(1) i by (auto simp: Let_def)
    ultimately show ?thesis by blast
  next
    case True
    then have st': "\<not> is_closed (conn_of s i)" "m_state (conn_of s i) \<noteq> kConnceting" "in_map s i" "\<not> removed (conn_of s i)"
      using st by (auto simp: is_up_def is_closed_def stage_ok_def)
    let ?t = "if m_close_cb ?s then ?s\<lparr>closes := closes ?s @ [i]\<rparr> else ?s"
    have onlyt: "only_at i s ?t" using i by (auto simp: only_at_def)
    have none: "\<forall>k t. task_conn t = Some i \<longrightarrow> count_list (queues ?t k) t = 0"
    proof (intro allI impI)
      fix k t
      assume "task_conn t = Some i"
      then show "count_list (queues ?t k) t = 0" using stage_counts [OF st, of k] st' by (cases t) auto
    qed
    have closes: "closes_ok ?t"
      using inv i True st'(1) by (auto simp: server_inv_def closes_ok_def split: if_splits)
    have connt: "conn_of ?t i = c" "loop_of ?t i = loop_of s i" "in_map ?t i" "length (conns ?t) = length (conns s)"
      using i st'(3) by (auto simp: in_map_def)
    have step: "server_step (On_connection i op) s = runInLoop (loop_of s i) 0 (Remove i) ?t"
      using True c(1) i by (simp add: removeConnection_def Let_def)
    show ?thesis
    proof (cases "loop_of s i = 0")
      case True
      have others: "\<forall>j < length (conns ?t). j \<noteq> i \<longrightarrow> stage_ok ?t j"
      proof (intro allI impI)
        fix j
        assume "j < length (conns ?t)" "j \<noteq> i"
        then show "stage_ok ?t j"
          using only_at_stage [OF onlyt _ \<open>j \<noteq> i\<close>] numbered_names [of s i j] inv i connt(4) by (simp add: server_inv_def)
      qed
      have rest: "numbered ?t" "pool_ok ?t" "map_ok ?t" "tasks_ok ?t"
        using inv only_at_tasks [OF onlyt _ i] only_at_numbered [OF onlyt] only_at_map [OF onlyt] only_at_pool [OF onlyt]
        unfolding server_inv_def by blast+
      have "i < length (conns ?t)" "conn_ok (conn_of ?t i)" "is_closed (conn_of ?t i)" "\<not> removed (conn_of ?t i)"
        using i connt c \<open>is_up (conn_of s i) \<and> is_closed c\<close> st'(4) by simp_all
      from remove_in_loop [OF others rest closes this(1-3) connt(3) this(4) none]
      show ?thesis using step True by (auto simp: runInLoop_def)
    next
      case False
      let ?u = "queueInLoop 0 (Remove i) ?t"
      have onlyu: "only_at i s ?u" using onlyt unfolding only_at_def queueInLoop_def by auto
      have "closes_ok ?u" using closes unfolding closes_ok_def queueInLoop_def by simp
      moreover have "stage_ok ?u i"
        using queue_remove_stage [OF _ _ connt(3) _ none] c(2,3) connt(1) st'(4) \<open>is_up (conn_of s i) \<and> is_closed c\<close> by simp
      ultimately have "server_inv ?u" using only_at_inv [OF inv onlyu i] by blast
      then show ?thesis using step False by (simp add: runInLoop_def)
    qed
  qed
qed

text \<open>A new connection.\<close>

lemma numbered_fresh:
  assumes "numbered s" "i < length (conns s)"
  shows "name_of s i \<noteq> m_name s @ 35 # to_string (count s)"
proof -
  obtain k where "k < count s" "name_of s i = m_name s @ 35 # to_string k" using assms unfolding numbered_def by blast
  then show ?thesis by (simp add: to_string_inj)
qed

lemma getNextLoop_spec:
  assumes nl: "getNextLoop 0 p = Some (l, p')" and loops: "m_loops p = map Suc [0..<length (m_loops p)]"
    and at: "m_next p = (if length (m_loops p) = 0 then 0 else m mod length (m_loops p))"
  shows "l = (if length (m_loops p) = 0 then 0 else Suc (m mod length (m_loops p))) \<and> m_loops p' = m_loops p \<and>
    m_isStart p' = m_isStart p \<and> m_numThreads p' = m_numThreads p \<and>
    m_next p' = (if length (m_loops p) = 0 then 0 else Suc m mod length (m_loops p))"
proof (cases "length (m_loops p) = 0")
  case True
  then show ?thesis using nl at by (auto simp: getNextLoop_def assert_that_def split: if_splits)
next
  case False
  let ?n = "length (m_loops p)"
  have lt: "m mod ?n < ?n" using False by simp
  then have "m_loops p ! (m mod ?n) = Suc (m mod ?n)" by (subst loops) simp
  moreover have "Suc m mod ?n = (if ?n \<le> Suc (m mod ?n) then 0 else Suc (m mod ?n))" using lt by (auto simp: mod_Suc)
  ultimately show ?thesis using nl at False by (auto simp: getNextLoop_def assert_that_def Let_def split: if_splits)
qed

lemma new_conn_inv:
  assumes inv: "server_inv s" and listening: "isStart s"
    and nl: "getNextLoop 0 (m_threadpool s) = Some (l, p)"
    and conns: "conns s' = conns s @ [(m_name s @ 35 # to_string (count s), l, c)]"
    and in_map: "m_connections s' = (m_connections s)(m_name s @ 35 # to_string (count s) \<mapsto> length (conns s))"
    and queues: "queues s' = (if m_state c = kConnceting then (queues s)(l := queues s l @ [Established (length (conns s))]) else queues s)"
    and c: "conn_ok c" "\<not> removed c" "\<not> is_closed c"
    and rest: "m_name s' = m_name s" "count s' = count s + 1" "m_threadpool s' = p" "isStart s' = isStart s"
      "m_isListening s' = m_isListening s" "m_close_cb s' = m_close_cb s" "closes s' = closes s"
  shows "server_inv s'"
proof -
  have nums: "numbered s" and pool: "pool_ok s" and tasks: "tasks_ok s" using inv by (simp_all add: server_inv_def)
  have new: "conns s' ! i = (if i < length (conns s) then conns s ! i else (m_name s @ 35 # to_string (count s), l, c))"
    if "i < length (conns s')" for i
    using that conns by (auto simp: nth_append less_Suc_eq)
  have len: "length (conns s') = Suc (length (conns s))" using conns by simp
  have no_task: "count_list (queues s k) t = 0" if "task_conn t = Some (length (conns s))" for k t
  proof -
    have "t \<notin> set (queues s k)" using tasks that unfolding tasks_ok_def by fastforce
    then show ?thesis by simp
  qed
  have "stage_ok s' i" if i: "i < length (conns s')" for i
  proof (cases "i < length (conns s)")
    case True
    have "stage_ok s i" using inv True by (simp add: server_inv_def)
    moreover have "conns s' ! i = conns s ! i" using new [OF i] True by simp
    moreover have "in_map s' i = in_map s i"
      using numbered_fresh [OF nums True] in_map new [OF i] True by (simp add: in_map_def)
    ultimately show ?thesis using True unfolding stage_ok_def queues by simp
  next
    case False
    then have i': "i = length (conns s)" using i len by simp
    have c': "conns s' ! i = (m_name s @ 35 # to_string (count s), l, c)" using new [OF i] False by simp
    have "in_map s' i" using c' in_map i' by (simp add: in_map_def)
    then show ?thesis using c c' i' no_task unfolding stage_ok_def queues by (auto simp: is_closed_def)
  qed
  moreover have "numbered s'"
  proof -
    have "m_name s @ 35 # to_string (count s) \<notin> set (map fst (conns s))"
      using numbered_fresh [OF nums] by (metis in_set_conv_nth length_map nth_map_fst)
    then show ?thesis using nums rest conns new len unfolding numbered_def
      by (auto simp: less_Suc_eq intro: less_SucI)
  qed
  moreover have "pool_ok s'"
  proof -
    let ?p = "m_threadpool s" and ?n = "length (m_loops (m_threadpool s))" and ?m = "length (conns s)"
    have p: "m_loops ?p = map Suc [0..<?n]" "m_next ?p = (if ?n = 0 then 0 else ?m mod ?n)" "m_isStart ?p" "0 \<le> m_numThreads ?p"
      "m_isListening s" "\<forall>i < ?m. loop_of s i = (if ?n = 0 then 0 else Suc (i mod ?n))"
      using pool listening by (simp_all add: pool_ok_def Let_def)
    have l: "l = (if ?n = 0 then 0 else Suc (?m mod ?n))" "m_loops p = m_loops ?p" "m_isStart p" "m_numThreads p = m_numThreads ?p"
      "m_next p = (if ?n = 0 then 0 else Suc ?m mod ?n)"
      using getNextLoop_spec [OF nl p(1,2)] p(3) by simp_all
    show ?thesis
      using p l rest listening new len unfolding pool_ok_def Let_def by (auto simp: less_Suc_eq)
  qed
  moreover have "map_ok s'"
    using inv in_map new len unfolding server_inv_def map_ok_def by (auto simp: less_Suc_eq split: if_splits)
  moreover have "tasks_ok s'"
    using tasks len unfolding tasks_ok_def queues by (auto simp: less_Suc_eq)
  moreover have "closes_ok s'"
    using inv c(3) rest new len unfolding server_inv_def closes_ok_def by (auto simp: less_Suc_eq)
  ultimately show ?thesis by (simp add: server_inv_def)
qed

lemma getNextLoop_ok:
  assumes "pool_ok s" "isStart s"
  shows "\<exists>l p. getNextLoop 0 (m_threadpool s) = Some (l, p)"
  using assms by (auto simp: pool_ok_def getNextLoop_def Let_def assert_that_def)

lemma newConnection_ok:
  assumes inv: "server_inv s" and listening: "isStart s"
  shows "\<exists>s'. newConnection 0 sock s = Some s' \<and> server_inv s'"
proof -
  obtain l p where nl: "getNextLoop 0 (m_threadpool s) = Some (l, p)"
    using getNextLoop_ok [of s] inv listening unfolding server_inv_def by blast
  let ?name = "m_name s @ 35 # to_string (count s)" and ?i = "length (conns s)"
  let ?s = "s\<lparr>count := count s + 1, m_threadpool := p, conns := conns s @ [(?name, l, TcpConnection sock)],
    m_connections := (m_connections s)(?name \<mapsto> ?i)\<rparr>"
  have step: "newConnection 0 sock s = runInLoop 0 l (Established ?i) ?s"
    using nl by (simp add: newConnection_def Let_def)
  have fresh: "conn_ok (TcpConnection sock)" "\<not> removed (TcpConnection sock)" "m_state (TcpConnection sock) = kConnceting"
    by (simp_all add: conn_ok_new) (simp_all add: TcpConnection_def)
  show ?thesis
  proof (cases "l = 0")
    case True
    obtain c where c: "connectEstablished (TcpConnection sock) = Some c" "conn_ok c" "\<not> removed c" "m_state c = kConnected"
      using establish_op [OF fresh(1,3)] fresh(2) by auto
    have "server_inv (set_conn ?i c ?s)"
      using c by (intro new_conn_inv [OF inv listening nl, of _ c]) (simp_all add: set_conn_def is_closed_def)
    then show ?thesis using step True c(1) by (simp add: runInLoop_def call_conn_def nth_append)
  next
    case False
    have "server_inv (queueInLoop l (Established ?i) ?s)"
      using fresh by (intro new_conn_inv [OF inv listening nl, of _ "TcpConnection sock"])
        (simp_all add: queueInLoop_def is_closed_def)
    then show ?thesis using step False by (simp add: runInLoop_def)
  qed
qed

lemma start_ok:
  assumes inv: "server_inv s" and "\<not> isStart s"
  shows "\<exists>s'. start 0 s = Some s' \<and> server_inv s'"
proof -
  have p: "\<not> m_isStart (m_threadpool s)" "m_loops (m_threadpool s) = []" "conns s = []" "\<not> m_isListening s"
      "0 \<le> m_numThreads (m_threadpool s)" "m_next (m_threadpool s) = 0"
    using assms by (simp_all add: server_inv_def pool_ok_def Let_def)
  show ?thesis
    using inv p by (simp add: start_def pool_start_def runInLoop_def listen_def Let_def server_inv_def numbered_def
        pool_ok_def map_ok_def tasks_ok_def closes_ok_def)
qed

section \<open>A server never aborts, and its queues run dry\<close>

definition work :: "server \<Rightarrow> nat \<Rightarrow> nat" where
  "work s i = (if m_state (conn_of s i) = kConnceting then 1
     else if is_closed (conn_of s i) \<and> in_map s i then 2
     else if is_closed (conn_of s i) \<and> \<not> removed (conn_of s i) then 1 else 0)"

definition total_work :: "server \<Rightarrow> nat" where
  "total_work s = (\<Sum>i < length (conns s). work s i)"

lemma total_work_less:
  assumes "length (conns s') = length (conns s)" "i < length (conns s)" "work s' i < work s i"
    and "\<And>j. j < length (conns s) \<Longrightarrow> j \<noteq> i \<Longrightarrow> work s' j = work s j"
  shows "total_work s' < total_work s"
  unfolding total_work_def assms(1)
proof (rule sum_strict_mono_ex1)
  show "\<forall>j\<in>{..<length (conns s)}. work s' j \<le> work s j" using assms(3,4) by (metis le_eq_less_or_eq lessThan_iff)
  show "\<exists>j\<in>{..<length (conns s)}. work s' j < work s j" using assms(2,3) by blast
qed simp

lemma total_work_le: "total_work s \<le> 2 * length (conns s)"
proof -
  have "total_work s \<le> (\<Sum>i < length (conns s). 2)" unfolding total_work_def by (rule sum_mono) (simp add: work_def)
  then show ?thesis by simp
qed

lemma run_front_ok:
  assumes inv: "server_inv s" and q: "queues s k \<noteq> []"
  shows "\<exists>s'. server_step (Run k) s = Some s' \<and> server_inv s' \<and> total_work s' < total_work s \<and>
    length (conns s') = length (conns s) \<and>
    (\<forall>i < length (conns s). is_closed (conn_of s' i) = is_closed (conn_of s i) \<and> name_of s' i = name_of s i)"
proof -
  obtain t ts where t: "queues s k = t # ts" using q by (cases "queues s k") auto
  then have "t \<in> set (queues s k)" by simp
  then obtain i where i: "i < length (conns s)" "task_conn t = Some i"
    using inv unfolding server_inv_def tasks_ok_def by blast
  show ?thesis
  proof (cases t)
    case (Established j)
    with i have j: "t = Established i" by simp
    from run_established [OF inv _ i(1), of k ts] t j obtain c
      where c: "server_step (Run k) s = Some (set_conn i c (s\<lparr>queues := (queues s)(k := ts)\<rparr>))" (is "_ = Some ?s")
        "server_inv (set_conn i c (s\<lparr>queues := (queues s)(k := ts)\<rparr>))" "m_state (conn_of s i) = kConnceting" "m_state c = kConnected"
      by blast
    have "total_work ?s < total_work s"
      using i(1) c by (intro total_work_less [of ?s s i]) (auto simp: work_def in_map_def is_closed_def)
    then show ?thesis using c i(1) by (auto simp: is_closed_def)
  next
    case (Remove j)
    with i have j: "t = Remove i" by simp
    from run_remove [OF inv _ i(1), of k ts] t j obtain s'
      where s': "server_step (Run k) s = Some s'" "server_inv s'" "conns s' = conns s" "is_closed (conn_of s i)"
        "in_map s i" "\<not> in_map s' i" "\<forall>j. j \<noteq> i \<longrightarrow> j < length (conns s) \<longrightarrow> in_map s' j = in_map s j"
      by blast
    have "total_work s' < total_work s"
      using i(1) s' by (intro total_work_less [of s' s i]) (auto simp: work_def is_closed_def)
    then show ?thesis using s' by auto
  next
    case (Destroyed j)
    with i have j: "t = Destroyed i" by simp
    have st: "is_closed (conn_of s i)" "\<not> in_map s i"
      using queued_at_stage [of s i k t ts] inv i t j by (simp_all add: server_inv_def)
    from run_destroyed [OF inv _ i(1), of k ts] t j obtain c
      where c: "server_step (Run k) s = Some (set_conn i c (s\<lparr>queues := (queues s)(k := ts)\<rparr>))" (is "_ = Some ?s")
        "server_inv (set_conn i c (s\<lparr>queues := (queues s)(k := ts)\<rparr>))" "\<not> removed (conn_of s i)" "removed c"
      by blast
    have "stage_ok ?s i" using c(2) i(1) by (simp add: server_inv_def)
    then have "is_closed c" using c(4) i(1) by (simp add: stage_ok_def)
    then have "total_work ?s < total_work s"
      using i(1) c st by (intro total_work_less [of ?s s i]) (auto simp: work_def in_map_def is_closed_def)
    then show ?thesis using c i(1) st \<open>is_closed c\<close> by auto
  qed (use i in simp)
qed

lemma server_step_ok:
  assumes inv: "server_inv s" and legal: "server_legal e s"
  shows "\<exists>s'. server_step e s = Some s' \<and> server_inv s'"
proof (cases e)
  case (Set_threads n)
  let ?s = "s\<lparr>m_threadpool := (m_threadpool s)\<lparr>m_numThreads := n\<rparr>\<rparr>"
  have "pool_ok ?s" using inv legal Set_threads by (auto simp: server_inv_def pool_ok_def Let_def)
  then have "server_inv ?s" using inv
    by (simp add: server_inv_def stage_ok_def in_map_def numbered_def map_ok_def tasks_ok_def closes_ok_def)
  then show ?thesis using Set_threads legal by (simp add: setThreadNum_def)
next
  case Start
  then show ?thesis using start_ok [OF inv] legal by simp
next
  case Other_server
  have "numbered (s\<lparr>count := count s + 1\<rparr>)"
    using inv unfolding server_inv_def numbered_def by simp (meson less_SucI)
  then show ?thesis using inv Other_server
    by (simp add: server_inv_def stage_ok_def in_map_def pool_ok_def map_ok_def tasks_ok_def closes_ok_def Let_def)
next
  case (Acceptable r)
  have "isStart s" using inv legal Acceptable by (simp add: server_inv_def pool_ok_def Let_def)
  then show ?thesis using newConnection_ok [OF inv] inv Acceptable
    by (cases r) (simp_all add: Acceptor_handleRead_def)
next
  case (Run k)
  show ?thesis
  proof (cases "queues s k")
    case Nil
    then show ?thesis using inv Run by simp
  next
    case (Cons t ts)
    then show ?thesis using run_front_ok [OF inv, of k] Run by auto
  qed
next
  case (On_connection i op)
  then show ?thesis using conn_event [OF inv, of i op] legal by simp
qed

lemma server_reachable_inv: "server_reachable s \<Longrightarrow> server_inv s"
proof (induction rule: server_reachable.induct)
  case (new name close_cb n)
  show ?case by (rule server_inv_new)
next
  case (step s e s')
  then show ?case using server_step_ok by fastforce
qed

text \<open>
  C32: Whatever happens to a server that is used as it is meant to be (its number of threads is not negative, it
  is started once), none of its calls, its loops' tasks and the events of its connections aborts: a connection that
  closes is in the map, in the base loop, its name taken by no other; it is established once and destroyed
  once, in its own loop, after its channel was disabled.
\<close>

theorem server_never_aborts:
  assumes "server_reachable s" and "server_legal e s"
  shows "server_step e s \<noteq> None"
  using server_step_ok [OF server_reachable_inv assms(2)] assms(1) by auto

text \<open>The tasks of the loops, as the threads come to run them: each runs when its queue is not empty.\<close>

fun busy_run :: "nat list \<Rightarrow> server \<Rightarrow> server option" where
  "busy_run [] s = Some s"
| "busy_run (k # ks) s = (if queues s k = [] then None else do { s' \<leftarrow> server_step (Run k) s; busy_run ks s' })"

lemma busy_run_ok:
  "server_inv s \<Longrightarrow> busy_run ks s = Some s' \<Longrightarrow>
   server_inv s' \<and> total_work s' + length ks \<le> total_work s \<and> length (conns s') = length (conns s) \<and>
   (\<forall>i < length (conns s). is_closed (conn_of s' i) = is_closed (conn_of s i) \<and> name_of s' i = name_of s i)"
proof (induction ks arbitrary: s)
  case (Cons k ks)
  then have "queues s k \<noteq> []" by (auto split: if_splits)
  from run_front_ok [OF Cons.prems(1) this] obtain t
    where t: "server_step (Run k) s = Some t" "server_inv t" "total_work t < total_work s" "length (conns t) = length (conns s)"
      "\<forall>i < length (conns s). is_closed (conn_of t i) = is_closed (conn_of s i) \<and> name_of t i = name_of s i"
    by blast
  have "busy_run ks t = Some s'" using Cons.prems(2) t(1) \<open>queues s k \<noteq> []\<close> by (simp del: server_step.simps)
  from Cons.IH [OF t(2) this] t show ?case by simp
qed simp

lemma busy_run_append: "busy_run (ks @ [k]) s = (case busy_run ks s of None \<Rightarrow> None | Some s' \<Rightarrow> busy_run [k] s')"
  by (induction ks arbitrary: s) (auto simp del: server_step.simps split: option.splits bind_splits)

text \<open>When no task is left, a connection is in the map and up, or closed and gone.\<close>

lemma idle_stage:
  assumes inv: "server_inv s" and idle: "\<forall>k. queues s k = []" and i: "i < length (conns s)"
  shows "if is_closed (conn_of s i) then removed (conn_of s i) \<and> m_connections s (name_of s i) = None
    else is_up (conn_of s i) \<and> m_connections s (name_of s i) = Some i"
proof -
  have st: "stage_ok s i" and nums: "numbered s" and map: "map_ok s" using inv i by (simp_all add: server_inv_def)
  have counts: "m_state (conn_of s i) \<noteq> kConnceting" "\<not> (is_closed (conn_of s i) \<and> in_map s i)"
      "\<not> (is_closed (conn_of s i) \<and> \<not> in_map s i \<and> \<not> removed (conn_of s i))"
    using stage_counts [OF st] idle by auto
  have "m_connections s (name_of s i) = None" if "\<not> in_map s i"
  proof (rule ccontr)
    assume "m_connections s (name_of s i) \<noteq> None"
    then obtain j where j: "m_connections s (name_of s i) = Some j" by blast
    then have "j < length (conns s)" "name_of s j = name_of s i" using map unfolding map_ok_def by blast+
    then have "j = i" using numbered_names [OF nums i, of j] by blast
    then show False using j that by (simp add: in_map_def)
  qed
  then show ?thesis using counts st by (cases "m_state (conn_of s i)") (auto simp: stage_ok_def in_map_def is_closed_def is_up_def)
qed

text \<open>
  C33: In every order in which the threads of the loops run the tasks that wait, they come to an end after at most two for
  each connection, and while one waits it can run; when none does, a connection is in the map under its own name and up, or it closed,
  and then it is out of the map and was removed from its loop.
\<close>

theorem server_settles:
  assumes "server_reachable s" and "busy_run ks s = Some s'"
  shows "length ks \<le> 2 * length (conns s) \<and>
    (if \<exists>k. queues s' k \<noteq> [] then \<forall>k. queues s' k = [] \<or> busy_run (ks @ [k]) s \<noteq> None
     else \<forall>i. i \<ge> length (conns s) \<or>
       (if is_closed (conn_of s i) then removed (conn_of s' i) \<and> m_connections s' (name_of s i) = None
        else is_up (conn_of s' i) \<and> m_connections s' (name_of s i) = Some i))"
proof -
  have inv: "server_inv s" using assms(1) by (rule server_reachable_inv)
  note run = busy_run_ok [OF inv assms(2)]
  have "busy_run (ks @ [k]) s \<noteq> None" if "queues s' k \<noteq> []" for k
    using run_front_ok [of s' k] run that assms(2) by (auto simp: busy_run_append simp del: server_step.simps)
  moreover have "if is_closed (conn_of s i) then removed (conn_of s' i) \<and> m_connections s' (name_of s i) = None
        else is_up (conn_of s' i) \<and> m_connections s' (name_of s i) = Some i"
    if "\<forall>k. queues s' k = []" "i < length (conns s)" for i
  proof -
    have eqs: "is_closed (conn_of s' i) = is_closed (conn_of s i)" "name_of s' i = name_of s i"
      using run that(2) by blast+
    have "server_inv s'" "i < length (conns s')" using run that(2) by simp_all
    from idle_stage [OF this(1) that(1) this(2)] show ?thesis by (simp only: eqs)
  qed
  ultimately show ?thesis using run total_work_le [of s] by (auto simp: not_le split: if_splits)
qed

text \<open>
  C34: The connections of a server have names of their own; they go to the loops of the pool in turn, or to the
  base loop when there are none; one that is open is in the map, and no other is there under its name; and the
  close callback is called once for each that closed.
\<close>

theorem server_tracks_connections:
  assumes "server_reachable s" and "i < length (conns s)"
  shows "(j = i \<or> j \<ge> length (conns s) \<or> name_of s j \<noteq> name_of s i) \<and>
    loop_of s i = (let n = length (m_loops (m_threadpool s)) in if n = 0 then 0 else Suc (i mod n)) \<and>
    m_connections s (name_of s i) \<in> (if is_closed (conn_of s i) then {None, Some i} else {Some i}) \<and>
    distinct (closes s) \<and> (i \<in> set (closes s) \<longleftrightarrow> m_close_cb s \<and> is_closed (conn_of s i))"
proof -
  have inv: "server_inv s" using assms(1) by (rule server_reachable_inv)
  then have st: "stage_ok s i" and nums: "numbered s" and map: "map_ok s" and pool: "pool_ok s" and closes: "closes_ok s"
    using assms(2) by (simp_all add: server_inv_def)
  have "k = i" if "m_connections s (name_of s i) = Some k" for k
    using map that numbered_names [OF nums assms(2), of k] unfolding map_ok_def by blast
  then have "m_connections s (name_of s i) \<in> {None, Some i}" by (cases "m_connections s (name_of s i)") simp_all
  moreover have "m_connections s (name_of s i) = Some i" if "\<not> is_closed (conn_of s i)"
    using st that by (simp add: stage_ok_def in_map_def)
  moreover have "loop_of s i = (let n = length (m_loops (m_threadpool s)) in if n = 0 then 0 else Suc (i mod n))"
    using pool assms(2) by (simp add: pool_ok_def Let_def)
  moreover have "j = i \<or> j \<ge> length (conns s) \<or> name_of s j \<noteq> name_of s i"
    using numbered_names [OF nums assms(2), of j] by (auto simp: not_le)
  moreover have "distinct (closes s)" "i \<in> set (closes s) \<longleftrightarrow> m_close_cb s \<and> is_closed (conn_of s i)"
    using closes assms(2) by (simp_all add: closes_ok_def)
  ultimately show ?thesis by simp
qed

section \<open>A run\<close>

fun server_run :: "server_event list \<Rightarrow> server \<Rightarrow> server option" where
  "server_run [] s = Some s"
| "server_run (e # es) s = (if server_legal e s then do { s' \<leftarrow> server_step e s; server_run es s' } else None)"

lemma server_run_reachable: "server_reachable s \<Longrightarrow> server_run es s = Some s' \<Longrightarrow> server_reachable s'"
proof (induction es arbitrary: s)
  case (Cons e es)
  then obtain t where t: "server_legal e s" "server_step e s = Some t" "server_run es t = Some s'"
    by (auto simp del: server_step.simps server_legal.simps split: if_splits bind_splits)
  then show ?case using Cons.IH [OF server_reachable.step [OF Cons.prems(1) t(1,2)] t(3)] by simp
qed simp

text \<open>A server with two threads accepts three connections; the first is up, the second closes.\<close>

definition demo_events :: "server_event list" where
  "demo_events = [Set_threads 2, Start, Acceptable (Good_socket 5), Acceptable (Good_socket 6), Acceptable (Good_socket 7),
     Run 1, Run 2, On_connection 1 Hangup]"

definition demo_server :: "server option" where
  "demo_server = server_run demo_events (TcpServer [115] True 1)"

lemmas server_eval = setThreadNum_def start_def pool_start_def runInLoop_def listen_def Acceptor_handleRead_def
  newConnection_def getNextLoop_def queueInLoop_def call_conn_def connectEstablished_def handleClose_def
  removeConnection_def removeConnectionInLoop_def connectDestroyed_def set_conn_def demo_server_def demo_events_def
  TcpServer_def EventLoopThreadPool_def TcpConnection_def is_up_def is_closed_def channel_do_def call_if_def

lemma demo_server:
  "\<exists>s. demo_server = Some s \<and> length (conns s) = 3 \<and> queues s 0 = [Remove 1] \<and> m_close_cb s \<and> is_closed (conn_of s 1) \<and>
     name_of s 1 = [115, 35, 50] \<and> length (m_loops (m_threadpool s)) = 2"
  by (simp add: server_eval Let_def to_string.simps upt_rec)

lemma demo_settled:
  "\<exists>s s'. demo_server = Some s \<and> busy_run [0, 1, 2] s = Some s' \<and> (\<forall>k. queues s' k = []) \<and> length (conns s) = 3 \<and>
     is_closed (conn_of s 1) \<and> \<not> is_closed (conn_of s 2) \<and> name_of s 1 = [115, 35, 50] \<and> name_of s 2 = [115, 35, 51]"
  by (simp add: server_eval Let_def to_string.simps upt_rec isNoneEvent_def new_events.simps)

lemma demo_server_reachable: "demo_server = Some s \<Longrightarrow> server_reachable s"
  unfolding demo_server_def by (rule server_run_reachable [OF server_reachable.new])

theorem server_never_aborts_witness:
  "\<exists>s. demo_server = Some s \<and> queues s 0 = [Remove 1] \<and> server_step (Run 0) s \<noteq> None"
proof -
  obtain s where s: "demo_server = Some s" "queues s 0 = [Remove 1]" using demo_server by blast
  then have "server_step (Run 0) s \<noteq> None"
    using server_never_aborts [OF demo_server_reachable [OF s(1)], of "Run 0"] by simp
  with s show ?thesis by blast
qed

theorem server_settles_witness:
  "\<exists>s s'. demo_server = Some s \<and> busy_run [0, 1, 2] s = Some s' \<and>
     removed (conn_of s' 1) \<and> m_connections s' [115, 35, 50] = None \<and>
     is_up (conn_of s' 2) \<and> m_connections s' [115, 35, 51] = Some 2"
proof -
  obtain s s' where s: "demo_server = Some s" "busy_run [0, 1, 2] s = Some s'" "\<forall>k. queues s' k = []" "length (conns s) = 3"
      "is_closed (conn_of s 1)" "\<not> is_closed (conn_of s 2)" "name_of s 1 = [115, 35, 50]" "name_of s 2 = [115, 35, 51]"
    using demo_settled by blast
  have "\<forall>i. i \<ge> length (conns s) \<or>
       (if is_closed (conn_of s i) then removed (conn_of s' i) \<and> m_connections s' (name_of s i) = None
        else is_up (conn_of s' i) \<and> m_connections s' (name_of s i) = Some i)"
    using server_settles [OF demo_server_reachable [OF s(1)] s(2)] s(3) by simp
  from spec [OF this, of 1] spec [OF this, of 2]
  have "removed (conn_of s' 1) \<and> m_connections s' [115, 35, 50] = None \<and> is_up (conn_of s' 2) \<and>
    m_connections s' [115, 35, 51] = Some 2"
    using s(4-8) by simp
  with s(1,2) show ?thesis by blast
qed

theorem server_tracks_connections_witness:
  "\<exists>s. demo_server = Some s \<and> name_of s 1 = [115, 35, 50] \<and> name_of s 0 \<noteq> name_of s 1 \<and> loop_of s 1 = 2 \<and>
     m_connections s [115, 35, 50] \<in> {None, Some 1} \<and> 1 \<in> set (closes s)"
proof -
  obtain s where s: "demo_server = Some s" "length (conns s) = 3" "m_close_cb s" "is_closed (conn_of s 1)"
      "name_of s 1 = [115, 35, 50]" "length (m_loops (m_threadpool s)) = 2"
    using demo_server by blast
  have "1 < length (conns s)" using s(2) by simp
  from server_tracks_connections [OF demo_server_reachable [OF s(1)] this, of 0] show ?thesis using s by (auto simp: Let_def)
qed

end
