(* ===== verification/Logging.thy ===== *)
theory Logging
  imports Text
begin

text \<open>
  \<^verbatim>\<open>base/log.h/.cc\<close>: levels, events, formatters with their patterns, appenders, loggers and their
  manager. Loggers and appenders are shared objects: a logger is known by its name, under which the manager
  keeps it, an appender by its number in the list \<open>appenders\<close>. What an appender wrote to its file since
  it opened it is \<open>m_filestream\<close>, what the process wrote to the terminal is \<open>stdout\<close>. The text that
  \<^verbatim>\<open>strftime\<close> makes of a format and a time is an argument, as is the text of
  \<^verbatim>\<open>vasprintf\<close>. Every function of a logger holds its mutex, so that it is one step.
\<close>

definition chars :: "string \<Rightarrow> bytes" where "chars s = map of_char s"

section \<open>Levels\<close>

datatype level = UNKNOW | DEBUG | INFO | WARN | ERROR | FATAL

fun level_value :: "level \<Rightarrow> nat" where
  "level_value UNKNOW = 0"
| "level_value DEBUG = 1"
| "level_value INFO = 2"
| "level_value WARN = 3"
| "level_value ERROR = 4"
| "level_value FATAL = 5"

lemma level_value_inj: "level_value a = level_value b \<longleftrightarrow> a = b"
  by (cases a; cases b) simp_all

instantiation level :: linorder
begin

definition "a \<le> b \<longleftrightarrow> level_value a \<le> level_value b"

definition "a < b \<longleftrightarrow> level_value a < level_value b"

instance
  by standard (auto simp: less_eq_level_def less_level_def level_value_inj)

end

fun level_ToString :: "level \<Rightarrow> bytes" where
  "level_ToString DEBUG = chars ''DEBUG''"
| "level_ToString INFO = chars ''INFO''"
| "level_ToString WARN = chars ''WARN''"
| "level_ToString ERROR = chars ''ERROR''"
| "level_ToString FATAL = chars ''FATAL''"
| "level_ToString UNKNOW = chars ''UNKNOWN''"

definition level_FromString :: "bytes \<Rightarrow> level" where
  "level_FromString s =
     (if s = chars ''debug'' then DEBUG else if s = chars ''info'' then INFO
      else if s = chars ''warn'' then WARN else if s = chars ''fatal'' then FATAL
      else if s = chars ''error'' then ERROR
      else if s = chars ''DEBUG'' then DEBUG else if s = chars ''INFO'' then INFO
      else if s = chars ''WARN'' then WARN else if s = chars ''ERROR'' then ERROR
      else if s = chars ''FATAL'' then FATAL else UNKNOW)"

section \<open>Events\<close>

record log_event =
  m_file :: bytes
  m_line :: int
  m_elapse :: u32
  m_threadId :: u32
  m_fiberId :: u32
  m_time :: u64
  m_threadName :: bytes
  m_ss :: bytes
  m_logger :: bytes
  m_level :: level


text \<open>\<open>printed\<close> is what \<^verbatim>\<open>vasprintf\<close> makes, \<open>None\<close> if it fails.\<close>

definition event_format :: "bytes option \<Rightarrow> log_event \<Rightarrow> log_event" where
  "event_format printed e = (case printed of Some s \<Rightarrow> e\<lparr>m_ss := m_ss e @ s\<rparr> | None \<Rightarrow> e)"

section \<open>Formatters\<close>

datatype format_item =
    MessageItem
  | LevelItem
  | ElapseItem
  | NameItem
  | ThreadIdItem
  | NewLineItem
  | DateTimeItem bytes
  | FilenameItem
  | LineItem
  | TabItem
  | FiberIdItem
  | ThreadNameItem
  | StringItem bytes

definition DateTimeFormatItem :: "bytes \<Rightarrow> format_item" where
  "DateTimeFormatItem format = DateTimeItem (if format = [] then chars ''%Y-%m-%d %H:%M:%S'' else format)"

fun item_format :: "(bytes \<Rightarrow> u64 \<Rightarrow> bytes) \<Rightarrow> bytes \<Rightarrow> level \<Rightarrow> log_event \<Rightarrow> format_item \<Rightarrow> bytes" where
  "item_format strftime name lev e MessageItem = m_ss e"
| "item_format strftime name lev e LevelItem = level_ToString lev"
| "item_format strftime name lev e ElapseItem = to_string (unat (m_elapse e))"
| "item_format strftime name lev e NameItem = name"
| "item_format strftime name lev e ThreadIdItem = to_string (unat (m_threadId e))"
| "item_format strftime name lev e NewLineItem = [10]"
| "item_format strftime name lev e (DateTimeItem f) = strftime f (m_time e)"
| "item_format strftime name lev e FilenameItem = m_file e"
| "item_format strftime name lev e LineItem = to_string_int (m_line e)"
| "item_format strftime name lev e TabItem = [9]"
| "item_format strftime name lev e FiberIdItem = to_string (unat (m_fiberId e))"
| "item_format strftime name lev e ThreadNameItem = []"
| "item_format strftime name lev e (StringItem s) = s"

record formatter =
  m_pattern :: bytes
  m_items :: "format_item list"
  m_error :: bool

definition formatter_format :: "(bytes \<Rightarrow> u64 \<Rightarrow> bytes) \<Rightarrow> bytes \<Rightarrow> level \<Rightarrow> log_event \<Rightarrow> formatter \<Rightarrow> bytes" where
  "formatter_format strftime name lev e f = concat (map (item_format strftime name lev e) (m_items f))"

subsection \<open>Patterns\<close>

definition isalpha :: "byte \<Rightarrow> bool" where
  "isalpha c \<longleftrightarrow> 65 \<le> c \<and> c \<le> 90 \<or> 97 \<le> c \<and> c \<le> 122"

text \<open>
  The inner loop, which reads an item that starts at \<open>i\<close>: \<open>status\<close> is \<^verbatim>\<open>fmt_status\<close>. The
  result is the position behind, the status, and the strings \<^verbatim>\<open>str\<close> and \<^verbatim>\<open>fmt\<close>.
\<close>

function scan_item :: "bytes \<Rightarrow> nat \<Rightarrow> nat \<Rightarrow> bool \<Rightarrow> nat \<Rightarrow> bytes \<Rightarrow> nat \<times> bool \<times> bytes \<times> bytes" where
  "scan_item pat i n status fmt_begin name =
     (if n < length pat then
        let c = pat ! n in
        if \<not> status \<and> \<not> isalpha c \<and> c \<noteq> 123 \<and> c \<noteq> 125 then (n, status, take (n - i - 1) (drop (i + 1) pat), [])
        else if \<not> status \<and> c = 123 then scan_item pat i (n + 1) True n (take (n - i - 1) (drop (i + 1) pat))
        else if status \<and> c = 125 then (n + 1, False, name, take (n - fmt_begin - 1) (drop (fmt_begin + 1) pat))
        else scan_item pat i (n + 1) status fmt_begin
               (if n + 1 = length pat \<and> name = [] then drop (i + 1) pat else name)
      else (n, status, name, []))"
  by pat_completeness auto
termination by (relation "measure (\<lambda>(pat, i, n, status, fmt_begin, name). length pat - n)") auto

declare scan_item.simps [simp del]

lemma scan_ge: "scan_item pat i n status b name = (n', r) \<Longrightarrow> n \<le> n'"
proof (induction pat i n status b name rule: scan_item.induct)
  case (1 pat i n status b name)
  then show ?case
    by (subst (asm) (3) scan_item.simps) (auto simp: Let_def split: if_splits)
qed

text \<open>The outer loop: the literal text so far, the pieces (text, format, whether it is an item) and the error flag.\<close>

type_synonym pattern_piece = "bytes \<times> bytes \<times> bool"

definition literal :: "bytes \<Rightarrow> pattern_piece list" where
  "literal s = (if s = [] then [] else [(s, [], False)])"

function parse_pattern :: "bytes \<Rightarrow> nat \<Rightarrow> bytes \<Rightarrow> pattern_piece list \<Rightarrow> bool \<Rightarrow> pattern_piece list \<times> bool" where
  "parse_pattern pat i nstr vec err =
     (if i < length pat then
        if pat ! i \<noteq> 37 then parse_pattern pat (i + 1) (nstr @ [pat ! i]) vec err
        else if i + 1 < length pat \<and> pat ! (i + 1) = 37 then parse_pattern pat (i + 1) (nstr @ [37]) vec err
        else (case scan_item pat i (i + 1) False 0 [] of (n, status, name, fmt) \<Rightarrow>
          if \<not> status then parse_pattern pat n [] (vec @ literal nstr @ [(name, fmt, True)]) err
          else parse_pattern pat (i + 1) nstr (vec @ [(chars ''<<pattern_error>>'', fmt, False)]) True)
      else (vec @ literal nstr, err))"
  by pat_completeness auto
termination
  by (relation "measure (\<lambda>(pat, i, nstr, vec, err). length pat - i)") (auto dest!: scan_ge [OF sym])

declare parse_pattern.simps [simp del]

definition s_format_items :: "(bytes \<times> (bytes \<Rightarrow> format_item)) list" where
  "s_format_items =
     [(chars ''m'', \<lambda>_. MessageItem), (chars ''p'', \<lambda>_. LevelItem), (chars ''r'', \<lambda>_. ElapseItem),
      (chars ''c'', \<lambda>_. NameItem), (chars ''t'', \<lambda>_. ThreadIdItem), (chars ''n'', \<lambda>_. NewLineItem),
      (chars ''d'', DateTimeFormatItem), (chars ''f'', \<lambda>_. FilenameItem), (chars ''l'', \<lambda>_. LineItem),
      (chars ''T'', \<lambda>_. TabItem), (chars ''F'', \<lambda>_. FiberIdItem), (chars ''N'', \<lambda>_. ThreadNameItem)]"

definition make_item :: "pattern_piece \<Rightarrow> format_item \<times> bool" where
  "make_item p = (case p of (s, fmt, is_item) \<Rightarrow>
     if \<not> is_item then (StringItem s, False)
     else (case map_of s_format_items s of
        None \<Rightarrow> (StringItem (chars ''<<error_format %'' @ s @ chars ''>>''), True)
      | Some mk \<Rightarrow> (mk fmt, False)))"

definition LogFormatter :: "bytes \<Rightarrow> formatter" where
  "LogFormatter pat = (case parse_pattern pat 0 [] [] False of (vec, err) \<Rightarrow>
     \<lparr>m_pattern = pat, m_items = map (fst \<circ> make_item) vec, m_error = (err \<or> list_ex (snd \<circ> make_item) vec)\<rparr>)"

section \<open>Loggers and appenders\<close>

datatype appender_kind = StdoutLogAppender | FileLogAppender

text \<open>
  \<open>m_filestream\<close> are the bytes an appender wrote to its file since it was last opened; every
  appender with a file has one of its own.
\<close>

record appender =
  kind :: appender_kind
  a_level :: level
  m_hasFormatter :: bool
  a_formatter :: "formatter option"
  m_lastTime :: u64
  m_filestream :: bytes
  is_open :: bool

record logger =
  m_name :: bytes
  l_level :: level
  m_appenders :: "nat list"
  m_formatter :: formatter
  has_root :: bool

record log_world =
  m_loggers :: "(bytes \<times> logger) list"
  appenders :: "appender list"
  stdout :: bytes

definition Logger :: "bytes \<Rightarrow> logger" where
  "Logger name = \<lparr>m_name = name, l_level = DEBUG, m_appenders = [],
     m_formatter = LogFormatter (chars ''%d{%Y-%m-%d  %H:%M:%S }%T%t%T%F%T[%p]%T[%c]%T%f:%l%T%m%n''), has_root = False\<rparr>"

definition new_appender :: "appender_kind \<Rightarrow> appender" where
  "new_appender k = \<lparr>kind = k, a_level = DEBUG, m_hasFormatter = False, a_formatter = None, m_lastTime = 0,
     m_filestream = [], is_open = False\<rparr>"

text \<open>\<open>reopen\<close> truncates the file it opens; \<open>ok\<close> tells whether the file could be opened.\<close>

definition reopen :: "bool \<Rightarrow> appender \<Rightarrow> appender" where
  "reopen ok a = a\<lparr>m_filestream := (if ok then [] else m_filestream a), is_open := ok\<rparr>"

definition make_FileLogAppender :: "bool \<Rightarrow> appender" where
  "make_FileLogAppender ok = reopen ok (new_appender FileLogAppender)"

definition appender_setFormatter :: "formatter option \<Rightarrow> appender \<Rightarrow> appender" where
  "appender_setFormatter f a = a\<lparr>a_formatter := f\<rparr>"

abbreviation the_logger :: "log_world \<Rightarrow> bytes \<Rightarrow> logger option" where
  "the_logger w name \<equiv> map_of (m_loggers w) name"

definition set_logger :: "bytes \<Rightarrow> logger \<Rightarrow> log_world \<Rightarrow> log_world" where
  "set_logger name l w = w\<lparr>m_loggers := map (\<lambda>(n, k). (n, if n = name then l else k)) (m_loggers w)\<rparr>"

definition set_appender :: "nat \<Rightarrow> appender \<Rightarrow> log_world \<Rightarrow> log_world" where
  "set_appender i a w = w\<lparr>appenders := (appenders w)[i := a]\<rparr>"

text \<open>A missing logger, appender or formatter is a null pointer, and the process ends.\<close>

definition addAppender :: "bytes \<Rightarrow> nat \<Rightarrow> log_world \<Rightarrow> log_world option" where
  "addAppender name i w = do {
     l \<leftarrow> the_logger w name;
     assert_that (i < length (appenders w));
     let a = appenders w ! i;
     let w = (if a_formatter a = None then set_appender i (a\<lparr>a_formatter := Some (m_formatter l)\<rparr>) w else w);
     Some (set_logger name (l\<lparr>m_appenders := m_appenders l @ [i]\<rparr>) w)
   }"

definition delAppender :: "bytes \<Rightarrow> nat \<Rightarrow> log_world \<Rightarrow> log_world option" where
  "delAppender name i w = do {
     l \<leftarrow> the_logger w name;
     Some (set_logger name (l\<lparr>m_appenders := remove1 i (m_appenders l)\<rparr>) w)
   }"

definition clearAppenders :: "bytes \<Rightarrow> log_world \<Rightarrow> log_world option" where
  "clearAppenders name w = do {
     l \<leftarrow> the_logger w name;
     Some (set_logger name (l\<lparr>m_appenders := []\<rparr>) w)
   }"

definition setLevel :: "bytes \<Rightarrow> level \<Rightarrow> log_world \<Rightarrow> log_world option" where
  "setLevel name lev w = do {
     l \<leftarrow> the_logger w name;
     Some (set_logger name (l\<lparr>l_level := lev\<rparr>) w)
   }"

definition setFormatter_one :: "formatter \<Rightarrow> nat \<Rightarrow> log_world \<Rightarrow> log_world option" where
  "setFormatter_one f i w = do {
     assert_that (i < length (appenders w));
     let a = appenders w ! i;
     Some (if \<not> m_hasFormatter a then set_appender i (a\<lparr>a_formatter := Some f\<rparr>) w else w)
   }"

definition setFormatter :: "bytes \<Rightarrow> formatter \<Rightarrow> log_world \<Rightarrow> log_world option" where
  "setFormatter name f w = do {
     l \<leftarrow> the_logger w name;
     for_each (setFormatter_one f) (m_appenders l) (set_logger name (l\<lparr>m_formatter := f\<rparr>) w)
   }"

definition print_out :: "bytes \<Rightarrow> log_world \<Rightarrow> log_world" where
  "print_out s w = w\<lparr>stdout := stdout w @ s\<rparr>"

definition setFormatter_pattern :: "bytes \<Rightarrow> bytes \<Rightarrow> log_world \<Rightarrow> log_world option" where
  "setFormatter_pattern name val w = do {
     l \<leftarrow> the_logger w name;
     let w = print_out (chars ''---'' @ val @ [10]) w;
     let f = LogFormatter val;
     if m_error f
     then Some (print_out (chars ''Logger setFormatter name ='' @ m_name l @ chars '' value ='' @ val
                 @ chars ''invalid formatter'' @ [10]) w)
     else setFormatter name f w
   }"

section \<open>Logging\<close>

definition appender_log ::
  "(bytes \<Rightarrow> u64 \<Rightarrow> bytes) \<Rightarrow> bytes \<Rightarrow> level \<Rightarrow> log_event \<Rightarrow> nat \<Rightarrow> log_world \<Rightarrow> log_world option" where
  "appender_log strftime name lev e i w = do {
     assert_that (i < length (appenders w));
     let a = appenders w ! i;
     if lev < a_level a then Some w
     else do {
       f \<leftarrow> a_formatter a;
       let s = formatter_format strftime name lev e f;
       case kind a of
         StdoutLogAppender \<Rightarrow> Some (print_out s w)
       | FileLogAppender \<Rightarrow>
           let a = (if m_lastTime a + 3 \<le> m_time e then a\<lparr>m_lastTime := m_time e\<rparr> else a) in
           if is_open a then Some (set_appender i (a\<lparr>m_filestream := m_filestream a @ s\<rparr>) w)
           else Some (print_out (chars ''error'' @ [10]) (set_appender i a w))
     }
   }"

definition root_name :: bytes where "root_name = chars ''root''"

text \<open>The logger that the manager calls its root has no root itself, so that the call does not go further.\<close>

definition log_own ::
  "(bytes \<Rightarrow> u64 \<Rightarrow> bytes) \<Rightarrow> logger \<Rightarrow> level \<Rightarrow> log_event \<Rightarrow> log_world \<Rightarrow> log_world option" where
  "log_own strftime l lev e w = for_each (appender_log strftime (m_name l) lev e) (m_appenders l) w"

definition Logger_log ::
  "(bytes \<Rightarrow> u64 \<Rightarrow> bytes) \<Rightarrow> bytes \<Rightarrow> level \<Rightarrow> log_event \<Rightarrow> log_world \<Rightarrow> log_world option" where
  "Logger_log strftime name lev e w = do {
     l \<leftarrow> the_logger w name;
     if l_level l \<le> lev then
       if m_appenders l \<noteq> [] then log_own strftime l lev e w
       else if has_root l then do {
         r \<leftarrow> the_logger w root_name;
         if l_level r \<le> lev then log_own strftime r lev e w else Some w
       } else Some w
     else Some w
   }"

text \<open>The end of a \<^verbatim>\<open>LogEventWrap\<close>.\<close>

definition LogEventWrap_end :: "(bytes \<Rightarrow> u64 \<Rightarrow> bytes) \<Rightarrow> log_event \<Rightarrow> log_world \<Rightarrow> log_world option" where
  "LogEventWrap_end strftime e w = Logger_log strftime (m_logger e) (log_event.m_level e) e w"

section \<open>The manager\<close>


definition getLogger :: "bytes \<Rightarrow> log_world \<Rightarrow> log_world" where
  "getLogger name w =
     (if the_logger w name \<noteq> None then w
      else w\<lparr>m_loggers := (name, Logger name\<lparr>has_root := True\<rparr>) # m_loggers w\<rparr>)"

section \<open>What a pattern means\<close>

datatype piece = Text bytes | Item byte "bytes option"

fun show_piece :: "piece \<Rightarrow> bytes" where
  "show_piece (Text s) = s"
| "show_piece (Item k None) = [37, k]"
| "show_piece (Item k (Some f)) = 37 # k # 123 # f @ [125]"

definition show_pieces :: "piece list \<Rightarrow> bytes" where "show_pieces ps = concat (map show_piece ps)"

text \<open>What may stand behind an item without a format.\<close>

definition ends_name :: "bytes \<Rightarrow> bool" where
  "ends_name s \<longleftrightarrow> (case s of [] \<Rightarrow> True | c # _ \<Rightarrow> \<not> isalpha c \<and> c \<noteq> 123 \<and> c \<noteq> 125)"

fun is_text :: "piece list \<Rightarrow> bool" where
  "is_text (Text s # ps) = True"
| "is_text _ = False"

definition item_letters :: "byte list" where
  "item_letters = [109, 112, 114, 99, 116, 110, 100, 102, 108, 84, 70, 78]"

fun pieces_ok :: "piece list \<Rightarrow> bool" where
  "pieces_ok [] \<longleftrightarrow> True"
| "pieces_ok (Text s # ps) \<longleftrightarrow> s \<noteq> [] \<and> 37 \<notin> set s \<and> \<not> is_text ps \<and> pieces_ok ps"
| "pieces_ok (Item k None # ps) \<longleftrightarrow> k \<in> set item_letters \<and> ends_name (show_pieces ps) \<and> pieces_ok ps"
| "pieces_ok (Item k (Some f) # ps) \<longleftrightarrow> k \<in> set item_letters \<and> 125 \<notin> set f \<and> pieces_ok ps"

fun piece_of :: "piece \<Rightarrow> pattern_piece" where
  "piece_of (Text s) = (s, [], False)"
| "piece_of (Item k f) = ([k], case f of None \<Rightarrow> [] | Some s \<Rightarrow> s, True)"

definition fmt_of :: "bytes option \<Rightarrow> bytes" where
  "fmt_of f = (case f of None \<Rightarrow> [] | Some s \<Rightarrow> s)"

text \<open>The item that a piece stands for.\<close>

fun meaning :: "piece \<Rightarrow> format_item" where
  "meaning (Text s) = StringItem s"
| "meaning (Item k f) =
     (if k = 109 then MessageItem else if k = 112 then LevelItem else if k = 114 then ElapseItem
      else if k = 99 then NameItem else if k = 116 then ThreadIdItem else if k = 110 then NewLineItem
      else if k = 100 then DateTimeFormatItem (fmt_of f) else if k = 102 then FilenameItem
      else if k = 108 then LineItem else if k = 84 then TabItem else if k = 70 then FiberIdItem
      else ThreadNameItem)"

lemma letter_is_alpha: "k \<in> set item_letters \<Longrightarrow> isalpha k"
  by (auto simp: item_letters_def isalpha_def)

lemma letter_item: "k \<in> set item_letters \<Longrightarrow> make_item ([k], fmt_of f, True) = (meaning (Item k f), False)"
  by (auto simp: item_letters_def make_item_def s_format_items_def chars_def)

lemma scan_name:
  assumes "pat = pre @ 37 # k # rest" and "isalpha k" and "ends_name rest"
  shows "scan_item pat (length pre) (length pre + 1) False 0 [] = (length pre + 2, False, [k], [])"
proof -
  have k: "pat ! (length pre + 1) = k" "length pre + 1 < length pat" "drop (length pre + 1) pat = k # rest"
    using assms(1) by (simp_all add: nth_append)
  have k': "k \<noteq> 123" "k \<noteq> 125" using assms(2) by (auto simp: isalpha_def)
  show ?thesis
  proof (cases rest)
    case Nil
    then show ?thesis using k k' assms(1,2) by (subst scan_item.simps, subst scan_item.simps) (simp add: Let_def)
  next
    case (Cons c cs)
    have "pat ! (length pre + 2) = c" "length pre + 2 < length pat" using assms(1) Cons by (simp_all add: nth_append)
    moreover have "\<not> isalpha c" "c \<noteq> 123" "c \<noteq> 125" using assms(3) Cons by (auto simp: ends_name_def)
    ultimately show ?thesis
      using k k' assms(1,2) Cons by (subst scan_item.simps, subst scan_item.simps) (simp add: Let_def)
  qed
qed

lemma scan_fmt:
  "pat = pre @ f @ 125 # rest \<Longrightarrow> 125 \<notin> set f \<Longrightarrow> name \<noteq> [] \<Longrightarrow>
    scan_item pat i (length pre) True b name =
      (length pre + length f + 1, False, name, take (length pre + length f - b - 1) (drop (b + 1) pat))"
proof (induction f arbitrary: pre)
  case Nil
  then show ?case by (subst scan_item.simps) (simp add: Let_def nth_append)
next
  case (Cons c f)
  have "scan_item pat i (length (pre @ [c])) True b name =
      (length (pre @ [c]) + length f + 1, False, name, take (length (pre @ [c]) + length f - b - 1) (drop (b + 1) pat))"
    using Cons.prems by (intro Cons.IH) simp_all
  moreover have "pat ! length pre = c" "length pre < length pat" "c \<noteq> 125" using Cons.prems by (simp_all add: nth_append)
  ultimately show ?case using Cons.prems(3) by (subst scan_item.simps) (simp add: Let_def)
qed

lemma scan_format:
  assumes "pat = pre @ 37 # k # 123 # f @ 125 # rest" and "isalpha k" and "125 \<notin> set f"
  shows "scan_item pat (length pre) (length pre + 1) False 0 [] = (length pre + 4 + length f, False, [k], f)"
proof -
  have k: "pat ! (length pre + 1) = k" "length pre + 2 < length pat" "pat ! (length pre + 2) = 123"
    "drop (length pre + 1) pat = k # 123 # f @ 125 # rest" "drop (length pre + 3) pat = f @ 125 # rest"
    using assms(1) by (simp_all add: nth_append eval_nat_numeral)
  have k': "k \<noteq> 123" "k \<noteq> 125" using assms(2) by (auto simp: isalpha_def)
  have "scan_item pat (length pre) (length (pre @ [37, k, 123])) True (length pre + 2) [k] =
      (length (pre @ [37, k, 123]) + length f + 1, False, [k],
       take (length (pre @ [37, k, 123]) + length f - (length pre + 2) - 1) (drop (length pre + 2 + 1) pat))"
    using assms by (intro scan_fmt) simp_all
  then have f: "scan_item pat (length pre) (length pre + 3) True (length pre + 2) [k] = (length pre + 4 + length f, False, [k], f)"
    using k(5) by (simp add: eval_nat_numeral)
  have b: "\<not> isalpha 123" by (simp add: isalpha_def)
  have "scan_item pat (length pre) (length pre + 2) False 0 [] = scan_item pat (length pre) (length pre + 3) True (length pre + 2) [k]"
    using k b by (subst scan_item.simps) (simp add: Let_def eval_nat_numeral)
  moreover have "scan_item pat (length pre) (length pre + 1) False 0 [] = scan_item pat (length pre) (length pre + 2) False 0 []"
    using k k' assms(2) by (subst scan_item.simps) (simp add: Let_def)
  ultimately show ?thesis using f by simp
qed

lemma parse_text:
  "pat = pre @ s @ rest \<Longrightarrow> 37 \<notin> set s \<Longrightarrow>
    parse_pattern pat (length pre) nstr vec err = parse_pattern pat (length pre + length s) (nstr @ s) vec err"
proof (induction s arbitrary: pre nstr)
  case Nil
  then show ?case by simp
next
  case (Cons c s)
  have "parse_pattern pat (length (pre @ [c])) (nstr @ [c]) vec err =
      parse_pattern pat (length (pre @ [c]) + length s) ((nstr @ [c]) @ s) vec err"
    using Cons.prems by (intro Cons.IH) simp_all
  moreover have "pat ! length pre = c" "length pre < length pat" "c \<noteq> 37" using Cons.prems by (auto simp: nth_append)
  ultimately show ?case by (subst parse_pattern.simps) simp
qed

lemma letter_not_percent: "k \<in> set item_letters \<Longrightarrow> k \<noteq> 37"
  by (auto simp: item_letters_def)

lemma parse_pieces:
  "pat = pre @ show_pieces ps \<Longrightarrow> pieces_ok ps \<Longrightarrow> nstr \<noteq> [] \<longrightarrow> \<not> is_text ps \<Longrightarrow>
    parse_pattern pat (length pre) nstr vec err = (vec @ literal nstr @ map piece_of ps, err)"
proof (induction ps arbitrary: pre nstr vec)
  case Nil
  then show ?case by (subst parse_pattern.simps) (simp add: show_pieces_def)
next
  case (Cons p ps)
  show ?case
  proof (cases p)
    case (Text s)
    then have s: "s \<noteq> []" "37 \<notin> set s" "\<not> is_text ps" "pieces_ok ps" "nstr = []" using Cons.prems by auto
    have pat: "pat = pre @ s @ show_pieces ps" using Cons.prems(1) Text by (simp add: show_pieces_def)
    have "parse_pattern pat (length (pre @ s)) s vec err = (vec @ literal s @ map piece_of ps, err)"
      using pat s by (intro Cons.IH) simp_all
    then show ?thesis using parse_text [OF pat s(2), of "[]" vec err] s(1,5) by (simp add: Text literal_def)
  next
    case (Item k f)
    have k: "k \<in> set item_letters" "pieces_ok ps" using Cons.prems(2) Item by (cases f; simp)+
    note ka = letter_is_alpha [OF k(1)] and kp = letter_not_percent [OF k(1)]
    have pat: "pat = pre @ 37 # k # (case f of None \<Rightarrow> [] | Some s \<Rightarrow> 123 # s @ [125]) @ show_pieces ps"
      using Cons.prems(1) Item by (cases f) (simp_all add: show_pieces_def)
    have c: "length pre < length pat" "pat ! length pre = 37" "pat ! (length pre + 1) \<noteq> 37"
      using kp by (simp_all add: pat nth_append)
    have sc: "scan_item pat (length pre) (length pre + 1) False 0 [] =
        (length (pre @ show_piece p), False, [k], case f of None \<Rightarrow> [] | Some s \<Rightarrow> s)"
    proof (cases f)
      case None
      then show ?thesis using scan_name [of pat pre k "show_pieces ps"] pat ka Cons.prems(2) Item by simp
    next
      case (Some s)
      then show ?thesis using scan_format [of pat pre k s "show_pieces ps"] pat ka Cons.prems(2) Item by simp
    qed
    have "parse_pattern pat (length (pre @ show_piece p)) [] (vec @ literal nstr @ [piece_of p]) err =
        ((vec @ literal nstr @ [piece_of p]) @ literal [] @ map piece_of ps, err)"
      using Cons.prems(1) k(2) by (intro Cons.IH) (simp_all add: show_pieces_def)
    then show ?thesis using c sc Item by (subst parse_pattern.simps) (simp add: literal_def)
  qed
qed

lemma make_item_piece: "pieces_ok ps \<Longrightarrow> map make_item (map piece_of ps) = map (\<lambda>p. (meaning p, False)) ps"
proof (induction ps)
  case (Cons p ps)
  then have "pieces_ok ps" by (cases p rule: show_piece.cases) simp_all
  moreover have "make_item (piece_of p) = (meaning p, False)"
  proof (cases p)
    case (Text s)
    then show ?thesis by (simp add: make_item_def)
  next
    case (Item k f)
    have e: "piece_of (Item k f) = ([k], fmt_of f, True)" by (simp add: fmt_of_def)
    have "k \<in> set item_letters" using Cons.prems Item by (cases f) simp_all
    then show ?thesis unfolding Item e by (rule letter_item)
  qed
  ultimately show ?case using Cons.IH by simp
qed simp

text \<open>
  C27: A pattern of texts and items is read as it was written: the formatter has one entry for each, in
  order, and no error.
\<close>

theorem pattern_roundtrip:
  assumes "pieces_ok ps"
  shows "LogFormatter (show_pieces ps) = \<lparr>m_pattern = show_pieces ps, m_items = map meaning ps, m_error = False\<rparr>"
proof -
  have "parse_pattern (show_pieces ps) 0 [] [] False = (map piece_of ps, False)"
    using parse_pieces [of "show_pieces ps" "[]" ps "[]" "[]" False] assms by (simp add: literal_def)
  moreover have "map (fst \<circ> make_item) (map piece_of ps) = map meaning ps" "\<not> list_ex (snd \<circ> make_item) (map piece_of ps)"
    using make_item_piece [OF assms] by (auto simp: list_ex_iff map_eq_conv)
  ultimately show ?thesis by (simp add: LogFormatter_def)
qed

theorem pattern_roundtrip_witness:
  "m_items (LogFormatter (chars ''%d{%H:%M}%T[%p] %m%n'')) =
     [DateTimeItem (chars ''%H:%M''), TabItem, StringItem (chars ''[''), LevelItem, StringItem (chars ''] ''), MessageItem, NewLineItem]"
  using pattern_roundtrip [of "[Item 100 (Some (chars ''%H:%M'')), Item 84 None, Text (chars ''[''), Item 112 None,
     Text (chars ''] ''), Item 109 None, Item 110 None]"]
  by (simp add: chars_def show_pieces_def ends_name_def isalpha_def item_letters_def fmt_of_def DateTimeFormatItem_def)

text \<open>Two percent signs put one into the text, but the second also begins an item.\<close>

lemma percent_twice: "m_items (LogFormatter (chars ''%%m'')) = [StringItem (chars ''%''), MessageItem]"
  by (simp add: LogFormatter_def parse_pattern.simps scan_item.simps chars_def isalpha_def literal_def make_item_def
      s_format_items_def)

section \<open>Where an event goes\<close>

datatype log_op =
    Get_logger bytes
  | New_stdout
  | New_file bool
  | Add_appender bytes nat
  | Del_appender bytes nat
  | Clear_appenders bytes
  | Set_level bytes level
  | Set_pattern bytes bytes
  | Set_formatter bytes formatter
  | Set_own_formatter nat formatter
  | Reopen nat bool
  | Log_event log_event

fun log_step :: "(bytes \<Rightarrow> u64 \<Rightarrow> bytes) \<Rightarrow> log_op \<Rightarrow> log_world \<Rightarrow> log_world option" where
  "log_step strftime (Get_logger name) w = Some (getLogger name w)"
| "log_step strftime New_stdout w = Some (w\<lparr>appenders := appenders w @ [new_appender StdoutLogAppender]\<rparr>)"
| "log_step strftime (New_file ok) w = Some (w\<lparr>appenders := appenders w @ [make_FileLogAppender ok]\<rparr>)"
| "log_step strftime (Add_appender name i) w = addAppender name i w"
| "log_step strftime (Del_appender name i) w = delAppender name i w"
| "log_step strftime (Clear_appenders name) w = clearAppenders name w"
| "log_step strftime (Set_level name lev) w = setLevel name lev w"
| "log_step strftime (Set_pattern name pat) w = setFormatter_pattern name pat w"
| "log_step strftime (Set_formatter name f) w = setFormatter name f w"
| "log_step strftime (Set_own_formatter i f) w = do {
     assert_that (i < length (appenders w));
     Some (set_appender i (appender_setFormatter (Some f) (appenders w ! i)) w)
   }"
| "log_step strftime (Reopen i ok) w = do {
     assert_that (i < length (appenders w));
     Some (set_appender i (reopen ok (appenders w ! i)) w)
   }"
| "log_step strftime (Log_event e) w = LogEventWrap_end strftime e w"











lemma set_logger_appenders [simp]: "appenders (set_logger n l w) = appenders w" "stdout (set_logger n l w) = stdout w"
  by (simp_all add: set_logger_def)

lemma set_appender_simps [simp]:
  "m_loggers (set_appender i a w) = m_loggers w" "appenders (set_appender i a w) = (appenders w)[i := a]"
  "stdout (set_appender i a w) = stdout w"
  by (simp_all add: set_appender_def)

lemma print_out_simps [simp]:
  "m_loggers (print_out s w) = m_loggers w" "appenders (print_out s w) = appenders w" "stdout (print_out s w) = stdout w @ s"
  by (simp_all add: print_out_def)

















text \<open>
  Nothing checks a formatter for null: with one, an appender ends the process at the next event that it
  admits, which is why the calls above exclude it.
\<close>

lemma null_formatter_aborts:
  "i < length (appenders w) \<Longrightarrow> a_level (appenders w ! i) \<le> lev \<Longrightarrow>
   appender_log strftime name lev e i (set_appender i (appender_setFormatter None (appenders w ! i)) w) = None"
  by (auto simp: appender_log_def appender_setFormatter_def Let_def)


text \<open>
  An appender's own formatter is replaced when its logger gets one, since nothing sets
  \<^verbatim>\<open>m_hasFormatter\<close>.
\<close>

lemma own_formatter_is_replaced:
  assumes "the_logger w name = Some l" and "m_appenders l = [i]" and "appenders w ! i = new_appender k" and "i < length (appenders w)"
  shows "\<exists>w1 w2. log_step strftime (Set_own_formatter i own) w = Some w1 \<and> setFormatter name f w1 = Some w2
    \<and> a_formatter (appenders w1 ! i) = Some own \<and> a_formatter (appenders w2 ! i) = Some f"
  using assms
  by (simp add: setFormatter_def setFormatter_one_def appender_setFormatter_def new_appender_def Let_def)

end
