(* ===== verification/BTree.thy ===== *)
theory BTree
  imports Prelude "HOL-Library.Multiset"
begin

text \<open>
  \<^verbatim>\<open>base/tree.h\<close> and \<^verbatim>\<open>base/btree.h/.cc\<close>: B-trees of integers with nodes of at most
  three keys. A node is only reachable from its parent, so a node with its children is a value, and a
  function that changes nodes returns them; what lies in the arrays behind the last key and the last
  child, which the code leaves as it was, is kept. A read or write outside of an array and a null
  pointer that is followed abort. Allocation succeeds. \<^verbatim>\<open>Save\<close> does nothing.
\<close>

section \<open>Nodes\<close>

definition M :: int where "M = 2"

datatype node = Node (node_k: "int list") (node_p: "node option list") (num: int) (isLeaf: bool)

definition NewNode :: node where
  "NewNode = Node (replicate (nat (2 * M - 1)) 0) (replicate (nat (2 * M)) None) 0 True"

definition BTreeCreate :: node where "BTreeCreate = NewNode"

definition at :: "'a list \<Rightarrow> int \<Rightarrow> 'a option" where
  "at xs i = (if 0 \<le> i \<and> i < int (length xs) then Some (xs ! nat i) else None)"

definition put_item :: "'a list \<Rightarrow> int \<Rightarrow> 'a \<Rightarrow> 'a list option" where
  "put_item xs i v = (if 0 \<le> i \<and> i < int (length xs) then Some (xs[nat i := v]) else None)"

definition copy_item :: "'a list \<Rightarrow> int \<Rightarrow> 'a list \<Rightarrow> int \<Rightarrow> 'a list option" where
  "copy_item from i to j = do { v \<leftarrow> at from i; put_item to j v }"

definition child_at :: "node \<Rightarrow> int \<Rightarrow> node option" where
  "child_at t i = do { c \<leftarrow> at (node_p t) i; c }"

text \<open>A child is changed through its pointer.\<close>

definition set_child :: "int \<Rightarrow> node \<Rightarrow> node \<Rightarrow> node option" where
  "set_child i c t = do {
     ps \<leftarrow> put_item (node_p t) i (Some c);
     Some (Node (node_k t) ps (num t) (isLeaf t))
   }"

definition set_key :: "int \<Rightarrow> int \<Rightarrow> node \<Rightarrow> node option" where
  "set_key i v t = do {
     ks \<leftarrow> put_item (node_k t) i v;
     Some (Node ks (node_p t) (num t) (isLeaf t))
   }"

section \<open>Insertion\<close>

text \<open>\<^verbatim>\<open>child\<close> is the child of \<^verbatim>\<open>parent\<close> at \<^verbatim>\<open>pos\<close>.\<close>

definition BTreeSplitChild :: "node \<Rightarrow> int \<Rightarrow> node \<Rightarrow> node option" where
  "BTreeSplitChild parent pos child = do {
     ks \<leftarrow> for_each (\<lambda>i ks. copy_item (node_k child) (i + M) ks i) [0..M - 2] (node_k NewNode);
     ps \<leftarrow> (if \<not> isLeaf child
           then for_each (\<lambda>i ps. copy_item (node_p child) (i + M) ps i) [0..M - 1] (node_p NewNode)
           else Some (node_p NewNode));
     let new_child = Node ks ps (M - 1) (isLeaf child);
     let child = Node (node_k child) (node_p child) (M - 1) (isLeaf child);
     pp \<leftarrow> put_item (node_p parent) pos (Some child);
     pp \<leftarrow> for_each (\<lambda>i pp. copy_item pp i pp (i + 1)) (rev [pos + 1..num parent]) pp;
     pp \<leftarrow> put_item pp (pos + 1) (Some new_child);
     pk \<leftarrow> for_each (\<lambda>i pk. copy_item pk i pk (i + 1)) (rev [pos..num parent - 1]) (node_k parent);
     pk \<leftarrow> copy_item (node_k child) (M - 1) pk pos;
     Some (Node pk pp (num parent + 1) (isLeaf parent))
   }"

text \<open>The loop in a leaf: keys greater than the target move up.\<close>

function shift_keys :: "int \<Rightarrow> int \<Rightarrow> int list \<Rightarrow> (int \<times> int list) option" where
  "shift_keys target pos ks =
     (if 1 \<le> pos then do {
        v \<leftarrow> at ks (pos - 1);
        if target < v then do { ks \<leftarrow> put_item ks pos v; shift_keys target (pos - 1) ks } else Some (pos, ks)
      } else Some (pos, ks))"
  by pat_completeness auto
termination by (relation "measure (\<lambda>(target, pos, ks). nat pos)") auto

function down_pos :: "int \<Rightarrow> int \<Rightarrow> int list \<Rightarrow> int option" where
  "down_pos target pos ks =
     (if 0 < pos then do {
        v \<leftarrow> at ks (pos - 1);
        if target < v then down_pos target (pos - 1) ks else Some pos
      } else Some pos)"
  by pat_completeness auto
termination by (relation "measure (\<lambda>(target, pos, ks). nat pos)") auto

declare shift_keys.simps [simp del] down_pos.simps [simp del]

text \<open>The second component is \<^verbatim>\<open>node_num_\<close>.\<close>

partial_function (option) BTreeInsertNonfull :: "int \<Rightarrow> node \<times> int \<Rightarrow> (node \<times> int) option" where
  "BTreeInsertNonfull target x =
     (case x of (t, counter) \<Rightarrow>
        if isLeaf t then do {
          y \<leftarrow> shift_keys target (num t) (node_k t);
          ks \<leftarrow> put_item (snd y) (fst y) target;
          Some (Node ks (node_p t) (num t + 1) (isLeaf t), counter + 1)
        } else do {
          pos \<leftarrow> down_pos target (num t) (node_k t);
          child \<leftarrow> child_at t pos;
          y \<leftarrow> (if num child = 2 * M - 1 then do {
                 t \<leftarrow> BTreeSplitChild t pos child;
                 v \<leftarrow> at (node_k t) pos;
                 Some (t, if v < target then pos + 1 else pos)
               } else Some (t, pos));
          child \<leftarrow> child_at (fst y) (snd y);
          z \<leftarrow> BTreeInsertNonfull target (child, counter);
          t \<leftarrow> set_child (snd y) (fst z) (fst y);
          Some (t, snd z)
        })"

definition BTreeInsert :: "int \<Rightarrow> node \<times> int \<Rightarrow> (node \<times> int) option" where
  "BTreeInsert target x =
     (case x of (root, counter) \<Rightarrow>
        if num root = 2 * M - 1 then do {
          let t = Node (node_k NewNode) (node_p NewNode) (num NewNode) False;
          t \<leftarrow> set_child 0 root t;
          t \<leftarrow> BTreeSplitChild t 0 root;
          BTreeInsertNonfull target (t, counter)
        } else BTreeInsertNonfull target (root, counter))"

section \<open>Deletion\<close>

text \<open>
  In the calls of the next three functions \<open>y\<close> and \<open>z\<close> are the children of \<open>root\<close> at
  \<open>pos\<close> and \<open>pos + 1\<close>. Merging also returns the merged node, since its parent may be freed.
\<close>

definition BTreeMergeChild :: "node \<Rightarrow> int \<Rightarrow> node \<Rightarrow> node \<Rightarrow> (node \<times> node) option" where
  "BTreeMergeChild root pos y z = do {
     ks \<leftarrow> for_each (\<lambda>i ks. copy_item (node_k z) (i - M) ks i) [M..2 * M - 2] (node_k y);
     ks \<leftarrow> copy_item (node_k root) pos ks (M - 1);
     ps \<leftarrow> (if \<not> isLeaf z then for_each (\<lambda>i ps. copy_item (node_p z) (i - M) ps i) [M..2 * M - 1] (node_p y)
           else Some (node_p y));
     let y = Node ks ps (2 * M - 1) (isLeaf y);
     rk \<leftarrow> for_each (\<lambda>j rk. copy_item rk j rk (j - 1)) [pos + 1..num root - 1] (node_k root);
     rp \<leftarrow> put_item (node_p root) pos (Some y);
     rp \<leftarrow> for_each (\<lambda>j rp. copy_item rp (j + 1) rp j) [pos + 1..num root - 1] rp;
     Some (Node rk rp (num root - 1) (isLeaf root), y)
   }"

definition BTreeShiftToRightChild :: "node \<Rightarrow> int \<Rightarrow> node \<Rightarrow> node \<Rightarrow> node option" where
  "BTreeShiftToRightChild root pos y z = do {
     let n = num z + 1;
     zk \<leftarrow> for_each (\<lambda>i zk. copy_item zk (i - 1) zk i) (rev [1..n - 1]) (node_k z);
     zk \<leftarrow> copy_item (node_k root) pos zk 0;
     rk \<leftarrow> copy_item (node_k y) (num y - 1) (node_k root) pos;
     zp \<leftarrow> (if \<not> isLeaf z then do {
             zp \<leftarrow> for_each (\<lambda>i zp. copy_item zp (i - 1) zp i) (rev [1..n]) (node_p z);
             copy_item (node_p y) (num y) zp 0
           } else Some (node_p z));
     root \<leftarrow> set_child pos (Node (node_k y) (node_p y) (num y - 1) (isLeaf y))
               (Node rk (node_p root) (num root) (isLeaf root));
     set_child (pos + 1) (Node zk zp n (isLeaf z)) root
   }"

definition BTreeShiftToLeftChild :: "node \<Rightarrow> int \<Rightarrow> node \<Rightarrow> node \<Rightarrow> node option" where
  "BTreeShiftToLeftChild root pos y z = do {
     let n = num y + 1;
     yk \<leftarrow> copy_item (node_k root) pos (node_k y) (n - 1);
     rk \<leftarrow> copy_item (node_k z) 0 (node_k root) pos;
     zk \<leftarrow> for_each (\<lambda>j zk. copy_item zk j zk (j - 1)) [1..num z - 1] (node_k z);
     yp \<leftarrow> (if \<not> isLeaf z then copy_item (node_p z) 0 (node_p y) n else Some (node_p y));
     zp \<leftarrow> (if \<not> isLeaf z then for_each (\<lambda>j zp. copy_item zp j zp (j - 1)) [1..num z] (node_p z)
           else Some (node_p z));
     root \<leftarrow> set_child pos (Node yk yp n (isLeaf y)) (Node rk (node_p root) (num root) (isLeaf root));
     set_child (pos + 1) (Node zk zp (num z - 1) (isLeaf z)) root
   }"

partial_function (option) BTreeSearchPredecessor :: "node \<Rightarrow> int option" where
  "BTreeSearchPredecessor y =
     (if isLeaf y then at (node_k y) (num y - 1)
      else do { c \<leftarrow> child_at y (num y); BTreeSearchPredecessor c })"

partial_function (option) BTreeSearchSuccessor :: "node \<Rightarrow> int option" where
  "BTreeSearchSuccessor z =
     (if isLeaf z then at (node_k z) 0 else do { c \<leftarrow> child_at z 0; BTreeSearchSuccessor c })"

function up_pos :: "int \<Rightarrow> int \<Rightarrow> int \<Rightarrow> int list \<Rightarrow> int option" where
  "up_pos target i n ks =
     (if i < n then do {
        v \<leftarrow> at ks i;
        if v < target then up_pos target (i + 1) n ks else Some i
      } else Some i)"
  by pat_completeness auto
termination by (relation "measure (\<lambda>(target, i, n, ks). nat (n - i))") auto

declare up_pos.simps [simp del]

text \<open>
  Before it descends to the child \<open>y\<close> at \<open>i\<close>, the code sees to it that the child has more than
  \<open>M - 1\<close> keys; the result has the position of the child, which a merge to the left moves.
\<close>

definition fill_child :: "node \<Rightarrow> int \<Rightarrow> node \<Rightarrow> (node \<times> int) option" where
  "fill_child root i y =
     (if num y = M - 1 then do {
       left \<leftarrow> (if 0 < i then do { p \<leftarrow> child_at root (i - 1); Some (M - 1 < num p) } else Some False);
       right \<leftarrow> (if \<not> left \<and> i < num root
                 then do { z \<leftarrow> child_at root (i + 1); Some (M - 1 < num z) } else Some False);
       if left then do {
         p \<leftarrow> child_at root (i - 1);
         root \<leftarrow> BTreeShiftToRightChild root (i - 1) p y;
         Some (root, i)
       } else if right then do {
         z \<leftarrow> child_at root (i + 1);
         root \<leftarrow> BTreeShiftToLeftChild root i y z;
         Some (root, i)
       } else if 0 < i then do {
         p \<leftarrow> child_at root (i - 1);
         m \<leftarrow> BTreeMergeChild root (i - 1) p y;
         Some (fst m, i - 1)
       } else do {
         z \<leftarrow> (if i < num root then child_at root (i + 1) else None);
         m \<leftarrow> BTreeMergeChild root i y z;
         Some (fst m, i)
       }
     } else Some (root, i))"

text \<open>
  The test in a leaf reads the key at the position also when it lies behind the last one. After a
  merge inside the tree the code calls \<^verbatim>\<open>BTreeDelete\<close> on the merged node, which has more than
  one key, so that only its last branch is left.
\<close>

partial_function (option) BTreeDeleteNonone :: "int \<Rightarrow> node \<times> int \<Rightarrow> (node \<times> int) option" where
  "BTreeDeleteNonone target x =
     (case x of (root, counter) \<Rightarrow> do {
        i \<leftarrow> up_pos target 0 (num root) (node_k root);
        if isLeaf root then do {
          v \<leftarrow> at (node_k root) i;
          if v = target then do {
            ks \<leftarrow> for_each (\<lambda>j ks. copy_item ks j ks (j - 1)) [i + 1..2 * M - 2] (node_k root);
            Some (Node ks (node_p root) (num root - 1) (isLeaf root), counter + 1)
          } else Some (root, counter)
        } else if i < num root \<and> at (node_k root) i = Some target then do {
          y \<leftarrow> child_at root i;
          z \<leftarrow> child_at root (i + 1);
          if M - 1 < num y then do {
            pre \<leftarrow> BTreeSearchPredecessor y;
            root \<leftarrow> set_key i pre root;
            r \<leftarrow> BTreeDeleteNonone pre (y, counter);
            root \<leftarrow> set_child i (fst r) root;
            Some (root, snd r)
          } else if M - 1 < num z then do {
            next \<leftarrow> BTreeSearchSuccessor z;
            root \<leftarrow> set_key i next root;
            r \<leftarrow> BTreeDeleteNonone next (z, counter);
            root \<leftarrow> set_child (i + 1) (fst r) root;
            Some (root, snd r)
          } else do {
            m \<leftarrow> BTreeMergeChild root i y z;
            assert_that (num (snd m) \<noteq> 1);
            r \<leftarrow> BTreeDeleteNonone target (snd m, counter);
            root \<leftarrow> set_child i (fst r) (fst m);
            Some (root, snd r)
          }
        } else do {
          y \<leftarrow> child_at root i;
          w \<leftarrow> fill_child root i y;
          y \<leftarrow> child_at (fst w) (snd w);
          r \<leftarrow> BTreeDeleteNonone target (y, counter);
          root \<leftarrow> set_child (snd w) (fst r) (fst w);
          Some (root, snd r)
        }
      })"

definition BTreeDelete :: "int \<Rightarrow> node \<times> int \<Rightarrow> (node \<times> int) option" where
  "BTreeDelete target x =
     (case x of (root, counter) \<Rightarrow>
        if num root = 1 then do {
          y \<leftarrow> at (node_p root) 0;
          z \<leftarrow> at (node_p root) 1;
          (case (y, z) of
             (Some y, Some z) \<Rightarrow>
               if num y = M - 1 \<and> num z = M - 1 then do {
                 m \<leftarrow> BTreeMergeChild root 0 y z;
                 BTreeDeleteNonone target (snd m, counter)
               } else BTreeDeleteNonone target (root, counter)
           | _ \<Rightarrow> BTreeDeleteNonone target (root, counter))
        } else BTreeDeleteNonone target (root, counter))"

section \<open>The tree\<close>

definition Tree :: "node \<times> int" where "Tree = (BTreeCreate, 0)"

definition insert_key :: "int \<Rightarrow> node \<times> int \<Rightarrow> (node \<times> int) option" where
  "insert_key target tree = BTreeInsert target tree"

definition Del :: "int \<Rightarrow> node \<times> int \<Rightarrow> (node \<times> int) option" where
  "Del target tree = BTreeDelete target tree"

text \<open>The keys that \<^verbatim>\<open>BTreeInorderPrint\<close> prints.\<close>

fun print_slots :: "int list \<Rightarrow> int list option option list \<Rightarrow> int \<Rightarrow> int \<Rightarrow> int list option" where
  "print_slots (k # ks) (p # ps) i n = do {
     before \<leftarrow> (case p of None \<Rightarrow> Some [] | Some out \<Rightarrow> out);
     if i < n then do { out \<leftarrow> print_slots ks ps (i + 1) n; Some (before @ k # out) } else Some before
   }"
| "print_slots [] (p # ps) i n = (if i < n then None else (case p of None \<Rightarrow> Some [] | Some out \<Rightarrow> out))"
| "print_slots ks [] i n = None"

primrec BTreeInorderPrint :: "node \<Rightarrow> int list option" where
  "BTreeInorderPrint (Node ks ps n l) = print_slots ks (map (map_option BTreeInorderPrint) ps) 0 n"

section \<open>Arrays\<close>

lemma at_mid: "i = int (length A) \<Longrightarrow> at (A @ x # B) i = Some x"
  by (simp add: at_def nth_append)

lemma put_mid: "i = int (length A) \<Longrightarrow> put_item (A @ x # B) i v = Some (A @ v # B)"
  by (simp add: put_item_def list_update_append)

text \<open>The loops that move a piece of an array by one place.\<close>

lemma shift_up:
  assumes "i = int (length A)" and "n = int (length A + length B) - 1"
  shows "for_each (\<lambda>i xs. copy_item xs i xs (i + 1)) (rev [i..n]) (A @ B @ j # J) =
    Some (A @ hd (B @ [j]) # B @ J)"
  using assms(2)
proof (induction B arbitrary: j J n rule: rev_induct)
  case Nil
  then show ?case using assms(1) by simp
next
  case (snoc b B)
  have r: "rev [i..n] = n # rev [i..n - 1]"
    using snoc.prems assms(1) upto_rec2 [of i n] by simp
  have 1: "at (A @ (B @ [b]) @ j # J) n = Some b"
    using at_mid [of n "A @ B" b "j # J"] snoc.prems by simp
  have 2: "put_item (A @ (B @ [b]) @ j # J) (n + 1) b = Some (A @ B @ b # b # J)"
    using put_mid [of "n + 1" "A @ B @ [b]" j J b] snoc.prems by simp
  have "for_each (\<lambda>i xs. copy_item xs i xs (i + 1)) (rev [i..n - 1]) (A @ B @ b # b # J) =
      Some (A @ hd (B @ [b]) # B @ b # J)"
    by (rule snoc.IH) (use snoc.prems in simp)
  then show ?case unfolding r using 1 2 by (cases B) (simp_all add: copy_item_def)
qed

lemma shift_down:
  assumes "i = int (length A) + 1" and "n = int (length A + length B)"
  shows "for_each (\<lambda>j xs. copy_item xs j xs (j - 1)) [i..n] (A @ x # B @ J) =
    Some (A @ B @ last (x # B) # J)"
  using assms
proof (induction B arbitrary: A x i)
  case (Cons b B)
  have r: "[i..n] = i # [i + 1..n]" using Cons.prems upto_rec1 [of i n] by simp
  have 1: "at (A @ x # (b # B) @ J) i = Some b"
    using at_mid [of i "A @ [x]" b "B @ J"] Cons.prems by simp
  have 2: "put_item (A @ x # (b # B) @ J) (i - 1) b = Some ((A @ [b]) @ b # B @ J)"
    using put_mid [of "i - 1" A x "b # B @ J" b] Cons.prems by simp
  have "for_each (\<lambda>j xs. copy_item xs j xs (j - 1)) [i + 1..n] ((A @ [b]) @ b # B @ J) =
      Some ((A @ [b]) @ B @ last (b # B) # J)"
    by (rule Cons.IH) (use Cons.prems in simp_all)
  then show ?case unfolding r using 1 2 by (simp add: copy_item_def)
qed simp

text \<open>The same loop with the indices counted from the other place.\<close>

lemma shift_down_from:
  assumes "i = int (length A)" and "n = int (length A + length B) - 1"
  shows "for_each (\<lambda>j xs. copy_item xs (j + 1) xs j) [i..n] (A @ x # B @ J) =
    Some (A @ B @ last (x # B) # J)"
  using assms
proof (induction B arbitrary: A x i)
  case (Cons b B)
  have r: "[i..n] = i # [i + 1..n]" using Cons.prems upto_rec1 [of i n] by simp
  have 1: "at (A @ x # (b # B) @ J) (i + 1) = Some b"
    using at_mid [of "i + 1" "A @ [x]" b "B @ J"] Cons.prems by simp
  have 2: "put_item (A @ x # (b # B) @ J) i b = Some ((A @ [b]) @ b # B @ J)"
    using put_mid [of i A x "b # B @ J" b] Cons.prems by simp
  have "for_each (\<lambda>j xs. copy_item xs (j + 1) xs j) [i + 1..n] ((A @ [b]) @ b # B @ J) =
      Some ((A @ [b]) @ B @ last (b # B) # J)"
    by (rule Cons.IH) (use Cons.prems in simp_all)
  then show ?case unfolding r using 1 2 by (simp add: copy_item_def)
qed simp

section \<open>Nodes as lists\<close>

text \<open>
  A node that holds the keys \<open>ks\<close> and the children \<open>cs\<close>, whatever lies behind them in the arrays.
\<close>

definition node_is :: "node \<Rightarrow> bool \<Rightarrow> int list \<Rightarrow> node list \<Rightarrow> bool" where
  "node_is t l ks cs \<longleftrightarrow>
     (\<exists>jk jp. t = Node (ks @ jk) (map Some cs @ jp) (int (length ks)) l \<and>
        length ks + length jk = 3 \<and> length cs + length jp = 4 \<and>
        (if l then cs = [] \<and> jp = replicate 4 None else length cs = length ks + 1))"

lemma node_is_fields: "node_is t l ks cs \<Longrightarrow> num t = int (length ks) \<and> isLeaf t = l \<and> length ks \<le> 3"
  by (auto simp: node_is_def)

lemma node_is_children: "node_is t False ks cs \<Longrightarrow> length cs = length ks + 1"
  by (auto simp: node_is_def)

lemma node_is_leaf: "node_is t True ks cs \<Longrightarrow> cs = []"
  by (auto simp: node_is_def)

lemma NewNode_is: "node_is NewNode True [] []"
  by (simp add: node_is_def NewNode_def M_def)

lemmas node_eval = at_def put_item_def copy_item_def M_def

lemma upto_eval: "[0..(0::int)] = [0]" "[0..(1::int)] = [0, 1]" "[2..(2::int)] = [2]" "[2..(3::int)] = [2, 3]"
  "[1..(1::int)] = [1]" "[1..(2::int)] = [1, 2]" "[1..(3::int)] = [1, 2, 3]" "[1..(0::int)] = []"
  by (simp_all add: upto.simps)

lemma child_at_is:
  assumes "node_is t False ks cs" and "i < length cs"
  shows "child_at t (int i) = Some (cs ! i)"
  using assms by (auto simp: node_is_def child_at_def at_def nth_append)

lemma key_at_is:
  assumes "node_is t l (K @ b # L) cs" and "i = int (length K)"
  shows "at (node_k t) i = Some b"
  using assms at_mid [of i K b] by (auto simp: node_is_def)

lemma set_child_is:
  assumes "node_is t False ks cs" and "i < length cs"
  shows "\<exists>t'. set_child (int i) c t = Some t' \<and> node_is t' False ks (cs[i := c])"
  using assms by (auto simp: node_is_def set_child_def put_item_def list_update_append map_update)

lemma set_key_is:
  assumes "node_is t False ks cs" and "i < length ks"
  shows "\<exists>t'. set_key (int i) v t = Some t' \<and> node_is t' False (ks[i := v]) cs"
  using assms by (auto simp: node_is_def set_key_def put_item_def list_update_append)

lemma split_is:
  assumes "node_is t False (K @ L) (C @ child # D)" and "length K = length C" and "length (K @ L) \<le> 2"
    and "node_is child l [a, b, c] ds"
  shows "\<exists>t' d1 d2. BTreeSplitChild t (int (length C)) child = Some t' \<and>
    node_is t' False (K @ b # L) (C @ d1 # d2 # D) \<and>
    node_is d1 l [a] (take 2 ds) \<and> node_is d2 l [c] (drop 2 ds)"
proof -
  obtain jk jp where t: "t = Node ((K @ L) @ jk) (map Some (C @ child # D) @ jp) (int (length (K @ L))) False"
    "length (K @ L) + length jk = 3" "length (C @ child # D) + length jp = 4"
    "length (C @ child # D) = length (K @ L) + 1"
    using assms(1) by (auto simp: node_is_def)
  obtain j J where jk: "jk = j # J" using t(2) assms(3) by (cases jk) auto
  obtain q Q where jp: "jp = q # Q" using t(3,4) assms(3) by (cases jp) auto
  obtain dk dp where c: "child = Node [a, b, c] (map Some ds @ dp) 3 l" "length ds + length dp = 4"
    "if l then ds = [] \<and> dp = replicate 4 None else length ds = 4"
    using assms(4) by (auto simp: node_is_def split: if_splits)
  let ?d1 = "Node [a, b, c] (map Some ds @ dp) 1 l"
  let ?d2 = "Node [c, 0, 0] (map Some (drop 2 ds) @ (if l then replicate 4 None else [None, None])) 1 l"
  have d1: "node_is ?d1 l [a] (take 2 ds)"
    using c(2,3) by (auto simp: node_is_def intro!: exI [of _ "map Some (drop 2 ds) @ dp"] split: if_splits)
      (metis append.assoc append_take_drop_id map_append)
  have d2: "node_is ?d2 l [c] (drop 2 ds)"
    using c(2,3) by (auto simp: node_is_def)
  have ks: "for_each (\<lambda>i ks. copy_item (node_k child) (i + M) ks i) [0..M - 2] (node_k NewNode) = Some [c, 0, 0]"
    by (simp add: c(1) node_eval NewNode_def upto_eval eval_nat_numeral)
  have ps: "(if \<not> isLeaf child
        then for_each (\<lambda>i ps. copy_item (node_p child) (i + M) ps i) [0..M - 1] (node_p NewNode)
        else Some (node_p NewNode)) = Some (node_p ?d2)"
  proof (cases l)
    case False
    with c(2,3) obtain e f g h where "ds = [e, f, g, h]" "dp = []"
      by (auto simp: eval_nat_numeral length_Suc_conv)
    then show ?thesis using False by (simp add: c(1) node_eval NewNode_def upto_eval eval_nat_numeral)
  qed (simp add: c NewNode_def M_def)
  let ?P = "map Some C @ [Some ?d1]"
  have pp1: "put_item (node_p t) (int (length C)) (Some ?d1) = Some (?P @ map Some D @ q # Q)"
    using put_mid [of "int (length C)" "map Some C" "Some child"] by (simp add: t(1) jp)
  have pp2: "for_each (\<lambda>i pp. copy_item pp i pp (i + 1)) (rev [int (length C) + 1..num t]) (?P @ map Some D @ q # Q)
      = Some (?P @ hd (map Some D @ [q]) # map Some D @ Q)"
    by (rule shift_up) (use t(4) assms(2) in \<open>simp_all add: t(1)\<close>)
  have pp3: "put_item (?P @ hd (map Some D @ [q]) # map Some D @ Q) (int (length C) + 1) (Some ?d2) =
      Some (?P @ Some ?d2 # map Some D @ Q)"
    by (rule put_mid) simp
  have pk1: "for_each (\<lambda>i pk. copy_item pk i pk (i + 1)) (rev [int (length C)..num t - 1]) (K @ L @ j # J) =
      Some (K @ hd (L @ [j]) # L @ J)"
    by (rule shift_up) (use assms(2) in \<open>simp_all add: t(1)\<close>)
  have pk2: "copy_item (node_k child) (M - 1) (K @ hd (L @ [j]) # L @ J) (int (length C)) = Some (K @ b # L @ J)"
    using put_mid [of "int (length C)" K "hd (L @ [j])" "L @ J" b] assms(2)
    by (simp add: copy_item_def c(1) at_def M_def)
  let ?t = "Node (K @ b # L @ J) (?P @ Some ?d2 # map Some D @ Q) (int (length (K @ L)) + 1) False"
  have "BTreeSplitChild t (int (length C)) child = Some ?t"
    unfolding BTreeSplitChild_def ks ps using pp1 pp2 pp3 pk1 pk2
    by (simp add: t(1) c(1) jk M_def)
  moreover have "node_is ?t False (K @ b # L) (C @ ?d1 # ?d2 # D)"
    using t(2-4) jk jp by (simp add: node_is_def)
  ultimately show ?thesis using d1 d2 by blast
qed

section \<open>Sorted lists\<close>

lemma same_sorted: "mset xs = mset ys \<Longrightarrow> sorted xs \<Longrightarrow> sorted ys \<Longrightarrow> xs = (ys :: int list)"
  by (metis properties_for_sort sorted_sort_id)

lemma insort_mid:
  assumes "sorted (A @ ys @ B)" and "\<forall>a\<in>set A. a \<le> x" and "\<forall>b\<in>set B. x \<le> b"
  shows "insort x (A @ ys @ B) = A @ insort x ys @ (B :: int list)"
proof (rule same_sorted)
  show "sorted (insort x (A @ ys @ B))" using assms(1) by (simp add: sorted_insort)
  show "sorted (A @ insort x ys @ B)"
    using assms by (auto simp: sorted_append sorted_insort set_insort_key)
qed simp

lemma remove1_mid:
  assumes "sorted (A @ ys @ B)" and "x \<in> set ys"
  shows "remove1 x (A @ ys @ B) = A @ remove1 x ys @ (B :: int list)"
proof (rule same_sorted)
  show "sorted (remove1 x (A @ ys @ B))" using assms(1) by (rule sorted_remove1)
  have "set (remove1 x ys) \<subseteq> set ys" by (rule set_remove1_subset)
  with assms(1) show "sorted (A @ remove1 x ys @ B)" by (auto simp: sorted_append sorted_remove1)
qed (use assms(2) in simp)

section \<open>The keys of a tree\<close>

definition lo :: "int list list \<Rightarrow> int list \<Rightarrow> int list" where
  "lo X K = concat (map2 (\<lambda>xs k. xs @ [k]) X K)"

definition hi :: "int list \<Rightarrow> int list list \<Rightarrow> int list" where
  "hi L Y = concat (map2 (\<lambda>k xs. k # xs) L Y)"

definition weave :: "int list list \<Rightarrow> int list \<Rightarrow> int list" where
  "weave xss ks = hd xss @ hi ks (tl xss)"

lemma lo_hi_simps [simp]:
  "lo [] K = []" "lo X [] = []" "hi [] Y = []" "hi L [] = []"
  "lo (xs # X) (k # K) = xs @ k # lo X K" "hi (k # L) (xs # Y) = k # xs @ hi L Y"
  by (simp_all add: lo_def hi_def)

lemma lo_snoc [simp]: "length X = length K \<Longrightarrow> lo (X @ [xs]) (K @ [k]) = lo X K @ xs @ [k]"
  by (simp add: lo_def)

lemma weave_at: "length X = length K \<Longrightarrow> weave (X @ y # Y) (K @ L) = lo X K @ y @ hi L Y"
proof (induction X arbitrary: K)
  case (Cons x X)
  then obtain k K' where K: "K = k # K'" "length X = length K'" by (cases K) auto
  then show ?case using Cons.IH [OF K(2)] by (cases X) (simp_all add: weave_def)
qed (simp add: weave_def)

lemma last_lo: "length X = length K \<Longrightarrow> K \<noteq> [] \<Longrightarrow> lo X K \<noteq> [] \<and> last (lo X K) = last K"
  by (cases K rule: rev_cases; cases X rule: rev_cases) auto

primrec holds :: "nat \<Rightarrow> node \<Rightarrow> int list \<Rightarrow> bool" where
  "holds 0 t xs \<longleftrightarrow> node_is t True xs []"
| "holds (Suc h) t xs \<longleftrightarrow>
     (\<exists>ks cs xss. node_is t False ks cs \<and> list_all2 (\<lambda>c ys. holds h c ys \<and> 1 \<le> num c) cs xss \<and> xs = weave xss ks)"

text \<open>A node inside, seen from one of its children.\<close>

definition around :: "nat \<Rightarrow> node \<Rightarrow> int list \<Rightarrow> node list \<Rightarrow> int list list \<Rightarrow> node \<Rightarrow> int list \<Rightarrow>
    int list \<Rightarrow> node list \<Rightarrow> int list list \<Rightarrow> bool" where
  "around h t K C X c y L D Y \<longleftrightarrow>
     node_is t False (K @ L) (C @ c # D) \<and> length K = length C \<and> length X = length C \<and> holds h c y \<and>
     list_all2 (\<lambda>c ys. holds h c ys \<and> 1 \<le> num c) C X \<and> list_all2 (\<lambda>c ys. holds h c ys \<and> 1 \<le> num c) D Y"

lemma holds_around:
  assumes "holds (Suc h) t xs"
  obtains ks cs where "node_is t False ks cs" and "length cs = length ks + 1"
    and "\<And>K L C c D. ks = K @ L \<Longrightarrow> cs = C @ c # D \<Longrightarrow> length K = length C \<Longrightarrow>
      \<exists>X y Y. around h t K C X c y L D Y \<and> xs = lo X K @ y @ hi L Y \<and> 1 \<le> num c"
proof -
  obtain ks cs xss where t: "node_is t False ks cs" "list_all2 (\<lambda>c ys. holds h c ys \<and> 1 \<le> num c) cs xss"
    "xs = weave xss ks" using assms by auto
  show ?thesis
  proof (rule that [OF t(1)])
    show "length cs = length ks + 1" using t(1) by (rule node_is_children)
    fix K L C c D assume s: "ks = K @ L" "cs = C @ c # D" "length K = length C"
    obtain X y Y where X: "xss = X @ y # Y" "list_all2 (\<lambda>c ys. holds h c ys \<and> 1 \<le> num c) C X"
      "holds h c y" "1 \<le> num c" "list_all2 (\<lambda>c ys. holds h c ys \<and> 1 \<le> num c) D Y"
      using t(2) unfolding s(2) by (auto simp: list_all2_append1 list_all2_Cons1)
    then have "length X = length C" by (simp add: list_all2_lengthD)
    moreover have "xs = lo X K @ y @ hi L Y" using t(3) X(1) s(1,3) calculation by (simp add: weave_at)
    ultimately show "\<exists>X y Y. around h t K C X c y L D Y \<and> xs = lo X K @ y @ hi L Y \<and> 1 \<le> num c"
      using t(1) s X by (auto simp: around_def)
  qed
qed

lemma around_holds:
  assumes "around h t K C X c y L D Y" and "1 \<le> num c"
  shows "holds (Suc h) t (lo X K @ y @ hi L Y)"
proof -
  have "list_all2 (\<lambda>c ys. holds h c ys \<and> 1 \<le> num c) (C @ c # D) (X @ y # Y)"
    using assms by (simp add: around_def list_all2_appendI)
  moreover have "lo X K @ y @ hi L Y = weave (X @ y # Y) (K @ L)"
    using assms(1) by (simp add: around_def weave_at)
  ultimately show ?thesis using assms(1) unfolding around_def holds.simps by blast
qed

lemma around_set:
  assumes "around h t K C X c y L D Y" and "holds h c' y'"
  shows "\<exists>t'. set_child (int (length C)) c' t = Some t' \<and> around h t' K C X c' y' L D Y \<and> num t' = num t"
proof -
  have t: "node_is t False (K @ L) (C @ c # D)" using assms(1) by (simp add: around_def)
  obtain t' where "set_child (int (length C)) c' t = Some t'" "node_is t' False (K @ L) (C @ c' # D)"
    using set_child_is [OF t, of "length C" c'] by auto
  then show ?thesis using assms node_is_fields [OF t] node_is_fields [of t'] by (auto simp: around_def)
qed

lemma around_child:
  "around h t K C X c y L D Y \<Longrightarrow> child_at t (int (length C)) = Some c"
  using child_at_is [of t "K @ L" "C @ c # D" "length C"] by (simp add: around_def)

section \<open>Insertion\<close>

lemma insort_snoc: "x \<le> k \<Longrightarrow> insort x (ks @ [k]) = insort x ks @ [k :: int]"
  by (induction ks) auto

lemma insort_last: "sorted ks \<Longrightarrow> \<forall>k\<in>set ks. k \<le> x \<Longrightarrow> insort x ks = ks @ [x :: int]"
  using insort_mid [of ks "[]" "[]" x] by simp

lemma shift_keys_spec:
  assumes "sorted ks"
  shows "\<exists>i ys. shift_keys x (int (length ks)) (ks @ j # J) = Some (i, ys) \<and>
    put_item ys i x = Some (insort x ks @ J)"
  using assms
proof (induction ks arbitrary: j J rule: rev_induct)
  case Nil
  show ?case by (subst shift_keys.simps) (simp add: put_item_def)
next
  case (snoc k ks)
  have at: "at ((ks @ [k]) @ j # J) (int (length (ks @ [k])) - 1) = Some k"
    using at_mid [of "int (length ks)" ks k "j # J"] by simp
  show ?case
  proof (cases "x < k")
    case True
    have "put_item ((ks @ [k]) @ j # J) (int (length (ks @ [k]))) k = Some (ks @ k # k # J)"
      using put_mid [of "int (length (ks @ [k]))" "ks @ [k]" j J k] by simp
    then have "shift_keys x (int (length (ks @ [k]))) ((ks @ [k]) @ j # J) =
        shift_keys x (int (length ks)) (ks @ k # k # J)"
      using at True by (subst shift_keys.simps) simp
    then show ?thesis using snoc.IH [of k "k # J"] snoc.prems True by (simp add: sorted_append insort_snoc)
  next
    case False
    then have "shift_keys x (int (length (ks @ [k]))) ((ks @ [k]) @ j # J) =
        Some (int (length (ks @ [k])), (ks @ [k]) @ j # J)"
      using at by (subst shift_keys.simps) simp
    moreover have "put_item ((ks @ [k]) @ j # J) (int (length (ks @ [k]))) x = Some ((ks @ [k]) @ x # J)"
      by (rule put_mid) simp
    moreover have "insort x (ks @ [k]) = (ks @ [k]) @ [x]"
      by (rule insort_last) (use snoc.prems False in \<open>auto simp: sorted_append\<close>)
    ultimately show ?thesis by simp
  qed
qed

lemma down_pos_spec:
  "\<exists>K L. ks = K @ L \<and> down_pos x (int (length ks)) (ks @ J) = Some (int (length K)) \<and>
    (\<forall>k\<in>set L. x < k) \<and> (K \<noteq> [] \<longrightarrow> last K \<le> x)"
proof (induction ks arbitrary: J rule: rev_induct)
  case Nil
  show ?case by (subst down_pos.simps) simp
next
  case (snoc k ks)
  have at: "at ((ks @ [k]) @ J) (int (length (ks @ [k])) - 1) = Some k"
    using at_mid [of "int (length ks)" ks k J] by simp
  show ?case
  proof (cases "x < k")
    case True
    then have *: "down_pos x (int (length (ks @ [k]))) ((ks @ [k]) @ J) = down_pos x (int (length ks)) (ks @ k # J)"
      using at by (subst down_pos.simps) simp
    obtain K L where "ks = K @ L" "down_pos x (int (length ks)) (ks @ k # J) = Some (int (length K))"
      "\<forall>k\<in>set L. x < k" "K \<noteq> [] \<longrightarrow> last K \<le> x" using snoc.IH [of "k # J"] by blast
    then show ?thesis using * True by (intro exI [of _ K] exI [of _ "L @ [k]"]) simp
  next
    case False
    then have "down_pos x (int (length (ks @ [k]))) ((ks @ [k]) @ J) = Some (int (length (ks @ [k])))"
      using at by (subst down_pos.simps) simp
    then show ?thesis using False by (intro exI [of _ "ks @ [k]"] exI [of _ "[]"]) simp
  qed
qed

text \<open>Everything left of a key that is not greater is not greater, and so on the right.\<close>

lemma lo_le:
  assumes "sorted (lo X K)" and "length X = length K" and "K \<noteq> [] \<longrightarrow> last K \<le> x"
  shows "\<forall>a\<in>set (lo X K). a \<le> x"
proof (cases "lo X K" rule: rev_cases)
  case (snoc zs z)
  then have "K \<noteq> []" by auto
  then have "z \<le> x" using last_lo [OF assms(2)] assms(3) snoc by simp
  then show ?thesis using assms(1) unfolding snoc sorted_append by auto
qed simp

lemma hi_ge:
  assumes "sorted (hi L Y)" and "length Y = length L" and "L \<noteq> [] \<longrightarrow> x \<le> hd L"
  shows "\<forall>b\<in>set (hi L Y). x \<le> b"
proof (cases "hi L Y")
  case (Cons z zs)
  then have "x \<le> z" using assms(2,3) by (cases L; cases Y) auto
  then show ?thesis using assms(1) unfolding Cons by auto
qed simp

text \<open>A place for a child: what is left and right of it in the array of children.\<close>

lemma child_place:
  assumes "length cs = length ks + 1" and "ks = K @ L"
  obtains C c D where "cs = C @ c # D" and "length C = length K" and "length D = length L"
proof -
  have i: "length K < length cs" using assms by simp
  show ?thesis
    by (rule that [OF id_take_nth_drop [OF i]]) (use assms in simp_all)
qed

lemma holds_num_le: "holds h t xs \<Longrightarrow> num t \<le> 3"
  by (cases h) (auto dest: node_is_fields)

lemma split_holds:
  assumes "holds h c y" and "num c = 3"
  shows "\<exists>l a b d ds ya yb. node_is c l [a, b, d] ds \<and> y = ya @ b # yb \<and>
    (\<forall>d1 d2. node_is d1 l [a] (take 2 ds) \<longrightarrow> node_is d2 l [d] (drop 2 ds) \<longrightarrow> holds h d1 ya \<and> holds h d2 yb)"
proof (cases h)
  case 0
  then have c: "node_is c True y []" using assms(1) by simp
  then have "length y = 3" using assms(2) node_is_fields by fastforce
  then obtain a b d where "y = [a, b, d]" by (auto simp: length_Suc_conv eval_nat_numeral)
  then show ?thesis using c 0
    by (intro exI [of _ True] exI [of _ a] exI [of _ b] exI [of _ d] exI [of _ "[]"] exI [of _ "[a]"] exI [of _ "[d]"]) simp
next
  case (Suc g)
  then obtain ks cs xss where c: "node_is c False ks cs"
    "list_all2 (\<lambda>c ys. holds g c ys \<and> 1 \<le> num c) cs xss" "y = weave xss ks" using assms(1) by auto
  have "length ks = 3" using assms(2) node_is_fields [OF c(1)] by simp
  moreover then have "length cs = 4" "length xss = 4"
    using node_is_children [OF c(1)] c(2) by (auto simp: list_all2_lengthD [symmetric])
  ultimately obtain a b d x0 x1 x2 x3 c0 c1 c2 c3 where
    e: "ks = [a, b, d]" "xss = [x0, x1, x2, x3]" "cs = [c0, c1, c2, c3]"
    by (auto simp: length_Suc_conv eval_nat_numeral)
  have y: "y = weave [x0, x1] [a] @ b # weave [x2, x3] [d]" using c(3) by (simp add: e weave_def)
  have "holds h d1 (weave [x0, x1] [a]) \<and> holds h d2 (weave [x2, x3] [d])"
    if "node_is d1 False [a] (take 2 cs)" "node_is d2 False [d] (drop 2 cs)" for d1 d2
  proof -
    have "list_all2 (\<lambda>c ys. holds g c ys \<and> 1 \<le> num c) (take 2 cs) [x0, x1]"
      "list_all2 (\<lambda>c ys. holds g c ys \<and> 1 \<le> num c) (drop 2 cs) [x2, x3]"
      using c(2) by (simp_all add: e)
    then show ?thesis using that unfolding Suc holds.simps by blast
  qed
  then show ?thesis using c(1) y unfolding e(1) by blast
qed

lemma insert_nonfull_spec:
  assumes "holds h t xs" and "sorted xs" and "num t \<le> 2"
  shows "\<exists>t'. BTreeInsertNonfull x (t, n) = Some (t', n + 1) \<and> holds h t' (insort x xs) \<and> num t \<le> num t'"
  using assms
proof (induction h arbitrary: t xs)
  case 0
  then obtain jk where t: "t = Node (xs @ jk) (replicate 4 None) (int (length xs)) True" "length xs + length jk = 3"
    by (auto simp: node_is_def)
  then obtain j J where jk: "jk = j # J" using 0 by (cases jk) auto
  obtain i ys where "shift_keys x (int (length xs)) (xs @ j # J) = Some (i, ys)" "put_item ys i x = Some (insort x xs @ J)"
    using shift_keys_spec [OF 0(2)] by blast
  then have "BTreeInsertNonfull x (t, n) = Some (Node (insort x xs @ J) (replicate 4 None) (int (length xs) + 1) True, n + 1)"
    by (subst BTreeInsertNonfull.simps) (simp add: t(1) jk)
  then show ?case using t(2) jk by (auto simp: node_is_def t(1))
next
  case (Suc h)
  obtain ks cs where t: "node_is t False ks cs" "length cs = length ks + 1"
    and place: "\<And>K L C c D. ks = K @ L \<Longrightarrow> cs = C @ c # D \<Longrightarrow> length K = length C \<Longrightarrow>
      \<exists>X y Y. around h t K C X c y L D Y \<and> xs = lo X K @ y @ hi L Y \<and> 1 \<le> num c"
    by (rule holds_around [OF Suc.prems(1)]) (rule that; assumption?)
  obtain J where J: "node_k t = ks @ J" "num t = int (length ks)" "\<not> isLeaf t"
    using t(1) by (auto simp: node_is_def)
  obtain K L where K: "ks = K @ L" "down_pos x (int (length ks)) (ks @ J) = Some (int (length K))"
    "\<forall>k\<in>set L. x < k" "K \<noteq> [] \<longrightarrow> last K \<le> x"
    using down_pos_spec by blast
  have pos: "down_pos x (num t) (node_k t) = Some (int (length K))" unfolding J(1,2) by (rule K(2))
  obtain C c D where C: "cs = C @ c # D" "length C = length K" "length D = length L"
    by (rule child_place [OF t(2) K(1)])
  obtain X y Y where X: "around h t K C X c y L D Y" "xs = lo X K @ y @ hi L Y" "1 \<le> num c"
    using place [OF K(1) C(1)] C(2) by auto
  have len: "length X = length K" "length Y = length L"
    using X(1) C(2,3) by (auto simp: around_def list_all2_lengthD)
  have sorted: "sorted (lo X K)" "sorted y" "sorted (hi L Y)"
    using Suc.prems(2) X(2) by (simp_all add: sorted_append)
  have left: "\<forall>a\<in>set (lo X K). a \<le> x" by (rule lo_le [OF sorted(1) len(1) K(4)])
  have right: "\<forall>b\<in>set (hi L Y). x \<le> b"
    by (rule hi_ge [OF sorted(3) len(2)]) (use K(3) in \<open>cases L; auto\<close>)
  have child: "child_at t (int (length K)) = Some c" using around_child [OF X(1)] C(2) by simp
  let ?step = "if num c = 2 * M - 1 then do {
        t \<leftarrow> BTreeSplitChild t (int (length K)) c;
        v \<leftarrow> at (node_k t) (int (length K));
        Some (t, if v < x then int (length K) + 1 else int (length K))
      } else Some (t, int (length K))"
  have "\<exists>t2 K2 C2 X2 c2 y2 L2 D2 Y2. ?step = Some (t2, int (length C2)) \<and> around h t2 K2 C2 X2 c2 y2 L2 D2 Y2 \<and>
      num c2 \<le> 2 \<and> 1 \<le> num c2 \<and> xs = lo X2 K2 @ y2 @ hi L2 Y2 \<and> (\<forall>a\<in>set (lo X2 K2). a \<le> x) \<and>
      (\<forall>b\<in>set (hi L2 Y2). x \<le> b) \<and> num t \<le> num t2"
  proof (cases "num c = 3")
    case False
    have "holds h c y" using X(1) by (simp add: around_def)
    then have "num c \<le> 3" by (rule holds_num_le)
    with False have "?step = Some (t, int (length C))" "num c \<le> 2" using C(2) by (simp_all add: M_def)
    then show ?thesis using X left right by blast
  next
    case True
    have c: "holds h c y" "list_all2 (\<lambda>c ys. holds h c ys \<and> 1 \<le> num c) C X"
      "list_all2 (\<lambda>c ys. holds h c ys \<and> 1 \<le> num c) D Y" using X(1) by (simp_all add: around_def)
    obtain l a b d ds ya yb where s: "node_is c l [a, b, d] ds" "y = ya @ b # yb"
      "\<And>d1 d2. node_is d1 l [a] (take 2 ds) \<Longrightarrow> node_is d2 l [d] (drop 2 ds) \<Longrightarrow> holds h d1 ya \<and> holds h d2 yb"
      using split_holds [OF c(1) True] by blast
    obtain t' d1 d2 where t': "BTreeSplitChild t (int (length C)) c = Some t'"
      "node_is t' False (K @ b # L) (C @ d1 # d2 # D)" "node_is d1 l [a] (take 2 ds)" "node_is d2 l [d] (drop 2 ds)"
      using split_is [OF t(1) [unfolded K(1) C(1)] C(2) [symmetric] _ s(1)] Suc.prems(3) J(2) K(1) by auto
    have d: "holds h d1 ya" "holds h d2 yb" "num d1 = 1" "num d2 = 1"
      using s(3) [OF t'(3,4)] node_is_fields [OF t'(3)] node_is_fields [OF t'(4)] by auto
    have v: "at (node_k t') (int (length K)) = Some b"
      using t'(2) at_mid [of "int (length K)" K b] by (auto simp: node_is_def)
    have step: "?step = Some (t', if b < x then int (length (C @ [d1])) else int (length C))"
      using True t'(1) v C(2) by (simp add: M_def)
    have grown: "num t \<le> num t'" using node_is_fields [OF t'(2)] J(2) K(1) by simp
    have len': "length X = length C" using len(1) C(2) by simp
    have ysort: "\<forall>z\<in>set ya. z \<le> b" "\<forall>z\<in>set yb. b \<le> z" using sorted(2) s(2) by (auto simp: sorted_append)
    show ?thesis
    proof (cases "b < x")
      case go_right: True
      have "around h t' (K @ [b]) (C @ [d1]) (X @ [ya]) d2 yb L D Y"
        using t'(2) d c(2,3) C(2) len' by (simp add: around_def list_all2_appendI)
      moreover have "xs = lo (X @ [ya]) (K @ [b]) @ yb @ hi L Y" using X(2) s(2) len(1) by simp
      moreover have "\<forall>z\<in>set (lo (X @ [ya]) (K @ [b])). z \<le> x"
        using left ysort(1) go_right len(1) by auto
      moreover have "?step = Some (t', int (length (C @ [d1])))" using step go_right by simp
      moreover have "num d2 \<le> 2" "1 \<le> num d2" using d(4) by simp_all
      ultimately show ?thesis using right grown by (intro exI conjI)
    next
      case go_left: False
      have "around h t' K C X d1 ya (b # L) (d2 # D) (yb # Y)"
        using t'(2) d c(2,3) C(2) len' by (simp add: around_def)
      moreover have "xs = lo X K @ ya @ hi (b # L) (yb # Y)" using X(2) s(2) by simp
      moreover have "\<forall>z\<in>set (hi (b # L) (yb # Y)). x \<le> z"
        using right ysort(2) go_left by auto
      moreover have "?step = Some (t', int (length C))" using step go_left by simp
      moreover have "num d1 \<le> 2" "1 \<le> num d1" using d(3) by simp_all
      ultimately show ?thesis using left grown by (intro exI conjI)
    qed
  qed
  then obtain t2 K2 C2 X2 c2 y2 L2 D2 Y2 where 2: "?step = Some (t2, int (length C2))"
    "around h t2 K2 C2 X2 c2 y2 L2 D2 Y2" "num c2 \<le> 2" "1 \<le> num c2" "xs = lo X2 K2 @ y2 @ hi L2 Y2"
    "\<forall>a\<in>set (lo X2 K2). a \<le> x" "\<forall>b\<in>set (hi L2 Y2). x \<le> b" "num t \<le> num t2" by blast
  have c2: "holds h c2 y2" "sorted y2" using 2(2) Suc.prems(2) 2(5) by (simp_all add: around_def sorted_append)
  obtain c3 where c3: "BTreeInsertNonfull x (c2, n) = Some (c3, n + 1)" "holds h c3 (insort x y2)" "num c2 \<le> num c3"
    using Suc.IH [OF c2 2(3)] by blast
  obtain t3 where t3: "set_child (int (length C2)) c3 t2 = Some t3" "num t3 = num t2"
    "around h t3 K2 C2 X2 c3 (insort x y2) L2 D2 Y2"
    using around_set [OF 2(2) c3(2)] by blast
  have "BTreeInsertNonfull x (t, n) = Some (t3, n + 1)"
    using J(3) pos child 2(1) around_child [OF 2(2)] c3(1) t3(1)
    by (subst BTreeInsertNonfull.simps) (simp cong: if_cong)
  moreover have "holds (Suc h) t3 (insort x xs)"
    using around_holds [OF t3(3)] c3(3) 2(4) insort_mid [OF _ 2(6,7), of y2] Suc.prems(2) 2(5) by simp
  ultimately show ?case using 2(8) t3(2) by auto
qed

definition root_ok :: "nat \<Rightarrow> node \<Rightarrow> int list \<Rightarrow> bool" where
  "root_ok h t xs \<longleftrightarrow> holds h t xs \<and> sorted xs \<and> (h = 0 \<or> 1 \<le> num t)"

lemma insert_spec:
  assumes "root_ok h t xs"
  shows "\<exists>h' t'. BTreeInsert x (t, n) = Some (t', n + 1) \<and> root_ok h' t' (insort x xs)"
proof (cases "num t = 3")
  case False
  have t: "holds h t xs" "sorted xs" "h = 0 \<or> 1 \<le> num t" using assms by (simp_all add: root_ok_def)
  have "num t \<le> 2" using holds_num_le [OF t(1)] False by simp
  then obtain t' where t': "BTreeInsertNonfull x (t, n) = Some (t', n + 1)" "holds h t' (insort x xs)" "num t \<le> num t'"
    using insert_nonfull_spec [OF t(1,2)] by blast
  then have "root_ok h t' (insort x xs)" using t by (auto simp: root_ok_def sorted_insort)
  then show ?thesis using t'(1) False by (auto simp: BTreeInsert_def M_def)
next
  case True
  have t: "holds h t xs" "sorted xs" using assms by (simp_all add: root_ok_def)
  let ?new = "Node (node_k NewNode) (Some t # replicate 3 None) 0 False"
  have new: "node_is ?new False ([] @ []) ([] @ t # [])"
    by (simp add: node_is_def NewNode_def M_def)
  have set: "set_child 0 t (Node (node_k NewNode) (node_p NewNode) (num NewNode) False) = Some ?new"
    by (simp add: set_child_def put_item_def NewNode_def M_def eval_nat_numeral)
  obtain l a b d ds ya yb where s: "node_is t l [a, b, d] ds" "xs = ya @ b # yb"
    "\<And>d1 d2. node_is d1 l [a] (take 2 ds) \<Longrightarrow> node_is d2 l [d] (drop 2 ds) \<Longrightarrow> holds h d1 ya \<and> holds h d2 yb"
    using split_holds [OF t(1) True] by blast
  obtain r d1 d2 where r: "BTreeSplitChild ?new 0 t = Some r" "node_is r False [b] [d1, d2]"
    "node_is d1 l [a] (take 2 ds)" "node_is d2 l [d] (drop 2 ds)"
    using split_is [OF new _ _ s(1)] by auto
  have "holds h d1 ya \<and> 1 \<le> num d1" "holds h d2 yb \<and> 1 \<le> num d2"
    using s(3) [OF r(3,4)] node_is_fields [OF r(3)] node_is_fields [OF r(4)] by auto
  then have "list_all2 (\<lambda>c ys. holds h c ys \<and> 1 \<le> num c) [d1, d2] [ya, yb]" by simp
  moreover have "xs = weave [ya, yb] [b]" using s(2) by (simp add: weave_def)
  ultimately have hr: "holds (Suc h) r xs" using r(2) unfolding holds.simps by blast
  have "num r = 1" using node_is_fields [OF r(2)] by simp
  then obtain t' where t': "BTreeInsertNonfull x (r, n) = Some (t', n + 1)" "holds (Suc h) t' (insort x xs)" "1 \<le> num t'"
    using insert_nonfull_spec [OF hr t(2), of x n] by auto
  then have "root_ok (Suc h) t' (insort x xs)" using t(2) by (simp add: root_ok_def sorted_insort)
  then show ?thesis using t'(1) True r(1) set by (auto simp: BTreeInsert_def M_def)
qed

section \<open>Moving keys between neighbours\<close>

lemma merge_is:
  assumes "node_is t False (K @ b # L) (C @ y # z # D)" and "length K = length C"
    and "node_is y l [a] ys" and "node_is z l [c] zs"
  shows "\<exists>t' y'. BTreeMergeChild t (int (length C)) y z = Some (t', y') \<and>
    node_is t' False (K @ L) (C @ y' # D) \<and> node_is y' l [a, b, c] (ys @ zs)"
proof -
  obtain jk jp where t: "t = Node ((K @ b # L) @ jk) (map Some (C @ y # z # D) @ jp) (int (length (K @ b # L))) False"
    "length (K @ b # L) + length jk = 3" "length (C @ y # z # D) + length jp = 4" "length D = length L"
    using assms(1,2) by (auto simp: node_is_def)
  obtain j1 j2 yp where y: "y = Node [a, j1, j2] (map Some ys @ yp) 1 l" "length ys + length yp = 4"
    "if l then ys = [] \<and> yp = replicate 4 None else length ys = 2"
    using assms(3) by (auto simp: node_is_def length_Suc_conv eval_nat_numeral split: if_splits)
  obtain j3 j4 zp where z: "z = Node [c, j3, j4] (map Some zs @ zp) 1 l" "length zs + length zp = 4"
    "if l then zs = [] \<and> zp = replicate 4 None else length zs = 2"
    using assms(4) by (auto simp: node_is_def length_Suc_conv eval_nat_numeral split: if_splits)
  let ?y = "Node [a, b, c] (map Some (ys @ zs) @ (if l then replicate 4 None else [])) 3 l"
  have k1: "for_each (\<lambda>i ks. copy_item (node_k z) (i - M) ks i) [M..2 * M - 2] (node_k y) = Some [a, j1, c]"
    by (simp add: y(1) z(1) node_eval upto_eval eval_nat_numeral)
  have k2: "copy_item (node_k t) (int (length C)) [a, j1, c] (M - 1) = Some [a, b, c]"
    using at_mid [of "int (length C)" K b] assms(2) by (simp add: copy_item_def t(1) put_item_def M_def)
  have ps: "(if \<not> isLeaf z then for_each (\<lambda>i ps. copy_item (node_p z) (i - M) ps i) [M..2 * M - 1] (node_p y)
      else Some (node_p y)) = Some (node_p ?y)"
  proof (cases l)
    case False
    then obtain y0 y1 z0 z1 u v where "ys = [y0, y1]" "zs = [z0, z1]" "yp = [u, v]"
      using y(2,3) z(3) by (auto simp: length_Suc_conv eval_nat_numeral)
    then show ?thesis using False by (simp add: y(1) z(1) node_eval upto_eval eval_nat_numeral)
  qed (use y(3) z(3) in \<open>simp add: y(1) z(1)\<close>)
  have r1: "for_each (\<lambda>j rk. copy_item rk j rk (j - 1)) [int (length C) + 1..num t - 1] (K @ b # L @ jk) =
      Some (K @ L @ last (b # L) # jk)"
    by (rule shift_down) (use assms(2) in \<open>simp_all add: t(1)\<close>)
  let ?P = "map Some C @ [Some ?y]"
  have p1: "put_item (node_p t) (int (length C)) (Some ?y) = Some (?P @ Some z # map Some D @ jp)"
    using put_mid [of "int (length C)" "map Some C" "Some y"] by (simp add: t(1))
  have p2: "for_each (\<lambda>j rp. copy_item rp (j + 1) rp j) [int (length C) + 1..num t - 1] (?P @ Some z # map Some D @ jp)
      = Some (?P @ map Some D @ last (Some z # map Some D) # jp)"
    by (rule shift_down_from) (use assms(2) t(4) in \<open>simp_all add: t(1)\<close>)
  let ?t = "Node (K @ L @ last (b # L) # jk) (?P @ map Some D @ last (Some z # map Some D) # jp)
      (int (length (K @ L))) False"
  have "BTreeMergeChild t (int (length C)) y z = Some (?t, ?y)"
    unfolding BTreeMergeChild_def k1 ps using k2 r1 p1 p2 by (simp add: t(1) y(1) M_def Let_def)
  moreover have "node_is ?t False (K @ L) (C @ ?y # D)"
    using t(2-4) assms(2) by (simp add: node_is_def)
  moreover have "node_is ?y l [a, b, c] (ys @ zs)" using y(3) z(3) by (simp add: node_is_def split: if_splits)
  ultimately show ?thesis by blast
qed

lemma node_is_one:
  assumes "node_is z l [c] es"
  obtains j1 j2 zp where "z = Node [c, j1, j2] (map Some es @ zp) 1 l" and "length es + length zp = 4"
    and "if l then es = [] \<and> zp = replicate 4 None else \<exists>e0 e1. es = [e0, e1]"
proof -
  obtain j zp where "z = Node ([c] @ j) (map Some es @ zp) 1 l" "length j = 2" "length es + length zp = 4"
    "if l then es = [] \<and> zp = replicate 4 None else length es = 2"
    using assms by (auto simp: node_is_def)
  then show ?thesis
    using that by (cases l) (auto simp: length_Suc_conv eval_nat_numeral)
qed

text \<open>Both neighbours of the separator \<open>b\<close> get new contents.\<close>

lemma set_two:
  assumes "node_is t False (K @ b # L) (C @ y # z # D)" and "length K = length C"
    and "put_item (node_k t) (int (length C)) v = Some rk"
  shows "\<exists>t'. do { root \<leftarrow> set_child (int (length C)) y' (Node rk (node_p t) (num t) (isLeaf t));
      set_child (int (length C) + 1) z' root } = Some t' \<and> node_is t' False (K @ v # L) (C @ y' # z' # D)"
proof -
  have "set_key (int (length C)) v t = Some (Node rk (node_p t) (num t) (isLeaf t))"
    using assms(3) by (simp add: set_key_def)
  moreover obtain t1 where "set_key (int (length C)) v t = Some t1" "node_is t1 False (K @ v # L) (C @ y # z # D)"
    using set_key_is [OF assms(1), of "length C" v] assms(2) by (auto simp: list_update_append)
  ultimately have 1: "node_is (Node rk (node_p t) (num t) (isLeaf t)) False (K @ v # L) (C @ y # z # D)" by simp
  obtain t2 where 2: "set_child (int (length C)) y' (Node rk (node_p t) (num t) (isLeaf t)) = Some t2"
    "node_is t2 False (K @ v # L) (C @ y' # z # D)"
    using set_child_is [OF 1, of "length C" y'] by auto
  obtain t3 where "set_child (int (Suc (length C))) z' t2 = Some t3" "node_is t3 False (K @ v # L) (C @ y' # z' # D)"
    using set_child_is [OF 2(2), of "Suc (length C)" z'] by (auto simp: list_update_append)
  then show ?thesis using 2(1) by (simp add: add.commute)
qed

lemma shift_right_is:
  assumes "node_is t False (K @ b # L) (C @ y # z # D)" and "length K = length C"
    and "node_is y l (ys @ [a]) (ds @ ex)" and "length ex = (if l then 0 else 1)" and "node_is z l [c] es"
  shows "\<exists>t' y' z'. BTreeShiftToRightChild t (int (length C)) y z = Some t' \<and>
    node_is t' False (K @ a # L) (C @ y' # z' # D) \<and> node_is y' l ys ds \<and> node_is z' l [b, c] (ex @ es)"
proof -
  obtain yk yp where y: "y = Node ((ys @ [a]) @ yk) (map Some (ds @ ex) @ yp) (int (length (ys @ [a]))) l"
    "length (ys @ [a]) + length yk = 3" "length (ds @ ex) + length yp = 4"
    "if l then ds @ ex = [] \<and> yp = replicate 4 None else length (ds @ ex) = length (ys @ [a]) + 1"
    using assms(3) by (auto simp: node_is_def)
  obtain j1 j2 zp where z: "z = Node [c, j1, j2] (map Some es @ zp) 1 l" "length es + length zp = 4"
    "if l then es = [] \<and> zp = replicate 4 None else \<exists>e0 e1. es = [e0, e1]"
    by (rule node_is_one [OF assms(5)])
  have sep: "at (node_k t) (int (length C)) = Some b"
    by (rule key_at_is [OF assms(1)]) (simp add: assms(2))
  have len3: "length C < length (node_k t)" using assms(1,2) by (auto simp: node_is_def)
  let ?y = "Node (node_k y) (node_p y) (num y - 1) (isLeaf y)"
  let ?z = "Node [b, c, j2] (map Some (ex @ es) @ (if l then zp else tl zp)) 2 l"
  have k1: "for_each (\<lambda>i zk. copy_item zk (i - 1) zk i) (rev [1..num z + 1 - 1]) (node_k z) = Some [c, c, j2]"
    by (simp add: z(1) node_eval upto_eval eval_nat_numeral)
  have k2: "copy_item (node_k t) (int (length C)) [c, c, j2] 0 = Some [b, c, j2]"
    using sep by (simp add: copy_item_def put_item_def)
  have "at (node_k y) (num y - 1) = Some a"
    using at_mid [of "int (length ys)" ys a yk] by (simp add: y(1))
  then have k3: "copy_item (node_k y) (num y - 1) (node_k t) (int (length C)) = Some ((node_k t)[length C := a])"
    using len3 by (simp add: copy_item_def put_item_def)
  have p: "(if \<not> isLeaf z then do {
      zp \<leftarrow> for_each (\<lambda>i zp. copy_item zp (i - 1) zp i) (rev [1..num z + 1]) (node_p z);
      copy_item (node_p y) (num y) zp 0 } else Some (node_p z)) = Some (node_p ?z)"
  proof (cases l)
    case False
    then obtain e0 e1 d u v where e: "es = [e0, e1]" "ex = [d]" "zp = [u, v]" "length ds = length ys + 1"
      using z(2,3) y(4) assms(4) by (auto simp: length_Suc_conv eval_nat_numeral)
    have "at (node_p y) (num y) = Some (Some d)"
      using at_mid [of "num y" "map Some ds" "Some d" yp] by (simp add: y(1) e)
    then show ?thesis using False by (simp add: z(1) e copy_item_def) (simp add: node_eval upto_eval eval_nat_numeral)
  qed (use z(3) assms(4) in \<open>simp add: z(1)\<close>)
  have put_item: "put_item (node_k t) (int (length C)) a = Some ((node_k t)[length C := a])"
    using len3 by (simp add: put_item_def)
  obtain t' where t': "do { root \<leftarrow> set_child (int (length C)) ?y (Node ((node_k t)[length C := a]) (node_p t) (num t) (isLeaf t));
      set_child (int (length C) + 1) ?z root } = Some t'" "node_is t' False (K @ a # L) (C @ ?y # ?z # D)"
    using set_two [OF assms(1,2) put_item] by blast
  have "BTreeShiftToRightChild t (int (length C)) y z = Some t'"
    unfolding BTreeShiftToRightChild_def Let_def k1 using k2 k3 p t'(1) by (simp add: z(1))
  moreover have "node_is ?y l ys ds" using y assms(4) by (auto simp: node_is_def split: if_splits)
  moreover have "node_is ?z l [b, c] (ex @ es)" using z(2,3) assms(4) by (auto simp: node_is_def split: if_splits)
  ultimately show ?thesis using t'(2) by blast
qed

lemma shift_left_is:
  assumes "node_is t False (K @ b # L) (C @ y # z # D)" and "length K = length C"
    and "node_is y l [a] es" and "length ex = (if l then 0 else 1)" and "node_is z l (c # cs) (ex @ ds)"
  shows "\<exists>t' y' z'. BTreeShiftToLeftChild t (int (length C)) y z = Some t' \<and>
    node_is t' False (K @ c # L) (C @ y' # z' # D) \<and> node_is y' l [a, b] (es @ ex) \<and> node_is z' l cs ds"
proof -
  obtain zk zp where z: "z = Node ((c # cs) @ zk) (map Some (ex @ ds) @ zp) (int (length (c # cs))) l"
    "length (c # cs) + length zk = 3" "length (ex @ ds) + length zp = 4"
    "if l then ex @ ds = [] \<and> zp = replicate 4 None else length (ex @ ds) = length (c # cs) + 1"
    using assms(5) by (auto simp: node_is_def)
  obtain j1 j2 yp where y: "y = Node [a, j1, j2] (map Some es @ yp) 1 l" "length es + length yp = 4"
    "if l then es = [] \<and> yp = replicate 4 None else \<exists>e0 e1. es = [e0, e1]"
    by (rule node_is_one [OF assms(3)])
  have sep: "at (node_k t) (int (length C)) = Some b"
    by (rule key_at_is [OF assms(1)]) (simp add: assms(2))
  have len3: "length C < length (node_k t)" using assms(1,2) by (auto simp: node_is_def)
  let ?y = "Node [a, b, j2] (map Some (es @ ex) @ (if l then yp else tl yp)) 2 l"
  let ?z = "Node (cs @ last (c # cs) # zk) (if l then node_p z else map Some ds @ last (map Some (ex @ ds)) # zp) (num z - 1) l"
  have k1: "copy_item (node_k t) (int (length C)) (node_k y) (num y + 1 - 1) = Some [a, b, j2]"
    using sep by (simp add: copy_item_def put_item_def y(1))
  have k2: "copy_item (node_k z) 0 (node_k t) (int (length C)) = Some ((node_k t)[length C := c])"
    using len3 by (simp add: copy_item_def put_item_def at_def z(1))
  have k3: "for_each (\<lambda>j zk. copy_item zk j zk (j - 1)) [1..num z - 1] (node_k z) = Some (node_k ?z)"
    using shift_down [of 1 "[]" "num z - 1" cs c zk] by (simp add: z(1))
  have p1: "(if \<not> isLeaf z then copy_item (node_p z) 0 (node_p y) (num y + 1) else Some (node_p y)) = Some (node_p ?y)"
  proof (cases l)
    case False
    then obtain e0 e1 d u v where e: "es = [e0, e1]" "ex = [d]" "yp = [u, v]"
      using y(2,3) assms(4) by (auto simp: length_Suc_conv eval_nat_numeral)
    then show ?thesis using False by (simp add: z(1) y(1) node_eval eval_nat_numeral)
  qed (use y(3) assms(4) in \<open>simp add: z(1) y(1)\<close>)
  have p2: "(if \<not> isLeaf z then for_each (\<lambda>j zp. copy_item zp j zp (j - 1)) [1..num z] (node_p z)
      else Some (node_p z)) = Some (node_p ?z)"
  proof (cases l)
    case False
    then obtain d where e: "ex = [d]" "length ds = length cs + 1"
      using z(4) assms(4) by (auto simp: length_Suc_conv eval_nat_numeral)
    have "for_each (\<lambda>j zp. copy_item zp j zp (j - 1)) [1..num z] ([] @ Some d # map Some ds @ zp) =
        Some ([] @ map Some ds @ last (Some d # map Some ds) # zp)"
      by (rule shift_down) (simp_all add: z(1) e)
    then show ?thesis using False by (simp add: z(1) e)
  qed (simp add: z(1))
  have put_item: "put_item (node_k t) (int (length C)) c = Some ((node_k t)[length C := c])"
    using len3 by (simp add: put_item_def)
  obtain t' where t': "do { root \<leftarrow> set_child (int (length C)) ?y (Node ((node_k t)[length C := c]) (node_p t) (num t) (isLeaf t));
      set_child (int (length C) + 1) ?z root } = Some t'" "node_is t' False (K @ c # L) (C @ ?y # ?z # D)"
    using set_two [OF assms(1,2) put_item] by blast
  have "BTreeShiftToLeftChild t (int (length C)) y z = Some t'"
    unfolding BTreeShiftToLeftChild_def Let_def k1 k2 k3 p1 p2 using t'(1) by (simp add: z(1) y(1))
  moreover have "node_is ?y l [a, b] (es @ ex)" using y(2,3) assms(4) by (auto simp: node_is_def split: if_splits)
  moreover have "node_is ?z l cs ds" using z assms(4) by (auto simp: node_is_def split: if_splits)
  ultimately show ?thesis using t'(2) by blast
qed

section \<open>Deletion\<close>

lemma predecessor_spec:
  "holds h t xs \<Longrightarrow> 1 \<le> num t \<Longrightarrow> xs \<noteq> [] \<and> BTreeSearchPredecessor t = Some (last xs)"
proof (induction h arbitrary: t xs)
  case 0
  then have t: "node_is t True xs []" by simp
  then have "xs \<noteq> []" using 0 node_is_fields by fastforce
  then obtain K b where xs: "xs = K @ [b]" by (cases xs rule: rev_cases) auto
  then have "at (node_k t) (num t - 1) = Some b"
    using key_at_is [of t True K b "[]" "[]" "num t - 1"] t node_is_fields [OF t] by simp
  then show ?case using xs node_is_fields [OF t] by (subst BTreeSearchPredecessor.simps) simp
next
  case (Suc h)
  obtain ks cs where t: "node_is t False ks cs" "length cs = length ks + 1"
    and place: "\<And>K L C c D. ks = K @ L \<Longrightarrow> cs = C @ c # D \<Longrightarrow> length K = length C \<Longrightarrow>
      \<exists>X y Y. around h t K C X c y L D Y \<and> xs = lo X K @ y @ hi L Y \<and> 1 \<le> num c"
    by (rule holds_around [OF Suc.prems(1)]) (rule that; assumption?)
  obtain C c where C: "cs = C @ [c]" "length C = length ks"
    using t(2) by (cases cs rule: rev_cases) auto
  obtain X y Y where X: "around h t ks C X c y [] [] Y" "xs = lo X ks @ y @ hi [] Y" "1 \<le> num c"
    using place [of ks "[]" C c "[]"] C by auto
  then have "holds h c y" by (simp add: around_def)
  note IH = Suc.IH [OF this X(3)]
  have "child_at t (num t) = Some c"
    using around_child [OF X(1)] node_is_fields [OF t(1)] C(2) by simp
  then show ?case
    using IH X(2) node_is_fields [OF t(1)] by (subst BTreeSearchPredecessor.simps) simp
qed

lemma successor_spec:
  "holds h t xs \<Longrightarrow> 1 \<le> num t \<Longrightarrow> xs \<noteq> [] \<and> BTreeSearchSuccessor t = Some (hd xs)"
proof (induction h arbitrary: t xs)
  case 0
  then have t: "node_is t True xs []" by simp
  then have "xs \<noteq> []" using 0 node_is_fields by fastforce
  then obtain b L where xs: "xs = b # L" by (cases xs) auto
  then have "at (node_k t) 0 = Some b" using key_at_is [of t True "[]" b L "[]" 0] t by simp
  then show ?case using xs node_is_fields [OF t] by (subst BTreeSearchSuccessor.simps) simp
next
  case (Suc h)
  obtain ks cs where t: "node_is t False ks cs" "length cs = length ks + 1"
    and place: "\<And>K L C c D. ks = K @ L \<Longrightarrow> cs = C @ c # D \<Longrightarrow> length K = length C \<Longrightarrow>
      \<exists>X y Y. around h t K C X c y L D Y \<and> xs = lo X K @ y @ hi L Y \<and> 1 \<le> num c"
    by (rule holds_around [OF Suc.prems(1)]) (rule that; assumption?)
  obtain c D where C: "cs = c # D" using t(2) by (cases cs) auto
  obtain X y Y where X: "around h t [] [] X c y ks D Y" "xs = lo X [] @ y @ hi ks Y" "1 \<le> num c"
    using place [of "[]" ks "[]" c D] C by auto
  then have "holds h c y" by (simp add: around_def)
  note IH = Suc.IH [OF this X(3)]
  have "child_at t 0 = Some c" using around_child [OF X(1)] by simp
  then show ?case
    using IH X(2) node_is_fields [OF t(1)] by (subst BTreeSearchSuccessor.simps) simp
qed

lemma up_pos_spec:
  assumes "sorted ks"
  shows "\<exists>K L. ks = K @ L \<and> up_pos x (int (length A)) (int (length A + length ks)) (A @ ks @ J) = Some (int (length A + length K)) \<and>
    (\<forall>k\<in>set K. k < x) \<and> (\<forall>k\<in>set L. x \<le> k)"
  using assms
proof (induction ks arbitrary: A)
  case Nil
  show ?case by (subst up_pos.simps) simp
next
  case (Cons k ks)
  have at: "at (A @ (k # ks) @ J) (int (length A)) = Some k"
    using at_mid [of "int (length A)" A k "ks @ J"] by simp
  show ?case
  proof (cases "k < x")
    case True
    obtain K L where K: "ks = K @ L" "\<forall>k\<in>set K. k < x" "\<forall>k\<in>set L. x \<le> k"
      "up_pos x (int (length (A @ [k]))) (int (length (A @ [k]) + length ks)) ((A @ [k]) @ ks @ J) =
        Some (int (length (A @ [k]) + length K))"
      using Cons.IH [of "A @ [k]"] Cons.prems by auto
    have "up_pos x (int (length A)) (int (length A + length (k # ks))) (A @ (k # ks) @ J) =
        up_pos x (int (length (A @ [k]))) (int (length (A @ [k]) + length ks)) ((A @ [k]) @ ks @ J)"
      using at True by (subst up_pos.simps) (simp add: add.commute)
    then show ?thesis using K True by (intro exI [of _ "k # K"] exI [of _ L]) simp
  next
    case False
    then have "up_pos x (int (length A)) (int (length A + length (k # ks))) (A @ (k # ks) @ J) = Some (int (length A))"
      using at by (subst up_pos.simps) simp
    then show ?thesis using False Cons.prems by (intro exI [of _ "[]"] exI [of _ "k # ks"]) auto
  qed
qed

lemma lo_less:
  assumes "sorted (lo X K)" and "length X = length K" and "\<forall>k\<in>set K. k < x"
  shows "\<forall>a\<in>set (lo X K). a < (x :: int)"
proof -
  have "\<forall>a\<in>set (lo X K). a \<le> x - 1"
    by (rule lo_le [OF assms(1,2)]) (use assms(3) in \<open>cases K rule: rev_cases; auto\<close>)
  then show ?thesis by auto
qed

lemma hi_greater:
  assumes "sorted (hi L Y)" and "length Y = length L" and "L \<noteq> [] \<longrightarrow> x < hd L"
  shows "\<forall>b\<in>set (hi L Y). (x :: int) < b"
proof -
  have "\<forall>b\<in>set (hi L Y). x + 1 \<le> b"
    by (rule hi_ge [OF assms(1,2)]) (use assms(3) in auto)
  then show ?thesis by auto
qed

text \<open>The keys of a run of a node and of the children between them.\<close>

definition piece :: "nat \<Rightarrow> int list \<Rightarrow> node list \<Rightarrow> int list \<Rightarrow> bool" where
  "piece h K C xs \<longleftrightarrow>
     (case h of 0 \<Rightarrow> C = [] \<and> xs = K
      | Suc g \<Rightarrow> length C = length K + 1 \<and>
          (\<exists>X. list_all2 (\<lambda>c ys. holds g c ys \<and> 1 \<le> num c) C X \<and> xs = weave X K))"

lemma holds_piece: "holds h t xs \<longleftrightarrow> (\<exists>K C. node_is t (h = 0) K C \<and> piece h K C xs)"
proof (cases h)
  case (Suc g)
  have "node_is t False K C \<Longrightarrow> length C = length K + 1" for K C by (rule node_is_children)
  then show ?thesis unfolding Suc holds.simps piece_def by (simp, blast)
qed (auto simp: piece_def dest: node_is_leaf)

lemma holds_intro: "node_is t (h = 0) K C \<Longrightarrow> piece h K C xs \<Longrightarrow> holds h t xs"
  by (auto simp: holds_piece)

lemma weave_append:
  assumes "length X1 = length K1 + 1" and "length X2 = length K2 + 1"
  shows "weave (X1 @ X2) (K1 @ b # K2) = weave X1 K1 @ b # weave X2 K2"
proof -
  obtain X x where X1: "X1 = X @ [x]" "length X = length K1"
    using assms(1) by (cases X1 rule: rev_cases) auto
  obtain y Y where X2: "X2 = y # Y" using assms(2) by (cases X2) auto
  have "weave X1 K1 = lo X K1 @ x" using weave_at [OF X1(2), of x "[]" "[]"] X1(1) by simp
  moreover have "weave X2 K2 = y @ hi K2 Y" by (simp add: X2 weave_def)
  moreover have "weave (X1 @ X2) (K1 @ b # K2) = lo X K1 @ x @ hi (b # K2) (y # Y)"
    using weave_at [OF X1(2), of x "y # Y" "b # K2"] X1(1) X2 by simp
  ultimately show ?thesis by simp
qed

lemma piece_join:
  assumes "piece h K1 C1 x1" and "piece h K2 C2 x2"
  shows "piece h (K1 @ b # K2) (C1 @ C2) (x1 @ b # x2)"
proof (cases h)
  case (Suc g)
  obtain X1 where 1: "length C1 = length K1 + 1" "list_all2 (\<lambda>c ys. holds g c ys \<and> 1 \<le> num c) C1 X1" "x1 = weave X1 K1"
    using assms(1) by (auto simp: piece_def Suc)
  obtain X2 where 2: "length C2 = length K2 + 1" "list_all2 (\<lambda>c ys. holds g c ys \<and> 1 \<le> num c) C2 X2" "x2 = weave X2 K2"
    using assms(2) by (auto simp: piece_def Suc)
  have "length X1 = length K1 + 1" "length X2 = length K2 + 1"
    using 1(1,2) 2(1,2) by (simp_all add: list_all2_lengthD [symmetric])
  then have "x1 @ b # x2 = weave (X1 @ X2) (K1 @ b # K2)" using 1(3) 2(3) by (simp add: weave_append)
  moreover have "list_all2 (\<lambda>c ys. holds g c ys \<and> 1 \<le> num c) (C1 @ C2) (X1 @ X2)"
    using 1(2) 2(2) by (rule list_all2_appendI)
  ultimately show ?thesis using 1(1) 2(1) by (auto simp: piece_def Suc)
qed (use assms in \<open>simp add: piece_def\<close>)

lemma piece_split:
  assumes "piece h (K1 @ b # K2) C xs"
  obtains C1 C2 x1 x2 where "C = C1 @ C2" and "piece h K1 C1 x1" and "piece h K2 C2 x2" and "xs = x1 @ b # x2"
proof (cases h)
  case 0
  show ?thesis by (rule that [of "[]" "[]" K1 K2]) (use assms in \<open>simp_all add: piece_def 0\<close>)
next
  case (Suc g)
  obtain X where X: "length C = length K1 + length K2 + 2"
    "list_all2 (\<lambda>c ys. holds g c ys \<and> 1 \<le> num c) C X" "xs = weave X (K1 @ b # K2)"
    using assms by (auto simp: piece_def Suc)
  let ?n = "length K1 + 1"
  have len: "length X = length K1 + length K2 + 2" using X(1,2) by (simp add: list_all2_lengthD [symmetric])
  have "xs = weave (take ?n X) K1 @ b # weave (drop ?n X) K2"
    using weave_append [of "take ?n X" K1 "drop ?n X" K2 b] len X(3) by simp
  moreover have "list_all2 (\<lambda>c ys. holds g c ys \<and> 1 \<le> num c) (take ?n C) (take ?n X)"
    "list_all2 (\<lambda>c ys. holds g c ys \<and> 1 \<le> num c) (drop ?n C) (drop ?n X)"
    using X(2) by (simp_all add: list_all2_takeI list_all2_dropI)
  ultimately show ?thesis
    using that [of "take ?n C" "drop ?n C" "weave (take ?n X) K1" "weave (drop ?n X) K2"] X(1)
    by (auto simp: piece_def Suc)
qed

lemma one_key:
  assumes "holds h z zs" and "num z = 1"
  obtains c es where "node_is z (h = 0) [c] es" and "piece h [c] es zs"
proof -
  obtain K C where z: "node_is z (h = 0) K C" "piece h K C zs" using assms(1) by (auto simp: holds_piece)
  then have "length K = 1" using node_is_fields [OF z(1)] assms(2) by simp
  then obtain c where "K = [c]" by (auto simp: length_Suc_conv)
  then show ?thesis using that z by simp
qed

lemma piece_end: "piece h [] ex xs \<Longrightarrow> length ex = (if h = 0 then 0 else 1)"
  by (cases h) (auto simp: piece_def)

lemma merge_two:
  assumes "node_is t False (K @ b # L) (C @ y # z # D)" and "length K = length C"
    and "holds h y ys" and "num y = 1" and "holds h z zs" and "num z = 1"
  shows "\<exists>t' m. BTreeMergeChild t (int (length C)) y z = Some (t', m) \<and> node_is t' False (K @ L) (C @ m # D) \<and>
    holds h m (ys @ b # zs) \<and> num m = 3"
proof -
  obtain a es where y: "node_is y (h = 0) [a] es" "piece h [a] es ys" by (rule one_key [OF assms(3,4)])
  obtain c fs where z: "node_is z (h = 0) [c] fs" "piece h [c] fs zs" by (rule one_key [OF assms(5,6)])
  obtain t' m where m: "BTreeMergeChild t (int (length C)) y z = Some (t', m)" "node_is t' False (K @ L) (C @ m # D)"
    "node_is m (h = 0) [a, b, c] (es @ fs)" using merge_is [OF assms(1,2) y(1) z(1)] by blast
  have "piece h [a, b, c] (es @ fs) (ys @ b # zs)" using piece_join [OF y(2) z(2), of b] by simp
  then show ?thesis using m node_is_fields [OF m(3)] by (auto simp: holds_piece)
qed

lemma borrow_left:
  assumes "node_is t False (K @ b # L) (C @ y # z # D)" and "length K = length C"
    and "holds h y ys" and "2 \<le> num y" and "holds h z zs" and "num z = 1"
  shows "\<exists>t' y' z' a ya ye. BTreeShiftToRightChild t (int (length C)) y z = Some t' \<and>
    node_is t' False (K @ a # L) (C @ y' # z' # D) \<and> holds h y' ya \<and> 1 \<le> num y' \<and>
    holds h z' (ye @ b # zs) \<and> num z' = 2 \<and> ys = ya @ a # ye"
proof -
  obtain Ky Cy where y: "node_is y (h = 0) Ky Cy" "piece h Ky Cy ys" using assms(3) by (auto simp: holds_piece)
  have "2 \<le> length Ky" using node_is_fields [OF y(1)] assms(4) by simp
  then obtain ks a where Ky: "Ky = ks @ [a]" "1 \<le> length ks" by (cases Ky rule: rev_cases) auto
  obtain ds ex ya ye where e: "Cy = ds @ ex" "piece h ks ds ya" "piece h [] ex ye" "ys = ya @ a # ye"
    by (rule piece_split [of h ks a "[]" Cy ys]) (use y(2) Ky(1) in simp)
  obtain c es where z: "node_is z (h = 0) [c] es" "piece h [c] es zs" by (rule one_key [OF assms(5,6)])
  obtain t' y' z' where s: "BTreeShiftToRightChild t (int (length C)) y z = Some t'"
    "node_is t' False (K @ a # L) (C @ y' # z' # D)" "node_is y' (h = 0) ks ds" "node_is z' (h = 0) [b, c] (ex @ es)"
    using shift_right_is [OF assms(1,2) y(1) [unfolded Ky(1) e(1)] piece_end [OF e(3)] z(1)] by blast
  have "piece h [b, c] (ex @ es) (ye @ b # zs)" using piece_join [OF e(3) z(2), of b] by simp
  then have "holds h z' (ye @ b # zs)" by (rule holds_intro [OF s(4)])
  moreover have "holds h y' ya" using s(3) e(2) by (rule holds_intro)
  moreover have "1 \<le> num y'" "num z' = 2" using Ky(2) node_is_fields [OF s(3)] node_is_fields [OF s(4)] by auto
  ultimately show ?thesis using s(1,2) e(4) by blast
qed

lemma borrow_right:
  assumes "node_is t False (K @ b # L) (C @ y # z # D)" and "length K = length C"
    and "holds h y ys" and "num y = 1" and "holds h z zs" and "2 \<le> num z"
  shows "\<exists>t' y' z' c ze zr. BTreeShiftToLeftChild t (int (length C)) y z = Some t' \<and>
    node_is t' False (K @ c # L) (C @ y' # z' # D) \<and> holds h y' (ys @ b # ze) \<and> num y' = 2 \<and>
    holds h z' zr \<and> 1 \<le> num z' \<and> zs = ze @ c # zr"
proof -
  obtain Kz Cz where z: "node_is z (h = 0) Kz Cz" "piece h Kz Cz zs" using assms(5) by (auto simp: holds_piece)
  have "2 \<le> length Kz" using node_is_fields [OF z(1)] assms(6) by simp
  then obtain c cs where Kz: "Kz = c # cs" "1 \<le> length cs" by (cases Kz) auto
  obtain ex ds ze zr where e: "Cz = ex @ ds" "piece h [] ex ze" "piece h cs ds zr" "zs = ze @ c # zr"
    by (rule piece_split [of h "[]" c cs Cz zs]) (use z(2) Kz(1) in simp)
  obtain a es where y: "node_is y (h = 0) [a] es" "piece h [a] es ys" by (rule one_key [OF assms(3,4)])
  obtain t' y' z' where s: "BTreeShiftToLeftChild t (int (length C)) y z = Some t'"
    "node_is t' False (K @ c # L) (C @ y' # z' # D)" "node_is y' (h = 0) [a, b] (es @ ex)" "node_is z' (h = 0) cs ds"
    using shift_left_is [OF assms(1,2) y(1) piece_end [OF e(2)] z(1) [unfolded Kz(1) e(1)]] by blast
  have "piece h [a, b] (es @ ex) (ys @ b # ze)" using piece_join [OF y(2) e(2), of b] by simp
  then have "holds h y' (ys @ b # ze)" by (rule holds_intro [OF s(3)])
  moreover have "holds h z' zr" using s(4) e(3) by (rule holds_intro)
  moreover have "num y' = 2" "1 \<le> num z'" using Kz(2) node_is_fields [OF s(3)] node_is_fields [OF s(4)] by auto
  ultimately show ?thesis using s(1,2) e(4) by blast
qed

definition spare :: "node \<Rightarrow> bool" where
  "spare t \<longleftrightarrow> (num t = 1 \<longrightarrow>
     \<not> (\<exists>y z. child_at t 0 = Some y \<and> child_at t 1 = Some z \<and> num y = 1 \<and> num z = 1))"

lemma fill_child_spec:
  assumes "around h t K C X c y L D Y" and "1 \<le> num c" and "1 \<le> num t" and "spare t"
  shows "\<exists>t2 K2 C2 X2 c2 y2 L2 D2 Y2. fill_child t (int (length C)) c = Some (t2, int (length C2)) \<and>
    around h t2 K2 C2 X2 c2 y2 L2 D2 Y2 \<and> 2 \<le> num c2 \<and> lo X K @ y @ hi L Y = lo X2 K2 @ y2 @ hi L2 Y2 \<and>
    set y \<subseteq> set y2 \<and> num t - 1 \<le> num t2 \<and> 1 \<le> num t2"
proof (cases "num c = 1")
  case False
  then have "fill_child t (int (length C)) c = Some (t, int (length C))" "2 \<le> num c"
    using assms(2) by (simp_all add: fill_child_def M_def)
  then show ?thesis using assms(1,3) by (intro exI conjI) (assumption | simp)+
next
  case one: True
  let ?good = "\<lambda>c ys. holds h c ys \<and> 1 \<le> num c"
  have t: "node_is t False (K @ L) (C @ c # D)" "length K = length C" "length X = length C" "holds h c y"
    "list_all2 ?good C X" "list_all2 ?good D Y" using assms(1) by (simp_all add: around_def)
  have n: "num t = int (length K + length L)" using node_is_fields [OF t(1)] by simp
  have DL: "length D = length L" using node_is_children [OF t(1)] t(2) by simp
  define left where "left \<longleftrightarrow> (\<exists>C' p. C = C' @ [p] \<and> 2 \<le> num p)"
  define right where "right \<longleftrightarrow> \<not> left \<and> (\<exists>z D'. D = z # D' \<and> 2 \<le> num z)"
  have leftC: "child_at t (int (length C) - 1) = Some (last C)" if "C \<noteq> []"
    using child_at_is [OF t(1), of "length C - 1"] that
    by (cases C rule: rev_cases) (auto simp: nth_append)
  have rightC: "child_at t (int (length C) + 1) = Some (hd D)" if "D \<noteq> []"
    using child_at_is [OF t(1), of "Suc (length C)"] that by (cases D) (auto simp: nth_append add.commute)
  have l: "(if 0 < int (length C) then do { p \<leftarrow> child_at t (int (length C) - 1); Some (M - 1 < num p) } else Some False)
      = Some left"
    using leftC by (cases C rule: rev_cases) (auto simp: left_def M_def)
  have r: "(if \<not> left \<and> int (length C) < num t then do { z \<leftarrow> child_at t (int (length C) + 1); Some (M - 1 < num z) } else Some False)
      = Some right"
    using rightC DL t(2) by (cases D) (auto simp: right_def M_def n)
  have m: "num c = M - 1" using one by (simp add: M_def)
  have fill: "fill_child t (int (length C)) c =
     (if left then do {
        p \<leftarrow> child_at t (int (length C) - 1);
        root \<leftarrow> BTreeShiftToRightChild t (int (length C) - 1) p c;
        Some (root, int (length C))
      } else if right then do {
        z \<leftarrow> child_at t (int (length C) + 1);
        root \<leftarrow> BTreeShiftToLeftChild t (int (length C)) c z;
        Some (root, int (length C))
      } else if 0 < int (length C) then do {
        p \<leftarrow> child_at t (int (length C) - 1);
        m \<leftarrow> BTreeMergeChild t (int (length C) - 1) p c;
        Some (fst m, int (length C) - 1)
      } else do {
        z \<leftarrow> (if int (length C) < num t then child_at t (int (length C) + 1) else None);
        m \<leftarrow> BTreeMergeChild t (int (length C)) c z;
        Some (fst m, int (length C))
      })"
    by (simp only: fill_child_def m simp_thms if_True l Option.bind.simps r)
  consider "left" | "right" | "\<not> left" "\<not> right" "C \<noteq> []" | "\<not> left" "\<not> right" "C = []" by blast
  then show ?thesis
  proof cases
    case 1
    then obtain C' p where C: "C = C' @ [p]" "2 \<le> num p" by (auto simp: left_def)
    obtain K' b where K: "K = K' @ [b]" using t(2) C(1) by (cases K rule: rev_cases) auto
    obtain X' px where X: "X = X' @ [px]" using t(3) C(1) by (cases X rule: rev_cases) auto
    have ch: "holds h p px" "list_all2 ?good C' X'" using t(5) by (simp_all add: C X list_all2_append1)
        (auto simp: list_all2_append1 list_all2_append2 C X dest: list_all2_lengthD)
    have nd: "node_is t False (K' @ b # L) (C' @ p # c # D)" using t(1) by (simp add: K C)
    have len: "length K' = length C'" using t(2) by (simp add: K C)
    obtain t' p' c' a pa pe where s: "BTreeShiftToRightChild t (int (length C')) p c = Some t'"
      "node_is t' False (K' @ a # L) (C' @ p' # c' # D)" "holds h p' pa" "1 \<le> num p'"
      "holds h c' (pe @ b # y)" "num c' = 2" "px = pa @ a # pe"
      using borrow_left [OF nd len ch(1) C(2) t(4) one] by blast
    have "fill_child t (int (length C)) c = Some (t', int (length (C' @ [p'])))"
      using 1 one s(1) leftC fill by (simp add: C M_def)
    moreover have "around h t' (K' @ [a]) (C' @ [p']) (X' @ [pa]) c' (pe @ b # y) L D Y"
      using s ch(2) t(3,6) len by (simp add: around_def list_all2_appendI X C)
    moreover have "num t' = num t" using node_is_fields [OF s(2)] node_is_fields [OF nd] by simp
    moreover have "lo X K @ y @ hi L Y = lo (X' @ [pa]) (K' @ [a]) @ (pe @ b # y) @ hi L Y"
      using len t(3) s(7) by (simp add: X K C)
    ultimately show ?thesis using s(6) assms(3) by (intro exI conjI) (assumption | simp | auto)+
  next
    case 2
    then obtain z D' where D: "D = z # D'" "2 \<le> num z" by (auto simp: right_def)
    have nl: "\<not> left" using 2 by (simp add: right_def)
    obtain b L' where L: "L = b # L'" using DL D(1) by (cases L) auto
    obtain zy Y' where Y: "Y = zy # Y'" "holds h z zy" "list_all2 ?good D' Y'"
      using t(6) by (auto simp: D list_all2_Cons1)
    have nd: "node_is t False (K @ b # L') (C @ c # z # D')" using t(1) by (simp add: L D)
    obtain t' c' z' d ze zr where s: "BTreeShiftToLeftChild t (int (length C)) c z = Some t'"
      "node_is t' False (K @ d # L') (C @ c' # z' # D')" "holds h c' (y @ b # ze)" "num c' = 2"
      "holds h z' zr" "1 \<le> num z'" "zy = ze @ d # zr"
      using borrow_right [OF nd t(2,4) one Y(2) D(2)] by blast
    have "fill_child t (int (length C)) c = Some (t', int (length C))"
      using 2 nl one s(1) rightC fill by (simp add: D M_def)
    moreover have "around h t' K C X c' (y @ b # ze) (d # L') (z' # D') (zr # Y')"
      using s Y(3) t(2,3,5) by (simp add: around_def)
    moreover have "num t' = num t" using node_is_fields [OF s(2)] node_is_fields [OF nd] by simp
    moreover have "lo X K @ y @ hi L Y = lo X K @ (y @ b # ze) @ hi (d # L') (zr # Y')"
      using s(7) by (simp add: L Y)
    ultimately show ?thesis using s(4) assms(3) by (intro exI conjI) (assumption | simp | auto)+
  next
    case 3
    then obtain C' p where C: "C = C' @ [p]" by (cases C rule: rev_cases) auto
    obtain K' b where K: "K = K' @ [b]" using t(2) C by (cases K rule: rev_cases) auto
    obtain X' px where X: "X = X' @ [px]" using t(3) C by (cases X rule: rev_cases) auto
    have ch: "holds h p px \<and> 1 \<le> num p" "list_all2 ?good C' X'"
      using t(3,5) by (auto simp: C X list_all2_append)
    have p1: "num p = 1" using 3(1) ch(1) by (auto simp: left_def C)
    have nd: "node_is t False (K' @ b # L) (C' @ p # c # D)" using t(1) by (simp add: K C)
    have len: "length K' = length C'" using t(2) by (simp add: K C)
    obtain t' m where s: "BTreeMergeChild t (int (length C')) p c = Some (t', m)"
      "node_is t' False (K' @ L) (C' @ m # D)" "holds h m (px @ b # y)" "num m = 3"
      using merge_two [OF nd len _ p1 t(4) one] ch(1) by blast
    have "2 \<le> num t"
    proof (rule ccontr)
      assume "\<not> 2 \<le> num t"
      then have "num t = 1" using assms(3) by simp
      moreover have lk: "length K = Suc (length C')" by (simp add: K len)
      moreover have "length C' = 0" using calculation n by linarith
      moreover have "length L = 0" using calculation n by linarith
      ultimately have "num t = 1" "C' = []" "L = []" by simp_all
      moreover from this have "child_at t 0 = Some p" "child_at t 1 = Some c"
        using child_at_is [OF nd, of 0] child_at_is [OF nd, of 1] by simp_all
      ultimately show False using assms(4) p1 one by (auto simp: spare_def)
    qed
    moreover have "fill_child t (int (length C)) c = Some (t', int (length C'))"
      using 3 one s(1) leftC fill by (simp add: C M_def)
    moreover have "around h t' K' C' X' m (px @ b # y) L D Y"
      using s ch(2) t(3,6) len by (simp add: around_def X C)
    moreover have "num t' = num t - 1" using node_is_fields [OF s(2)] node_is_fields [OF nd] by simp
    moreover have "lo X K @ y @ hi L Y = lo X' K' @ (px @ b # y) @ hi L Y"
      using len t(3) by (simp add: X K C)
    ultimately show ?thesis using s(4) by (intro exI conjI) (assumption | simp | auto)+
  next
    case 4
    then have "L \<noteq> []" using assms(3) n t(2) by auto
    then obtain b L' where L: "L = b # L'" by (cases L) auto
    obtain z D' where D: "D = z # D'" using DL L by (cases D) auto
    obtain zy Y' where Y: "Y = zy # Y'" "holds h z zy" "1 \<le> num z" "list_all2 ?good D' Y'"
      using t(6) by (auto simp: D list_all2_Cons1)
    have z1: "num z = 1" using 4(1,2) Y(3) by (auto simp: right_def D)
    have nd: "node_is t False (K @ b # L') (C @ c # z # D')" using t(1) by (simp add: L D)
    obtain t' m where s: "BTreeMergeChild t (int (length C)) c z = Some (t', m)"
      "node_is t' False (K @ L') (C @ m # D')" "holds h m (y @ b # zy)" "num m = 3"
      using merge_two [OF nd t(2,4) one Y(2) z1] by blast
    have "2 \<le> num t"
    proof (rule ccontr)
      assume "\<not> 2 \<le> num t"
      then have "num t = 1" using assms(3) by simp
      moreover have "child_at t 0 = Some c" "child_at t 1 = Some z"
        using child_at_is [OF nd, of 0] child_at_is [OF nd, of 1] 4(3) by simp_all
      ultimately show False using assms(4) z1 one by (auto simp: spare_def)
    qed
    moreover have "fill_child t (int (length C)) c = Some (t', int (length C))"
      using 4 one s(1) rightC n t(2) fill by (simp add: D L M_def)
    moreover have "around h t' K C X m (y @ b # zy) L' D' Y'"
      using s Y(4) t(2,3,5) by (simp add: around_def)
    moreover have "num t' = num t - 1" using node_is_fields [OF s(2)] node_is_fields [OF nd] by simp
    moreover have "lo X K @ y @ hi L Y = lo X K @ (y @ b # zy) @ hi L' Y'" by (simp add: L Y)
    ultimately show ?thesis using s(4) by (intro exI conjI) (assumption | simp | auto)+
  qed
qed

lemma delete_leaf_spec:
  assumes "node_is t True xs []" and "sorted xs" and "x \<in> set xs"
  shows "\<exists>t'. BTreeDeleteNonone x (t, n) = Some (t', n + 1) \<and> node_is t' True (remove1 x xs) [] \<and> num t' = num t - 1"
proof -
  obtain jk where t: "t = Node (xs @ jk) (replicate 4 None) (int (length xs)) True" "length xs + length jk = 3"
    using assms(1) by (auto simp: node_is_def)
  obtain K L where K: "xs = K @ L" "up_pos x 0 (int (length xs)) (xs @ jk) = Some (int (length K))"
    "\<forall>k\<in>set K. k < x" "\<forall>k\<in>set L. x \<le> k"
    using up_pos_spec [OF assms(2), of x "[]" jk] by auto
  have xL: "x \<in> set L" using assms(3) K(1,3) by auto
  then obtain z L' where L: "L = z # L'" by (cases L) auto
  have "sorted (z # L')" using assms(2) by (simp add: K(1) L sorted_append)
  then have "z = x" using xL K(4) by (auto simp: L intro: order_antisym)
  with L have L: "L = x # L'" by simp
  have read: "at (xs @ jk) (int (length K)) = Some x"
    using at_mid [of "int (length K)" K x "L' @ jk"] by (simp add: K(1) L)
  have loop: "for_each (\<lambda>j ks. copy_item ks j ks (j - 1)) [int (length K) + 1..2 * M - 2] (K @ x # (L' @ jk) @ []) =
      Some (K @ (L' @ jk) @ last (x # L' @ jk) # [])"
    by (rule shift_down) (use t(2) in \<open>simp_all add: M_def K(1) L\<close>)
  let ?t = "Node (K @ L' @ jk @ [last (x # L' @ jk)]) (replicate 4 None) (int (length xs) - 1) True"
  have "BTreeDeleteNonone x (t, n) = Some (?t, n + 1)"
    using K(2) read loop by (subst BTreeDeleteNonone.simps) (simp add: t(1) K(1) L)
  moreover have "remove1 x xs = K @ L'" using K(3) by (auto simp: K(1) L remove1_append)
  then have "node_is ?t True (remove1 x xs) []"
    using t(2) by (simp add: node_is_def K(1) L)
  ultimately show ?thesis by (auto simp: t(1))
qed

lemma remove1_sorted:
  assumes "sorted xs" and "sorted ys" and "mset xs = add_mset x (mset ys)"
  shows "remove1 x xs = (ys :: int list)"
proof (rule same_sorted)
  show "mset (remove1 x xs) = mset ys" using assms(3) by simp
  show "sorted (remove1 x xs)" using assms(1) by (rule sorted_remove1)
qed (rule assms(2))

text \<open>What deletion does at a height, for a key that is there.\<close>

definition deletes :: "nat \<Rightarrow> bool" where
  "deletes h \<longleftrightarrow> (\<forall>t xs x n. holds h t xs \<longrightarrow> sorted xs \<longrightarrow> x \<in> set xs \<longrightarrow> h = 0 \<or> 1 \<le> num t \<and> spare t \<longrightarrow>
     (\<exists>t'. BTreeDeleteNonone x (t, n) = Some (t', n + 1) \<and> holds h t' (remove1 x xs) \<and>
        num t - 1 \<le> num t' \<and> (h = 0 \<or> 1 \<le> num t')))"

lemma deletes_child:
  assumes "deletes h" and "holds h c y" and "sorted y" and "x \<in> set y" and "2 \<le> num c"
  shows "\<exists>c'. BTreeDeleteNonone x (c, n) = Some (c', n + 1) \<and> holds h c' (remove1 x y) \<and> 1 \<le> num c'"
proof -
  have "spare c" "1 \<le> num c" using assms(5) by (simp_all add: spare_def)
  then obtain c' where "BTreeDeleteNonone x (c, n) = Some (c', n + 1)" "holds h c' (remove1 x y)" "num c - 1 \<le> num c'"
    using assms(1-4) unfolding deletes_def by blast
  then show ?thesis using assms(5) by auto
qed

lemma remove1_last: "sorted ys \<Longrightarrow> ys \<noteq> [] \<Longrightarrow> remove1 (last ys) ys = (butlast ys :: int list)"
  by (cases ys rule: rev_cases) (auto intro: remove1_sorted simp: sorted_append)

lemma remove1_hd: "ys \<noteq> [] \<Longrightarrow> remove1 (hd ys) ys = tl ys"
  by (cases ys) simp_all

text \<open>The key is in the node itself.\<close>

lemma delete_here_spec:
  assumes "deletes h" and "around h t K C X c y (x # L) (z # D) (zy # Y)" and "1 \<le> num c"
    and "spare t" and "sorted (lo X K @ y @ x # zy @ hi L Y)"
    and "up_pos x 0 (num t) (node_k t) = Some (int (length C))"
  shows "\<exists>t'. BTreeDeleteNonone x (t, n) = Some (t', n + 1) \<and>
    holds (Suc h) t' (remove1 x (lo X K @ y @ x # zy @ hi L Y)) \<and> num t - 1 \<le> num t' \<and> 1 \<le> num t'"
proof -
  let ?xs = "lo X K @ y @ x # zy @ hi L Y"
  let ?good = "\<lambda>c ys. holds h c ys \<and> 1 \<le> num c"
  have t: "node_is t False (K @ x # L) (C @ c # z # D)" "length K = length C" "length X = length C" "holds h c y"
    "holds h z zy" "1 \<le> num z" "list_all2 ?good C X" "list_all2 ?good D Y"
    using assms(2) by (simp_all add: around_def)
  have n: "num t = int (length K + length L + 1)" "\<not> isLeaf t" using node_is_fields [OF t(1)] by simp_all
  have key: "at (node_k t) (int (length C)) = Some x"
    by (rule key_at_is [OF t(1)]) (simp add: t(2))
  have cy: "child_at t (int (length C)) = Some c" by (rule around_child [OF assms(2)])
  have cz: "child_at t (int (length C) + 1) = Some z"
    using child_at_is [OF t(1), of "Suc (length C)"] by (simp add: nth_append add.commute)
  have in_range: "int (length C) < num t" using n(1) t(2) by simp
  have sorted: "sorted y" "sorted zy" using assms(5) by (simp_all add: sorted_append)
  note del = BTreeDeleteNonone.simps [of x "(t, n)"]
  consider "2 \<le> num c" | "num c = 1" "2 \<le> num z" | "num c = 1" "num z = 1"
    using assms(3) t(6) by linarith
  then show ?thesis
  proof cases
    case 1
    have pre: "y \<noteq> []" "BTreeSearchPredecessor c = Some (last y)" using predecessor_spec [OF t(4)] 1 by auto
    obtain c' where c': "BTreeDeleteNonone (last y) (c, n) = Some (c', n + 1)" "holds h c' (butlast y)" "1 \<le> num c'"
      using deletes_child [OF assms(1) t(4) sorted(1) _ 1, of "last y" n] pre(1) remove1_last [OF sorted(1) pre(1)] by auto
    obtain t1 where t1: "set_key (int (length C)) (last y) t = Some t1" "node_is t1 False (K @ last y # L) (C @ c # z # D)"
      using set_key_is [OF t(1), of "length C" "last y"] t(2) by (auto simp: list_update_append)
    then have "around h t1 K C X c y (last y # L) (z # D) (zy # Y)" using t by (simp add: around_def)
    from around_set [OF this c'(2)] obtain t2 where t2: "set_child (int (length C)) c' t1 = Some t2"
      "around h t2 K C X c' (butlast y) (last y # L) (z # D) (zy # Y)" "num t2 = num t1" by blast
    have "BTreeDeleteNonone x (t, n) = Some (t2, n + 1)"
      unfolding del using assms(6) n(2) key cy cz in_range 1 pre(2) c'(1) t1(1) t2(1) by (simp add: M_def)
    moreover have "remove1 x ?xs = lo X K @ butlast y @ hi (last y # L) (zy # Y)"
    proof (rule remove1_sorted [OF assms(5)])
      have "butlast y @ last y # zy = y @ zy" using pre(1) by (metis append_butlast_last_id append_Cons append_Nil append_assoc)
      then have eq: "lo X K @ butlast y @ hi (last y # L) (zy # Y) = lo X K @ y @ zy @ hi L Y"
        by (metis append.assoc append_Cons lo_hi_simps(6))
      show "sorted (lo X K @ butlast y @ hi (last y # L) (zy # Y))"
        unfolding eq using assms(5) by (auto simp: sorted_append)
      show "mset ?xs = add_mset x (mset (lo X K @ butlast y @ hi (last y # L) (zy # Y)))" unfolding eq by simp
    qed
    ultimately show ?thesis
      using around_holds [OF t2(2) c'(3)] t2(3) node_is_fields [OF t1(2)] n(1) by auto
  next
    case 2
    have nxt: "zy \<noteq> []" "BTreeSearchSuccessor z = Some (hd zy)" using successor_spec [OF t(5,6)] by auto
    obtain z' where z': "BTreeDeleteNonone (hd zy) (z, n) = Some (z', n + 1)" "holds h z' (tl zy)" "1 \<le> num z'"
      using deletes_child [OF assms(1) t(5) sorted(2) _ 2(2), of "hd zy" n] nxt(1) remove1_hd [OF nxt(1)] by auto
    obtain t1 where t1: "set_key (int (length C)) (hd zy) t = Some t1" "node_is t1 False (K @ hd zy # L) (C @ c # z # D)"
      using set_key_is [OF t(1), of "length C" "hd zy"] t(2) by (auto simp: list_update_append)
    then have "around h t1 (K @ [hd zy]) (C @ [c]) (X @ [y]) z zy L D Y"
      using t 2(1) by (simp add: around_def list_all2_appendI)
    from around_set [OF this z'(2)] obtain t2 where t2: "set_child (int (length C) + 1) z' t1 = Some t2"
      "around h t2 (K @ [hd zy]) (C @ [c]) (X @ [y]) z' (tl zy) L D Y" "num t2 = num t1"
      by (auto simp: add.commute)
    have "BTreeDeleteNonone x (t, n) = Some (t2, n + 1)"
      unfolding del using assms(6) n(2) key cy cz in_range 2 nxt(2) z'(1) t1(1) t2(1) by (simp add: M_def)
    moreover have "remove1 x ?xs = lo (X @ [y]) (K @ [hd zy]) @ tl zy @ hi L Y"
    proof (rule remove1_sorted [OF assms(5)])
      have eq: "lo (X @ [y]) (K @ [hd zy]) @ tl zy @ hi L Y = lo X K @ y @ zy @ hi L Y"
        using nxt(1) t(2,3) by simp
      show "sorted (lo (X @ [y]) (K @ [hd zy]) @ tl zy @ hi L Y)"
        unfolding eq using assms(5) by (auto simp: sorted_append)
      show "mset ?xs = add_mset x (mset (lo (X @ [y]) (K @ [hd zy]) @ tl zy @ hi L Y))" unfolding eq by simp
    qed
    ultimately show ?thesis
      using around_holds [OF t2(2) z'(3)] t2(3) node_is_fields [OF t1(2)] n(1) by auto
  next
    case 3
    have many: "2 \<le> num t"
    proof (rule ccontr)
      assume "\<not> 2 \<le> num t"
      then have "num t = 1" using n(1) by linarith
      moreover then have "length C = 0" using n(1) t(2) by linarith
      ultimately have "num t = 1" "C = []" by simp_all
      then show False using assms(4) cy cz 3 by (auto simp: spare_def)
    qed
    obtain t1 m where m: "BTreeMergeChild t (int (length C)) c z = Some (t1, m)" "node_is t1 False (K @ L) (C @ m # D)"
      "holds h m (y @ x # zy)" "num m = 3" using merge_two [OF t(1,2,4) 3(1) t(5) 3(2)] by blast
    have "sorted (y @ x # zy)" using assms(5) by (auto simp: sorted_append)
    then obtain m' where m': "BTreeDeleteNonone x (m, n) = Some (m', n + 1)" "holds h m' (remove1 x (y @ x # zy))" "1 \<le> num m'"
      using deletes_child [OF assms(1) m(3), of x n] m(4) by auto
    have "around h t1 K C X m (y @ x # zy) L D Y" using t m by (simp add: around_def)
    from around_set [OF this m'(2)] obtain t2 where t2: "set_child (int (length C)) m' t1 = Some t2"
      "around h t2 K C X m' (remove1 x (y @ x # zy)) L D Y" "num t2 = num t1" by blast
    have "BTreeDeleteNonone x (t, n) = Some (t2, n + 1)"
      unfolding del using assms(6) n(2) key cy cz in_range 3 m(1,4) m'(1) t2(1) by (simp add: M_def)
    moreover have "remove1 x ?xs = lo X K @ remove1 x (y @ x # zy) @ hi L Y"
      using remove1_mid [of "lo X K" "y @ x # zy" "hi L Y" x] assms(5) by simp
    ultimately show ?thesis
      using around_holds [OF t2(2) m'(3)] t2(3) node_is_fields [OF m(2)] n(1) many by auto
  qed
qed

lemma sorted_hi: "sorted (hi L Y) \<Longrightarrow> length Y = length L \<Longrightarrow> sorted L"
proof (induction L arbitrary: Y)
  case (Cons k L)
  then obtain y Z where Y: "Y = y # Z" "length Z = length L" by (cases Y) auto
  then have "sorted (hi L Z)" "\<forall>b\<in>set (hi L Z). k \<le> b" using Cons.prems(1) by (auto simp: sorted_append)
  moreover have "set L \<subseteq> set (hi L Z)" using Y(2)
    by (induction L arbitrary: Z) (simp, case_tac Z, auto)
  ultimately show ?case using Cons.IH [of Z] Y(2) by auto
qed simp

lemma deletes_all: "deletes h"
proof (induction h)
  case 0
  show ?case unfolding deletes_def using delete_leaf_spec by fastforce
next
  case (Suc h)
  show ?case unfolding deletes_def
  proof (intro allI impI)
    fix t xs x n
    assume a: "holds (Suc h) t xs" "sorted xs" "x \<in> set xs" "Suc h = 0 \<or> 1 \<le> num t \<and> spare t"
    obtain ks cs where t: "node_is t False ks cs" "length cs = length ks + 1"
      and place: "\<And>K L C c D. ks = K @ L \<Longrightarrow> cs = C @ c # D \<Longrightarrow> length K = length C \<Longrightarrow>
        \<exists>X y Y. around h t K C X c y L D Y \<and> xs = lo X K @ y @ hi L Y \<and> 1 \<le> num c"
      by (rule holds_around [OF a(1)]) (rule that; assumption?)
    have num: "1 \<le> num t" "spare t" using a(4) by simp_all
    obtain J where J: "node_k t = ks @ J" "num t = int (length ks)" "\<not> isLeaf t"
      using t(1) by (auto simp: node_is_def)
    have "sorted ks"
    proof -
      obtain c0 cs' where "cs = c0 # cs'" using t(2) by (cases cs) auto
      then obtain X y Y where "around h t [] [] X c0 y ks cs' Y" "xs = lo X [] @ y @ hi ks Y"
        using place [of "[]" ks "[]" c0 cs'] by auto
      moreover from this(1) have "length Y = length ks"
        using node_is_children [of t ks "c0 # cs'"] by (auto simp: around_def dest: list_all2_lengthD)
      ultimately show ?thesis using a(2) sorted_hi by (auto simp: sorted_append)
    qed
    then obtain K L where K: "ks = K @ L" "up_pos x 0 (int (length ks)) (ks @ J) = Some (int (length K))"
      "\<forall>k\<in>set K. k < x" "\<forall>k\<in>set L. x \<le> k"
      using up_pos_spec [of ks x "[]" J] by auto
    obtain C c D where C: "cs = C @ c # D" "length C = length K" "length D = length L"
      by (rule child_place [OF t(2) K(1)])
    have pos: "up_pos x 0 (num t) (node_k t) = Some (int (length C))" unfolding J(1,2) C(2) by (rule K(2))
    obtain X y Y where X: "around h t K C X c y L D Y" "xs = lo X K @ y @ hi L Y" "1 \<le> num c"
      using place [OF K(1) C(1)] C(2) by auto
    have len: "length X = length K" "length Y = length L"
      using X(1) C(2,3) by (auto simp: around_def list_all2_lengthD)
    show "\<exists>t'. BTreeDeleteNonone x (t, n) = Some (t', n + 1) \<and> holds (Suc h) t' (remove1 x xs) \<and>
        num t - 1 \<le> num t' \<and> (Suc h = 0 \<or> 1 \<le> num t')"
    proof (cases "L \<noteq> [] \<and> hd L = x")
      case True
      then obtain L' where L: "L = x # L'" by (cases L) auto
      obtain z D' where D: "D = z # D'" using C(3) L by (cases D) auto
      obtain zy Y' where Y: "Y = zy # Y'" using len(2) L by (cases Y) auto
      show ?thesis
        using delete_here_spec [OF Suc.IH X(1) [unfolded L D Y] X(3) num(2) _ pos, of n] a(2) X(2)
        by (auto simp: L Y)
    next
      case False
      then have gt: "L \<noteq> [] \<longrightarrow> x < hd L" using K(4) by (cases L) auto
      have "sorted (lo X K)" "sorted (hi L Y)" using a(2) X(2) by (simp_all add: sorted_append)
      then have "\<forall>k\<in>set (lo X K). k < x" "\<forall>k\<in>set (hi L Y). x < k"
        using lo_less [OF _ len(1) K(3)] hi_greater [OF _ len(2) gt] by blast+
      then have xy: "x \<in> set y" using a(3) X(2) by auto
      have miss: "\<not> (int (length C) < num t \<and> at (node_k t) (int (length C)) = Some x)"
      proof (cases L)
        case Nil
        then show ?thesis using J(2) K(1) C(2) by simp
      next
        case (Cons k L')
        then have "at (node_k t) (int (length C)) = Some k"
          using key_at_is [of t False K k L' cs "int (length C)"] t(1) K(1) C(2) by simp
        then show ?thesis using gt Cons by simp
      qed
      obtain t2 K2 C2 X2 c2 y2 L2 D2 Y2 where 2: "fill_child t (int (length C)) c = Some (t2, int (length C2))"
        "around h t2 K2 C2 X2 c2 y2 L2 D2 Y2" "2 \<le> num c2" "xs = lo X2 K2 @ y2 @ hi L2 Y2"
        "set y \<subseteq> set y2" "num t - 1 \<le> num t2" "1 \<le> num t2"
        using fill_child_spec [OF X(1,3) num] X(2) by metis
      have c2: "holds h c2 y2" "sorted y2" "x \<in> set y2"
        using 2(2,4,5) a(2) xy by (auto simp: around_def sorted_append)
      obtain c3 where c3: "BTreeDeleteNonone x (c2, n) = Some (c3, n + 1)" "holds h c3 (remove1 x y2)" "1 \<le> num c3"
        using deletes_child [OF Suc.IH c2 2(3)] by blast
      obtain t3 where t3: "set_child (int (length C2)) c3 t2 = Some t3" "num t3 = num t2"
        "around h t3 K2 C2 X2 c3 (remove1 x y2) L2 D2 Y2"
        using around_set [OF 2(2) c3(2)] by blast
      have "BTreeDeleteNonone x (t, n) = Some (t3, n + 1)"
        using pos J(3) miss around_child [OF X(1)] 2(1) around_child [OF 2(2)] c3(1) t3(1)
        by (subst BTreeDeleteNonone.simps) auto
      moreover have "remove1 x xs = lo X2 K2 @ remove1 x y2 @ hi L2 Y2"
        using remove1_mid [of "lo X2 K2" y2 "hi L2 Y2" x] a(2) 2(4) c2(3) by simp
      ultimately show ?thesis using around_holds [OF t3(3) c3(3)] t3(2) 2(6,7) by auto
    qed
  qed
qed

lemma delete_spec:
  assumes "root_ok h t xs" and "x \<in> set xs"
  shows "\<exists>h' t'. BTreeDelete x (t, n) = Some (t', n + 1) \<and> root_ok h' t' (remove1 x xs)"
proof -
  have t: "holds h t xs" "sorted xs" "h = 0 \<or> 1 \<le> num t" using assms(1) by (simp_all add: root_ok_def)
  have del: "\<exists>t'. BTreeDeleteNonone x (t, n) = Some (t', n + 1) \<and> root_ok h t' (remove1 x xs)"
    if "h = 0 \<or> spare t"
    using deletes_all [of h] t that assms(2) unfolding deletes_def root_ok_def by (meson sorted_remove1)
  show ?thesis
  proof (cases "num t = 1")
    case False
    then have "spare t" by (simp add: spare_def)
    then show ?thesis using del False by (auto simp: BTreeDelete_def)
  next
    case one: True
    show ?thesis
    proof (cases h)
      case 0
      then have "node_is t True xs []" using t(1) by simp
      then have "node_p t = replicate 4 None" by (auto simp: node_is_def)
      then have "at (node_p t) 0 = Some None" "at (node_p t) 1 = Some None" by (simp_all add: at_def)
      then show ?thesis using del 0 one by (auto simp: BTreeDelete_def)
    next
      case (Suc g)
      obtain ks cs where k: "node_is t False ks cs" "length cs = length ks + 1"
        and place: "\<And>K L C c D. ks = K @ L \<Longrightarrow> cs = C @ c # D \<Longrightarrow> length K = length C \<Longrightarrow>
          \<exists>X y Y. around g t K C X c y L D Y \<and> xs = lo X K @ y @ hi L Y \<and> 1 \<le> num c"
        by (rule holds_around [OF t(1) [unfolded Suc]]) (rule that; assumption?)
      have "length ks = 1" using one node_is_fields [OF k(1)] by simp
      then obtain b y z where e: "ks = [b]" "cs = [y, z]" using k(2) by (auto simp: length_Suc_conv)
      obtain X ys Y where X: "around g t [] [] X y ys [b] [z] Y" "xs = lo X [] @ ys @ hi [b] Y" "1 \<le> num y"
        using place [of "[]" "[b]" "[]" y "[z]"] e by auto
      then obtain zs where zs: "Y = [zs]" "holds g z zs" by (auto simp: around_def list_all2_Cons1)
      have cy: "child_at t 0 = Some y" "child_at t 1 = Some z"
        using child_at_is [OF k(1), of 0] child_at_is [OF k(1), of 1] e by simp_all
      then have p: "at (node_p t) 0 = Some (Some y)" "at (node_p t) 1 = Some (Some z)"
        by (auto simp: child_at_def bind_eq_Some_conv)
      show ?thesis
      proof (cases "num y = 1 \<and> num z = 1")
        case False
        then have "spare t" using cy by (simp add: spare_def)
        then show ?thesis using del False one p by (auto simp: BTreeDelete_def M_def)
      next
        case True
        have nd: "node_is t False ([] @ b # []) ([] @ y # z # [])" using k(1) e by simp
        have ys: "holds g y ys" using X(1) by (simp add: around_def)
        obtain t1 m where m: "BTreeMergeChild t 0 y z = Some (t1, m)" "holds g m (ys @ b # zs)" "num m = 3"
          using merge_two [OF nd _ ys _ zs(2)] True by auto
        have xs: "xs = ys @ b # zs" using X(2) zs(1) by simp
        have "2 \<le> num m" using m(3) by simp
        then obtain m' where "BTreeDeleteNonone x (m, n) = Some (m', n + 1)" "holds g m' (remove1 x xs)" "1 \<le> num m'"
          using deletes_child [OF deletes_all m(2) t(2) [unfolded xs] assms(2) [unfolded xs], of n] unfolding xs by blast
        then show ?thesis
          using m(1) one p True t(2) by (auto simp: BTreeDelete_def M_def root_ok_def sorted_remove1)
      qed
    qed
  qed
qed

section \<open>Printing\<close>

lemma print_slots_leaf:
  "length ks < length ps \<Longrightarrow> set ps \<subseteq> {None} \<Longrightarrow> print_slots (ks @ jk) ps i (i + int (length ks)) = Some ks"
proof (induction ks arbitrary: ps i)
  case Nil
  then obtain ps' where "ps = None # ps'" by (cases ps) auto
  then show ?case by (cases jk) simp_all
next
  case (Cons k ks)
  then obtain ps' where ps: "ps = None # ps'" by (cases ps) auto
  have "print_slots (ks @ jk) ps' (i + 1) (i + 1 + int (length ks)) = Some ks"
    by (rule Cons.IH) (use Cons.prems ps in auto)
  then show ?case by (simp add: ps add.assoc)
qed

lemma print_slots_inner:
  assumes "list_all2 (\<lambda>out xs. out = Some xs) outs xss" and "length xss = length ks + 1"
  shows "print_slots (ks @ jk) (map Some outs @ jp) i (i + int (length ks)) = Some (weave xss ks)"
  using assms
proof (induction ks arbitrary: outs xss i)
  case Nil
  then obtain xs where "xss = [xs]" by (auto simp: length_Suc_conv)
  with Nil have "outs = [Some xs]" by (auto simp: list_all2_Cons2)
  then show ?case by (cases jk) (simp_all add: weave_def \<open>xss = [xs]\<close>)
next
  case (Cons k ks)
  then obtain xs xs' xss' where xss: "xss = xs # xs' # xss'" by (cases xss; cases "tl xss") auto
  then obtain outs' where outs: "outs = Some xs # outs'" "list_all2 (\<lambda>out xs. out = Some xs) outs' (xs' # xss')"
    using Cons.prems(1) by (auto simp: list_all2_Cons2)
  have "print_slots (ks @ jk) (map Some outs' @ jp) (i + 1) (i + 1 + int (length ks)) = Some (weave (xs' # xss') ks)"
    by (rule Cons.IH [OF outs(2)]) (use Cons.prems(2) xss in simp)
  then show ?case by (simp add: outs(1) xss weave_def add.assoc)
qed

lemma print_spec: "holds h t xs \<Longrightarrow> BTreeInorderPrint t = Some xs"
proof (induction h arbitrary: t xs)
  case 0
  then obtain jk where "t = Node (xs @ jk) (replicate 4 None) (int (length xs)) True" "length xs + length jk = 3"
    by (auto simp: node_is_def)
  then show ?case using print_slots_leaf [of xs "replicate 4 None" jk 0] by (simp add: subset_iff)
next
  case (Suc h)
  then obtain ks cs xss where t: "node_is t False ks cs" "xs = weave xss ks"
    "list_all2 (\<lambda>c ys. holds h c ys \<and> 1 \<le> num c) cs xss" by auto
  obtain jk jp where tt: "t = Node (ks @ jk) (map Some cs @ jp) (int (length ks)) False"
    using t(1) by (auto simp: node_is_def)
  have "list_all2 (\<lambda>out ys. out = Some ys) (map BTreeInorderPrint cs) xss"
    using t(3) Suc.IH by (simp add: list_all2_map1 list_all2_mono)
  moreover have "length xss = length ks + 1"
    using node_is_children [OF t(1)] t(3) by (simp add: list_all2_lengthD)
  ultimately show ?case
    using print_slots_inner [of "map BTreeInorderPrint cs" xss ks jk "map (map_option BTreeInorderPrint) jp" 0] t(2)
    by (simp add: tt comp_def)
qed

section \<open>Properties\<close>

datatype tree_call = Insert int | Delete int

fun call :: "tree_call \<Rightarrow> node \<times> int \<Rightarrow> (node \<times> int) option" where
  "call (Insert x) tree = insert_key x tree"
| "call (Delete x) tree = Del x tree"

text \<open>The same calls on a sorted list.\<close>

fun list_call :: "tree_call \<Rightarrow> int list \<Rightarrow> int list" where
  "list_call (Insert x) xs = insort x xs"
| "list_call (Delete x) xs = remove1 x xs"

text \<open>Only keys that are there are deleted.\<close>

fun calls_ok :: "tree_call list \<Rightarrow> int list \<Rightarrow> bool" where
  "calls_ok [] xs \<longleftrightarrow> True"
| "calls_ok (Insert x # cs) xs \<longleftrightarrow> calls_ok cs (list_call (Insert x) xs)"
| "calls_ok (Delete x # cs) xs \<longleftrightarrow> x \<in> set xs \<and> calls_ok cs (list_call (Delete x) xs)"

lemma calls_spec:
  "calls_ok cs xs \<Longrightarrow> root_ok h t xs \<Longrightarrow>
    \<exists>h' t'. for_each call cs (t, n) = Some (t', n + int (length cs)) \<and> root_ok h' t' (fold list_call cs xs)"
proof (induction cs arbitrary: h t xs n)
  case Nil
  then show ?case by auto
next
  case (Cons c cs)
  have "\<exists>h' t'. call c (t, n) = Some (t', n + 1) \<and> root_ok h' t' (list_call c xs)"
    using Cons.prems insert_spec [OF Cons.prems(2)] delete_spec [OF Cons.prems(2)]
    by (cases c) (simp_all add: insert_key_def Del_def)
  then obtain h1 t1 where 1: "call c (t, n) = Some (t1, n + 1)" "root_ok h1 t1 (list_call c xs)" by blast
  have "calls_ok cs (list_call c xs)" using Cons.prems(1) by (cases c) simp_all
  then obtain h' t' where "for_each call cs (t1, n + 1) = Some (t', n + 1 + int (length cs))"
    "root_ok h' t' (fold list_call cs (list_call c xs))" using Cons.IH [OF _ 1(2)] by blast
  then show ?case using 1(1) by (auto simp: add.assoc)
qed

text \<open>
  C25: A B-tree is a sorted list: after any insertions and deletions of keys that are there, none of
  which aborts, the tree prints the keys that are left in order, each as often as it was put in, and all
  its leaves have the same depth. Deletions count up \<^verbatim>\<open>node_num_\<close> like insertions.
\<close>

theorem btree_refines_sorted_list:
  assumes "calls_ok cs []"
  shows "\<exists>h t. for_each call cs Tree = Some (t, int (length cs)) \<and> holds h t (fold list_call cs []) \<and>
    BTreeInorderPrint t = Some (fold list_call cs []) \<and> sorted (fold list_call cs [])"
proof -
  have "root_ok 0 BTreeCreate []" using NewNode_is by (simp add: root_ok_def BTreeCreate_def)
  then obtain h t where "for_each call cs Tree = Some (t, int (length cs))" "root_ok h t (fold list_call cs [])"
    using calls_spec [OF assms, of 0 BTreeCreate 0] by (auto simp: Tree_def)
  then show ?thesis using print_spec by (auto simp: root_ok_def)
qed

theorem btree_refines_sorted_list_witness:
  "\<exists>t. for_each call [Insert 3, Insert 1, Insert 2, Insert 9, Delete 2, Insert 3] Tree = Some (t, 6) \<and>
    BTreeInorderPrint t = Some [1, 3, 3, 9]"
  using btree_refines_sorted_list [of "[Insert 3, Insert 1, Insert 2, Insert 9, Delete 2, Insert 3]"] by auto

text \<open>
  Deleting a key that is not there: the comparison behind the last key finds a key that was deleted
  before, and another one is lost; in an empty tree it makes the number of keys negative; behind a full
  leaf it reads outside of the array.
\<close>

lemma insert_in_leaf:
  "BTreeInsertNonfull x (Node ks ps n True, c) =
     do { y \<leftarrow> shift_keys x n ks; ks \<leftarrow> put_item (snd y) (fst y) x; Some (Node ks ps (n + 1) True, c + 1) }"
  by (subst BTreeInsertNonfull.simps) (simp cong: if_cong)

lemma delete_in_leaf:
  "BTreeDeleteNonone x (Node ks ps n True, c) = do {
     i \<leftarrow> up_pos x 0 n ks;
     v \<leftarrow> at ks i;
     if v = x then do {
       ks \<leftarrow> for_each (\<lambda>j ks. copy_item ks j ks (j - 1)) [i + 1..2 * M - 2] ks;
       Some (Node ks ps (n - 1) True, c + 1)
     } else Some (Node ks ps n True, c) }"
  by (subst BTreeDeleteNonone.simps) (simp cong: if_cong)

lemmas small_tree = Tree_def BTreeCreate_def NewNode_def insert_key_def Del_def BTreeInsert_def BTreeDelete_def
  insert_in_leaf delete_in_leaf shift_keys.simps up_pos.simps node_eval upto.simps eval_nat_numeral

lemma missing_key_loses_another:
  "map_option (BTreeInorderPrint \<circ> fst) (for_each call [Insert 1, Insert 2, Insert 5, Delete 5] Tree) = Some (Some [1, 2])"
  "map_option (BTreeInorderPrint \<circ> fst) (for_each call [Insert 1, Insert 2, Insert 5, Delete 5, Delete 5] Tree) = Some (Some [1])"
  by (simp_all add: small_tree)

lemma zero_in_empty_tree: "map_option (num \<circ> fst) (for_each call [Delete 0] Tree) = Some (- 1)"
  "for_each call [Delete 0, Insert 7] Tree = None"
  by (simp_all add: small_tree)

lemma missing_key_outside: "for_each call [Insert 1, Insert 2, Insert 5, Delete 9] Tree = None"
  by (simp add: small_tree)

end
