(* ===== verification/ShamPool.thy ===== *)
theory ShamPool
  imports Prelude "HOL-Library.Multiset"
begin

text \<open>
  \<^verbatim>\<open>base/shampool.hpp\<close>: a pool of equal blocks in shared memory. The memory is a \<open>region\<close>: the
  fields of its header, and the bytes behind, by their distance from the start of the mapping. A process
  that uses the region has a \<open>pool\<close>, with the address where the region is mapped there. Reading or
  writing outside of the mapping or in a protected page aborts. The flag \<open>prot\<close> is the template's
  \<^verbatim>\<open>OpenMProtect\<close>. The texts of \<^verbatim>\<open>m_error_msg_\<close> are not modelled.
\<close>

unbundle bit_operations_syntax

section \<open>Header and memory\<close>

record mem_header =
  max_size :: u64
  max_node :: u32
  alloc_size :: u64
  alloc_node :: u32
  node_size :: u64
  block_size :: u64
  create_time :: u64
  free_list :: u64

record region = mem_header +
  cell :: "nat \<Rightarrow> byte"
  room :: nat

record pool =
  m_header :: u64
  m_data :: u64
  fences :: "u64 list"

definition ShammemPool :: pool where
  "ShammemPool = \<lparr>m_header = 0, m_data = 0, fences = []\<rparr>"

definition FENCE_SIZE :: u64 where "FENCE_SIZE = 4096"
definition MEM_PAGE_SIZE :: u64 where "MEM_PAGE_SIZE = 4096"
definition MEM_PAGE_ALIGN_CALC_SIZE :: u64 where "MEM_PAGE_ALIGN_CALC_SIZE = MEM_PAGE_SIZE - 1"
definition MP_MEM_POOL_BLOCK_INDEX_START :: u64 where "MP_MEM_POOL_BLOCK_INDEX_START = 10000"
definition INVALID_POINTER :: u64 where "INVALID_POINTER = - 1"
definition sizeof_MemHeader :: u64 where "sizeof_MemHeader = 64"
definition NODE_OFFSET :: u64 where "NODE_OFFSET = 8"

definition Ref :: "pool \<Rightarrow> u64 \<Rightarrow> u64" where "Ref p a = a - m_header p"

definition Deref :: "pool \<Rightarrow> u64 \<Rightarrow> u64" where "Deref p pos = m_header p + pos"

text \<open>Access to \<open>n\<close> bytes at a distance from the start of the mapping.\<close>

definition accessible :: "pool \<Rightarrow> region \<Rightarrow> nat \<Rightarrow> nat \<Rightarrow> bool" where
  "accessible p r d n \<longleftrightarrow> d + n \<le> room r \<and>
     list_all (\<lambda>f. d + n \<le> unat f \<or> unat f + unat FENCE_SIZE \<le> d) (fences p)"

definition bytes_at :: "region \<Rightarrow> nat \<Rightarrow> nat \<Rightarrow> bytes" where
  "bytes_at r d n = map (cell r) [d..<d + n]"

definition peek :: "pool \<Rightarrow> u64 \<Rightarrow> nat \<Rightarrow> region \<Rightarrow> bytes option" where
  "peek p a n r = do { assert_that (accessible p r (unat (Ref p a)) n); Some (bytes_at r (unat (Ref p a)) n) }"

definition overwrite :: "nat \<Rightarrow> bytes \<Rightarrow> (nat \<Rightarrow> byte) \<Rightarrow> nat \<Rightarrow> byte" where
  "overwrite d xs f = (\<lambda>i. if d \<le> i \<and> i < d + length xs then xs ! (i - d) else f i)"

definition poke :: "pool \<Rightarrow> u64 \<Rightarrow> bytes \<Rightarrow> region \<Rightarrow> region option" where
  "poke p a xs r = do {
     assert_that (accessible p r (unat (Ref p a)) (length xs));
     Some (r\<lparr>cell := overwrite (unat (Ref p a)) xs (cell r)\<rparr>)
   }"

text \<open>The field \<^verbatim>\<open>next\<close> of a block.\<close>

definition get_next :: "pool \<Rightarrow> u64 \<Rightarrow> region \<Rightarrow> u64 option" where
  "get_next p b r = do { xs \<leftarrow> peek p b 8 r; Some (of_nat (le_nat xs)) }"

definition set_next :: "pool \<Rightarrow> u64 \<Rightarrow> u64 \<Rightarrow> region \<Rightarrow> region option" where
  "set_next p b v r = poke p b (le_bytes 8 (unat v)) r"

section \<open>Sizes\<close>

definition GetHeaderSize :: "bool \<Rightarrow> u64" where
  "GetHeaderSize prot =
     (if prot then (sizeof_MemHeader + MEM_PAGE_ALIGN_CALC_SIZE) AND NOT MEM_PAGE_ALIGN_CALC_SIZE
      else (sizeof_MemHeader + 7) AND NOT 7)"

text \<open>
  The local variable \<^verbatim>\<open>block_size\<close> of the function is static: its value is \<open>st\<close>, which
  the first call in a process sets.
\<close>

definition GetBlockSize :: "bool \<Rightarrow> u64 \<Rightarrow> u64 option \<Rightarrow> u64" where
  "GetBlockSize prot sz st =
     (case st of
        Some b \<Rightarrow> b
      | None \<Rightarrow>
          if prot
          then (sz + NODE_OFFSET + MEM_PAGE_SIZE + MEM_PAGE_ALIGN_CALC_SIZE) AND NOT MEM_PAGE_ALIGN_CALC_SIZE
          else (sz + NODE_OFFSET + 7) AND NOT 7)"

definition GetAllocSize :: "bool \<Rightarrow> u32 \<Rightarrow> u64 \<Rightarrow> u64 option \<Rightarrow> u64" where
  "GetAllocSize prot nodes sz st = GetHeaderSize prot + ucast nodes * GetBlockSize prot sz st"

definition Ref2BlockIdx :: "bool \<Rightarrow> pool \<Rightarrow> u64 \<Rightarrow> region \<Rightarrow> u64 option" where
  "Ref2BlockIdx prot p a r = do {
     assert_that (block_size r \<noteq> 0);
     Some (MP_MEM_POOL_BLOCK_INDEX_START + (Ref p a - GetHeaderSize prot) div block_size r)
   }"

definition DerefByBlockIdx :: "bool \<Rightarrow> pool \<Rightarrow> u64 \<Rightarrow> region \<Rightarrow> u64" where
  "DerefByBlockIdx prot p idx r =
     m_header p + GetHeaderSize prot + block_size r * (idx - MP_MEM_POOL_BLOCK_INDEX_START)"

section \<open>Opening a pool\<close>

definition CheckHeader :: "bool \<Rightarrow> u32 \<Rightarrow> u64 \<Rightarrow> u64 option \<Rightarrow> region \<Rightarrow> bool" where
  "CheckHeader prot nodes sz st r =
     (let m = GetAllocSize prot nodes sz st in
      \<not> (node_size r \<noteq> sz \<or> block_size r \<noteq> GetBlockSize prot sz st
         \<or> max_node r \<noteq> nodes \<or> max_size r \<noteq> m
         \<or> GetHeaderSize prot + ucast (alloc_node r) * block_size r \<noteq> alloc_size r
         \<or> m < alloc_size r))"

text \<open>The loop that protects the last page of every block; \<open>mprotect\<close> tells whether the call succeeds.\<close>

partial_function (option) protect_blocks ::
  "(u64 \<Rightarrow> bool) \<Rightarrow> region \<Rightarrow> u64 \<Rightarrow> pool \<Rightarrow> (bool \<times> pool) option" where
  "protect_blocks mprotect r block p =
     (if block + block_size r \<le> m_header p + max_size r then
        let a = block + block_size r - MEM_PAGE_SIZE in
        if mprotect a
        then protect_blocks mprotect r (block + block_size r) (p\<lparr>fences := fences p @ [Ref p a]\<rparr>)
        else Some (False, p)
      else Some (True, p))"

text \<open>The results are the value that is returned, the pool, the region and the static variable.\<close>

definition Init ::
  "bool \<Rightarrow> u64 \<Rightarrow> u32 \<Rightarrow> u64 \<Rightarrow> bool \<Rightarrow> u64 \<Rightarrow> (u64 \<Rightarrow> bool) \<Rightarrow> pool \<Rightarrow> region \<Rightarrow> u64 option
     \<Rightarrow> (int \<times> pool \<times> region \<times> u64 option) option" where
  "Init prot addr nodes sz check_header now mprotect p r st =
     (if addr = 0 then Some (- 1, p, r, st)
      else let st' = Some (GetBlockSize prot sz st); p = p\<lparr>m_header := addr\<rparr> in
        if check_header \<and> \<not> CheckHeader prot nodes sz st r then Some (- 1, p, r, st')
        else let r = (if check_header then r
              else r\<lparr>max_size := GetAllocSize prot nodes sz st, max_node := nodes, alloc_size := GetHeaderSize prot,
                alloc_node := 0, node_size := sz, block_size := GetBlockSize prot sz st,
                create_time := now, free_list := INVALID_POINTER\<rparr>);
              p = p\<lparr>m_data := addr + GetHeaderSize prot\<rparr> in
          if prot then do {
            q \<leftarrow> protect_blocks mprotect r (m_data p) p;
            Some (if fst q then 0 else - 2, snd q, r, st')
          } else Some (0, p, r, st'))"

section \<open>Blocks\<close>

definition GetBlock :: "u64 \<Rightarrow> u64" where "GetBlock node = node - NODE_OFFSET"

definition GetNode :: "u64 \<Rightarrow> u64" where "GetNode block = block + NODE_OFFSET"

definition IsValidBlock :: "bool \<Rightarrow> pool \<Rightarrow> region \<Rightarrow> u64 \<Rightarrow> bool option" where
  "IsValidBlock prot p r block =
     (if block < m_data p then Some False
      else if m_header p + alloc_size r < block + block_size r then Some False
      else do {
        assert_that (block_size r \<noteq> 0);
        Some (Ref p block mod block_size r = GetHeaderSize prot mod block_size r)
      })"

definition IsUsedBlock :: "bool \<Rightarrow> pool \<Rightarrow> region \<Rightarrow> u64 \<Rightarrow> bool option" where
  "IsUsedBlock prot p r block = do {
     v \<leftarrow> IsValidBlock prot p r block;
     if v then do { next \<leftarrow> get_next p block r; Some (next = 0) } else Some False
   }"

definition LinkFreeBlock :: "pool \<Rightarrow> u64 \<Rightarrow> region \<Rightarrow> region option" where
  "LinkFreeBlock p b r = do {
     r \<leftarrow> set_next p b (free_list r) r;
     Some (r\<lparr>free_list := Ref p b\<rparr>)
   }"

definition GetFreeBlock :: "pool \<Rightarrow> region \<Rightarrow> (u64 \<times> region) option" where
  "GetFreeBlock p r =
     (if free_list r = INVALID_POINTER then Some (0, r)
      else do {
        let b = Deref p (free_list r);
        next \<leftarrow> get_next p b r;
        Some (b, r\<lparr>free_list := next\<rparr>)
      })"

definition Alloc :: "bool \<Rightarrow> pool \<Rightarrow> bool \<Rightarrow> region \<Rightarrow> (u64 \<times> region) option" where
  "Alloc prot p zero r = do {
     (b, r) \<leftarrow> GetFreeBlock p r;
     (b, r) \<leftarrow> (if b = 0 then
         if alloc_size r + block_size r \<le> max_size r
         then Some (Deref p (alloc_size r),
           r\<lparr>alloc_size := alloc_size r + block_size r, alloc_node := alloc_node r + 1\<rparr>)
         else Some (0, r)
       else do { v \<leftarrow> IsValidBlock prot p r b; Some (if v then b else 0, r) });
     if b = 0 then Some (0, r)
     else do {
       r \<leftarrow> (if zero
             then poke p b (replicate (unat (if prot then block_size r - MEM_PAGE_SIZE else block_size r)) 0) r
             else Some r);
       r \<leftarrow> set_next p b 0 r;
       Some (GetNode b, r)
     }
   }"

definition Free :: "bool \<Rightarrow> pool \<Rightarrow> u64 \<Rightarrow> region \<Rightarrow> (int \<times> region) option" where
  "Free prot p node r = do {
     let block = GetBlock node;
     used \<leftarrow> IsUsedBlock prot p r block;
     if used then do { r \<leftarrow> LinkFreeBlock p block r; Some (0, r) } else Some (- 1, r)
   }"

section \<open>Walking over the nodes\<close>

text \<open>A null pointer is 0.\<close>

definition GetFirstBlock :: "bool \<Rightarrow> pool \<Rightarrow> region \<Rightarrow> u64 option" where
  "GetFirstBlock prot p r = do { v \<leftarrow> IsValidBlock prot p r (m_data p); Some (if v then m_data p else 0) }"

definition GetNextBlock :: "bool \<Rightarrow> pool \<Rightarrow> region \<Rightarrow> u64 \<Rightarrow> u64 option" where
  "GetNextBlock prot p r block =
     (if block = 0 then GetFirstBlock prot p r
      else do {
        let next = block + block_size r;
        v \<leftarrow> IsValidBlock prot p r next;
        Some (if v then next else 0)
      })"

partial_function (option) GetNextUsedBlock :: "bool \<Rightarrow> pool \<Rightarrow> region \<Rightarrow> u64 \<Rightarrow> u64 option" where
  "GetNextUsedBlock prot p r block = do {
     block \<leftarrow> GetNextBlock prot p r block;
     if block = 0 then Some 0
     else do {
       next \<leftarrow> get_next p block r;
       if next = 0 then Some block else GetNextUsedBlock prot p r block
     }
   }"

definition GetNextNode :: "bool \<Rightarrow> pool \<Rightarrow> region \<Rightarrow> u64 \<Rightarrow> u64 option" where
  "GetNextNode prot p r node = do {
     block \<leftarrow> GetNextUsedBlock prot p r (if node = 0 then 0 else GetBlock node);
     Some (if block = 0 then 0 else GetNode block)
   }"

definition IsValidNode :: "bool \<Rightarrow> pool \<Rightarrow> region \<Rightarrow> u64 \<Rightarrow> bool option" where
  "IsValidNode prot p r node = IsValidBlock prot p r node"

section \<open>Lemmas on sizes\<close>

lemma unat_less: "unat (x :: u64) < 2 ^ 64"
proof -
  have "unat x < 2 ^ LENGTH(64)" by (rule unsigned_less)
  then show ?thesis by simp
qed

lemma unat_round_down: "unat (x AND NOT (mask n) :: u64) = unat x div 2 ^ n * 2 ^ n"
proof -
  have "x AND NOT (mask n) = push_bit n (drop_bit n x)" by (rule bit_eqI) (auto simp: bit_simps)
  moreover have "unat (push_bit n (drop_bit n x)) = take_bit 64 (unat x div 2 ^ n * 2 ^ n)"
    by (subst unsigned_push_bit_eq, subst unat_drop_bit_eq) (simp add: push_bit_eq_mult drop_bit_eq_div)
  moreover have "unat x div 2 ^ n * 2 ^ n < 2 ^ 64"
    using unat_less [of x] by (rule le_less_trans [OF div_times_less_eq_dividend])
  ultimately show ?thesis by (simp add: take_bit_nat_eq_self)
qed

lemma GetHeaderSize_eq: "GetHeaderSize prot = (if prot then 4096 else 64)"
  by (simp add: GetHeaderSize_def sizeof_MemHeader_def MEM_PAGE_ALIGN_CALC_SIZE_def MEM_PAGE_SIZE_def)

definition fence :: "bool \<Rightarrow> nat" where "fence prot = (if prot then 4096 else 0)"

lemma unat_add_small: "unat a + unat b < 2 ^ 64 \<Longrightarrow> unat (a + b :: u64) = unat a + unat b"
  by (simp add: unat_word_ariths)

lemma unat_sub_small: "unat b \<le> unat a \<Longrightarrow> unat (a - b :: u64) = unat a - unat b"
  by (simp add: unat_sub word_le_nat_alt)

lemma unat_of_small: "n < 2 ^ 64 \<Longrightarrow> unat (of_nat n :: u64) = n"
  by (simp add: unat_of_nat take_bit_nat_eq_self)

lemma GetBlockSize_room:
  assumes "unat sz < 2 ^ 62"
  shows "unat sz + 8 + fence prot \<le> unat (GetBlockSize prot sz None)"
    and "unat (GetBlockSize prot sz None) < 2 ^ 63"
proof -
  have m: "(4095 :: u64) = mask 12" "(7 :: u64) = mask 3" by (simp_all add: mask_eq_exp_minus_1)
  define x where "x = (if prot then sz + 8 + 4096 + 4095 else sz + 8 + 7)"
  define n :: nat where "n = (if prot then 12 else 3)"
  have b: "GetBlockSize prot sz None = x AND NOT (mask n)"
    by (simp add: GetBlockSize_def NODE_OFFSET_def MEM_PAGE_ALIGN_CALC_SIZE_def MEM_PAGE_SIZE_def x_def n_def m
        add.assoc split: if_splits)
  have x: "unat x = unat sz + 8 + fence prot + (2 ^ n - 1)"
    using assms by (simp add: x_def n_def fence_def unat_word_ariths)
  have "unat x div 2 ^ n * 2 ^ n = unat x - unat x mod 2 ^ n" by (simp add: minus_mod_eq_div_mult)
  moreover have "unat x mod 2 ^ n < 2 ^ n" by simp
  ultimately have lo: "unat sz + 8 + fence prot \<le> unat x div 2 ^ n * 2 ^ n" using x by linarith
  show "unat sz + 8 + fence prot \<le> unat (GetBlockSize prot sz None)" using lo by (simp add: b unat_round_down)
  have "unat x div 2 ^ n * 2 ^ n \<le> unat x" by simp
  then show "unat (GetBlockSize prot sz None) < 2 ^ 63"
    using x assms by (simp add: b unat_round_down n_def fence_def split: if_splits)
qed

section \<open>Where the blocks lie\<close>

definition place :: "bool \<Rightarrow> region \<Rightarrow> nat \<Rightarrow> nat" where
  "place prot r i = unat (GetHeaderSize prot) + i * unat (block_size r)"

text \<open>The numbers of the header fit together, and the region has room for all blocks.\<close>

definition shape :: "bool \<Rightarrow> region \<Rightarrow> bool" where
  "shape prot r \<longleftrightarrow> unat (node_size r) + 8 + fence prot \<le> unat (block_size r) \<and> unat (block_size r) < 2 ^ 63
     \<and> unat (max_size r) = place prot r (unat (max_node r)) \<and> unat (max_size r) < 2 ^ 62
     \<and> unat (max_size r) \<le> room r \<and> unat (alloc_node r) \<le> unat (max_node r)
     \<and> unat (alloc_size r) = place prot r (unat (alloc_node r))"

text \<open>A process has mapped the region: below the end of the address space, with fences behind the blocks.\<close>

definition attached :: "bool \<Rightarrow> region \<Rightarrow> pool \<Rightarrow> bool" where
  "attached prot r p \<longleftrightarrow> m_header p \<noteq> 0 \<and> unat (m_header p) + unat (max_size r) < 2 ^ 63
     \<and> m_data p = m_header p + GetHeaderSize prot
     \<and> (\<forall>f \<in> set (fences p). prot \<and> (\<exists>i. unat f = place prot r i + unat (block_size r) - 4096))"

lemma place_less: "i < j \<Longrightarrow> place prot r i + unat (block_size r) \<le> place prot r j"
proof -
  assume "i < j"
  then have "Suc i * unat (block_size r) \<le> j * unat (block_size r)" by (intro mult_le_mono1) simp
  then show ?thesis by (simp add: place_def)
qed

lemma place_ge: "64 \<le> place prot r i" by (simp add: place_def GetHeaderSize_eq)

lemma place_pos [simp]: "place prot r i \<noteq> 0" "0 < place prot r i"
  using place_ge [of prot r i] by linarith+

lemma place_Suc: "place prot r (Suc i) = place prot r i + unat (block_size r)" by (simp add: place_def)

lemma place_inj:
  assumes "shape prot r"
  shows "place prot r i = place prot r j \<longleftrightarrow> i = j"
  using assms by (auto simp: place_def shape_def)

lemma place_end:
  assumes "shape prot r" and "i < unat (max_node r)"
  shows "place prot r i + unat (block_size r) \<le> unat (max_size r)"
  using place_less [OF assms(2)] assms(1) by (simp add: shape_def)

lemma accessible_block:
  assumes "shape prot r" and "attached prot r p" and "i < unat (max_node r)"
    and "a + n + fence prot \<le> unat (block_size r)"
  shows "accessible p r (place prot r i + a) n"
proof -
  have "place prot r i + a + n \<le> unat f \<or> unat f + 4096 \<le> place prot r i + a" if f: "f \<in> set (fences p)" for f
  proof -
    obtain j where j: prot "unat f = place prot r j + unat (block_size r) - 4096"
      using assms(2) f by (auto simp: attached_def)
    then have b: "4096 \<le> unat (block_size r)" using assms(1) by (simp add: shape_def fence_def)
    show ?thesis
    proof (cases "j < i")
      case True
      then show ?thesis using place_less [OF True, of prot r] j b by linarith
    next
      case False
      then have "place prot r i \<le> place prot r j" by (simp add: place_def)
      then show ?thesis using assms(4) j b by (simp add: fence_def)
    qed
  qed
  then show ?thesis
    using place_end [OF assms(1,3)] assms(1,4) by (simp add: accessible_def list_all_iff FENCE_SIZE_def shape_def)
qed

text \<open>The address of a distance, and back.\<close>

definition addr_of :: "pool \<Rightarrow> nat \<Rightarrow> u64" where "addr_of p d = m_header p + of_nat d"

lemma unat_addr:
  assumes "attached prot r p" and "d \<le> unat (max_size r)"
  shows "unat (addr_of p d) = unat (m_header p) + d" "addr_of p d \<noteq> 0" "unat (Ref p (addr_of p d)) = d"
proof -
  have d: "unat (of_nat d :: u64) = d" "unat (m_header p) + d < 2 ^ 63"
    using assms unsigned_less [of "max_size r"] by (auto simp: attached_def intro!: unat_of_small)
  then show u: "unat (addr_of p d) = unat (m_header p) + d"
    by (simp add: addr_of_def unat_add_small)
  have "unat (m_header p) \<noteq> 0" using assms(1) by (simp add: attached_def unat_eq_0)
  then show "addr_of p d \<noteq> 0" using u by (metis add_is_0 unat_0)
  show "unat (Ref p (addr_of p d)) = d" using d(1) by (simp add: Ref_def addr_of_def)
qed

lemma Deref_addr: "Deref p w = addr_of p (unat w)" by (simp add: Deref_def addr_of_def)

lemma m_data_addr: "attached prot r p \<Longrightarrow> m_data p = addr_of p (place prot r 0)"
  by (simp add: attached_def addr_of_def place_def)

lemma addr_add: "addr_of p d + of_nat n = addr_of p (d + n)" by (simp add: addr_of_def)

text \<open>Which pointers point to a block.\<close>

lemma valid_block:
  assumes "shape prot r" and "attached prot r p" and "unat b < 2 ^ 63"
  shows "IsValidBlock prot p r b = Some (\<exists>i < unat (alloc_node r). b = addr_of p (place prot r i))"
proof -
  let ?bs = "unat (block_size r)" and ?h = "unat (m_header p)" and ?hs = "place prot r 0"
  have bs: "block_size r \<noteq> 0" using assms(1) by (auto simp: shape_def)
  have k: "unat (alloc_size r) = place prot r (unat (alloc_node r))" "unat (alloc_node r) \<le> unat (max_node r)"
    using assms(1) by (simp_all add: shape_def)
  have kk: "unat (alloc_size r) \<le> unat (max_size r)"
    using k assms(1) by (auto simp: shape_def place_def)
  have hs0: "?hs \<le> unat (max_size r)" using assms(1) by (simp add: shape_def place_def)
  have low: "b < m_data p \<longleftrightarrow> unat b < ?h + ?hs"
    using unat_addr(1) [OF assms(2) hs0] m_data_addr [OF assms(2)] by (simp add: word_less_nat_alt)
  have "m_header p + alloc_size r = addr_of p (unat (alloc_size r))" by (simp add: addr_of_def)
  then have "unat (m_header p + alloc_size r) = ?h + unat (alloc_size r)" using unat_addr(1) [OF assms(2) kk] by simp
  moreover have "unat (b + block_size r) = unat b + ?bs"
    using assms(1,3) by (intro unat_add_small) (simp add: shape_def)
  ultimately have high: "m_header p + alloc_size r < b + block_size r \<longleftrightarrow> ?h + place prot r (unat (alloc_node r)) < unat b + ?bs"
    using k(1) by (simp add: word_less_nat_alt)
  have eq: "b = addr_of p (place prot r i) \<longleftrightarrow> unat b = ?h + place prot r i" if "i < unat (alloc_node r)" for i
    using unat_addr(1) [OF assms(2), of "place prot r i"] place_end [OF assms(1), of i] that k(2) by (simp add: word_unat_eq_iff)
  show ?thesis
  proof (cases "unat b < ?h + ?hs \<or> ?h + place prot r (unat (alloc_node r)) < unat b + ?bs")
    case True
    have "unat b \<noteq> ?h + place prot r i" if "i < unat (alloc_node r)" for i
    proof -
      have "?hs \<le> place prot r i" by (simp add: place_def)
      then show ?thesis using True place_less [OF that, of prot r] by linarith
    qed
    then have "\<not> (\<exists>i < unat (alloc_node r). b = addr_of p (place prot r i))" using eq by blast
    then show ?thesis using True low high by (auto simp: IsValidBlock_def)
  next
    case False
    then have ref: "unat (Ref p b) = unat b - ?h" "?hs \<le> unat b - ?h" by (auto simp: Ref_def unat_sub_small)
    have md: "unat (Ref p b mod block_size r) = (unat b - ?h) mod ?bs"
      "unat (GetHeaderSize prot mod block_size r) = ?hs mod ?bs"
      using ref by (simp_all only: unat_mod place_def) simp_all
    have "Ref p b mod block_size r = GetHeaderSize prot mod block_size r \<longleftrightarrow> (unat b - ?h) mod ?bs = ?hs mod ?bs"
      using md by (metis word_unat_eq_iff)
    also have "\<dots> \<longleftrightarrow> ?bs dvd (unat b - ?h - ?hs)" using ref(2) by (simp add: mod_eq_dvd_iff_nat)
    also have "\<dots> \<longleftrightarrow> (\<exists>i < unat (alloc_node r). unat b = ?h + place prot r i)"
    proof
      assume "?bs dvd (unat b - ?h - ?hs)"
      then obtain i where i: "unat b - ?h - ?hs = ?bs * i" by blast
      moreover have "?h + ?hs \<le> unat b" using False by simp
      ultimately have "unat b = ?h + ?hs + i * ?bs" by (simp add: mult.commute)
      then have b: "unat b = ?h + place prot r i" by (simp add: place_def)
      have "place prot r (Suc i) \<le> place prot r (unat (alloc_node r))" using False b by (simp add: place_Suc)
      then have "Suc i * ?bs \<le> unat (alloc_node r) * ?bs" unfolding place_def by linarith
      moreover have "0 < ?bs" using bs by (simp add: unat_gt_0)
      ultimately have "Suc i \<le> unat (alloc_node r)" using mult_le_cancel2 by blast
      then have "i < unat (alloc_node r)" by simp
      then show "\<exists>i < unat (alloc_node r). unat b = ?h + place prot r i" using b by blast
    qed (auto simp: place_def)
    finally show ?thesis using False low high bs eq by (auto simp: IsValidBlock_def)
  qed
qed

section \<open>Lemmas on memory\<close>

lemma bytes_at_header [simp]:
  "bytes_at (r\<lparr>free_list := l\<rparr>) = bytes_at r" "bytes_at (r\<lparr>alloc_size := s, alloc_node := k\<rparr>) = bytes_at r"
  by (simp_all add: bytes_at_def fun_eq_iff)

lemma length_bytes_at [simp]: "length (bytes_at r d n) = n" by (simp add: bytes_at_def)

lemma bytes_at_other:
  "d + length xs \<le> e \<or> e + n \<le> d \<Longrightarrow> bytes_at (r\<lparr>cell := overwrite d xs (cell r)\<rparr>) e n = bytes_at r e n"
  by (auto simp: bytes_at_def overwrite_def)

lemma bytes_at_same: "n = length xs \<Longrightarrow> bytes_at (r\<lparr>cell := overwrite d xs (cell r)\<rparr>) d n = xs"
  by (rule nth_equalityI) (simp_all add: bytes_at_def overwrite_def)

lemma bytes_at_within:
  "bytes_at (r\<lparr>cell := overwrite d xs (cell r)\<rparr>) (d + a) n = take n (drop a xs)" if "a + n \<le> length xs"
  using that by (intro nth_equalityI) (simp_all add: bytes_at_def overwrite_def)

text \<open>A change of one byte of a piece.\<close>

lemma bytes_at_byte:
  "a < n \<Longrightarrow> bytes_at (r\<lparr>cell := overwrite (d + a) [x] (cell r)\<rparr>) d n = (bytes_at r d n)[a := x]"
  by (rule nth_equalityI) (auto simp: bytes_at_def overwrite_def nth_list_update)

definition geometry :: "region \<Rightarrow> u64 \<times> u64 \<times> u32 \<times> u64 \<times> nat" where
  "geometry r = (block_size r, node_size r, max_node r, max_size r, room r)"

text \<open>Only the block \<open>i\<close> may differ.\<close>

definition same_but :: "bool \<Rightarrow> nat \<Rightarrow> region \<Rightarrow> region \<Rightarrow> bool" where
  "same_but prot i r r' \<longleftrightarrow> geometry r' = geometry r \<and>
     (\<forall>j a n. j \<noteq> i \<longrightarrow> a + n \<le> unat (block_size r) \<longrightarrow>
        bytes_at r' (place prot r j + a) n = bytes_at r (place prot r j + a) n)"

lemma same_but_geometry:
  assumes "same_but prot i r r'"
  shows "block_size r' = block_size r" "node_size r' = node_size r" "max_node r' = max_node r"
    "max_size r' = max_size r" "room r' = room r" "place prot r' = place prot r"
  using assms by (auto simp: same_but_def geometry_def place_def)

lemma same_but_at:
  "same_but prot i r r' \<Longrightarrow> j \<noteq> i \<Longrightarrow> a + n \<le> unat (block_size r) \<Longrightarrow>
    bytes_at r' (place prot r j + a) n = bytes_at r (place prot r j + a) n"
  by (simp add: same_but_def)

lemma attached_geometry: "geometry r' = geometry r \<Longrightarrow> attached prot r' p = attached prot r p"
  by (simp add: attached_def geometry_def place_def)

lemma same_but_header [simp]:
  "same_but prot i r (r'\<lparr>free_list := l\<rparr>) = same_but prot i r r'"
  "same_but prot i r (r'\<lparr>alloc_size := s, alloc_node := k\<rparr>) = same_but prot i r r'"
  by (simp_all add: same_but_def geometry_def)

lemma same_but_refl [simp]: "same_but prot i r r" by (simp add: same_but_def)

lemma same_but_trans: "same_but prot i r s \<Longrightarrow> same_but prot i s t \<Longrightarrow> same_but prot i r t"
  by (auto simp: same_but_def geometry_def place_def)

lemma peek_block:
  assumes "shape prot r" and "attached prot r p" and "i < unat (max_node r)" and "a + n + fence prot \<le> unat (block_size r)"
  shows "peek p (addr_of p (place prot r i + a)) n r = Some (bytes_at r (place prot r i + a) n)"
proof -
  have "place prot r i + a \<le> unat (max_size r)" using place_end [OF assms(1,3)] assms(4) by simp
  then show ?thesis using accessible_block [OF assms] unat_addr [OF assms(2)] by (simp add: peek_def)
qed

lemma poke_block:
  assumes "shape prot r" and "attached prot r p" and "i < unat (max_node r)"
    and "a + length xs + fence prot \<le> unat (block_size r)"
  defines "r' \<equiv> r\<lparr>cell := overwrite (place prot r i + a) xs (cell r)\<rparr>"
  shows "poke p (addr_of p (place prot r i + a)) xs r = Some r'" and "same_but prot i r r'"
proof -
  have "place prot r i + a \<le> unat (max_size r)" using place_end [OF assms(1,3)] assms(4) by simp
  then show "poke p (addr_of p (place prot r i + a)) xs r = Some r'"
    using accessible_block [OF assms(1-4)] unat_addr [OF assms(2)] by (simp add: poke_def r'_def)
  have "bytes_at r' (place prot r j + b) n = bytes_at r (place prot r j + b) n"
    if "j \<noteq> i" "b + n \<le> unat (block_size r)" for j b n
  proof -
    have "place prot r i + a + length xs \<le> place prot r j + b \<or> place prot r j + b + n \<le> place prot r i + a"
      using that assms(4) place_less [of i j prot r] place_less [of j i prot r] by (cases "i < j") auto
    then show ?thesis unfolding r'_def by (rule bytes_at_other)
  qed
  then show "same_but prot i r r'" by (simp add: same_but_def geometry_def r'_def)
qed

definition next_of :: "bool \<Rightarrow> region \<Rightarrow> nat \<Rightarrow> u64" where
  "next_of prot r i = of_nat (le_nat (bytes_at r (place prot r i) 8))"

lemma get_next_block:
  assumes "shape prot r" and "attached prot r p" and "i < unat (max_node r)"
  shows "get_next p (addr_of p (place prot r i)) r = Some (next_of prot r i)"
  using peek_block [OF assms, of 0 8] assms(1) by (simp add: get_next_def next_of_def shape_def)

lemma set_next_block:
  assumes "shape prot r" and "attached prot r p" and "i < unat (max_node r)"
  shows "\<exists>r'. set_next p (addr_of p (place prot r i)) v r = Some r' \<and> same_but prot i r r' \<and> next_of prot r' i = v
    \<and> (\<forall>a n. 8 \<le> a \<longrightarrow> bytes_at r' (place prot r i + a) n = bytes_at r (place prot r i + a) n)
    \<and> alloc_size r' = alloc_size r \<and> alloc_node r' = alloc_node r \<and> free_list r' = free_list r"
proof -
  define r' where "r' = r\<lparr>cell := overwrite (place prot r i + 0) (le_bytes 8 (unat v)) (cell r)\<rparr>"
  have 1: "set_next p (addr_of p (place prot r i)) v r = Some r'" "same_but prot i r r'"
    using poke_block [OF assms, of 0 "le_bytes 8 (unat v)"] assms(1) by (simp_all add: set_next_def r'_def shape_def)
  moreover have "bytes_at r' (place prot r' i) 8 = le_bytes 8 (unat v)"
    by (simp add: same_but_geometry [OF 1(2)]) (simp add: r'_def bytes_at_same)
  then have "next_of prot r' i = v" by (simp add: next_of_def)
  moreover have "bytes_at r' (place prot r i + a) n = bytes_at r (place prot r i + a) n" if "8 \<le> a" for a n
    unfolding r'_def using that by (intro bytes_at_other) simp
  ultimately show ?thesis by (simp add: r'_def)
qed

section \<open>The free list\<close>

fun chain :: "bool \<Rightarrow> region \<Rightarrow> u64 \<Rightarrow> nat list \<Rightarrow> bool" where
  "chain prot r l [] \<longleftrightarrow> l = INVALID_POINTER"
| "chain prot r l (i # fs) \<longleftrightarrow> unat l = place prot r i \<and> chain prot r (next_of prot r i) fs"

definition used :: "region \<Rightarrow> nat list \<Rightarrow> nat set" where
  "used r fs = {i. i < unat (alloc_node r) \<and> i \<notin> set fs}"

definition pool_inv :: "bool \<Rightarrow> region \<Rightarrow> nat list \<Rightarrow> bool" where
  "pool_inv prot r fs \<longleftrightarrow> shape prot r \<and> distinct fs \<and> set fs \<subseteq> {..<unat (alloc_node r)}
     \<and> chain prot r (free_list r) fs \<and> (\<forall>i \<in> used r fs. next_of prot r i = 0)"

text \<open>The nodes in use, by the distance of their first byte, with what they hold.\<close>

definition heap :: "bool \<Rightarrow> region \<Rightarrow> nat list \<Rightarrow> nat \<rightharpoonup> bytes" where
  "heap prot r fs d =
     (if \<exists>i \<in> used r fs. d = place prot r i + 8 then Some (bytes_at r d (unat (node_size r))) else None)"

lemma place_header [simp]:
  "place prot (r\<lparr>free_list := l\<rparr>) = place prot r"
  "place prot (r\<lparr>alloc_size := s, alloc_node := k\<rparr>) = place prot r"
  by (simp_all add: place_def fun_eq_iff)

lemma unat_INVALID: "unat INVALID_POINTER = 2 ^ 64 - 1"
  by (simp add: INVALID_POINTER_def unsigned_minus_1_eq_mask mask_eq_exp_minus_1)

lemma chain_next: "chain prot r l fs \<Longrightarrow> l \<noteq> 0"
  by (cases fs) (auto simp: INVALID_POINTER_def)

lemma free_next: "chain prot r l fs \<Longrightarrow> i \<in> set fs \<Longrightarrow> next_of prot r i \<noteq> 0"
  by (induction fs arbitrary: l) (auto dest: chain_next)

lemma next_same_but:
  assumes "same_but prot i r r'" and "shape prot r" and "j \<noteq> i"
  shows "next_of prot r' j = next_of prot r j"
proof -
  have "bytes_at r' (place prot r j + 0) 8 = bytes_at r (place prot r j + 0) 8"
    using same_but_at [OF assms(1,3), of 0 8] assms(2) by (simp add: shape_def)
  then show ?thesis by (simp add: next_of_def same_but_geometry [OF assms(1)])
qed

lemma chain_same_but:
  assumes "same_but prot i r r'" and "shape prot r"
  shows "i \<notin> set fs \<Longrightarrow> chain prot r' l fs = chain prot r l fs"
  using next_same_but [OF assms] by (induction fs arbitrary: l) (auto simp: same_but_geometry [OF assms(1)])

lemma next_header [simp]:
  "next_of prot (r\<lparr>free_list := l\<rparr>) = next_of prot r"
  "next_of prot (r\<lparr>alloc_size := s, alloc_node := k\<rparr>) = next_of prot r"
  by (simp_all add: next_of_def place_def fun_eq_iff)

lemma shape_header [simp]: "shape prot (r\<lparr>free_list := l\<rparr>) = shape prot r" by (simp add: shape_def place_def)

lemma attached_header [simp]:
  "attached prot (r\<lparr>free_list := l\<rparr>) p = attached prot r p"
  "attached prot (r\<lparr>alloc_size := s, alloc_node := k\<rparr>) p = attached prot r p"
  by (simp_all add: attached_def place_def)

lemma heap_block: "shape prot r \<Longrightarrow>
    heap prot r fs (place prot r i + 8) =
      (if i \<in> used r fs then Some (bytes_at r (place prot r i + 8) (unat (node_size r))) else None)"
  by (auto simp: heap_def place_inj)

lemma dom_heap: "dom (heap prot r fs) = (\<lambda>i. place prot r i + 8) ` used r fs"
  by (auto simp: heap_def split: if_splits)

text \<open>What is not in the block that changes stays.\<close>

lemma heap_same_but:
  assumes "same_but prot i r r'" and "shape prot r" and "shape prot r'" and "used r' fs' - {i} = used r fs - {i}"
    and "d \<noteq> place prot r i + 8"
  shows "heap prot r' fs' d = heap prot r fs d"
proof (cases "\<exists>j. d = place prot r j + 8")
  case True
  then obtain j where j: "d = place prot r j + 8" "j \<noteq> i" using assms(5) by auto
  have "j \<in> used r' fs' \<longleftrightarrow> j \<in> used r fs" using assms(4) j(2) by blast
  moreover have "bytes_at r' (place prot r j + 8) (unat (node_size r)) = bytes_at r (place prot r j + 8) (unat (node_size r))"
    using same_but_at [OF assms(1) j(2), of 8] assms(2) by (simp add: shape_def)
  ultimately show ?thesis
    using heap_block [OF assms(3), of fs' j] heap_block [OF assms(2), of fs j]
    by (simp add: j same_but_geometry [OF assms(1)])
next
  case False
  then show ?thesis by (auto simp: heap_def same_but_geometry [OF assms(1)])
qed

section \<open>Operations\<close>

text \<open>What a caller may count on of \<open>Alloc\<close>.\<close>

definition alloc_result :: "bool \<Rightarrow> pool \<Rightarrow> bool \<Rightarrow> region \<Rightarrow> nat list \<Rightarrow> u64 \<Rightarrow> region \<Rightarrow> nat list \<Rightarrow> bool" where
  "alloc_result prot p zero r fs a r' fs' \<longleftrightarrow> geometry r' = geometry r \<and> pool_inv prot r' fs' \<and>
     (if card (used r fs) = unat (max_node r) then a = 0 \<and> r' = r \<and> fs' = fs
      else \<exists>i < unat (max_node r). a = addr_of p (place prot r i + 8) \<and> i \<notin> used r fs \<and> used r' fs' = insert i (used r fs)
        \<and> (\<exists>xs. length xs = unat (node_size r) \<and> (zero \<longrightarrow> xs = replicate (unat (node_size r)) 0)
            \<and> heap prot r' fs' = (heap prot r fs)(place prot r i + 8 \<mapsto> xs)))"

lemma shape_alloc: "shape prot r \<Longrightarrow> unat (alloc_node r) \<le> unat (max_node r) \<and>
    unat (alloc_size r) = place prot r (unat (alloc_node r))"
  by (simp add: shape_def)

lemma card_used: "distinct fs \<Longrightarrow> set fs \<subseteq> {..<unat (alloc_node r)} \<Longrightarrow> card (used r fs) + length fs = unat (alloc_node r)"
proof -
  assume a: "distinct fs" "set fs \<subseteq> {..<unat (alloc_node r)}"
  have "used r fs = {..<unat (alloc_node r)} - set fs" by (auto simp: used_def)
  moreover have "card ({..<unat (alloc_node r)} - set fs) = unat (alloc_node r) - length fs"
    using a by (simp add: card_Diff_subset distinct_card)
  moreover have "length fs \<le> unat (alloc_node r)"
    using a card_mono [OF _ a(2)] by (simp add: distinct_card)
  ultimately show ?thesis by simp
qed

text \<open>The end of \<open>Alloc\<close>: the block \<open>i\<close> is handed out.\<close>

definition hand_over :: "bool \<Rightarrow> pool \<Rightarrow> bool \<Rightarrow> u64 \<Rightarrow> region \<Rightarrow> (u64 \<times> region) option" where
  "hand_over prot p zero b r = do {
     r \<leftarrow> (if zero
           then poke p b (replicate (unat (if prot then block_size r - MEM_PAGE_SIZE else block_size r)) 0) r
           else Some r);
     r \<leftarrow> set_next p b 0 r;
     Some (GetNode b, r)
   }"

lemma Alloc_steps:
  "Alloc prot p zero r = do {
     (b, r) \<leftarrow> GetFreeBlock p r;
     (b, r) \<leftarrow> (if b = 0 then
         if alloc_size r + block_size r \<le> max_size r
         then Some (Deref p (alloc_size r),
           r\<lparr>alloc_size := alloc_size r + block_size r, alloc_node := alloc_node r + 1\<rparr>)
         else Some (0, r)
       else do { v \<leftarrow> IsValidBlock prot p r b; Some (if v then b else 0, r) });
     if b = 0 then Some (0, r) else hand_over prot p zero b r
   }"
  by (simp only: Alloc_def hand_over_def)

lemma hand_out:
  assumes "shape prot r" and "attached prot r p" and "i < unat (max_node r)"
  defines "b \<equiv> addr_of p (place prot r i)"
  shows "\<exists>r'. hand_over prot p zero b r = Some (addr_of p (place prot r i + 8), r') \<and> same_but prot i r r' \<and> next_of prot r' i = 0
    \<and> (zero \<longrightarrow> bytes_at r' (place prot r i + 8) (unat (node_size r)) = replicate (unat (node_size r)) 0)
    \<and> alloc_size r' = alloc_size r \<and> alloc_node r' = alloc_node r \<and> free_list r' = free_list r"
proof -
  let ?n = "unat (if prot then block_size r - MEM_PAGE_SIZE else block_size r)"
  have n: "?n + fence prot = unat (block_size r)" "unat (node_size r) + 8 \<le> ?n"
    using assms(1) by (auto simp: shape_def fence_def MEM_PAGE_SIZE_def unat_sub_small)
  define s where "s = (if zero then r\<lparr>cell := overwrite (place prot r i + 0) (replicate ?n 0) (cell r)\<rparr> else r)"
  have p1: "(if zero then poke p b (replicate ?n 0) r else Some r) = Some s" and p2: "same_but prot i r s"
    using poke_block [OF assms(1-3), of 0 "replicate ?n 0"] n by (simp_all add: s_def b_def)
  have hdr: "alloc_size s = alloc_size r" "alloc_node s = alloc_node r" "free_list s = free_list r"
    by (simp_all add: s_def)
  have sh: "shape prot s" "i < unat (max_node s)"
    using assms(1,3) hdr p2 by (auto simp: shape_def same_but_geometry [OF p2])
  have at: "attached prot s p" using assms(2) p2 attached_geometry [of s r prot p] by (simp add: same_but_def)
  obtain r' where r': "set_next p (addr_of p (place prot s i)) 0 s = Some r'" "same_but prot i s r'" "next_of prot r' i = 0"
    "\<forall>a n. 8 \<le> a \<longrightarrow> bytes_at r' (place prot s i + a) n = bytes_at s (place prot s i + a) n"
    "alloc_size r' = alloc_size s" "alloc_node r' = alloc_node s" "free_list r' = free_list s"
    using set_next_block [OF sh(1) at sh(2), of 0] by blast
  have z: "bytes_at s (place prot r i + 8) (unat (node_size r)) = replicate (unat (node_size r)) 0" if zero
  proof -
    have "bytes_at (r\<lparr>cell := overwrite (place prot r i) (replicate ?n 0) (cell r)\<rparr>) (place prot r i + 8) (unat (node_size r))
        = take (unat (node_size r)) (drop 8 (replicate ?n 0))"
      using n(2) by (intro bytes_at_within) simp
    then show ?thesis using that n(2) by (simp add: s_def min_def)
  qed
  have "GetNode b = addr_of p (place prot r i + 8)"
    using addr_add [of p "place prot r i" 8] by (simp add: GetNode_def NODE_OFFSET_def b_def)
  then have "hand_over prot p zero b r = Some (addr_of p (place prot r i + 8), r')"
    unfolding hand_over_def p1 using r'(1) by (simp add: b_def same_but_geometry [OF p2])
  moreover have "bytes_at r' (place prot r i + 8) (unat (node_size r)) = replicate (unat (node_size r)) 0" if zero
    using r'(4) z [OF that] by (simp add: same_but_geometry [OF p2])
  ultimately show ?thesis
    using r'(3,5-7) hdr same_but_trans [OF p2 r'(2)] by metis
qed

lemma alloc_resultI:
  assumes "geometry r' = geometry r" and "pool_inv prot r' fs'" and "card (used r fs) \<noteq> unat (max_node r)"
    and "i < unat (max_node r)" and "i \<notin> used r fs" and "used r' fs' = insert i (used r fs)"
    and "zero \<longrightarrow> bytes_at r' (place prot r i + 8) (unat (node_size r)) = replicate (unat (node_size r)) 0"
    and "heap prot r' fs' = (heap prot r fs)(place prot r i + 8 \<mapsto> bytes_at r' (place prot r i + 8) (unat (node_size r)))"
  shows "alloc_result prot p zero r fs (addr_of p (place prot r i + 8)) r' fs'"
  unfolding alloc_result_def using assms
  by (simp, intro exI [of _ i]) (auto intro!: exI [of _ "bytes_at r' (place prot r i + 8) (unat (node_size r))"])

lemma alloc_result_free:
  assumes "pool_inv prot r (i # fs)" and "same_but prot i r r'" and "next_of prot r' i = 0"
    and "alloc_size r' = alloc_size r" and "alloc_node r' = alloc_node r" and "free_list r' = next_of prot r i"
    and "zero \<longrightarrow> bytes_at r' (place prot r i + 8) (unat (node_size r)) = replicate (unat (node_size r)) 0"
  shows "alloc_result prot p zero r (i # fs) (addr_of p (place prot r i + 8)) r' fs"
proof -
  have a: "shape prot r" "distinct (i # fs)" "set (i # fs) \<subseteq> {..<unat (alloc_node r)}"
    "chain prot r (next_of prot r i) fs" "\<forall>j \<in> used r (i # fs). next_of prot r j = 0"
    using assms(1) by (simp_all add: pool_inv_def)
  note g = same_but_geometry [OF assms(2)]
  have sh: "shape prot r'" using a(1) assms(4,5) by (simp add: shape_def g)
  have u: "used r' fs = insert i (used r (i # fs))" using a(2,3) assms(5) by (auto simp: used_def)
  have "next_of prot r' j = 0" if "j \<in> used r' fs" for j
    using that u assms(3) a(5) next_same_but [OF assms(2) a(1), of j] by (cases "j = i") auto
  then have "pool_inv prot r' fs"
    using sh a(2-4) assms(5,6) chain_same_but [OF assms(2) a(1), of fs] by (simp add: pool_inv_def)
  moreover have "heap prot r' fs = (heap prot r (i # fs))(place prot r i + 8 \<mapsto>
      bytes_at r' (place prot r i + 8) (unat (node_size r)))"
  proof
    fix d
    show "heap prot r' fs d = ((heap prot r (i # fs))(place prot r i + 8 \<mapsto>
        bytes_at r' (place prot r i + 8) (unat (node_size r)))) d"
      using heap_same_but [OF assms(2) a(1) sh, of fs "i # fs" d] u heap_block [OF sh, of fs i]
      by (cases "d = place prot r i + 8") (auto simp: g used_def)
  qed
  moreover have "card (used r (i # fs)) \<noteq> unat (max_node r)" "i < unat (max_node r)" "i \<notin> used r (i # fs)"
    using card_used [OF a(2,3)] shape_alloc [OF a(1)] a(3) by (auto simp: used_def)
  moreover have "geometry r' = geometry r" using assms(2) by (simp add: same_but_def)
  ultimately show ?thesis using u assms(7) by (intro alloc_resultI) simp_all
qed

text \<open>A fresh block has the shape of a free one: once it is counted, it could be the only one of the list.\<close>

lemma Alloc_spec:
  assumes "pool_inv prot r fs" and "attached prot r p"
  shows "\<exists>a r' fs'. Alloc prot p zero r = Some (a, r') \<and> alloc_result prot p zero r fs a r' fs'"
proof (cases fs)
  case (Cons i gs)
  have sh: "shape prot r" and i: "i < unat (alloc_node r)" "unat (free_list r) = place prot r i"
    using assms(1) Cons by (simp_all add: pool_inv_def)
  then have im: "i < unat (max_node r)" using shape_alloc [OF sh] by simp
  let ?b = "addr_of p (place prot r i)" and ?s = "r\<lparr>free_list := next_of prot r i\<rparr>"
  have p1: "place prot r i \<le> unat (max_size r)" using place_end [OF sh im] by simp
  have le: "unat ?b < 2 ^ 63" using unat_addr(1) [OF assms(2) p1] assms(2) p1 by (simp add: attached_def)
  have "free_list r \<noteq> INVALID_POINTER"
    using i(2) p1 sh by (auto simp: unat_INVALID shape_def)
  then have 1: "GetFreeBlock p r = Some (?b, ?s)"
    using i(2) get_next_block [OF sh assms(2) im] by (simp add: GetFreeBlock_def Deref_addr)
  have 2: "IsValidBlock prot p ?s ?b = Some True"
    using valid_block [of prot ?s p ?b] sh assms(2) le i(1) by auto
  obtain r' where r': "hand_over prot p zero ?b ?s = Some (addr_of p (place prot r i + 8), r')" "same_but prot i ?s r'" "next_of prot r' i = 0"
    "zero \<longrightarrow> bytes_at r' (place prot r i + 8) (unat (node_size r)) = replicate (unat (node_size r)) 0"
    "alloc_size r' = alloc_size r \<and> alloc_node r' = alloc_node r \<and> free_list r' = next_of prot r i"
    using hand_out [of prot ?s p i zero] sh assms(2) im by auto
  have "Alloc prot p zero r = Some (addr_of p (place prot r i + 8), r')"
    using 1 2 r'(1) unat_addr(2) [OF assms(2) p1] by (simp add: Alloc_steps)
  moreover have "same_but prot i r r'" using r'(2) by (auto simp: same_but_def geometry_def place_def)
  ultimately show ?thesis
    using alloc_result_free [of prot r i gs r' zero p] assms(1) Cons r'(3-5) by blast
next
  case Nil
  have sh: "shape prot r" and fl: "free_list r = INVALID_POINTER" using assms(1) Nil by (simp_all add: pool_inv_def)
  then have 1: "GetFreeBlock p r = Some (0, r)" by (simp add: GetFreeBlock_def)
  let ?k = "unat (alloc_node r)"
  have c: "card (used r []) = ?k" using card_used [of "[]" r] by simp
  have al: "?k \<le> unat (max_node r)" "unat (alloc_size r) = place prot r ?k" using shape_alloc [OF sh] by simp_all
  have "unat (alloc_size r + block_size r) = unat (alloc_size r) + unat (block_size r)"
    using sh al place_less [of ?k "unat (max_node r)" prot r]
    by (intro unat_add_small) (cases "?k = unat (max_node r)"; simp add: shape_def)
  then have room: "alloc_size r + block_size r \<le> max_size r \<longleftrightarrow> ?k < unat (max_node r)"
    using sh al place_less [of ?k "unat (max_node r)" prot r]
    by (cases "?k = unat (max_node r)") (auto simp: word_le_nat_alt shape_def)
  show ?thesis
  proof (cases "?k < unat (max_node r)")
    case False
    then have "Alloc prot p zero r = Some (0, r)" using 1 room by (simp add: Alloc_steps)
    then show ?thesis using assms(1) False al(1) c Nil by (auto simp: alloc_result_def)
  next
    case True
    let ?s = "r\<lparr>alloc_size := alloc_size r + block_size r, alloc_node := alloc_node r + 1\<rparr>"
    let ?b = "addr_of p (place prot r ?k)"
    have "unat (max_node r) < 2 ^ LENGTH(32)" by (rule unsigned_less)
    then have k1: "unat (alloc_node r + 1) = ?k + 1" using True by (simp add: unat_word_ariths)
    have pl: "place prot ?s = place prot r" by (simp add: place_def fun_eq_iff)
    have ss: "shape prot ?s"
      using sh True k1 al \<open>unat (alloc_size r + block_size r) = _\<close> by (simp add: shape_def pl) (simp add: place_def)
    have p1: "place prot r ?k \<le> unat (max_size r)" using place_end [OF sh True] by simp
    have d: "Deref p (alloc_size r) = ?b" using al(2) by (simp add: Deref_addr)
    obtain r' where r': "hand_over prot p zero ?b ?s = Some (addr_of p (place prot r ?k + 8), r')" "same_but prot ?k ?s r'" "next_of prot r' ?k = 0"
      "zero \<longrightarrow> bytes_at r' (place prot r ?k + 8) (unat (node_size r)) = replicate (unat (node_size r)) 0"
      "alloc_size r' = alloc_size ?s \<and> alloc_node r' = alloc_node ?s \<and> free_list r' = free_list r"
      using hand_out [of prot ?s p ?k zero] ss assms(2) True by (simp add: pl) blast
    have A: "Alloc prot p zero r = Some (addr_of p (place prot r ?k + 8), r')"
      using 1 room True d r'(1) unat_addr(2) [OF assms(2) p1] by (simp add: Alloc_steps)
    note g = same_but_geometry [OF r'(2)]
    have sh': "shape prot r'" using ss r'(5) by (simp add: shape_def g pl)
    have u: "used r' [] = insert ?k (used r [])" "?k \<notin> used r []" using r'(5) k1 by (auto simp: used_def)
    have us: "used ?s [] - {?k} = used r [] - {?k}" using k1 by (auto simp: used_def)
    have sb: "same_but prot ?k r r'" using r'(2) by (auto simp: same_but_def geometry_def place_def)
    have "next_of prot r' j = 0" if "j \<in> used r' []" for j
      using that u assms(1) Nil r'(3) next_same_but [OF sb sh, of j] by (cases "j = ?k") (auto simp: pool_inv_def)
    then have "pool_inv prot r' []" using sh' fl r'(5) by (simp add: pool_inv_def)
    moreover have "heap prot r' [] = (heap prot r [])(place prot r ?k + 8 \<mapsto>
        bytes_at r' (place prot r ?k + 8) (unat (node_size r)))"
    proof
      fix d
      show "heap prot r' [] d = ((heap prot r [])(place prot r ?k + 8 \<mapsto>
          bytes_at r' (place prot r ?k + 8) (unat (node_size r)))) d"
        using heap_same_but [OF sb sh sh', of "[]" "[]" d] u heap_block [OF sh', of "[]" ?k]
        by (cases "d = place prot r ?k + 8") (auto simp: same_but_geometry [OF sb])
    qed
    ultimately have "alloc_result prot p zero r fs (addr_of p (place prot r ?k + 8)) r' []"
      using u True c Nil sb r'(4) by (intro alloc_resultI) (simp_all add: same_but_def)
    then show ?thesis using A by blast
  qed
qed

text \<open>Any pointer below the upper half of the address space may be given to \<open>Free\<close>; only nodes in use are freed.\<close>

lemma block_of_node:
  "GetBlock node = addr_of p d \<longleftrightarrow> node = addr_of p (d + 8)"
proof -
  have a: "addr_of p (d + 8) = addr_of p d + 8" using addr_add [of p d 8] by simp
  show ?thesis unfolding a GetBlock_def NODE_OFFSET_def by (metis diff_add_cancel add_diff_cancel)
qed

lemma Free_spec:
  assumes "pool_inv prot r fs" and "attached prot r p" and "8 \<le> unat node" and "unat node < 2 ^ 63"
  shows "(\<exists>i \<in> used r fs. node = addr_of p (place prot r i + 8) \<and>
      (\<exists>r'. Free prot p node r = Some (0, r') \<and> geometry r' = geometry r \<and> pool_inv prot r' (i # fs)
        \<and> used r' (i # fs) = used r fs - {i} \<and> heap prot r' (i # fs) = (heap prot r fs)(place prot r i + 8 := None)))
    \<or> (\<nexists>i. i \<in> used r fs \<and> node = addr_of p (place prot r i + 8)) \<and> Free prot p node r = Some (- 1, r)"
proof -
  have sh: "shape prot r" and fs: "distinct fs" "set fs \<subseteq> {..<unat (alloc_node r)}" "chain prot r (free_list r) fs"
    "\<forall>i \<in> used r fs. next_of prot r i = 0"
    using assms(1) by (simp_all add: pool_inv_def)
  have k: "unat (alloc_node r) \<le> unat (max_node r)" using shape_alloc [OF sh] by simp
  have b: "unat (GetBlock node) < 2 ^ 63"
    using assms(3,4) by (simp add: GetBlock_def NODE_OFFSET_def unat_sub_small)
  note v = valid_block [OF sh assms(2) b]
  show ?thesis
  proof (cases "\<exists>i < unat (alloc_node r). GetBlock node = addr_of p (place prot r i)")
    case False
    then have n: "(\<exists>i < unat (alloc_node r). GetBlock node = addr_of p (place prot r i)) = False" by blast
    have "IsValidBlock prot p r (GetBlock node) = Some False" using v unfolding n .
    then have "Free prot p node r = Some (- 1, r)" by (simp add: Free_def IsUsedBlock_def Let_def)
    moreover have "\<nexists>i. i \<in> used r fs \<and> node = addr_of p (place prot r i + 8)"
      using False by (simp add: block_of_node used_def)
    ultimately show ?thesis by blast
  next
    case True
    then obtain i where i: "i < unat (alloc_node r)" "GetBlock node = addr_of p (place prot r i)" by blast
    have im: "i < unat (max_node r)" using i(1) k by simp
    have node: "node = addr_of p (place prot r i + 8)" using i(2) block_of_node by simp
    have one: "j = i" if "j \<in> used r fs" "node = addr_of p (place prot r j + 8)" for j
    proof -
      have "j < unat (max_node r)" using that(1) k by (simp add: used_def)
      then have "place prot r j \<le> unat (max_size r)" "place prot r i \<le> unat (max_size r)"
        using place_end [OF sh, of j] place_end [OF sh im] by simp_all
      moreover have "addr_of p (place prot r j) = addr_of p (place prot r i)"
        using that(2) i(2) block_of_node by metis
      ultimately have "place prot r j = place prot r i" using unat_addr(1) [OF assms(2)] by (metis add_left_cancel)
      then show ?thesis using place_inj [OF sh] by simp
    qed
    have u: "IsUsedBlock prot p r (GetBlock node) = Some (next_of prot r i = 0)"
      using v i get_next_block [OF sh assms(2) im] True by (simp add: IsUsedBlock_def)
    show ?thesis
    proof (cases "i \<in> set fs")
      case True
      then have "Free prot p node r = Some (- 1, r)" using u free_next [OF fs(3)] by (simp add: Free_def Let_def)
      then show ?thesis using True one by (auto simp: used_def)
    next
      case False
      then have iu: "i \<in> used r fs" using i(1) by (simp add: used_def)
      obtain r' where r': "set_next p (addr_of p (place prot r i)) (free_list r) r = Some r'" "same_but prot i r r'"
        "next_of prot r' i = free_list r" "alloc_size r' = alloc_size r" "alloc_node r' = alloc_node r"
        using set_next_block [OF sh assms(2) im] by blast
      let ?s = "r'\<lparr>free_list := Ref p (addr_of p (place prot r i))\<rparr>"
      note g = same_but_geometry [OF r'(2)]
      have "Free prot p node r = Some (0, ?s)"
        using u iu fs(4) r'(1) i(2) by (simp add: Free_def LinkFreeBlock_def Let_def)
      moreover have sh': "shape prot ?s" using sh r'(4,5) by (simp add: shape_def g)
      moreover have us: "used ?s (i # fs) = used r fs - {i}" using r'(5) by (auto simp: used_def)
      moreover have "pool_inv prot ?s (i # fs)"
      proof -
        have "unat (Ref p (addr_of p (place prot r i))) = place prot r i"
          using place_end [OF sh im] by (intro unat_addr [OF assms(2)]) simp
        moreover have "chain prot ?s (free_list r) fs"
          using chain_same_but [OF _ sh, of i ?s fs "free_list r"] r'(2) False fs(3) by simp
        moreover have "next_of prot ?s j = 0" if "j \<in> used r fs - {i}" for j
          using that fs(4) next_same_but [OF r'(2) sh, of j] by simp
        ultimately show ?thesis
          using sh' fs(1,2) False i(1) r'(3,5) us g by (simp add: pool_inv_def)
      qed
      moreover have "heap prot ?s (i # fs) = (heap prot r fs)(place prot r i + 8 := None)"
      proof
        fix d
        show "heap prot ?s (i # fs) d = ((heap prot r fs)(place prot r i + 8 := None)) d"
          using heap_same_but [of prot i r ?s "i # fs" fs d] r'(2) sh sh' us heap_block [OF sh', of "i # fs" i]
          by (cases "d = place prot r i + 8") (auto simp: g)
      qed
      moreover have "geometry ?s = geometry r" using r'(2) by (simp add: same_but_def geometry_def)
      ultimately show ?thesis using iu node by blast
    qed
  qed
qed

text \<open>The caller reads and writes its nodes.\<close>

lemma bytes_at_splice:
  "a + length xs \<le> n \<Longrightarrow> bytes_at (r\<lparr>cell := overwrite (d + a) xs (cell r)\<rparr>) d n = splice_at a xs (bytes_at r d n)"
  by (rule nth_equalityI) (auto simp: bytes_at_def overwrite_def splice_at_def nth_append min_def)

lemma read_node:
  assumes "pool_inv prot r fs" and "attached prot r p" and "heap prot r fs d = Some ys" and "a + n \<le> unat (node_size r)"
  shows "peek p (addr_of p (d + a)) n r = Some (take n (drop a ys))"
proof -
  have sh: "shape prot r" using assms(1) by (simp add: pool_inv_def)
  obtain i where i: "i \<in> used r fs" "d = place prot r i + 8" "ys = bytes_at r d (unat (node_size r))"
    using assms(3) by (auto simp: heap_def split: if_splits)
  have "i < unat (max_node r)" using i(1) shape_alloc [OF sh] by (simp add: used_def)
  then have "peek p (addr_of p (place prot r i + (8 + a))) n r = Some (bytes_at r (place prot r i + (8 + a)) n)"
    using sh assms(4) by (intro peek_block [OF sh assms(2)]) (auto simp: shape_def)
  moreover have "bytes_at r (place prot r i + (8 + a)) n = take n (drop a ys)"
    using assms(4) by (intro nth_equalityI) (simp_all add: i(2,3) bytes_at_def ac_simps)
  ultimately show ?thesis by (simp add: i(2) add.assoc)
qed

lemma write_node:
  assumes "pool_inv prot r fs" and "attached prot r p" and "heap prot r fs d = Some ys"
    and "a + length xs \<le> unat (node_size r)"
  shows "\<exists>r'. poke p (addr_of p (d + a)) xs r = Some r' \<and> geometry r' = geometry r \<and> pool_inv prot r' fs
    \<and> used r' fs = used r fs \<and> heap prot r' fs = (heap prot r fs)(d \<mapsto> splice_at a xs ys)"
proof -
  have sh: "shape prot r" and inv: "distinct fs" "set fs \<subseteq> {..<unat (alloc_node r)}" "chain prot r (free_list r) fs"
    "\<forall>i \<in> used r fs. next_of prot r i = 0"
    using assms(1) by (simp_all add: pool_inv_def)
  obtain i where i: "i \<in> used r fs" "d = place prot r i + 8" "ys = bytes_at r d (unat (node_size r))"
    using assms(3) by (auto simp: heap_def split: if_splits)
  have im: "i < unat (max_node r)" using i(1) shape_alloc [OF sh] by (simp add: used_def)
  let ?r = "r\<lparr>cell := overwrite (place prot r i + (8 + a)) xs (cell r)\<rparr>"
  have p: "poke p (addr_of p (place prot r i + (8 + a))) xs r = Some ?r" "same_but prot i r ?r"
    by (rule poke_block [OF sh assms(2) im]; use sh assms(4) in \<open>auto simp: shape_def\<close>)+
  have sh': "shape prot ?r" using sh by (simp add: shape_def place_def)
  have "bytes_at ?r (place prot r i) 8 = bytes_at r (place prot r i) 8" by (rule bytes_at_other) simp
  then have ni: "next_of prot ?r i = next_of prot r i" by (simp add: next_of_def place_def)
  have "i \<notin> set fs" using i(1) by (simp add: used_def)
  then have "chain prot ?r (free_list r) fs" using chain_same_but [OF p(2) sh] inv(3) by blast
  moreover have us: "used ?r fs = used r fs" by (simp add: used_def)
  moreover have "next_of prot ?r j = 0" if "j \<in> used r fs" for j
    using that inv(4) ni next_same_but [OF p(2) sh, of j] by (cases "j = i") auto
  ultimately have "pool_inv prot ?r fs" using sh' inv(1,2) by (simp add: pool_inv_def)
  moreover have "heap prot ?r fs = (heap prot r fs)(d \<mapsto> splice_at a xs ys)"
  proof
    fix e
    have "heap prot ?r fs d = Some (splice_at a xs ys)"
      using heap_block [OF sh', of fs i] i us bytes_at_splice [OF assms(4), where r = r and d = d]
      by (simp add: same_but_geometry(6) [OF p(2)] add.assoc)
    then show "heap prot ?r fs e = ((heap prot r fs)(d \<mapsto> splice_at a xs ys)) e"
      using heap_same_but [OF p(2) sh sh', of fs fs e] us i(2) by (cases "e = d") simp_all
  qed
  ultimately show ?thesis using p us by (intro exI [of _ ?r]) (simp add: i(2) add.assoc same_but_def)
qed

section \<open>Opening\<close>

text \<open>The configuration fits into the mapping, and the mapping into the address space.\<close>

definition fits :: "bool \<Rightarrow> u64 \<Rightarrow> u32 \<Rightarrow> region \<Rightarrow> bool" where
  "fits prot sz nodes r \<longleftrightarrow> unat sz < 2 ^ 62 \<and>
     unat (GetHeaderSize prot) + unat nodes * unat (GetBlockSize prot sz None) < 2 ^ 62 \<and>
     unat (GetHeaderSize prot) + unat nodes * unat (GetBlockSize prot sz None) \<le> room r"

definition mapped_at :: "u64 \<Rightarrow> bool \<Rightarrow> u64 \<Rightarrow> u32 \<Rightarrow> bool" where
  "mapped_at addr prot sz nodes \<longleftrightarrow> addr \<noteq> 0 \<and>
     unat addr + unat (GetHeaderSize prot) + unat nodes * unat (GetBlockSize prot sz None) < 2 ^ 63"

text \<open>The static block size is that of this size of nodes.\<close>

definition right_static :: "bool \<Rightarrow> u64 \<Rightarrow> u64 option \<Rightarrow> bool" where
  "right_static prot sz st \<longleftrightarrow> st \<in> {None, Some (GetBlockSize prot sz None)}"

lemma GetBlockSize_static: "right_static prot sz st \<Longrightarrow> GetBlockSize prot sz st = GetBlockSize prot sz None"
  by (auto simp: right_static_def GetBlockSize_def)

lemma unat_GetAllocSize:
  assumes "fits prot sz nodes r" and "right_static prot sz st"
  shows "unat (GetAllocSize prot nodes sz st) = unat (GetHeaderSize prot) + unat nodes * unat (GetBlockSize prot sz None)"
proof -
  have u: "unat (ucast nodes :: u64) = unat nodes" by (simp add: unsigned_ucast_eq take_bit_nat_eq_self_iff)
      (rule less_le_trans [OF unsigned_less], simp)
  have "unat (ucast nodes * GetBlockSize prot sz None :: u64) = unat nodes * unat (GetBlockSize prot sz None)"
    using assms(1) u by (simp add: unat_word_ariths fits_def)
  then show ?thesis
    using assms(1) by (simp add: GetAllocSize_def GetBlockSize_static [OF assms(2)] unat_word_ariths fits_def)
qed

lemma protect_blocks_spec:
  assumes "shape True r" and "m_header p \<noteq> 0" and "unat (m_header p) + unat (max_size r) < 2 ^ 63"
    and "m_data p = m_header p + GetHeaderSize True"
    and "\<forall>f \<in> set (fences p). \<exists>i. unat f = place True r i + unat (block_size r) - 4096"
    and "i \<le> unat (max_node r)"
  shows "\<exists>p'. protect_blocks (\<lambda>_. True) r (addr_of p (place True r i)) p = Some (True, p') \<and> attached True r p'
    \<and> m_header p' = m_header p"
  using assms(2-)
proof (induction "unat (max_node r) - i" arbitrary: i p)
  case 0
  then have at: "attached True r p" and i: "i = unat (max_node r)" by (auto simp: attached_def)
  have m: "place True r i = unat (max_size r)" using assms(1) i by (simp add: shape_def)
  have "unat (addr_of p (place True r i)) = unat (m_header p) + unat (max_size r)"
    using unat_addr(1) [OF at, of "unat (max_size r)"] m by simp
  then have "unat (addr_of p (place True r i) + block_size r) = unat (m_header p) + unat (max_size r) + unat (block_size r)"
    using 0(3) assms(1) by (subst unat_add_small) (auto simp: shape_def)
  moreover have "unat (m_header p + max_size r) = unat (m_header p) + unat (max_size r)"
    using 0(3) by (intro unat_add_small) simp
  moreover have "0 < unat (block_size r)" using assms(1) by (simp add: shape_def)
  ultimately have "\<not> addr_of p (place True r i) + block_size r \<le> m_header p + max_size r"
    by (simp add: word_le_nat_alt)
  then show ?case using at by (subst protect_blocks.simps) auto
next
  case (Suc n)
  then have at: "attached True r p" and i: "i < unat (max_node r)" by (auto simp: attached_def)
  have e: "place True r (Suc i) \<le> unat (max_size r)" using place_end [OF assms(1) i] by (simp add: place_Suc)
  have nx: "addr_of p (place True r i) + block_size r = addr_of p (place True r (Suc i))"
    by (simp add: addr_of_def place_Suc)
  have "unat (m_header p + max_size r) = unat (m_header p) + unat (max_size r)"
    using Suc.prems(2) by (intro unat_add_small) simp
  then have le: "addr_of p (place True r (Suc i)) \<le> m_header p + max_size r"
    using e unat_addr(1) [OF at e] by (simp add: word_le_nat_alt)
  have b: "4096 \<le> unat (block_size r)" using assms(1) by (simp add: shape_def fence_def)
  let ?f = "Ref p (addr_of p (place True r (Suc i)) - MEM_PAGE_SIZE)"
  have "?f = of_nat (place True r (Suc i)) - 4096" by (simp add: Ref_def addr_of_def MEM_PAGE_SIZE_def)
  moreover have u: "unat (of_nat (place True r (Suc i)) :: u64) = place True r (Suc i)"
    using e unat_less [of "max_size r"] by (intro unat_of_small) simp
  moreover have "unat (of_nat (place True r (Suc i)) - 4096 :: u64) = unat (of_nat (place True r (Suc i)) :: u64) - unat (4096 :: u64)"
    by (rule unat_sub_small) (unfold u, use b in \<open>simp add: place_Suc\<close>)
  ultimately have f: "unat ?f = place True r i + unat (block_size r) - 4096" by (simp add: place_Suc)
  let ?p = "p\<lparr>fences := fences p @ [?f]\<rparr>"
  have a: "addr_of ?p = addr_of p" by (simp add: addr_of_def fun_eq_iff)
  have "\<exists>p'. protect_blocks (\<lambda>_. True) r (addr_of ?p (place True r (Suc i))) ?p = Some (True, p') \<and> attached True r p'
      \<and> m_header p' = m_header ?p"
    using Suc.prems Suc.hyps(2) i f by (intro Suc.hyps(1)) auto
  then show ?case using le by (subst protect_blocks.simps) (simp add: nx a Let_def)
qed

lemma Init_end:
  assumes "shape prot r" and "mapped_at addr prot sz nodes" and "node_size r = sz" and "max_node r = nodes"
    and "block_size r = GetBlockSize prot sz None" and "prot \<longrightarrow> mprotect = (\<lambda>_. True)"
  defines "p \<equiv> ShammemPool\<lparr>m_header := addr, m_data := addr + GetHeaderSize prot\<rparr>"
  shows "\<exists>p'. (if prot then do {
      q \<leftarrow> protect_blocks mprotect r (m_data p) p;
      Some (if fst q then 0 else - 2 :: int, snd q, r, st)
    } else Some (0, p, r, st)) = Some (0, p', r, st) \<and> attached prot r p' \<and> m_header p' = addr"
proof -
  have a: "addr \<noteq> 0" "unat addr + unat (max_size r) < 2 ^ 63"
    using assms(1-5) by (simp_all add: mapped_at_def shape_def place_def add.assoc)
  show ?thesis
  proof (cases prot)
    case False
    then show ?thesis using a by (simp add: p_def attached_def ShammemPool_def)
  next
    case True
    have "m_data p = addr_of p (place True r 0)" by (simp add: p_def addr_of_def place_def ShammemPool_def True)
    then show ?thesis
      using protect_blocks_spec [of r p 0] assms(1,6) a True
      by (auto simp: p_def ShammemPool_def)
  qed
qed

lemma Init_fresh:
  assumes "fits prot sz nodes r" and "right_static prot sz st" and "mapped_at addr prot sz nodes"
    and "prot \<longrightarrow> mprotect = (\<lambda>_. True)"
  shows "\<exists>p' r'. Init prot addr nodes sz False now mprotect ShammemPool r st
      = Some (0, p', r', Some (GetBlockSize prot sz None)) \<and> pool_inv prot r' [] \<and> attached prot r' p'
    \<and> m_header p' = addr \<and> node_size r' = sz \<and> max_node r' = nodes \<and> block_size r' = GetBlockSize prot sz None
    \<and> alloc_node r' = 0"
proof -
  let ?r = "r\<lparr>max_size := GetAllocSize prot nodes sz st, max_node := nodes, alloc_size := GetHeaderSize prot,
                alloc_node := 0, node_size := sz, block_size := GetBlockSize prot sz None,
                create_time := now, free_list := INVALID_POINTER\<rparr>"
  have "shape prot ?r"
    using GetBlockSize_room [of sz prot] unat_GetAllocSize [OF assms(1,2)] assms(1)
    by (simp add: shape_def place_def fits_def)
  moreover from this have "pool_inv prot ?r []" by (simp add: pool_inv_def used_def)
  moreover have "addr \<noteq> 0" using assms(3) by (simp add: mapped_at_def)
  ultimately show ?thesis
    using Init_end [of prot ?r addr sz nodes mprotect "Some (GetBlockSize prot sz None)"] assms(3,4)
    by (auto simp: Init_def Let_def GetBlockSize_static [OF assms(2)])
qed

lemma Init_attach:
  assumes "pool_inv prot r fs" and "right_static prot sz st" and "mapped_at addr prot sz nodes" and "unat sz < 2 ^ 62"
    and "prot \<longrightarrow> mprotect = (\<lambda>_. True)"
    and "node_size r = sz" and "max_node r = nodes" and "block_size r = GetBlockSize prot sz None"
  shows "\<exists>p'. Init prot addr nodes sz True now mprotect ShammemPool r st
      = Some (0, p', r, Some (GetBlockSize prot sz None)) \<and> attached prot r p' \<and> m_header p' = addr"
proof -
  have sh: "shape prot r" using assms(1) by (simp add: pool_inv_def)
  have f: "fits prot sz nodes r" using sh assms(4,6-8) by (simp add: fits_def shape_def place_def)
  have al: "unat (alloc_size r) = place prot r (unat (alloc_node r))" "unat (alloc_node r) \<le> unat (max_node r)"
    using sh by (simp_all add: shape_def)
  have "unat (GetAllocSize prot nodes sz st) = unat (max_size r)"
    using unat_GetAllocSize [OF f assms(2)] sh assms(7,8) by (simp add: shape_def place_def)
  then have m: "GetAllocSize prot nodes sz st = max_size r" by (simp add: word_unat_eq_iff)
  have "fits prot sz (alloc_node r) r"
    using f assms(7) mult_le_mono1 [OF al(2), of "unat (GetBlockSize prot sz None)"]
    unfolding fits_def assms(7) by (intro conjI) linarith+
  then have "unat (GetAllocSize prot (alloc_node r) sz None) = unat (alloc_size r)"
    using unat_GetAllocSize [of prot sz "alloc_node r" r None] al(1) assms(8) by (simp add: right_static_def place_def)
  then have "GetAllocSize prot (alloc_node r) sz None = alloc_size r" by (simp only: word_unat_eq_iff)
  then have s: "GetHeaderSize prot + ucast (alloc_node r) * block_size r = alloc_size r"
    using assms(8) by (simp add: GetAllocSize_def)
  have "alloc_size r \<le> max_size r"
    using sh al mult_le_mono1 [OF al(2), of "unat (block_size r)"] by (simp add: word_le_nat_alt shape_def place_def)
  then have "CheckHeader prot nodes sz st r"
    using m s assms(6-8) by (simp add: CheckHeader_def Let_def GetBlockSize_static [OF assms(2)] not_less)
  then show ?thesis
    using Init_end [OF sh assms(3,6-8,5), of "Some (GetBlockSize prot sz None)"] assms(3)
    by (auto simp: Init_def Let_def GetBlockSize_static [OF assms(2)] mapped_at_def)
qed

section \<open>Walking\<close>

text \<open>The next block in use, from the block \<open>i\<close> on.\<close>

definition next_used :: "region \<Rightarrow> nat list \<Rightarrow> nat \<Rightarrow> nat option" where
  "next_used r fs i = find (\<lambda>j. j \<in> used r fs) [i..<unat (alloc_node r)]"

lemma next_used_unfold:
  "next_used r fs i = (if unat (alloc_node r) \<le> i then None else if i \<in> used r fs then Some i else next_used r fs (Suc i))"
  by (simp add: next_used_def upt_rec [of i])

lemma place_le: "shape prot r \<Longrightarrow> i \<le> unat (max_node r) \<Longrightarrow> place prot r i \<le> unat (max_size r)"
  by (simp add: shape_def place_def)

lemma addr_place_inj:
  assumes "shape prot r" and "attached prot r p" and "i \<le> unat (max_node r)" and "j \<le> unat (max_node r)"
  shows "addr_of p (place prot r i) = addr_of p (place prot r j) \<longleftrightarrow> i = j"
  using unat_addr(1) [OF assms(2) place_le [OF assms(1,3)]] unat_addr(1) [OF assms(2) place_le [OF assms(1,4)]]
    place_inj [OF assms(1), of i j] by (auto simp: word_unat_eq_iff)

text \<open>The pointer with which the walk goes on at the block \<open>i\<close>.\<close>

definition walk_at :: "bool \<Rightarrow> pool \<Rightarrow> region \<Rightarrow> nat \<Rightarrow> u64" where
  "walk_at prot p r i = (if i = 0 then 0 else addr_of p (place prot r (i - 1)))"

lemma GetNextBlock_spec:
  assumes "shape prot r" and "attached prot r p" and "i \<le> unat (alloc_node r)"
  shows "GetNextBlock prot p r (walk_at prot p r i) = Some (if i < unat (alloc_node r) then addr_of p (place prot r i) else 0)"
proof -
  have k: "unat (alloc_node r) \<le> unat (max_node r)" using shape_alloc [OF assms(1)] by simp
  then have im: "i \<le> unat (max_node r)" using assms(3) by simp
  have "unat (addr_of p (place prot r i)) < 2 ^ 63"
    using unat_addr(1) [OF assms(2) place_le [OF assms(1) im]] place_le [OF assms(1) im] assms(2)
    by (simp add: attached_def)
  then have "IsValidBlock prot p r (addr_of p (place prot r i)) = Some (\<exists>j < unat (alloc_node r). addr_of p (place prot r i) = addr_of p (place prot r j))"
    by (rule valid_block [OF assms(1,2)])
  also have "(\<exists>j < unat (alloc_node r). addr_of p (place prot r i) = addr_of p (place prot r j)) \<longleftrightarrow> i < unat (alloc_node r)"
    by (metis addr_place_inj [OF assms(1,2) im] k less_imp_le_nat order_trans)
  finally have v: "IsValidBlock prot p r (addr_of p (place prot r i)) = Some (i < unat (alloc_node r))" .
  show ?thesis
  proof (cases i)
    case 0
    then show ?thesis using v m_data_addr [OF assms(2)]
      by (simp add: GetNextBlock_def GetFirstBlock_def walk_at_def)
  next
    case (Suc j)
    have "addr_of p (place prot r j) \<noteq> 0"
      by (rule unat_addr(2) [OF assms(2) place_le [OF assms(1)]]) (use Suc im in simp)
    moreover have "addr_of p (place prot r j) + block_size r = addr_of p (place prot r i)"
      by (simp add: addr_of_def place_Suc Suc)
    ultimately show ?thesis using v Suc by (simp add: GetNextBlock_def walk_at_def)
  qed
qed

lemma GetNextUsedBlock_spec:
  assumes "pool_inv prot r fs" and "attached prot r p"
  shows "i \<le> unat (alloc_node r) \<Longrightarrow>
    GetNextUsedBlock prot p r (walk_at prot p r i) =
      Some (case next_used r fs i of None \<Rightarrow> 0 | Some j \<Rightarrow> addr_of p (place prot r j))"
proof (induction "unat (alloc_node r) - i" arbitrary: i)
  case 0
  have "shape prot r" using assms(1) by (simp add: pool_inv_def)
  from GetNextBlock_spec [OF this assms(2) 0(2)] 0 show ?case
    by (subst GetNextUsedBlock.simps) (simp add: next_used_unfold)
next
  case (Suc n)
  have sh: "shape prot r" and i: "i < unat (alloc_node r)" using assms(1) Suc.hyps(2) by (simp_all add: pool_inv_def)
  then have im: "i < unat (max_node r)" using shape_alloc [OF sh] by simp
  have nz: "addr_of p (place prot r i) \<noteq> 0"
    by (rule unat_addr(2) [OF assms(2) place_le [OF sh]]) (use im in simp)
  have nx: "next_of prot r i = 0 \<longleftrightarrow> i \<in> used r fs"
    using assms(1) i free_next [of prot r "free_list r" fs i] by (auto simp: pool_inv_def used_def)
  have w: "walk_at prot p r (Suc i) = addr_of p (place prot r i)" by (simp add: walk_at_def)
  show ?case
    using GetNextBlock_spec [OF sh assms(2) Suc.prems] get_next_block [OF sh assms(2) im] i nz nx
      Suc.hyps(1) [of "Suc i"] Suc.hyps(2)
    by (subst GetNextUsedBlock.simps, subst next_used_unfold) (simp add: w)
qed

text \<open>\<open>GetNextNode\<close> goes from a null pointer to the first node in use, and from a node to the next.\<close>

definition node_at :: "bool \<Rightarrow> pool \<Rightarrow> region \<Rightarrow> nat \<Rightarrow> u64" where
  "node_at prot p r i = addr_of p (place prot r i + 8)"

lemma GetNextNode_spec:
  assumes "pool_inv prot r fs" and "attached prot r p" and "i \<le> unat (alloc_node r)"
  shows "GetNextNode prot p r (if i = 0 then 0 else node_at prot p r (i - 1)) =
      Some (case next_used r fs i of None \<Rightarrow> 0 | Some j \<Rightarrow> node_at prot p r j)"
proof -
  have sh: "shape prot r" using assms(1) by (simp add: pool_inv_def)
  have k: "unat (alloc_node r) \<le> unat (max_node r)" using shape_alloc [OF sh] by simp
  have node: "addr_of p (place prot r j + 8) = GetNode (addr_of p (place prot r j))" for j
    using addr_add [of p "place prot r j" 8] by (simp add: GetNode_def NODE_OFFSET_def)
  have nz: "node_at prot p r j \<noteq> 0" if "j < unat (max_node r)" for j
  proof -
    have "place prot r j + 8 \<le> unat (max_size r)" using place_end [OF sh that] sh by (simp add: shape_def)
    then show ?thesis unfolding node_at_def by (rule unat_addr(2) [OF assms(2)])
  qed
  have "(if (if i = 0 then 0 else node_at prot p r (i - 1)) = 0 then 0
      else GetBlock (if i = 0 then 0 else node_at prot p r (i - 1))) = walk_at prot p r i"
    using nz [of "i - 1"] assms(3) k block_of_node [of "node_at prot p r (i - 1)" p "place prot r (i - 1)"]
    by (auto simp: walk_at_def node_at_def)
  moreover have "addr_of p (place prot r j) \<noteq> 0" if "next_used r fs i = Some j" for j
  proof -
    have "j \<in> used r fs" using that by (auto simp: next_used_def find_Some_iff)
    then show ?thesis using k by (intro unat_addr(2) [OF assms(2) place_le [OF sh]]) (simp add: used_def)
  qed
  ultimately show ?thesis
    using GetNextUsedBlock_spec [OF assms] by (auto simp: GetNextNode_def node_at_def node split: option.split)
qed

section \<open>Properties\<close>

text \<open>Several processes that have the region mapped, each at an address of its own.\<close>

record shared =
  procs :: "pool list"
  reg :: region

datatype pool_call =
    Attach u64
  | AllocBy nat bool
  | FreeBy nat u64
  | ReadBy nat u64 nat
  | WriteBy nat u64 nat byte

datatype pool_answer = Code int | Address u64 | Content byte | Done

fun pool_step :: "bool \<Rightarrow> u32 \<Rightarrow> u64 \<Rightarrow> pool_call \<Rightarrow> shared \<Rightarrow> (pool_answer \<times> shared) option" where
  "pool_step prot nodes sz (Attach addr) s = do {
     (code, p, r, st) \<leftarrow> Init prot addr nodes sz True 0 (\<lambda>_. True) ShammemPool (reg s) None;
     Some (Code code, s\<lparr>procs := procs s @ [p], reg := r\<rparr>)
   }"
| "pool_step prot nodes sz (AllocBy i zero) s = do {
     (a, r) \<leftarrow> Alloc prot (procs s ! i) zero (reg s);
     Some (Address a, s\<lparr>reg := r\<rparr>)
   }"
| "pool_step prot nodes sz (FreeBy i node) s = do {
     (code, r) \<leftarrow> Free prot (procs s ! i) node (reg s);
     Some (Code code, s\<lparr>reg := r\<rparr>)
   }"
| "pool_step prot nodes sz (ReadBy i node a) s = do {
     xs \<leftarrow> peek (procs s ! i) (node + of_nat a) 1 (reg s);
     Some (Content (hd xs), s)
   }"
| "pool_step prot nodes sz (WriteBy i node a v) s = do {
     r \<leftarrow> poke (procs s ! i) (node + of_nat a) [v] (reg s);
     Some (Done, s\<lparr>reg := r\<rparr>)
   }"

text \<open>
  The abstract heap maps the distance of a node to its bytes, where a byte that was never written is
  \<open>None\<close>. A caller may free any pointer that is not near the ends of the address space, and reads and
  writes only the nodes it owns.
\<close>

type_synonym node_heap = "nat \<rightharpoonup> byte option list"

abbreviation place_of :: "shared \<Rightarrow> nat \<Rightarrow> u64 \<Rightarrow> nat" where
  "place_of s i node \<equiv> unat (Ref (procs s ! i) node)"

fun allowed :: "bool \<Rightarrow> u32 \<Rightarrow> u64 \<Rightarrow> shared \<Rightarrow> node_heap \<Rightarrow> pool_call \<Rightarrow> bool" where
  "allowed prot nodes sz s h (Attach addr) \<longleftrightarrow> mapped_at addr prot sz nodes"
| "allowed prot nodes sz s h (AllocBy i zero) \<longleftrightarrow> i < length (procs s)"
| "allowed prot nodes sz s h (FreeBy i node) \<longleftrightarrow> i < length (procs s) \<and> 8 \<le> unat node \<and> unat node < 2 ^ 63"
| "allowed prot nodes sz s h (ReadBy i node a) \<longleftrightarrow>
     i < length (procs s) \<and> a < unat sz \<and> h (place_of s i node) \<noteq> None"
| "allowed prot nodes sz s h (WriteBy i node a v) \<longleftrightarrow>
     i < length (procs s) \<and> a < unat sz \<and> h (place_of s i node) \<noteq> None"

fun heap_step :: "u32 \<Rightarrow> u64 \<Rightarrow> shared \<Rightarrow> pool_call \<Rightarrow> pool_answer \<Rightarrow> node_heap \<Rightarrow> node_heap \<Rightarrow> bool" where
  "heap_step nodes sz s (Attach addr) ans h h' \<longleftrightarrow> ans = Code 0 \<and> h' = h"
| "heap_step nodes sz s (AllocBy i zero) ans h h' \<longleftrightarrow>
     (if card (dom h) = unat nodes then ans = Address 0 \<and> h' = h
      else \<exists>a. ans = Address a \<and> a \<noteq> 0 \<and> (\<forall>d \<in> dom h. place_of s i a + unat sz \<le> d \<or> d + unat sz \<le> place_of s i a)
        \<and> h (place_of s i a) = None
        \<and> h' = h(place_of s i a \<mapsto> replicate (unat sz) (if zero then Some 0 else None)))"
| "heap_step nodes sz s (FreeBy i node) ans h h' \<longleftrightarrow>
     ans = Code (if h (place_of s i node) = None then - 1 else 0) \<and> h' = h(place_of s i node := None)"
| "heap_step nodes sz s (ReadBy i node a) ans h h' \<longleftrightarrow>
     (\<exists>v. ans = Content v \<and> (the (h (place_of s i node)) ! a = None \<or> the (h (place_of s i node)) ! a = Some v)) \<and> h' = h"
| "heap_step nodes sz s (WriteBy i node a v) ans h h' \<longleftrightarrow>
     ans = Done \<and> h' = h(place_of s i node \<mapsto> (the (h (place_of s i node)))[a := Some v])"

inductive pool_reachable :: "bool \<Rightarrow> u32 \<Rightarrow> u64 \<Rightarrow> shared \<Rightarrow> node_heap \<Rightarrow> bool" for prot nodes sz where
  start: "fits prot sz nodes r \<Longrightarrow> right_static prot sz st \<Longrightarrow> mapped_at addr prot sz nodes \<Longrightarrow>
    Init prot addr nodes sz False now (\<lambda>_. True) ShammemPool r st = Some (0, p, r', st') \<Longrightarrow>
    pool_reachable prot nodes sz \<lparr>procs = [p], reg = r'\<rparr> Map.empty"
| step: "pool_reachable prot nodes sz s h \<Longrightarrow> allowed prot nodes sz s h c \<Longrightarrow>
    pool_step prot nodes sz c s = Some (ans, s') \<Longrightarrow> heap_step nodes sz s c ans h h' \<Longrightarrow>
    pool_reachable prot nodes sz s' h'"

definition agrees :: "byte option list \<Rightarrow> bytes \<Rightarrow> bool" where
  "agrees xs ys \<longleftrightarrow> list_all2 (\<lambda>x y. x = None \<or> x = Some y) xs ys"

definition tracks :: "node_heap \<Rightarrow> (nat \<rightharpoonup> bytes) \<Rightarrow> bool" where
  "tracks h g \<longleftrightarrow> dom h = dom g \<and> (\<forall>d xs ys. h d = Some xs \<longrightarrow> g d = Some ys \<longrightarrow> agrees xs ys)"

definition pools_inv :: "bool \<Rightarrow> u32 \<Rightarrow> u64 \<Rightarrow> shared \<Rightarrow> node_heap \<Rightarrow> bool" where
  "pools_inv prot nodes sz s h \<longleftrightarrow> unat sz < 2 ^ 62 \<and> node_size (reg s) = sz \<and> max_node (reg s) = nodes
     \<and> block_size (reg s) = GetBlockSize prot sz None \<and> (\<forall>p \<in> set (procs s). attached prot (reg s) p)
     \<and> (\<exists>fs. pool_inv prot (reg s) fs \<and> tracks h (heap prot (reg s) fs))"

lemma tracks_update: "tracks h g \<Longrightarrow> agrees xs ys \<Longrightarrow> tracks (h(d \<mapsto> xs)) (g(d \<mapsto> ys))"
  by (auto simp: tracks_def)

lemma tracks_delete: "tracks h g \<Longrightarrow> tracks (h(d := None)) (g(d := None))"
  by (auto simp: tracks_def dom_def)

lemma addr_Ref: "addr_of p (unat (Ref p a)) = a" by (simp add: addr_of_def Ref_def)

lemma card_heap:
  assumes "shape prot r"
  shows "card (dom (heap prot r fs)) = card (used r fs)"
  unfolding dom_heap using place_inj [OF assms] by (intro card_image) (auto simp: inj_on_def)

text \<open>Every call that is allowed has an answer, and it is one of the heap.\<close>

lemma pool_step_refines:
  assumes "pools_inv prot nodes sz s h" and "allowed prot nodes sz s h c"
  shows "\<exists>ans s' h'. pool_step prot nodes sz c s = Some (ans, s') \<and> heap_step nodes sz s c ans h h'
    \<and> pools_inv prot nodes sz s' h'"
proof -
  let ?r = "reg s"
  obtain fs where fs: "pool_inv prot ?r fs" "tracks h (heap prot ?r fs)"
    and cfg: "unat sz < 2 ^ 62" "node_size ?r = sz" "max_node ?r = nodes" "block_size ?r = GetBlockSize prot sz None"
    and att: "\<forall>p \<in> set (procs s). attached prot ?r p"
    using assms(1) by (auto simp: pools_inv_def)
  have sh: "shape prot ?r" using fs(1) by (simp add: pool_inv_def)
  have keep: "pools_inv prot nodes sz (s\<lparr>reg := r'\<rparr>) h'"
    if "geometry r' = geometry ?r" "pool_inv prot r' fs'" "tracks h' (heap prot r' fs')" for r' fs' h'
    using that cfg att attached_geometry [OF that(1)] by (auto simp: pools_inv_def geometry_def)
  have dom: "dom h = dom (heap prot ?r fs)" using fs(2) by (simp add: tracks_def)
  show ?thesis
  proof (cases c)
    case (Attach addr)
    obtain p' where "Init prot addr nodes sz True 0 (\<lambda>_. True) ShammemPool ?r None
      = Some (0, p', ?r, Some (GetBlockSize prot sz None))" "attached prot ?r p'"
      using Init_attach [OF fs(1), of sz None addr nodes "\<lambda>_. True" 0] assms(2) cfg Attach by (auto simp: right_static_def)
    then show ?thesis using Attach assms(1) by (auto simp: pools_inv_def)
  next
    case (AllocBy i zero)
    let ?p = "procs s ! i"
    have at: "attached prot ?r ?p" using att assms(2) AllocBy by simp
    obtain a r' fs' where al: "Alloc prot ?p zero ?r = Some (a, r')" "alloc_result prot ?p zero ?r fs a r' fs'"
      using Alloc_spec [OF fs(1) at] by blast
    have c: "card (dom h) = card (used ?r fs)" using card_heap [OF sh] dom by simp
    show ?thesis
    proof (cases "card (used ?r fs) = unat nodes")
      case True
      then show ?thesis using AllocBy al c cfg(3) assms(1) by (auto simp: alloc_result_def)
    next
      case False
      then obtain j xs where j: "j < unat nodes" "a = addr_of ?p (place prot ?r j + 8)" "j \<notin> used ?r fs"
        "geometry r' = geometry ?r" "pool_inv prot r' fs'" "length xs = unat sz" "zero \<longrightarrow> xs = replicate (unat sz) 0"
        "heap prot r' fs' = (heap prot ?r fs)(place prot ?r j + 8 \<mapsto> xs)"
        using al(2) cfg by (auto simp: alloc_result_def)
      have "place prot ?r j + 8 \<le> unat (max_size ?r)"
        using place_end [OF sh, of j] j(1) cfg(3) sh by (simp add: shape_def)
      then have a: "unat (Ref ?p a) = place prot ?r j + 8" "a \<noteq> 0" using unat_addr(2,3) [OF at] j(2) by simp_all
      have ag: "agrees (replicate (unat sz) (if zero then Some 0 else None)) xs"
        using j(6,7) by (auto simp: agrees_def list_all2_conv_all_nth)
      have "place prot ?r j + 8 + unat sz \<le> d \<or> d + unat sz \<le> place prot ?r j + 8" if dh: "d \<in> dom h" for d
      proof -
        obtain l where l: "l \<in> used ?r fs" "d = place prot ?r l + 8" using dh unfolding dom dom_heap by blast
        then have "l \<noteq> j" using j(3) by blast
        then show ?thesis
          using place_less [of l j prot ?r] place_less [of j l prot ?r] sh cfg(2) l(2)
          by (cases "l < j") (auto simp: shape_def)
      qed
      moreover have "h (place prot ?r j + 8) = None"
        using dom heap_block [OF sh, of fs j] j(3) by (metis domIff)
      ultimately have "heap_step nodes sz s c (Address a) h
          (h(place prot ?r j + 8 \<mapsto> replicate (unat sz) (if zero then Some 0 else None)))"
        using False c a AllocBy by auto
      moreover have "pools_inv prot nodes sz (s\<lparr>reg := r'\<rparr>)
          (h(place prot ?r j + 8 \<mapsto> replicate (unat sz) (if zero then Some 0 else None)))"
        using keep [OF j(4,5)] tracks_update [OF fs(2) ag] j(8) by simp
      moreover have "pool_step prot nodes sz c s = Some (Address a, s\<lparr>reg := r'\<rparr>)" using AllocBy al(1) by simp
      ultimately show ?thesis by blast
    qed
  next
    case (FreeBy i node)
    let ?p = "procs s ! i"
    have at: "attached prot ?r ?p" and nd: "8 \<le> unat node" "unat node < 2 ^ 63" using att assms(2) FreeBy by simp_all
    have iff: "(h (place_of s i node) \<noteq> None) = (\<exists>j \<in> used ?r fs. node = addr_of ?p (place prot ?r j + 8))"
    proof -
      have key: "unat (Ref ?p node) = place prot ?r j + 8 \<longleftrightarrow> node = addr_of ?p (place prot ?r j + 8)" if "j \<in> used ?r fs" for j
      proof -
        have "j < unat (max_node ?r)" using that shape_alloc [OF sh] by (simp add: used_def)
        then have "place prot ?r j + 8 \<le> unat (max_size ?r)" using place_end [OF sh] sh by (fastforce simp: shape_def)
        then show ?thesis using unat_addr(3) [OF at] addr_Ref by metis
      qed
      have "h (place_of s i node) \<noteq> None \<longleftrightarrow> place_of s i node \<in> dom h" by (simp add: domIff)
      also have "\<dots> \<longleftrightarrow> (\<exists>j \<in> used ?r fs. place_of s i node = place prot ?r j + 8)" unfolding dom dom_heap by blast
      finally show ?thesis using key by blast
    qed
    from Free_spec [OF fs(1) at nd] consider
      j r' where "j \<in> used ?r fs" "node = addr_of ?p (place prot ?r j + 8)" "Free prot ?p node ?r = Some (0, r')"
        "geometry r' = geometry ?r" "pool_inv prot r' (j # fs)"
        "heap prot r' (j # fs) = (heap prot ?r fs)(place prot ?r j + 8 := None)"
      | "h (place_of s i node) = None" "Free prot ?p node ?r = Some (- 1, ?r)"
      using iff by blast
    then show ?thesis
    proof cases
      case 1
      have "j < unat (max_node ?r)" using 1(1) shape_alloc [OF sh] by (simp add: used_def)
      then have "place prot ?r j + 8 \<le> unat (max_size ?r)" using place_end [OF sh] sh by (fastforce simp: shape_def)
      then have "place_of s i node = place prot ?r j + 8" using unat_addr(3) [OF at] 1(2) by simp
      moreover have "h (place_of s i node) \<noteq> None" using iff 1(1,2) by blast
      ultimately show ?thesis
        using 1 FreeBy keep [OF 1(4,5), of "h(place_of s i node := None)"] tracks_delete [OF fs(2)] by auto
    next
      case 2
      then show ?thesis using FreeBy assms(1) by (auto simp: fun_upd_idem)
    qed
  next
    case (ReadBy i node a)
    let ?p = "procs s ! i" and ?d = "place_of s i node"
    have at: "attached prot ?r ?p" and a: "a < unat sz" "h ?d \<noteq> None" using att assms(2) ReadBy by simp_all
    then obtain xs ys where xy: "h ?d = Some xs" "heap prot ?r fs ?d = Some ys" "agrees xs ys"
      using fs(2) by (fastforce simp: tracks_def)
    have len: "length ys = unat sz" using xy(2) cfg(2) by (auto simp: heap_def split: if_splits)
    have "node + of_nat a = addr_of ?p (?d + a)" using addr_Ref [of ?p node] addr_add [of ?p ?d a] by simp
    then have "peek ?p (node + of_nat a) 1 ?r = Some (take 1 (drop a ys))"
      using read_node [OF fs(1) at xy(2), of a 1] a(1) cfg(2) by simp
    moreover have "hd (take 1 (drop a ys)) = ys ! a" using a(1) len by (simp add: hd_drop_conv_nth)
    moreover have "xs ! a = None \<or> xs ! a = Some (ys ! a)"
      using xy(3) a(1) len by (simp add: agrees_def list_all2_conv_all_nth)
    ultimately show ?thesis using ReadBy xy(1) assms(1) by auto
  next
    case (WriteBy i node a v)
    let ?p = "procs s ! i" and ?d = "place_of s i node"
    have at: "attached prot ?r ?p" and a: "a < unat sz" "h ?d \<noteq> None" using att assms(2) WriteBy by simp_all
    then obtain xs ys where xy: "h ?d = Some xs" "heap prot ?r fs ?d = Some ys" "agrees xs ys"
      using fs(2) by (fastforce simp: tracks_def)
    have len: "length ys = unat sz" using xy(2) cfg(2) by (auto simp: heap_def split: if_splits)
    have "node + of_nat a = addr_of ?p (?d + a)" using addr_Ref [of ?p node] addr_add [of ?p ?d a] by simp
    then obtain r' where r': "poke ?p (node + of_nat a) [v] ?r = Some r'" "geometry r' = geometry ?r" "pool_inv prot r' fs"
      "heap prot r' fs = (heap prot ?r fs)(?d \<mapsto> splice_at a [v] ys)"
      using write_node [OF fs(1) at xy(2), of a "[v]"] a(1) cfg(2) by auto
    have "splice_at a [v] ys = ys[a := v]" using a(1) len by (simp add: splice_at_def upd_conv_take_nth_drop)
    then have "agrees (xs[a := Some v]) (splice_at a [v] ys)"
      using xy(3) by (auto simp: agrees_def intro: list_all2_update_cong)
    then show ?thesis
      using WriteBy r' xy(1) keep [OF r'(2,3), of "h(?d \<mapsto> xs[a := Some v])"] tracks_update [OF fs(2)] by auto
  qed
qed

lemma heap_step_one: "heap_step nodes sz s c ans h h1 \<Longrightarrow> heap_step nodes sz s c ans h h2 \<Longrightarrow> h1 = h2"
  by (cases c) (auto split: if_splits)

lemma pool_reachable_inv: "pool_reachable prot nodes sz s h \<Longrightarrow> pools_inv prot nodes sz s h"
proof (induction rule: pool_reachable.induct)
  case (start r st addr now p r' st')
  obtain p1 r1 where "Init prot addr nodes sz False now (\<lambda>_. True) ShammemPool r st
      = Some (0, p1, r1, Some (GetBlockSize prot sz None))" "pool_inv prot r1 []" "attached prot r1 p1"
    "node_size r1 = sz" "max_node r1 = nodes" "block_size r1 = GetBlockSize prot sz None" "alloc_node r1 = 0"
    using Init_fresh [OF start(1-3), of "\<lambda>_. True" now] by blast
  moreover from this have "heap prot r1 [] = Map.empty" by (simp add: heap_def used_def fun_eq_iff)
  ultimately show ?case
    using start by (auto simp: pools_inv_def tracks_def fits_def intro!: exI [of _ "[]"])
next
  case (step s h c ans s' h')
  then show ?case using pool_step_refines [OF step.IH step.hyps(2)] heap_step_one by fastforce
qed

text \<open>
  C23: Several processes with the pool mapped at different addresses share a heap of \<open>nodes\<close> nodes: an
  allocation fails exactly when all nodes are in use, and otherwise gives a node that overlaps no node in
  use, wherever it was allocated; a pointer is freed exactly when it is a node in use, so that a second
  free is refused; and a node has the bytes last written to it until it is freed. No call aborts, with and
  without the protected pages between the blocks.
\<close>

theorem pool_is_a_heap:
  assumes "pool_reachable prot nodes sz s h" and "allowed prot nodes sz s h c"
  shows "\<exists>ans s' h'. pool_step prot nodes sz c s = Some (ans, s') \<and> heap_step nodes sz s c ans h h'
    \<and> pool_reachable prot nodes sz s' h'"
proof -
  obtain ans s' h' where "pool_step prot nodes sz c s = Some (ans, s')" "heap_step nodes sz s c ans h h'"
    using pool_step_refines [OF pool_reachable_inv [OF assms(1)] assms(2)] by blast
  then show ?thesis using pool_reachable.step [OF assms] by blast
qed

definition demo_region :: region where
  "demo_region = \<lparr>max_size = 0, max_node = 0, alloc_size = 0, alloc_node = 0, node_size = 0, block_size = 0,
     create_time = 0, free_list = 0, cell = (\<lambda>_. 7), room = 4096\<rparr>"

theorem pool_is_a_heap_witness:
  "\<exists>s a s'. pool_reachable False 2 4 s Map.empty \<and> pool_step False 2 4 (AllocBy 0 True) s = Some (Address a, s') \<and> a \<noteq> 0"
proof -
  have b: "GetBlockSize False 4 None = 8 \<or> GetBlockSize False 4 None = 16"
    by (simp add: GetBlockSize_def NODE_OFFSET_def)
  have f: "fits False 4 2 demo_region" "right_static False 4 None" "mapped_at 65536 False 4 2"
    using b by (auto simp: fits_def right_static_def mapped_at_def GetHeaderSize_eq demo_region_def)
  then obtain p r st where i: "Init False 65536 2 4 False 0 (\<lambda>_. True) ShammemPool demo_region None = Some (0, p, r, st)"
    using Init_fresh [of False 4 2 demo_region None 65536 "\<lambda>_. True" 0] by blast
  let ?s = "\<lparr>procs = [p], reg = r\<rparr>"
  have "pool_reachable False 2 4 ?s Map.empty" by (rule pool_reachable.start [OF f i])
  moreover from this obtain ans s' h' where "pool_step False 2 4 (AllocBy 0 True) ?s = Some (ans, s')"
    "heap_step 2 4 ?s (AllocBy 0 True) ans Map.empty h'"
    using pool_is_a_heap [of False 2 4 ?s Map.empty "AllocBy 0 True"] by auto
  ultimately show ?thesis by auto
qed

text \<open>What the code does worse. A second pool of a process has the block size of the first.\<close>

lemma static_block_size:
  "GetBlockSize False 100 (Some (GetBlockSize False 8 None)) = 16" "unat (100 :: u64) + 8 > unat (16 :: u64)"
  by (simp_all add: GetBlockSize_def NODE_OFFSET_def)

text \<open>A null pointer may pass as a block, so that freeing it reads in front of the address space's end.\<close>

lemma free_null_aborts:
  "Free False \<lparr>m_header = 4096, m_data = 4096 + 64, fences = []\<rparr> 0 (demo_region\<lparr>block_size := 24, alloc_size := 64\<rparr>) = None"
  by (simp add: Free_def IsUsedBlock_def IsValidBlock_def GetBlock_def NODE_OFFSET_def Ref_def GetHeaderSize_eq
      get_next_def peek_def accessible_def demo_region_def)

text \<open>\<open>IsValidNode\<close> takes its argument for a block and refuses every node.\<close>

lemma valid_node_refused:
  assumes "pool_inv prot r fs" and "attached prot r p" and "i \<in> used r fs" and "node_size r \<noteq> 0"
  shows "IsValidNode prot p r (node_at prot p r i) = Some False"
proof -
  have sh: "shape prot r" using assms(1) by (simp add: pool_inv_def)
  have i: "i < unat (max_node r)" using assms(3) shape_alloc [OF sh] by (simp add: used_def)
  have bs: "8 < unat (block_size r)" using sh assms(4) by (simp add: shape_def unat_gt_0 [symmetric])
  have le: "place prot r i + 8 \<le> unat (max_size r)" using place_end [OF sh i] bs by simp
  have "addr_of p (place prot r i + 8) \<noteq> addr_of p (place prot r j)" if "j < unat (alloc_node r)" for j
  proof
    assume a: "addr_of p (place prot r i + 8) = addr_of p (place prot r j)"
    have j: "place prot r j \<le> unat (max_size r)" using that shape_alloc [OF sh] by (intro place_le [OF sh]) simp
    have e: "place prot r i + 8 = place prot r j"
      by (rule trans [OF unat_addr(3) [OF assms(2) le, symmetric]]) (unfold a, rule unat_addr(3) [OF assms(2) j])
    have "\<not> j < i" using place_less [of j i prot r] e by linarith
    moreover have "j \<noteq> i" using e by auto
    ultimately have "i < j" by simp
    then show False using place_less [of i j prot r] e bs by simp
  qed
  moreover have "unat (addr_of p (place prot r i + 8)) < 2 ^ 63"
    using unat_addr(1) [OF assms(2) le] le assms(2) by (simp add: attached_def)
  ultimately show ?thesis
    unfolding IsValidNode_def node_at_def by (subst valid_block [OF sh assms(2)]) auto
qed

end
