(* ===== verification/ShamHash.thy ===== *)
theory ShamHash
  imports ShamPool
begin

text \<open>
  \<^verbatim>\<open>base/shamhash.hpp\<close>: a hash table in shared memory. Its nodes come from a \<open>pool\<close>; the index
  \<^verbatim>\<open>m_map\<close> from keys to the addresses of values belongs to the process and is rebuilt from the
  nodes when a process opens a table that exists. Keys and values are plain data, of which the code
  copies the bytes: their sizes and the place of the value in \<^verbatim>\<open>HashNode\<close> are a \<open>layout\<close>.
  \<^verbatim>\<open>m_map\<close> is never iterated over, so that an association list is enough.
\<close>

section \<open>The table\<close>

record layout =
  sizeof_key :: nat
  offset_value :: nat
  sizeof_value :: nat
  sizeof_HashNode :: u64

record shamhash =
  m_mem_pool :: pool
  m_map :: "(bytes \<times> u64) list"

definition Shamhash :: shamhash where "Shamhash = \<lparr>m_mem_pool = ShammemPool, m_map = []\<rparr>"

text \<open>A null pointer is 0.\<close>

definition Shamhash_GetValue :: "bytes \<Rightarrow> shamhash \<Rightarrow> u64" where
  "Shamhash_GetValue key s = (case map_of (m_map s) key of Some a \<Rightarrow> a | None \<Rightarrow> 0)"

definition Shamhash_GetNode :: "layout \<Rightarrow> u64 \<Rightarrow> u64" where
  "Shamhash_GetNode L value = (if value \<noteq> 0 then value - of_nat (offset_value L) else 0)"

definition map_insert :: "bytes \<Rightarrow> u64 \<Rightarrow> (bytes \<times> u64) list \<Rightarrow> (bytes \<times> u64) list" where
  "map_insert key a m = (if map_of m key = None then (key, a) # m else m)"

definition map_erase :: "bytes \<Rightarrow> (bytes \<times> u64) list \<Rightarrow> (bytes \<times> u64) list" where
  "map_erase key m = filter (\<lambda>(k, a). k \<noteq> key) m"

text \<open>The loop that rebuilds the index, from the node behind \<open>node\<close> on.\<close>

partial_function (option) rebuild ::
  "bool \<Rightarrow> layout \<Rightarrow> region \<Rightarrow> u64 \<Rightarrow> shamhash \<Rightarrow> (int \<times> shamhash) option" where
  "rebuild prot L r node s = do {
     node \<leftarrow> GetNextNode prot (m_mem_pool s) r node;
     if node = 0 then Some (0, s)
     else do {
       key \<leftarrow> peek (m_mem_pool s) node (sizeof_key L) r;
       if Shamhash_GetValue key s \<noteq> 0 then Some (- 3, s)
       else rebuild prot L r node (s\<lparr>m_map := map_insert key (node + of_nat (offset_value L)) (m_map s)\<rparr>)
     }
   }"

definition Shamhash_init ::
  "bool \<Rightarrow> layout \<Rightarrow> u64 \<Rightarrow> u32 \<Rightarrow> bool \<Rightarrow> u64 \<Rightarrow> (u64 \<Rightarrow> bool) \<Rightarrow> shamhash \<Rightarrow> region \<Rightarrow> u64 option
     \<Rightarrow> (int \<times> shamhash \<times> region \<times> u64 option) option" where
  "Shamhash_init prot L mem nodes check_header now mprotect s r st =
     (if mem = 0 then Some (- 1, s, r, st)
      else do {
        (ret, p, r, st) \<leftarrow> Init prot mem nodes (sizeof_HashNode L) check_header now mprotect (m_mem_pool s) r st;
        let s = s\<lparr>m_mem_pool := p\<rparr>;
        if ret \<noteq> 0 then Some (- 2, s, r, st)
        else if check_header then do {
          (ret, s) \<leftarrow> rebuild prot L r 0 s;
          Some (ret, s, r, st)
        } else Some (0, s, r, st)
      })"

definition Shamhash_Alloc :: "bool \<Rightarrow> layout \<Rightarrow> bytes \<Rightarrow> shamhash \<times> region \<Rightarrow> (u64 \<times> shamhash \<times> region) option" where
  "Shamhash_Alloc prot L key x =
     (case x of (s, r) \<Rightarrow>
        if Shamhash_GetValue key s \<noteq> 0 then Some (0, s, r)
        else do {
          (node, r) \<leftarrow> Alloc prot (m_mem_pool s) True r;
          if node = 0 then Some (0, s, r)
          else do {
            r \<leftarrow> poke (m_mem_pool s) node key r;
            let value = node + of_nat (offset_value L);
            Some (value, s\<lparr>m_map := map_insert key value (m_map s)\<rparr>, r)
          }
        })"

definition Shamhash_erase :: "bool \<Rightarrow> layout \<Rightarrow> bytes \<Rightarrow> shamhash \<times> region \<Rightarrow> (int \<times> shamhash \<times> region) option" where
  "Shamhash_erase prot L key x =
     (case x of (s, r) \<Rightarrow>
        let value = Shamhash_GetValue key s in
        if value = 0 then Some (- 1, s, r)
        else do {
          (ret, r) \<leftarrow> Free prot (m_mem_pool s) (Shamhash_GetNode L value) r;
          if ret \<noteq> 0 then Some (- 2, s, r)
          else Some (0, s\<lparr>m_map := map_erase key (m_map s)\<rparr>, r)
        })"

definition Shamhash_insert ::
  "bool \<Rightarrow> layout \<Rightarrow> bytes \<Rightarrow> bytes \<Rightarrow> shamhash \<times> region \<Rightarrow> (u64 \<times> shamhash \<times> region) option" where
  "Shamhash_insert prot L key value x = do {
     (a, s, r) \<leftarrow> Shamhash_Alloc prot L key x;
     if a = 0 then Some (0, s, r)
     else do { r \<leftarrow> poke (m_mem_pool s) a value r; Some (a, s, r) }
   }"

definition Shamhash_get :: "bytes \<Rightarrow> shamhash \<Rightarrow> u64" where
  "Shamhash_get key s = Shamhash_GetValue key s"

definition Shamhash_getAllocSize :: "bool \<Rightarrow> layout \<Rightarrow> u32 \<Rightarrow> u64 option \<Rightarrow> u64" where
  "Shamhash_getAllocSize prot L nodes st = GetAllocSize prot nodes (sizeof_HashNode L) st"

section \<open>The index and the nodes\<close>

definition layout_ok :: "layout \<Rightarrow> bool" where
  "layout_ok L \<longleftrightarrow> sizeof_key L \<le> offset_value L \<and> offset_value L + sizeof_value L \<le> unat (sizeof_HashNode L)
     \<and> unat (sizeof_HashNode L) < 2 ^ 62"

abbreviation key_in :: "layout \<Rightarrow> bytes \<Rightarrow> bytes" where
  "key_in L xs \<equiv> take (sizeof_key L) xs"

abbreviation value_in :: "layout \<Rightarrow> bytes \<Rightarrow> bytes" where
  "value_in L xs \<equiv> take (sizeof_value L) (drop (offset_value L) xs)"

text \<open>No two nodes have the same key.\<close>

definition keyed :: "layout \<Rightarrow> (nat \<rightharpoonup> bytes) \<Rightarrow> bool" where
  "keyed L g \<longleftrightarrow> (\<forall>d e xs ys. g d = Some xs \<longrightarrow> g e = Some ys \<longrightarrow> key_in L xs = key_in L ys \<longrightarrow> d = e)"

definition new_key :: "layout \<Rightarrow> (nat \<rightharpoonup> bytes) \<Rightarrow> bytes \<Rightarrow> bool" where
  "new_key L g k \<longleftrightarrow> (\<forall>d xs. g d = Some xs \<longrightarrow> key_in L xs \<noteq> k)"

text \<open>
  A map finds what belongs to the node with a key: the index the address of the value, and the table that
  the nodes stand for the value itself.
\<close>

definition finds :: "layout \<Rightarrow> (nat \<Rightarrow> bytes \<Rightarrow> 'v) \<Rightarrow> (nat \<rightharpoonup> bytes) \<Rightarrow> (bytes \<rightharpoonup> 'v) \<Rightarrow> bool" where
  "finds L val g f \<longleftrightarrow> (\<forall>d xs. g d = Some xs \<longrightarrow> f (key_in L xs) = Some (val d xs))
     \<and> (\<forall>k v. f k = Some v \<longrightarrow> (\<exists>d xs. g d = Some xs \<and> key_in L xs = k))"

abbreviation indexed :: "layout \<Rightarrow> pool \<Rightarrow> (nat \<rightharpoonup> bytes) \<Rightarrow> (bytes \<times> u64) list \<Rightarrow> bool" where
  "indexed L p g m \<equiv> finds L (\<lambda>d xs. addr_of p (d + offset_value L)) g (map_of m)"

abbreviation holds_table :: "layout \<Rightarrow> (nat \<rightharpoonup> bytes) \<Rightarrow> (bytes \<rightharpoonup> bytes) \<Rightarrow> bool" where
  "holds_table L g t \<equiv> finds L (\<lambda>d xs. value_in L xs) g t"

lemma finds_node: "finds L val g f \<Longrightarrow> g d = Some xs \<Longrightarrow> f (key_in L xs) = Some (val d xs)"
  by (simp add: finds_def)

lemma finds_key:
  assumes "finds L val g f" and "f k = Some v"
  obtains d xs where "g d = Some xs" "key_in L xs = k" "v = val d xs"
  using assms unfolding finds_def by (metis option.inject)

lemma finds_None: "finds L val g f \<Longrightarrow> f k = None \<longleftrightarrow> new_key L g k"
  unfolding finds_def new_key_def by (metis option.distinct(1) not_None_eq)

lemma keyed_add: "keyed L g \<Longrightarrow> new_key L g (key_in L xs) \<Longrightarrow> keyed L (g(e \<mapsto> xs))"
  unfolding keyed_def new_key_def by (metis fun_upd_apply option.inject)

lemma keyed_delete: "keyed L g \<Longrightarrow> keyed L (g(e := None))"
  by (auto simp: keyed_def)

lemma finds_add:
  assumes "finds L val g f" and "g e = None" and "new_key L g (key_in L xs)"
  shows "finds L val (g(e \<mapsto> xs)) (f(key_in L xs \<mapsto> val e xs))"
proof -
  have "\<exists>d ys. (g(e \<mapsto> xs)) d = Some ys \<and> key_in L ys = k" if k: "(f(key_in L xs \<mapsto> val e xs)) k = Some v" for k v
  proof (cases "k = key_in L xs")
    case False
    then obtain d ys where "g d = Some ys" "key_in L ys = k" using k assms(1) by (auto simp: finds_def)
    then show ?thesis using assms(2) by (intro exI [of _ d] exI [of _ ys]) auto
  qed auto
  then show ?thesis using assms(1,3) by (auto simp: finds_def new_key_def)
qed

lemma finds_delete:
  assumes "finds L val g f" and "keyed L g" and "g e = Some xs"
  shows "finds L val (g(e := None)) (f(key_in L xs := None))"
proof -
  have "\<exists>d ys. (g(e := None)) d = Some ys \<and> key_in L ys = k" if k: "(f(key_in L xs := None)) k = Some v" for k v
  proof -
    obtain d ys where d: "g d = Some ys" "key_in L ys = k" using k assms(1) by (auto simp: finds_def split: if_splits)
    then have "d \<noteq> e" using k assms(3) by auto
    then show ?thesis using d by (intro exI [of _ d] exI [of _ ys]) auto
  qed
  moreover have "key_in L ys \<noteq> key_in L xs" if "g d = Some ys" "d \<noteq> e" for d ys
    using that assms(2,3) by (auto simp: keyed_def)
  ultimately show ?thesis using assms(1) by (auto simp: finds_def)
qed

lemma finds_card:
  assumes "finds L val g f" and "keyed L g"
  shows "card (dom f) = card (dom g)"
proof -
  have "dom f = (\<lambda>d. key_in L (the (g d))) ` dom g"
  proof (intro subset_antisym subsetI)
    fix k
    assume "k \<in> dom f"
    then obtain d xs where "g d = Some xs" "key_in L xs = k" using finds_key [OF assms(1)] by blast
    then show "k \<in> (\<lambda>d. key_in L (the (g d))) ` dom g" by force
  next
    fix k
    assume "k \<in> (\<lambda>d. key_in L (the (g d))) ` dom g"
    then show "k \<in> dom f" using finds_node [OF assms(1)] by force
  qed
  moreover have "inj_on (\<lambda>d. key_in L (the (g d))) (dom g)" using assms(2) by (auto simp: inj_on_def keyed_def)
  ultimately show ?thesis by (simp add: card_image)
qed

lemma map_insert_new: "map_of m k = None \<Longrightarrow> map_of (map_insert k a m) = (map_of m)(k \<mapsto> a)"
  by (simp add: map_insert_def)

lemma map_erase_key: "map_of (map_erase key m) = (map_of m)(key := None)"
  by (rule ext) (induction m; auto simp: map_erase_def)

section \<open>Operations\<close>

definition hash_inv :: "bool \<Rightarrow> layout \<Rightarrow> u32 \<Rightarrow> shamhash \<times> region \<Rightarrow> (bytes \<rightharpoonup> bytes) \<Rightarrow> bool" where
  "hash_inv prot L nodes x t \<longleftrightarrow> (case x of (s, r) \<Rightarrow>
     node_size r = sizeof_HashNode L \<and> max_node r = nodes \<and> block_size r = GetBlockSize prot (sizeof_HashNode L) None
     \<and> attached prot r (m_mem_pool s)
     \<and> (\<exists>fs. pool_inv prot r fs \<and> keyed L (heap prot r fs)
         \<and> indexed L (m_mem_pool s) (heap prot r fs) (m_map s) \<and> holds_table L (heap prot r fs) t))"

text \<open>A node and its value lie inside of the mapping.\<close>

lemma heap_node:
  assumes "pool_inv prot r fs" and "attached prot r p" and "heap prot r fs d = Some xs" and "a \<le> unat (node_size r)"
  shows "length xs = unat (node_size r)" "addr_of p (d + a) \<noteq> 0" "unat (addr_of p (d + a)) = unat (m_header p) + (d + a)"
    "8 \<le> d" "unat (addr_of p (d + a)) < 2 ^ 63"
proof -
  have sh: "shape prot r" using assms(1) by (simp add: pool_inv_def)
  obtain i where i: "i \<in> used r fs" "d = place prot r i + 8" "xs = bytes_at r d (unat (node_size r))"
    using assms(3) by (auto simp: heap_def split: if_splits)
  have "i < unat (max_node r)" using i(1) shape_alloc [OF sh] by (simp add: used_def)
  then have le: "d + a \<le> unat (max_size r)" using place_end [OF sh] i(2) assms(4) sh by (fastforce simp: shape_def)
  show "length xs = unat (node_size r)" "8 \<le> d" using i by simp_all
  show "addr_of p (d + a) \<noteq> 0" and u: "unat (addr_of p (d + a)) = unat (m_header p) + (d + a)"
    using unat_addr [OF assms(2) le] by simp_all
  show "unat (addr_of p (d + a)) < 2 ^ 63" using u le assms(2) by (simp add: attached_def)
qed

lemma get_spec:
  assumes "hash_inv prot L nodes (s, r) t" and "layout_ok L"
  shows "Shamhash_GetValue k s = 0 \<longleftrightarrow> t k = None"
proof -
  obtain fs where fs: "pool_inv prot r fs" "indexed L (m_mem_pool s) (heap prot r fs) (m_map s)"
    "holds_table L (heap prot r fs) t" "attached prot r (m_mem_pool s)" "node_size r = sizeof_HashNode L"
    using assms(1) by (auto simp: hash_inv_def)
  have iff: "map_of (m_map s) k = None \<longleftrightarrow> t k = None" using finds_None [OF fs(2)] finds_None [OF fs(3)] by simp
  have "a \<noteq> 0" if m: "map_of (m_map s) k = Some a" for a
  proof -
    obtain d xs where "heap prot r fs d = Some xs" "a = addr_of (m_mem_pool s) (d + offset_value L)"
      using finds_key [OF fs(2) m] by blast
    then show ?thesis using heap_node(2) [OF fs(1,4)] fs(5) assms(2) by (simp add: layout_ok_def)
  qed
  then show ?thesis using iff by (cases "map_of (m_map s) k") (auto simp: Shamhash_GetValue_def)
qed

text \<open>What \<open>get\<close> gives for a key that is there, and what its caller reads and writes there.\<close>

lemma value_spec:
  assumes "hash_inv prot L nodes (s, r) t" and "layout_ok L" and "t k = Some v"
  shows "peek (m_mem_pool s) (Shamhash_GetValue k s) (sizeof_value L) r = Some v"
    and "length w = sizeof_value L \<Longrightarrow>
      \<exists>r'. poke (m_mem_pool s) (Shamhash_GetValue k s) w r = Some r' \<and> hash_inv prot L nodes (s, r') (t(k \<mapsto> w))"
proof -
  let ?p = "m_mem_pool s" and ?o = "offset_value L"
  have cfg: "node_size r = sizeof_HashNode L" "max_node r = nodes" "block_size r = GetBlockSize prot (sizeof_HashNode L) None"
    and at: "attached prot r ?p" using assms(1) by (simp_all add: hash_inv_def)
  obtain fs where fs: "pool_inv prot r fs" "keyed L (heap prot r fs)" "indexed L ?p (heap prot r fs) (m_map s)"
    "holds_table L (heap prot r fs) t"
    using assms(1) by (auto simp: hash_inv_def)
  obtain d xs where d: "heap prot r fs d = Some xs" "key_in L xs = k" "v = value_in L xs"
    using finds_key [OF fs(4) assms(3)] by blast
  have a: "Shamhash_GetValue k s = addr_of ?p (d + ?o)"
    using finds_node [OF fs(3) d(1)] d(2) by (simp add: Shamhash_GetValue_def)
  have lay: "sizeof_key L \<le> ?o" "?o + sizeof_value L \<le> unat (node_size r)" using assms(2) cfg by (simp_all add: layout_ok_def)
  show "peek ?p (Shamhash_GetValue k s) (sizeof_value L) r = Some v"
    using read_node [OF fs(1) at d(1) lay(2)] a d(3) by simp
  assume w: "length w = sizeof_value L"
  obtain r' where r': "poke ?p (addr_of ?p (d + ?o)) w r = Some r'" "geometry r' = geometry r" "pool_inv prot r' fs"
    "heap prot r' fs = (heap prot r fs)(d \<mapsto> splice_at ?o w xs)"
    using write_node [OF fs(1) at d(1), of ?o w] w lay(2) by auto
  have len: "length xs = unat (node_size r)" using heap_node(1) [OF fs(1) at d(1), of 0] by simp
  let ?ys = "splice_at ?o w xs"
  have key: "key_in L ?ys = k" using d(2) lay w len by (subst take_splice_at) simp_all
  have val: "value_in L ?ys = w" using lay w len by (simp add: splice_at_def)
  have nk: "new_key L ((heap prot r fs)(d := None)) (key_in L ?ys)"
    using fs(2) d(1,2) by (auto simp: key new_key_def keyed_def)
  have h': "heap prot r' fs = ((heap prot r fs)(d := None))(d \<mapsto> ?ys)" by (simp add: r'(4))
  have k1: "keyed L (heap prot r' fs)" unfolding h' by (rule keyed_add [OF keyed_delete [OF fs(2)] nk])
  have k2: "finds L g (heap prot r' fs) (f(k \<mapsto> g d ?ys))" if f: "finds L g (heap prot r fs) f" for g :: "nat \<Rightarrow> bytes \<Rightarrow> 'v" and f
  proof -
    have "finds L g (((heap prot r fs)(d := None))(d \<mapsto> ?ys)) ((f(key_in L xs := None))(key_in L ?ys \<mapsto> g d ?ys))"
      by (rule finds_add [OF finds_delete [OF f fs(2) d(1)] _ nk]) simp
    then show ?thesis by (simp add: h' key d(2))
  qed
  have "(map_of (m_map s))(k \<mapsto> addr_of ?p (d + ?o)) = map_of (m_map s)"
    using finds_node [OF fs(3) d(1)] d(2) by auto
  then have "hash_inv prot L nodes (s, r') (t(k \<mapsto> w))"
    using cfg r'(2,3) k1 k2 [OF fs(3)] k2 [OF fs(4)] val attached_geometry [OF r'(2)] at
    by (auto simp: hash_inv_def geometry_def intro!: exI [of _ fs])
  then show "\<exists>r'. poke ?p (Shamhash_GetValue k s) w r = Some r' \<and> hash_inv prot L nodes (s, r') (t(k \<mapsto> w))"
    using r'(1) a by auto
qed

lemma Shamhash_Alloc_spec:
  assumes "hash_inv prot L nodes (s, r) t" and "layout_ok L" and "length k = sizeof_key L"
  shows "if t k \<noteq> None \<or> card (dom t) = unat nodes then Shamhash_Alloc prot L k (s, r) = Some (0, s, r)
    else \<exists>s' r'. Shamhash_Alloc prot L k (s, r) = Some (Shamhash_GetValue k s', s', r') \<and> m_mem_pool s' = m_mem_pool s
      \<and> hash_inv prot L nodes (s', r') (t(k \<mapsto> replicate (sizeof_value L) 0))"
proof -
  let ?p = "m_mem_pool s"
  have cfg: "node_size r = sizeof_HashNode L" "max_node r = nodes" "block_size r = GetBlockSize prot (sizeof_HashNode L) None"
    and at: "attached prot r ?p" using assms(1) by (simp_all add: hash_inv_def)
  obtain fs where fs: "pool_inv prot r fs" "keyed L (heap prot r fs)" "indexed L ?p (heap prot r fs) (m_map s)"
    "holds_table L (heap prot r fs) t"
    using assms(1) by (auto simp: hash_inv_def)
  have sh: "shape prot r" using fs(1) by (simp add: pool_inv_def)
  have lay: "sizeof_key L \<le> offset_value L" "offset_value L + sizeof_value L \<le> unat (node_size r)"
    using assms(2) cfg by (simp_all add: layout_ok_def)
  note g = get_spec [OF assms(1,2), of k]
  obtain a r1 fs1 where al: "Alloc prot ?p True r = Some (a, r1)" "alloc_result prot ?p True r fs a r1 fs1"
    using Alloc_spec [OF fs(1) at] by blast
  have card: "card (used r fs) = card (dom t)"
    using finds_card [OF fs(4,2)] card_heap [OF sh] by simp
  show ?thesis
  proof (cases "t k \<noteq> None \<or> card (dom t) = unat nodes")
    case True
    then have "Shamhash_Alloc prot L k (s, r) = Some (0, s, r)"
      using g al card cfg(2) by (auto simp: Shamhash_Alloc_def alloc_result_def)
    then show ?thesis using True by simp
  next
    case False
    let ?z = "replicate (unat (node_size r)) 0"
    obtain i where i: "i < unat nodes" "a = addr_of ?p (place prot r i + 8)" "i \<notin> used r fs" "geometry r1 = geometry r"
      "pool_inv prot r1 fs1" "heap prot r1 fs1 = (heap prot r fs)(place prot r i + 8 \<mapsto> ?z)"
      using al(2) False card cfg(2) by (auto simp: alloc_result_def)
    let ?d = "place prot r i + 8"
    have at1: "attached prot r1 ?p" using at attached_geometry [OF i(4)] by simp
    have n1: "node_size r1 = node_size r" using i(4) by (simp add: geometry_def)
    have h1: "heap prot r1 fs1 ?d = Some ?z" using i(6) by simp
    obtain r2 where r2: "poke ?p (addr_of ?p (?d + 0)) k r1 = Some r2" "geometry r2 = geometry r1" "pool_inv prot r2 fs1"
      "heap prot r2 fs1 = (heap prot r1 fs1)(?d \<mapsto> splice_at 0 k ?z)"
      using write_node [OF i(5) at1 h1, of 0 k] assms(3) lay n1 by auto
    let ?xs = "splice_at 0 k ?z"
    have key: "key_in L ?xs = k" using assms(3) by (simp add: splice_at_def)
    have val: "value_in L ?xs = replicate (sizeof_value L) 0"
      using assms(3) lay by (simp add: splice_at_def min_def)
    have nz: "a \<noteq> 0" using heap_node(2) [OF i(5) at1 h1, of 0] i(2) by simp
    have none: "heap prot r fs ?d = None" using heap_block [OF sh, of fs i] i(3) by simp
    have h2: "heap prot r2 fs1 = (heap prot r fs)(?d \<mapsto> ?xs)" by (simp add: r2(4) i(6))
    have nk: "new_key L (heap prot r fs) (key_in L ?xs)"
      using finds_None [OF fs(4)] False key by simp
    let ?v = "addr_of ?p (?d + offset_value L)"
    let ?s = "s\<lparr>m_map := map_insert k ?v (m_map s)\<rparr>"
    have mi: "map_of (map_insert k ?v (m_map s)) = (map_of (m_map s))(k \<mapsto> ?v)"
      using finds_None [OF fs(3), of k] nk key by (intro map_insert_new) simp
    have "finds L (\<lambda>d xs. addr_of ?p (d + offset_value L)) (heap prot r2 fs1) ((map_of (m_map s))(k \<mapsto> ?v))"
      using finds_add [OF fs(3) none nk] by (simp add: h2 key)
    moreover have "holds_table L (heap prot r2 fs1) (t(k \<mapsto> replicate (sizeof_value L) 0))"
      using finds_add [OF fs(4) none nk] by (simp add: h2 key val)
    moreover have "keyed L (heap prot r2 fs1)" unfolding h2 by (rule keyed_add [OF fs(2) nk])
    moreover have "attached prot r2 ?p" using at1 attached_geometry [OF r2(2)] by simp
    ultimately have inv: "hash_inv prot L nodes (?s, r2) (t(k \<mapsto> replicate (sizeof_value L) 0))"
      using cfg i(4) r2(2,3) mi by (auto simp: hash_inv_def geometry_def)
    have "Shamhash_GetValue k ?s = ?v" by (simp add: Shamhash_GetValue_def mi)
    moreover have "a + of_nat (offset_value L) = ?v" using addr_add [of ?p ?d "offset_value L"] i(2) by simp
    ultimately have "Shamhash_Alloc prot L k (s, r) = Some (Shamhash_GetValue k ?s, ?s, r2)"
      using g False al(1) nz r2(1) i(2) by (simp add: Shamhash_Alloc_def Let_def)
    then show ?thesis using inv False by auto
  qed
qed

lemma Shamhash_insert_spec:
  assumes "hash_inv prot L nodes (s, r) t" and "layout_ok L" and "length k = sizeof_key L" and "length v = sizeof_value L"
  shows "if t k \<noteq> None \<or> card (dom t) = unat nodes then Shamhash_insert prot L k v (s, r) = Some (0, s, r)
    else \<exists>a s' r'. Shamhash_insert prot L k v (s, r) = Some (a, s', r') \<and> a \<noteq> 0 \<and> hash_inv prot L nodes (s', r') (t(k \<mapsto> v))"
proof (cases "t k \<noteq> None \<or> card (dom t) = unat nodes")
  case True
  then show ?thesis using Shamhash_Alloc_spec [OF assms(1-3)] by (auto simp: Shamhash_insert_def)
next
  case False
  let ?t = "t(k \<mapsto> replicate (sizeof_value L) 0)"
  obtain s1 r1 where 1: "Shamhash_Alloc prot L k (s, r) = Some (Shamhash_GetValue k s1, s1, r1)"
    "hash_inv prot L nodes (s1, r1) ?t"
    using Shamhash_Alloc_spec [OF assms(1-3)] False by auto
  have "Shamhash_GetValue k s1 \<noteq> 0" using get_spec [OF 1(2) assms(2), of k] by simp
  moreover obtain r' where "poke (m_mem_pool s1) (Shamhash_GetValue k s1) v r1 = Some r'"
    "hash_inv prot L nodes (s1, r') (?t(k \<mapsto> v))"
    using value_spec(2) [OF 1(2) assms(2) _ assms(4), of k] by auto
  ultimately show ?thesis using 1(1) False by (auto simp: Shamhash_insert_def)
qed

lemma Shamhash_erase_spec:
  assumes "hash_inv prot L nodes (s, r) t" and "layout_ok L"
  shows "if t k = None then Shamhash_erase prot L k (s, r) = Some (- 1, s, r)
    else \<exists>s' r'. Shamhash_erase prot L k (s, r) = Some (0, s', r') \<and> hash_inv prot L nodes (s', r') (t(k := None))"
proof (cases "t k")
  case None
  then show ?thesis using get_spec [OF assms, of k] by (simp add: Shamhash_erase_def)
next
  case (Some v)
  let ?p = "m_mem_pool s"
  have cfg: "node_size r = sizeof_HashNode L" "max_node r = nodes" "block_size r = GetBlockSize prot (sizeof_HashNode L) None"
    and at: "attached prot r ?p" using assms(1) by (simp_all add: hash_inv_def)
  obtain fs where fs: "pool_inv prot r fs" "keyed L (heap prot r fs)" "indexed L ?p (heap prot r fs) (m_map s)"
    "holds_table L (heap prot r fs) t"
    using assms(1) by (auto simp: hash_inv_def)
  obtain d xs where d: "heap prot r fs d = Some xs" "key_in L xs = k"
    using finds_key [OF fs(4) Some] by blast
  have off: "offset_value L \<le> unat (node_size r)" using assms(2) cfg by (simp add: layout_ok_def)
  have a: "Shamhash_GetValue k s = addr_of ?p (d + offset_value L)"
    using finds_node [OF fs(3) d(1)] d(2) by (simp add: Shamhash_GetValue_def)
  have nz: "addr_of ?p (d + offset_value L) \<noteq> 0" by (rule heap_node(2) [OF fs(1) at d(1) off])
  have node: "Shamhash_GetNode L (addr_of ?p (d + offset_value L)) = addr_of ?p d"
    using nz by (simp add: Shamhash_GetNode_def) (simp add: addr_of_def)
  have n: "8 \<le> unat (addr_of ?p d)" "unat (addr_of ?p d) < 2 ^ 63"
    using heap_node(3-5) [OF fs(1) at d(1), of 0] by simp_all
  obtain i where i: "i \<in> used r fs" "d = place prot r i + 8" using d(1) by (auto simp: heap_def split: if_splits)
  obtain j r' where j: "addr_of ?p d = addr_of ?p (place prot r j + 8)" "j \<in> used r fs"
    "Free prot ?p (addr_of ?p d) r = Some (0, r')" "geometry r' = geometry r" "pool_inv prot r' (j # fs)"
    "heap prot r' (j # fs) = (heap prot r fs)(place prot r j + 8 := None)"
    using Free_spec [OF fs(1) at n] i by blast
  have sh: "shape prot r" using fs(1) by (simp add: pool_inv_def)
  have hj: "heap prot r fs (place prot r j + 8) \<noteq> None" using heap_block [OF sh, of fs j] j(2) by simp
  then have "unat (addr_of ?p (place prot r j + 8 + 0)) = unat (m_header ?p) + (place prot r j + 8 + 0)"
    using heap_node(3) [OF fs(1) at, of "place prot r j + 8" _ 0] by auto
  then have e: "place prot r j + 8 = d" using heap_node(3) [OF fs(1) at d(1), of 0] j(1) by simp
  let ?s = "s\<lparr>m_map := map_erase k (m_map s)\<rparr>"
  have h': "heap prot r' (j # fs) = (heap prot r fs)(d := None)" using j(6) e by simp
  have "keyed L (heap prot r' (j # fs))" unfolding h' by (rule keyed_delete [OF fs(2)])
  moreover have "indexed L ?p (heap prot r' (j # fs)) (m_map ?s)"
    using finds_delete [OF fs(3,2) d(1)] d(2) by (simp add: h' map_erase_key)
  moreover have "holds_table L (heap prot r' (j # fs)) (t(k := None))"
    using finds_delete [OF fs(4,2) d(1)] d(2) by (simp add: h')
  ultimately have "hash_inv prot L nodes (?s, r') (t(k := None))"
    using cfg j(4,5) at attached_geometry [OF j(4)] by (auto simp: hash_inv_def geometry_def)
  moreover have "Shamhash_erase prot L k (s, r) = Some (0, ?s, r')"
    using a nz node j(3) by (simp add: Shamhash_erase_def Let_def)
  ultimately show ?thesis using Some by auto
qed

section \<open>Opening a table\<close>

text \<open>The nodes in the blocks before \<open>i\<close>.\<close>

definition before :: "bool \<Rightarrow> region \<Rightarrow> nat list \<Rightarrow> nat \<Rightarrow> nat \<rightharpoonup> bytes" where
  "before prot r fs i d = (if \<exists>j < i. d = place prot r j + 8 then heap prot r fs d else None)"

lemma before_next:
  assumes "pool_inv prot r fs" and "next_used r fs i = Some j"
  shows "before prot r fs (Suc j) = (before prot r fs i)(place prot r j + 8 \<mapsto> bytes_at r (place prot r j + 8) (unat (node_size r)))"
    and "before prot r fs i (place prot r j + 8) = None" and "i \<le> j" "j \<in> used r fs"
proof -
  have sh: "shape prot r" using assms(1) by (simp add: pool_inv_def)
  obtain m where m: "m < length [i..<unat (alloc_node r)]" "[i..<unat (alloc_node r)] ! m \<in> used r fs"
    "j = [i..<unat (alloc_node r)] ! m" "\<forall>l < m. [i..<unat (alloc_node r)] ! l \<notin> used r fs"
    using assms(2) unfolding next_used_def find_Some_iff by blast
  then have j: "i \<le> j" "j \<in> used r fs" by auto
  have gap: "l \<notin> used r fs" if "i \<le> l" "l < j" for l
    using m(4) [rule_format, of "l - i"] m(1,3) that by auto
  show "i \<le> j" "j \<in> used r fs" using j .
  show "before prot r fs i (place prot r j + 8) = None"
    using j(1) place_inj [OF sh] by (auto simp: before_def)
  show "before prot r fs (Suc j) = (before prot r fs i)(place prot r j + 8 \<mapsto> bytes_at r (place prot r j + 8) (unat (node_size r)))"
  proof
    fix d
    show "before prot r fs (Suc j) d = ((before prot r fs i)(place prot r j + 8 \<mapsto> bytes_at r (place prot r j + 8) (unat (node_size r)))) d"
    proof (cases "d = place prot r j + 8")
      case True
      then show ?thesis using heap_block [OF sh, of fs j] j(2) by (auto simp: before_def)
    next
      case False
      have none: "heap prot r fs d = None" if "l < Suc j" "\<not> l < i" "d = place prot r l + 8" for l
        using that False gap [of l] heap_block [OF sh, of fs l] by (auto simp: less_Suc_eq)
      have "before prot r fs (Suc j) d = before prot r fs i d"
      proof (cases "\<exists>l < i. d = place prot r l + 8")
        case True
        then obtain l where "l < i" "d = place prot r l + 8" by blast
        moreover from this have "l < Suc j" using j(1) by simp
        ultimately have "\<exists>l < Suc j. d = place prot r l + 8" by blast
        then show ?thesis using True by (simp add: before_def)
      next
        case f: False
        show ?thesis
        proof (cases "\<exists>l < Suc j. d = place prot r l + 8")
          case True
          then obtain l where l: "l < Suc j" "d = place prot r l + 8" by (elim exE conjE)
          then have "\<not> l < i" using f by auto
          then have "heap prot r fs d = None" by (rule none [OF l(1) _ l(2)])
          then show ?thesis by (simp add: before_def)
        next
          case g: False
          have "(\<exists>l < Suc j. d = place prot r l + 8) = False" "(\<exists>l < i. d = place prot r l + 8) = False"
            using f g by blast+
          then show ?thesis by (simp only: before_def if_False)
        qed
      qed
      then show ?thesis using False by simp
    qed
  qed
qed

lemma before_all:
  assumes "pool_inv prot r fs" and "next_used r fs i = None"
  shows "before prot r fs i = heap prot r fs"
proof
  fix d
  have sh: "shape prot r" using assms(1) by (simp add: pool_inv_def)
  have "l \<notin> used r fs" if "\<not> l < i" for l
    using assms(2) that by (auto simp: next_used_def find_None_iff used_def)
  then have "heap prot r fs d = None" if "\<nexists>j. j < i \<and> d = place prot r j + 8"
    using that by (auto simp: heap_def)
  then show "before prot r fs i d = heap prot r fs d" by (auto simp: before_def)
qed

lemma keyed_before: "keyed L (heap prot r fs) \<Longrightarrow> keyed L (before prot r fs i)"
  by (auto simp: keyed_def before_def)

lemma rebuild_spec:
  assumes "pool_inv prot r fs" and "keyed L (heap prot r fs)" and "layout_ok L" and "node_size r = sizeof_HashNode L"
  shows "i \<le> unat (alloc_node r) \<Longrightarrow> attached prot r (m_mem_pool s) \<Longrightarrow>
    indexed L (m_mem_pool s) (before prot r fs i) (m_map s) \<Longrightarrow>
    \<exists>s'. rebuild prot L r (if i = 0 then 0 else node_at prot (m_mem_pool s) r (i - 1)) s = Some (0, s')
      \<and> m_mem_pool s' = m_mem_pool s \<and> indexed L (m_mem_pool s') (heap prot r fs) (m_map s')"
proof (induction "unat (alloc_node r) - i" arbitrary: i s rule: less_induct)
  case less
  let ?p = "m_mem_pool s"
  note nx = GetNextNode_spec [OF assms(1) less.prems(2,1)]
  show ?case
  proof (cases "next_used r fs i")
    case None
    then show ?thesis
      using nx less.prems(3) before_all [OF assms(1) None] by (subst rebuild.simps) simp
  next
    case (Some j)
    note b = before_next [OF assms(1) Some]
    let ?d = "place prot r j + 8" and ?xs = "bytes_at r (place prot r j + 8) (unat (node_size r))"
    have sh: "shape prot r" using assms(1) by (simp add: pool_inv_def)
    have h: "heap prot r fs ?d = Some ?xs" using heap_block [OF sh, of fs j] b(4) by simp
    have nz: "node_at prot ?p r j \<noteq> 0"
      using heap_node(2) [OF assms(1) less.prems(2) h, of 0] by (simp add: node_at_def)
    have "peek ?p (addr_of ?p (?d + 0)) (sizeof_key L) r = Some (take (sizeof_key L) (drop 0 ?xs))"
      using assms(3,4) by (intro read_node [OF assms(1) less.prems(2) h]) (simp add: layout_ok_def)
    then have key: "peek ?p (node_at prot ?p r j) (sizeof_key L) r = Some (key_in L ?xs)" by (simp add: node_at_def)
    have "key_in L ys \<noteq> key_in L ?xs" if "before prot r fs i e = Some ys" for e ys
    proof
      assume "key_in L ys = key_in L ?xs"
      moreover have "heap prot r fs e = Some ys" using that by (auto simp: before_def split: if_splits)
      ultimately have "e = ?d" using assms(2) h unfolding keyed_def by blast
      then show False using that b(2) by simp
    qed
    then have nk: "new_key L (before prot r fs i) (key_in L ?xs)" by (simp add: new_key_def)
    then have none: "map_of (m_map s) (key_in L ?xs) = None" using finds_None [OF less.prems(3)] by simp
    let ?a = "node_at prot ?p r j + of_nat (offset_value L)"
    let ?s = "s\<lparr>m_map := map_insert (key_in L ?xs) ?a (m_map s)\<rparr>"
    have a: "?a = addr_of ?p (?d + offset_value L)" using addr_add [of ?p ?d "offset_value L"] by (simp add: node_at_def)
    have "indexed L ?p (before prot r fs (Suc j)) (m_map ?s)"
      using finds_add [OF less.prems(3) b(2) nk] by (simp add: b(1) a map_insert_new [OF none])
    moreover have jk: "j < unat (alloc_node r)" using b(4) by (simp add: used_def)
    moreover have "unat (alloc_node r) - Suc j < unat (alloc_node r) - i" using jk b(3) by linarith
    ultimately obtain s' where "rebuild prot L r (node_at prot ?p r j) ?s = Some (0, s')" "m_mem_pool s' = ?p"
      "indexed L (m_mem_pool s') (heap prot r fs) (m_map s')"
      using less.hyps [of "Suc j" ?s] b(3) less.prems(1,2) by auto
    then show ?thesis
      using nx Some nz key none by (subst rebuild.simps) (simp add: Shamhash_GetValue_def)
  qed
qed

lemma init_fresh:
  assumes "layout_ok L" and "fits prot (sizeof_HashNode L) nodes r" and "right_static prot (sizeof_HashNode L) st"
    and "mapped_at addr prot (sizeof_HashNode L) nodes" and "prot \<longrightarrow> mprotect = (\<lambda>_. True)"
  shows "\<exists>s' r'. Shamhash_init prot L addr nodes False now mprotect Shamhash r st
      = Some (0, s', r', Some (GetBlockSize prot (sizeof_HashNode L) None)) \<and> hash_inv prot L nodes (s', r') Map.empty"
proof -
  obtain p' r' where 1: "Init prot addr nodes (sizeof_HashNode L) False now mprotect ShammemPool r st
      = Some (0, p', r', Some (GetBlockSize prot (sizeof_HashNode L) None))" "pool_inv prot r' []" "attached prot r' p'"
    "node_size r' = sizeof_HashNode L" "max_node r' = nodes" "block_size r' = GetBlockSize prot (sizeof_HashNode L) None"
    "alloc_node r' = 0"
    using Init_fresh [OF assms(2-5), of now] by blast
  have "heap prot r' [] = Map.empty" using 1(7) by (simp add: heap_def used_def fun_eq_iff)
  then have "hash_inv prot L nodes (\<lparr>m_mem_pool = p', m_map = []\<rparr>, r') Map.empty"
    using 1 by (auto simp: hash_inv_def finds_def keyed_def intro!: exI [of _ "[]"])
  moreover have "addr \<noteq> 0" using assms(4) by (simp add: mapped_at_def)
  ultimately show ?thesis using 1(1) by (auto simp: Shamhash_init_def Shamhash_def Let_def)
qed

lemma init_again:
  assumes "layout_ok L" and "hash_inv prot L nodes (s, r) t" and "right_static prot (sizeof_HashNode L) st"
    and "mapped_at addr prot (sizeof_HashNode L) nodes" and "prot \<longrightarrow> mprotect = (\<lambda>_. True)"
  shows "\<exists>s'. Shamhash_init prot L addr nodes True now mprotect Shamhash r st
      = Some (0, s', r, Some (GetBlockSize prot (sizeof_HashNode L) None)) \<and> hash_inv prot L nodes (s', r) t"
proof -
  obtain fs where fs: "pool_inv prot r fs" "keyed L (heap prot r fs)" "holds_table L (heap prot r fs) t"
    and cfg: "node_size r = sizeof_HashNode L" "max_node r = nodes" "block_size r = GetBlockSize prot (sizeof_HashNode L) None"
    using assms(2) by (auto simp: hash_inv_def)
  obtain p' where p': "Init prot addr nodes (sizeof_HashNode L) True now mprotect ShammemPool r st
      = Some (0, p', r, Some (GetBlockSize prot (sizeof_HashNode L) None))" "attached prot r p'"
    using Init_attach [OF fs(1) assms(3,4) _ assms(5) cfg, of now] assms(1) by (auto simp: layout_ok_def)
  let ?s = "\<lparr>m_mem_pool = p', m_map = []\<rparr>"
  have "indexed L p' (before prot r fs 0) []" by (simp add: finds_def before_def)
  then obtain s' where s': "rebuild prot L r 0 ?s = Some (0, s')" "m_mem_pool s' = p'"
    "indexed L p' (heap prot r fs) (m_map s')"
    using rebuild_spec [OF fs(1,2) assms(1) cfg(1), of 0 ?s] p'(2) by auto
  have "hash_inv prot L nodes (s', r) t" using fs s' p'(2) cfg by (auto simp: hash_inv_def)
  moreover have "addr \<noteq> 0" using assms(4) by (simp add: mapped_at_def)
  ultimately show ?thesis using p'(1) s'(1) by (auto simp: Shamhash_init_def Shamhash_def Let_def)
qed

section \<open>Properties\<close>

text \<open>
  What a program does with a table: it inserts, erases and looks up, writes through the pointer that a
  lookup gives, and at any time it is replaced by a new process, with the region at another address.
\<close>

datatype hash_call =
    Put_key bytes bytes
  | Erase_key bytes
  | Look_up bytes
  | Assign_key bytes bytes
  | Reopen u64

datatype hash_answer = Stored bool | Erased int | Found "bytes option" | Opened int

fun hash_step :: "bool \<Rightarrow> layout \<Rightarrow> u32 \<Rightarrow> hash_call \<Rightarrow> shamhash \<times> region \<Rightarrow> (hash_answer \<times> shamhash \<times> region) option" where
  "hash_step prot L nodes (Put_key k v) x = do {
     (a, x) \<leftarrow> Shamhash_insert prot L k v x;
     Some (Stored (a \<noteq> 0), x)
   }"
| "hash_step prot L nodes (Erase_key k) x = do {
     (code, x) \<leftarrow> Shamhash_erase prot L k x;
     Some (Erased code, x)
   }"
| "hash_step prot L nodes (Look_up k) x = (let a = Shamhash_get k (fst x) in
     if a = 0 then Some (Found None, x)
     else do { v \<leftarrow> peek (m_mem_pool (fst x)) a (sizeof_value L) (snd x); Some (Found (Some v), x) })"
| "hash_step prot L nodes (Assign_key k v) x = (let a = Shamhash_get k (fst x) in
     if a = 0 then Some (Stored False, x)
     else do { r \<leftarrow> poke (m_mem_pool (fst x)) a v (snd x); Some (Stored True, fst x, r) })"
| "hash_step prot L nodes (Reopen addr) x = do {
     (code, s, r, st) \<leftarrow> Shamhash_init prot L addr nodes True 0 (\<lambda>_. True) Shamhash (snd x) None;
     Some (Opened code, s, r)
   }"

fun hash_run :: "bool \<Rightarrow> layout \<Rightarrow> u32 \<Rightarrow> hash_call list \<Rightarrow> shamhash \<times> region
    \<Rightarrow> (hash_answer list \<times> shamhash \<times> region) option" where
  "hash_run prot L nodes [] x = Some ([], x)"
| "hash_run prot L nodes (c # cs) x = do {
     (a, x) \<leftarrow> hash_step prot L nodes c x;
     (as, x) \<leftarrow> hash_run prot L nodes cs x;
     Some (a # as, x)
   }"

text \<open>The same on a finite map with room for \<open>nodes\<close> keys.\<close>

fun table_call :: "u32 \<Rightarrow> hash_call \<Rightarrow> (bytes \<rightharpoonup> bytes) \<Rightarrow> hash_answer \<times> (bytes \<rightharpoonup> bytes)" where
  "table_call nodes (Put_key k v) t =
     (if t k \<noteq> None \<or> card (dom t) = unat nodes then (Stored False, t) else (Stored True, t(k \<mapsto> v)))"
| "table_call nodes (Erase_key k) t = (if t k = None then (Erased (- 1), t) else (Erased 0, t(k := None)))"
| "table_call nodes (Look_up k) t = (Found (t k), t)"
| "table_call nodes (Assign_key k v) t = (if t k = None then (Stored False, t) else (Stored True, t(k \<mapsto> v)))"
| "table_call nodes (Reopen addr) t = (Opened 0, t)"

fun table_run :: "u32 \<Rightarrow> hash_call list \<Rightarrow> (bytes \<rightharpoonup> bytes) \<Rightarrow> hash_answer list" where
  "table_run nodes [] t = []"
| "table_run nodes (c # cs) t = (let (a, t) = table_call nodes c t in a # table_run nodes cs t)"

fun call_fits :: "bool \<Rightarrow> layout \<Rightarrow> u32 \<Rightarrow> hash_call \<Rightarrow> bool" where
  "call_fits prot L nodes (Put_key k v) \<longleftrightarrow> length k = sizeof_key L \<and> length v = sizeof_value L"
| "call_fits prot L nodes (Assign_key k v) \<longleftrightarrow> length v = sizeof_value L"
| "call_fits prot L nodes (Reopen addr) \<longleftrightarrow> mapped_at addr prot (sizeof_HashNode L) nodes"
| "call_fits prot L nodes c \<longleftrightarrow> True"

lemma hash_call_spec:
  assumes "hash_inv prot L nodes x t" and "layout_ok L" and "call_fits prot L nodes c"
  shows "\<exists>x'. hash_step prot L nodes c x = Some (fst (table_call nodes c t), x')
    \<and> hash_inv prot L nodes x' (snd (table_call nodes c t))"
proof -
  obtain s r where x: "x = (s, r)" by (cases x)
  note inv = assms(1) [unfolded x]
  show ?thesis
  proof (cases c)
    case (Put_key k v)
    then show ?thesis using Shamhash_insert_spec [OF inv assms(2), of k v] assms(3) inv by (auto simp: x split: if_splits)
  next
    case (Erase_key k)
    then show ?thesis using Shamhash_erase_spec [OF inv assms(2), of k] inv by (auto simp: x split: if_splits)
  next
    case (Look_up k)
    then show ?thesis
      using get_spec [OF inv assms(2), of k] value_spec(1) [OF inv assms(2), of k] inv
      by (cases "t k") (simp_all add: x Shamhash_get_def)
  next
    case (Assign_key k v)
    then show ?thesis
      using get_spec [OF inv assms(2), of k] value_spec(2) [OF inv assms(2), of k _ v] inv assms(3)
      by (cases "t k") (auto simp: x Shamhash_get_def)
  next
    case (Reopen addr)
    then show ?thesis
      using init_again [OF assms(2) inv, of None addr "\<lambda>_. True" 0] assms(3) by (auto simp: x right_static_def)
  qed
qed

lemma hash_run_spec:
  "hash_inv prot L nodes x t \<Longrightarrow> layout_ok L \<Longrightarrow> list_all (call_fits prot L nodes) cs \<Longrightarrow>
    \<exists>x'. hash_run prot L nodes cs x = Some (table_run nodes cs t, x')"
proof (induction cs arbitrary: x t)
  case Nil
  then show ?case by simp
next
  case (Cons c cs)
  obtain x1 where 1: "hash_step prot L nodes c x = Some (fst (table_call nodes c t), x1)"
    "hash_inv prot L nodes x1 (snd (table_call nodes c t))"
    using hash_call_spec [OF Cons.prems(1,2), of c] Cons.prems(3) by (simp only: list.pred_inject) blast
  obtain x' where "hash_run prot L nodes cs x1 = Some (table_run nodes cs (snd (table_call nodes c t)), x')"
    using Cons.IH [OF 1(2) Cons.prems(2)] Cons.prems(3) by (simp only: list.pred_inject) blast
  then show ?case using 1(1) by (simp add: case_prod_beta)
qed

text \<open>
  C24: A table in shared memory is a finite map: a process that creates it, and the processes that open it
  again later at other addresses, get from all their calls what a map with room for \<open>nodes\<close> keys gives. The
  index that a process rebuilds from the nodes has every key, and no call aborts.
\<close>

theorem shamhash_is_a_map:
  assumes "layout_ok L" and "fits prot (sizeof_HashNode L) nodes r" and "right_static prot (sizeof_HashNode L) st"
    and "mapped_at addr prot (sizeof_HashNode L) nodes" and "list_all (call_fits prot L nodes) cs"
  shows "\<exists>s r' st' x. Shamhash_init prot L addr nodes False now (\<lambda>_. True) Shamhash r st = Some (0, s, r', st')
    \<and> hash_run prot L nodes cs (s, r') = Some (table_run nodes cs Map.empty, x)"
proof -
  obtain s r' where "Shamhash_init prot L addr nodes False now (\<lambda>_. True) Shamhash r st
      = Some (0, s, r', Some (GetBlockSize prot (sizeof_HashNode L) None))" "hash_inv prot L nodes (s, r') Map.empty"
    using init_fresh [OF assms(1-4), of "\<lambda>_. True" now] by blast
  then show ?thesis using hash_run_spec [OF _ assms(1,5)] by blast
qed

definition demo_layout :: layout where
  "demo_layout = \<lparr>sizeof_key = 1, offset_value = 4, sizeof_value = 2, sizeof_HashNode = 8\<rparr>"

theorem shamhash_is_a_map_witness:
  "\<exists>s r st x. Shamhash_init False demo_layout 65536 1 False 0 (\<lambda>_. True) Shamhash demo_region None = Some (0, s, r, st)
    \<and> hash_run False demo_layout 1
        [Put_key [1] [8, 9], Put_key [2] [3, 4], Assign_key [1] [5, 5], Reopen 131072, Look_up [1], Erase_key [1], Erase_key [1]]
        (s, r)
      = Some ([Stored True, Stored False, Stored True, Opened 0, Found (Some [5, 5]), Erased 0, Erased (- 1)], x)"
  using shamhash_is_a_map [of demo_layout False 1 demo_region None 65536
    "[Put_key [1] [8, 9], Put_key [2] [3, 4], Assign_key [1] [5, 5], Reopen 131072, Look_up [1], Erase_key [1], Erase_key [1]]" 0]
  by (simp add: demo_layout_def demo_region_def layout_ok_def fits_def right_static_def mapped_at_def GetHeaderSize_eq
      GetBlockSize_def NODE_OFFSET_def)

text \<open>A process that has the table open does not see what another one inserts, whatever the region has become.\<close>

lemma other_process_misses_key:
  assumes "hash_inv prot L nodes (s, r) t" and "layout_ok L" and "t k = None"
  shows "hash_step prot L nodes (Look_up k) (s, r') = Some (Found None, s, r')"
  using get_spec [OF assms(1,2), of k] assms(3) by (simp add: Shamhash_get_def)

end
