(* ===== verification/ShamQueue.thy ===== *)
theory ShamQueue
  imports Prelude
begin

text \<open>
  \<^verbatim>\<open>base/shamqueue.h/.cc\<close>: a queue of equal blocks in shared memory, with which processes write
  and read concurrently. A step is one statement of \<^verbatim>\<open>write\<close> or \<^verbatim>\<open>read\<close> of one process;
  a process in front of \<^verbatim>\<open>sem_wait\<close> has no step while the semaphore is 0. Copying a block is one
  step, since no other process touches the block meanwhile, as is shown below. The calls of
  the system that create and map the segment are not modelled; they succeed.
\<close>

section \<open>The segment\<close>

record shmhead =
  blksize :: nat
  blocks :: nat
  rd_index :: nat
  wr_index :: nat
  sem_mutex :: nat
  sem_full :: nat
  sem_empty :: nat

record segment = shmhead +
  payload :: bytes

definition ShamQueue_init :: "nat \<Rightarrow> nat \<Rightarrow> segment" where
  "ShamQueue_init sz n =
     \<lparr>blksize = sz, blocks = n, rd_index = 0, wr_index = 0, sem_mutex = 1, sem_full = n, sem_empty = 0,
      payload = replicate (sz * n) 0\<rparr>"

definition sem_wait :: "nat \<Rightarrow> nat option" where
  "sem_wait v = (if v = 0 then None else Some (v - 1))"

definition sem_post :: "nat \<Rightarrow> nat" where "sem_post v = v + 1"

lemma sem_wait_Some: "sem_wait v = Some w \<longleftrightarrow> v = Suc w"
  by (auto simp: sem_wait_def)

section \<open>Writing and reading\<close>

text \<open>Where a process is in \<^verbatim>\<open>write\<close>, with its buffer: the constructor tells what it did last.\<close>

datatype writer =
    Idle
  | Called bytes
  | Got_room bytes
  | Locked bytes
  | Copied bytes
  | Advanced bytes
  | Unlocked bytes

fun write_step :: "writer \<Rightarrow> segment \<Rightarrow> (writer \<times> segment) option" where
  "write_step Idle q = None"
| "write_step (Called buf) q = do { v \<leftarrow> sem_wait (sem_full q); Some (Got_room buf, q\<lparr>sem_full := v\<rparr>) }"
| "write_step (Got_room buf) q = do { v \<leftarrow> sem_wait (sem_mutex q); Some (Locked buf, q\<lparr>sem_mutex := v\<rparr>) }"
| "write_step (Locked buf) q = do {
     assert_that (length buf = blksize q \<and> wr_index q * blksize q + blksize q \<le> length (payload q));
     Some (Copied buf, q\<lparr>payload := splice_at (wr_index q * blksize q) buf (payload q)\<rparr>)
   }"
| "write_step (Copied buf) q = do {
     assert_that (blocks q \<noteq> 0);
     Some (Advanced buf, q\<lparr>wr_index := (wr_index q + 1) mod blocks q\<rparr>)
   }"
| "write_step (Advanced buf) q = Some (Unlocked buf, q\<lparr>sem_mutex := sem_post (sem_mutex q)\<rparr>)"
| "write_step (Unlocked buf) q = Some (Idle, q\<lparr>sem_empty := sem_post (sem_empty q)\<rparr>)"

text \<open>The same for \<^verbatim>\<open>read\<close>, which returns the bytes it copied.\<close>

datatype reader =
    Resting
  | Asked
  | Has_block
  | Fetched bytes
  | Passed bytes

fun read_step :: "reader \<Rightarrow> segment \<Rightarrow> (reader \<times> segment) option" where
  "read_step Resting q = None"
| "read_step Asked q = do { v \<leftarrow> sem_wait (sem_empty q); Some (Has_block, q\<lparr>sem_empty := v\<rparr>) }"
| "read_step Has_block q = do {
     assert_that (rd_index q * blksize q + blksize q \<le> length (payload q));
     Some (Fetched (take (blksize q) (drop (rd_index q * blksize q) (payload q))), q)
   }"
| "read_step (Fetched buf) q = do {
     assert_that (blocks q \<noteq> 0);
     Some (Passed buf, q\<lparr>rd_index := (rd_index q + 1) mod blocks q\<rparr>)
   }"
| "read_step (Passed buf) q = Some (Resting, q\<lparr>sem_full := sem_post (sem_full q)\<rparr>)"

section \<open>Processes\<close>

text \<open>
  The processes with the segment mapped. \<open>written\<close> and \<open>fetched\<close> are the blocks so far, in the order
  in which \<^verbatim>\<open>wr_index\<close> and \<^verbatim>\<open>rd_index\<close> passed them.
\<close>

record system =
  seg :: segment
  writers :: "writer list"
  readers :: "reader list"
  written :: "bytes list"
  fetched :: "bytes list"

datatype action = Call_write nat bytes | Call_read nat | Writer_step nat | Reader_step nat

fun act :: "action \<Rightarrow> system \<Rightarrow> system option" where
  "act (Call_write i buf) s =
     (if i < length (writers s) \<and> writers s ! i = Idle
      then Some (s\<lparr>writers := (writers s)[i := Called buf]\<rparr>) else None)"
| "act (Call_read j) s =
     (if j < length (readers s) \<and> readers s ! j = Resting
      then Some (s\<lparr>readers := (readers s)[j := Asked]\<rparr>) else None)"
| "act (Writer_step i) s =
     (if i < length (writers s) then do {
        (w, q) \<leftarrow> write_step (writers s ! i) (seg s);
        Some (s\<lparr>seg := q, writers := (writers s)[i := w],
          written := written s @ (case w of Advanced buf \<Rightarrow> [buf] | _ \<Rightarrow> [])\<rparr>)
      } else None)"
| "act (Reader_step j) s =
     (if j < length (readers s) then do {
        (r, q) \<leftarrow> read_step (readers s ! j) (seg s);
        Some (s\<lparr>seg := q, readers := (readers s)[j := r],
          fetched := fetched s @ (case r of Passed buf \<Rightarrow> [buf] | _ \<Rightarrow> [])\<rparr>)
      } else None)"

definition system_new :: "nat \<Rightarrow> nat \<Rightarrow> nat \<Rightarrow> nat \<Rightarrow> system" where
  "system_new sz n ws rs = \<lparr>seg = ShamQueue_init sz n, writers = replicate ws Idle, readers = replicate rs Resting,
     written = [], fetched = []\<rparr>"

inductive queue_reachable :: "nat \<Rightarrow> nat \<Rightarrow> nat \<Rightarrow> nat \<Rightarrow> system \<Rightarrow> bool" for sz n ws rs where
  start: "queue_reachable sz n ws rs (system_new sz n ws rs)"
| step: "queue_reachable sz n ws rs s \<Longrightarrow> act a s = Some s' \<Longrightarrow>
    (\<forall>i buf. a = Call_write i buf \<longrightarrow> length buf = sz) \<Longrightarrow> queue_reachable sz n ws rs s'"

section \<open>Counting processes\<close>

definition num :: "('a \<Rightarrow> bool) \<Rightarrow> 'a list \<Rightarrow> nat" where "num f xs = length (filter f xs)"

lemma num_update:
  "i < length xs \<Longrightarrow> num f (xs[i := y]) + of_bool (f (xs ! i)) = num f xs + of_bool (f y)"
  unfolding num_def
proof (induction xs arbitrary: i)
  case (Cons x xs)
  then show ?case by (cases i) (auto simp: algebra_simps)
qed simp

lemma num_pos: "i < length xs \<Longrightarrow> f (xs ! i) \<Longrightarrow> 0 < num f xs"
  by (auto simp: num_def filter_empty_conv)

lemma num_one: "num f xs \<le> 1 \<Longrightarrow> i < length xs \<Longrightarrow> f (xs ! i) \<Longrightarrow> j < length xs \<Longrightarrow> f (xs ! j) \<Longrightarrow> i = j"
proof (rule ccontr)
  assume a: "num f xs \<le> 1" "i < length xs" "f (xs ! i)" "j < length xs" "f (xs ! j)" "i \<noteq> j"
  then have "card {i, j} \<le> card {k. k < length xs \<and> f (xs ! k)}" by (intro card_mono) auto
  then show False using a by (simp add: num_def length_filter_conv_card)
qed

fun has_room :: "writer \<Rightarrow> bool" where
  "has_room (Got_room b) = True" | "has_room (Locked b) = True" | "has_room (Copied b) = True" | "has_room _ = False"

fun has_lock :: "writer \<Rightarrow> bool" where
  "has_lock (Locked b) = True" | "has_lock (Copied b) = True" | "has_lock (Advanced b) = True" | "has_lock _ = False"

fun to_tell :: "writer \<Rightarrow> bool" where
  "to_tell (Advanced b) = True" | "to_tell (Unlocked b) = True" | "to_tell _ = False"

fun buffer_fits :: "nat \<Rightarrow> writer \<Rightarrow> bool" where
  "buffer_fits sz (Called b) = (length b = sz)" | "buffer_fits sz (Got_room b) = (length b = sz)"
| "buffer_fits sz (Locked b) = (length b = sz)" | "buffer_fits sz (Copied b) = (length b = sz)"
| "buffer_fits sz (Advanced b) = (length b = sz)" | "buffer_fits sz (Unlocked b) = (length b = sz)"
| "buffer_fits sz Idle = True"

lemma num_zero: "num f xs = 0 \<Longrightarrow> i < length xs \<Longrightarrow> \<not> f (xs ! i)"
  using num_pos [of i xs f] by auto

section \<open>Blocks\<close>

definition slot :: "segment \<Rightarrow> nat \<Rightarrow> bytes" where
  "slot q i = take (blksize q) (drop (i * blksize q) (payload q))"

lemma nth_splice:
  "a + length ys \<le> length xs \<Longrightarrow> k < length xs \<Longrightarrow>
    splice_at a ys xs ! k = (if a \<le> k \<and> k < a + length ys then ys ! (k - a) else xs ! k)"
  by (auto simp: splice_at_def nth_append min_def)

lemma block_inside: "i < n \<Longrightarrow> i * sz + sz \<le> sz * (n :: nat)"
  using mult_le_mono1 [of "Suc i" n sz] by (simp add: mult.commute)

lemma slot_splice:
  assumes "length (payload q) = blksize q * n" and "length buf = blksize q" and "i < n" and "j < n"
  shows "slot (q\<lparr>payload := splice_at (j * blksize q) buf (payload q)\<rparr>) i = (if i = j then buf else slot q i)"
proof -
  have j: "j * blksize q + length buf \<le> length (payload q)" and i: "i * blksize q + length buf \<le> length (payload q)"
    using block_inside [OF assms(4), of "blksize q"] block_inside [OF assms(3), of "blksize q"] assms(1,2) by simp_all
  note len = length_splice_at [OF j]
  show ?thesis
  proof (cases "i = j")
    case True
    then show ?thesis
      using j len assms(2) by (intro nth_equalityI) (auto simp: slot_def nth_splice [OF j])
  next
    case False
    then have "i * blksize q + blksize q \<le> j * blksize q \<or> j * blksize q + blksize q \<le> i * blksize q"
      using block_inside [of i j "blksize q"] block_inside [of j i "blksize q"] by (cases "i < j") (auto simp: mult.commute)
    then show ?thesis
      using i j len assms(2) False by (intro nth_equalityI) (auto simp: slot_def nth_splice [OF j])
  qed
qed

lemma slot_header [simp]:
  "slot (q\<lparr>sem_full := a\<rparr>) = slot q" "slot (q\<lparr>sem_empty := a\<rparr>) = slot q" "slot (q\<lparr>sem_mutex := a\<rparr>) = slot q"
  "slot (q\<lparr>wr_index := a\<rparr>) = slot q" "slot (q\<lparr>rd_index := a\<rparr>) = slot q"
  by (simp_all add: slot_def fun_eq_iff)

lemma ring_apart:
  fixes n :: nat
  assumes "g \<le> i" and "i < p" and "p - g < n"
  shows "i mod n \<noteq> p mod n"
proof
  assume "i mod n = p mod n"
  then have "n dvd p - i" using assms(2) mod_eq_dvd_iff_nat [of i p n] by simp
  then show False using assms by (auto dest: dvd_imp_le)
qed

section \<open>The invariant\<close>

fun has_taken :: "reader \<Rightarrow> bool" where
  "has_taken Has_block = True" | "has_taken (Fetched b) = True" | "has_taken _ = False"

fun has_passed :: "reader \<Rightarrow> bool" where
  "has_passed (Passed b) = True" | "has_passed _ = False"

abbreviation the_reader :: "system \<Rightarrow> reader" where "the_reader s \<equiv> readers s ! 0"

definition shape :: "nat \<Rightarrow> nat \<Rightarrow> system \<Rightarrow> bool" where
  "shape sz n s \<longleftrightarrow> blksize (seg s) = sz \<and> blocks (seg s) = n \<and> length (payload (seg s)) = sz * n \<and> length (readers s) = 1
     \<and> wr_index (seg s) = length (written s) mod n \<and> rd_index (seg s) = length (fetched s) mod n
     \<and> list_all (buffer_fits sz) (writers s)"

text \<open>Every place of the ring belongs to the semaphore, a writer, a block that waits, or the reader.\<close>

definition counted :: "nat \<Rightarrow> system \<Rightarrow> bool" where
  "counted n s \<longleftrightarrow>
     sem_full (seg s) + num has_room (writers s) + length (written s) + of_bool (has_passed (the_reader s))
       = n + length (fetched s)
     \<and> sem_empty (seg s) + num to_tell (writers s) + of_bool (has_taken (the_reader s)) + length (fetched s)
       = length (written s)
     \<and> sem_mutex (seg s) + num has_lock (writers s) = 1"

definition stored :: "nat \<Rightarrow> system \<Rightarrow> bool" where
  "stored n s \<longleftrightarrow>
     (\<forall>i. length (fetched s) \<le> i \<longrightarrow> i < length (written s) \<longrightarrow> slot (seg s) (i mod n) = written s ! i)
     \<and> (\<forall>i buf. i < length (writers s) \<longrightarrow> writers s ! i = Copied buf \<longrightarrow> slot (seg s) (length (written s) mod n) = buf)
     \<and> (\<forall>buf. the_reader s = Fetched buf \<longrightarrow> buf = written s ! length (fetched s))
     \<and> fetched s = take (length (fetched s)) (written s)"

definition queue_inv :: "nat \<Rightarrow> nat \<Rightarrow> system \<Rightarrow> bool" where
  "queue_inv sz n s \<longleftrightarrow> shape sz n s \<and> counted n s \<and> stored n s"

lemma queue_inv_new: "0 < n \<Longrightarrow> queue_inv sz n (system_new sz n ws 1)"
  by (simp add: queue_inv_def shape_def counted_def stored_def system_new_def ShamQueue_init_def num_def list_all_length
      filter_empty_conv)

lemma list_all_update: "list_all f xs \<Longrightarrow> f y \<Longrightarrow> list_all f (xs[i := y])"
  by (auto simp: list_all_iff dest: set_update_subset_insert [THEN subsetD])

lemma Call_write_inv:
  assumes "queue_inv sz n s" and "act (Call_write i buf) s = Some s'" and "length buf = sz"
  shows "queue_inv sz n s'"
proof -
  have i: "i < length (writers s)" "writers s ! i = Idle" and s': "s' = s\<lparr>writers := (writers s)[i := Called buf]\<rparr>"
    using assms(2) by (auto split: if_splits)
  have "num f ((writers s)[i := Called buf]) = num f (writers s)" if "f Idle = f (Called buf)" for f
    using num_update [OF i(1), of f "Called buf"] that i(2) by simp
  then have "counted n s'" using assms(1) by (simp add: s' queue_inv_def counted_def)
  moreover have "shape sz n s'" using assms(1,3) by (simp add: s' queue_inv_def shape_def list_all_update)
  moreover have "stored n s'" using assms(1) i by (auto simp: s' queue_inv_def stored_def nth_list_update split: if_splits)
  ultimately show ?thesis by (simp add: queue_inv_def)
qed

lemma Call_read_inv:
  assumes "queue_inv sz n s" and "act (Call_read j) s = Some s'"
  shows "queue_inv sz n s'"
proof -
  have j: "j = 0" "the_reader s = Resting" and s': "s' = s\<lparr>readers := (readers s)[0 := Asked]\<rparr>"
    using assms by (auto simp: queue_inv_def shape_def split: if_splits)
  have "length (readers s) = 1" using assms(1) by (simp add: queue_inv_def shape_def)
  then show ?thesis using assms(1) j by (auto simp: s' queue_inv_def shape_def counted_def stored_def)
qed

text \<open>What holds of a queue in between.\<close>

lemma queue_inv_facts:
  assumes "queue_inv sz n s"
  shows "length (fetched s) \<le> length (written s)" "length (written s) - length (fetched s) \<le> n"
    "num has_lock (writers s) \<le> 1"
  using assms unfolding queue_inv_def counted_def by (elim conjE, linarith)+

lemma room_left:
  assumes "queue_inv sz n s" and "i < length (writers s)" and "has_room (writers s ! i)"
  shows "length (written s) - length (fetched s) < n"
  using assms(1) num_pos [of i "writers s" has_room, OF assms(2,3)]
  unfolding queue_inv_def counted_def by (elim conjE) linarith

lemma lock_is_one:
  assumes "queue_inv sz n s" and "i < length (writers s)" and "has_lock (writers s ! i)"
    and "j < length (writers s)" and "has_lock (writers s ! j)"
  shows "i = j"
  using num_one [OF queue_inv_facts(3) [OF assms(1)]] assms(2-) by blast

lemma block_waits:
  assumes "queue_inv sz n s" and "has_taken (the_reader s)"
  shows "length (fetched s) < length (written s)"
  using assms by (simp add: queue_inv_def counted_def)

text \<open>A step of a writer that changes neither blocks nor the lists of blocks.\<close>

lemma quiet_step:
  assumes "queue_inv sz n s" and "i < length (writers s)" and "s' = s\<lparr>seg := q, writers := (writers s)[i := w]\<rparr>"
    and "blksize q = blksize (seg s)" "blocks q = blocks (seg s)" "payload q = payload (seg s)"
      "wr_index q = wr_index (seg s)" "rd_index q = rd_index (seg s)"
    and "buffer_fits sz w" and "counted n s'" and "\<nexists>buf. w = Copied buf"
  shows "queue_inv sz n s'"
proof -
  have "slot q = slot (seg s)" using assms(4,6) by (simp add: slot_def fun_eq_iff)
  moreover have "shape sz n s'" using assms(1,3-9) by (simp add: queue_inv_def shape_def list_all_update)
  ultimately show ?thesis
    using assms(1,2,3,10,11) by (auto simp: queue_inv_def stored_def nth_list_update split: if_splits)
qed

lemma Writer_step_inv:
  assumes "queue_inv sz n s" and "act (Writer_step i) s = Some s'" and "0 < n"
  shows "queue_inv sz n s'"
proof -
  let ?q = "seg s" and ?P = "length (written s)" and ?ws = "writers s"
  have i: "i < length ?ws" using assms(2) by (auto split: if_splits)
  obtain w q where w: "write_step (?ws ! i) ?q = Some (w, q)"
    and s': "s' = s\<lparr>seg := q, writers := ?ws[i := w], written := written s @ (case w of Advanced buf \<Rightarrow> [buf] | _ \<Rightarrow> [])\<rparr>"
    using assms(2) i by (auto simp: bind_eq_Some_conv)
  have sh: "blksize ?q = sz" "blocks ?q = n" "length (payload ?q) = sz * n" "wr_index ?q = ?P mod n"
    "list_all (buffer_fits sz) ?ws" "length (readers s) = 1"
    using assms(1) by (simp_all add: queue_inv_def shape_def)
  have fit: "buffer_fits sz (?ws ! i)" using sh(5) i by (simp add: list_all_length)
  note n1 = num_update [OF i, of has_room w] and n2 = num_update [OF i, of to_tell w] and n3 = num_update [OF i, of has_lock w]
  note c = assms(1) [unfolded queue_inv_def counted_def]
  note quiet = quiet_step [OF assms(1) i, where q = q and w = w]
  show ?thesis
  proof (cases "?ws ! i")
    case Idle
    then show ?thesis using w by simp
  next
    case (Called buf)
    then obtain v where "sem_full ?q = Suc v" "w = Got_room buf" "q = ?q\<lparr>sem_full := v\<rparr>"
      using w by (auto simp: sem_wait_Some bind_eq_Some_conv)
    then show ?thesis using s' Called n1 n2 n3 c fit by (intro quiet) (auto simp: counted_def)
  next
    case (Got_room buf)
    then obtain v where "sem_mutex ?q = Suc v" "w = Locked buf" "q = ?q\<lparr>sem_mutex := v\<rparr>"
      using w by (auto simp: sem_wait_Some bind_eq_Some_conv)
    then show ?thesis using s' Got_room n1 n2 n3 c fit by (intro quiet) (auto simp: counted_def)
  next
    case (Advanced buf)
    then have "w = Unlocked buf" "q = ?q\<lparr>sem_mutex := Suc (sem_mutex ?q)\<rparr>"
      using w by (auto simp: sem_post_def)
    then show ?thesis using s' Advanced n1 n2 n3 c fit by (intro quiet) (auto simp: counted_def)
  next
    case (Unlocked buf)
    then have "w = Idle" "q = ?q\<lparr>sem_empty := Suc (sem_empty ?q)\<rparr>"
      using w by (auto simp: sem_post_def)
    then show ?thesis using s' Unlocked n1 n2 n3 c by (intro quiet) (auto simp: counted_def)
  next
    case (Locked buf)
    have w': "w = Copied buf" "q = ?q\<lparr>payload := splice_at (?P mod n * sz) buf (payload ?q)\<rparr>" and len: "length buf = sz"
      using w Locked fit by (auto simp: sh)
    have pm: "?P mod n < n" using assms(3) by simp
    have sl: "slot q j = (if j = ?P mod n then buf else slot ?q j)" if "j < n" for j
      using slot_splice [of ?q n buf j "?P mod n"] that pm sh len w'(2) by simp
    have apart: "j mod n \<noteq> ?P mod n" if "length (fetched s) \<le> j" "j < ?P" for j
      using ring_apart [OF that] room_left [OF assms(1) i] Locked by simp
    have one: "j = i" if "j < length ?ws" "?ws ! j = Copied b" for j b
      using lock_is_one [OF assms(1) that(1) _ i] that(2) Locked by simp
    have "length (payload q) = sz * n"
      using w'(2) len sh(3) block_inside [OF pm, of sz] by simp
    then have "shape sz n s'" using assms(1) s' w' len by (simp add: queue_inv_def shape_def list_all_update)
    moreover have "counted n s'" using s' w' Locked n1 n2 n3 c by (auto simp: counted_def)
    moreover have "stored n s'"
      using assms(1,3) s' w'(1) sl apart one i pm by (auto simp: queue_inv_def stored_def nth_list_update split: if_splits)
    ultimately show ?thesis by (simp add: queue_inv_def)
  next
    case (Copied buf)
    have w': "w = Advanced buf" "q = ?q\<lparr>wr_index := Suc ?P mod n\<rparr>" and len: "length buf = sz"
      using w Copied fit sh assms(3) by (auto simp: mod_Suc_eq)
    have st: "slot ?q (?P mod n) = buf" using assms(1) i Copied by (auto simp: queue_inv_def stored_def)
    have one: "j = i" if "j < length ?ws" "?ws ! j = Copied b" for j b
      using lock_is_one [OF assms(1) that(1) _ i] that(2) Copied by simp
    have le: "length (fetched s) \<le> ?P" by (rule queue_inv_facts(1) [OF assms(1)])
    have "shape sz n s'" using assms(1) s' w' len by (simp add: queue_inv_def shape_def list_all_update)
    moreover have "counted n s'" using s' w' Copied n1 n2 n3 c by (auto simp: counted_def)
    moreover have "stored n s'"
    proof -
      have "the_reader s = Fetched b \<Longrightarrow> length (fetched s) < ?P" for b using block_waits [OF assms(1)] by simp
      then show ?thesis
        using assms(1) s' w' st one i le
        by (auto simp: queue_inv_def stored_def nth_append nth_list_update less_Suc_eq split: if_splits)
    qed
    ultimately show ?thesis by (simp add: queue_inv_def)
  qed
qed

lemma Reader_step_inv:
  assumes "queue_inv sz n s" and "act (Reader_step j) s = Some s'" and "0 < n"
  shows "queue_inv sz n s'"
proof -
  let ?q = "seg s" and ?G = "length (fetched s)"
  have sh: "blksize ?q = sz" "blocks ?q = n" "length (payload ?q) = sz * n" "rd_index ?q = ?G mod n" "length (readers s) = 1"
    using assms(1) by (simp_all add: queue_inv_def shape_def)
  have j: "j = 0" using assms(2) sh(5) by (auto split: if_splits)
  obtain r q where r: "read_step (the_reader s) ?q = Some (r, q)"
    and s': "s' = s\<lparr>seg := q, readers := (readers s)[0 := r], fetched := fetched s @ (case r of Passed buf \<Rightarrow> [buf] | _ \<Rightarrow> [])\<rparr>"
    using assms(2) sh(5) by (auto simp: bind_eq_Some_conv j)
  note c = assms(1) [unfolded queue_inv_def counted_def]
  show ?thesis
  proof (cases "the_reader s")
    case Resting
    then show ?thesis using r by simp
  next
    case Asked
    then obtain v where "sem_empty ?q = Suc v" "r = Has_block" "q = ?q\<lparr>sem_empty := v\<rparr>"
      using r by (auto simp: sem_wait_Some bind_eq_Some_conv)
    moreover from this have "slot q = slot ?q" by (metis slot_header(2))
    ultimately show ?thesis using s' Asked assms(1) by (auto simp: queue_inv_def shape_def counted_def stored_def)
  next
    case Has_block
    have r': "r = Fetched (slot ?q (?G mod n))" "q = ?q" using r Has_block sh by (auto simp: slot_def)
    have "?G < length (written s)" using block_waits [OF assms(1)] Has_block by simp
    then have "slot ?q (?G mod n) = written s ! ?G" using assms(1) by (simp add: queue_inv_def stored_def)
    then show ?thesis using s' r' Has_block assms(1) by (auto simp: queue_inv_def shape_def counted_def stored_def)
  next
    case (Fetched buf)
    have r': "r = Passed buf" "q = ?q\<lparr>rd_index := Suc ?G mod n\<rparr>"
      using r Fetched sh by (auto simp: mod_Suc_eq)
    have g: "?G < length (written s)" using block_waits [OF assms(1)] Fetched by simp
    have "buf = written s ! ?G" "fetched s = take ?G (written s)"
      using assms(1) Fetched by (simp_all add: queue_inv_def stored_def)
    then have "fetched s @ [buf] = take (Suc ?G) (written s)" using g by (simp add: take_Suc_conv_app_nth)
    then have "fetched s' = take (length (fetched s')) (written s')" using s' r'(1) g by (simp add: min_def)
    then show ?thesis using s' r' Fetched assms(1) by (auto simp: queue_inv_def shape_def counted_def stored_def)
  next
    case (Passed buf)
    then have "r = Resting" "q = ?q\<lparr>sem_full := Suc (sem_full ?q)\<rparr>"
      using r by (auto simp: sem_post_def)
    moreover from this have "slot q = slot ?q" by (metis slot_header(1))
    ultimately show ?thesis using s' Passed assms(1) by (auto simp: queue_inv_def shape_def counted_def stored_def)
  qed
qed

lemma queue_reachable_inv:
  assumes "0 < n"
  shows "queue_reachable sz n ws 1 s \<Longrightarrow> queue_inv sz n s"
proof (induction rule: queue_reachable.induct)
  case start
  show ?case by (rule queue_inv_new [OF assms])
next
  case (step s a s')
  then show ?case
    using Call_write_inv [OF step.IH] Call_read_inv [OF step.IH] Writer_step_inv [OF step.IH _ assms]
      Reader_step_inv [OF step.IH _ assms]
    by (cases a) auto
qed

section \<open>Properties\<close>

text \<open>
  C21: With any number of writers and one reader, in any interleaving of their statements, the queue is a
  bounded first-in first-out queue: the blocks that were fetched are the first ones that were written, in
  order and whole, and at most \<open>n\<close> wait. A writer that copies its block is alone with it: no other writer
  is between the same two semaphores, and a reader that copies has another block.
\<close>

theorem shamqueue_is_fifo:
  assumes "queue_reachable sz n ws 1 s" and "0 < n"
  shows "fetched s = take (length (fetched s)) (written s) \<and> length (written s) \<le> length (fetched s) + n
    \<and> (\<forall>i < length (writers s). \<forall>buf. writers s ! i = Locked buf \<longrightarrow>
        (\<forall>j < length (writers s). has_lock (writers s ! j) \<longrightarrow> j = i)
        \<and> (readers s ! 0 = Has_block \<longrightarrow> wr_index (seg s) \<noteq> rd_index (seg s)))"
proof -
  have inv: "queue_inv sz n s" by (rule queue_reachable_inv [OF assms(2,1)])
  have "wr_index (seg s) \<noteq> rd_index (seg s)"
    if "i < length (writers s)" "writers s ! i = Locked buf" "readers s ! 0 = Has_block" for i buf
    using ring_apart [of "length (fetched s)" "length (fetched s)" "length (written s)" n] block_waits [OF inv]
      room_left [OF inv that(1)] that inv by (simp add: queue_inv_def shape_def)
  moreover have "j = i" if "i < length (writers s)" "writers s ! i = Locked buf" "j < length (writers s)" "has_lock (writers s ! j)"
    for i j buf
    using lock_is_one [OF inv that(3,4,1)] that(2) by simp
  moreover have "fetched s = take (length (fetched s)) (written s)" using inv by (simp add: queue_inv_def stored_def)
  ultimately show ?thesis using queue_inv_facts [OF inv] by auto
qed

lemma run_reachable:
  "queue_reachable sz n ws rs s \<Longrightarrow> for_each act as s = Some s' \<Longrightarrow>
    (\<forall>i buf. Call_write i buf \<in> set as \<longrightarrow> length buf = sz) \<Longrightarrow> queue_reachable sz n ws rs s'"
proof (induction as arbitrary: s)
  case (Cons a as)
  obtain t where t: "act a s = Some t" "for_each act as t = Some s'" using Cons.prems(2) by (auto simp: bind_eq_Some_conv)
  have "queue_reachable sz n ws rs t" by (rule queue_reachable.step [OF Cons.prems(1) t(1)]) (use Cons.prems(3) in auto)
  then show ?case using Cons.IH t(2) Cons.prems(3) by auto
qed simp

lemmas run_eval = system_new_def ShamQueue_init_def sem_wait_def sem_post_def splice_at_def eval_nat_numeral

abbreviation write_block :: "nat \<Rightarrow> bytes \<Rightarrow> action list" where
  "write_block i buf \<equiv> [Call_write i buf, Writer_step i, Writer_step i, Writer_step i, Writer_step i, Writer_step i, Writer_step i]"

theorem shamqueue_is_fifo_witness:
  "\<exists>s. for_each act (write_block 0 [7] @ [Call_read 0, Reader_step 0, Reader_step 0, Reader_step 0]) (system_new 1 2 1 1) = Some s
    \<and> length (fetched s) = 1 \<and> written s = [[7]] \<and> fetched s = take 1 [[7]]"
proof -
  let ?as = "write_block 0 [7] @ [Call_read 0, Reader_step 0, Reader_step 0, Reader_step 0]"
  obtain s where s: "for_each act ?as (system_new 1 2 1 1) = Some s" "length (fetched s) = 1" "written s = [[7]]"
    by (simp add: run_eval)
  have "queue_reachable 1 2 1 1 s" by (rule run_reachable [OF queue_reachable.start s(1)]) auto
  then show ?thesis using shamqueue_is_fifo [of 1 2 1 s] s by auto
qed

text \<open>
  C22: The queue does not get stuck. When no process can take a step, every writer is outside of
  \<^verbatim>\<open>write\<close> or waits at its beginning, in which case the queue is full and nobody reads; and a reader
  that waits does so at its beginning, the queue is empty and nobody writes.
\<close>

theorem shamqueue_no_deadlock:
  assumes "queue_reachable sz n ws 1 s" and "0 < n"
    and "\<forall>i. act (Writer_step i) s = None" and "act (Reader_step 0) s = None"
  shows "(\<forall>w \<in> set (writers s). w = Idle \<or>
        (\<exists>buf. w = Called buf) \<and> readers s ! 0 = Resting \<and> length (written s) = length (fetched s) + n)
    \<and> (readers s ! 0 = Resting \<or>
        readers s ! 0 = Asked \<and> written s = fetched s \<and> (\<forall>w \<in> set (writers s). w = Idle))"
proof -
  have inv: "queue_inv sz n s" by (rule queue_reachable_inv [OF assms(2,1)])
  let ?q = "seg s" and ?ws = "writers s"
  have sh: "blksize ?q = sz" "blocks ?q = n" "length (payload ?q) = sz * n" "wr_index ?q = length (written s) mod n"
    "rd_index ?q = length (fetched s) mod n" "list_all (buffer_fits sz) ?ws" "length (readers s) = 1"
    using inv by (simp_all add: queue_inv_def shape_def)
  have w: "write_step (?ws ! i) ?q = None" if "i < length ?ws" for i
    using assms(3) [rule_format, of i] that by (cases "write_step (?ws ! i) ?q") (auto split: prod.splits)
  have r: "read_step (readers s ! 0) ?q = None" using assms(4) sh(7)
    by (cases "read_step (readers s ! 0) ?q") (auto split: prod.splits)
  have at: "length (written s) mod n < n" "length (fetched s) mod n < n" using assms(2) by simp_all
  note inside = block_inside [OF at(1), of sz] block_inside [OF at(2), of sz]
  have no_lock: "\<not> has_lock (?ws ! i)" if "i < length ?ws" for i
    using w [OF that] sh inside assms(2) that by (cases "?ws ! i") (auto simp: list_all_length)
  then have "num has_lock ?ws = 0" by (auto simp: num_def filter_empty_conv in_set_conv_nth)
  then have mutex: "sem_mutex ?q = 1" using inv by (simp add: queue_inv_def counted_def)
  have c: "?ws ! i = Idle \<or> (\<exists>buf. ?ws ! i = Called buf) \<and> sem_full ?q = 0" if "i < length ?ws" for i
    using w [OF that] no_lock [OF that] mutex by (cases "?ws ! i") (auto simp: sem_wait_def split: if_splits)
  then have "\<not> has_room (?ws ! i)" "\<not> to_tell (?ws ! i)" if "i < length ?ws" for i using that by fastforce+
  then have n0: "num has_room ?ws = 0" "num to_tell ?ws = 0" by (auto simp: num_def filter_empty_conv in_set_conv_nth)
  have rd: "readers s ! 0 = Resting \<or> readers s ! 0 = Asked \<and> sem_empty ?q = 0"
    using r sh inside assms(2) by (cases "readers s ! 0") (auto simp: sem_wait_def split: if_splits)
  have sums: "sem_full ?q + length (written s) = n + length (fetched s)" "sem_empty ?q + length (fetched s) = length (written s)"
    using inv n0 rd by (auto simp: queue_inv_def counted_def)
  have pre: "fetched s = take (length (fetched s)) (written s)" using inv by (simp add: queue_inv_def stored_def)
  have "readers s ! 0 = Resting \<and> length (written s) = length (fetched s) + n" if "sem_full ?q = 0"
    using that sums rd assms(2) by auto
  moreover have "written s = fetched s \<and> sem_full ?q = n" if "sem_empty ?q = 0"
    using that sums pre by simp
  ultimately show ?thesis using c rd assms(2) by (metis in_set_conv_nth less_numeral_extra(3))
qed

theorem shamqueue_no_deadlock_witness:
  "\<exists>s. for_each act (write_block 0 [7] @ [Call_write 0 [8]]) (system_new 1 1 1 1) = Some s
    \<and> act (Reader_step 0) s = None \<and> length (written s) = length (fetched s) + 1"
proof -
  obtain s where s: "for_each act (write_block 0 [7] @ [Call_write 0 [8]]) (system_new 1 1 1 1) = Some s"
    "act (Reader_step 0) s = None" "\<forall>i. act (Writer_step i) s = None" "writers s = [Called [8]]"
    by (simp add: run_eval)
  have "queue_reachable 1 1 1 1 s" by (rule run_reachable [OF queue_reachable.start s(1)]) auto
  from shamqueue_no_deadlock [OF this _ s(3,2)] s show ?thesis by auto
qed

text \<open>
  With two readers both can copy a block before either moves the index: one block is fetched twice and the
  next one never, since reading takes no mutex.
\<close>

lemma two_readers_lose_a_block:
  "map_option (\<lambda>s. (written s, fetched s))
     (for_each act (write_block 0 [1] @ write_block 0 [2] @
        [Call_read 0, Call_read 1, Reader_step 0, Reader_step 1, Reader_step 0, Reader_step 1, Reader_step 0, Reader_step 1])
      (system_new 1 2 1 2))
   = Some ([[1], [2]], [[1], [1]])"
  by (simp add: run_eval)

end
