(* ===== verification/Memcached.thy ===== *)
theory Memcached
  imports Buffer Text "HOL-Library.AList"
begin

text \<open>
  \<^verbatim>\<open>example/memcached\<close>: \<^verbatim>\<open>item.h/.cpp\<close>, \<^verbatim>\<open>session.h/.cpp\<close> (the
  commands of a connection), \<^verbatim>\<open>memcachedserver.h/.cpp\<close> (the table and the append-only file),
  with \<^verbatim>\<open>base/hash.hpp\<close> and \<^verbatim>\<open>base/bytestring.h\<close>. A byte string is the bytes it
  points to when it is made; each use of one ends before its memory changes. Server and session share
  one state, since a session only works for its server; \<open>replies\<close> are the bytes handed to the
  connection, which takes none after the session shut it down. The mapped file holds zeros behind
  \<open>aof\<close>, so \<open>m_aof_seek\<close> is the length of \<open>aof\<close>.
\<close>

unbundle bit_operations_syntax

section \<open>Hashes and items\<close>

definition ascii :: "string \<Rightarrow> bytes" where "ascii s = map of_char s"

definition hash_combine_impl :: "u64 \<Rightarrow> u64 \<Rightarrow> u64" where
  "hash_combine_impl seed value =
     seed XOR (value + 0x9e3779b9 + push_bit 6 seed + drop_bit 2 seed)"

text \<open>\<^verbatim>\<open>std::hash<char>\<close> is the character, with its sign.\<close>

definition hash_range :: "bytes \<Rightarrow> u64" where
  "hash_range s = foldl (\<lambda>seed c. hash_combine_impl seed (scast c)) 0 s"

record item =
  m_data :: bytes
  m_flag :: int

text \<open>\<^verbatim>\<open>getValueLen\<close>\<close>

definition value_len :: "item \<Rightarrow> u64" where "value_len i = of_nat (length (m_data i))"

definition setValue :: "bytes \<Rightarrow> item \<Rightarrow> item" where "setValue v i = i\<lparr>m_data := v\<rparr>"

section \<open>The server\<close>

datatype aofState = Init | Append | Sync | ReWrittening | ReWrittened

datatype parseState = init | recvKey | recvCmd | recvFlag | recvTimeout | recvBytes

record memcached =
  m_maps :: "nat \<Rightarrow> (bytes \<times> item) list"
  m_aof_state :: aofState
  aof :: bytes
  written_aof :: bytes
  m_aof_rewritten_buff :: bytes
  has_conne :: bool
  m_state :: parseState
  m_output :: bytes
  replies :: bytes
  shut :: bool

definition kSharedNum :: nat where "kSharedNum = 4096"
definition aof_file_length :: nat where "aof_file_length = 1024 * 1024 * 512"


definition shard :: "bytes \<Rightarrow> nat" where "shard key = unat (hash_range key) mod kSharedNum"

definition get :: "bytes \<Rightarrow> memcached \<Rightarrow> item option" where
  "get key s = map_of (m_maps s (shard key)) key"

definition set_shard :: "nat \<Rightarrow> (bytes \<times> item) list \<Rightarrow> memcached \<Rightarrow> memcached" where
  "set_shard i m s = s\<lparr>m_maps := (m_maps s)(i := m)\<rparr>"

text \<open>An item that is there gets the new value only.\<close>

definition set_item :: "bytes \<Rightarrow> bytes \<Rightarrow> int \<Rightarrow> memcached \<Rightarrow> memcached" where
  "set_item key val flag s =
     (case get key s of
        None \<Rightarrow> set_shard (shard key) ((key, \<lparr>m_data = val, m_flag = flag\<rparr>) # m_maps s (shard key)) s
      | Some i \<Rightarrow> set_shard (shard key) (AList.update key (setValue val i) (m_maps s (shard key))) s)"

definition del :: "bytes \<Rightarrow> memcached \<Rightarrow> bool \<times> memcached" where
  "del key s = (get key s \<noteq> None, set_shard (shard key) (AList.delete key (m_maps s (shard key))) s)"

section \<open>The append-only file\<close>

text \<open>
  What the child process writes for an item. Its key and value are printed as C strings, up to the
  first zero byte in memory; the argument \<open>tail\<close> has the bytes that follow the key and the value of
  the item with a key.
\<close>

type_synonym memory = "bytes \<Rightarrow> bytes \<times> bytes"

definition c_string :: "bytes \<Rightarrow> bytes \<Rightarrow> bytes" where
  "c_string s tail = takeWhile (\<lambda>c. c \<noteq> 0) (s @ tail)"

definition rewritten_record :: "memory \<Rightarrow> bytes \<times> item \<Rightarrow> bytes" where
  "rewritten_record tail x =
     ascii ''set '' @ c_string (fst x) (fst (tail (fst x))) @ ascii '' 0 '' @ to_string_int (m_flag (snd x)) @
     ascii '' '' @ to_string (unat (value_len (snd x) - 2)) @ [13, 10] @
     c_string (m_data (snd x)) (snd (tail (fst x)))"

definition RewrittenAOF :: "memory \<Rightarrow> memcached \<Rightarrow> memcached" where
  "RewrittenAOF tail s =
     s\<lparr>written_aof := concat (map (\<lambda>i. concat (map (rewritten_record tail) (m_maps s i))) [0..<kSharedNum])\<rparr>"

text \<open>The handler of \<^verbatim>\<open>SIGCHLD\<close>.\<close>

definition setReWrittened :: "memcached \<Rightarrow> memcached" where
  "setReWrittened s = s\<lparr>m_aof_state := ReWrittened\<rparr>"

definition appendAof :: "memory \<Rightarrow> bytes \<Rightarrow> memcached \<Rightarrow> memcached option" where
  "appendAof tail content s =
     (if m_aof_state s = Init then Some s
      else do {
        let s = (if m_aof_state s = Append \<and> aof_file_length div 2 < length (aof s) + length content * 2
                 then RewrittenAOF tail (s\<lparr>m_aof_state := ReWrittening\<rparr>) else s);
        let s = (if m_aof_state s = ReWrittened
                 then s\<lparr>aof := written_aof s @ m_aof_rewritten_buff s, m_aof_rewritten_buff := [],
                        m_aof_state := Sync\<rparr>
                 else s);
        s \<leftarrow> (if m_aof_state s = Append \<or> m_aof_state s = ReWrittening then do {
                assert_that (length (aof s) + length content < aof_file_length);
                Some (s\<lparr>aof := aof s @ content, m_aof_state := Sync\<rparr>)
              } else Some s);
        Some (if m_aof_state s = ReWrittening
              then s\<lparr>m_aof_rewritten_buff := m_aof_rewritten_buff s @ content\<rparr> else s)
      })"


section \<open>Sessions\<close>

definition kNOT_FOUND :: bytes where "kNOT_FOUND = ascii ''NOT_FOUND'' @ [13, 10]"
definition kSTORED :: bytes where "kSTORED = ascii ''STORED'' @ [13, 10]"
definition kDELETED :: bytes where "kDELETED = ascii ''DELETED'' @ [13, 10]"
definition kEND :: bytes where "kEND = ascii ''END'' @ [13, 10]"

definition clientError :: "bytes \<Rightarrow> bytes" where
  "clientError message = ascii ''CLIENT_ERROR'' @ message @ [13, 10]"

definition enumeration_comma :: bytes where "enumeration_comma = [0xE3, 0x80, 0x81]"

definition reply :: "bytes \<Rightarrow> memcached \<Rightarrow> memcached" where
  "reply message s = (if has_conne s \<and> \<not> shut s then s\<lparr>replies := replies s @ message\<rparr> else s)"

text \<open>\<^verbatim>\<open>send(&m_output)\<close> empties the buffer while the connection is up.\<close>

definition reply_output :: "memcached \<Rightarrow> memcached" where
  "reply_output s = (if has_conne s \<and> \<not> shut s then (reply (m_output s) s)\<lparr>m_output := []\<rparr> else s)"

definition closeSession :: "memcached \<Rightarrow> memcached" where
  "closeSession s = (if has_conne s then s\<lparr>shut := True\<rparr> else s)"

definition find_one :: "bytes \<Rightarrow> memcached \<Rightarrow> memcached" where
  "find_one key s =
     (case get key s of
        Some i \<Rightarrow> reply_output (s\<lparr>m_output := m_output s @ ascii ''VALUE '' @ key @ ascii '' '' @
            to_string_int (m_flag i) @ ascii '' '' @ to_string (unat (value_len i - 2)) @ [13, 10] @ m_data i\<rparr>)
      | None \<Rightarrow> reply kNOT_FOUND s)"

definition doFind :: "bytes list \<Rightarrow> memcached \<Rightarrow> memcached option" where
  "doFind keys s = do {
     assert_that (keys \<noteq> []);
     Some (reply kEND (fold find_one keys s))
   }"

definition doDelete :: "memory \<Rightarrow> bytes list \<Rightarrow> bytes \<Rightarrow> memcached \<Rightarrow> memcached option" where
  "doDelete tail keys record s =
     (let (found, s) = del (hd keys) s in
      if found then appendAof tail record (reply kDELETED s)
      else Some (reply kNOT_FOUND s))"

text \<open>
  \<^verbatim>\<open>doUpdate\<close>: the value is the next bytes of the buffer, with their line end; \<open>line\<close> is
  the command's line, which lies before them.
\<close>

definition doUpdate ::
  "memory \<Rightarrow> bytes \<Rightarrow> bytes \<Rightarrow> int \<Rightarrow> int \<Rightarrow> buffer \<times> memcached \<Rightarrow> (buffer \<times> memcached) option"
where
  "doUpdate tail line key flag bytes x = do {
     let (buf, s) = x;
     assert_that (0 \<le> bytes + 2 \<and> bytes + 2 < 2 ^ 31);
     let len = nat (bytes + 2);
     let val = take len (contents buf);
     buf \<leftarrow> updatePos len buf;
     let s = set_item key val flag s;
     s \<leftarrow> appendAof tail (line @ val) (reply kSTORED s);
     Some (buf, s)
   }"

text \<open>
  The keys of \<^verbatim>\<open>get\<close> and \<^verbatim>\<open>delete\<close>: \<open>start\<close> stays at the first one while
  \<open>space\<close> goes on, so the second key is the first two words, and so on. \<open>before\<close> is what lies
  between them.
\<close>

function key_loop :: "bytes \<Rightarrow> bytes \<Rightarrow> bytes list" where
  "key_loop before rest =
     (let word = takeWhile (\<lambda>c. c \<noteq> 32) rest;
          rest' = dropWhile (\<lambda>c. c \<noteq> 32) rest
      in (before @ word) # (if rest' = [] then [] else key_loop (before @ word @ [32]) (tl rest')))"
  by pat_completeness auto
termination
proof (relation "measure (\<lambda>(before, rest). length rest)", goal_cases)
  case (2 before rest word rest')
  then have "length rest' \<le> length rest" "rest' \<noteq> []" by (simp_all add: length_dropWhile_le)
  then show ?case by (cases rest') auto
qed simp

declare key_loop.simps [simp del]

text \<open>
  The fields of \<^verbatim>\<open>set\<close>: the state says which one comes next. A number is read by
  \<^verbatim>\<open>atoi\<close> from the memory at the word's start, \<open>mem\<close>, which does not stop at its end.
\<close>

record set_fields =
  f_key :: bytes
  f_flag :: int
  f_bytes :: int
  f_state :: parseState

definition set_field :: "bytes \<Rightarrow> bytes \<Rightarrow> set_fields \<Rightarrow> set_fields" where
  "set_field word mem f =
     (if f_state f = recvCmd then f\<lparr>f_key := word, f_state := recvKey\<rparr>
      else if f_state f = recvKey then f\<lparr>f_flag := atoi mem, f_state := recvFlag\<rparr>
      else if f_state f = recvFlag then f\<lparr>f_state := recvTimeout\<rparr>
      else if f_state f = recvTimeout then f\<lparr>f_bytes := atoi mem, f_state := recvBytes\<rparr>
      else f)"

text \<open>\<open>behind\<close> is what lies in memory behind the line.\<close>

function set_loop :: "bytes \<Rightarrow> bytes \<Rightarrow> set_fields \<Rightarrow> set_fields" where
  "set_loop rest behind f =
     (let word = takeWhile (\<lambda>c. c \<noteq> 32) rest;
          rest' = dropWhile (\<lambda>c. c \<noteq> 32) rest;
          f = set_field word (rest @ behind) f
      in if rest' = [] then f else set_loop (tl rest') behind f)"
  by pat_completeness auto
termination
proof (relation "measure (\<lambda>(rest, behind, f). length rest)", goal_cases)
  case (2 rest behind f word rest' f')
  then have "length rest' \<le> length rest" "rest' \<noteq> []" by (simp_all add: length_dropWhile_le)
  then show ?case by (cases rest') auto
qed simp

declare set_loop.simps [simp del]

definition onMessage :: "memory \<Rightarrow> buffer \<times> memcached \<Rightarrow> (buffer \<times> memcached) option" where
  "onMessage tail x =
     (let (buf, s) = x; s = s\<lparr>m_state := init\<rparr> in
      case findCRLF buf of
        None \<Rightarrow> Some (buf, closeSession (reply (clientError (ascii ''can'' @ [39] @ ascii ''t found '')) s))
      | Some crlf \<Rightarrow>
          let line = take crlf (contents buf);
              cmd = takeWhile (\<lambda>c. c \<noteq> 32) line;
              rest = dropWhile (\<lambda>c. c \<noteq> 32) line
          in
            if rest = [] then Some (buf, reply (clientError (ascii ''can'' @ [39] @ ascii ''t found space'')) s)
            else if cmd = ascii ''get'' \<or> cmd = ascii ''delete'' then do {
              let keys = key_loop [] (tl rest);
              let s = s\<lparr>m_state := recvKey\<rparr>;
              s \<leftarrow> (if hd cmd = 103 then doFind keys s else doDelete tail keys (line @ [13, 10]) s);
              buf \<leftarrow> updatePosUntil (crlf + 2) buf;
              Some (buf, s)
            } else if cmd = ascii ''set'' then
              let f = set_loop (tl rest) (drop (m_rpos buf + crlf) (m_queue buf))
                    \<lparr>f_key = [], f_flag = 0, f_bytes = 0, f_state = recvCmd\<rparr>;
                  s = s\<lparr>m_state := f_state f\<rparr>
              in if f_state f \<noteq> recvBytes then
                   Some (buf, closeSession (reply (clientError (ascii ''flag '' @ enumeration_comma @ ascii ''exptime '' @ enumeration_comma @ ascii ''bytes is must.'')) s))
                 else do {
                   assert_that (f_bytes f \<noteq> 0);
                   buf \<leftarrow> updatePosUntil (crlf + 2) buf;
                   doUpdate tail (line @ [13, 10]) (f_key f) (f_flag f) (f_bytes f) (buf, s)
                 }
            else Some (buf, closeSession (reply kNOT_FOUND s)))"





section \<open>The table\<close>

text \<open>What the lookups see: the table as one map.\<close>

definition table :: "memcached \<Rightarrow> bytes \<Rightarrow> item option" where "table s = (\<lambda>key. get key s)"

definition stored_value :: "bytes \<Rightarrow> int \<Rightarrow> item option \<Rightarrow> item" where
  "stored_value v flag old = (case old of None \<Rightarrow> \<lparr>m_data = v, m_flag = flag\<rparr> | Some i \<Rightarrow> i\<lparr>m_data := v\<rparr>)"

lemma table_set_item:
  "table (set_item key v flag s) = (table s)(key \<mapsto> stored_value v flag (table s key))"
proof (rule ext)
  fix k
  show "table (set_item key v flag s) k = ((table s)(key \<mapsto> stored_value v flag (table s key))) k"
    by (cases "table s key")
      (auto simp: set_item_def set_shard_def stored_value_def setValue_def AList.update_conv' table_def get_def)
qed

lemma table_del: "table (snd (del key s)) = (table s)(key := None)"
  by (rule ext) (auto simp: del_def set_shard_def AList.delete_conv' table_def get_def)

lemma del_found: "fst (del key s) \<longleftrightarrow> table s key \<noteq> None"
  by (simp add: del_def table_def)

lemma table_only_maps: "m_maps s' = m_maps s \<Longrightarrow> table s' = table s"
  by (simp add: table_def get_def fun_eq_iff)

lemma reply_fields [simp]:
  "m_maps (reply x s) = m_maps s" "m_aof_state (reply x s) = m_aof_state s" "aof (reply x s) = aof s"
  "has_conne (reply x s) = has_conne s" "shut (reply x s) = shut s" "m_output (reply x s) = m_output s"
  by (simp_all add: reply_def)

lemma set_item_fields [simp]:
  "m_aof_state (set_item k v f s) = m_aof_state s" "aof (set_item k v f s) = aof s"
  "has_conne (set_item k v f s) = has_conne s" "shut (set_item k v f s) = shut s"
  "m_output (set_item k v f s) = m_output s" "replies (set_item k v f s) = replies s"
  by (simp_all add: set_item_def set_shard_def split: option.splits)

lemma del_fields [simp]:
  "m_aof_state (snd (del k s)) = m_aof_state s" "aof (snd (del k s)) = aof s"
  "has_conne (snd (del k s)) = has_conne s" "shut (snd (del k s)) = shut s"
  "m_output (snd (del k s)) = m_output s" "replies (snd (del k s)) = replies s"
  by (simp_all add: del_def set_shard_def)

section \<open>Words of a command\<close>

lemma split_word:
  assumes "32 \<notin> set (w :: bytes)"
  shows "takeWhile (\<lambda>c. c \<noteq> 32) (w @ 32 # r) = w" "dropWhile (\<lambda>c. c \<noteq> 32) (w @ 32 # r) = 32 # r"
    "takeWhile (\<lambda>c. c \<noteq> 32) w = w" "dropWhile (\<lambda>c. c \<noteq> 32) w = []"
  using assms by (induction w) auto

lemma key_loop_last: "32 \<notin> set w \<Longrightarrow> key_loop b w = [b @ w]"
  by (subst key_loop.simps) (simp add: Let_def split_word)

lemma key_loop_more: "32 \<notin> set w \<Longrightarrow> key_loop b (w @ 32 # r) = (b @ w) # key_loop (b @ w @ [32]) r"
  by (subst key_loop.simps) (simp add: Let_def split_word)

lemma set_loop_last:
  "32 \<notin> set w \<Longrightarrow> set_loop w behind f = set_field w (w @ behind) f"
  by (subst set_loop.simps) (simp add: Let_def split_word)

lemma set_loop_more:
  "32 \<notin> set w \<Longrightarrow> set_loop (w @ 32 # r) behind f = set_loop r behind (set_field w (w @ 32 # r @ behind) f)"
  by (subst set_loop.simps) (simp add: Let_def split_word)

text \<open>Every further key of a \<^verbatim>\<open>get\<close> starts where the first one does.\<close>

lemma second_key_is_both: "32 \<notin> set k \<Longrightarrow> 32 \<notin> set l \<Longrightarrow> key_loop [] (k @ 32 # l) = [k, k @ 32 # l]"
  by (simp add: key_loop_more key_loop_last)

section \<open>Printed commands\<close>

datatype command = SetCmd bytes int bytes bytes | DelCmd bytes

definition set_line :: "bytes \<Rightarrow> int \<Rightarrow> bytes \<Rightarrow> nat \<Rightarrow> bytes" where
  "set_line key flag exptime n =
     ascii ''set'' @ 32 # key @ 32 # to_string_int flag @ 32 # exptime @ 32 # to_string_int (int n)"

definition delete_line :: "bytes \<Rightarrow> bytes" where "delete_line key = ascii ''delete'' @ 32 # key"

definition get_line :: "bytes \<Rightarrow> bytes" where "get_line key = ascii ''get'' @ 32 # key"

fun command_text :: "command \<Rightarrow> bytes" where
  "command_text (SetCmd key flag exptime v) = set_line key flag exptime (length v) @ [13, 10] @ v @ [13, 10]"
| "command_text (DelCmd key) = delete_line key @ [13, 10]"

definition word_ok :: "bytes \<Rightarrow> bool" where "word_ok w \<longleftrightarrow> 32 \<notin> set w \<and> 13 \<notin> set w"

fun command_ok :: "command \<Rightarrow> bool" where
  "command_ok (SetCmd key flag exptime v) \<longleftrightarrow>
     word_ok key \<and> word_ok exptime \<and> - (2 ^ 31) \<le> flag \<and> flag < 2 ^ 31 \<and> v \<noteq> [] \<and> length v + 2 < 2 ^ 31"
| "command_ok (DelCmd key) \<longleftrightarrow> word_ok key"

text \<open>What a command does to the table.\<close>

fun effect :: "command \<Rightarrow> (bytes \<Rightarrow> item option) \<Rightarrow> bytes \<Rightarrow> item option" where
  "effect (SetCmd key flag exptime v) t = t(key \<mapsto> stored_value (v @ [13, 10]) flag (t key))"
| "effect (DelCmd key) t = t(key := None)"

text \<open>Whether the session writes the command to the append-only file.\<close>

fun written :: "command \<Rightarrow> (bytes \<Rightarrow> item option) \<Rightarrow> bool" where
  "written (SetCmd key flag exptime v) t \<longleftrightarrow> True"
| "written (DelCmd key) t \<longleftrightarrow> t key \<noteq> None"

lemma number_plain: "32 \<notin> set (to_string_int i)" "13 \<notin> set (to_string_int i)"
proof -
  have "\<not> is_digit 32" "\<not> is_digit 13" by (simp_all add: is_digit_def)
  with to_string_digits show "32 \<notin> set (to_string_int i)" "13 \<notin> set (to_string_int i)"
    by (auto simp: to_string_int_def)
qed

lemma set_loop_fields:
  assumes "word_ok key" and "word_ok exptime" and "- (2 ^ 31) \<le> flag" and "flag < 2 ^ 31" and "n < 2 ^ 31"
  shows "set_loop (key @ 32 # to_string_int flag @ 32 # exptime @ 32 # to_string_int (int n)) (13 # b)
      \<lparr>f_key = [], f_flag = 0, f_bytes = 0, f_state = recvCmd\<rparr>
    = \<lparr>f_key = key, f_flag = flag, f_bytes = int n, f_state = recvBytes\<rparr>"
proof -
  have plain: "32 \<notin> set key" "32 \<notin> set exptime" using assms(1,2) by (simp_all add: word_ok_def)
  have 1: "atoi (to_string_int flag @ 32 # x) = flag" for x
    by (rule atoi_to_string_int) (use assms(3,4) in \<open>simp_all add: is_digit_def\<close>)
  have 2: "atoi (to_string_int (int n) @ 13 # x) = int n" for x
    by (rule atoi_to_string_int) (use assms(5) in \<open>simp_all add: is_digit_def\<close>)
  show ?thesis
    by (simp add: set_loop_more set_loop_last plain number_plain set_field_def 1 2)
qed

lemma behind_line:
  assumes "wf_buffer buf" and "contents buf = line @ [13, 10] @ rest"
  shows "\<exists>b. drop (m_rpos buf + length line) (m_queue buf) = 13 # b"
proof -
  obtain more where "drop (m_rpos buf) (m_queue buf) = (line @ [13, 10] @ rest) @ more"
    using pointer_contents [OF assms(1)] unfolding assms(2) by blast
  then have "drop (length line) (drop (m_rpos buf) (m_queue buf)) = 13 # 10 # rest @ more" by simp
  then show ?thesis by (simp add: add.commute)
qed

text \<open>The session reads a printed \<^verbatim>\<open>set\<close>.\<close>

lemma onMessage_set:
  assumes "wf_buffer buf" and "contents buf = set_line key flag exptime n @ [13, 10] @ rest"
    and "word_ok key" and "word_ok exptime" and "- (2 ^ 31) \<le> flag" and "flag < 2 ^ 31"
    and "0 < n" and "n < 2 ^ 31"
  shows "onMessage tail (buf, s) = do {
     buf \<leftarrow> updatePosUntil (length (set_line key flag exptime n) + 2) buf;
     doUpdate tail (set_line key flag exptime n @ [13, 10]) key flag (int n) (buf, s\<lparr>m_state := recvBytes\<rparr>)
   }"
proof -
  let ?l = "set_line key flag exptime n"
  let ?fields = "key @ 32 # to_string_int flag @ 32 # exptime @ 32 # to_string_int (int n)"
  have plain: "13 \<notin> set ?l"
    using assms(3,4) number_plain by (auto simp: set_line_def word_ok_def ascii_def)
  have l: "?l = ascii ''set'' @ 32 # ?fields" by (simp add: set_line_def)
  have "32 \<notin> set (ascii ''set'')" by (simp add: ascii_def)
  then have cmd: "takeWhile (\<lambda>c. c \<noteq> 32) ?l = ascii ''set''" "dropWhile (\<lambda>c. c \<noteq> 32) ?l = 32 # ?fields"
    unfolding l by (rule split_word)+
  obtain b where b: "drop (m_rpos buf + length ?l) (m_queue buf) = 13 # b"
    using behind_line [OF assms(1,2)] by blast
  note line = first_line(1,2) [OF assms(1,2) plain]
  have "32 \<in> set ?l" "ascii ''set'' \<noteq> ascii ''get''" "ascii ''set'' \<noteq> ascii ''delete''"
    by (simp_all add: ascii_def set_line_def)
  then show ?thesis
    using assms(7) by (auto simp add: onMessage_def Let_def line cmd b set_loop_fields [OF assms(3-6,8)])
qed

lemma onMessage_delete:
  assumes "wf_buffer buf" and "contents buf = delete_line key @ [13, 10] @ rest" and "word_ok key"
  shows "onMessage tail (buf, s) = do {
     s \<leftarrow> doDelete tail [key] (delete_line key @ [13, 10]) (s\<lparr>m_state := recvKey\<rparr>);
     buf \<leftarrow> updatePosUntil (length (delete_line key) + 2) buf;
     Some (buf, s)
   }"
proof -
  let ?l = "delete_line key"
  have plain: "13 \<notin> set ?l" using assms(3) by (auto simp: delete_line_def word_ok_def ascii_def)
  have "32 \<notin> set (ascii ''delete'')" by (simp add: ascii_def)
  then have cmd: "takeWhile (\<lambda>c. c \<noteq> 32) ?l = ascii ''delete''" "dropWhile (\<lambda>c. c \<noteq> 32) ?l = 32 # key"
    unfolding delete_line_def by (rule split_word)+
  have keys: "key_loop [] key = [key]" using assms(3) by (simp add: key_loop_last word_ok_def)
  note line = first_line(1,2) [OF assms(1,2) plain]
  have "32 \<in> set ?l" "hd (ascii ''delete'') \<noteq> 103" by (simp_all add: ascii_def delete_line_def)
  then show ?thesis by (auto simp add: onMessage_def Let_def line cmd keys)
qed

lemma onMessage_get:
  assumes "wf_buffer buf" and "contents buf = get_line key @ [13, 10] @ rest" and "word_ok key"
  shows "onMessage tail (buf, s) = do {
     buf \<leftarrow> updatePosUntil (length (get_line key) + 2) buf;
     Some (buf, reply kEND (find_one key (s\<lparr>m_state := recvKey\<rparr>)))
   }"
proof -
  let ?l = "get_line key"
  have plain: "13 \<notin> set ?l" using assms(3) by (auto simp: get_line_def word_ok_def ascii_def)
  have "32 \<notin> set (ascii ''get'')" by (simp add: ascii_def)
  then have cmd: "takeWhile (\<lambda>c. c \<noteq> 32) ?l = ascii ''get''" "dropWhile (\<lambda>c. c \<noteq> 32) ?l = 32 # key"
    unfolding get_line_def by (rule split_word)+
  have keys: "key_loop [] key = [key]" using assms(3) by (simp add: key_loop_last word_ok_def)
  note line = first_line(1,2) [OF assms(1,2) plain]
  have "32 \<in> set ?l" "hd (ascii ''get'') = 103" by (simp_all add: ascii_def get_line_def)
  then show ?thesis by (auto simp add: onMessage_def Let_def line cmd keys doFind_def assert_that_def)
qed

section \<open>One command\<close>

lemma appendAof_cases:
  "m_aof_state s = Init \<Longrightarrow> appendAof tail content s = Some s"
  "m_aof_state s = Sync \<Longrightarrow> appendAof tail content s = Some s"
  "m_aof_state s = Append \<Longrightarrow> length (aof s) + 2 * length content \<le> aof_file_length div 2 \<Longrightarrow>
     appendAof tail content s = Some (s\<lparr>aof := aof s @ content, m_aof_state := Sync\<rparr>)"
  by (simp_all add: appendAof_def assert_that_def aof_file_length_def mult.commute)

lemma updatePos_moves:
  "len < readableBytes b \<Longrightarrow> updatePos len b = Some (b\<lparr>m_rpos := m_rpos b + len\<rparr>)"
  by (simp add: updatePos_def assert_that_def)

text \<open>
  A printed command is taken from the buffer, has its effect on the table, and goes to the
  append-only file when it is one that is written.
\<close>

lemma command_step:
  assumes "wf_buffer buf" and "contents buf = command_text c @ rest" and "command_ok c"
  shows "\<exists>buf' s1. onMessage tail (buf, s) =
      map_option (Pair buf') (if written c (table s) then appendAof tail (command_text c) s1 else Some s1) \<and>
    wf_buffer buf' \<and> contents buf' = rest \<and>
    (rest \<noteq> [] \<longrightarrow> m_rpos buf' = m_rpos buf + length (command_text c)) \<and>
    table s1 = effect c (table s) \<and> aof s1 = aof s \<and> m_aof_state s1 = m_aof_state s \<and>
    has_conne s1 = has_conne s \<and> shut s1 = shut s \<and> m_output s1 = m_output s \<and>
    (has_conne s \<and> \<not> shut s \<and> (\<exists>key flag exptime v. c = SetCmd key flag exptime v) \<longrightarrow>
       replies s1 = replies s @ kSTORED)"
proof (cases c)
  case (SetCmd key flag exptime v)
  let ?l = "set_line key flag exptime (length v)"
  have ok: "word_ok key" "word_ok exptime" "- (2 ^ 31) \<le> flag" "flag < 2 ^ 31" "0 < length v" "length v + 2 < 2 ^ 31"
    using assms(3) by (simp_all add: SetCmd)
  have c: "contents buf = ?l @ [13, 10] @ (v @ [13, 10] @ rest)" using assms(2) by (simp add: SetCmd)
  have plain: "13 \<notin> set ?l"
    using ok(1,2) number_plain by (auto simp: set_line_def word_ok_def ascii_def)
  obtain buf1 where buf1: "updatePosUntil (length ?l + 2) buf = Some buf1" "wf_buffer buf1"
    "contents buf1 = v @ [13, 10] @ rest"
    using first_line(3) [OF assms(1) c plain] by blast
  have pos1: "m_rpos buf1 = m_rpos buf + length ?l + 2"
    using first_line_moves [OF assms(1) c] buf1(1) by auto
  have readable: "readableBytes buf1 = length v + 2 + length rest"
    using length_contents [OF buf1(2)] unfolding buf1(3) by simp
  obtain buf2 where buf2: "updatePos (length v + 2) buf1 = Some buf2" "wf_buffer buf2" "contents buf2 = rest"
    using updatePos_spec [OF buf1(2), of "length v + 2"] readable by (auto simp: buf1(3))
  have pos2: "m_rpos buf2 = m_rpos buf + length (command_text c)" if "rest \<noteq> []"
    using updatePos_moves [of "length v + 2" buf1] buf2(1) readable that pos1 by (auto simp: SetCmd)
  let ?s1 = "reply kSTORED (set_item key (v @ [13, 10]) flag (s\<lparr>m_state := recvBytes\<rparr>))"
  have "table ?s1 = table (set_item key (v @ [13, 10]) flag (s\<lparr>m_state := recvBytes\<rparr>))"
    by (rule table_only_maps) simp
  then have t: "table ?s1 = effect c (table s)"
    by (simp add: table_set_item SetCmd table_only_maps [of "s\<lparr>m_state := recvBytes\<rparr>" s])
  have n: "nat (int (length v) + 2) = length v + 2" by simp
  have "onMessage tail (buf, s) = map_option (Pair buf2) (appendAof tail (command_text c) ?s1)"
    using onMessage_set [OF assms(1) c ok(1-4), of tail s] ok(5,6) buf1(1,3) buf2(1)
    by (simp add: doUpdate_def Let_def n SetCmd assert_that_def map_conv_bind_option comp_def)
  then show ?thesis
    using buf2(2,3) pos2 t by (intro exI [of _ buf2] exI [of _ ?s1]) (simp add: SetCmd reply_def)
next
  case (DelCmd key)
  let ?l = "delete_line key"
  have ok: "word_ok key" using assms(3) by (simp add: DelCmd)
  have c: "contents buf = ?l @ [13, 10] @ rest" using assms(2) by (simp add: DelCmd)
  have plain: "13 \<notin> set ?l" using ok by (auto simp: delete_line_def word_ok_def ascii_def)
  obtain buf1 where buf1: "updatePosUntil (length ?l + 2) buf = Some buf1" "wf_buffer buf1" "contents buf1 = rest"
    using first_line(3) [OF assms(1) c plain] by blast
  have pos: "m_rpos buf1 = m_rpos buf + length (command_text c)" if "rest \<noteq> []"
    using first_line_moves [OF assms(1) c that] buf1(1) by (auto simp: DelCmd)
  let ?s = "s\<lparr>m_state := recvKey\<rparr>"
  have same: "table ?s = table s" by (rule table_only_maps) simp
  let ?s1 = "reply (if table s key \<noteq> None then kDELETED else kNOT_FOUND) (snd (del key ?s))"
  have "table ?s1 = table (snd (del key ?s))" by (rule table_only_maps) simp
  then have t: "table ?s1 = effect c (table s)" by (simp add: table_del DelCmd same)
  have "doDelete tail [key] (?l @ [13, 10]) ?s =
      (if table s key \<noteq> None then appendAof tail (command_text c) ?s1 else Some ?s1)"
    using del_found [of key ?s] by (cases "del key ?s") (simp add: doDelete_def DelCmd same)
  then have "onMessage tail (buf, s) =
      map_option (Pair buf1) (if written c (table s) then appendAof tail (command_text c) ?s1 else Some ?s1)"
    using onMessage_delete [OF assms(1) c ok, of tail s] buf1(1)
    by (simp add: DelCmd map_conv_bind_option comp_def)
  then show ?thesis
    using buf1(2,3) pos t by (intro exI [of _ buf1] exI [of _ ?s1]) (simp add: DelCmd)
qed

section \<open>Reading the append-only file\<close>






section \<open>Histories of a server\<close>


lemma find_one_fields [simp]:
  "m_maps (find_one key s) = m_maps s" "m_aof_state (find_one key s) = m_aof_state s"
  "aof (find_one key s) = aof s"
  by (simp_all add: find_one_def reply_output_def split: option.splits)




section \<open>Properties\<close>

text \<open>
  What was set is found: a session that takes a printed \<^verbatim>\<open>set\<close> of a new key and then
  a \<^verbatim>\<open>get\<close> of it answers that it is stored, and then the flag, the length and the bytes of the
  value; both commands are taken from the buffer, and the first one is at the end of the append-only file.
\<close>

lemma set_then_get:
  assumes "wf_buffer buf" and "command_ok (SetCmd key flag exptime v)"
    and "contents buf = command_text (SetCmd key flag exptime v) @ get_line key @ [13, 10] @ rest"
    and "has_conne s" and "\<not> shut s" and "m_output s = []" and "get key s = None"
    and "m_aof_state s = Append"
    and "length (aof s) + 2 * length (command_text (SetCmd key flag exptime v)) \<le> aof_file_length div 2"
  shows "\<exists>buf1 s1 buf2 s2. onMessage tail (buf, s) = Some (buf1, s1) \<and> onMessage tail (buf1, s1) = Some (buf2, s2) \<and>
    contents buf2 = rest \<and> aof s2 = aof s @ command_text (SetCmd key flag exptime v) \<and>
    replies s2 = replies s @ kSTORED @ ascii ''VALUE '' @ key @ ascii '' '' @ to_string_int flag @ ascii '' '' @
      to_string (length v) @ [13, 10] @ v @ [13, 10] @ kEND"
proof -
  let ?c = "SetCmd key flag exptime v"
  let ?get = "get_line key @ [13, 10] @ rest"
  obtain buf1 s0 where 1: "onMessage tail (buf, s) = map_option (Pair buf1) (appendAof tail (command_text ?c) s0)"
    "wf_buffer buf1" "contents buf1 = ?get" "table s0 = effect ?c (table s)" "aof s0 = aof s"
    "m_aof_state s0 = Append" "has_conne s0" "\<not> shut s0" "m_output s0 = []" "replies s0 = replies s @ kSTORED"
    using command_step [OF assms(1,3,2), of tail s] assms(4-8) by auto
  let ?s1 = "s0\<lparr>aof := aof s0 @ command_text ?c, m_aof_state := Sync\<rparr>"
  have step1: "onMessage tail (buf, s) = Some (buf1, ?s1)"
    using 1(1) appendAof_cases(3) [OF 1(6), of "command_text ?c" tail] assms(9) 1(5) by simp
  have word: "word_ok key" using assms(2) by simp
  have plain: "13 \<notin> set (get_line key)" using word by (auto simp: get_line_def word_ok_def ascii_def)
  obtain buf2 where buf2: "updatePosUntil (length (get_line key) + 2) buf1 = Some buf2" "contents buf2 = rest"
    using first_line(3) [OF 1(2,3) plain] by blast
  have "table s0 key = Some \<lparr>m_data = v @ [13, 10], m_flag = flag\<rparr>"
    using 1(4) assms(7) by (simp add: table_def stored_value_def)
  then have found: "get key (?s1\<lparr>m_state := recvKey\<rparr>) = Some \<lparr>m_data = v @ [13, 10], m_flag = flag\<rparr>"
    by (simp add: table_def get_def)
  have "length v < 2 ^ 31" using assms(2) by simp
  then have len: "unat (value_len \<lparr>m_data = v @ [13, 10], m_flag = flag\<rparr> - 2) = length v"
    by (simp add: value_len_def unat_of_nat take_bit_nat_eq_self)
  let ?s2 = "reply kEND (find_one key (?s1\<lparr>m_state := recvKey\<rparr>))"
  have "onMessage tail (buf1, ?s1) = Some (buf2, ?s2)"
    using onMessage_get [OF 1(2,3) word, of tail ?s1] buf2(1) by simp
  moreover have "replies ?s2 = replies s @ kSTORED @ ascii ''VALUE '' @ key @ ascii '' '' @ to_string_int flag @
      ascii '' '' @ to_string (length v) @ [13, 10] @ v @ [13, 10] @ kEND"
    unfolding find_one_def found using len 1(7-10) by (simp add: reply_output_def reply_def)
  moreover have "aof ?s2 = aof s @ command_text ?c" using 1(5) by simp
  ultimately show ?thesis using step1 buf2(2) by blast
qed


definition demo_set :: command where "demo_set = SetCmd [107] 7 [48] [118]"


lemma demo_set_text: "command_text demo_set = ascii ''set k 7 0 1'' @ [13, 10, 118, 13, 10]"
  by code_simp




text \<open>
  A value that has not arrived whole ends the process: the session moves the read position
  behind the value without a look at how much there is.
\<close>

lemma missing_value_aborts:
  assumes "wf_buffer buf" and "contents buf = set_line key flag exptime n @ [13, 10] @ rest"
    and "word_ok key" and "word_ok exptime" and "- (2 ^ 31) \<le> flag" and "flag < 2 ^ 31"
    and "0 < n" and "n < 2 ^ 31" and "length rest < n + 2"
  shows "onMessage tail (buf, s) = None"
proof -
  let ?l = "set_line key flag exptime n"
  have plain: "13 \<notin> set ?l"
    using assms(3,4) number_plain by (auto simp: set_line_def word_ok_def ascii_def)
  obtain buf1 where buf1: "updatePosUntil (length ?l + 2) buf = Some buf1" "wf_buffer buf1" "contents buf1 = rest"
    using first_line(3) [OF assms(1,2) plain] by blast
  have "readableBytes buf1 < n + 2" using length_contents [OF buf1(2)] assms(9) unfolding buf1(3) by simp
  moreover have "nat (int n + 2) = n + 2" by simp
  ultimately have "updatePos (nat (int n + 2)) buf1 = None" using updatePos_abort [of buf1 "n + 2"] by (simp only:)
  then show ?thesis
    using onMessage_set [OF assms(1-8), of tail s] buf1(1) by (simp add: doUpdate_def Let_def bind_eq_None_conv)
qed

text \<open>
  A command within a second after another one is carried out and acknowledged, but does not get into
  the file: a restart forgets it.
\<close>

lemma second_command_not_written:
  assumes "wf_buffer buf" and "contents buf = command_text c @ rest" and "command_ok c" and "m_aof_state s = Sync"
  shows "\<exists>buf' s'. onMessage tail (buf, s) = Some (buf', s') \<and> aof s' = aof s \<and> table s' = effect c (table s)"
proof -
  obtain buf' s1 where 1: "onMessage tail (buf, s) =
      map_option (Pair buf') (if written c (table s) then appendAof tail (command_text c) s1 else Some s1)"
    "table s1 = effect c (table s)" "aof s1 = aof s" "m_aof_state s1 = m_aof_state s"
    using command_step [OF assms(1-3), of tail s] by blast
  then show ?thesis using assms(4) appendAof_cases(2) [of s1] by auto
qed

text \<open>
  The record of an item in the rewritten file, even with zero bytes behind its strings, has the flag
  where the time-out is and zero for the flag.
\<close>

lemma rewritten_flag_moves:
  assumes "0 \<notin> set key" and "0 \<notin> set v" and "length v < 2 ^ 31" and "fst (tail key) = [0]" and "snd (tail key) = [0]"
  shows "rewritten_record tail (key, \<lparr>m_data = v @ [13, 10], m_flag = flag\<rparr>) =
    command_text (SetCmd key 0 (to_string_int flag) v)"
proof -
  have c: "c_string s [0] = s" if "0 \<notin> set s" for s using that by (induction s) (auto simp: c_string_def)
  have len: "unat (value_len \<lparr>m_data = v @ [13, 10], m_flag = flag\<rparr> - 2) = length v"
    using assms(3) by (simp add: value_len_def unat_of_nat take_bit_nat_eq_self)
  have "c_string (v @ [13, 10]) [0] = v @ [13, 10]" by (rule c) (use assms(2) in simp)
  moreover have "c_string key [0] = key" by (rule c) (rule assms(1))
  ultimately show ?thesis
    by (simp add: rewritten_record_def assms(4,5) len set_line_def ascii_def to_string_int_def to_string.simps)
qed

end
