(* ===== verification/HttpRequest.thy ===== *)
theory HttpRequest
  imports Buffer Text "HOL-Library.AList"
begin

text \<open>
  \<^verbatim>\<open>example/http/httprequest.h/.cpp\<close>: the parser of an HTTP request. It reads lines from the
  input buffer of a connection; pointers into that buffer are the bytes between them. The header fields
  are only looked up by name, so the map is an association list.
\<close>

section \<open>State\<close>

definition str :: "string \<Rightarrow> bytes" where "str s = map of_char s"

datatype http_state = RequestLine | Headers | Body | Finish
datatype http_method = INVALID | GET | POST | HEAD | PUT | DELETE
datatype http_version = UNKNOW | HTTP10 | HTTP11

record http_request =
  m_input_buffer :: buffer
  m_output_buffer :: buffer
  m_body :: buffer
  m_version :: http_version
  m_method :: http_method
  m_isWorking :: bool
  m_state :: http_state
  m_path :: bytes
  m_arg :: bytes
  m_header :: "(bytes \<times> bytes) list"

definition HttpRequest :: "buffer \<Rightarrow> http_request" where
  "HttpRequest input = \<lparr>m_input_buffer = input, m_output_buffer = buffer_new kInitialSize,
     m_body = buffer_new kInitialSize, m_version = UNKNOW, m_method = INVALID, m_isWorking = False, m_state = RequestLine, m_path = [], m_arg = [], m_header = []\<rparr>"

definition kWWW_ROOT :: bytes where "kWWW_ROOT = str ''../www''"

section \<open>Parsing\<close>

text \<open>\<^verbatim>\<open>std::find(begin, end, c)\<close>: the bytes before the first \<open>c\<close> and those from it on
  (none when it is not there, the position is then \<^verbatim>\<open>end\<close>).\<close>

definition find_split :: "byte \<Rightarrow> bytes \<Rightarrow> bytes \<times> bytes" where
  "find_split c s = (takeWhile (\<lambda>x. x \<noteq> c) s, dropWhile (\<lambda>x. x \<noteq> c) s)"

definition method_name :: "http_method \<Rightarrow> bytes" where
  "method_name m = (case m of GET \<Rightarrow> str ''GET'' | POST \<Rightarrow> str ''POST'' | HEAD \<Rightarrow> str ''HEAD''
     | PUT \<Rightarrow> str ''PUT'' | DELETE \<Rightarrow> str ''DELETE'' | INVALID \<Rightarrow> str ''UNKNOW'')"

definition setMethod :: "bytes \<Rightarrow> http_request \<Rightarrow> bool \<times> http_request" where
  "setMethod m r =
     (let r = (if m = str ''GET'' then r\<lparr>m_method := GET\<rparr> else r);
          r = (if m = str ''POST'' then r\<lparr>m_method := POST\<rparr> else r);
          r = (if m = str ''HEAD'' then r\<lparr>m_method := HEAD\<rparr> else r);
          r = (if m = str ''PUT'' then r\<lparr>m_method := PUT\<rparr> else r);
          r = (if m = str ''DELETE'' then r\<lparr>m_method := DELETE\<rparr> else r)
      in (m_method r \<noteq> INVALID, r))"

definition setPath :: "bytes \<Rightarrow> http_request \<Rightarrow> http_request" where
  "setPath subpath r =
     (let subpath = (if subpath = str ''/'' then str ''/index.html'' else subpath)
      in r\<lparr>m_path := kWWW_ROOT @ subpath\<rparr>)"

definition setVersion :: "http_version \<Rightarrow> http_request \<Rightarrow> http_request" where
  "setVersion v r = r\<lparr>m_version := v\<rparr>"

definition setArg :: "bytes \<Rightarrow> http_request \<Rightarrow> http_request" where
  "setArg a r = r\<lparr>m_arg := a\<rparr>"

definition parseRequestLine :: "bytes \<Rightarrow> http_request \<Rightarrow> bool \<times> http_request" where
  "parseRequestLine line r =
     (let (word, rest) = find_split 32 line in
      if rest = [] then (False, r)
      else let (ok, r) = setMethod word r in
      if \<not> ok then (False, r)
      else let (target, rest) = find_split 32 (tl rest) in
      if rest = [] then (False, r)
      else
        let (before, question) = find_split 63 target;
            r = (if question \<noteq> [] then setArg question (setPath before r) else setPath target r);
            version = tl rest
        in
          if length version = 8 \<and> take 7 version = str ''HTTP/1.'' then
            if last version = 49 then (True, setVersion HTTP11 r)
            else if last version = 48 then (True, setVersion HTTP10 r)
            else (False, r)
          else (False, r))"

text \<open>The spaces before and behind the value are cut off.\<close>

definition trim :: "bytes \<Rightarrow> bytes" where
  "trim v = rev (dropWhile (\<lambda>c. c = 32) (rev (dropWhile (\<lambda>c. c = 32) v)))"

definition addHeader :: "bytes \<Rightarrow> bytes \<Rightarrow> http_request \<Rightarrow> http_request" where
  "addHeader field val r = r\<lparr>m_header := AList.update field (trim val) (m_header r)\<rparr>"

text \<open>
  \<^verbatim>\<open>m_body.append(m_input_buffer->curRead(), bodyLength)\<close>: a negative length becomes a huge
  one, which no vector can hold; a length beyond the vector reads outside of it.
\<close>

definition copy_body :: "int \<Rightarrow> http_request \<Rightarrow> http_request option" where
  "copy_body bodyLength r = do {
     assert_that (0 \<le> bodyLength);
     let input = m_input_buffer r;
     assert_that (m_rpos input + nat bodyLength \<le> length (m_queue input));
     b \<leftarrow> buf_append (span (m_rpos input) (m_rpos input + nat bodyLength) (m_queue input)) (m_body r);
     Some (r\<lparr>m_body := b\<rparr>)
   }"

text \<open>One round of the loop of \<^verbatim>\<open>parseRequest\<close>: whether it goes on, and \<^verbatim>\<open>ret\<close>.\<close>

definition parse_round :: "bool \<Rightarrow> http_request \<Rightarrow> (bool \<times> bool \<times> http_request) option" where
  "parse_round ret r =
     (case m_state r of
        RequestLine \<Rightarrow>
          (case findCRLF (m_input_buffer r) of
             None \<Rightarrow> Some (False, False, r)
           | Some crlf \<Rightarrow>
               let (ret, r) = parseRequestLine (take crlf (contents (m_input_buffer r))) r in
               if ret then do {
                 b \<leftarrow> updatePosUntil (crlf + 2) (m_input_buffer r);
                 Some (True, ret, r\<lparr>m_input_buffer := b, m_state := Headers\<rparr>)
               } else Some (False, ret, r))
      | Headers \<Rightarrow>
          (case findCRLF (m_input_buffer r) of
             None \<Rightarrow> Some (False, ret, r)
           | Some crlf \<Rightarrow>
               let (field, rest) = find_split 58 (take crlf (contents (m_input_buffer r)));
                   r = (if rest \<noteq> [] then addHeader field (tl rest) r else r\<lparr>m_state := Body\<rparr>)
               in do {
                 b \<leftarrow> updatePosUntil (crlf + 2) (m_input_buffer r);
                 Some (True, ret, r\<lparr>m_input_buffer := b\<rparr>)
               })
      | Body \<Rightarrow> do {
          let bodyLength = (case map_of (m_header r) (str ''Content-Length'') of None \<Rightarrow> 0 | Some v \<Rightarrow> atoi v);
          r \<leftarrow> copy_body bodyLength r;
          Some (False, ret, r)
        }
      | Finish \<Rightarrow> Some (True, ret, r))"

partial_function (option) parse_loop :: "bool \<Rightarrow> http_request \<Rightarrow> (bool \<times> http_request) option" where
  "parse_loop ret r = do {
     x \<leftarrow> parse_round ret r;
     (case x of (go, ret, r) \<Rightarrow> if go then parse_loop ret r else Some (ret, r))
   }"

definition parseRequest :: "http_request \<Rightarrow> (bool \<times> http_request) option" where
  "parseRequest r = parse_loop True r"

section \<open>Queries\<close>

definition appendOutBuffer :: "buffer \<Rightarrow> http_request \<Rightarrow> http_request option" where
  "appendOutBuffer buf r = do {
     b \<leftarrow> buf_append (contents buf) (m_output_buffer r);
     Some (r\<lparr>m_output_buffer := b\<rparr>)
   }"

definition isFinnish :: "http_request \<Rightarrow> bool" where "isFinnish r \<longleftrightarrow> m_state r = Finish"

definition getHeader :: "bytes \<Rightarrow> http_request \<Rightarrow> bytes" where
  "getHeader field r = (case map_of (m_header r) field of None \<Rightarrow> [] | Some v \<Rightarrow> v)"

definition getVersion :: "http_version \<Rightarrow> bytes" where
  "getVersion v = (case v of HTTP10 \<Rightarrow> str ''HTTP/1.0'' | HTTP11 \<Rightarrow> str ''HTTP/1.1'' | UNKNOW \<Rightarrow> str ''UNKNOW'')"

definition getMethod :: "http_request \<Rightarrow> bytes" where "getMethod r = method_name (m_method r)"

definition isKeepAlive :: "http_request \<Rightarrow> bool" where
  "isKeepAlive r =
     (let f = getHeader (str ''Connection'') r
      in f = str ''Keep-Alive'' \<or> (m_version r = HTTP11 \<and> f \<noteq> str ''close''))"

definition getTimeout :: "http_request \<Rightarrow> int" where
  "getTimeout r =
     (if \<not> isKeepAlive r then 0
      else let timeout = getHeader (str ''Keep-Alive'') r in if timeout = [] then -1 else atoi timeout)"

definition resetParse :: "http_request \<Rightarrow> http_request" where
  "resetParse r = r\<lparr>m_state := RequestLine, m_method := INVALID, m_version := UNKNOW, m_path := [],
     m_arg := [], m_header := []\<rparr>"

definition isCGI :: "http_request \<Rightarrow> bool" where
  "isCGI r \<longleftrightarrow> m_method r = POST \<or> m_method r = GET \<and> m_arg r \<noteq> []"

section \<open>Lines of the buffer\<close>

abbreviation crlf :: bytes where "crlf \<equiv> [13, 10]"

lemma find_split_found: "c \<notin> set l \<Longrightarrow> find_split c (l @ c # rest) = (l, c # rest)"
  by (induction l) (auto simp: find_split_def)

lemma find_split_none: "c \<notin> set l \<Longrightarrow> find_split c l = (l, [])"
  by (induction l) (auto simp: find_split_def)

section \<open>A printed request\<close>

definition header_line :: "bytes \<times> bytes \<Rightarrow> bytes" where
  "header_line h = fst h @ [58, 32] @ snd h @ crlf"

definition request_line :: "http_method \<Rightarrow> bytes \<Rightarrow> http_version \<Rightarrow> bytes" where
  "request_line m target v = method_name m @ [32] @ target @ [32] @ getVersion v"

definition request_text :: "http_method \<Rightarrow> bytes \<Rightarrow> http_version \<Rightarrow> (bytes \<times> bytes) list \<Rightarrow> bytes" where
  "request_text m target v hs = request_line m target v @ crlf @ concat (map header_line hs) @ crlf"

text \<open>Names without a colon, values without spaces at their ends, neither with a carriage return.\<close>

definition header_ok :: "bytes \<times> bytes \<Rightarrow> bool" where
  "header_ok h \<longleftrightarrow> 13 \<notin> set (fst h) \<and> 58 \<notin> set (fst h) \<and> 13 \<notin> set (snd h) \<and> trim (snd h) = snd h"

definition target_ok :: "bytes \<Rightarrow> bool" where
  "target_ok t \<longleftrightarrow> 13 \<notin> set t \<and> 32 \<notin> set t"

definition content_length :: "(bytes \<times> bytes) list \<Rightarrow> int" where
  "content_length hs = (case map_of hs (str ''Content-Length'') of None \<Rightarrow> 0 | Some v \<Rightarrow> atoi v)"

definition headers_of :: "(bytes \<times> bytes) list \<Rightarrow> (bytes \<times> bytes) list" where
  "headers_of hs = fold (\<lambda>(f, v). AList.update f v) hs []"

text \<open>The path and the argument in a target; the argument keeps its question mark.\<close>

definition target_path :: "bytes \<Rightarrow> bytes" where
  "target_path t =
     (let p = takeWhile (\<lambda>x. x \<noteq> 63) t
      in kWWW_ROOT @ (if p = str ''/'' then str ''/index.html'' else p))"

definition target_arg :: "bytes \<Rightarrow> bytes" where
  "target_arg t = dropWhile (\<lambda>x. x \<noteq> 63) t"

lemma trim_space: "trim (32 # v) = trim v"
  by (simp add: trim_def)

lemmas str_eval = str_def of_char_def

lemma method_name_plain: "32 \<notin> set (method_name m)" "13 \<notin> set (method_name m)"
  by (cases m; simp add: method_name_def str_def)+

lemma setMethod_name:
  "m \<noteq> INVALID \<Longrightarrow> m_method r = INVALID \<Longrightarrow> setMethod (method_name m) r = (True, r\<lparr>m_method := m\<rparr>)"
  by (cases m) (simp_all add: setMethod_def method_name_def str_def Let_def)

lemma parseRequestLine_print:
  assumes "m \<noteq> INVALID" and "v \<noteq> UNKNOW" and "target_ok target" and "m_method r = INVALID"
    and "m_arg r = []"
  shows "parseRequestLine (request_line m target v) r =
    (True, r\<lparr>m_method := m, m_path := target_path target, m_arg := target_arg target, m_version := v\<rparr>)"
proof -
  have 1: "find_split 32 (request_line m target v) = (method_name m, 32 # target @ 32 # getVersion v)"
    using find_split_found [OF method_name_plain(1)] by (simp add: request_line_def)
  have 2: "find_split 32 (target @ 32 # getVersion v) = (target, 32 # getVersion v)"
    using find_split_found [of 32 target "getVersion v"] assms(3) by (simp add: target_ok_def)
  have 3: "take 7 (getVersion v) = str ''HTTP/1.'' \<and> length (getVersion v) = 8 \<and>
      last (getVersion v) = (if v = HTTP11 then 49 else 48)"
    using assms(2) by (cases v) (simp_all add: getVersion_def str_def)
  let ?r = "\<lambda>r. if dropWhile (\<lambda>x. x \<noteq> 63) target \<noteq> [] then setArg (target_arg target)
      (setPath (takeWhile (\<lambda>x. x \<noteq> 63) target) r) else setPath target r"
  have "parseRequestLine (request_line m target v) r = (True, (?r (r\<lparr>m_method := m\<rparr>))
      \<lparr>m_version := (if v = HTTP11 then HTTP11 else HTTP10)\<rparr>)"
    using 3 by (simp add: parseRequestLine_def setVersion_def 1 2 setMethod_name [OF assms(1,4)] Let_def
        find_split_def [of 63] target_arg_def)
  also have "(if v = HTTP11 then HTTP11 else HTTP10) = v" using assms(2) by (cases v) simp_all
  also have "?r (r\<lparr>m_method := m\<rparr>) = r\<lparr>m_method := m, m_path := target_path target, m_arg := target_arg target\<rparr>"
  proof (cases "dropWhile (\<lambda>x. x \<noteq> 63) target = []")
    case none: True
    then have all: "takeWhile (\<lambda>x. x \<noteq> 63) target = target"
      by (metis append_Nil2 takeWhile_dropWhile_id)
    have "target_path target = kWWW_ROOT @ (if target = str ''/'' then str ''/index.html'' else target)"
      by (simp only: target_path_def Let_def all)
    moreover have "target_arg target = []" unfolding target_arg_def by (rule none)
    moreover have "r\<lparr>m_method := m, m_path := p, m_arg := []\<rparr> = r\<lparr>m_method := m, m_path := p\<rparr>" for p
      using assms(5) by (cases r) simp
    ultimately show ?thesis unfolding none by (simp add: setPath_def Let_def)
  next
    case False
    then show ?thesis by (simp add: setPath_def setArg_def target_path_def target_arg_def Let_def)
  qed
  finally show ?thesis by simp
qed


section \<open>The loop\<close>

lemma parse_loop_go:
  "parse_round ret r = Some (True, ret', r') \<Longrightarrow> parse_loop ret r = parse_loop ret' r'"
  by (subst parse_loop.simps) simp

lemma parse_loop_stop:
  "parse_round ret r = Some (False, ret', r') \<Longrightarrow> parse_loop ret r = Some (ret', r')"
  by (subst parse_loop.simps) simp

text \<open>The header lines are taken one by one, the empty line ends them.\<close>

lemma parse_headers:
  assumes "list_all header_ok hs" and "m_state r = Headers" and "wf_buffer (m_input_buffer r)"
    and "contents (m_input_buffer r) = concat (map header_line hs) @ crlf @ rest"
  shows "\<exists>b. wf_buffer b \<and> contents b = rest \<and>
    parse_loop ret r = parse_loop ret (r\<lparr>m_header := fold (\<lambda>(f, v). AList.update f v) hs (m_header r),
      m_state := Body, m_input_buffer := b\<rparr>)"
  using assms
proof (induction hs arbitrary: r)
  case Nil
  then have c: "contents (m_input_buffer r) = [] @ crlf @ rest" by simp
  obtain b where b: "updatePosUntil 2 (m_input_buffer r) = Some b" "wf_buffer b" "contents b = rest"
    using first_line(3) [OF Nil.prems(3) c] by (auto simp: eval_nat_numeral)
  have "parse_round ret r = Some (True, ret, r\<lparr>m_state := Body, m_input_buffer := b\<rparr>)"
    using Nil.prems(2) first_line(1) [OF Nil.prems(3) c] b(1)
    by (simp add: parse_round_def find_split_def eval_nat_numeral)
  from parse_loop_go [OF this] show ?case using b by auto
next
  case (Cons h hs)
  obtain f v where h: "h = (f, v)" by fastforce
  have ok: "13 \<notin> set f" "58 \<notin> set f" "13 \<notin> set v" "trim v = v"
    using Cons.prems(1) by (auto simp: h header_ok_def)
  let ?l = "f @ 58 # 32 # v"
  let ?more = "concat (map header_line hs) @ crlf @ rest"
  have c: "contents (m_input_buffer r) = ?l @ crlf @ ?more"
    using Cons.prems(4) by (simp add: h header_line_def [of "(f, v)"])
  have plain: "13 \<notin> set ?l" using ok by auto
  obtain b where b: "updatePosUntil (length ?l + 2) (m_input_buffer r) = Some b" "wf_buffer b" "contents b = ?more"
    using first_line(3) [OF Cons.prems(3) c plain] by blast
  let ?r = "r\<lparr>m_header := AList.update f v (m_header r), m_input_buffer := b\<rparr>"
  have "find_split 58 ?l = (f, 58 # 32 # v)" using find_split_found [OF ok(2)] by simp
  then have "parse_round ret r = Some (True, ret, ?r)"
    using Cons.prems(2) first_line(1,2) [OF Cons.prems(3) c plain] b(1) ok(4)
    by (simp add: parse_round_def addHeader_def trim_space)
  then have go: "parse_loop ret r = parse_loop ret ?r" by (rule parse_loop_go)
  have "\<exists>b. wf_buffer b \<and> contents b = rest \<and>
    parse_loop ret ?r = parse_loop ret (?r\<lparr>m_header := fold (\<lambda>(f, v). AList.update f v) hs (m_header ?r),
      m_state := Body, m_input_buffer := b\<rparr>)"
    by (rule Cons.IH) (use Cons.prems b in simp_all)
  then show ?case unfolding go by (auto simp: h)
qed

lemma map_of_headers:
  "map_of (fold (\<lambda>(f, v). AList.update f v) hs m) = map_of m ++ map_of (rev hs)"
proof (induction hs arbitrary: m)
  case (Cons h hs)
  obtain f v where h: "h = (f, v)" by fastforce
  show ?case by (rule ext) (simp add: h Cons map_add_def AList.update_conv' split: option.splits)
qed simp

text \<open>A printed request takes the parser to its body.\<close>

definition parsed :: "http_method \<Rightarrow> bytes \<Rightarrow> http_version \<Rightarrow> (bytes \<times> bytes) list \<Rightarrow> buffer \<Rightarrow> http_request" where
  "parsed m target v hs b = (HttpRequest b)\<lparr>m_method := m, m_path := target_path target,
     m_arg := target_arg target, m_version := v, m_header := headers_of hs, m_state := Body\<rparr>"

lemma parse_to_body:
  assumes "m \<noteq> INVALID" and "v \<noteq> UNKNOW" and "target_ok target" and "list_all header_ok hs"
    and "wf_buffer input" and "contents input = request_text m target v hs @ rest"
  obtains b where "wf_buffer b" and "contents b = rest"
    and "parseRequest (HttpRequest input) = parse_loop True (parsed m target v hs b)"
proof -
  let ?l = "request_line m target v"
  let ?more = "concat (map header_line hs) @ crlf @ rest"
  have c: "contents (m_input_buffer (HttpRequest input)) = ?l @ crlf @ ?more"
    using assms(6) by (simp add: request_text_def HttpRequest_def)
  have wf: "wf_buffer (m_input_buffer (HttpRequest input))" using assms(5) by (simp add: HttpRequest_def)
  have "13 \<notin> set (getVersion v)" by (cases v; simp add: getVersion_def str_def)
  then have plain: "13 \<notin> set ?l"
    using assms(3) method_name_plain(2) by (auto simp: request_line_def target_ok_def)
  obtain b where b: "updatePosUntil (length ?l + 2) (m_input_buffer (HttpRequest input)) = Some b"
    "wf_buffer b" "contents b = ?more"
    using first_line(3) [OF wf c plain] by blast
  have init: "m_state (HttpRequest input) = RequestLine" "m_method (HttpRequest input) = INVALID"
    "m_arg (HttpRequest input) = []" "m_header (HttpRequest input) = []"
    by (simp_all add: HttpRequest_def)
  let ?r = "(HttpRequest input)\<lparr>m_method := m, m_path := target_path target, m_arg := target_arg target,
      m_version := v, m_input_buffer := b, m_state := Headers\<rparr>"
  have "parse_round True (HttpRequest input) = Some (True, True, ?r)"
    using first_line(1,2) [OF wf c plain] b(1) init
    by (simp add: parse_round_def parseRequestLine_print [OF assms(1-3)])
  then have go: "parseRequest (HttpRequest input) = parse_loop True ?r"
    unfolding parseRequest_def by (rule parse_loop_go)
  obtain b' where b': "wf_buffer b'" "contents b' = rest"
    "parse_loop True ?r = parse_loop True (?r\<lparr>m_header := fold (\<lambda>(f, v). AList.update f v) hs (m_header ?r),
      m_state := Body, m_input_buffer := b'\<rparr>)"
    using parse_headers [OF assms(4), of ?r rest True] b by auto
  have "?r\<lparr>m_header := fold (\<lambda>(f, v). AList.update f v) hs (m_header ?r), m_state := Body, m_input_buffer := b'\<rparr>
      = parsed m target v hs b'"
    using init(4) by (simp add: parsed_def headers_of_def HttpRequest_def)
  then show ?thesis using that [OF b'(1,2)] go b'(3) by simp
qed


lemma copy_body_spec:
  assumes "wf_buffer b" and "0 \<le> n" and "nat n \<le> length (contents b)"
  shows "\<exists>d. copy_body n (parsed m target v hs b) = Some ((parsed m target v hs b)\<lparr>m_body := d\<rparr>) \<and>
    contents d = take (nat n) (contents b)"
proof -
  have fits: "m_rpos b + nat n \<le> m_wpos b"
  proof -
    have "nat n \<le> readableBytes b" using assms(3) length_contents [OF assms(1)] by simp
    then have "nat n \<le> m_wpos b - m_rpos b" by (simp add: readableBytes_def)
    moreover have "m_rpos b \<le> m_wpos b" using assms(1) by (simp add: wf_buffer_def)
    ultimately show ?thesis by linarith
  qed
  then have inside: "m_rpos b + nat n \<le> length (m_queue b)" using assms(1) by (simp add: wf_buffer_def)
  have piece: "span (m_rpos b) (m_rpos b + nat n) (m_queue b) = take (nat n) (contents b)"
    using fits by (simp add: span_def contents_def min_def)
  obtain d where "buf_append (take (nat n) (contents b)) (buffer_new kInitialSize) = Some d" "wf_buffer d"
    "contents d = take (nat n) (contents b)"
    using buf_append_spec [of "buffer_new kInitialSize" "take (nat n) (contents b)"] by auto
  then show ?thesis
    using assms(2) inside by (simp add: copy_body_def parsed_def HttpRequest_def piece)
qed

lemma map_of_rev_distinct: "distinct (map fst xs) \<Longrightarrow> map_of (rev xs) = map_of xs"
proof (induction xs)
  case (Cons x xs)
  obtain k v where x: "x = (k, v)" by fastforce
  have none: "map_of xs k = None" using Cons.prems by (force simp: x map_of_eq_None_iff)
  have IH: "map_of (rev xs) = map_of xs" using Cons by simp
  show ?case
    by (rule ext) (use none in \<open>simp add: x IH map_add_def split: option.splits\<close>)
qed simp

lemma content_length_of:
  assumes "distinct (map fst hs)"
  shows "(case map_of (headers_of hs) (str ''Content-Length'') of None \<Rightarrow> 0 | Some v \<Rightarrow> atoi v) = content_length hs"
  using map_of_rev_distinct [of hs] assms
  by (simp add: content_length_def headers_of_def map_of_headers)

text \<open>The body and the end of the loop.\<close>

lemma parse_printed:
  assumes "m \<noteq> INVALID" and "v \<noteq> UNKNOW" and "target_ok target" and "list_all header_ok hs"
    and "distinct (map fst hs)" and "wf_buffer input" and "contents input = request_text m target v hs @ rest"
    and "0 \<le> content_length hs" and "content_length hs \<le> int (length rest)"
  shows "\<exists>r. parseRequest (HttpRequest input) = Some (True, r) \<and> getMethod r = method_name m \<and>
    m_version r = v \<and> m_path r = target_path target \<and> m_arg r = target_arg target \<and>
    (\<forall>f. getHeader f r = (case map_of hs f of None \<Rightarrow> [] | Some x \<Rightarrow> x)) \<and>
    contents (m_body r) = take (nat (content_length hs)) rest \<and> contents (m_input_buffer r) = rest \<and>
    wf_buffer (m_input_buffer r)"
proof -
  obtain b where b: "wf_buffer b" "contents b = rest"
    "parseRequest (HttpRequest input) = parse_loop True (parsed m target v hs b)"
    by (rule parse_to_body [OF assms(1-4,6,7)])
  have "nat (content_length hs) \<le> length (contents b)" using assms(9) b(2) by simp
  from copy_body_spec [OF b(1) assms(8) this, of m target v hs] obtain d
    where d: "copy_body (content_length hs) (parsed m target v hs b) = Some ((parsed m target v hs b)\<lparr>m_body := d\<rparr>)"
      "contents d = take (nat (content_length hs)) rest" by (auto simp: b(2))
  let ?r = "(parsed m target v hs b)\<lparr>m_body := d\<rparr>"
  have "parse_round True (parsed m target v hs b) = Some (False, True, ?r)"
    using d(1) content_length_of [OF assms(5)] by (simp add: parse_round_def) (simp add: parsed_def)
  then have "parseRequest (HttpRequest input) = Some (True, ?r)" unfolding b(3) by (rule parse_loop_stop)
  moreover have "map_of (headers_of hs) = map_of hs"
    using map_of_rev_distinct [of hs] assms(5) by (simp add: headers_of_def map_of_headers)
  ultimately show ?thesis
    using d(2) b(1,2) by (intro exI [of _ ?r]) (simp add: parsed_def getMethod_def getHeader_def HttpRequest_def)
qed

section \<open>Properties\<close>

text \<open>
  C20: A printed request is parsed: the method, version, path, argument and header fields come
  out as they were put in, and so much of what follows as Content-Length says is the body. The body is
  not taken out of the connection's buffer: whoever reads there next finds it again.
\<close>

theorem request_roundtrip:
  assumes "m \<noteq> INVALID" and "v \<noteq> UNKNOW" and "target_ok target" and "list_all header_ok hs"
    and "distinct (map fst hs)" and "wf_buffer input" and "contents input = request_text m target v hs @ rest"
    and "0 \<le> content_length hs" and "content_length hs \<le> int (length rest)"
  shows "\<exists>r. parseRequest (HttpRequest input) = Some (True, r) \<and> getMethod r = method_name m \<and>
    m_version r = v \<and> m_path r = target_path target \<and> m_arg r = target_arg target \<and>
    (\<forall>f. getHeader f r = (case map_of hs f of None \<Rightarrow> [] | Some x \<Rightarrow> x)) \<and>
    contents (m_body r) = take (nat (content_length hs)) rest \<and> contents (m_input_buffer r) = rest \<and>
    wf_buffer (m_input_buffer r)"
  by (rule parse_printed [OF assms])

text \<open>
  A negative Content-Length ends the process: it is taken for a length that no buffer can
  have.
\<close>

lemma negative_length_aborts:
  assumes "m \<noteq> INVALID" and "v \<noteq> UNKNOW" and "target_ok target" and "list_all header_ok hs"
    and "distinct (map fst hs)" and "wf_buffer input" and "contents input = request_text m target v hs @ rest"
    and "content_length hs < 0"
  shows "parseRequest (HttpRequest input) = None"
proof -
  obtain b where b: "wf_buffer b" "contents b = rest"
    "parseRequest (HttpRequest input) = parse_loop True (parsed m target v hs b)"
    by (rule parse_to_body [OF assms(1-4,6,7)])
  have "parse_round True (parsed m target v hs b) = None"
    using assms(8) content_length_of [OF assms(5)]
    by (simp add: parse_round_def parsed_def copy_body_def)
  then show ?thesis unfolding b(3) by (subst parse_loop.simps) simp
qed

theorem request_roundtrip_witness:
  "\<exists>r. parseRequest (HttpRequest (buffer_of
      (request_text GET (str ''/x?q'') HTTP10 [(str ''Content-Length'', str ''2'')] @ [7, 8, 9]))) = Some (True, r) \<and>
    m_path r = str ''../www/x'' \<and> m_arg r = str ''?q'' \<and> contents (m_body r) = [7, 8] \<and>
    contents (m_input_buffer r) = [7, 8, 9]"
proof -
  let ?hs = "[(str ''Content-Length'', str ''2'')]"
  have 1: "target_ok (str ''/x?q'')" "list_all header_ok ?hs" by code_simp+
  have 2: "content_length ?hs = 2" by code_simp
  have 3: "target_path (str ''/x?q'') = str ''../www/x''" "target_arg (str ''/x?q'') = str ''?q''" by code_simp+
  show ?thesis
    using request_roundtrip [OF _ _ 1 _ buffer_of_ok(1) buffer_of_ok(2), of GET HTTP10 "[7, 8, 9]"] 2 3
    by (simp add: eval_nat_numeral) blast
qed

text \<open>Nothing keeps a target from leaving the root directory.\<close>

lemma path_leaves_root: "target_path (str ''/../../etc/passwd'') = str ''../www/../../etc/passwd''"
  by code_simp

text \<open>A request that stops after its first line counts as parsed, whatever headers it has yet to bring.\<close>

lemma unfinished_head_accepted:
  assumes "m \<noteq> INVALID" and "v \<noteq> UNKNOW" and "target_ok target" and "wf_buffer input"
    and "contents input = request_line m target v @ crlf @ rest" and "13 \<notin> set rest"
  shows "\<exists>r. parseRequest (HttpRequest input) = Some (True, r) \<and> m_header r = []"
proof -
  let ?l = "request_line m target v"
  have c: "contents (m_input_buffer (HttpRequest input)) = ?l @ crlf @ rest"
    and wf: "wf_buffer (m_input_buffer (HttpRequest input))"
    using assms(4,5) by (simp_all add: HttpRequest_def)
  have "13 \<notin> set (getVersion v)" by (cases v; simp add: getVersion_def str_def)
  then have plain: "13 \<notin> set ?l"
    using assms(3) method_name_plain(2) by (auto simp: request_line_def target_ok_def)
  obtain b where b: "updatePosUntil (length ?l + 2) (m_input_buffer (HttpRequest input)) = Some b"
    "wf_buffer b" "contents b = rest"
    using first_line(3) [OF wf c plain] by blast
  have init: "m_state (HttpRequest input) = RequestLine" "m_method (HttpRequest input) = INVALID"
    "m_arg (HttpRequest input) = []" "m_header (HttpRequest input) = []"
    by (simp_all add: HttpRequest_def)
  let ?r = "(HttpRequest input)\<lparr>m_method := m, m_path := target_path target, m_arg := target_arg target,
      m_version := v, m_input_buffer := b, m_state := Headers\<rparr>"
  have "parse_round True (HttpRequest input) = Some (True, True, ?r)"
    using first_line(1,2) [OF wf c plain] b(1) init
    by (simp add: parse_round_def parseRequestLine_print [OF assms(1-3)])
  then have go: "parseRequest (HttpRequest input) = parse_loop True ?r"
    unfolding parseRequest_def by (rule parse_loop_go)
  have nth: "rest ! j \<noteq> 13" if "j < length rest" for j using assms(6) that by (metis nth_mem)
  have "findCRLF b = None"
    by (rule ccontr) (use nth in \<open>auto simp: findCRLF_def b(3) search_crlf_Some\<close>)
  then have "parse_round True ?r = Some (False, True, ?r)" by (simp add: parse_round_def)
  from parse_loop_stop [OF this] show ?thesis using go init(4) by simp
qed

end
