(* ===== verification/HttpServer.thy ===== *)
theory HttpServer
  imports HttpRequest TcpConnection
begin

text \<open>
  \<^verbatim>\<open>example/http/httpresponse.h/.cpp\<close> and \<^verbatim>\<open>httpserver.h/.cpp\<close>: the answer to a
  request, and what the server does with the connection. An output buffer is the bytes in it, since
  \<^verbatim>\<open>Buffer\<close> refines a queue of bytes. The file system is an argument: \<open>stat\<close> gives for a
  path whether it is a regular file and its size, \<open>read_file\<close> its content when it can be opened. The
  results of reading from the pipe of a CGI program are the argument \<open>rd\<close>. \<^verbatim>\<open>find_last_of\<close> and
  the search in a table follow the standard library.
\<close>

section \<open>Responses\<close>

record http_response =
  r_version :: bytes
  m_status :: nat
  r_method :: bytes
  r_path :: bytes
  m_args :: bytes
  r_isKeepAlive :: bool

definition HttpResponse :: "bytes \<Rightarrow> nat \<Rightarrow> bool \<Rightarrow> bytes \<Rightarrow> bytes \<Rightarrow> bytes \<Rightarrow> http_response" where
  "HttpResponse version statusCode keepActive method path args =
     \<lparr>r_version = version, m_status = statusCode, r_method = method, r_path = path, m_args = args,
      r_isKeepAlive = keepActive\<rparr>"

definition kHttpTimeout :: nat where "kHttpTimeout = 500"

definition statusCodeAndMessage :: "(nat \<times> bytes) list" where
  "statusCodeAndMessage = [(200, str ''OK''), (400, str ''Bad Request''), (403, str ''Forbidden''),
     (404, str ''Not Found'')]"

definition suffixAndName :: "(bytes \<times> bytes) list" where
  "suffixAndName = map (\<lambda>(s, n). (str s, str n))
     [(''.html'', ''text/html''), (''.xml'', ''text/xml''), (''.xhtml'', ''application/xhtml+xml''),
      (''.txt'', ''text/plain''), (''.rtf'', ''application/rtf''), (''.pdf'', ''application/pdf''),
      (''.word'', ''application/nsword''), (''.png'', ''image/png''), (''.gif'', ''image/gif''),
      (''.jpg'', ''image/jpeg''), (''.jpeg'', ''image/jpeg''), (''.au'', ''audio/basic''),
      (''.mpeg'', ''video/mpeg''), (''.mpg'', ''video/mpeg''), (''.avi'', ''video/x-msvideo''),
      (''.gz'', ''application/x-gzip''), (''.tar'', ''application/x-tar''), (''.css'', ''text/css'')]"

text \<open>\<^verbatim>\<open>find_last_of('.')\<close> and the rest of the path from there.\<close>

definition last_suffix :: "bytes \<Rightarrow> bytes option" where
  "last_suffix path =
     (if 46 \<in> set path then Some (46 # rev (takeWhile (\<lambda>c. c \<noteq> 46) (rev path))) else None)"

definition getFileType :: "bytes \<Rightarrow> bytes" where
  "getFileType path =
     (case last_suffix path of
        None \<Rightarrow> str ''text/plain''
      | Some suffix \<Rightarrow> (case map_of suffixAndName suffix of None \<Rightarrow> str ''text/plain'' | Some t \<Rightarrow> t))"

definition initErrorResponse :: "bytes \<Rightarrow> bytes \<Rightarrow> http_response \<Rightarrow> bytes" where
  "initErrorResponse output message r =
     (case map_of statusCodeAndMessage (m_status r) of
        None \<Rightarrow> output
      | Some name \<Rightarrow>
          let body = str ''<html><title>Skylu Error</title>'' @ str ''<body bgcolor='' @ [34] @ str ''ffffff'' @
                [34] @ str ''>'' @ to_string (m_status r) @ str '' : '' @ name @ [10] @
                str ''<p>'' @ message @ str ''</p>'' @ str ''<hr><em>Skylu web server</em></body></html>''
          in output @ r_version r @ str '' '' @ to_string (m_status r) @ str '' '' @ name @ crlf @
             str ''Server: Skylu'' @ crlf @ str ''Content-type: text/html'' @ crlf @
             (if r_isKeepAlive r then str ''Content-length: '' @ to_string (length body) @ crlf @ crlf else crlf) @
             body)"

type_synonym file_system = "(bytes \<Rightarrow> (bool \<times> nat) option) \<times> (bytes \<Rightarrow> bytes option)"

text \<open>\<^verbatim>\<open>mmap\<close> of nothing fails.\<close>

definition map_file :: "file_system \<Rightarrow> bytes \<Rightarrow> nat \<Rightarrow> bytes option option" where
  "map_file fs path filesize =
     (case snd fs path of
        None \<Rightarrow> None
      | Some content \<Rightarrow> Some (if filesize = 0 then None else Some (take filesize content)))"

definition isCgiRequest :: "http_response \<Rightarrow> bool" where
  "isCgiRequest r \<longleftrightarrow> r_method r = str ''POST'' \<or> (r_method r = str ''GET'' \<and> m_args r \<noteq> [])"

text \<open>
  \<^verbatim>\<open>doCGI\<close>: every piece is read behind the end of the output buffer, and
  \<^verbatim>\<open>updatePos\<close> then moves the start of the buffer by its length, where
  \<^verbatim>\<open>hasWriteten\<close> would move its end. An error of \<^verbatim>\<open>read\<close> is a huge length.
\<close>

fun doCGI :: "int list \<Rightarrow> bytes \<Rightarrow> bytes option" where
  "doCGI [] output = Some output"
| "doCGI (n # rd) output =
     (if n = 0 then Some output
      else do {
        assert_that (0 \<le> n \<and> nat n \<le> length output);
        doCGI rd (drop (nat n) output)
      })"

definition static_head :: "nat \<Rightarrow> bytes \<Rightarrow> http_response \<Rightarrow> bytes" where
  "static_head filesize name r =
     str ''HTTP/1.1 '' @ to_string (m_status r) @ str '' '' @ name @ crlf @
     (if r_isKeepAlive r
      then str ''Connection: Keep-Alive'' @ crlf @ str ''Keep-Alive: timeout='' @ to_string kHttpTimeout
      else str ''Connection: close'' @ crlf) @
     str ''Content-type: '' @ getFileType (r_path r) @ crlf @
     str ''Content-length: '' @ to_string filesize @ crlf @
     str ''Server: skylu'' @ crlf @ crlf"

definition initStaticRequest ::
  "file_system \<Rightarrow> int list \<Rightarrow> bytes \<Rightarrow> nat \<Rightarrow> http_response \<Rightarrow> (bytes \<times> http_response) option"
where
  "initStaticRequest fs rd output filesize r =
     (case map_of statusCodeAndMessage (m_status r) of
        None \<Rightarrow> let r = r\<lparr>m_status := 400\<rparr> in Some (initErrorResponse output (str ''Unknow status code'') r, r)
      | Some name \<Rightarrow>
          let output = output @ static_head filesize name r in
          if isCgiRequest r then do { output \<leftarrow> doCGI rd output; Some (output, r) }
          else (case map_file fs (r_path r) filesize of
              None \<Rightarrow> let r = r\<lparr>m_status := 404\<rparr> in Some (initErrorResponse [] (str ''Can'' @ [39] @ str ''t find the file'') r, r)
            | Some None \<Rightarrow> let r = r\<lparr>m_status := 403\<rparr> in Some (initErrorResponse [] (str ''Can'' @ [39] @ str ''t access.'') r, r)
            | Some (Some content) \<Rightarrow> Some (output @ content, r)))"

text \<open>The test of the read permission is the constant true, so only the kind of the file counts.\<close>

definition initResponse ::
  "file_system \<Rightarrow> int list \<Rightarrow> http_response \<Rightarrow> (bytes \<times> http_response) option"
where
  "initResponse fs rd r =
     (if m_status r = 400 then Some (initErrorResponse [] (str ''Can'' @ [39] @ str ''t parse the message'') r, r)
      else (case fst fs (r_path r) of
          None \<Rightarrow> let r = r\<lparr>m_status := 404\<rparr> in Some (initErrorResponse [] (str ''Can'' @ [39] @ str ''t find the file'') r, r)
        | Some (regular, filesize) \<Rightarrow>
            if \<not> regular then let r = r\<lparr>m_status := 403\<rparr> in Some (initErrorResponse [] (str ''Can'' @ [39] @ str ''t read the file'') r, r)
            else initStaticRequest fs rd [] filesize r))"

section \<open>The server\<close>

text \<open>What \<^verbatim>\<open>doRequest\<close> does after the answer is sent.\<close>

datatype http_after = CloseNow | CloseAfter int | KeepOpen

definition answer :: "file_system \<Rightarrow> int list \<Rightarrow> bool \<times> http_request \<Rightarrow> (bytes \<times> http_after) option" where
  "answer fs rd x =
     (case x of (ok, request) \<Rightarrow>
        if ok then do {
          let response = HttpResponse (getVersion (m_version request)) 200 (isKeepAlive request)
                (getMethod request) (m_path request) (m_arg request);
          let timeout = getTimeout request;
          (output, _) \<leftarrow> initResponse fs rd response;
          Some (output, if timeout = 0 then CloseNow else if timeout > 0 then CloseAfter timeout else KeepOpen)
        } else do {
          let response = HttpResponse (getVersion (m_version request)) 400 (isKeepAlive request) [] [] [];
          (output, _) \<leftarrow> initResponse fs rd response;
          Some (output, CloseNow)
        })"

text \<open>
  \<^verbatim>\<open>doRequest(conne, buf)\<close>: a new parser for every call of the message callback, on the
  connection's input buffer. The timers asked for are collected.
\<close>

definition doRequest ::
  "file_system \<Rightarrow> int list \<Rightarrow> sys_write \<Rightarrow> connection \<Rightarrow> (int list \<times> connection) option"
where
  "doRequest fs rd w c = do {
     x \<leftarrow> parseRequest (HttpRequest (TcpConnection.m_input_buffer c));
     let c = c\<lparr>TcpConnection.m_input_buffer := HttpRequest.m_input_buffer (snd x)\<rparr>;
     (reply, next) \<leftarrow> answer fs rd x;
     c \<leftarrow> send reply w c;
     Some (case next of CloseNow \<Rightarrow> ([], shutdown c) | CloseAfter t \<Rightarrow> ([t], c) | KeepOpen \<Rightarrow> ([], c))
   }"

definition closeConnection :: "connection \<Rightarrow> connection" where
  "closeConnection c = shutdown c"

section \<open>Properties\<close>


lemma send_accepted:
  assumes "conn_ok c" and "TcpConnection.m_state c = kConnected" and "w = Room n \<or> w = Write_Error True"
  shows "\<exists>c'. send data w c = Some c' \<and> conn_ok c' \<and> TcpConnection.m_state c' = kConnected \<and>
    stream c' = stream c @ data"
proof -
  have "\<not> wr_closed c" using assms(1,2) by (auto simp: conn_ok_def)
  then have "accepted data w c = data"
    using assms(2,3) by (auto simp: accepted_def sys_write_result_def)
  then show ?thesis using sendInLoop_spec [OF assms(1), of data w] assms(2) by (simp add: send_def)
qed


lemma shutdown_spec:
  assumes "conn_ok c" and "TcpConnection.m_state c = kConnected"
  shows "conn_ok (shutdown c)" "TcpConnection.m_state (shutdown c) = kdisConnecting"
    "stream (shutdown c) = stream c" "TcpConnection.m_input_buffer (shutdown c) = TcpConnection.m_input_buffer c"
  using conn_step_spec [OF assms(1), of Shutdown] assms(2)
  by (auto simp: shutdown_def shutdownInLoop_def)


lemma atoi_timeout: "atoi (str ''timeout=5'') = 0" "atoi (str ''5'') = 5"
  by code_simp+





text \<open>
  Every call of the message callback starts a parser of its own: the first piece of a request, when
  it ends within the first line, is answered with an error and the connection is closed.
\<close>

lemma half_request_refused:
  assumes "conn_ok c" and "TcpConnection.m_state c = kConnected" and "w = Room n \<or> w = Write_Error True"
    and "findCRLF (TcpConnection.m_input_buffer c) = None"
  shows "\<exists>c'. doRequest fs rd w c = Some ([], c') \<and> TcpConnection.m_state c' = kdisConnecting \<and>
    stream c' = stream c @ initErrorResponse [] (str ''Can'' @ [39] @ str ''t parse the message'')
      (HttpResponse (str ''UNKNOW'') 400 False [] [] [])"
proof -
  let ?reply = "initErrorResponse [] (str ''Can'' @ [39] @ str ''t parse the message'')
      (HttpResponse (str ''UNKNOW'') 400 False [] [] [])"
  let ?b = "TcpConnection.m_input_buffer c"
  have "parse_round True (HttpRequest ?b) = Some (False, False, HttpRequest ?b)"
    using assms(4) by (simp add: parse_round_def HttpRequest_def)
  then have p: "parseRequest (HttpRequest ?b) = Some (False, HttpRequest ?b)"
    unfolding parseRequest_def by (rule parse_loop_stop)
  have a: "answer fs rd (False, HttpRequest ?b) = Some (?reply, CloseNow)"
    by (simp add: answer_def initResponse_def HttpResponse_def HttpRequest_def getVersion_def isKeepAlive_def getHeader_def Let_def str_def)
  have same: "c\<lparr>TcpConnection.m_input_buffer := HttpRequest.m_input_buffer (HttpRequest ?b)\<rparr> = c"
    by (simp add: HttpRequest_def)
  obtain e where e: "send ?reply w c = Some e" "conn_ok e" "TcpConnection.m_state e = kConnected"
    "stream e = stream c @ ?reply" using send_accepted [OF assms(1-3)] by blast
  show ?thesis
    using p a same e shutdown_spec [OF e(2,3)] by (simp add: doRequest_def)
qed

text \<open>The line of the time-out has no end, so the type of the content is part of it.\<close>

lemma keep_alive_line_unfinished:
  "r_isKeepAlive r \<Longrightarrow> \<exists>a b. static_head n name r =
     a @ str ''Keep-Alive: timeout=500Content-type: '' @ getFileType (r_path r) @ b"
proof -
  assume k: "r_isKeepAlive r"
  have "to_string kHttpTimeout = str ''500''"
    by (simp add: kHttpTimeout_def to_string.simps str_def)
  then show ?thesis
    using k
    by (intro exI [of _ "str ''HTTP/1.1 '' @ to_string (m_status r) @ str '' '' @ name @ crlf @
          str ''Connection: Keep-Alive'' @ crlf"]
        exI [of _ "crlf @ str ''Content-length: '' @ to_string n @ crlf @ str ''Server: skylu'' @ crlf @ crlf"])
      (simp add: static_head_def str_def)
qed

text \<open>An empty file is answered with an error, since nothing can be mapped.\<close>

lemma empty_file_forbidden:
  "m_status r = 200 \<Longrightarrow> \<not> isCgiRequest r \<Longrightarrow>
    map_option (m_status \<circ> snd) (initResponse (\<lambda>p. Some (True, 0), \<lambda>p. Some []) rd r) = Some 403"
  by (simp add: initResponse_def initStaticRequest_def statusCodeAndMessage_def map_file_def Let_def)

text \<open>What a CGI program writes is not sent: it takes as many bytes from the head of the answer.\<close>

lemma cgi_output_lost:
  "n \<noteq> 0 \<Longrightarrow> doCGI [int n, 0] output = (if n \<le> length output then Some (drop n output) else None)"
  by (simp add: assert_that_def)

end
