(* ===== verification/OrdMap.thy ===== *)
theory OrdMap
  imports Main "HOL-Library.AList"
begin

text \<open>
  The containers of the standard library: \<^verbatim>\<open>std::map\<close> as an association list sorted by its
  keys, \<^verbatim>\<open>std::unordered_map\<close> as an association list in the order of its iteration (any
  order: properties hold for every list without duplicate keys). Lookup is \<^term>\<open>map_of\<close>,
  \<^verbatim>\<open>erase(key)\<close> is \<^term>\<open>AList.delete\<close> and \<^verbatim>\<open>m[key] = value\<close> on an unordered map
  is \<^term>\<open>AList.update\<close>.
\<close>

section \<open>Unordered maps\<close>

lemma set_alist_update: "set (AList.update k v xs) \<subseteq> insert (k, v) (set xs)"
  by (induction xs) auto

lemma set_alist_delete: "set (AList.delete k xs) \<subseteq> set xs"
  by (auto simp: AList.delete_eq)

lemma map_of_aupdate [simp]: "map_of (AList.update k v d) x = (if x = k then Some v else map_of d x)"
  by (simp add: AList.update_conv')

lemma map_of_adelete [simp]: "map_of (AList.delete k d) x = (if x = k then None else map_of d x)"
  by (simp add: AList.delete_conv')

lemma dom_aupdate [simp]: "dom (map_of (AList.update k v m)) = insert k (dom (map_of m))"
  by (simp add: AList.update_conv')

lemma dom_adelete [simp]: "dom (map_of (AList.delete k m)) = dom (map_of m) - {k}"
  by (simp add: AList.delete_conv')

section \<open>Ordered maps\<close>

type_synonym ('k, 'v) ord_map = "('k \<times> 'v) list"

definition om_ok :: "('k :: linorder, 'v) ord_map \<Rightarrow> bool" where
  "om_ok m \<longleftrightarrow> sorted_wrt (<) (map fst m)"

text \<open>\<^verbatim>\<open>insert({k, v})\<close>: an entry that is there stays; the flag tells.\<close>

fun om_insert :: "'k :: linorder \<Rightarrow> 'v \<Rightarrow> ('k, 'v) ord_map \<Rightarrow> ('k, 'v) ord_map" where
  "om_insert k v [] = [(k, v)]"
| "om_insert k v ((k', v') # m) =
     (if k < k' then (k, v) # (k', v') # m
      else if k = k' then (k', v') # m
      else (k', v') # om_insert k v m)"

text \<open>\<^verbatim>\<open>m[k] = v\<close>\<close>

fun om_put :: "'k :: linorder \<Rightarrow> 'v \<Rightarrow> ('k, 'v) ord_map \<Rightarrow> ('k, 'v) ord_map" where
  "om_put k v [] = [(k, v)]"
| "om_put k v ((k', v') # m) =
     (if k < k' then (k, v) # (k', v') # m
      else if k = k' then (k, v) # m
      else (k', v') # om_put k v m)"

text \<open>\<^verbatim>\<open>lower_bound(k)\<close>: the entries from the first whose key is not below \<open>k\<close>.\<close>

definition om_from :: "'k :: linorder \<Rightarrow> ('k, 'v) ord_map \<Rightarrow> ('k, 'v) ord_map" where
  "om_from k m = dropWhile (\<lambda>e. fst e < k) m"

lemma om_ok_simps [simp]:
  "om_ok []"
  "om_ok ((k, v) # m) \<longleftrightarrow> (\<forall>e \<in> set m. k < fst e) \<and> om_ok m"
  by (auto simp: om_ok_def)

lemma set_om_insert:
  "set (om_insert k v m) \<subseteq> insert (k, v) (set m)"
  by (induction k v m rule: om_insert.induct) auto

lemma om_ok_insert [simp]: "om_ok m \<Longrightarrow> om_ok (om_insert k v m)"
proof (induction k v m rule: om_insert.induct)
  case (2 k v k' v' m)
  then show ?case using set_om_insert [of k v m] by force
qed simp

lemma om_below_None: "om_ok ((k', v') # m) \<Longrightarrow> k < k' \<Longrightarrow> map_of ((k', v') # m) k = None"
  by (force simp: map_of_eq_None_iff)

lemma om_insert_same: "om_ok m \<Longrightarrow> map_of m k \<noteq> None \<Longrightarrow> om_insert k v m = m"
proof (induction k v m rule: om_insert.induct)
  case (2 k v k' v' m)
  then have "\<not> k < k'" using om_below_None [of k' v' m k] by auto
  with 2 show ?case by auto
qed simp

lemma map_of_insert:
  "om_ok m \<Longrightarrow>
     map_of (om_insert k v m) x = (if x = k \<and> map_of m k = None then Some v else map_of m x)"
proof (induction k v m rule: om_insert.induct)
  case (2 k v k' v' m)
  have "k < k' \<Longrightarrow> map_of ((k', v') # m) k = None"
    using "2.prems" by (rule om_below_None)
  with 2 show ?case by auto
qed auto

lemma set_om_put: "set (om_put k v m) \<subseteq> insert (k, v) (set m)"
  by (induction k v m rule: om_put.induct) auto

lemma om_ok_put [simp]: "om_ok m \<Longrightarrow> om_ok (om_put k v m)"
proof (induction k v m rule: om_put.induct)
  case (2 k v k' v' m)
  then show ?case using set_om_put [of k v m] by force
qed simp

lemma map_of_put: "om_ok m \<Longrightarrow> map_of (om_put k v m) = (map_of m)(k \<mapsto> v)"
proof (induction k v m rule: om_put.induct)
  case (2 k v k' v' m)
  then show ?case by (auto simp: fun_eq_iff)
qed auto

lemma om_ok_filter: "om_ok m \<Longrightarrow> om_ok (filter P m)"
  by (induction m) (auto simp: om_ok_def)

lemma om_ok_delete [simp]: "om_ok m \<Longrightarrow> om_ok (AList.delete k m)"
  unfolding AList.delete_eq by (rule om_ok_filter)

lemma om_ok_distinct: "om_ok m \<Longrightarrow> distinct (map fst m)"
  by (auto simp: om_ok_def strict_sorted_iff)

text \<open>Appending a greatest key, as logs do.\<close>

lemma om_insert_last:
  "\<forall>e \<in> set m. fst e < k \<Longrightarrow> om_insert k v m = m @ [(k, v)]"
  by (induction m) auto

lemma om_put_last:
  "\<forall>e \<in> set m. fst e < k \<Longrightarrow> om_put k v m = m @ [(k, v)]"
  by (induction m) auto

lemma om_ok_snoc: "om_ok (m @ [(k, v)]) \<longleftrightarrow> om_ok m \<and> (\<forall>e \<in> set m. fst e < k)"
  by (auto simp: om_ok_def sorted_wrt_append)

section \<open>Searching\<close>

lemma om_from_Nil: "om_ok m \<Longrightarrow> om_from k m = [] \<longleftrightarrow> (\<forall>e \<in> set m. fst e < k)"
  by (auto simp: om_from_def dropWhile_eq_Nil_conv)

lemma om_from_split:
  assumes "om_ok m"
  shows "\<exists>before. m = before @ om_from k m \<and> (\<forall>e \<in> set before. fst e < k)
    \<and> (\<forall>e \<in> set (om_from k m). k \<le> fst e)"
proof (intro exI conjI)
  let ?b = "takeWhile (\<lambda>e. fst e < k) m"
  show "m = ?b @ om_from k m" by (simp add: om_from_def)
  show "\<forall>e \<in> set ?b. fst e < k" by (auto dest: set_takeWhileD)
  show "\<forall>e \<in> set (om_from k m). k \<le> fst e"
  proof (cases "om_from k m")
    case (Cons e es)
    then have "\<not> fst e < k" unfolding om_from_def by (metis dropWhile_eq_Cons_conv)
    moreover have "om_ok (e # es)"
      using assms Cons unfolding om_from_def om_ok_def
      by (metis dropWhile_eq_drop map_append sorted_wrt_append takeWhile_dropWhile_id)
    ultimately show ?thesis using Cons by (cases e) force
  qed simp
qed

lemma om_from_hd:
  assumes "om_ok m" and "om_from k m = e # es"
  shows "e \<in> set m" and "k \<le> fst e" and "\<forall>x \<in> set m. k \<le> fst x \<longrightarrow> fst e \<le> fst x"
proof -
  obtain before where b: "m = before @ e # es" "\<forall>x \<in> set before. fst x < k"
      "\<forall>x \<in> set (e # es). k \<le> fst x"
    using om_from_split [OF assms(1), of k] assms(2) by auto
  then show "e \<in> set m" "k \<le> fst e" by auto
  have "\<forall>x \<in> set es. fst e < fst x"
    using assms(1) by (auto simp: b(1) om_ok_def sorted_wrt_append)
  with b show "\<forall>x \<in> set m. k \<le> fst x \<longrightarrow> fst e \<le> fst x"
    by (auto dest: leD)
qed

end
