(* ===== verification/TimerQueue.thy ===== *)
theory TimerQueue
  imports Complex_Main Prelude OrdMap "HOL-Library.Product_Lexorder" "HOL-Library.Multiset"
begin

text \<open>
  The timers of an event loop: \<^verbatim>\<open>net/timestamp.h\<close>, \<^verbatim>\<open>net/timer.h/.cc\<close>,
  \<^verbatim>\<open>net/timerid.h\<close> and \<^verbatim>\<open>net/timerqueue.h/.cc\<close>.

  The timers live in a heap of objects; \<^verbatim>\<open>new\<close> is the parameter \<open>alloc\<close>, which sees
  the number of the object and the addresses in use, and \<^verbatim>\<open>delete\<close> takes the object out, so
  that reading a deleted timer is the abort \<open>None\<close>. The two \<^verbatim>\<open>std::set\<close>s are sorted
  lists in the lexicographic order of \<^verbatim>\<open>std::pair\<close>. The clock is the parameter
  \<open>clk\<close>, the reading it gives at its n-th use. What the callbacks do to the queue (they may
  add and cancel timers while the queue runs them) is the parameter \<open>acts\<close>, the calls each
  callback makes. The timer descriptor of the kernel is the moment it goes off, \<open>None\<close> when it
  is not armed. An interval is an exact rational number: the rounding of \<^verbatim>\<open>double\<close> is not
  modelled. All calls come from the thread of the loop.
\<close>

section \<open>Time stamps and timers\<close>

type_synonym timestamp = int

definition kMicroSecondsPerSecond :: int where "kMicroSecondsPerSecond = 1000 * 1000"

definition isVaild :: "timestamp \<Rightarrow> bool" where "isVaild t \<longleftrightarrow> 0 < t"

definition invalid :: timestamp where "invalid = 0"

definition fromUnixTime :: "int \<Rightarrow> int \<Rightarrow> timestamp" where
  "fromUnixTime t microseconds = t * kMicroSecondsPerSecond + microseconds"

text \<open>The conversion of a floating point number to an integer cuts towards zero.\<close>

definition to_integer :: "rat \<Rightarrow> int" where
  "to_integer x = (if 0 \<le> x then \<lfloor>x\<rfloor> else \<lceil>x\<rceil>)"

definition addSecond :: "timestamp \<Rightarrow> rat \<Rightarrow> timestamp" where
  "addSecond timestamp seconds = timestamp + to_integer (seconds * of_int kMicroSecondsPerSecond)"

record timer =
  m_callback :: nat
  m_expiration :: timestamp
  m_interval :: rat
  isRepeat :: bool
  m_sequence :: int

definition Timer :: "nat \<Rightarrow> timestamp \<Rightarrow> rat \<Rightarrow> int \<Rightarrow> timer" where
  "Timer cb when interval seq =
     \<lparr>m_callback = cb, m_expiration = when, m_interval = interval, isRepeat = (interval > 0),
      m_sequence = seq\<rparr>"

definition restart :: "timestamp \<Rightarrow> timer \<Rightarrow> timer" where
  "restart now t =
     t\<lparr>m_expiration := (if isRepeat t then addSecond now (m_interval t) else invalid)\<rparr>"

text \<open>The constructor takes the pointer and stores \<^verbatim>\<open>NULL\<close>, which is address 0.\<close>

record timerid =
  tid_sequence :: int
  tid_timer :: nat

definition Timerid :: "nat \<Rightarrow> int \<Rightarrow> timerid" where
  "Timerid timer seq = \<lparr>tid_sequence = seq, tid_timer = 0\<rparr>"

section \<open>The queue\<close>

record timerqueue =
  heap :: "(nat \<times> timer) list"
  m_timers :: "(timestamp \<times> nat) list"
  m_activerTimers :: "(nat \<times> int) list"
  m_cancelTimers :: "(nat \<times> int) list"
  isCallingExpired :: bool
  timerfd :: "timestamp option"
  g_AutocreatemSequence :: int
  ticks :: nat

definition TimerQueue :: timerqueue where
  "TimerQueue = \<lparr>heap = [], m_timers = [], m_activerTimers = [], m_cancelTimers = [],
     isCallingExpired = False, timerfd = None, g_AutocreatemSequence = 0, ticks = 0\<rparr>"

type_synonym clock = "nat \<Rightarrow> timestamp"
type_synonym allocator = "int \<Rightarrow> nat list \<Rightarrow> nat"

definition deref :: "timerqueue \<Rightarrow> nat \<Rightarrow> timer option" where
  "deref q a = map_of (heap q) a"

definition now_of :: "clock \<Rightarrow> timerqueue \<Rightarrow> timestamp \<times> timerqueue" where
  "now_of clk q = (clk (ticks q), q\<lparr>ticks := Suc (ticks q)\<rparr>)"

text \<open>Seconds and nanoseconds to wait, at least a hundred microseconds.\<close>

definition howMuchTimeFromNow :: "timestamp \<Rightarrow> timestamp \<Rightarrow> int \<times> int" where
  "howMuchTimeFromNow when now =
     (let microseconds = when - now;
          microseconds = (if microseconds < 100 then 100 else microseconds)
      in (microseconds div kMicroSecondsPerSecond, (microseconds mod kMicroSecondsPerSecond) * 1000))"

definition resetTimerfd :: "clock \<Rightarrow> timestamp \<Rightarrow> timerqueue \<Rightarrow> timerqueue" where
  "resetTimerfd clk expiration q =
     (let (now, q) = now_of clk q;
          (sec, nsec) = howMuchTimeFromNow expiration now
      in q\<lparr>timerfd := Some (now + sec * kMicroSecondsPerSecond + nsec div 1000)\<rparr>)"

text \<open>\<^verbatim>\<open>TimerQueue::insert\<close>: the flag says that the new timer is the first to expire.\<close>

definition insert_timer :: "nat \<Rightarrow> timerqueue \<Rightarrow> (bool \<times> timerqueue) option" where
  "insert_timer a q = do {
     t \<leftarrow> deref q a;
     let when = m_expiration t;
     let ret = (m_timers q = [] \<or> when < fst (hd (m_timers q)));
     assert_that ((when, a) \<notin> set (m_timers q));
     let q1 = q\<lparr>m_timers := insort (when, a) (m_timers q)\<rparr>;
     assert_that ((a, m_sequence t) \<notin> set (m_activerTimers q));
     let q2 = q1\<lparr>m_activerTimers := insort (a, m_sequence t) (m_activerTimers q1)\<rparr>;
     assert_that (length (m_timers q2) = length (m_activerTimers q2));
     Some (ret, q2)
   }"

definition addTimerInLoop :: "clock \<Rightarrow> nat \<Rightarrow> timerqueue \<Rightarrow> timerqueue option" where
  "addTimerInLoop clk a q = do {
     t \<leftarrow> deref q a;
     (ret, q) \<leftarrow> insert_timer a q;
     Some (if ret then resetTimerfd clk (m_expiration t) q else q)
   }"

definition new_timer ::
  "allocator \<Rightarrow> nat \<Rightarrow> timestamp \<Rightarrow> rat \<Rightarrow> timerqueue \<Rightarrow> nat \<times> timerqueue" where
  "new_timer alloc cb when interval q =
     (let seq = g_AutocreatemSequence q;
          a = alloc seq (map fst (heap q))
      in (a, q\<lparr>heap := (a, Timer cb when interval seq) # heap q,
               g_AutocreatemSequence := seq + 1\<rparr>))"

definition addTimer ::
  "clock \<Rightarrow> allocator \<Rightarrow> nat \<Rightarrow> timestamp \<Rightarrow> rat \<Rightarrow> timerqueue \<Rightarrow> (timerid \<times> timerqueue) option"
where
  "addTimer clk alloc cb when interval q = do {
     let seq = g_AutocreatemSequence q;
     let (a, q) = new_timer alloc cb when interval q;
     q \<leftarrow> addTimerInLoop clk a q;
     Some (Timerid a seq, q)
   }"

definition cancelTimerInLoop :: "timerid \<Rightarrow> timerqueue \<Rightarrow> timerqueue option" where
  "cancelTimerInLoop timer q = do {
     assert_that (length (m_timers q) = length (m_activerTimers q));
     let active = (tid_timer timer, tid_sequence timer);
     if active \<in> set (m_activerTimers q) then do {
       t \<leftarrow> deref q (fst active);
       assert_that ((m_expiration t, fst active) \<in> set (m_timers q));
       Some (q\<lparr>m_timers := remove1 (m_expiration t, fst active) (m_timers q),
                heap := AList.delete (fst active) (heap q),
                m_activerTimers := remove1 active (m_activerTimers q)\<rparr>)
     } else if isCallingExpired q then
       Some (q\<lparr>m_cancelTimers := List.insert active (m_cancelTimers q)\<rparr>)
     else Some q
   }"

definition cancelTimer :: "timerid \<Rightarrow> timerqueue \<Rightarrow> timerqueue option" where
  "cancelTimer timer q = cancelTimerInLoop timer q"

text \<open>
  The sentry \<^verbatim>\<open>(now, UINTPTR_MAX)\<close> is above every entry of the moment \<open>now\<close>, since no
  object lies at the last address: what is before it has expired.
\<close>

definition deactivate :: "timestamp \<times> nat \<Rightarrow> timerqueue \<Rightarrow> timerqueue option" where
  "deactivate it q = do {
     t \<leftarrow> deref q (snd it);
     assert_that ((snd it, m_sequence t) \<in> set (m_activerTimers q));
     Some (q\<lparr>m_activerTimers := remove1 (snd it, m_sequence t) (m_activerTimers q)\<rparr>)
   }"

definition getExpired ::
  "timestamp \<Rightarrow> timerqueue \<Rightarrow> ((timestamp \<times> nat) list \<times> timerqueue) option" where
  "getExpired now q = do {
     assert_that (length (m_timers q) = length (m_activerTimers q));
     let expired = takeWhile (\<lambda>e. fst e \<le> now) (m_timers q);
     let rest = dropWhile (\<lambda>e. fst e \<le> now) (m_timers q);
     assert_that (rest = [] \<or> now < fst (hd rest));
     q \<leftarrow> for_each deactivate expired (q\<lparr>m_timers := rest\<rparr>);
     assert_that (length (m_timers q) = length (m_activerTimers q));
     Some (expired, q)
   }"

text \<open>What a callback does to the queue.\<close>

datatype timer_op = AddTimer nat timestamp rat | CancelTimer timerid

fun run_op :: "clock \<Rightarrow> allocator \<Rightarrow> timer_op \<Rightarrow> timerqueue \<Rightarrow> timerqueue option" where
  "run_op clk alloc (AddTimer cb when interval) q =
     map_option snd (addTimer clk alloc cb when interval q)"
| "run_op clk alloc (CancelTimer t) q = cancelTimer t q"

definition run_timer ::
  "clock \<Rightarrow> allocator \<Rightarrow> (nat \<Rightarrow> timer_op list) \<Rightarrow> timestamp \<times> nat \<Rightarrow> nat list \<times> timerqueue \<Rightarrow>
   (nat list \<times> timerqueue) option"
where
  "run_timer clk alloc acts it = (\<lambda>(fired, q). do {
     t \<leftarrow> deref q (snd it);
     q \<leftarrow> for_each (run_op clk alloc) (acts (m_callback t)) q;
     Some (fired @ [m_callback t], q)
   })"

definition reset_one :: "timestamp \<Rightarrow> timestamp \<times> nat \<Rightarrow> timerqueue \<Rightarrow> timerqueue option" where
  "reset_one now it q = do {
     t \<leftarrow> deref q (snd it);
     if isRepeat t \<and> (snd it, m_sequence t) \<notin> set (m_cancelTimers q) then
       map_option snd
         (insert_timer (snd it) (q\<lparr>heap := AList.update (snd it) (restart now t) (heap q)\<rparr>))
     else Some (q\<lparr>heap := AList.delete (snd it) (heap q)\<rparr>)
   }"

definition reset ::
  "clock \<Rightarrow> (timestamp \<times> nat) list \<Rightarrow> timestamp \<Rightarrow> timerqueue \<Rightarrow> timerqueue option" where
  "reset clk expired now q = do {
     q \<leftarrow> for_each (reset_one now) expired q;
     nextExpire \<leftarrow> (if m_timers q \<noteq> [] then
         map_option m_expiration (deref q (snd (hd (m_timers q)))) else Some invalid);
     Some (if isVaild nextExpire then resetTimerfd clk nextExpire q else q)
   }"

text \<open>The callbacks that ran, in order, and the queue after them.\<close>

definition handleRead ::
  "clock \<Rightarrow> allocator \<Rightarrow> (nat \<Rightarrow> timer_op list) \<Rightarrow> timerqueue \<Rightarrow> (nat list \<times> timerqueue) option"
where
  "handleRead clk alloc acts q = do {
     let (now, q) = now_of clk q;
     (expired, q) \<leftarrow> getExpired now q;
     (fired, q) \<leftarrow> for_each (run_timer clk alloc acts) expired ([], q\<lparr>isCallingExpired := True\<rparr>);
     q \<leftarrow> reset clk expired now (q\<lparr>isCallingExpired := False\<rparr>);
     Some (fired, q)
   }"


section \<open>The invariant of the queue\<close>

text \<open>
  \<open>F\<close> are the timers in flight: taken out of the queue to be run, not yet deleted or put back.
  Every object is in the queue or in flight, so nothing leaks; the set of active timers holds the
  queue's timers under their numbers.
\<close>

definition tq_inv :: "nat list \<Rightarrow> timerqueue \<Rightarrow> bool" where
  "tq_inv F q \<longleftrightarrow>
     sorted (m_timers q) \<and> distinct (map snd (m_timers q) @ F) \<and> distinct (map fst (heap q)) \<and>
     fst ` set (heap q) = snd ` set (m_timers q) \<union> set F \<and> 0 \<notin> fst ` set (heap q) \<and>
     (\<forall>e a. (e, a) \<in> set (m_timers q) \<longrightarrow> (\<exists>t. map_of (heap q) a = Some t \<and> m_expiration t = e)) \<and>
     set (m_activerTimers q) =
       {(a, s). \<exists>e t. (e, a) \<in> set (m_timers q) \<and> map_of (heap q) a = Some t \<and> m_sequence t = s} \<and>
     distinct (m_activerTimers q) \<and> length (m_activerTimers q) = length (m_timers q) \<and>
     (\<forall>x \<in> set (m_cancelTimers q). fst x = 0) \<and>
     (\<forall>a t. map_of (heap q) a = Some t \<longrightarrow> isRepeat t = (m_interval t > 0))"

definition allocator_ok :: "allocator \<Rightarrow> bool" where
  "allocator_ok alloc \<longleftrightarrow> (\<forall>s as. alloc s as \<notin> set as \<and> alloc s as \<noteq> 0)"

lemma tq_invD:
  assumes "tq_inv F q"
  shows "sorted (m_timers q)" and "distinct (map snd (m_timers q) @ F)"
    and "distinct (map fst (heap q))" and "fst ` set (heap q) = snd ` set (m_timers q) \<union> set F"
    and "0 \<notin> fst ` set (heap q)"
    and "\<forall>e a. (e, a) \<in> set (m_timers q) \<longrightarrow> (\<exists>t. map_of (heap q) a = Some t \<and> m_expiration t = e)"
    and "set (m_activerTimers q) =
       {(a, s). \<exists>e t. (e, a) \<in> set (m_timers q) \<and> map_of (heap q) a = Some t \<and> m_sequence t = s}"
    and "distinct (m_activerTimers q)" and "length (m_activerTimers q) = length (m_timers q)"
    and "\<forall>x \<in> set (m_cancelTimers q). fst x = 0"
    and "\<forall>a t. map_of (heap q) a = Some t \<longrightarrow> isRepeat t = (m_interval t > 0)"
  using assms unfolding tq_inv_def by - (elim conjE, assumption)+

lemma tq_inv_new: "tq_inv [] TimerQueue"
  by (simp add: tq_inv_def TimerQueue_def)

lemma tq_inv_more [simp]:
  "tq_inv F (q\<lparr>ticks := n\<rparr>) = tq_inv F q" "tq_inv F (q\<lparr>timerfd := d\<rparr>) = tq_inv F q"
  "tq_inv F (q\<lparr>isCallingExpired := b\<rparr>) = tq_inv F q"
  "tq_inv F (q\<lparr>g_AutocreatemSequence := s\<rparr>) = tq_inv F q"
  by (simp_all add: tq_inv_def)

lemma resetTimerfd_frame [simp]:
  "m_timers (resetTimerfd clk e q) = m_timers q" "heap (resetTimerfd clk e q) = heap q"
  "m_activerTimers (resetTimerfd clk e q) = m_activerTimers q"
  "m_cancelTimers (resetTimerfd clk e q) = m_cancelTimers q"
  "isCallingExpired (resetTimerfd clk e q) = isCallingExpired q"
  "tq_inv F (resetTimerfd clk e q) = tq_inv F q"
  by (simp_all add: resetTimerfd_def now_of_def Let_def split_def)

lemma deref_live:
  assumes "tq_inv F q" and "a \<in> set F \<or> a \<in> snd ` set (m_timers q)"
  obtains t where "deref q a = Some t" and "map_of (heap q) a = Some t"
proof -
  have "a \<in> fst ` set (heap q)" using assms by (auto simp: tq_inv_def)
  then obtain t where "map_of (heap q) a = Some t"
    by (metis domD dom_map_of_conv_image_fst)
  then show ?thesis using that by (simp add: deref_def)
qed

definition enqueue :: "nat \<Rightarrow> timer \<Rightarrow> timerqueue \<Rightarrow> timerqueue" where
  "enqueue a t q =
     q\<lparr>m_timers := insort (m_expiration t, a) (m_timers q),
       m_activerTimers := insort (a, m_sequence t) (m_activerTimers q)\<rparr>"

lemma insert_timer_spec:
  assumes "tq_inv (a # F) q" and "map_of (heap q) a = Some t"
  shows "insert_timer a q =
      Some (m_timers q = [] \<or> m_expiration t < fst (hd (m_timers q)), enqueue a t q)"
    and "tq_inv F (enqueue a t q)"
proof -
  have new: "a \<notin> snd ` set (m_timers q)" using tq_invD(2) [OF assms(1)] by auto
  have n1: "(m_expiration t, a) \<notin> set (m_timers q)" using new by force
  have n2: "(a, m_sequence t) \<notin> set (m_activerTimers q)"
  proof
    assume "(a, m_sequence t) \<in> set (m_activerTimers q)"
    then obtain e where "(e, a) \<in> set (m_timers q)" unfolding tq_invD(7) [OF assms(1)] by blast
    with new show False by force
  qed
  note len = tq_invD(9) [OF assms(1)]
  show "insert_timer a q =
      Some (m_timers q = [] \<or> m_expiration t < fst (hd (m_timers q)), enqueue a t q)"
    using n1 n2 len assms(2)
    by (simp add: insert_timer_def deref_def enqueue_def Let_def length_insort)
  have d: "distinct (map snd (insort (m_expiration t, a) (m_timers q)) @ F)"
  proof -
    have "mset (map snd (insort (m_expiration t, a) (m_timers q)) @ F) =
      mset (map snd (m_timers q) @ a # F)" by simp
    then show ?thesis using assms(1) unfolding tq_inv_def
      by (metis mset_eq_imp_distinct_iff)
  qed
  have act: "set (m_activerTimers (enqueue a t q)) =
    {(b, s). \<exists>e u. (e, b) \<in> set (m_timers (enqueue a t q)) \<and> map_of (heap q) b = Some u \<and> m_sequence u = s}"
    unfolding enqueue_def using assms(2)
    by (simp add: set_insort_key tq_invD(7) [OF assms(1)]) auto
  show "tq_inv F (enqueue a t q)"
    unfolding tq_inv_def
  proof (intro conjI)
    show "sorted (m_timers (enqueue a t q))"
      using tq_invD(1) [OF assms(1)] by (simp add: enqueue_def sorted_insort)
    show "distinct (map snd (m_timers (enqueue a t q)) @ F)" using d by (simp add: enqueue_def)
    show "distinct (map fst (heap (enqueue a t q)))"
      using tq_invD(3) [OF assms(1)] by (simp add: enqueue_def)
    show "fst ` set (heap (enqueue a t q)) = snd ` set (m_timers (enqueue a t q)) \<union> set F"
      using tq_invD(4) [OF assms(1)] by (simp add: enqueue_def set_insort_key)
    show "0 \<notin> fst ` set (heap (enqueue a t q))"
      using tq_invD(5) [OF assms(1)] by (simp add: enqueue_def)
    show "\<forall>e b. (e, b) \<in> set (m_timers (enqueue a t q)) \<longrightarrow>
        (\<exists>u. map_of (heap (enqueue a t q)) b = Some u \<and> m_expiration u = e)"
      using tq_invD(6) [OF assms(1)] assms(2) by (simp add: enqueue_def set_insort_key)
    show "set (m_activerTimers (enqueue a t q)) =
       {(b, s). \<exists>e u. (e, b) \<in> set (m_timers (enqueue a t q)) \<and>
          map_of (heap (enqueue a t q)) b = Some u \<and> m_sequence u = s}"
      using act by (simp add: enqueue_def)
    show "distinct (m_activerTimers (enqueue a t q))"
      using tq_invD(8) [OF assms(1)] n2 by (simp add: enqueue_def distinct_insort)
    show "length (m_activerTimers (enqueue a t q)) = length (m_timers (enqueue a t q))"
      using len by (simp add: enqueue_def length_insort)
    show "\<forall>x\<in>set (m_cancelTimers (enqueue a t q)). fst x = 0"
      using tq_invD(10) [OF assms(1)] by (simp add: enqueue_def)
    show "\<forall>a' u. map_of (heap (enqueue a t q)) a' = Some u \<longrightarrow> isRepeat u = (m_interval u > 0)"
      using tq_invD(11) [OF assms(1)] by (simp add: enqueue_def)
  qed
qed

lemma new_timer_inv:
  assumes "tq_inv F q" and "allocator_ok alloc" and "new_timer alloc cb when iv q = (a, q')"
  shows "tq_inv (a # F) q'" and "map_of (heap q') a = Some (Timer cb when iv (g_AutocreatemSequence q))"
    and "m_timers q' = m_timers q" and "timerfd q' = timerfd q" and "ticks q' = ticks q"
proof -
  have fresh: "a \<notin> fst ` set (heap q)" "a \<noteq> 0"
  proof -
    have "a = alloc (g_AutocreatemSequence q) (map fst (heap q))"
      using assms(3) by (simp add: new_timer_def Let_def)
    then have "a \<notin> set (map fst (heap q))" "a \<noteq> 0" using assms(2) unfolding allocator_ok_def by blast+
    then show "a \<notin> fst ` set (heap q)" "a \<noteq> 0" by simp_all
  qed
  have q': "q' = q\<lparr>heap := (a, Timer cb when iv (g_AutocreatemSequence q)) # heap q,
               g_AutocreatemSequence := g_AutocreatemSequence q + 1\<rparr>"
    using assms(3) by (auto simp: new_timer_def Let_def)
  have notin: "a \<notin> set F" "a \<notin> snd ` set (m_timers q)"
    using assms(1) fresh by (auto simp: tq_inv_def)
  have same: "map_of ((a, x) # heap q) b = map_of (heap q) b" if "(e, b) \<in> set (m_timers q)" for e b x
    using notin that by force
  show "tq_inv (a # F) q'"
    unfolding tq_inv_def
  proof (intro conjI)
    show "sorted (m_timers q')" using tq_invD(1) [OF assms(1)] by (simp add: q')
    show "distinct (map snd (m_timers q') @ a # F)"
      using tq_invD(2) [OF assms(1)] notin by (auto simp: q')
    show "distinct (map fst (heap q'))" using tq_invD(3) [OF assms(1)] fresh by (simp add: q')
    show "fst ` set (heap q') = snd ` set (m_timers q') \<union> set (a # F)"
      using tq_invD(4) [OF assms(1)] by (simp add: q')
    show "0 \<notin> fst ` set (heap q')" using tq_invD(5) [OF assms(1)] fresh by (simp add: q')
    show "\<forall>e b. (e, b) \<in> set (m_timers q') \<longrightarrow>
        (\<exists>u. map_of (heap q') b = Some u \<and> m_expiration u = e)"
      using tq_invD(6) [OF assms(1)] by (simp add: q' same del: map_of.simps)
    show "set (m_activerTimers q') =
       {(b, s). \<exists>e u. (e, b) \<in> set (m_timers q') \<and> map_of (heap q') b = Some u \<and> m_sequence u = s}"
      using tq_invD(7) [OF assms(1)] by (simp add: q' same cong: conj_cong del: map_of.simps)
    show "distinct (m_activerTimers q')" using tq_invD(8) [OF assms(1)] by (simp add: q')
    show "length (m_activerTimers q') = length (m_timers q')"
      using tq_invD(9) [OF assms(1)] by (simp add: q')
    show "\<forall>x\<in>set (m_cancelTimers q'). fst x = 0" using tq_invD(10) [OF assms(1)] by (simp add: q')
    show "\<forall>b u. map_of (heap q') b = Some u \<longrightarrow> isRepeat u = (m_interval u > 0)"
      using tq_invD(11) [OF assms(1)] by (simp add: q' Timer_def)
  qed
  show "map_of (heap q') a = Some (Timer cb when iv (g_AutocreatemSequence q))"
    and "m_timers q' = m_timers q" and "timerfd q' = timerfd q" and "ticks q' = ticks q"
    by (simp_all add: q')
qed

section \<open>Every operation keeps the invariant and does not abort\<close>

lemma addTimer_spec:
  assumes "tq_inv F q" and "allocator_ok alloc"
  obtains a q1 t q2 where "addTimer clk alloc cb when iv q = Some (Timerid a (g_AutocreatemSequence q), q2)"
    and "new_timer alloc cb when iv q = (a, q1)" and "t = Timer cb when iv (g_AutocreatemSequence q)"
    and "q2 = (if m_timers q = [] \<or> when < fst (hd (m_timers q)) then resetTimerfd clk when (enqueue a t q1)
               else enqueue a t q1)"
    and "m_timers q1 = m_timers q" and "timerfd q1 = timerfd q" and "ticks q1 = ticks q"
    and "tq_inv F q2"
proof -
  obtain a q1 where n: "new_timer alloc cb when iv q = (a, q1)" by fastforce
  note N = new_timer_inv [OF assms n]
  note I = insert_timer_spec [OF N(1,2)]
  show ?thesis
    by (rule that [OF _ n refl refl N(3-5)])
      (use N I in \<open>simp_all add: addTimer_def addTimerInLoop_def deref_def n Let_def Timer_def\<close>)
qed

text \<open>
  The handle of a timer holds a null pointer, so it is in no set of active timers: to cancel a
  timer finds none. At most a useless entry is noted while the queue runs its callbacks.
\<close>

lemma cancelTimer_spec:
  assumes "tq_inv F q" and "tid_timer h = 0"
  shows "cancelTimer h q =
    Some (if isCallingExpired q then q\<lparr>m_cancelTimers := List.insert (0, tid_sequence h) (m_cancelTimers q)\<rparr>
          else q)"
proof -
  have "(0, tid_sequence h) \<notin> set (m_activerTimers q)"
  proof
    assume "(0, tid_sequence h) \<in> set (m_activerTimers q)"
    then obtain t where "map_of (heap q) 0 = Some t" unfolding tq_invD(7) [OF assms(1)] by blast
    then have "0 \<in> fst ` set (heap q)" by (force dest: map_of_SomeD)
    with tq_invD(5) [OF assms(1)] show False by blast
  qed
  then show ?thesis
    using assms(2) tq_invD(9) [OF assms(1)] by (simp add: cancelTimer_def cancelTimerInLoop_def Let_def)
qed

lemma tq_inv_cancel:
  "tq_inv F q \<Longrightarrow> tq_inv F (q\<lparr>m_cancelTimers := List.insert (0, s) (m_cancelTimers q)\<rparr>)"
  unfolding tq_inv_def by (elim conjE, intro conjI) (simp_all add: List.set_insert del: distinct_append)

text \<open>The handles a program has are those that \<^verbatim>\<open>addTimer\<close> returned.\<close>

fun op_ok :: "timer_op \<Rightarrow> bool" where
  "op_ok (CancelTimer h) \<longleftrightarrow> tid_timer h = 0"
| "op_ok (AddTimer _ _ _) \<longleftrightarrow> True"

definition acts_ok :: "(nat \<Rightarrow> timer_op list) \<Rightarrow> bool" where
  "acts_ok acts \<longleftrightarrow> (\<forall>c. list_all op_ok (acts c))"

text \<open>
  The descriptor goes off in time for the first timer due up to \<open>b\<close>: no later than the moment
  the timer expires, or a hundred microseconds from now when that moment is near or past.
\<close>

definition armed_upto :: "clock \<Rightarrow> timestamp \<Rightarrow> timerqueue \<Rightarrow> bool" where
  "armed_upto clk b q \<longleftrightarrow> m_timers q \<noteq> [] \<and> fst (hd (m_timers q)) \<le> b \<longrightarrow>
     (\<exists>d. timerfd q = Some d \<and> d \<le> max (fst (hd (m_timers q))) (clk (ticks q) + 100))"

lemma howMuch_deadline:
  "howMuchTimeFromNow e now = (sec, nsec) \<Longrightarrow>
   now + sec * kMicroSecondsPerSecond + nsec div 1000 = max e (now + 100)"
  by (auto simp: howMuchTimeFromNow_def Let_def kMicroSecondsPerSecond_def max_def split: if_splits)

lemma resetTimerfd_arms:
  "timerfd (resetTimerfd clk e q) = Some (max e (clk (ticks q) + 100))"
  "ticks (resetTimerfd clk e q) = Suc (ticks q)"
  using howMuch_deadline [of e "clk (ticks q)"]
  by (auto simp: resetTimerfd_def now_of_def Let_def split: prod.splits)

lemma hd_insort:
  "fst (hd (insort (w, a) xs)) = (if xs = [] \<or> w < fst (hd xs) then w else fst (hd xs))"
  if "sorted xs" for xs :: "(timestamp \<times> nat) list"
  using that by (cases xs) (auto simp: less_eq_prod_def)

lemma armed_upto_reset:
  assumes "mono clk" and "fst (hd (m_timers q)) = e"
  shows "armed_upto clk b (resetTimerfd clk e q)"
  using assms monoD [OF assms(1), of "ticks q" "Suc (ticks q)"]
  by (auto simp: armed_upto_def resetTimerfd_arms max_def)

definition keeps :: "timerqueue \<Rightarrow> timerqueue \<Rightarrow> bool" where
  "keeps q q' \<longleftrightarrow> set (m_timers q) \<subseteq> set (m_timers q') \<and> isCallingExpired q' = isCallingExpired q \<and>
     (\<forall>a t. map_of (heap q) a = Some t \<longrightarrow> map_of (heap q') a = Some t)"

lemma timers_kept_refl: "keeps q q" by (simp add: keeps_def)

lemma timers_kept_trans: "keeps p q \<Longrightarrow> keeps q r \<Longrightarrow> keeps p r"
  unfolding keeps_def by auto

lemma run_op_spec:
  assumes "tq_inv F q" and "allocator_ok alloc" and "op_ok op" and "mono clk"
  shows "\<exists>q'. run_op clk alloc op q = Some q' \<and> tq_inv F q' \<and> keeps q q' \<and>
    (armed_upto clk b q \<longrightarrow> armed_upto clk b q')"
proof (cases op)
  case (AddTimer cb wh iv)
  obtain a q1 t q2
    where run: "addTimer clk alloc cb wh iv q = Some (Timerid a (g_AutocreatemSequence q), q2)"
    and n: "new_timer alloc cb wh iv q = (a, q1)" and t: "t = Timer cb wh iv (g_AutocreatemSequence q)"
    and q2: "q2 = (if m_timers q = [] \<or> wh < fst (hd (m_timers q)) then resetTimerfd clk wh (enqueue a t q1)
               else enqueue a t q1)"
    and same: "m_timers q1 = m_timers q" "timerfd q1 = timerfd q" "ticks q1 = ticks q"
    and inv: "tq_inv F q2"
    by (rule addTimer_spec [OF assms(1,2)])
  have e: "m_expiration t = wh" by (simp add: t Timer_def)
  have h1: "fst (hd (m_timers (enqueue a t q1))) =
      (if m_timers q = [] \<or> wh < fst (hd (m_timers q)) then wh else fst (hd (m_timers q)))"
    using tq_invD(1) [OF assms(1)] by (simp add: enqueue_def e same hd_insort)
  have arm: "armed_upto clk b q2" if "armed_upto clk b q"
  proof (cases "m_timers q = [] \<or> wh < fst (hd (m_timers q))")
    case True
    have "armed_upto clk b (resetTimerfd clk wh (enqueue a t q1))"
      by (rule armed_upto_reset [OF assms(4)]) (simp add: h1 True)
    then show ?thesis by (simp add: q2 True)
  next
    case False
    then show ?thesis using that h1 by (simp add: q2 armed_upto_def enqueue_def same)
  qed
  have fresh: "a \<notin> fst ` set (heap q)"
  proof -
    have "a = alloc (g_AutocreatemSequence q) (map fst (heap q))"
      using n by (simp add: new_timer_def Let_def)
    then have "a \<notin> set (map fst (heap q))" using assms(2) unfolding allocator_ok_def by blast
    then show ?thesis by simp
  qed
  have h: "heap q2 = (a, t) # heap q" "set (m_timers q2) = insert (wh, a) (set (m_timers q))"
    "isCallingExpired q2 = isCallingExpired q"
    using n by (auto simp: q2 enqueue_def new_timer_def Let_def t Timer_def set_insort_key)
  have "map_of (heap q) a = None" using fresh by (simp add: map_of_eq_None_iff)
  then have "keeps q q2" unfolding keeps_def h by auto
  with run inv arm show ?thesis by (simp add: AddTimer)
next
  case (CancelTimer h)
  then show ?thesis
    using assms by (simp add: cancelTimer_spec tq_inv_cancel keeps_def armed_upto_def)
qed

lemma for_each_total:
  assumes "P s" and "\<And>i t. i \<in> set is \<Longrightarrow> P t \<Longrightarrow> \<exists>t'. f i t = Some t' \<and> P t'"
  shows "\<exists>s'. for_each f is s = Some s' \<and> P s'"
  using assms
proof (induction "is" arbitrary: s)
  case (Cons i "is")
  obtain t where t: "f i s = Some t" "P t" using Cons.prems(1) Cons.prems(2) [of i s] by auto
  have "\<exists>s'. for_each f is t = Some s' \<and> P s'"
    by (rule Cons.IH [OF t(2)]) (rule Cons.prems(2); simp)
  then show ?case by (simp add: t)
qed simp

section \<open>The due timers leave the queue\<close>

definition actives :: "(nat \<times> timer) list \<Rightarrow> (timestamp \<times> nat) list \<Rightarrow> (nat \<times> int) set" where
  "actives h xs = {(a, s). \<exists>e t. (e, a) \<in> set xs \<and> map_of h a = Some t \<and> m_sequence t = s}"

lemma actives_remove:
  assumes "map_of h a = Some t" and "a \<notin> snd ` set xs"
  shows "actives h ((e, a) # xs) - {(a, m_sequence t)} = actives h xs"
    and "(a, m_sequence t) \<in> actives h ((e, a) # xs)"
proof -
  have "b \<noteq> a" if "(e', b) \<in> set xs" for e' b using that assms(2) by force
  then show "actives h ((e, a) # xs) - {(a, m_sequence t)} = actives h xs"
    using assms(1) by (auto simp: actives_def)
  show "(a, m_sequence t) \<in> actives h ((e, a) # xs)"
    using assms(1) by (auto simp: actives_def)
qed

lemma deactivate_all:
  assumes "set (m_activerTimers q) = actives (heap q) (E @ R)" and "distinct (m_activerTimers q)"
    and "distinct (map snd (E @ R))" and "\<And>e a. (e, a) \<in> set E \<Longrightarrow> map_of (heap q) a \<noteq> None"
  shows "\<exists>A. for_each deactivate E q = Some (q\<lparr>m_activerTimers := A\<rparr>) \<and>
    set A = actives (heap q) R \<and> distinct A \<and> length A + length E = length (m_activerTimers q)"
  using assms
proof (induction E arbitrary: q)
  case Nil
  then show ?case by (intro exI [of _ "m_activerTimers q"]) simp
next
  case (Cons x E)
  obtain e a where x: "x = (e, a)" by fastforce
  from Cons.prems(4) obtain t where t: "map_of (heap q) a = Some t" unfolding x by fastforce
  have new: "a \<notin> snd ` set (E @ R)" using Cons.prems(3) by (simp add: x image_Un)
  note act = actives_remove [OF t new, of e]
  let ?A = "remove1 (a, m_sequence t) (m_activerTimers q)"
  have mem: "(a, m_sequence t) \<in> set (m_activerTimers q)" using Cons.prems(1) act(2) by (simp add: x)
  have step: "deactivate x q = Some (q\<lparr>m_activerTimers := ?A\<rparr>)"
    using mem by (simp add: deactivate_def x deref_def t)
  have sA: "set ?A = actives (heap q) (E @ R)"
    using Cons.prems(1,2) act(1) by (simp add: x)
  have "\<exists>A. for_each deactivate E (q\<lparr>m_activerTimers := ?A\<rparr>)
      = Some (q\<lparr>m_activerTimers := ?A\<rparr>\<lparr>m_activerTimers := A\<rparr>) \<and>
    set A = actives (heap (q\<lparr>m_activerTimers := ?A\<rparr>)) R \<and> distinct A \<and>
    length A + length E = length (m_activerTimers (q\<lparr>m_activerTimers := ?A\<rparr>))"
    by (rule Cons.IH) (use Cons.prems sA in \<open>auto simp: x intro: distinct_remove1\<close>)
  then obtain A where "for_each deactivate E (q\<lparr>m_activerTimers := ?A\<rparr>) = Some (q\<lparr>m_activerTimers := A\<rparr>)"
    "set A = actives (heap q) R" "distinct A" "length A + length E = length ?A" by auto
  then show ?case using mem by (intro exI [of _ A]) (auto simp: step length_remove1 Suc_leI length_pos_if_in_set
        dest: length_pos_if_in_set)
qed

definition due :: "timestamp \<Rightarrow> timerqueue \<Rightarrow> (timestamp \<times> nat) list" where
  "due now q = takeWhile (\<lambda>e. fst e \<le> now) (m_timers q)"

lemma rest_later:
  fixes xs :: "(timestamp \<times> nat) list"
  assumes "sorted xs" and "x \<in> set (dropWhile (\<lambda>e. fst e \<le> now) xs)"
  shows "now < fst x"
  using assms by (induction xs) (auto simp: less_eq_prod_def split: if_splits)

lemma getExpired_spec:
  assumes "tq_inv [] q"
  shows "\<exists>A. getExpired now q =
      Some (due now q, q\<lparr>m_timers := dropWhile (\<lambda>e. fst e \<le> now) (m_timers q), m_activerTimers := A\<rparr>) \<and>
    tq_inv (map snd (due now q)) (q\<lparr>m_timers := dropWhile (\<lambda>e. fst e \<le> now) (m_timers q),
      m_activerTimers := A\<rparr>)"
proof -
  define R where "R = dropWhile (\<lambda>e. fst e \<le> now) (m_timers q)"
  define E where "E = due now q"
  have split: "m_timers q = E @ R" by (simp add: E_def R_def due_def)
  note I = tq_invD [OF assms]
  have live: "map_of (heap q) a \<noteq> None" if "(e, a) \<in> set E" for e a
    using I(6) that by (auto simp: split)
  have "\<exists>A. for_each deactivate E (q\<lparr>m_timers := R\<rparr>) = Some (q\<lparr>m_timers := R\<rparr>\<lparr>m_activerTimers := A\<rparr>) \<and>
    set A = actives (heap (q\<lparr>m_timers := R\<rparr>)) R \<and> distinct A \<and>
    length A + length E = length (m_activerTimers (q\<lparr>m_timers := R\<rparr>))"
    by (rule deactivate_all) (use I(2,7,8) live in \<open>auto simp: actives_def split\<close>)
  then obtain A where A: "for_each deactivate E (q\<lparr>m_timers := R\<rparr>) = Some (q\<lparr>m_timers := R, m_activerTimers := A\<rparr>)"
    "set A = actives (heap q) R" "distinct A" "length A + length E = length (m_activerTimers q)" by auto
  have late: "R = [] \<or> now < fst (hd R)"
    using rest_later [OF I(1), of "hd R" now] by (cases R) (simp_all add: R_def)
  have len: "length A = length R" using A(4) I(9) by (simp add: split)
  have get: "getExpired now q = Some (E, q\<lparr>m_timers := R, m_activerTimers := A\<rparr>)"
    using A(1) late len I(9) by (simp add: getExpired_def Let_def E_def R_def due_def)
  have "tq_inv (map snd E) (q\<lparr>m_timers := R, m_activerTimers := A\<rparr>)"
    unfolding tq_inv_def
    using I A(2,3) len by (simp add: split actives_def sorted_append) (use I(2,4,5) in \<open>auto simp: split\<close>)
  with get show ?thesis by (auto simp: E_def R_def)
qed

section \<open>Running the callbacks and putting the timers back\<close>

lemma run_ops_spec:
  assumes "tq_inv F q" and "allocator_ok alloc" and "list_all op_ok ops" and "mono clk"
  shows "\<exists>q'. for_each (run_op clk alloc) ops q = Some q' \<and> tq_inv F q' \<and> keeps q q' \<and>
    (armed_upto clk b q \<longrightarrow> armed_upto clk b q')"
proof -
  have "\<exists>q'. for_each (run_op clk alloc) ops q = Some q' \<and>
      (tq_inv F q' \<and> keeps q q' \<and> (armed_upto clk b q \<longrightarrow> armed_upto clk b q'))"
  proof (rule for_each_total)
    show "tq_inv F q \<and> keeps q q \<and> (armed_upto clk b q \<longrightarrow> armed_upto clk b q)"
      using assms(1) by (simp add: timers_kept_refl)
  next
    fix op p
    assume op: "op \<in> set ops"
      and p: "tq_inv F p \<and> keeps q p \<and> (armed_upto clk b q \<longrightarrow> armed_upto clk b p)"
    have "op_ok op" using op assms(3) by (simp add: list_all_iff)
    then obtain p' where "run_op clk alloc op p = Some p'" "tq_inv F p'" "keeps p p'"
      "armed_upto clk b p \<longrightarrow> armed_upto clk b p'"
      using run_op_spec [of F p alloc op clk b] p assms(2,4) by auto
    then show "\<exists>p'. run_op clk alloc op p = Some p' \<and> tq_inv F p' \<and> keeps q p' \<and>
        (armed_upto clk b q \<longrightarrow> armed_upto clk b p')"
      using p timers_kept_trans by auto
  qed
  then show ?thesis by auto
qed

text \<open>The callbacks of the timers \<open>E\<close>, read before they run.\<close>

definition callbacks_of :: "timerqueue \<Rightarrow> (timestamp \<times> nat) list \<Rightarrow> nat list" where
  "callbacks_of q E = map (\<lambda>x. m_callback (the (map_of (heap q) (snd x)))) E"

lemma run_timers_spec:
  assumes "tq_inv F q" and "set (map snd E) \<subseteq> set F" and "allocator_ok alloc" and "acts_ok acts"
    and "mono clk"
  shows "\<exists>q'. for_each (run_timer clk alloc acts) E (fs, q) = Some (fs @ callbacks_of q E, q') \<and>
    tq_inv F q' \<and> keeps q q' \<and> (armed_upto clk b q \<longrightarrow> armed_upto clk b q')"
  using assms(1,2)
proof (induction E arbitrary: fs q)
  case Nil
  then show ?case by (simp add: callbacks_of_def timers_kept_refl)
next
  case (Cons x E)
  obtain t where t: "deref q (snd x) = Some t" "map_of (heap q) (snd x) = Some t"
    by (rule deref_live [OF Cons.prems(1), of "snd x"]) (use Cons.prems(2) in auto)
  have "list_all op_ok (acts (m_callback t))" using assms(4) by (simp add: acts_ok_def)
  then obtain p where p: "for_each (run_op clk alloc) (acts (m_callback t)) q = Some p" "tq_inv F p"
    "keeps q p" "armed_upto clk b q \<longrightarrow> armed_upto clk b p"
    using run_ops_spec [OF Cons.prems(1) assms(3) _ assms(5)] by blast
  have sub: "set (map snd E) \<subseteq> set F" using Cons.prems(2) by simp
  obtain q' where q': "for_each (run_timer clk alloc acts) E (fs @ [m_callback t], p) =
      Some ((fs @ [m_callback t]) @ callbacks_of p E, q')"
    "tq_inv F q'" "keeps p q'" "armed_upto clk b p \<longrightarrow> armed_upto clk b q'"
    using Cons.IH [OF p(2) sub] by blast
  have same: "map_of (heap p) (snd y) = map_of (heap q) (snd y)" if "y \<in> set E" for y
  proof -
    have "snd y \<in> set F" using that Cons.prems(2) by auto
    then obtain u where "map_of (heap q) (snd y) = Some u"
      using deref_live [OF Cons.prems(1), of "snd y"] by blast
    then show ?thesis using p(3) by (simp add: keeps_def)
  qed
  have cb: "callbacks_of q (x # E) = m_callback t # callbacks_of p E"
    by (simp add: callbacks_of_def same t)
  have one: "run_timer clk alloc acts x (fs, q) = Some (fs @ [m_callback t], p)"
    by (simp add: run_timer_def t p(1))
  show ?case
    using q' p(4) timers_kept_trans [OF p(3) q'(3)] by (intro exI [of _ q']) (simp add: one cb)
qed

text \<open>A repeated timer goes back into the queue, any other is deleted.\<close>

lemma restart_inv:
  assumes "tq_inv (a # F) q" and "map_of (heap q) a = Some t"
  shows "tq_inv (a # F) (q\<lparr>heap := AList.update a (restart now t) (heap q)\<rparr>)"
    and "map_of (heap (q\<lparr>heap := AList.update a (restart now t) (heap q)\<rparr>)) a = Some (restart now t)"
proof -
  let ?q = "q\<lparr>heap := AList.update a (restart now t) (heap q)\<rparr>"
  note I = tq_invD [OF assms(1)]
  have new: "b \<noteq> a" if "(e, b) \<in> set (m_timers q)" for e b using I(2) that by force
  have dom: "fst ` set (AList.update a (restart now t) (heap q)) = fst ` set (heap q)"
  proof -
    have "a \<in> fst ` set (heap q)" using assms(2) by (force dest: map_of_SomeD)
    then show ?thesis by (metis dom_aupdate dom_map_of_conv_image_fst insert_absorb)
  qed
  show "map_of (heap ?q) a = Some (restart now t)" by simp
  show "tq_inv (a # F) ?q"
    unfolding tq_inv_def
  proof (intro conjI)
    show "distinct (map fst (heap ?q))" using I(3) by (simp add: distinct_update)
    show "fst ` set (heap ?q) = snd ` set (m_timers ?q) \<union> set (a # F)" using I(4) by (simp add: dom)
    show "0 \<notin> fst ` set (heap ?q)" using I(5) by (simp add: dom)
    show "\<forall>e b. (e, b) \<in> set (m_timers ?q) \<longrightarrow>
        (\<exists>u. map_of (heap ?q) b = Some u \<and> m_expiration u = e)"
      using I(6) by (simp add: new)
    show "set (m_activerTimers ?q) =
       {(b, s). \<exists>e u. (e, b) \<in> set (m_timers ?q) \<and> map_of (heap ?q) b = Some u \<and> m_sequence u = s}"
      using I(7) by (simp add: new cong: conj_cong)
    show "\<forall>b u. map_of (heap ?q) b = Some u \<longrightarrow> isRepeat u = (m_interval u > 0)"
      using I(11) assms(2) by (auto simp: restart_def)
  qed (use I(1,2,8,9,10) in simp_all)
qed

lemma delete_inv:
  assumes "tq_inv (a # F) q"
  shows "tq_inv F (q\<lparr>heap := AList.delete a (heap q)\<rparr>)"
proof -
  let ?q = "q\<lparr>heap := AList.delete a (heap q)\<rparr>"
  note I = tq_invD [OF assms]
  have new: "b \<noteq> a" if "(e, b) \<in> set (m_timers q)" for e b using I(2) that by force
  have dom: "fst ` set (AList.delete a (heap q)) = fst ` set (heap q) - {a}"
    by (metis dom_adelete dom_map_of_conv_image_fst)
  have notin: "a \<notin> set F" "a \<notin> snd ` set (m_timers q)" using I(2) by auto
  show ?thesis
    unfolding tq_inv_def
  proof (intro conjI)
    show "distinct (map snd (m_timers ?q) @ F)" using I(2) by simp
    show "distinct (map fst (heap ?q))" using I(3) by (simp add: distinct_delete)
    show "fst ` set (heap ?q) = snd ` set (m_timers ?q) \<union> set F" using I(4) notin by (auto simp: dom)
    show "0 \<notin> fst ` set (heap ?q)" using I(5) by (simp add: dom)
    show "\<forall>e b. (e, b) \<in> set (m_timers ?q) \<longrightarrow>
        (\<exists>u. map_of (heap ?q) b = Some u \<and> m_expiration u = e)"
      using I(6) by (simp add: new)
    show "set (m_activerTimers ?q) =
       {(b, s). \<exists>e u. (e, b) \<in> set (m_timers ?q) \<and> map_of (heap ?q) b = Some u \<and> m_sequence u = s}"
      using I(7) by (simp add: new cong: conj_cong)
    show "\<forall>b u. map_of (heap ?q) b = Some u \<longrightarrow> isRepeat u = (m_interval u > 0)"
      using I(11) by simp
  qed (use I(1,8,9,10) in simp_all)
qed

lemma addSecond_later:
  assumes "0 < iv"
  shows "now \<le> addSecond now iv"
proof -
  have "0 \<le> iv * of_int kMicroSecondsPerSecond" using assms by (simp add: kMicroSecondsPerSecond_def)
  then show ?thesis by (simp add: addSecond_def to_integer_def)
qed

text \<open>The timers of \<open>E\<close> that go back, with their next expiration.\<close>

definition again :: "timestamp \<Rightarrow> timerqueue \<Rightarrow> (timestamp \<times> nat) list \<Rightarrow> (timestamp \<times> nat) set" where
  "again now q E = {(m_expiration (restart now t), a) | a t.
     a \<in> snd ` set E \<and> map_of (heap q) a = Some t \<and> isRepeat t}"

lemma reset_one_spec:
  assumes "tq_inv (a # F) q" and "map_of (heap q) a = Some t" and "armed_upto clk 0 q" and "0 < now"
  obtains q' where "reset_one now (e, a) q = Some q'" and "tq_inv F q'" and "armed_upto clk 0 q'"
    and "set (m_timers q') = set (m_timers q) \<union> (if isRepeat t then {(m_expiration (restart now t), a)} else {})"
    and "map_of (heap q') = (map_of (heap q))(a := (if isRepeat t then Some (restart now t) else None))"
proof (cases "isRepeat t")
  case True
  let ?q = "q\<lparr>heap := AList.update a (restart now t) (heap q)\<rparr>"
  let ?r = "enqueue a (restart now t) ?q"
  note I = tq_invD [OF assms(1)]
  have "a \<noteq> 0" using I(4,5) by auto
  then have nc: "(a, m_sequence t) \<notin> set (m_cancelTimers q)" using I(10) by auto
  note R = restart_inv [OF assms(1,2), of now]
  note S = insert_timer_spec [OF R]
  have run: "reset_one now (e, a) q = Some ?r"
    using True nc S(1) by (simp add: reset_one_def deref_def assms(2))
  have "0 < m_interval t" using I(11) assms(2) True by blast
  then have late: "0 < m_expiration (restart now t)"
    using addSecond_later [of "m_interval t" now] True assms(4) by (simp add: restart_def)
  have "fst (hd (m_timers ?r)) = (if m_timers q = [] \<or> m_expiration (restart now t) < fst (hd (m_timers q))
      then m_expiration (restart now t) else fst (hd (m_timers q)))"
    using I(1) by (simp add: enqueue_def hd_insort)
  then have arm: "armed_upto clk 0 ?r"
    using assms(3) late by (auto simp: armed_upto_def enqueue_def split: if_splits)
  show ?thesis
    by (rule that [OF run S(2) arm]) (use True in \<open>auto simp: enqueue_def set_insort_key\<close>)
next
  case False
  let ?q = "q\<lparr>heap := AList.delete a (heap q)\<rparr>"
  have run: "reset_one now (e, a) q = Some ?q"
    using False by (simp add: reset_one_def deref_def assms(2))
  show ?thesis
    by (rule that [OF run delete_inv [OF assms(1)]]) (use False assms(3) in \<open>auto simp: armed_upto_def\<close>)
qed

lemma reset_loop:
  assumes "tq_inv (map snd E) q" and "armed_upto clk 0 q" and "0 < now"
  shows "\<exists>q'. for_each (reset_one now) E q = Some q' \<and> tq_inv [] q' \<and> armed_upto clk 0 q' \<and>
    set (m_timers q') = set (m_timers q) \<union> again now q E \<and>
    (\<forall>a. a \<notin> snd ` set E \<longrightarrow> map_of (heap q') a = map_of (heap q) a) \<and>
    (\<forall>a t. a \<in> snd ` set E \<longrightarrow> map_of (heap q) a = Some t \<longrightarrow>
      map_of (heap q') a = (if isRepeat t then Some (restart now t) else None))"
  using assms(1,2)
proof (induction E arbitrary: q)
  case Nil
  then show ?case by (simp add: again_def)
next
  case (Cons x E)
  obtain e a where x: "x = (e, a)" by fastforce
  have inv: "tq_inv (a # map snd E) q" using Cons.prems(1) by (simp add: x)
  have notin: "a \<notin> snd ` set E" using tq_invD(2) [OF inv] by simp
  obtain t where t: "map_of (heap q) a = Some t" by (rule deref_live [OF inv, of a]) auto
  obtain p where p: "reset_one now (e, a) q = Some p" "tq_inv (map snd E) p" "armed_upto clk 0 p"
    and tp: "set (m_timers p) = set (m_timers q) \<union> (if isRepeat t then {(m_expiration (restart now t), a)} else {})"
    and hp: "map_of (heap p) = (map_of (heap q))(a := (if isRepeat t then Some (restart now t) else None))"
    by (rule reset_one_spec [OF inv t Cons.prems(2) assms(3)])
  obtain q' where q': "for_each (reset_one now) E p = Some q'" "tq_inv [] q'" "armed_upto clk 0 q'"
    "set (m_timers q') = set (m_timers p) \<union> again now p E"
    and other: "\<forall>b. b \<notin> snd ` set E \<longrightarrow> map_of (heap q') b = map_of (heap p) b"
    and mine: "\<forall>b u. b \<in> snd ` set E \<longrightarrow> map_of (heap p) b = Some u \<longrightarrow>
      map_of (heap q') b = (if isRepeat u then Some (restart now u) else None)"
    using Cons.IH [OF p(2,3)] by blast
  have same: "map_of (heap p) b = map_of (heap q) b" if "b \<in> snd ` set E" for b
    using that notin hp by auto
  have ag: "again now q (x # E) = (if isRepeat t then {(m_expiration (restart now t), a)} else {}) \<union> again now p E"
  proof -
    have "again now p E = again now q E" by (simp add: again_def same cong: conj_cong)
    moreover have "again now q (x # E) =
        (if isRepeat t then {(m_expiration (restart now t), a)} else {}) \<union> again now q E"
      by (auto simp: again_def x t)
    ultimately show ?thesis by simp
  qed
  have "set (m_timers q') = set (m_timers q) \<union> again now q (x # E)" using q'(4) tp ag by simp
  moreover have "map_of (heap q') b = map_of (heap q) b" if "b \<notin> snd ` set (x # E)" for b
    using that other hp by (simp add: x)
  moreover have "map_of (heap q') b = (if isRepeat u then Some (restart now u) else None)"
    if "b \<in> snd ` set (x # E)" and "map_of (heap q) b = Some u" for b u
  proof (cases "b = a")
    case True
    then show ?thesis using other notin hp t that(2) by simp
  next
    case False
    then have "b \<in> snd ` set E" using that(1) by (simp add: x)
    then show ?thesis using mine same that(2) by simp
  qed
  ultimately show ?case using q'(1-3) p(1) by (intro exI [of _ q']) (simp add: x)
qed

lemma reset_spec:
  assumes "tq_inv (map snd E) q" and "armed_upto clk 0 q" and "0 < now" and "mono clk"
  shows "\<exists>q'. reset clk E now q = Some q' \<and> tq_inv [] q' \<and> (\<forall>b. armed_upto clk b q') \<and>
    isCallingExpired q' = isCallingExpired q \<and>
    set (m_timers q') = set (m_timers q) \<union> again now q E \<and>
    (\<forall>a. a \<notin> snd ` set E \<longrightarrow> map_of (heap q') a = map_of (heap q) a) \<and>
    (\<forall>a t. a \<in> snd ` set E \<longrightarrow> map_of (heap q) a = Some t \<longrightarrow>
      map_of (heap q') a = (if isRepeat t then Some (restart now t) else None))"
proof -
  obtain p where p: "for_each (reset_one now) E q = Some p" and inv: "tq_inv [] p" and arm: "armed_upto clk 0 p"
    and rest: "set (m_timers p) = set (m_timers q) \<union> again now q E"
      "\<forall>a. a \<notin> snd ` set E \<longrightarrow> map_of (heap p) a = map_of (heap q) a"
      "\<forall>a t. a \<in> snd ` set E \<longrightarrow> map_of (heap q) a = Some t \<longrightarrow>
        map_of (heap p) a = (if isRepeat t then Some (restart now t) else None)"
    using reset_loop [OF assms(1-3)] by blast
  have call: "isCallingExpired p = isCallingExpired q"
    using p by (rule for_each_inv) (auto simp: reset_one_def insert_timer_def Let_def abort_simps split: if_splits)
  show ?thesis
  proof (cases "m_timers p = []")
    case True
    then have "reset clk E now q = Some p" by (simp add: reset_def p isVaild_def invalid_def)
    then show ?thesis using inv rest call True by (auto simp: armed_upto_def)
  next
    case False
    obtain e a ts where ts: "m_timers p = (e, a) # ts" using False by (metis neq_Nil_conv surj_pair)
    obtain t where t: "map_of (heap p) a = Some t" "m_expiration t = e"
      using tq_invD(6) [OF inv] by (auto simp: ts)
    have run: "reset clk E now q = Some (if isVaild e then resetTimerfd clk e p else p)"
      by (simp add: reset_def p ts deref_def t)
    have "\<forall>b. armed_upto clk b (if isVaild e then resetTimerfd clk e p else p)"
    proof (cases "isVaild e")
      case True
      then show ?thesis by (auto intro!: armed_upto_reset assms(4) simp: ts)
    next
      case False
      then show ?thesis using arm by (auto simp: armed_upto_def isVaild_def ts)
    qed
    moreover define r where "r = (if isVaild e then resetTimerfd clk e p else p)"
    ultimately have r: "\<forall>b. armed_upto clk b r" "reset clk E now q = Some r" using run by simp_all
    have same: "m_timers r = m_timers p" "heap r = heap p" "isCallingExpired r = isCallingExpired p"
      "tq_inv [] r = tq_inv [] p" by (simp_all add: r_def)
    show ?thesis
    proof (intro exI [of _ r] conjI)
      show "reset clk E now q = Some r" by (rule r(2))
      show "tq_inv [] r" using inv by (simp only: same)
      show "\<forall>b. armed_upto clk b r" by (rule r(1))
      show "isCallingExpired r = isCallingExpired q" by (simp only: same call)
      show "set (m_timers r) = set (m_timers q) \<union> again now q E" by (simp only: same rest(1))
      show "\<forall>a. a \<notin> snd ` set E \<longrightarrow> map_of (heap r) a = map_of (heap q) a"
        unfolding same by (rule rest(2))
      show "\<forall>a t. a \<in> snd ` set E \<longrightarrow> map_of (heap q) a = Some t \<longrightarrow>
          map_of (heap r) a = (if isRepeat t then Some (restart now t) else None)"
        unfolding same by (rule rest(3))
    qed
  qed
qed

section \<open>The queue in a running loop\<close>

lemma armed_upto_less: "armed_upto clk b q \<Longrightarrow> c \<le> b \<Longrightarrow> armed_upto clk c q"
  by (auto simp: armed_upto_def)

lemma due_mem:
  assumes "sorted (m_timers q)"
  shows "set (due now q) = {x \<in> set (m_timers q). fst x \<le> now}"
proof -
  let ?R = "dropWhile (\<lambda>e. fst e \<le> now) (m_timers q)"
  have all: "set (m_timers q) = set (due now q) \<union> set ?R"
    by (simp add: due_def flip: set_append)
  have early: "fst x \<le> now" if "x \<in> set (due now q)" for x
    by (rule conjunct2 [OF set_takeWhileD [OF that [unfolded due_def]]])
  have late: "now < fst x" if "x \<in> set ?R" for x by (rule rest_later [OF assms that])
  show ?thesis
  proof (intro set_eqI iffI)
    fix x
    assume "x \<in> set (due now q)"
    then show "x \<in> {x \<in> set (m_timers q). fst x \<le> now}" using all early by blast
  next
    fix x
    assume x: "x \<in> {x \<in> set (m_timers q). fst x \<le> now}"
    then have "x \<notin> set ?R" using late [of x] by auto
    then show "x \<in> set (due now q)" using x all by blast
  qed
qed

lemma handleRead_spec:
  assumes "tq_inv [] q" and "allocator_ok alloc" and "acts_ok acts" and "mono clk"
    and "now = clk (ticks q)" and "0 < now"
  shows "\<exists>q'. handleRead clk alloc acts q = Some (callbacks_of q (due now q), q') \<and> tq_inv [] q' \<and>
    (\<forall>b. armed_upto clk b q') \<and> \<not> isCallingExpired q' \<and>
    (\<forall>e a t. (e, a) \<in> set (m_timers q) \<longrightarrow> map_of (heap q) a = Some t \<longrightarrow>
       (if now < e then (e, a) \<in> set (m_timers q') \<and> map_of (heap q') a = Some t
        else if isRepeat t then (addSecond now (m_interval t), a) \<in> set (m_timers q')
          \<and> map_of (heap q') a = Some (restart now t)
        else map_of (heap q') a = None))"
proof -
  let ?q = "q\<lparr>ticks := Suc (ticks q)\<rparr>"
  let ?E = "due now q"
  let ?R = "dropWhile (\<lambda>e. fst e \<le> now) (m_timers q)"
  note I = tq_invD [OF assms(1)]
  have "tq_inv [] ?q" using assms(1) by simp
  then obtain A where get: "getExpired now ?q = Some (?E, ?q\<lparr>m_timers := ?R, m_activerTimers := A\<rparr>)"
    and inv1: "tq_inv (map snd ?E) (?q\<lparr>m_timers := ?R, m_activerTimers := A\<rparr>)"
    using getExpired_spec [of ?q now] by (auto simp: due_def)
  define p where "p = ?q\<lparr>m_timers := ?R, m_activerTimers := A, isCallingExpired := True\<rparr>"
  have invp: "tq_inv (map snd ?E) p" unfolding p_def tq_inv_more by (rule inv1)
  have armp: "armed_upto clk now p"
  proof (cases ?R)
    case (Cons x xs)
    then have "now < fst (hd ?R)" using rest_later [OF I(1), of "hd ?R" now] by simp
    then show ?thesis by (simp add: armed_upto_def p_def)
  qed (simp add: armed_upto_def p_def)
  have hp: "heap p = heap q" by (simp add: p_def)
  obtain r where run: "for_each (run_timer clk alloc acts) ?E ([], p) = Some (callbacks_of q ?E, r)"
    and invr: "tq_inv (map snd ?E) r" and keep: "keeps p r" and armr: "armed_upto clk now r"
    using run_timers_spec [OF invp _ assms(2-4), of ?E "[]" now] armp by (auto simp: callbacks_of_def hp)
  let ?r = "r\<lparr>isCallingExpired := False\<rparr>"
  have "tq_inv (map snd ?E) ?r" "armed_upto clk 0 ?r"
    using invr armed_upto_less [OF armr, of 0] assms(6) by (simp_all add: armed_upto_def)
  then obtain q' where q': "reset clk ?E now ?r = Some q'" "tq_inv [] q'" "\<forall>b. armed_upto clk b q'"
    "isCallingExpired q' = isCallingExpired ?r"
    and T: "set (m_timers q') = set (m_timers ?r) \<union> again now ?r ?E"
    and O: "\<forall>a. a \<notin> snd ` set ?E \<longrightarrow> map_of (heap q') a = map_of (heap ?r) a"
    and M: "\<forall>a t. a \<in> snd ` set ?E \<longrightarrow> map_of (heap ?r) a = Some t \<longrightarrow>
      map_of (heap q') a = (if isRepeat t then Some (restart now t) else None)"
    using reset_spec [of ?E ?r clk now] assms(4,6) by blast
  have main: "handleRead clk alloc acts q = Some (callbacks_of q ?E, q')"
    using get run q'(1) by (simp add: handleRead_def now_of_def assms(5) [symmetric] p_def)
  have each: "if now < e then (e, a) \<in> set (m_timers q') \<and> map_of (heap q') a = Some t
        else if isRepeat t then (addSecond now (m_interval t), a) \<in> set (m_timers q')
          \<and> map_of (heap q') a = Some (restart now t)
        else map_of (heap q') a = None"
    if mem: "(e, a) \<in> set (m_timers q)" and t: "map_of (heap q) a = Some t" for e a t
  proof -
    have tr: "map_of (heap ?r) a = Some t" using keep t by (simp add: keeps_def hp)
    show ?thesis
    proof (cases "now < e")
      case True
      have "(e, a) \<notin> set ?E" using True due_mem [OF I(1)] by simp
      moreover have "(e, a) \<in> set ?E \<union> set ?R" using mem
        by (metis due_def set_append takeWhile_dropWhile_id)
      ultimately have "(e, a) \<in> set ?R" by simp
      then have in_r: "(e, a) \<in> set (m_timers ?r)" using keep by (auto simp: keeps_def p_def)
      then have "a \<notin> set (map snd ?E)" using tq_invD(2) [OF invr] by force
      then show ?thesis using in_r T O tr True by simp
    next
      case False
      then have "a \<in> snd ` set ?E" using mem due_mem [OF I(1)] by force
      then show ?thesis
        using False M tr T by (auto simp: again_def restart_def)
    qed
  qed
  show ?thesis
    using main q'(2-4) each by (intro exI [of _ q']) simp
qed

text \<open>
  What happens to a queue: calls from the loop's thread, time that passes, and the timer
  descriptor, which goes off once, no earlier than it was set to.
\<close>

inductive tq_step :: "clock \<Rightarrow> allocator \<Rightarrow> (nat \<Rightarrow> timer_op list) \<Rightarrow> timerqueue \<Rightarrow> timerqueue \<Rightarrow> bool"
  for clk alloc acts
where
  call: "op_ok op \<Longrightarrow> run_op clk alloc op q = Some q' \<Longrightarrow> tq_step clk alloc acts q q'"
| elapse: "tq_step clk alloc acts q (q\<lparr>ticks := Suc (ticks q)\<rparr>)"
| expire: "timerfd q = Some d \<Longrightarrow> d \<le> clk (ticks q) \<Longrightarrow>
    handleRead clk alloc acts (q\<lparr>timerfd := None\<rparr>) = Some (fired, q') \<Longrightarrow> tq_step clk alloc acts q q'"

inductive tq_reachable :: "clock \<Rightarrow> allocator \<Rightarrow> (nat \<Rightarrow> timer_op list) \<Rightarrow> timerqueue \<Rightarrow> bool"
  for clk alloc acts
where
  start: "tq_reachable clk alloc acts TimerQueue"
| step: "tq_reachable clk alloc acts q \<Longrightarrow> tq_step clk alloc acts q q' \<Longrightarrow> tq_reachable clk alloc acts q'"

definition clock_ok :: "clock \<Rightarrow> bool" where
  "clock_ok clk \<longleftrightarrow> mono clk \<and> (\<forall>n. 0 < clk n)"

lemma tq_reachable_inv:
  assumes "tq_reachable clk alloc acts q" and "allocator_ok alloc" and "acts_ok acts" and "clock_ok clk"
  shows "tq_inv [] q \<and> (\<forall>b. armed_upto clk b q) \<and> \<not> isCallingExpired q"
  using assms(1)
proof induction
  case start
  show ?case by (simp add: tq_inv_new armed_upto_def) (simp add: TimerQueue_def)
next
  case (step q q')
  have mono: "mono clk" and pos: "0 < clk n" for n using assms(4) by (simp_all add: clock_ok_def)
  from step.hyps(2) show ?case
  proof cases
    case (call op)
    have "tq_inv [] q' \<and> keeps q q' \<and> (armed_upto clk b q \<longrightarrow> armed_upto clk b q')" for b
      using run_op_spec [of "[]" q alloc op clk b] step.IH assms(2) call mono by auto
    then show ?thesis using step.IH by (auto simp: keeps_def)
  next
    case elapse
    have "clk (ticks q) \<le> clk (Suc (ticks q))" using mono by (simp add: monoD)
    then show ?thesis using step.IH by (fastforce simp: elapse armed_upto_def)
  next
    case (expire d fired)
    have "tq_inv [] (q\<lparr>timerfd := None\<rparr>)" using step.IH by simp
    then show ?thesis
      using handleRead_spec [OF _ assms(2,3) mono refl, of "q\<lparr>timerfd := None\<rparr>"] pos expire by auto
  qed
qed

section \<open>What the queue promises\<close>

text \<open>
  C30: In a running loop the set of timers and the set of active timers always have the same
  size, no timer leaks or is used after its deletion, and no assertion of an operation or of the
  expiry handler fails, whatever the callbacks do.
\<close>

theorem timer_queue_consistent:
  assumes "tq_reachable clk alloc acts q" and "allocator_ok alloc" and "acts_ok acts" and "clock_ok clk"
    and "op_ok op"
  shows "length (m_timers q) = length (m_activerTimers q) \<and>
    fst ` set (heap q) = snd ` set (m_timers q) \<and> distinct (map snd (m_timers q)) \<and>
    run_op clk alloc op q \<noteq> None \<and> handleRead clk alloc acts (q\<lparr>timerfd := None\<rparr>) \<noteq> None"
proof -
  have inv: "tq_inv [] q" using tq_reachable_inv [OF assms(1-4)] by blast
  have mono: "mono clk" and pos: "0 < clk n" for n using assms(4) by (simp_all add: clock_ok_def)
  have inv': "tq_inv [] (q\<lparr>timerfd := None\<rparr>)" using inv by simp
  show ?thesis
    using tq_invD(2,4,9) [OF inv] run_op_spec [OF inv assms(2,5) mono, where b = 0]
      handleRead_spec [OF inv' assms(2,3) mono refl] pos by auto
qed

text \<open>
  C29: A timer in the queue runs: the timer descriptor is armed to go off by the moment the timer
  expires, or within a hundred microseconds when that moment is near or past, and the handler that
  is called at or after the timer's moment runs its callback.
\<close>

theorem timer_runs_in_time:
  assumes "tq_reachable clk alloc acts q" and "allocator_ok alloc" and "acts_ok acts" and "clock_ok clk"
    and "(e, a) \<in> set (m_timers q)" and "map_of (heap q) a = Some t" and "e \<le> clk n"
  shows "(\<exists>d. timerfd q = Some d \<and> d \<le> max e (clk (ticks q) + 100)) \<and>
    (\<exists>fired q'. handleRead clk alloc acts (q\<lparr>timerfd := None, ticks := n\<rparr>) = Some (fired, q') \<and>
      m_callback t \<in> set fired)"
proof -
  have inv: "tq_inv [] q" and arm: "armed_upto clk e q" using tq_reachable_inv [OF assms(1-4)] by blast+
  have mono: "mono clk" and pos: "0 < clk n" using assms(4) by (simp_all add: clock_ok_def)
  have first: "m_timers q \<noteq> []" "fst (hd (m_timers q)) \<le> e"
    using assms(5) tq_invD(1) [OF inv] by (cases "m_timers q"; auto simp: less_eq_prod_def)+
  then have "\<exists>d. timerfd q = Some d \<and> d \<le> max e (clk (ticks q) + 100)"
    using arm by (auto simp: armed_upto_def)
  moreover
  let ?q = "q\<lparr>timerfd := None, ticks := n\<rparr>"
  have inv': "tq_inv [] ?q" using inv by simp
  have "(e, a) \<in> set (due (clk n) ?q)"
    using due_mem [OF tq_invD(1) [OF inv'], of "clk n"] assms(5,7) by simp
  then have "m_callback t \<in> set (callbacks_of ?q (due (clk n) ?q))"
    using assms(6) by (force simp: callbacks_of_def)
  then have "\<exists>fired q'. handleRead clk alloc acts ?q = Some (fired, q') \<and> m_callback t \<in> set fired"
    using handleRead_spec [OF inv' assms(2,3) mono, of "clk n"] pos by auto
  ultimately show ?thesis by blast
qed

text \<open>
  One expiry runs exactly the timers that are due, each once, in the order of their
  expirations. A timer not yet due stays; a repeated one goes back to expire an interval after the
  time of the handler; any other is deleted.
\<close>

lemma handle_read_runs_due:
  assumes "tq_reachable clk alloc acts q" and "allocator_ok alloc" and "acts_ok acts" and "clock_ok clk"
    and "now = clk (ticks q)"
  shows "\<exists>q'. handleRead clk alloc acts (q\<lparr>timerfd := None\<rparr>) =
      Some (map (\<lambda>x. m_callback (the (map_of (heap q) (snd x)))) (filter (\<lambda>x. fst x \<le> now) (m_timers q)), q') \<and>
    (\<forall>e a t. (e, a) \<in> set (m_timers q) \<longrightarrow> map_of (heap q) a = Some t \<longrightarrow>
       (if now < e then (e, a) \<in> set (m_timers q') \<and> map_of (heap q') a = Some t
        else if isRepeat t then (addSecond now (m_interval t), a) \<in> set (m_timers q')
          \<and> map_of (heap q') a = Some (restart now t)
        else map_of (heap q') a = None))"
proof -
  have inv: "tq_inv [] (q\<lparr>timerfd := None\<rparr>)" using tq_reachable_inv [OF assms(1-4)] by simp
  have mono: "mono clk" and pos: "0 < clk n" for n using assms(4) by (simp_all add: clock_ok_def)
  have flt: "takeWhile (\<lambda>x. fst x \<le> now) xs = filter (\<lambda>x. fst x \<le> now) xs"
    if "sorted xs" for xs :: "(timestamp \<times> nat) list"
    using that
  proof (induction xs)
    case (Cons x xs)
    have "now < fst y" if "y \<in> set xs" "now < fst x" for y
      using Cons.prems that by (fastforce simp: less_eq_prod_def)
    then have "filter (\<lambda>x. fst x \<le> now) xs = []" if "now < fst x"
      using that by (force simp: filter_empty_conv)
    then show ?case using Cons by (cases "fst x \<le> now") simp_all
  qed simp
  have "due now (q\<lparr>timerfd := None\<rparr>) = filter (\<lambda>x. fst x \<le> now) (m_timers q)"
    using flt tq_invD(1) [OF inv] by (simp add: due_def)
  then show ?thesis
    using handleRead_spec [OF inv assms(2,3) mono, of now] pos assms(5) by (auto simp: callbacks_of_def)
qed

text \<open>
  The handle that addTimer returns cancels nothing: outside the expiry handler a cancel
  leaves the queue as it is, inside it only a note is made that no timer ever matches.
\<close>

lemma cancel_does_nothing:
  assumes "tq_reachable clk alloc acts q" and "allocator_ok alloc" and "acts_ok acts" and "clock_ok clk"
    and "addTimer clk alloc cb wh iv p = Some (h, p')"
  shows "cancelTimer h q = Some q"
proof -
  have inv: "tq_inv [] q" and idle: "\<not> isCallingExpired q" using tq_reachable_inv [OF assms(1-4)] by blast+
  have "tid_timer h = 0" using assms(5)
    by (auto simp: addTimer_def new_timer_def Timerid_def Let_def abort_simps)
  then show ?thesis using cancelTimer_spec [OF inv] idle by simp
qed

text \<open>A queue with two timers, one of them repeated, whose callback adds a third.\<close>

definition demo_clock :: clock where "demo_clock n = 1000 * int (Suc n)"
definition demo_alloc :: allocator where "demo_alloc s as = Suc (sum_list as)"
definition demo_acts :: "nat \<Rightarrow> timer_op list" where
  "demo_acts c = (if c = 7 then [AddTimer 9 5000 0] else [])"
definition demo_queue :: timerqueue where
  "demo_queue = the (run_op demo_clock demo_alloc (AddTimer 7 2500 (1/100))
     (the (run_op demo_clock demo_alloc (AddTimer 8 90000 0) TimerQueue)))"

lemmas tq_eval = run_op.simps addTimer_def new_timer_def addTimerInLoop_def insert_timer_def deref_def
  resetTimerfd_def now_of_def howMuchTimeFromNow_def Let_def kMicroSecondsPerSecond_def Timer_def
  demo_clock_def demo_alloc_def TimerQueue_def Timerid_def

lemma demo_queue_eq:
  "demo_queue = \<lparr>heap = [(2, Timer 7 2500 (1/100) 1), (1, Timer 8 90000 0 0)],
     m_timers = [(2500, 2), (90000, 1)], m_activerTimers = [(1, 0), (2, 1)], m_cancelTimers = [],
     isCallingExpired = False, timerfd = Some 2500, g_AutocreatemSequence = 2, ticks = 2\<rparr>"
  by (simp add: demo_queue_def tq_eval)

lemma demo_ok:
  "allocator_ok demo_alloc" "acts_ok demo_acts" "clock_ok demo_clock"
  by (auto simp: allocator_ok_def demo_alloc_def acts_ok_def demo_acts_def clock_ok_def demo_clock_def
      intro!: monoI dest: member_le_sum_list)

lemma demo_reachable: "tq_reachable demo_clock demo_alloc demo_acts demo_queue"
proof -
  let ?q = "the (run_op demo_clock demo_alloc (AddTimer 8 90000 0) TimerQueue)"
  have "run_op demo_clock demo_alloc (AddTimer 8 90000 0) TimerQueue = Some ?q"
    by (simp add: tq_eval)
  then have 1: "tq_reachable demo_clock demo_alloc demo_acts ?q"
    by (rule tq_reachable.step [OF tq_reachable.start tq_step.call, rotated]) simp
  have "run_op demo_clock demo_alloc (AddTimer 7 2500 (1/100)) ?q = Some demo_queue"
    by (simp add: demo_queue_def tq_eval)
  then show ?thesis
    by (rule tq_reachable.step [OF 1 tq_step.call, rotated]) simp
qed

theorem timer_queue_consistent_witness:
  "length (m_timers demo_queue) = length (m_activerTimers demo_queue) \<and>
   run_op demo_clock demo_alloc (CancelTimer (Timerid 2 1)) demo_queue \<noteq> None \<and>
   handleRead demo_clock demo_alloc demo_acts (demo_queue\<lparr>timerfd := None\<rparr>) \<noteq> None"
  using timer_queue_consistent [OF demo_reachable demo_ok, of "CancelTimer (Timerid 2 1)"]
  by (simp add: Timerid_def)

theorem timer_runs_in_time_witness:
  "\<exists>fired q'. handleRead demo_clock demo_alloc demo_acts (demo_queue\<lparr>timerfd := None, ticks := 5\<rparr>)
     = Some (fired, q') \<and> 7 \<in> set fired"
  using timer_runs_in_time [OF demo_reachable demo_ok, of 2500 2 "Timer 7 2500 (1/100) 1" 5]
  by (simp add: demo_queue_eq Timer_def demo_clock_def)

end
