(* ===== verification/Connector.thy ===== *)
theory Connector
  imports Poll
begin

text \<open>
  \<^verbatim>\<open>net/connector.h/.cc\<close>: the state machine that connects to a server and tries again
  after a pause that doubles up to thirty seconds. What \<^verbatim>\<open>connect\<close> and
  \<^verbatim>\<open>getsockopt\<close> return are arguments, the functors that the connector puts into its loop's
  queue and the timers it asks for (each with its delay in milliseconds) are part of the state; a
  timer that fires calls \<open>startInLoop\<close>.
\<close>

section \<open>State\<close>

datatype connector_state = kDisconnected | kConnecting | kConnected

datatype queued_fn = ResetChannel | StopInLoop

record connector =
  enableConnect :: bool
  m_state :: connector_state
  m_channel :: "channel option"
  m_socket :: "int option"
  m_retryDelayMs :: int
  functors :: "queued_fn list"
  timers :: "int list"
  new_connections :: "int list"

definition kMaxRetryDelayMs :: int where "kMaxRetryDelayMs = 30 * 1000"
definition kInitRetryDelayMs :: int where "kInitRetryDelayMs = 500"

definition Connector :: connector where
  "Connector = \<lparr>enableConnect = False, m_state = kDisconnected, m_channel = None, m_socket = None,
     m_retryDelayMs = kInitRetryDelayMs, functors = [], timers = [], new_connections = []\<rparr>"

datatype errno = EINPROGRESS | EINTR | EISCONN | EAGAIN | EADDRINUSE | EADDRNOTAVAIL | ECONNREFUSED
  | ENETUNREACH | EACCES | EPERM | EAFNOSUPPORT | EALREADY | EBADF | EFAULT | ENOTSOCK | EOTHER

text \<open>A new socket and what \<^verbatim>\<open>Socket::connect\<close> made of it (\<open>None\<close>: it returned
  true).\<close>

type_synonym attempt = "int \<times> errno option"

section \<open>Operations\<close>

definition connecting :: "connector \<Rightarrow> connector option" where
  "connecting c = do {
     let c = c\<lparr>m_state := kConnecting\<rparr>;
     assert_that (m_channel c = None);
     sock \<leftarrow> m_socket c;
     let ch = Channel sock;
     Some (c\<lparr>m_channel := Some (ch\<lparr>m_events := new_events EnableWriting (m_events ch)\<rparr>)\<rparr>)
   }"

definition retry :: "connector \<Rightarrow> connector" where
  "retry c =
     (let c = c\<lparr>m_socket := None, m_state := kDisconnected\<rparr> in
      if enableConnect c then
        c\<lparr>timers := timers c @ [m_retryDelayMs c],
          m_retryDelayMs := min (m_retryDelayMs c * 2) kMaxRetryDelayMs\<rparr>
      else c)"

definition connect :: "attempt \<Rightarrow> connector \<Rightarrow> connector option" where
  "connect a c =
     (let c = c\<lparr>m_socket := Some (fst a)\<rparr> in
      case snd a of
        None \<Rightarrow> connecting c
      | Some e \<Rightarrow>
          if e \<in> {EINPROGRESS, EINTR, EISCONN} then connecting c
          else if e \<in> {EAGAIN, EADDRINUSE, EADDRNOTAVAIL, ECONNREFUSED, ENETUNREACH} then Some (retry c)
          else Some (c\<lparr>m_socket := None\<rparr>))"

definition startInLoop :: "attempt \<Rightarrow> connector \<Rightarrow> connector option" where
  "startInLoop a c = do {
     assert_that (m_state c = kDisconnected);
     if enableConnect c then connect a c else Some c
   }"

definition start :: "attempt \<Rightarrow> connector \<Rightarrow> connector option" where
  "start a c = startInLoop a (c\<lparr>enableConnect := True\<rparr>)"

definition restart :: "attempt \<Rightarrow> connector \<Rightarrow> connector option" where
  "restart a c = startInLoop a
     (c\<lparr>m_state := kDisconnected, m_retryDelayMs := kInitRetryDelayMs, enableConnect := True\<rparr>)"

definition stop :: "connector \<Rightarrow> connector" where
  "stop c = c\<lparr>enableConnect := False, functors := functors c @ [StopInLoop]\<rparr>"

text \<open>The channel stays until the queued functor deletes it.\<close>

definition removeAndResetChannel :: "connector \<Rightarrow> connector option" where
  "removeAndResetChannel c = do {
     ch \<leftarrow> m_channel c;
     Some (c\<lparr>m_channel := Some (ch\<lparr>m_events := new_events DisableAll (m_events ch)\<rparr>),
             functors := functors c @ [ResetChannel]\<rparr>)
   }"

definition resetChannel :: "connector \<Rightarrow> connector" where
  "resetChannel c = c\<lparr>m_channel := None\<rparr>"

definition stopInLoop :: "connector \<Rightarrow> connector option" where
  "stopInLoop c =
     (if m_state c = kConnecting then do {
        c \<leftarrow> removeAndResetChannel (c\<lparr>m_state := kDisconnected\<rparr>);
        Some (retry c)
      } else Some c)"

text \<open>\<open>err\<close> is what \<^verbatim>\<open>getError\<close> reads from the socket.\<close>

definition handleWrite :: "int \<Rightarrow> connector \<Rightarrow> connector option" where
  "handleWrite err c =
     (if m_state c = kConnecting then do {
        c \<leftarrow> removeAndResetChannel c;
        if err \<noteq> 0 then Some (retry c)
        else do {
          let c = c\<lparr>m_state := kConnected\<rparr>;
          if enableConnect c then do {
            sock \<leftarrow> m_socket c;
            Some (c\<lparr>new_connections := new_connections c @ [sock]\<rparr>)
          } else Some (c\<lparr>m_socket := None\<rparr>)
        }
      } else do {
        assert_that (m_state c = kDisconnected);
        Some c
      })"

definition handleError :: "connector \<Rightarrow> connector option" where
  "handleError c =
     (if m_state c = kConnecting then do {
        c \<leftarrow> removeAndResetChannel c;
        Some (retry c)
      } else Some c)"

section \<open>A connector in its loop\<close>

datatype connector_event = Start attempt | Restart attempt | Stop | TimerFires attempt
  | ChannelWritable int | ChannelError | RunFunctors

definition run_functor :: "queued_fn \<Rightarrow> connector \<Rightarrow> connector option" where
  "run_functor f c = (case f of ResetChannel \<Rightarrow> Some (resetChannel c) | StopInLoop \<Rightarrow> stopInLoop c)"

text \<open>
  \<open>RunFunctors\<close> is \<^verbatim>\<open>doPendingFunctors\<close>: the queue is taken out and run; what the
  functors queue waits for the next time.
\<close>

fun connector_step :: "connector_event \<Rightarrow> connector \<Rightarrow> connector option" where
  "connector_step (Start a) c = start a c"
| "connector_step (Restart a) c = restart a c"
| "connector_step Stop c = Some (stop c)"
| "connector_step (TimerFires a) c = startInLoop a (c\<lparr>timers := tl (timers c)\<rparr>)"
| "connector_step (ChannelWritable err) c = handleWrite err c"
| "connector_step ChannelError c = handleError c"
| "connector_step RunFunctors c = for_each run_functor (functors c) (c\<lparr>functors := []\<rparr>)"

text \<open>
  How the code uses a connector (\<^verbatim>\<open>TcpClient\<close>): it is started once, restarted only
  when its connection is gone and it was not stopped, and events reach its channel while the channel
  asks for them. The loop runs the queued functors after the events of each round, so a timer, which
  takes half a second at least, and a restart find the queue empty.
\<close>

fun used_well :: "connector_event \<Rightarrow> connector \<Rightarrow> bool" where
  "used_well (Start a) c \<longleftrightarrow> c = Connector"
| "used_well (Restart a) c \<longleftrightarrow> m_state c = kConnected \<and> enableConnect c \<and> functors c = []"
| "used_well Stop c \<longleftrightarrow> True"
| "used_well (TimerFires a) c \<longleftrightarrow> timers c \<noteq> [] \<and> functors c = []"
| "used_well (ChannelWritable err) c \<longleftrightarrow> (\<exists>ch. m_channel c = Some ch \<and> isWriting ch)"
| "used_well ChannelError c \<longleftrightarrow> (\<exists>ch. m_channel c = Some ch \<and> isWriting ch)"
| "used_well RunFunctors c \<longleftrightarrow> True"

fun connector_run :: "connector_event list \<Rightarrow> connector \<Rightarrow> connector option" where
  "connector_run [] c = Some c"
| "connector_run (x # xs) c = do { c \<leftarrow> connector_step x c; connector_run xs c }"

fun run_used_well :: "connector_event list \<Rightarrow> connector \<Rightarrow> bool" where
  "run_used_well [] c \<longleftrightarrow> True"
| "run_used_well (x # xs) c \<longleftrightarrow> used_well x c \<and>
     (case connector_step x c of None \<Rightarrow> True | Some c' \<Rightarrow> run_used_well xs c')"

section \<open>Invariant\<close>

definition connector_ok :: "connector \<Rightarrow> bool" where
  "connector_ok c \<longleftrightarrow>
     (m_state c = kConnecting \<longrightarrow> (\<exists>ch. m_channel c = Some ch \<and> isWriting ch) \<and> m_socket c \<noteq> None \<and>
        ResetChannel \<notin> set (functors c)) \<and>
     (m_state c \<noteq> kConnecting \<longrightarrow> m_channel c = None \<or>
        (\<exists>ch. m_channel c = Some ch \<and> \<not> isWriting ch) \<and> ResetChannel \<in> set (functors c)) \<and>
     (m_state c \<noteq> kDisconnected \<longrightarrow> timers c = []) \<and> length (timers c) \<le> 1"

lemma connector_ok_new: "connector_ok Connector"
  by (simp add: connector_ok_def Connector_def)

lemma writing_after:
  "isWriting ((Channel s)\<lparr>m_events := new_events EnableWriting (m_events (Channel s))\<rparr>)"
  "\<not> isWriting (ch\<lparr>m_events := new_events DisableAll e\<rparr>)"
  by (simp_all add: isWriting_def Channel_def event_defs)

lemma startInLoop_spec:
  assumes "m_channel c = None" and "functors c = []" and "m_state c = kDisconnected" and "timers c = []"
  shows "\<exists>c'. startInLoop a c = Some c' \<and> connector_ok c'"
  using assms writing_after(1)
  by (cases "snd a")
    (auto simp: startInLoop_def connect_def connecting_def retry_def Let_def connector_ok_def simp del: new_events.simps)

lemma remove_retry_spec:
  assumes "connector_ok c" and "m_state c = kConnecting"
  shows "\<exists>d. removeAndResetChannel c = Some d \<and> connector_ok (retry d) \<and>
    connector_ok (d\<lparr>m_state := kConnected\<rparr>) \<and> connector_ok (d\<lparr>m_state := kDisconnected\<rparr>) \<and>
    enableConnect d = enableConnect c \<and> m_socket d = m_socket c \<and> m_channel d \<noteq> None"
proof -
  obtain ch where ch: "m_channel c = Some ch" using assms by (auto simp: connector_ok_def)
  have t: "timers c = []" using assms by (auto simp: connector_ok_def)
  show ?thesis
    using ch t writing_after(2) assms(1)
    by (simp add: removeAndResetChannel_def retry_def Let_def connector_ok_def del: new_events.simps)
qed

lemma stopInLoop_spec:
  assumes "connector_ok c"
  shows "\<exists>c'. stopInLoop c = Some c' \<and> connector_ok c'"
proof (cases "m_state c = kConnecting")
  case True
  obtain ch where ch: "m_channel c = Some ch" using assms True by (auto simp: connector_ok_def)
  have t: "timers c = []" using assms True by (auto simp: connector_ok_def)
  show ?thesis
    using True ch t writing_after(2)
    by (simp add: stopInLoop_def removeAndResetChannel_def retry_def Let_def connector_ok_def del: new_events.simps)
next
  case False
  then show ?thesis using assms by (simp add: stopInLoop_def)
qed

text \<open>While the taken-out functors \<open>fs\<close> run, they count as queued.\<close>

lemma run_functors_spec:
  assumes "connector_ok (c\<lparr>functors := fs @ functors c\<rparr>)"
  shows "\<exists>c'. for_each run_functor fs c = Some c' \<and> connector_ok c'"
  using assms
proof (induction fs arbitrary: c)
  case (Cons f fs)
  show ?case
  proof (cases f)
    case ResetChannel
    have "m_state c \<noteq> kConnecting" using Cons.prems ResetChannel by (auto simp: connector_ok_def)
    then have "connector_ok ((resetChannel c)\<lparr>functors := fs @ functors (resetChannel c)\<rparr>)"
      using Cons.prems by (auto simp: connector_ok_def resetChannel_def)
    from Cons.IH [OF this] show ?thesis by (simp add: run_functor_def ResetChannel)
  next
    case StopInLoop
    have ok: "connector_ok (c\<lparr>functors := fs @ functors c\<rparr>)"
      using Cons.prems StopInLoop by (auto simp: connector_ok_def)
    have "\<exists>d. stopInLoop c = Some d \<and> connector_ok (d\<lparr>functors := fs @ functors d\<rparr>)"
    proof (cases "m_state c = kConnecting")
      case True
      obtain ch where ch: "m_channel c = Some ch" using ok True by (auto simp: connector_ok_def)
      have t: "timers c = []" using ok True by (auto simp: connector_ok_def)
      show ?thesis
        using True ch t writing_after(2)
        by (simp add: stopInLoop_def removeAndResetChannel_def retry_def Let_def connector_ok_def
            del: new_events.simps)
    next
      case False
      then show ?thesis using ok by (simp add: stopInLoop_def)
    qed
    then show ?thesis using Cons.IH by (auto simp: run_functor_def StopInLoop)
  qed
qed simp

lemma connector_step_spec:
  assumes ok: "connector_ok c" and use: "used_well x c"
  shows "\<exists>c'. connector_step x c = Some c' \<and> connector_ok c'"
proof (cases x)
  case (Start a)
  then have "c = Connector" using use by simp
  then show ?thesis using Start startInLoop_spec [of "Connector\<lparr>enableConnect := True\<rparr>" a]
    by (simp add: start_def Connector_def)
next
  case (Restart a)
  then have "m_state c = kConnected" "functors c = []" using use by auto
  then have "m_channel c = None" "timers c = []" using ok by (auto simp: connector_ok_def)
  then show ?thesis using Restart \<open>functors c = []\<close>
    by (simp add: restart_def startInLoop_spec)
next
  case Stop
  then show ?thesis using ok by (auto simp: stop_def connector_ok_def)
next
  case (TimerFires a)
  then have t: "timers c \<noteq> []" "functors c = []" using use by auto
  then have "m_state c = kDisconnected" "tl (timers c) = []"
    using ok by (auto simp: connector_ok_def dest: Suc_length_conv [THEN iffD1] split: list.splits)
      (cases "timers c"; simp)
  moreover have "m_channel c = None" using ok calculation(1) t(2) by (auto simp: connector_ok_def)
  ultimately show ?thesis using TimerFires t(2) by (simp add: startInLoop_spec)
next
  case (ChannelWritable err)
  then have conn: "m_state c = kConnecting" using use ok by (auto simp: connector_ok_def)
  have "m_socket c \<noteq> None" using ok conn by (auto simp: connector_ok_def)
  then show ?thesis
    using remove_retry_spec [OF ok conn] conn ChannelWritable
    by (auto simp: handleWrite_def Let_def) (auto simp: connector_ok_def)
next
  case ChannelError
  then have "m_state c = kConnecting" using use ok by (auto simp: connector_ok_def)
  then show ?thesis using remove_retry_spec [OF ok] ChannelError by (auto simp: handleError_def)
next
  case RunFunctors
  then show ?thesis using run_functors_spec [of "functors c" "c\<lparr>functors := []\<rparr>"] ok by simp
qed

lemma connector_run_spec:
  "connector_ok c \<Longrightarrow> run_used_well xs c \<Longrightarrow> \<exists>c'. connector_run xs c = Some c' \<and> connector_ok c'"
proof (induction xs arbitrary: c)
  case (Cons x xs)
  then obtain d where "connector_step x c = Some d" "connector_ok d"
    using connector_step_spec [of c x] by auto
  then show ?case using Cons by auto
qed simp

section \<open>The pauses\<close>

definition delays_ok :: "connector \<Rightarrow> bool" where
  "delays_ok c \<longleftrightarrow> kInitRetryDelayMs \<le> m_retryDelayMs c \<and> m_retryDelayMs c \<le> kMaxRetryDelayMs \<and>
     list_all (\<lambda>d. kInitRetryDelayMs \<le> d \<and> d \<le> kMaxRetryDelayMs) (timers c)"

lemmas delay_consts = kInitRetryDelayMs_def kMaxRetryDelayMs_def

lemma delays_retry: "delays_ok c \<Longrightarrow> delays_ok (retry c)"
  by (auto simp: delays_ok_def retry_def Let_def delay_consts)

lemma delays_more [simp]:
  "delays_ok (c\<lparr>m_socket := s\<rparr>) = delays_ok c" "delays_ok (c\<lparr>m_state := q\<rparr>) = delays_ok c"
  "delays_ok (c\<lparr>m_channel := h\<rparr>) = delays_ok c" "delays_ok (c\<lparr>functors := f\<rparr>) = delays_ok c"
  "delays_ok (c\<lparr>enableConnect := b\<rparr>) = delays_ok c" "delays_ok (c\<lparr>new_connections := n\<rparr>) = delays_ok c"
  by (simp_all add: delays_ok_def)

lemma delays_startInLoop: "delays_ok c \<Longrightarrow> startInLoop a c = Some c' \<Longrightarrow> delays_ok c'"
  by (auto simp: startInLoop_def connect_def connecting_def Let_def abort_simps delays_retry
      split: option.splits if_splits)

lemma delays_remove: "removeAndResetChannel c = Some c' \<Longrightarrow> delays_ok c' = delays_ok c"
  by (auto simp: removeAndResetChannel_def abort_simps)

lemma delays_functor: "delays_ok c \<Longrightarrow> run_functor f c = Some c' \<Longrightarrow> delays_ok c'"
  by (auto simp: run_functor_def resetChannel_def stopInLoop_def abort_simps delays_retry
      dest!: delays_remove split: queued_fn.splits if_splits)

lemma delays_step:
  assumes "delays_ok c" and "connector_step x c = Some c'"
  shows "delays_ok c'"
proof (cases x)
  case (Start a)
  then show ?thesis using assms delays_startInLoop [of "c\<lparr>enableConnect := True\<rparr>"] by (simp add: start_def)
next
  case (Restart a)
  have "delays_ok (c\<lparr>m_state := kDisconnected, m_retryDelayMs := kInitRetryDelayMs, enableConnect := True\<rparr>)"
    using assms(1) by (simp add: delays_ok_def delay_consts)
  moreover have "startInLoop a (c\<lparr>m_state := kDisconnected, m_retryDelayMs := kInitRetryDelayMs,
      enableConnect := True\<rparr>) = Some c'" using assms(2) Restart by (simp add: restart_def)
  ultimately show ?thesis by (rule delays_startInLoop)
next
  case (TimerFires a)
  have "delays_ok (c\<lparr>timers := tl (timers c)\<rparr>)"
    using assms(1) by (cases "timers c") (auto simp: delays_ok_def)
  then show ?thesis using assms(2) TimerFires delays_startInLoop by simp
next
  case (ChannelWritable err)
  then show ?thesis using assms
    by (auto simp: handleWrite_def Let_def abort_simps delays_retry dest!: delays_remove split: if_splits)
next
  case ChannelError
  then show ?thesis using assms
    by (auto simp: handleError_def abort_simps delays_retry dest!: delays_remove split: if_splits)
next
  case RunFunctors
  have "for_each run_functor (functors c) (c\<lparr>functors := []\<rparr>) = Some c'" using assms(2) RunFunctors by simp
  then show ?thesis
    by (rule for_each_inv) (use assms(1) delays_functor in auto)
next
  case Stop
  then show ?thesis using assms by (auto simp: stop_def)
qed

lemma delays_run: "delays_ok c \<Longrightarrow> connector_run xs c = Some c' \<Longrightarrow> delays_ok c'"
  by (induction xs arbitrary: c) (auto simp: abort_simps dest: delays_step)

lemma pause_step:
  fixes k :: nat
  shows "min (min (500 * 2 ^ k) 30000 * 2) 30000 = (min (500 * 2 ^ Suc k) 30000 :: int)"
  by (simp add: min_def)

lemma refused_again:
  assumes "m_state c = kDisconnected" and "enableConnect c" and "length (timers c) = 1"
    and "m_retryDelayMs c = min (500 * 2 ^ k) 30000"
  shows "\<exists>c'. connector_run (replicate n (TimerFires (s, Some ECONNREFUSED))) c = Some c' \<and>
    m_state c' = kDisconnected \<and> enableConnect c' \<and> length (timers c') = 1 \<and>
    m_retryDelayMs c' = min (500 * 2 ^ (k + n)) 30000 \<and>
    (0 < n \<longrightarrow> timers c' = [min (500 * 2 ^ (k + n - 1)) 30000])"
  using assms
proof (induction n arbitrary: c k)
  case (Suc n)
  have nil: "tl (timers c) = []" using Suc.prems(3) by (cases "timers c") auto
  let ?d = "retry (c\<lparr>timers := [], m_socket := Some s\<rparr>)"
  have one: "connector_step (TimerFires (s, Some ECONNREFUSED)) c = Some ?d"
    using Suc.prems nil by (simp add: startInLoop_def connect_def Let_def)
  have d: "m_state ?d = kDisconnected" "enableConnect ?d" "timers ?d = [min (500 * 2 ^ k) 30000]"
    "m_retryDelayMs ?d = min (500 * 2 ^ Suc k) 30000"
    using Suc.prems pause_step [of k] by (simp_all add: retry_def Let_def kMaxRetryDelayMs_def)
  obtain c' where c': "connector_run (replicate n (TimerFires (s, Some ECONNREFUSED))) ?d = Some c'"
    "m_state c' = kDisconnected" "enableConnect c'" "length (timers c') = 1"
    "m_retryDelayMs c' = min (500 * 2 ^ (Suc k + n)) 30000"
    "0 < n \<longrightarrow> timers c' = [min (500 * 2 ^ (Suc k + n - 1)) 30000]"
    using Suc.IH [OF d(1,2) _ d(4)] d(3) by auto
  show ?case
  proof (cases n)
    case 0
    then have "c' = ?d" using c'(1) by simp
    then show ?thesis using one c' d(3) 0 by simp
  next
    case (Suc m)
    then show ?thesis using one c' by simp
  qed
qed simp

section \<open>Properties\<close>

text \<open>
  C37: Every pause before a new attempt is between half a second and thirty seconds, whatever
  happens, and after k + 1 refused attempts in a row it is half a second times 2 to the k, up to thirty
  seconds.
\<close>

theorem retry_pause_doubles:
  "(connector_run xs Connector = Some c \<longrightarrow>
      list_all (\<lambda>d. 500 \<le> d \<and> d \<le> 30000) (timers c) \<and> m_retryDelayMs c \<le> 30000) \<and>
   (\<exists>c'. connector_run (Start (s, Some ECONNREFUSED) # replicate k (TimerFires (s, Some ECONNREFUSED)))
       Connector = Some c' \<and> timers c' = [min (500 * 2 ^ k) 30000])"
proof
  have "delays_ok Connector" by (simp add: delays_ok_def Connector_def delay_consts)
  then show "connector_run xs Connector = Some c \<longrightarrow>
      list_all (\<lambda>d. 500 \<le> d \<and> d \<le> 30000) (timers c) \<and> m_retryDelayMs c \<le> 30000"
    using delays_run [of Connector xs c] by (auto simp: delays_ok_def delay_consts)
  let ?d = "retry (Connector\<lparr>enableConnect := True, m_socket := Some s\<rparr>)"
  have one: "connector_step (Start (s, Some ECONNREFUSED)) Connector = Some ?d"
    by (simp add: start_def startInLoop_def connect_def Let_def Connector_def)
  have d: "m_state ?d = kDisconnected" "enableConnect ?d" "timers ?d = [500]"
    "m_retryDelayMs ?d = min (500 * 2 ^ 1) 30000"
    by (simp_all add: retry_def Let_def Connector_def delay_consts)
  show "\<exists>c'. connector_run (Start (s, Some ECONNREFUSED) # replicate k (TimerFires (s, Some ECONNREFUSED)))
       Connector = Some c' \<and> timers c' = [min (500 * 2 ^ k) 30000]"
  proof (cases k)
    case 0
    then show ?thesis using one d(3) by simp
  next
    case (Suc m)
    have "length (timers ?d) = 1" using d(3) by simp
    from refused_again [OF d(1,2) this d(4), of k s] show ?thesis using one Suc by auto
  qed
qed

theorem retry_pause_doubles_witness:
  "\<exists>c'. connector_run (Start (3, Some ECONNREFUSED) # replicate 7 (TimerFires (3, Some ECONNREFUSED)))
     Connector = Some c' \<and> timers c' = [30000]"
  using retry_pause_doubles [where xs = "[]" and c = Connector and s = 3 and k = 7] by simp

text \<open>
  A connector that is used as a client uses it never fails an assertion or follows a null
  pointer, waits for at most one timer, and then neither connects nor is connected; its channel is
  there and asks for writability exactly while it connects, apart from the moment until the queued
  functor deletes it.
\<close>

lemma connector_never_aborts:
  assumes "run_used_well xs Connector"
  shows "\<exists>c. connector_run xs Connector = Some c \<and> length (timers c) \<le> 1 \<and>
    (timers c \<noteq> [] \<longrightarrow> m_state c = kDisconnected) \<and>
    (m_state c = kConnecting \<longrightarrow> m_socket c \<noteq> None \<and> (\<exists>ch. m_channel c = Some ch \<and> isWriting ch)) \<and>
    (m_state c \<noteq> kConnecting \<longrightarrow> m_channel c = None \<or> ResetChannel \<in> set (functors c))"
proof -
  obtain c where c: "connector_run xs Connector = Some c" "connector_ok c"
    using connector_run_spec [OF connector_ok_new assms] by blast
  then show ?thesis unfolding connector_ok_def by blast
qed

text \<open>
  To stop a connector does not cancel its timer, and its channel is deleted a round later:
  one that is started again while a timer runs, or at once after it was stopped, fails an assertion.
\<close>

lemma start_after_stop_aborts:
  "connector_run [Start (3, Some ECONNREFUSED), Stop, RunFunctors, Start (4, Some EINPROGRESS), TimerFires a]
     Connector = None \<and>
   connector_run [Start (3, Some EINPROGRESS), Stop, RunFunctors, Start (4, Some EINPROGRESS)] Connector = None"
  by (simp add: start_def startInLoop_def connect_def connecting_def retry_def Let_def
      Connector_def Channel_def removeAndResetChannel_def run_functor_def stop_def stopInLoop_def)
end
