(* ===== verification/TcpClient.thy ===== *)
theory TcpClient
  imports Connector TcpConnection Text
begin

text \<open>
  \<^verbatim>\<open>net/address.h/.cc\<close> (an IPv4 address and port and how they are printed) and
  \<^verbatim>\<open>net/tcpclient.h/.cc\<close> (a connector with the connection it made). The fields of an
  address hold the numbers in the order of the host. A client's connections are told apart by the
  number the client gives them; \<open>destroy_queue\<close> are those whose \<^verbatim>\<open>connectDestroyed\<close> is
  in the loop's queue, \<open>closes\<close> those that the close callback was called with.
\<close>

section \<open>Addresses\<close>

unbundle bit_operations_syntax

record address =
  s_addr :: u32
  sin_port :: "16 word"

definition IPv4Address :: "u32 \<Rightarrow> u32 \<Rightarrow> address" where
  "IPv4Address a port = \<lparr>s_addr = a, sin_port = ucast port\<rparr>"

definition address_eq :: "address \<Rightarrow> address \<Rightarrow> bool" where
  "address_eq a b \<longleftrightarrow> s_addr a = s_addr b \<and> sin_port a = sin_port b"

definition octet :: "nat \<Rightarrow> u32 \<Rightarrow> nat" where
  "octet k a = unat (drop_bit k a AND 0xff)"

definition toString :: "address \<Rightarrow> bytes" where
  "toString a =
     to_string (octet 24 (s_addr a)) @ [46] @ to_string (octet 16 (s_addr a)) @ [46] @
     to_string (octet 8 (s_addr a)) @ [46] @ to_string (octet 0 (s_addr a)) @ [58] @
     to_string (unat (sin_port a))"

definition getPort :: "address \<Rightarrow> u32" where "getPort a = ucast (sin_port a)"

definition setPort :: "u32 \<Rightarrow> address \<Rightarrow> address" where "setPort v a = a\<lparr>sin_port := ucast v\<rparr>"

section \<open>The client\<close>

record tcpclient =
  m_connector :: connector
  m_name :: bytes
  m_isRetry :: bool
  m_enableConnect :: bool
  m_ConnectId :: nat
  m_connection :: "(nat \<times> bytes \<times> connection) option"
  closes :: "nat list"
  destroy_queue :: "(nat \<times> bytes \<times> connection) list"

definition TcpClient :: "bytes \<Rightarrow> tcpclient" where
  "TcpClient name = \<lparr>m_connector = Connector, m_name = name, m_isRetry = False, m_enableConnect = False,
     m_ConnectId = 1, m_connection = None, closes = [], destroy_queue = []\<rparr>"

definition enableRetry :: "tcpclient \<Rightarrow> tcpclient" where
  "enableRetry t = t\<lparr>m_isRetry := True\<rparr>"

definition connect :: "attempt \<Rightarrow> tcpclient \<Rightarrow> tcpclient option" where
  "connect a t = do {
     let t = t\<lparr>m_enableConnect := True\<rparr>;
     c \<leftarrow> start a (m_connector t);
     Some (t\<lparr>m_connector := c\<rparr>)
   }"

definition disconnect :: "tcpclient \<Rightarrow> tcpclient" where
  "disconnect t =
     (let t = t\<lparr>m_enableConnect := False\<rparr> in
      t\<lparr>m_connection := map_option (\<lambda>(i, n, c). (i, n, shutdown c)) (m_connection t)\<rparr>)"

definition stop :: "tcpclient \<Rightarrow> tcpclient" where
  "stop t = t\<lparr>m_enableConnect := False, m_connector := Connector.stop (m_connector t)\<rparr>"

text \<open>\<^verbatim>\<open>sprintf(buf, ":%s#%d", ...)\<close> into 32 bytes: a longer text, with its final zero,
  runs over the end.\<close>

definition sprintf_name :: "address \<Rightarrow> nat \<Rightarrow> bytes option" where
  "sprintf_name peer i =
     (let s = [58] @ toString peer @ [35] @ to_string i in
      if length s + 1 \<le> 32 then Some s else None)"

definition newConnection :: "int \<Rightarrow> address \<Rightarrow> tcpclient \<Rightarrow> tcpclient option" where
  "newConnection sock peer t = do {
     buf \<leftarrow> sprintf_name peer (m_ConnectId t);
     let i = m_ConnectId t;
     let t = t\<lparr>m_ConnectId := m_ConnectId t + 1\<rparr>;
     let name = m_name t @ buf;
     c \<leftarrow> connectEstablished (TcpConnection sock);
     Some (t\<lparr>m_connection := Some (i, name, c)\<rparr>)
   }"

text \<open>The connection \<open>(i, name, c)\<close> calls its close callback.\<close>

definition removeConnection :: "nat \<times> bytes \<times> connection \<Rightarrow> attempt \<Rightarrow> tcpclient \<Rightarrow> tcpclient option" where
  "removeConnection conne a t = do {
     let t = t\<lparr>closes := closes t @ [fst conne]\<rparr>;
     assert_that (map_option fst (m_connection t) = Some (fst conne));
     let t = t\<lparr>m_connection := None, destroy_queue := destroy_queue t @ [conne]\<rparr>;
     if m_isRetry t \<and> m_enableConnect t then do {
       c \<leftarrow> restart a (m_connector t);
       Some (t\<lparr>m_connector := c\<rparr>)
     } else Some t
   }"

text \<open>
  What happens to a client: its calls, and the events of its connector and of its connection. The
  connector's callback makes the connection (\<open>peer\<close> is the address the socket reports); a
  connection that closes calls \<open>removeConnection\<close>.
\<close>

datatype client_event = Connect attempt | Disconnect | StopClient | OfConnector connector_event address
  | OfConnection conn_op attempt | RunDestroyed

definition made_connection :: "connector \<Rightarrow> connector \<Rightarrow> int option" where
  "made_connection c c' =
     (if length (new_connections c) < length (new_connections c') then Some (last (new_connections c')) else None)"

fun client_step :: "client_event \<Rightarrow> tcpclient \<Rightarrow> tcpclient option" where
  "client_step (Connect a) t = connect a t"
| "client_step Disconnect t = Some (disconnect t)"
| "client_step StopClient t = Some (stop t)"
| "client_step (OfConnector e peer) t = do {
     c \<leftarrow> connector_step e (m_connector t);
     let t' = t\<lparr>m_connector := c\<rparr>;
     (case made_connection (m_connector t) c of
        None \<Rightarrow> Some t'
      | Some sock \<Rightarrow> newConnection sock peer t')
   }"
| "client_step (OfConnection op a) t =
     (case m_connection t of
        None \<Rightarrow> Some t
      | Some (i, n, c) \<Rightarrow> do {
          c' \<leftarrow> conn_step op c;
          let t' = t\<lparr>m_connection := Some (i, n, c')\<rparr>;
          if TcpConnection.m_state c \<noteq> kdisConnected \<and> TcpConnection.m_state c' = kdisConnected \<and> op \<noteq> Destroy
          then removeConnection (i, n, c') a t'
          else Some t'
        })"
| "client_step RunDestroyed t = do {
     _ \<leftarrow> for_each (\<lambda>x u. do { c \<leftarrow> connectDestroyed (snd (snd x)); Some u }) (destroy_queue t) ();
     Some (t\<lparr>destroy_queue := []\<rparr>)
   }"

section \<open>Names and printed addresses\<close>

lemma length_to_string: "n < 10 ^ Suc k \<Longrightarrow> length (to_string n) \<le> Suc k"
proof (induction k arbitrary: n)
  case 0
  then show ?case by (simp add: to_string.simps [of n])
next
  case (Suc k)
  then have "n div 10 < 10 ^ Suc k" by (simp add: less_mult_imp_div_less)
  then have "length (to_string (n div 10)) \<le> Suc k" by (rule Suc.IH)
  then show ?case by (simp add: to_string.simps [of n])
qed

lemma octet_less: "octet k a < 256"
proof -
  have "drop_bit k a AND 0xff \<le> 0xff" by (rule word_and_le1)
  then show ?thesis by (simp add: octet_def word_le_nat_alt)
qed

lemma length_octet: "length (to_string (octet k a)) \<le> 3"
  using length_to_string [of "octet k a" 2] octet_less [of k a] by (simp add: eval_nat_numeral)

lemma length_port: "length (to_string (unat (sin_port a))) \<le> 5"
proof -
  have "unat (sin_port a) < 2 ^ LENGTH(16)" by (rule unsigned_less)
  then have "unat (sin_port a) < 10 ^ Suc 4" by simp
  then have "length (to_string (unat (sin_port a))) \<le> Suc 4" by (rule length_to_string)
  then show ?thesis by simp
qed

lemma length_toString: "length (toString a) \<le> 21"
  using length_octet [of 24 "s_addr a"] length_octet [of 16 "s_addr a"] length_octet [of 8 "s_addr a"]
    length_octet [of 0 "s_addr a"] length_port [of a]
  by (simp add: toString_def)

lemma not_digit: "46 \<notin> set (to_string n)" "58 \<notin> set (to_string n)"
  using to_string_digits [of n] by (force simp: is_digit_def)+

lemma append_sep_eq:
  "d \<notin> set xs \<Longrightarrow> d \<notin> set ys \<Longrightarrow> xs @ d # as = ys @ d # bs \<longleftrightarrow> xs = ys \<and> as = bs"
  by (induction xs arbitrary: ys) (auto simp: Cons_eq_append_conv, (case_tac ys; auto)+)

lemma octets_determine:
  assumes "octet 24 a = octet 24 b" "octet 16 a = octet 16 b" "octet 8 a = octet 8 b" "octet 0 a = octet 0 b"
  shows "a = b"
proof (rule bit_word_eqI)
  have same: "bit a (k + i) = bit b (k + i)" if "octet k a = octet k b" and "i < 8" for k i
  proof -
    have "drop_bit k a AND 0xff = drop_bit k b AND 0xff" using that(1) unfolding octet_def by (rule unsigned_word_eqI)
    then have "bit (drop_bit k a AND mask 8) i = bit (drop_bit k b AND mask 8) i"
      by (simp add: mask_numeral)
    then show ?thesis using that(2) by (simp add: bit_and_iff bit_mask_iff bit_drop_bit_eq)
  qed
  fix n
  assume "n < LENGTH(32)"
  then have n: "n < 32" by simp
  consider "n < 8" | "8 \<le> n" "n < 16" | "16 \<le> n" "n < 24" | "24 \<le> n" by linarith
  then show "bit a n = bit b n"
  proof cases
    case 1
    then show ?thesis using same [of 0 n] assms(4) by simp
  next
    case 2
    then show ?thesis using same [of 8 "n - 8"] assms(3) by simp
  next
    case 3
    then show ?thesis using same [of 16 "n - 16"] assms(2) by simp
  next
    case 4
    then show ?thesis using same [of 24 "n - 24"] assms(1) n by simp
  qed
qed

text \<open>
  The name of a client's connection fits the 32 bytes it is printed into, up to the
  connection number 99999999.
\<close>

lemma connection_name_fits:
  assumes "i < 10 ^ 8"
  shows "sprintf_name peer i = Some ([58] @ toString peer @ [35] @ to_string i)"
  using length_toString [of peer] length_to_string [of i 7] assms
  by (simp add: sprintf_name_def)

text \<open>
  Two addresses are printed alike exactly when they are equal, so the text of an address is
  a key for it.
\<close>

lemma toString_injective: "toString a = toString b \<longleftrightarrow> address_eq a b"
proof
  assume "toString a = toString b"
  then have "octet 24 (s_addr a) = octet 24 (s_addr b)" "octet 16 (s_addr a) = octet 16 (s_addr b)"
    "octet 8 (s_addr a) = octet 8 (s_addr b)" "octet 0 (s_addr a) = octet 0 (s_addr b)"
    "unat (sin_port a) = unat (sin_port b)"
    unfolding toString_def by (simp_all add: append_sep_eq not_digit to_string_inj)
  then show "address_eq a b" by (simp add: address_eq_def octets_determine unsigned_word_eqI)
qed (simp add: address_eq_def toString_def)

text \<open>One connection more, and the name runs over the end.\<close>

lemma connection_name_overflows:
  "sprintf_name \<lparr>s_addr = 0xffffffff, sin_port = 0xffff\<rparr> 100000000 = None"
  by (simp add: sprintf_name_def toString_def octet_def to_string.simps)
end
