(* ===== verification/EventLoop.thy ===== *)
theory EventLoop
  imports Prelude
begin

text \<open>
  \<^verbatim>\<open>net/eventloop.h/.cc\<close>: one thread waits for events, calls the handlers of the active
  channels and then the functors that were queued for it, by itself or by other threads. The event
  descriptor with which others wake the loop is its counter. Functors are numbers; \<open>acts\<close> are the
  functors each functor queues when it runs. Other threads come in between any two steps of the loop,
  and between their own push, which the mutex makes atomic, and the wake-up after it: \<open>waking\<close> counts
  the threads that are between the two. \<open>queued\<close> and \<open>ran\<close> record the order in which functors were
  queued and run, and \<open>outside\<close> counts those of the waiting functors that the loop's own thread
  queued when the loop was not running.
\<close>

section \<open>State and operations\<close>

text \<open>Where the thread of the loop is: in \<^verbatim>\<open>poll\<close>, calling handlers, or calling the
  functors it took out of the queue.\<close>

datatype phase = Polling | Handling | Calling "nat list"

record eventloop =
  isQuit :: bool
  isLooping :: bool
  m_pendingFunctors :: "nat list"
  isCallingPendingFunctors :: bool
  m_wakeupfd :: nat
  at :: phase
  queued :: "nat list"
  ran :: "nat list"
  waking :: nat
  outside :: nat

definition EventLoop :: eventloop where
  "EventLoop = \<lparr>isQuit = False, isLooping = False, m_pendingFunctors = [],
     isCallingPendingFunctors = False, m_wakeupfd = 0, at = Polling, queued = [], ran = [],
     waking = 0, outside = 0\<rparr>"

definition wakeup :: "eventloop \<Rightarrow> eventloop" where
  "wakeup l = l\<lparr>m_wakeupfd := m_wakeupfd l + 1\<rparr>"

text \<open>Reading the event descriptor gives the counter and sets it to zero.\<close>

definition handleRead :: "eventloop \<Rightarrow> eventloop" where
  "handleRead l = l\<lparr>m_wakeupfd := 0\<rparr>"

text \<open>The part under the mutex, and the whole function.\<close>

definition push_functor :: "nat \<Rightarrow> eventloop \<Rightarrow> eventloop" where
  "push_functor f l = l\<lparr>m_pendingFunctors := m_pendingFunctors l @ [f], queued := queued l @ [f]\<rparr>"

definition queueInLoop :: "bool \<Rightarrow> nat \<Rightarrow> eventloop \<Rightarrow> eventloop" where
  "queueInLoop isInLoopThread f l =
     (let l = push_functor f l in
      if \<not> isInLoopThread \<or> isCallingPendingFunctors l then wakeup l else l)"

text \<open>In the loop's thread \<open>cb\<close> is called at once: \<open>run\<close> is what it does.\<close>

definition runInLoop :: "bool \<Rightarrow> nat \<Rightarrow> (eventloop \<Rightarrow> eventloop) \<Rightarrow> eventloop \<Rightarrow> eventloop" where
  "runInLoop isInLoopThread f run l = (if isInLoopThread then run l else queueInLoop isInLoopThread f l)"

definition quit :: "bool \<Rightarrow> eventloop \<Rightarrow> eventloop" where
  "quit isInLoopThread l =
     (let l = l\<lparr>isQuit := True\<rparr> in if \<not> isInLoopThread then wakeup l else l)"

text \<open>\<^verbatim>\<open>doPendingFunctors\<close>: taking the queue, then each functor.\<close>

definition take_functors :: "eventloop \<Rightarrow> eventloop" where
  "take_functors l =
     l\<lparr>isCallingPendingFunctors := True, at := Calling (m_pendingFunctors l), m_pendingFunctors := [],
       outside := 0\<rparr>"

definition call_functor :: "(nat \<Rightarrow> nat list) \<Rightarrow> nat \<Rightarrow> nat list \<Rightarrow> eventloop \<Rightarrow> eventloop" where
  "call_functor acts f fs l = fold (queueInLoop True) (acts f) (l\<lparr>ran := ran l @ [f], at := Calling fs\<rparr>)"

definition end_functors :: "eventloop \<Rightarrow> eventloop" where
  "end_functors l = l\<lparr>isCallingPendingFunctors := False, at := Polling\<rparr>"

text \<open>
  \<^verbatim>\<open>loop()\<close>, with what other threads do in between. A handler may queue functors and
  quit; the wake-up channel's handler reads the event descriptor. The loop's own thread may also queue
  functors and quit when it is not in \<^verbatim>\<open>loop()\<close>, before it enters or after it has left:
  then no one is woken, and no functor is being called.

  Another thread pushes its functor (or sets the flag) in one step and wakes the loop in a later one.
\<close>

inductive loop_step :: "(nat \<Rightarrow> nat list) \<Rightarrow> eventloop \<Rightarrow> eventloop \<Rightarrow> bool" for acts where
  enter: "\<not> isLooping l \<Longrightarrow> at l = Polling \<Longrightarrow> loop_step acts l (l\<lparr>isLooping := True\<rparr>)"
| poll: "isLooping l \<Longrightarrow> at l = Polling \<Longrightarrow> \<not> isQuit l \<Longrightarrow> loop_step acts l (l\<lparr>at := Handling\<rparr>)"
| woken: "at l = Handling \<Longrightarrow> loop_step acts l (handleRead l)"
| handler: "at l = Handling \<Longrightarrow> loop_step acts l (queueInLoop True f l)"
| handler_quit: "at l = Handling \<Longrightarrow> loop_step acts l (quit True l)"
| handled: "at l = Handling \<Longrightarrow> loop_step acts l (take_functors l)"
| run_one: "at l = Calling (f # fs) \<Longrightarrow> loop_step acts l (call_functor acts f fs l)"
| functor_quit: "at l = Calling fs \<Longrightarrow> loop_step acts l (quit True l)"
| functors_done: "at l = Calling [] \<Longrightarrow> loop_step acts l (end_functors l)"
| leave: "isLooping l \<Longrightarrow> at l = Polling \<Longrightarrow> isQuit l \<Longrightarrow> loop_step acts l (l\<lparr>isLooping := False\<rparr>)"
| own_queues: "\<not> isLooping l \<Longrightarrow> at l = Polling \<Longrightarrow>
    loop_step acts l ((queueInLoop True f l)\<lparr>outside := outside l + 1\<rparr>)"
| own_quits: "\<not> isLooping l \<Longrightarrow> at l = Polling \<Longrightarrow> loop_step acts l (quit True l)"
| other_pushes: "loop_step acts l ((push_functor f l)\<lparr>waking := waking l + 1\<rparr>)"
| other_quits: "loop_step acts l (l\<lparr>isQuit := True, waking := waking l + 1\<rparr>)"
| other_wakes: "waking l = n + 1 \<Longrightarrow> loop_step acts l (wakeup (l\<lparr>waking := n\<rparr>))"

text \<open>The two steps of another thread are its call.\<close>

lemma other_calls:
  "queueInLoop False f l = wakeup (push_functor f l)" "quit False l = wakeup (l\<lparr>isQuit := True\<rparr>)"
  by (simp_all add: queueInLoop_def quit_def Let_def)

inductive loop_reachable :: "(nat \<Rightarrow> nat list) \<Rightarrow> eventloop \<Rightarrow> bool" for acts where
  start: "loop_reachable acts EventLoop"
| step: "loop_reachable acts l \<Longrightarrow> loop_step acts l l' \<Longrightarrow> loop_reachable acts l'"

section \<open>Invariant\<close>

definition taken :: "eventloop \<Rightarrow> nat list" where
  "taken l = (case at l of Calling fs \<Rightarrow> fs | _ \<Rightarrow> [])"

definition loop_inv :: "eventloop \<Rightarrow> bool" where
  "loop_inv l \<longleftrightarrow> queued l = ran l @ taken l @ m_pendingFunctors l \<and>
     (isCallingPendingFunctors l \<longleftrightarrow> (\<exists>fs. at l = Calling fs)) \<and>
     outside l \<le> length (m_pendingFunctors l) \<and>
     (at l \<noteq> Handling \<and> outside l < length (m_pendingFunctors l) \<longrightarrow> 0 < m_wakeupfd l \<or> 0 < waking l)"

lemma queueInLoop_inv: "loop_inv l \<Longrightarrow> at l \<noteq> Polling \<Longrightarrow> loop_inv (queueInLoop True f l)"
  by (cases "at l") (auto simp: loop_inv_def queueInLoop_def push_functor_def wakeup_def taken_def Let_def)

lemma queueInLoop_at [simp]: "at (queueInLoop b f l) = at l"
  by (simp add: queueInLoop_def push_functor_def wakeup_def Let_def)

lemma call_functor_inv:
  assumes "loop_inv l" and "at l = Calling (f # fs)"
  shows "loop_inv (call_functor acts f fs l)"
proof -
  have "loop_inv (l\<lparr>ran := ran l @ [f], at := Calling fs\<rparr>)"
    using assms by (simp add: loop_inv_def taken_def)
  moreover have "loop_inv m \<Longrightarrow> at m = Calling fs \<Longrightarrow> loop_inv (fold (queueInLoop True) gs m)" for gs m
    by (induction gs arbitrary: m) (simp_all add: queueInLoop_inv)
  ultimately show ?thesis by (simp add: call_functor_def)
qed

lemma loop_step_inv: "loop_step acts l l' \<Longrightarrow> loop_inv l \<Longrightarrow> loop_inv l'"
proof (induction rule: loop_step.induct)
  case (run_one l f fs)
  then show ?case by (simp add: call_functor_inv)
next
  case (handler l f)
  then show ?case by (simp add: queueInLoop_inv)
next
  case (poll l)
  then show ?case by (auto simp: loop_inv_def taken_def)
qed (auto simp: loop_inv_def taken_def handleRead_def take_functors_def end_functors_def quit_def wakeup_def
    queueInLoop_def push_functor_def Let_def split: phase.splits)

lemma loop_reachable_inv: "loop_reachable acts l \<Longrightarrow> loop_inv l"
proof (induction rule: loop_reachable.induct)
  case start
  show ?case by (simp add: loop_inv_def EventLoop_def taken_def)
qed (rule loop_step_inv)

text \<open>
  C38: Functors run in the order in which they were queued, each once, whoever queues them. And the
  loop does not sit in \<^verbatim>\<open>poll\<close> over a functor that a handler, a functor or another
  thread queued: when the loop is about to wait, its event descriptor is readable or a thread is about
  to write to it, unless all functors that wait are ones its own thread queued while the loop was not
  running, which is when \<^verbatim>\<open>queueInLoop\<close> wakes no one and the time-out of the poll ends the wait.
\<close>

theorem functors_run_in_order:
  assumes "loop_reachable acts l"
  shows "\<exists>waiting. queued l = ran l @ waiting \<and>
    (at l = Polling \<longrightarrow> waiting = m_pendingFunctors l \<and> outside l \<le> length waiting \<and>
       (0 < m_wakeupfd l \<or> 0 < waking l \<or> length waiting = outside l))"
  using loop_reachable_inv [OF assms]
  by (intro exI [of _ "taken l @ m_pendingFunctors l"]) (auto simp: loop_inv_def taken_def)

theorem functors_run_in_order_witness:
  "let l = end_functors (call_functor (\<lambda>f. if f = 1 then [7] else []) 1 []
       (take_functors ((push_functor 1 (EventLoop\<lparr>isLooping := True, at := Handling\<rparr>))\<lparr>waking := 1\<rparr>)))
   in ran l = [1] \<and> m_pendingFunctors l = [7] \<and> outside l = 0 \<and> (0 < m_wakeupfd l \<or> 0 < waking l)"
proof -
  let ?acts = "\<lambda>f. if f = 1 then [7] else [] :: nat list"
  let ?l0 = "EventLoop\<lparr>isLooping := True, at := Handling\<rparr>"
  let ?l1 = "(push_functor 1 ?l0)\<lparr>waking := waking ?l0 + 1\<rparr>"
  let ?l2 = "call_functor ?acts 1 [] (take_functors ?l1)"
  note loop_defs = take_functors_def queueInLoop_def push_functor_def EventLoop_def wakeup_def Let_def
    call_functor_def end_functors_def
  have "loop_reachable ?acts (EventLoop\<lparr>isLooping := True\<rparr>)"
    by (rule loop_reachable.step [OF loop_reachable.start loop_step.enter]) (simp_all add: EventLoop_def)
  then have "loop_reachable ?acts ?l0"
    by (rule loop_reachable.step [OF _ loop_step.poll [of "EventLoop\<lparr>isLooping := True\<rparr>", simplified]])
      (simp_all add: EventLoop_def)
  then have "loop_reachable ?acts ?l1" by (rule loop_reachable.step [OF _ loop_step.other_pushes])
  then have "loop_reachable ?acts (take_functors ?l1)"
    by (rule loop_reachable.step [OF _ loop_step.handled]) (simp add: push_functor_def)
  then have "loop_reachable ?acts ?l2"
    by (rule loop_reachable.step [OF _ loop_step.run_one]) (simp add: loop_defs)
  then have r: "loop_reachable ?acts (end_functors ?l2)"
    by (rule loop_reachable.step [OF _ loop_step.functors_done]) (simp add: loop_defs)
  have v: "ran (end_functors ?l2) = [1]" "m_pendingFunctors (end_functors ?l2) = [7]"
    "at (end_functors ?l2) = Polling" "outside (end_functors ?l2) = 0"
    by (simp_all add: loop_defs)
  have w: "waking ?l0 + 1 = 1" by (simp add: EventLoop_def)
  show ?thesis using functors_run_in_order [OF r] v unfolding w by (auto simp: Let_def)
qed

end
