(* ===== verification/RaftTypes.thy ===== *)
theory RaftTypes
  imports Prelude "HOL-Library.Signed_Division"
begin

text \<open>
  \<^verbatim>\<open>example/raft_server/proto.h\<close> and \<^verbatim>\<open>raft.h\<close>: the data of a Raft node. A
  C++ \<^verbatim>\<open>int\<close> is an \<open>int\<close> here (its overflow is undefined in the code and no bound on
  terms and indices is claimed); a \<^verbatim>\<open>char*\<close> that the node owns is \<open>None\<close> for the
  null pointer and \<open>Some\<close> the allocated bytes, which is enough because the code never keeps two
  pointers to one allocation. The \<^verbatim>\<open>userdata\<close> of an \<^verbatim>\<open>Update\<close> is never read and is
  left out.

  What the code leaves uninitialised, and the values of \<^verbatim>\<open>rand()\<close>, come from an environment
  \<open>env\<close> that the theorems quantify over.
\<close>

section \<open>Entries and the log\<close>

record update =
  u_len :: int
  u_data :: "bytes option"

record entry =
  e_term :: int
  e_snapshot :: bool
  e_update :: update
  e_bytes :: int

definition update_null :: update where
  "update_null = \<lparr>u_len = 0, u_data = None\<rparr>"

definition entry_new :: entry where
  "entry_new = \<lparr>e_term = 0, e_snapshot = False, e_update = update_null, e_bytes = 0\<rparr>"

record log =
  l_first :: int
  l_size :: int
  l_acked :: int
  l_applied :: int
  l_entries :: "entry list"
  l_newentry :: entry

definition log_new :: "nat \<Rightarrow> log" where
  "log_new n = \<lparr>l_first = 0, l_size = 0, l_acked = 0, l_applied = 0,
     l_entries = replicate n entry_new, l_newentry = entry_new\<rparr>"

record process =
  pr_entries :: int
  pr_bytes :: int

definition process_new :: process where
  "process_new = \<lparr>pr_entries = 0, pr_bytes = 0\<rparr>"

section \<open>Messages\<close>

record msgData =
  curterm :: int
  from_id :: int
  sequence :: int

record msgUpdate =
  mu_msg :: msgData
  mu_snapshot :: bool
  mu_previndex :: int
  mu_prevterm :: int
  mu_empty :: bool
  mu_entryTerm :: int
  mu_totalLen :: int
  mu_acked :: int
  mu_offset :: int
  mu_len :: int
  mu_data :: bytes

record msgDone =
  md_msg :: msgData
  md_entryTerm :: int
  md_process :: process
  md_applied :: int
  md_success :: bool

record msgClaim =
  mc_msg :: msgData
  mc_index :: int
  mc_lastTerm :: int

record msgVote =
  mv_msg :: msgData
  mv_granted :: bool

text \<open>
  \<^verbatim>\<open>MsgData::msgtype\<close> says which struct the header belongs to; it is the constructor here,
  with one more for the numbers that no struct has.
\<close>

datatype msgAny =
    AnyUpdate msgUpdate
  | AnyDone msgDone
  | AnyClaim msgClaim
  | AnyVote msgVote
  | AnyOther int msgData

definition kMsgUpdate :: int where "kMsgUpdate = 0"
definition kMsgDone :: int where "kMsgDone = 1"
definition kMsgClaim :: int where "kMsgClaim = 2"
definition kMsgVote :: int where "kMsgVote = 3"
definition kUdpMaxSize :: int where "kUdpMaxSize = 508"
definition NOBODY :: int where "NOBODY = -1"

fun msgtype :: "msgAny \<Rightarrow> int" where
  "msgtype (AnyUpdate m) = kMsgUpdate"
| "msgtype (AnyDone m) = kMsgDone"
| "msgtype (AnyClaim m) = kMsgClaim"
| "msgtype (AnyVote m) = kMsgVote"
| "msgtype (AnyOther t m) = t"

fun header :: "msgAny \<Rightarrow> msgData" where
  "header (AnyUpdate m) = mu_msg m"
| "header (AnyDone m) = md_msg m"
| "header (AnyClaim m) = mc_msg m"
| "header (AnyVote m) = mv_msg m"
| "header (AnyOther t m) = m"

text \<open>The sizes of the structs, with the padding of the usual 4 byte alignment.\<close>

definition sizeof_MsgUpdate :: int where "sizeof_MsgUpdate = 56"
definition sizeof_MsgDone :: int where "sizeof_MsgDone = 36"
definition sizeof_MsgClaim :: int where "sizeof_MsgClaim = 24"
definition sizeof_MsgVote :: int where "sizeof_MsgVote = 20"
definition sizeof_MsgAny :: int where "sizeof_MsgAny = 56"

fun msgSize :: "msgAny \<Rightarrow> int \<Rightarrow> bool" where
  "msgSize (AnyUpdate m) mlen \<longleftrightarrow> mlen = sizeof_MsgUpdate + mu_len m - 1"
| "msgSize (AnyDone m) mlen \<longleftrightarrow> mlen = sizeof_MsgDone"
| "msgSize (AnyClaim m) mlen \<longleftrightarrow> mlen = sizeof_MsgClaim"
| "msgSize (AnyVote m) mlen \<longleftrightarrow> mlen = sizeof_MsgVote"
| "msgSize (AnyOther t m) mlen \<longleftrightarrow> False"

text \<open>The length of the datagram in which a node sends a message.\<close>

fun wire_len :: "msgAny \<Rightarrow> int" where
  "wire_len (AnyUpdate m) = sizeof_MsgUpdate + mu_len m - 1"
| "wire_len (AnyDone m) = sizeof_MsgDone"
| "wire_len (AnyClaim m) = sizeof_MsgClaim"
| "wire_len (AnyVote m) = sizeof_MsgVote"
| "wire_len (AnyOther t m) = 0"

section \<open>The node\<close>

text \<open>
  \<^verbatim>\<open>Config\<close>. The database behind \<^verbatim>\<open>userdata\<close> is a value of type \<open>'d\<close>, which the
  applier changes and the snapshooter reads.
\<close>

record 'd config =
  peernum_max :: int
  heartbeat_ms :: int
  election_ms_min :: int
  election_ms_max :: int
  log_len :: int
  chunk_len :: int
  msg_len_max :: int
  userdata :: 'd
  applier :: "'d \<Rightarrow> update \<Rightarrow> bool \<Rightarrow> 'd"
  snapshooter :: "'d \<Rightarrow> update"

definition ConfigIsOk :: "'d config \<Rightarrow> bool" where
  "ConfigIsOk c \<longleftrightarrow>
     \<not> peernum_max c < 3 \<and>
     \<not> heartbeat_ms c \<ge> election_ms_min c \<and>
     \<not> election_ms_min c \<ge> election_ms_max c \<and>
     \<not> (sizeof_MsgUpdate + chunk_len c - 1) mod 2 ^ 64 > kUdpMaxSize \<and>
     \<not> msg_len_max c mod 2 ^ 64 < sizeof_MsgAny"

type_synonym address = "string \<times> int"

record peer =
  p_up :: bool
  p_sequence :: int
  p_acked :: process
  p_applied :: int
  p_host :: "address option"
  p_silent_ms :: int

definition peer_new :: peer where
  "peer_new = \<lparr>p_up = False, p_sequence = 0, p_acked = process_new, p_applied = 0,
     p_host = None, p_silent_ms = 0\<rparr>"

datatype role = Follower | Candidate | Leader

text \<open>
  The node. \<open>m_conne_to_peer\<close> says that \<^verbatim>\<open>setConneToPeer\<close> was called; what the node
  hands to that connection is collected in \<open>m_sent\<close>, with the peer and its address.
  \<open>m_seed\<close> and \<open>m_draws\<close> are the state of \<^verbatim>\<open>rand()\<close>: the last
  \<^verbatim>\<open>srand\<close> and the number of values drawn since.
\<close>

record 'd raft =
  m_term :: int
  m_voteFor :: int
  m_role :: role
  m_me :: int
  m_votes :: int
  m_leaderId :: int
  m_timer :: int
  m_socket :: "address option"
  m_conne_to_peer :: bool
  m_config :: "'d config"
  m_log :: log
  m_peers :: "peer list"
  m_peerNum :: int
  m_seed :: int
  m_draws :: nat
  m_sent :: "(int \<times> address \<times> msgAny) list"

text \<open>
  \<open>rand_seq s k\<close> is the \<open>k\<close>-th value of \<^verbatim>\<open>rand()\<close> after \<^verbatim>\<open>srand(s)\<close>;
  the others are the contents of memory that the code does not initialise: the message that
  \<^verbatim>\<open>malloc\<close> returns for a peer, the reply on the stack, the bytes \<^verbatim>\<open>realloc\<close> adds.
\<close>

record env =
  rand_seq :: "int \<Rightarrow> nat \<Rightarrow> int"
  junk_update :: "int \<Rightarrow> msgUpdate"
  junk_reply :: msgDone
  junk_byte :: "nat \<Rightarrow> byte"

text \<open>The constructor; the timer is not initialised.\<close>

definition raft_new :: "int \<Rightarrow> 'd config \<Rightarrow> 'd raft" where
  "raft_new junk_timer c = \<lparr>
     m_term = 0, m_voteFor = NOBODY, m_role = Follower, m_me = NOBODY, m_votes = 0,
     m_leaderId = NOBODY, m_timer = junk_timer, m_socket = None, m_conne_to_peer = False,
     m_config = c, m_log = log_new (nat (log_len c)),
     m_peers = replicate (nat (peernum_max c)) peer_new, m_peerNum = 0,
     m_seed = 1, m_draws = 0, m_sent = []\<rparr>"

section \<open>Access to the log and the peers\<close>

text \<open>
  \<open>None\<close> is an access outside the vector (or the remainder by zero). C's \<^verbatim>\<open>%\<close> rounds
  towards zero, as \<open>smod\<close> does.
\<close>

definition slot :: "int \<Rightarrow> 'd raft \<Rightarrow> nat option" where
  "slot index r =
     (let n = log_len (m_config r); k = index smod n in
      if n \<noteq> 0 \<and> 0 \<le> k \<and> nat k < length (l_entries (m_log r)) then Some (nat k) else None)"

definition log_at :: "int \<Rightarrow> 'd raft \<Rightarrow> entry option" where
  "log_at index r = do {
     k \<leftarrow> slot index r;
     Some (l_entries (m_log r) ! k)
   }"

definition log_set :: "int \<Rightarrow> entry \<Rightarrow> 'd raft \<Rightarrow> 'd raft option" where
  "log_set index e r = do {
     k \<leftarrow> slot index r;
     Some (r\<lparr>m_log := (m_log r)\<lparr>l_entries := (l_entries (m_log r))[k := e]\<rparr>\<rparr>)
   }"

definition logFirstIndex :: "'d raft \<Rightarrow> int" where
  "logFirstIndex r = l_first (m_log r)"

definition logLastIndex :: "'d raft \<Rightarrow> int" where
  "logLastIndex r = l_first (m_log r) + l_size (m_log r) - 1"

definition logIsFull :: "'d raft \<Rightarrow> bool" where
  "logIsFull r \<longleftrightarrow> l_size (m_log r) = log_len (m_config r)"

definition progress :: "'d raft \<Rightarrow> int" where
  "progress r = l_applied (m_log r)"

definition isLeader :: "'d raft \<Rightarrow> bool" where
  "isLeader r \<longleftrightarrow> m_role r = Leader"

definition getLeader :: "'d raft \<Rightarrow> int" where
  "getLeader r = m_leaderId r"

definition setConneToPeer :: "'d raft \<Rightarrow> 'd raft" where
  "setConneToPeer r = r\<lparr>m_conne_to_peer := True\<rparr>"

definition get_peer :: "int \<Rightarrow> 'd raft \<Rightarrow> peer option" where
  "get_peer i r = (if 0 \<le> i \<and> nat i < length (m_peers r) then Some (m_peers r ! nat i) else None)"

definition set_peer :: "int \<Rightarrow> peer \<Rightarrow> 'd raft \<Rightarrow> 'd raft" where
  "set_peer i p r = r\<lparr>m_peers := (m_peers r)[nat i := p]\<rparr>"

definition modify_peer :: "int \<Rightarrow> (peer \<Rightarrow> peer) \<Rightarrow> 'd raft \<Rightarrow> 'd raft option" where
  "modify_peer i f r = do {
     p \<leftarrow> get_peer i r;
     Some (set_peer i (f p) r)
   }"

definition inRange :: "int \<Rightarrow> int \<Rightarrow> int \<Rightarrow> bool option" where
  "inRange lo x hi = do {
     assert_that (lo \<le> hi);
     Some (lo \<le> x \<and> x \<le> hi)
   }"

text \<open>\<^verbatim>\<open>rand() % (max - min + 1) + min\<close>.\<close>

definition randBetweenTime :: "env \<Rightarrow> int \<Rightarrow> int \<Rightarrow> 'd raft \<Rightarrow> (int \<times> 'd raft) option" where
  "randBetweenTime env lo hi r = do {
     assert_that (hi - lo + 1 \<noteq> 0);
     Some (rand_seq env (m_seed r) (m_draws r) smod (hi - lo + 1) + lo, r\<lparr>m_draws := Suc (m_draws r)\<rparr>)
   }"

text \<open>The range of the loops over all peers.\<close>

definition peer_range :: "'d raft \<Rightarrow> int list" where
  "peer_range r = [0..peernum_max (m_config r) - 1]"

text \<open>Copying out of, and into, an allocation; \<open>None\<close> is an access outside it.\<close>

definition mem_read :: "bytes option \<Rightarrow> int \<Rightarrow> int \<Rightarrow> bytes option" where
  "mem_read p off len =
     (case p of
        None \<Rightarrow> None
      | Some d \<Rightarrow> if 0 \<le> off \<and> 0 \<le> len \<and> off + len \<le> int (length d)
                  then Some (take (nat len) (drop (nat off) d)) else None)"

definition mem_write :: "bytes option \<Rightarrow> int \<Rightarrow> bytes \<Rightarrow> int \<Rightarrow> bytes option" where
  "mem_write p off src len =
     (case p of
        None \<Rightarrow> None
      | Some d \<Rightarrow> if 0 \<le> off \<and> 0 \<le> len \<and> len \<le> int (length src) \<and> off + len \<le> int (length d)
                  then Some (splice_at (nat off) (take (nat len) src) d) else None)"

text \<open>
  \<^verbatim>\<open>realloc\<close>: the old bytes, then what the new memory holds. With size 0 it frees; a negative
  size is a huge one, which fails, and the code writes through the null pointer it gets.
\<close>

definition mem_realloc :: "(nat \<Rightarrow> byte) \<Rightarrow> bytes option \<Rightarrow> int \<Rightarrow> bytes option" where
  "mem_realloc junk p n =
     (if n < 0 then None
      else case p of
        None \<Rightarrow> Some (map junk [0..<nat n])
      | Some d \<Rightarrow> if n = 0 then None
                  else Some (take (nat n) d @ map junk [length d..<nat n]))"

end
