(* ===== verification/Raft.thy ===== *)
theory Raft
  imports RaftTypes
begin

text \<open>
  \<^verbatim>\<open>example/raft_server/raft.cc\<close>: the operations of a Raft node, one definition per member
  function. An operation takes the node and returns the node after it; \<open>None\<close> is a failed
  \<^verbatim>\<open>assert\<close>, a null pointer or an access outside a vector or an allocation.
\<close>

section \<open>Timer and peers\<close>

definition resetTimer :: "env \<Rightarrow> 'd raft \<Rightarrow> 'd raft option" where
  "resetTimer env r =
     (if m_role r = Leader then
        (if m_timer r = heartbeat_ms (m_config r)
         then Some (r\<lparr>m_timer := m_timer r + heartbeat_ms (m_config r)\<rparr>)
         else Some (r\<lparr>m_timer := heartbeat_ms (m_config r)\<rparr>))
      else do {
        (t, r') \<leftarrow> randBetweenTime env (election_ms_min (m_config r)) (election_ms_max (m_config r)) r;
        Some (r'\<lparr>m_timer := t\<rparr>)
      })"

text \<open>
  \<^verbatim>\<open>peerUp\<close> reads the vector before it looks at the bounds; the first component is whether
  it returned a peer.
\<close>

definition peerUp :: "env \<Rightarrow> int \<Rightarrow> address \<Rightarrow> bool \<Rightarrow> 'd raft \<Rightarrow> (bool \<times> 'd raft) option" where
  "peerUp env pid addr self r = do {
     p \<leftarrow> get_peer pid r;
     if int (length (m_peers r)) > peernum_max (m_config r) \<or> pid > peernum_max (m_config r)
     then Some (False, r)
     else do {
       let r1 = set_peer pid (p\<lparr>p_up := True, p_host := Some addr\<rparr>) r;
       r2 \<leftarrow> (if self
              then resetTimer env (r1\<lparr>m_socket := Some addr, m_me := pid, m_seed := pid, m_draws := 0\<rparr>)
              else Some r1);
       Some (True, r2\<lparr>m_peerNum := m_peerNum r2 + 1\<rparr>)
     }
   }"

definition peerDown :: "int \<Rightarrow> 'd raft \<Rightarrow> 'd raft option" where
  "peerDown pid r = do {
     r1 \<leftarrow> modify_peer pid (\<lambda>p. p\<lparr>p_up := False\<rparr>) r;
     let r2 = (if m_me r1 = pid then r1\<lparr>m_me := NOBODY\<rparr> else r1);
     Some (r2\<lparr>m_peerNum := m_peerNum r2 - 1\<rparr>)
   }"

definition applied :: "int \<Rightarrow> int \<Rightarrow> 'd raft \<Rightarrow> bool option" where
  "applied pid index r =
     (if m_me r = pid then Some (l_applied (m_log r) > index)
      else do {
        p \<leftarrow> get_peer pid r;
        if \<not> p_up p then Some False else Some (p_applied p > index)
      })"

definition resetBytesAcked :: "'d raft \<Rightarrow> 'd raft option" where
  "resetBytesAcked r =
     for_each (\<lambda>i. modify_peer i (\<lambda>p. p\<lparr>p_acked := (p_acked p)\<lparr>pr_bytes := 0\<rparr>\<rparr>)) (peer_range r) r"

definition resetSilentTime :: "int \<Rightarrow> 'd raft \<Rightarrow> 'd raft option" where
  "resetSilentTime pid r =
     for_each (\<lambda>i r. if i = pid \<or> pid = NOBODY then modify_peer i (\<lambda>p. p\<lparr>p_silent_ms := 0\<rparr>) r
                     else Some r) (peer_range r) r"

text \<open>The result also has the number of peers heard of recently.\<close>

definition increaseSilentTime :: "int \<Rightarrow> 'd raft \<Rightarrow> (int \<times> 'd raft) option" where
  "increaseSilentTime ms r =
     for_each (\<lambda>i (recent_peers, r). do {
         p \<leftarrow> get_peer i r;
         if \<not> p_up p then Some (recent_peers, r)
         else if i = m_me r then Some (recent_peers, r)
         else do {
           let silent = p_silent_ms p + ms;
           let r' = set_peer i (p\<lparr>p_silent_ms := silent\<rparr>) r;
           Some (if silent < election_ms_max (m_config r) then recent_peers + 1 else recent_peers, r')
         }
       }) (peer_range r) (1, r)"

section \<open>Sending\<close>

definition send :: "int \<Rightarrow> msgAny \<Rightarrow> int \<Rightarrow> 'd raft \<Rightarrow> 'd raft option" where
  "send dst data len r = do {
     p \<leftarrow> get_peer dst r;
     assert_that (p_up p);
     assert_that (len \<le> msg_len_max (m_config r));
     assert_that (msgSize data len);
     assert_that (msgtype data \<ge> 0);
     assert_that (msgtype data < 4);
     assert_that (dst \<ge> 0);
     assert_that (dst < peernum_max (m_config r));
     assert_that (dst \<noteq> m_me r);
     assert_that (from_id (header data) = m_me r);
     assert_that (m_conne_to_peer r);
     host \<leftarrow> p_host p;
     Some (r\<lparr>m_sent := m_sent r @ [(dst, host, data)]\<rparr>)
   }"

text \<open>The message \<^verbatim>\<open>beat\<close> fills in for a peer, up to its sequence number.\<close>

definition beat_message :: "env \<Rightarrow> int \<Rightarrow> peer \<Rightarrow> 'd raft \<Rightarrow> msgUpdate option" where
  "beat_message env dst p r = do {
     let msg = (junk_update env dst)\<lparr>mu_msg := \<lparr>curterm = m_term r, from_id = m_me r, sequence = 0\<rparr>\<rparr>;
     msg \<leftarrow>
       (if pr_entries (p_acked p) \<le> logLastIndex r then do {
          sendindex \<leftarrow>
            (if pr_entries (p_acked p) < logFirstIndex r then do {
               e \<leftarrow> log_at (logFirstIndex r) r;
               assert_that (e_snapshot e);
               Some (logFirstIndex r)
             } else Some (pr_entries (p_acked p)));
          entry \<leftarrow> log_at sendindex r;
          let previndex = sendindex - 1;
          prevterm \<leftarrow>
            (if previndex \<ge> 0 then do { e \<leftarrow> log_at previndex r; Some (e_term e) } else Some (-1));
          let totalLen = u_len (e_update entry);
          let offset = pr_bytes (p_acked p);
          let len = min (chunk_len (m_config r)) (totalLen - offset);
          assert_that (len > 0);
          data \<leftarrow> mem_read (u_data (e_update entry)) offset len;
          Some (msg\<lparr>mu_snapshot := e_snapshot entry, mu_previndex := previndex,
                    mu_prevterm := prevterm, mu_entryTerm := e_term entry, mu_totalLen := totalLen,
                    mu_empty := False, mu_offset := offset, mu_len := len, mu_data := data\<rparr>)
        } else Some (msg\<lparr>mu_empty := True, mu_len := 0\<rparr>));
     Some (msg\<lparr>mu_acked := l_acked (m_log r)\<rparr>)
   }"

definition beat_one :: "env \<Rightarrow> int \<Rightarrow> 'd raft \<Rightarrow> 'd raft option" where
  "beat_one env dst r = do {
     assert_that (m_leaderId r = m_me r);
     assert_that (m_role r = Leader);
     p \<leftarrow> get_peer dst r;
     msg \<leftarrow> beat_message env dst p r;
     let seqno = p_sequence p + 1;
     let r1 = set_peer dst (p\<lparr>p_sequence := seqno\<rparr>) r;
     send dst (AnyUpdate (msg\<lparr>mu_msg := (mu_msg msg)\<lparr>sequence := seqno\<rparr>\<rparr>))
       (sizeof_MsgUpdate + mu_len msg - 1) r1
   }"

definition beat :: "env \<Rightarrow> int \<Rightarrow> 'd raft \<Rightarrow> 'd raft option" where
  "beat env dst r =
     (if dst = NOBODY then
        for_each (\<lambda>i r. do {
           p \<leftarrow> get_peer i r;
           if \<not> p_up p then Some r
           else if i = m_me r then Some r
           else beat_one env i r
         }) (peer_range r) r
      else beat_one env dst r)"

section \<open>Elections\<close>

definition setTerm :: "int \<Rightarrow> 'd raft \<Rightarrow> 'd raft option" where
  "setTerm term r = do {
     assert_that (term > m_term r);
     Some (r\<lparr>m_term := term, m_voteFor := NOBODY, m_votes := 0\<rparr>)
   }"

definition becomeFollower :: "'d raft \<Rightarrow> 'd raft" where
  "becomeFollower r = r\<lparr>m_leaderId := NOBODY, m_role := Follower\<rparr>"

definition becomeLeader :: "env \<Rightarrow> 'd raft \<Rightarrow> (bool \<times> 'd raft) option" where
  "becomeLeader env r =
     (if m_votes r * 2 > m_peerNum r then do {
        let r1 = r\<lparr>m_role := Leader, m_leaderId := m_me r\<rparr>;
        r2 \<leftarrow> resetBytesAcked r1;
        r3 \<leftarrow> resetSilentTime NOBODY r2;
        r4 \<leftarrow> resetTimer env r3;
        Some (True, r4)
      } else Some (False, r))"

definition claim_one :: "msgClaim \<Rightarrow> int \<Rightarrow> 'd raft \<Rightarrow> 'd raft option" where
  "claim_one m i r = do {
     p \<leftarrow> get_peer i r;
     if \<not> p_up p then Some r
     else if i = m_me r then Some r
     else do {
       let seqno = p_sequence p + 1;
       let r1 = set_peer i (p\<lparr>p_sequence := seqno\<rparr>) r;
       send i (AnyClaim (m\<lparr>mc_msg := (mc_msg m)\<lparr>sequence := seqno\<rparr>\<rparr>)) sizeof_MsgClaim r1
     }
   }"

definition claim :: "env \<Rightarrow> 'd raft \<Rightarrow> 'd raft option" where
  "claim env r = do {
     assert_that (m_role r = Candidate);
     assert_that (m_leaderId r = NOBODY);
     (leader, r1) \<leftarrow> becomeLeader env (r\<lparr>m_votes := 1\<rparr>);
     if leader then Some r1
     else do {
       let index = logLastIndex r1;
       lastTerm \<leftarrow> (if index \<ge> 0 then do { e \<leftarrow> log_at index r1; Some (e_term e) } else Some (-1));
       let m = \<lparr>mc_msg = \<lparr>curterm = m_term r1, from_id = m_me r1, sequence = 0\<rparr>,
                mc_index = index, mc_lastTerm = lastTerm\<rparr>;
       for_each (claim_one m) (peer_range r1) r1
     }
   }"

section \<open>Applying and acknowledging\<close>

text \<open>The condition and the body of the loop of \<^verbatim>\<open>apply\<close>, and the loop.\<close>

definition apply_more :: "'d raft \<Rightarrow> bool" where
  "apply_more r \<longleftrightarrow>
     l_applied (m_log r) < l_acked (m_log r) \<and> l_applied (m_log r) \<le> logLastIndex r"

definition apply_one :: "'d raft \<Rightarrow> 'd raft option" where
  "apply_one r = do {
     e \<leftarrow> log_at (l_applied (m_log r)) r;
     assert_that (u_len (e_update e) = e_bytes e);
     let r1 = r\<lparr>m_config := (m_config r)
                 \<lparr>userdata := applier (m_config r) (userdata (m_config r)) (e_update e) False\<rparr>\<rparr>;
     Some (r1\<lparr>m_log := (m_log r1)\<lparr>l_applied := l_applied (m_log r1) + 1\<rparr>\<rparr>)
   }"

function apply_loop :: "'d raft \<Rightarrow> int \<Rightarrow> (int \<times> 'd raft) option" where
  "apply_loop r applied_now =
     (if apply_more r then
        (case apply_one r of
           None \<Rightarrow> None
         | Some r' \<Rightarrow> apply_loop r' (applied_now + 1))
      else Some (applied_now, r))"
  by pat_completeness auto
termination
  by (relation "measure (\<lambda>(r, n). nat (l_acked (m_log r) - l_applied (m_log r)))")
    (auto simp: apply_more_def apply_one_def abort_simps)

declare apply_loop.simps [simp del]

definition apply_log :: "'d raft \<Rightarrow> (int \<times> 'd raft) option" where
  "apply_log r = apply_loop r 0"

text \<open>The inner loop of \<^verbatim>\<open>refreshAcked\<close>: how many nodes have \<open>newacked\<close> entries.\<close>

definition replication :: "int \<Rightarrow> 'd raft \<Rightarrow> int option" where
  "replication newacked r =
     for_each (\<lambda>j n.
         if j = m_me r then Some n
         else do {
           tmp \<leftarrow> get_peer j r;
           Some (if pr_entries (p_acked tmp) \<ge> newacked then n + 1 else n)
         }) (peer_range r) 1"

definition refresh_one :: "int \<Rightarrow> 'd raft \<Rightarrow> 'd raft option" where
  "refresh_one i r = do {
     p \<leftarrow> get_peer i r;
     if i = m_me r then Some r
     else if \<not> p_up p then Some r
     else do {
       let newacked = pr_entries (p_acked p);
       if newacked \<le> l_acked (m_log r) then Some r
       else do {
         n \<leftarrow> replication newacked r;
         assert_that (n \<le> m_peerNum r);
         if n * 2 > m_peerNum r then Some (r\<lparr>m_log := (m_log r)\<lparr>l_acked := newacked\<rparr>\<rparr>)
         else Some r
       }
     }
   }"

definition refreshAcked :: "'d raft \<Rightarrow> 'd raft option" where
  "refreshAcked r = do {
     r1 \<leftarrow> for_each refresh_one (peer_range r) r;
     (n, r2) \<leftarrow> apply_log r1;
     Some r2
   }"

section \<open>The clock\<close>

definition checkIsLeaderWithMs :: "'d raft \<Rightarrow> 'd raft option" where
  "checkIsLeaderWithMs r = do {
     (recent_peers, r1) \<leftarrow> increaseSilentTime (heartbeat_ms (m_config r)) r;
     Some (if m_role r1 = Leader \<and> recent_peers * 2 \<le> m_peerNum r1 then becomeFollower r1 else r1)
   }"

text \<open>What the timer does when it runs out.\<close>

definition timeout :: "env \<Rightarrow> 'd raft \<Rightarrow> 'd raft option" where
  "timeout env r =
     (case m_role r of
        Follower \<Rightarrow> claim env (r\<lparr>m_leaderId := NOBODY, m_role := Candidate, m_term := m_term r + 1\<rparr>)
      | Candidate \<Rightarrow> claim env (r\<lparr>m_term := m_term r + 1\<rparr>)
      | Leader \<Rightarrow> beat env NOBODY r)"

text \<open>
  The result also says whether the client callback runs: the caller of the node sets it, and it runs
  last.
\<close>

definition tick :: "env \<Rightarrow> int \<Rightarrow> 'd raft \<Rightarrow> (bool \<times> 'd raft) option" where
  "tick env msec r = do {
     let r1 = r\<lparr>m_timer := m_timer r - msec\<rparr>;
     r2 \<leftarrow> (if m_timer r1 < 0 then do {
              r' \<leftarrow> timeout env r1;
              resetTimer env r'
            } else Some r1);
     r3 \<leftarrow> refreshAcked r2;
     r4 \<leftarrow> checkIsLeaderWithMs r3;
     Some (isLeader r4, r4)
   }"

section \<open>The log\<close>

text \<open>Freeing the data of a slot; \<^verbatim>\<open>compact\<close> also clears the snapshot mark.\<close>

definition free_slot :: "bool \<Rightarrow> int \<Rightarrow> 'd raft \<Rightarrow> 'd raft option" where
  "free_slot unmark i r = do {
     e \<leftarrow> log_at i r;
     assert_that (u_data (e_update e) \<noteq> None);
     log_set i (e\<lparr>e_snapshot := (if unmark then False else e_snapshot e), e_update := update_null\<rparr>) r
   }"

text \<open>
  The rest of \<^verbatim>\<open>compact\<close>: the last freed slot becomes the snapshot and the first entry;
  peers that are behind it start again at its first byte.
\<close>

definition take_snapshot :: "int \<Rightarrow> 'd raft \<Rightarrow> 'd raft option" where
  "take_snapshot compacted r = do {
     let r1 = r\<lparr>m_log := (m_log r)\<lparr>l_first := l_first (m_log r) + (compacted - 1),
                                   l_size := l_size (m_log r) - (compacted - 1)\<rparr>\<rparr>;
     entry \<leftarrow> log_at (logFirstIndex r1) r1;
     let snap = snapshooter (m_config r1) (userdata (m_config r1));
     r2 \<leftarrow> log_set (logFirstIndex r1)
             (entry\<lparr>e_update := snap, e_bytes := u_len snap, e_snapshot := True\<rparr>) r1;
     assert_that (l_first (m_log r2) = l_applied (m_log r2) - 1);
     Some r2
   }"

definition reset_behind :: "'d raft \<Rightarrow> 'd raft option" where
  "reset_behind r =
     for_each (\<lambda>i r. do {
         p \<leftarrow> get_peer i r;
         if \<not> p_up p then Some r
         else if i = m_me r then Some r
         else if pr_entries (p_acked p) + 1 \<le> l_first (m_log r)
         then Some (set_peer i (p\<lparr>p_acked := (p_acked p)\<lparr>pr_bytes := 0\<rparr>\<rparr>) r)
         else Some r
       }) (peer_range r) r"

definition compact :: "'d raft \<Rightarrow> (int \<times> 'd raft) option" where
  "compact r = do {
     let todo = [l_first (m_log r)..l_applied (m_log r) - 1];
     let compacted = int (length todo);
     r1 \<leftarrow> for_each (free_slot True) todo r;
     if compacted \<noteq> 0 then do {
       r2 \<leftarrow> take_snapshot compacted r1;
       r3 \<leftarrow> reset_behind r2;
       Some (compacted, r3)
     } else Some (compacted, r1)
   }"

text \<open>
  \<^verbatim>\<open>restore\<close> and \<^verbatim>\<open>append\<close> take the entry that was received and leave it empty
  when they move it into the log; the result has it after the call.
\<close>

definition restore :: "int \<Rightarrow> entry \<Rightarrow> 'd raft \<Rightarrow> (bool \<times> entry \<times> 'd raft) option" where
  "restore previndex e r = do {
     assert_that (e_bytes e = u_len (e_update e));
     assert_that (e_snapshot e);
     r1 \<leftarrow> for_each (free_slot False) [logFirstIndex r..logLastIndex r] r;
     let index = previndex + 1;
     r2 \<leftarrow> log_set index e (r1\<lparr>m_log := (m_log r1)\<lparr>l_first := index, l_size := 1\<rparr>\<rparr>);
     let r3 = r2\<lparr>m_config := (m_config r2)
                  \<lparr>userdata := applier (m_config r2) (userdata (m_config r2)) (e_update e) True\<rparr>\<rparr>;
     Some (True, entry_new, r3\<lparr>m_log := (m_log r3)\<lparr>l_applied := index + 1\<rparr>\<rparr>)
   }"

definition appendable :: "int \<Rightarrow> int \<Rightarrow> 'd raft \<Rightarrow> bool option" where
  "appendable previndex prevterm r = do {
     let low = (if logFirstIndex r = 0 then -1 else logFirstIndex r);
     let high = logLastIndex r;
     inside \<leftarrow> inRange low previndex high;
     if \<not> inside then Some False
     else if previndex \<noteq> -1 then do {
       entry \<leftarrow> log_at previndex r;
       Some (e_term entry = prevterm)
     } else Some True
   }"

text \<open>The end of \<^verbatim>\<open>append\<close>, from \<^verbatim>\<open>int index\<close> on.\<close>

definition place_entry :: "int \<Rightarrow> entry \<Rightarrow> 'd raft \<Rightarrow> (bool \<times> entry \<times> 'd raft) option" where
  "place_entry previndex e r = do {
     let index = previndex + 1;
     old \<leftarrow> log_at index r;
     r1 \<leftarrow>
       (if index \<le> logLastIndex r then do {
          assert_that (u_data (e_update old) \<noteq> None);
          Some (if e_term old \<noteq> e_term e
                then r\<lparr>m_log := (m_log r)\<lparr>l_size := index - l_first (m_log r)\<rparr>\<rparr> else r)
        } else Some (r\<lparr>m_log := (m_log r)\<lparr>l_size := l_size (m_log r) + 1\<rparr>\<rparr>));
     r2 \<leftarrow> log_set index e r1;
     Some (True, entry_new, r2)
   }"

definition append_log :: "int \<Rightarrow> int \<Rightarrow> entry \<Rightarrow> 'd raft \<Rightarrow> (bool \<times> entry \<times> 'd raft) option" where
  "append_log previndex prevterm e r = do {
     assert_that (e_bytes e = u_len (e_update e));
     assert_that (\<not> e_snapshot e);
     ok \<leftarrow> appendable previndex prevterm r;
     if \<not> ok then Some (False, e, r)
     else if previndex = logLastIndex r \<and> logIsFull r then do {
       (compacted, r1) \<leftarrow> compact r;
       if compacted \<noteq> 0 then place_entry previndex e r1 else Some (False, e, r1)
     } else place_entry previndex e r
   }"

definition emit :: "env \<Rightarrow> bytes \<Rightarrow> 'd raft \<Rightarrow> (int \<times> 'd raft) option" where
  "emit env data r = do {
     assert_that (m_leaderId r = m_me r);
     assert_that (m_role r = Leader);
     (room, r1) \<leftarrow>
       (if logIsFull r then do {
          (compacted, r') \<leftarrow> compact r;
          Some (compacted > 1, r')
        } else Some (True, r));
     if \<not> room then Some (-1, r1)
     else do {
       let newindex = logLastIndex r1 + 1;
       entry \<leftarrow> log_at newindex r1;
       assert_that (u_len (e_update entry) = 0);
       assert_that (u_data (e_update entry) = None);
       r2 \<leftarrow> log_set newindex
               (entry\<lparr>e_term := m_term r1, e_bytes := int (length data),
                      e_update := \<lparr>u_len = int (length data), u_data = Some data\<rparr>\<rparr>) r1;
       r3 \<leftarrow> beat env NOBODY (r2\<lparr>m_log := (m_log r2)\<lparr>l_size := l_size (m_log r2) + 1\<rparr>\<rparr>);
       r4 \<leftarrow> resetTimer env r3;
       Some (newindex, r4)
     }
   }"

section \<open>Messages\<close>

definition set_newentry :: "entry \<Rightarrow> 'd raft \<Rightarrow> 'd raft" where
  "set_newentry e r = r\<lparr>m_log := (m_log r)\<lparr>l_newentry := e\<rparr>\<rparr>"

definition last_term :: "'d raft \<Rightarrow> int option" where
  "last_term r =
     (if logLastIndex r \<ge> 0 then do { e \<leftarrow> log_at (logLastIndex r) r; Some (e_term e) }
      else Some (-1))"

text \<open>
  The part of \<^verbatim>\<open>handleUpdate\<close> that takes in a chunk; \<open>False\<close> is
  \<^verbatim>\<open>goto finish\<close>. \<open>store_chunk\<close> is the entry with the chunk copied into it,
  \<open>complete_entry\<close> what happens when that was the last one.
\<close>

definition store_chunk :: "env \<Rightarrow> msgUpdate \<Rightarrow> entry \<Rightarrow> entry option" where
  "store_chunk env msg entry = do {
     data \<leftarrow> mem_write (mem_realloc (junk_byte env) (u_data (e_update entry)) (mu_totalLen msg))
               (mu_offset msg) (mu_data msg) (mu_len msg);
     let entry' = \<lparr>e_term = mu_entryTerm msg, e_snapshot = mu_snapshot msg,
                   e_update = \<lparr>u_len = mu_totalLen msg, u_data = Some data\<rparr>,
                   e_bytes = mu_offset msg + mu_len msg\<rparr>;
     assert_that (e_bytes entry' \<le> u_len (e_update entry'));
     Some entry'
   }"

definition complete_entry :: "msgUpdate \<Rightarrow> entry \<Rightarrow> 'd raft \<Rightarrow> (bool \<times> 'd raft) option" where
  "complete_entry msg entry r = do {
     (ok, entry', r') \<leftarrow>
       (if mu_snapshot msg then restore (mu_previndex msg) entry r
        else append_log (mu_previndex msg) (mu_prevterm msg) entry r);
     Some (ok, set_newentry entry' r')
   }"

definition take_chunk :: "env \<Rightarrow> msgUpdate \<Rightarrow> 'd raft \<Rightarrow> (bool \<times> 'd raft) option" where
  "take_chunk env msg r =
     (let entry = l_newentry (m_log r) in
      if \<not> mu_empty msg then
        (if mu_offset msg > 0 \<and> e_term entry \<noteq> mu_entryTerm msg then
           Some (False, set_newentry (entry\<lparr>e_term := mu_entryTerm msg, e_bytes := 0\<rparr>) r)
         else if mu_offset msg > e_bytes entry then Some (False, r)
         else do {
           entry' \<leftarrow> store_chunk env msg entry;
           if e_bytes entry' = u_len (e_update entry') then complete_entry msg entry' r
           else Some (True, set_newentry entry' r)
         })
      else Some (True, set_newentry (entry\<lparr>e_bytes := 0\<rparr>) r))"

text \<open>The sender is the leader now; and what it says about acknowledged entries.\<close>

definition note_leader :: "env \<Rightarrow> int \<Rightarrow> 'd raft \<Rightarrow> 'd raft option" where
  "note_leader env sender r = do {
     let r1 = (if sender \<noteq> m_leaderId r then r\<lparr>m_leaderId := sender\<rparr> else r);
     r2 \<leftarrow> modify_peer sender (\<lambda>p. p\<lparr>p_silent_ms := 0\<rparr>) r1;
     resetTimer env r2
   }"

definition note_acked :: "msgUpdate \<Rightarrow> 'd raft \<Rightarrow> 'd raft option" where
  "note_acked msg r =
     (if mu_acked msg > l_acked (m_log r) then do {
        let acked = min (l_first (m_log r) + l_size (m_log r)) (mu_acked msg);
        let r1 = r\<lparr>m_log := (m_log r)\<lparr>l_acked := acked\<rparr>\<rparr>;
        modify_peer (from_id (mu_msg msg)) (\<lambda>p. p\<lparr>p_acked := \<lparr>pr_entries = acked, pr_bytes = 0\<rparr>\<rparr>) r1
      } else Some r)"

text \<open>Everything up to the label \<^verbatim>\<open>finish\<close>: the node and the reply so far.\<close>

definition accept_update :: "env \<Rightarrow> msgUpdate \<Rightarrow> msgDone \<Rightarrow> 'd raft \<Rightarrow> (msgDone \<times> 'd raft) option" where
  "accept_update env msg reply r = do {
     ok \<leftarrow> (if \<not> mu_empty msg \<and> \<not> mu_snapshot msg
            then appendable (mu_previndex msg) (mu_prevterm msg) r else Some True);
     if \<not> ok then Some (reply, r)
     else do {
       lt \<leftarrow> last_term r;
       let reply1 = reply\<lparr>md_entryTerm := lt\<rparr>;
       if curterm (mu_msg msg) < m_term r then Some (reply1, r)
       else do {
         r1 \<leftarrow> note_leader env (from_id (mu_msg msg)) r;
         r2 \<leftarrow> note_acked msg r1;
         (ok, r3) \<leftarrow> take_chunk env msg r2;
         if \<not> ok then Some (reply1, r3)
         else do {
           lt' \<leftarrow> last_term r3;
           Some (reply1\<lparr>md_entryTerm := lt', md_applied := l_applied (m_log r3), md_success := True\<rparr>, r3)
         }
       }
     }
   }"

definition handleUpdate :: "env \<Rightarrow> msgUpdate \<Rightarrow> 'd raft \<Rightarrow> 'd raft option" where
  "handleUpdate env msg r = do {
     let reply = (junk_reply env)
           \<lparr>md_msg := \<lparr>curterm = m_term r, from_id = m_me r, sequence = sequence (mu_msg msg)\<rparr>,
            md_process := process_new, md_success := False\<rparr>;
     (reply1, r1) \<leftarrow> accept_update env msg reply r;
     let reply2 = reply1\<lparr>md_process := \<lparr>pr_entries = logLastIndex r1 + 1,
                                          pr_bytes = e_bytes (l_newentry (m_log r1))\<rparr>\<rparr>;
     send (from_id (mu_msg msg)) (AnyDone reply2) sizeof_MsgDone r1
   }"

text \<open>What the leader notes about the peer that replied.\<close>

definition note_done :: "msgDone \<Rightarrow> peer \<Rightarrow> peer" where
  "note_done msg peer =
     (let peer1 = peer\<lparr>p_applied := md_applied msg\<rparr> in
      if md_success msg then peer1\<lparr>p_acked := md_process msg, p_silent_ms := 0\<rparr>
      else if pr_entries (p_acked peer1) > 0
      then peer1\<lparr>p_acked := \<lparr>pr_entries = pr_entries (p_acked peer1) - 1, pr_bytes = 0\<rparr>\<rparr>
      else peer1)"

definition handleDone :: "env \<Rightarrow> msgDone \<Rightarrow> 'd raft \<Rightarrow> 'd raft option" where
  "handleDone env msg r =
     (if m_role r \<noteq> Leader then Some r
      else let sender = from_id (md_msg msg) in
      if sender = m_me r then Some r
      else do {
        peer \<leftarrow> get_peer sender r;
        if sequence (md_msg msg) \<noteq> p_sequence peer then Some r
        else do {
          let peer1 = peer\<lparr>p_sequence := p_sequence peer + 1\<rparr>;
          if curterm (md_msg msg) < m_term r then Some (set_peer sender peer1 r)
          else do {
            let peer2 = note_done msg peer1;
            let r1 = set_peer sender peer2 r;
            if pr_entries (p_acked peer2) \<le> logLastIndex r1 then beat env sender r1 else Some r1
          }
        }
      })"

lemma note_done_sel [simp]:
  "p_sequence (note_done m p) = p_sequence p" "p_applied (note_done m p) = md_applied m"
  "p_up (note_done m p) = p_up p"
  by (simp_all add: note_done_def Let_def)

text \<open>Whether the candidate's log passes the check of \<^verbatim>\<open>handleClaim\<close>.\<close>

definition claim_log_ok :: "msgClaim \<Rightarrow> 'd raft \<Rightarrow> bool option" where
  "claim_log_ok msg r =
     (if mc_index msg < logLastIndex r then Some False
      else if mc_index msg = logLastIndex r \<and> mc_index msg \<ge> 0 then do {
        e \<leftarrow> log_at (mc_index msg) r;
        Some (e_term e = mc_lastTerm msg)
      } else Some True)"

text \<open>Whether to vote for the candidate.\<close>

definition decide_vote :: "env \<Rightarrow> msgClaim \<Rightarrow> 'd raft \<Rightarrow> (bool \<times> 'd raft) option" where
  "decide_vote env msg r = do {
     let candidate = from_id (mc_msg msg);
     ok \<leftarrow> (if curterm (mc_msg msg) < m_term r then Some False else claim_log_ok msg r);
     if ok \<and> (m_voteFor r = NOBODY \<or> m_voteFor r = candidate) then do {
       r' \<leftarrow> resetTimer env (r\<lparr>m_voteFor := candidate\<rparr>);
       Some (True, r')
     } else Some (False, r)
   }"

text \<open>A claim of this term or a later one makes the node a follower.\<close>

definition yield_to_claim :: "msgClaim \<Rightarrow> 'd raft \<Rightarrow> 'd raft option" where
  "yield_to_claim msg r =
     (if curterm (mc_msg msg) \<ge> m_term r then do {
        r' \<leftarrow> (if curterm (mc_msg msg) > m_term r then setTerm (curterm (mc_msg msg)) r else Some r);
        Some (r'\<lparr>m_role := Follower\<rparr>)
      } else Some r)"

definition handleClaim :: "env \<Rightarrow> msgClaim \<Rightarrow> 'd raft \<Rightarrow> 'd raft option" where
  "handleClaim env msg r = do {
     r1 \<leftarrow> yield_to_claim msg r;
     let hdr = \<lparr>curterm = m_term r1, from_id = m_me r1, sequence = sequence (mc_msg msg)\<rparr>;
     (granted, r2) \<leftarrow> decide_vote env msg r1;
     send (from_id (mc_msg msg)) (AnyVote \<lparr>mv_msg = hdr, mv_granted = granted\<rparr>) sizeof_MsgVote r2
   }"

definition handleVote :: "env \<Rightarrow> msgVote \<Rightarrow> 'd raft \<Rightarrow> 'd raft option" where
  "handleVote env msg r = do {
     let sender = from_id (mv_msg msg);
     peer \<leftarrow> get_peer sender r;
     if sequence (mv_msg msg) \<noteq> p_sequence peer then Some r
     else do {
       let r1 = set_peer sender (peer\<lparr>p_sequence := p_sequence peer + 1\<rparr>) r;
       if curterm (mv_msg msg) < m_term r1 then Some r1
       else if m_role r1 \<noteq> Candidate then Some r1
       else do {
         (leader, r2) \<leftarrow>
           becomeLeader env (if mv_granted msg then r1\<lparr>m_votes := m_votes r1 + 1\<rparr> else r1);
         Some r2
       }
     }
   }"

definition handleMessage :: "env \<Rightarrow> msgAny \<Rightarrow> 'd raft \<Rightarrow> 'd raft option" where
  "handleMessage env msg r = do {
     r1 \<leftarrow> (if curterm (header msg) > m_term r then do {
              r' \<leftarrow> setTerm (curterm (header msg)) r;
              Some (r'\<lparr>m_role := Follower\<rparr>)
            } else Some r);
     assert_that (msgtype msg \<ge> 0);
     assert_that (msgtype msg < 4);
     case msg of
       AnyUpdate m \<Rightarrow> handleUpdate env m r1
     | AnyDone m \<Rightarrow> handleDone env m r1
     | AnyClaim m \<Rightarrow> handleClaim env m r1
     | AnyVote m \<Rightarrow> handleVote env m r1
     | AnyOther t m \<Rightarrow> Some r1
   }"

text \<open>
  \<^verbatim>\<open>recvMessage\<close> on a datagram of \<open>mlen\<close> bytes from the address \<open>remote\<close>; the
  buffer is cleared on every path.
\<close>

definition recvMessage :: "env \<Rightarrow> address \<Rightarrow> msgAny \<Rightarrow> int \<Rightarrow> 'd raft \<Rightarrow> 'd raft option" where
  "recvMessage env remote msg mlen r =
     (let sender = from_id (header msg) in
      if \<not> msgSize msg mlen then Some r
      else if sender < 0 \<or> sender \<ge> peernum_max (m_config r) then Some r
      else if sender = m_me r then Some r
      else do {
        peer \<leftarrow> get_peer sender r;
        host \<leftarrow> p_host peer;
        if fst host \<noteq> fst remote then Some r
        else if snd host \<noteq> snd remote then Some r
        else handleMessage env msg r
      })"

section \<open>Start-up\<close>

text \<open>
  \<^verbatim>\<open>RaftServer::loadConfig\<close>: the configuration, and one \<^verbatim>\<open>peerUp\<close> for each
  \<^verbatim>\<open>-r\<close> option; the option with the node's own id also makes the connection to the peers.
  \<open>None\<close> is also \<^verbatim>\<open>exit\<close>.
\<close>

definition server_config :: "'d \<Rightarrow> ('d \<Rightarrow> update \<Rightarrow> bool \<Rightarrow> 'd) \<Rightarrow> ('d \<Rightarrow> update) \<Rightarrow> 'd config" where
  "server_config state appl snap = \<lparr>peernum_max = 64, heartbeat_ms = 50, election_ms_min = 500,
     election_ms_max = 700, log_len = 10, chunk_len = 400, msg_len_max = 500, userdata = state,
     applier = appl, snapshooter = snap\<rparr>"

fun load_peers :: "env \<Rightarrow> int \<Rightarrow> (int \<times> address) list \<Rightarrow> 'd raft \<Rightarrow> 'd raft option" where
  "load_peers env my_id [] r = Some r"
| "load_peers env my_id ((pid, addr) # ps) r = do {
     (ok, r1) \<leftarrow> peerUp env pid addr (pid = my_id) r;
     assert_that ok;
     load_peers env my_id ps (if pid = my_id then setConneToPeer r1 else r1)
   }"

definition loadConfig :: "env \<Rightarrow> int \<Rightarrow> 'd config \<Rightarrow> int \<Rightarrow> (int \<times> address) list \<Rightarrow> 'd raft option" where
  "loadConfig env junk_timer rc my_id ps = do {
     assert_that (ConfigIsOk rc);
     r \<leftarrow> load_peers env my_id ps (raft_new junk_timer rc);
     assert_that (my_id \<in> fst ` set ps);
     Some r
   }"

end
