(* ===== verification/Voting.thy ===== *)
theory Voting
  imports RaftTypes
begin

text \<open>
  The voting protocol that the elections of \<^verbatim>\<open>example/raft_server/raft.cc\<close> are meant to
  follow, as an abstract transition system: what each node knows that matters for elections, the
  claims and granted votes it has sent, and the moves it can make. Messages are never removed, so
  that losing, duplicating and reordering datagrams are all possible.

  The result is that two nodes are never leader of the same term at the same time. It is proved here
  for the protocol; \<open>RaftElection\<close> shows that the code only makes moves of the protocol.
\<close>

section \<open>Simulation\<close>

text \<open>
  A concrete system whose every step is a sequence of steps of an abstract one keeps what the
  abstract one keeps.
\<close>

locale simulation =
  fixes cstep :: "'c \<Rightarrow> 'c \<Rightarrow> bool"
    and astep :: "'a \<Rightarrow> 'a \<Rightarrow> bool"
    and abs :: "'c \<Rightarrow> 'a"
    and good :: "'c \<Rightarrow> bool"
    and inv :: "'a \<Rightarrow> bool"
  assumes good_step: "good c \<Longrightarrow> cstep c c' \<Longrightarrow> good c'"
    and sim: "good c \<Longrightarrow> cstep c c' \<Longrightarrow> astep\<^sup>*\<^sup>* (abs c) (abs c')"
    and inv_step: "inv a \<Longrightarrow> astep a a' \<Longrightarrow> inv a'"
begin

lemma inv_steps: "astep\<^sup>*\<^sup>* a a' \<Longrightarrow> inv a \<Longrightarrow> inv a'"
  by (induction rule: rtranclp_induct) (auto intro: inv_step)

lemma good_steps: "cstep\<^sup>*\<^sup>* c c' \<Longrightarrow> good c \<Longrightarrow> good c'"
  by (induction rule: rtranclp_induct) (auto intro: good_step)

lemma sim_steps: "cstep\<^sup>*\<^sup>* c c' \<Longrightarrow> good c \<Longrightarrow> astep\<^sup>*\<^sup>* (abs c) (abs c')"
proof (induction rule: rtranclp_induct)
  case base
  then show ?case by simp
next
  case (step d d')
  from sim [OF good_steps [OF step.hyps(1) step.prems] step.hyps(2)] step.IH [OF step.prems]
  show ?case by (simp add: rtranclp_trans)
qed

lemma transfer: "cstep\<^sup>*\<^sup>* c c' \<Longrightarrow> good c \<Longrightarrow> inv (abs c) \<Longrightarrow> inv (abs c')"
  by (rule inv_steps [OF sim_steps])

end

section \<open>The protocol\<close>

text \<open>What a node has sent: \<open>Claimed d t s\<close> asks \<open>d\<close> for its vote in term \<open>t\<close> with
  sequence number \<open>s\<close>; \<open>Granted d t s\<close> gives \<open>d\<close> the vote it asked for.\<close>

datatype ballot = Claimed int int int | Granted int int int

record voter =
  v_term :: int
  v_for :: int
  v_role :: role
  v_votes :: int
  v_seq :: "int \<Rightarrow> int"
  v_cast :: "ballot set"

inductive ballot_step :: "int \<Rightarrow> int \<Rightarrow> (int \<Rightarrow> ballot set) \<Rightarrow> voter \<Rightarrow> voter \<Rightarrow> bool"
  for me N :: int and inbox :: "int \<Rightarrow> ballot set"
where
  bump: "(\<And>i. v_seq e i \<le> s i) \<Longrightarrow> ballot_step me N inbox e (e\<lparr>v_seq := s\<rparr>)"
| follow: "ballot_step me N inbox e (e\<lparr>v_role := Follower\<rparr>)"
| new_term: "v_term e < t \<Longrightarrow>
    ballot_step me N inbox e (e\<lparr>v_term := t, v_for := NOBODY, v_votes := 0, v_role := Follower\<rparr>)"
| stand: "(\<And>i. v_seq e i \<le> s i) \<Longrightarrow>
    ballot_step me N inbox e
      (e\<lparr>v_term := v_term e + 1, v_role := Candidate, v_votes := 1, v_seq := s,
         v_cast := v_cast e \<union> {Claimed d (v_term e + 1) (s d) | d. d \<in> D}\<rparr>)"
| grant: "Claimed me (v_term e) s \<in> inbox d \<Longrightarrow> d \<noteq> me \<Longrightarrow> 0 \<le> d \<Longrightarrow> v_for e = NOBODY \<or> v_for e = d \<Longrightarrow>
    ballot_step me N inbox e
      (e\<lparr>v_for := d, v_role := Follower, v_cast := insert (Granted d (v_term e) s) (v_cast e)\<rparr>)"
| count: "Granted me (v_term e) (v_seq e i) \<in> inbox i \<Longrightarrow> i \<noteq> me \<Longrightarrow> v_role e = Candidate \<Longrightarrow>
    ballot_step me N inbox e
      (e\<lparr>v_votes := v_votes e + 1, v_seq := (v_seq e)(i := v_seq e i + 1)\<rparr>)"
| win: "v_role e = Candidate \<Longrightarrow> N < v_votes e * 2 \<Longrightarrow>
    ballot_step me N inbox e (e\<lparr>v_role := Leader\<rparr>)"

text \<open>One node of the nodes \<open>0, \<dots>, N - 1\<close> moves; it sees what the others have sent.\<close>

inductive vote_step :: "int \<Rightarrow> (int \<Rightarrow> voter) \<Rightarrow> (int \<Rightarrow> voter) \<Rightarrow> bool" for N :: int where
  "i \<in> {0..<N} \<Longrightarrow> ballot_step i N (\<lambda>j. if j \<in> {0..<N} then v_cast (g j) else {}) (g i) e \<Longrightarrow>
     vote_step N g (g(i := e))"

text \<open>The votes for \<open>c\<close> in its current term that were granted, and that it has counted.\<close>

definition granted_to :: "int \<Rightarrow> (int \<Rightarrow> voter) \<Rightarrow> int \<Rightarrow> int set" where
  "granted_to N g c = {i \<in> {0..<N}. i \<noteq> c \<and> (\<exists>s. Granted c (v_term (g c)) s \<in> v_cast (g i))}"

definition counted_by :: "int \<Rightarrow> (int \<Rightarrow> voter) \<Rightarrow> int \<Rightarrow> int set" where
  "counted_by N g c =
     {i \<in> {0..<N}. i \<noteq> c \<and> (\<exists>s < v_seq (g c) i. Granted c (v_term (g c)) s \<in> v_cast (g i))}"

definition claims_ok :: "voter \<Rightarrow> bool" where
  "claims_ok e \<longleftrightarrow>
     (\<forall>d t s. Claimed d t s \<in> v_cast e \<longrightarrow> t \<le> v_term e \<and> s \<le> v_seq e d) \<and>
     (\<forall>d t s s'. Claimed d t s \<in> v_cast e \<longrightarrow> Claimed d t s' \<in> v_cast e \<longrightarrow> s = s')"

definition grants_ok :: "voter \<Rightarrow> bool" where
  "grants_ok e \<longleftrightarrow>
     (\<forall>d t s. Granted d t s \<in> v_cast e \<longrightarrow>
        0 \<le> d \<and> t \<le> v_term e \<and> (t = v_term e \<longrightarrow> v_for e = d \<and> v_role e = Follower)) \<and>
     (\<forall>d d' t s s'. Granted d t s \<in> v_cast e \<longrightarrow> Granted d' t s' \<in> v_cast e \<longrightarrow> d = d')"

definition vote_inv :: "int \<Rightarrow> (int \<Rightarrow> voter) \<Rightarrow> bool" where
  "vote_inv N g \<longleftrightarrow>
     (\<forall>i \<in> {0..<N}. claims_ok (g i) \<and> grants_ok (g i)) \<and>
     (\<forall>i \<in> {0..<N}. \<forall>d \<in> {0..<N}. \<forall>t s. Granted d t s \<in> v_cast (g i) \<longrightarrow> Claimed i t s \<in> v_cast (g d)) \<and>
     (\<forall>c \<in> {0..<N}. v_role (g c) = Candidate \<longrightarrow> v_votes (g c) \<le> 1 + int (card (counted_by N g c))) \<and>
     (\<forall>c \<in> {0..<N}. v_role (g c) = Leader \<longrightarrow> N < 2 * (1 + int (card (granted_to N g c))))"


section \<open>The invariant\<close>

lemma step_cast_mono: "ballot_step me N inbox e e' \<Longrightarrow> v_cast e \<subseteq> v_cast e'"
  by (induction rule: ballot_step.induct) auto

lemma step_seq_mono: "ballot_step me N inbox e e' \<Longrightarrow> v_seq e i \<le> v_seq e' i"
  by (induction rule: ballot_step.induct) auto

lemma step_term_mono: "ballot_step me N inbox e e' \<Longrightarrow> v_term e \<le> v_term e'"
  by (induction rule: ballot_step.induct) auto

lemma claims_okI:
  assumes "\<And>d t s. Claimed d t s \<in> v_cast e \<Longrightarrow> t \<le> v_term e \<and> s \<le> v_seq e d"
    and "\<And>d t s s'. Claimed d t s \<in> v_cast e \<Longrightarrow> Claimed d t s' \<in> v_cast e \<Longrightarrow> s = s'"
  shows "claims_ok e"
  unfolding claims_ok_def using assms by blast

lemma claims_okD:
  assumes "claims_ok e" and "Claimed d t s \<in> v_cast e"
  shows "t \<le> v_term e" and "s \<le> v_seq e d" and "Claimed d t s' \<in> v_cast e \<Longrightarrow> s = s'"
  using assms unfolding claims_ok_def by blast+

lemma step_claims_ok: "ballot_step me N inbox e e' \<Longrightarrow> claims_ok e \<Longrightarrow> claims_ok e'"
proof -
  assume st: "ballot_step me N inbox e e'" and ok: "claims_ok e"
  have old: "t \<le> v_term e' \<and> s \<le> v_seq e' d" if "Claimed d t s \<in> v_cast e" for d t s
    using claims_okD [OF ok that] step_term_mono [OF st] step_seq_mono [OF st, of d] by linarith
  from st show ?thesis
  proof cases
    case (stand s D)
    have new: "Claimed d (v_term e + 1) s' \<notin> v_cast e" for d s'
      using claims_okD(1) [OF ok] by force
    with stand old show ?thesis by (intro claims_okI) (auto dest: claims_okD(3) [OF ok])
  qed (rule claims_okI; use old claims_okD(3) [OF ok] in auto)+
qed

lemma grants_okI:
  assumes "\<And>d t s. Granted d t s \<in> v_cast e \<Longrightarrow> 0 \<le> d \<and> t \<le> v_term e"
    and "\<And>d s. Granted d (v_term e) s \<in> v_cast e \<Longrightarrow> v_for e = d \<and> v_role e = Follower"
    and "\<And>d d' t s s'. Granted d t s \<in> v_cast e \<Longrightarrow> Granted d' t s' \<in> v_cast e \<Longrightarrow> d = d'"
  shows "grants_ok e"
  unfolding grants_ok_def using assms by blast

lemma grants_okD:
  assumes "grants_ok e" and "Granted d t s \<in> v_cast e"
  shows "0 \<le> d" and "t \<le> v_term e" and "t = v_term e \<Longrightarrow> v_for e = d"
    and "t = v_term e \<Longrightarrow> v_role e = Follower"
    and "Granted d' t s' \<in> v_cast e \<Longrightarrow> d = d'"
  using assms unfolding grants_ok_def by blast+

lemma step_grants_ok: "ballot_step me N inbox e e' \<Longrightarrow> grants_ok e \<Longrightarrow> grants_ok e'"
proof (induction rule: ballot_step.induct)
  case (grant e s d)
  have "d' = d" if "Granted d' (v_term e) s' \<in> v_cast e" for d' s'
    using grants_okD(1,3) [OF grant.prems that] grant.hyps(4) by (auto simp: NOBODY_def)
  with grant.hyps(3) show ?case
    by (intro grants_okI) (auto dest: grants_okD [OF grant.prems])
next
  case (new_term e t)
  then show ?case by (intro grants_okI) (auto dest: grants_okD [OF new_term.prems])
next
  case (stand e s D)
  then show ?case by (intro grants_okI) (auto dest: grants_okD [OF stand.prems])
next
  case (count e i)
  then show ?case by (intro grants_okI) (auto dest: grants_okD [OF count.prems])
next
  case (win e)
  then show ?case by (intro grants_okI) (auto dest: grants_okD [OF win.prems])
next
  case (bump e s)
  then show ?case by (intro grants_okI) (auto dest: grants_okD [OF bump.prems])
next
  case (follow e)
  then show ?case by (intro grants_okI) (auto dest: grants_okD [OF follow.prems])
qed

lemma granted_finite [simp]: "finite (granted_to N g c)" "finite (counted_by N g c)"
  unfolding granted_to_def counted_by_def
  by (rule finite_subset [OF Collect_restrict finite_atLeastLessThan_int])+

lemma counted_le_granted: "card (counted_by N g c) \<le> card (granted_to N g c)"
  by (rule card_mono [OF granted_finite(1)]) (auto simp: granted_to_def counted_by_def)

text \<open>Nothing is taken back while the term of \<open>c\<close> stays.\<close>

lemma votes_mono:
  assumes "\<And>j. v_cast (g j) \<subseteq> v_cast (g' j)" and "v_term (g' c) = v_term (g c)"
    and "\<And>i. v_seq (g c) i \<le> v_seq (g' c) i"
  shows "card (granted_to N g c) \<le> card (granted_to N g' c)"
    and "card (counted_by N g c) \<le> card (counted_by N g' c)"
proof -
  have "granted_to N g c \<subseteq> granted_to N g' c"
    unfolding granted_to_def assms(2) using assms(1) by blast
  then show "card (granted_to N g c) \<le> card (granted_to N g' c)" by (intro card_mono) simp_all
  have "counted_by N g c \<subseteq> counted_by N g' c"
    unfolding counted_by_def assms(2) using assms(1,3) by (fastforce intro: less_le_trans)
  then show "card (counted_by N g c) \<le> card (counted_by N g' c)" by (intro card_mono) simp_all
qed

text \<open>A vote that is counted was not counted before: its claim has a single sequence number.\<close>

lemma count_new:
  assumes inv: "vote_inv N g" and c: "c \<in> {0..<N}" and i: "i \<in> {0..<N}" "i \<noteq> c"
    and v: "Granted c (v_term (g c)) (v_seq (g c) i) \<in> v_cast (g i)"
    and g': "g' = g(c := (g c)\<lparr>v_votes := v, v_seq := (v_seq (g c))(i := v_seq (g c) i + 1)\<rparr>)"
  shows "Suc (card (counted_by N g c)) \<le> card (counted_by N g' c)"
proof -
  let ?t = "v_term (g c)" and ?q = "v_seq (g c) i"
  from inv c i v have "Claimed i ?t ?q \<in> v_cast (g c)" by (auto simp: vote_inv_def)
  moreover have "\<And>s. Granted c ?t s \<in> v_cast (g i) \<Longrightarrow> Claimed i ?t s \<in> v_cast (g c)"
    using inv c i by (auto simp: vote_inv_def)
  moreover have "claims_ok (g c)" using inv c by (simp add: vote_inv_def)
  ultimately have "\<And>s. Granted c ?t s \<in> v_cast (g i) \<Longrightarrow> s = ?q"
    unfolding claims_ok_def by blast
  then have "i \<notin> counted_by N g c" by (auto simp: counted_by_def)
  moreover have "insert i (counted_by N g c) \<subseteq> counted_by N g' c"
    using i v by (fastforce simp: counted_by_def g')
  ultimately show ?thesis
    using card_mono [of "counted_by N g' c" "insert i (counted_by N g c)"] by simp
qed

lemma candidate_step:
  assumes inv: "vote_inv N g" and c: "c \<in> {0..<N}"
    and st: "ballot_step c N (\<lambda>j. if j \<in> {0..<N} then v_cast (g j) else {}) (g c) e"
    and role: "v_role e = Candidate"
  shows "v_votes e \<le> 1 + int (card (counted_by N (g(c := e)) c))"
proof -
  have old: "v_role (g c) = Candidate \<Longrightarrow> v_votes (g c) \<le> 1 + int (card (counted_by N g c))"
    using inv c by (simp add: vote_inv_def)
  from st show ?thesis
  proof cases
    case (bump s)
    then have "card (counted_by N g c) \<le> card (counted_by N (g(c := e)) c)"
      by (intro votes_mono) simp_all
    with bump role old show ?thesis by simp
  next
    case (count i)
    then have "Suc (card (counted_by N g c)) \<le> card (counted_by N (g(c := e)) c)"
      by (intro count_new [OF inv c, of i]) (simp_all split: if_splits)
    with count old show ?thesis by simp
  qed (use role in simp_all)
qed

lemma leader_step:
  assumes inv: "vote_inv N g" and c: "c \<in> {0..<N}"
    and st: "ballot_step c N (\<lambda>j. if j \<in> {0..<N} then v_cast (g j) else {}) (g c) e"
    and role: "v_role e = Leader"
  shows "N < 2 * (1 + int (card (granted_to N (g(c := e)) c)))"
proof -
  have old: "v_role (g c) = Leader \<Longrightarrow> N < 2 * (1 + int (card (granted_to N g c)))"
    using inv c by (simp add: vote_inv_def)
  from st show ?thesis
  proof cases
    case (bump s)
    then have "card (granted_to N g c) \<le> card (granted_to N (g(c := e)) c)"
      by (intro votes_mono) simp_all
    with bump role old show ?thesis by simp
  next
    case win
    with inv c have "v_votes (g c) \<le> 1 + int (card (counted_by N g c))" by (simp add: vote_inv_def)
    moreover have "card (granted_to N g c) \<le> card (granted_to N (g(c := e)) c)"
      using win by (intro votes_mono) simp_all
    moreover note counted_le_granted [of N g c]
    ultimately show ?thesis using win(3) by auto
  qed (use role in simp_all)
qed

lemma grant_claimed:
  assumes st: "ballot_step me N inbox e e'" and "Granted d t s \<in> v_cast e'"
    and "Granted d t s \<notin> v_cast e"
  shows "Claimed me t s \<in> inbox d" and "d \<noteq> me"
  using assms by (cases rule: ballot_step.cases; auto)+

lemma vote_inv_step:
  assumes inv: "vote_inv N g" and "vote_step N g g'"
  shows "vote_inv N g'"
proof -
  from assms(2) obtain i e where i: "i \<in> {0..<N}" and g': "g' = g(i := e)"
    and st: "ballot_step i N (\<lambda>j. if j \<in> {0..<N} then v_cast (g j) else {}) (g i) e"
    by cases
  have cast: "v_cast (g j) \<subseteq> v_cast (g' j)" for j
    using step_cast_mono [OF st] by (simp add: g')
  have 1: "claims_ok (g' j) \<and> grants_ok (g' j)" if "j \<in> {0..<N}" for j
    using inv i that step_claims_ok [OF st] step_grants_ok [OF st]
    by (cases "j = i") (auto simp: g' vote_inv_def)
  have 2: "Claimed j t s \<in> v_cast (g' d)"
    if j: "j \<in> {0..<N}" and d: "d \<in> {0..<N}" and *: "Granted d t s \<in> v_cast (g' j)" for j d t s
  proof (cases "Granted d t s \<in> v_cast (g j)")
    case True
    with inv j d have "Claimed j t s \<in> v_cast (g d)" by (auto simp: vote_inv_def)
    with cast show ?thesis by blast
  next
    case False
    with * have [simp]: "j = i" by (auto simp: g' split: if_splits)
    from * False grant_claimed [OF st, of d t s] d cast [of d] show ?thesis
      by (auto simp: g' split: if_splits)
  qed
  have 3: "v_votes (g' c) \<le> 1 + int (card (counted_by N g' c))"
    if c: "c \<in> {0..<N}" and role: "v_role (g' c) = Candidate" for c
  proof (cases "c = i")
    case True
    with candidate_step [OF inv i st] role show ?thesis by (simp add: g')
  next
    case False
    with inv c role have "v_votes (g' c) \<le> 1 + int (card (counted_by N g c))"
      by (simp add: vote_inv_def g')
    moreover have "card (counted_by N g c) \<le> card (counted_by N g' c)"
      using cast False by (intro votes_mono) (simp_all add: g')
    ultimately show ?thesis by linarith
  qed
  have 4: "N < 2 * (1 + int (card (granted_to N g' c)))"
    if c: "c \<in> {0..<N}" and role: "v_role (g' c) = Leader" for c
  proof (cases "c = i")
    case True
    with leader_step [OF inv i st] role show ?thesis by (simp add: g')
  next
    case False
    with inv c role have "N < 2 * (1 + int (card (granted_to N g c)))"
      by (simp add: vote_inv_def g')
    moreover have "card (granted_to N g c) \<le> card (granted_to N g' c)"
      using cast False by (intro votes_mono) (simp_all add: g')
    ultimately show ?thesis by auto
  qed
  from 1 2 3 4 show ?thesis unfolding vote_inv_def by blast
qed

section \<open>One leader\<close>

text \<open>Two majorities of \<open>N\<close> nodes have a node in common.\<close>

lemma majorities_meet:
  fixes A B :: "int set"
  assumes "0 \<le> N" and "A \<subseteq> {0..<N}" and "B \<subseteq> {0..<N}" and "N < 2 * int (card A)" and "N < 2 * int (card B)"
  shows "A \<inter> B \<noteq> {}"
proof
  assume *: "A \<inter> B = {}"
  have fin: "finite A" "finite B" using assms(2,3) by (auto intro: finite_subset)
  from * have "card A + card B = card (A \<union> B)" by (simp add: card_Un_disjoint fin)
  also have "\<dots> \<le> card {0..<N}" using assms(2,3) by (intro card_mono) auto
  finally have "card A + card B \<le> nat N" by simp
  with assms(1,4,5) show False by linarith
qed

lemma one_leader:
  assumes inv: "vote_inv N g" and a: "a \<in> {0..<N}" and b: "b \<in> {0..<N}"
    and lead: "v_role (g a) = Leader" "v_role (g b) = Leader" and same_term: "v_term (g a) = v_term (g b)"
  shows "a = b"
proof (rule ccontr)
  assume "a \<noteq> b"
  let ?A = "insert a (granted_to N g a)" and ?B = "insert b (granted_to N g b)"
  have "a \<notin> granted_to N g a" "b \<notin> granted_to N g b" by (simp_all add: granted_to_def)
  then have "N < 2 * int (card ?A)" "N < 2 * int (card ?B)"
    using inv a b lead by (simp_all add: vote_inv_def)
  moreover have "?A \<subseteq> {0..<N}" "?B \<subseteq> {0..<N}" using a b by (auto simp: granted_to_def)
  ultimately obtain x where x: "x \<in> ?A" "x \<in> ?B" using majorities_meet [of N ?A ?B] a by auto
  have follower: "v_role (g y) \<noteq> Leader"
    if "Granted d (v_term (g y)) s \<in> v_cast (g y)" and "y \<in> {0..<N}" for y d s
    using inv that unfolding vote_inv_def grants_ok_def by (metis role.distinct(3))
  have ga: "\<exists>s. Granted a (v_term (g a)) s \<in> v_cast (g y)" if "y \<in> ?A" "y \<noteq> a" for y
    using that by (simp add: granted_to_def)
  have gb: "\<exists>s. Granted b (v_term (g a)) s \<in> v_cast (g y)" if "y \<in> ?B" "y \<noteq> b" for y
    using that same_term by (simp add: granted_to_def)
  show False
  proof (cases "x = a \<or> x = b")
    case True
    then show False
    proof
      assume "x = a"
      with gb [OF x(2)] \<open>a \<noteq> b\<close> follower [of b a] a lead show False by auto
    next
      assume "x = b"
      with ga [OF x(1)] \<open>a \<noteq> b\<close> follower [of a b] b lead same_term show False by auto
    qed
  next
    case False
    with ga [OF x(1)] gb [OF x(2)] obtain s s' where
      "Granted a (v_term (g a)) s \<in> v_cast (g x)" "Granted b (v_term (g a)) s' \<in> v_cast (g x)" by auto
    moreover have "grants_ok (g x)" using inv x a b by (auto simp: vote_inv_def granted_to_def)
    ultimately show False using \<open>a \<noteq> b\<close> unfolding grants_ok_def by blast
  qed
qed

end
