(* ===== verification/RaftElection.thy ===== *)
theory RaftElection
  imports Raft Voting
begin

text \<open>
  The elections of \<^verbatim>\<open>example/raft_server/raft.cc\<close>: the nodes of a cluster with the
  datagrams they have sent, and the proof that they follow the protocol of \<open>Voting\<close>. An operation
  either is quiet, which means that the election does not see it, or it is a few moves of the protocol.
\<close>

section \<open>What the protocol sees of a node\<close>

definition seq_of :: "'d raft \<Rightarrow> int \<Rightarrow> int" where
  "seq_of r i = (case get_peer i r of Some p \<Rightarrow> p_sequence p | None \<Rightarrow> 0)"

fun ballots_of :: "int \<times> address \<times> msgAny \<Rightarrow> ballot set" where
  "ballots_of (d, h, AnyClaim m) = {Claimed d (curterm (mc_msg m)) (sequence (mc_msg m))}"
| "ballots_of (d, h, AnyVote m) =
     (if mv_granted m then {Granted d (curterm (mv_msg m)) (sequence (mv_msg m))} else {})"
| "ballots_of _ = {}"

definition ballots :: "'d raft \<Rightarrow> ballot set" where
  "ballots r = (\<Union>x \<in> set (m_sent r). ballots_of x)"

definition voter_of :: "'d raft \<Rightarrow> voter" where
  "voter_of r = \<lparr>v_term = m_term r, v_for = m_voteFor r, v_role = m_role r, v_votes = m_votes r,
     v_seq = seq_of r, v_cast = ballots r\<rparr>"

text \<open>A node's messages carry its own id and go to other nodes.\<close>

definition sent_ok :: "'d raft \<Rightarrow> bool" where
  "sent_ok r \<longleftrightarrow> (\<forall>(d, h, m) \<in> set (m_sent r). from_id (header m) = m_me r \<and> d \<noteq> m_me r \<and> 0 \<le> d)"

definition frame_ok :: "'d raft \<Rightarrow> 'd raft \<Rightarrow> bool" where
  "frame_ok r r' \<longleftrightarrow> m_me r' = m_me r \<and> m_peerNum r' = m_peerNum r \<and> (sent_ok r \<longrightarrow> sent_ok r')"

definition quiet :: "'d raft \<Rightarrow> 'd raft \<Rightarrow> bool" where
  "quiet r r' \<longleftrightarrow> frame_ok r r' \<and> m_term r' = m_term r \<and> m_voteFor r' = m_voteFor r \<and>
     m_role r' = m_role r \<and> m_votes r' = m_votes r \<and> (\<forall>i. seq_of r i \<le> seq_of r' i) \<and>
     ballots r' = ballots r"

lemma frame_ok_refl [simp]: "frame_ok r r"
  by (simp add: frame_ok_def)

lemma frame_ok_trans: "frame_ok r s \<Longrightarrow> frame_ok s t \<Longrightarrow> frame_ok r t"
  by (simp add: frame_ok_def)

lemma quiet_refl [simp]: "quiet r r"
  by (simp add: quiet_def)

lemma quiet_trans [trans]: "quiet r s \<Longrightarrow> quiet s t \<Longrightarrow> quiet r t"
  unfolding quiet_def using frame_ok_trans by (metis order_trans)

text \<open>Members the protocol does not look at.\<close>

lemma seq_of_update [simp]:
  "seq_of (r\<lparr>m_log := l\<rparr>) = seq_of r" "seq_of (r\<lparr>m_config := c\<rparr>) = seq_of r"
  "seq_of (r\<lparr>m_timer := t\<rparr>) = seq_of r" "seq_of (r\<lparr>m_draws := n\<rparr>) = seq_of r"
  "seq_of (r\<lparr>m_leaderId := i\<rparr>) = seq_of r" "seq_of (r\<lparr>m_term := i\<rparr>) = seq_of r"
  "seq_of (r\<lparr>m_voteFor := i\<rparr>) = seq_of r" "seq_of (r\<lparr>m_votes := i\<rparr>) = seq_of r"
  "seq_of (r\<lparr>m_role := x\<rparr>) = seq_of r" "seq_of (r\<lparr>m_sent := ms\<rparr>) = seq_of r"
  by (simp_all add: seq_of_def get_peer_def fun_eq_iff)

lemma ballots_update [simp]:
  "ballots (r\<lparr>m_log := l\<rparr>) = ballots r" "ballots (r\<lparr>m_config := c\<rparr>) = ballots r"
  "ballots (r\<lparr>m_timer := t\<rparr>) = ballots r" "ballots (r\<lparr>m_draws := n\<rparr>) = ballots r"
  "ballots (r\<lparr>m_leaderId := i\<rparr>) = ballots r" "ballots (r\<lparr>m_term := i\<rparr>) = ballots r"
  "ballots (r\<lparr>m_voteFor := i\<rparr>) = ballots r" "ballots (r\<lparr>m_votes := i\<rparr>) = ballots r"
  "ballots (r\<lparr>m_role := x\<rparr>) = ballots r" "ballots (r\<lparr>m_peers := ps\<rparr>) = ballots r"
  "ballots (set_peer i p r) = ballots r"
  by (simp_all add: ballots_def set_peer_def)

lemma sent_ok_update [simp]:
  "sent_ok (r\<lparr>m_log := l\<rparr>) = sent_ok r" "sent_ok (r\<lparr>m_config := c\<rparr>) = sent_ok r"
  "sent_ok (r\<lparr>m_timer := t\<rparr>) = sent_ok r" "sent_ok (r\<lparr>m_draws := n\<rparr>) = sent_ok r"
  "sent_ok (r\<lparr>m_leaderId := i\<rparr>) = sent_ok r" "sent_ok (r\<lparr>m_term := i\<rparr>) = sent_ok r"
  "sent_ok (r\<lparr>m_voteFor := i\<rparr>) = sent_ok r" "sent_ok (r\<lparr>m_votes := i\<rparr>) = sent_ok r"
  "sent_ok (r\<lparr>m_role := x\<rparr>) = sent_ok r" "sent_ok (r\<lparr>m_peers := ps\<rparr>) = sent_ok r"
  "sent_ok (set_peer i p r) = sent_ok r"
  by (simp_all add: sent_ok_def set_peer_def)

lemma set_peer_sel [simp]:
  "m_term (set_peer i p r) = m_term r" "m_voteFor (set_peer i p r) = m_voteFor r"
  "m_role (set_peer i p r) = m_role r" "m_votes (set_peer i p r) = m_votes r"
  "m_me (set_peer i p r) = m_me r" "m_peerNum (set_peer i p r) = m_peerNum r"
  "m_sent (set_peer i p r) = m_sent r" "m_log (set_peer i p r) = m_log r"
  "m_config (set_peer i p r) = m_config r" "m_leaderId (set_peer i p r) = m_leaderId r"
  "length (m_peers (set_peer i p r)) = length (m_peers r)"
  by (simp_all add: set_peer_def)

lemma seq_of_set_peer:
  "get_peer i r = Some q \<Longrightarrow> seq_of (set_peer i p r) = (seq_of r)(i := p_sequence p)"
  by (auto simp: fun_eq_iff seq_of_def get_peer_def set_peer_def nth_list_update split: if_splits)

lemma seq_of_get: "get_peer i r = Some p \<Longrightarrow> seq_of r i = p_sequence p"
  by (simp add: seq_of_def)

text \<open>Sending something the election does not see, or a claim, or a vote.\<close>

lemma send_spec:
  assumes "send d m len r = Some r'"
  shows "\<exists>h. r' = r\<lparr>m_sent := m_sent r @ [(d, h, m)]\<rparr> \<and> d \<noteq> m_me r \<and> 0 \<le> d \<and>
    from_id (header m) = m_me r"
  using assms by (auto simp: send_def abort_simps)

lemma send_frame: "send d m len r = Some r' \<Longrightarrow> frame_ok r r'"
  by (drule send_spec) (auto simp: frame_ok_def sent_ok_def)

lemma send_voter:
  assumes "send d m len r = Some r'"
  shows "voter_of r' = (voter_of r)\<lparr>v_cast := ballots r \<union> ballots_of (d, undefined, m)\<rparr>"
proof -
  obtain h where r': "r' = r\<lparr>m_sent := m_sent r @ [(d, h, m)]\<rparr>"
    using send_spec [OF assms] by blast
  have "ballots_of (d, h, m) = ballots_of (d, undefined, m)" by (cases m) simp_all
  then show ?thesis by (simp add: r' voter_of_def ballots_def Un_commute)
qed

lemma quiet_iff_voter:
  "quiet r r' \<longleftrightarrow> frame_ok r r' \<and> (\<forall>i. seq_of r i \<le> seq_of r' i) \<and>
     voter_of r' = (voter_of r)\<lparr>v_seq := seq_of r'\<rparr>"
  by (auto simp: quiet_def voter_of_def)

lemma quiet_send:
  "send d m len r = Some r' \<Longrightarrow> ballots_of (d, undefined, m) = {} \<Longrightarrow> quiet r r'"
  using send_frame [of d m len r r'] send_voter [of d m len r r'] send_spec [of d m len r r']
  by (auto simp: quiet_iff_voter) (auto simp: voter_of_def)

lemma quiet_set_peer:
  "get_peer i r = Some p \<Longrightarrow> p_sequence p \<le> p_sequence q \<Longrightarrow> quiet r (set_peer i q r)"
  by (auto simp: quiet_def frame_ok_def seq_of_set_peer seq_of_get)


lemma quiet_set_peer_intros:
  "get_peer i r = Some p \<Longrightarrow> quiet r (set_peer i (p\<lparr>p_silent_ms := x\<rparr>) r)"
  "get_peer i r = Some p \<Longrightarrow> quiet r (set_peer i (p\<lparr>p_acked := y\<rparr>) r)"
  "get_peer i r = Some p \<Longrightarrow> quiet r (set_peer i (p\<lparr>p_sequence := p_sequence p + 1\<rparr>) r)"
  by (erule quiet_set_peer, simp)+

section \<open>The quiet operations\<close>

lemma quiet_modify_peer:
  "modify_peer i f r = Some r' \<Longrightarrow> (\<And>p. p_sequence p \<le> p_sequence (f p)) \<Longrightarrow> quiet r r'"
  by (auto simp: modify_peer_def abort_simps intro: quiet_set_peer)

lemma quiet_for_each:
  "for_each f is r = Some r' \<Longrightarrow> (\<And>i t t'. f i t = Some t' \<Longrightarrow> quiet t t') \<Longrightarrow> quiet r r'"
  by (erule for_each_mono) (auto intro: quiet_trans)

lemma randBetweenTime_Some:
  "randBetweenTime env lo hi r = Some (t, r') \<Longrightarrow> r' = r\<lparr>m_draws := Suc (m_draws r)\<rparr>"
  by (auto simp: randBetweenTime_def abort_simps)

lemma quiet_resetTimer: "resetTimer env r = Some r' \<Longrightarrow> quiet r r'"
  by (auto simp: resetTimer_def abort_simps quiet_def frame_ok_def dest!: randBetweenTime_Some
      split: if_splits)

lemma quiet_resetBytesAcked: "resetBytesAcked r = Some r' \<Longrightarrow> quiet r r'"
  unfolding resetBytesAcked_def by (erule quiet_for_each) (erule quiet_modify_peer, simp)

lemma quiet_resetSilentTime: "resetSilentTime i r = Some r' \<Longrightarrow> quiet r r'"
  unfolding resetSilentTime_def
  by (erule quiet_for_each) (auto split: if_splits elim: quiet_modify_peer)

lemma quiet_increaseSilentTime: "increaseSilentTime ms r = Some (n, r') \<Longrightarrow> quiet r r'"
  unfolding increaseSilentTime_def
  by (drule for_each_mono [where R = "\<lambda>x y. quiet (snd x) (snd y)"])
    (auto simp: abort_simps Let_def split: if_splits intro: quiet_trans quiet_set_peer_intros)

lemma quiet_log [simp]: "quiet r (r\<lparr>m_log := l\<rparr>)"
  by (simp add: quiet_def frame_ok_def)

lemma quiet_config [simp]: "quiet r (r\<lparr>m_config := c\<rparr>)"
  by (simp add: quiet_def frame_ok_def)

lemma quiet_leaderId [simp]: "quiet r (r\<lparr>m_leaderId := i\<rparr>)"
  by (simp add: quiet_def frame_ok_def)

lemma quiet_timer [simp]: "quiet r (r\<lparr>m_timer := i\<rparr>)"
  by (simp add: quiet_def frame_ok_def)

lemmas quiet_log_trans = quiet_trans [OF _ quiet_log] quiet_trans [OF quiet_log]
lemmas quiet_leaderId_trans = quiet_trans [OF quiet_leaderId]

lemma quiet_log_set: "log_set i e r = Some r' \<Longrightarrow> quiet r r'"
  by (auto simp: log_set_def abort_simps)

lemma quiet_apply_one: "apply_one r = Some r' \<Longrightarrow> quiet r r'"
  by (auto simp: apply_one_def abort_simps quiet_def frame_ok_def)

lemma quiet_apply_loop: "apply_loop r n = Some (k, r') \<Longrightarrow> quiet r r'"
proof (induction r n arbitrary: k r' rule: apply_loop.induct)
  case (1 r n)
  show ?case
  proof (cases "apply_more r")
    case True
    with "1.prems" obtain r1 where r1: "apply_one r = Some r1" "apply_loop r1 (n + 1) = Some (k, r')"
      by (auto simp: apply_loop.simps [of r] split: option.splits)
    from "1.IH" [OF True r1] quiet_apply_one [OF r1(1)] show ?thesis by (blast intro: quiet_trans)
  next
    case False
    with "1.prems" show ?thesis by (simp add: apply_loop.simps [of r])
  qed
qed

lemma quiet_apply: "apply_log r = Some (n, r') \<Longrightarrow> quiet r r'"
  unfolding apply_log_def by (rule quiet_apply_loop)

lemma quiet_refresh_one: "refresh_one i r = Some r' \<Longrightarrow> quiet r r'"
  unfolding refresh_one_def Let_def assert_that_def
  by (auto split: if_split_asm Option.bind_split_asm)

lemma quiet_refreshAcked: "refreshAcked r = Some r' \<Longrightarrow> quiet r r'"
proof -
  assume "refreshAcked r = Some r'"
  then obtain r1 n where 1: "for_each refresh_one (peer_range r) r = Some r1"
    and 2: "apply_log r1 = Some (n, r')"
    unfolding refreshAcked_def bind_Some_conv by (elim exE conjE) (simp split: prod.splits)
  from 1 have "quiet r r1" by (rule quiet_for_each) (rule quiet_refresh_one)
  then show ?thesis using quiet_apply [OF 2] by (rule quiet_trans)
qed

lemma quiet_beat_one: "beat_one env d r = Some r' \<Longrightarrow> quiet r r'"
proof -
  assume "beat_one env d r = Some r'"
  then obtain p m len where 1: "get_peer d r = Some p"
    and 2: "send d (AnyUpdate m) len (set_peer d (p\<lparr>p_sequence := p_sequence p + 1\<rparr>) r) = Some r'"
    by (auto simp: beat_one_def abort_simps Let_def)
  from 2 have "quiet (set_peer d (p\<lparr>p_sequence := p_sequence p + 1\<rparr>) r) r'"
    by (rule quiet_send) simp
  with quiet_set_peer_intros(3) [OF 1] show ?thesis by (rule quiet_trans)
qed

lemma quiet_beat: "beat env d r = Some r' \<Longrightarrow> quiet r r'"
  unfolding beat_def
  by (auto split: if_splits elim: quiet_beat_one)
    (erule quiet_for_each, auto simp: abort_simps split: if_splits elim: quiet_beat_one)

lemma quiet_free_slot: "free_slot b i r = Some r' \<Longrightarrow> quiet r r'"
  by (auto simp: free_slot_def abort_simps intro: quiet_log_set)

lemma quiet_take_snapshot: "take_snapshot k r = Some r' \<Longrightarrow> quiet r r'"
  by (auto simp: take_snapshot_def Let_def split: Option.bind_split_asm
      intro: quiet_trans [OF quiet_log quiet_log_set])

lemma quiet_reset_behind: "reset_behind r = Some r' \<Longrightarrow> quiet r r'"
  unfolding reset_behind_def
  by (erule quiet_for_each) (auto simp: abort_simps split: if_splits intro: quiet_set_peer_intros)

lemma quiet_compact: "compact r = Some (n, r') \<Longrightarrow> quiet r r'"
proof -
  assume *: "compact r = Some (n, r')"
  let ?todo = "[l_first (m_log r)..l_applied (m_log r) - 1]"
  from * obtain r1 where r1: "for_each (free_slot True) ?todo r = Some r1"
    and rest: "r' = r1 \<or> (\<exists>k r2. take_snapshot k r1 = Some r2 \<and> reset_behind r2 = Some r')"
    by (auto simp: compact_def Let_def split: if_split_asm Option.bind_split_asm)
  from r1 have "quiet r r1" by (rule quiet_for_each) (rule quiet_free_slot)
  also from rest have "quiet r1 r'"
    by (auto intro: quiet_trans [OF quiet_take_snapshot quiet_reset_behind])
  finally show ?thesis .
qed

lemma quiet_restore: "restore i e r = Some (b, e', r') \<Longrightarrow> quiet r r'"
proof -
  assume *: "restore i e r = Some (b, e', r')"
  then obtain r1 r2 l c l' where 1: "for_each (free_slot False) [logFirstIndex r..logLastIndex r] r = Some r1"
    and 2: "log_set (i + 1) e (r1\<lparr>m_log := l\<rparr>) = Some r2"
    and 3: "r' = r2\<lparr>m_config := c, m_log := l'\<rparr>"
    by (auto simp: restore_def abort_simps Let_def)
  from 1 have "quiet r r1" by (rule quiet_for_each) (rule quiet_free_slot)
  also have "quiet r1 r2" using quiet_log_set [OF 2] by (rule quiet_trans [OF quiet_log])
  also have "quiet r2 r'" unfolding 3 by (rule quiet_trans [OF quiet_config quiet_log])
  finally show ?thesis .
qed

lemma quiet_place_entry: "place_entry i e r = Some (b, e', r') \<Longrightarrow> quiet r r'"
  unfolding place_entry_def Let_def assert_that_def
  by (auto split: if_split_asm Option.bind_split_asm
      intro: quiet_log_set quiet_trans [OF quiet_log quiet_log_set])

lemma quiet_append_log: "append_log i t e r = Some (b, e', r') \<Longrightarrow> quiet r r'"
  unfolding append_log_def assert_that_def
  by (auto split: if_split_asm Option.bind_split_asm prod.split_asm
      intro: quiet_compact quiet_place_entry quiet_trans [OF quiet_compact quiet_place_entry])

lemma quiet_emit: "emit env d r = Some (k, r') \<Longrightarrow> quiet r r'"
proof -
  assume *: "emit env d r = Some (k, r')"
  obtain room r1 where 1: "(if logIsFull r then compact r \<bind> (\<lambda>(c, r'). Some (c > 1, r'))
      else Some (True, r)) = Some (room, r1)"
    using * by (auto simp: emit_def abort_simps)
  then have q1: "quiet r r1" by (auto simp: abort_simps split: if_splits intro: quiet_compact)
  show ?thesis
  proof (cases room)
    case False
    with * 1 have "r' = r1" by (auto simp: emit_def abort_simps)
    with q1 show ?thesis by simp
  next
    case True
    with * 1 obtain e r2 l r3 where 2: "log_set (logLastIndex r1 + 1) e r1 = Some r2"
      and 3: "beat env NOBODY (r2\<lparr>m_log := l\<rparr>) = Some r3" and 4: "resetTimer env r3 = Some r'"
      by (auto simp: emit_def abort_simps Let_def)
    note q1
    also note quiet_log_set [OF 2]
    also have "quiet r2 r3" using quiet_beat [OF 3] by (rule quiet_trans [OF quiet_log])
    also note quiet_resetTimer [OF 4]
    finally show ?thesis .
  qed
qed

lemma quiet_set_newentry [simp]: "quiet r (set_newentry e r)"
  by (simp add: set_newentry_def)

lemmas quiet_newentry_trans = quiet_trans [OF _ quiet_set_newentry]

lemma quiet_complete_entry: "complete_entry m e r = Some (b, r') \<Longrightarrow> quiet r r'"
  unfolding complete_entry_def
  by (auto split: if_split_asm Option.bind_split_asm prod.split_asm
      intro: quiet_newentry_trans quiet_restore quiet_append_log)

lemma quiet_take_chunk: "take_chunk env m r = Some (b, r') \<Longrightarrow> quiet r r'"
  unfolding take_chunk_def Let_def
  by (auto split: if_split_asm Option.bind_split_asm intro: quiet_complete_entry)

lemma quiet_note_leader: "note_leader env i r = Some r' \<Longrightarrow> quiet r r'"
proof -
  assume "note_leader env i r = Some r'"
  then obtain r2 where 1: "modify_peer i (\<lambda>p. p\<lparr>p_silent_ms := 0\<rparr>)
      (if i \<noteq> m_leaderId r then r\<lparr>m_leaderId := i\<rparr> else r) = Some r2"
    and 2: "resetTimer env r2 = Some r'"
    by (auto simp: note_leader_def Let_def split: Option.bind_split_asm)
  have "quiet r (if i \<noteq> m_leaderId r then r\<lparr>m_leaderId := i\<rparr> else r)" by simp
  also have "quiet \<dots> r2" using 1 by (rule quiet_modify_peer) simp
  also note quiet_resetTimer [OF 2]
  finally show ?thesis .
qed

lemma quiet_note_acked: "note_acked m r = Some r' \<Longrightarrow> quiet r r'"
  by (auto simp: note_acked_def Let_def split: if_splits
      intro: quiet_trans [OF quiet_log quiet_modify_peer])

lemma quiet_accept_update:
  assumes "accept_update env m d r = Some (d', r')"
  shows "quiet r r'"
proof -
  have "r' = r \<or> (\<exists>r1 r2 b. note_leader env (from_id (mu_msg m)) r = Some r1 \<and>
      note_acked m r1 = Some r2 \<and> take_chunk env m r2 = Some (b, r'))"
    using assms unfolding accept_update_def Let_def
    by (auto split: if_split_asm Option.bind_split_asm prod.split_asm)
  then show ?thesis
  proof (elim disjE exE conjE)
    fix r1 r2 b
    assume "note_leader env (from_id (mu_msg m)) r = Some r1"
    then have "quiet r r1" by (rule quiet_note_leader)
    also assume "note_acked m r1 = Some r2"
    then have "quiet r1 r2" by (rule quiet_note_acked)
    also assume "take_chunk env m r2 = Some (b, r')"
    then have "quiet r2 r'" by (rule quiet_take_chunk)
    finally show ?thesis .
  qed simp
qed

lemma quiet_handleUpdate: "handleUpdate env m r = Some r' \<Longrightarrow> quiet r r'"
proof -
  assume "handleUpdate env m r = Some r'"
  then obtain d d1 r1 d2 where 1: "accept_update env m d r = Some (d1, r1)"
    and 2: "send (from_id (mu_msg m)) (AnyDone d2) sizeof_MsgDone r1 = Some r'"
    by (auto simp: handleUpdate_def abort_simps Let_def)
  from quiet_accept_update [OF 1] quiet_send [OF 2] show ?thesis by (auto intro: quiet_trans)
qed

lemma quiet_beat_peer:
  "beat env d (set_peer i q r) = Some r' \<Longrightarrow> get_peer i r = Some p \<Longrightarrow> p_sequence p \<le> p_sequence q \<Longrightarrow>
     quiet r r'"
  using quiet_trans [OF quiet_set_peer quiet_beat] .

lemma quiet_handleDone: "handleDone env m r = Some r' \<Longrightarrow> quiet r r'"
  unfolding handleDone_def Let_def
  by (auto split: if_split_asm Option.bind_split_asm)
    ((erule quiet_beat_peer, assumption, simp) | (rule quiet_set_peer, assumption, simp))+


section \<open>Moves of the protocol\<close>

abbreviation moves :: "int \<Rightarrow> int \<Rightarrow> (int \<Rightarrow> ballot set) \<Rightarrow> voter \<Rightarrow> voter \<Rightarrow> bool" where
  "moves me N inbox \<equiv> (ballot_step me N inbox)\<^sup>*\<^sup>*"

lemma quiet_frame: "quiet r r' \<Longrightarrow> frame_ok r r'"
  by (simp add: quiet_def)

lemma quiet_voter: "quiet r r' \<Longrightarrow> voter_of r' = (voter_of r)\<lparr>v_seq := seq_of r'\<rparr>"
  and quiet_seq: "quiet r r' \<Longrightarrow> seq_of r i \<le> seq_of r' i"
  by (simp_all add: quiet_iff_voter)

lemma moves_bump: "(\<And>i. v_seq e i \<le> s i) \<Longrightarrow> moves me N inbox e (e\<lparr>v_seq := s\<rparr>)"
  by (rule r_into_rtranclp) (rule ballot_step.bump)

lemma quiet_moves: "quiet r r' \<Longrightarrow> moves me N inbox (voter_of r) (voter_of r')"
  using moves_bump [of "voter_of r" "seq_of r'" me N inbox] quiet_seq [of r r']
  by (simp add: quiet_voter) (simp add: voter_of_def)

lemma becomeLeader_moves:
  assumes "becomeLeader env r = Some (b, r')" and "m_role r = Candidate" and "m_peerNum r = N"
  shows "moves me N inbox (voter_of r) (voter_of r') \<and> frame_ok r r'"
proof (cases "m_votes r * 2 > m_peerNum r")
  case False
  with assms(1) show ?thesis by (simp add: becomeLeader_def)
next
  case True
  let ?r1 = "r\<lparr>m_role := Leader, m_leaderId := m_me r\<rparr>"
  from True assms(1) obtain r2 r3 where "resetBytesAcked ?r1 = Some r2"
    and "resetSilentTime NOBODY r2 = Some r3" and "resetTimer env r3 = Some r'"
    by (auto simp: becomeLeader_def Let_def split: Option.bind_split_asm)
  then have q: "quiet ?r1 r'"
    by (blast intro: quiet_trans quiet_resetBytesAcked quiet_resetSilentTime quiet_resetTimer)
  have "ballot_step me N inbox (voter_of r) (voter_of ?r1)"
    using ballot_step.win [of "voter_of r" N me inbox] True assms(2,3) by (simp add: voter_of_def)
  then have "moves me N inbox (voter_of r) (voter_of r')"
    using quiet_moves [OF q] by (rule converse_rtranclp_into_rtranclp)
  moreover have "frame_ok r r'"
    using quiet_frame [OF q] by (simp add: frame_ok_def)
  ultimately show ?thesis ..
qed

subsection \<open>Standing for election\<close>

definition claims :: "int \<Rightarrow> int set \<Rightarrow> 'd raft \<Rightarrow> 'd raft \<Rightarrow> bool" where
  "claims t D r r' \<longleftrightarrow> frame_ok r r' \<and> (\<forall>i. seq_of r i \<le> seq_of r' i) \<and>
     (\<forall>i. i \<notin> D \<longrightarrow> seq_of r' i = seq_of r i) \<and>
     (\<exists>C \<subseteq> D. voter_of r' = (voter_of r)\<lparr>v_seq := seq_of r',
        v_cast := ballots r \<union> {Claimed d t (seq_of r' d) | d. d \<in> C}\<rparr>)"

lemma claims_refl: "claims t D r r"
  unfolding claims_def by (auto simp: voter_of_def intro!: exI [of _ "{}"])

lemma claim_one_claims:
  assumes "claim_one m i r = Some r'"
  shows "claims (curterm (mc_msg m)) {i} r r'"
proof (cases "r' = r")
  case True
  then show ?thesis by (simp add: claims_refl)
next
  case False
  let ?p = "\<lambda>p. p\<lparr>p_sequence := p_sequence p + 1\<rparr>"
  let ?m = "\<lambda>p. m\<lparr>mc_msg := (mc_msg m)\<lparr>sequence := p_sequence p + 1\<rparr>\<rparr>"
  from assms False obtain p where p: "get_peer i r = Some p"
    and s: "send i (AnyClaim (?m p)) sizeof_MsgClaim (set_peer i (?p p) r) = Some r'"
    unfolding claim_one_def Let_def by (auto split: if_split_asm Option.bind_split_asm)
  have "frame_ok r r'"
    using quiet_frame [OF quiet_set_peer_intros(3) [OF p]] send_frame [OF s] by (rule frame_ok_trans)
  moreover have seq: "seq_of r' = (seq_of r)(i := seq_of r i + 1)"
    using send_spec [OF s] p by (auto simp: seq_of_set_peer seq_of_get)
  moreover have "voter_of r' = (voter_of r)\<lparr>v_seq := seq_of r',
      v_cast := ballots r \<union> {Claimed d (curterm (mc_msg m)) (seq_of r' d) | d. d \<in> {i}}\<rparr>"
    using send_voter [OF s] p by (simp add: voter_of_def seq seq_of_get seq_of_set_peer)
  ultimately show ?thesis by (auto simp: claims_def)
qed

lemma claims_trans:
  assumes 1: "claims t {i} r s" and 2: "claims t E s u" and i: "i \<notin> E"
  shows "claims t (insert i E) r u"
proof -
  from 1 obtain C where C: "C \<subseteq> {i}" "voter_of s = (voter_of r)\<lparr>v_seq := seq_of s,
      v_cast := ballots r \<union> {Claimed d t (seq_of s d) | d. d \<in> C}\<rparr>"
    by (auto simp: claims_def)
  from 2 obtain C' where C': "C' \<subseteq> E" "voter_of u = (voter_of s)\<lparr>v_seq := seq_of u,
      v_cast := ballots s \<union> {Claimed d t (seq_of u d) | d. d \<in> C'}\<rparr>"
    by (auto simp: claims_def)
  have same: "\<And>d. d \<in> C \<Longrightarrow> seq_of u d = seq_of s d"
    using 2 C(1) i by (auto simp: claims_def)
  have "ballots s = ballots r \<union> {Claimed d t (seq_of s d) | d. d \<in> C}"
    using arg_cong [OF C(2), of v_cast] by (simp add: voter_of_def)
  also have "{Claimed d t (seq_of s d) | d. d \<in> C} = {Claimed d t (seq_of u d) | d. d \<in> C}"
    using same by auto
  finally have "ballots s \<union> {Claimed d t (seq_of u d) | d. d \<in> C'}
      = ballots r \<union> {Claimed d t (seq_of u d) | d. d \<in> C \<union> C'}"
    by auto
  with C(2) C'(2) have "voter_of u = (voter_of r)\<lparr>v_seq := seq_of u,
      v_cast := ballots r \<union> {Claimed d t (seq_of u d) | d. d \<in> C \<union> C'}\<rparr>"
    by simp
  moreover have "C \<union> C' \<subseteq> insert i E" using C(1) C'(1) by auto
  moreover have "\<forall>j. seq_of r j \<le> seq_of u j"
    using 1 2 unfolding claims_def by (metis order_trans)
  moreover have "\<forall>j. j \<notin> insert i E \<longrightarrow> seq_of u j = seq_of r j"
    using 1 2 by (simp add: claims_def)
  moreover have "frame_ok r u" using 1 2 frame_ok_trans by (auto simp: claims_def)
  ultimately show ?thesis unfolding claims_def by blast
qed

lemma claim_loop_claims:
  "for_each (claim_one m) is r = Some r' \<Longrightarrow> distinct is \<Longrightarrow>
     claims (curterm (mc_msg m)) (set is) r r'"
proof (induction "is" arbitrary: r)
  case Nil
  then show ?case by (simp add: claims_refl)
next
  case (Cons i "is")
  from Cons.prems obtain s where s: "claim_one m i r = Some s" "for_each (claim_one m) is s = Some r'"
    by (auto split: Option.bind_split_asm)
  have "claims (curterm (mc_msg m)) (set is) s r'"
    using Cons.prems(2) by (intro Cons.IH [OF s(2)]) simp
  with claim_one_claims [OF s(1)] show ?case
    using Cons.prems(2) by (simp add: claims_trans)
qed

lemma timeout_claim_moves:
  assumes c: "claim env (r\<lparr>m_leaderId := l, m_role := Candidate, m_term := m_term r + 1\<rparr>) = Some r'"
    and N: "m_peerNum r = N"
  shows "moves me N inbox (voter_of r) (voter_of r') \<and> frame_ok r r'"
proof -
  let ?r = "r\<lparr>m_leaderId := l, m_role := Candidate, m_term := m_term r + 1, m_votes := 1\<rparr>"
  from c obtain b r1 where 1: "becomeLeader env ?r = Some (b, r1)"
    by (auto simp: claim_def split: Option.bind_split_asm)
  have frame: "frame_ok r ?r" by (simp add: frame_ok_def)
  show ?thesis
  proof (cases b)
    case True
    with c 1 have r': "r' = r1" by (auto simp: claim_def split: Option.bind_split_asm)
    have "ballot_step me N inbox (voter_of r) (voter_of ?r)"
      using ballot_step.stand [of "voter_of r" "seq_of r" me N inbox "{}"]
      by (simp add: voter_of_def)
    moreover have "moves me N inbox (voter_of ?r) (voter_of r') \<and> frame_ok ?r r'"
      unfolding r' by (rule becomeLeader_moves [OF 1]) (simp_all add: N)
    ultimately show ?thesis
      using frame frame_ok_trans by (auto intro: converse_rtranclp_into_rtranclp)
  next
    case False
    with 1 have r1: "r1 = ?r"
      by (auto simp: becomeLeader_def Let_def split: if_split_asm Option.bind_split_asm)
    from c 1 False obtain m where loop: "for_each (claim_one m) (peer_range ?r) ?r = Some r'"
      and m: "curterm (mc_msg m) = m_term r + 1"
      unfolding r1 claim_def Let_def by (auto split: Option.bind_split_asm)
    have "claims (m_term r + 1) (set (peer_range ?r)) ?r r'"
      using claim_loop_claims [OF loop] by (simp add: m peer_range_def)
    then obtain D where D: "voter_of r' = (voter_of ?r)\<lparr>v_seq := seq_of r',
        v_cast := ballots ?r \<union> {Claimed d (m_term r + 1) (seq_of r' d) | d. d \<in> D}\<rparr>"
      and f: "frame_ok ?r r'" and seq: "\<And>i. seq_of r i \<le> seq_of r' i"
      by (auto simp: claims_def)
    have "ballot_step me N inbox (voter_of r) (voter_of r')"
      using ballot_step.stand [of "voter_of r" "seq_of r'" me N inbox D] seq
      by (simp add: D) (simp add: voter_of_def)
    then show ?thesis using frame_ok_trans [OF frame f] by auto
  qed
qed


subsection \<open>The handlers\<close>

lemma becomeFollower_moves:
  "moves me N inbox (voter_of r) (voter_of (becomeFollower r)) \<and> frame_ok r (becomeFollower r)"
  using ballot_step.follow [of me N inbox "voter_of r"]
  by (auto simp: becomeFollower_def voter_of_def frame_ok_def)

lemma timeout_moves:
  assumes "timeout env r = Some r'" and "m_peerNum r = N"
  shows "moves me N inbox (voter_of r) (voter_of r') \<and> frame_ok r r'"
proof (cases "m_role r")
  case Follower
  with assms timeout_claim_moves [of env r NOBODY r' N] show ?thesis by (simp add: timeout_def)
next
  case Candidate
  with assms(1) have "claim env (r\<lparr>m_leaderId := m_leaderId r, m_role := Candidate,
      m_term := m_term r + 1\<rparr>) = Some r'"
    by (cases r) (simp add: timeout_def)
  then show ?thesis using timeout_claim_moves assms(2) by blast
next
  case Leader
  with assms(1) have "quiet r r'" by (auto simp: timeout_def dest: quiet_beat)
  then show ?thesis by (simp add: quiet_moves quiet_frame)
qed

definition follows :: "int \<Rightarrow> int \<Rightarrow> (int \<Rightarrow> ballot set) \<Rightarrow> 'd raft \<Rightarrow> 'd raft \<Rightarrow> bool" where
  "follows me N inbox r r' \<longleftrightarrow> moves me N inbox (voter_of r) (voter_of r') \<and> frame_ok r r'"

lemma follows_trans [trans]:
  "follows me N inbox r s \<Longrightarrow> follows me N inbox s t \<Longrightarrow> follows me N inbox r t"
  unfolding follows_def using frame_ok_trans rtranclp_trans by metis

lemma follows_quiet: "quiet r r' \<Longrightarrow> follows me N inbox r r'"
  by (simp add: follows_def quiet_moves quiet_frame)

lemma follows_peerNum: "follows me N inbox r r' \<Longrightarrow> m_peerNum r' = m_peerNum r"
  by (simp add: follows_def frame_ok_def)

lemma follows_me: "follows me N inbox r r' \<Longrightarrow> m_me r' = m_me r"
  by (simp add: follows_def frame_ok_def)

lemma tick_follows:
  assumes "tick env ms r = Some (b, r')" and N: "m_peerNum r = N"
  shows "follows me N inbox r r'"
proof -
  let ?r = "r\<lparr>m_timer := m_timer r - ms\<rparr>"
  from assms(1) obtain r2 r3 r4 n where
    1: "r2 = ?r \<or> (\<exists>r1. timeout env ?r = Some r1 \<and> resetTimer env r1 = Some r2)"
    and 2: "refreshAcked r2 = Some r3"
    and 3: "increaseSilentTime (heartbeat_ms (m_config r3)) r3 = Some (n, r4)"
    and 4: "r' = r4 \<or> r' = becomeFollower r4"
    unfolding tick_def checkIsLeaderWithMs_def Let_def
    by (auto split: if_split_asm Option.bind_split_asm prod.split_asm)
  have "follows me N inbox r ?r" by (rule follows_quiet) simp
  also have "follows me N inbox ?r r2"
  proof (cases "r2 = ?r")
    case True
    then show ?thesis by (simp add: follows_quiet)
  next
    case False
    with 1 obtain r1 where t: "timeout env ?r = Some r1" "resetTimer env r1 = Some r2" by auto
    from N have "m_peerNum ?r = N" by simp
    with t(1) have "follows me N inbox ?r r1" unfolding follows_def by (rule timeout_moves)
    also have "follows me N inbox r1 r2" using quiet_resetTimer [OF t(2)] by (rule follows_quiet)
    finally show ?thesis .
  qed
  also have "follows me N inbox r2 r3" using quiet_refreshAcked [OF 2] by (rule follows_quiet)
  also have "follows me N inbox r3 r4" using quiet_increaseSilentTime [OF 3] by (rule follows_quiet)
  also have "follows me N inbox r4 r'"
    using 4 becomeFollower_moves [of me N inbox r4] by (auto simp: follows_def)
  finally show ?thesis .
qed

lemma setTerm_follows:
  assumes "setTerm t r = Some s"
  shows "follows me N inbox r (s\<lparr>m_role := Follower\<rparr>)"
  using assms ballot_step.new_term [of "voter_of r" t me N inbox]
  by (auto simp: setTerm_def follows_def frame_ok_def voter_of_def abort_simps)

lemma role_follows: "follows me N inbox r (r\<lparr>m_role := Follower\<rparr>)"
  using ballot_step.follow [of me N inbox "voter_of r"]
  by (auto simp: follows_def frame_ok_def voter_of_def)

text \<open>A vote is given to the node whose claim it answers.\<close>

lemma handleClaim_follows:
  assumes h: "handleClaim env m r = Some r'" and t: "curterm (mc_msg m) \<le> m_term r"
    and from_me: "from_id (mc_msg m) \<noteq> me" "0 \<le> from_id (mc_msg m)"
    and inbox: "Claimed me (curterm (mc_msg m)) (sequence (mc_msg m)) \<in> inbox (from_id (mc_msg m))"
  shows "follows me N inbox r r'"
proof -
  let ?c = "from_id (mc_msg m)"
  let ?r1 = "if curterm (mc_msg m) = m_term r then r\<lparr>m_role := Follower\<rparr> else r"
  let ?vote = "\<lambda>g. AnyVote \<lparr>mv_msg = \<lparr>curterm = m_term r, from_id = m_me r,
     sequence = sequence (mc_msg m)\<rparr>, mv_granted = g\<rparr>"
  have r1: "m_term ?r1 = m_term r" "m_me ?r1 = m_me r" "m_voteFor ?r1 = m_voteFor r" by simp_all
  from h t have "send ?c (?vote False) sizeof_MsgVote ?r1 = Some r' \<or>
      (curterm (mc_msg m) = m_term r \<and> (m_voteFor r = NOBODY \<or> m_voteFor r = ?c) \<and>
       (\<exists>r2. resetTimer env (?r1\<lparr>m_voteFor := ?c\<rparr>) = Some r2 \<and>
             send ?c (?vote True) sizeof_MsgVote r2 = Some r'))"
    unfolding handleClaim_def yield_to_claim_def decide_vote_def Let_def
    by (auto split: if_split_asm Option.bind_split_asm prod.split_asm)
  then show ?thesis
  proof (rule disjE)
    assume "send ?c (?vote False) sizeof_MsgVote ?r1 = Some r'"
    then have "quiet ?r1 r'" by (rule quiet_send) simp
    then have "follows me N inbox ?r1 r'" by (rule follows_quiet)
    moreover have "follows me N inbox r ?r1" by (simp add: role_follows follows_quiet)
    ultimately show ?thesis using follows_trans by blast
  next
    let ?v = "r\<lparr>m_role := Follower, m_voteFor := ?c\<rparr>"
    assume "curterm (mc_msg m) = m_term r \<and> (m_voteFor r = NOBODY \<or> m_voteFor r = ?c) \<and>
       (\<exists>r2. resetTimer env (?r1\<lparr>m_voteFor := ?c\<rparr>) = Some r2 \<and>
             send ?c (?vote True) sizeof_MsgVote r2 = Some r')"
    then obtain r2 where eq: "curterm (mc_msg m) = m_term r"
      and free: "m_voteFor r = NOBODY \<or> m_voteFor r = ?c"
      and 1: "resetTimer env (?r1\<lparr>m_voteFor := ?c\<rparr>) = Some r2"
      and 2: "send ?c (?vote True) sizeof_MsgVote r2 = Some r'" by blast
    let ?e = "(voter_of r)\<lparr>v_for := ?c, v_role := Follower,
      v_cast := insert (Granted ?c (v_term (voter_of r)) (sequence (mc_msg m))) (v_cast (voter_of r))\<rparr>"
    from 1 eq have q: "quiet ?v r2" by (auto dest: quiet_resetTimer)
    have "ballot_step me N inbox (voter_of r) ?e"
      using inbox from_me free eq by (intro ballot_step.grant) (simp_all add: voter_of_def)
    moreover have "voter_of r' = ?e\<lparr>v_seq := seq_of r2\<rparr>"
    proof -
      have "ballots r2 = ballots r" using q by (simp add: quiet_def)
      then show ?thesis
        using send_voter [OF 2] quiet_voter [OF q] by (simp add: voter_of_def)
    qed
    moreover have "moves me N inbox ?e (?e\<lparr>v_seq := seq_of r2\<rparr>)"
      using quiet_seq [OF q] by (intro moves_bump) (simp add: voter_of_def)
    ultimately have "moves me N inbox (voter_of r) (voter_of r')"
      by (simp add: converse_rtranclp_into_rtranclp)
    moreover have "frame_ok r r'"
    proof -
      have "frame_ok r ?v" by (simp add: frame_ok_def)
      from frame_ok_trans [OF frame_ok_trans [OF this quiet_frame [OF q]] send_frame [OF 2]]
      show ?thesis .
    qed
    ultimately show ?thesis by (simp add: follows_def)
  qed
qed

lemma handleVote_follows:
  assumes h: "handleVote env m r = Some r'" and t: "curterm (mv_msg m) \<le> m_term r"
    and N: "m_peerNum r = N" and from_me: "from_id (mv_msg m) \<noteq> me"
    and inbox: "mv_granted m \<Longrightarrow>
      Granted me (curterm (mv_msg m)) (sequence (mv_msg m)) \<in> inbox (from_id (mv_msg m))"
  shows "follows me N inbox r r'"
proof -
  let ?i = "from_id (mv_msg m)"
  let ?p = "\<lambda>p. p\<lparr>p_sequence := p_sequence p + 1\<rparr>"
  obtain p where p: "get_peer ?i r = Some p"
    using h by (auto simp: handleVote_def Let_def split: Option.bind_split_asm)
  let ?r1 = "set_peer ?i (?p p) r"
  let ?r2 = "if mv_granted m then ?r1\<lparr>m_votes := m_votes ?r1 + 1\<rparr> else ?r1"
  have q: "quiet r ?r1" by (rule quiet_set_peer_intros(3) [OF p])
  from h p have "r' = r \<or> r' = ?r1 \<or>
      (sequence (mv_msg m) = p_sequence p \<and> curterm (mv_msg m) = m_term r \<and> m_role r = Candidate \<and>
       (\<exists>b. becomeLeader env ?r2 = Some (b, r')))"
    using t unfolding handleVote_def Let_def
    by (auto split: if_split_asm Option.bind_split_asm prod.split_asm)
  then show ?thesis
  proof (elim disjE conjE exE)
    fix b
    assume s: "sequence (mv_msg m) = p_sequence p" and eq: "curterm (mv_msg m) = m_term r"
      and role: "m_role r = Candidate" and b: "becomeLeader env ?r2 = Some (b, r')"
    have seq: "seq_of ?r1 = (seq_of r)(?i := seq_of r ?i + 1)"
      using p by (simp add: seq_of_set_peer seq_of_get)
    have "follows me N inbox r ?r2"
    proof (cases "mv_granted m")
      case True
      let ?e = "(voter_of r)\<lparr>v_votes := v_votes (voter_of r) + 1,
        v_seq := (v_seq (voter_of r))(?i := v_seq (voter_of r) ?i + 1)\<rparr>"
      have "ballot_step me N inbox (voter_of r) ?e"
        using inbox [OF True] from_me role s eq p
        by (intro ballot_step.count) (simp_all add: voter_of_def seq_of_get)
      moreover have "voter_of ?r2 = ?e" using True seq by (simp add: voter_of_def)
      ultimately have "moves me N inbox (voter_of r) (voter_of ?r2)" by auto
      moreover have "frame_ok r ?r2" by (simp add: frame_ok_def)
      ultimately show ?thesis by (simp add: follows_def)
    next
      case False
      with q show ?thesis by (simp add: follows_quiet)
    qed
    also have "follows me N inbox ?r2 r'"
      unfolding follows_def using N role by (intro becomeLeader_moves [OF b]) simp_all
    finally show ?thesis .
  qed (use q in \<open>simp_all add: follows_quiet\<close>)
qed

lemma handleMessage_follows:
  assumes h: "handleMessage env m r = Some r'"
    and from_me: "from_id (header m) \<noteq> me" "0 \<le> from_id (header m)" and N: "m_peerNum r = N"
    and inbox: "ballots_of (me, host, m) \<subseteq> inbox (from_id (header m))"
  shows "follows me N inbox r r'"
proof -
  let ?t = "curterm (header m)"
  obtain r1 where r1: "r1 = r \<and> ?t \<le> m_term r \<or>
      (\<exists>s. setTerm ?t r = Some s \<and> r1 = s\<lparr>m_role := Follower\<rparr>)"
    and run: "(case m of AnyUpdate m \<Rightarrow> handleUpdate env m r1 | AnyDone m \<Rightarrow> handleDone env m r1
       | AnyClaim m \<Rightarrow> handleClaim env m r1 | AnyVote m \<Rightarrow> handleVote env m r1
       | AnyOther t m \<Rightarrow> Some r1) = Some r'"
    using h unfolding handleMessage_def assert_that_def
    by (auto split: if_split_asm Option.bind_split_asm)
  from r1 have first: "follows me N inbox r r1" by (auto simp: follows_quiet setTerm_follows)
  from r1 have t: "?t \<le> m_term r1" by (auto simp: setTerm_def abort_simps)
  have N1: "m_peerNum r1 = N" using follows_peerNum [OF first] N by simp
  have "follows me N inbox r1 r'"
  proof (cases m)
    case (AnyUpdate x)
    with run show ?thesis by (simp add: follows_quiet quiet_handleUpdate)
  next
    case (AnyDone x)
    with run show ?thesis by (simp add: follows_quiet quiet_handleDone)
  next
    case (AnyClaim x)
    with run t from_me inbox show ?thesis by (intro handleClaim_follows) simp_all
  next
    case (AnyVote x)
    with run t from_me inbox N1 show ?thesis
      by (intro handleVote_follows) (auto split: if_splits)
  next
    case (AnyOther k x)
    with run show ?thesis by (simp add: follows_quiet)
  qed
  with first show ?thesis by (rule follows_trans)
qed

lemma recvMessage_follows:
  assumes "recvMessage env remote m len r = Some r'" and N: "m_peerNum r = N"
    and me: "m_me r = me" and inbox: "ballots_of (me, host, m) \<subseteq> inbox (from_id (header m))"
  shows "follows me N inbox r r'"
proof -
  from assms(1) me have "r' = r \<or> (handleMessage env m r = Some r' \<and> from_id (header m) \<noteq> me \<and>
      0 \<le> from_id (header m))"
    unfolding recvMessage_def Let_def by (auto split: if_split_asm Option.bind_split_asm)
  then show ?thesis
  proof (elim disjE conjE)
    assume "handleMessage env m r = Some r'" "from_id (header m) \<noteq> me" "0 \<le> from_id (header m)"
    then show ?thesis using N inbox
      by (rule handleMessage_follows)
  qed (simp add: follows_quiet)
qed

section \<open>The cluster\<close>

text \<open>
  The nodes \<open>0, \<dots>, N - 1\<close>. A step is a tick of one node, an update a client hands to one, or
  a datagram that some node has sent, of any length and from any address, that arrives at the node it
  was sent to: at any time, any number of times, or never. A node that aborts makes no more steps.
\<close>

inductive cluster_step :: "int \<Rightarrow> (int \<Rightarrow> 'd raft) \<Rightarrow> (int \<Rightarrow> 'd raft) \<Rightarrow> bool" for N :: int where
  clock: "i \<in> {0..<N} \<Longrightarrow> tick env ms (st i) = Some (b, r) \<Longrightarrow> cluster_step N st (st(i := r))"
| client: "i \<in> {0..<N} \<Longrightarrow> emit env data (st i) = Some (k, r) \<Longrightarrow> cluster_step N st (st(i := r))"
| datagram: "i \<in> {0..<N} \<Longrightarrow> j \<in> {0..<N} \<Longrightarrow> (i, host, m) \<in> set (m_sent (st j)) \<Longrightarrow>
    recvMessage env remote m len (st i) = Some r \<Longrightarrow> cluster_step N st (st(i := r))"

text \<open>Every node knows who it is and how many nodes there are.\<close>

definition members :: "int \<Rightarrow> (int \<Rightarrow> 'd raft) \<Rightarrow> bool" where
  "members N st \<longleftrightarrow> (\<forall>i \<in> {0..<N}. m_me (st i) = i \<and> m_peerNum (st i) = N \<and> sent_ok (st i))"

lemma cluster_step_follows:
  assumes good: "members N st" and "cluster_step N st st'"
  shows "\<exists>i r. i \<in> {0..<N} \<and> st' = st(i := r) \<and>
    follows i N (\<lambda>j. if j \<in> {0..<N} then ballots (st j) else {}) (st i) r"
  using assms(2)
proof cases
  case (clock i env ms b r)
  moreover from this good have "m_peerNum (st i) = N" by (simp add: members_def)
  ultimately show ?thesis by (blast intro: tick_follows)
next
  case (client i env data k r)
  then show ?thesis by (blast intro: follows_quiet quiet_emit)
next
  case (datagram i j host m env remote len r)
  let ?inbox = "\<lambda>j. if j \<in> {0..<N} then ballots (st j) else {}"
  from good datagram(3) have "sent_ok (st j)" "m_me (st j) = j" by (simp_all add: members_def)
  with datagram(4) have sender: "from_id (header m) = j" unfolding sent_ok_def by fastforce
  have "ballots_of (i, host, m) \<subseteq> ?inbox (from_id (header m))"
    using datagram(3,4) by (auto simp: sender ballots_def)
  moreover have "m_peerNum (st i) = N" "m_me (st i) = i"
    using good datagram(2) by (simp_all add: members_def)
  ultimately have "follows i N ?inbox (st i) r"
    by (intro recvMessage_follows [OF datagram(5)])
  with datagram show ?thesis by blast
qed

lemma members_step: "members N st \<Longrightarrow> cluster_step N st st' \<Longrightarrow> members N st'"
  by (frule (1) cluster_step_follows) (auto simp: members_def follows_def frame_ok_def)

text \<open>What the protocol sees of the cluster.\<close>

definition voters_of :: "(int \<Rightarrow> 'd raft) \<Rightarrow> int \<Rightarrow> voter" where
  "voters_of st i = voter_of (st i)"

lemma moves_vote_steps:
  assumes i: "i \<in> {0..<N}"
    and "moves i N (\<lambda>j. if j \<in> {0..<N} then v_cast (g j) else {}) (g i) e"
  shows "(vote_step N)\<^sup>*\<^sup>* g (g(i := e))"
  using assms(2)
proof (induction rule: rtranclp_induct)
  case base
  then show ?case by simp
next
  case (step e e')
  let ?in = "\<lambda>g j. if j \<in> {0..<N} then v_cast (g j) else {}"
  have "ballot_step i N (?in (g(i := e))) e e'"
    using step.hyps(2)
  proof cases
    case (grant s d)
    then have "Claimed i (v_term e) s \<in> ?in (g(i := e)) d"
      by (simp split: if_splits)
    from ballot_step.grant [of i e s "?in (g(i := e))", OF this grant(3,4,5)] grant(1)
    show ?thesis by simp
  next
    case (count k)
    then have "Granted i (v_term e) (v_seq e k) \<in> ?in (g(i := e)) k"
      by (simp split: if_splits)
    from ballot_step.count [of i e k "?in (g(i := e))", OF this count(3,4)] count(1)
    show ?thesis by simp
  qed (auto intro: ballot_step.intros)
  with i have "vote_step N (g(i := e)) ((g(i := e))(i := e'))"
    by (intro vote_step.intros) simp_all
  then have "(vote_step N)\<^sup>*\<^sup>* (g(i := e)) ((g(i := e))(i := e'))"
    by blast
  with step.IH have "(vote_step N)\<^sup>*\<^sup>* g ((g(i := e))(i := e'))" by (rule rtranclp_trans)
  then show ?case by (simp only: fun_upd_upd)
qed

text \<open>The code refines the protocol.\<close>

interpretation elect: simulation "cluster_step N" "vote_step N" voters_of "members N" "vote_inv N"
  for N
proof unfold_locales
  fix c c' :: "int \<Rightarrow> 'a raft"
  assume good: "members N c" and step: "cluster_step N c c'"
  then show "members N c'" by (rule members_step)
  from cluster_step_follows [OF good step] obtain i r where i: "i \<in> {0..<N}" "c' = c(i := r)"
    "follows i N (\<lambda>j. if j \<in> {0..<N} then ballots (c j) else {}) (c i) r" by blast
  have "(\<lambda>j. if j \<in> {0..<N} then ballots (c j) else {})
      = (\<lambda>j. if j \<in> {0..<N} then v_cast (voters_of c j) else {})"
    by (auto simp: fun_eq_iff voters_of_def voter_of_def)
  with i(3) have "moves i N (\<lambda>j. if j \<in> {0..<N} then v_cast (voters_of c j) else {})
      (voters_of c i) (voter_of r)" by (simp add: follows_def voters_of_def)
  from moves_vote_steps [OF i(1) this] i(2) show "(vote_step N)\<^sup>*\<^sup>* (voters_of c) (voters_of c')"
    by (simp add: voters_of_def [abs_def] fun_upd_def) (simp only: if_distrib)
next
  fix a a' :: "int \<Rightarrow> voter"
  assume "vote_inv N a" "vote_step N a a'"
  then show "vote_inv N a'" by (rule vote_inv_step)
qed


section \<open>Starting\<close>

text \<open>Each node was started with the same set of peers, itself among them.\<close>

definition started :: "int \<Rightarrow> (int \<Rightarrow> 'd raft) \<Rightarrow> bool" where
  "started N st \<longleftrightarrow> (\<forall>i \<in> {0..<N}. \<exists>env junk rc ps.
     distinct (map fst ps) \<and> fst ` set ps = {0..<N} \<and> loadConfig env junk rc i ps = Some (st i))"

lemma peerUp_effect:
  assumes "peerUp env pid addr self r = Some (True, r')"
  shows "m_peerNum r' = m_peerNum r + 1" and "m_me r' = (if self then pid else m_me r)"
    and "m_role r' = m_role r" and "m_sent r' = m_sent r"
  using assms
  by (auto simp: peerUp_def resetTimer_def Let_def dest!: randBetweenTime_Some
      split: if_split_asm Option.bind_split_asm prod.split_asm)

lemma load_peers_effect:
  "load_peers env i ps r = Some r' \<Longrightarrow>
     m_peerNum r' = m_peerNum r + int (length ps) \<and> (i \<in> fst ` set ps \<longrightarrow> m_me r' = i) \<and>
     (m_me r = i \<longrightarrow> m_me r' = i) \<and> m_role r' = m_role r \<and> m_sent r' = m_sent r"
proof (induction env i ps r rule: load_peers.induct)
  case (1 env i r)
  then show ?case by simp
next
  case (2 env i pid addr ps r)
  from "2.prems" obtain r1 where up: "peerUp env pid addr (pid = i) r = Some (True, r1)"
    and rest: "load_peers env i ps (if pid = i then setConneToPeer r1 else r1) = Some r'"
    by (auto simp: assert_that_def split: if_split_asm Option.bind_split_asm prod.split_asm)
  from "2.IH" [OF up refl _ rest, of "()"] peerUp_effect [OF up] show ?case
    by (auto simp: setConneToPeer_def split: if_splits)
qed

lemma started_members: "started N st \<Longrightarrow> members N st"
  and started_inv: "started N st \<Longrightarrow> vote_inv N (voters_of st)"
proof -
  assume *: "started N st"
  have init: "m_me (st i) = i \<and> m_peerNum (st i) = N \<and> m_role (st i) = Follower \<and> m_sent (st i) = []"
    if i: "i \<in> {0..<N}" for i
  proof -
    from * i obtain env junk rc ps where ps: "distinct (map fst ps)" "fst ` set ps = {0..<N}"
      and "load_peers env i ps (raft_new junk rc) = Some (st i)"
      unfolding started_def loadConfig_def bind_Some_conv by (auto dest!: bspec [OF _ i])
    from load_peers_effect [OF this(3)] i have "m_me (st i) = i" "m_role (st i) = Follower"
      "m_sent (st i) = []" "m_peerNum (st i) = int (length ps)"
      by (simp_all add: ps(2) raft_new_def)
    moreover have "int (length ps) = N"
      using distinct_card [OF ps(1)] ps(2) i by (cases "nat N = length ps") auto
    ultimately show ?thesis by simp
  qed
  show "members N st" using init by (simp add: members_def sent_ok_def)
  show "vote_inv N (voters_of st)" using init
    by (simp add: vote_inv_def voters_of_def voter_of_def ballots_def claims_ok_def grants_ok_def)
qed

section \<open>Running a cluster\<close>

text \<open>
  Events, to compute runs: a tick, a client's update, and the arrival at a node of the \<open>k\<close>-th
  datagram that a node has sent, with the address the receiver expects.
\<close>

datatype event = Tick int int | Client int bytes | Arrive int int nat

fun exec :: "env \<Rightarrow> int \<Rightarrow> event \<Rightarrow> (int \<Rightarrow> 'd raft) \<Rightarrow> (int \<Rightarrow> 'd raft) option" where
  "exec env N (Tick i ms) st = do {
     assert_that (0 \<le> i \<and> i < N);
     (b, r) \<leftarrow> tick env ms (st i);
     Some (st(i := r))
   }"
| "exec env N (Client i data) st = do {
     assert_that (0 \<le> i \<and> i < N);
     (k, r) \<leftarrow> emit env data (st i);
     Some (st(i := r))
   }"
| "exec env N (Arrive i j k) st = do {
     assert_that (0 \<le> i \<and> i < N \<and> 0 \<le> j \<and> j < N \<and> k < length (m_sent (st j)));
     let (d, host, m) = m_sent (st j) ! k;
     assert_that (d = i);
     p \<leftarrow> get_peer j (st i);
     remote \<leftarrow> p_host p;
     r \<leftarrow> recvMessage env remote m (wire_len m) (st i);
     Some (st(i := r))
   }"

fun exec_all :: "env \<Rightarrow> int \<Rightarrow> event list \<Rightarrow> (int \<Rightarrow> 'd raft) \<Rightarrow> (int \<Rightarrow> 'd raft) option" where
  "exec_all env N [] st = Some st"
| "exec_all env N (ev # evs) st = (exec env N ev st \<bind> exec_all env N evs)"

lemma exec_step: "exec env N ev st = Some st' \<Longrightarrow> cluster_step N st st'"
proof (cases ev)
  case (Tick i ms)
  moreover assume "exec env N ev st = Some st'"
  ultimately obtain b r where "i \<in> {0..<N}" "tick env ms (st i) = Some (b, r)" "st' = st(i := r)"
    by (auto simp: abort_simps)
  then show ?thesis by (simp add: cluster_step.clock)
next
  case (Client i data)
  moreover assume "exec env N ev st = Some st'"
  ultimately obtain k r where "i \<in> {0..<N}" "emit env data (st i) = Some (k, r)" "st' = st(i := r)"
    by (auto simp: abort_simps)
  then show ?thesis by (simp add: cluster_step.client)
next
  case (Arrive i j k)
  moreover assume "exec env N ev st = Some st'"
  ultimately obtain host m remote r where "i \<in> {0..<N}" "j \<in> {0..<N}"
    and k: "k < length (m_sent (st j))" "m_sent (st j) ! k = (i, host, m)"
    and r: "recvMessage env remote m (wire_len m) (st i) = Some r" "st' = st(i := r)"
    by (auto simp: abort_simps Let_def split: prod.splits)
  moreover from nth_mem [OF k(1)] have "(i, host, m) \<in> set (m_sent (st j))" by (simp add: k(2))
  ultimately show ?thesis using cluster_step.datagram [of i N j host m st env remote] by simp
qed

lemma exec_all_steps: "exec_all env N evs st = Some st' \<Longrightarrow> (cluster_step N)\<^sup>*\<^sup>* st st'"
proof (induction evs arbitrary: st)
  case Nil
  then show ?case by simp
next
  case (Cons ev evs)
  then obtain st1 where "exec env N ev st = Some st1" "exec_all env N evs st1 = Some st'"
    by (auto simp: abort_simps)
  with Cons.IH [of st1] exec_step have "cluster_step N st st1" "(cluster_step N)\<^sup>*\<^sup>* st1 st'"
    by blast+
  then show ?case by (rule converse_rtranclp_into_rtranclp)
qed

text \<open>Three nodes whose database is the list of the updates applied to it.\<close>

definition trio_env :: env where
  "trio_env = \<lparr>rand_seq = (\<lambda>s k. s + int k),
     junk_update = (\<lambda>i. \<lparr>mu_msg = \<lparr>curterm = 0, from_id = 0, sequence = 0\<rparr>, mu_snapshot = False,
       mu_previndex = 0, mu_prevterm = 0, mu_empty = False, mu_entryTerm = 0, mu_totalLen = 0,
       mu_acked = 0, mu_offset = 0, mu_len = 0, mu_data = []\<rparr>),
     junk_reply = \<lparr>md_msg = \<lparr>curterm = 0, from_id = 0, sequence = 0\<rparr>, md_entryTerm = 0,
       md_process = process_new, md_applied = 77, md_success = False\<rparr>,
     junk_byte = (\<lambda>i. 170)\<rparr>"

definition trio_config :: "update list config" where
  "trio_config = (server_config [] (\<lambda>d u s. d @ [u]) (\<lambda>d. \<lparr>u_len = 1, u_data = Some [33]\<rparr>))
     \<lparr>peernum_max := 3\<rparr>"

definition trio_peers :: "(int \<times> address) list" where
  "trio_peers = [(0, ''10.0.0.1'', 7000), (1, ''10.0.0.2'', 7000), (2, ''10.0.0.3'', 7000)]"

definition trio :: "int \<Rightarrow> update list raft" where
  "trio i = the (loadConfig trio_env 0 trio_config i trio_peers)"

lemma trio_started: "started 3 trio"
proof -
  have some: "loadConfig trio_env 0 trio_config i trio_peers \<noteq> None" if "i = 0 \<or> i = 1 \<or> i = 2" for i
  proof -
    have "loadConfig trio_env 0 trio_config 0 trio_peers \<noteq> None"
      "loadConfig trio_env 0 trio_config 1 trio_peers \<noteq> None"
      "loadConfig trio_env 0 trio_config 2 trio_peers \<noteq> None" by code_simp+
    with that show ?thesis by auto
  qed
  have "loadConfig trio_env 0 trio_config i trio_peers = Some (trio i)" if "i \<in> {0..<3}" for i
  proof -
    from that have "i = 0 \<or> i = 1 \<or> i = 2" by auto
    then show ?thesis using some [of i] by (auto simp: trio_def)
  qed
  moreover have "distinct (map fst trio_peers)" "fst ` set trio_peers = {0..<3}"
    by (auto simp: trio_peers_def)
  ultimately show ?thesis unfolding started_def by blast
qed

text \<open>Node 0 and node 2 time out together; node 1 votes for node 0, which becomes the leader.\<close>

definition first_win :: "event list" where
  "first_win = [Tick 0 1000, Tick 2 1000, Arrive 1 0 0, Arrive 0 1 0]"

text \<open>Node 2's claim now reaches node 0, which steps down and votes for node 2.\<close>

definition second_win :: "event list" where
  "second_win = [Arrive 0 2 0, Arrive 2 0 2]"

lemma trio_run:
  "(case exec_all trio_env 3 first_win trio of
      Some st1 \<Rightarrow> isLeader (st1 0) \<and> m_term (st1 0) = 1 \<and> \<not> isLeader (st1 2) \<and>
        (case exec_all trio_env 3 second_win st1 of
           Some st2 \<Rightarrow> isLeader (st2 2) \<and> m_term (st2 2) = 1 \<and> \<not> isLeader (st2 0)
         | None \<Rightarrow> False)
    | None \<Rightarrow> False)"
  by code_simp

section \<open>Properties\<close>

text \<open>
  C1: election safety at every moment. Nodes that were started with the same peers, and then ticked,
  took client updates and received each other's datagrams in any order, any number of times or never,
  are never both leader of the same term.
\<close>

theorem at_most_one_leader:
  assumes "started N st0" and "(cluster_step N)\<^sup>*\<^sup>* st0 st"
    and "a \<in> {0..<N}" and "b \<in> {0..<N}" and "isLeader (st a)" and "isLeader (st b)"
    and "m_term (st a) = m_term (st b)"
  shows "a = b"
proof -
  have "vote_inv N (voters_of st)"
    using assms(1,2) elect.transfer started_members started_inv by blast
  then show ?thesis
    by (rule one_leader) (use assms in \<open>simp_all add: voters_of_def voter_of_def isLeader_def\<close>)
qed

theorem at_most_one_leader_witness:
  "\<exists>st. (cluster_step 3)\<^sup>*\<^sup>* trio st \<and> isLeader (st 0) \<and> m_term (st 0) = 1 \<and>
     \<not> (isLeader (st 1) \<and> m_term (st 1) = 1) \<and> \<not> (isLeader (st 2) \<and> m_term (st 2) = 1)"
proof -
  obtain st where run: "exec_all trio_env 3 first_win trio = Some st"
    and st: "isLeader (st 0)" "m_term (st 0) = 1"
    using trio_run by (auto split: option.splits)
  have steps: "(cluster_step 3)\<^sup>*\<^sup>* trio st" by (rule exec_all_steps [OF run])
  have "\<not> (isLeader (st b) \<and> m_term (st b) = 1)" if "b \<in> {0..<3}" "b \<noteq> 0" for b
    using at_most_one_leader [OF trio_started steps, of 0 b] st that by auto
  then have "\<not> (isLeader (st 1) \<and> m_term (st 1) = 1)" "\<not> (isLeader (st 2) \<and> m_term (st 2) = 1)"
    by auto
  with steps st show ?thesis by blast
qed

text \<open>
  over time, one term can elect two leaders. A node that stands for election does not record that
  it voted for itself, so after winning a term it still votes for another candidate of that term: in a
  cluster of three, node 0 becomes the leader of term 1, and later node 2 becomes the leader of term 1.
\<close>

lemma one_term_two_leaders_in_turn:
  "\<exists>st0 st1 st2 :: int \<Rightarrow> update list raft. started 3 st0 \<and>
     (cluster_step 3)\<^sup>*\<^sup>* st0 st1 \<and> (cluster_step 3)\<^sup>*\<^sup>* st1 st2 \<and>
     isLeader (st1 0) \<and> m_term (st1 0) = 1 \<and> isLeader (st2 2) \<and> m_term (st2 2) = 1"
proof -
  obtain st1 st2 where run: "exec_all trio_env 3 first_win trio = Some st1"
      "exec_all trio_env 3 second_win st1 = Some st2"
    and st: "isLeader (st1 0)" "m_term (st1 0) = 1" "isLeader (st2 2)" "m_term (st2 2) = 1"
    using trio_run by (auto split: option.splits)
  from exec_all_steps [OF run(1)] exec_all_steps [OF run(2)] st trio_started show ?thesis by blast
qed

text \<open>
  C2: one vote per term. Whatever happens in a cluster, a node never grants its vote to two candidates
  in the same term, and a granted vote always answers a claim that the candidate made.
\<close>

theorem one_vote_per_term:
  assumes "started N st0" and "(cluster_step N)\<^sup>*\<^sup>* st0 st" and "i \<in> {0..<N}" and "d \<in> {0..<N}"
    and "(d, h, AnyVote v) \<in> set (m_sent (st i))" and "mv_granted v"
    and "(d', h', AnyVote v') \<in> set (m_sent (st i))" and "mv_granted v'"
    and "curterm (mv_msg v) = curterm (mv_msg v')"
  shows "d = d' \<and> (\<exists>h c. (i, h, AnyClaim c) \<in> set (m_sent (st d)) \<and>
    curterm (mc_msg c) = curterm (mv_msg v) \<and> sequence (mc_msg c) = sequence (mv_msg v))"
proof -
  let ?t = "curterm (mv_msg v)" and ?s = "sequence (mv_msg v)"
  have inv: "vote_inv N (voters_of st)"
    using assms(1,2) elect.transfer started_members started_inv by blast
  have cast: "v_cast (voters_of st j) = ballots (st j)" for j by (simp add: voters_of_def voter_of_def)
  have g: "Granted d ?t ?s \<in> ballots (st i)" "Granted d' ?t (sequence (mv_msg v')) \<in> ballots (st i)"
    using assms(5-9) by (force simp: ballots_def)+
  with inv assms(3) have "d = d'" unfolding vote_inv_def grants_ok_def cast by blast
  moreover from inv assms(3,4) g(1) have "Claimed i ?t ?s \<in> ballots (st d)"
    unfolding vote_inv_def cast by blast
  then obtain x where x: "x \<in> set (m_sent (st d))" "Claimed i ?t ?s \<in> ballots_of x"
    by (auto simp: ballots_def)
  then have "\<exists>h c. x = (i, h, AnyClaim c) \<and> curterm (mc_msg c) = ?t \<and> sequence (mc_msg c) = ?s"
    by (cases x rule: ballots_of.cases) (auto split: if_splits)
  with x(1) have "\<exists>h c. (i, h, AnyClaim c) \<in> set (m_sent (st d)) \<and>
    curterm (mc_msg c) = ?t \<and> sequence (mc_msg c) = ?s" by blast
  ultimately show ?thesis by blast
qed

lemma trio_vote:
  "case exec_all trio_env 3 first_win trio of
      Some st \<Rightarrow> m_sent (st 1) = [(0, (''10.0.0.1'', 7000),
        AnyVote \<lparr>mv_msg = \<lparr>curterm = 1, from_id = 1, sequence = 1\<rparr>, mv_granted = True\<rparr>)]
    | None \<Rightarrow> False"
  by code_simp

theorem one_vote_per_term_witness:
  "\<exists>st h c. (cluster_step 3)\<^sup>*\<^sup>* trio st \<and> (1, h, AnyClaim c) \<in> set (m_sent (st 0)) \<and>
     curterm (mc_msg c) = 1"
proof -
  obtain st h v where run: "exec_all trio_env 3 first_win trio = Some st"
    and v: "(0, h, AnyVote v) \<in> set (m_sent (st 1))" "mv_granted v" "curterm (mv_msg v) = 1"
    using trio_vote by (auto split: option.split_asm)
  have "(1 :: int) \<in> {0..<3}" "(0 :: int) \<in> {0..<3}" by simp_all
  from one_vote_per_term [OF trio_started exec_all_steps [OF run] this v(1,2) v(1,2) refl] v(3)
    exec_all_steps [OF run]
  show ?thesis by auto
qed

text \<open>
  a candidate that hears from the leader of its own term aborts at its next time-out.
  \<^verbatim>\<open>handleUpdate\<close> records the sender as the leader but leaves the role alone, and
  \<^verbatim>\<open>claim\<close> asserts that a candidate knows no leader; here node 2 lost the election of term
  1 to node 0, gets its heartbeat, and then its timer runs out.
\<close>

lemma candidate_aborts_after_heartbeat:
  "\<exists>st0 st :: int \<Rightarrow> update list raft. started 3 st0 \<and> (cluster_step 3)\<^sup>*\<^sup>* st0 st \<and>
     m_role (st 2) = Candidate \<and> m_leaderId (st 2) = 0 \<and> tick trio_env 1000 (st 2) = None"
proof -
  have "case exec_all trio_env 3 (first_win @ [Tick 0 1000, Arrive 2 0 3]) trio of
      Some st \<Rightarrow> m_role (st 2) = Candidate \<and> m_leaderId (st 2) = 0 \<and> tick trio_env 1000 (st 2) = None
    | None \<Rightarrow> False"
    by code_simp
  then obtain st where "exec_all trio_env 3 (first_win @ [Tick 0 1000, Arrive 2 0 3]) trio = Some st"
    and "m_role (st 2) = Candidate \<and> m_leaderId (st 2) = 0 \<and> tick trio_env 1000 (st 2) = None"
    by (auto split: option.splits)
  with exec_all_steps trio_started show ?thesis by blast
qed

end
