(* ===== verification/RaftLog.thy ===== *)
theory RaftLog
  imports Raft
begin

text \<open>
  The replicated log of \<^verbatim>\<open>example/raft_server/raft.cc\<close>: a ring of
  \<^verbatim>\<open>log_len\<close> slots that holds the entries from \<^verbatim>\<open>first\<close> on. The lemmas
  here say what the operations on the ring do to the list of entries it stands for.
\<close>

section \<open>The list a ring stands for\<close>

definition entry_at :: "'d raft \<Rightarrow> int \<Rightarrow> entry" where
  "entry_at r i = l_entries (m_log r) ! nat (i mod log_len (m_config r))"

definition the_log :: "'d raft \<Rightarrow> entry list" where
  "the_log r = map (entry_at r) [logFirstIndex r..logLastIndex r]"

text \<open>An entry whose data is all there.\<close>

definition live :: "entry \<Rightarrow> bool" where
  "live e \<longleftrightarrow> (\<exists>d. e_update e = \<lparr>u_len = int (length d), u_data = Some d\<rparr> \<and> e_bytes e = int (length d))"

definition wf_ring :: "'d raft \<Rightarrow> bool" where
  "wf_ring r \<longleftrightarrow> 0 < log_len (m_config r) \<and>
     length (l_entries (m_log r)) = nat (log_len (m_config r)) \<and>
     0 \<le> l_first (m_log r) \<and> 0 \<le> l_size (m_log r) \<and> l_size (m_log r) \<le> log_len (m_config r)"

definition wf_log :: "'d raft \<Rightarrow> bool" where
  "wf_log r \<longleftrightarrow> wf_ring r \<and> (0 < l_first (m_log r) \<longrightarrow> 1 \<le> l_size (m_log r)) \<and>
     l_first (m_log r) \<le> l_applied (m_log r) \<and>
     l_applied (m_log r) \<le> l_first (m_log r) + log_len (m_config r) \<and>
     (\<forall>e \<in> set (the_log r). live e)"

definition peers_ok :: "'d raft \<Rightarrow> bool" where
  "peers_ok r \<longleftrightarrow> peernum_max (m_config r) \<le> int (length (m_peers r))"

lemma length_the_log: "wf_ring r \<Longrightarrow> length (the_log r) = nat (l_size (m_log r))"
  by (simp add: the_log_def wf_ring_def logFirstIndex_def logLastIndex_def)

lemma nth_the_log:
  "k < length (the_log r) \<Longrightarrow> the_log r ! k = entry_at r (logFirstIndex r + int k)"
  by (simp add: the_log_def nth_upto)

lemma slot_pos:
  assumes "0 < log_len (m_config r)" and "length (l_entries (m_log r)) = nat (log_len (m_config r))"
    and "0 \<le> i"
  shows "slot i r = Some (nat (i mod log_len (m_config r)))"
proof -
  have "i smod log_len (m_config r) = i mod log_len (m_config r)"
    using assms(1,3) by (simp add: signed_modulo_int_def signed_divide_int_def
        minus_div_mult_eq_mod sgn_if)
  then show ?thesis
    using assms by (simp add: slot_def Let_def nat_less_iff)
qed

lemma log_at_pos: "wf_ring r \<Longrightarrow> 0 \<le> i \<Longrightarrow> log_at i r = Some (entry_at r i)"
  by (simp add: log_at_def slot_pos wf_ring_def entry_at_def)

definition put_entry :: "int \<Rightarrow> entry \<Rightarrow> 'd raft \<Rightarrow> 'd raft" where
  "put_entry i e r = r\<lparr>m_log := (m_log r)\<lparr>l_entries :=
     (l_entries (m_log r))[nat (i mod log_len (m_config r)) := e]\<rparr>\<rparr>"

lemma put_entry_sel [simp]:
  "l_first (m_log (put_entry i e r)) = l_first (m_log r)"
  "l_size (m_log (put_entry i e r)) = l_size (m_log r)"
  "l_acked (m_log (put_entry i e r)) = l_acked (m_log r)"
  "l_applied (m_log (put_entry i e r)) = l_applied (m_log r)"
  "l_newentry (m_log (put_entry i e r)) = l_newentry (m_log r)"
  "length (l_entries (m_log (put_entry i e r))) = length (l_entries (m_log r))"
  "m_config (put_entry i e r) = m_config r" "m_peers (put_entry i e r) = m_peers r"
  "m_me (put_entry i e r) = m_me r" "m_term (put_entry i e r) = m_term r"
  "m_role (put_entry i e r) = m_role r" "m_leaderId (put_entry i e r) = m_leaderId r"
  "logFirstIndex (put_entry i e r) = logFirstIndex r"
  "logLastIndex (put_entry i e r) = logLastIndex r"
  "wf_ring (put_entry i e r) = wf_ring r"
  by (simp_all add: put_entry_def logFirstIndex_def logLastIndex_def wf_ring_def)

lemma log_set_pos: "wf_ring r \<Longrightarrow> 0 \<le> i \<Longrightarrow> log_set i e r = Some (put_entry i e r)"
  by (simp add: log_set_def slot_pos wf_ring_def put_entry_def)

text \<open>Less than a whole turn apart, two indices are in different slots.\<close>

lemma mod_window:
  fixes i j n :: int
  assumes "0 < n" and "i mod n = j mod n" and "i - j < n" and "j - i < n"
  shows "i = j"
proof -
  have "n dvd (i - j)" using assms(2) by (simp add: mod_eq_dvd_iff)
  then show ?thesis using assms(1,3,4) zdvd_imp_le [of n "i - j"] zdvd_imp_le [of n "j - i"]
    by (cases i j rule: linorder_cases) (auto simp: dvd_diff_commute)
qed

lemma entry_at_put:
  assumes "wf_ring r" and "i - j < log_len (m_config r)" and "j - i < log_len (m_config r)"
  shows "entry_at (put_entry i e r) j = (if j = i then e else entry_at r j)"
proof -
  let ?n = "log_len (m_config r)"
  have n: "0 < ?n" "length (l_entries (m_log r)) = nat ?n" using assms(1) by (simp_all add: wf_ring_def)
  then have "nat (j mod ?n) = nat (i mod ?n) \<longleftrightarrow> j mod ?n = i mod ?n"
    by (intro eq_nat_nat_iff pos_mod_sign)
  also have "\<dots> \<longleftrightarrow> j = i" using mod_window [of ?n j i] n(1) assms(2,3) by auto
  finally have "nat (j mod ?n) = nat (i mod ?n) \<longleftrightarrow> j = i" .
  moreover have "nat (i mod ?n) < length (l_entries (m_log r))" using n by (simp add: nat_less_iff)
  ultimately show ?thesis
    by (auto simp: entry_at_def put_entry_def)
qed

lemma the_log_put_inside:
  assumes "wf_ring r" and "logFirstIndex r \<le> i" and "i \<le> logLastIndex r"
  shows "the_log (put_entry i e r) = (the_log r)[nat (i - logFirstIndex r) := e]"
proof (rule nth_equalityI)
  show "length (the_log (put_entry i e r)) = length ((the_log r)[nat (i - logFirstIndex r) := e])"
    by (simp add: the_log_def)
next
  fix k assume "k < length (the_log (put_entry i e r))"
  then have k: "k < length (the_log r)" by (simp add: the_log_def)
  then have "logFirstIndex r + int k \<le> logLastIndex r" by (simp add: the_log_def)
  with assms have "entry_at (put_entry i e r) (logFirstIndex r + int k)
      = (if logFirstIndex r + int k = i then e else entry_at r (logFirstIndex r + int k))"
    by (intro entry_at_put) (auto simp: wf_ring_def logFirstIndex_def logLastIndex_def)
  with k assms(2) show "the_log (put_entry i e r) ! k = (the_log r)[nat (i - logFirstIndex r) := e] ! k"
    by (auto simp: nth_the_log nth_list_update the_log_def nth_upto)
qed

lemma the_log_put_outside:
  assumes "wf_ring r" and "logLastIndex r < i" and "i < logFirstIndex r + log_len (m_config r)"
  shows "the_log (put_entry i e r) = the_log r"
proof -
  have "entry_at (put_entry i e r) j = entry_at r j"
    if "j \<in> set [logFirstIndex r..logLastIndex r]" for j
    using entry_at_put [OF assms(1), of i j e] that assms(2,3)
    by (auto simp: wf_ring_def logFirstIndex_def logLastIndex_def)
  then show ?thesis by (simp add: the_log_def)
qed

text \<open>Making the ring one longer, or shorter at either end.\<close>

lemma the_log_grow:
  assumes "0 \<le> l_size (m_log r)"
  shows "the_log (r\<lparr>m_log := (m_log r)\<lparr>l_size := l_size (m_log r) + 1\<rparr>\<rparr>)
         = the_log r @ [entry_at r (logLastIndex r + 1)]"
  using assms
  by (simp add: the_log_def logFirstIndex_def logLastIndex_def entry_at_def upto_rec2)

lemma the_log_shrink:
  assumes "0 \<le> s" and "s \<le> l_size (m_log r)"
  shows "the_log (r\<lparr>m_log := (m_log r)\<lparr>l_size := s\<rparr>\<rparr>) = take (nat s) (the_log r)"
  by (rule nth_equalityI) (use assms in \<open>auto simp: the_log_def logFirstIndex_def logLastIndex_def
      entry_at_def nth_upto\<close>)

lemma the_log_advance:
  assumes "0 \<le> k" and "k \<le> l_size (m_log r)"
  shows "the_log (r\<lparr>m_log := (m_log r)\<lparr>l_first := l_first (m_log r) + k, l_size := l_size (m_log r) - k\<rparr>\<rparr>)
         = drop (nat k) (the_log r)"
  by (rule nth_equalityI) (use assms in \<open>auto simp: the_log_def logFirstIndex_def logLastIndex_def
      entry_at_def nth_upto algebra_simps\<close>)


section \<open>Freeing, compacting, restoring\<close>

definition freed :: "bool \<Rightarrow> entry \<Rightarrow> entry" where
  "freed unmark e = e\<lparr>e_snapshot := (if unmark then False else e_snapshot e), e_update := update_null\<rparr>"

lemma free_slot_Some:
  assumes "wf_ring r" and "0 \<le> i" and "free_slot b i r = Some r'"
  shows "r' = put_entry i (freed b (entry_at r i)) r"
  using assms by (simp add: free_slot_def log_at_pos log_set_pos freed_def abort_simps)

text \<open>
  What a run of the freeing loop leaves alone: everything but the entries, and the entries after the
  range as long as the range and they fit in one turn of the ring.
\<close>

definition freed_range :: "int \<Rightarrow> int \<Rightarrow> bool \<Rightarrow> 'd raft \<Rightarrow> 'd raft \<Rightarrow> bool" where
  "freed_range a c b r r' \<longleftrightarrow>
     (\<exists>es. r' = r\<lparr>m_log := (m_log r)\<lparr>l_entries := es\<rparr>\<rparr> \<and> length es = length (l_entries (m_log r))) \<and>
     (\<forall>j. c \<le> j \<and> j < a + log_len (m_config r) \<longrightarrow> entry_at r' j = entry_at r j) \<and>
     (\<forall>j. a \<le> j \<and> j < c \<longrightarrow> entry_at r' j = freed b (entry_at r j))"

lemma freed_range_refl: "c \<le> a \<Longrightarrow> freed_range a c b r r"
  unfolding freed_range_def by (intro conjI exI [of _ "l_entries (m_log r)"]) auto

lemma freed_range_wf: "freed_range a c b r r' \<Longrightarrow> wf_ring r \<Longrightarrow> wf_ring r'"
  by (auto simp: freed_range_def wf_ring_def)

lemma freed_range_same:
  assumes "freed_range a c b r r'"
  shows "m_config r' = m_config r" and "m_peers r' = m_peers r" and "m_me r' = m_me r"
    and "l_first (m_log r') = l_first (m_log r)" and "l_size (m_log r') = l_size (m_log r)"
    and "l_applied (m_log r') = l_applied (m_log r)" and "l_newentry (m_log r') = l_newentry (m_log r)"
    and "l_acked (m_log r') = l_acked (m_log r)" and "m_term r' = m_term r"
  using assms by (auto simp: freed_range_def)

lemma freed_range_Suc:
  assumes wf: "wf_ring r" and "0 \<le> a" and "a \<le> c" and "c - a < log_len (m_config r)"
    and *: "freed_range a c b r s"
  shows "freed_range a (c + 1) b r (put_entry c (freed b (entry_at s c)) s)"
proof -
  have s: "wf_ring s" by (rule freed_range_wf [OF * wf])
  have len: "log_len (m_config s) = log_len (m_config r)" by (simp add: freed_range_same [OF *])
  from * obtain es where es: "s = r\<lparr>m_log := (m_log r)\<lparr>l_entries := es\<rparr>\<rparr>"
    "length es = length (l_entries (m_log r))" by (auto simp: freed_range_def)
  have at: "entry_at (put_entry c e s) j = (if j = c then e else entry_at s j)"
    if "a \<le> j" "j < a + log_len (m_config r)" for j e
    using that assms(3,4) by (intro entry_at_put [OF s]) (simp_all add: len)
  have "\<exists>es'. put_entry c e s = r\<lparr>m_log := (m_log r)\<lparr>l_entries := es'\<rparr>\<rparr> \<and>
      length es' = length (l_entries (m_log r))" for e
    by (rule exI [of _ "es[nat (c mod log_len (m_config r)) := e]"]) (simp add: put_entry_def es)
  then show ?thesis
    using * assms(3,4) at unfolding freed_range_def by auto
qed

lemma free_loop:
  assumes "wf_ring r" and "0 \<le> a" and "int n \<le> log_len (m_config r)"
    and "\<And>j. a \<le> j \<Longrightarrow> j < a + int n \<Longrightarrow> live (entry_at r j)"
  shows "\<exists>r'. for_each (free_slot b) [a..a + int n - 1] r = Some r' \<and> freed_range a (a + int n) b r r'"
  using assms(3,4)
proof (induction n)
  case 0
  then show ?case by (simp add: freed_range_refl)
next
  case (Suc n)
  let ?i = "a + int n"
  have "[a..?i] = [a..?i - 1] @ [?i]" by (rule upto_rec2) simp
  then have split: "[a..a + int (Suc n) - 1] = [a..?i - 1] @ [?i]" by simp
  from Suc obtain s where s: "for_each (free_slot b) [a..?i - 1] r = Some s" "freed_range a ?i b r s"
    by auto
  have wf: "wf_ring s" by (rule freed_range_wf [OF s(2) assms(1)])
  have "entry_at s ?i = entry_at r ?i" using s(2) Suc.prems(1) by (simp add: freed_range_def)
  then have "live (entry_at s ?i)" using Suc.prems(2) [of ?i] by simp
  then have "free_slot b ?i s = Some (put_entry ?i (freed b (entry_at s ?i)) s)"
    using wf assms(2)
    by (auto simp: free_slot_def log_at_pos log_set_pos freed_def live_def)
  moreover have "freed_range a (?i + 1) b r (put_entry ?i (freed b (entry_at s ?i)) s)"
    using Suc.prems(1) assms(1,2) s(2) by (intro freed_range_Suc) simp_all
  moreover have next_i: "a + int (Suc n) = ?i + 1" by simp
  ultimately show ?case using s(1) unfolding split for_each_append unfolding next_i by simp
qed

definition snap_ok :: "'d raft \<Rightarrow> bool" where
  "snap_ok r \<longleftrightarrow> (\<forall>d. \<exists>b. snapshooter (m_config r) d = \<lparr>u_len = int (length b), u_data = Some b\<rparr>)"

definition snap_entry :: "'d raft \<Rightarrow> entry \<Rightarrow> entry" where
  "snap_entry r e = (let snap = snapshooter (m_config r) (userdata (m_config r)) in
     e\<lparr>e_update := snap, e_bytes := u_len snap, e_snapshot := True\<rparr>)"

text \<open>The loop of \<^verbatim>\<open>compact\<close> over the peers touches only the peers.\<close>

lemma reset_behind_peers:
  assumes "peers_ok r"
  shows "\<exists>ps. reset_behind r = Some (r\<lparr>m_peers := ps\<rparr>) \<and> length ps = length (m_peers r)"
proof -
  let ?f = "\<lambda>i r :: 'a raft. get_peer i r \<bind> (\<lambda>p.
      if \<not> p_up p then Some r
      else if i = m_me r then Some r
      else if pr_entries (p_acked p) + 1 \<le> l_first (m_log r)
      then Some (set_peer i (p\<lparr>p_acked := (p_acked p)\<lparr>pr_bytes := 0\<rparr>\<rparr>) r)
      else Some r)"
  have step: "\<exists>ps. ?f i r = Some (r\<lparr>m_peers := ps\<rparr>) \<and> length ps = length (m_peers r)"
    if "0 \<le> i" "nat i < length (m_peers r)" for i r
  proof -
    have "\<exists>ps. r = r\<lparr>m_peers := ps\<rparr> \<and> length ps = length (m_peers r)"
      by (rule exI [of _ "m_peers r"]) simp
    moreover have "\<exists>ps. set_peer i p r = r\<lparr>m_peers := ps\<rparr> \<and> length ps = length (m_peers r)" for p
      by (rule exI [of _ "(m_peers r)[nat i := p]"]) (simp add: set_peer_def)
    moreover have "get_peer i r = Some (m_peers r ! nat i)" using that by (simp add: get_peer_def)
    ultimately show ?thesis by simp
  qed
  have loop: "\<exists>ps. for_each ?f is r = Some (r\<lparr>m_peers := ps\<rparr>) \<and> length ps = length (m_peers r)"
    if "\<forall>i \<in> set is. 0 \<le> i \<and> nat i < length (m_peers r)" for "is" and r
    using that
  proof (induction "is" arbitrary: r)
    case Nil
    have "r = r\<lparr>m_peers := m_peers r\<rparr>" by simp
    then show ?case by (metis for_each.simps(1))
  next
    case (Cons i "is")
    from Cons.prems step [of i r] obtain ps where ps: "?f i r = Some (r\<lparr>m_peers := ps\<rparr>)"
      "length ps = length (m_peers r)" by auto
    from Cons.IH [of "r\<lparr>m_peers := ps\<rparr>"] Cons.prems ps(2) obtain qs where
      "for_each ?f is (r\<lparr>m_peers := ps\<rparr>) = Some (r\<lparr>m_peers := qs\<rparr>)" "length qs = length (m_peers r)"
      by auto
    with ps(1) show ?case by (simp only: for_each.simps bind.bind_lunit) blast
  qed
  show ?thesis unfolding reset_behind_def
    by (rule loop) (use assms in \<open>auto simp: peers_ok_def peer_range_def\<close>)
qed

text \<open>
  Compacting a full log: the entries that were applied, \<open>k\<close> of them, become one snapshot entry with
  the term of the last of them; the entries after it stay.
\<close>

definition compacted_log :: "'d raft \<Rightarrow> int \<Rightarrow> entry list" where
  "compacted_log r k =
     (if k = 0 then the_log r
      else snap_entry r (the_log r ! nat (k - 1)) # drop (nat k) (the_log r))"

lemma entry_at_cong:
  "l_entries (m_log r) = l_entries (m_log s) \<Longrightarrow> log_len (m_config r) = log_len (m_config s) \<Longrightarrow>
     entry_at r i = entry_at s i"
  by (simp add: entry_at_def)

lemma the_log_cong:
  assumes "l_first (m_log r) = l_first (m_log s)" and "l_size (m_log r) = l_size (m_log s)"
    and "l_entries (m_log r) = l_entries (m_log s)" and "log_len (m_config r) = log_len (m_config s)"
  shows "the_log r = the_log s"
proof -
  have "entry_at r = entry_at s" using entry_at_cong [OF assms(3,4)] by blast
  then show ?thesis using assms(1,2) by (simp add: the_log_def logFirstIndex_def logLastIndex_def)
qed

lemma live_snap_entry:
  assumes "snap_ok r"
  shows "live (snap_entry r e)"
proof -
  obtain b where "snapshooter (m_config r) (userdata (m_config r))
      = \<lparr>u_len = int (length b), u_data = Some b\<rparr>"
    using assms by (auto simp: snap_ok_def)
  then show ?thesis by (simp add: live_def snap_entry_def Let_def)
qed

lemma take_snapshot_spec:
  assumes ring: "wf_ring r" and k: "1 \<le> k" "k \<le> l_size (m_log r)"
    and app: "l_applied (m_log r) = l_first (m_log r) + k"
  defines "s \<equiv> r\<lparr>m_log := (m_log r)\<lparr>l_first := l_first (m_log r) + (k - 1),
                                   l_size := l_size (m_log r) - (k - 1)\<rparr>\<rparr>"
  shows "take_snapshot k r
           = Some (put_entry (logFirstIndex s) (snap_entry r (entry_at r (logFirstIndex s))) s)"
    and "wf_ring s" and "the_log s = drop (nat (k - 1)) (the_log r)"
proof -
  have f: "0 \<le> logFirstIndex s" "logFirstIndex s = l_first (m_log r) + (k - 1)"
    using ring k by (simp_all add: s_def logFirstIndex_def wf_ring_def)
  show wf: "wf_ring s" using ring k by (simp add: s_def wf_ring_def)
  have "entry_at s i = entry_at r i" for i by (rule entry_at_cong) (simp_all add: s_def)
  moreover have "m_config s = m_config r" by (simp add: s_def)
  moreover have "l_applied (m_log s) = l_applied (m_log r)" "l_first (m_log s) = l_first (m_log r) + (k - 1)"
    by (simp_all add: s_def)
  ultimately show "take_snapshot k r
      = Some (put_entry (logFirstIndex s) (snap_entry r (entry_at r (logFirstIndex s))) s)"
    unfolding take_snapshot_def Let_def s_def [symmetric]
    using app by (simp add: log_at_pos [OF wf f(1)] log_set_pos [OF wf f(1)] snap_entry_def Let_def)
  show "the_log s = drop (nat (k - 1)) (the_log r)"
    unfolding s_def using k by (intro the_log_advance) simp_all
qed


text \<open>The members an operation on the log leaves alone.\<close>

definition log_only :: "'d raft \<Rightarrow> 'd raft \<Rightarrow> bool" where
  "log_only r r' \<longleftrightarrow> m_config r' = m_config r \<and> length (m_peers r') = length (m_peers r) \<and>
     m_me r' = m_me r \<and> m_term r' = m_term r \<and> l_acked (m_log r') = l_acked (m_log r) \<and>
     l_applied (m_log r') = l_applied (m_log r) \<and> l_newentry (m_log r') = l_newentry (m_log r)"

lemma log_only_trans [trans]: "log_only r s \<Longrightarrow> log_only s t \<Longrightarrow> log_only r t"
  by (simp add: log_only_def)

lemma log_only_refl [simp]: "log_only r r"
  by (simp add: log_only_def)

lemma log_only_put [simp]: "log_only r (put_entry i e r)"
  by (simp add: log_only_def)

lemma freed_range_the_log:
  assumes wf: "wf_ring r" and fr: "freed_range (logFirstIndex r) c b r r'"
    and "logFirstIndex r \<le> c" and "c \<le> logLastIndex r + 1"
  shows "drop (nat (c - logFirstIndex r)) (the_log r') = drop (nat (c - logFirstIndex r)) (the_log r)"
    and "length (the_log r') = length (the_log r)"
proof -
  note same = freed_range_same [OF fr]
  have idx: "logFirstIndex r' = logFirstIndex r" "logLastIndex r' = logLastIndex r"
    by (simp_all add: logFirstIndex_def logLastIndex_def same)
  then show len: "length (the_log r') = length (the_log r)" by (simp add: the_log_def)
  show "drop (nat (c - logFirstIndex r)) (the_log r') = drop (nat (c - logFirstIndex r)) (the_log r)"
  proof (rule nth_equalityI)
    fix k assume k: "k < length (drop (nat (c - logFirstIndex r)) (the_log r'))"
    let ?i = "c + int k"
    have "?i \<le> logLastIndex r" using k assms(3) by (simp add: the_log_def idx)
    then have "entry_at r' ?i = entry_at r ?i"
      using fr wf unfolding freed_range_def wf_ring_def logFirstIndex_def logLastIndex_def
      by (auto)
    moreover have "logFirstIndex r + int (nat (c - logFirstIndex r) + k) = ?i" using assms(3) by simp
    ultimately show "drop (nat (c - logFirstIndex r)) (the_log r') ! k
        = drop (nat (c - logFirstIndex r)) (the_log r) ! k"
      using k assms(3) by (simp add: nth_the_log len idx)
  qed (simp add: len)
qed

lemma compact_spec:
  assumes wf: "wf_log r" and peers: "peers_ok r" and snap: "snap_ok r" and full: "logIsFull r"
  defines "k \<equiv> l_applied (m_log r) - l_first (m_log r)"
  shows "\<exists>r'. compact r = Some (k, r') \<and> the_log r' = compacted_log r k \<and> wf_ring r' \<and>
    log_only r r' \<and> l_first (m_log r') = l_first (m_log r) + max 0 (k - 1) \<and>
    l_size (m_log r') = l_size (m_log r) - max 0 (k - 1)"
proof -
  let ?n = "log_len (m_config r)" and ?f = "l_first (m_log r)"
  have ring: "wf_ring r" and k: "0 \<le> k" "k \<le> ?n" and f: "0 \<le> ?f" and n: "0 < ?n"
    and size: "l_size (m_log r) = ?n"
    using wf full by (auto simp: wf_log_def wf_ring_def k_def logIsFull_def)
  have live: "live (entry_at r j)" if "?f \<le> j" "j < ?f + k" for j
    using wf that k(2) size
    by (auto simp: wf_log_def the_log_def logFirstIndex_def logLastIndex_def)
  have todo: "[?f..l_applied (m_log r) - 1] = [?f..?f + int (nat k) - 1]" using k(1) by (simp add: k_def)
  have count: "int (length [?f..l_applied (m_log r) - 1]) = k" using k(1) by (simp add: k_def)
  obtain r1 where r1: "for_each (free_slot True) [?f..l_applied (m_log r) - 1] r = Some r1"
    and fr: "freed_range ?f (?f + k) True r r1"
    using free_loop [OF ring f, of "nat k" True] k live unfolding todo by auto
  show ?thesis
  proof (cases "k = 0")
    case True
    with todo have nil: "[?f..l_applied (m_log r) - 1] = []" by simp
    then have "compact r = Some (0, r)" by (simp add: compact_def Let_def)
    then show ?thesis using ring by (simp add: True compacted_log_def)
  next
    case False
    with k(1) have k1: "1 \<le> k" by simp
    note same = freed_range_same [OF fr]
    have ring1: "wf_ring r1" by (rule freed_range_wf [OF fr ring])
    define s where "s = r1\<lparr>m_log := (m_log r1)\<lparr>l_first := l_first (m_log r1) + (k - 1),
                                             l_size := l_size (m_log r1) - (k - 1)\<rparr>\<rparr>"
    define e where "e = snap_entry r1 (entry_at r1 (logFirstIndex s))"
    have pre: "k \<le> l_size (m_log r1)" "l_applied (m_log r1) = l_first (m_log r1) + k"
      using k(2) size by (simp_all add: same k_def)
    have shot: "take_snapshot k r1 = Some (put_entry (logFirstIndex s) e s)" and ring_s: "wf_ring s"
      and log_s: "the_log s = drop (nat (k - 1)) (the_log r1)"
      using take_snapshot_spec [OF ring1 k1 pre] by (simp_all add: s_def e_def)
    let ?r2 = "put_entry (logFirstIndex s) e s"
    have s_same: "m_config s = m_config r" "m_peers s = m_peers r" "m_me s = m_me r" "m_term s = m_term r"
      "l_acked (m_log s) = l_acked (m_log r)" "l_applied (m_log s) = l_applied (m_log r)"
      "l_newentry (m_log s) = l_newentry (m_log r)" "l_first (m_log s) = ?f + (k - 1)"
      "l_size (m_log s) = ?n - (k - 1)"
      by (simp_all add: s_def same size)
    have "peers_ok ?r2" using peers by (simp add: peers_ok_def s_same)
    from reset_behind_peers [OF this] obtain ps where
      loop: "reset_behind ?r2 = Some (?r2\<lparr>m_peers := ps\<rparr>)" and ps: "length ps = length (m_peers r)"
      by (auto simp: s_same)
    let ?r' = "?r2\<lparr>m_peers := ps\<rparr>"
    have run: "compact r = Some (k, ?r')"
      using r1 False shot loop unfolding compact_def Let_def count by simp
    have "the_log ?r' = the_log ?r2" by (rule the_log_cong) simp_all
    also have "\<dots> = (the_log s)[0 := e]"
      using the_log_put_inside [OF ring_s, of "logFirstIndex s" e] k(2)
      by (simp add: logFirstIndex_def logLastIndex_def s_same)
    also have "\<dots> = e # drop (nat k) (the_log r1)"
    proof -
      have "length (the_log r1) = nat ?n"
        using length_the_log [OF ring1] by (simp add: same size)
      then obtain x xs where "drop (nat (k - 1)) (the_log r1) = x # xs"
        using k1 k(2) by (cases "drop (nat (k - 1)) (the_log r1)") auto
      moreover from this have "drop (Suc (nat (k - 1))) (the_log r1) = xs"
        by (metis drop_Suc list.sel(3) tl_drop)
      moreover have "Suc (nat (k - 1)) = nat k" using k1 by simp
      ultimately show ?thesis by (simp add: log_s)
    qed
    also have "drop (nat k) (the_log r1) = drop (nat k) (the_log r)"
      using freed_range_the_log(1) [of r "?f + k" True r1] ring fr k size
      by (simp add: logFirstIndex_def logLastIndex_def)
    also have e_eq: "e = snap_entry r (the_log r ! nat (k - 1))"
    proof -
      have "nat (k - 1) < length (the_log r)"
        using k1 k(2) by (simp add: length_the_log [OF ring] size)
      then have "the_log r ! nat (k - 1) = entry_at r (?f + (k - 1))"
        using k1 by (simp add: nth_the_log logFirstIndex_def)
      moreover have "entry_at r1 (?f + (k - 1)) = freed True (entry_at r (?f + (k - 1)))"
        using fr k1 by (simp add: freed_range_def)
      ultimately show ?thesis
        by (simp add: e_def logFirstIndex_def s_same snap_entry_def same freed_def Let_def)
    qed
    finally have "the_log ?r' = compacted_log r k" using False by (simp add: compacted_log_def e_eq)
    moreover have "wf_ring ?r'" using ring_s by (simp add: wf_ring_def put_entry_def)
    moreover have "log_only r ?r'" by (simp add: log_only_def s_same ps)
    ultimately show ?thesis using run k1 by (simp add: s_same size)
  qed
qed


lemma live_compacted:
  assumes "snap_ok r" and "\<forall>e \<in> set (the_log r). live e"
  shows "\<forall>e \<in> set (compacted_log r k). live e"
  using assms live_snap_entry [OF assms(1)] by (auto simp: compacted_log_def dest: in_set_dropD)

lemma compact_wf:
  assumes "wf_log r" and "peers_ok r" and "snap_ok r" and "logIsFull r" and "compact r = Some (n, r')"
  shows "wf_log r'"
  using compact_spec [OF assms(1-4)] assms(5) live_compacted [OF assms(3)] assms(1,4)
  by (auto simp: wf_log_def log_only_def logIsFull_def wf_ring_def)

text \<open>Emptying the log before a snapshot is installed.\<close>

lemma restore_spec:
  assumes wf: "wf_log r" and e: "live e" "e_snapshot e" and i: "-1 \<le> i"
  shows "\<exists>r'. restore i e r = Some (True, entry_new, r') \<and> wf_log r' \<and> the_log r' = [e] \<and>
    l_first (m_log r') = i + 1 \<and> l_applied (m_log r') = i + 2 \<and>
    l_acked (m_log r') = l_acked (m_log r) \<and>
    m_config r' = (m_config r)\<lparr>userdata :=
      applier (m_config r) (userdata (m_config r)) (e_update e) True\<rparr>"
proof -
  have ring: "wf_ring r" and f: "0 \<le> l_first (m_log r)" and n: "0 < log_len (m_config r)"
    and size: "0 \<le> l_size (m_log r)" "l_size (m_log r) \<le> log_len (m_config r)"
    using wf by (auto simp: wf_log_def wf_ring_def)
  have range: "[logFirstIndex r..logLastIndex r]
      = [l_first (m_log r)..l_first (m_log r) + int (nat (l_size (m_log r))) - 1]"
    using size by (simp add: logFirstIndex_def logLastIndex_def)
  have "live (entry_at r j)" if "l_first (m_log r) \<le> j" "j < l_first (m_log r) + l_size (m_log r)" for j
    using wf that by (auto simp: wf_log_def the_log_def logFirstIndex_def logLastIndex_def)
  then obtain r1 where r1: "for_each (free_slot False) [logFirstIndex r..logLastIndex r] r = Some r1"
    and fr: "freed_range (l_first (m_log r)) (l_first (m_log r) + l_size (m_log r)) False r r1"
    using free_loop [OF ring f, of "nat (l_size (m_log r))" False] size unfolding range by auto
  note same = freed_range_same [OF fr]
  let ?r1 = "r1\<lparr>m_log := (m_log r1)\<lparr>l_first := i + 1, l_size := 1\<rparr>\<rparr>"
  have ring1: "wf_ring ?r1" using freed_range_wf [OF fr ring] i n by (simp add: wf_ring_def same)
  let ?r2 = "put_entry (i + 1) e ?r1"
  have set: "log_set (i + 1) e ?r1 = Some ?r2" using i by (intro log_set_pos [OF ring1]) simp
  have "the_log ?r2 = (the_log ?r1)[0 := e]"
    using the_log_put_inside [OF ring1, of "i + 1" e] by (simp add: logFirstIndex_def logLastIndex_def)
  also have "the_log ?r1 = [entry_at ?r1 (i + 1)]"
  proof -
    have "logFirstIndex ?r1 = i + 1" "logLastIndex ?r1 = i + 1"
      by (simp_all add: logFirstIndex_def logLastIndex_def)
    then show ?thesis unfolding the_log_def by simp
  qed
  finally have log: "the_log ?r2 = [e]" by simp
  let ?r3 = "?r2\<lparr>m_config := (m_config ?r2)
      \<lparr>userdata := applier (m_config ?r2) (userdata (m_config ?r2)) (e_update e) True\<rparr>\<rparr>"
  let ?r4 = "?r3\<lparr>m_log := (m_log ?r3)\<lparr>l_applied := i + 1 + 1\<rparr>\<rparr>"
  have "restore i e r = Some (True, entry_new, ?r4)"
    using e r1 set by (auto simp: restore_def live_def Let_def)
  moreover have "the_log ?r4 = [e]"
    unfolding log [symmetric] by (rule the_log_cong) simp_all
  moreover have "wf_ring ?r4" using ring1 by (simp add: wf_ring_def put_entry_def)
  ultimately show ?thesis using e(1) i n by (simp add: wf_log_def same)
qed

section \<open>Appending\<close>

text \<open>
  \<^verbatim>\<open>append\<close> when there is room: a new last entry; the same entry again in its place; or, when
  the terms differ, everything from that place on is dropped and the entry waits in its slot.
\<close>

definition room_for :: "int \<Rightarrow> 'd raft \<Rightarrow> bool" where
  "room_for i r \<longleftrightarrow> \<not> (i = logLastIndex r \<and> logIsFull r)"

definition appended :: "int \<Rightarrow> entry \<Rightarrow> 'd raft \<Rightarrow> entry list" where
  "appended i e r =
     (let k = nat (i + 1 - logFirstIndex r) in
      if i = logLastIndex r then the_log r @ [e]
      else if e_term (the_log r ! k) = e_term e then (the_log r)[k := e]
      else take k (the_log r))"

lemma appendable_spec:
  assumes wf: "wf_log r" and i: "-1 \<le> i"
  shows "appendable i t r = Some
    ((if logFirstIndex r = 0 then -1 else logFirstIndex r) \<le> i \<and> i \<le> logLastIndex r \<and>
     (i \<noteq> -1 \<longrightarrow> e_term (entry_at r i) = t))"
proof -
  have "wf_ring r" and "(if logFirstIndex r = 0 then -1 else logFirstIndex r) \<le> logLastIndex r"
    using wf by (auto simp: wf_log_def wf_ring_def logFirstIndex_def logLastIndex_def)
  then show ?thesis
    using i by (auto simp: appendable_def inRange_def Let_def log_at_pos)
qed


lemma append_log_unfold:
  assumes "live e" and "\<not> e_snapshot e" and "appendable i t r = Some True"
  shows "append_log i t e r =
    (if i = logLastIndex r \<and> logIsFull r
     then compact r \<bind> (\<lambda>(n, r'). if n \<noteq> 0 then place_entry i e r' else Some (False, e, r'))
     else place_entry i e r)"
  using assms by (auto simp: append_log_def live_def)

lemma live_update: "\<forall>x \<in> set xs. live x \<Longrightarrow> live e \<Longrightarrow> \<forall>x \<in> set (xs[k := e]). live x"
  using set_update_subset_insert [of xs k e] by blast

lemma place_entry_grow:
  assumes ring: "wf_ring r" and i: "i = logLastIndex r" "-1 \<le> i" and room: "l_size (m_log r) < log_len (m_config r)"
  shows "\<exists>r'. place_entry i e r = Some (True, entry_new, r') \<and> wf_ring r' \<and>
    the_log r' = the_log r @ [e] \<and> log_only r r' \<and> l_first (m_log r') = l_first (m_log r) \<and>
    l_size (m_log r') = l_size (m_log r) + 1"
proof -
  let ?r = "r\<lparr>m_log := (m_log r)\<lparr>l_size := l_size (m_log r) + 1\<rparr>\<rparr>"
  have ring1: "wf_ring ?r" using ring room by (simp add: wf_ring_def)
  have size: "0 \<le> l_size (m_log r)" using ring by (simp add: wf_ring_def)
  have "place_entry i e r = Some (True, entry_new, put_entry (i + 1) e ?r)"
    using i log_at_pos [OF ring, of "i + 1"] log_set_pos [OF ring1, of "i + 1" e]
    by (simp add: place_entry_def)
  moreover have "the_log (put_entry (i + 1) e ?r) = (the_log ?r)[nat (i + 1 - logFirstIndex ?r) := e]"
    using i(1) size
    by (intro the_log_put_inside [OF ring1]) (simp_all add: logFirstIndex_def logLastIndex_def)
  moreover have "the_log ?r = the_log r @ [entry_at r (i + 1)]"
    using the_log_grow [OF size] i(1) by simp
  moreover have "nat (i + 1 - logFirstIndex ?r) = length (the_log r)"
    using i(1) by (simp add: length_the_log [OF ring] logFirstIndex_def logLastIndex_def)
  moreover have "log_only r (put_entry (i + 1) e ?r)" by (simp add: log_only_def)
  ultimately show ?thesis using ring1 by simp
qed

lemma place_entry_inside:
  assumes wf: "wf_log r" and i: "logFirstIndex r - 1 \<le> i" "i < logLastIndex r"
    and first: "logFirstIndex r = 0 \<or> logFirstIndex r \<le> i" and e: "live e"
  shows "\<exists>r'. place_entry i e r = Some (True, entry_new, r') \<and> wf_log r' \<and>
    the_log r' = appended i e r \<and> log_only r r' \<and> l_first (m_log r') = l_first (m_log r)"
proof -
  let ?k = "nat (i + 1 - logFirstIndex r)" and ?old = "entry_at r (i + 1)"
  let ?cut = "r\<lparr>m_log := (m_log r)\<lparr>l_size := i + 1 - l_first (m_log r)\<rparr>\<rparr>"
  have ring: "wf_ring r" and f: "0 \<le> logFirstIndex r" and lives: "\<forall>e \<in> set (the_log r). live e"
    using wf by (auto simp: wf_log_def wf_ring_def logFirstIndex_def)
  have k: "?k < length (the_log r)" using i by (simp add: the_log_def)
  then have old: "the_log r ! ?k = ?old" using i by (simp add: nth_the_log)
  then have "live ?old" using lives k by (metis nth_mem)
  then have data: "u_data (e_update ?old) \<noteq> None" by (auto simp: live_def)
  have ring1: "wf_ring ?cut"
    using ring i by (auto simp: wf_ring_def logFirstIndex_def logLastIndex_def)
  show ?thesis
  proof (cases "e_term ?old = e_term e")
    case True
    let ?r' = "put_entry (i + 1) e r"
    have "place_entry i e r = Some (True, entry_new, ?r')"
      using i f data True log_at_pos [OF ring, of "i + 1"] log_set_pos [OF ring, of "i + 1" e]
      by (simp add: place_entry_def)
    moreover have log: "the_log ?r' = (the_log r)[?k := e]"
      using i by (intro the_log_put_inside [OF ring]) simp_all
    moreover have "wf_log ?r'"
      using wf live_update [OF lives e] by (simp add: wf_log_def log)
    moreover have "appended i e r = (the_log r)[?k := e]"
      using i True by (simp add: appended_def Let_def old)
    ultimately show ?thesis by simp
  next
    case False
    let ?r' = "put_entry (i + 1) e ?cut"
    have "place_entry i e r = Some (True, entry_new, ?r')"
      using i f data False log_at_pos [OF ring, of "i + 1"] log_set_pos [OF ring1, of "i + 1" e]
      by (simp add: place_entry_def Let_def)
    moreover have "the_log ?r' = the_log ?cut"
      using i ring by (intro the_log_put_outside [OF ring1])
        (simp_all add: logFirstIndex_def logLastIndex_def wf_ring_def)
    moreover have "the_log ?cut = take ?k (the_log r)"
      using the_log_shrink [of "i + 1 - l_first (m_log r)" r] i
      by (simp add: logFirstIndex_def logLastIndex_def)
    moreover have "appended i e r = take ?k (the_log r)"
      using i False by (simp add: appended_def Let_def old)
    moreover have "wf_log ?r'"
      using wf lives i first ring1 calculation(2,3)
      by (auto simp: wf_log_def logFirstIndex_def dest: in_set_takeD)
    moreover have "log_only r ?r'" by (simp add: log_only_def)
    ultimately show ?thesis by simp
  qed
qed


text \<open>The check of the previous entry that \<^verbatim>\<open>append\<close> makes.\<close>

definition prev_ok :: "int \<Rightarrow> int \<Rightarrow> 'd raft \<Rightarrow> bool" where
  "prev_ok i t r \<longleftrightarrow> (if logFirstIndex r = 0 then -1 else logFirstIndex r) \<le> i \<and> i \<le> logLastIndex r \<and>
     (i \<noteq> -1 \<longrightarrow> e_term (entry_at r i) = t)"

lemma place_entry_spec:
  assumes wf: "wf_log r" and i: "-1 \<le> i" and prev: "prev_ok i t r" and room: "room_for i r" and e: "live e"
  shows "\<exists>r'. place_entry i e r = Some (True, entry_new, r') \<and> wf_log r' \<and>
    the_log r' = appended i e r \<and> log_only r r' \<and> l_first (m_log r') = l_first (m_log r)"
proof (cases "i = logLastIndex r")
  case True
  have ring: "wf_ring r" and lives: "\<forall>e \<in> set (the_log r). live e" using wf by (simp_all add: wf_log_def)
  have "l_size (m_log r) < log_len (m_config r)"
    using room True ring by (auto simp: room_for_def logIsFull_def wf_ring_def)
  from place_entry_grow [OF ring True i this, of e] obtain r' where
    r': "place_entry i e r = Some (True, entry_new, r')" "wf_ring r'" "the_log r' = the_log r @ [e]"
      "log_only r r'" "l_first (m_log r') = l_first (m_log r)" "l_size (m_log r') = l_size (m_log r) + 1"
    by blast
  moreover have "wf_log r'" using r' wf lives e by (auto simp: wf_log_def log_only_def wf_ring_def)
  ultimately show ?thesis by (simp add: appended_def True)
next
  case False
  with prev have "i < logLastIndex r" "logFirstIndex r - 1 \<le> i" "logFirstIndex r = 0 \<or> logFirstIndex r \<le> i"
    by (auto simp: prev_ok_def split: if_splits)
  then show ?thesis using place_entry_inside [OF wf _ _ _ e] by simp
qed

lemma append_log_spec:
  assumes wf: "wf_log r" and peers: "peers_ok r" and snap: "snap_ok r"
    and e: "live e" "\<not> e_snapshot e" and i: "-1 \<le> i"
    and not_one: "\<not> (\<not> room_for i r \<and> l_applied (m_log r) = l_first (m_log r) + 1)"
  defines "k \<equiv> l_applied (m_log r) - l_first (m_log r)"
  shows "\<exists>ok e' r'. append_log i t e r = Some (ok, e', r') \<and> wf_log r' \<and> log_only r r' \<and>
    (ok \<longleftrightarrow> prev_ok i t r \<and> (room_for i r \<or> 0 < k)) \<and>
    (\<not> ok \<longrightarrow> the_log r' = the_log r \<and> e' = e) \<and>
    (ok \<longrightarrow> e' = entry_new \<and>
       the_log r' = (if room_for i r then appended i e r else compacted_log r k @ [e]))"
proof -
  have check: "appendable i t r = Some (prev_ok i t r)"
    using appendable_spec [OF wf i] by (simp add: prev_ok_def)
  show ?thesis
  proof (cases "prev_ok i t r")
    case False
    with check e have "append_log i t e r = Some (False, e, r)" by (auto simp: append_log_def live_def)
    with False wf show ?thesis
      by (intro exI [of _ False] exI [of _ e] exI [of _ r]) simp
  next
    case True
    with check have ok: "appendable i t r = Some True" by simp
    show ?thesis
    proof (cases "room_for i r")
      case room: True
      then have "append_log i t e r = place_entry i e r"
        using append_log_unfold [OF e ok] by (auto simp: room_for_def)
      with place_entry_spec [OF wf i True room e(1)] True room show ?thesis by auto
    next
      case full: False
      then have at: "i = logLastIndex r" "logIsFull r" by (simp_all add: room_for_def)
      from compact_spec [OF wf peers snap at(2)] obtain r1 where
        c: "compact r = Some (k, r1)" "the_log r1 = compacted_log r k" "wf_ring r1" "log_only r r1"
          "l_first (m_log r1) = l_first (m_log r) + max 0 (k - 1)"
          "l_size (m_log r1) = l_size (m_log r) - max 0 (k - 1)"
        unfolding k_def by blast
      have wf1: "wf_log r1" by (rule compact_wf [OF wf peers snap at(2) c(1)])
      show ?thesis
      proof (cases "k = 0")
        case True
        with c have "append_log i t e r = Some (False, e, r1)"
          using append_log_unfold [OF e ok] at by simp
        with True c wf1 full show ?thesis
          by (intro exI [of _ False] exI [of _ e] exI [of _ r1]) (simp add: compacted_log_def)
      next
        case False
        have "0 \<le> k" using wf by (simp add: wf_log_def k_def)
        with False not_one full have k2: "2 \<le> k" by (auto simp: k_def)
        with at(1) c(5,6) have last: "i = logLastIndex r1" by (simp add: logLastIndex_def)
        have room1: "l_size (m_log r1) < log_len (m_config r1)"
          using at(2) c(4,6) k2 by (simp add: logIsFull_def log_only_def)
        from place_entry_grow [OF c(3) last i room1, of e] obtain r2 where
          r2: "place_entry i e r1 = Some (True, entry_new, r2)" "wf_ring r2" "the_log r2 = the_log r1 @ [e]"
            "log_only r1 r2" "l_first (m_log r2) = l_first (m_log r1)"
            "l_size (m_log r2) = l_size (m_log r1) + 1" by blast
        have "append_log i t e r = Some (True, entry_new, r2)"
          using append_log_unfold [OF e ok] at c(1) False r2(1) by simp
        moreover have "wf_log r2"
          using r2 wf1 e(1) by (auto simp: wf_log_def log_only_def wf_ring_def)
        moreover have "log_only r r2" using c(4) r2(4) by (rule log_only_trans)
        ultimately show ?thesis using True full c(2) r2(3) k2
          by (intro exI [of _ True] exI [of _ entry_new] exI [of _ r2]) simp
      qed
    qed
  qed
qed

section \<open>Emitting\<close>

text \<open>Sending, and the timer, leave the log and the configuration alone.\<close>

definition same_log :: "'d raft \<Rightarrow> 'd raft \<Rightarrow> bool" where
  "same_log r r' \<longleftrightarrow> m_config r' = m_config r \<and> m_log r' = m_log r \<and>
     length (m_peers r') = length (m_peers r) \<and> m_me r' = m_me r"

lemma same_log_trans [trans]: "same_log r s \<Longrightarrow> same_log s t \<Longrightarrow> same_log r t"
  by (simp add: same_log_def)

lemma same_log_refl [simp]: "same_log r r"
  by (simp add: same_log_def)

lemma same_log_for_each:
  "for_each f is r = Some r' \<Longrightarrow> (\<And>i t t'. f i t = Some t' \<Longrightarrow> same_log t t') \<Longrightarrow> same_log r r'"
  by (erule for_each_mono) (auto intro: same_log_trans)

lemma same_log_set_peer [simp]: "same_log r (set_peer i p r)"
  by (simp add: same_log_def set_peer_def)

lemma same_log_modify_peer: "modify_peer i f r = Some r' \<Longrightarrow> same_log r r'"
  by (auto simp: modify_peer_def split: Option.bind_split_asm)

lemma same_log_send: "send d m len r = Some r' \<Longrightarrow> same_log r r'"
  by (auto simp: send_def abort_simps same_log_def)

lemma same_log_beat_one: "beat_one env d r = Some r' \<Longrightarrow> same_log r r'"
  unfolding beat_one_def Let_def assert_that_def
  by (auto split: if_split_asm Option.bind_split_asm
      intro: same_log_trans [OF same_log_set_peer same_log_send])

lemma same_log_beat: "beat env d r = Some r' \<Longrightarrow> same_log r r'"
  unfolding beat_def
  by (auto split: if_splits elim: same_log_beat_one)
    (erule same_log_for_each, auto simp: abort_simps split: if_splits elim: same_log_beat_one)

lemma same_log_resetTimer: "resetTimer env r = Some r' \<Longrightarrow> same_log r r'"
  by (auto simp: resetTimer_def randBetweenTime_def abort_simps same_log_def split: if_splits)

lemma same_log_wf: "same_log r r' \<Longrightarrow> wf_log r' = wf_log r \<and> the_log r' = the_log r"
  using the_log_cong [of r' r] by (auto simp: same_log_def wf_log_def wf_ring_def)


text \<open>The room \<^verbatim>\<open>emit\<close> makes: how many entries were compacted, if the log was full.\<close>

definition emit_log :: "bytes \<Rightarrow> 'd raft \<Rightarrow> entry list" where
  "emit_log data r =
     (let k = l_applied (m_log r) - l_first (m_log r);
          kept = (if logIsFull r then compacted_log r k else the_log r) in
      kept @ [\<lparr>e_term = m_term r, e_snapshot = e_snapshot (entry_at r (logLastIndex r + 1)),
               e_update = \<lparr>u_len = int (length data), u_data = Some data\<rparr>,
               e_bytes = int (length data)\<rparr>])"

lemma emit_spec:
  assumes wf: "wf_log r" and peers: "peers_ok r" and snap: "snap_ok r"
    and run: "emit env data r = Some (index, r')"
  defines "k \<equiv> l_applied (m_log r) - l_first (m_log r)"
  shows "wf_log r' \<and> m_role r = Leader \<and> m_config r' = m_config r \<and>
    length (m_peers r') = length (m_peers r) \<and>
    (if logIsFull r \<and> k \<le> 1 then index = -1 \<and> the_log r' = compacted_log r k
     else index = logLastIndex r + 1 \<and> logLastIndex r' = index \<and>
       butlast (the_log r') = (if logIsFull r then compacted_log r k else the_log r) \<and>
       the_log r' \<noteq> [] \<and> e_term (last (the_log r')) = m_term r \<and>
       e_update (last (the_log r')) = \<lparr>u_len = int (length data), u_data = Some data\<rparr>)"
proof -
  have lead: "m_leaderId r = m_me r" "m_role r = Leader" using run by (auto simp: emit_def abort_simps)
  obtain room r1 where 1: "(if logIsFull r then compact r \<bind> (\<lambda>(c, r'). Some (c > 1, r'))
      else Some (True, r)) = Some (room, r1)"
    using run by (auto simp: emit_def abort_simps)
  have "wf_log r1 \<and> log_only r r1 \<and> logLastIndex r1 = logLastIndex r \<and>
      room = (\<not> logIsFull r \<or> 1 < k) \<and>
      the_log r1 = (if logIsFull r then compacted_log r k else the_log r) \<and>
      (room \<longrightarrow> l_size (m_log r1) < log_len (m_config r1))"
  proof (cases "logIsFull r")
    case True
    from compact_spec [OF wf peers snap True] obtain s where
      c: "compact r = Some (k, s)" "the_log s = compacted_log r k" "log_only r s"
        "l_first (m_log s) = l_first (m_log r) + max 0 (k - 1)"
        "l_size (m_log s) = l_size (m_log r) - max 0 (k - 1)"
      unfolding k_def by blast
    with True 1 have "r1 = s" "room = (1 < k)" by simp_all
    with c True compact_wf [OF wf peers snap True c(1)] show ?thesis
      by (simp add: logLastIndex_def logIsFull_def log_only_def)
  next
    case False
    with 1 wf show ?thesis by (auto simp: wf_log_def wf_ring_def logIsFull_def)
  qed
  then have r1: "wf_log r1" "log_only r r1" "logLastIndex r1 = logLastIndex r"
    and room: "room = (\<not> logIsFull r \<or> 1 < k)"
    and log1: "the_log r1 = (if logIsFull r then compacted_log r k else the_log r)"
    and space: "room \<Longrightarrow> l_size (m_log r1) < log_len (m_config r1)" by blast+
  show ?thesis
  proof (cases room)
    case False
    with run 1 have "index = -1" "r' = r1" by (auto simp: emit_def abort_simps)
    with False room r1 log1 lead show ?thesis by (auto simp: log_only_def)
  next
    case True
    let ?i = "logLastIndex r1 + 1"
    have ring1: "wf_ring r1" using r1(1) by (simp add: wf_log_def)
    then have pos: "0 \<le> ?i" and s1: "0 \<le> l_size (m_log r1)"
      by (simp_all add: wf_ring_def logLastIndex_def)
    let ?e = "(entry_at r1 ?i)\<lparr>e_term := m_term r1, e_bytes := int (length data),
                  e_update := \<lparr>u_len = int (length data), u_data = Some data\<rparr>\<rparr>"
    let ?r2 = "put_entry ?i ?e r1"
    let ?r3 = "?r2\<lparr>m_log := (m_log ?r2)\<lparr>l_size := l_size (m_log ?r2) + 1\<rparr>\<rparr>"
    from run 1 True lead obtain r4 where b: "beat env NOBODY ?r3 = Some r4"
      and t: "resetTimer env r4 = Some r'" and index: "index = ?i"
      using log_at_pos [OF ring1 pos] log_set_pos [OF ring1 pos]
      by (auto simp: emit_def abort_simps Let_def)
    have same: "same_log ?r3 r'" using same_log_beat [OF b] same_log_resetTimer [OF t] by (rule same_log_trans)
    have log2: "the_log ?r2 = the_log r1"
      using space True by (intro the_log_put_outside [OF ring1]) (simp_all add: logFirstIndex_def logLastIndex_def)
    have "the_log ?r3 = the_log ?r2 @ [entry_at ?r2 (logLastIndex ?r2 + 1)]"
      using s1 by (intro the_log_grow) simp
    also have "entry_at ?r2 (logLastIndex ?r2 + 1) = ?e"
      using entry_at_put [OF ring1, of ?i ?i ?e] ring1 by (simp add: wf_ring_def)
    finally have log3: "the_log ?r3 = the_log r1 @ [?e]" by (simp add: log2)
    have "live ?e" by (simp add: live_def)
    then have "wf_log ?r3" using r1(1) space True log3
      by (auto simp: wf_log_def wf_ring_def put_entry_def)
    then have "wf_log r'" and log': "the_log r' = the_log r1 @ [?e]"
      using same_log_wf [OF same] log3 by simp_all
    moreover have "logLastIndex r' = ?i"
      using same by (simp add: same_log_def logLastIndex_def)
    ultimately show ?thesis using True room lead index r1 log1 same
      by (auto simp: log_only_def same_log_def)
  qed
qed

section \<open>Applying\<close>

lemma apply_one_spec:
  assumes wf: "wf_log r" and "l_applied (m_log r) \<le> logLastIndex r"
  defines "e \<equiv> entry_at r (l_applied (m_log r))"
  shows "apply_one r = Some (r\<lparr>m_config := (m_config r)
      \<lparr>userdata := applier (m_config r) (userdata (m_config r)) (e_update e) False\<rparr>,
    m_log := (m_log r)\<lparr>l_applied := l_applied (m_log r) + 1\<rparr>\<rparr>)"
proof -
  have "e \<in> set (the_log r)"
    using assms by (auto simp: e_def the_log_def wf_log_def logFirstIndex_def)
  then have "live e" using wf by (simp add: wf_log_def)
  moreover have "log_at (l_applied (m_log r)) r = Some e"
    unfolding e_def using wf by (intro log_at_pos) (auto simp: wf_log_def wf_ring_def)
  ultimately show ?thesis by (auto simp: apply_one_def live_def Let_def)
qed

text \<open>The updates of the entries with indices from \<open>a\<close> to before \<open>b\<close>.\<close>

definition updates :: "'d raft \<Rightarrow> int \<Rightarrow> int \<Rightarrow> update list" where
  "updates r a b = map (\<lambda>i. e_update (entry_at r i)) [a..b - 1]"

lemma apply_loop_spec:
  assumes "wf_log r"
  defines "goal \<equiv> max (l_applied (m_log r)) (min (l_acked (m_log r)) (logLastIndex r + 1))"
  shows "apply_loop r n = Some (n + (goal - l_applied (m_log r)),
    r\<lparr>m_config := (m_config r)\<lparr>userdata := fold (\<lambda>u d. applier (m_config r) d u False)
        (updates r (l_applied (m_log r)) goal) (userdata (m_config r))\<rparr>,
      m_log := (m_log r)\<lparr>l_applied := goal\<rparr>\<rparr>)"
  using assms(1) unfolding goal_def
proof (induction r n rule: apply_loop.induct)
  case (1 r n)
  let ?a = "l_applied (m_log r)"
  let ?g = "max ?a (min (l_acked (m_log r)) (logLastIndex r + 1))"
  show ?case
  proof (cases "apply_more r")
    case False
    then have g: "?g = ?a" by (auto simp: apply_more_def)
    have "r\<lparr>m_config := (m_config r)\<lparr>userdata := userdata (m_config r)\<rparr>,
        m_log := (m_log r)\<lparr>l_applied := l_applied (m_log r)\<rparr>\<rparr> = r" by simp
    with False g show ?thesis by (simp add: apply_loop.simps [of r] updates_def)
  next
    case True
    then have le: "?a \<le> logLastIndex r" "?a < l_acked (m_log r)" by (simp_all add: apply_more_def)
    let ?r1 = "r\<lparr>m_config := (m_config r)\<lparr>userdata := applier (m_config r) (userdata (m_config r))
        (e_update (entry_at r ?a)) False\<rparr>, m_log := (m_log r)\<lparr>l_applied := ?a + 1\<rparr>\<rparr>"
    have one: "apply_one r = Some ?r1" by (rule apply_one_spec [OF "1.prems" le(1)])
    have log1: "the_log ?r1 = the_log r" by (rule the_log_cong) simp_all
    have wf1: "wf_log ?r1"
      using "1.prems" le by (auto simp: wf_log_def wf_ring_def log1 logLastIndex_def)
    have last1: "logLastIndex ?r1 = logLastIndex r" by (simp add: logLastIndex_def)
    have g1: "max (?a + 1) (min (l_acked (m_log r)) (logLastIndex r + 1)) = ?g" using le by simp
    have "[?a..?g - 1] = ?a # [?a + 1..?g - 1]" using le by (intro upto_rec1) simp
    moreover have "entry_at ?r1 = entry_at r" using entry_at_cong [of ?r1 r] by auto
    ultimately have ups: "updates r ?a ?g = e_update (entry_at r ?a) # updates ?r1 (?a + 1) ?g"
      by (simp add: updates_def)
    from "1.IH" [OF True one wf1] show ?thesis
      by (simp add: apply_loop.simps [of r] True one last1 g1 ups)
  qed
qed


section \<open>Committing\<close>

text \<open>The peers that have acknowledged \<open>n\<close> entries.\<close>

definition backers :: "int \<Rightarrow> 'd raft \<Rightarrow> int set" where
  "backers n r = {j. 0 \<le> j \<and> j < peernum_max (m_config r) \<and> j \<noteq> m_me r \<and>
     n \<le> pr_entries (p_acked (m_peers r ! nat j))}"

lemma count_loop:
  assumes "\<And>j n m. f j n = Some m \<Longrightarrow> m = (if P j then n + 1 else (n :: int))"
  shows "for_each f js n = Some m \<Longrightarrow> m = n + int (length (filter P js))"
proof (induction js arbitrary: n)
  case Nil
  then show ?case by simp
next
  case (Cons j js)
  from Cons.prems obtain k where k: "f j n = Some k" "for_each f js k = Some m"
    by (auto split: Option.bind_split_asm)
  from Cons.IH [OF k(2)] assms [OF k(1)] show ?case by simp
qed

lemma replication_step:
  assumes "(if j = me then Some n else get_peer j r \<bind>
       (\<lambda>tmp. Some (if pr_entries (p_acked tmp) \<ge> a then n + 1 else (n :: int)))) = Some m"
  shows "m = (if j \<noteq> me \<and> a \<le> pr_entries (p_acked (m_peers r ! nat j)) then n + 1 else n)"
proof (cases "j = me")
  case True
  then show ?thesis using assms by simp
next
  case False
  with assms obtain p where "get_peer j r = Some p"
    and m: "m = (if pr_entries (p_acked p) \<ge> a then n + 1 else n)"
    by (cases "get_peer j r") auto
  then have "p = m_peers r ! nat j" by (simp add: get_peer_def split: if_split_asm)
  then show ?thesis using m False by (simp only: if_True if_False simp_thms)
qed

lemma replication_backers:
  assumes "replication a r = Some n"
  shows "n = 1 + int (card (backers a r))"
proof -
  let ?P = "\<lambda>j. j \<noteq> m_me r \<and> a \<le> pr_entries (p_acked (m_peers r ! nat j))"
  have "n = 1 + int (length (filter ?P (peer_range r)))"
    by (rule count_loop [OF replication_step assms [unfolded replication_def]])
  also have "length (filter ?P (peer_range r)) = card (set (filter ?P (peer_range r)))"
    by (rule distinct_card [symmetric]) (simp add: peer_range_def)
  also have "set (filter ?P (peer_range r)) = backers a r"
    by (auto simp: backers_def peer_range_def)
  finally show ?thesis .
qed

definition committed_by_majority :: "'d raft \<Rightarrow> int \<Rightarrow> bool" where
  "committed_by_majority r a \<longleftrightarrow> m_peerNum r < 2 * (1 + int (card (backers a r)))"

text \<open>What the loops of \<^verbatim>\<open>refreshAcked\<close> may change.\<close>

definition acked_advanced :: "'d raft \<Rightarrow> 'd raft \<Rightarrow> bool" where
  "acked_advanced r r' \<longleftrightarrow> (\<exists>a. r' = r\<lparr>m_log := (m_log r)\<lparr>l_acked := a\<rparr>\<rparr> \<and> l_acked (m_log r) \<le> a \<and>
     (a \<noteq> l_acked (m_log r) \<longrightarrow> committed_by_majority r a))"

lemma committed_cong [simp]:
  "committed_by_majority (r\<lparr>m_log := l\<rparr>) a = committed_by_majority r a"
  by (simp add: committed_by_majority_def backers_def)

lemma refresh_one_advances:
  assumes "refresh_one i r = Some r'"
  shows "acked_advanced r r'"
proof (cases "r' = r")
  case True
  then show ?thesis by (auto simp: acked_advanced_def intro: exI [of _ "l_acked (m_log r)"])
next
  case False
  with assms obtain a n where "r' = r\<lparr>m_log := (m_log r)\<lparr>l_acked := a\<rparr>\<rparr>" "l_acked (m_log r) < a"
    "replication a r = Some n" "m_peerNum r < n * 2"
    unfolding refresh_one_def Let_def assert_that_def
    by (auto split: if_split_asm Option.bind_split_asm)
  then show ?thesis
    by (auto simp: acked_advanced_def committed_by_majority_def dest!: replication_backers)
qed

lemma acked_advanced_trans: "acked_advanced r s \<Longrightarrow> acked_advanced s t \<Longrightarrow> acked_advanced r t"
proof -
  assume "acked_advanced r s" and "acked_advanced s t"
  then obtain a b where s: "s = r\<lparr>m_log := (m_log r)\<lparr>l_acked := a\<rparr>\<rparr>" "l_acked (m_log r) \<le> a"
      "a \<noteq> l_acked (m_log r) \<longrightarrow> committed_by_majority r a"
    and t: "t = s\<lparr>m_log := (m_log s)\<lparr>l_acked := b\<rparr>\<rparr>" "l_acked (m_log s) \<le> b"
      "b \<noteq> l_acked (m_log s) \<longrightarrow> committed_by_majority s b"
    unfolding acked_advanced_def by blast
  have "t = r\<lparr>m_log := (m_log r)\<lparr>l_acked := b\<rparr>\<rparr>" unfolding t(1) s(1) by simp
  moreover have "l_acked (m_log r) \<le> b" using s(2) t(2) unfolding s(1) by simp
  moreover have "b \<noteq> l_acked (m_log r) \<longrightarrow> committed_by_majority r b"
    using s(3) t(3) unfolding s(1) by (cases "a = b") simp_all
  ultimately show ?thesis unfolding acked_advanced_def by blast
qed

lemma refresh_loop_advances:
  "for_each refresh_one is r = Some r' \<Longrightarrow> acked_advanced r r'"
proof (erule for_each_mono)
  show "acked_advanced t t" for t :: "'a raft"
    by (auto simp: acked_advanced_def intro: exI [of _ "l_acked (m_log t)"])
qed (blast intro: acked_advanced_trans refresh_one_advances)+


section \<open>Every operation keeps the log well-formed\<close>

lemma same_log_becomeLeader: "becomeLeader env r = Some (b, r') \<Longrightarrow> same_log r r'"
proof -
  assume *: "becomeLeader env r = Some (b, r')"
  show ?thesis
  proof (cases "r' = r")
    case False
    let ?r1 = "r\<lparr>m_role := Leader, m_leaderId := m_me r\<rparr>"
    from * False obtain r2 r3 where 1: "resetBytesAcked ?r1 = Some r2"
      and 2: "resetSilentTime NOBODY r2 = Some r3" and 3: "resetTimer env r3 = Some r'"
      by (auto simp: becomeLeader_def Let_def split: if_split_asm Option.bind_split_asm)
    have "same_log r ?r1" by (simp add: same_log_def)
    also from 1 have "same_log ?r1 r2"
      unfolding resetBytesAcked_def by (rule same_log_for_each) (rule same_log_modify_peer)
    also from 2 have "same_log r2 r3"
      unfolding resetSilentTime_def
      by (rule same_log_for_each) (auto split: if_splits intro: same_log_modify_peer)
    also note same_log_resetTimer [OF 3]
    finally show ?thesis .
  qed simp
qed

lemma same_log_claim_one: "claim_one m i r = Some r' \<Longrightarrow> same_log r r'"
  unfolding claim_one_def Let_def
  by (auto split: if_split_asm Option.bind_split_asm
      intro: same_log_trans [OF same_log_set_peer same_log_send])

lemma same_log_claim: "claim env r = Some r' \<Longrightarrow> same_log r r'"
proof -
  assume *: "claim env r = Some r'"
  then obtain b r1 where 1: "becomeLeader env (r\<lparr>m_votes := 1\<rparr>) = Some (b, r1)"
    and rest: "r' = r1 \<or> (\<exists>m. for_each (claim_one m) (peer_range r1) r1 = Some r')"
    unfolding claim_def Let_def assert_that_def
    by (auto split: if_split_asm Option.bind_split_asm prod.split_asm)
  have "same_log r (r\<lparr>m_votes := 1\<rparr>)" by (simp add: same_log_def)
  also note same_log_becomeLeader [OF 1]
  also from rest have "same_log r1 r'"
    by (auto elim: same_log_for_each intro: same_log_claim_one)
  finally show ?thesis .
qed

text \<open>\<open>log_inv\<close> is what the node keeps; the snapshot function never changes.\<close>

definition log_inv :: "'d raft \<Rightarrow> bool" where
  "log_inv r \<longleftrightarrow> wf_log r \<and> peers_ok r \<and> snap_ok r"

lemma log_inv_same: "same_log r r' \<Longrightarrow> log_inv r \<Longrightarrow> log_inv r'"
  using same_log_wf [of r r'] by (simp add: log_inv_def same_log_def peers_ok_def snap_ok_def)

lemma log_inv_acked [simp]: "log_inv (r\<lparr>m_log := (m_log r)\<lparr>l_acked := a\<rparr>\<rparr>) = log_inv r"
  using the_log_cong [of "r\<lparr>m_log := (m_log r)\<lparr>l_acked := a\<rparr>\<rparr>" r]
  by (simp add: log_inv_def wf_log_def wf_ring_def peers_ok_def snap_ok_def)

lemma log_inv_newentry [simp]: "log_inv (set_newentry e r) = log_inv r"
  using the_log_cong [of "set_newentry e r" r]
  by (simp add: set_newentry_def log_inv_def wf_log_def wf_ring_def peers_ok_def snap_ok_def)

lemma log_inv_only: "log_inv r \<Longrightarrow> wf_log r' \<Longrightarrow> log_only r r' \<Longrightarrow> log_inv r'"
  by (simp add: log_inv_def log_only_def peers_ok_def snap_ok_def)

lemma peers_snap_restore:
  assumes "log_inv r" and "restore i e r = Some (b, e', r')"
  shows "peers_ok r' \<and> snap_ok r'"
proof -
  from assms(2) obtain r1 where 1: "for_each (free_slot False) [logFirstIndex r..logLastIndex r] r = Some r1"
    and c: "m_config r' = (m_config r1)\<lparr>userdata := applier (m_config r1) (userdata (m_config r1)) (e_update e) True\<rparr>"
    and p: "m_peers r' = m_peers r1"
    by (auto simp: restore_def log_set_def Let_def split: Option.bind_split_asm)
  from 1 have "m_config r1 = m_config r \<and> m_peers r1 = m_peers r"
    by (rule for_each_inv) (auto simp: free_slot_def log_set_def split: Option.bind_split_asm)
  with assms(1) c p show ?thesis by (auto simp: log_inv_def peers_ok_def snap_ok_def)
qed

lemma refreshAcked_log_inv:
  assumes inv: "log_inv r" and run: "refreshAcked r = Some r'"
  shows "log_inv r'"
proof -
  from run obtain r1 n where 1: "for_each refresh_one (peer_range r) r = Some r1"
    and 2: "apply_log r1 = Some (n, r')"
    unfolding refreshAcked_def by (auto split: Option.bind_split_asm prod.split_asm)
  from refresh_loop_advances [OF 1] inv have inv1: "log_inv r1" by (auto simp: acked_advanced_def)
  then have wf1: "wf_log r1" by (simp add: log_inv_def)
  let ?g = "max (l_applied (m_log r1)) (min (l_acked (m_log r1)) (logLastIndex r1 + 1))"
  from 2 apply_loop_spec [OF wf1, of 0] obtain u where
    r': "r' = r1\<lparr>m_config := (m_config r1)\<lparr>userdata := u\<rparr>, m_log := (m_log r1)\<lparr>l_applied := ?g\<rparr>\<rparr>"
    by (auto simp: apply_log_def)
  have "the_log r' = the_log r1" by (rule the_log_cong) (simp_all add: r')
  then show ?thesis using inv1
    by (auto simp: r' log_inv_def wf_log_def wf_ring_def peers_ok_def snap_ok_def logLastIndex_def)
qed

lemma tick_log_inv:
  assumes inv: "log_inv r" and run: "tick env ms r = Some (b, r')"
  shows "log_inv r'"
proof -
  let ?r = "r\<lparr>m_timer := m_timer r - ms\<rparr>"
  from run obtain r2 r3 r4 n where
    1: "r2 = ?r \<or> (\<exists>r1. timeout env ?r = Some r1 \<and> resetTimer env r1 = Some r2)"
    and 2: "refreshAcked r2 = Some r3"
    and 3: "increaseSilentTime (heartbeat_ms (m_config r3)) r3 = Some (n, r4)"
    and 4: "r' = r4 \<or> r' = becomeFollower r4"
    unfolding tick_def checkIsLeaderWithMs_def Let_def
    by (auto split: if_split_asm Option.bind_split_asm prod.split_asm)
  have time: "same_log ?r r1" if "timeout env ?r = Some r1" for r1
  proof -
    from that have "beat env NOBODY ?r = Some r1 \<or> (\<exists>s. same_log ?r s \<and> claim env s = Some r1)"
      by (auto simp: timeout_def same_log_def split: role.splits)
    then show ?thesis using same_log_beat same_log_claim same_log_trans by blast
  qed
  have "same_log r ?r" by (simp add: same_log_def)
  also have "same_log ?r r2" using 1 time same_log_resetTimer same_log_trans same_log_refl by blast
  finally have "log_inv r2" using inv by (rule log_inv_same)
  then have inv3: "log_inv r3" using 2 by (rule refreshAcked_log_inv)
  have "same_log r3 r4"
    using 3 unfolding increaseSilentTime_def
    by (drule_tac for_each_mono [where R = "\<lambda>x y. same_log (snd x) (snd y)"])
      (auto simp: abort_simps Let_def split: if_splits intro: same_log_trans)
  also have "same_log r4 r'" using 4 by (auto simp: same_log_def becomeFollower_def)
  finally show ?thesis using inv3 by (rule log_inv_same)
qed


text \<open>
  The one state in which \<^verbatim>\<open>append\<close> breaks the ring: it is full and exactly one of its
  entries was applied.
\<close>

definition one_applied_full :: "'d raft \<Rightarrow> bool" where
  "one_applied_full r \<longleftrightarrow> logIsFull r \<and> l_applied (m_log r) = l_first (m_log r) + 1"

lemma mem_realloc_length: "mem_realloc junk p n = Some d \<Longrightarrow> int (length d) = n"
  by (auto simp: mem_realloc_def split: if_splits option.splits)

lemma mem_write_length:
  "mem_write (mem_realloc junk p n) off src len = Some d \<Longrightarrow> int (length d) = n"
  by (auto simp: mem_write_def split: if_splits option.splits dest!: mem_realloc_length)

lemma store_chunk_live:
  assumes "store_chunk env m e0 = Some e"
  shows "e_snapshot e = mu_snapshot m" and "e_bytes e = u_len (e_update e) \<Longrightarrow> live e"
proof -
  from assms obtain d where d: "int (length d) = mu_totalLen m"
    and e: "e = \<lparr>e_term = mu_entryTerm m, e_snapshot = mu_snapshot m,
                   e_update = \<lparr>u_len = mu_totalLen m, u_data = Some d\<rparr>, e_bytes = mu_offset m + mu_len m\<rparr>"
    unfolding store_chunk_def Let_def assert_that_def
    by (auto split: if_split_asm Option.bind_split_asm dest!: mem_write_length)
  show "e_snapshot e = mu_snapshot m" by (simp add: e)
  assume "e_bytes e = u_len (e_update e)"
  then show "live e" by (simp add: live_def e d)
qed

lemma complete_entry_log_inv:
  assumes inv: "log_inv r" and ok: "\<not> one_applied_full r" and i: "-1 \<le> mu_previndex m"
    and live: "live e" and snap: "e_snapshot e = mu_snapshot m"
    and run: "complete_entry m e r = Some (b, r')"
  shows "log_inv r'"
proof -
  from run obtain c e'' r2 where r': "r' = set_newentry e'' r2"
    and step: "(if mu_snapshot m then restore (mu_previndex m) e r
        else append_log (mu_previndex m) (mu_prevterm m) e r) = Some (c, e'', r2)"
    unfolding complete_entry_def by (auto split: Option.bind_split_asm prod.split_asm)
  have wf: "wf_log r" and peers: "peers_ok r" and sn: "snap_ok r" using inv by (simp_all add: log_inv_def)
  show ?thesis
  proof (cases "mu_snapshot m")
    case True
    then have re: "restore (mu_previndex m) e r = Some (c, e'', r2)" using step by simp
    with restore_spec [OF wf live _ i] snap True have "wf_log r2" by auto
    with peers_snap_restore [OF inv re] have "log_inv r2" by (simp add: log_inv_def)
    then show ?thesis by (simp add: r')
  next
    case False
    have "\<not> (\<not> room_for (mu_previndex m) r \<and> l_applied (m_log r) = l_first (m_log r) + 1)"
      using ok by (auto simp: room_for_def one_applied_full_def)
    from append_log_spec [OF wf peers sn live _ i this, of "mu_prevterm m"] False snap
    obtain ok' e3 r3 where ap: "append_log (mu_previndex m) (mu_prevterm m) e r = Some (ok', e3, r3)"
      "wf_log r3" "log_only r r3" by auto
    with False step have "wf_log r2 \<and> log_only r r2" by simp
    with log_inv_only [OF inv] show ?thesis by (simp add: r')
  qed
qed

lemma take_chunk_log_inv:
  assumes inv: "log_inv r" and ok: "\<not> one_applied_full r" and i: "-1 \<le> mu_previndex m"
    and run: "take_chunk env m r = Some (b, r')"
  shows "log_inv r'"
proof -
  have "(\<exists>e. r' = set_newentry e r) \<or> r' = r \<or>
    (\<exists>e. store_chunk env m (l_newentry (m_log r)) = Some e \<and> e_bytes e = u_len (e_update e) \<and>
      complete_entry m e r = Some (b, r'))"
    using run unfolding take_chunk_def Let_def
    by (auto split: if_split_asm Option.bind_split_asm)
  then show ?thesis
  proof (elim disjE exE conjE)
    fix e assume e: "store_chunk env m (l_newentry (m_log r)) = Some e" "e_bytes e = u_len (e_update e)"
      and fin: "complete_entry m e r = Some (b, r')"
    from complete_entry_log_inv [OF inv ok i store_chunk_live(2) [OF e] store_chunk_live(1) [OF e(1)] fin]
    show ?thesis .
  qed (use inv in simp_all)
qed

lemma note_acked_same:
  assumes "note_acked m s = Some t"
  shows "\<exists>a. same_log (s\<lparr>m_log := (m_log s)\<lparr>l_acked := a\<rparr>\<rparr>) t"
proof (cases "mu_acked m > l_acked (m_log s)")
  case True
  with assms show ?thesis by (auto simp: note_acked_def Let_def dest!: same_log_modify_peer)
next
  case False
  with assms have "t = s\<lparr>m_log := (m_log s)\<lparr>l_acked := l_acked (m_log s)\<rparr>\<rparr>" by (simp add: note_acked_def)
  then have "same_log (s\<lparr>m_log := (m_log s)\<lparr>l_acked := l_acked (m_log s)\<rparr>\<rparr>) t" by simp
  then show ?thesis ..
qed

lemma handleUpdate_log_inv:
  assumes inv: "log_inv r" and ok: "\<not> one_applied_full r" and i: "-1 \<le> mu_previndex m"
    and run: "handleUpdate env m r = Some r'"
  shows "log_inv r'"
proof -
  from run obtain d d1 d2 r1 where 1: "accept_update env m d r = Some (d1, r1)"
    and 2: "send (from_id (mu_msg m)) (AnyDone d2) sizeof_MsgDone r1 = Some r'"
    by (auto simp: handleUpdate_def Let_def split: Option.bind_split_asm prod.split_asm)
  have "log_inv r1"
  proof (cases "r1 = r")
    case False
    with 1 obtain s t b where s: "note_leader env (from_id (mu_msg m)) r = Some s"
      and t: "note_acked m s = Some t" and chunk: "take_chunk env m t = Some (b, r1)"
      unfolding accept_update_def Let_def
      by (auto split: if_split_asm Option.bind_split_asm prod.split_asm)
    have same: "same_log r s"
    proof -
      let ?i = "from_id (mu_msg m)"
      from s obtain u where u: "modify_peer ?i (\<lambda>p. p\<lparr>p_silent_ms := 0\<rparr>)
          (if ?i \<noteq> m_leaderId r then r\<lparr>m_leaderId := ?i\<rparr> else r) = Some u" "resetTimer env u = Some s"
        by (auto simp: note_leader_def Let_def split: Option.bind_split_asm)
      have "same_log r (if ?i \<noteq> m_leaderId r then r\<lparr>m_leaderId := ?i\<rparr> else r)"
        by (simp add: same_log_def)
      also note same_log_modify_peer [OF u(1)]
      also note same_log_resetTimer [OF u(2)]
      finally show ?thesis .
    qed
    from note_acked_same [OF t] obtain a where a: "same_log (s\<lparr>m_log := (m_log s)\<lparr>l_acked := a\<rparr>\<rparr>) t" ..
    have "log_inv t" using log_inv_same [OF a] log_inv_same [OF same inv] by simp
    moreover have "\<not> one_applied_full t"
      using ok same a by (simp add: one_applied_full_def logIsFull_def same_log_def)
    ultimately show ?thesis using i chunk by (rule take_chunk_log_inv)
  qed (simp add: inv)
  with same_log_send [OF 2] show ?thesis by (rule log_inv_same)
qed

lemma same_log_beat_peer: "beat env d (set_peer i q r) = Some r' \<Longrightarrow> same_log r r'"
  by (rule same_log_trans [OF same_log_set_peer same_log_beat])

lemma same_log_handleDone: "handleDone env m r = Some r' \<Longrightarrow> same_log r r'"
  unfolding handleDone_def Let_def
  by (auto split: if_split_asm Option.bind_split_asm) (erule same_log_beat_peer)+

lemma same_log_handleVote: "handleVote env m r = Some r' \<Longrightarrow> same_log r r'"
proof -
  assume *: "handleVote env m r = Some r'"
  have "same_log r (set_peer i p r\<lparr>m_votes := v\<rparr>)" for i p v by (simp add: same_log_def set_peer_def)
  with * show ?thesis unfolding handleVote_def Let_def
    by (auto split: if_split_asm Option.bind_split_asm prod.split_asm
        intro: same_log_trans [OF same_log_set_peer same_log_becomeLeader]
          same_log_trans [OF _ same_log_becomeLeader])
qed

lemma same_log_decide_vote: "decide_vote env m r = Some (b, r') \<Longrightarrow> same_log r r'"
proof -
  assume "decide_vote env m r = Some (b, r')"
  then have "r' = r \<or> resetTimer env (r\<lparr>m_voteFor := from_id (mc_msg m)\<rparr>) = Some r'"
    unfolding decide_vote_def Let_def by (auto split: if_split_asm Option.bind_split_asm)
  moreover have "same_log r (r\<lparr>m_voteFor := from_id (mc_msg m)\<rparr>)" by (simp add: same_log_def)
  ultimately show ?thesis using same_log_resetTimer same_log_trans same_log_refl by blast
qed

lemma same_log_yield: "yield_to_claim m r = Some r' \<Longrightarrow> same_log r r'"
  by (auto simp: yield_to_claim_def setTerm_def same_log_def abort_simps split: if_splits)

lemma same_log_handleClaim: "handleClaim env m r = Some r' \<Longrightarrow> same_log r r'"
  unfolding handleClaim_def Let_def
  by (auto split: Option.bind_split_asm prod.split_asm
      dest!: same_log_yield same_log_decide_vote same_log_send intro: same_log_trans)

lemma handleMessage_log_inv:
  assumes inv: "log_inv r" and ok: "\<not> one_applied_full r"
    and i: "\<And>x. m = AnyUpdate x \<Longrightarrow> -1 \<le> mu_previndex x"
    and run: "handleMessage env m r = Some r'"
  shows "log_inv r'"
proof -
  obtain r1 where "r1 = r \<or> (\<exists>s. setTerm (curterm (header m)) r = Some s \<and> r1 = s\<lparr>m_role := Follower\<rparr>)"
    and run1: "(case m of AnyUpdate m \<Rightarrow> handleUpdate env m r1 | AnyDone m \<Rightarrow> handleDone env m r1
       | AnyClaim m \<Rightarrow> handleClaim env m r1 | AnyVote m \<Rightarrow> handleVote env m r1
       | AnyOther t m \<Rightarrow> Some r1) = Some r'"
    using run unfolding handleMessage_def assert_that_def
    by (auto split: if_split_asm Option.bind_split_asm)
  then have r1: "same_log r r1" by (auto simp: setTerm_def same_log_def abort_simps)
  have inv1: "log_inv r1" by (rule log_inv_same [OF r1 inv])
  have ok1: "\<not> one_applied_full r1"
    using ok r1 by (simp add: one_applied_full_def logIsFull_def same_log_def)
  show ?thesis
  proof (cases m)
    case (AnyUpdate x)
    with run1 have "handleUpdate env x r1 = Some r'" by simp
    with i [OF AnyUpdate] show ?thesis by (intro handleUpdate_log_inv [OF inv1 ok1])
  qed (use run1 inv1 in \<open>auto intro: log_inv_same same_log_handleDone same_log_handleVote
      same_log_handleClaim\<close>)
qed

lemma emit_log_inv: "log_inv r \<Longrightarrow> emit env d r = Some (k, r') \<Longrightarrow> log_inv r'"
  using emit_spec [of r env d k r'] by (simp add: log_inv_def peers_ok_def snap_ok_def)

text \<open>The branches of \<^verbatim>\<open>append\<close> that \<open>append_log_spec\<close> leaves out.\<close>

lemma append_refused:
  assumes "log_inv r" and "live e" and "\<not> e_snapshot e" and "-1 \<le> i" and "\<not> prev_ok i t r"
  shows "append_log i t e r = Some (False, e, r)"
proof -
  have "wf_log r" using assms(1) by (simp add: log_inv_def)
  then have "appendable i t r = Some False"
    using appendable_spec [of r i t] assms(4,5) by (simp add: prev_ok_def)
  then show ?thesis using assms(2,3) by (auto simp: append_log_def live_def)
qed

lemma append_full_one_applied:
  assumes inv: "log_inv r" and e: "live e" "\<not> e_snapshot e" and i: "-1 \<le> i" and prev: "prev_ok i t r"
    and full: "\<not> room_for i r \<and> l_applied (m_log r) - l_first (m_log r) = 1"
  shows "\<exists>r'. append_log i t e r = Some (True, entry_new, r') \<and> logFirstIndex r' = logFirstIndex r \<and>
    entry_at r' (logFirstIndex r') = e \<and> l_size (m_log r') = log_len (m_config r') + 1"
proof -
  have wf: "wf_log r" and peers: "peers_ok r" and snap: "snap_ok r" using inv by (simp_all add: log_inv_def)
  have at: "i = logLastIndex r" "logIsFull r" using full by (simp_all add: room_for_def)
  have ap: "appendable i t r = Some True"
    using appendable_spec [OF wf i, of t] prev by (simp add: prev_ok_def)
  from compact_spec [OF wf peers snap at(2)] full obtain r1 where
    c: "compact r = Some (1, r1)" "wf_ring r1" "log_only r r1" "l_first (m_log r1) = l_first (m_log r)"
      "l_size (m_log r1) = l_size (m_log r)" by auto
  let ?n = "log_len (m_config r1)"
  let ?r1 = "r1\<lparr>m_log := (m_log r1)\<lparr>l_size := l_size (m_log r1) + 1\<rparr>\<rparr>"
  have n: "0 < ?n" "length (l_entries (m_log r1)) = nat ?n" "0 \<le> l_first (m_log r1)"
    using c(2) by (simp_all add: wf_ring_def)
  have size: "l_size (m_log r1) = ?n" using at(2) c(3,5) by (simp add: logIsFull_def log_only_def)
  have last: "logLastIndex r1 = i" using at(1) c(4,5) by (simp add: logLastIndex_def)
  then have idx: "i + 1 = l_first (m_log r1) + ?n" using size by (simp add: logLastIndex_def)
  have "slot (i + 1) ?r1 = Some (nat ((i + 1) mod ?n))"
    using slot_pos [of ?r1 "i + 1"] n i by simp
  then have set: "log_set (i + 1) e ?r1 = Some (put_entry (i + 1) e ?r1)"
    by (simp add: log_set_def put_entry_def)
  have "place_entry i e r1 = Some (True, entry_new, put_entry (i + 1) e ?r1)"
    using log_at_pos [OF c(2), of "i + 1"] set last i by (simp add: place_entry_def)
  then have "append_log i t e r = Some (True, entry_new, put_entry (i + 1) e ?r1)"
    unfolding append_log_unfold [OF e ap] using at c(1) by simp
  moreover have "logFirstIndex (put_entry (i + 1) e ?r1) = logFirstIndex r"
    using c(4) by (simp add: logFirstIndex_def)
  moreover have "entry_at (put_entry (i + 1) e ?r1) (logFirstIndex (put_entry (i + 1) e ?r1)) = e"
    using n by (simp add: entry_at_def put_entry_def logFirstIndex_def idx nat_less_iff)
  ultimately show ?thesis using size by simp
qed

end
