(* ===== verification/RaftSync.thy ===== *)
theory RaftSync
  imports RaftLog
begin

text \<open>
  Replicating a leader's entries to a follower of \<^verbatim>\<open>example/raft_server/raft.cc\<close>: the
  leader cuts an entry into chunks (\<^verbatim>\<open>beat\<close>), the follower puts them together
  (\<^verbatim>\<open>handleUpdate\<close>) and says how far it is, and the leader notes it and sends the
  next chunk or the next entry (\<^verbatim>\<open>handleDone\<close>).
\<close>

section \<open>An exchange of messages\<close>

text \<open>
  The last message the leader sent goes to the follower it is for, and the follower's reply to the
  leader: each is a datagram from the sender's address, of the length the sender gave, which the other node
  takes in with \<^verbatim>\<open>recvMessage\<close>. Each node has its own uninitialised memory.
\<close>

definition deliver :: "env \<Rightarrow> 'd raft \<Rightarrow> 'd raft \<Rightarrow> 'd raft option" where
  "deliver env src dst = do {
     assert_that (m_sent src \<noteq> [] \<and> fst (last (m_sent src)) = m_me dst);
     let msg = snd (snd (last (m_sent src)));
     remote \<leftarrow> m_socket src;
     recvMessage env remote msg (wire_len msg) dst
   }"

definition exchange :: "env \<Rightarrow> env \<Rightarrow> 'd raft \<times> 'd raft \<Rightarrow> ('d raft \<times> 'd raft) option" where
  "exchange env env' = (\<lambda>(l, f). do {
     f' \<leftarrow> deliver env' l f;
     l' \<leftarrow> deliver env f' l;
     Some (l', f')
   })"

fun exchanges :: "env \<Rightarrow> env \<Rightarrow> nat \<Rightarrow> 'd raft \<times> 'd raft \<Rightarrow> ('d raft \<times> 'd raft) option" where
  "exchanges env env' 0 lf = Some lf"
| "exchanges env env' (Suc n) lf = (exchange env env' lf \<bind> exchanges env env' n)"

section \<open>Who can send\<close>

text \<open>
  Node \<open>r\<close> knows node \<open>i\<close> at the address \<open>a\<close>: it can send to it, and takes its datagrams.
\<close>

definition knows :: "int \<Rightarrow> address \<Rightarrow> 'd raft \<Rightarrow> bool" where
  "knows i a r \<longleftrightarrow> 0 \<le> i \<and> i < peernum_max (m_config r) \<and> i \<noteq> m_me r \<and> m_conne_to_peer r \<and>
     (\<exists>p. get_peer i r = Some p \<and> p_up p \<and> p_host p = Some a)"

lemma send_ok:
  assumes "knows i a r" and "len \<le> msg_len_max (m_config r)" and "msgSize data len"
    and "0 \<le> msgtype data" and "msgtype data < 4" and "from_id (header data) = m_me r"
  shows "send i data len r = Some (r\<lparr>m_sent := m_sent r @ [(i, a, data)]\<rparr>)"
  using assms by (auto simp: knows_def send_def)

lemma deliver_ok:
  assumes "knows (m_me src) a dst" and "m_socket src = Some a" and "m_sent src = ms @ [(m_me dst, h, msg)]"
    and "msgSize msg (wire_len msg)" and "from_id (header msg) = m_me src"
  shows "deliver env src dst = handleMessage env msg dst"
  using assms by (auto simp: knows_def deliver_def recvMessage_def Let_def)

text \<open>The leader and the follower, with their messages within the bounds of the configuration.\<close>

definition leading :: "int \<Rightarrow> address \<Rightarrow> 'd raft \<Rightarrow> bool" where
  "leading dst a l \<longleftrightarrow> m_role l = Leader \<and> m_leaderId l = m_me l \<and> knows dst a l \<and> log_inv l \<and>
     0 < chunk_len (m_config l) \<and> sizeof_MsgUpdate + chunk_len (m_config l) - 1 \<le> msg_len_max (m_config l)"

definition following :: "int \<Rightarrow> address \<Rightarrow> 'd raft \<Rightarrow> bool" where
  "following ld a f \<longleftrightarrow> knows ld a f \<and> log_inv f \<and> sizeof_MsgDone \<le> msg_len_max (m_config f) \<and>
     election_ms_max (m_config f) - election_ms_min (m_config f) + 1 \<noteq> 0"

text \<open>What the handling of a message leaves alone besides the log.\<close>

definition same_net :: "'d raft \<Rightarrow> 'd raft \<Rightarrow> bool" where
  "same_net r r' \<longleftrightarrow> m_config r' = m_config r \<and> m_me r' = m_me r \<and> m_term r' = m_term r \<and>
     m_conne_to_peer r' = m_conne_to_peer r \<and> m_sent r' = m_sent r \<and> m_socket r' = m_socket r \<and>
     (\<forall>i. map_option (\<lambda>p. (p_up p, p_host p)) (get_peer i r') = map_option (\<lambda>p. (p_up p, p_host p)) (get_peer i r))"

lemma same_net_refl [simp]: "same_net r r"
  by (simp add: same_net_def)

lemma same_net_trans [trans]: "same_net r s \<Longrightarrow> same_net s t \<Longrightarrow> same_net r t"
  by (simp add: same_net_def)

lemma same_net_log [simp]: "same_net r (r\<lparr>m_log := lg\<rparr>)"
  by (simp add: same_net_def get_peer_def)

lemma same_net_modify_peer:
  assumes "modify_peer i g r = Some r'" and "\<And>p. p_up (g p) = p_up p \<and> p_host (g p) = p_host p"
  shows "same_net r r'"
proof -
  obtain p where p: "get_peer i r = Some p" "r' = set_peer i (g p) r"
    using assms(1) by (auto simp: modify_peer_def split: Option.bind_split_asm)
  then have i: "0 \<le> i" "nat i < length (m_peers r)" "p = m_peers r ! nat i"
    by (auto simp: get_peer_def split: if_splits)
  have "get_peer j r' = (if j = i then Some (g p) else get_peer j r)" for j
    using i p(2) by (auto simp: get_peer_def set_peer_def nth_list_update eq_nat_nat_iff)
  then show ?thesis using p assms(2) by (simp add: same_net_def set_peer_def)
qed

lemma same_net_resetTimer: "resetTimer env r = Some r' \<Longrightarrow> same_net r r'"
  by (auto simp: resetTimer_def randBetweenTime_def abort_simps same_net_def get_peer_def split: if_splits)

lemma knows_alt:
  "knows i a r \<longleftrightarrow> 0 \<le> i \<and> i < peernum_max (m_config r) \<and> i \<noteq> m_me r \<and> m_conne_to_peer r \<and>
     map_option (\<lambda>p. (p_up p, p_host p)) (get_peer i r) = Some (True, Some a)"
  by (cases "get_peer i r") (auto simp: knows_def)

lemma knows_same_net: "same_net r r' \<Longrightarrow> knows i a r' = knows i a r"
  unfolding knows_alt same_net_def by simp

lemma place_entry_net:
  assumes "place_entry i e r = Some (b, e', r')"
  shows "same_net r r'"
proof -
  have "\<exists>lg. r' = r\<lparr>m_log := lg\<rparr>"
    using assms by (auto simp: place_entry_def log_set_def abort_simps Let_def split: if_split_asm)
  then show ?thesis by auto
qed

section \<open>The leader's message\<close>

text \<open>An entry as \<^verbatim>\<open>append\<close> leaves it in the log, and one that can be sent.\<close>

definition whole_entry :: "int \<Rightarrow> bytes \<Rightarrow> entry" where
  "whole_entry t d = \<lparr>e_term = t, e_snapshot = False,
     e_update = \<lparr>u_len = int (length d), u_data = Some d\<rparr>, e_bytes = int (length d)\<rparr>"

definition entry_data :: "entry \<Rightarrow> bytes" where
  "entry_data e = the (u_data (e_update e))"

definition sendable_entry :: "entry \<Rightarrow> bool" where
  "sendable_entry e \<longleftrightarrow> e = whole_entry (e_term e) (entry_data e) \<and> entry_data e \<noteq> []"

lemma live_whole [simp]: "live (whole_entry t d)"
  by (simp add: live_def whole_entry_def)

lemma whole_entry_sel [simp]:
  "e_term (whole_entry t d) = t" "entry_data (whole_entry t d) = d" "\<not> e_snapshot (whole_entry t d)"
  by (simp_all add: whole_entry_def entry_data_def)

text \<open>The chunk of the data \<open>d\<close> that starts at \<open>off\<close>.\<close>

definition chunk_of :: "int \<Rightarrow> bytes \<Rightarrow> nat \<Rightarrow> bytes" where
  "chunk_of c d off = take (nat c) (drop off d)"

lemma length_chunk: "0 < c \<Longrightarrow> int (length (chunk_of c d off)) = min c (int (length d) - int off) \<or> length d \<le> off"
  by (auto simp: chunk_of_def min_def)

lemma beat_message_chunk:
  assumes wf: "wf_ring l" and i: "pr_entries (p_acked p) = i" "logFirstIndex l \<le> i" "i \<le> logLastIndex l"
    and off: "pr_bytes (p_acked p) = int off" "off < length d" and c: "0 < chunk_len (m_config l)"
    and e: "entry_at l i = \<lparr>e_term = t, e_snapshot = False,
              e_update = \<lparr>u_len = int (length d), u_data = Some d\<rparr>, e_bytes = b\<rparr>"
  defines "ch \<equiv> chunk_of (chunk_len (m_config l)) d off"
  shows "\<exists>m. beat_message env dst p l = Some m \<and> \<not> mu_empty m \<and> \<not> mu_snapshot m \<and>
    mu_previndex m = i - 1 \<and> mu_prevterm m = (if 1 \<le> i then e_term (entry_at l (i - 1)) else -1) \<and>
    mu_entryTerm m = t \<and> mu_totalLen m = int (length d) \<and> mu_offset m = int off \<and>
    mu_len m = int (length ch) \<and> mu_data m = ch \<and> 0 < length ch"
proof -
  have f: "0 \<le> logFirstIndex l" using wf by (simp add: wf_ring_def logFirstIndex_def)
  let ?len = "min (chunk_len (m_config l)) (int (length d) - int off)"
  have len: "0 < ?len" using c off by simp
  have chlen: "int (length ch) = ?len" using off(2) c by (auto simp: ch_def chunk_of_def min_def)
  have "take (nat ?len) (drop off d) = ch"
    using c off(2) by (auto simp: ch_def chunk_of_def min_def)
  then have read: "mem_read (Some d) (int off) ?len = Some ch"
    using len by (simp add: mem_read_def min_def)
  have at: "log_at i l = Some (entry_at l i)" using f i by (intro log_at_pos [OF wf]) simp
  have prev: "1 \<le> i \<Longrightarrow> log_at (i - 1) l = Some (entry_at l (i - 1))" by (intro log_at_pos [OF wf]) simp
  show ?thesis
    using i off(1) at prev e read len chlen f
    by (auto simp: beat_message_def Let_def)
qed

text \<open>The message with the chunk of entry \<open>i\<close> that starts at \<open>off\<close>.\<close>

definition chunk_msg :: "'d raft \<Rightarrow> int \<Rightarrow> nat \<Rightarrow> int \<Rightarrow> msgUpdate \<Rightarrow> bool" where
  "chunk_msg l i off sq m \<longleftrightarrow>
     (let e = entry_at l i; d = entry_data e; ch = chunk_of (chunk_len (m_config l)) d off in
      mu_msg m = \<lparr>curterm = m_term l, from_id = m_me l, sequence = sq\<rparr> \<and>
      \<not> mu_empty m \<and> \<not> mu_snapshot m \<and> mu_previndex m = i - 1 \<and>
      mu_prevterm m = (if 1 \<le> i then e_term (entry_at l (i - 1)) else -1) \<and>
      mu_entryTerm m = e_term e \<and> mu_totalLen m = int (length d) \<and> mu_offset m = int off \<and>
      mu_len m = int (length ch) \<and> mu_data m = ch \<and> 0 < length ch)"

lemma set_peer_frame [simp]:
  "m_role (set_peer i p r) = m_role r" "m_leaderId (set_peer i p r) = m_leaderId r"
  "m_me (set_peer i p r) = m_me r" "m_config (set_peer i p r) = m_config r"
  "m_term (set_peer i p r) = m_term r" "m_log (set_peer i p r) = m_log r"
  "m_conne_to_peer (set_peer i p r) = m_conne_to_peer r" "m_sent (set_peer i p r) = m_sent r"
  "m_socket (set_peer i p r) = m_socket r"
  by (simp_all add: set_peer_def)

lemma get_set_peer: "get_peer i r = Some p \<Longrightarrow> get_peer i (set_peer i q r) = Some q"
  by (auto simp: get_peer_def set_peer_def split: if_splits)

lemma leading_set_peer:
  assumes "leading i a l" and "get_peer i l = Some p" and "p_up q = p_up p" and "p_host q = p_host p"
  shows "leading i a (set_peer i q l)"
  using assms get_set_peer [OF assms(2), of q] log_inv_same [OF same_log_set_peer]
  by (auto simp: leading_def knows_def)

lemma beat_sends:
  assumes ld: "leading dst a l" and p: "get_peer dst l = Some p" "p_acked p = \<lparr>pr_entries = i, pr_bytes = int off\<rparr>"
    and i: "logFirstIndex l \<le> i" "i \<le> logLastIndex l"
    and e: "sendable_entry (entry_at l i)" "off < length (entry_data (entry_at l i))"
  shows "\<exists>m. beat env dst l = Some ((set_peer dst (p\<lparr>p_sequence := p_sequence p + 1\<rparr>) l)
      \<lparr>m_sent := m_sent l @ [(dst, a, AnyUpdate m)]\<rparr>) \<and> chunk_msg l i off (p_sequence p + 1) m"
proof -
  let ?d = "entry_data (entry_at l i)" and ?t = "e_term (entry_at l i)"
  let ?ch = "chunk_of (chunk_len (m_config l)) ?d off"
  have wf: "wf_ring l" and c: "0 < chunk_len (m_config l)" and role: "m_role l = Leader" "m_leaderId l = m_me l"
    and fit: "sizeof_MsgUpdate + chunk_len (m_config l) - 1 \<le> msg_len_max (m_config l)" and dst: "0 \<le> dst"
    using ld by (auto simp: leading_def log_inv_def wf_log_def knows_def)
  have ent: "entry_at l i = \<lparr>e_term = ?t, e_snapshot = False,
      e_update = \<lparr>u_len = int (length ?d), u_data = Some ?d\<rparr>, e_bytes = int (length ?d)\<rparr>"
    using e(1) unfolding sendable_entry_def whole_entry_def by blast
  from beat_message_chunk [OF wf _ i _ e(2) c ent, of p env dst] p(2) obtain m where
    m: "beat_message env dst p l = Some m" "\<not> mu_empty m" "\<not> mu_snapshot m" "mu_previndex m = i - 1"
      "mu_prevterm m = (if 1 \<le> i then e_term (entry_at l (i - 1)) else -1)" "mu_entryTerm m = ?t"
      "mu_totalLen m = int (length ?d)" "mu_offset m = int off" "mu_len m = int (length ?ch)"
      "mu_data m = ?ch" "0 < length ?ch" by auto
  have hdr: "mu_msg m = \<lparr>curterm = m_term l, from_id = m_me l, sequence = 0\<rparr>"
    using m(1) by (auto simp: beat_message_def Let_def split: Option.bind_split_asm if_split_asm)
  let ?m = "m\<lparr>mu_msg := (mu_msg m)\<lparr>sequence := p_sequence p + 1\<rparr>\<rparr>"
  let ?l = "set_peer dst (p\<lparr>p_sequence := p_sequence p + 1\<rparr>) l"
  have "int (length ?ch) \<le> chunk_len (m_config l)" using c by (simp add: chunk_of_def)
  then have "sizeof_MsgUpdate + mu_len ?m - 1 \<le> msg_len_max (m_config ?l)" using fit m(9) by simp
  moreover have "knows dst a ?l"
    using leading_set_peer [OF ld p(1), of "p\<lparr>p_sequence := p_sequence p + 1\<rparr>"] by (simp add: leading_def)
  ultimately have "send dst (AnyUpdate ?m) (sizeof_MsgUpdate + mu_len ?m - 1) ?l
      = Some (?l\<lparr>m_sent := m_sent ?l @ [(dst, a, AnyUpdate ?m)]\<rparr>)"
    using send_ok [of dst a ?l "sizeof_MsgUpdate + mu_len ?m - 1" "AnyUpdate ?m"] hdr
    by (auto simp: kMsgUpdate_def)
  then have "beat env dst l = Some (?l\<lparr>m_sent := m_sent l @ [(dst, a, AnyUpdate ?m)]\<rparr>)"
    using m(1) p(1) role dst by (simp add: beat_def beat_one_def NOBODY_def Let_def)
  moreover have "chunk_msg l i off (p_sequence p + 1) ?m"
    using m hdr by (simp add: chunk_msg_def Let_def)
  ultimately show ?thesis by blast
qed

section \<open>The follower takes the chunk\<close>

text \<open>The entry being received, when the bytes before \<open>off\<close> are there.\<close>

definition received :: "int \<Rightarrow> bytes \<Rightarrow> nat \<Rightarrow> entry \<Rightarrow> bool" where
  "received t d off e \<longleftrightarrow> (if off = 0 then 0 \<le> e_bytes e
     else \<exists>x. e = \<lparr>e_term = t, e_snapshot = False, e_update = \<lparr>u_len = int (length d), u_data = Some x\<rparr>,
                  e_bytes = int off\<rparr> \<and> length x = length d \<and> take off x = take off d)"

lemma mem_realloc_Some:
  "0 < n \<Longrightarrow> \<exists>y. mem_realloc junk p (int n) = Some y \<and> length y = n \<and>
     (\<forall>x. p = Some x \<and> length x = n \<longrightarrow> y = x)"
  by (cases p) (auto simp: mem_realloc_def)

lemma store_chunk_received:
  assumes rec: "received t d off e" and off: "off < length d" and c: "0 < c"
    and m: "mu_entryTerm m = t" "\<not> mu_snapshot m" "mu_totalLen m = int (length d)"
      "mu_offset m = int off" "mu_len m = int (length (chunk_of c d off))" "mu_data m = chunk_of c d off"
  defines "off' \<equiv> off + length (chunk_of c d off)"
  shows "\<exists>x. store_chunk env m e = Some \<lparr>e_term = t, e_snapshot = False,
      e_update = \<lparr>u_len = int (length d), u_data = Some x\<rparr>, e_bytes = int off'\<rparr> \<and>
    length x = length d \<and> take off' x = take off' d"
proof -
  let ?ch = "chunk_of c d off"
  have fit: "off + length ?ch \<le> length d" using off by (auto simp: chunk_of_def)
  from off have "0 < length d" by linarith
  from mem_realloc_Some [OF this, of "junk_byte env" "u_data (e_update e)"] obtain y where
    y: "mem_realloc (junk_byte env) (u_data (e_update e)) (int (length d)) = Some y"
    "length y = length d" "\<forall>x. u_data (e_update e) = Some x \<and> length x = length d \<longrightarrow> y = x"
    by blast
  have pre: "take off y = take off d" using rec y by (auto simp: received_def split: if_splits)
  let ?x = "splice_at off ?ch y"
  have "mem_write (Some y) (int off) ?ch (int (length ?ch)) = Some ?x"
    using fit y(2) by (simp add: mem_write_def)
  then have "store_chunk env m e = Some \<lparr>e_term = t, e_snapshot = False,
      e_update = \<lparr>u_len = int (length d), u_data = Some ?x\<rparr>, e_bytes = int off'\<rparr>"
    using m y(1) fit by (simp add: store_chunk_def Let_def off'_def)
  moreover have "take off' ?x = take off' d"
  proof -
    have "take off' ?x = take off y @ ?ch" using fit y(2) by (simp add: off'_def take_splice_at_end)
    also have "take off y @ ?ch = take off d @ take (length ?ch) (drop off d)"
      by (auto simp: pre chunk_of_def min_def)
    also have "\<dots> = take off' d" by (simp add: off'_def take_add)
    finally show ?thesis .
  qed
  ultimately show ?thesis using fit y(2) by auto
qed


lemma set_newentry_sel [simp]:
  "logFirstIndex (set_newentry e r) = logFirstIndex r" "logLastIndex (set_newentry e r) = logLastIndex r"
  "the_log (set_newentry e r) = the_log r" "l_newentry (m_log (set_newentry e r)) = e"
  "prev_ok i t (set_newentry e r) = prev_ok i t r" "room_for i (set_newentry e r) = room_for i r"
  "m_config (set_newentry e r) = m_config r"
  using the_log_cong [of "set_newentry e r" r] entry_at_cong [of "set_newentry e r" r]
  by (simp_all add: set_newentry_def logFirstIndex_def logLastIndex_def prev_ok_def room_for_def
      logIsFull_def)

text \<open>
  The follower's log ends before the leader's entry \<open>i\<close>, agrees with the leader's on the entry before
  it and has room for the leader's entries from \<open>i\<close> on, which can all be sent; and it has the first
  \<open>off\<close> bytes of entry \<open>i\<close>.
\<close>

definition behind :: "'d raft \<Rightarrow> 'd raft \<Rightarrow> int \<Rightarrow> nat \<Rightarrow> bool" where
  "behind l f i off \<longleftrightarrow> logFirstIndex l \<le> i \<and> i \<le> logLastIndex l \<and>
     (\<forall>j. i \<le> j \<and> j \<le> logLastIndex l \<longrightarrow> sendable_entry (entry_at l j)) \<and>
     logLastIndex f = i - 1 \<and>
     prev_ok (i - 1) (if 1 \<le> i then e_term (entry_at l (i - 1)) else -1) f \<and>
     l_size (m_log f) + (logLastIndex l - i + 1) \<le> log_len (m_config f) \<and>
     off < length (entry_data (entry_at l i)) \<and>
     received (e_term (entry_at l i)) (entry_data (entry_at l i)) off (l_newentry (m_log f))"

definition same_ring :: "'d raft \<Rightarrow> 'd raft \<Rightarrow> bool" where
  "same_ring r r' \<longleftrightarrow> m_config r' = m_config r \<and> l_first (m_log r') = l_first (m_log r) \<and>
     l_size (m_log r') = l_size (m_log r) \<and> l_entries (m_log r') = l_entries (m_log r) \<and>
     l_newentry (m_log r') = l_newentry (m_log r)"

lemma same_ring_log: "same_log r r' \<Longrightarrow> same_ring r r'"
  by (simp add: same_log_def same_ring_def)

lemma same_ring_acked: "same_log (r\<lparr>m_log := (m_log r)\<lparr>l_acked := a\<rparr>\<rparr>) r' \<Longrightarrow> same_ring r r'"
  by (simp add: same_log_def same_ring_def)

lemma same_ring_sel:
  assumes "same_ring r r'"
  shows "logFirstIndex r' = logFirstIndex r" and "logLastIndex r' = logLastIndex r"
    and "entry_at r' = entry_at r" and "the_log r' = the_log r" and "prev_ok i t r' = prev_ok i t r"
proof -
  show "logFirstIndex r' = logFirstIndex r" "logLastIndex r' = logLastIndex r" "entry_at r' = entry_at r"
    using assms entry_at_cong [of r' r]
    by (auto simp: same_ring_def logFirstIndex_def logLastIndex_def)
  then show "the_log r' = the_log r" "prev_ok i t r' = prev_ok i t r"
    by (simp_all add: the_log_def prev_ok_def)
qed

lemma behind_same_ring: "same_ring f f' \<Longrightarrow> behind l f' i off = behind l f i off"
  using same_ring_sel [of f f'] by (simp add: behind_def same_ring_def)

lemma behind_same_leader: "same_log l l' \<Longrightarrow> behind l' f i off = behind l f i off"
  using same_ring_sel [OF same_ring_log, of l l'] by (simp add: behind_def)

lemma last_term_ok: "wf_log r \<Longrightarrow> \<exists>lt. last_term r = Some lt"
  by (auto simp: last_term_def log_at_pos wf_log_def)

lemma set_newentry_ring [simp]:
  "l_size (m_log (set_newentry e r)) = l_size (m_log r)" "l_first (m_log (set_newentry e r)) = l_first (m_log r)"
  "entry_at (set_newentry e r) = entry_at r"
  using entry_at_cong [of "set_newentry e r" r] by (auto simp: set_newentry_def)

lemma take_chunk_step:
  assumes inv: "log_inv f" and b: "behind l f i off" and m: "chunk_msg l i off sq m"
    and lf: "0 \<le> logFirstIndex l"
  defines "d \<equiv> entry_data (entry_at l i)"
  defines "off' \<equiv> off + length (chunk_of (chunk_len (m_config l)) d off)"
  assumes c: "0 < chunk_len (m_config l)"
  shows "off < off' \<and> off' \<le> length d \<and> (\<exists>f'. take_chunk env m f = Some (True, f') \<and> same_net f f' \<and> log_inv f' \<and>
    (if off' < length d then the_log f' = the_log f \<and> behind l f' i off' \<and>
        logLastIndex f' = i - 1 \<and> e_bytes (l_newentry (m_log f')) = int off'
     else the_log f' = the_log f @ [entry_at l i] \<and> (i < logLastIndex l \<longrightarrow> behind l f' (i + 1) 0) \<and>
        logLastIndex f' = i \<and> e_bytes (l_newentry (m_log f')) = 0))"
proof -
  let ?ch = "chunk_of (chunk_len (m_config l)) d off"
  let ?pt = "if 1 \<le> i then e_term (entry_at l (i - 1)) else -1"
  let ?t = "e_term (entry_at l i)"
  have off: "off < length d" and i: "logFirstIndex l \<le> i" "i \<le> logLastIndex l"
    and e: "entry_at l i = whole_entry ?t d" and last: "logLastIndex f = i - 1"
    and prev: "prev_ok (i - 1) ?pt f" and rec: "received ?t d off (l_newentry (m_log f))"
    and room: "l_size (m_log f) + (logLastIndex l - i + 1) \<le> log_len (m_config f)"
    using b unfolding behind_def d_def sendable_entry_def by auto
  have mm: "\<not> mu_empty m" "\<not> mu_snapshot m" "mu_previndex m = i - 1" "mu_prevterm m = ?pt"
      "mu_entryTerm m = ?t" "mu_totalLen m = int (length d)" "mu_offset m = int off"
      "mu_len m = int (length ?ch)" "mu_data m = ?ch" "0 < length ?ch"
    using m by (simp_all add: chunk_msg_def Let_def d_def)
  obtain x where x: "store_chunk env m (l_newentry (m_log f)) = Some \<lparr>e_term = ?t, e_snapshot = False,
      e_update = \<lparr>u_len = int (length d), u_data = Some x\<rparr>, e_bytes = int off'\<rparr>"
      "length x = length d" "take off' x = take off' d"
    using store_chunk_received [OF rec off c mm(5,2,6,7,8,9)] unfolding off'_def by blast
  let ?e = "\<lparr>e_term = ?t, e_snapshot = False,
      e_update = \<lparr>u_len = int (length d), u_data = Some x\<rparr>, e_bytes = int off'\<rparr>"
  have bounds: "off < off'" "off' \<le> length d" using mm(10) off by (auto simp: off'_def chunk_of_def)
  have chunk: "take_chunk env m f = (if off' = length d then complete_entry m ?e f
      else Some (True, set_newentry ?e f))"
    using mm x(1) rec by (auto simp: take_chunk_def Let_def received_def split: if_splits)
  show ?thesis
  proof (cases "off' = length d")
    case False
    have "behind l (set_newentry ?e f) i off'"
      using b bounds False x(2,3) by (auto simp: behind_def received_def d_def)
    moreover have "same_net f (set_newentry ?e f)" by (simp add: set_newentry_def)
    ultimately show ?thesis using bounds False inv last chunk by auto
  next
    case True
    with x have e': "?e = entry_at l i" by (subst e) (simp add: whole_entry_def)
    have wf: "wf_log f" using inv by (simp add: log_inv_def)
    have i1: "-1 \<le> i - 1" using i(1) lf by simp
    have space: "l_size (m_log f) < log_len (m_config f)" using room i(2) by linarith
    then have rf: "room_for (i - 1) f" by (simp add: room_for_def logIsFull_def)
    have live: "live (entry_at l i)" and nosnap: "\<not> e_snapshot (entry_at l i)" by (subst e, simp)+
    have ap: "appendable (i - 1) ?pt f = Some True"
      using appendable_spec [OF wf i1, of ?pt] prev by (simp add: prev_ok_def)
    have place: "append_log (i - 1) ?pt (entry_at l i) f = place_entry (i - 1) (entry_at l i) f"
      using rf unfolding append_log_unfold [OF live nosnap ap] room_for_def by argo
    have ring: "wf_ring f" using wf by (simp add: wf_log_def)
    from place_entry_grow [OF ring last [symmetric] i1 space, of "entry_at l i"] obtain f2 where
      f2: "place_entry (i - 1) (entry_at l i) f = Some (True, entry_new, f2)"
        "the_log f2 = the_log f @ [entry_at l i]" "log_only f f2"
        "l_first (m_log f2) = l_first (m_log f)" "l_size (m_log f2) = l_size (m_log f) + 1" by blast
    from place_entry_spec [OF wf i1 prev rf live] f2(1) have "wf_log f2" by simp
    then have inv2: "log_inv f2" using log_inv_only [OF inv _ f2(3)] by simp
    have last2: "logLastIndex f2 = i" using last f2(4,5) by (simp add: logLastIndex_def)
    have tc: "take_chunk env m f = Some (True, set_newentry entry_new f2)"
      using place f2(1) mm(2,3,4) chunk True e' by (simp add: complete_entry_def)
    have net: "same_net f (set_newentry entry_new f2)"
      using same_net_trans [OF place_entry_net [OF f2(1)] same_net_log] by (simp add: set_newentry_def)
    have "behind l (set_newentry entry_new f2) (i + 1) 0" if more_to_come: "i < logLastIndex l"
    proof -
      have n: "length (the_log f) < length (the_log f2)" "logFirstIndex f2 + int (length (the_log f)) = i"
        using f2(2,4) last ring by (simp_all add: length_the_log logFirstIndex_def logLastIndex_def wf_ring_def)
      have "entry_at f2 i = entry_at l i" using nth_the_log [OF n(1)] f2(2) n(2) by simp
      moreover have "(if logFirstIndex f2 = 0 then - 1 else logFirstIndex f2) \<le> i"
        using prev f2(4) by (auto simp: prev_ok_def logFirstIndex_def split: if_splits)
      ultimately have "prev_ok i (e_term (entry_at l i)) f2" using last2 by (simp add: prev_ok_def)
      moreover have "1 \<le> i + 1" using i(1) lf by simp
      moreover have "log_len (m_config f2) = log_len (m_config f)" using f2(3) by (simp add: log_only_def)
      moreover have "sendable_entry (entry_at l (i + 1))" using b more_to_come by (simp add: behind_def)
      ultimately show ?thesis
        using b more_to_come last2 f2(5)
        by (auto simp: behind_def received_def entry_new_def sendable_entry_def)
    qed
    then show ?thesis using tc net inv2 last2 f2(2) True bounds
      by (auto simp: entry_new_def)
  qed
qed

lemma get_peer_frame [simp]:
  "get_peer i (r\<lparr>m_log := lg\<rparr>) = get_peer i r" "get_peer i (r\<lparr>m_leaderId := k\<rparr>) = get_peer i r"
  "get_peer i (r\<lparr>m_sent := ms\<rparr>) = get_peer i r"
  by (simp_all add: get_peer_def)

text \<open>The follower's answer says success, and how far it is.\<close>

lemma note_leader_ok:
  assumes "following ld a f"
  shows "\<exists>s. note_leader env ld f = Some s \<and> same_net f s \<and> same_log f s"
proof -
  let ?f = "if ld \<noteq> m_leaderId f then f\<lparr>m_leaderId := ld\<rparr> else f"
  obtain p where "get_peer ld f = Some p" using assms by (auto simp: following_def knows_def)
  then have "get_peer ld ?f = Some p" by auto
  then obtain u where u: "modify_peer ld (\<lambda>p. p\<lparr>p_silent_ms := 0\<rparr>) ?f = Some u"
    by (simp add: modify_peer_def)
  have net: "same_net ?f u" by (rule same_net_modify_peer [OF u]) simp
  have "m_config u = m_config f" using same_log_modify_peer [OF u] by (simp add: same_log_def)
  then have "resetTimer env u \<noteq> None"
    using assms by (simp add: following_def resetTimer_def randBetweenTime_def assert_that_def)
  then obtain s where s: "resetTimer env u = Some s" by blast
  have "same_net f ?f" "same_log f ?f" by (simp_all add: same_net_def same_log_def)
  then have "same_net f s" "same_log f s"
    using same_net_trans [OF _ same_net_trans [OF net same_net_resetTimer [OF s]]]
      same_log_trans [OF _ same_log_trans [OF same_log_modify_peer [OF u] same_log_resetTimer [OF s]]]
    by blast+
  then show ?thesis using u s by (simp add: note_leader_def Let_def)
qed

lemma note_acked_ok:
  assumes "knows (from_id (mu_msg m)) a s"
  shows "\<exists>t. note_acked m s = Some t \<and> same_net s t \<and> same_ring s t \<and> (log_inv s \<longrightarrow> log_inv t)"
proof (cases "mu_acked m > l_acked (m_log s)")
  case True
  let ?k = "min (l_first (m_log s) + l_size (m_log s)) (mu_acked m)"
  let ?s = "s\<lparr>m_log := (m_log s)\<lparr>l_acked := ?k\<rparr>\<rparr>"
  let ?g = "\<lambda>p. p\<lparr>p_acked := \<lparr>pr_entries = ?k, pr_bytes = 0\<rparr>\<rparr>"
  obtain p where "get_peer (from_id (mu_msg m)) s = Some p" using assms by (auto simp: knows_def)
  then have "get_peer (from_id (mu_msg m)) ?s = Some p" by simp
  then obtain t where t: "modify_peer (from_id (mu_msg m)) ?g ?s = Some t" by (simp add: modify_peer_def)
  have "same_net ?s t" by (rule same_net_modify_peer [OF t]) simp
  then have "same_net s t" using same_net_trans same_net_log by blast
  moreover have "same_ring s t" using same_log_modify_peer [OF t] by (rule same_ring_acked)
  moreover have "log_inv s \<longrightarrow> log_inv t" using log_inv_same [OF same_log_modify_peer [OF t]] by simp
  ultimately show ?thesis using t True by (simp add: note_acked_def Let_def)
next
  case False
  then show ?thesis using same_ring_log [of s s] by (simp add: note_acked_def)
qed

lemma following_same_net: "same_net f f' \<Longrightarrow> log_inv f' \<Longrightarrow> following ld a f \<Longrightarrow> following ld a f'"
  using knows_same_net [of f f'] by (simp add: following_def same_net_def)

lemma handleUpdate_step:
  assumes fl: "following (m_me l) a f" and b: "behind l f i off" and m: "chunk_msg l i off sq m"
    and lf: "0 \<le> logFirstIndex l" and c: "0 < chunk_len (m_config l)" and same_term: "m_term f = m_term l"
  defines "d \<equiv> entry_data (entry_at l i)"
  defines "off' \<equiv> off + length (chunk_of (chunk_len (m_config l)) d off)"
  shows "off < off' \<and> off' \<le> length d \<and> (\<exists>f' r. handleMessage env (AnyUpdate m) f = Some f' \<and>
    m_sent f' = m_sent f @ [(m_me l, a, AnyDone r)] \<and> md_success r \<and>
    md_msg r = \<lparr>curterm = m_term f, from_id = m_me f, sequence = sq\<rparr> \<and>
    following (m_me l) a f' \<and> m_me f' = m_me f \<and> m_term f' = m_term f \<and> m_socket f' = m_socket f \<and>
    (if off' < length d then the_log f' = the_log f \<and> behind l f' i off' \<and>
        md_process r = \<lparr>pr_entries = i, pr_bytes = int off'\<rparr>
     else the_log f' = the_log f @ [entry_at l i] \<and> (i < logLastIndex l \<longrightarrow> behind l f' (i + 1) 0) \<and>
        md_process r = \<lparr>pr_entries = i + 1, pr_bytes = 0\<rparr>))"
proof -
  have inv: "log_inv f" and knows: "knows (m_me l) a f" and len: "sizeof_MsgDone \<le> msg_len_max (m_config f)"
    using fl by (simp_all add: following_def)
  have wf: "wf_log f" using inv by (simp add: log_inv_def)
  have hdr: "mu_msg m = \<lparr>curterm = m_term l, from_id = m_me l, sequence = sq\<rparr>" "\<not> mu_empty m" "\<not> mu_snapshot m"
      "mu_previndex m = i - 1" "mu_prevterm m = (if 1 \<le> i then e_term (entry_at l (i - 1)) else -1)"
    using m by (simp_all add: chunk_msg_def Let_def)
  have "-1 \<le> i - 1" using b lf by (simp add: behind_def)
  from appendable_spec [OF wf this, of "mu_prevterm m"] b
  have ap: "appendable (mu_previndex m) (mu_prevterm m) f = Some True"
    using hdr(4,5) by (simp add: behind_def prev_ok_def)
  obtain s where s: "note_leader env (m_me l) f = Some s" "same_net f s" "same_log f s"
    using note_leader_ok [OF fl] by blast
  have "knows (from_id (mu_msg m)) a s" using knows knows_same_net [OF s(2)] hdr(1) by simp
  from note_acked_ok [OF this] obtain t where t: "note_acked m s = Some t" "same_net s t" "same_ring s t"
    "log_inv s \<longrightarrow> log_inv t" by blast
  have invt: "log_inv t" using t(4) log_inv_same [OF s(3) inv] by blast
  have bt: "behind l t i off"
    using b behind_same_ring [OF same_ring_log [OF s(3)]] behind_same_ring [OF t(3)] by simp
  have logt: "the_log t = the_log f"
    using same_ring_sel(4) [OF same_ring_log [OF s(3)]] same_ring_sel(4) [OF t(3)] by simp
  from take_chunk_step [OF invt bt m lf c, of env] obtain f3 where off: "off < off'" "off' \<le> length d"
    and f3: "take_chunk env m t = Some (True, f3)" "same_net t f3" "log_inv f3"
    and res: "if off' < length d then the_log f3 = the_log t \<and> behind l f3 i off' \<and>
        logLastIndex f3 = i - 1 \<and> e_bytes (l_newentry (m_log f3)) = int off'
     else the_log f3 = the_log t @ [entry_at l i] \<and> (i < logLastIndex l \<longrightarrow> behind l f3 (i + 1) 0) \<and>
        logLastIndex f3 = i \<and> e_bytes (l_newentry (m_log f3)) = 0"
    unfolding off'_def d_def by blast
  have net: "same_net f f3" using same_net_trans [OF same_net_trans [OF s(2) t(2)] f3(2)] .
  obtain lt1 lt2 where lt: "last_term f = Some lt1" "last_term f3 = Some lt2"
    using last_term_ok wf f3(3) unfolding log_inv_def by blast
  define r where "r = ((junk_reply env)\<lparr>md_msg := \<lparr>curterm = m_term f, from_id = m_me f, sequence = sq\<rparr>,
      md_entryTerm := lt2, md_applied := l_applied (m_log f3), md_success := True,
      md_process := \<lparr>pr_entries = logLastIndex f3 + 1, pr_bytes = e_bytes (l_newentry (m_log f3))\<rparr>\<rparr>)"
  have me: "m_me f3 = m_me f" "m_term f3 = m_term f" "m_sent f3 = m_sent f" "m_socket f3 = m_socket f"
    "m_config f3 = m_config f" using net by (simp_all add: same_net_def)
  let ?f' = "f3\<lparr>m_sent := m_sent f @ [(m_me l, a, AnyDone r)]\<rparr>"
  have "send (m_me l) (AnyDone r) sizeof_MsgDone f3 = Some ?f'"
    using send_ok [of "m_me l" a f3 sizeof_MsgDone "AnyDone r"] knows knows_same_net [OF net] len me
    by (simp add: r_def kMsgDone_def)
  then have "handleUpdate env m f = Some ?f'"
    using ap s(1) t(1) f3(1) lt hdr same_term
    by (simp add: handleUpdate_def accept_update_def Let_def r_def)
  then have h: "handleMessage env (AnyUpdate m) f = Some ?f'"
    using hdr(1) same_term by (simp add: handleMessage_def kMsgUpdate_def)
  have same: "same_log f3 ?f'" by (simp add: same_log_def)
  have "knows (m_me l) a f3" using knows knows_same_net [OF net] by blast
  then have "knows (m_me l) a ?f'" by (simp add: knows_def)
  then have "following (m_me l) a ?f'"
    using fl log_inv_same [OF same f3(3)] me(5) by (simp add: following_def)
  moreover have "behind l ?f' = behind l f3" "the_log ?f' = the_log f3"
    using behind_same_ring [OF same_ring_log [OF same]] same_ring_sel(4) [OF same_ring_log [OF same]] by blast+
  ultimately show ?thesis
    using h off res me logt by (intro conjI exI [of _ ?f'] exI [of _ r]) (auto simp: r_def)
qed

section \<open>The leader goes on\<close>

lemma handleDone_step:
  assumes ld: "leading dst a l" and p: "get_peer dst l = Some p"
    and r: "md_msg r = \<lparr>curterm = m_term l, from_id = dst, sequence = p_sequence p\<rparr>" "md_success r"
  shows "\<exists>q. get_peer dst (set_peer dst q l) = Some q \<and> p_acked q = md_process r \<and> leading dst a (set_peer dst q l) \<and>
    handleMessage env (AnyDone r) l =
      (if pr_entries (md_process r) \<le> logLastIndex l then beat env dst (set_peer dst q l)
       else Some (set_peer dst q l))"
proof -
  let ?q = "note_done r (p\<lparr>p_sequence := p_sequence p + 1\<rparr>)"
  have q: "p_acked ?q = md_process r" "p_up ?q = p_up p" "p_host ?q = p_host p"
    using r(2) by (simp_all add: note_done_def Let_def)
  have "m_role l = Leader" "dst \<noteq> m_me l" using ld by (auto simp: leading_def knows_def)
  then have "handleMessage env (AnyDone r) l =
      (if pr_entries (md_process r) \<le> logLastIndex l then beat env dst (set_peer dst ?q l)
       else Some (set_peer dst ?q l))"
    using p r q(1) by (simp add: handleMessage_def handleDone_def kMsgDone_def Let_def logLastIndex_def)
  then show ?thesis
    using get_set_peer [OF p, of ?q] leading_set_peer [OF ld p q(2,3)] q(1) by blast
qed

section \<open>Exchanges\<close>

text \<open>
  The chunk at \<open>off\<close> of the leader's entry \<open>i\<close> is on its way, and the follower is waiting for it:
  \<open>a\<close> is the follower's address, \<open>b\<close> the leader's.
\<close>

definition paired :: "address \<Rightarrow> address \<Rightarrow> 'd raft \<Rightarrow> 'd raft \<Rightarrow> bool" where
  "paired a b l f \<longleftrightarrow> leading (m_me f) a l \<and> following (m_me l) b f \<and>
     m_socket l = Some b \<and> m_socket f = Some a \<and> m_term f = m_term l"

definition in_flight :: "address \<Rightarrow> address \<Rightarrow> 'd raft \<Rightarrow> 'd raft \<Rightarrow> int \<Rightarrow> nat \<Rightarrow> bool" where
  "in_flight a b l f i off \<longleftrightarrow> paired a b l f \<and> behind l f i off \<and>
     (\<exists>p m ms. get_peer (m_me f) l = Some p \<and> m_sent l = ms @ [(m_me f, a, AnyUpdate m)] \<and>
        chunk_msg l i off (p_sequence p) m)"

lemma chunk_msg_cong:
  "same_log l l' \<Longrightarrow> m_term l' = m_term l \<Longrightarrow> chunk_msg l' i off sq m = chunk_msg l i off sq m"
  using same_ring_sel(3) [OF same_ring_log, of l l'] by (simp add: chunk_msg_def same_log_def)

lemma in_flight_start:
  assumes pr: "paired a b l f" and b: "behind l f i off"
    and p: "get_peer (m_me f) l = Some p" "p_acked p = \<lparr>pr_entries = i, pr_bytes = int off\<rparr>"
  shows "\<exists>l0. beat env (m_me f) l = Some l0 \<and> in_flight a b l0 f i off \<and> same_log l l0"
proof -
  have ld: "leading (m_me f) a l" using pr by (simp add: paired_def)
  have i: "logFirstIndex l \<le> i" "i \<le> logLastIndex l" and e: "sendable_entry (entry_at l i)"
    and off: "off < length (entry_data (entry_at l i))" using b by (auto simp: behind_def)
  let ?q = "p\<lparr>p_sequence := p_sequence p + 1\<rparr>"
  obtain m where m: "beat env (m_me f) l = Some ((set_peer (m_me f) ?q l)
      \<lparr>m_sent := m_sent l @ [(m_me f, a, AnyUpdate m)]\<rparr>)" "chunk_msg l i off (p_sequence p + 1) m"
    using beat_sends [OF ld p i e off] by blast
  let ?l = "(set_peer (m_me f) ?q l)\<lparr>m_sent := m_sent l @ [(m_me f, a, AnyUpdate m)]\<rparr>"
  have same: "same_log l ?l" by (simp add: same_log_def) (simp add: set_peer_def)
  have "leading (m_me f) a (set_peer (m_me f) ?q l)" by (rule leading_set_peer [OF ld p(1)]) simp_all
  then have "leading (m_me f) a ?l"
    using log_inv_same [OF same] ld by (simp add: leading_def knows_def)
  then have "paired a b ?l f" using pr by (simp add: paired_def)
  moreover have "behind ?l f i off" using b behind_same_leader [OF same] by blast
  moreover have "chunk_msg ?l i off (p_sequence ?q) m" using m(2) chunk_msg_cong [OF same] by simp
  moreover have "get_peer (m_me f) ?l = Some ?q" using get_set_peer [OF p(1)] by simp
  ultimately have "in_flight a b ?l f i off" unfolding in_flight_def by auto
  with m(1) same show ?thesis by blast
qed

lemma exchange_step:
  assumes fly: "in_flight a b l f i off"
  defines "d \<equiv> entry_data (entry_at l i)"
  defines "off' \<equiv> off + length (chunk_of (chunk_len (m_config l)) d off)"
  shows "off < off' \<and> off' \<le> length d \<and> (\<exists>l' f'. exchange env env' (l, f) = Some (l', f') \<and>
    same_log l l' \<and> m_me f' = m_me f \<and>
    (if off' < length d then the_log f' = the_log f \<and> in_flight a b l' f' i off'
     else the_log f' = the_log f @ [entry_at l i] \<and>
       (if i < logLastIndex l then in_flight a b l' f' (i + 1) 0
        else log_inv f' \<and> (\<exists>q. get_peer (m_me f') l' = Some q \<and>
               p_acked q = \<lparr>pr_entries = i + 1, pr_bytes = 0\<rparr>))))"
proof -
  obtain p m ms where pr: "paired a b l f" and bh: "behind l f i off" and p: "get_peer (m_me f) l = Some p"
    and sent: "m_sent l = ms @ [(m_me f, a, AnyUpdate m)]" and m: "chunk_msg l i off (p_sequence p) m"
    using fly unfolding in_flight_def by blast
  have ld: "leading (m_me f) a l" and fl: "following (m_me l) b f" and sock: "m_socket l = Some b" "m_socket f = Some a"
    and same_term: "m_term f = m_term l" using pr by (simp_all add: paired_def)
  have lf: "0 \<le> logFirstIndex l" and c: "0 < chunk_len (m_config l)" and kn: "knows (m_me f) a l"
    using ld by (auto simp: leading_def log_inv_def wf_log_def wf_ring_def logFirstIndex_def)
  from handleUpdate_step [OF fl bh m lf c same_term, of env'] obtain f' r where
    off: "off < off'" "off' \<le> length d" and h: "handleMessage env' (AnyUpdate m) f = Some f'"
    and f': "m_sent f' = m_sent f @ [(m_me l, b, AnyDone r)]" "md_success r"
      "md_msg r = \<lparr>curterm = m_term f, from_id = m_me f, sequence = p_sequence p\<rparr>"
      "following (m_me l) b f'" "m_me f' = m_me f" "m_term f' = m_term f" "m_socket f' = m_socket f"
    and res: "if off' < length d then the_log f' = the_log f \<and> behind l f' i off' \<and>
        md_process r = \<lparr>pr_entries = i, pr_bytes = int off'\<rparr>
     else the_log f' = the_log f @ [entry_at l i] \<and> (i < logLastIndex l \<longrightarrow> behind l f' (i + 1) 0) \<and>
        md_process r = \<lparr>pr_entries = i + 1, pr_bytes = 0\<rparr>"
    unfolding d_def off'_def by blast
  have "from_id (header (AnyUpdate m)) = m_me l" using m by (simp add: chunk_msg_def Let_def)
  then have d1: "deliver env' l f = Some f'"
    using deliver_ok [OF _ sock(1) sent, of env'] fl h by (simp add: following_def)
  have d2: "deliver env f' l = handleMessage env (AnyDone r) l"
    using deliver_ok [of f' a l "m_sent f" b "AnyDone r" env] kn f' sock(2) by simp
  have hdr: "md_msg r = \<lparr>curterm = m_term l, from_id = m_me f, sequence = p_sequence p\<rparr>"
    using f'(3) same_term by simp
  from handleDone_step [OF ld p hdr f'(2), of env] obtain q where
    q: "get_peer (m_me f) (set_peer (m_me f) q l) = Some q" "p_acked q = md_process r"
      "leading (m_me f) a (set_peer (m_me f) q l)"
    and hd: "handleMessage env (AnyDone r) l = (if pr_entries (md_process r) \<le> logLastIndex l
      then beat env (m_me f) (set_peer (m_me f) q l) else Some (set_peer (m_me f) q l))" by blast
  let ?l = "set_peer (m_me f) q l"
  have pr': "paired a b ?l f'" using q(3) f' sock same_term by (simp add: paired_def)
  have ex: "exchange env env' (l, f) = (handleMessage env (AnyDone r) l \<bind> (\<lambda>l'. Some (l', f')))"
    using d1 d2 by (simp add: exchange_def)
  have go: "\<exists>l'. exchange env env' (l, f) = Some (l', f') \<and> same_log l l' \<and> in_flight a b l' f' j k"
    if "behind l f' j k" "md_process r = \<lparr>pr_entries = j, pr_bytes = int k\<rparr>" for j k
  proof -
    have "behind ?l f' j k" using that(1) behind_same_leader [OF same_log_set_peer] by blast
    moreover have "get_peer (m_me f') ?l = Some q" "p_acked q = \<lparr>pr_entries = j, pr_bytes = int k\<rparr>"
      using q(1,2) f'(5) that(2) by simp_all
    ultimately obtain l0 where l0: "beat env (m_me f') ?l = Some l0" "in_flight a b l0 f' j k" "same_log ?l l0"
      using in_flight_start [OF pr'] by blast
    moreover have "j \<le> logLastIndex l" using that(1) by (simp add: behind_def)
    ultimately show ?thesis
      using ex hd that(2) f'(5) same_log_trans [OF same_log_set_peer l0(3)] by simp
  qed
  show ?thesis
  proof (cases "off' < length d")
    case True
    with res go [of i off'] show ?thesis using off f'(5) by auto
  next
    case whole: False
    show ?thesis
    proof (cases "i < logLastIndex l")
      case True
      with res whole go [of "i + 1" 0] show ?thesis using off f'(5) by auto
    next
      case False
      with res whole have "exchange env env' (l, f) = Some (?l, f')" using ex hd by simp
      moreover have "log_inv f'" using f'(4) by (simp add: following_def)
      ultimately show ?thesis using res whole False off f'(5) q(1,2) same_log_set_peer by auto
    qed
  qed
qed

text \<open>The bytes of the leader's entries from \<open>i\<close> on.\<close>

definition bytes_from :: "'d raft \<Rightarrow> int \<Rightarrow> nat" where
  "bytes_from l i = length (concat (map (\<lambda>j. entry_data (entry_at l j)) [i..logLastIndex l]))"

lemma bytes_from_rec:
  "i \<le> logLastIndex l \<Longrightarrow> bytes_from l i = length (entry_data (entry_at l i)) + bytes_from l (i + 1)"
  by (simp add: bytes_from_def upto_rec1)

lemma exchanges_complete:
  assumes "in_flight a b l f i off"
  shows "\<exists>n l' f' q. n \<le> bytes_from l i - off \<and> exchanges env env' n (l, f) = Some (l', f') \<and>
    same_log l l' \<and> the_log f' = the_log f @ map (entry_at l) [i..logLastIndex l] \<and> log_inv f' \<and>
    get_peer (m_me f) l' = Some q \<and> p_acked q = \<lparr>pr_entries = logLastIndex l + 1, pr_bytes = 0\<rparr>"
  using assms
proof (induction "bytes_from l i - off" arbitrary: off i l f rule: less_induct)
  case less
  let ?d = "entry_data (entry_at l i)"
  let ?off' = "off + length (chunk_of (chunk_len (m_config l)) ?d off)"
  from exchange_step [OF less.prems, of env env'] obtain l1 f1 where b: "off < ?off'" "?off' \<le> length ?d"
    and r: "exchange env env' (l, f) = Some (l1, f1)" and same: "same_log l l1" and me: "m_me f1 = m_me f"
    and res: "if ?off' < length ?d then the_log f1 = the_log f \<and> in_flight a b l1 f1 i ?off'
     else the_log f1 = the_log f @ [entry_at l i] \<and>
       (if i < logLastIndex l then in_flight a b l1 f1 (i + 1) 0
        else log_inv f1 \<and> (\<exists>q. get_peer (m_me f1) l1 = Some q \<and>
               p_acked q = \<lparr>pr_entries = i + 1, pr_bytes = 0\<rparr>))" by blast
  have i: "i \<le> logLastIndex l" using less.prems by (simp add: in_flight_def behind_def)
  note bytes = bytes_from_rec [OF i]
  have same1: "entry_at l1 = entry_at l" "logLastIndex l1 = logLastIndex l"
    using same_ring_sel(2,3) [OF same_ring_log [OF same]] by blast+
  then have bytes1: "bytes_from l1 j = bytes_from l j" for j by (simp add: bytes_from_def)
  have more_rounds: ?case
    if fly: "in_flight a b l1 f1 j k" and less_bytes: "bytes_from l j - k < bytes_from l i - off"
      and log: "the_log f1 @ map (entry_at l) [j..logLastIndex l] = the_log f @ map (entry_at l) [i..logLastIndex l]"
    for j k
  proof -
    from less.hyps [of l1 j k f1] fly less_bytes obtain n l' f' q where n: "n \<le> bytes_from l j - k"
      "exchanges env env' n (l1, f1) = Some (l', f')" "same_log l1 l'"
      "the_log f' = the_log f1 @ map (entry_at l) [j..logLastIndex l]" "log_inv f'"
      "get_peer (m_me f) l' = Some q" "p_acked q = \<lparr>pr_entries = logLastIndex l + 1, pr_bytes = 0\<rparr>"
      unfolding bytes1 same1 me by blast
    have "exchanges env env' (Suc n) (l, f) = Some (l', f')" using r n(2) by simp
    moreover have "Suc n \<le> bytes_from l i - off" using n(1) less_bytes by linarith
    ultimately show ?thesis
      using n(4-7) log same_log_trans [OF same n(3)] by (metis (no_types))
  qed
  show ?case
  proof (cases "?off' < length ?d")
    case True
    have "bytes_from l i - ?off' < bytes_from l i - off" using b True bytes by linarith
    with res True show ?thesis by (intro more_rounds [of i ?off']) simp_all
  next
    case whole: False
    have split: "[i..logLastIndex l] = i # [i + 1..logLastIndex l]" using i by (rule upto_rec1)
    show ?thesis
    proof (cases "i < logLastIndex l")
      case True
      have "bytes_from l (i + 1) - 0 < bytes_from l i - off" using b bytes by linarith
      with res whole True split show ?thesis by (intro more_rounds [of "i + 1" 0]) simp_all
    next
      case False
      then have last: "i = logLastIndex l" using i by simp
      have "exchanges env env' 1 (l, f) = Some (l1, f1)" using r by simp
      moreover have "1 \<le> bytes_from l i - off" using b bytes by linarith
      ultimately show ?thesis using res whole False last same me by (intro exI [of _ 1]) auto
    qed
  qed
qed

text \<open>The leader's entries from \<open>i\<close> on, as a list.\<close>

lemma the_log_from:
  assumes "logFirstIndex l \<le> i"
  shows "map (entry_at l) [i..logLastIndex l] = drop (nat (i - logFirstIndex l)) (the_log l)"
  by (rule nth_equalityI) (use assms in \<open>auto simp: the_log_def nth_upto\<close>)

end
