(* ===== verification/RaftProps.thy ===== *)
theory RaftProps
  imports RaftElection RaftSync
begin

text \<open>
  The properties of the log of a Raft node (\<^verbatim>\<open>example/raft_server/raft.cc\<close>), each with
  a concrete node at which it applies.
\<close>

section \<open>Concrete nodes\<close>

lemma peerUp_log:
  assumes "peerUp env pid addr self r = Some (b, r')"
  shows "m_log r' = m_log r" and "m_config r' = m_config r" and "length (m_peers r') = length (m_peers r)"
  using assms
  by (auto simp: peerUp_def resetTimer_def Let_def dest!: randBetweenTime_Some
      split: if_split_asm Option.bind_split_asm prod.split_asm)

lemma load_peers_log:
  "load_peers env i ps r = Some r' \<Longrightarrow>
     m_log r' = m_log r \<and> m_config r' = m_config r \<and> length (m_peers r') = length (m_peers r)"
proof (induction env i ps r rule: load_peers.induct)
  case (1 env i r)
  then show ?case by simp
next
  case (2 env i pid addr ps r)
  from "2.prems" obtain r1 where up: "peerUp env pid addr (pid = i) r = Some (True, r1)"
    and rest: "load_peers env i ps (if pid = i then setConneToPeer r1 else r1) = Some r'"
    by (auto simp: assert_that_def split: if_split_asm Option.bind_split_asm prod.split_asm)
  from "2.IH" [OF up refl _ rest, of "()"] peerUp_log [OF up] show ?case
    by (auto simp: setConneToPeer_def split: if_splits)
qed

text \<open>A node that has just started satisfies the invariant of the log.\<close>

lemma loadConfig_log_inv:
  assumes "loadConfig env junk rc i ps = Some r" and "0 < log_len rc"
    and "\<And>d. \<exists>b. snapshooter rc d = \<lparr>u_len = int (length b), u_data = Some b\<rparr>"
  shows "log_inv r"
proof -
  have "load_peers env i ps (raft_new junk rc) = Some r"
    using assms(1) by (auto simp: loadConfig_def split: Option.bind_split_asm)
  from load_peers_log [OF this] assms(2,3) show ?thesis
    by (simp add: log_inv_def wf_log_def wf_ring_def peers_ok_def snap_ok_def raft_new_def log_new_def
        the_log_def logFirstIndex_def logLastIndex_def)
qed

lemma trio_load: "i \<in> {0, 1, 2} \<Longrightarrow> loadConfig trio_env 0 trio_config i trio_peers = Some (trio i)"
proof -
  have "loadConfig trio_env 0 trio_config 0 trio_peers \<noteq> None"
    "loadConfig trio_env 0 trio_config 1 trio_peers \<noteq> None"
    "loadConfig trio_env 0 trio_config 2 trio_peers \<noteq> None" by code_simp+
  moreover assume "i \<in> {0, 1, 2}"
  ultimately show ?thesis by (auto simp: trio_def)
qed

lemma trio_log_inv: "i \<in> {0, 1, 2} \<Longrightarrow> log_inv (trio i)"
  by (rule loadConfig_log_inv [OF trio_load]) (auto simp: trio_config_def server_config_def
      intro: exI [of _ "[33]"])

lemma trio_config_log: "i \<in> {0, 1, 2} \<Longrightarrow> m_config (trio i) = trio_config \<and> m_log (trio i) = log_new 10"
  using load_peers_log [of trio_env i trio_peers "raft_new 0 trio_config" "trio i"] trio_load [of i]
  by (auto simp: loadConfig_def raft_new_def trio_config_def server_config_def
      split: Option.bind_split_asm)

text \<open>
  Node 0 with two entries of one byte in its log, both acknowledged and none applied, in a ring of
  three slots and with chunks of two bytes.
\<close>

definition demo_config :: "update list config" where
  "demo_config = trio_config\<lparr>log_len := 3, chunk_len := 2\<rparr>"

definition demo :: "entry list \<Rightarrow> int \<Rightarrow> int \<Rightarrow> update list raft" where
  "demo es acked appl = (trio 0)\<lparr>m_config := demo_config, m_log := \<lparr>l_first = 0, l_size = int (length es),
     l_acked = acked, l_applied = appl, l_entries = es @ replicate (3 - length es) entry_new,
     l_newentry = entry_new\<rparr>\<rparr>"

lemma demo_sel [simp]:
  "m_config (demo es k a) = demo_config" "l_first (m_log (demo es k a)) = 0"
  "l_size (m_log (demo es k a)) = int (length es)" "l_acked (m_log (demo es k a)) = k"
  "l_applied (m_log (demo es k a)) = a" "l_newentry (m_log (demo es k a)) = entry_new"
  "logFirstIndex (demo es k a) = 0" "logLastIndex (demo es k a) = int (length es) - 1"
  by (simp_all add: demo_def logFirstIndex_def logLastIndex_def)

lemma demo_len [simp]: "log_len demo_config = 3" "chunk_len demo_config = 2"
  by (simp_all add: demo_config_def)

lemma demo_log: "length es \<le> 3 \<Longrightarrow> the_log (demo es k a) = es"
  by (rule nth_equalityI)
    (auto simp: the_log_def entry_at_def nth_upto demo_def logFirstIndex_def logLastIndex_def nth_append)

lemma demo_log_inv:
  assumes "length es \<le> 3" and "\<forall>e \<in> set es. live e" and "0 \<le> a" and "a \<le> 3"
  shows "log_inv (demo es k a)"
proof -
  have "peers_ok (demo es k a)"
    using trio_log_inv [of 0] trio_config_log [of 0]
    by (simp add: log_inv_def peers_ok_def demo_def demo_config_def)
  moreover have "snap_ok (demo es k a)"
    by (auto simp: snap_ok_def demo_config_def trio_config_def server_config_def intro: exI [of _ "[33]"])
  moreover have "wf_log (demo es k a)"
    using assms demo_log [OF assms(1)] by (simp add: wf_log_def wf_ring_def) (simp add: demo_def)
  ultimately show ?thesis by (simp add: log_inv_def)
qed

section \<open>Properties\<close>

text \<open>
  C9: the log stays well-formed. A tick, an update from a client and every message, whatever is in it,
  keep the invariant of the ring: the slots of the log hold complete entries, its bounds are in range and
  the applied position is inside. A message is excepted when its previous index is below -1, or when
  the ring is full with exactly one entry applied.
\<close>

theorem raft_log_invariant:
  assumes "log_inv r"
  shows "(tick env ms r = Some (b, r1) \<longrightarrow> log_inv r1) \<and>
    (emit env data r = Some (index, r2) \<longrightarrow> log_inv r2) \<and>
    (handleMessage env m r = Some r3 \<longrightarrow> \<not> one_applied_full r \<longrightarrow>
      (\<forall>x. m = AnyUpdate x \<longrightarrow> -1 \<le> mu_previndex x) \<longrightarrow> log_inv r3)"
  using assms tick_log_inv emit_log_inv handleMessage_log_inv by blast

theorem raft_log_invariant_witness:
  "\<exists>b r1. tick trio_env 1000 (trio 0) = Some (b, r1) \<and> log_inv r1"
proof -
  have "tick trio_env 1000 (trio 0) \<noteq> None" by code_simp
  then obtain b r1 where t: "tick trio_env 1000 (trio 0) = Some (b, r1)" by auto
  have "log_inv (trio 0)" by (rule trio_log_inv) simp
  from raft_log_invariant [OF this, of trio_env 1000 b r1] t show ?thesis by blast
qed

text \<open>
  C10: \<^verbatim>\<open>append\<close> does to the list of entries what it should, with one exception: it
  succeeds exactly when the previous entry agrees and there is room, or something to compact; then the
  entry is the last one, or takes the place of the same entry, or, when its term is another, everything
  from its place on is dropped; a full ring is compacted first; a refused entry changes nothing. The
  exception is the full ring with exactly one entry applied: compacting it makes no room, and the new
  entry overwrites the first slot, the snapshot, while the log counts one entry more than the ring has
  slots.
\<close>

theorem append_refines_list:
  assumes "log_inv r" and "live e" and "\<not> e_snapshot e" and "-1 \<le> i"
  defines "k \<equiv> l_applied (m_log r) - l_first (m_log r)"
  shows "\<exists>ok e' r'. append_log i t e r = Some (ok, e', r') \<and>
    (ok \<longleftrightarrow> prev_ok i t r \<and> (room_for i r \<or> 0 < k)) \<and>
    (if \<not> ok then the_log r' = the_log r \<and> e' = e \<and> log_inv r'
     else if room_for i r then the_log r' = appended i e r \<and> log_inv r'
     else if k \<noteq> 1 then the_log r' = compacted_log r k @ [e] \<and> log_inv r'
     else logFirstIndex r' = logFirstIndex r \<and> entry_at r' (logFirstIndex r') = e \<and>
       l_size (m_log r') = log_len (m_config r') + 1)"
proof (cases "\<not> room_for i r \<and> k = 1")
  case one: True
  show ?thesis
  proof (cases "prev_ok i t r")
    case True
    from append_full_one_applied [OF assms(1-4) True] one show ?thesis
      unfolding k_def using True by (intro exI [of _ True]) auto
  next
    case False
    from append_refused [OF assms(1-4) False] assms(1) False show ?thesis by auto
  qed
next
  case False
  then have not_one: "\<not> (\<not> room_for i r \<and> l_applied (m_log r) = l_first (m_log r) + 1)" by (auto simp: k_def)
  have "wf_log r" "peers_ok r" "snap_ok r" using assms(1) by (simp_all add: log_inv_def)
  from append_log_spec [OF this assms(2-4) not_one, of t] obtain ok e' r' where
    r': "append_log i t e r = Some (ok, e', r')" "wf_log r'" "log_only r r'"
      "ok \<longleftrightarrow> prev_ok i t r \<and> (room_for i r \<or> 0 < k)" "\<not> ok \<longrightarrow> the_log r' = the_log r \<and> e' = e"
      "ok \<longrightarrow> the_log r' = (if room_for i r then appended i e r else compacted_log r k @ [e])"
    unfolding k_def by blast
  moreover have "log_inv r'" using log_inv_only [OF assms(1) r'(2,3)] .
  ultimately show ?thesis using False by auto
qed

theorem append_refines_list_witness:
  "\<exists>e' r'. append_log 0 1 (whole_entry 2 [8]) (demo [whole_entry 1 [7]] 0 0) = Some (True, e', r') \<and>
     the_log r' = [whole_entry 1 [7], whole_entry 2 [8]]"
proof -
  let ?r = "demo [whole_entry 1 [7]] 0 0"
  have inv: "log_inv ?r" by (rule demo_log_inv) simp_all
  have room: "room_for 0 ?r" by (simp add: room_for_def logIsFull_def)
  have log: "the_log ?r = [whole_entry 1 [7]]" by (rule demo_log) simp
  have prev: "prev_ok 0 1 ?r" by code_simp
  have ap: "appended 0 (whole_entry 2 [8]) ?r = [whole_entry 1 [7], whole_entry 2 [8]]"
    by (simp add: appended_def log)
  have "\<not> e_snapshot (whole_entry 2 [8])" by (simp add: whole_entry_def)
  from append_refines_list [OF inv live_whole this, of 0 1] room prev ap show ?thesis by auto
qed

text \<open>
  The exception is a defect that can happen: here is a node in that state. \<^verbatim>\<open>append\<close> on a full ring with exactly one
  entry applied compacts that one entry, which makes no room, and writes the new entry over the snapshot
  all the same: the log then counts one entry more than the ring has slots, and its first entry is the new
  one. (\<^verbatim>\<open>emit\<close> asks for more than one compacted entry, \<^verbatim>\<open>append\<close> does not.)
\<close>

lemma append_overwrites_snapshot:
  "\<exists>(r :: update list raft) e r'. log_inv r \<and> live e \<and> \<not> e_snapshot e \<and> prev_ok 2 1 r \<and>
     append_log 2 1 e r = Some (True, entry_new, r') \<and> l_size (m_log r') = log_len (m_config r') + 1 \<and>
     entry_at r' (logFirstIndex r') = e \<and> entry_at r' (logLastIndex r') = e"
proof -
  let ?r = "demo [whole_entry 1 [5], whole_entry 1 [6], whole_entry 1 [7]] 1 1"
  let ?e = "whole_entry 1 [8]"
  have inv: "log_inv ?r" by (rule demo_log_inv) simp_all
  have "prev_ok 2 1 ?r" by code_simp
  moreover have "case append_log 2 1 ?e ?r of Some (ok, e', r') \<Rightarrow> ok \<and> e' = entry_new \<and>
      l_size (m_log r') = log_len (m_config r') + 1 \<and>
      entry_at r' (logFirstIndex r') = ?e \<and> entry_at r' (logLastIndex r') = ?e | None \<Rightarrow> False"
    by code_simp
  then obtain r' where "append_log 2 1 ?e ?r = Some (True, entry_new, r')"
      "l_size (m_log r') = log_len (m_config r') + 1"
      "entry_at r' (logFirstIndex r') = ?e" "entry_at r' (logLastIndex r') = ?e"
    by (auto split: option.split_asm)
  moreover have "\<not> e_snapshot ?e" by (simp add: whole_entry_def)
  moreover have "live ?e" by simp
  ultimately show ?thesis using inv by blast
qed

text \<open>
  \<^verbatim>\<open>emit\<close> adds the client's update as the last entry, with the leader's term, and returns
  its index, which is also where the log now ends; a full log is compacted first, and when that frees no
  more than one entry the update is refused with -1. Nothing else in the log changes.
\<close>

lemma emit_appends_update:
  assumes "log_inv r" and "emit env data r = Some (index, r')"
  defines "k \<equiv> l_applied (m_log r) - l_first (m_log r)"
  shows "log_inv r' \<and> m_role r = Leader \<and>
    (if logIsFull r \<and> k \<le> 1 then index = -1 \<and> the_log r' = compacted_log r k
     else index = logLastIndex r + 1 \<and> logLastIndex r' = index \<and>
       butlast (the_log r') = (if logIsFull r then compacted_log r k else the_log r) \<and>
       the_log r' \<noteq> [] \<and> e_term (last (the_log r')) = m_term r \<and>
       e_update (last (the_log r')) = \<lparr>u_len = int (length data), u_data = Some data\<rparr>)"
  using emit_spec [of r env data index r'] emit_log_inv [OF assms(1,2)] assms
  unfolding k_def log_inv_def by blast

text \<open>
  C11: committed entries reach the database in order, each once. \<^verbatim>\<open>apply\<close> never aborts on a
  well-formed log; it applies exactly the entries from the applied position up to the acknowledged one (or
  the end of the log), oldest first, counts them, and moves the position past them; nothing else changes.
\<close>

theorem apply_in_order:
  assumes "log_inv r"
  defines "lo \<equiv> l_applied (m_log r)"
    and "hi \<equiv> max (l_applied (m_log r)) (min (l_acked (m_log r)) (logLastIndex r + 1))"
  shows "apply_log r = Some (hi - lo,
    r\<lparr>m_config := (m_config r)\<lparr>userdata := fold (\<lambda>u d. applier (m_config r) d u False)
        (map (\<lambda>i. e_update (entry_at r i)) [lo..hi - 1]) (userdata (m_config r))\<rparr>,
      m_log := (m_log r)\<lparr>l_applied := hi\<rparr>\<rparr>)"
  using apply_loop_spec [of r 0] assms(1)
  by (simp add: apply_log_def log_inv_def updates_def lo_def hi_def)

theorem apply_in_order_witness:
  "\<exists>r'. apply_log (demo [whole_entry 1 [7], whole_entry 1 [8]] 2 0) = Some (2, r') \<and>
     userdata (m_config r') = [e_update (whole_entry 1 [7]), e_update (whole_entry 1 [8])]"
proof -
  let ?r = "demo [whole_entry 1 [7], whole_entry 1 [8]] 2 0"
  have inv: "log_inv ?r" by (rule demo_log_inv) simp_all
  have "map (\<lambda>i. e_update (entry_at ?r i)) [0..2 - 1]
      = [e_update (whole_entry 1 [7]), e_update (whole_entry 1 [8])]"
    by code_simp
  moreover have "userdata demo_config = []" "applier demo_config = (\<lambda>d u s. d @ [u])"
    by (simp_all add: demo_config_def trio_config_def server_config_def)
  ultimately show ?thesis using apply_in_order [OF inv] by simp
qed

text \<open>
  C12: \<^verbatim>\<open>refreshAcked\<close> takes an entry as acknowledged only when a majority has it: it never
  takes the node's acknowledged position back, and moves it forward only to a position that more than half
  of the nodes (the node itself and the peers that said so) have reached. (A follower is also told the
  position by its leader, and believes it: \<^verbatim>\<open>note_acked\<close>, which is not the subject here.)
\<close>

theorem commit_needs_majority:
  assumes "log_inv r" and "refreshAcked r = Some r'"
  shows "l_acked (m_log r) \<le> l_acked (m_log r') \<and>
    (l_acked (m_log r') \<noteq> l_acked (m_log r) \<longrightarrow>
       m_peerNum r < 2 * (1 + int (card (backers (l_acked (m_log r')) r))))"
proof -
  from assms(2) obtain r1 n where 1: "for_each refresh_one (peer_range r) r = Some r1"
    and 2: "apply_log r1 = Some (n, r')"
    unfolding refreshAcked_def by (auto split: Option.bind_split_asm prod.split_asm)
  from refresh_loop_advances [OF 1] obtain a where
    r1: "r1 = r\<lparr>m_log := (m_log r)\<lparr>l_acked := a\<rparr>\<rparr>" "l_acked (m_log r) \<le> a"
      "a \<noteq> l_acked (m_log r) \<longrightarrow> committed_by_majority r a"
    by (auto simp: acked_advanced_def)
  have "log_inv r1" using assms(1) by (simp add: r1)
  then have "wf_log r1" by (simp add: log_inv_def)
  from apply_loop_spec [OF this, of 0] 2 have "l_acked (m_log r') = l_acked (m_log r1)"
    by (auto simp: apply_log_def)
  then show ?thesis using r1 by (simp add: committed_by_majority_def)
qed

definition acked_demo :: "update list raft" where
  "acked_demo = (let r = demo [whole_entry 1 [7], whole_entry 1 [8]] 0 0 in
     set_peer 1 (peer_new\<lparr>p_up := True, p_acked := \<lparr>pr_entries = 2, pr_bytes = 0\<rparr>\<rparr>) r)"

theorem commit_needs_majority_witness:
  "\<exists>r'. refreshAcked acked_demo = Some r' \<and> l_acked (m_log r') = 2 \<and>
     3 < 2 * (1 + int (card (backers 2 acked_demo)))"
proof -
  let ?base = "demo [whole_entry 1 [7], whole_entry 1 [8]] 0 0"
  have "same_log ?base acked_demo" by (simp add: acked_demo_def Let_def)
  moreover have "log_inv ?base" by (rule demo_log_inv) simp_all
  ultimately have inv: "log_inv acked_demo" by (rule log_inv_same)
  have "case refreshAcked acked_demo of Some r' \<Rightarrow> l_acked (m_log r') = 2 | None \<Rightarrow> False" by code_simp
  then obtain r' where r': "refreshAcked acked_demo = Some r'" "l_acked (m_log r') = 2"
    by (auto split: option.split_asm)
  have "l_acked (m_log acked_demo) = 0" "m_peerNum acked_demo = 3" by code_simp+
  with commit_needs_majority [OF inv r'(1)] r' show ?thesis by auto
qed







text \<open>The leader's side of a refusal.\<close>

lemma beat_one_peer:
  assumes "beat_one env s r = Some r'" and "get_peer s r = Some p"
  shows "m_me r' = m_me r" and "\<exists>q. get_peer s r' = Some q \<and> p_applied q = p_applied p \<and> p_up q = p_up p"
  using assms
  by (auto simp: beat_one_def send_def Let_def set_peer_def get_peer_def assert_that_def
      split: if_split_asm Option.bind_split_asm)

lemma handleDone_applied:
  assumes h: "handleDone env d l = Some l'" and "m_role l = Leader" and "from_id (md_msg d) \<noteq> m_me l"
    and p: "get_peer (from_id (md_msg d)) l = Some p" and "sequence (md_msg d) = p_sequence p"
    and "m_term l \<le> curterm (md_msg d)"
  shows "m_me l' = m_me l"
    and "\<exists>q. get_peer (from_id (md_msg d)) l' = Some q \<and> p_applied q = md_applied d \<and> p_up q = p_up p"
proof -
  let ?s = "from_id (md_msg d)"
  from p have nobody: "?s \<noteq> NOBODY" by (auto simp: get_peer_def NOBODY_def split: if_splits)
  define q where "q = note_done d (p\<lparr>p_sequence := p_sequence p + 1\<rparr>)"
  then have q: "p_applied q = md_applied d" "p_up q = p_up p" by simp_all
  have l': "l' = set_peer ?s q l \<or> beat env ?s (set_peer ?s q l) = Some l'"
    using h assms(2-6) unfolding handleDone_def Let_def q_def by (auto split: if_split_asm)
  have at: "get_peer ?s (set_peer ?s q l) = Some q"
    using p by (auto simp: get_peer_def set_peer_def split: if_splits)
  show "m_me l' = m_me l"
    and "\<exists>q. get_peer ?s l' = Some q \<and> p_applied q = md_applied d \<and> p_up q = p_up p"
    using l' at q beat_one_peer [OF _ at, of env l'] nobody by (auto simp: beat_def)
qed

text \<open>
  a refusal carries an uninitialised number. When a follower refuses an update that does not fit its
  log, the reply's count of applied entries is whatever the stack held, and the leader, which takes the
  refusal, records it all the same: from then on \<^verbatim>\<open>applied\<close> answers from it.
\<close>

lemma refusal_sets_junk_applied:
  assumes "appendable (mu_previndex m) (mu_prevterm m) f = Some False"
    and "\<not> mu_empty m" and "\<not> mu_snapshot m" and "handleUpdate env m f = Some f'"
    and "m_role l = Leader" and "m_me l \<noteq> m_me f" and "m_term l \<le> m_term f"
    and "get_peer (m_me f) l = Some p" and "p_sequence p = sequence (mu_msg m)" and "p_up p"
  shows "\<exists>h d. m_sent f' = m_sent f @ [(from_id (mu_msg m), h, AnyDone d)] \<and> \<not> md_success d \<and>
    (\<forall>l'. handleDone env' d l = Some l' \<longrightarrow>
       applied (m_me f) index l' = Some (index < md_applied (junk_reply env)))"
proof -
  let ?d = "(junk_reply env)\<lparr>md_msg := \<lparr>curterm = m_term f, from_id = m_me f, sequence = sequence (mu_msg m)\<rparr>,
      md_success := False,
      md_process := \<lparr>pr_entries = logLastIndex f + 1, pr_bytes = e_bytes (l_newentry (m_log f))\<rparr>\<rparr>"
  have "send (from_id (mu_msg m)) (AnyDone ?d) sizeof_MsgDone f = Some f'"
    using assms(1-4) by (simp add: handleUpdate_def accept_update_def Let_def)
  then obtain h where "m_sent f' = m_sent f @ [(from_id (mu_msg m), h, AnyDone ?d)]"
    by (auto simp: send_def abort_simps)
  moreover have "applied (m_me f) index l' = Some (index < md_applied (junk_reply env))"
    if "handleDone env' ?d l = Some l'" for l'
  proof -
    have "from_id (md_msg ?d) \<noteq> m_me l" "get_peer (from_id (md_msg ?d)) l = Some p"
      "sequence (md_msg ?d) = p_sequence p" "m_term l \<le> curterm (md_msg ?d)"
      using assms(6-9) by simp_all
    from handleDone_applied [OF that assms(5) this] assms(6,10) show ?thesis
      by (auto simp: applied_def)
  qed
  ultimately show ?thesis by (intro exI [of _ h] exI [of _ ?d]) simp
qed

definition stray_update :: msgUpdate where
  "stray_update = (junk_update trio_env 0)\<lparr>mu_msg := \<lparr>curterm = 0, from_id = 0, sequence = 4\<rparr>,
     mu_previndex := 3, mu_prevterm := 0, mu_totalLen := 1, mu_len := 1, mu_data := [1]\<rparr>"

definition stray_leader :: "update list raft" where
  "stray_leader = set_peer 1 (peer_new\<lparr>p_up := True, p_sequence := 4\<rparr>)
     ((trio 0)\<lparr>m_role := Leader, m_leaderId := 0\<rparr>)"

end
