(* ===== verification/DirProto.thy ===== *)
theory DirProto
  imports Buffer Text OrdMap
begin

text \<open>
  \<^verbatim>\<open>src/skylu/proto/dirserver_proto.h\<close> and \<^verbatim>\<open>dirserver_proto.cc\<close>: the packets
  between the directory server, the brokers and the clients. A packet is the eight bytes of
  \<^verbatim>\<open>struct DirServerPacket\<close> (a command, three bytes of padding, a little-endian
  \<^verbatim>\<open>int\<close>) and text lines: the host and port of a broker, then its topics with their
  message counts. The bytes nothing writes are the argument \<open>pad\<close>.
\<close>

datatype dirProto = COMMAND_REGISTER | COMMAND_REQUEST | COMMAND_ACK | COMMAND_KEEPALIVE

fun dir_code :: "dirProto \<Rightarrow> byte" where
  "dir_code COMMAND_REGISTER = 0"
| "dir_code COMMAND_REQUEST = 1"
| "dir_code COMMAND_ACK = 2"
| "dir_code COMMAND_KEEPALIVE = 3"

definition sizeof_DirServerPacket :: nat where "sizeof_DirServerPacket = 8"

record dirPacket =
  dcommand :: byte
  Msgbytes :: int

definition dir_packet_bytes :: "(nat \<Rightarrow> byte) \<Rightarrow> dirPacket \<Rightarrow> bytes" where
  "dir_packet_bytes pad m =
     [dcommand m] @ map pad [0..<3] @ le_bytes 4 (unat (of_int (Msgbytes m) :: u32))"

definition dir_packet_at :: "bytes \<Rightarrow> dirPacket" where
  "dir_packet_at p =
     \<lparr>dcommand = p ! 0, Msgbytes = sint (of_nat (le_nat (span 4 8 p)) :: u32)\<rparr>"

text \<open>A broker, and the topics it has with their message counts.\<close>

type_synonym topic_counts = "(bytes \<times> int) list"
type_synonym HostAndTopics = "bytes \<times> topic_counts"
type_synonym HostAndTopicsMap = "HostAndTopics list"

definition crlf :: bytes where "crlf = [13, 10]"

text \<open>\<^verbatim>\<open>getRegisteConf\<close>: the request a client sends.\<close>

definition getRegisteConf :: "(nat \<Rightarrow> byte) \<Rightarrow> bytes" where
  "getRegisteConf pad = dir_packet_bytes pad \<lparr>dcommand = dir_code COMMAND_REQUEST, Msgbytes = 0\<rparr>"

section \<open>Reading\<close>

definition topic_line :: "bytes \<Rightarrow> (bytes \<times> int) option" where
  "topic_line str =
     (let i = find_byte 58 str in do {
        num \<leftarrow> stoi (case i of Some n \<Rightarrow> drop (n + 1) str | None \<Rightarrow> str);
        Some (case i of Some n \<Rightarrow> take n str | None \<Rightarrow> str, num)
      })"

text \<open>\<^verbatim>\<open>insert\<close> into an unordered map.\<close>

definition um_insert :: "'k \<Rightarrow> 'v \<Rightarrow> ('k \<times> 'v) list \<Rightarrow> ('k \<times> 'v) list" where
  "um_insert k v m = (if map_of m k = None then AList.update k v m else m)"

text \<open>The loop over the lines that start before \<open>eof\<close>, a position in the vector of the buffer.\<close>

function read_topics :: "nat \<Rightarrow> topic_counts \<Rightarrow> buffer \<Rightarrow> (topic_counts \<times> buffer) option" where
  "read_topics eof topics buff =
     (case findCRLF buff of
        None \<Rightarrow> Some (topics, buff)
      | Some n \<Rightarrow>
          if m_rpos buff + n < eof then do {
            (topic, num) \<leftarrow> topic_line (take n (contents buff));
            buff' \<leftarrow> updatePosUntil (n + 2) buff;
            read_topics eof (um_insert topic num topics) buff'
          } else Some (topics, buff))"
  by pat_completeness auto
termination
  by (relation "measure (\<lambda>(eof, topics, buff). readableBytes buff)")
    (auto simp: updatePosUntil_def updatePos_def readableBytes_def resetAll_def split: if_splits)

declare read_topics.simps [simp del]

text \<open>
  \<^verbatim>\<open>serializationFromBuffer(Buffer *, HostAndTopics &)\<close>; \<open>m\<close> is what the reference
  parameter held.
\<close>

definition hostFromBuffer :: "buffer \<Rightarrow> HostAndTopics \<Rightarrow> (HostAndTopics \<times> buffer) option" where
  "hostFromBuffer buff m = do {
     let p = drop (m_rpos buff) (m_queue buff);
     buff1 \<leftarrow> updatePos sizeof_DirServerPacket buff;
     let msg = dir_packet_at p;
     let eof = nat (int (m_rpos buff1) + Msgbytes msg);
     assert_that (Msgbytes msg \<noteq> 0);
     (case findCRLF buff1 of
        None \<Rightarrow> Some (m, buff1)
      | Some n \<Rightarrow> do {
          let host = take n (contents buff1);
          buff2 \<leftarrow> updatePosUntil (n + 2) buff1;
          if readableBytes buff2 = 0 then do {
            assert_that (host \<noteq> []);
            Some ((host, []), buff2)
          } else do {
            (topics, buff3) \<leftarrow> read_topics eof [] buff2;
            Some ((host, topics), buff3)
          }
        })
   }"

lemma read_topics_less:
  "read_topics eof topics b = Some (topics', b') \<Longrightarrow> readableBytes b' \<le> readableBytes b"
proof (induction eof topics b rule: read_topics.induct)
  case (1 eof topics buff)
  show ?case
  proof (cases "findCRLF buff")
    case None
    with 1 show ?thesis by (simp add: read_topics.simps)
  next
    case (Some n)
    show ?thesis
    proof (cases "m_rpos buff + n < eof")
      case False
      with 1 Some show ?thesis by (simp add: read_topics.simps split: if_splits)
    next
      case True
      with "1.prems" Some obtain t v b1 where t: "topic_line (take n (contents buff)) = Some (t, v)"
        and b1: "updatePosUntil (n + 2) buff = Some b1"
        and r: "read_topics eof (um_insert t v topics) b1 = Some (topics', b')"
        by (subst (asm) read_topics.simps) (auto split: Option.bind_split_asm)
      have "readableBytes b' \<le> readableBytes b1" by (rule "1.IH" [OF Some True t refl b1 r])
      moreover have "readableBytes b1 \<le> readableBytes buff"
        using b1 by (auto simp: updatePosUntil_def updatePos_def readableBytes_def resetAll_def split: if_splits)
      ultimately show ?thesis by simp
    qed
  qed
qed

lemma updatePos_less: "updatePos n b = Some b' \<Longrightarrow> readableBytes b' = readableBytes b - n"
  by (auto simp: updatePos_def readableBytes_def resetAll_def split: if_splits)

lemma hostFromBuffer_less:
  assumes "hostFromBuffer b m = Some (m', b')"
  shows "readableBytes b' + 8 \<le> readableBytes b"
proof -
  from assms obtain b1 where b1: "updatePos sizeof_DirServerPacket b = Some b1"
    by (auto simp: hostFromBuffer_def Let_def split: Option.bind_split_asm)
  then have 1: "readableBytes b1 + 8 = readableBytes b"
    by (auto simp: updatePos_def readableBytes_def resetAll_def sizeof_DirServerPacket_def split: if_splits)
  have "readableBytes b' \<le> readableBytes b1"
    using assms b1
    by (auto simp: hostFromBuffer_def Let_def updatePosUntil_def split: Option.bind_split_asm option.splits if_splits
        dest!: read_topics_less updatePos_less)
  with 1 show ?thesis by simp
qed

text \<open>\<^verbatim>\<open>serializationFromBuffer(Buffer *, HostAndTopicsMap &)\<close>\<close>

function mapFromBuffer :: "buffer \<Rightarrow> HostAndTopicsMap \<Rightarrow> (HostAndTopicsMap \<times> buffer) option" where
  "mapFromBuffer buff m =
     (if readableBytes buff \<noteq> 0 then
        (case hostFromBuffer buff ([], []) of
           None \<Rightarrow> None
         | Some (info, buff') \<Rightarrow> mapFromBuffer buff' (um_insert (fst info) (snd info) m))
      else Some (m, buff))"
  by pat_completeness auto
termination
  by (relation "measure (\<lambda>(buff, m). readableBytes buff)") (auto dest: hostFromBuffer_less)

declare mapFromBuffer.simps [simp del]

section \<open>Writing\<close>

definition topic_text :: "bytes \<times> int \<Rightarrow> bytes" where
  "topic_text i = fst i @ [58] @ to_string_int (snd i) @ crlf"

text \<open>The body length counts every line break of a topic twice.\<close>

fun topics_length :: "topic_counts \<Rightarrow> nat" where
  "topics_length [] = 0"
| "topics_length (i # is) = length (topic_text i) + 2 + topics_length is"

fun append_topics :: "topic_counts \<Rightarrow> buffer \<Rightarrow> buffer option" where
  "append_topics [] tmp = Some tmp"
| "append_topics (i # is) tmp = do { tmp' \<leftarrow> buf_append (topic_text i) tmp; append_topics is tmp' }"

text \<open>The header is stored through the read pointer after the lines are in.\<close>

definition store_header :: "(nat \<Rightarrow> byte) \<Rightarrow> dirPacket \<Rightarrow> buffer \<Rightarrow> buffer" where
  "store_header pad m b = b\<lparr>m_queue := splice_at (m_rpos b) (dir_packet_bytes pad m) (m_queue b)\<rparr>"

fun mapToBuffer :: "(nat \<Rightarrow> byte) \<Rightarrow> HostAndTopicsMap \<Rightarrow> buffer \<Rightarrow> buffer option" where
  "mapToBuffer pad [] buff = Some buff"
| "mapToBuffer pad (it # m) buff = do {
     tmp1 \<leftarrow> buf_append (dir_packet_bytes (\<lambda>_. 0) \<lparr>dcommand = 0, Msgbytes = 0\<rparr>) (buffer_new kInitialSize);
     tmp2 \<leftarrow> buf_append (fst it @ crlf) tmp1;
     tmp3 \<leftarrow> append_topics (snd it) tmp2;
     let bodyLength = length (fst it) + 2 + topics_length (snd it);
     let tmp4 = store_header (\<lambda>_. 0) \<lparr>dcommand = dir_code COMMAND_REQUEST, Msgbytes = int bodyLength\<rparr> tmp3;
     buff' \<leftarrow> buf_append (contents tmp4) buff;
     mapToBuffer pad m buff'
   }"

section \<open>What comes back\<close>

lemma length_dir_packet [simp]: "length (dir_packet_bytes pad m) = 8"
  by (simp add: dir_packet_bytes_def)

lemma dir_packet_roundtrip:
  assumes "- (2 ^ 31) \<le> Msgbytes m" and "Msgbytes m < 2 ^ 31"
  shows "dir_packet_at (dir_packet_bytes pad m @ rest) = m"
proof -
  have "sint (of_int (Msgbytes m) :: u32) = Msgbytes m"
    using assms by (simp add: signed_of_int signed_take_bit_int_eq_self)
  moreover have "span 4 8 (dir_packet_bytes pad m @ rest) = le_bytes 4 (unat (of_int (Msgbytes m) :: u32))"
  proof -
    have "dir_packet_bytes pad m @ rest =
        ([dcommand m] @ map pad [0..<3]) @ le_bytes 4 (unat (of_int (Msgbytes m) :: u32)) @ rest"
      by (simp add: dir_packet_bytes_def)
    moreover have "length ([dcommand m] @ map pad [0..<3]) = 4" by simp
    ultimately show ?thesis by (simp only: span_append_left) (simp add: span_def)
  qed
  ultimately show ?thesis
    by (simp add: dir_packet_at_def) (simp add: dir_packet_bytes_def)
qed

lemma search_crlf_at: "13 \<notin> set xs \<Longrightarrow> search_crlf (xs @ 13 # 10 # ys) = Some (length xs)"
proof (induction xs)
  case (Cons x xs)
  then show ?case by (cases xs) auto
qed simp

lemma findCRLF_line:
  "contents b = line @ crlf @ rest \<Longrightarrow> 13 \<notin> set line \<Longrightarrow> findCRLF b = Some (length line)"
  by (simp add: findCRLF_def crlf_def search_crlf_at)

text \<open>Taking a line off the buffer; the end of the readable bytes stays where it is in the vector.\<close>

lemma take_line:
  assumes "wf_buffer b" and "contents b = line @ crlf @ rest"
  obtains b' where "updatePosUntil (length line + 2) b = Some b'" and "wf_buffer b'"
    and "contents b' = rest" and "rest \<noteq> [] \<Longrightarrow> m_rpos b' = m_rpos b + length line + 2"
proof -
  have r: "readableBytes b = length line + 2 + length rest"
    using length_contents [OF assms(1)] assms(2) by (simp add: crlf_def)
  then obtain b' where b': "updatePos (length line + 2) b = Some b'" "wf_buffer b'"
    "contents b' = drop (length line + 2) (contents b)"
    using updatePos_spec [OF assms(1), of "length line + 2"] by auto
  show thesis
  proof (rule that)
    show "updatePosUntil (length line + 2) b = Some b'" using b'(1) by (simp add: updatePosUntil_def)
    show "contents b' = rest" using b'(3) assms(2) by (simp add: crlf_def)
    show "m_rpos b' = m_rpos b + length line + 2" if "rest \<noteq> []"
      using b'(1) r that by (auto simp: updatePos_def split: if_splits)
  qed (rule b'(2))
qed

text \<open>Names that the format can carry.\<close>

definition topic_ok :: "bytes \<times> int \<Rightarrow> bool" where
  "topic_ok i \<longleftrightarrow> 58 \<notin> set (fst i) \<and> 13 \<notin> set (fst i) \<and> - (2 ^ 31) \<le> snd i \<and> snd i < 2 ^ 31"

lemma no_cr: "13 \<notin> set (to_string_int i)"
proof -
  have "13 \<notin> set (to_string n)" for n
    using to_string_digits [of n] by (force simp: is_digit_def word_le_nat_alt)
  then show ?thesis by (simp add: to_string_int_def)
qed

lemma topic_line_text:
  "topic_ok i \<Longrightarrow> topic_line (fst i @ [58] @ to_string_int (snd i)) = Some i"
  using stoi_to_string_int [of "[]" "snd i"] find_byte_append [of 58 "fst i" "to_string_int (snd i)"]
  by (simp add: topic_ok_def topic_line_def)

lemma um_insert_new: "map_of m k = None \<Longrightarrow> um_insert k v m = m @ [(k, v)]"
proof -
  have "k \<notin> fst ` set m \<Longrightarrow> AList.update k v m = m @ [(k, v)]" by (induction m) auto
  then show "map_of m k = None \<Longrightarrow> ?thesis" by (simp add: um_insert_def map_of_eq_None_iff)
qed

lemma read_topics_all:
  "wf_buffer b \<Longrightarrow> contents b = concat (map topic_text ts) \<Longrightarrow> \<forall>i \<in> set ts. topic_ok i \<Longrightarrow>
   distinct (map fst (acc @ ts)) \<Longrightarrow> (ts \<noteq> [] \<longrightarrow> m_rpos b + length (contents b) \<le> eof) \<Longrightarrow>
     \<exists>b'. read_topics eof acc b = Some (acc @ ts, b') \<and> wf_buffer b' \<and> contents b' = []"
proof (induction ts arbitrary: acc b)
  case Nil
  then have "findCRLF b = None" by (simp add: findCRLF_def)
  with Nil show ?case by (simp add: read_topics.simps)
next
  case (Cons i ts)
  let ?line = "fst i @ [58] @ to_string_int (snd i)"
  have c: "contents b = ?line @ crlf @ concat (map topic_text ts)"
    using Cons.prems(2) by (simp add: topic_text_def [of i])
  have i: "topic_ok i" using Cons.prems(3) by simp
  then have f: "findCRLF b = Some (length ?line)"
    using no_cr by (intro findCRLF_line [OF c]) (auto simp: topic_ok_def)
  obtain b1 where b1: "updatePosUntil (length ?line + 2) b = Some b1" "wf_buffer b1"
    "contents b1 = concat (map topic_text ts)"
    "concat (map topic_text ts) \<noteq> [] \<Longrightarrow> m_rpos b1 = m_rpos b + length ?line + 2"
    using take_line [OF Cons.prems(1) c] by blast
  have "m_rpos b + length ?line < eof" using Cons.prems(5) c by (simp add: crlf_def)
  moreover have "take (length ?line) (contents b) = ?line" by (simp add: c)
  moreover have "um_insert (fst i) (snd i) acc = acc @ [i]"
    using Cons.prems(4) by (subst um_insert_new) (auto simp: map_of_eq_None_iff)
  ultimately have step: "read_topics eof acc b = read_topics eof (acc @ [i]) b1"
    using f b1(1) topic_line_text [OF i] by (subst read_topics.simps) (cases i, simp)
  have "\<exists>b'. read_topics eof (acc @ [i]) b1 = Some ((acc @ [i]) @ ts, b') \<and> wf_buffer b' \<and> contents b' = []"
  proof (rule Cons.IH [OF b1(2,3)])
    show "ts \<noteq> [] \<longrightarrow> m_rpos b1 + length (contents b1) \<le> eof"
    proof
      assume "ts \<noteq> []"
      then have "concat (map topic_text ts) \<noteq> []" by (cases ts) (simp_all add: topic_text_def)
      with b1(3,4) c Cons.prems(5) show "m_rpos b1 + length (contents b1) \<le> eof"
        by (simp add: crlf_def)
    qed
  qed (use Cons.prems(3,4) in auto)
  with step show ?case by simp
qed

text \<open>A packet of one broker, whose length field is at least what follows.\<close>

lemma hostFromBuffer_packet:
  assumes wf: "wf_buffer b" and c: "contents b = dir_packet_bytes pad m @ host @ crlf @ concat (map topic_text ts)"
    and host: "host \<noteq> []" "13 \<notin> set host" and ts: "\<forall>i \<in> set ts. topic_ok i" "distinct (map fst ts)"
    and len: "int (length host + 2 + length (concat (map topic_text ts))) \<le> Msgbytes m" "Msgbytes m < 2 ^ 31"
  shows "\<exists>b'. hostFromBuffer b m0 = Some ((host, ts), b') \<and> wf_buffer b' \<and> contents b' = []"
proof -
  let ?text = "concat (map topic_text ts)"
  have "8 \<le> readableBytes b" using length_contents [OF wf] c by simp
  then obtain b1 where b1: "updatePos 8 b = Some b1" "wf_buffer b1" "contents b1 = drop 8 (contents b)"
    using updatePos_spec [OF wf, of 8] by auto
  have c1: "contents b1 = host @ crlf @ ?text" using b1(3) c by simp
  have at: "dir_packet_at (drop (m_rpos b) (m_queue b)) = m"
  proof -
    from pointer_contents [OF wf] obtain rest where "drop (m_rpos b) (m_queue b) = dir_packet_bytes pad m @ (host @ crlf @ ?text @ rest)"
      using c by auto
    with dir_packet_roundtrip [of m] len show ?thesis by simp
  qed
  have f: "findCRLF b1 = Some (length host)" by (rule findCRLF_line [OF c1 host(2)])
  obtain b2 where b2: "updatePosUntil (length host + 2) b1 = Some b2" "wf_buffer b2" "contents b2 = ?text"
    "?text \<noteq> [] \<Longrightarrow> m_rpos b2 = m_rpos b1 + length host + 2"
    using take_line [OF b1(2) c1] by blast
  have rd: "readableBytes b2 = length ?text" using length_contents [OF b2(2)] b2(3) by simp
  have nonempty: "?text = [] \<longleftrightarrow> ts = []" by (cases ts) (simp_all add: topic_text_def)
  show ?thesis
  proof (cases "ts = []")
    case True
    then show ?thesis
      using b1(1) at f b2 c1 host len rd by (simp add: hostFromBuffer_def sizeof_DirServerPacket_def Let_def)
  next
    case False
    let ?eof = "nat (int (m_rpos b1) + Msgbytes m)"
    have "\<exists>b'. read_topics ?eof [] b2 = Some ([] @ ts, b') \<and> wf_buffer b' \<and> contents b' = []"
      by (rule read_topics_all [OF b2(2,3) ts(1)]) (use ts(2) b2(3,4) nonempty False len in auto)
    then show ?thesis
      using False b1(1) at f b2 c1 host len rd nonempty
      by (auto simp: hostFromBuffer_def sizeof_DirServerPacket_def Let_def)
  qed
qed

lemma append_topics_contents:
  "wf_buffer b \<Longrightarrow> \<exists>b'. append_topics ts b = Some b' \<and> wf_buffer b' \<and>
     contents b' = contents b @ concat (map topic_text ts)"
proof (induction ts arbitrary: b)
  case (Cons i ts)
  obtain b1 where "buf_append (topic_text i) b = Some b1" "wf_buffer b1"
    "contents b1 = contents b @ topic_text i"
    using buf_append_spec [OF Cons.prems] by blast
  with Cons.IH [of b1] show ?case by auto
qed simp

lemma store_header_contents:
  assumes "wf_buffer b" and "8 \<le> readableBytes b"
  shows "wf_buffer (store_header pad m b)"
    and "contents (store_header pad m b) = dir_packet_bytes pad m @ drop 8 (contents b)"
proof -
  have len: "m_rpos b + 8 \<le> m_wpos b" "m_wpos b \<le> length (m_queue b)"
    using assms by (auto simp: wf_buffer_def readableBytes_def)
  then show "wf_buffer (store_header pad m b)"
    using assms(1) by (simp add: store_header_def wf_buffer_def)
  have "m_wpos b - (m_rpos b + 8) + (m_rpos b + 8) = m_wpos b" using len by simp
  then show "contents (store_header pad m b) = dir_packet_bytes pad m @ drop 8 (contents b)"
    using len by (simp add: store_header_def contents_def span_def splice_at_def drop_take min_def add.commute)
qed

lemma topics_length_text: "topics_length ts = length (concat (map topic_text ts)) + 2 * length ts"
  by (induction ts) simp_all

text \<open>What is written for a map: one packet per broker.\<close>

definition host_packet :: "HostAndTopics \<Rightarrow> bytes" where
  "host_packet it =
     dir_packet_bytes (\<lambda>_. 0) \<lparr>dcommand = dir_code COMMAND_REQUEST,
        Msgbytes = int (length (fst it) + 2 + topics_length (snd it))\<rparr>
     @ fst it @ crlf @ concat (map topic_text (snd it))"

lemma mapToBuffer_contents:
  "wf_buffer b \<Longrightarrow> \<exists>b'. mapToBuffer pad m b = Some b' \<and> wf_buffer b' \<and>
     contents b' = contents b @ concat (map host_packet m)"
proof (induction m arbitrary: b)
  case (Cons it m)
  let ?h0 = "dir_packet_bytes (\<lambda>_. 0) \<lparr>dcommand = 0, Msgbytes = 0\<rparr>"
  obtain t1 where t1: "buf_append ?h0 (buffer_new kInitialSize) = Some t1" "wf_buffer t1" "contents t1 = ?h0"
    using buf_append_spec [OF wf_buffer_new, of ?h0 kInitialSize] by auto
  obtain t2 where t2: "buf_append (fst it @ crlf) t1 = Some t2" "wf_buffer t2" "contents t2 = ?h0 @ fst it @ crlf"
    using buf_append_spec [OF t1(2), of "fst it @ crlf"] t1(3) by auto
  obtain t3 where t3: "append_topics (snd it) t2 = Some t3" "wf_buffer t3"
    "contents t3 = ?h0 @ fst it @ crlf @ concat (map topic_text (snd it))"
    using append_topics_contents [OF t2(2), of "snd it"] t2(3) by auto
  have "8 \<le> readableBytes t3" using length_contents [OF t3(2)] t3(3) by simp
  note hdr = store_header_contents(2) [OF t3(2) this]
  let ?m = "\<lparr>dcommand = dir_code COMMAND_REQUEST, Msgbytes = int (length (fst it) + 2 + topics_length (snd it))\<rparr>"
  have packet: "contents (store_header (\<lambda>_. 0) ?m t3) = host_packet it"
    using t3(3) by (simp add: hdr host_packet_def)
  obtain b1 where b1: "buf_append (host_packet it) b = Some b1" "wf_buffer b1"
    "contents b1 = contents b @ host_packet it"
    using buf_append_spec [OF Cons.prems, of "host_packet it"] by auto
  have "mapToBuffer pad (it # m) b = mapToBuffer pad m b1"
    using t1(1) t2(1) t3(1) b1(1) packet by (simp add: Let_def)
  with Cons.IH [OF b1(2)] b1(3) show ?case by simp
qed simp

lemma mapFromBuffer_one:
  assumes "wf_buffer b" and "contents b = host_packet (host, ts)" and "host \<noteq> []" and "13 \<notin> set host"
    and "\<forall>i \<in> set ts. topic_ok i" and "distinct (map fst ts)"
    and "length host + 2 + topics_length ts < 2 ^ 31"
  shows "\<exists>b'. mapFromBuffer b [] = Some ([(host, ts)], b')"
proof -
  obtain b' where b': "hostFromBuffer b ([], []) = Some ((host, ts), b')" "wf_buffer b'" "contents b' = []"
    using hostFromBuffer_packet [OF assms(1) assms(2) [unfolded host_packet_def fst_conv snd_conv] assms(3,4,5,6)] assms(7)
    by (auto simp: topics_length_text)
  have "readableBytes b' = 0" using length_contents [OF b'(2)] b'(3) by simp
  moreover have "readableBytes b \<noteq> 0"
    using length_contents [OF assms(1)] assms(2) by (simp add: host_packet_def)
  ultimately show ?thesis
    using b'(1) by (subst mapFromBuffer.simps) (simp add: mapFromBuffer.simps [of b'] um_insert_def)
qed

end
