(* ===== verification/MqBusd.thy ===== *)
theory MqBusd
  imports DirProto
begin

text \<open>
  \<^verbatim>\<open>src/example/mqbusd/mqbusd.h\<close> and \<^verbatim>\<open>mqbusd.cc\<close>: what producers and consumers have
  in common, the talk with the directory servers and the clients of the brokers they name. Producer and
  Consumer extend the record, as the classes extend the class.

  A connection is its identity and its name. \<open>connected\<close> holds the identities in the state
  \<^verbatim>\<open>kConnected\<close>, in which alone \<^verbatim>\<open>TcpConnection::send\<close> sends and empties the buffer;
  \<open>sent\<close> collects what is sent. What a user's connection callback does is not part of the state.
\<close>

record tcp_conne =
  t_id :: nat
  t_name :: bytes

record tcp_client =
  tc_host :: bytes
  tc_port :: int
  tc_name :: bytes
  tc_connection :: "tcp_conne option"

record busd =
  m_dir_conns :: "tcp_conne option list"
  m_mqserver_clients :: "(bytes \<times> tcp_client) list"
  m_updateMqBrokerConfTimer :: bool
  m_isVaild :: bool
  m_mqserver_info_tmp :: HostAndTopicsMap
  m_mqserver_info :: HostAndTopicsMap
  m_recv_dir_count :: nat
  static_i :: nat
  connected :: "nat list"
  sent :: "(nat \<times> bytes) list"

definition busd_init :: "nat \<Rightarrow> busd" where
  "busd_init dirs =
     \<lparr>m_dir_conns = replicate dirs None, m_mqserver_clients = [], m_updateMqBrokerConfTimer = False,
      m_isVaild = False, m_mqserver_info_tmp = [], m_mqserver_info = [], m_recv_dir_count = 0,
      static_i = 0, connected = [], sent = []\<rparr>"

section \<open>Connections\<close>

definition conne_send :: "tcp_conne \<Rightarrow> bytes \<Rightarrow> 'a busd_scheme \<Rightarrow> 'a busd_scheme" where
  "conne_send conne data s =
     (if t_id conne \<in> set (connected s) then s\<lparr>sent := sent s @ [(t_id conne, data)]\<rparr> else s)"

text \<open>\<^verbatim>\<open>TcpConnection::send(Buffer *)\<close>\<close>

definition conne_send_buffer :: "tcp_conne \<Rightarrow> buffer \<Rightarrow> 'a busd_scheme \<Rightarrow> buffer \<times> 'a busd_scheme" where
  "conne_send_buffer conne buff s =
     (if t_id conne \<in> set (connected s) then (resetAll buff, conne_send conne (contents buff) s)
      else (buff, s))"

lemma snd_conne_send_buffer: "snd (conne_send_buffer c buff s) = conne_send c (contents buff) s"
  by (simp add: conne_send_buffer_def conne_send_def)

text \<open>
  \<^verbatim>\<open>TcpConnection::shutdown\<close> and the state after \<^verbatim>\<open>handleClose\<close>: nothing more is sent.
\<close>

definition conne_down :: "tcp_conne \<Rightarrow> 'a busd_scheme \<Rightarrow> 'a busd_scheme" where
  "conne_down conne s = s\<lparr>connected := removeAll (t_id conne) (connected s)\<rparr>"

text \<open>
  \<^verbatim>\<open>~TcpClient\<close> shuts its connection down when nobody else holds it (\<open>held\<close>).
\<close>

definition destroy_client :: "(tcp_conne \<Rightarrow> bool) \<Rightarrow> tcp_client \<Rightarrow> 'a busd_scheme \<Rightarrow> 'a busd_scheme" where
  "destroy_client held c s =
     (case tc_connection c of
        None \<Rightarrow> s
      | Some conne \<Rightarrow> if held conne then s else conne_down conne s)"

section \<open>Brokers\<close>

text \<open>
  The host and the port of an address, as the code cuts them; without a colon \<^verbatim>\<open>find\<close> gives -1,
  and both are the whole string.
\<close>

definition host_of :: "bytes \<Rightarrow> bytes" where
  "host_of hp = (case find_byte 58 hp of None \<Rightarrow> hp | Some flag \<Rightarrow> take flag hp)"

definition port_of :: "bytes \<Rightarrow> int" where
  "port_of hp = (case find_byte 58 hp of None \<Rightarrow> atoi hp | Some flag \<Rightarrow> atoi (drop (flag + 1) hp))"

text \<open>``mqServerClient Id''\<close>

definition client_prefix :: bytes where
  "client_prefix = [109, 113, 83, 101, 114, 118, 101, 114, 67, 108, 105, 101, 110, 116, 32, 73, 100]"

definition new_client :: "bytes \<Rightarrow> 'a busd_scheme \<Rightarrow> 'a busd_scheme" where
  "new_client hp s =
     (if map_of (m_mqserver_clients s) hp = None then
        (let i = static_i s + 1 in
         s\<lparr>static_i := i,
           m_mqserver_clients := AList.update hp
             \<lparr>tc_host = host_of hp, tc_port = port_of hp, tc_name = client_prefix @ to_string i,
              tc_connection = None\<rparr> (m_mqserver_clients s)\<rparr>)
      else s)"

definition connectToMqBroker :: "'a busd_scheme \<Rightarrow> 'a busd_scheme" where
  "connectToMqBroker s = fold (\<lambda>it. new_client (fst it)) (m_mqserver_info s) s"

definition erase_client :: "(tcp_conne \<Rightarrow> bool) \<Rightarrow> bytes \<times> tcp_client \<Rightarrow> 'a busd_scheme \<Rightarrow> 'a busd_scheme" where
  "erase_client held e s =
     destroy_client held (snd e) (s\<lparr>m_mqserver_clients := AList.delete (fst e) (m_mqserver_clients s)\<rparr>)"

text \<open>
  \<^verbatim>\<open>updateMqBrokerClients\<close>; \<open>connect\<close> is the virtual \<^verbatim>\<open>connectToMqBroker\<close>.
\<close>

definition updateMqBrokerClients ::
    "('a busd_scheme \<Rightarrow> tcp_conne \<Rightarrow> bool) \<Rightarrow> ('a busd_scheme \<Rightarrow> 'a busd_scheme option) \<Rightarrow>
     'a busd_scheme \<Rightarrow> 'a busd_scheme option" where
  "updateMqBrokerClients held connect s = do {
     s1 \<leftarrow> (if m_mqserver_info_tmp s = [] then
              Some ((fold (erase_client (held s)) (m_mqserver_clients s) s)\<lparr>m_mqserver_info := []\<rparr>)
            else
              connect (fold (erase_client (held s))
                (filter (\<lambda>e. map_of (m_mqserver_info_tmp s) (fst e) = None) (m_mqserver_clients s))
                (s\<lparr>m_mqserver_info := m_mqserver_info_tmp s\<rparr>)));
     Some (s1\<lparr>m_updateMqBrokerConfTimer := True\<rparr>)
   }"

section \<open>The directory\<close>

text \<open>Two unordered maps are the same when they have the same entries.\<close>

definition um_same :: "('v \<Rightarrow> 'w \<Rightarrow> bool) \<Rightarrow> ('k \<times> 'v) list \<Rightarrow> ('k \<times> 'w) list \<Rightarrow> bool" where
  "um_same same m n \<longleftrightarrow> length m = length n \<and>
     list_all (\<lambda>(k, v). case map_of n k of None \<Rightarrow> False | Some w \<Rightarrow> same v w) m"

definition info_same :: "HostAndTopicsMap \<Rightarrow> HostAndTopicsMap \<Rightarrow> bool" where
  "info_same = um_same (um_same (=))"

definition onNewDirServerConnection :: "(nat \<Rightarrow> byte) \<Rightarrow> tcp_conne \<Rightarrow> 'a busd_scheme \<Rightarrow> 'a busd_scheme" where
  "onNewDirServerConnection pad conne s = conne_send conne (getRegisteConf pad) s"

definition onMessageFromDirServer ::
    "('a busd_scheme \<Rightarrow> tcp_conne \<Rightarrow> bool) \<Rightarrow> ('a busd_scheme \<Rightarrow> 'a busd_scheme option) \<Rightarrow>
     buffer \<Rightarrow> 'a busd_scheme \<Rightarrow> (buffer \<times> 'a busd_scheme) option" where
  "onMessageFromDirServer held connect buff s = do {
     (buff', s1) \<leftarrow>
       (if readableBytes buff \<noteq> sizeof_DirServerPacket then do {
          (m, b) \<leftarrow> mapFromBuffer buff (m_mqserver_info_tmp s);
          Some (b, s\<lparr>m_mqserver_info_tmp := m\<rparr>)
        } else do {
          b \<leftarrow> updatePos sizeof_DirServerPacket buff;
          Some (b, s)
        });
     let s2 = s1\<lparr>m_recv_dir_count := m_recv_dir_count s1 + 1\<rparr>;
     if m_recv_dir_count s2 * 2 \<ge> length (m_dir_conns s2) then do {
       s3 \<leftarrow> (if \<not> info_same (m_mqserver_info s2) (m_mqserver_info_tmp s2) \<or> \<not> m_isVaild s2
              then updateMqBrokerClients held connect s2 else Some s2);
       Some (buff', s3\<lparr>m_mqserver_info_tmp := [], m_recv_dir_count := 0\<rparr>)
     } else Some (buff', s2)
   }"

text \<open>The timer that asks every directory server that is connected.\<close>

definition updateMqSeverConfWithMs :: "(nat \<Rightarrow> byte) \<Rightarrow> 'a busd_scheme \<Rightarrow> 'a busd_scheme" where
  "updateMqSeverConfWithMs pad s =
     fold (\<lambda>it. case it of None \<Rightarrow> id | Some conne \<Rightarrow> conne_send conne (getRegisteConf pad)) (m_dir_conns s) s"

definition onConnectionToMqBroker :: "'a busd_scheme \<Rightarrow> 'a busd_scheme" where
  "onConnectionToMqBroker s = s\<lparr>m_isVaild := True\<rparr>"

section \<open>Connections of the clients\<close>

text \<open>
  \<^verbatim>\<open>TcpClient::newConnection\<close> and \<^verbatim>\<open>removeConnection\<close> of the client of an address:
  the connection is established before the callback of the connection runs; it is disconnected before
  the callback of the close runs, and forgotten after it. The client of a broker does not retry.
\<close>

definition client_conne :: "bytes \<Rightarrow> tcp_conne option \<Rightarrow> 'a busd_scheme \<Rightarrow> 'a busd_scheme" where
  "client_conne hp conne s =
     (case map_of (m_mqserver_clients s) hp of
        None \<Rightarrow> s
      | Some c \<Rightarrow> s\<lparr>m_mqserver_clients := AList.update hp (c\<lparr>tc_connection := conne\<rparr>) (m_mqserver_clients s)\<rparr>)"

definition newConnection ::
    "(tcp_conne \<Rightarrow> 'a busd_scheme \<Rightarrow> 'a busd_scheme option) \<Rightarrow> bytes \<Rightarrow> tcp_conne \<Rightarrow>
     'a busd_scheme \<Rightarrow> 'a busd_scheme option" where
  "newConnection callback hp conne s =
     (if map_of (m_mqserver_clients s) hp = None then Some s
      else callback conne ((client_conne hp (Some conne) s)\<lparr>connected := t_id conne # connected s\<rparr>))"

text \<open>
  The peer closes a connection. The client that still has it runs the callback; a connection whose
  client is gone is only disconnected.
\<close>

definition connection_closed ::
    "(tcp_conne \<Rightarrow> 'a busd_scheme \<Rightarrow> 'a busd_scheme option) \<Rightarrow> tcp_conne \<Rightarrow>
     'a busd_scheme \<Rightarrow> 'a busd_scheme option" where
  "connection_closed callback conne s =
     (let s1 = conne_down conne s in
      case find (\<lambda>e. tc_connection (snd e) = Some conne) (m_mqserver_clients s) of
        None \<Rightarrow> Some s1
      | Some (hp, c) \<Rightarrow> do {
          s2 \<leftarrow> callback conne s1;
          Some (client_conne hp None s2)
        })"

section \<open>What the common part leaves alone in its subclasses\<close>

text \<open>The base class knows nothing of the fields of a subclass, which hang on \<open>more\<close>.\<close>

named_theorems more_simps "what does not touch the fields of the subclass"

lemma more_conne_send [more_simps]: "busd.more (conne_send c d s) = busd.more s"
  by (simp add: conne_send_def)

lemma more_new_client [more_simps]: "busd.more (new_client hp s) = busd.more s"
  by (simp add: new_client_def Let_def)

lemma more_fold: "(\<And>x s. busd.more (f x s) = busd.more s) \<Longrightarrow> busd.more (fold f xs s) = busd.more s"
  by (induction xs arbitrary: s) simp_all

lemma more_connectToMqBroker [more_simps]: "busd.more (connectToMqBroker s) = busd.more s"
  unfolding connectToMqBroker_def by (rule more_fold) (rule more_simps)

lemma more_erase_client [more_simps]: "busd.more (erase_client held e s) = busd.more s"
  by (simp add: erase_client_def destroy_client_def conne_down_def split: option.split)

lemma more_updateMqBrokerClients:
  assumes "updateMqBrokerClients held connect s = Some s'"
    and "\<And>t t'. connect t = Some t' \<Longrightarrow> busd.more t' = busd.more t"
  shows "busd.more s' = busd.more s"
  using assms(1)
  by (auto simp: updateMqBrokerClients_def more_fold [OF more_erase_client] dest!: assms(2)
      split: Option.bind_split_asm if_split_asm)

lemma more_onMessageFromDirServer:
  assumes "onMessageFromDirServer held connect buff s = Some (buff', s')"
    and "\<And>t t'. connect t = Some t' \<Longrightarrow> busd.more t' = busd.more t"
  shows "busd.more s' = busd.more s"
  using assms(1)
  by (auto simp: onMessageFromDirServer_def Let_def dest!: more_updateMqBrokerClients [OF _ assms(2)]
      split: Option.bind_split_asm if_split_asm prod.split_asm)

lemma more_dir_timer [more_simps]: "busd.more (updateMqSeverConfWithMs pad s) = busd.more s"
  unfolding updateMqSeverConfWithMs_def
  by (rule more_fold) (simp split: option.split add: more_simps)

lemma more_conne_down [more_simps]: "busd.more (conne_down c s) = busd.more s"
  by (simp add: conne_down_def)

lemma more_client_conne [more_simps]: "busd.more (client_conne hp c s) = busd.more s"
  by (simp add: client_conne_def split: option.split)

end
