(* ===== verification/HashRing.thy ===== *)
theory HashRing
  imports Text OrdMap
begin

text \<open>
  \<^verbatim>\<open>src/skylu/base/consistenthash.hpp\<close>: the hash of names and the ring on which the producer
  places its brokers. The ring is the \<^verbatim>\<open>std::map\<close> from hash values to virtual nodes; an
  iterator is the entry it points to, \<open>None\<close> is \<^verbatim>\<open>end()\<close>. \<^verbatim>\<open>int len\<close> holds the
  length of a name below \<open>2 ^ 31\<close> bytes, and the four byte loads are little-endian.
\<close>

unbundle bit_operations_syntax

section \<open>MurMurHash\<close>

definition murmur_m :: u32 where "murmur_m = 0x5bd1e995"

definition murmur_r :: nat where "murmur_r = 24"

definition murmur_seed :: u32 where "murmur_seed = 97"

text \<open>One round of the loop.\<close>

definition murmur_mix :: "u32 \<Rightarrow> u32 \<Rightarrow> u32" where
  "murmur_mix h data =
     (let k = data * murmur_m;
          k = k XOR drop_bit murmur_r k;
          k = k * murmur_m;
          h = h * murmur_m
      in h XOR k)"

text \<open>The switch over the bytes that are left, which falls through.\<close>

definition murmur_tail :: "u32 \<Rightarrow> bytes \<Rightarrow> u32" where
  "murmur_tail h data =
     (let len = length data;
          h = (if len = 3 then h XOR push_bit 16 (ucast (data ! 2)) else h);
          h = (if len = 3 \<or> len = 2 then h XOR push_bit 8 (ucast (data ! 1)) else h)
      in if len = 3 \<or> len = 2 \<or> len = 1 then (h XOR ucast (data ! 0)) * murmur_m else h)"

text \<open>\<^verbatim>\<open>*(uint32_t *) data\<close>\<close>

definition load32 :: "bytes \<Rightarrow> u32" where
  "load32 data = ucast (data ! 0) OR push_bit 8 (ucast (data ! 1))
     OR push_bit 16 (ucast (data ! 2)) OR push_bit 24 (ucast (data ! 3))"

function murmur_loop :: "u32 \<Rightarrow> bytes \<Rightarrow> u32" where
  "murmur_loop h data =
     (if length data \<ge> 4 then murmur_loop (murmur_mix h (load32 data)) (drop 4 data)
      else murmur_tail h data)"
  by pat_completeness auto
termination by (relation "measure (\<lambda>(h, data). length data)") auto

declare murmur_loop.simps [simp del]

definition MurMurHash :: "bytes \<Rightarrow> u32" where
  "MurMurHash str =
     (let h = murmur_loop (murmur_seed XOR of_nat (length str)) str;
          h = h XOR drop_bit 13 h;
          h = h * murmur_m
      in h XOR drop_bit 15 h)"

section \<open>Virtual nodes\<close>

record vnode =
  realIp :: bytes
  virtualIp :: bytes
  conneName :: bytes

definition vnode_t :: "bytes \<Rightarrow> bytes \<Rightarrow> nat \<Rightarrow> vnode" where
  "vnode_t src name vid =
     \<lparr>realIp = src, virtualIp = src @ [58] @ to_string vid, conneName = name\<rparr>"

definition hash_node :: "vnode \<Rightarrow> u32" where
  "hash_node v = MurMurHash (virtualIp v)"

section \<open>The ring\<close>

type_synonym ring = "(u32, vnode) ord_map"

definition ring_size :: "ring \<Rightarrow> nat" where
  "ring_size nodes = length nodes"

definition ring_empty :: "ring \<Rightarrow> bool" where
  "ring_empty nodes \<longleftrightarrow> nodes = []"

definition ring_insert :: "vnode \<Rightarrow> ring \<Rightarrow> bool \<times> ring" where
  "ring_insert node nodes =
     (let hash = hash_node node in (map_of nodes hash = None, om_insert hash node nodes))"

definition ring_erase_at :: "(u32 \<times> vnode) \<Rightarrow> ring \<Rightarrow> ring" where
  "ring_erase_at it nodes = AList.delete (fst it) nodes"

definition ring_erase :: "vnode \<Rightarrow> ring \<Rightarrow> nat \<times> ring" where
  "ring_erase node nodes =
     (let hash = hash_node node
      in (if map_of nodes hash = None then 0 else 1, AList.delete hash nodes))"

definition ring_find :: "u32 \<Rightarrow> ring \<Rightarrow> (u32 \<times> vnode) option" where
  "ring_find hash nodes =
     (if nodes = [] then None
      else case om_from hash nodes of
        it # _ \<Rightarrow> Some it
      | [] \<Rightarrow> Some (hd nodes))"

section \<open>Lemmas\<close>

text \<open>
  The order in which the ring is walked from \<open>h\<close>: the distance clockwise. The node found is the
  one at the least distance; this is what makes inserting and erasing nodes local.
\<close>

definition ahead :: "u32 \<Rightarrow> u32 \<Rightarrow> nat" where
  "ahead h k = unat (k - h)"

lemma ahead_cases:
  "ahead h k = (if h \<le> k then unat k - unat h else 2 ^ 32 + unat k - unat h)"
proof (cases "h \<le> k")
  case True
  then show ?thesis by (simp add: ahead_def unat_sub)
next
  case False
  then have "unat k < unat h" by (simp add: word_le_nat_alt)
  moreover have "unat h < 2 ^ 32" using unsigned_less [of h] by simp
  ultimately show ?thesis using False by (simp add: ahead_def unat_sub_if')
qed

lemma ahead_inj: "ahead h k = ahead h k' \<longleftrightarrow> k = k'"
  by (simp add: ahead_def flip: word_unat_eq_iff)

lemma om_hd_least: "om_ok m \<Longrightarrow> m \<noteq> [] \<Longrightarrow> x \<in> set m \<Longrightarrow> fst (hd m) \<le> fst x"
  by (cases m) (auto simp: om_ok_def)

lemma ring_find_some:
  assumes "om_ok m" and "m \<noteq> []"
  obtains e where "ring_find h m = Some e" and "e \<in> set m"
    and "\<forall>x \<in> set m. ahead h (fst e) \<le> ahead h (fst x)"
proof (cases "om_from h m")
  case Nil
  then have low: "\<forall>x \<in> set m. fst x < h" using assms(1) by (simp add: om_from_Nil)
  have "ring_find h m = Some (hd m)" using assms(2) Nil by (simp add: ring_find_def)
  moreover have "hd m \<in> set m" using assms(2) by simp
  moreover have "ahead h (fst (hd m)) \<le> ahead h (fst x)" if x: "x \<in> set m" for x
  proof -
    have "\<not> h \<le> fst (hd m)" "\<not> h \<le> fst x" using low x assms(2) by (simp_all add: not_le)
    moreover have "unat (fst (hd m)) \<le> unat (fst x)"
      using om_hd_least [OF assms x] by (simp add: word_le_nat_alt)
    ultimately show ?thesis by (simp add: ahead_cases)
  qed
  ultimately show ?thesis using that by blast
next
  case (Cons e es)
  note hd = om_from_hd [OF assms(1) Cons]
  have "unat (fst e) < 2 ^ 32" using unsigned_less [of "fst e"] by simp
  then have "\<forall>x \<in> set m. ahead h (fst e) \<le> ahead h (fst x)"
    using hd by (auto simp: ahead_cases word_le_nat_alt)
  moreover have "ring_find h m = Some e" using assms(2) Cons by (simp add: ring_find_def)
  ultimately show ?thesis using that hd(1) by blast
qed

lemma ring_key_unique: "om_ok m \<Longrightarrow> x \<in> set m \<Longrightarrow> y \<in> set m \<Longrightarrow> fst x = fst y \<Longrightarrow> x = y"
  using om_ok_distinct [of m] by (metis eq_key_imp_eq_value prod.collapse)

lemma ring_find_unique:
  assumes "om_ok m" and "e \<in> set m" and "\<forall>x \<in> set m. ahead h (fst e) \<le> ahead h (fst x)"
  shows "ring_find h m = Some e"
proof -
  have "m \<noteq> []" using assms(2) by auto
  then obtain e' where e': "ring_find h m = Some e'" "e' \<in> set m"
    "\<forall>x \<in> set m. ahead h (fst e') \<le> ahead h (fst x)"
    using ring_find_some [OF assms(1)] by blast
  with assms(2,3) have "ahead h (fst e') = ahead h (fst e)" by (simp add: le_antisym)
  then have "e' = e"
    using ring_key_unique [OF assms(1) e'(2) assms(2)] by (simp add: ahead_inj)
  with e'(1) show ?thesis by simp
qed

lemma om_ok_ring_insert [simp]: "om_ok m \<Longrightarrow> om_ok (snd (ring_insert n m))"
  by (simp add: ring_insert_def Let_def)

lemma set_ring_insert:
  assumes "om_ok m"
  shows "set (snd (ring_insert n m)) =
    (if map_of m (hash_node n) = None then insert (hash_node n, n) (set m) else set m)"
proof -
  let ?m = "om_insert (hash_node n) n m"
  have "e \<in> set ?m \<longleftrightarrow> map_of ?m (fst e) = Some (snd e)" for e
    using om_ok_distinct [OF om_ok_insert [OF assms]] by (cases e) simp
  moreover have "e \<in> set m \<longleftrightarrow> map_of m (fst e) = Some (snd e)" for e
    using om_ok_distinct [OF assms] by (cases e) simp
  ultimately show ?thesis
    using assms by (auto simp: ring_insert_def Let_def map_of_insert split: if_splits)
qed

section \<open>Properties\<close>

text \<open>
  \<^verbatim>\<open>find\<close> answers the node that comes first when the ring is walked clockwise from the
  hash, whether or not that passes the end of the map, and \<^verbatim>\<open>end()\<close> only on the empty ring.
\<close>

lemma ring_find_successor:
  assumes "om_ok m"
  shows "ring_find h m = Some e \<longleftrightarrow> e \<in> set m \<and> (\<forall>x \<in> set m. ahead h (fst e) \<le> ahead h (fst x))"
proof
  assume e: "ring_find h m = Some e"
  then have "m \<noteq> []" by (auto simp: ring_find_def)
  then obtain e' where "ring_find h m = Some e'" "e' \<in> set m"
    "\<forall>x \<in> set m. ahead h (fst e') \<le> ahead h (fst x)"
    using ring_find_some [OF assms] by blast
  with e show "e \<in> set m \<and> (\<forall>x \<in> set m. ahead h (fst e) \<le> ahead h (fst x))" by simp
qed (use ring_find_unique [OF assms] in blast)

text \<open>
  Consistent hashing: a new node takes keys only to itself; every other key stays where it was.
\<close>

lemma ring_insert_moves_to_new:
  assumes "om_ok m" and "ring_find h (snd (ring_insert n m)) \<noteq> ring_find h m"
  shows "ring_find h (snd (ring_insert n m)) = Some (hash_node n, n)"
proof -
  let ?m = "snd (ring_insert n m)"
  have ok: "om_ok ?m" using assms(1) by simp
  have "?m \<noteq> []"
    using set_ring_insert [OF assms(1), of n] by (cases m) (auto split: if_splits)
  then obtain e where e: "ring_find h ?m = Some e" "e \<in> set ?m"
    "\<forall>x \<in> set ?m. ahead h (fst e) \<le> ahead h (fst x)"
    using ring_find_some [OF ok] by blast
  show ?thesis
  proof (cases "e \<in> set m")
    case True
    with e(3) have "ring_find h m = Some e"
      using set_ring_insert [OF assms(1), of n]
      by (intro ring_find_unique [OF assms(1)]) (auto split: if_splits)
    with assms(2) e(1) show ?thesis by simp
  next
    case False
    with e set_ring_insert [OF assms(1), of n] show ?thesis by (auto split: if_splits)
  qed
qed

text \<open>Erasing a node moves only the keys it held.\<close>

lemma ring_erase_moves_own:
  assumes "om_ok m" and "ring_find h m = Some e" and "fst e \<noteq> hash_node n"
  shows "ring_find h (snd (ring_erase n m)) = Some e"
proof -
  have ok: "om_ok (AList.delete (hash_node n) m)" using assms(1) by simp
  have "m \<noteq> []" using assms(2) by (auto simp: ring_find_def)
  then have e: "e \<in> set m" "\<forall>x \<in> set m. ahead h (fst e) \<le> ahead h (fst x)"
    using ring_find_some [OF assms(1), of h] assms(2) by auto
  have "ring_find h (AList.delete (hash_node n) m) = Some e"
    by (rule ring_find_unique [OF ok]) (use e assms(3) in \<open>auto simp: AList.delete_eq\<close>)
  then show ?thesis by (simp add: ring_erase_def Let_def)
qed

text \<open>
  \<^verbatim>\<open>erase\<close> goes by the hash alone: when the virtual nodes of two hosts collide, the second is
  never inserted, and removing the second host takes the node of the first.
\<close>

lemma ring_erase_takes_other:
  assumes "om_ok m" and "map_of m (hash_node a) = None" and "hash_node b = hash_node a"
  shows "ring_insert b (snd (ring_insert a m)) = (False, snd (ring_insert a m))"
    and "map_of (snd (ring_erase b (snd (ring_insert a m)))) (hash_node a) = None"
proof -
  have here: "map_of (om_insert (hash_node a) a m) (hash_node a) = Some a"
    using assms(1,2) by (simp add: map_of_insert)
  show "ring_insert b (snd (ring_insert a m)) = (False, snd (ring_insert a m))"
    using here assms by (simp add: ring_insert_def Let_def om_insert_same)
  show "map_of (snd (ring_erase b (snd (ring_insert a m)))) (hash_node a) = None"
    using assms(3) by (simp add: ring_insert_def ring_erase_def Let_def AList.delete_conv')
qed

end
