(* ===== verification/MqProto.thy ===== *)
theory MqProto
  imports Buffer
begin

text \<open>
  \<^verbatim>\<open>skylu/proto/mq_proto.h\<close> and \<^verbatim>\<open>mq_proto.cc\<close>: the packets of the message
  queue. A packet is a \<^verbatim>\<open>struct MqPacket\<close> copied as it lies in memory, the topic and the
  message written from its last member on, and an end mark.

  The layout is the one of the x86-64 System V ABI, on which the code relies when it copies the
  struct: \<^verbatim>\<open>sizeof(MqPacket) = 80\<close>, \<^verbatim>\<open>offsetof(MqPacket, body) = 72\<close>,
  little-endian integers, signed \<^verbatim>\<open>char\<close>. The bytes nothing writes (the padding of the
  struct and the uninitialised array \<^verbatim>\<open>tmp\<close>) are arguments \<open>pad\<close> and \<open>junk\<close>,
  so every property holds whatever they are. A pointer to a received packet is the list of the
  bytes from there on.
\<close>

section \<open>Packets\<close>

datatype mqProto =
    MQ_COMMAND_DELIVERY | MQ_COMMAND_SUBSCRIBE | MQ_COMMAND_CANCEL_SUBSCRIBE | MQ_COMMAND_COMMIT
  | MQ_COMMAND_PULL | MQ_COMMAND_ACK | MQ_COMMAND_HEARTBEAT

fun command_code :: "mqProto \<Rightarrow> byte" where
  "command_code MQ_COMMAND_DELIVERY = 0"
| "command_code MQ_COMMAND_SUBSCRIBE = 1"
| "command_code MQ_COMMAND_CANCEL_SUBSCRIBE = 2"
| "command_code MQ_COMMAND_COMMIT = 3"
| "command_code MQ_COMMAND_PULL = 4"
| "command_code MQ_COMMAND_ACK = 5"
| "command_code MQ_COMMAND_HEARTBEAT = 6"

datatype errCode = SUCCESSFUL | UNKNOW_CONSUMER | UNKNOW_TOPIC | OFFSET_TOO_LARGET

fun err_code :: "errCode \<Rightarrow> byte" where
  "err_code SUCCESSFUL = 0"
| "err_code UNKNOW_CONSUMER = 1"
| "err_code UNKNOW_TOPIC = 2"
| "err_code OFFSET_TOO_LARGET = 3"

text \<open>
  The members of \<^verbatim>\<open>MqPacket\<close> but the one-byte \<^verbatim>\<open>body\<close>, whose address is where
  the topic starts. Signed members are kept as their 32 or 64 bits.
\<close>

record mqPacket =
  command :: byte
  retCode :: byte
  messageId :: u64
  msgCreateTime :: u64
  optional3 :: u64
  consumerGroupId :: u32
  optional2 :: u32
  maxEnableBytes :: u64
  optional1 :: u64
  offset :: u64
  topicBytes :: u32
  msgBytes :: u32

text \<open>The member initialisers of the struct.\<close>

definition mqPacket_default :: mqPacket where
  "mqPacket_default =
     \<lparr>command = command_code MQ_COMMAND_ACK, retCode = err_code SUCCESSFUL, messageId = 0,
      msgCreateTime = 0, optional3 = 0, consumerGroupId = -1, optional2 = 0, maxEnableBytes = 0,
      optional1 = 0, offset = 0, topicBytes = 0, msgBytes = 0\<rparr>"

definition sizeof_MqPacket :: nat where "sizeof_MqPacket = 80"

definition offsetof_body :: nat where "offsetof_body = 72"

definition sizeof_MqPacketEnd :: nat where "sizeof_MqPacketEnd = 4"

text \<open>The bytes that nothing writes, at positions \<open>i\<close> to \<open>j\<close>.\<close>

definition pad_bytes :: "(nat \<Rightarrow> byte) \<Rightarrow> nat \<Rightarrow> nat \<Rightarrow> bytes" where
  "pad_bytes pad i j = map pad [i..<j]"

text \<open>The bytes of the members before \<^verbatim>\<open>body\<close>, with six bytes of padding.\<close>

definition header_bytes :: "(nat \<Rightarrow> byte) \<Rightarrow> mqPacket \<Rightarrow> bytes" where
  "header_bytes pad m =
     [command m] @ [retCode m] @ pad_bytes pad 0 6 @
     le_bytes 8 (unat (messageId m)) @ le_bytes 8 (unat (msgCreateTime m)) @
     le_bytes 8 (unat (optional3 m)) @ le_bytes 4 (unat (consumerGroupId m)) @
     le_bytes 4 (unat (optional2 m)) @ le_bytes 8 (unat (maxEnableBytes m)) @
     le_bytes 8 (unat (optional1 m)) @ le_bytes 8 (unat (offset m)) @
     le_bytes 4 (unat (topicBytes m)) @ le_bytes 4 (unat (msgBytes m))"

text \<open>The whole struct: \<^verbatim>\<open>body\<close> and seven more bytes of padding.\<close>

definition struct_bytes :: "(nat \<Rightarrow> byte) \<Rightarrow> mqPacket \<Rightarrow> bytes" where
  "struct_bytes pad m = header_bytes pad m @ pad_bytes pad 6 14"

text \<open>Reading the members through a pointer.\<close>

definition packet_at :: "bytes \<Rightarrow> mqPacket" where
  "packet_at f =
     \<lparr>command = of_nat (le_nat (span 0 1 f)), retCode = of_nat (le_nat (span 1 2 f)),
      messageId = of_nat (le_nat (span 8 16 f)),
      msgCreateTime = of_nat (le_nat (span 16 24 f)), optional3 = of_nat (le_nat (span 24 32 f)),
      consumerGroupId = of_nat (le_nat (span 32 36 f)), optional2 = of_nat (le_nat (span 36 40 f)),
      maxEnableBytes = of_nat (le_nat (span 40 48 f)), optional1 = of_nat (le_nat (span 48 56 f)),
      offset = of_nat (le_nat (span 56 64 f)), topicBytes = of_nat (le_nat (span 64 68 f)),
      msgBytes = of_nat (le_nat (span 68 72 f))\<rparr>"

definition body_len :: "mqPacket \<Rightarrow> nat" where
  "body_len m = unat (topicBytes m) + unat (msgBytes m)"

definition MqPacketLength :: "mqPacket \<Rightarrow> nat" where
  "MqPacketLength m = sizeof_MqPacket + unat (topicBytes m) + unat (msgBytes m) + sizeof_MqPacketEnd"

text \<open>
  The end mark: \<^verbatim>\<open>setMqPacketEnd\<close> writes the four bytes of \<^verbatim>\<open>0xFFFFFFFF\<close>;
  \<^verbatim>\<open>getMqPacketEnd\<close> dereferences a \<^verbatim>\<open>const char *\<close>, so it reads one signed byte
  and widens it.
\<close>

definition mqPacketEnd :: u32 where "mqPacketEnd = 0xFFFFFFFF"

definition setMqPacketEnd :: "mqPacket \<Rightarrow> bytes \<Rightarrow> bytes" where
  "setMqPacketEnd m tmp =
     splice_at (offsetof_body + unat (topicBytes m) + unat (msgBytes m))
       (le_bytes sizeof_MqPacketEnd (unat mqPacketEnd)) tmp"

definition getMqPacketEnd :: "bytes \<Rightarrow> u32" where
  "getMqPacketEnd f =
     scast (f ! (offsetof_body + unat (topicBytes (packet_at f)) + unat (msgBytes (packet_at f))))"

definition checkMqPacketEnd :: "bytes \<Rightarrow> bool" where
  "checkMqPacketEnd f \<longleftrightarrow> getMqPacketEnd f = mqPacketEnd"

section \<open>Serialising\<close>

text \<open>
  What the overloads of \<^verbatim>\<open>serializationToBuffer\<close> share: the array \<^verbatim>\<open>tmp\<close>, the
  struct, the bytes written from \<^verbatim>\<open>body\<close> on, the end mark. \<^verbatim>\<open>int length\<close> holds the
  packet length only below \<open>2 ^ 31\<close>.
\<close>

definition frame_image :: "(nat \<Rightarrow> byte) \<Rightarrow> (nat \<Rightarrow> byte) \<Rightarrow> mqPacket \<Rightarrow> bytes \<Rightarrow> bytes" where
  "frame_image junk pad m body =
     (let tmp = pad_bytes junk 0 (MqPacketLength m);
          tmp = splice_at 0 (struct_bytes pad m) tmp;
          tmp = splice_at offsetof_body body tmp
      in setMqPacketEnd m tmp)"

definition put_frame :: "(nat \<Rightarrow> byte) \<Rightarrow> (nat \<Rightarrow> byte) \<Rightarrow> mqPacket \<Rightarrow> bytes \<Rightarrow> buffer \<Rightarrow> buffer option" where
  "put_frame junk pad m body buff = do {
     assert_that (MqPacketLength m < 2 ^ 31);
     buf_append (frame_image junk pad m body) buff
   }"

definition serializationToBuffer :: "(nat \<Rightarrow> byte) \<Rightarrow> (nat \<Rightarrow> byte) \<Rightarrow> mqPacket \<Rightarrow> buffer \<Rightarrow> buffer option" where
  "serializationToBuffer junk pad msg buff = put_frame junk pad msg [] buff"

definition serializationToBuffer_topic ::
    "(nat \<Rightarrow> byte) \<Rightarrow> (nat \<Rightarrow> byte) \<Rightarrow> mqPacket \<Rightarrow> bytes \<Rightarrow> buffer \<Rightarrow> buffer option" where
  "serializationToBuffer_topic junk pad msg topic buff = do {
     assert_that (unat (topicBytes msg) = length topic);
     put_frame junk pad msg topic buff
   }"

definition serializationToBuffer_message ::
    "(nat \<Rightarrow> byte) \<Rightarrow> (nat \<Rightarrow> byte) \<Rightarrow> mqPacket \<Rightarrow> bytes \<Rightarrow> bytes \<Rightarrow> buffer \<Rightarrow> buffer option" where
  "serializationToBuffer_message junk pad msg topic message buff = do {
     assert_that (unat (topicBytes msg) = length topic);
     assert_that (unat (msgBytes msg) = length message);
     put_frame junk pad msg (topic @ message) buff
   }"

text \<open>The overloads for a vector of packets, alone and with the topics of a set in iteration order.\<close>

fun serializationToBuffer_vec ::
    "(nat \<Rightarrow> byte) \<Rightarrow> (nat \<Rightarrow> byte) \<Rightarrow> mqPacket list \<Rightarrow> buffer \<Rightarrow> buffer option" where
  "serializationToBuffer_vec junk pad [] buff = Some buff"
| "serializationToBuffer_vec junk pad (i # msg) buff = do {
     buff' \<leftarrow> put_frame junk pad i [] buff;
     serializationToBuffer_vec junk pad msg buff'
   }"

fun serialize_topics ::
    "(nat \<Rightarrow> byte) \<Rightarrow> (nat \<Rightarrow> byte) \<Rightarrow> (mqPacket \<times> bytes) list \<Rightarrow> buffer \<Rightarrow> buffer option" where
  "serialize_topics junk pad [] buff = Some buff"
| "serialize_topics junk pad ((m, it) # rest) buff = do {
     assert_that (unat (topicBytes m) = length it);
     buff' \<leftarrow> put_frame junk pad m it buff;
     serialize_topics junk pad rest buff'
   }"

definition serializationToBuffer_topics ::
    "(nat \<Rightarrow> byte) \<Rightarrow> (nat \<Rightarrow> byte) \<Rightarrow> mqPacket list \<Rightarrow> bytes list \<Rightarrow> buffer \<Rightarrow> buffer option" where
  "serializationToBuffer_topics junk pad msg topic buff = do {
     assert_that (length msg = length topic);
     serialize_topics junk pad (zip msg topic) buff
   }"

definition createCommandMqPacket ::
    "(nat \<Rightarrow> byte) \<Rightarrow> (nat \<Rightarrow> byte) \<Rightarrow> buffer \<Rightarrow> byte \<Rightarrow> u64 \<Rightarrow> buffer option" where
  "createCommandMqPacket junk pad buff cmd mid =
     serializationToBuffer junk pad
       (mqPacket_default\<lparr>command := cmd, messageId := mid, topicBytes := 0, msgBytes := 0\<rparr>)
       (resetAll buff)"

section \<open>Parsing\<close>

text \<open>
  \<^verbatim>\<open>serializationToMqPacket\<close>: the pointer into the buffer is the bytes of the frame,
  \<open>None\<close> the null pointer; reading the header behind the end of the vector is undefined
  behaviour (\<open>None\<close> of the outer option).
\<close>

definition serializationToMqPacket :: "buffer \<Rightarrow> (bytes option \<times> buffer) option" where
  "serializationToMqPacket buff = do {
     let p = drop (m_rpos buff) (m_queue buff);
     assert_that (offsetof_body \<le> length p);
     let msg = packet_at p;
     if sint (command msg) > sint (command_code MQ_COMMAND_HEARTBEAT)
     then Some (None, resetAll buff)
     else if readableBytes buff < MqPacketLength msg then Some (None, buff)
     else if \<not> checkMqPacketEnd p then Some (None, resetAll buff)
     else do {
       buff' \<leftarrow> updatePos (MqPacketLength msg) buff;
       Some (Some (take (MqPacketLength msg) p), buff')
     }
   }"

definition getTopicAndMessage :: "bytes \<Rightarrow> (bytes \<times> bytes) option" where
  "getTopicAndMessage f = do {
     let msg = packet_at f;
     assert_that (command msg \<noteq> command_code MQ_COMMAND_ACK);
     assert_that (command msg \<noteq> command_code MQ_COMMAND_HEARTBEAT);
     let ptr = drop offsetof_body f;
     Some (take (unat (topicBytes msg)) ptr,
           take (unat (msgBytes msg)) (drop (unat (topicBytes msg)) ptr))
   }"

definition getTopic :: "bytes \<Rightarrow> bytes option" where
  "getTopic f = do {
     let msg = packet_at f;
     assert_that (command msg \<noteq> command_code MQ_COMMAND_ACK);
     assert_that (command msg \<noteq> command_code MQ_COMMAND_HEARTBEAT);
     Some (take (unat (topicBytes msg)) (drop offsetof_body f))
   }"

definition getMessage :: "bytes \<Rightarrow> bytes option" where
  "getMessage f = do {
     let msg = packet_at f;
     assert_that (command msg \<noteq> command_code MQ_COMMAND_ACK);
     assert_that (command msg \<noteq> command_code MQ_COMMAND_HEARTBEAT);
     Some (take (unat (topicBytes msg)) (drop offsetof_body f))
   }"

definition getMessageIdFromBuffer :: "buffer \<Rightarrow> u64" where
  "getMessageIdFromBuffer buff = messageId (packet_at (drop (m_rpos buff) (m_queue buff)))"

text \<open>
  The receive loop of the consumer and the broker, \<^verbatim>\<open>while (readableBytes() > sizeof(MqPacket))\<close>:
  packets are taken off the buffer until \<^verbatim>\<open>serializationToMqPacket\<close> returns null.
\<close>

lemma serializationToMqPacket_less:
  assumes "serializationToMqPacket b = Some (Some f, b')"
  shows "readableBytes b' < readableBytes b"
proof -
  let ?n = "MqPacketLength (packet_at (drop (m_rpos b) (m_queue b)))"
  from assms have "updatePos ?n b = Some b'"
    by (auto simp: serializationToMqPacket_def Let_def abort_simps split: if_splits)
  moreover have "0 < ?n" by (simp add: MqPacketLength_def sizeof_MqPacketEnd_def)
  ultimately show ?thesis
    by (auto simp: updatePos_def readableBytes_def resetAll_def split: if_splits)
qed

function recv_frames :: "buffer \<Rightarrow> (bytes list \<times> buffer) option" where
  "recv_frames buff =
     (if readableBytes buff > sizeof_MqPacket then do {
        (msg, buff') \<leftarrow> serializationToMqPacket buff;
        (case msg of
           None \<Rightarrow> Some ([], buff')
         | Some f \<Rightarrow> do {
             (fs, buff'') \<leftarrow> recv_frames buff';
             Some (f # fs, buff'')
           })
      } else Some ([], buff))"
  by pat_completeness auto
termination
  by (relation "measure readableBytes") (auto dest: serializationToMqPacket_less)

declare recv_frames.simps [simp del]


section \<open>Layout lemmas\<close>

lemmas layout = sizeof_MqPacket_def offsetof_body_def sizeof_MqPacketEnd_def

lemma length_pad_bytes [simp]: "length (pad_bytes pad i j) = j - i"
  by (simp add: pad_bytes_def)

lemma span_take: "length a = j \<Longrightarrow> span 0 j (a @ b) = a"
  by (simp add: span_def)

lemma length_header [simp]: "length (header_bytes pad m) = 72"
  by (simp add: header_bytes_def)

lemma length_struct [simp]: "length (struct_bytes pad m) = 80"
  by (simp add: struct_bytes_def)

lemma of_nat_le_byte [simp]: "of_nat (le_nat [b]) = (b :: byte)"
  by simp

lemma le_word64: "of_nat (le_nat (le_bytes 8 (unat w))) = (w :: u64)"
  by simp

lemma le_word32: "of_nat (le_nat (le_bytes 4 (unat w))) = (w :: u32)"
  by simp

lemma header_span:
  "span 0 (Suc 0) (header_bytes pad m @ rest) = [command m]"
  "span (Suc 0) 2 (header_bytes pad m @ rest) = [retCode m]"
  "span 8 16 (header_bytes pad m @ rest) = le_bytes 8 (unat (messageId m))"
  "span 16 24 (header_bytes pad m @ rest) = le_bytes 8 (unat (msgCreateTime m))"
  "span 24 32 (header_bytes pad m @ rest) = le_bytes 8 (unat (optional3 m))"
  "span 32 36 (header_bytes pad m @ rest) = le_bytes 4 (unat (consumerGroupId m))"
  "span 36 40 (header_bytes pad m @ rest) = le_bytes 4 (unat (optional2 m))"
  "span 40 48 (header_bytes pad m @ rest) = le_bytes 8 (unat (maxEnableBytes m))"
  "span 48 56 (header_bytes pad m @ rest) = le_bytes 8 (unat (optional1 m))"
  "span 56 64 (header_bytes pad m @ rest) = le_bytes 8 (unat (offset m))"
  "span 64 68 (header_bytes pad m @ rest) = le_bytes 4 (unat (topicBytes m))"
  "span 68 72 (header_bytes pad m @ rest) = le_bytes 4 (unat (msgBytes m))"
  by (simp_all add: header_bytes_def span_append_left span_take del: append.simps)

lemma packet_at_header_fields:
  "packet_at (header_bytes pad m @ rest) =
     \<lparr>command = command m, retCode = retCode m, messageId = messageId m,
      msgCreateTime = msgCreateTime m, optional3 = optional3 m,
      consumerGroupId = consumerGroupId m, optional2 = optional2 m,
      maxEnableBytes = maxEnableBytes m, optional1 = optional1 m, offset = offset m,
      topicBytes = topicBytes m, msgBytes = msgBytes m\<rparr>"
  by (simp only: packet_at_def One_nat_def header_span of_nat_le_byte le_word64 le_word32)

lemma mqPacket_eta:
  "\<lparr>command = command m, retCode = retCode m, messageId = messageId m,
      msgCreateTime = msgCreateTime m, optional3 = optional3 m,
      consumerGroupId = consumerGroupId m, optional2 = optional2 m,
      maxEnableBytes = maxEnableBytes m, optional1 = optional1 m, offset = offset m,
      topicBytes = topicBytes m, msgBytes = msgBytes m\<rparr> = (m :: mqPacket)"
  by (cases m) (simp only: mqPacket.select_convs)

lemma packet_at_header [simp]: "packet_at (header_bytes pad m @ rest) = m"
  by (rule trans [OF packet_at_header_fields mqPacket_eta])

lemma packet_at_append: "72 \<le> length p \<Longrightarrow> packet_at (p @ q) = packet_at p"
  by (simp add: packet_at_def span_append_right)

lemma packet_at_take: "72 \<le> n \<Longrightarrow> n \<le> length p \<Longrightarrow> packet_at (take n p) = packet_at p"
  using packet_at_append [of "take n p" "drop n p"] by simp

lemma MqPacketLength_body: "MqPacketLength m = 84 + body_len m"
  by (simp add: MqPacketLength_def body_len_def layout)

lemma splice_at_append: "splice_at (length a) ys (a @ b) = a @ ys @ drop (length ys) b"
  by (simp add: splice_at_def)

lemma end_mark_bytes: "le_bytes 4 (unat mqPacketEnd) = [255, 255, 255, 255]"
proof -
  have four: "(4 :: nat) = Suc (Suc (Suc (Suc 0)))" by simp
  show ?thesis by (subst four) (simp add: mqPacketEnd_def)
qed

text \<open>A serialised packet: header, body, what the body does not fill, end mark, eight bytes of slack.\<close>

lemma frame_image_parts:
  assumes "length body \<le> body_len m"
  shows "\<exists>mid tail. frame_image junk pad m body =
           header_bytes pad m @ body @ mid @ [255, 255, 255, 255] @ tail \<and>
           length mid = body_len m - length body \<and> length tail = 8"
proof -
  let ?h = "header_bytes pad m"
  define R1 where "R1 = pad_bytes pad 6 14 @ drop 80 (pad_bytes junk 0 (MqPacketLength m))"
  define R2 where "R2 = drop (length body) R1"
  have len: "length R1 = body_len m + 12" by (simp add: R1_def MqPacketLength_body)
  have 1: "splice_at 0 (struct_bytes pad m) (pad_bytes junk 0 (MqPacketLength m)) = ?h @ R1"
    by (simp add: splice_at_def struct_bytes_def R1_def)
  have 2: "splice_at 72 body (?h @ R1) = (?h @ body) @ R2"
    using splice_at_append [of ?h body R1] by (simp add: R2_def)
  let ?k = "body_len m - length body"
  have split: "(?h @ body) @ R2 = (?h @ body @ take ?k R2) @ drop ?k R2" by simp
  have pos: "72 + body_len m = length (?h @ body @ take ?k R2)"
    using assms len by (simp add: R2_def)
  have "splice_at (72 + body_len m) [255, 255, 255, 255] ((?h @ body) @ R2)
      = (?h @ body @ take ?k R2) @ [255, 255, 255, 255] @ drop (4 + ?k) R2"
    unfolding split pos by (subst splice_at_append) (simp add: eval_nat_numeral)
  with 1 2 have "frame_image junk pad m body =
      ?h @ body @ take ?k R2 @ [255, 255, 255, 255] @ drop (4 + ?k) R2"
    by (simp add: frame_image_def setMqPacketEnd_def end_mark_bytes layout body_len_def add.assoc
        del: drop_drop)
  moreover have "length (take ?k R2) = ?k" "length (drop (4 + ?k) R2) = 8"
    using assms len by (simp_all add: R2_def)
  ultimately show ?thesis by blast
qed

lemma length_frame_image [simp]:
  "length body \<le> body_len m \<Longrightarrow> length (frame_image junk pad m body) = MqPacketLength m"
  using frame_image_parts [of body m junk pad] by (auto simp: MqPacketLength_body)

lemma getMqPacketEnd_byte: "scast (b :: byte) = mqPacketEnd \<longleftrightarrow> b = 255"
proof
  assume "scast b = mqPacketEnd"
  then have "(scast b :: u32) = -1" by (simp add: mqPacketEnd_def)
  then have "(scast (scast b :: u32) :: byte) = scast (-1 :: u32)" by simp
  moreover have "(scast (scast b :: u32) :: byte) = b"
    by (rule scast_up_scast_id) (simp add: is_up_def target_size_def source_size_def word_size)
  ultimately show "b = 255" by simp
qed (simp add: mqPacketEnd_def)

text \<open>
  A frame as it goes over the wire: known command, as long as its header says, and the one byte of
  the end mark that the receiver looks at.
\<close>

definition mq_frame :: "bytes \<Rightarrow> bool" where
  "mq_frame f \<longleftrightarrow>
     length f = MqPacketLength (packet_at f) \<and>
     sint (command (packet_at f)) \<le> sint (command_code MQ_COMMAND_HEARTBEAT) \<and>
     checkMqPacketEnd f"

lemma mq_frame_length: "mq_frame f \<Longrightarrow> 84 \<le> length f"
  by (simp add: mq_frame_def MqPacketLength_body)

lemma checkMqPacketEnd_iff:
  "checkMqPacketEnd f \<longleftrightarrow> f ! (72 + body_len (packet_at f)) = 255"
  by (simp add: checkMqPacketEnd_def getMqPacketEnd_def getMqPacketEnd_byte layout body_len_def
      add.assoc)

lemma checkMqPacketEnd_append:
  assumes "84 + body_len (packet_at p) \<le> length p"
  shows "checkMqPacketEnd (p @ q) = checkMqPacketEnd p"
  using assms by (simp add: checkMqPacketEnd_iff packet_at_append nth_append)

lemma frame_image_is_frame:
  assumes "length body \<le> body_len m"
    and "sint (command m) \<le> sint (command_code MQ_COMMAND_HEARTBEAT)"
  shows "mq_frame (frame_image junk pad m body)" and "packet_at (frame_image junk pad m body) = m"
proof -
  obtain mid tail where f: "frame_image junk pad m body =
      header_bytes pad m @ body @ mid @ [255, 255, 255, 255] @ tail"
    and len: "length mid = body_len m - length body"
    using frame_image_parts [OF assms(1)] by blast
  show p: "packet_at (frame_image junk pad m body) = m" by (simp add: f)
  have "checkMqPacketEnd (frame_image junk pad m body)"
    using assms(1) len by (simp add: checkMqPacketEnd_iff p) (simp add: f nth_append)
  with assms p show "mq_frame (frame_image junk pad m body)"
    by (simp add: mq_frame_def)
qed

lemma frame_image_body:
  assumes "length body \<le> body_len m"
  shows "take (length body) (drop 72 (frame_image junk pad m body)) = body"
proof -
  obtain mid tail where f: "frame_image junk pad m body =
      header_bytes pad m @ body @ mid @ [255, 255, 255, 255] @ tail"
    using frame_image_parts [OF assms] by blast
  show ?thesis by (simp add: f)
qed

lemma command_code_le [simp]:
  "sint (command_code c) \<le> sint (command_code MQ_COMMAND_HEARTBEAT)"
  by (cases c) simp_all


section \<open>The receiver on the bytes it has\<close>

text \<open>
  What one round of the receive loop does, as a function of the readable bytes alone.
\<close>

definition mq_cut :: "bytes \<Rightarrow> cut" where
  "mq_cut xs =
     (if length xs \<le> sizeof_MqPacket then Need_More
      else let msg = packet_at xs in
        if sint (command msg) > sint (command_code MQ_COMMAND_HEARTBEAT) then Broken
        else if length xs < MqPacketLength msg then Need_More
        else if \<not> checkMqPacketEnd xs then Broken
        else Frame (take (MqPacketLength msg) xs) (drop (MqPacketLength msg) xs))"

interpretation mq: framing mq_cut mq_frame
proof unfold_locales
  fix f rest assume f: "mq_frame f"
  then have len: "84 \<le> length f" by (rule mq_frame_length)
  then have "packet_at (f @ rest) = packet_at f" by (simp add: packet_at_append)
  with f len show "mq_cut (f @ rest) = Frame f rest"
    by (simp add: mq_cut_def mq_frame_def checkMqPacketEnd_append MqPacketLength_body layout Let_def)
next
  fix f p q :: bytes assume f: "mq_frame f" and p: "f = p @ q" "q \<noteq> []"
  show "mq_cut p = Need_More"
  proof (cases "length p \<le> 80")
    case True
    then show ?thesis by (simp add: mq_cut_def layout)
  next
    case False
    with p have "packet_at f = packet_at p" by (simp add: packet_at_append)
    moreover from p have "length p < length f" by (cases q) simp_all
    ultimately show ?thesis using f by (simp add: mq_cut_def mq_frame_def Let_def)
  qed
next
  show "mq_cut [] = Need_More" by (simp add: mq_cut_def)
next
  fix f assume "mq_frame f"
  then show "f \<noteq> []" using mq_frame_length [of f] by auto
next
  fix xs f rest assume "mq_cut xs = Frame f rest"
  then show "length rest < length xs"
    by (auto simp: mq_cut_def Let_def MqPacketLength_body split: if_splits)
qed

lemma serializationToMqPacket_cut:
  assumes wf: "wf_buffer b" and more: "sizeof_MqPacket < readableBytes b"
  shows "\<exists>b'. serializationToMqPacket b =
            Some (case mq_cut (contents b) of Frame f rest \<Rightarrow> Some f | _ \<Rightarrow> None, b') \<and> wf_buffer b' \<and>
          contents b' = (case mq_cut (contents b) of
                           Frame f rest \<Rightarrow> rest | Need_More \<Rightarrow> contents b | Broken \<Rightarrow> [])"
proof -
  let ?c = "contents b"
  define rest where "rest = drop (m_wpos b) (m_queue b)"
  have p: "drop (m_rpos b) (m_queue b) = ?c @ rest"
    using wf by (simp add: wf_buffer_def contents_def span_drop_take rest_def)
      (metis append_take_drop_id drop_append le_trans length_take min.absorb2 diff_is_0_eq drop0)
  have len: "length ?c = readableBytes b" using wf by simp
  with more have at: "packet_at (?c @ rest) = packet_at ?c"
    by (simp add: packet_at_append layout)
  show ?thesis
  proof (cases "mq_cut ?c")
    case Need_More
    with more len at p wf show ?thesis
      by (auto simp: serializationToMqPacket_def mq_cut_def Let_def layout split: if_splits)
  next
    case Broken
    with more len at p wf show ?thesis
      by (auto simp: serializationToMqPacket_def mq_cut_def Let_def layout checkMqPacketEnd_append
          MqPacketLength_body split: if_splits)
  next
    case (Frame f r)
    let ?n = "MqPacketLength (packet_at ?c)"
    from Frame more len have n: "?n \<le> length ?c" and f: "f = take ?n ?c" and r: "r = drop ?n ?c"
      and ok: "checkMqPacketEnd ?c" "\<not> sint (command (packet_at ?c)) > sint (command_code MQ_COMMAND_HEARTBEAT)"
      by (auto simp: mq_cut_def Let_def split: if_splits)
    obtain b' where b': "updatePos ?n b = Some b'" "wf_buffer b'" "contents b' = drop ?n ?c"
      using updatePos_spec [OF wf, of ?n] n len by auto
    from ok n have end_ok: "checkMqPacketEnd (?c @ rest)"
      by (simp add: checkMqPacketEnd_append MqPacketLength_body)
    have "serializationToMqPacket b = Some (Some f, b')"
      using ok n more len b'(1) f end_ok
      by (simp add: serializationToMqPacket_def p at Let_def layout)
    with b' r Frame show ?thesis by simp
  qed
qed

text \<open>The receive loop drains the readable bytes.\<close>

lemma recv_frames_drain:
  "wf_buffer b \<Longrightarrow>
     \<exists>b'. recv_frames b = Some (fst (drain mq_cut (contents b)), b') \<and> wf_buffer b' \<and>
          contents b' = snd (drain mq_cut (contents b))"
proof (induction b rule: recv_frames.induct)
  case (1 b)
  show ?case
  proof (cases "sizeof_MqPacket < readableBytes b")
    case False
    with 1 have "mq_cut (contents b) = Need_More" by (simp add: mq_cut_def)
    with False 1 show ?thesis by (simp add: recv_frames.simps [of b] mq.drain_unfold [of "contents b"])
  next
    case True
    from serializationToMqPacket_cut [OF "1.prems" True] obtain b' where
      b': "serializationToMqPacket b =
             Some (case mq_cut (contents b) of Frame f rest \<Rightarrow> Some f | _ \<Rightarrow> None, b')" "wf_buffer b'"
         "contents b' = (case mq_cut (contents b) of
                           Frame f rest \<Rightarrow> rest | Need_More \<Rightarrow> contents b | Broken \<Rightarrow> [])" by blast
    show ?thesis
    proof (cases "mq_cut (contents b)")
      case (Frame f rest)
      with b' have s: "serializationToMqPacket b = Some (Some f, b')" by simp
      from "1.IH" [OF True s refl refl b'(2)]
      obtain b'' where "recv_frames b' = Some (fst (drain mq_cut (contents b')), b'')" "wf_buffer b''"
          "contents b'' = snd (drain mq_cut (contents b'))"
        by blast
      with True s Frame b'(3) show ?thesis
        by (simp add: recv_frames.simps [of b] mq.drain_unfold [of "contents b"] split: prod.split)
    qed (use True b' in \<open>simp_all add: recv_frames.simps [of b] mq.drain_unfold [of "contents b"]\<close>)
  qed
qed


section \<open>Receiving in chunks\<close>

text \<open>
  \<^verbatim>\<open>TcpConnection::handleRead\<close> for each chunk the socket delivers, followed by the receive
  loop of the message callback.
\<close>

fun recv_chunks :: "bytes list \<Rightarrow> buffer \<Rightarrow> (bytes list \<times> buffer) option" where
  "recv_chunks [] b = Some ([], b)"
| "recv_chunks (c # cs) b = do {
     (n, saved, b1) \<leftarrow> readFd (Read_Bytes c) b;
     (fs, b2) \<leftarrow> recv_frames b1;
     (gs, b3) \<leftarrow> recv_chunks cs b2;
     Some (fs @ gs, b3)
   }"

lemma recv_chunks_feed:
  "wf_buffer b \<Longrightarrow>
     \<exists>b'. recv_chunks cs b = Some (fst (feed mq_cut cs (contents b)), b') \<and> wf_buffer b' \<and>
          contents b' = snd (feed mq_cut cs (contents b))"
proof (induction cs arbitrary: b)
  case Nil
  then show ?case by simp
next
  case (Cons c cs)
  obtain b1 where b1: "readFd (Read_Bytes c) b = Some (int (length c), None, b1)" "wf_buffer b1"
      "contents b1 = contents b @ c"
    using readFd_spec [OF Cons.prems] by blast
  obtain b2 where b2: "recv_frames b1 = Some (fst (drain mq_cut (contents b1)), b2)" "wf_buffer b2"
      "contents b2 = snd (drain mq_cut (contents b1))"
    using recv_frames_drain [OF b1(2)] by blast
  obtain b3 where "recv_chunks cs b2 = Some (fst (feed mq_cut cs (contents b2)), b3)" "wf_buffer b3"
      "contents b3 = snd (feed mq_cut cs (contents b2))"
    using Cons.IH [OF b2(2)] by blast
  with b1 b2 show ?case by (auto simp: Let_def split: prod.split)
qed

text \<open>A message to send, with the bytes nothing writes; the frame it becomes.\<close>

record outgoing =
  o_packet :: mqPacket
  o_topic :: bytes
  o_message :: bytes
  o_pad :: "nat \<Rightarrow> byte"
  o_junk :: "nat \<Rightarrow> byte"

definition sendable :: "outgoing \<Rightarrow> bool" where
  "sendable x \<longleftrightarrow>
     unat (topicBytes (o_packet x)) = length (o_topic x) \<and>
     unat (msgBytes (o_packet x)) = length (o_message x) \<and>
     MqPacketLength (o_packet x) < 2 ^ 31 \<and>
     (\<exists>c. command (o_packet x) = command_code c)"

definition frame_of :: "outgoing \<Rightarrow> bytes" where
  "frame_of x = frame_image (o_junk x) (o_pad x) (o_packet x) (o_topic x @ o_message x)"

fun send_all :: "outgoing list \<Rightarrow> buffer \<Rightarrow> buffer option" where
  "send_all [] buff = Some buff"
| "send_all (x # xs) buff = do {
     buff' \<leftarrow> serializationToBuffer_message (o_junk x) (o_pad x) (o_packet x) (o_topic x) (o_message x) buff;
     send_all xs buff'
   }"

lemma sendable_body:
  "sendable x \<Longrightarrow> length (o_topic x) + length (o_message x) = body_len (o_packet x)"
  by (simp add: sendable_def body_len_def)

lemma sendable_command:
  "sendable x \<Longrightarrow> sint (command (o_packet x)) \<le> sint (command_code MQ_COMMAND_HEARTBEAT)"
  unfolding sendable_def using command_code_le by metis

lemma sendable_frame: "sendable x \<Longrightarrow> mq_frame (frame_of x)"
  and packet_at_frame_of: "sendable x \<Longrightarrow> packet_at (frame_of x) = o_packet x"
  unfolding frame_of_def
  by (rule frame_image_is_frame; simp add: sendable_body sendable_command del: command_code.simps)+

lemma body_frame_of:
  assumes "sendable x"
  shows "take (body_len (o_packet x)) (drop 72 (frame_of x)) = o_topic x @ o_message x"
  using frame_image_body [of "o_topic x @ o_message x" "o_packet x" "o_junk x" "o_pad x"]
  by (simp add: frame_of_def sendable_body [OF assms])

lemma getTopicAndMessage_frame_of:
  assumes "sendable x"
    and "command (o_packet x) \<noteq> command_code MQ_COMMAND_ACK"
    and "command (o_packet x) \<noteq> command_code MQ_COMMAND_HEARTBEAT"
  shows "getTopicAndMessage (frame_of x) = Some (o_topic x, o_message x)"
    and "getTopic (frame_of x) = Some (o_topic x)"
proof -
  let ?t = "length (o_topic x)" and ?m = "length (o_message x)" and ?p = "drop 72 (frame_of x)"
  have lens: "unat (topicBytes (o_packet x)) = ?t" "unat (msgBytes (o_packet x)) = ?m"
    using assms(1) by (simp_all add: sendable_def)
  have body: "take (?t + ?m) ?p = o_topic x @ o_message x"
    using body_frame_of [OF assms(1)] lens by (simp add: body_len_def)
  have "take ?t ?p = take ?t (take (?t + ?m) ?p)" by (simp add: min_def)
  then have t: "take ?t ?p = o_topic x" unfolding body by simp
  have "take ?m (drop ?t ?p) = drop ?t (take (?m + ?t) ?p)" by (rule take_drop)
  then have m: "take ?m (drop ?t ?p) = o_message x" using body by (simp add: add.commute)
  show "getTopicAndMessage (frame_of x) = Some (o_topic x, o_message x)"
    and "getTopic (frame_of x) = Some (o_topic x)"
    using assms(2,3) t m
    by (simp_all add: getTopicAndMessage_def getTopic_def packet_at_frame_of [OF assms(1)] lens
        offsetof_body_def)
qed

lemma send_all_contents:
  "\<forall>x \<in> set xs. sendable x \<Longrightarrow> wf_buffer b \<Longrightarrow>
     \<exists>b'. send_all xs b = Some b' \<and> wf_buffer b' \<and> contents b' = contents b @ concat (map frame_of xs)"
proof (induction xs arbitrary: b)
  case Nil
  then show ?case by simp
next
  case (Cons x xs)
  then have x: "sendable x" by simp
  obtain b1 where b1: "buf_append (frame_of x) b = Some b1" "wf_buffer b1"
      "contents b1 = contents b @ frame_of x"
    using buf_append_spec [OF Cons.prems(2)] by blast
  from x b1(1) have "serializationToBuffer_message (o_junk x) (o_pad x) (o_packet x) (o_topic x)
      (o_message x) b = Some b1"
    by (simp add: serializationToBuffer_message_def put_frame_def sendable_def frame_of_def)
  with Cons.IH [of b1] Cons.prems(1) b1 show ?case by simp
qed

section \<open>Properties\<close>

text \<open>
  C14: messages survive the wire however the stream is segmented. Any list of messages serialised one
  after the other into a buffer, sent as any sequence of chunks, and received into an empty buffer
  with the receive loop run after each chunk, comes out as the same frames in the same order, with
  nothing left over; whatever the bytes are that nothing writes.
\<close>

theorem mq_stream_roundtrip:
  assumes "\<forall>x \<in> set xs. sendable x" and "wf_buffer b" and "contents b = []"
    and "send_all xs out0 = Some out" and "wf_buffer out0" and "contents out0 = []"
    and "contents out = concat chunks"
  shows "\<exists>b'. recv_chunks chunks b = Some (map frame_of xs, b') \<and> wf_buffer b' \<and> contents b' = []"
proof -
  obtain out' where "send_all xs out0 = Some out'" "contents out' = concat (map frame_of xs)"
    using send_all_contents [OF assms(1,5)] assms(6) by auto
  with assms(4,7) have "concat (map frame_of xs) = [] @ concat chunks" by simp
  moreover have "\<forall>f \<in> set (map frame_of xs). mq_frame f"
    using assms(1) by (simp add: sendable_frame)
  moreover have "mq.partial []" by (simp add: mq.partial_def)
  ultimately have "feed mq_cut chunks [] = (map frame_of xs, [])"
    by (intro mq.feed_frames)
  with recv_chunks_feed [OF assms(2), of chunks] assms(3) show ?thesis by simp
qed

definition hello_packet :: outgoing where
  "hello_packet =
     \<lparr>o_packet = mqPacket_default\<lparr>command := command_code MQ_COMMAND_DELIVERY, messageId := 7,
                                 topicBytes := 2, msgBytes := 3\<rparr>,
      o_topic = [104, 105], o_message = [1, 2, 3], o_pad = (\<lambda>i. 170), o_junk = (\<lambda>i. 187)\<rparr>"

lemma sendable_hello [simp]: "sendable hello_packet"
  unfolding sendable_def
  by (intro conjI exI [of _ MQ_COMMAND_DELIVERY])
    (simp_all add: hello_packet_def mqPacket_default_def MqPacketLength_def layout)

theorem mq_stream_roundtrip_witness:
  "\<exists>out b'. send_all [hello_packet, hello_packet] (buffer_new 4) = Some out \<and>
     recv_chunks [take 100 (contents out), drop 100 (contents out)] (buffer_new 16)
       = Some ([frame_of hello_packet, frame_of hello_packet], b')"
proof -
  obtain out where out: "send_all [hello_packet, hello_packet] (buffer_new 4) = Some out"
    using send_all_contents [of "[hello_packet, hello_packet]" "buffer_new 4"] by auto
  have "\<forall>x \<in> set [hello_packet, hello_packet]. sendable x" by simp
  from mq_stream_roundtrip [OF this wf_buffer_new contents_buffer_new out wf_buffer_new
      contents_buffer_new, of "[take 100 (contents out), drop 100 (contents out)]" 16]
  obtain b' where "recv_chunks [take 100 (contents out), drop 100 (contents out)] (buffer_new 16)
      = Some (map frame_of [hello_packet, hello_packet], b')" by auto
  then show ?thesis using out by (intro exI [of _ out] exI [of _ b']) simp
qed

text \<open>
  what a receiver reads out of a frame is what the sender put in: every member of the header, the
  topic and the message, for each command that carries a body.
\<close>

lemma mq_frame_content_roundtrip:
  assumes "sendable x"
    and "command (o_packet x) \<noteq> command_code MQ_COMMAND_ACK"
    and "command (o_packet x) \<noteq> command_code MQ_COMMAND_HEARTBEAT"
  shows "packet_at (frame_of x) = o_packet x \<and>
         getTopicAndMessage (frame_of x) = Some (o_topic x, o_message x)"
  using assms by (simp add: packet_at_frame_of getTopicAndMessage_frame_of)

text \<open>
  what \<^verbatim>\<open>serializationToMqPacket\<close> does, on each branch, to a buffer with more readable
  bytes than a header: an unknown command clears the buffer; an incomplete packet leaves it alone;
  a missing end mark clears it; otherwise the frame comes off the front and the rest stays.
\<close>

lemma serializationToMqPacket_branches:
  assumes "wf_buffer b" and "sizeof_MqPacket < readableBytes b"
  defines "c \<equiv> contents b" and "msg \<equiv> packet_at (contents b)"
  shows "\<exists>r b'. serializationToMqPacket b = Some (r, b') \<and> wf_buffer b' \<and>
     (if sint (command msg) > 6 then r = None \<and> contents b' = []
      else if length c < MqPacketLength msg then r = None \<and> contents b' = c
      else if c ! (72 + body_len msg) \<noteq> 255 then r = None \<and> contents b' = []
      else r = Some (take (MqPacketLength msg) c) \<and> contents b' = drop (MqPacketLength msg) c)"
proof -
  have len: "length c = readableBytes b" using assms(1) by (simp add: c_def)
  obtain b' where "serializationToMqPacket b =
        Some (case mq_cut c of Frame f rest \<Rightarrow> Some f | _ \<Rightarrow> None, b')" "wf_buffer b'"
      "contents b' = (case mq_cut c of Frame f rest \<Rightarrow> rest | Need_More \<Rightarrow> c | Broken \<Rightarrow> [])"
    using serializationToMqPacket_cut [OF assms(1,2)] unfolding c_def by blast
  moreover have "sint (command_code MQ_COMMAND_HEARTBEAT) = 6" by simp
  ultimately show ?thesis using assms(2) len
    by (simp add: mq_cut_def checkMqPacketEnd_iff Let_def msg_def c_def [symmetric])
qed

text \<open>
  of the four bytes of the end mark only the first is ever looked at: a frame whose other three
  mark bytes (and whatever follows) are anything at all is still accepted.
\<close>

lemma end_mark_checks_one_byte:
  assumes "mq_frame f"
  shows "mq_frame (splice_at (73 + body_len (packet_at f)) [e1, e2, e3] f)"
proof -
  let ?i = "73 + body_len (packet_at f)"
  let ?g = "splice_at ?i [e1, e2, e3] f"
  from assms have len: "length f = 84 + body_len (packet_at f)"
    by (simp add: mq_frame_def MqPacketLength_body)
  then have "take ?i ?g = take ?i f" by (simp add: take_splice_at)
  then have at: "packet_at ?g = packet_at f"
    using packet_at_take [of ?i ?g] packet_at_take [of ?i f] len by simp
  have "?g ! (72 + body_len (packet_at f)) = f ! (72 + body_len (packet_at f))"
    using len by (simp add: splice_at_def nth_append)
  with assms at len show ?thesis by (simp add: mq_frame_def checkMqPacketEnd_iff)
qed

text \<open>
  \<^verbatim>\<open>getMessage\<close> is meant to read the message; it reads the topic's bytes, whatever the
  packet is.
\<close>

lemma getMessage_reads_topic: "getMessage f = getTopic f"
  by (simp add: getMessage_def getTopic_def)

end
