(* ===== verification/Snowflake.thy ===== *)
theory Snowflake
  imports Interfaces
begin

text \<open>
  \<^verbatim>\<open>SnowflakeIdWorker\<close> of \<^verbatim>\<open>src/skylu/base/snowflake.h\<close>: 64 bit ids made of a
  millisecond time stamp, a data centre, a worker and a counter.

  The clock is an input: \<^verbatim>\<open>timeGen\<close> takes the next reading of a list, and a call that finds
  the list empty is still running (\<open>None\<close>). The exception of a clock that ran backwards is the left
  summand, with the number of milliseconds it reports. The seed values \<^verbatim>\<open>rand()\<close> gives in
  the constructor are arguments; the mutex makes each \<^verbatim>\<open>nextId\<close> one step.
\<close>

unbundle bit_operations_syntax

section \<open>The code\<close>

record snowflake =
  m_workerId :: u32
  m_datacenterId :: u32
  m_sequence :: u32
  m_lastTimestamp :: u64

definition twepoch :: u64 where "twepoch = 1514736000000"

definition workerIdBits :: nat where "workerIdBits = 5"

definition datacenterIdBits :: nat where "datacenterIdBits = 5"

definition sequenceBits :: nat where "sequenceBits = 12"

definition workerIdShift :: nat where "workerIdShift = sequenceBits"

definition datacenterIdShift :: nat where "datacenterIdShift = workerIdShift + workerIdBits"

definition timestampLeftShift :: nat where "timestampLeftShift = datacenterIdShift + datacenterIdBits"

definition maxWorkerId :: u32 where "maxWorkerId = -1 XOR push_bit workerIdBits (-1)"

definition maxDatacenterId :: u32 where "maxDatacenterId = -1 XOR push_bit datacenterIdBits (-1)"

definition sequenceMask :: u32 where "sequenceMask = -1 XOR push_bit sequenceBits (-1)"

definition SnowflakeIdWorker :: "u32 \<Rightarrow> u32 \<Rightarrow> snowflake" where
  "SnowflakeIdWorker rand1 rand2 =
     \<lparr>m_workerId = rand1 mod maxWorkerId, m_datacenterId = rand2 mod maxDatacenterId,
      m_sequence = 0, m_lastTimestamp = 0\<rparr>"

definition setWorkerId :: "u32 \<Rightarrow> snowflake \<Rightarrow> snowflake" where
  "setWorkerId workerId s = s\<lparr>m_workerId := workerId\<rparr>"

definition setDatacenterId :: "u32 \<Rightarrow> snowflake \<Rightarrow> snowflake" where
  "setDatacenterId datacenterId s = s\<lparr>m_datacenterId := datacenterId\<rparr>"

fun timeGen :: "u64 list \<Rightarrow> (u64 \<times> u64 list) option" where
  "timeGen [] = None"
| "timeGen (t # clock) = Some (t, clock)"

text \<open>The busy wait: it reads the clock until it shows a later millisecond.\<close>

fun tilNextMillis :: "u64 \<Rightarrow> u64 list \<Rightarrow> (u64 \<times> u64 list) option" where
  "tilNextMillis lastTimestamp [] = None"
| "tilNextMillis lastTimestamp (timestamp # clock) =
     (if timestamp \<le> lastTimestamp then tilNextMillis lastTimestamp clock
      else Some (timestamp, clock))"

text \<open>The arithmetic on the right is on 32 bits, as the members are, before it is widened.\<close>

definition make_id :: "u64 \<Rightarrow> snowflake \<Rightarrow> u64" where
  "make_id timestamp s =
     push_bit timestampLeftShift (timestamp - twepoch)
     OR ucast (push_bit datacenterIdShift (m_datacenterId s))
     OR ucast (push_bit workerIdShift (m_workerId s))
     OR ucast (m_sequence s)"

definition nextId :: "snowflake \<Rightarrow> u64 list \<Rightarrow> ((u64 + u64) \<times> snowflake \<times> u64 list) option" where
  "nextId s clock = do {
     (timestamp, clock1) \<leftarrow> timeGen clock;
     if timestamp < m_lastTimestamp s then Some (Inl (m_lastTimestamp s - timestamp), s, clock1)
     else do {
       (timestamp', s', clock') \<leftarrow>
         (if m_lastTimestamp s = timestamp then do {
            let s1 = s\<lparr>m_sequence := (m_sequence s + 1) AND sequenceMask\<rparr>;
            if 0 = m_sequence s1 then do {
              (later, clock2) \<leftarrow> tilNextMillis (m_lastTimestamp s1) clock1;
              Some (later, s1, clock2)
            } else Some (timestamp, s1, clock1)
          } else Some (timestamp, s\<lparr>m_sequence := 0\<rparr>, clock1));
       let s'' = s'\<lparr>m_lastTimestamp := timestamp'\<rparr>;
       Some (Inr (make_id timestamp' s''), s'', clock')
     }
   }"

definition getId :: "snowflake \<Rightarrow> u64 list \<Rightarrow> ((u64 + u64) \<times> snowflake \<times> u64 list) option" where
  "getId s clock = nextId s clock"

section \<open>Series of calls\<close>

text \<open>\<open>n\<close> calls one after the other, and the ids of those that returned one.\<close>

fun get_ids :: "nat \<Rightarrow> snowflake \<Rightarrow> u64 list \<Rightarrow> (u64 list \<times> snowflake \<times> u64 list) option" where
  "get_ids 0 s clock = Some ([], s, clock)"
| "get_ids (Suc n) s clock = do {
     (r, s1, clock1) \<leftarrow> getId s clock;
     (ids, s2, clock2) \<leftarrow> get_ids n s1 clock1;
     Some (case r of Inl _ \<Rightarrow> ids | Inr i \<Rightarrow> i # ids, s2, clock2)
   }"

section \<open>The layout of an id\<close>

lemma shift_simps [simp]:
  "workerIdShift = 12" "datacenterIdShift = 17" "timestampLeftShift = 22"
  by (simp_all add: workerIdShift_def datacenterIdShift_def timestampLeftShift_def
      sequenceBits_def workerIdBits_def datacenterIdBits_def)

lemma mask_simps [simp]: "maxWorkerId = 31" "maxDatacenterId = 31" "sequenceMask = 4095"
  by (code_simp)+

definition sf_ok :: "snowflake \<Rightarrow> bool" where
  "sf_ok s \<longleftrightarrow> m_workerId s < 32 \<and> m_datacenterId s < 32 \<and> m_sequence s < 4096"


definition in_epoch :: "u64 \<Rightarrow> bool" where
  "in_epoch t \<longleftrightarrow> twepoch \<le> t \<and> t < twepoch + 2 ^ 42"

lemma in_epoch_unat: "in_epoch t \<longleftrightarrow> 1514736000000 \<le> unat t \<and> unat t < 1514736000000 + 2 ^ 42"
  by (simp add: in_epoch_def twepoch_def word_le_nat_alt word_less_nat_alt)

lemma unat_since: "in_epoch t \<Longrightarrow> unat (t - twepoch) = unat t - 1514736000000"
  by (simp add: in_epoch_def unat_sub) (simp add: twepoch_def)

lemma or_low_bits:
  fixes x y :: nat
  assumes "x < 2 ^ n"
  shows "push_bit n y OR x = y * 2 ^ n + x"
proof -
  have x: "take_bit n x = x" using assms by (rule take_bit_nat_eq_self)
  have "push_bit n y AND take_bit n x = 0"
    by (rule bit_eqI) (auto simp: bit_simps)
  then have "push_bit n y OR x = push_bit n y + x"
    unfolding x by (rule disjunctive_add_eq_or [symmetric])
  then show ?thesis by (simp add: push_bit_eq_mult)
qed

lemma unat_push_bit_small:
  fixes w :: "'a :: len word"
  assumes "unat w * 2 ^ n < 2 ^ LENGTH('a)"
  shows "unat (push_bit n w) = unat w * 2 ^ n"
proof -
  have "unat (push_bit n w) = take_bit LENGTH('a) (push_bit n (unat w))"
    by (rule unsigned_push_bit_eq)
  with assms show ?thesis by (simp add: push_bit_eq_mult take_bit_nat_eq_self)
qed

lemma unat_ucast_32_64 [simp]: "unat (ucast (w :: u32) :: u64) = unat w"
proof -
  have "unat w < 2 ^ 32" using unsigned_less [of w] by simp
  then show ?thesis by (simp add: unsigned_ucast_eq take_bit_nat_eq_self)
qed

text \<open>Within the epoch an id is a number in mixed base: time, data centre, worker, counter.\<close>

lemma unat_make_id:
  assumes "sf_ok s" and "in_epoch t"
  shows "unat (make_id t s) =
    (unat t - 1514736000000) * 2 ^ 22 + unat (m_datacenterId s) * 2 ^ 17
      + unat (m_workerId s) * 2 ^ 12 + unat (m_sequence s)"
proof -
  have w: "unat (m_workerId s) < 32" and d: "unat (m_datacenterId s) < 32"
    and q: "unat (m_sequence s) < 4096"
    using assms(1) by (simp_all add: sf_ok_def word_less_nat_alt)
  let ?t = "unat t - 1514736000000" let ?d = "unat (m_datacenterId s)" let ?w = "unat (m_workerId s)"
  let ?q = "unat (m_sequence s)"
  have 1: "unat (push_bit 22 (t - twepoch)) = push_bit 22 ?t"
  proof -
    have "?t < 2 ^ 42" using assms(2) by (auto simp: in_epoch_unat)
    then show ?thesis
      by (subst unat_push_bit_small) (simp_all add: unat_since [OF assms(2)] push_bit_eq_mult)
  qed
  have 2: "unat (push_bit 17 (m_datacenterId s)) = ?d * 2 ^ 17"
    using d by (intro unat_push_bit_small) simp
  have 3: "unat (push_bit 12 (m_workerId s)) = push_bit 12 ?w"
    using w by (subst unat_push_bit_small) (simp_all add: push_bit_eq_mult)
  have "unat (make_id t s) = push_bit 22 ?t OR (?d * 2 ^ 17 OR (push_bit 12 ?w OR ?q))"
    by (simp add: make_id_def unsigned_or_eq 1 2 3 or.assoc)
  also have "push_bit 12 ?w OR ?q = ?w * 2 ^ 12 + ?q"
    using q by (intro or_low_bits) simp
  also have "?d * 2 ^ 17 OR (?w * 2 ^ 12 + ?q) = push_bit 17 ?d OR (?w * 2 ^ 12 + ?q)"
    by (simp add: push_bit_eq_mult)
  also have "\<dots> = ?d * 2 ^ 17 + (?w * 2 ^ 12 + ?q)"
    using w q by (intro or_low_bits) simp
  also have "push_bit 22 ?t OR \<dots> = ?t * 2 ^ 22 + \<dots>"
    using d w q by (intro or_low_bits) simp
  finally show ?thesis by simp
qed


section \<open>One call\<close>

lemma next_sequence: "sf_ok s \<Longrightarrow> unat ((m_sequence s + 1) AND sequenceMask) =
    (if m_sequence s = 4095 then 0 else unat (m_sequence s) + 1)"
proof -
  assume "sf_ok s"
  then have q: "unat (m_sequence s) < 4096" by (simp add: sf_ok_def word_less_nat_alt)
  then have "unat (m_sequence s + 1) = unat (m_sequence s) + 1"
    by (subst unat_add_lem [THEN iffD1]) simp_all
  moreover have "unat ((m_sequence s + 1) AND sequenceMask) = unat (m_sequence s + 1) mod 4096"
  proof -
    have "(m_sequence s + 1) AND sequenceMask = take_bit 12 (m_sequence s + 1)"
      by (simp add: take_bit_eq_mask mask_eq_exp_minus_1)
    then have "unat ((m_sequence s + 1) AND sequenceMask) = take_bit 12 (unat (m_sequence s + 1))"
      by (simp only: unsigned_take_bit_eq)
    then show ?thesis by (simp add: take_bit_eq_mod)
  qed
  ultimately have "unat ((m_sequence s + 1) AND sequenceMask) = (unat (m_sequence s) + 1) mod 4096"
    by simp
  moreover have "m_sequence s = 4095 \<longleftrightarrow> unat (m_sequence s) = 4095"
    by (simp add: word_unat_eq_iff)
  ultimately show ?thesis using q by (cases "unat (m_sequence s) = 4095") simp_all
qed

lemma tilNextMillis_Some:
  "tilNextMillis lastTimestamp clock = Some (t, clock') \<Longrightarrow>
     lastTimestamp < t \<and> t \<in> set clock \<and> set clock' \<subseteq> set clock"
  by (induction lastTimestamp clock rule: tilNextMillis.induct) (auto split: if_splits)

lemma tilNextMillis_returns:
  "(\<exists>r. tilNextMillis lastTimestamp clock = Some r) \<longleftrightarrow> (\<exists>t \<in> set clock. lastTimestamp < t)"
  by (induction lastTimestamp clock rule: tilNextMillis.induct) auto

text \<open>The pair of time stamp and counter goes up with every id.\<close>

definition later_than :: "snowflake \<Rightarrow> snowflake \<Rightarrow> bool" where
  "later_than s s' \<longleftrightarrow> m_lastTimestamp s < m_lastTimestamp s' \<or>
     (m_lastTimestamp s = m_lastTimestamp s' \<and> m_sequence s < m_sequence s')"

lemma nextId_step:
  assumes "nextId s clock = Some (r, s', clock')" and "sf_ok s" and "\<forall>t \<in> set clock. in_epoch t"
  shows "sf_ok s' \<and> m_workerId s' = m_workerId s \<and> m_datacenterId s' = m_datacenterId s
    \<and> set clock' \<subseteq> set clock
    \<and> (case r of Inl _ \<Rightarrow> s' = s
       | Inr i \<Rightarrow> in_epoch (m_lastTimestamp s') \<and> i = make_id (m_lastTimestamp s') s' \<and> later_than s s')"
proof -
  obtain t clock1 where clock: "clock = t # clock1"
    using assms(1) by (cases clock) (simp_all add: nextId_def)
  let ?q = "(m_sequence s + 1) AND sequenceMask"
  have same: "make_id u (x\<lparr>m_lastTimestamp := v\<rparr>) = make_id u x" for u v x
    by (simp add: make_id_def)
  have "unat (m_sequence s) < 4096" using assms(2) by (simp add: sf_ok_def word_less_nat_alt)
  moreover have "m_sequence s = 4095 \<longleftrightarrow> unat (m_sequence s) = 4095"
    by (simp add: word_unat_eq_iff)
  ultimately have q: "?q < 4096" and q': "?q = 0 \<or> m_sequence s < ?q"
    using next_sequence [OF assms(2)]
    by (cases "unat (m_sequence s) = 4095"; simp add: word_less_nat_alt unat_eq_zero)+
  consider "t < m_lastTimestamp s" | "t = m_lastTimestamp s" "?q = 0"
    | "t = m_lastTimestamp s" "?q \<noteq> 0" | "m_lastTimestamp s < t" by fastforce
  then show ?thesis
  proof cases
    case 1
    with assms(1,2) show ?thesis by (auto simp: nextId_def clock)
  next
    case 2
    with assms(1) obtain later where "tilNextMillis (m_lastTimestamp s) clock1 = Some (later, clock')"
      and "r = Inr (make_id later (s\<lparr>m_sequence := 0\<rparr>))"
      and "s' = s\<lparr>m_sequence := 0, m_lastTimestamp := later\<rparr>"
      by (auto simp: nextId_def clock Let_def same simp del: mask_simps split: Option.bind_split_asm)
    with tilNextMillis_Some [OF this(1)] assms(2,3) show ?thesis
      by (auto simp: clock later_than_def sf_ok_def same)
  next
    case 3
    with assms(1) have "r = Inr (make_id t (s\<lparr>m_sequence := ?q\<rparr>))"
      and "s' = s\<lparr>m_sequence := ?q, m_lastTimestamp := t\<rparr>" and "clock' = clock1"
      by (auto simp: nextId_def clock Let_def same simp del: mask_simps)
    with 3 q q' assms(2,3) show ?thesis
      by (auto simp: clock later_than_def sf_ok_def same simp del: mask_simps)
  next
    case 4
    then have order: "\<not> t < m_lastTimestamp s" "m_lastTimestamp s \<noteq> t" by auto
    then have "r = Inr (make_id t (s\<lparr>m_sequence := 0\<rparr>))"
      and "s' = s\<lparr>m_sequence := 0, m_lastTimestamp := t\<rparr>" and "clock' = clock1"
      using assms(1) by (simp_all add: nextId_def clock Let_def same del: mask_simps)
    with 4 assms(2,3) show ?thesis
      by (auto simp: clock later_than_def sf_ok_def same simp del: mask_simps)
  qed
qed

lemma make_id_mono:
  assumes "sf_ok s" "sf_ok s'" "in_epoch (m_lastTimestamp s)" "in_epoch (m_lastTimestamp s')"
    and "later_than s s'" "m_workerId s' = m_workerId s" "m_datacenterId s' = m_datacenterId s"
  shows "make_id (m_lastTimestamp s) s < make_id (m_lastTimestamp s') s'"
proof -
  have b: "unat (m_workerId s) < 32" "unat (m_datacenterId s) < 32" "unat (m_sequence s) < 4096"
    using assms(1) by (simp_all add: sf_ok_def word_less_nat_alt)
  let ?n = "unat (m_lastTimestamp s) - 1514736000000"
  let ?n' = "unat (m_lastTimestamp s') - 1514736000000"
  have "?n < ?n' \<or> ?n = ?n' \<and> unat (m_sequence s) < unat (m_sequence s')"
    using assms(3,4,5) by (auto simp: later_than_def in_epoch_unat word_less_nat_alt)
  then show ?thesis
    unfolding word_less_nat_alt unat_make_id [OF assms(1,3)] unat_make_id [OF assms(2,4)] assms(6,7)
  proof (elim disjE conjE)
    assume "?n < ?n'"
    then have "?n * 2 ^ 22 + 2 ^ 22 \<le> ?n' * 2 ^ 22" by simp
    with b show "?n * 2 ^ 22 + unat (m_datacenterId s) * 2 ^ 17 + unat (m_workerId s) * 2 ^ 12
        + unat (m_sequence s) < ?n' * 2 ^ 22 + unat (m_datacenterId s) * 2 ^ 17
        + unat (m_workerId s) * 2 ^ 12 + unat (m_sequence s')" by simp
  qed simp
qed

lemma mixed_base:
  fixes t d w q :: nat
  assumes "w < 32" "d < 32" "q < 4096"
  shows "(t * 2 ^ 22 + d * 2 ^ 17 + w * 2 ^ 12 + q) div 4096 mod 32 = w"
    and "(t * 2 ^ 22 + d * 2 ^ 17 + w * 2 ^ 12 + q) div 131072 mod 32 = d"
proof -
  have "t * 2 ^ 22 + d * 2 ^ 17 + w * 2 ^ 12 + q = ((t * 32 + d) * 32 + w) * 4096 + q" by simp
  then have "(t * 2 ^ 22 + d * 2 ^ 17 + w * 2 ^ 12 + q) div 4096 = (t * 32 + d) * 32 + w"
    using assms(3) by simp
  then show "(t * 2 ^ 22 + d * 2 ^ 17 + w * 2 ^ 12 + q) div 4096 mod 32 = w"
    using assms(1) by (simp only: mod_mult_self3 mod_less)
  have "t * 2 ^ 22 + d * 2 ^ 17 + w * 2 ^ 12 + q = (t * 32 + d) * 131072 + (w * 4096 + q)" by simp
  moreover have "w * 4096 + q < 131072" using assms by simp
  ultimately have "(t * 2 ^ 22 + d * 2 ^ 17 + w * 2 ^ 12 + q) div 131072 = t * 32 + d"
    by (simp only: div_mult_self3)
  then show "(t * 2 ^ 22 + d * 2 ^ 17 + w * 2 ^ 12 + q) div 131072 mod 32 = d"
    using assms(2) by (simp only: mod_mult_self3 mod_less)
qed

text \<open>Two ids agree only if the generators do.\<close>

lemma make_id_workers:
  assumes "sf_ok s" "sf_ok s'" "in_epoch t" "in_epoch t'" "make_id t s = make_id t' s'"
  shows "m_workerId s = m_workerId s' \<and> m_datacenterId s = m_datacenterId s'"
proof -
  have b: "unat (m_workerId s) < 32" "unat (m_datacenterId s) < 32" "unat (m_sequence s) < 4096"
    "unat (m_workerId s') < 32" "unat (m_datacenterId s') < 32" "unat (m_sequence s') < 4096"
    using assms(1,2) by (simp_all add: sf_ok_def word_less_nat_alt)
  have "unat (make_id t s) = unat (make_id t' s')" using assms(5) by simp
  then have "unat (m_workerId s) = unat (m_workerId s')
      \<and> unat (m_datacenterId s) = unat (m_datacenterId s')"
    unfolding unat_make_id [OF assms(1,3)] unat_make_id [OF assms(2,4)]
    using mixed_base [OF b(1,2,3)] mixed_base [OF b(4,5,6)] by metis
  then show ?thesis by (simp add: word_unat_eq_iff)
qed


section \<open>Properties\<close>

definition started :: "snowflake \<Rightarrow> bool" where
  "started s \<longleftrightarrow> sf_ok s \<and> (m_lastTimestamp s = 0 \<or> in_epoch (m_lastTimestamp s))"

lemma get_ids_increase:
  assumes "get_ids n s clock = Some (ids, s', clock')" and "started s" and "\<forall>t \<in> set clock. in_epoch t"
  shows "sorted_wrt (<) ids
    \<and> (\<forall>i \<in> set ids. \<exists>u. i = make_id (m_lastTimestamp u) u \<and> started u \<and> in_epoch (m_lastTimestamp u)
        \<and> later_than s u \<and> m_workerId u = m_workerId s \<and> m_datacenterId u = m_datacenterId s)"
  using assms
proof (induction n arbitrary: s clock ids)
  case 0
  then show ?case by simp
next
  case (Suc n)
  from Suc.prems(1) obtain r s1 clock1 rest where 1: "nextId s clock = Some (r, s1, clock1)"
    and 2: "get_ids n s1 clock1 = Some (rest, s', clock')"
    and ids: "ids = (case r of Inl _ \<Rightarrow> rest | Inr i \<Rightarrow> i # rest)"
    by (auto simp: getId_def split: Option.bind_split_asm prod.splits)
  note step = nextId_step [OF 1 _ Suc.prems(3)]
  have ok: "started s1"
    using step Suc.prems(2) by (cases r) (auto simp: started_def)
  have clock1: "\<forall>t \<in> set clock1. in_epoch t"
    using step Suc.prems(2,3) by (auto simp: started_def)
  note IH = Suc.IH [OF 2 ok clock1]
  show ?case
  proof (cases r)
    case (Inl d)
    with step IH Suc.prems(2) show ?thesis by (simp add: ids started_def)
  next
    case (Inr i)
    with step Suc.prems(2) have i: "i = make_id (m_lastTimestamp s1) s1"
      "in_epoch (m_lastTimestamp s1)" "later_than s s1"
      "m_workerId s1 = m_workerId s" "m_datacenterId s1 = m_datacenterId s"
      by (simp_all add: started_def)
    have "\<forall>j \<in> set rest. i < j"
      using IH i ok by (auto simp: started_def intro!: make_id_mono)
    moreover have "later_than s u" if "later_than s1 u" for u
      using that i(3) by (auto simp: later_than_def)
    ultimately have "\<forall>j \<in> set rest. \<exists>u. j = make_id (m_lastTimestamp u) u \<and> started u
        \<and> in_epoch (m_lastTimestamp u) \<and> later_than s u
        \<and> m_workerId u = m_workerId s \<and> m_datacenterId u = m_datacenterId s"
      using IH i(4,5) by metis
    moreover note \<open>\<forall>j \<in> set rest. i < j\<close>
    ultimately show ?thesis
      using IH i ok by (simp add: ids Inr) blast
  qed
qed

section \<open>The source of ids\<close>

text \<open>What may have been handed out: nothing above the last id.\<close>

definition issued :: "snowflake \<Rightarrow> u64 \<Rightarrow> bool" where
  "issued s i \<longleftrightarrow> m_lastTimestamp s \<noteq> 0 \<and> i \<le> make_id (m_lastTimestamp s) s"

interpretation sid: id_source getId started "\<lambda>clock. \<forall>t \<in> set clock. in_epoch t" issued
proof
  fix g g' :: snowflake and e e' :: "u64 list" and r :: "u64 + u64"
  assume d: "getId g e = Some (r, g', e')" and ok: "started g" and env: "\<forall>t \<in> set e. in_epoch t"
  then have step: "sf_ok g' \<and> m_workerId g' = m_workerId g \<and> m_datacenterId g' = m_datacenterId g
    \<and> set e' \<subseteq> set e
    \<and> (case r of Inl _ \<Rightarrow> g' = g
       | Inr i \<Rightarrow> in_epoch (m_lastTimestamp g') \<and> i = make_id (m_lastTimestamp g') g' \<and> later_than g g')"
    using nextId_step [of g e r g' e'] by (simp add: getId_def started_def)
  show "started g' \<and> (\<forall>t \<in> set e'. in_epoch t) \<and> (\<forall>i. issued g i \<longrightarrow> issued g' i)
    \<and> (\<forall>i. r = Inr i \<longrightarrow> \<not> issued g i \<and> issued g' i)"
  proof (cases r)
    case (Inl x)
    with step ok env show ?thesis by (auto simp: started_def)
  next
    case (Inr i)
    have up: "make_id (m_lastTimestamp g) g < i" if "m_lastTimestamp g \<noteq> 0"
      using make_id_mono [of g g'] step ok that Inr by (auto simp: started_def)
    have "m_lastTimestamp g' \<noteq> 0" using step Inr by (auto simp: in_epoch_def twepoch_def)
    with step Inr up ok env show ?thesis by (fastforce simp: issued_def started_def)
  qed
qed

text \<open>
  C28: A generator whose worker and data centre fit in five bits, called any number of times on a
  clock within 139 years of the epoch, hands out strictly increasing ids, also across calls that
  fail because the clock ran backwards and across a counter that wraps in one millisecond.
\<close>

theorem snowflake_ids_increase:
  assumes "started s" and "\<forall>t \<in> set clock. in_epoch t"
    and "get_ids n s clock = Some (ids, s', clock')"
  shows "sorted_wrt (<) ids"
  using get_ids_increase [OF assms(3,1,2)] by simp

text \<open>
  Two generators that differ in worker or data centre never hand out the same id, whatever
  their clocks show.
\<close>

lemma snowflake_ids_disjoint:
  assumes "started s" and "\<forall>t \<in> set clock. in_epoch t" and "get_ids n s clock = Some (ids, s', clock')"
    and "started u" and "\<forall>t \<in> set cl. in_epoch t" and "get_ids m u cl = Some (ids', u', cl')"
    and "m_workerId s \<noteq> m_workerId u \<or> m_datacenterId s \<noteq> m_datacenterId u"
  shows "set ids \<inter> set ids' = {}"
proof (rule ccontr)
  assume "set ids \<inter> set ids' \<noteq> {}"
  then obtain i where i: "i \<in> set ids" "i \<in> set ids'" by blast
  from get_ids_increase [OF assms(3,1,2)] i(1) obtain x where x: "i = make_id (m_lastTimestamp x) x"
    "started x" "in_epoch (m_lastTimestamp x)" "m_workerId x = m_workerId s"
    "m_datacenterId x = m_datacenterId s" by blast
  from get_ids_increase [OF assms(6,4,5)] i(2) obtain y where y: "i = make_id (m_lastTimestamp y) y"
    "started y" "in_epoch (m_lastTimestamp y)" "m_workerId y = m_workerId u"
    "m_datacenterId y = m_datacenterId u" by blast
  have "m_workerId x = m_workerId y \<and> m_datacenterId x = m_datacenterId y"
    by (rule make_id_workers [where t = "m_lastTimestamp x" and t' = "m_lastTimestamp y"])
      (use x y in \<open>simp_all add: started_def\<close>)
  with assms(7) x y show False by simp
qed

text \<open>
  \<^verbatim>\<open>getId\<close> comes back exactly when the clock can be read and, if the counter of this
  millisecond is used up, the clock shows a later millisecond at some point.
\<close>

lemma getId_terminates:
  "(\<exists>r. getId s clock = Some r) \<longleftrightarrow>
     (\<exists>t clock1. clock = t # clock1 \<and>
        (t = m_lastTimestamp s \<and> (m_sequence s + 1) AND sequenceMask = 0 \<longrightarrow>
           (\<exists>u \<in> set clock1. m_lastTimestamp s < u)))"
proof (cases clock)
  case Nil
  then show ?thesis by (simp add: getId_def nextId_def)
next
  case (Cons t clock1)
  then show ?thesis
    using tilNextMillis_returns [of "m_lastTimestamp s" clock1]
    by (auto simp: getId_def nextId_def Let_def simp del: mask_simps split: Option.bind_split)
qed

text \<open>
  \<^verbatim>\<open>setWorkerId\<close> takes any number, and 32 runs into the bits of the data centre: worker 32 of
  data centre 0 hands out the ids of worker 0 of data centre 1.
\<close>

lemma setWorkerId_unchecked:
  "map_option fst (getId (setWorkerId 32 (setDatacenterId 0 s)) clock) =
   map_option fst (getId (setWorkerId 0 (setDatacenterId 1 s)) clock)"
proof -
  have "make_id t (setWorkerId 32 (setDatacenterId 0 s)\<lparr>m_sequence := q\<rparr>) =
        make_id t (setWorkerId 0 (setDatacenterId 1 s)\<lparr>m_sequence := q\<rparr>)" for t q
    by (simp add: make_id_def setWorkerId_def setDatacenterId_def)
  then show ?thesis
    by (auto simp: getId_def nextId_def Let_def make_id_def setWorkerId_def setDatacenterId_def
        split: Option.bind_split)
qed

section \<open>Witnesses\<close>

definition demo_worker :: snowflake where
  "demo_worker = (SnowflakeIdWorker 34 7)\<lparr>m_sequence := 4094, m_lastTimestamp := 1600000000000\<rparr>"

definition demo_clock :: "u64 list" where
  "demo_clock = [1600000000000, 1600000000000, 1600000000000, 1600000000001, 1599999999999, 1600000000002]"

lemma demo_worker_ok: "started demo_worker" "started (setWorkerId 4 demo_worker)"
  "\<forall>t \<in> set demo_clock. in_epoch t"
  by code_simp+

lemma demo_ids:
  "get_ids 4 demo_worker demo_clock =
     Some ([357623136256933887, 357623136261124096, 357623136265318400],
       demo_worker\<lparr>m_sequence := 0, m_lastTimestamp := 1600000000002\<rparr>, [])"
  by code_simp

lemma demo_ids':
  "get_ids 4 (setWorkerId 4 demo_worker) demo_clock =
     Some ([357623136256937983, 357623136261128192, 357623136265322496],
       demo_worker\<lparr>m_workerId := 4, m_sequence := 0, m_lastTimestamp := 1600000000002\<rparr>, [])"
  by code_simp

theorem snowflake_ids_increase_witness:
  "sorted_wrt (<) [357623136256933887, 357623136261124096, 357623136265318400 :: u64]"
  by (rule snowflake_ids_increase [OF demo_worker_ok(1,3) demo_ids])

end
