(* ===== verification/Producer.thy ===== *)
theory Producer
  imports MqBusd HashRing MqProto Snowflake
begin

text \<open>
  \<^verbatim>\<open>src/example/mqbusd/producer.h\<close> and \<^verbatim>\<open>producer.cc\<close>: messages are put into a
  queue, sent to the broker that consistent hashing gives their topic, and kept for resending until the
  broker answers.

  The user's thread calls \<^verbatim>\<open>put\<close> and \<^verbatim>\<open>send\<close>, the loop's thread does the rest.
  The mutex makes what touches \<^verbatim>\<open>m_send_queue\<close> atomic, and \<^verbatim>\<open>sendInLoop\<close> takes
  the whole queue before it does anything else, so one step of the model is one call. Times and the bytes
  that nothing writes are arguments; \<open>cb_send\<close> and \<open>cb_ok\<close> say whether the callbacks
  are set, \<open>reported\<close> and \<open>confirmed\<close> collect what they are called with. \<open>None\<close>
  is an assertion that fails or a null pointer that is read.
\<close>

type_synonym message = "u64 \<times> bytes \<times> bytes"

record producer = busd +
  m_send_queue :: "message list"
  queue :: "message list"
  m_resend_set :: "(u64, bytes \<times> bytes) ord_map"
  cb_send :: bool
  cb_ok :: bool
  reported :: "(bool \<times> message list) list"
  confirmed :: "message list"
  m_hashHost :: ring
  m_vaild_conne :: "(bytes \<times> tcp_conne option) list"
  m_begin_send_time :: u64
  m_send_count :: u64
  m_deliver_successful_count :: u64
  has_loop :: bool
  pending :: "bool list"
  ids :: snowflake

definition kVirtualNodeNum :: nat where "kVirtualNodeNum = 50"

definition Producer :: "snowflake \<Rightarrow> bool \<Rightarrow> bool \<Rightarrow> producer" where
  "Producer worker send_cb ok_cb =
     busd.extend (busd_init 0)
       \<lparr>m_send_queue = [], queue = [], m_resend_set = [], cb_send = send_cb, cb_ok = ok_cb,
        reported = [], confirmed = [], m_hashHost = [], m_vaild_conne = [], m_begin_send_time = 0,
        m_send_count = 0, m_deliver_successful_count = 0, has_loop = False, pending = [], ids = worker\<rparr>"

text \<open>\<^verbatim>\<open>run\<close> up to the loop: the clients of the directory servers.\<close>

definition run :: "nat \<Rightarrow> producer \<Rightarrow> producer" where
  "run dirs s = s\<lparr>has_loop := True, m_dir_conns := replicate dirs None\<rparr>"

section \<open>Putting\<close>

definition createMessageId :: "u64 list \<Rightarrow> producer \<Rightarrow> ((u64 + u64) \<times> producer \<times> u64 list) option" where
  "createMessageId clock s = do {
     (r, g, clock') \<leftarrow> getId (ids s) clock;
     Some (r, s\<lparr>ids := g\<rparr>, clock')
   }"

text \<open>The exception of a clock that ran backwards leaves \<^verbatim>\<open>put\<close> before the message is queued.\<close>

definition put :: "u64 list \<Rightarrow> bytes \<Rightarrow> bytes \<Rightarrow> producer \<Rightarrow> ((u64 + u64) \<times> producer \<times> u64 list) option" where
  "put clock topic message s = do {
     (r, s1, clock') \<leftarrow> createMessageId clock s;
     (case r of
        Inl behind \<Rightarrow> Some (Inl behind, s1, clock')
      | Inr i \<Rightarrow> do {
          assert_that (map_of (m_resend_set s1) i = None);
          Some (Inr i, s1\<lparr>m_send_queue := m_send_queue s1 @ [(i, topic, message)]\<rparr>, clock')
        })
   }"

section \<open>Sending\<close>

text \<open>The connection of the node: \<^verbatim>\<open>m_vaild_conne[name]\<close> makes a null entry if there is none.\<close>

definition lookup_conne :: "bytes \<Rightarrow> producer \<Rightarrow> tcp_conne option \<times> producer" where
  "lookup_conne name s =
     (case map_of (m_vaild_conne s) name of
        Some conne \<Rightarrow> (conne, s)
      | None \<Rightarrow> (None, s\<lparr>m_vaild_conne := AList.update name None (m_vaild_conne s)\<rparr>))"

definition choose_conne :: "bytes \<Rightarrow> producer \<Rightarrow> (tcp_conne option \<times> producer) option" where
  "choose_conne topic s =
     (case ring_find (MurMurHash topic) (m_hashHost s) of
        None \<Rightarrow> Some (None, s)
      | Some it \<Rightarrow> do {
          assert_that (m_vaild_conne s \<noteq> []);
          Some (lookup_conne (conneName (snd it)) s)
        })"

text \<open>
  Sending what is in the buffer. \<^verbatim>\<open>now\<close> is the clock, read only for the first batch.
\<close>

definition max_batch :: nat where "max_batch = 64 * 1024"

definition flush :: "u64 \<Rightarrow> tcp_conne option \<Rightarrow> buffer \<Rightarrow> producer \<Rightarrow> (buffer \<times> producer) option" where
  "flush now conne buff s =
     (case conne of
        None \<Rightarrow> Some (buff, s)
      | Some c \<Rightarrow> do {
          let s1 = (if m_begin_send_time s = 0 then s\<lparr>m_begin_send_time := now\<rparr> else s);
          assert_that (readableBytes buff < max_batch);
          Some (conne_send_buffer c buff s1)
        })"

definition delivery_packet :: "u64 \<Rightarrow> message \<Rightarrow> mqPacket" where
  "delivery_packet now data =
     mqPacket_default\<lparr>command := command_code MQ_COMMAND_DELIVERY, messageId := fst data,
       msgCreateTime := now, topicBytes := of_nat (length (fst (snd data))),
       msgBytes := of_nat (length (snd (snd data)))\<rparr>"

text \<open>The inner loop: messages of one topic, as many as lead the queue.\<close>

definition batch_one :: "(nat \<Rightarrow> byte) \<Rightarrow> (nat \<Rightarrow> byte) \<Rightarrow> u64 \<Rightarrow> tcp_conne option \<Rightarrow> message \<Rightarrow> buffer \<Rightarrow> producer
    \<Rightarrow> (buffer \<times> producer) option" where
  "batch_one junk pad now conne data buff s = do {
     let msg = delivery_packet now data;
     let s1 = s\<lparr>m_send_count := m_send_count s + 1\<rparr>;
     (buff1, s2) \<leftarrow> (if readableBytes buff + MqPacketLength msg > max_batch then flush now conne buff s1
                     else Some (buff, s1));
     buff2 \<leftarrow> serializationToBuffer_message junk pad msg (fst (snd data)) (snd (snd data)) buff1;
     Some (buff2, s2\<lparr>m_resend_set := om_insert (fst data) (snd data) (m_resend_set s2)\<rparr>)
   }"

fun batch_topic :: "(nat \<Rightarrow> byte) \<Rightarrow> (nat \<Rightarrow> byte) \<Rightarrow> u64 \<Rightarrow> tcp_conne option \<Rightarrow> bytes \<Rightarrow> message list \<Rightarrow> buffer
    \<Rightarrow> producer \<Rightarrow> (message list \<times> buffer \<times> producer) option" where
  "batch_topic junk pad now conne topic [] buff s = Some ([], buff, s)"
| "batch_topic junk pad now conne topic (data # q) buff s =
     (if fst (snd data) \<noteq> topic then Some (data # q, buff, s)
      else do {
        (buff1, s1) \<leftarrow> batch_one junk pad now conne data buff s;
        batch_topic junk pad now conne topic q buff1 s1
      })"

lemma batch_topic_shorter:
  "batch_topic junk pad now conne topic q buff s = Some (q', buff', s') \<Longrightarrow> length q' \<le> length q"
proof (induction q arbitrary: buff s)
  case (Cons data q)
  then show ?case by (auto split: if_split_asm Option.bind_split_asm prod.split_asm) force
qed simp

lemma batch_topic_less:
  assumes "batch_topic junk pad now conne (fst (snd (hd q))) q buff s = Some (q', buff', s')" and "q \<noteq> []"
  shows "length q' < length q"
  using assms batch_topic_shorter
  by (cases q) (auto simp: less_Suc_eq_le split: Option.bind_split_asm prod.split_asm)

text \<open>The outer loop: one topic after the other.\<close>

function send_topics :: "(nat \<Rightarrow> byte) \<Rightarrow> (nat \<Rightarrow> byte) \<Rightarrow> u64 \<Rightarrow> message list \<Rightarrow> buffer \<Rightarrow> producer
    \<Rightarrow> (buffer \<times> producer) option" where
  "send_topics junk pad now q buff s =
     (if q = [] then Some (buff, s)
      else do {
        let topic = fst (snd (hd q));
        (conne, s1) \<leftarrow> choose_conne topic s;
        (q', buff1, s2) \<leftarrow> batch_topic junk pad now conne topic q buff s1;
        (buff2, s3) \<leftarrow> flush now conne buff1 s2;
        send_topics junk pad now q' buff2 s3
      })"
  by pat_completeness auto
termination
  by (relation "measure (\<lambda>(junk, pad, now, q, buff, s). length q)")
    (auto dest: batch_topic_less)

declare send_topics.simps [simp del]

definition sendInLoop :: "(nat \<Rightarrow> byte) \<Rightarrow> (nat \<Rightarrow> byte) \<Rightarrow> u64 \<Rightarrow> bool \<Rightarrow> producer \<Rightarrow> producer option" where
  "sendInLoop junk pad now isRetry s = do {
     let s1 = s\<lparr>queue := m_send_queue s, m_send_queue := []\<rparr>;
     let s2 = (if ring_empty (m_hashHost s1) then
                 s1\<lparr>m_isVaild := False,
                    reported := reported s1 @ (if cb_send s1 then [(False, queue s1)] else [])\<rparr>
               else s1);
     if ring_empty (m_hashHost s2) \<and> \<not> isRetry then Some (s2\<lparr>queue := []\<rparr>)
     else do {
       (buff, s3) \<leftarrow> send_topics junk pad now (queue s2) (buffer_new kInitialSize) s2;
       Some (s3\<lparr>queue := []\<rparr>)
     }
   }"

text \<open>
  \<^verbatim>\<open>send\<close> waits for the loop when it may retry; without a loop and without retrying it reads
  a null pointer. \<^verbatim>\<open>runInLoop\<close> from another thread queues the call.
\<close>

definition send :: "bool \<Rightarrow> producer \<Rightarrow> (bool \<times> producer) option" where
  "send isRetry s =
     (if isRetry \<and> \<not> has_loop s then None
      else if \<not> m_isVaild s \<and> \<not> isRetry then Some (False, s)
      else do {
        assert_that (has_loop s);
        Some (True, s\<lparr>pending := pending s @ [isRetry]\<rparr>)
      })"

definition run_pending :: "(nat \<Rightarrow> byte) \<Rightarrow> (nat \<Rightarrow> byte) \<Rightarrow> u64 \<Rightarrow> producer \<Rightarrow> producer option" where
  "run_pending junk pad now s =
     (case pending s of
        [] \<Rightarrow> Some s
      | isRetry # rest \<Rightarrow> sendInLoop junk pad now isRetry (s\<lparr>pending := rest\<rparr>))"

definition checkReSendSetTimer :: "(nat \<Rightarrow> byte) \<Rightarrow> (nat \<Rightarrow> byte) \<Rightarrow> u64 \<Rightarrow> producer \<Rightarrow> producer option" where
  "checkReSendSetTimer junk pad now s =
     (if m_resend_set s = [] then Some s
      else sendInLoop junk pad now True (s\<lparr>m_send_queue := m_send_queue s @ m_resend_set s\<rparr>))"

section \<open>Answers\<close>

definition handleDelivery :: "bytes \<Rightarrow> producer \<Rightarrow> producer" where
  "handleDelivery f s =
     (let i = messageId (packet_at f);
          s1 = (case map_of (m_resend_set s) i of
                  None \<Rightarrow> s
                | Some data \<Rightarrow>
                    s\<lparr>m_deliver_successful_count := m_deliver_successful_count s + 1,
                      confirmed := confirmed s @ (if cb_ok s then [(i, data)] else [])\<rparr>)
      in s1\<lparr>m_resend_set := AList.delete i (m_resend_set s1)\<rparr>)"

text \<open>The null pointer of an incomplete or invalid packet is read without a check.\<close>

function onMessageFromMqBroker :: "buffer \<Rightarrow> producer \<Rightarrow> (buffer \<times> producer) option" where
  "onMessageFromMqBroker buff s =
     (if readableBytes buff > sizeof_MqPacket then do {
        (msg, buff') \<leftarrow> serializationToMqPacket buff;
        (case msg of
           None \<Rightarrow> None
         | Some f \<Rightarrow>
             onMessageFromMqBroker buff'
               (if command (packet_at f) = command_code MQ_COMMAND_ACK
                  \<or> command (packet_at f) = command_code MQ_COMMAND_DELIVERY
                then handleDelivery f s else s))
      } else Some (buff, s))"
  by pat_completeness auto
termination
  by (relation "measure (\<lambda>(buff, s). readableBytes buff)") (auto dest: serializationToMqPacket_less)

declare onMessageFromMqBroker.simps [simp del]

section \<open>Brokers\<close>

text \<open>What the virtual nodes are named after: the part of the name between the colon and the hash.\<close>

definition node_address :: "bytes \<Rightarrow> bytes" where
  "node_address name =
     (let rest = drop (case find_byte 58 name of None \<Rightarrow> 0 | Some i \<Rightarrow> i + 1) name
      in case find_byte 35 rest of None \<Rightarrow> rest | Some n \<Rightarrow> take n rest)"

definition conne_node :: "tcp_conne \<Rightarrow> nat \<Rightarrow> vnode" where
  "conne_node conne i = vnode_t (node_address (t_name conne)) (t_name conne) i"

definition add_nodes :: "tcp_conne \<Rightarrow> ring \<Rightarrow> ring" where
  "add_nodes conne r = fold (\<lambda>i r. snd (ring_insert (conne_node conne i) r)) [0..<kVirtualNodeNum] r"

definition erase_nodes :: "tcp_conne \<Rightarrow> ring \<Rightarrow> ring" where
  "erase_nodes conne r = fold (\<lambda>i r. snd (ring_erase (conne_node conne i) r)) [0..<kVirtualNodeNum] r"

definition onConnectionToBroker :: "tcp_conne \<Rightarrow> producer \<Rightarrow> producer" where
  "onConnectionToBroker conne s =
     (let s1 = onConnectionToMqBroker s in
      s1\<lparr>m_hashHost := add_nodes conne (m_hashHost s1),
         m_vaild_conne := um_insert (t_name conne) (Some conne) (m_vaild_conne s1)\<rparr>)"

definition removeInvaildConnection :: "tcp_conne \<Rightarrow> producer \<Rightarrow> producer" where
  "removeInvaildConnection conne s =
     s\<lparr>m_vaild_conne := AList.delete (t_name conne) (m_vaild_conne s),
       m_hashHost := erase_nodes conne (m_hashHost s)\<rparr>"

text \<open>A connection in the table of connections outlives its client.\<close>

definition holds_conne :: "producer \<Rightarrow> tcp_conne \<Rightarrow> bool" where
  "holds_conne s conne \<longleftrightarrow> Some conne \<in> set (map snd (m_vaild_conne s))"

end
