(* ===== verification/ProducerProps.thy ===== *)
theory ProducerProps
  imports Producer
begin

text \<open>
  What a producer promises: the broker of a topic is always a live entry of its table of connections,
  and no message that was put is ever forgotten.
\<close>

section \<open>Runs\<close>

datatype producer_event =
    Start nat
  | Put "u64 list" bytes bytes
  | Send bool
  | Loop_Send "nat \<Rightarrow> byte" "nat \<Rightarrow> byte" u64
  | Resend_Timer "nat \<Rightarrow> byte" "nat \<Rightarrow> byte" u64
  | From_Broker buffer
  | Up bytes tcp_conne
  | Down tcp_conne
  | From_Dir buffer
  | Dir_Timer "nat \<Rightarrow> byte"

fun producer_step :: "producer_event \<Rightarrow> producer \<Rightarrow> producer option" where
  "producer_step (Start dirs) s = Some (run dirs s)"
| "producer_step (Put clock topic message) s = map_option (\<lambda>(r, s', clock'). s') (put clock topic message s)"
| "producer_step (Send isRetry) s = map_option snd (send isRetry s)"
| "producer_step (Loop_Send junk pad now) s = run_pending junk pad now s"
| "producer_step (Resend_Timer junk pad now) s = checkReSendSetTimer junk pad now s"
| "producer_step (From_Broker buff) s = map_option snd (onMessageFromMqBroker buff s)"
| "producer_step (Up hp conne) s = newConnection (\<lambda>c t. Some (onConnectionToBroker c t)) hp conne s"
| "producer_step (Down conne) s = connection_closed (\<lambda>c t. Some (removeInvaildConnection c t)) conne s"
| "producer_step (From_Dir buff) s =
     map_option snd (onMessageFromDirServer holds_conne (\<lambda>t. Some (connectToMqBroker t)) buff s)"
| "producer_step (Dir_Timer pad) s = Some (updateMqSeverConfWithMs pad s)"

fun producer_run :: "producer_event list \<Rightarrow> producer \<Rightarrow> producer option" where
  "producer_run [] s = Some s"
| "producer_run (e # es) s = (producer_step e s \<bind> producer_run es)"

text \<open>The clock of an id lies within the years an id can hold.\<close>

definition clock_ok :: "producer_event \<Rightarrow> bool" where
  "clock_ok e \<longleftrightarrow> (case e of Put clock topic message \<Rightarrow> (\<forall>t \<in> set clock. in_epoch t) | _ \<Rightarrow> True)"

section \<open>What the common part leaves alone\<close>

text \<open>The fields of a producer hang on \<open>more\<close>.\<close>

lemma producer_more:
  fixes s t :: producer
  assumes "busd.more s = busd.more t"
  shows "m_send_queue s = m_send_queue t" "m_resend_set s = m_resend_set t" "cb_send s = cb_send t"
    "cb_ok s = cb_ok t" "reported s = reported t" "confirmed s = confirmed t" "m_hashHost s = m_hashHost t"
    "m_vaild_conne s = m_vaild_conne t" "ids s = ids t"
  using assms by (cases s, cases t, simp)+

section \<open>The ring names live connections\<close>

definition route_ok :: "ring \<Rightarrow> (bytes \<times> tcp_conne option) list \<Rightarrow> bool" where
  "route_ok r v \<longleftrightarrow> om_ok r
     \<and> (\<forall>(h, n) \<in> set r. h = hash_node n \<and> map_of v (conneName n) \<noteq> None
          \<and> (\<exists>i < kVirtualNodeNum. n = vnode_t (node_address (conneName n)) (conneName n) i))
     \<and> (\<forall>name x. map_of v name = Some x \<longrightarrow> (\<exists>c. x = Some c \<and> t_name c = name))"

lemma conneName_node [simp]: "conneName (conne_node c i) = t_name c"
  by (simp add: conne_node_def vnode_t_def)

lemma add_nodes_set:
  assumes "om_ok r"
  shows "om_ok (fold (\<lambda>i r. snd (ring_insert (conne_node c i) r)) is r)"
    and "set (fold (\<lambda>i r. snd (ring_insert (conne_node c i) r)) is r) \<subseteq>
      set r \<union> (\<lambda>i. (hash_node (conne_node c i), conne_node c i)) ` set is"
  using assms
proof (induction "is" arbitrary: r)
  case (Cons i "is")
  {
    case 1
    then show ?case by (simp add: Cons.IH)
  next
    case 2
    then show ?case
      using Cons.IH(2) [of "snd (ring_insert (conne_node c i) r)"] set_ring_insert [of r "conne_node c i"]
      by (auto split: if_split_asm)
  }
qed simp_all

lemma erase_nodes_set:
  "set (fold (\<lambda>i r. snd (ring_erase (conne_node c i) r)) is r) =
     {e \<in> set r. \<forall>i \<in> set is. fst e \<noteq> hash_node (conne_node c i)}"
proof (induction "is" arbitrary: r)
  case (Cons i "is")
  have "set (snd (ring_erase (conne_node c i) r)) = {e \<in> set r. fst e \<noteq> hash_node (conne_node c i)}"
    by (auto simp: ring_erase_def Let_def AList.delete_eq)
  with Cons.IH show ?case by auto
qed simp

lemma erase_nodes_om_ok:
  "om_ok r \<Longrightarrow> om_ok (fold (\<lambda>i r. snd (ring_erase (conne_node c i) r)) is r)"
  by (induction "is" arbitrary: r) (simp_all add: ring_erase_def Let_def)

lemma map_of_um_insert: "map_of (um_insert k x m) k' = (if k' = k \<and> map_of m k = None then Some x else map_of m k')"
  by (auto simp: um_insert_def)

lemma route_ok_add:
  assumes "route_ok r v"
  shows "route_ok (add_nodes c r) (um_insert (t_name c) (Some c) v)"
proof -
  let ?v = "um_insert (t_name c) (Some c) v"
  have old: "om_ok r" "\<And>h n. (h, n) \<in> set r \<Longrightarrow> h = hash_node n \<and> map_of v (conneName n) \<noteq> None
          \<and> (\<exists>i < kVirtualNodeNum. n = vnode_t (node_address (conneName n)) (conneName n) i)"
    "\<And>name x. map_of v name = Some x \<Longrightarrow> \<exists>c. x = Some c \<and> t_name c = name"
    using assms unfolding route_ok_def by blast+
  note add = add_nodes_set [OF old(1), of c "[0..<kVirtualNodeNum]", folded add_nodes_def]
  have "h = hash_node n \<and> map_of ?v (conneName n) \<noteq> None
      \<and> (\<exists>i < kVirtualNodeNum. n = vnode_t (node_address (conneName n)) (conneName n) i)"
    if "(h, n) \<in> set (add_nodes c r)" for h n
  proof -
    from add(2) that consider "(h, n) \<in> set r"
      | i where "i < kVirtualNodeNum" "h = hash_node (conne_node c i)" "n = conne_node c i" by auto
    then show ?thesis
    proof cases
      case 1
      with old(2) show ?thesis by (auto simp: map_of_um_insert)
    next
      case (2 i)
      then show ?thesis by (auto simp: map_of_um_insert) (auto simp: conne_node_def vnode_t_def)
    qed
  qed
  moreover have "\<exists>c'. x = Some c' \<and> t_name c' = name" if "map_of ?v name = Some x" for name x
    using that old(3) [of name x] by (auto simp: map_of_um_insert split: if_split_asm)
  ultimately show ?thesis using add(1) unfolding route_ok_def by blast
qed

lemma route_ok_remove:
  assumes "route_ok r v"
  shows "route_ok (erase_nodes c r) (AList.delete (t_name c) v)"
proof -
  let ?v = "AList.delete (t_name c) v"
  have old: "om_ok r" "\<And>h n. (h, n) \<in> set r \<Longrightarrow> h = hash_node n \<and> map_of v (conneName n) \<noteq> None
          \<and> (\<exists>i < kVirtualNodeNum. n = vnode_t (node_address (conneName n)) (conneName n) i)"
    "\<And>name x. map_of v name = Some x \<Longrightarrow> \<exists>c. x = Some c \<and> t_name c = name"
    using assms unfolding route_ok_def by blast+
  have "h = hash_node n \<and> map_of ?v (conneName n) \<noteq> None
      \<and> (\<exists>i < kVirtualNodeNum. n = vnode_t (node_address (conneName n)) (conneName n) i)"
    if "(h, n) \<in> set (erase_nodes c r)" for h n
  proof -
    from that have r: "(h, n) \<in> set r" "\<forall>i < kVirtualNodeNum. h \<noteq> hash_node (conne_node c i)"
      by (auto simp: erase_nodes_def erase_nodes_set)
    with old(2) [OF r(1)] have "conneName n \<noteq> t_name c" by (metis conne_node_def)
    with old(2) [OF r(1)] show ?thesis by simp
  qed
  moreover have "\<exists>c'. x = Some c' \<and> t_name c' = name" if "map_of ?v name = Some x" for name x
    using that old(3) [of name x] by (simp split: if_split_asm)
  ultimately show ?thesis
    using erase_nodes_om_ok [OF old(1), of c "[0..<kVirtualNodeNum]", folded erase_nodes_def]
    unfolding route_ok_def by blast
qed

lemma choose_conne_spec:
  assumes "route_ok (m_hashHost s) (m_vaild_conne s)"
  shows "\<exists>conne. choose_conne topic s = Some (conne, s)
    \<and> (case ring_find (MurMurHash topic) (m_hashHost s) of
         None \<Rightarrow> conne = None
       | Some (h, n) \<Rightarrow> h = hash_node n
           \<and> (\<exists>c. conne = Some c \<and> t_name c = conneName n \<and> map_of (m_vaild_conne s) (conneName n) = Some (Some c)))"
proof (cases "ring_find (MurMurHash topic) (m_hashHost s)")
  case None
  then show ?thesis by (simp add: choose_conne_def)
next
  case (Some it)
  obtain h n where it: "it = (h, n)" by (cases it)
  have "m_hashHost s \<noteq> []" using Some by (auto simp: ring_find_def)
  then have "(h, n) \<in> set (m_hashHost s)"
    using ring_find_some [of "m_hashHost s" "MurMurHash topic"] assms Some it unfolding route_ok_def
    by (metis option.inject)
  then have "h = hash_node n" "map_of (m_vaild_conne s) (conneName n) \<noteq> None"
    using assms unfolding route_ok_def by auto
  moreover from this(2) obtain c where "map_of (m_vaild_conne s) (conneName n) = Some (Some c)" "t_name c = conneName n"
    using assms unfolding route_ok_def by (metis option.exhaust)
  ultimately show ?thesis
    using Some it by (auto simp: choose_conne_def lookup_conne_def)
qed

section \<open>What sending leaves alone\<close>

definition beside_resend :: "producer \<Rightarrow> producer \<Rightarrow> bool" where
  "beside_resend s s' \<longleftrightarrow> m_send_queue s' = m_send_queue s \<and> reported s' = reported s
     \<and> confirmed s' = confirmed s \<and> cb_send s' = cb_send s \<and> cb_ok s' = cb_ok s
     \<and> m_hashHost s' = m_hashHost s \<and> m_vaild_conne s' = m_vaild_conne s \<and> ids s' = ids s"

lemma beside_resend_refl [simp]: "beside_resend s s"
  by (simp add: beside_resend_def)

lemma beside_resend_trans: "beside_resend s t \<Longrightarrow> beside_resend t u \<Longrightarrow> beside_resend s u"
  by (simp add: beside_resend_def)

definition to_resend :: "message list \<Rightarrow> (u64, bytes \<times> bytes) ord_map \<Rightarrow> (u64, bytes \<times> bytes) ord_map" where
  "to_resend q m = fold (\<lambda>d. om_insert (fst d) (snd d)) q m"

lemma flush_effect:
  assumes "flush now conne buff s = Some (buff', s')"
  shows "beside_resend s s' \<and> m_resend_set s' = m_resend_set s"
proof (cases conne)
  case None
  with assms show ?thesis by (simp add: flush_def)
next
  case (Some c)
  with assms have "s' = snd (conne_send_buffer c buff
      (if m_begin_send_time s = 0 then s\<lparr>m_begin_send_time := now\<rparr> else s))"
    by (simp add: flush_def Let_def split: Option.bind_split_asm)
  then show ?thesis
    by (simp add: conne_send_buffer_def conne_send_def beside_resend_def)
qed

lemma batch_one_effect:
  assumes "batch_one junk pad now conne data buff s = Some (buff', s')"
  shows "beside_resend s s' \<and> m_resend_set s' = om_insert (fst data) (snd data) (m_resend_set s)"
proof -
  from assms obtain b1 s2 where 1: "(if readableBytes buff + MqPacketLength (delivery_packet now data) > max_batch
        then flush now conne buff (s\<lparr>m_send_count := m_send_count s + 1\<rparr>)
        else Some (buff, s\<lparr>m_send_count := m_send_count s + 1\<rparr>)) = Some (b1, s2)"
    and 2: "s' = s2\<lparr>m_resend_set := om_insert (fst data) (snd data) (m_resend_set s2)\<rparr>"
    by (auto simp: batch_one_def Let_def simp del: if_split_eq1 split: Option.bind_split_asm prod.split_asm)
  have "beside_resend (s\<lparr>m_send_count := m_send_count s + 1\<rparr>) s2 \<and>
      m_resend_set s2 = m_resend_set (s\<lparr>m_send_count := m_send_count s + 1\<rparr>)"
    using 1 flush_effect by (auto split: if_split_asm)
  then show ?thesis by (simp add: 2 beside_resend_def)
qed

lemma batch_topic_effect:
  "batch_topic junk pad now conne topic q buff s = Some (q', buff', s') \<Longrightarrow>
     \<exists>taken. q = taken @ q' \<and> beside_resend s s' \<and> m_resend_set s' = to_resend taken (m_resend_set s)"
proof (induction q arbitrary: buff s)
  case (Cons data q)
  show ?case
  proof (cases "fst (snd data) = topic")
    case False
    with Cons.prems show ?thesis by (auto simp: to_resend_def)
  next
    case True
    with Cons.prems obtain b1 s1 where 1: "batch_one junk pad now conne data buff s = Some (b1, s1)"
      and 2: "batch_topic junk pad now conne topic q b1 s1 = Some (q', buff', s')"
      by (auto split: Option.bind_split_asm prod.split_asm)
    from Cons.IH [OF 2] obtain taken where "q = taken @ q'" "beside_resend s1 s'"
      "m_resend_set s' = to_resend taken (m_resend_set s1)" by blast
    with batch_one_effect [OF 1] show ?thesis
      by (intro exI [of _ "data # taken"]) (auto simp: to_resend_def intro: beside_resend_trans)
  qed
qed (auto simp: to_resend_def)

lemma send_topics_effect:
  "send_topics junk pad now q buff s = Some (buff', s') \<Longrightarrow> route_ok (m_hashHost s) (m_vaild_conne s) \<Longrightarrow>
     beside_resend s s' \<and> m_resend_set s' = to_resend q (m_resend_set s)"
proof (induction junk pad now q buff s rule: send_topics.induct)
  case (1 junk pad now q buff s)
  show ?case
  proof (cases "q = []")
    case True
    with "1.prems"(1) show ?thesis by (subst (asm) send_topics.simps) (simp add: to_resend_def)
  next
    case False
    obtain conne where c: "choose_conne (fst (snd (hd q))) s = Some (conne, s)"
      using choose_conne_spec [OF "1.prems"(2)] by blast
    from "1.prems"(1) False c obtain q1 b1 s1 b2 s2
      where t: "batch_topic junk pad now conne (fst (snd (hd q))) q buff s = Some (q1, b1, s1)"
        and f: "flush now conne b1 s1 = Some (b2, s2)"
        and r: "send_topics junk pad now q1 b2 s2 = Some (buff', s')"
      by (subst (asm) send_topics.simps) (auto simp: Let_def split: Option.bind_split_asm prod.split_asm)
    from batch_topic_effect [OF t] obtain taken where q: "q = taken @ q1" "beside_resend s s1"
      "m_resend_set s1 = to_resend taken (m_resend_set s)" by blast
    note fl = flush_effect [OF f]
    have "beside_resend s s2" using q(2) fl beside_resend_trans by blast
    moreover have "beside_resend s2 s' \<and> m_resend_set s' = to_resend q1 (m_resend_set s2)"
    proof (rule "1.IH" [OF False refl c refl t _ _ f _ r])
      show "route_ok (m_hashHost s2) (m_vaild_conne s2)"
        using \<open>beside_resend s s2\<close> "1.prems"(2) by (simp add: beside_resend_def)
    qed simp_all
    ultimately show ?thesis
      using q(1,3) fl by (auto simp: to_resend_def intro: beside_resend_trans)
  qed
qed

section \<open>No message is forgotten\<close>

definition known :: "producer \<Rightarrow> message set" where
  "known s = set (m_send_queue s) \<union> set (m_resend_set s)"

definition accounted :: "producer \<Rightarrow> message set" where
  "accounted s = known s \<union> set (confirmed s) \<union> {m. \<exists>q. (False, q) \<in> set (reported s) \<and> m \<in> set q}"

text \<open>Ids name messages, and none of them is still to be drawn.\<close>

definition ids_ok :: "producer \<Rightarrow> bool" where
  "ids_ok s \<longleftrightarrow> started (ids s) \<and> om_ok (m_resend_set s)
     \<and> (\<forall>m \<in> known s. issued (ids s) (fst m)) \<and> inj_on fst (known s)"

lemma set_om_insert_inj:
  assumes "om_ok m" and "inj_on fst (insert d (set m))"
  shows "set (om_insert (fst d) (snd d) m) = insert d (set m)"
proof (cases "map_of m (fst d) = None")
  case True
  have "e \<in> set (om_insert (fst d) (snd d) m) \<longleftrightarrow> map_of (om_insert (fst d) (snd d) m) (fst e) = Some (snd e)"
    "e \<in> set m \<longleftrightarrow> map_of m (fst e) = Some (snd e)" for e
    using om_ok_distinct [OF om_ok_insert [OF assms(1)]] om_ok_distinct [OF assms(1)] by (cases e; simp)+
  with True show ?thesis
    by (auto simp: map_of_insert [OF assms(1)] prod_eq_iff split: if_split_asm)
next
  case False
  then obtain v where "map_of m (fst d) = Some v" by auto
  then have "(fst d, v) \<in> set m" by (rule map_of_SomeD)
  with assms(2) have "d \<in> set m" by (metis fst_conv inj_on_def insertCI)
  with False show ?thesis using om_insert_same [OF assms(1), of "fst d" "snd d"] by auto
qed

lemma set_to_resend:
  "om_ok m \<Longrightarrow> inj_on fst (set q \<union> set m) \<Longrightarrow>
     om_ok (to_resend q m) \<and> set (to_resend q m) = set q \<union> set m"
proof (induction q arbitrary: m)
  case (Cons d q)
  have "inj_on fst (insert d (set m))" using Cons.prems(2) by (rule inj_on_subset) auto
  then have i: "set (om_insert (fst d) (snd d) m) = insert d (set m)"
    by (rule set_om_insert_inj [OF Cons.prems(1)])
  then have "om_ok (to_resend q (om_insert (fst d) (snd d) m)) \<and>
      set (to_resend q (om_insert (fst d) (snd d) m)) = set q \<union> insert d (set m)"
    using Cons.IH [of "om_insert (fst d) (snd d) m"] Cons.prems by simp
  then show ?case by (simp add: to_resend_def)
qed (simp add: to_resend_def)

definition prod_ok :: "producer \<Rightarrow> bool" where
  "prod_ok s \<longleftrightarrow> ids_ok s \<and> route_ok (m_hashHost s) (m_vaild_conne s) \<and> cb_send s \<and> cb_ok s"

definition safe_step :: "producer \<Rightarrow> producer \<Rightarrow> bool" where
  "safe_step s s' \<longleftrightarrow> prod_ok s' \<and> accounted s \<subseteq> accounted s'"

lemma safe_step_trans: "safe_step s t \<Longrightarrow> safe_step t u \<Longrightarrow> safe_step s u"
  by (auto simp: safe_step_def)

text \<open>Steps that only touch the connections.\<close>

lemma safe_step_connections:
  assumes "prod_ok s" and "route_ok (m_hashHost s') (m_vaild_conne s')"
    and "m_send_queue s' = m_send_queue s" "m_resend_set s' = m_resend_set s" "cb_send s' = cb_send s"
      "cb_ok s' = cb_ok s" "reported s' = reported s" "confirmed s' = confirmed s" "ids s' = ids s"
  shows "safe_step s s'"
  using assms by (simp add: safe_step_def prod_ok_def ids_ok_def known_def accounted_def)

lemma safe_step_more:
  assumes "prod_ok s" and "busd.more s' = busd.more s"
  shows "safe_step s s'"
  using producer_more [OF assms(2)] assms(1)
  by (intro safe_step_connections) (simp_all add: prod_ok_def)

lemma safe_step_refl: "prod_ok s \<Longrightarrow> safe_step s s"
  by (simp add: safe_step_def)

lemma sendInLoop_safe:
  assumes "sendInLoop junk pad now isRetry s = Some s'" and ok: "prod_ok s"
  shows "safe_step s s'"
proof -
  let ?s1 = "s\<lparr>queue := m_send_queue s, m_send_queue := []\<rparr>"
  let ?s2 = "if ring_empty (m_hashHost s)
      then ?s1\<lparr>m_isVaild := False, reported := reported s @ [(False, m_send_queue s)]\<rparr> else ?s1"
  have cb: "cb_send s" and route: "route_ok (m_hashHost s) (m_vaild_conne s)"
    and ids: "started (ids s)" "om_ok (m_resend_set s)" "\<And>m. m \<in> known s \<Longrightarrow> issued (ids s) (fst m)"
      "inj_on fst (known s)"
    using ok by (auto simp: prod_ok_def ids_ok_def)
  have s2: "m_hashHost ?s2 = m_hashHost s" "m_vaild_conne ?s2 = m_vaild_conne s"
      "m_resend_set ?s2 = m_resend_set s" "m_send_queue ?s2 = []" "queue ?s2 = m_send_queue s"
      "cb_send ?s2" "cb_ok ?s2" "ids ?s2 = ids s" "confirmed ?s2 = confirmed s"
      "set (reported s) \<subseteq> set (reported ?s2)"
    using cb ok by (auto simp: prod_ok_def)
  show ?thesis
  proof (cases "ring_empty (m_hashHost s) \<and> \<not> isRetry")
    case True
    with assms(1) cb have s': "s' = ?s2\<lparr>queue := []\<rparr>" by (simp add: sendInLoop_def Let_def)
    have "known s' \<subseteq> known s" by (auto simp: known_def s' s2)
    moreover have "accounted s \<subseteq> accounted s'" using True by (auto simp: accounted_def known_def s')
    ultimately show ?thesis
      using ids route s2 inj_on_subset [OF ids(4)]
      by (auto simp: safe_step_def prod_ok_def ids_ok_def s')
  next
    case False
    from assms(1) cb False obtain buff s3 where
      t: "send_topics junk pad now (queue ?s2) (buffer_new kInitialSize) ?s2 = Some (buff, s3)"
      and s': "s' = s3\<lparr>queue := []\<rparr>"
      by (auto simp: sendInLoop_def Let_def split: Option.bind_split_asm if_split_asm)
    have eff: "beside_resend ?s2 s3 \<and> m_resend_set s3 = to_resend (m_send_queue s) (m_resend_set s)"
      using send_topics_effect [OF t] route s2 by simp
    have set: "om_ok (m_resend_set s3)" "set (m_resend_set s3) = known s"
      using set_to_resend [OF ids(2), of "m_send_queue s"] ids(4) eff by (simp_all add: known_def)
    have known: "known s' = known s" using eff set s2 by (simp add: known_def s' beside_resend_def)
    moreover have "set (reported s) \<subseteq> set (reported s')" "confirmed s' = confirmed s"
      using eff s2 by (auto simp: beside_resend_def s')
    ultimately have "accounted s \<subseteq> accounted s'" by (auto simp: accounted_def)
    with known set ids route eff s2 show ?thesis
      by (simp add: safe_step_def prod_ok_def ids_ok_def beside_resend_def s')
  qed
qed

lemma put_safe:
  assumes "put clock topic message s = Some (r, s', clock')" and ok: "prod_ok s" and "\<forall>t \<in> set clock. in_epoch t"
  shows "safe_step s s' \<and> (\<forall>i. r = Inr i \<longrightarrow> (i, topic, message) \<in> known s')"
proof -
  from assms(1) obtain g where g: "getId (ids s) clock = Some (r, g, clock')"
    and s': "s' = (case r of Inl _ \<Rightarrow> s\<lparr>ids := g\<rparr>
        | Inr i \<Rightarrow> s\<lparr>ids := g, m_send_queue := m_send_queue s @ [(i, topic, message)]\<rparr>)"
    by (auto simp: put_def createMessageId_def split: Option.bind_split_asm prod.split_asm sum.split_asm)
  have ids: "started (ids s)" "om_ok (m_resend_set s)" "\<forall>j \<in> fst ` known s. issued (ids s) j"
      "inj_on fst (known s)"
    using ok by (auto simp: prod_ok_def ids_ok_def)
  note step = sid.draw_ok [OF g ids(1) assms(3)]
  show ?thesis
  proof (cases r)
    case (Inl x)
    with s' step ids ok show ?thesis
      by (auto simp: safe_step_def prod_ok_def ids_ok_def known_def accounted_def)
  next
    case (Inr i)
    with g have "getId (ids s) clock = Some (Inr i, g, clock')" by simp
    note fr = sid.fresh [OF this ids(1) assms(3) ids(3)]
    have known: "known s' = insert (i, topic, message) (known s)" by (auto simp: known_def s' Inr)
    have "inj_on fst (known s')" using ids(4) fr(1) by (auto simp: known)
    moreover have "\<forall>m \<in> known s'. issued g (fst m)" using fr(2) by (auto simp: known)
    moreover have "confirmed s' = confirmed s" "reported s' = reported s" by (simp_all add: s' Inr)
    with known have "accounted s \<subseteq> accounted s'" by (auto simp: accounted_def)
    ultimately show ?thesis
      using fr(3) ids ok by (simp add: safe_step_def prod_ok_def ids_ok_def known) (simp add: s' Inr)
  qed
qed

text \<open>The assertion of \<^verbatim>\<open>put\<close> holds: the id that is drawn waits for no answer.\<close>

lemma put_returns:
  assumes "getId (ids s) clock = Some (Inr i, g, clock')" and ok: "prod_ok s" and "\<forall>t \<in> set clock. in_epoch t"
  shows "\<exists>s'. put clock topic message s = Some (Inr i, s', clock')"
proof -
  have ids: "started (ids s)" "\<forall>j \<in> fst ` known s. issued (ids s) j"
    using ok by (auto simp: prod_ok_def ids_ok_def)
  from sid.fresh(1) [OF assms(1) ids(1) assms(3) ids(2)]
  have "map_of (m_resend_set s) i = None" by (force simp: map_of_eq_None_iff known_def)
  with assms(1) show ?thesis by (simp add: put_def createMessageId_def)
qed

lemma handleDelivery_safe:
  assumes "prod_ok s"
  shows "safe_step s (handleDelivery f s)"
proof -
  let ?i = "messageId (packet_at f)" and ?s = "handleDelivery f s"
  have ids: "om_ok (m_resend_set s)" "inj_on fst (known s)" and cb: "cb_ok s"
    using assms by (auto simp: prod_ok_def ids_ok_def)
  have q: "m_send_queue ?s = m_send_queue s" "m_resend_set ?s = AList.delete ?i (m_resend_set s)"
    "reported ?s = reported s" "cb_send ?s = cb_send s" "cb_ok ?s = cb_ok s" "ids ?s = ids s"
    "m_hashHost ?s = m_hashHost s" "m_vaild_conne ?s = m_vaild_conne s"
    by (simp_all add: handleDelivery_def Let_def split: option.split)
  have sub: "known ?s \<subseteq> known s" using set_alist_delete [of ?i "m_resend_set s"] by (auto simp: known_def q)
  have "m \<in> accounted ?s" if "m \<in> set (m_resend_set s)" for m
  proof (cases "fst m = ?i")
    case False
    with that have "m \<in> set (m_resend_set ?s)" by (auto simp: q AList.delete_eq)
    then show ?thesis by (simp add: accounted_def known_def)
  next
    case True
    have "map_of (m_resend_set s) (fst m) = Some (snd m)"
      using that om_ok_distinct [OF ids(1)] by simp
    with True cb have "m \<in> set (confirmed ?s)"
      by (cases m) (simp add: handleDelivery_def Let_def)
    then show ?thesis by (simp add: accounted_def)
  qed
  moreover have "set (confirmed s) \<subseteq> set (confirmed ?s)"
    by (auto simp: handleDelivery_def Let_def split: option.split)
  ultimately have "accounted s \<subseteq> accounted ?s" by (auto simp: accounted_def known_def q)
  with sub assms ids inj_on_subset [OF ids(2) sub] show ?thesis
    by (auto simp: safe_step_def prod_ok_def ids_ok_def q)
qed

lemma onMessage_safe:
  "onMessageFromMqBroker buff s = Some (buff', s') \<Longrightarrow> prod_ok s \<Longrightarrow> safe_step s s'"
proof (induction buff s rule: onMessageFromMqBroker.induct)
  case (1 buff s)
  show ?case
  proof (cases "readableBytes buff > sizeof_MqPacket")
    case False
    with "1.prems" show ?thesis by (subst (asm) onMessageFromMqBroker.simps) (simp add: safe_step_refl)
  next
    case True
    with "1.prems"(1) obtain f b1 where f: "serializationToMqPacket buff = Some (Some f, b1)"
      by (subst (asm) onMessageFromMqBroker.simps) (auto split: Option.bind_split_asm option.split_asm)
    let ?s1 = "if command (packet_at f) = command_code MQ_COMMAND_ACK
        \<or> command (packet_at f) = command_code MQ_COMMAND_DELIVERY then handleDelivery f s else s"
    have r: "onMessageFromMqBroker b1 ?s1 = Some (buff', s')"
      using "1.prems"(1) True f by (subst (asm) onMessageFromMqBroker.simps) simp
    have s1: "safe_step s ?s1"
      using handleDelivery_safe [OF "1.prems"(2)] safe_step_refl [OF "1.prems"(2)] by simp
    then have "prod_ok ?s1" by (simp add: safe_step_def)
    with s1 show ?thesis using "1.IH" [OF True f refl refl r] safe_step_trans by blast
  qed
qed

section \<open>Every step\<close>

lemma prod_ok_Producer: "started w \<Longrightarrow> prod_ok (Producer w True True)"
  by (simp add: Producer_def busd_init_def prod_ok_def ids_ok_def known_def route_ok_def busd.defs)

lemma onConnection_safe:
  assumes "prod_ok s" and "busd.more t = busd.more s"
  shows "safe_step s (onConnectionToBroker c t)"
  using producer_more [OF assms(2)] assms(1) route_ok_add [of "m_hashHost s" "m_vaild_conne s" c]
  by (intro safe_step_connections [OF assms(1)])
    (simp_all add: prod_ok_def onConnectionToBroker_def onConnectionToMqBroker_def Let_def)

lemma removeInvaild_safe:
  assumes "prod_ok s" and "busd.more t = busd.more s"
  shows "safe_step s (removeInvaildConnection c t)"
  using producer_more [OF assms(2)] assms(1) route_ok_remove [of "m_hashHost s" "m_vaild_conne s" c]
  by (intro safe_step_connections [OF assms(1)]) (simp_all add: prod_ok_def removeInvaildConnection_def)

lemma producer_step_safe:
  assumes "producer_step e s = Some s'" and ok: "prod_ok s" and "clock_ok e"
  shows "safe_step s s'"
proof (cases e)
  case (Start dirs)
  with assms show ?thesis by (auto simp: run_def prod_ok_def intro!: safe_step_connections)
next
  case (Put clock topic message)
  with assms(1) obtain r clock' where "put clock topic message s = Some (r, s', clock')" by auto
  with put_safe ok assms(3) Put show ?thesis by (auto simp: clock_ok_def)
next
  case (Send isRetry)
  with assms show ?thesis
    by (auto simp: send_def prod_ok_def split: if_split_asm Option.bind_split_asm
        intro!: safe_step_connections)
next
  case (Loop_Send junk pad now)
  show ?thesis
  proof (cases "pending s")
    case Nil
    with assms Loop_Send show ?thesis by (simp add: run_pending_def safe_step_refl)
  next
    case (Cons isRetry rest)
    let ?s = "s\<lparr>pending := rest\<rparr>"
    have s: "safe_step s ?s" using ok by (intro safe_step_connections) (simp_all add: prod_ok_def)
    then have "prod_ok ?s" by (simp add: safe_step_def)
    moreover from assms(1) Loop_Send Cons have "sendInLoop junk pad now isRetry ?s = Some s'"
      by (simp add: run_pending_def)
    ultimately show ?thesis using safe_step_trans [OF s sendInLoop_safe] by blast
  qed
next
  case (Resend_Timer junk pad now)
  show ?thesis
  proof (cases "m_resend_set s = []")
    case True
    with assms Resend_Timer show ?thesis by (simp add: checkReSendSetTimer_def safe_step_refl)
  next
    case False
    let ?s = "s\<lparr>m_send_queue := m_send_queue s @ m_resend_set s\<rparr>"
    have "known ?s = known s" by (auto simp: known_def)
    then have s: "safe_step s ?s"
      using ok by (simp add: safe_step_def prod_ok_def ids_ok_def accounted_def)
    then have "prod_ok ?s" by (simp add: safe_step_def)
    moreover from assms(1) Resend_Timer False have "sendInLoop junk pad now True ?s = Some s'"
      by (simp add: checkReSendSetTimer_def)
    ultimately show ?thesis using safe_step_trans [OF s sendInLoop_safe] by blast
  qed
next
  case (From_Broker buff)
  with assms onMessage_safe show ?thesis by auto
next
  case (Up hp c)
  with assms onConnection_safe [OF ok, of "(client_conne hp (Some c) s)\<lparr>connected := t_id c # connected s\<rparr>" c]
  show ?thesis by (auto simp: newConnection_def more_simps safe_step_refl split: if_split_asm)
next
  case (Down c)
  let ?t = "conne_down c s"
  have t: "busd.more ?t = busd.more s" by (rule more_simps)
  show ?thesis
  proof (cases "find (\<lambda>e. tc_connection (snd e) = Some c) (m_mqserver_clients s)")
    case None
    with assms(1) Down have "s' = ?t" by (simp add: connection_closed_def Let_def)
    with safe_step_more [OF ok t] show ?thesis by simp
  next
    case (Some x)
    with assms(1) Down have s': "s' = client_conne (fst x) None (removeInvaildConnection c ?t)"
      by (cases x) (simp add: connection_closed_def Let_def)
    have 1: "safe_step s (removeInvaildConnection c ?t)" by (rule removeInvaild_safe [OF ok t])
    then have "prod_ok (removeInvaildConnection c ?t)" by (simp add: safe_step_def)
    from safe_step_trans [OF 1 safe_step_more [OF this more_client_conne]] show ?thesis by (simp add: s')
  qed
next
  case (From_Dir buff)
  with assms(1) obtain buff' where
    "onMessageFromDirServer holds_conne (\<lambda>t. Some (connectToMqBroker t)) buff s = Some (buff', s')" by auto
  then have "busd.more s' = busd.more s"
    by (rule more_onMessageFromDirServer) (auto simp: more_simps)
  with safe_step_more [OF ok] show ?thesis by simp
next
  case (Dir_Timer pad)
  with assms(1) safe_step_more [OF ok more_dir_timer [of pad s]] show ?thesis by simp
qed

lemma producer_run_safe:
  "producer_run es s = Some s' \<Longrightarrow> prod_ok s \<Longrightarrow> \<forall>e \<in> set es. clock_ok e \<Longrightarrow> safe_step s s'"
proof (induction es arbitrary: s)
  case (Cons e es)
  then obtain t where t: "producer_step e s = Some t" "producer_run es t = Some s'"
    by (auto split: Option.bind_split_asm)
  have 1: "safe_step s t" using producer_step_safe [OF t(1)] Cons.prems by simp
  then have "safe_step t s'" using Cons.IH [OF t(2)] Cons.prems by (simp add: safe_step_def)
  with 1 show ?case by (rule safe_step_trans)
qed (simp add: safe_step_refl)

section \<open>Properties\<close>

text \<open>
  What the callback for failed sends is needed for: without it a send that is not to be retried, while
  no broker is known, empties the queue and tells no one.
\<close>

lemma queue_dropped_without_callback:
  assumes "\<not> cb_send s" and "m_hashHost s = []"
  shows "sendInLoop junk pad now False s = Some (s\<lparr>m_send_queue := [], queue := [], m_isVaild := False\<rparr>)"
  using assms by (simp add: sendInLoop_def ring_empty_def Let_def)

text \<open>
  C5: A producer with both callbacks set, started on a good generator of ids: when an id can be drawn, the
  assertion of \<^verbatim>\<open>put\<close> holds, and after any run of sends, timers and brokers that
  come, go and answer in any order, in which the clock stays in its epoch and nothing aborts, the message
  is in the queue, waits for its answer, or was given to one of the callbacks. Without the callback for
  failed sends it can be lost (\<open>queue_dropped_without_callback\<close>).
\<close>

theorem producer_keeps_messages:
  assumes "started w" and "\<forall>e \<in> set es. clock_ok e" and "producer_run es (Producer w True True) = Some s"
    and "getId (ids s) clock = Some (Inr i, g, clock')" and "\<forall>t \<in> set clock. in_epoch t"
  shows "\<exists>s1. put clock topic message s = Some (Inr i, s1, clock')
    \<and> (\<forall>es' s2. (\<forall>e \<in> set es'. clock_ok e) \<longrightarrow> producer_run es' s1 = Some s2 \<longrightarrow>
        (i, topic, message) \<in> set (m_send_queue s2) \<union> set (m_resend_set s2) \<union> set (confirmed s2)
        \<or> (\<exists>q. (False, q) \<in> set (reported s2) \<and> (i, topic, message) \<in> set q))"
proof -
  have ok: "prod_ok s"
    using producer_run_safe [OF assms(3) prod_ok_Producer [OF assms(1)] assms(2)] by (simp add: safe_step_def)
  obtain s1 where s1: "put clock topic message s = Some (Inr i, s1, clock')"
    using put_returns [OF assms(4) ok assms(5)] by blast
  have safe: "prod_ok s1" "(i, topic, message) \<in> accounted s1"
    using put_safe [OF s1 ok assms(5)] by (auto simp: safe_step_def accounted_def)
  have "(i, topic, message) \<in> accounted s2"
    if "\<forall>e \<in> set es'. clock_ok e" "producer_run es' s1 = Some s2" for es' s2
    using producer_run_safe [OF that(2) safe(1) that(1)] safe(2) by (auto simp: safe_step_def)
  with s1 show ?thesis by (auto simp: accounted_def known_def)
qed

text \<open>
  C6: The broker of a topic: in a producer with both callbacks set, after any run, the look-up
  passes its assertion and changes nothing. While no node is on the ring it gives a null connection;
  otherwise the connection of the node that comes first when the ring is walked clockwise from the
  topic's hash (the one at the least distance, modulo \<open>2 ^ 32\<close>), which is in the table of
  connections under the name the node was made for, and is not null.
\<close>

theorem producer_routes_to_live_broker:
  assumes "started w" and "\<forall>e \<in> set es. clock_ok e" and "producer_run es (Producer w True True) = Some s"
  shows "\<exists>conne. choose_conne topic s = Some (conne, s) \<and>
    (if m_hashHost s = [] then conne = None
     else \<exists>c node. conne = Some c \<and> t_name c = conneName node
       \<and> map_of (m_vaild_conne s) (t_name c) = Some (Some c)
       \<and> (hash_node node, node) \<in> set (m_hashHost s)
       \<and> (\<forall>x \<in> set (m_hashHost s).
             unat (hash_node node - MurMurHash topic) \<le> unat (fst x - MurMurHash topic)))"
proof -
  have "prod_ok s"
    using producer_run_safe [OF assms(3) prod_ok_Producer [OF assms(1)] assms(2)] by (simp add: safe_step_def)
  then have route: "route_ok (m_hashHost s) (m_vaild_conne s)" by (simp add: prod_ok_def)
  then have om: "om_ok (m_hashHost s)" by (simp add: route_ok_def)
  show ?thesis
  proof (cases "m_hashHost s = []")
    case True
    then show ?thesis by (simp add: choose_conne_def ring_find_def)
  next
    case False
    obtain h n where e: "ring_find (MurMurHash topic) (m_hashHost s) = Some (h, n)" "(h, n) \<in> set (m_hashHost s)"
      "\<forall>x \<in> set (m_hashHost s). ahead (MurMurHash topic) h \<le> ahead (MurMurHash topic) (fst x)"
      using ring_find_some [OF om False, of "MurMurHash topic"] by (metis prod.collapse fst_conv)
    with choose_conne_spec [OF route, of topic] False show ?thesis by (auto simp: ahead_def)
  qed
qed

section \<open>Witnesses\<close>

definition demo_producer :: producer where
  "demo_producer = Producer demo_worker True True"

lemma demo_put: "getId (ids demo_producer) demo_clock =
    Some (Inr 357623136256933887, demo_worker\<lparr>m_sequence := 4095\<rparr>, tl demo_clock)"
  by code_simp

text \<open>A message is put and sent off to the loop, which knows no broker yet.\<close>

theorem producer_keeps_messages_witness:
  "\<exists>s1 s2. put demo_clock [116] [7] demo_producer = Some (Inr 357623136256933887, s1, tl demo_clock)
    \<and> producer_run [Start 1, Send True, Send False] s1 = Some s2 \<and> pending s2 = [True]
    \<and> (357623136256933887, [116], [7]) \<in> set (m_send_queue s2)"
proof -
  have run: "producer_run [] (Producer demo_worker True True) = Some demo_producer"
    by (simp add: demo_producer_def)
  obtain s1 where s1: "put demo_clock [116] [7] demo_producer = Some (Inr 357623136256933887, s1, tl demo_clock)"
    and kept: "\<forall>es' s2. (\<forall>e \<in> set es'. clock_ok e) \<longrightarrow> producer_run es' s1 = Some s2 \<longrightarrow>
        (357623136256933887, [116], [7]) \<in> set (m_send_queue s2) \<union> set (m_resend_set s2) \<union> set (confirmed s2)
        \<or> (\<exists>q. (False, q) \<in> set (reported s2) \<and> (357623136256933887, [116], [7]) \<in> set q)"
    using producer_keeps_messages [OF demo_worker_ok(1) _ run demo_put demo_worker_ok(3), of "[116]" "[7]"]
    by auto
  have "case put demo_clock [116] [7] demo_producer of
      None \<Rightarrow> False
    | Some (r, s1, c) \<Rightarrow> (case producer_run [Start 1, Send True, Send False] s1 of
        None \<Rightarrow> False
      | Some s2 \<Rightarrow> pending s2 = [True] \<and> m_resend_set s2 = [] \<and> confirmed s2 = [] \<and> reported s2 = [])"
    by code_simp
  with s1 obtain s2 where s2: "producer_run [Start 1, Send True, Send False] s1 = Some s2"
    "pending s2 = [True]" "m_resend_set s2 = []" "confirmed s2 = []" "reported s2 = []"
    by (auto split: option.split_asm)
  have "\<forall>e \<in> set [Start 1, Send True, Send False]. clock_ok e" by (simp add: clock_ok_def)
  with kept s2 have "(357623136256933887, [116], [7]) \<in> set (m_send_queue s2)" by fastforce
  with s1 s2(1,2) show ?thesis by blast
qed

text \<open>A directory server names the broker ``h:1'', and a connection to it is established.\<close>

definition demo_listing :: buffer where
  "demo_listing = \<lparr>m_wpos = 13, m_rpos = 0, m_queue = [1, 0, 0, 0, 5, 0, 0, 0, 104, 58, 49, 13, 10]\<rparr>"

definition demo_conne :: tcp_conne where
  "demo_conne = \<lparr>t_id = 1, t_name = [99, 58, 104, 58, 49, 35, 49]\<rparr>"

definition demo_up :: "producer_event list" where
  "demo_up = [Start 1, From_Dir demo_listing, Up [104, 58, 49] demo_conne]"

lemma add_nodes_some: "add_nodes c r \<noteq> []"
proof -
  have ins: "snd (ring_insert n r) \<noteq> []" for n r
    by (cases r) (auto simp: ring_insert_def Let_def split: if_split_asm)
  have "fold (\<lambda>i r. snd (ring_insert (conne_node c i) r)) is r \<noteq> []" if "r \<noteq> []" for "is" r
    using that by (induction "is" arbitrary: r) (simp_all add: ins)
  with ins show ?thesis by (simp add: add_nodes_def kVirtualNodeNum_def upt_rec)
qed

lemma producer_run_append: "producer_run (es @ es') t = (producer_run es t \<bind> producer_run es')"
  by (induction es arbitrary: t) (simp_all split: Option.bind_split)

lemma demo_up_run:
  obtains s where "producer_run demo_up (Producer demo_worker True True) = Some s" and "m_hashHost s \<noteq> []"
proof -
  have "case producer_run [Start 1, From_Dir demo_listing] demo_producer of
      None \<Rightarrow> False | Some s \<Rightarrow> map_of (m_mqserver_clients s) [104, 58, 49] \<noteq> None" by code_simp
  then obtain s where s: "producer_run [Start 1, From_Dir demo_listing] demo_producer = Some s"
    "map_of (m_mqserver_clients s) [104, 58, 49] \<noteq> None" by (auto split: option.split_asm)
  have up: "producer_run demo_up demo_producer = producer_run [Up [104, 58, 49] demo_conne] s"
    using producer_run_append [of "[Start 1, From_Dir demo_listing]" "[Up [104, 58, 49] demo_conne]" demo_producer]
    unfolding s(1) demo_up_def append_Cons append_Nil Option.bind.simps .
  let ?c = "(client_conne [104, 58, 49] (Some demo_conne) s)\<lparr>connected := t_id demo_conne # connected s\<rparr>"
  have "producer_run [Up [104, 58, 49] demo_conne] s = Some (onConnectionToBroker demo_conne ?c)"
    using s(2) by (auto simp: newConnection_def)
  moreover have "m_hashHost (onConnectionToBroker demo_conne ?c) \<noteq> []"
    by (simp only: onConnectionToBroker_def Let_def) (simp add: add_nodes_some)
  ultimately show thesis using that up unfolding demo_producer_def by simp
qed

theorem producer_routes_to_live_broker_witness:
  "\<exists>s c. producer_run demo_up demo_producer = Some s \<and> choose_conne [116] s = Some (Some c, s)"
proof -
  obtain s where s: "producer_run demo_up (Producer demo_worker True True) = Some s" "m_hashHost s \<noteq> []"
    by (rule demo_up_run)
  have "\<forall>e \<in> set demo_up. clock_ok e" by (simp add: demo_up_def clock_ok_def)
  note route = producer_routes_to_live_broker [OF demo_worker_ok(1) this s(1), of "[116]"]
  then obtain c where "choose_conne [116] s = Some (Some c, s)" using s(2) by auto
  with s(1) show ?thesis by (auto simp: demo_producer_def)
qed

end
