(* ===== verification/Consumer.thy ===== *)
theory Consumer
  imports MqBusd HashRing MqProto
begin

text \<open>
  \<^verbatim>\<open>src/example/mqbusd/consumer.h\<close> and \<^verbatim>\<open>consumer.cc\<close>: subscriptions, pulls,
  the messages received and the offsets committed. It extends the common part of \<^verbatim>\<open>MqBusd\<close>.

  \<open>now\<close>, \<open>junk\<close> and \<open>pad\<close> are the time of the call and the bytes that nothing writes;
  \<open>order\<close> is the order in which an \<^verbatim>\<open>unordered_set\<close> with the given elements is iterated.
  \<open>cb_*\<close> say whether the callbacks are set; \<open>told\<close> and \<open>pulled\<close> collect what they
  are called with (a callback that commits is a \<open>commit\<close> right behind the message). \<open>None\<close> is
  an assertion that fails or a null pointer that is read.
\<close>

section \<open>Local offsets\<close>

type_synonym commit_info = "(bytes \<times> u64) list"

definition getOffset :: "bytes \<Rightarrow> commit_info \<Rightarrow> u64" where
  "getOffset cname info = (case map_of info cname of None \<Rightarrow> 0 | Some off \<Rightarrow> off)"

definition incOffset :: "bytes \<Rightarrow> commit_info \<Rightarrow> commit_info" where
  "incOffset cname info = AList.update cname (getOffset cname info + 1) info"

definition setOffset :: "bytes \<Rightarrow> u64 \<Rightarrow> commit_info \<Rightarrow> commit_info" where
  "setOffset cname off info = AList.update cname off info"

record message_info =
  mi_id :: u64
  mi_offset :: u64
  mi_content :: bytes

type_synonym topic_map = "(bytes \<times> message_info list) list"

section \<open>The state\<close>

record consumer = busd +
  m_topic :: "(bytes \<times> bytes) list"
  m_vaild_topic_conne :: "(bytes \<times> tcp_conne) list"
  m_groupId :: u32
  m_commit_offset :: "(bytes \<times> commit_info) list"
  m_recv_messageId :: "(u64 \<times> bytes) list"
  m_recv_messages :: topic_map
  m_maxEnableBytes :: u64
  cb_subscribe :: bool
  cb_cancel_subscribe :: bool
  cb_pull :: bool
  told :: "(bool \<times> bytes) list"
  pulled :: "topic_map list"
  pull_timers :: nat

definition Consumer :: "nat \<Rightarrow> bytes \<Rightarrow> u32 \<Rightarrow> bool \<Rightarrow> bool \<Rightarrow> bool \<Rightarrow> consumer" where
  "Consumer dirs name gid sub_cb cancel_cb pull_cb =
     busd.extend (busd_init dirs)
       \<lparr>m_topic = [], m_vaild_topic_conne = [], m_groupId = (if gid = -1 then MurMurHash name else gid),
        m_commit_offset = [], m_recv_messageId = [], m_recv_messages = [], m_maxEnableBytes = -1,
        cb_subscribe = sub_cb, cb_cancel_subscribe = cancel_cb, cb_pull = pull_cb,
        told = [], pulled = [], pull_timers = 0\<rparr>"

definition setMaxEnableBytes :: "u64 \<Rightarrow> consumer \<Rightarrow> consumer" where
  "setMaxEnableBytes byte s = s\<lparr>m_maxEnableBytes := byte\<rparr>"

text \<open>\<^verbatim>\<open>m_commit_offset[topic]\<close> makes an entry if there is none.\<close>

definition commit_entry :: "bytes \<Rightarrow> consumer \<Rightarrow> commit_info" where
  "commit_entry topic s = (case map_of (m_commit_offset s) topic of None \<Rightarrow> [] | Some info \<Rightarrow> info)"

definition set_commit :: "bytes \<Rightarrow> commit_info \<Rightarrow> consumer \<Rightarrow> consumer" where
  "set_commit topic info s = s\<lparr>m_commit_offset := AList.update topic info (m_commit_offset s)\<rparr>"

definition pull :: "bytes \<Rightarrow> bytes \<Rightarrow> u64 \<Rightarrow> consumer \<Rightarrow> consumer" where
  "pull topic cname off s = set_commit topic (setOffset cname off (commit_entry topic s)) s"

section \<open>Subscribing\<close>

definition subscribe :: "bytes \<Rightarrow> consumer \<Rightarrow> consumer" where
  "subscribe topic s = s\<lparr>m_topic := um_insert topic [] (m_topic s)\<rparr>"

text \<open>
  The address in the name of a connection. The colon and the hash are both searched from the start;
  a length that would be negative is the rest of the name.
\<close>

definition conne_address :: "bytes \<Rightarrow> bytes" where
  "conne_address name =
     (let start = (case find_byte 58 name of None \<Rightarrow> 0 | Some i \<Rightarrow> i + 1) in
      case find_byte 35 name of
        None \<Rightarrow> drop start name
      | Some e \<Rightarrow> if e < start then drop start name else take (e - start) (drop start name))"

definition subscribe_packet :: "u64 \<Rightarrow> u32 \<Rightarrow> bytes \<Rightarrow> mqPacket" where
  "subscribe_packet now gid topic =
     mqPacket_default\<lparr>msgCreateTime := now, command := command_code MQ_COMMAND_SUBSCRIBE,
       topicBytes := of_nat (length topic), consumerGroupId := gid\<rparr>"

definition topics_at :: "bytes \<Rightarrow> (bytes \<times> bytes) list \<Rightarrow> bytes list" where
  "topics_at addr topics = map fst (filter (\<lambda>it. snd it \<noteq> [] \<and> addr = snd it) topics)"

definition subscribeInLoop :: "(nat \<Rightarrow> byte) \<Rightarrow> (nat \<Rightarrow> byte) \<Rightarrow> (bytes list \<Rightarrow> bytes list) \<Rightarrow> u64 \<Rightarrow>
    tcp_conne \<Rightarrow> consumer \<Rightarrow> consumer option" where
  "subscribeInLoop junk pad order now conne s = do {
     let topics = topics_at (conne_address (t_name conne)) (m_topic s);
     let vec = map (subscribe_packet now (m_groupId s)) topics;
     buff \<leftarrow> serializationToBuffer_topics junk pad vec (order topics) (buffer_new kInitialSize);
     Some (snd (conne_send_buffer conne buff s))
   }"

definition subscribe_one :: "(nat \<Rightarrow> byte) \<Rightarrow> (nat \<Rightarrow> byte) \<Rightarrow> u64 \<Rightarrow> bytes \<Rightarrow> tcp_conne \<Rightarrow> consumer \<Rightarrow> consumer option" where
  "subscribe_one junk pad now topic conne s = do {
     buff \<leftarrow> serializationToBuffer_topic junk pad (subscribe_packet now (m_groupId s) topic) topic
              (buffer_new kInitialSize);
     Some (snd (conne_send_buffer conne buff s))
   }"

text \<open>The packet names the length of the topic, but the topic is not serialised.\<close>

definition cancelSubscribe :: "(nat \<Rightarrow> byte) \<Rightarrow> (nat \<Rightarrow> byte) \<Rightarrow> u64 \<Rightarrow> bytes \<Rightarrow> consumer \<Rightarrow> consumer option" where
  "cancelSubscribe junk pad now topic s =
     (case map_of (m_vaild_topic_conne s) topic of
        None \<Rightarrow> Some s
      | Some conne \<Rightarrow> do {
          let msg = mqPacket_default\<lparr>consumerGroupId := m_groupId s,
            command := command_code MQ_COMMAND_CANCEL_SUBSCRIBE,
            topicBytes := of_nat (length topic), msgBytes := 0, msgCreateTime := now\<rparr>;
          buff \<leftarrow> serializationToBuffer junk pad msg (buffer_new kInitialSize);
          let s1 = snd (conne_send_buffer conne buff s);
          Some (s1\<lparr>m_vaild_topic_conne := AList.delete topic (m_vaild_topic_conne s1)\<rparr>)
        })"

section \<open>Committing and pulling\<close>

definition commit_packet :: "u32 \<Rightarrow> bytes \<Rightarrow> message_info list \<Rightarrow> mqPacket" where
  "commit_packet gid topic msgs =
     mqPacket_default\<lparr>command := command_code MQ_COMMAND_COMMIT, consumerGroupId := gid,
       offset := mi_offset (last msgs) + 1, topicBytes := of_nat (length topic)\<rparr>"

text \<open>A topic whose connection is gone has a null pointer in the table.\<close>

definition commit_one :: "(nat \<Rightarrow> byte) \<Rightarrow> (nat \<Rightarrow> byte) \<Rightarrow> bytes \<times> message_info list \<Rightarrow> consumer \<Rightarrow> consumer option" where
  "commit_one junk pad it s =
     (if snd it = [] then Some s
      else do {
        let msg = commit_packet (m_groupId s) (fst it) (snd it);
        buff \<leftarrow> serializationToBuffer_topic junk pad msg (fst it) (buffer_new kInitialSize);
        conne \<leftarrow> map_of (m_vaild_topic_conne s) (fst it);
        let s1 = snd (conne_send_buffer conne buff s);
        Some (set_commit (fst it) (setOffset (t_name conne) (offset msg) (commit_entry (fst it) s1)) s1)
      })"

definition commit :: "(nat \<Rightarrow> byte) \<Rightarrow> (nat \<Rightarrow> byte) \<Rightarrow> consumer \<Rightarrow> consumer option" where
  "commit junk pad s =
     (if m_recv_messages s = [] then Some s
      else do {
        s1 \<leftarrow> for_each (commit_one junk pad) (m_recv_messages s) s;
        Some (s1\<lparr>m_recv_messages := []\<rparr>)
      })"

text \<open>
  The loop of \<^verbatim>\<open>pullInLoop\<close>; the packet and the buffer are carried from one topic to the
  next.
\<close>

fun pull_loop :: "(nat \<Rightarrow> byte) \<Rightarrow> (nat \<Rightarrow> byte) \<Rightarrow> (bytes \<times> tcp_conne) list \<Rightarrow> mqPacket \<Rightarrow> buffer \<Rightarrow> consumer
    \<Rightarrow> consumer option" where
  "pull_loop junk pad [] msg buff s = Some s"
| "pull_loop junk pad ((topic, conne) # its) msg buff s =
     (case map_of (m_commit_offset s) topic of
        Some info \<Rightarrow> do {
          let msg1 = msg\<lparr>topicBytes := of_nat (length topic), offset := getOffset (t_name conne) info\<rparr>;
          buff1 \<leftarrow> serializationToBuffer_topic junk pad msg1 topic buff;
          let (buff2, s1) = conne_send_buffer conne buff1 s;
          pull_loop junk pad its msg1 buff2 s1
        }
      | None \<Rightarrow> do {
          let msg1 = msg\<lparr>offset := 0, topicBytes := 0\<rparr>;
          buff1 \<leftarrow> serializationToBuffer junk pad msg1 buff;
          let (buff2, s1) = conne_send_buffer conne buff1 s;
          pull_loop junk pad its msg1 buff2 s1
        })"

definition pull_packet :: "u64 \<Rightarrow> consumer \<Rightarrow> mqPacket" where
  "pull_packet now s =
     mqPacket_default\<lparr>command := command_code MQ_COMMAND_PULL, maxEnableBytes := m_maxEnableBytes s,
       msgCreateTime := now, consumerGroupId := m_groupId s, offset := 0\<rparr>"

definition pullInLoop :: "(nat \<Rightarrow> byte) \<Rightarrow> (nat \<Rightarrow> byte) \<Rightarrow> u64 \<Rightarrow> consumer \<Rightarrow> consumer option" where
  "pullInLoop junk pad now s =
     pull_loop junk pad (m_vaild_topic_conne s) (pull_packet now s) (buffer_new kInitialSize) s"

section \<open>Answers\<close>

definition handleSubscribe :: "bytes \<Rightarrow> tcp_conne \<Rightarrow> consumer \<Rightarrow> consumer option" where
  "handleSubscribe f conne s = do {
     let msg = packet_at f;
     if retCode msg = err_code SUCCESSFUL then do {
       topic \<leftarrow> getTopic f;
       if command msg = command_code MQ_COMMAND_SUBSCRIBE then
         Some (s\<lparr>told := told s @ (if cb_subscribe s then [(True, topic)] else []),
                 m_vaild_topic_conne := um_insert topic conne (m_vaild_topic_conne s),
                 pull_timers := pull_timers s + 1\<rparr>)
       else
         Some (s\<lparr>told := told s @ (if cb_cancel_subscribe s then [(False, topic)] else []),
                 m_vaild_topic_conne := AList.delete topic (m_vaild_topic_conne s),
                 m_topic := AList.delete topic (m_topic s)\<rparr>)
     } else Some s
   }"

definition push_message :: "bytes \<Rightarrow> message_info \<Rightarrow> topic_map \<Rightarrow> topic_map" where
  "push_message topic m ms =
     AList.update topic ((case map_of ms topic of None \<Rightarrow> [] | Some xs \<Rightarrow> xs) @ [m]) ms"

definition handlePull :: "(nat \<Rightarrow> byte) \<Rightarrow> (nat \<Rightarrow> byte) \<Rightarrow> (bytes list \<Rightarrow> bytes list) \<Rightarrow> u64 \<Rightarrow> bytes \<Rightarrow>
    tcp_conne \<Rightarrow> consumer \<Rightarrow> consumer option" where
  "handlePull junk pad order now f conne s = do {
     let msg = packet_at f;
     if retCode msg = err_code OFFSET_TOO_LARGET then do {
       topic \<leftarrow> getTopic f;
       Some (set_commit topic (setOffset (t_name conne) (offset msg) (commit_entry topic s)) s)
     } else if retCode msg = err_code UNKNOW_CONSUMER then subscribeInLoop junk pad order now conne s
     else if retCode msg = err_code SUCCESSFUL then do {
       (topic, message) \<leftarrow> getTopicAndMessage f;
       if map_of (m_recv_messageId s) (messageId msg) = None then
         Some (s\<lparr>m_recv_messageId := AList.update (messageId msg) topic (m_recv_messageId s),
                 m_recv_messages := push_message topic
                   \<lparr>mi_id = messageId msg, mi_offset = offset msg, mi_content = message\<rparr> (m_recv_messages s)\<rparr>)
       else if offset msg = getOffset (t_name conne) (commit_entry topic s) then
         Some (set_commit topic (incOffset (t_name conne) (commit_entry topic s)) s)
       else Some (set_commit topic (commit_entry topic s) s)
     } else Some s
   }"

text \<open>The loop over the packets; the flag tells whether there was a pull.\<close>

definition dispatch :: "(nat \<Rightarrow> byte) \<Rightarrow> (nat \<Rightarrow> byte) \<Rightarrow> (bytes list \<Rightarrow> bytes list) \<Rightarrow> u64 \<Rightarrow> bytes \<Rightarrow>
    tcp_conne \<Rightarrow> bool \<Rightarrow> consumer \<Rightarrow> (bool \<times> consumer) option" where
  "dispatch junk pad order now f conne hasPull s =
     (let msg = packet_at f in
      if command msg = command_code MQ_COMMAND_CANCEL_SUBSCRIBE
        \<or> command msg = command_code MQ_COMMAND_SUBSCRIBE then do {
        s1 \<leftarrow> handleSubscribe f conne s;
        Some (hasPull, s1)
      } else if command msg = command_code MQ_COMMAND_PULL then do {
        s1 \<leftarrow> handlePull junk pad order now f conne s;
        Some (True, s1)
      } else Some (hasPull, s))"

function message_loop :: "(nat \<Rightarrow> byte) \<Rightarrow> (nat \<Rightarrow> byte) \<Rightarrow> (bytes list \<Rightarrow> bytes list) \<Rightarrow> u64 \<Rightarrow> tcp_conne \<Rightarrow>
    buffer \<Rightarrow> bool \<Rightarrow> consumer \<Rightarrow> (buffer \<times> bool \<times> consumer) option" where
  "message_loop junk pad order now conne buff hasPull s =
     (if readableBytes buff > sizeof_MqPacket then do {
        (msg, buff') \<leftarrow> serializationToMqPacket buff;
        (case msg of
           None \<Rightarrow> Some (buff', hasPull, s)
         | Some f \<Rightarrow> do {
             (hasPull', s') \<leftarrow> dispatch junk pad order now f conne hasPull s;
             message_loop junk pad order now conne buff' hasPull' s'
           })
      } else Some (buff, hasPull, s))"
  by pat_completeness auto
termination
  by (relation "measure (\<lambda>(junk, pad, order, now, conne, buff, hasPull, s). readableBytes buff)")
    (auto dest: serializationToMqPacket_less)

declare message_loop.simps [simp del]

definition onMessageFromMqBroker :: "(nat \<Rightarrow> byte) \<Rightarrow> (nat \<Rightarrow> byte) \<Rightarrow> (bytes list \<Rightarrow> bytes list) \<Rightarrow> u64 \<Rightarrow>
    tcp_conne \<Rightarrow> buffer \<Rightarrow> consumer \<Rightarrow> (buffer \<times> consumer) option" where
  "onMessageFromMqBroker junk pad order now conne buff s = do {
     (buff', hasPull, s1) \<leftarrow> message_loop junk pad order now conne buff False s;
     Some (buff',
       if hasPull \<and> m_recv_messages s1 \<noteq> [] \<and> cb_pull s1
       then s1\<lparr>pulled := pulled s1 @ [m_recv_messages s1]\<rparr> else s1)
   }"

section \<open>Brokers\<close>

definition onConnectionToBroker :: "(nat \<Rightarrow> byte) \<Rightarrow> (nat \<Rightarrow> byte) \<Rightarrow> (bytes list \<Rightarrow> bytes list) \<Rightarrow> u64 \<Rightarrow>
    tcp_conne \<Rightarrow> consumer \<Rightarrow> consumer option" where
  "onConnectionToBroker junk pad order now conne s =
     subscribeInLoop junk pad order now conne (onConnectionToMqBroker s)"

definition removeInvaildConnection :: "tcp_conne \<Rightarrow> consumer \<Rightarrow> consumer" where
  "removeInvaildConnection conne s =
     s\<lparr>m_vaild_topic_conne := filter (\<lambda>it. snd it \<noteq> conne) (m_vaild_topic_conne s)\<rparr>"

text \<open>
  One broker in the loop of \<^verbatim>\<open>connectToMqBroker\<close> for a topic: it is connected to if it has the
  topic, and asked for the topic if it is connected and nobody serves the topic yet. A client whose
  connection exists has a connector in the state \<^verbatim>\<open>kConnected\<close>.
\<close>

definition visit_broker :: "(nat \<Rightarrow> byte) \<Rightarrow> (nat \<Rightarrow> byte) \<Rightarrow> u64 \<Rightarrow> bytes \<Rightarrow> HostAndTopics \<Rightarrow> consumer \<Rightarrow> consumer option" where
  "visit_broker junk pad now topic it s =
     (if map_of (snd it) topic = None then Some s
      else do {
        let s1 = s\<lparr>m_topic := AList.update topic (fst it) (m_topic s)\<rparr>;
        (case map_of (m_mqserver_clients s1) (fst it) of
           None \<Rightarrow> Some (new_client (fst it) s1)
         | Some c \<Rightarrow>
             (case tc_connection c of
                None \<Rightarrow> Some s1
              | Some conne \<Rightarrow>
                  if map_of (m_vaild_topic_conne s1) topic = None
                  then subscribe_one junk pad now topic conne s1 else Some s1))
      })"

definition connectToMqBroker :: "(nat \<Rightarrow> byte) \<Rightarrow> (nat \<Rightarrow> byte) \<Rightarrow> u64 \<Rightarrow> consumer \<Rightarrow> consumer option" where
  "connectToMqBroker junk pad now s =
     for_each (\<lambda>topic s. for_each (visit_broker junk pad now topic) (m_mqserver_info_tmp s) s)
       (map fst (m_topic s)) s"

definition holds_conne :: "consumer \<Rightarrow> tcp_conne \<Rightarrow> bool" where
  "holds_conne s conne \<longleftrightarrow> conne \<in> set (map snd (m_vaild_topic_conne s))"

end
