(* ===== verification/ConsumerProps.thy ===== *)
theory ConsumerProps
  imports Consumer "HOL-Library.Multiset"
begin

text \<open>
  What a consumer promises: however often and over however many connections the broker sends a message,
  it waits once for the application's commit, is handed to the pull callback once in each call until
  then, and never after it.
\<close>

section \<open>Runs\<close>

datatype consumer_event =
    Subscribe bytes
  | Cancel "nat \<Rightarrow> byte" "nat \<Rightarrow> byte" u64 bytes
  | Commit "nat \<Rightarrow> byte" "nat \<Rightarrow> byte"
  | Pull_Timer "nat \<Rightarrow> byte" "nat \<Rightarrow> byte" u64
  | Seek bytes bytes u64
  | From_Broker "nat \<Rightarrow> byte" "nat \<Rightarrow> byte" "bytes list \<Rightarrow> bytes list" u64 tcp_conne buffer
  | Up "nat \<Rightarrow> byte" "nat \<Rightarrow> byte" "bytes list \<Rightarrow> bytes list" u64 bytes tcp_conne
  | Down tcp_conne
  | From_Dir "nat \<Rightarrow> byte" "nat \<Rightarrow> byte" u64 buffer
  | Dir_Timer "nat \<Rightarrow> byte"

fun consumer_step :: "consumer_event \<Rightarrow> consumer \<Rightarrow> consumer option" where
  "consumer_step (Subscribe topic) s = Some (subscribe topic s)"
| "consumer_step (Cancel junk pad now topic) s = cancelSubscribe junk pad now topic s"
| "consumer_step (Commit junk pad) s = commit junk pad s"
| "consumer_step (Pull_Timer junk pad now) s = pullInLoop junk pad now s"
| "consumer_step (Seek topic cname off) s = Some (pull topic cname off s)"
| "consumer_step (From_Broker junk pad order now conne buff) s =
     map_option snd (onMessageFromMqBroker junk pad order now conne buff s)"
| "consumer_step (Up junk pad order now hp conne) s =
     newConnection (onConnectionToBroker junk pad order now) hp conne s"
| "consumer_step (Down conne) s = connection_closed (\<lambda>c t. Some (removeInvaildConnection c t)) conne s"
| "consumer_step (From_Dir junk pad now buff) s =
     map_option snd (onMessageFromDirServer holds_conne (connectToMqBroker junk pad now) buff s)"
| "consumer_step (Dir_Timer pad) s = Some (updateMqSeverConfWithMs pad s)"

fun consumer_run :: "consumer_event list \<Rightarrow> consumer \<Rightarrow> consumer option" where
  "consumer_run [] s = Some s"
| "consumer_run (e # es) s = (consumer_step e s \<bind> consumer_run es)"

section \<open>Messages received\<close>

text \<open>The ids of the messages that wait for a commit, and of all that ever came.\<close>

definition received_ids :: "topic_map \<Rightarrow> u64 list" where
  "received_ids ms = map mi_id (concat (map snd ms))"

lemma received_ids_Nil [simp]: "received_ids [] = []"
  by (simp add: received_ids_def)

definition seen :: "consumer \<Rightarrow> u64 set" where
  "seen s = dom (map_of (m_recv_messageId s))"

definition once_ok :: "consumer \<Rightarrow> bool" where
  "once_ok s \<longleftrightarrow> distinct (received_ids (m_recv_messages s)) \<and> set (received_ids (m_recv_messages s)) \<subseteq> seen s"

text \<open>
  A step only brings ids that never came before, and hands to the pull callback maps without duplicates,
  in which every id that came before the step is one that waits for a commit.
\<close>

definition handed_ok :: "consumer \<Rightarrow> consumer \<Rightarrow> topic_map \<Rightarrow> bool" where
  "handed_ok s s' ms \<longleftrightarrow>
     (once_ok s \<longrightarrow> distinct (received_ids ms) \<and> set (received_ids ms) \<subseteq> seen s')
     \<and> set (received_ids ms) \<inter> seen s \<subseteq> set (received_ids (m_recv_messages s))"

definition fresh_step :: "consumer \<Rightarrow> consumer \<Rightarrow> bool" where
  "fresh_step s s' \<longleftrightarrow> seen s \<subseteq> seen s' \<and> (once_ok s \<longrightarrow> once_ok s')
     \<and> set (received_ids (m_recv_messages s')) \<inter> seen s \<subseteq> set (received_ids (m_recv_messages s))
     \<and> (\<exists>new. pulled s' = pulled s @ new \<and> (\<forall>ms \<in> set new. handed_ok s s' ms))"

lemma fresh_step_refl [simp]: "fresh_step s s"
  by (auto simp: fresh_step_def)

lemma fresh_step_trans:
  assumes st: "fresh_step s t" and tu: "fresh_step t u"
  shows "fresh_step s u"
proof -
  obtain new1 where 1: "pulled t = pulled s @ new1" "\<forall>ms \<in> set new1. handed_ok s t ms"
    using st by (auto simp: fresh_step_def)
  obtain new2 where 2: "pulled u = pulled t @ new2" "\<forall>ms \<in> set new2. handed_ok t u ms"
    using tu by (auto simp: fresh_step_def)
  have "handed_ok s u ms" if "handed_ok s t ms" for ms
    using that tu unfolding fresh_step_def handed_ok_def by blast
  moreover have "handed_ok s u ms" if "handed_ok t u ms" for ms
    using that st unfolding fresh_step_def handed_ok_def by blast
  ultimately have "pulled u = pulled s @ new1 @ new2 \<and> (\<forall>ms \<in> set (new1 @ new2). handed_ok s u ms)"
    using 1 2 by auto
  moreover have "seen s \<subseteq> seen u" "once_ok s \<longrightarrow> once_ok u"
    "set (received_ids (m_recv_messages u)) \<inter> seen s \<subseteq> set (received_ids (m_recv_messages s))"
    using st tu unfolding fresh_step_def by blast+
  ultimately show ?thesis unfolding fresh_step_def by blast
qed

lemma fresh_step_same:
  "m_recv_messages s' = m_recv_messages s \<Longrightarrow> m_recv_messageId s' = m_recv_messageId s \<Longrightarrow>
   pulled s' = pulled s \<Longrightarrow> fresh_step s s'"
  by (auto simp: fresh_step_def once_ok_def seen_def)

lemma fresh_step_hand:
  "fresh_step s (s\<lparr>pulled := pulled s @ [m_recv_messages s]\<rparr>)"
  by (auto simp: fresh_step_def handed_ok_def once_ok_def seen_def)

lemma fresh_step_more:
  fixes s s' :: consumer
  assumes "busd.more s' = busd.more s"
  shows "fresh_step s s'"
  using assms by (intro fresh_step_same) (cases s, cases s', simp)+

lemma mset_push_message:
  "mset (received_ids (push_message topic m ms)) = add_mset (mi_id m) (mset (received_ids ms))"
proof -
  have "mset (received_ids (AList.update topic ((case map_of ms topic of None \<Rightarrow> [] | Some xs \<Rightarrow> xs) @ [m]) ms)) =
      add_mset (mi_id m) (mset (received_ids ms))"
    by (induction ms) (auto simp: received_ids_def)
  then show ?thesis by (simp add: push_message_def)
qed

lemma handlePull_fresh:
  assumes "handlePull junk pad order now f conne s = Some s'"
  shows "fresh_step s s'"
proof -
  consider (same) "m_recv_messages s' = m_recv_messages s" "m_recv_messageId s' = m_recv_messageId s" "pulled s' = pulled s"
    | (new) topic m where "map_of (m_recv_messageId s) (mi_id m) = None"
      "m_recv_messageId s' = AList.update (mi_id m) topic (m_recv_messageId s)"
      "m_recv_messages s' = push_message topic m (m_recv_messages s)" "pulled s' = pulled s"
  proof (cases "retCode (packet_at f) = err_code SUCCESSFUL \<and> map_of (m_recv_messageId s) (messageId (packet_at f)) = None")
    case True
    then obtain topic message where g: "getTopicAndMessage f = Some (topic, message)"
      using assms by (auto simp: handlePull_def Let_def split: Option.bind_split_asm)
    let ?m = "\<lparr>mi_id = messageId (packet_at f), mi_offset = offset (packet_at f), mi_content = message\<rparr>"
    from assms True g have "s' = s\<lparr>m_recv_messageId := AList.update (mi_id ?m) topic (m_recv_messageId s),
        m_recv_messages := push_message topic ?m (m_recv_messages s)\<rparr>"
      by (simp add: handlePull_def Let_def)
    with True new [of ?m topic] show thesis by simp
  next
    case False
    with assms show thesis
      by (intro same) (auto simp: handlePull_def Let_def set_commit_def subscribeInLoop_def
          conne_send_buffer_def conne_send_def split: if_split_asm Option.bind_split_asm prod.split_asm)
  qed
  then show ?thesis
  proof cases
    case same
    then show ?thesis by (rule fresh_step_same)
  next
    case (new topic m)
    have ids: "mset (received_ids (m_recv_messages s')) = add_mset (mi_id m) (mset (received_ids (m_recv_messages s)))"
      unfolding new(3) by (rule mset_push_message)
    then have set: "set (received_ids (m_recv_messages s')) = insert (mi_id m) (set (received_ids (m_recv_messages s)))"
      by (metis set_mset_add_mset_insert set_mset_mset)
    have seen: "seen s' = insert (mi_id m) (seen s)" "mi_id m \<notin> seen s"
      using new(1,2) by (auto simp: seen_def)
    have "distinct (received_ids (m_recv_messages s'))" if "once_ok s"
    proof -
      have "mi_id m \<notin> set (received_ids (m_recv_messages s))" using that seen(2) by (auto simp: once_ok_def)
      with that have "distinct (mi_id m # received_ids (m_recv_messages s))" by (simp add: once_ok_def)
      then show ?thesis using ids mset_eq_imp_distinct_iff [of "received_ids (m_recv_messages s')"
            "mi_id m # received_ids (m_recv_messages s)"] by simp
    qed
    with set seen new(4) show ?thesis by (auto simp: fresh_step_def once_ok_def)
  qed
qed

lemma handleSubscribe_fresh: "handleSubscribe f conne s = Some s' \<Longrightarrow> fresh_step s s'"
  by (auto simp: handleSubscribe_def Let_def split: if_split_asm Option.bind_split_asm intro!: fresh_step_same)

lemma dispatch_fresh:
  "dispatch junk pad order now f conne hasPull s = Some (hasPull', s') \<Longrightarrow> fresh_step s s'"
  by (auto simp: dispatch_def Let_def dest: handlePull_fresh handleSubscribe_fresh
      split: if_split_asm Option.bind_split_asm)

lemma message_loop_fresh:
  "message_loop junk pad order now conne buff hasPull s = Some (buff', hasPull', s') \<Longrightarrow> fresh_step s s'"
proof (induction junk pad order now conne buff hasPull s rule: message_loop.induct)
  case (1 junk pad order now conne buff hasPull s)
  show ?case
  proof (cases "readableBytes buff > sizeof_MqPacket")
    case False
    with "1.prems" show ?thesis by (subst (asm) message_loop.simps) simp
  next
    case True
    with "1.prems" obtain msg b1 where m: "serializationToMqPacket buff = Some (msg, b1)"
      by (subst (asm) message_loop.simps) (auto split: Option.bind_split_asm)
    show ?thesis
    proof (cases msg)
      case None
      with True m "1.prems" show ?thesis by (subst (asm) message_loop.simps) simp
    next
      case (Some f)
      with True m "1.prems" obtain h1 s1 where d: "dispatch junk pad order now f conne hasPull s = Some (h1, s1)"
        and r: "message_loop junk pad order now conne b1 h1 s1 = Some (buff', hasPull', s')"
        by (subst (asm) message_loop.simps) (auto split: Option.bind_split_asm)
      have "fresh_step s1 s'" by (rule "1.IH" [OF True m refl Some d refl r])
      with dispatch_fresh [OF d] show ?thesis by (rule fresh_step_trans)
    qed
  qed
qed

text \<open>What leaves the tables of messages alone.\<close>

definition same_recv :: "consumer \<Rightarrow> consumer \<Rightarrow> bool" where
  "same_recv s s' \<longleftrightarrow> m_recv_messages s' = m_recv_messages s \<and> m_recv_messageId s' = m_recv_messageId s
     \<and> pulled s' = pulled s"

lemma same_recv_refl [simp]: "same_recv s s"
  by (simp add: same_recv_def)

lemma same_recv_trans: "same_recv s t \<Longrightarrow> same_recv t u \<Longrightarrow> same_recv s u"
  by (simp add: same_recv_def)

lemma same_recv_fresh: "same_recv s s' \<Longrightarrow> fresh_step s s'"
  by (simp add: same_recv_def fresh_step_same)

lemma same_recv_more:
  fixes s s' :: consumer
  assumes "busd.more s' = busd.more s"
  shows "same_recv s s'"
  using assms unfolding same_recv_def by (cases s, cases s', simp)

lemma same_recv_send_buffer [simp]: "same_recv s (snd (conne_send_buffer c buff s))"
  by (simp add: same_recv_def conne_send_buffer_def conne_send_def)

lemma same_recv_for_each:
  assumes "for_each f xs s = Some s'" and "\<And>x s s'. f x s = Some s' \<Longrightarrow> same_recv s s'"
  shows "same_recv s s'"
  using assms(1) by (rule for_each_mono) (simp, erule (1) same_recv_trans, rule assms(2))

lemma subscribeInLoop_recv: "subscribeInLoop junk pad order now c s = Some s' \<Longrightarrow> same_recv s s'"
  by (auto simp: subscribeInLoop_def Let_def split: Option.bind_split_asm)

lemma subscribe_one_recv: "subscribe_one junk pad now t c s = Some s' \<Longrightarrow> same_recv s s'"
  by (auto simp: subscribe_one_def split: Option.bind_split_asm)

lemma cancelSubscribe_recv: "cancelSubscribe junk pad now t s = Some s' \<Longrightarrow> same_recv s s'"
  by (auto simp: cancelSubscribe_def same_recv_def conne_send_buffer_def conne_send_def Let_def
      split: option.split_asm Option.bind_split_asm)

lemma commit_one_recv: "commit_one junk pad it s = Some s' \<Longrightarrow> same_recv s s'"
  by (auto simp: commit_one_def same_recv_def set_commit_def conne_send_buffer_def conne_send_def Let_def
      split: if_split_asm Option.bind_split_asm)

lemma pull_loop_recv: "pull_loop junk pad its msg buff s = Some s' \<Longrightarrow> same_recv s s'"
proof (induction junk pad its msg buff s rule: pull_loop.induct)
  case (2 junk pad topic conne its msg buff s)
  show ?case
  proof (cases "map_of (m_commit_offset s) topic")
    case None
    with "2.prems" obtain b1 where
      b1: "serializationToBuffer junk pad (msg\<lparr>offset := 0, topicBytes := 0\<rparr>) buff = Some b1"
      and r: "pull_loop junk pad its (msg\<lparr>offset := 0, topicBytes := 0\<rparr>)
        (fst (conne_send_buffer conne b1 s)) (snd (conne_send_buffer conne b1 s)) = Some s'"
      by (auto simp: Let_def split: Option.bind_split_asm prod.split_asm)
    have "same_recv (snd (conne_send_buffer conne b1 s)) s'"
      by (rule "2.IH"(1) [OF None refl b1 refl _ r]) simp
    then show ?thesis by (rule same_recv_trans [OF same_recv_send_buffer])
  next
    case (Some info)
    let ?m = "msg\<lparr>topicBytes := of_nat (length topic), offset := getOffset (t_name conne) info\<rparr>"
    from Some "2.prems" obtain b1 where b1: "serializationToBuffer_topic junk pad ?m topic buff = Some b1"
      and r: "pull_loop junk pad its ?m (fst (conne_send_buffer conne b1 s)) (snd (conne_send_buffer conne b1 s)) = Some s'"
      by (auto simp: Let_def split: Option.bind_split_asm prod.split_asm)
    have "same_recv (snd (conne_send_buffer conne b1 s)) s'"
      by (rule "2.IH"(2) [OF Some refl b1 refl _ r]) simp
    then show ?thesis by (rule same_recv_trans [OF same_recv_send_buffer])
  qed
qed simp

lemma commit_fresh:
  assumes "commit junk pad s = Some s'"
  shows "fresh_step s s' \<and> m_recv_messages s' = [] \<and> pulled s' = pulled s"
proof (cases "m_recv_messages s = []")
  case True
  with assms show ?thesis by (simp add: commit_def)
next
  case False
  with assms obtain t where t: "for_each (commit_one junk pad) (m_recv_messages s) s = Some t"
    "s' = t\<lparr>m_recv_messages := []\<rparr>"
    by (auto simp: commit_def split: Option.bind_split_asm)
  with same_recv_for_each [OF t(1) commit_one_recv] show ?thesis
    by (auto simp: fresh_step_def once_ok_def seen_def same_recv_def received_ids_def)
qed

lemma visit_broker_recv:
  assumes "visit_broker junk pad now topic it s = Some s'"
  shows "same_recv s s'"
proof -
  let ?s1 = "s\<lparr>m_topic := AList.update topic (fst it) (m_topic s)\<rparr>"
  have 1: "same_recv s ?s1" by (simp add: same_recv_def)
  have "same_recv ?s1 s'" if "map_of (snd it) topic \<noteq> None"
    using that assms
    by (auto simp: visit_broker_def Let_def dest: subscribe_one_recv
        intro: same_recv_more [OF more_new_client] split: option.split_asm if_split_asm)
  with 1 same_recv_trans assms show ?thesis
    by (cases "map_of (snd it) topic = None") (auto simp: visit_broker_def)
qed

lemma connectToMqBroker_recv: "connectToMqBroker junk pad now s = Some s' \<Longrightarrow> same_recv s s'"
  unfolding connectToMqBroker_def
  by (erule same_recv_for_each) (erule same_recv_for_each, erule visit_broker_recv)

section \<open>Every step\<close>

lemma same_recv_onMessageFromDir:
  fixes s s' :: consumer
  assumes "onMessageFromDirServer holds_conne (connectToMqBroker junk pad now) buff s = Some (buff', s')"
  shows "same_recv s s'"
proof -
  have upd: "same_recv t t'"
    if "updateMqBrokerClients holds_conne (connectToMqBroker junk pad now) t = Some t'" for t t' :: consumer
  proof -
    have erase: "same_recv t (fold (erase_client held) xs u)" if "same_recv t u" for held xs and u :: consumer
      using same_recv_trans [OF that same_recv_more [OF more_fold [OF more_erase_client]]] .
    have info: "same_recv t (t\<lparr>m_mqserver_info := x\<rparr>)" for x by (simp add: same_recv_def)
    show ?thesis
    proof (cases "m_mqserver_info_tmp t = []")
      case True
      with that have "t' = (fold (erase_client (holds_conne t)) (m_mqserver_clients t) t)
          \<lparr>m_mqserver_info := [], m_updateMqBrokerConfTimer := True\<rparr>"
        by (simp add: updateMqBrokerClients_def)
      with erase [OF same_recv_refl] show ?thesis by (simp add: same_recv_def)
    next
      case False
      with that obtain u where u: "connectToMqBroker junk pad now (fold (erase_client (holds_conne t))
            (filter (\<lambda>e. map_of (m_mqserver_info_tmp t) (fst e) = None) (m_mqserver_clients t))
            (t\<lparr>m_mqserver_info := m_mqserver_info_tmp t\<rparr>)) = Some u"
        and t': "t' = u\<lparr>m_updateMqBrokerConfTimer := True\<rparr>"
        by (auto simp: updateMqBrokerClients_def split: Option.bind_split_asm)
      from same_recv_trans [OF erase [OF info] connectToMqBroker_recv [OF u]] show ?thesis
        by (simp add: t' same_recv_def)
    qed
  qed
  from assms show ?thesis
    by (auto simp: onMessageFromDirServer_def same_recv_def Let_def
        dest!: upd split: Option.bind_split_asm if_split_asm prod.split_asm)
qed

lemma consumer_step_fresh:
  assumes "consumer_step e s = Some s'"
  shows "fresh_step s s'"
proof (cases e)
  case (Subscribe topic)
  with assms show ?thesis by (auto simp: subscribe_def intro: fresh_step_same)
next
  case (Cancel junk pad now topic)
  with assms show ?thesis by (auto intro: same_recv_fresh cancelSubscribe_recv)
next
  case (Commit junk pad)
  with assms commit_fresh show ?thesis by auto
next
  case (Pull_Timer junk pad now)
  with assms show ?thesis by (auto simp: pullInLoop_def intro: same_recv_fresh pull_loop_recv)
next
  case (Seek topic cname off)
  with assms show ?thesis by (auto simp: pull_def set_commit_def intro: fresh_step_same)
next
  case (From_Broker junk pad order now conne buff)
  with assms obtain buff' where m: "onMessageFromMqBroker junk pad order now conne buff s = Some (buff', s')" by auto
  then obtain b hasPull s1 where l: "message_loop junk pad order now conne buff False s = Some (b, hasPull, s1)"
    and "s' = (if hasPull \<and> m_recv_messages s1 \<noteq> [] \<and> cb_pull s1
        then s1\<lparr>pulled := pulled s1 @ [m_recv_messages s1]\<rparr> else s1)"
    by (auto simp: onMessageFromMqBroker_def split: Option.bind_split_asm prod.split_asm)
  then have "fresh_step s1 s'" by (simp add: fresh_step_hand)
  from fresh_step_trans [OF message_loop_fresh [OF l] this] show ?thesis .
next
  case (Up junk pad order now hp c)
  have up: "same_recv s (onConnectionToMqBroker ((client_conne hp (Some c) s)\<lparr>connected := t_id c # connected s\<rparr>))"
    by (rule same_recv_more) (simp add: onConnectionToMqBroker_def more_simps)
  from assms Up show ?thesis
    by (auto simp: newConnection_def onConnectionToBroker_def split: if_split_asm
        intro!: same_recv_fresh same_recv_trans [OF up] dest!: subscribeInLoop_recv)
next
  case (Down c)
  have down: "same_recv s (removeInvaildConnection c (conne_down c s))"
    by (simp add: same_recv_def removeInvaildConnection_def conne_down_def)
  have "same_recv s (conne_down c s)" by (rule same_recv_more) (rule more_simps)
  moreover have "same_recv s (client_conne hp None (removeInvaildConnection c (conne_down c s)))" for hp
    by (rule same_recv_trans [OF down same_recv_more [OF more_client_conne]])
  moreover have "s' = conne_down c s \<or> (\<exists>hp. s' = client_conne hp None (removeInvaildConnection c (conne_down c s)))"
    using assms Down by (auto simp: connection_closed_def Let_def split: option.split_asm prod.split_asm)
  ultimately show ?thesis by (auto intro: same_recv_fresh)
next
  case (From_Dir junk pad now buff)
  with assms show ?thesis by (auto intro: same_recv_fresh same_recv_onMessageFromDir)
next
  case (Dir_Timer pad)
  with assms show ?thesis by (auto intro: same_recv_fresh same_recv_more more_simps)
qed

lemma consumer_run_fresh: "consumer_run es s = Some s' \<Longrightarrow> fresh_step s s'"
proof (induction es arbitrary: s)
  case (Cons e es)
  then obtain t where "consumer_step e s = Some t" "consumer_run es t = Some s'"
    by (auto split: Option.bind_split_asm)
  with Cons.IH consumer_step_fresh show ?case by (blast intro: fresh_step_trans)
qed simp

section \<open>Properties\<close>

text \<open>
  C7: Whatever a consumer receives, in any order and however often: the messages that wait for its commit
  have different ids, and so have those of every call of the pull callback. After a commit, neither
  what waits nor any later call of the callback has a message that waited when it was committed or that
  the callback was ever given before. (Until the commit, each call is given all that waits, again.)
\<close>

theorem consumer_message_once:
  assumes "consumer_run es (Consumer dirs name gid sub_cb cancel_cb pull_cb) = Some s"
    and "commit junk pad s = Some s1" and "consumer_run es' s1 = Some s2"
  shows "distinct (received_ids (m_recv_messages s2)) \<and>
    (\<forall>ms \<in> set (pulled s2). distinct (received_ids ms)) \<and>
    (\<exists>later. pulled s2 = pulled s @ later \<and>
      (\<forall>ms \<in> set (m_recv_messages s2 # later). \<forall>ms' \<in> set (m_recv_messages s # pulled s).
         set (received_ids ms') \<inter> set (received_ids ms) = {}))"
proof -
  let ?s0 = "Consumer dirs name gid sub_cb cancel_cb pull_cb"
  have s0: "once_ok ?s0" "pulled ?s0 = []"
    by (simp_all add: Consumer_def busd_init_def once_ok_def received_ids_def busd.defs)
  note f = consumer_run_fresh [OF assms(1)]
  note c = commit_fresh [OF assms(2)]
  note r = consumer_run_fresh [OF assms(3)]
  have ok: "once_ok s" "once_ok s1" "once_ok s2" using f c r s0(1) by (simp_all add: fresh_step_def)
  obtain later where later: "pulled s2 = pulled s @ later" "\<forall>ms \<in> set later. handed_ok s1 s2 ms"
    using r c by (auto simp: fresh_step_def)
  have before: "\<forall>ms \<in> set (pulled s). distinct (received_ids ms) \<and> set (received_ids ms) \<subseteq> seen s"
    using f s0 by (auto simp: fresh_step_def handed_ok_def)
  have "set (received_ids ms') \<subseteq> seen s1" if "ms' \<in> set (m_recv_messages s # pulled s)" for ms'
    using that before ok(1) c by (auto simp: once_ok_def fresh_step_def)
  moreover have "set (received_ids ms) \<inter> seen s1 = {}" if "ms \<in> set (m_recv_messages s2 # later)" for ms
    using that c r later(2) by (auto simp: fresh_step_def handed_ok_def)
  ultimately have "\<forall>ms \<in> set (m_recv_messages s2 # later). \<forall>ms' \<in> set (m_recv_messages s # pulled s).
      set (received_ids ms') \<inter> set (received_ids ms) = {}" by blast
  moreover have "\<forall>ms \<in> set (pulled s2). distinct (received_ids ms)"
    using before later ok(2) by (auto simp: handed_ok_def)
  moreover have "distinct (received_ids (m_recv_messages s2))" using ok(3) by (simp add: once_ok_def)
  ultimately show ?thesis using later(1) by blast
qed

section \<open>What a commit sends\<close>

lemma commit_one_spec:
  fixes junk pad :: "nat \<Rightarrow> byte"
  assumes "msgs \<noteq> []" and "map_of (m_vaild_topic_conne s) topic = Some conne" and "length topic < 2 ^ 30"
  defines "f \<equiv> frame_image junk pad (commit_packet (m_groupId s) topic msgs) topic"
  shows "commit_one junk pad (topic, msgs) s = Some (set_commit topic
      (setOffset (t_name conne) (mi_offset (last msgs) + 1) (commit_entry topic s)) (conne_send conne f s))"
proof -
  let ?m = "commit_packet (m_groupId s) topic msgs"
  have m: "unat (topicBytes ?m) = length topic" "msgBytes ?m = 0" "offset ?m = mi_offset (last msgs) + 1"
    using assms(3) by (simp_all add: commit_packet_def mqPacket_default_def unat_of_nat take_bit_nat_eq_self)
  then have "MqPacketLength ?m < 2 ^ 31" using assms(3) by (simp add: MqPacketLength_body body_len_def)
  then obtain b where "serializationToBuffer_topic junk pad ?m topic (buffer_new kInitialSize) = Some b"
    "contents b = f"
    using buf_append_spec [OF wf_buffer_new, of f kInitialSize] m
    by (auto simp: serializationToBuffer_topic_def put_frame_def f_def)
  with assms(1,2) m(3) show ?thesis
    by (simp add: commit_one_def snd_conne_send_buffer conne_send_def commit_entry_def)
qed

text \<open>What a broker reads in the packet.\<close>

lemma commit_frame:
  fixes junk pad :: "nat \<Rightarrow> byte" and gid :: u32 and msgs :: "message_info list"
  assumes "length topic < 2 ^ 30"
  defines "f \<equiv> frame_image junk pad (commit_packet gid topic msgs) topic"
  shows "mq_frame f" and "packet_at f = commit_packet gid topic msgs" and "getTopic f = Some topic"
proof -
  let ?m = "commit_packet gid topic msgs"
  have m: "unat (topicBytes ?m) = length topic" "msgBytes ?m = 0" "command ?m = command_code MQ_COMMAND_COMMIT"
    using assms(1) by (simp_all add: commit_packet_def mqPacket_default_def unat_of_nat take_bit_nat_eq_self)
  have body: "length topic \<le> body_len ?m" using m by (simp add: body_len_def)
  have cmd: "sint (command ?m) \<le> sint (command_code MQ_COMMAND_HEARTBEAT)" using m(3) by simp
  show "mq_frame f" "packet_at f = ?m" unfolding f_def using frame_image_is_frame [OF body cmd] by simp_all
  then show "getTopic f = Some topic"
    using frame_image_body [OF body, of junk pad] m by (simp add: getTopic_def layout f_def [symmetric])
qed

section \<open>Witnesses\<close>

definition demo_reply :: "byte \<Rightarrow> bytes" where
  "demo_reply cmd =
     header_bytes (\<lambda>_. 0) (mqPacket_default\<lparr>command := cmd, messageId := 9, consumerGroupId := 0,
         offset := 4, topicBytes := 1, msgBytes := 1\<rparr>)
       @ [116, 7] @ [255, 255, 255, 255] @ replicate 8 0"

definition demo_from :: "byte \<Rightarrow> consumer_event" where
  "demo_from cmd = From_Broker (\<lambda>_. 0) (\<lambda>_. 0) id 5 \<lparr>t_id = 3, t_name = [98]\<rparr>
     \<lparr>m_wpos = 86, m_rpos = 0, m_queue = demo_reply cmd\<rparr>"

text \<open>The broker accepts the subscription, and sends one message twice.\<close>

definition demo_events :: "consumer_event list" where
  "demo_events = [Subscribe [116], demo_from (command_code MQ_COMMAND_SUBSCRIBE),
     demo_from (command_code MQ_COMMAND_PULL), demo_from (command_code MQ_COMMAND_PULL)]"

lemma demo_received:
  "case consumer_run demo_events (Consumer 1 [99] 1 True True True) of
     None \<Rightarrow> False
   | Some s \<Rightarrow> m_recv_messages s = [([116], [\<lparr>mi_id = 9, mi_offset = 4, mi_content = [7]\<rparr>])]
       \<and> pulled s = [m_recv_messages s, m_recv_messages s]
       \<and> map_of (m_vaild_topic_conne s) [116] = Some \<lparr>t_id = 3, t_name = [98]\<rparr>"
  by code_simp

theorem consumer_message_once_witness:
  "\<exists>s s1. consumer_run demo_events (Consumer 1 [99] 1 True True True) = Some s
    \<and> map received_ids (pulled s) = [[9], [9]] \<and> commit (\<lambda>_. 0) (\<lambda>_. 0) s = Some s1
    \<and> consumer_run [] s1 = Some s1 \<and> 9 \<notin> set (received_ids (m_recv_messages s1))"
proof -
  obtain s where s: "consumer_run demo_events (Consumer 1 [99] 1 True True True) = Some s"
    "m_recv_messages s = [([116], [\<lparr>mi_id = 9, mi_offset = 4, mi_content = [7]\<rparr>])]"
    "pulled s = [m_recv_messages s, m_recv_messages s]"
    "map_of (m_vaild_topic_conne s) [116] = Some \<lparr>t_id = 3, t_name = [98]\<rparr>"
    using demo_received by (auto split: option.split_asm)
  have "\<exists>t. commit_one (\<lambda>_. 0) (\<lambda>_. 0) ([116], [\<lparr>mi_id = 9, mi_offset = 4, mi_content = [7]\<rparr>]) s = Some t"
    using commit_one_spec [OF _ s(4)] by simp
  then obtain s1 where s1: "commit (\<lambda>_. 0) (\<lambda>_. 0) s = Some s1" by (auto simp: commit_def s(2))
  have run: "consumer_run [] s1 = Some s1" by simp
  have ids: "received_ids (m_recv_messages s) = [9]" by (simp add: s(2) received_ids_def)
  from consumer_message_once [OF s(1) s1 run]
  have "set (received_ids (m_recv_messages s)) \<inter> set (received_ids (m_recv_messages s1)) = {}" by auto
  then have "9 \<notin> set (received_ids (m_recv_messages s1))" unfolding ids by simp
  with s s1 run ids show ?thesis by auto
qed

end
