(* ===== verification/DirServer.thy ===== *)
theory DirServer
  imports DirProto
begin

text \<open>
  \<^verbatim>\<open>src/example/dirserver/dirserver.h\<close> and \<^verbatim>\<open>dirserver.cc\<close>: the directory of
  brokers. A broker registers its address and topics and repeats that as a heartbeat; clients ask for
  the whole directory.

  A connection is its descriptor number; the time (microseconds) is an argument of the handlers that
  read the clock; \<open>sent\<close> and \<open>closed\<close> collect what is sent on which connection and which
  connections are shut down. Unordered maps are association lists in iteration order.
\<close>

record dirserver =
  m_clients_info :: HostAndTopicsMap
  m_link_info_to_clients :: "(nat \<times> bytes) list"
  m_clients :: "(nat \<times> nat) list"
  m_clients_heartBeat :: "(nat \<times> int) list"
  m_ClientHeartBeatMs :: int
  dsent :: "(nat \<times> bytes) list"
  dclosed :: "nat list"

definition DirServer :: "int \<Rightarrow> dirserver" where
  "DirServer heartBeatMs =
     \<lparr>m_clients_info = [], m_link_info_to_clients = [], m_clients = [], m_clients_heartBeat = [],
      m_ClientHeartBeatMs = heartBeatMs, dsent = [], dclosed = []\<rparr>"

definition dsend :: "nat \<Rightarrow> bytes \<Rightarrow> dirserver \<Rightarrow> dirserver" where
  "dsend conne data s = s\<lparr>dsent := dsent s @ [(conne, data)]\<rparr>"

definition sendAck :: "(nat \<Rightarrow> byte) \<Rightarrow> nat \<Rightarrow> dirserver \<Rightarrow> dirserver" where
  "sendAck pad conne s =
     dsend conne (dir_packet_bytes pad \<lparr>dcommand = dir_code COMMAND_ACK, Msgbytes = 0\<rparr>) s"

definition handleRegister :: "int \<Rightarrow> nat \<Rightarrow> buffer \<Rightarrow> dirserver \<Rightarrow> (buffer \<times> dirserver) option" where
  "handleRegister now conne buff s = do {
     let s1 = s\<lparr>m_clients := AList.update conne conne (m_clients s),
                m_clients_heartBeat := AList.update conne now (m_clients_heartBeat s)\<rparr>;
     (info, buff') \<leftarrow> hostFromBuffer buff ([], []);
     Some (buff', s1\<lparr>m_clients_info := AList.update (fst info) (snd info) (m_clients_info s1),
                     m_link_info_to_clients := AList.update conne (fst info) (m_link_info_to_clients s1)\<rparr>)
   }"

definition handleRequest :: "(nat \<Rightarrow> byte) \<Rightarrow> nat \<Rightarrow> dirserver \<Rightarrow> dirserver option" where
  "handleRequest pad conne s =
     (if m_clients_info s = [] then Some (sendAck pad conne s)
      else if m_clients_heartBeat s \<noteq> [] then do {
        buff \<leftarrow> mapToBuffer pad (m_clients_info s) (buffer_new kInitialSize);
        Some (dsend conne (contents buff) s)
      } else Some s)"

definition handleKeepAlive :: "int \<Rightarrow> nat \<Rightarrow> dirserver \<Rightarrow> dirserver" where
  "handleKeepAlive now conne s =
     (if map_of (m_clients s) conne = None then s\<lparr>dclosed := dclosed s @ [conne]\<rparr>
      else s\<lparr>m_clients_heartBeat := AList.update conne now (m_clients_heartBeat s)\<rparr>)"

text \<open>
  \<^verbatim>\<open>onMessage\<close> handles one packet; what follows it waits for the next event. A packet with an
  unknown command stays in the buffer.
\<close>

definition onMessage :: "(nat \<Rightarrow> byte) \<Rightarrow> int \<Rightarrow> nat \<Rightarrow> buffer \<Rightarrow> dirserver \<Rightarrow> (buffer \<times> dirserver) option" where
  "onMessage pad now conne buff s = do {
     let p = drop (m_rpos buff) (m_queue buff);
     assert_that (sizeof_DirServerPacket \<le> length p);
     let msg = dir_packet_at p;
     if dcommand msg = dir_code COMMAND_KEEPALIVE then do {
       assert_that (Msgbytes msg = 0);
       buff' \<leftarrow> updatePos (sizeof_DirServerPacket + nat (Msgbytes msg)) buff;
       Some (buff', handleKeepAlive now conne s)
     } else if dcommand msg = dir_code COMMAND_REGISTER then handleRegister now conne buff s
     else if dcommand msg = dir_code COMMAND_REQUEST then do {
       assert_that (Msgbytes msg = 0);
       s' \<leftarrow> handleRequest pad conne s;
       buff' \<leftarrow> updatePos (sizeof_DirServerPacket + nat (Msgbytes msg)) buff;
       Some (buff', s')
     } else Some (buff, s)
   }"

text \<open>The close callback of the server.\<close>

definition onClose :: "nat \<Rightarrow> dirserver \<Rightarrow> dirserver" where
  "onClose conne s =
     (case map_of (m_link_info_to_clients s) conne of
        None \<Rightarrow> s
      | Some host \<Rightarrow>
          s\<lparr>m_clients_info := AList.delete host (m_clients_info s),
            m_link_info_to_clients := AList.delete conne (m_link_info_to_clients s),
            m_clients := AList.delete conne (m_clients s),
            m_clients_heartBeat := AList.delete conne (m_clients_heartBeat s)\<rparr>)"

text \<open>
  The heartbeat timer. For a client that timed out the code erases its entry of
  \<^verbatim>\<open>m_clients\<close> and then uses the reference it holds into that entry, which is undefined
  behaviour: \<open>None\<close>.
\<close>

definition timed_out :: "int \<Rightarrow> dirserver \<Rightarrow> nat \<times> int \<Rightarrow> bool" where
  "timed_out now s it \<longleftrightarrow> now - snd it > m_ClientHeartBeatMs s * 1000"

fun listen_loop :: "int \<Rightarrow> (nat \<times> int) list \<Rightarrow> dirserver \<Rightarrow> dirserver option" where
  "listen_loop now [] s = Some s"
| "listen_loop now (it # its) s =
     (if timed_out now s it then do {
        assert_that (map_of (m_clients s) (fst it) \<noteq> None);
        None
      } else listen_loop now its s)"

definition listenClientWithMs :: "int \<Rightarrow> dirserver \<Rightarrow> dirserver option" where
  "listenClientWithMs now s = do {
     assert_that (length (m_clients s) = length (m_clients_heartBeat s));
     listen_loop now (m_clients_heartBeat s) s
   }"

section \<open>The registry\<close>

datatype dir_event =
    Message "nat \<Rightarrow> byte" int nat buffer
  | Close nat
  | Listen int

fun dir_step :: "dir_event \<Rightarrow> dirserver \<Rightarrow> dirserver option" where
  "dir_step (Message pad now conne buff) s = map_option snd (onMessage pad now conne buff s)"
| "dir_step (Close conne) s = Some (onClose conne s)"
| "dir_step (Listen now) s = listenClientWithMs now s"

text \<open>The three tables by connection describe the same connections, each once.\<close>

definition dir_inv :: "dirserver \<Rightarrow> bool" where
  "dir_inv s \<longleftrightarrow>
     distinct (map fst (m_clients s)) \<and> distinct (map fst (m_clients_heartBeat s)) \<and>
     dom (map_of (m_clients s)) = dom (map_of (m_clients_heartBeat s)) \<and>
     dom (map_of (m_link_info_to_clients s)) = dom (map_of (m_clients s)) \<and>
     (\<forall>x \<in> set (m_clients s). snd x = fst x)"

lemma dir_inv_onMessage:
  assumes "onMessage pad now conne buff s = Some (buff', s')" and "dir_inv s"
  shows "dir_inv s'"
proof -
  have reg: "dir_inv s'" if r: "handleRegister now conne buff s = Some (buff', s')"
  proof -
    have "\<forall>x \<in> set (AList.update conne conne (m_clients s)). snd x = fst x"
      using assms(2) set_alist_update [of conne conne "m_clients s"] by (auto simp: dir_inv_def)
    moreover from r obtain info where "s' = s\<lparr>m_clients := AList.update conne conne (m_clients s),
        m_clients_heartBeat := AList.update conne now (m_clients_heartBeat s),
        m_clients_info := AList.update (fst info) (snd info) (m_clients_info s),
        m_link_info_to_clients := AList.update conne (fst info) (m_link_info_to_clients s)\<rparr>"
      by (auto simp: handleRegister_def Let_def split: Option.bind_split_asm)
    ultimately show ?thesis
      using assms(2) by (simp add: dir_inv_def AList.distinct_update)
  qed
  have req: "dir_inv s1" if r: "handleRequest pad conne s = Some s1" for s1
  proof -
    have "\<exists>out. s1 = s\<lparr>dsent := out\<rparr>"
    proof (cases "s1 = s")
      case True
      then have "s1 = s\<lparr>dsent := dsent s\<rparr>" by simp
      then show ?thesis ..
    next
      case False
      with r show ?thesis
        by (auto simp: handleRequest_def sendAck_def dsend_def split: Option.bind_split_asm if_splits)
    qed
    with assms(2) show ?thesis by (elim exE) (simp add: dir_inv_def)
  qed
  have keep: "dir_inv (handleKeepAlive now conne s)"
  proof (cases "conne \<in> dom (map_of (m_clients s))")
    case True
    then have "insert conne (dom (map_of (m_clients_heartBeat s))) = dom (map_of (m_clients s))"
      using assms(2) by (simp add: dir_inv_def insert_absorb)
    moreover have "map_of (m_clients s) conne \<noteq> None" using True by (simp only: domIff not_False_eq_True)
    then have "handleKeepAlive now conne s =
        s\<lparr>m_clients_heartBeat := AList.update conne now (m_clients_heartBeat s)\<rparr>"
      unfolding handleKeepAlive_def by (simp only: if_False simp_thms)
    ultimately show ?thesis
      using assms(2) by (simp add: dir_inv_def AList.distinct_update)
  next
    case False
    then have "map_of (m_clients s) conne = None" by (simp only: domIff not_not)
    then have "handleKeepAlive now conne s = s\<lparr>dclosed := dclosed s @ [conne]\<rparr>"
      unfolding handleKeepAlive_def by (simp only: if_True simp_thms)
    with assms(2) show ?thesis by (simp add: dir_inv_def)
  qed
  show ?thesis
    using assms reg req keep
    by (auto simp: onMessage_def Let_def split: Option.bind_split_asm if_splits)
qed

lemma dir_inv_onClose: "dir_inv s \<Longrightarrow> dir_inv (onClose conne s)"
proof -
  assume inv: "dir_inv s"
  then have "\<forall>x \<in> set (AList.delete conne (m_clients s)). snd x = fst x"
    using set_alist_delete [of conne "m_clients s"] by (auto simp: dir_inv_def)
  with inv show ?thesis
    by (simp add: onClose_def dir_inv_def AList.distinct_delete split: option.split)
qed

lemma listen_loop_same: "listen_loop now its s = Some s' \<Longrightarrow> s' = s"
  by (induction now its s rule: listen_loop.induct) (auto split: if_splits)

lemma dir_inv_step: "dir_step e s = Some s' \<Longrightarrow> dir_inv s \<Longrightarrow> dir_inv s'"
  by (cases e) (auto simp: listenClientWithMs_def dir_inv_onClose
      dest: dir_inv_onMessage listen_loop_same)

lemma dir_inv_tables: "dir_inv s \<Longrightarrow> length (m_clients s) = length (m_clients_heartBeat s)"
  unfolding dir_inv_def dom_map_of_conv_image_fst
  by (metis distinct_card length_map list.set_map)

lemma listen_loop_alive:
  "\<forall>it \<in> set its. \<not> timed_out now s it \<Longrightarrow> listen_loop now its s = Some s"
  by (induction its) simp_all

lemma listen_loop_dead: "\<exists>it \<in> set its. timed_out now s it \<Longrightarrow> listen_loop now its s = None"
  by (induction its) auto

section \<open>Properties\<close>

fun dir_run :: "dir_event list \<Rightarrow> dirserver \<Rightarrow> dirserver option" where
  "dir_run [] s = Some s"
| "dir_run (e # es) s = (dir_step e s \<bind> dir_run es)"

lemma dir_run_inv: "dir_run es s = Some s' \<Longrightarrow> dir_inv s \<Longrightarrow> dir_inv s'"
  by (induction es arbitrary: s) (auto dest: dir_inv_step split: Option.bind_split_asm)

text \<open>
  After any events, the heartbeat timer never fails its assertions; it goes through exactly when no
  client is late, and otherwise uses an entry it has just erased.
\<close>

lemma heartbeat_check:
  assumes "dir_run es (DirServer ms) = Some s"
  shows "listenClientWithMs now s =
    (if \<exists>it \<in> set (m_clients_heartBeat s). timed_out now s it then None else Some s)"
proof -
  have "dir_inv (DirServer ms)" by (simp add: dir_inv_def DirServer_def)
  with assms have "dir_inv s" by (rule dir_run_inv)
  then show ?thesis
    by (simp add: listenClientWithMs_def dir_inv_tables listen_loop_alive listen_loop_dead)
qed

text \<open>A packet as a broker sends it: the length field is exact.\<close>

definition register_packet :: "(nat \<Rightarrow> byte) \<Rightarrow> bytes \<Rightarrow> topic_counts \<Rightarrow> bytes" where
  "register_packet pad host ts =
     (let text = host @ crlf @ concat (map topic_text ts)
      in dir_packet_bytes pad \<lparr>dcommand = dir_code COMMAND_REGISTER, Msgbytes = int (length text)\<rparr> @ text)"

text \<open>
  What a broker registers is what a client reads: after the registration of one broker, the reply
  to a request parses to that broker's address and topic counts.
\<close>

lemma directory_roundtrip:
  assumes "wf_buffer b" and "contents b = register_packet pad host ts" and "host \<noteq> []" and "13 \<notin> set host"
    and "\<forall>i \<in> set ts. topic_ok i" and "distinct (map fst ts)"
    and "length host + 2 + topics_length ts < 2 ^ 31"
    and "wf_buffer r" and "contents r = getRegisteConf pad"
  shows "\<exists>b' s r' s' reply. onMessage pad now broker b (DirServer ms) = Some (b', s)
    \<and> onMessage pad now client r s = Some (r', s') \<and> dsent s' = [(client, reply)]
    \<and> (\<forall>q. wf_buffer q \<longrightarrow> contents q = reply \<longrightarrow> (\<exists>q'. mapFromBuffer q [] = Some ([(host, ts)], q')))"
proof -
  let ?text = "host @ crlf @ concat (map topic_text ts)"
  let ?m = "\<lparr>dcommand = dir_code COMMAND_REGISTER, Msgbytes = int (length ?text)\<rparr>"
  let ?q = "\<lparr>dcommand = dir_code COMMAND_REQUEST, Msgbytes = 0\<rparr>"
  have small: "length ?text < 2 ^ 31" using assms(7) by (simp add: topics_length_text crlf_def)
  obtain rest where rest: "drop (m_rpos b) (m_queue b) = dir_packet_bytes pad ?m @ ?text @ rest"
    using pointer_contents [OF assms(1)] assms(2) by (auto simp: register_packet_def Let_def)
  obtain rest' where rest': "drop (m_rpos r) (m_queue r) = dir_packet_bytes pad ?q @ rest'"
    using pointer_contents [OF assms(8)] assms(9) by (auto simp: getRegisteConf_def)
  have at: "dir_packet_at (drop (m_rpos b) (m_queue b)) = ?m"
    unfolding rest by (rule dir_packet_roundtrip) (use small in simp_all)
  have at': "dir_packet_at (drop (m_rpos r) (m_queue r)) = ?q"
    unfolding rest' by (rule dir_packet_roundtrip) simp_all
  have c: "contents b = dir_packet_bytes pad ?m @ host @ crlf @ concat (map topic_text ts)"
    using assms(2) by (simp add: register_packet_def Let_def)
  obtain b' where b': "hostFromBuffer b ([], []) = Some ((host, ts), b')"
    using hostFromBuffer_packet [OF assms(1) c assms(3-6)] small by (auto simp: crlf_def)
  let ?s = "\<lparr>m_clients_info = [(host, ts)], m_link_info_to_clients = [(broker, host)],
    m_clients = [(broker, broker)], m_clients_heartBeat = [(broker, now)], m_ClientHeartBeatMs = ms,
    dsent = [], dclosed = []\<rparr>"
  have len: "8 \<le> length (drop (m_rpos b) (m_queue b))" "8 \<le> length (drop (m_rpos r) (m_queue r))"
    unfolding rest rest' by simp_all
  have 1: "onMessage pad now broker b (DirServer ms) = Some (b', ?s)"
    using at len(1) b' by (simp add: onMessage_def handleRegister_def DirServer_def sizeof_DirServerPacket_def Let_def)
  obtain out where out: "mapToBuffer pad [(host, ts)] (buffer_new kInitialSize) = Some out"
    "contents out = host_packet (host, ts)"
    using mapToBuffer_contents [OF wf_buffer_new, of pad "[(host, ts)]" kInitialSize] by auto
  have "8 \<le> readableBytes r" using length_contents [OF assms(8)] assms(9) by (simp add: getRegisteConf_def)
  then obtain r' where r': "updatePos 8 r = Some r'" using updatePos_spec [OF assms(8), of 8] by auto
  have 2: "onMessage pad now client r ?s = Some (r', dsend client (host_packet (host, ts)) ?s)"
    using at' len(2) out r' by (simp add: onMessage_def handleRequest_def sizeof_DirServerPacket_def Let_def)
  have "dsent (dsend client (host_packet (host, ts)) ?s) = [(client, host_packet (host, ts))]"
    by (simp add: dsend_def)
  then show ?thesis
    using 1 2 mapFromBuffer_one [OF _ _ assms(3-7)] by blast
qed

section \<open>Witnesses and a demonstration\<close>

definition demo_host :: bytes where "demo_host = [104, 58, 49]"

definition demo_register :: buffer where
  "demo_register =
     (let f = register_packet (\<lambda>_. 0) demo_host [([97], 3), ([98], -4)]
      in \<lparr>m_wpos = length f, m_rpos = 0, m_queue = f\<rparr>)"

definition demo_request :: buffer where
  "demo_request = \<lparr>m_wpos = 8, m_rpos = 0, m_queue = getRegisteConf (\<lambda>_. 0)\<rparr>"

definition demo_brokers :: HostAndTopicsMap where
  "demo_brokers = [(demo_host, map (\<lambda>i. ([97 + i], 1)) [0, 1, 2, 3, 4, 5]), ([104, 58, 50], [])]"

definition received :: "bytes \<Rightarrow> buffer" where
  "received data = \<lparr>m_wpos = length data, m_rpos = 0, m_queue = data\<rparr>"

lemma demo_reply_parsed:
  "map_option (\<lambda>(m, b). map fst m) (mapFromBuffer (received (concat (map host_packet demo_brokers))) [])
     = Some [demo_host]"
  by code_simp

text \<open>
  The length field of a reply counts two bytes too many per topic, so that a client takes the
  packet that follows for one more topic: of two brokers, the first with six topics, it sees one.
\<close>

lemma reply_swallows_broker:
  "\<exists>out m b. mapToBuffer (\<lambda>_. 0) demo_brokers (buffer_new kInitialSize) = Some out
    \<and> mapFromBuffer (received (contents out)) [] = Some (m, b)
    \<and> map fst demo_brokers = [demo_host, [104, 58, 50]] \<and> map fst m = [demo_host]"
proof -
  obtain out where "mapToBuffer (\<lambda>_. 0) demo_brokers (buffer_new kInitialSize) = Some out"
    "contents out = concat (map host_packet demo_brokers)"
    using mapToBuffer_contents [OF wf_buffer_new, of "\<lambda>_. 0" demo_brokers kInitialSize] by auto
  with demo_reply_parsed show ?thesis by (auto simp: demo_brokers_def)
qed

end
