(* ===== verification/Partition.thy ===== *)
theory Partition
  imports MqProto Text OrdMap
begin

text \<open>
  \<^verbatim>\<open>src/example/mqbroker/partition.h\<close> and \<^verbatim>\<open>partition.cc\<close>: the log of one topic
  on a broker. Messages are numbered from 0 and stored as frames in files of \<open>k\<close> bytes, each named
  after the number of its first message; a sparse index per file maps numbers to positions.

  The directory of the partition is the list of its files, name and content, in the order
  \<^verbatim>\<open>readdir\<close> gives them. The last log file is mapped shared, so a store through
  \<^verbatim>\<open>m_lastLogMmap\<close> is a store into the file; a load or store outside the \<open>k\<close> bytes of a
  mapping is \<open>None\<close>, as a failed \<^verbatim>\<open>assert\<close> is. Message numbers, positions and sizes are
  \<^verbatim>\<open>uint64_t\<close> and \<open>nat\<close> here: the counters start at 0, go up by one per message, and no
  position passes \<open>k\<close>. \<^verbatim>\<open>kMsgblockMaxSize\<close> and \<^verbatim>\<open>kIndexMinInterval\<close> are
  non-negative. What a function sends to the connection is the list of the byte strings passed to
  \<^verbatim>\<open>conne->send\<close>.
\<close>

section \<open>Files\<close>

type_synonym dir = "(bytes \<times> bytes) list"

definition log_suffix :: bytes where "log_suffix = [46, 108, 111, 103]"

definition index_suffix :: bytes where "index_suffix = [46, 105, 110, 100, 101, 120]"

definition log_name :: "nat \<Rightarrow> bytes" where "log_name n = to_string n @ log_suffix"

definition index_name :: "nat \<Rightarrow> bytes" where "index_name n = to_string n @ index_suffix"

text \<open>\<^verbatim>\<open>open\<close> with \<^verbatim>\<open>O_CREAT\<close>, \<^verbatim>\<open>ftruncate\<close>, an appending \<^verbatim>\<open>write\<close>.\<close>

definition open_creat :: "bytes \<Rightarrow> dir \<Rightarrow> dir" where
  "open_creat path d = (if map_of d path = None then d @ [(path, [])] else d)"

definition file_truncate :: "bytes \<Rightarrow> nat \<Rightarrow> dir \<Rightarrow> dir" where
  "file_truncate path n d =
     (let c = the (map_of d path) in AList.update path (take n c @ replicate (n - length c) 0) d)"

definition file_append :: "bytes \<Rightarrow> bytes \<Rightarrow> dir \<Rightarrow> dir" where
  "file_append path data d = AList.update path (the (map_of d path) @ data) d"

text \<open>\<^verbatim>\<open>FSUtil::ListAllFile\<close> on a directory without subdirectories.\<close>

definition ListAllFile :: "dir \<Rightarrow> bytes \<Rightarrow> bytes list" where
  "ListAllFile d suffix =
     filter (\<lambda>name. length suffix \<le> length name \<and> drop (length name - length suffix) name = suffix)
       (map fst d)"

section \<open>State\<close>

type_synonym OffsetAndPosition = "(nat, nat) ord_map"

record partition =
  p_dir :: dir
  m_lastIndexFile :: "bytes option"
  m_lastLogFile :: "bytes option"
  m_lastLogFileLength :: nat
  m_index_buffer :: buffer
  m_indexs :: "(nat, OffsetAndPosition) ord_map"
  m_lastOffsetIndexInFile :: nat
  m_size :: nat
  m_topic :: bytes
  m_isDirty :: bool
  ksingleFileMaxSize :: nat
  kMsgblockMaxSize :: nat
  kIndexMinInterval :: nat

definition getSize :: "partition \<Rightarrow> nat" where
  "getSize s = m_size s"

text \<open>\<^verbatim>\<open>m_indexs.rbegin()\<close>\<close>

definition last_file :: "partition \<Rightarrow> (nat \<times> OffsetAndPosition) option" where
  "last_file s = (if m_indexs s = [] then None else Some (last (m_indexs s)))"

definition getBackIndexInLastFile :: "partition \<Rightarrow> nat option" where
  "getBackIndexInLastFile s = do {
     (n, index) \<leftarrow> last_file s;
     Some (if index = [] then 0 else fst (last index))
   }"

definition log_content :: "partition \<Rightarrow> bytes option" where
  "log_content s = do { path \<leftarrow> m_lastLogFile s; map_of (p_dir s) path }"

section \<open>Writing\<close>

definition syncTodisk :: "partition \<Rightarrow> partition option" where
  "syncTodisk s =
     (if m_isDirty s then do {
        assert_that (m_lastLogFile s \<noteq> None);
        path \<leftarrow> m_lastIndexFile s;
        Some (s\<lparr>p_dir := file_append path (contents (m_index_buffer s)) (p_dir s),
                m_index_buffer := resetAll (m_index_buffer s),
                m_isDirty := False\<rparr>)
      } else Some s)"

definition mmapNewLog :: "partition \<Rightarrow> partition option" where
  "mmapNewLog s = do {
     s1 \<leftarrow> syncTodisk s;
     let index = index_name (m_size s1);
     let log = log_name (m_size s1);
     let d = open_creat log (open_creat index (p_dir s1));
     Some (s1\<lparr>p_dir := file_truncate log (ksingleFileMaxSize s1) d,
              m_lastIndexFile := Some index,
              m_indexs := om_insert (m_size s1) [] (m_indexs s1),
              m_lastLogFile := Some log,
              m_lastLogFileLength := 0,
              m_lastOffsetIndexInFile := 0\<rparr>)
   }"

text \<open>The in-place stores \<^verbatim>\<open>m->command = MQ_COMMAND_PULL; m->offset = m_size;\<close>\<close>

definition stamp :: "nat \<Rightarrow> bytes \<Rightarrow> bytes" where
  "stamp n f =
     splice_at 56 (le_bytes 8 (unat (of_nat n :: u64)))
       (splice_at 0 [command_code MQ_COMMAND_PULL] f)"

text \<open>One entry of the sparse index, and the line that will be written for it.\<close>

definition index_entry :: "nat \<Rightarrow> nat \<Rightarrow> nat \<Rightarrow> partition \<Rightarrow> (bytes \<times> partition) option" where
  "index_entry len position i s = do {
     (n, index) \<leftarrow> last_file s;
     let in_file_offset = m_size s - n;
     if len > kMsgblockMaxSize s \<or> in_file_offset > m_lastOffsetIndexInFile s + kIndexMinInterval s
        \<or> in_file_offset = 0
     then Some (to_string in_file_offset @ [44] @ to_string i @ [10],
                s\<lparr>m_lastOffsetIndexInFile := in_file_offset,
                  m_indexs := butlast (m_indexs s) @ [(n, om_insert in_file_offset position index)]\<rparr>)
     else Some ([], s)
   }"

text \<open>
  The loop over the packets in the buffer; \<open>src\<close> is the memory from the pointer on. The early
  return is the left summand; otherwise the packets as they are now in the buffer, and the index
  lines.
\<close>

function add_loop :: "nat \<Rightarrow> nat \<Rightarrow> nat \<Rightarrow> bytes \<Rightarrow> partition \<Rightarrow>
    (partition + (bytes \<times> bytes \<times> partition)) option" where
  "add_loop position readable i src s =
     (if i - position < readable then do {
        assert_that (offsetof_body \<le> length src);
        let len = MqPacketLength (packet_at src);
        if readable \<noteq> len \<or> \<not> checkMqPacketEnd src then Some (Inl s)
        else do {
          let src' = stamp (m_size s) src;
          let s1 = s\<lparr>m_size := m_size s + 1\<rparr>;
          assert_that (checkMqPacketEnd src');
          (line, s2) \<leftarrow> index_entry len position (i + len) s1;
          r \<leftarrow> add_loop position readable (i + len) (drop len src') s2;
          (case r of
             Inl s3 \<Rightarrow> Some (Inl s3)
           | Inr (data, writIndex, s3) \<Rightarrow> Some (Inr (take len src' @ data, line @ writIndex, s3)))
        }
      } else Some (Inr ([], [], s)))"
  by pat_completeness auto
termination
  by (relation "measure (\<lambda>(position, readable, i, src, s). position + readable - i)")
    (auto simp: MqPacketLength_def sizeof_MqPacketEnd_def)

declare add_loop.simps [simp del]

definition addToLog :: "buffer \<Rightarrow> partition \<Rightarrow> (buffer \<times> partition) option" where
  "addToLog msg s = do {
     assert_that (m_lastLogFile s \<noteq> None);
     assert_that (m_lastIndexFile s \<noteq> None);
     s1 \<leftarrow> (if ksingleFileMaxSize s - m_lastLogFileLength s < readableBytes msg then mmapNewLog s
           else Some s);
     let position = m_lastLogFileLength s1;
     r \<leftarrow> add_loop position (readableBytes msg) position (drop (m_rpos msg) (m_queue msg)) s1;
     (case r of
        Inl s2 \<Rightarrow> Some (msg, s2)
      | Inr (data, writIndex, s2) \<Rightarrow> do {
          path \<leftarrow> m_lastLogFile s2;
          content \<leftarrow> map_of (p_dir s2) path;
          assert_that (m_lastLogFileLength s2 + length data \<le> length content);
          let s3 = s2\<lparr>p_dir := AList.update path (splice_at (m_lastLogFileLength s2) data content) (p_dir s2),
                      m_lastLogFileLength := m_lastLogFileLength s2 + readableBytes msg\<rparr>;
          buffer \<leftarrow> (if writIndex \<noteq> [] then buf_append writIndex (m_index_buffer s3)
                    else Some (m_index_buffer s3));
          assert_that (m_size s3 \<ge> m_lastOffsetIndexInFile s3);
          Some (resetAll msg, s3\<lparr>m_index_buffer := buffer, m_isDirty := True\<rparr>)
        })
   }"

section \<open>Reading\<close>

text \<open>The file that holds a message, and the entry of its index to start from.\<close>

definition choose_file :: "nat \<Rightarrow> ('v :: type) list \<Rightarrow> ('v \<Rightarrow> nat) \<Rightarrow> 'v option" where
  "choose_file off m key =
     (let earlier = takeWhile (\<lambda>e. key e < off) m; after = dropWhile (\<lambda>e. key e < off) m
      in case after of
           [] \<Rightarrow> if earlier = [] then None else Some (last earlier)
         | it # _ \<Rightarrow> if key it \<noteq> off \<and> earlier \<noteq> [] \<and> key it > off then Some (last earlier) else Some it)"

definition choose_line :: "nat \<Rightarrow> OffsetAndPosition \<Rightarrow> nat \<times> nat" where
  "choose_line indexInFile m =
     (let earlier = takeWhile (\<lambda>e. fst e < indexInFile) m; after = dropWhile (\<lambda>e. fst e < indexInFile) m
      in case after of
           [] \<Rightarrow> (0, 0)
         | l # _ \<Rightarrow>
             (let line = (if fst l \<noteq> indexInFile \<and> earlier \<noteq> [] then last earlier else l)
              in if fst line \<le> indexInFile then line else (0, 0)))"

text \<open>From there, message by message; \<open>k\<close> is \<^verbatim>\<open>ksingleFileMaxSize\<close>.\<close>

fun walk :: "nat \<Rightarrow> bytes \<Rightarrow> nat \<Rightarrow> nat \<Rightarrow> nat option" where
  "walk k buff 0 position = Some position"
| "walk k buff (Suc n) position = do {
     assert_that (position + offsetof_body \<le> length buff);
     let len = MqPacketLength (packet_at (drop position buff));
     assert_that (position + len < k);
     walk k buff n (position + len)
   }"

text \<open>The messages that fit into \<^verbatim>\<open>maxEnableBytes\<close>: how many were looked at, and where they end.\<close>

function scan :: "nat \<Rightarrow> bytes \<Rightarrow> nat \<Rightarrow> nat \<Rightarrow> nat \<Rightarrow> nat \<Rightarrow> nat \<Rightarrow> nat \<Rightarrow> (nat \<times> nat) option" where
  "scan k buff position maxEnable i count eofPosition lastOffset =
     (if i \<le> maxEnable then do {
        let tmp = drop (position + i) buff;
        assert_that (tmp \<noteq> []);
        if hd tmp \<noteq> command_code MQ_COMMAND_PULL then Some (count, eofPosition)
        else do {
          assert_that (offsetof_body \<le> length tmp);
          let msg = packet_at tmp;
          let len = MqPacketLength msg;
          assert_that (len \<le> maxEnable - i \<longrightarrow> offsetof_body + body_len msg < length tmp);
          if len \<le> maxEnable - i \<and> \<not> checkMqPacketEnd tmp then Some (count, eofPosition)
          else do {
            assert_that (lastOffset = 0 \<or> lastOffset + 1 = unat (offset msg));
            let i' = i + len;
            if i' \<ge> k - position then Some (count + 1, eofPosition)
            else scan k buff position maxEnable i' (count + 1)
                   (if i' \<le> maxEnable then eofPosition + len else eofPosition) (unat (offset msg))
          }
        }
      } else Some (count, eofPosition))"
  by pat_completeness auto
termination
  by (relation "measure (\<lambda>(k, buff, position, maxEnable, i, _). Suc maxEnable - i)")
    (auto simp: MqPacketLength_def sizeof_MqPacketEnd_def)

declare scan.simps [simp del]

definition max_enable :: "mqPacket \<Rightarrow> partition \<Rightarrow> nat" where
  "max_enable info s =
     (if sint (maxEnableBytes info) \<ge> 0 then unat (maxEnableBytes info) else ksingleFileMaxSize s)"

text \<open>
  The reply that there is nothing yet; \<open>junk\<close> and \<open>pad\<close> are the bytes of the frame that nothing
  writes.
\<close>

definition offset_too_large :: "(nat \<Rightarrow> byte) \<Rightarrow> (nat \<Rightarrow> byte) \<Rightarrow> mqPacket \<Rightarrow> partition \<Rightarrow>
    (nat \<times> bytes list \<times> mqPacket) option" where
  "offset_too_large junk pad info s = do {
     let msg = info\<lparr>retCode := err_code OFFSET_TOO_LARGET, topicBytes := of_nat (length (m_topic s))\<rparr>;
     buff \<leftarrow> serializationToBuffer_topic junk pad msg (m_topic s) (buffer_new kInitialSize);
     Some (0, [contents buff], msg)
   }"

text \<open>
  The result is the number returned, what was sent, and the request, which the code changes in
  place.
\<close>

definition sendToConsumer :: "(nat \<Rightarrow> byte) \<Rightarrow> (nat \<Rightarrow> byte) \<Rightarrow> mqPacket \<Rightarrow> partition \<Rightarrow>
    (nat \<times> bytes list \<times> mqPacket) option" where
  "sendToConsumer junk pad info s = do {
     assert_that (command info = command_code MQ_COMMAND_PULL);
     let off = unat (offset info);
     if m_size s \<le> off then offset_too_large junk pad info s
     else do {
       (n, index) \<leftarrow> choose_file off (m_indexs s) fst;
       (last_n, last_index) \<leftarrow> last_file s;
       path \<leftarrow> (if n = last_n then m_lastLogFile s else Some (log_name n));
       (case map_of (p_dir s) path of
          None \<Rightarrow> Some (0, [], info)
        | Some buff \<Rightarrow> do {
            assert_that (n \<le> off);
            let (start, position0) = choose_line (off - n) index;
            position \<leftarrow> walk (ksingleFileMaxSize s) buff (off - n - start) position0;
            (count, eofPosition) \<leftarrow>
              scan (ksingleFileMaxSize s) buff position (max_enable info s) 0 0 position 0;
            assert_that (eofPosition > position);
            Some (count, [span position eofPosition buff], info)
          })
     }
   }"

section \<open>Starting\<close>

text \<open>\<^verbatim>\<open>int n1 = std::stol(...)\<close> of the comparison functions; the names are sorted by it.\<close>

fun named_numbers :: "bytes list \<Rightarrow> (int \<times> bytes) list option" where
  "named_numbers [] = Some []"
| "named_numbers (name # names) = do {
     n \<leftarrow> stol name;
     rest \<leftarrow> named_numbers names;
     Some ((n, name) # rest)
   }"

definition sort_names :: "bytes list \<Rightarrow> (int \<times> bytes) list option" where
  "sort_names names = map_option (sort_key (\<lambda>(n, name). signed_take_bit 31 n)) (named_numbers names)"

text \<open>One line of an index file: a missing comma makes \<^verbatim>\<open>find\<close> answer -1.\<close>

definition parse_line :: "bytes \<Rightarrow> (nat \<times> nat) option" where
  "parse_line line = do {
     off \<leftarrow> stol line;
     pos \<leftarrow> stol (case find_byte 44 line of Some i \<Rightarrow> drop (i + 1) line | None \<Rightarrow> line);
     Some (unat (of_int off :: u64), unat (of_int pos :: u64))
   }"

fun load_lines :: "bytes list \<Rightarrow> OffsetAndPosition \<Rightarrow> OffsetAndPosition option" where
  "load_lines [] content = Some content"
| "load_lines (line # lines) content = do {
     (off, pos) \<leftarrow> parse_line line;
     load_lines lines (om_put off pos content)
   }"

fun load_files :: "dir \<Rightarrow> (int \<times> bytes) list \<Rightarrow> (nat, OffsetAndPosition) ord_map \<Rightarrow>
    (nat, OffsetAndPosition) ord_map option" where
  "load_files d [] m = Some m"
| "load_files d ((n, name) # files) m = do {
     content \<leftarrow> load_lines (split_at 10 (the (map_of d name))) [];
     load_files d files (om_put (unat (of_int n :: u64)) content m)
   }"

definition loadIndex :: "partition \<Rightarrow> partition option" where
  "loadIndex s =
     (let vec_index = ListAllFile (p_dir s) index_suffix in
      if vec_index = [] then Some s
      else do {
        vec_index \<leftarrow> sort_names vec_index;
        let vec_log = ListAllFile (p_dir s) log_suffix;
        assert_that (vec_log \<noteq> []);
        vec_log \<leftarrow> sort_names vec_log;
        indexs \<leftarrow> load_files (p_dir s) vec_index (m_indexs s);
        let s1 = s\<lparr>m_lastIndexFile := Some (snd (last vec_index)),
                   m_lastLogFile := Some (snd (last vec_log)),
                   m_indexs := indexs\<rparr>;
        back \<leftarrow> getBackIndexInLastFile s1;
        Some (s1\<lparr>m_lastOffsetIndexInFile := back\<rparr>)
      })"

text \<open>The packets at the start of a mapped log, until one has no end mark.\<close>

function count_msgs :: "nat \<Rightarrow> bytes \<Rightarrow> nat \<Rightarrow> nat \<Rightarrow> (nat \<times> nat) option" where
  "count_msgs k buff msg sequence = do {
     assert_that (msg + offsetof_body \<le> length buff);
     let m = drop msg buff;
     assert_that (offsetof_body + body_len (packet_at m) < length m);
     if checkMqPacketEnd m \<and> msg < k
     then count_msgs k buff (msg + MqPacketLength (packet_at m)) (sequence + 1)
     else Some (msg, sequence)
   }"
  by pat_completeness auto
termination
  by (relation "measure (\<lambda>(k, buff, msg, sequence). k - msg)")
    (auto simp: MqPacketLength_def sizeof_MqPacketEnd_def)

declare count_msgs.simps [simp del]

definition findLastSequenceMsg :: "partition \<Rightarrow> partition option" where
  "findLastSequenceMsg s =
     (case m_lastLogFile s of
        None \<Rightarrow> Some s
      | Some path \<Rightarrow> do {
          buff \<leftarrow> map_of (p_dir s) path;
          (len, sequence) \<leftarrow> count_msgs (ksingleFileMaxSize s) buff 0 0;
          (n, index) \<leftarrow> last_file s;
          Some (s\<lparr>m_lastLogFileLength := m_lastLogFileLength s + len, m_size := sequence + n\<rparr>)
        })"

text \<open>The constructor; the directory is \<open>None\<close> when it does not exist yet.\<close>

definition partition_init :: "bytes \<Rightarrow> nat \<Rightarrow> nat \<Rightarrow> nat \<Rightarrow> dir \<Rightarrow> partition" where
  "partition_init topic singleFileMaxSize msgblockMaxSize indexMinInterval d =
     \<lparr>p_dir = d, m_lastIndexFile = None, m_lastLogFile = None, m_lastLogFileLength = 0,
      m_index_buffer = buffer_new kInitialSize, m_indexs = [], m_lastOffsetIndexInFile = 0,
      m_size = 0, m_topic = topic, m_isDirty = False, ksingleFileMaxSize = singleFileMaxSize,
      kMsgblockMaxSize = msgblockMaxSize, kIndexMinInterval = indexMinInterval\<rparr>"

definition Partition :: "bytes \<Rightarrow> nat \<Rightarrow> nat \<Rightarrow> nat \<Rightarrow> dir option \<Rightarrow> partition option" where
  "Partition topic singleFileMaxSize msgblockMaxSize indexMinInterval disk = do {
     s \<leftarrow> (case disk of
            None \<Rightarrow> Some (partition_init topic singleFileMaxSize msgblockMaxSize indexMinInterval [])
          | Some d \<Rightarrow> do {
              s1 \<leftarrow> loadIndex (partition_init topic singleFileMaxSize msgblockMaxSize indexMinInterval d);
              findLastSequenceMsg s1
            });
     if m_lastLogFile s = None then do {
       assert_that (m_lastIndexFile s = None);
       mmapNewLog s
     } else Some s
   }"

text \<open>The destructor leaves the directory behind.\<close>

definition partition_destroy :: "partition \<Rightarrow> dir option" where
  "partition_destroy s = map_option p_dir (syncTodisk s)"

end
