(* ===== verification/PartitionLog.thy ===== *)
theory PartitionLog
  imports Partition
begin

text \<open>
  What a partition holds: the abstraction of its files to the list of its messages, and what
  appending, pulling and restarting do to that list.
\<close>

section \<open>Stamped frames\<close>

lemma span_splice_out:
  "a + length ys \<le> length xs \<Longrightarrow> j \<le> a \<or> a + length ys \<le> i \<Longrightarrow> span i j (splice_at a ys xs) = span i j xs"
proof (elim disjE)
  assume "a + length ys \<le> length xs" "j \<le> a"
  then show ?thesis by (simp add: span_drop_take take_splice_at)
next
  assume "a + length ys \<le> length xs" "a + length ys \<le> i"
  then show ?thesis by (simp add: span_def drop_splice_at)
qed

lemma span_splice_in:
  "a + length ys \<le> length xs \<Longrightarrow> span a (a + length ys) (splice_at a ys xs) = ys"
  by (simp add: splice_at_def span_append_left span_append_right)

lemma nth_splice_out:
  "a + length ys \<le> length xs \<Longrightarrow> a + length ys \<le> i \<Longrightarrow> splice_at a ys xs ! i = xs ! i"
  by (auto simp: splice_at_def nth_append)

lemma splice_at_left:
  "a + length ys \<le> length xs \<Longrightarrow> splice_at a ys (xs @ zs) = splice_at a ys xs @ zs"
  by (simp add: splice_at_def)

lemma length_stamp [simp]: "64 \<le> length f \<Longrightarrow> length (stamp n f) = length f"
  by (simp add: stamp_def)

lemma packet_at_stamp:
  "72 \<le> length f \<Longrightarrow>
     packet_at (stamp n f) = (packet_at f)\<lparr>command := command_code MQ_COMMAND_PULL, offset := of_nat n\<rparr>"
proof -
  assume f: "72 \<le> length f"
  let ?g = "splice_at 0 [command_code MQ_COMMAND_PULL] f"
  have g: "length ?g = length f" using f by simp
  have *: "span i j (stamp n f) = span i j f" if "1 \<le> i" "j \<le> 56 \<or> 64 \<le> i" for i j
    using that f by (simp add: stamp_def span_splice_out g)
  have 1: "span 0 1 (stamp n f) = [command_code MQ_COMMAND_PULL]"
    using f span_splice_in [of 0 "[command_code MQ_COMMAND_PULL]" f]
    by (simp add: stamp_def span_splice_out g)
  have 2: "span 56 64 (stamp n f) = le_bytes 8 (unat (of_nat n :: u64))"
    using f span_splice_in [of 56 "le_bytes 8 (unat (of_nat n :: u64))" ?g] by (simp add: stamp_def g)
  show ?thesis
    by (simp only: packet_at_def * 1 2 of_nat_le_byte le_word64) (simp add: *)
qed

lemma stamp_append: "72 \<le> length f \<Longrightarrow> stamp n (f @ rest) = stamp n f @ rest"
  by (simp add: stamp_def splice_at_left)

text \<open>A frame as the log keeps it: numbered, and marked for pulling.\<close>

definition stored :: "nat \<Rightarrow> bytes \<Rightarrow> bool" where
  "stored n f \<longleftrightarrow> mq_frame f \<and> command (packet_at f) = command_code MQ_COMMAND_PULL
     \<and> unat (offset (packet_at f)) = n"

lemma stored_stamp:
  assumes "mq_frame f" and "n < 2 ^ 64"
  shows "stored n (stamp n f)" and "length (stamp n f) = length f"
proof -
  have len: "84 \<le> length f" using assms(1) by (rule mq_frame_length)
  then show l: "length (stamp n f) = length f" by simp
  have at: "packet_at (stamp n f) = (packet_at f)\<lparr>command := command_code MQ_COMMAND_PULL, offset := of_nat n\<rparr>"
    using len by (simp add: packet_at_stamp)
  have body: "body_len (packet_at (stamp n f)) = body_len (packet_at f)"
    by (simp add: at body_len_def)
  have "stamp n f ! (72 + body_len (packet_at f)) = f ! (72 + body_len (packet_at f))"
    using len by (simp add: stamp_def nth_splice_out)
  then have "mq_frame (stamp n f)"
    using assms(1) l by (simp add: mq_frame_def checkMqPacketEnd_iff body MqPacketLength_body)
      (simp add: at)
  moreover have "unat (of_nat n :: u64) = n" using assms(2) by (simp add: unat_of_nat)
  ultimately show "stored n (stamp n f)" by (simp add: stored_def at)
qed

lemma stored_frame:
  assumes "stored n f"
  shows "84 \<le> length f" and "MqPacketLength (packet_at f) = length f"
    and "checkMqPacketEnd f" and "72 + body_len (packet_at f) < length f"
    and "hd f = command_code MQ_COMMAND_PULL" and "f \<noteq> []"
proof -
  show len: "84 \<le> length f" using assms by (simp add: stored_def mq_frame_length)
  show l: "MqPacketLength (packet_at f) = length f" and "checkMqPacketEnd f"
    using assms by (simp_all add: stored_def mq_frame_def)
  then show "72 + body_len (packet_at f) < length f" by (simp add: MqPacketLength_body)
  show "f \<noteq> []" using len by auto
  then obtain c cs where f: "f = c # cs" by (cases f) auto
  then have "command (packet_at f) = c" by (simp add: packet_at_def span_def)
  with assms f show "hd f = command_code MQ_COMMAND_PULL" by (simp add: stored_def)
qed

fun numbered :: "nat \<Rightarrow> bytes list \<Rightarrow> bool" where
  "numbered n [] \<longleftrightarrow> True"
| "numbered n (f # fs) \<longleftrightarrow> stored n f \<and> numbered (Suc n) fs"

lemma numbered_append: "numbered n (fs @ gs) \<longleftrightarrow> numbered n fs \<and> numbered (n + length fs) gs"
  by (induction fs arbitrary: n) simp_all

lemma numbered_drop: "numbered n fs \<Longrightarrow> j \<le> length fs \<Longrightarrow> numbered (n + j) (drop j fs)"
  using numbered_append [of n "take j fs" "drop j fs"] by simp

lemma numbered_take: "numbered n fs \<Longrightarrow> numbered n (take j fs)"
  using numbered_append [of n "take j fs" "drop j fs"] by simp

section \<open>Reading\<close>

text \<open>The pointer at a stored frame.\<close>

lemma at_frame:
  assumes "stored n f" and "buff = pre @ f @ rest" and "pos = length pre"
  shows "drop pos buff = f @ rest" and "packet_at (f @ rest) = packet_at f"
    and "MqPacketLength (packet_at (f @ rest)) = length f" and "checkMqPacketEnd (f @ rest)"
proof -
  note f = stored_frame [OF assms(1)]
  show "drop pos buff = f @ rest" using assms by simp
  show at: "packet_at (f @ rest) = packet_at f" using f(1) by (simp add: packet_at_append)
  with f(2) show "MqPacketLength (packet_at (f @ rest)) = length f" by simp
  show "checkMqPacketEnd (f @ rest)"
    using f(2,3) by (subst checkMqPacketEnd_append) (simp_all add: MqPacketLength_body)
qed

lemma walk_spec:
  "numbered n gs \<Longrightarrow> buff = pre @ concat gs @ rest \<Longrightarrow> length pre + length (concat gs) < k \<Longrightarrow>
     walk k buff (length gs) (length pre) = Some (length pre + length (concat gs))"
proof (induction gs arbitrary: n pre)
  case Nil
  then show ?case by simp
next
  case (Cons g gs)
  then have g: "stored n g" "buff = pre @ g @ (concat gs @ rest)" by simp_all
  note at = at_frame [OF g refl] and len = stored_frame(1) [OF g(1)]
  have "walk k buff (length gs) (length (pre @ g)) = Some (length (pre @ g) + length (concat gs))"
    using Cons.prems by (intro Cons.IH [of "Suc n"]) simp_all
  then show ?case using Cons.prems(2,3) at len
    by (simp add: layout add.assoc)
qed

text \<open>The longest beginning of a list of frames that fits into a number of bytes.\<close>

fun fit :: "nat \<Rightarrow> bytes list \<Rightarrow> bytes list" where
  "fit b [] = []"
| "fit b (f # fs) = (if length f \<le> b then f # fit (b - length f) fs else [])"

lemma scan_spec:
  assumes "numbered n gs" and "buff = pre @ concat gs @ zs" and "zs \<noteq> []" and "set zs \<subseteq> {0}"
    and "length buff = k" and "length pre = position + i" and "i \<le> b" and "lo = 0 \<or> Suc lo = n"
  shows "\<exists>c. scan k buff position b i count (position + i) lo
    = Some (c, position + i + length (concat (fit (b - i) gs)))"
  using assms
proof (induction gs arbitrary: n pre i count lo)
  case Nil
  obtain zs' where "zs = 0 # zs'" using Nil.prems(3,4) by (cases zs) auto
  then have "drop (position + i) buff = 0 # zs'"
    unfolding Nil.prems(2) Nil.prems(6) [symmetric] by simp
  with Nil.prems(7) show ?case by (subst scan.simps) simp
next
  case (Cons g gs)
  then have g: "stored n g" "buff = pre @ g @ (concat gs @ zs)" by simp_all
  note at = at_frame [OF g Cons.prems(6) [symmetric]] and f = stored_frame [OF g(1)]
  let ?rest = "concat gs @ zs"
  have hd: "hd (g @ ?rest) = command_code MQ_COMMAND_PULL" "g @ ?rest \<noteq> []"
    using f(5,6) by simp_all
  have off: "unat (offset (packet_at (g @ ?rest))) = n" using g(1) at(2) by (simp add: stored_def)
  have room: "i + length g < k - position"
    using Cons.prems(2,3,5,6) by (cases zs) auto
  have step: "scan k buff position b i count (position + i) lo =
      scan k buff position b (i + length g) (count + 1)
        (if i + length g \<le> b then position + i + length g else position + i) n"
    using Cons.prems(7,8) at hd off room f(1,4)
    by (subst scan.simps) (auto simp: layout Let_def)
  show ?case
  proof (cases "i + length g \<le> b")
    case True
    have "\<exists>c. scan k buff position b (i + length g) (count + 1) (position + (i + length g)) n
        = Some (c, position + (i + length g) + length (concat (fit (b - (i + length g)) gs)))"
      using Cons.prems g(2) True by (intro Cons.IH [of "Suc n" "pre @ g"]) simp_all
    moreover have "length g \<le> b - i" using True by simp
    ultimately show ?thesis using True step by (simp add: add.assoc)
  next
    case False
    then have "scan k buff position b (i + length g) (count + 1) (position + i) n
        = Some (count + 1, position + i)"
      by (subst scan.simps) simp
    moreover have "\<not> length g \<le> b - i" using False Cons.prems(7) by simp
    ultimately show ?thesis using False step by simp
  qed
qed

text \<open>Which file and which index line are chosen.\<close>

lemma last_takeWhile_sorted:
  fixes key :: "'v \<Rightarrow> nat"
  shows "sorted_wrt (<) (map key m) \<Longrightarrow> x \<in> set m \<Longrightarrow> key x < off \<Longrightarrow>
     (\<forall>y \<in> set m. key y \<le> key x \<or> off \<le> key y) \<Longrightarrow>
     takeWhile (\<lambda>e. key e < off) m \<noteq> [] \<and> last (takeWhile (\<lambda>e. key e < off) m) = x"
proof (induction m)
  case Nil
  then show ?case by simp
next
  case (Cons a m)
  show ?case
  proof (cases "x \<in> set m")
    case True
    with Cons.prems(1) have "key a < key x" by simp
    with Cons.prems(3) have "key a < off" by simp
    with Cons True show ?thesis by auto
  next
    case False
    with Cons.prems(2) have "x = a" by simp
    with Cons.prems have "takeWhile (\<lambda>e. key e < off) m = []" by (cases m) auto
    with \<open>x = a\<close> Cons.prems(3) show ?thesis by simp
  qed
qed

lemma choose_file_spec:
  assumes "sorted_wrt (<) (map key m)" and "x \<in> set m" and "key x \<le> off"
    and "\<forall>y \<in> set m. key y \<le> key x \<or> off < key y"
  shows "choose_file off m key = Some x"
proof -
  have uniq: "y = x" if "y \<in> set m" "key y = key x" for y
    using that assms(1,2) by (metis (mono_tags, lifting) distinct_map inj_onD strict_sorted_iff)
  have hd_after: "\<not> key y < off" if "dropWhile (\<lambda>e. key e < off) m = y # ys" for y ys
    using that by (metis dropWhile_eq_Cons_conv)
  have mem: "y \<in> set m" if "dropWhile (\<lambda>e. key e < off) m = y # ys" for y ys
    using that by (metis list.set_intros(1) set_dropWhileD)
  show ?thesis
  proof (cases "key x = off")
    case True
    have "x \<in> set (dropWhile (\<lambda>e. key e < off) m)"
      using assms(2) True set_takeWhileD [of x "\<lambda>e. key e < off" m]
      by (metis less_irrefl_nat Un_iff set_append takeWhile_dropWhile_id)
    then obtain y ys where y: "dropWhile (\<lambda>e. key e < off) m = y # ys" "x = y \<or> x \<in> set ys"
      by (cases "dropWhile (\<lambda>e. key e < off) m") auto
    have "sorted_wrt (<) (map key (y # ys))"
      using assms(1) y(1) by (metis map_append sorted_wrt_append takeWhile_dropWhile_id)
    with y hd_after [OF y(1)] True have "x = y" by auto
    with y(1) True show ?thesis by (simp add: choose_file_def)
  next
    case False
    with assms(3) have less: "key x < off" by simp
    note l = last_takeWhile_sorted [OF assms(1,2) less]
    have "\<forall>y \<in> set m. key y \<le> key x \<or> off \<le> key y" using assms(4) by auto
    note l = l [OF this]
    have "off < key y" if "dropWhile (\<lambda>e. key e < off) m = y # ys" for y ys
      using assms(4) mem [OF that] hd_after [OF that] less by auto
    with l show ?thesis by (auto simp: choose_file_def Let_def split: list.split)
  qed
qed

lemma choose_line_cases:
  obtains "choose_line x m = (0, 0)" | "choose_line x m \<in> set m" and "fst (choose_line x m) \<le> x"
proof -
  let ?e = "takeWhile (\<lambda>e. fst e < x) m" and ?a = "dropWhile (\<lambda>e. fst e < x) m"
  have "?e \<noteq> [] \<Longrightarrow> last ?e \<in> set m" by (meson last_in_set set_takeWhileD)
  moreover have "?a = l # ls \<Longrightarrow> l \<in> set m" for l ls by (metis list.set_intros(1) set_dropWhileD)
  ultimately have "choose_line x m = (0, 0) \<or> choose_line x m \<in> set m \<and> fst (choose_line x m) \<le> x"
    by (auto simp: choose_line_def Let_def split: list.split)
  with that show thesis by blast
qed

section \<open>The log as a list of messages\<close>

text \<open>Consecutive files: the number of the first message of each, and its messages.\<close>

fun segs_from :: "nat \<Rightarrow> (nat \<times> bytes list) list \<Rightarrow> nat \<Rightarrow> bool" where
  "segs_from n [] m \<longleftrightarrow> n = m"
| "segs_from n ((s, fs) # segs) m \<longleftrightarrow>
     s = n \<and> numbered n fs \<and> (segs \<noteq> [] \<longrightarrow> fs \<noteq> []) \<and> segs_from (n + length fs) segs m"

lemma segs_from_le: "segs_from n segs m \<Longrightarrow> n \<le> m"
  by (induction n segs m rule: segs_from.induct) auto

lemma segs_from_snoc:
  "segs_from n (segs @ [(s, fs)]) m \<longleftrightarrow>
     segs_from n segs s \<and> (\<forall>g \<in> set segs. snd g \<noteq> []) \<and> numbered s fs \<and> m = s + length fs"
  by (induction segs arbitrary: n) (auto, force)

lemma segs_from_keys:
  "segs_from n segs m \<Longrightarrow> sorted_wrt (<) (map fst segs) \<and> (\<forall>g \<in> set segs. n \<le> fst g)"
proof (induction n segs m rule: segs_from.induct)
  case (2 n s fs segs m)
  then have IH: "sorted_wrt (<) (map fst segs)" "\<forall>g \<in> set segs. n + length fs \<le> fst g" by simp_all
  have "fst g > n" if g: "g \<in> set segs" for g
  proof -
    have "fs \<noteq> []" using g 2 by auto
    then have "0 < length fs" by simp
    moreover have "n + length fs \<le> fst g" using IH(2) g by blast
    ultimately show ?thesis by linarith
  qed
  with IH 2 show ?case by (auto intro: less_imp_le)
qed simp

text \<open>The messages, each under its own number.\<close>

definition messages :: "(nat \<times> bytes list) list \<Rightarrow> bytes list" where
  "messages segs = concat (map snd segs)"

lemma segs_from_messages: "segs_from n segs m \<Longrightarrow> numbered n (messages segs) \<and> n + length (messages segs) = m"
  by (induction n segs m rule: segs_from.induct) (auto simp: messages_def numbered_append)

lemma segs_from_locate:
  "segs_from n segs m \<Longrightarrow> n \<le> off \<Longrightarrow> off < m \<Longrightarrow>
     \<exists>s fs. (s, fs) \<in> set segs \<and> s \<le> off \<and> off < s + length fs \<and>
       (\<forall>g \<in> set segs. fst g \<le> s \<or> off < fst g)"
proof (induction n segs m rule: segs_from.induct)
  case (2 n s fs segs m)
  show ?case
  proof (cases "off < n + length fs")
    case True
    have "\<forall>g \<in> set segs. n + length fs \<le> fst g" using 2(2) segs_from_keys by auto
    with True 2 have "(s, fs) \<in> set ((s, fs) # segs)" "s \<le> off" "off < s + length fs"
      "\<forall>g \<in> set ((s, fs) # segs). fst g \<le> s \<or> off < fst g" by auto
    then show ?thesis by blast
  next
    case False
    with 2 obtain s' fs' where *: "(s', fs') \<in> set segs" "s' \<le> off" "off < s' + length fs'"
      "\<forall>g \<in> set segs. fst g \<le> s' \<or> off < fst g" by auto
    moreover have "s \<le> s'" using 2(2) segs_from_keys [of "n + length fs" segs m] *(1) by fastforce
    ultimately show ?thesis by (intro exI [of _ s'] exI [of _ fs']) auto
  qed
qed simp

lemma numbered_seg:
  "segs_from n segs m \<Longrightarrow> (s, fs) \<in> set segs \<Longrightarrow> numbered s fs"
  by (induction n segs m rule: segs_from.induct) auto

text \<open>
  The invariant of a partition. An index entry is the position of the message it names, or, as
  \<^verbatim>\<open>addToLog\<close> makes them, of the message before that one.
\<close>

definition entry_ok :: "bytes list \<Rightarrow> nat \<times> nat \<Rightarrow> bool" where
  "entry_ok fs e \<longleftrightarrow> fst e \<le> length fs \<and>
     (snd e = length (concat (take (fst e) fs)) \<or>
      (0 < fst e \<and> snd e = length (concat (take (fst e - 1) fs))))"

definition file_ok :: "nat \<Rightarrow> dir \<Rightarrow> nat \<times> bytes list \<Rightarrow> bool" where
  "file_ok k d g \<longleftrightarrow> length (concat (snd g)) \<le> k \<and>
     map_of d (log_name (fst g)) = Some (concat (snd g) @ replicate (k - length (concat (snd g))) 0)"

definition index_ok :: "nat \<times> OffsetAndPosition \<Rightarrow> nat \<times> bytes list \<Rightarrow> bool" where
  "index_ok x g \<longleftrightarrow> fst x = fst g \<and> om_ok (snd x) \<and> (\<forall>e \<in> set (snd x). entry_ok (snd g) e)"

definition holds :: "partition \<Rightarrow> (nat \<times> bytes list) list \<Rightarrow> bool" where
  "holds s segs \<longleftrightarrow>
     segs \<noteq> [] \<and> segs_from 0 segs (m_size s) \<and> m_size s < 2 ^ 64 \<and>
     (\<forall>g \<in> set segs. file_ok (ksingleFileMaxSize s) (p_dir s) g) \<and>
     (\<forall>n. n \<notin> fst ` set segs \<longrightarrow> map_of (p_dir s) (log_name n) = None) \<and>
     list_all2 index_ok (m_indexs s) segs \<and>
     m_lastLogFile s = Some (log_name (fst (last segs))) \<and>
     m_lastIndexFile s = Some (index_name (fst (last segs))) \<and>
     m_lastLogFileLength s = length (concat (snd (last segs))) \<and>
     m_lastOffsetIndexInFile s \<le> length (snd (last segs)) \<and>
     wf_buffer (m_index_buffer s)"

lemma suffix_distinct [simp]: "log_name n \<noteq> index_name m" "index_name m \<noteq> log_name n"
proof -
  have "last (log_name n) \<noteq> last (index_name m)"
    by (simp add: log_name_def index_name_def log_suffix_def index_suffix_def)
  then show "log_name n \<noteq> index_name m" "index_name m \<noteq> log_name n" by metis+
qed

lemma log_name_inj [simp]: "log_name n = log_name m \<longleftrightarrow> n = m"
  by (simp add: log_name_def to_string_inj)

lemma index_name_inj [simp]: "index_name n = index_name m \<longleftrightarrow> n = m"
  by (simp add: index_name_def to_string_inj)

lemma index_keys:
  assumes "list_all2 index_ok ix segs"
  shows "map fst ix = map fst segs"
  using assms by (induction rule: list_all2_induct) (simp_all add: index_ok_def)

section \<open>Pulling\<close>

lemma sendToConsumer_run:
  assumes h: "holds s segs" and cmd: "command info = command_code MQ_COMMAND_PULL"
    and off: "unat (offset info) < m_size s"
    and room: "\<forall>g \<in> set segs. length (concat (snd g)) < ksingleFileMaxSize s"
  shows "\<exists>n fs j. (n, fs) \<in> set segs \<and> n \<le> unat (offset info) \<and> unat (offset info) < n + length fs
    \<and> (j = unat (offset info) - n \<or> Suc j = unat (offset info) - n)
    \<and> map_option (\<lambda>(c, out, i). (out, i)) (sendToConsumer junk pad info s) =
        (let out = fit (max_enable info s) (drop j fs)
         in if out = [] then None else Some ([concat out], info))"
proof -
  let ?off = "unat (offset info)" and ?k = "ksingleFileMaxSize s"
  have segs: "segs_from 0 segs (m_size s)" and ix: "list_all2 index_ok (m_indexs s) segs"
    and ne: "segs \<noteq> []" using h by (simp_all add: holds_def)
  note keys = index_keys [OF ix]
  obtain n fs where g: "(n, fs) \<in> set segs" "n \<le> ?off" "?off < n + length fs"
    "\<forall>g \<in> set segs. fst g \<le> n \<or> ?off < fst g"
    using segs_from_locate [OF segs _ off] by auto
  obtain x where x: "x \<in> set (m_indexs s)" "index_ok x (n, fs)"
  proof -
    obtain i where "i < length segs" "segs ! i = (n, fs)" using g(1) by (auto simp: in_set_conv_nth)
    with ix have "index_ok (m_indexs s ! i) (n, fs)" "m_indexs s ! i \<in> set (m_indexs s)"
      by (auto simp: list_all2_conv_all_nth)
    with that show thesis by blast
  qed
  define index where "index = snd x"
  have xi: "x = (n, index)" using x(2) by (simp add: index_ok_def index_def prod_eq_iff)
  have sorted: "sorted_wrt (<) (map fst (m_indexs s))"
    using segs_from_keys [OF segs] by (simp add: keys)
  have "\<forall>y \<in> set (m_indexs s). fst y \<le> n \<or> ?off < fst y"
  proof
    fix y assume "y \<in> set (m_indexs s)"
    then have "fst y \<in> set (map fst segs)" by (simp flip: keys)
    with g(4) show "fst y \<le> n \<or> ?off < fst y" by auto
  qed
  then have chosen: "choose_file ?off (m_indexs s) fst = Some (n, index)"
    using x g(2) sorted by (intro choose_file_spec) (simp_all add: xi)
  define buff where "buff = concat fs @ replicate (?k - length (concat fs)) 0"
  have ixne: "m_indexs s \<noteq> []" using x(1) by auto
  have fst_last: "fst (last (m_indexs s)) = fst (last segs)"
    using keys ne ixne by (metis last_map)
  have content: "map_of (p_dir s) (log_name n) = Some buff"
    using h g(1) by (auto simp: holds_def file_ok_def buff_def)
  have path: "(if n = fst (last (m_indexs s)) then m_lastLogFile s else Some (log_name n)) = Some (log_name n)"
    using h by (simp add: holds_def fst_last)
  \<comment> \<open>the line of the index and the walk from there\<close>
  define d where "d = ?off - n"
  have d: "d < length fs" using g(2,3) by (simp add: d_def)
  obtain l pos0 where line: "choose_line d index = (l, pos0)" by (cases "choose_line d index") blast
  have "\<exists>j0. (j0 = l \<or> Suc j0 = l) \<and> l \<le> d \<and> pos0 = length (concat (take j0 fs))"
  proof (rule choose_line_cases [of d index])
    assume "choose_line d index = (0, 0)"
    with line show ?thesis by auto
  next
    assume "choose_line d index \<in> set index" "fst (choose_line d index) \<le> d"
    with line x(2) have "entry_ok fs (l, pos0)" "l \<le> d" by (auto simp: index_ok_def xi)
    then show ?thesis by (cases l) (auto simp: entry_ok_def)
  qed
  then obtain j0 where j0: "j0 = l \<or> Suc j0 = l" "l \<le> d" "pos0 = length (concat (take j0 fs))"
    by blast
  define j where "j = j0 + (d - l)"
  have j: "j = d \<or> Suc j = d" "j < length fs" using j0 d by (auto simp: j_def)
  let ?gs = "take (d - l) (drop j0 fs)"
  have take_j: "concat (take j fs) = concat (take j0 fs) @ concat ?gs"
    by (simp add: j_def take_add)
  have num: "numbered n fs" by (rule numbered_seg [OF segs g(1)])
  have split: "buff = concat (take j0 fs) @ concat ?gs @ (concat (drop j fs) @ replicate (?k - length (concat fs)) 0)"
    using take_j unfolding buff_def by (metis append.assoc append_take_drop_id concat_append)
  have lk: "length (concat fs) < ?k" using room g(1) by fastforce
  have "length (concat (take j fs)) \<le> length (concat fs)"
    by (metis append_take_drop_id concat_append le_add1 length_append)
  then have pk: "pos0 + length (concat ?gs) < ?k"
    using lk take_j by (simp add: j0(3))
  have "walk ?k buff (length ?gs) (length (concat (take j0 fs))) =
      Some (length (concat (take j0 fs)) + length (concat ?gs))"
    by (rule walk_spec [OF numbered_take [OF numbered_drop [OF num]] split])
      (use pk j0 d in auto)
  moreover have "length ?gs = d - l" using j0 d by auto
  ultimately have walk: "walk ?k buff (d - l) pos0 = Some (length (concat (take j fs)))"
    by (simp add: take_j j0(3))
  \<comment> \<open>the messages that go out\<close>
  let ?pos = "length (concat (take j fs))" and ?b = "max_enable info s"
  have buff': "buff = concat (take j fs) @ concat (drop j fs) @ replicate (?k - length (concat fs)) 0"
    using split take_j by simp
  have "\<exists>c. scan ?k buff ?pos ?b 0 0 (?pos + 0) 0 = Some (c, ?pos + 0 + length (concat (fit (?b - 0) (drop j fs))))"
    by (rule scan_spec [OF numbered_drop [OF num] buff'])
      (use lk j in \<open>auto simp: buff_def\<close>)
  then obtain c where scan: "scan ?k buff ?pos ?b 0 0 ?pos 0 =
      Some (c, ?pos + length (concat (fit ?b (drop j fs))))" by auto
  let ?out = "fit ?b (drop j fs)"
  have nil: "length (concat ?out) = 0 \<longleftrightarrow> ?out = []"
  proof -
    have "f \<noteq> []" if "stored i f" for i f using stored_frame(6) [OF that] .
    moreover obtain f fs' where "drop j fs = f # fs'" "stored (n + j) f"
      using numbered_drop [OF num, of j] j(2) by (cases "drop j fs") auto
    ultimately show ?thesis by auto
  qed
  have pre: "\<exists>zs. drop j fs = fit b (drop j fs) @ zs" for b
  proof -
    have "\<exists>zs. xs = fit b xs @ zs" for b xs by (induction b xs rule: fit.induct) auto
    then show ?thesis by blast
  qed
  then obtain zs where "drop j fs = ?out @ zs" by blast
  then have "concat (drop j fs) = concat ?out @ concat zs" by (metis concat_append)
  then have out: "span ?pos (?pos + length (concat ?out)) buff = concat ?out"
    unfolding buff' by (simp add: span_def)
  have "map_option (\<lambda>(c, out, i). (out, i)) (sendToConsumer junk pad info s) =
      (if ?out = [] then None else Some ([concat ?out], info))"
  proof -
    obtain m ix where m: "last (m_indexs s) = (m, ix)" by (cases "last (m_indexs s)") blast
    then have last: "last_file s = Some (m, ix)" using ixne by (simp add: last_file_def)
    have path': "(if n = m then m_lastLogFile s else Some (log_name n)) = Some (log_name n)"
      using path m by simp
    have off': "\<not> m_size s \<le> ?off" "n \<le> ?off" using off g(2) by simp_all
    have send: "sendToConsumer junk pad info s = (assert_that (?pos < ?pos + length (concat ?out)) \<bind>
        (\<lambda>_. Some (c, [concat ?out], info)))"
      using cmd off' chosen last path' content line walk scan out
      by (simp add: sendToConsumer_def Let_def d_def [symmetric] del: if_split_eq1 split del: if_split)
    show ?thesis
      unfolding send using nil by simp
  qed
  then show ?thesis using g(1-3) j(1) unfolding d_def
    by (intro exI [of _ n] exI [of _ fs] exI [of _ j]) (simp add: Let_def)
qed

section \<open>Appending\<close>

lemma map_of_file_append [simp]:
  "map_of (file_append path data d) x =
     (if x = path then Some (the (map_of d path) @ data) else map_of d x)"
  by (simp add: file_append_def)

lemma map_of_open_creat [simp]:
  "map_of (open_creat path d) x =
     (if x = path \<and> map_of d path = None then Some [] else map_of d x)"
  by (auto simp: open_creat_def map_add_def split: option.split)

lemma map_of_file_truncate [simp]:
  "map_of (file_truncate path n d) x =
     (if x = path then Some (take n (the (map_of d path)) @ replicate (n - length (the (map_of d path))) 0)
      else map_of d x)"
  by (simp add: file_truncate_def Let_def)

text \<open>What an operation on the current file leaves alone.\<close>

definition same_shape :: "partition \<Rightarrow> partition \<Rightarrow> bool" where
  "same_shape s s' \<longleftrightarrow> ksingleFileMaxSize s' = ksingleFileMaxSize s \<and> m_topic s' = m_topic s
     \<and> kMsgblockMaxSize s' = kMsgblockMaxSize s \<and> kIndexMinInterval s' = kIndexMinInterval s"

lemma syncTodisk_holds:
  assumes "holds s segs"
  shows "\<exists>s'. syncTodisk s = Some s' \<and> holds s' segs \<and> m_size s' = m_size s \<and> same_shape s s'"
proof (cases "m_isDirty s")
  case True
  then have "syncTodisk s = Some (s\<lparr>p_dir := file_append (index_name (fst (last segs)))
      (contents (m_index_buffer s)) (p_dir s), m_index_buffer := resetAll (m_index_buffer s),
      m_isDirty := False\<rparr>)"
    using assms by (simp add: syncTodisk_def holds_def)
  moreover have "holds (s\<lparr>p_dir := file_append (index_name (fst (last segs)))
      (contents (m_index_buffer s)) (p_dir s), m_index_buffer := resetAll (m_index_buffer s),
      m_isDirty := False\<rparr>) segs"
    using assms by (simp add: holds_def file_ok_def)
  ultimately show ?thesis by (simp add: same_shape_def)
qed (use assms in \<open>simp add: syncTodisk_def same_shape_def\<close>)

lemma om_insert_new_last:
  "list_all2 index_ok ix segs \<Longrightarrow> segs_from 0 segs m \<Longrightarrow> snd (last segs) \<noteq> [] \<Longrightarrow> segs \<noteq> [] \<Longrightarrow>
     om_insert m v ix = ix @ [(m, v)]"
proof (rule om_insert_last)
  assume ix: "list_all2 index_ok ix segs" and segs: "segs_from 0 segs m"
    and ne: "snd (last segs) \<noteq> []" "segs \<noteq> []"
  obtain init n fs where i: "segs = init @ [(n, fs)]"
    using ne(2) by (metis append_butlast_last_id prod.collapse)
  with segs have m: "m = n + length fs" by (simp add: segs_from_snoc)
  moreover have "\<forall>g \<in> set segs. fst g \<le> n"
    using segs_from_keys [OF segs] by (auto simp: i sorted_wrt_append)
  moreover have "0 < length fs" using ne(1) by (simp add: i)
  ultimately have "\<forall>g \<in> set segs. fst g < m" by (auto intro: le_less_trans)
  moreover have "fst ` set ix = fst ` set segs" using index_keys [OF ix] by (metis list.set_map)
  ultimately show "\<forall>e \<in> set ix. fst e < m" by (metis imageE imageI)
qed

text \<open>A new file is empty and takes over when the last one has messages.\<close>

lemma mmapNewLog_holds:
  assumes "holds s segs" and "snd (last segs) \<noteq> []"
  shows "\<exists>s'. mmapNewLog s = Some s' \<and> holds s' (segs @ [(m_size s, [])]) \<and> m_size s' = m_size s
    \<and> same_shape s s'"
proof -
  obtain s1 where s1: "syncTodisk s = Some s1" "holds s1 segs" "m_size s1 = m_size s" "same_shape s s1"
    using syncTodisk_holds [OF assms(1)] by blast
  let ?d = "file_truncate (log_name (m_size s)) (ksingleFileMaxSize s1)
    (open_creat (log_name (m_size s)) (open_creat (index_name (m_size s)) (p_dir s1)))"
  let ?s' = "s1\<lparr>p_dir := ?d, m_lastIndexFile := Some (index_name (m_size s)),
    m_indexs := om_insert (m_size s) [] (m_indexs s1), m_lastLogFile := Some (log_name (m_size s)),
    m_lastLogFileLength := 0, m_lastOffsetIndexInFile := 0\<rparr>"
  have h: "segs \<noteq> []" "segs_from 0 segs (m_size s)" "list_all2 index_ok (m_indexs s1) segs"
    using s1(2,3) by (simp_all add: holds_def)
  obtain init n fs where i: "segs = init @ [(n, fs)]"
    using h(1) by (metis append_butlast_last_id prod.collapse)
  have fs: "fs \<noteq> []" using assms(2) by (simp add: i)
  have ins: "om_insert (m_size s) [] (m_indexs s1) = m_indexs s1 @ [(m_size s, [])]"
    by (rule om_insert_new_last [OF h(3,2) assms(2) h(1)])
  have "0 < length fs" using fs by simp
  moreover have "\<forall>g \<in> set segs. fst g \<le> n"
    using segs_from_keys [OF h(2)] by (auto simp: i sorted_wrt_append)
  moreover have "m_size s = n + length fs" using h(2) by (simp add: i segs_from_snoc)
  ultimately have "\<forall>g \<in> set segs. fst g < m_size s" by (auto intro: le_less_trans)
  then have new: "m_size s \<notin> fst ` set segs" by auto
  then have none: "map_of (p_dir s1) (log_name (m_size s)) = None"
    using s1(2) by (simp add: holds_def)
  have chain: "segs_from 0 (segs @ [(m_size s, [])]) (m_size s)"
    unfolding segs_from_snoc using h(2) fs by (auto simp: segs_from_snoc i)
  have files: "\<forall>g \<in> set segs. file_ok (ksingleFileMaxSize s1) ?d g"
  proof
    fix g assume g: "g \<in> set segs"
    with new have "fst g \<noteq> m_size s" by (metis imageI)
    with g s1(2) show "file_ok (ksingleFileMaxSize s1) ?d g" by (simp add: holds_def file_ok_def)
  qed
  have others: "\<forall>m. m \<notin> fst ` set (segs @ [(m_size s, [])]) \<longrightarrow> map_of ?d (log_name m) = None"
    using s1(2) by (simp add: holds_def)
  have "holds ?s' (segs @ [(m_size s, [])])"
    using s1(2,3) chain files others none
    by (simp add: holds_def ins list_all2_appendI file_ok_def index_ok_def)
  moreover have "mmapNewLog s = Some ?s'"
    using s1 by (simp add: mmapNewLog_def Let_def)
  ultimately show ?thesis using s1(3,4) by (auto simp: same_shape_def)
qed

lemma index_entry_shape:
  assumes "m_indexs s = ix @ [(n, index)]"
  obtains line lo index' where "index_entry len pos i s =
      Some (line, s\<lparr>m_lastOffsetIndexInFile := lo, m_indexs := ix @ [(n, index')]\<rparr>)"
    and "lo = m_lastOffsetIndexInFile s \<or> lo = m_size s - n"
    and "index' = index \<or> index' = om_insert (m_size s - n) pos index"
proof -
  let ?o = "m_size s - n"
  have same: "s = s\<lparr>m_lastOffsetIndexInFile := m_lastOffsetIndexInFile s, m_indexs := ix @ [(n, index)]\<rparr>"
    using assms by simp
  show thesis
  proof (cases "len > kMsgblockMaxSize s \<or> ?o > m_lastOffsetIndexInFile s + kIndexMinInterval s \<or> ?o = 0")
    case True
    then have "index_entry len pos i s = Some (to_string ?o @ [44] @ to_string i @ [10],
        s\<lparr>m_lastOffsetIndexInFile := ?o, m_indexs := ix @ [(n, om_insert ?o pos index)]\<rparr>)"
      using assms by (simp add: index_entry_def last_file_def Let_def)
    then show thesis by (rule that) simp_all
  next
    case False
    then have "index_entry len pos i s = Some ([], s)"
      using assms by (simp add: index_entry_def last_file_def Let_def)
    also have "\<dots> = Some ([], s\<lparr>m_lastOffsetIndexInFile := m_lastOffsetIndexInFile s, m_indexs := ix @ [(n, index)]\<rparr>)"
      using same by (rule arg_cong)
    finally show thesis by (rule that) simp_all
  qed
qed

lemma holds_last:
  assumes "holds s segs"
  obtains segs0 ix n fs index where "segs = segs0 @ [(n, fs)]" and "m_indexs s = ix @ [(n, index)]"
    and "list_all2 index_ok ix segs0" and "index_ok (n, index) (n, fs)"
    and "m_size s = n + length fs" and "m_lastLogFileLength s = length (concat fs)"
    and "length (concat fs) \<le> ksingleFileMaxSize s"
    and "map_of (p_dir s) (log_name n) = Some (concat fs @ replicate (ksingleFileMaxSize s - length (concat fs)) 0)"
    and "m_lastLogFile s = Some (log_name n)" and "m_lastIndexFile s = Some (index_name n)"
    and "m_lastOffsetIndexInFile s \<le> length fs"
proof -
  obtain segs0 n fs where segs: "segs = segs0 @ [(n, fs)]"
    using assms unfolding holds_def by (metis append_butlast_last_id prod.collapse)
  have ix: "list_all2 index_ok (m_indexs s) (segs0 @ [(n, fs)])"
    using assms by (simp add: holds_def segs)
  then obtain ix x where x: "m_indexs s = ix @ [x]" "list_all2 index_ok ix segs0" "index_ok x (n, fs)"
    by (auto simp: list_all2_append2 list_all2_Cons2)
  moreover have "x = (n, snd x)" using x(3) by (simp add: index_ok_def prod_eq_iff)
  ultimately have "m_indexs s = ix @ [(n, snd x)]" "list_all2 index_ok ix segs0" "index_ok (n, snd x) (n, fs)"
    by simp_all
  then show thesis
    by (rule that [OF segs]) (use assms in \<open>auto simp: holds_def segs segs_from_snoc file_ok_def\<close>)
qed

text \<open>A frame that the last file has room for.\<close>

lemma append_in_file:
  assumes h: "holds s segs" and f: "mq_frame f" and src: "src = f @ rest"
    and room: "m_lastLogFileLength s + length f \<le> ksingleFileMaxSize s" and big: "m_size s + 1 < 2 ^ 64"
    and eq: "r = add_loop (m_lastLogFileLength s) (length f) (m_lastLogFileLength s) src s"
  shows "\<exists>line s2. r = Some (Inr (stamp (m_size s) f, line, s2))
    \<and> m_lastLogFile s2 = m_lastLogFile s \<and> m_lastLogFileLength s2 = m_lastLogFileLength s
    \<and> m_size s2 = m_size s + 1 \<and> p_dir s2 = p_dir s \<and> m_lastOffsetIndexInFile s2 \<le> m_size s2
    \<and> m_index_buffer s2 = m_index_buffer s \<and> same_shape s s2
    \<and> (\<forall>d' b. (\<forall>x. map_of d' x = (if Some x = m_lastLogFile s
              then Some (splice_at (m_lastLogFileLength s) (stamp (m_size s) f) (the (map_of (p_dir s) x)))
              else map_of (p_dir s) x)) \<longrightarrow> wf_buffer b \<longrightarrow>
          holds (s2\<lparr>p_dir := d', m_lastLogFileLength := m_lastLogFileLength s + length f,
                    m_index_buffer := b, m_isDirty := True\<rparr>)
            (butlast segs @ [(fst (last segs), snd (last segs) @ [stamp (m_size s) f])]))"
proof -
  let ?k = "ksingleFileMaxSize s"
  obtain segs0 ix n fs index where l: "segs = segs0 @ [(n, fs)]" "m_indexs s = ix @ [(n, index)]"
    "list_all2 index_ok ix segs0" "index_ok (n, index) (n, fs)" "m_size s = n + length fs"
    "m_lastLogFileLength s = length (concat fs)" "length (concat fs) \<le> ?k"
    "map_of (p_dir s) (log_name n) = Some (concat fs @ replicate (?k - length (concat fs)) 0)"
    "m_lastLogFile s = Some (log_name n)" "m_lastIndexFile s = Some (index_name n)"
    "m_lastOffsetIndexInFile s \<le> length fs"
    using holds_last [OF h] by metis
  let ?g = "stamp (m_size s) f" and ?pos = "length (concat fs)"
  have len: "84 \<le> length f" by (rule mq_frame_length [OF f])
  have at: "MqPacketLength (packet_at src) = length f" "checkMqPacketEnd src"
    using f len unfolding src mq_frame_def
    by (simp_all add: packet_at_append checkMqPacketEnd_append MqPacketLength_body)
  have g: "stored (m_size s) ?g" "length ?g = length f"
    using stored_stamp [OF f, of "m_size s"] big by simp_all
  have st: "stamp (m_size s) src = ?g @ rest" using len by (simp add: src stamp_append)
  have ck: "checkMqPacketEnd (?g @ rest)"
    using stored_frame(2,3) [OF g(1)] by (subst checkMqPacketEnd_append) (simp_all add: MqPacketLength_body)
  let ?s1 = "s\<lparr>m_size := m_size s + 1\<rparr>"
  have "m_indexs ?s1 = ix @ [(n, index)]" using l(2) by simp
  then obtain line lo index' where e: "index_entry (length f) ?pos (?pos + length f) ?s1 =
      Some (line, ?s1\<lparr>m_lastOffsetIndexInFile := lo, m_indexs := ix @ [(n, index')]\<rparr>)"
    "lo = m_lastOffsetIndexInFile ?s1 \<or> lo = m_size ?s1 - n"
    "index' = index \<or> index' = om_insert (m_size ?s1 - n) ?pos index"
    by (rule index_entry_shape)
  let ?s2 = "?s1\<lparr>m_lastOffsetIndexInFile := lo, m_indexs := ix @ [(n, index')]\<rparr>"
  have done_here: "add_loop ?pos (length f) (?pos + length f) (drop (length f) (?g @ rest)) ?s2 =
      Some (Inr ([], [], ?s2))"
    by (simp add: add_loop.simps)
  have r: "r = Some (Inr (?g, line, ?s2))"
    unfolding eq l(6) using at st ck e(1) done_here len g(2) src
    by (subst add_loop.simps) (auto simp: layout Let_def)
  have lo: "lo \<le> Suc (length fs)" using e(2) l(5,11) by auto
  have entry: "entry_ok (fs @ [?g]) x" if "x \<in> set index'" for x
  proof (cases "x \<in> set index")
    case True
    then have "entry_ok fs x" using l(4) by (auto simp: index_ok_def)
    then show ?thesis by (auto simp: entry_ok_def)
  next
    case False
    with that e(3) l(5) set_om_insert [of "Suc (length fs)" ?pos index] have "x = (Suc (length fs), ?pos)"
      by auto
    then show ?thesis by (simp add: entry_ok_def)
  qed
  have ok': "om_ok index'" using e(3) l(4) by (auto simp: index_ok_def)
  have segs: "segs_from 0 (segs0 @ [(n, fs)]) (m_size s)" "m_size s < 2 ^ 64"
    using h by (simp_all add: holds_def l(1))
  have segs': "segs_from 0 (segs0 @ [(n, fs @ [?g])]) (m_size s + 1)"
    using segs(1) g(1) l(5) by (simp add: segs_from_snoc numbered_append)
  have file_last: "splice_at ?pos ?g (concat fs @ replicate (?k - ?pos) 0) =
      concat (fs @ [?g]) @ replicate (?k - length (concat (fs @ [?g]))) 0"
    using room l(6) g(2) by (simp add: splice_at_def)
  have other: "n \<noteq> fst x" if "x \<in> set segs0" for x
    using segs_from_keys [OF segs(1)] that by (auto simp: sorted_wrt_append)
  have "holds (?s2\<lparr>p_dir := d', m_lastLogFileLength := m_lastLogFileLength s + length f,
                    m_index_buffer := b, m_isDirty := True\<rparr>) (segs0 @ [(n, fs @ [?g])])"
    if d': "\<forall>x. map_of d' x = (if Some x = m_lastLogFile s
              then Some (splice_at (m_lastLogFileLength s) ?g (the (map_of (p_dir s) x)))
              else map_of (p_dir s) x)" and b: "wf_buffer b" for d' b
  proof -
    have "\<forall>x \<in> set segs0. file_ok ?k d' x"
      using h other d' l(9) by (auto simp: holds_def l(1) file_ok_def)
    moreover have "file_ok ?k d' (n, fs @ [?g])"
      using file_last room l(6,8,9) g(2) d' by (simp add: file_ok_def)
    moreover have "\<forall>m. m \<notin> fst ` set (segs0 @ [(n, fs @ [?g])]) \<longrightarrow> map_of d' (log_name m) = None"
      using h d' l(9) by (auto simp: holds_def l(1))
    moreover have "list_all2 index_ok (ix @ [(n, index')]) (segs0 @ [(n, fs @ [?g])])"
      using l(3) entry ok' by (intro list_all2_appendI) (simp_all add: index_ok_def)
    ultimately show ?thesis
      using segs' big lo l(6,9,10) g(2) b by (simp add: holds_def)
  qed
  then show ?thesis
    using r lo l(5) by (simp add: l(1) same_shape_def)
qed

lemma messages_snoc:
  "segs \<noteq> [] \<Longrightarrow>
     messages (butlast segs @ [(fst (last segs), snd (last segs) @ [g])]) = messages segs @ [g]"
  by (cases segs rule: rev_cases) (simp_all add: messages_def)

lemma addToLog_spec:
  assumes h: "holds s segs" and msg: "wf_buffer msg" "contents msg = f" and f: "mq_frame f"
    and k: "length f \<le> ksingleFileMaxSize s" and big: "m_size s + 1 < 2 ^ 64"
  shows "\<exists>b s' segs'. addToLog msg s = Some (b, s') \<and> holds s' segs' \<and> wf_buffer b \<and> contents b = []
    \<and> messages segs' = messages segs @ [stamp (m_size s) f] \<and> m_size s' = m_size s + 1 \<and> same_shape s s'"
proof -
  have readable: "readableBytes msg = length f" using msg by auto
  let ?full = "ksingleFileMaxSize s - m_lastLogFileLength s < length f"
  have opened: "m_lastLogFile s \<noteq> None" "m_lastIndexFile s \<noteq> None" using h by (auto simp: holds_def)
  have "\<exists>s1 segs1. (if ?full then mmapNewLog s else Some s) = Some s1 \<and> holds s1 segs1
      \<and> messages segs1 = messages segs \<and> m_size s1 = m_size s \<and> same_shape s s1
      \<and> m_lastLogFileLength s1 + length f \<le> ksingleFileMaxSize s1"
  proof (cases ?full)
    case True
    have "snd (last segs) \<noteq> []" using True k h by (auto simp: holds_def)
    from mmapNewLog_holds [OF h this] obtain s1 where
      "mmapNewLog s = Some s1" "holds s1 (segs @ [(m_size s, [])])" "m_size s1 = m_size s" "same_shape s s1"
      by blast
    with True k show ?thesis
      by (intro exI [of _ s1] exI [of _ "segs @ [(m_size s, [])]"])
        (simp add: messages_def holds_def same_shape_def)
  next
    case False
    have "m_lastLogFileLength s \<le> ksingleFileMaxSize s"
      using h by (auto simp: holds_def file_ok_def)
    with False h show ?thesis by (auto simp: same_shape_def)
  qed
  then obtain s1 segs1 where s1: "(if ?full then mmapNewLog s else Some s) = Some s1" "holds s1 segs1"
    "messages segs1 = messages segs" "m_size s1 = m_size s" "same_shape s s1"
    "m_lastLogFileLength s1 + length f \<le> ksingleFileMaxSize s1" by blast
  obtain rest where src: "drop (m_rpos msg) (m_queue msg) = f @ rest"
    using pointer_contents [OF msg(1)] msg(2) by metis
  let ?g = "stamp (m_size s) f"
  from append_in_file [OF s1(2) f src s1(6) _ refl] big s1(4) obtain line s2 where
    loop: "add_loop (m_lastLogFileLength s1) (length f) (m_lastLogFileLength s1) (drop (m_rpos msg) (m_queue msg)) s1
        = Some (Inr (?g, line, s2))"
    and s2: "m_lastLogFile s2 = m_lastLogFile s1" "m_lastLogFileLength s2 = m_lastLogFileLength s1"
      "m_size s2 = m_size s + 1" "p_dir s2 = p_dir s1" "m_lastOffsetIndexInFile s2 \<le> m_size s2"
      "m_index_buffer s2 = m_index_buffer s1" "same_shape s1 s2"
    and holds': "\<And>d' b. (\<forall>x. map_of d' x = (if Some x = m_lastLogFile s1
              then Some (splice_at (m_lastLogFileLength s1) ?g (the (map_of (p_dir s1) x)))
              else map_of (p_dir s1) x)) \<Longrightarrow> wf_buffer b \<Longrightarrow>
          holds (s2\<lparr>p_dir := d', m_lastLogFileLength := m_lastLogFileLength s1 + length f,
                    m_index_buffer := b, m_isDirty := True\<rparr>)
            (butlast segs1 @ [(fst (last segs1), snd (last segs1) @ [?g])])"
    by auto
  obtain n fs where n: "m_lastLogFile s1 = Some (log_name n)"
    "map_of (p_dir s1) (log_name n) = Some (concat fs @ replicate (ksingleFileMaxSize s1 - length (concat fs)) 0)"
    "length (concat fs) \<le> ksingleFileMaxSize s1"
    using holds_last [OF s1(2)] by metis
  let ?content = "concat fs @ replicate (ksingleFileMaxSize s1 - length (concat fs)) 0"
  let ?d = "AList.update (log_name n) (splice_at (m_lastLogFileLength s1) ?g ?content) (p_dir s1)"
  have gl: "length ?g = length f" using mq_frame_length [OF f] by simp
  have "wf_buffer (m_index_buffer s1)" using s1(2) by (simp add: holds_def)
  then obtain b where b: "(if line \<noteq> [] then buf_append line (m_index_buffer s1) else Some (m_index_buffer s1)) = Some b"
    "wf_buffer b"
    using buf_append_spec [of "m_index_buffer s1" line] by (cases "line = []") auto
  let ?s' = "s2\<lparr>p_dir := ?d, m_lastLogFileLength := m_lastLogFileLength s1 + length f,
    m_index_buffer := b, m_isDirty := True\<rparr>"
  have "addToLog msg s = Some (resetAll msg, ?s')"
    using opened s1(1) loop readable n s2 s1(6) gl b(1)
    by (cases "line = []") (simp_all add: addToLog_def Let_def del: if_split_eq1 split del: if_split)
  moreover have "holds ?s' (butlast segs1 @ [(fst (last segs1), snd (last segs1) @ [?g])])"
    by (rule holds') (use n b(2) in auto)
  moreover have "messages (butlast segs1 @ [(fst (last segs1), snd (last segs1) @ [?g])]) = messages segs @ [?g]"
    using s1(2,3) by (simp add: messages_snoc holds_def)
  moreover have "same_shape s ?s'" using s1(5) s2(7) by (simp add: same_shape_def)
  moreover have "m_size ?s' = m_size s + 1" using s2(3) by simp
  moreover have "wf_buffer (resetAll msg)" "contents (resetAll msg) = []" by simp_all
  ultimately show ?thesis by blast
qed

text \<open>A new partition is empty.\<close>

lemma Partition_new:
  "\<exists>s. Partition topic k blk iv None = Some s \<and> holds s [(0, [])] \<and> ksingleFileMaxSize s = k \<and> m_size s = 0
    \<and> m_topic s = topic"
proof -
  let ?s = "partition_init topic k blk iv []"
  have "index_ok (0, []) (0, [])" by (simp add: index_ok_def)
  then show ?thesis
    by (simp add: Partition_def mmapNewLog_def syncTodisk_def partition_init_def Let_def holds_def
        file_ok_def)
qed

section \<open>Properties\<close>

definition partition_log :: "partition \<Rightarrow> bytes list \<Rightarrow> bool" where
  "partition_log s ms \<longleftrightarrow> (\<exists>segs. holds s segs \<and> ms = messages segs)"

lemma partition_log_size: "partition_log s ms \<Longrightarrow> m_size s = length ms"
  using segs_from_messages [of 0] by (auto simp: partition_log_def holds_def)

text \<open>
  C15: \<^verbatim>\<open>addToLog\<close> of a packet that fits into a file appends it, numbered, to the list of the
  partition's messages, whether or not that takes a new file, and empties the buffer.
\<close>

theorem addToLog_appends:
  assumes "partition_log s ms" and "wf_buffer msg" and "mq_frame (contents msg)"
    and "length (contents msg) \<le> ksingleFileMaxSize s" and "length ms + 1 < 2 ^ 64"
  shows "\<exists>b s'. addToLog msg s = Some (b, s') \<and> contents b = []
    \<and> partition_log s' (ms @ [stamp (length ms) (contents msg)])"
proof -
  obtain segs where segs: "holds s segs" "ms = messages segs" "m_size s = length ms"
    using assms(1) partition_log_size [OF assms(1)] by (auto simp: partition_log_def)
  with assms(5) have big: "m_size s + 1 < 2 ^ 64" by simp
  from addToLog_spec [OF segs(1) assms(2) refl assms(3,4) big] show ?thesis
    unfolding partition_log_def using segs(2,3) by metis
qed

text \<open>
  C16: A pull of a number that exists, in a partition none of whose files is exactly full, is about one
  file, the one that holds the number, and a run of consecutive messages of it that starts at the number
  or, where an index entry was used, one before it. The answer is as many of them as fit into
  \<^verbatim>\<open>maxEnableBytes\<close>; when the first of them does not fit, nothing is found and the
  assertion ends the broker. (The last message of a file that is exactly full is never sent:
  \<open>full_file_hides_last\<close>.)
\<close>

theorem pull_sends_run:
  assumes "holds s segs" and "command info = command_code MQ_COMMAND_PULL"
    and "unat (offset info) < m_size s"
    and "\<forall>g \<in> set segs. length (concat (snd g)) < ksingleFileMaxSize s"
  shows "\<exists>n fs j. (n, fs) \<in> set segs \<and> n \<le> unat (offset info) \<and> unat (offset info) < n + length fs
    \<and> (j = unat (offset info) - n \<or> Suc j = unat (offset info) - n)
    \<and> (if fit (max_enable info s) (drop j fs) = [] then sendToConsumer junk pad info s = None
       else \<exists>count. sendToConsumer junk pad info s =
         Some (count, [concat (fit (max_enable info s) (drop j fs))], info))"
proof -
  obtain n fs j where r: "(n, fs) \<in> set segs" "n \<le> unat (offset info)" "unat (offset info) < n + length fs"
    "j = unat (offset info) - n \<or> Suc j = unat (offset info) - n"
    "map_option (\<lambda>(c, out, i). (out, i)) (sendToConsumer junk pad info s) =
      (let out = fit (max_enable info s) (drop j fs) in if out = [] then None else Some ([concat out], info))"
    using sendToConsumer_run [OF assms, of junk pad] by blast
  have "if fit (max_enable info s) (drop j fs) = [] then sendToConsumer junk pad info s = None
       else \<exists>count. sendToConsumer junk pad info s =
         Some (count, [concat (fit (max_enable info s) (drop j fs))], info)"
    using r(5) by (auto simp: Let_def)
  with r(1-4) show ?thesis by blast
qed

text \<open>
  A pull whose \<^verbatim>\<open>maxEnableBytes\<close> is below the length of every message (0 is what a packet
  has by default) fails the assertion that something was found, which ends the broker.
\<close>

lemma pull_small_budget_aborts:
  assumes "holds s segs" and "command info = command_code MQ_COMMAND_PULL"
    and "unat (offset info) < m_size s"
    and "\<forall>g \<in> set segs. length (concat (snd g)) < ksingleFileMaxSize s"
    and "\<forall>f \<in> set (messages segs). max_enable info s < length f"
  shows "sendToConsumer junk pad info s = None"
proof -
  obtain n fs j where r: "(n, fs) \<in> set segs"
    "map_option (\<lambda>(c, out, i). (out, i)) (sendToConsumer junk pad info s) =
      (let out = fit (max_enable info s) (drop j fs)
       in if out = [] then None else Some ([concat out], info))"
    using sendToConsumer_run [OF assms(1-4), of junk pad] by blast
  have "\<forall>f \<in> set (drop j fs). max_enable info s < length f"
    using r(1) assms(5) by (force simp: messages_def dest: in_set_dropD)
  then have "fit (max_enable info s) (drop j fs) = []"
    by (cases "drop j fs") auto
  with r(2) show ?thesis by simp
qed

text \<open>The partition is a log of frames.\<close>

definition log_frame :: "bytes \<Rightarrow> partition \<Rightarrow> partition option" where
  "log_frame f s = do {
     tmp \<leftarrow> buf_append f (buffer_new kInitialSize);
     (tmp', s') \<leftarrow> addToLog tmp s;
     Some s'
   }"

definition fits_file :: "partition \<Rightarrow> bytes \<Rightarrow> bool" where
  "fits_file s f \<longleftrightarrow> mq_frame f \<and> length f \<le> ksingleFileMaxSize s"

interpretation plog: message_log log_frame partition_log stamp fits_file "2 ^ 64"
proof
  fix s ms f assume h: "partition_log s ms" "fits_file s f" "length ms + 1 < 2 ^ 64"
  obtain segs where segs: "holds s segs" "ms = messages segs" "m_size s = length ms"
    using h(1) partition_log_size [OF h(1)] by (auto simp: partition_log_def)
  obtain tmp where tmp: "buf_append f (buffer_new kInitialSize) = Some tmp" "wf_buffer tmp" "contents tmp = f"
    using buf_append_spec [OF wf_buffer_new, of f kInitialSize] by auto
  have "mq_frame (contents tmp)" "length (contents tmp) \<le> ksingleFileMaxSize s" "m_size s + 1 < 2 ^ 64"
    using h(2,3) segs(3) tmp(3) by (simp_all add: fits_file_def)
  from addToLog_spec [OF segs(1) tmp(2) refl this] obtain b s' segs' where
    "addToLog tmp s = Some (b, s')" "holds s' segs'" "messages segs' = ms @ [stamp (length ms) f]"
    "same_shape s s'" using segs tmp(3) by auto
  with tmp(1) show "\<exists>p'. log_frame f s = Some p' \<and> partition_log p' (ms @ [stamp (length ms) f])
      \<and> fits_file p' = fits_file s"
    by (auto simp: log_frame_def partition_log_def same_shape_def fits_file_def fun_eq_iff)
qed

section \<open>Demonstration\<close>

text \<open>
  Two messages of one byte in a partition that indexes every message; frames written byte for byte.
\<close>

definition demo_frame :: "nat \<Rightarrow> bytes" where
  "demo_frame i =
     header_bytes (\<lambda>_. 0) (mqPacket_default\<lparr>command := command_code MQ_COMMAND_DELIVERY,
         messageId := of_nat i, consumerGroupId := 0, topicBytes := 1, msgBytes := 1\<rparr>)
       @ [116, of_nat i] @ [255, 255, 255, 255] @ replicate 8 0"

definition demo_msg :: "nat \<Rightarrow> buffer" where
  "demo_msg i = \<lparr>m_wpos = 86, m_rpos = 0, m_queue = demo_frame i\<rparr>"

definition demo_log :: "nat \<Rightarrow> partition option" where
  "demo_log k = do {
     s \<leftarrow> Partition [116] k 0 10 None;
     (b1, s1) \<leftarrow> addToLog (demo_msg 7) s;
     (b2, s2) \<leftarrow> addToLog (demo_msg 8) s1;
     Some s2
   }"

definition demo_pull :: "nat \<Rightarrow> u64 \<Rightarrow> mqPacket" where
  "demo_pull n budget =
     mqPacket_default\<lparr>command := command_code MQ_COMMAND_PULL, offset := of_nat n, maxEnableBytes := budget\<rparr>"

definition pulled :: "(nat \<times> bytes list \<times> mqPacket) option \<Rightarrow> u64 list option" where
  "pulled r = map_option (\<lambda>(c, out, i). map (\<lambda>f. messageId (packet_at f)) (fst (drain mq_cut (concat out)))) r"

lemma demo_frames: "wf_buffer (demo_msg 7)" "wf_buffer (demo_msg 8)"
  "contents (demo_msg 7) = demo_frame 7" "contents (demo_msg 8) = demo_frame 8"
  "mq_frame (demo_frame 7)" "mq_frame (demo_frame 8)"
  "length (demo_frame 7) = 86" "length (demo_frame 8) = 86"
  by code_simp+

lemma seg_length_le:
  "g \<in> set segs \<Longrightarrow> length (concat (snd g)) \<le> length (concat (messages segs))"
  by (induction segs) (auto simp: messages_def)

lemma demo_log_holds:
  "\<exists>s segs. demo_log 512 = Some s \<and> holds s segs \<and> m_size s = 2 \<and> ksingleFileMaxSize s = 512
    \<and> messages segs = [stamp 0 (demo_frame 7), stamp 1 (demo_frame 8)]"
proof -
  obtain s where s: "Partition [116] 512 0 10 None = Some s" "holds s [(0, [])]"
    "ksingleFileMaxSize s = 512" "m_size s = 0"
    using Partition_new [of "[116]" 512 0 10] by blast
  obtain b1 s1 segs1 where 1: "addToLog (demo_msg 7) s = Some (b1, s1)" "holds s1 segs1"
    "messages segs1 = [stamp 0 (demo_frame 7)]" "m_size s1 = 1" "ksingleFileMaxSize s1 = 512"
    using addToLog_spec [OF s(2) demo_frames(1,3,5)] s(3,4) demo_frames(7)
    by (auto simp: same_shape_def messages_def)
  obtain b2 s2 segs2 where 2: "addToLog (demo_msg 8) s1 = Some (b2, s2)" "holds s2 segs2"
    "messages segs2 = [stamp 0 (demo_frame 7), stamp 1 (demo_frame 8)]" "m_size s2 = 2"
    "ksingleFileMaxSize s2 = 512"
    using addToLog_spec [OF 1(2) demo_frames(2,4,6)] 1(3-5) demo_frames(8)
    by (auto simp: same_shape_def messages_def)
  show ?thesis using s(1) 1(1) 2 by (auto simp: demo_log_def)
qed

theorem addToLog_appends_witness:
  "\<exists>s b s'. Partition [116] 512 0 10 None = Some s \<and> addToLog (demo_msg 7) s = Some (b, s')
    \<and> partition_log s' [stamp 0 (demo_frame 7)]"
proof -
  obtain s where s: "Partition [116] 512 0 10 None = Some s" "holds s [(0, [])]"
    "ksingleFileMaxSize s = 512"
    using Partition_new [of "[116]" 512 0 10] by blast
  have "partition_log s []" using s(2) by (force simp: partition_log_def messages_def)
  from addToLog_appends [OF this demo_frames(1)] s(1,3) demo_frames show ?thesis by auto
qed

lemma demo_room:
  assumes "messages segs = [stamp 0 (demo_frame 7), stamp 1 (demo_frame 8)]"
  shows "\<forall>g \<in> set segs. length (concat (snd g)) < 512"
proof
  fix g assume "g \<in> set segs"
  from seg_length_le [OF this] assms demo_frames(7,8) show "length (concat (snd g)) < 512" by simp
qed

theorem pull_sends_run_witness:
  "\<exists>s count info segs n fs j. demo_log 512 = Some s \<and> holds s segs
    \<and> (n, fs) \<in> set segs \<and> j \<le> 1 \<and> fit 512 (drop j fs) \<noteq> []
    \<and> sendToConsumer (\<lambda>_. 0) (\<lambda>_. 0) (demo_pull 1 512) s = Some (count, [concat (fit 512 (drop j fs))], info)"
proof -
  obtain s segs where s: "demo_log 512 = Some s" "holds s segs" "m_size s = 2"
    "ksingleFileMaxSize s = 512" "messages segs = [stamp 0 (demo_frame 7), stamp 1 (demo_frame 8)]"
    using demo_log_holds by blast
  have "demo_log 512 \<bind> (\<lambda>s. pulled (sendToConsumer (\<lambda>_. 0) (\<lambda>_. 0) (demo_pull 1 512) s)) = Some [7, 8]"
    by code_simp
  then have r: "sendToConsumer (\<lambda>_. 0) (\<lambda>_. 0) (demo_pull 1 512) s \<noteq> None"
    using s(1) by (auto simp: pulled_def)
  have cmd: "command (demo_pull 1 512) = command_code MQ_COMMAND_PULL" "unat (offset (demo_pull 1 512)) = 1"
    "max_enable (demo_pull 1 512) s = 512"
    by (simp_all add: demo_pull_def max_enable_def)
  have room: "\<forall>g \<in> set segs. length (concat (snd g)) < ksingleFileMaxSize s"
    using demo_room [OF s(5)] s(4) by simp
  have less: "unat (offset (demo_pull 1 512)) < m_size s" unfolding cmd(2) s(3) by simp
  obtain n fs j where j: "(n, fs) \<in> set segs" "j = 1 - n \<or> Suc j = 1 - n"
    "if fit 512 (drop j fs) = [] then sendToConsumer (\<lambda>_. 0) (\<lambda>_. 0) (demo_pull 1 512) s = None
     else \<exists>count. sendToConsumer (\<lambda>_. 0) (\<lambda>_. 0) (demo_pull 1 512) s =
       Some (count, [concat (fit 512 (drop j fs))], demo_pull 1 512)"
    using pull_sends_run [OF s(2) cmd(1) less room, of "\<lambda>_. 0" "\<lambda>_. 0"] unfolding cmd(2,3) by blast
  from j(2) have "j \<le> 1" by auto
  moreover have "fit 512 (drop j fs) \<noteq> []" using j(3) r by auto
  ultimately show ?thesis using s(1,2) j(1,3) by (simp only: if_False) blast
qed

text \<open>
  \<^verbatim>\<open>addToLog\<close> files a message in the index under the number of the next one: a pull of
  message 1 is answered with message 0, and a consumer whose budget is one message gets message 0
  for every pull of message 1.
\<close>

lemma pull_resends_previous:
  "demo_log 512 \<bind> (\<lambda>s. pulled (sendToConsumer (\<lambda>_. 0) (\<lambda>_. 0) (demo_pull 1 86) s)) = Some [7]"
  by code_simp

text \<open>The last message of a file that is exactly full is never sent.\<close>

lemma full_file_hides_last:
  "demo_log 172 \<bind> (\<lambda>s. pulled (sendToConsumer (\<lambda>_. 0) (\<lambda>_. 0) (demo_pull 0 (-1)) s)) = Some [7]"
  by code_simp

text \<open>A packet longer than a file is copied behind the end of the mapping.\<close>

lemma oversized_packet_overflows:
  "\<exists>s. Partition [116] 80 0 10 None = Some s \<and> addToLog (demo_msg 7) s = None"
proof -
  have "(case Partition [116] 80 0 10 None of None \<Rightarrow> False | Some s \<Rightarrow> addToLog (demo_msg 7) s = None)"
    by code_simp
  then show ?thesis by (simp split: option.splits)
qed

end
