(* ===== verification/CommitPartition.thy ===== *)
theory CommitPartition
  imports Buffer Text OrdMap
begin

text \<open>
  \<^verbatim>\<open>src/example/mqbroker/commitpartition.h\<close> and \<^verbatim>\<open>commitpartition.cpp\<close>: the offsets
  the consumer groups have committed, in memory and in a text file that a thread rewrites.

  The two files are part of the state (\<open>None\<close>: the file does not exist); their operations succeed.
  The unordered maps are association lists in the order of their iteration. One round of the thread
  is one step, as the writer works on a copy taken under the lock.
\<close>

section \<open>The offsets of one group\<close>

type_synonym commit_info = "(bytes \<times> u64) list"

definition findOffset :: "bytes \<Rightarrow> commit_info \<Rightarrow> u64" where
  "findOffset topic info = (case map_of info topic of None \<Rightarrow> 0 | Some off \<Rightarrow> off)"

definition commitOffset :: "bytes \<Rightarrow> u64 \<Rightarrow> commit_info \<Rightarrow> commit_info" where
  "commitOffset topic off info =
     (case map_of info topic of
        None \<Rightarrow> AList.update topic off info
      | Some old \<Rightarrow> if old < off then AList.update topic off info else info)"

section \<open>All groups\<close>

type_synonym commit_infos = "(u64 \<times> commit_info) list"

record commit_partition =
  m_infos :: commit_infos
  isQuit :: bool
  isDirty :: bool
  commit_file :: "bytes option"
  commit_bak :: "bytes option"

definition commit_to :: "u64 \<Rightarrow> bytes \<Rightarrow> u64 \<Rightarrow> commit_infos \<Rightarrow> commit_infos" where
  "commit_to gid topic off infos =
     (let infos' = (if map_of infos gid = None then AList.update gid [] infos else infos)
      in AList.update gid (commitOffset topic off (the (map_of infos' gid))) infos')"

definition commit :: "u64 \<Rightarrow> bytes \<Rightarrow> u64 \<Rightarrow> commit_partition \<Rightarrow> commit_partition" where
  "commit gid topic off c = c\<lparr>m_infos := commit_to gid topic off (m_infos c), isDirty := True\<rparr>"

text \<open>\<^verbatim>\<open>getOffset(int id, ...)\<close>: the group number is sign-extended to the key.\<close>

definition getOffset :: "u32 \<Rightarrow> bytes \<Rightarrow> commit_partition \<Rightarrow> u64" where
  "getOffset gid topic c =
     (case map_of (m_infos c) (scast gid) of None \<Rightarrow> 0 | Some info \<Rightarrow> findOffset topic info)"

section \<open>Writing and reading the file\<close>

definition commit_line :: "u64 \<Rightarrow> bytes \<Rightarrow> u64 \<Rightarrow> bytes" where
  "commit_line gid topic off =
     to_string (unat gid) @ [58] @ topic @ [58] @ to_string (unat off) @ [10]"

fun append_items :: "u64 \<Rightarrow> commit_info \<Rightarrow> buffer \<Rightarrow> buffer option" where
  "append_items gid [] buffer = Some buffer"
| "append_items gid ((topic, off) # info) buffer = do {
     buffer' \<leftarrow> buf_append (commit_line gid topic off) buffer;
     append_items gid info buffer'
   }"

fun append_infos :: "commit_infos \<Rightarrow> buffer \<Rightarrow> buffer option" where
  "append_infos [] buffer = Some buffer"
| "append_infos ((gid, info) # infos) buffer = do {
     buffer' \<leftarrow> append_items gid info buffer;
     append_infos infos buffer'
   }"

text \<open>
  One round of \<^verbatim>\<open>persistentToDiskInThread\<close> from the wake-up on, when \<^verbatim>\<open>isDirty\<close> is
  set; without it the thread waits on.
\<close>

definition persist_round :: "commit_partition \<Rightarrow> commit_partition option" where
  "persist_round c =
     (if isQuit c \<or> \<not> isDirty c then Some c
      else do {
        let c1 = c\<lparr>isDirty := False, commit_bak := Some []\<rparr>;
        buffer \<leftarrow> append_infos (m_infos c1) (buffer_new kInitialSize);
        Some (c1\<lparr>commit_file := Some (the (commit_bak c1) @ contents buffer), commit_bak := None\<rparr>)
      })"

text \<open>The destructor sets both flags and joins the thread, which leaves its loop.\<close>

definition commit_destroy :: "commit_partition \<Rightarrow> commit_partition option" where
  "commit_destroy c = persist_round (c\<lparr>isQuit := True, isDirty := True\<rparr>)"

fun parse_pieces :: "bytes list \<Rightarrow> nat \<Rightarrow> u64 \<times> bytes \<times> u64 \<Rightarrow> (u64 \<times> bytes \<times> u64) option" where
  "parse_pieces [] status r = Some r"
| "parse_pieces (out # outs) status (gid, topic, off) =
     (if status = 0 then do { n \<leftarrow> stol out; parse_pieces outs (status + 1) (of_int n, topic, off) }
      else if status = 1 then parse_pieces outs (status + 1) (gid, out, off)
      else if status = 2 then do { n \<leftarrow> stol out; parse_pieces outs (status + 1) (gid, topic, of_int n) }
      else do { assert_that (status > 2); parse_pieces outs status (gid, topic, off) })"

fun load_commits :: "bytes list \<Rightarrow> commit_infos \<Rightarrow> commit_infos option" where
  "load_commits [] infos = Some infos"
| "load_commits (line # lines) infos = do {
     (gid, topic, off) \<leftarrow> parse_pieces (split_at 58 line) 0 (0, [], 0);
     load_commits lines (commit_to gid topic off infos)
   }"

definition CommitPartition :: "bytes option \<Rightarrow> bytes option \<Rightarrow> commit_partition option" where
  "CommitPartition file bak = do {
     infos \<leftarrow> (case file of None \<Rightarrow> Some [] | Some text \<Rightarrow> load_commits (split_at 10 text) []);
     Some \<lparr>m_infos = infos, isQuit = False, isDirty = False, commit_file = file, commit_bak = bak\<rparr>
   }"

section \<open>What is committed\<close>

text \<open>The abstraction: the offset of a group and a topic, if there is one.\<close>

definition committed :: "commit_infos \<Rightarrow> u64 \<Rightarrow> bytes \<Rightarrow> u64 option" where
  "committed infos gid topic = (map_of infos gid \<bind> (\<lambda>info. map_of info topic))"

lemma getOffset_committed:
  "getOffset gid topic c = (case committed (m_infos c) (scast gid) topic of None \<Rightarrow> 0 | Some off \<Rightarrow> off)"
  by (simp add: getOffset_def committed_def findOffset_def split: option.split)

lemma map_of_commitOffset:
  "map_of (commitOffset topic off info) t =
     (if t = topic then Some (case map_of info topic of None \<Rightarrow> off | Some old \<Rightarrow> max old off)
      else map_of info t)"
  by (auto simp: commitOffset_def AList.update_conv' max_def split: option.split)

lemma committed_commit_to:
  "committed (commit_to gid topic off infos) g t =
     (if g = gid \<and> t = topic
      then Some (case committed infos gid topic of None \<Rightarrow> off | Some old \<Rightarrow> max old off)
      else committed infos g t)"
  by (cases "map_of infos gid")
    (simp_all add: committed_def commit_to_def Let_def AList.update_conv' map_of_commitOffset)

text \<open>The entries of all groups.\<close>

definition entries :: "commit_infos \<Rightarrow> (u64 \<times> bytes \<times> u64) list" where
  "entries infos = concat (map (\<lambda>(gid, info). map (Pair gid) info) infos)"

definition infos_ok :: "commit_infos \<Rightarrow> bool" where
  "infos_ok infos \<longleftrightarrow> distinct (map fst infos) \<and> (\<forall>(gid, info) \<in> set infos. distinct (map fst info))"

lemma infos_ok_update:
  "infos_ok infos \<Longrightarrow> distinct (map fst info) \<Longrightarrow> infos_ok (AList.update gid info infos)"
  using set_alist_update [of gid info infos]
  by (auto simp: infos_ok_def AList.distinct_update)

lemma distinct_commitOffset:
  "distinct (map fst info) \<Longrightarrow> distinct (map fst (commitOffset topic off info))"
  by (auto simp: commitOffset_def AList.distinct_update split: option.split)

lemma infos_ok_commit [keeps_wf]: "infos_ok infos \<Longrightarrow> infos_ok (commit_to gid topic off infos)"
proof -
  assume ok: "infos_ok infos"
  define infos' where "infos' = (if map_of infos gid = None then AList.update gid [] infos else infos)"
  have 1: "infos_ok infos'" using ok by (simp add: infos'_def infos_ok_update)
  have "map_of infos' gid \<noteq> None" by (simp add: infos'_def AList.update_conv')
  then obtain info where info: "map_of infos' gid = Some info" by blast
  then have "(gid, info) \<in> set infos'" by (rule map_of_SomeD)
  with 1 have "distinct (map fst info)" by (auto simp: infos_ok_def)
  then show ?thesis
    using 1 by (simp add: commit_to_def Let_def info flip: infos'_def)
      (intro infos_ok_update distinct_commitOffset)
qed

abbreviation entry_key :: "u64 \<times> bytes \<times> u64 \<Rightarrow> (u64 \<times> bytes) \<times> u64" where
  "entry_key e \<equiv> ((fst e, fst (snd e)), snd (snd e))"

lemma entries_Cons:
  "entries ((gid, info) # infos) = map (Pair gid) info @ entries infos"
  by (simp add: entries_def)

lemma map_of_info:
  "map_of (map (\<lambda>x. ((gid, fst x), snd x)) info) (g, t) = (if g = gid then map_of info t else None)"
  by (induction info) auto

lemma entries_other:
  "gid \<notin> fst ` set infos \<Longrightarrow> map_of (map entry_key (entries infos)) (gid, t) = None"
  by (force simp: map_of_eq_None_iff entries_def)

lemma map_of_entries:
  "infos_ok infos \<Longrightarrow> map_of (map entry_key (entries infos)) (g, t) = committed infos g t"
proof (induction infos)
  case Nil
  then show ?case by (simp add: entries_def committed_def)
next
  case (Cons x infos)
  obtain gid info where x: "x = (gid, info)" by (cases x)
  from Cons have IH: "map_of (map entry_key (entries infos)) (g, t) = committed infos g t"
    by (simp add: infos_ok_def)
  have "gid \<notin> fst ` set infos" using Cons.prems by (simp add: x infos_ok_def)
  then have "map_of (map entry_key (entries infos)) (gid, t) = None" by (rule entries_other)
  with IH show ?case
    by (auto simp: x entries_Cons map_of_info map_add_def committed_def comp_def split: option.split)
qed

lemma distinct_entries:
  "infos_ok infos \<Longrightarrow> distinct (map (\<lambda>e. (fst e, fst (snd e))) (entries infos))"
proof (induction infos)
  case Nil
  then show ?case by (simp add: entries_def)
next
  case (Cons x infos)
  obtain gid info where x: "x = (gid, info)" by (cases x)
  have "distinct (map fst info)" "gid \<notin> fst ` set infos" "infos_ok infos"
    using Cons.prems by (auto simp: x infos_ok_def)
  moreover have "distinct (map (\<lambda>y. (gid, fst y)) info)" if "distinct (map fst info)"
    using that by (induction info) force+
  moreover have "gid \<notin> fst ` set (entries infos)" using Cons.prems
    by (force simp: x infos_ok_def entries_def)
  ultimately show ?case
    using Cons.IH by (auto simp: x entries_Cons comp_def)
qed

section \<open>Restart\<close>

fun commit_all :: "(u64 \<times> bytes \<times> u64) list \<Rightarrow> commit_infos \<Rightarrow> commit_infos" where
  "commit_all [] infos = infos"
| "commit_all ((gid, topic, off) # es) infos = commit_all es (commit_to gid topic off infos)"

lemma committed_commit_all:
  "distinct (map (\<lambda>e. (fst e, fst (snd e))) es) \<Longrightarrow>
   \<forall>(gid, topic, off) \<in> set es. committed infos gid topic = None \<Longrightarrow>
     committed (commit_all es infos) g t =
       (case map_of (map entry_key es) (g, t) of Some off \<Rightarrow> Some off | None \<Rightarrow> committed infos g t)"
proof (induction es arbitrary: infos)
  case Nil
  then show ?case by simp
next
  case (Cons e es)
  obtain gid topic off where e: "e = (gid, topic, off)" by (cases e)
  have new: "\<forall>(gid', topic', off') \<in> set es. \<not> (gid' = gid \<and> topic' = topic)"
    using Cons.prems(1) by (force simp: e)
  have "committed (commit_all es (commit_to gid topic off infos)) g t =
      (case map_of (map entry_key es) (g, t) of Some off \<Rightarrow> Some off
       | None \<Rightarrow> committed (commit_to gid topic off infos) g t)"
    using Cons.prems new by (intro Cons.IH) (auto simp: e committed_commit_to)
  moreover have "map_of (map entry_key es) (gid, topic) = None"
    using new by (force simp: map_of_eq_None_iff)
  ultimately show ?case
    using Cons.prems(2) by (auto simp: e committed_commit_to split: option.split)
qed

text \<open>What the text format can carry: no colon and no newline in a topic, numbers that are not negative as \<^verbatim>\<open>long\<close>.\<close>

definition plain_entry :: "u64 \<times> bytes \<times> u64 \<Rightarrow> bool" where
  "plain_entry e \<longleftrightarrow> (case e of (gid, topic, off) \<Rightarrow>
     unat gid < 2 ^ 63 \<and> unat off < 2 ^ 63 \<and> topic \<noteq> [] \<and> 58 \<notin> set topic \<and> 10 \<notin> set topic)"

abbreviation entry_text :: "u64 \<times> bytes \<times> u64 \<Rightarrow> bytes" where
  "entry_text e \<equiv>
     to_string (unat (fst e)) @ [58] @ fst (snd e) @ [58] @ to_string (unat (snd (snd e)))"

lemma to_string_no: "58 \<notin> set (to_string n)" "10 \<notin> set (to_string n)"
  using to_string_digits [of n] by (force simp: is_digit_def word_le_nat_alt)+

lemma split_entry:
  "58 \<notin> set topic \<Longrightarrow> topic \<noteq> [] \<Longrightarrow>
     split_at 58 (to_string (unat gid) @ 58 # topic @ 58 # to_string (unat off)) =
       [to_string (unat gid), topic, to_string (unat off)]"
  by (simp add: split_at_line split_at_last to_string_no)

lemma parse_entry:
  assumes "plain_entry e"
  shows "parse_pieces (split_at 58 (entry_text e)) 0 (0, [], 0) = Some e"
proof -
  obtain gid topic off where e: "e = (gid, topic, off)" by (cases e)
  have n: "stol (to_string (unat gid)) = Some (int (unat gid))" "stol (to_string (unat off)) = Some (int (unat off))"
    using assms stol_to_string [of "[]"] by (auto simp: plain_entry_def e)
  show ?thesis
    using assms n by (simp add: plain_entry_def e split_entry numeral_2_eq_2)
qed

lemma load_entries:
  "\<forall>e \<in> set es. plain_entry e \<Longrightarrow> load_commits (map entry_text es) infos = Some (commit_all es infos)"
proof (induction es arbitrary: infos)
  case (Cons e es)
  obtain gid topic off where e: "e = (gid, topic, off)" by (cases e)
  have "parse_pieces (split_at 58 (entry_text e)) 0 (0, [], 0) = Some e"
    using Cons.prems by (intro parse_entry) simp
  with Cons show ?case by (simp add: e)
qed simp

lemma append_items_contents:
  "wf_buffer b \<Longrightarrow> \<exists>b'. append_items gid info b = Some b' \<and> wf_buffer b' \<and>
     contents b' = contents b @ concat (map (\<lambda>e. entry_text e @ [10]) (map (Pair gid) info))"
proof (induction info arbitrary: b)
  case (Cons x info)
  obtain topic off where x: "x = (topic, off)" by (cases x)
  obtain b1 where b1: "buf_append (commit_line gid topic off) b = Some b1" "wf_buffer b1"
    "contents b1 = contents b @ commit_line gid topic off"
    using buf_append_spec [OF Cons.prems] by blast
  from Cons.IH [OF b1(2)] b1 show ?case by (auto simp: x commit_line_def)
qed simp

lemma append_infos_contents:
  "wf_buffer b \<Longrightarrow> \<exists>b'. append_infos infos b = Some b' \<and> wf_buffer b' \<and>
     contents b' = contents b @ concat (map (\<lambda>e. entry_text e @ [10]) (entries infos))"
proof (induction infos arbitrary: b)
  case Nil
  then show ?case by (simp add: entries_def)
next
  case (Cons x infos)
  obtain gid info where x: "x = (gid, info)" by (cases x)
  from append_items_contents [OF Cons.prems, of gid info] obtain b1 where b1:
    "append_items gid info b = Some b1" "wf_buffer b1"
    "contents b1 = contents b @ concat (map (\<lambda>e. entry_text e @ [10]) (map (Pair gid) info))"
    by blast
  from Cons.IH [OF b1(2)] b1 show ?case by (auto simp: x entries_Cons)
qed

lemma persist_round_file:
  assumes "\<not> isQuit c" and "isDirty c"
  shows "persist_round c = Some (c\<lparr>isDirty := False, commit_bak := None,
    commit_file := Some (concat (map (\<lambda>e. entry_text e @ [10]) (entries (m_infos c))))\<rparr>)"
proof -
  obtain b where "append_infos (m_infos c) (buffer_new kInitialSize) = Some b"
    "contents b = concat (map (\<lambda>e. entry_text e @ [10]) (entries (m_infos c)))"
    using append_infos_contents [OF wf_buffer_new, of "m_infos c" kInitialSize] by auto
  with assms show ?thesis by (simp add: persist_round_def Let_def)
qed

section \<open>Properties\<close>

text \<open>The committed offset of a group and a topic is the greatest one committed.\<close>

lemma getOffset_commit:
  "getOffset g t (commit (scast gid) topic off c) =
     (if scast g = (scast gid :: u64) \<and> t = topic then max (getOffset gid topic c) off
      else getOffset g t c)"
  by (auto simp: getOffset_committed commit_def committed_commit_to max_def split: option.split)

text \<open>
  C17: A broker that starts on the file a round of the persisting thread wrote knows every committed
  offset, if topics are not empty and have no colon or newline and no group number or offset has its top
  bit set.
\<close>

theorem commit_restart_roundtrip:
  assumes "infos_ok (m_infos c)" and "\<forall>e \<in> set (entries (m_infos c)). plain_entry e"
    and "\<not> isQuit c" and "isDirty c"
  shows "\<exists>c1 c2. persist_round c = Some c1 \<and> CommitPartition (commit_file c1) (commit_bak c1) = Some c2
    \<and> (\<forall>g t. getOffset g t c2 = getOffset g t c)"
proof -
  let ?es = "entries (m_infos c)"
  let ?text = "concat (map (\<lambda>e. entry_text e @ [10]) ?es)"
  have nl: "\<forall>l \<in> set (map entry_text ?es). 10 \<notin> set l"
    using assms(2) to_string_no(2) by (fastforce simp: plain_entry_def split: prod.splits)
  have "split_at 10 ?text = map entry_text ?es"
    using split_at_lines [OF nl] by (simp add: comp_def)
  then have load: "load_commits (split_at 10 ?text) [] = Some (commit_all ?es [])"
    using load_entries [OF assms(2), of "[]"] by simp
  have "committed (commit_all ?es []) g t = committed (m_infos c) g t" for g t
    using committed_commit_all [OF distinct_entries [OF assms(1)], of "[]" g t] map_of_entries [OF assms(1), of g t]
    by (auto simp: committed_def split: option.split)
  then have "\<forall>g t. getOffset g t \<lparr>m_infos = commit_all ?es [], isQuit = False, isDirty = False,
      commit_file = Some ?text, commit_bak = None\<rparr> = getOffset g t c"
    by (simp add: getOffset_committed)
  with load persist_round_file [OF assms(3,4)] show ?thesis
    by (simp add: CommitPartition_def)
qed

text \<open>
  A group whose number is negative, as half of the hashed consumer names are, is written to the
  file as a number that \<^verbatim>\<open>std::stol\<close> refuses: the broker no longer starts on its own file.
\<close>

lemma negative_group_blocks_restart:
  assumes "gid <s (0 :: u32)" and "58 \<notin> set topic" and "10 \<notin> set topic" and "topic \<noteq> []"
    and "\<not> isQuit c" and "m_infos c = []"
    and "persist_round (commit (scast gid) topic off c) = Some c1"
  shows "CommitPartition (commit_file c1) (commit_bak c1) = None"
proof -
  let ?g = "scast gid :: u64"
  have "sint gid < 0" using assms(1) by (simp add: word_sless_alt)
  moreover have "- (2 ^ 31) \<le> sint gid" using sint_greater_eq [of gid] by simp
  ultimately have "(sint gid + 2 ^ 64) mod 2 ^ 64 = sint gid + 2 ^ 64"
    by (intro mod_pos_pos_trivial) simp_all
  then have "sint gid mod 2 ^ 64 = sint gid + 2 ^ 64" by simp
  moreover have "uint ?g = sint gid mod 2 ^ 64"
    unfolding scast_eq by (subst uint_word_of_int) simp
  moreover have "2 ^ 63 \<le> sint gid + 2 ^ 64" using \<open>- (2 ^ 31) \<le> sint gid\<close> by simp
  ultimately have "int (2 ^ 63) \<le> int (unat ?g)" unfolding uint_nat [symmetric] by simp
  then have big: "2 ^ 63 \<le> unat ?g" unfolding of_nat_le_iff .
  have es: "entries (m_infos (commit ?g topic off c)) = [(?g, topic, off)]"
    using assms(6) by (simp add: commit_def commit_to_def entries_def commitOffset_def)
  have "split_at 10 (entry_text (?g, topic, off) @ [10]) = [entry_text (?g, topic, off)]"
    using assms(3) by (subst split_at_line) (simp_all add: to_string_no split_at_last)
  moreover have "stol (to_string (unat ?g)) = None"
    using big stol_to_string [of "[]" "unat ?g"] by simp
  ultimately have "load_commits (split_at 10 (entry_text (?g, topic, off) @ [10])) [] = None"
    using assms(2,4) by (simp add: split_entry)
  moreover have "commit_file c1 = Some (entry_text (?g, topic, off) @ [10])"
    using persist_round_file [of "commit ?g topic off c"] assms(5,7) es by (auto simp: commit_def)
  ultimately show ?thesis by (simp add: CommitPartition_def)
qed

section \<open>Witnesses\<close>

definition demo_commits :: commit_partition where
  "demo_commits = commit 5 [97, 98] 10 (commit 9 [97] 3
     \<lparr>m_infos = [], isQuit = False, isDirty = False, commit_file = None, commit_bak = None\<rparr>)"

theorem commit_restart_roundtrip_witness:
  "\<exists>c1 c2. persist_round demo_commits = Some c1 \<and> CommitPartition (commit_file c1) (commit_bak c1) = Some c2
    \<and> getOffset 5 [97, 98] c2 = 10 \<and> getOffset 9 [97] c2 = 3 \<and> getOffset 9 [98] c2 = 0"
proof -
  have "infos_ok (m_infos demo_commits)" "\<forall>e \<in> set (entries (m_infos demo_commits)). plain_entry e"
    "\<not> isQuit demo_commits" "isDirty demo_commits"
    by (simp_all add: demo_commits_def commit_def commit_to_def commitOffset_def infos_ok_def
        entries_def plain_entry_def)
  from commit_restart_roundtrip [OF this] obtain c1 c2 where
    "persist_round demo_commits = Some c1" "CommitPartition (commit_file c1) (commit_bak c1) = Some c2"
    "\<forall>g t. getOffset g t c2 = getOffset g t demo_commits" by blast
  moreover have "getOffset 5 [97, 98] demo_commits = 10" "getOffset 9 [97] demo_commits = 3"
    "getOffset 9 [98] demo_commits = 0"
    by code_simp+
  ultimately show ?thesis by auto
qed

text \<open>Commits that no round has written when the broker stops are lost: the last round is skipped.\<close>

lemma destroy_loses_commits:
  "map_option commit_file (commit_destroy (commit gid topic off c)) = Some (commit_file c)"
  by (simp add: commit_destroy_def persist_round_def commit_def)

text \<open>A topic with a colon is cut, and what follows is taken for the offset.\<close>

lemma colon_topic_restart:
  "parse_pieces (split_at 58 (entry_text (5, [97, 58, 50], 10))) 0 (0, [], 0) = Some (5, [97], 2)"
  by code_simp

end
