(* ===== verification/Broker.thy ===== *)
theory Broker
  imports PartitionLog CommitPartition DirProto
begin

text \<open>
  \<^verbatim>\<open>src/example/mqbroker/mqbroker.h\<close> and \<^verbatim>\<open>mqbroker.cc\<close>: a broker of the message
  queue. It appends what producers deliver to the partitions of their topics, answers the pulls of
  consumers from them, and keeps subscriptions and committed offsets.

  A connection is a number; \<open>sent\<close> collects what is sent, with the connection, in order, and
  \<open>shut\<close> the connections that are shut down. Unordered maps and sets are lists in iteration
  order. \<open>disk\<close> holds the directories of partitions that are not open, by name. The handlers get the
  packet as the bytes it points to and change a copy of its header, since nothing reads the
  packet's memory again after a handler; \<open>junk\<close> and \<open>pad\<close> are the bytes of frames that nothing
  writes.
\<close>

type_synonym conn = nat

record broker =
  m_local_addr :: bytes
  m_dirpeer_conns :: "conn option list"
  m_consumer :: "(conn \<times> bytes list) list"
  m_partition :: "(bytes \<times> partition) list"
  m_messageId_set :: "u64 list"
  m_commit_partition :: commit_partition
  kFileMax :: nat
  kMsgMax :: nat
  kIndexMin :: nat
  disk :: "(bytes \<times> dir) list"
  sent :: "(conn \<times> bytes) list"
  shut :: "conn list"

definition bsend :: "conn \<Rightarrow> bytes \<Rightarrow> broker \<Rightarrow> broker" where
  "bsend conne data b = b\<lparr>sent := sent b @ [(conne, data)]\<rparr>"

definition send_each :: "conn \<Rightarrow> bytes list \<Rightarrow> broker \<Rightarrow> broker" where
  "send_each conne out b = b\<lparr>sent := sent b @ map (Pair conne) out\<rparr>"

definition set_partition :: "bytes \<Rightarrow> partition \<Rightarrow> broker \<Rightarrow> broker" where
  "set_partition topic p b = b\<lparr>m_partition := AList.update topic p (m_partition b)\<rparr>"

section \<open>Starting\<close>

definition dir_name :: "bytes \<Rightarrow> int \<Rightarrow> bytes" where
  "dir_name topic pid = topic @ [45] @ to_string_int pid"

definition open_partition :: "bytes \<Rightarrow> int \<Rightarrow> broker \<Rightarrow> broker option" where
  "open_partition topic pid b = do {
     p \<leftarrow> Partition topic (kFileMax b) (kMsgMax b) (kIndexMin b) (map_of (disk b) (dir_name topic pid));
     Some (set_partition topic p b)
   }"

definition dot :: bytes where "dot = [46]"

definition dotdot :: bytes where "dotdot = [46, 46]"

text \<open>
  The loop of \<^verbatim>\<open>init\<close> over the names of the directories; \<^verbatim>\<open>stoi\<close> stops the process on
  a name whose part behind the first dash is not a number.
\<close>

fun load_partitions :: "bytes list \<Rightarrow> broker \<Rightarrow> broker option" where
  "load_partitions [] b = Some b"
| "load_partitions (dirname # names) b =
     (if dirname = dot \<or> dirname = dotdot then load_partitions names b
      else (case find_byte 45 dirname of
          None \<Rightarrow> load_partitions names b
        | Some i \<Rightarrow> do {
            pid \<leftarrow> stoi (drop (i + 1) dirname);
            b' \<leftarrow> open_partition (take i dirname) pid b;
            load_partitions names b'
          }))"

definition MqBroker :: "bytes \<Rightarrow> nat \<Rightarrow> nat \<Rightarrow> nat \<Rightarrow> bytes option \<Rightarrow> bytes option \<Rightarrow> (bytes \<times> dir) list
    \<Rightarrow> broker option" where
  "MqBroker local_addr singleFileMax MsgBlockMax IndexMinInterval file bak dirs = do {
     c \<leftarrow> CommitPartition file bak;
     load_partitions (map fst dirs)
       \<lparr>m_local_addr = local_addr, m_dirpeer_conns = [], m_consumer = [], m_partition = [],
        m_messageId_set = [], m_commit_partition = c, kFileMax = singleFileMax * 1024,
        kMsgMax = MsgBlockMax, kIndexMin = IndexMinInterval, disk = dirs, sent = [], shut = []\<rparr>
   }"

section \<open>Producers\<close>

definition handleDeliver :: "(nat \<Rightarrow> byte) \<Rightarrow> (nat \<Rightarrow> byte) \<Rightarrow> bytes \<Rightarrow> broker \<Rightarrow> broker option" where
  "handleDeliver junk pad f b =
     (if messageId (packet_at f) \<notin> set (m_messageId_set b) then do {
        (topic, message) \<leftarrow> getTopicAndMessage f;
        let commd = (packet_at f)\<lparr>command := command_code MQ_COMMAND_PULL\<rparr>;
        tmp \<leftarrow> serializationToBuffer_message junk pad commd topic message (buffer_new kInitialSize);
        b1 \<leftarrow> (if map_of (m_partition b) topic = None then open_partition topic 0 b else Some b);
        p \<leftarrow> map_of (m_partition b1) topic;
        (tmp', p') \<leftarrow> addToLog tmp p;
        Some (set_partition topic p' b1)
      } else Some b)"

definition simpleSendReply :: "(nat \<Rightarrow> byte) \<Rightarrow> (nat \<Rightarrow> byte) \<Rightarrow> u64 \<Rightarrow> byte \<Rightarrow> conn \<Rightarrow> broker \<Rightarrow> broker option" where
  "simpleSendReply junk pad mid cmd conne b = do {
     buff \<leftarrow> createCommandMqPacket junk pad (buffer_new kInitialSize) cmd mid;
     Some (bsend conne (contents buff) b)
   }"

section \<open>Consumers\<close>

text \<open>\<^verbatim>\<open>m_consumer[conne]\<close> makes the entry if there is none.\<close>

definition consumer_topics :: "conn \<Rightarrow> broker \<Rightarrow> bytes list" where
  "consumer_topics conne b = (case map_of (m_consumer b) conne of None \<Rightarrow> [] | Some ts \<Rightarrow> ts)"

definition handleSubscribe :: "(nat \<Rightarrow> byte) \<Rightarrow> (nat \<Rightarrow> byte) \<Rightarrow> conn \<Rightarrow> bytes \<Rightarrow> broker \<Rightarrow> broker option" where
  "handleSubscribe junk pad conne f b = do {
     let msg = packet_at f;
     topic \<leftarrow> getTopic f;
     let (msg', b') =
       (if command msg = command_code MQ_COMMAND_CANCEL_SUBSCRIBE then
          (msg, b\<lparr>m_consumer := AList.update conne (removeAll topic (consumer_topics conne b)) (m_consumer b)\<rparr>)
        else if map_of (m_partition b) topic = None then (msg\<lparr>retCode := err_code UNKNOW_TOPIC\<rparr>, b)
        else (msg, b\<lparr>m_consumer := AList.update conne (List.insert topic (consumer_topics conne b)) (m_consumer b)\<rparr>));
     buff \<leftarrow> serializationToBuffer_topic junk pad msg' topic (buffer_new kInitialSize);
     Some (bsend conne (contents buff) b')
   }"

text \<open>
  A pull without a topic goes over the topics of the connection. With an offset of 0 each topic gets
  a copy of the request with the committed offset; otherwise all share the request, which
  \<^verbatim>\<open>sendToConsumer\<close> may change.
\<close>

fun pull_topics :: "(nat \<Rightarrow> byte) \<Rightarrow> (nat \<Rightarrow> byte) \<Rightarrow> conn \<Rightarrow> bytes list \<Rightarrow> mqPacket \<Rightarrow> broker \<Rightarrow> broker option" where
  "pull_topics junk pad conne [] msg b = Some b"
| "pull_topics junk pad conne (topic # topics) msg b = do {
     p \<leftarrow> map_of (m_partition b) topic;
     if offset msg = 0 then do {
       let info = msg\<lparr>offset := getOffset (consumerGroupId msg) topic (m_commit_partition b)\<rparr>;
       (count, out, info') \<leftarrow> sendToConsumer junk pad info p;
       pull_topics junk pad conne topics msg (send_each conne out b)
     } else do {
       (count, out, msg') \<leftarrow> sendToConsumer junk pad msg p;
       pull_topics junk pad conne topics msg' (send_each conne out b)
     }
   }"

definition handlePull :: "(nat \<Rightarrow> byte) \<Rightarrow> (nat \<Rightarrow> byte) \<Rightarrow> conn \<Rightarrow> bytes \<Rightarrow> broker \<Rightarrow> broker option" where
  "handlePull junk pad conne f b =
     (let msg = packet_at f in
      case map_of (m_consumer b) conne of
        None \<Rightarrow> do {
          buff \<leftarrow> serializationToBuffer junk pad
            (msg\<lparr>topicBytes := 0, retCode := err_code UNKNOW_CONSUMER\<rparr>) (buffer_new kInitialSize);
          Some (bsend conne (contents buff) b)
        }
      | Some topics \<Rightarrow>
          if topicBytes msg = 0 then pull_topics junk pad conne topics msg b
          else do {
            topic \<leftarrow> getTopic f;
            let info = (if offset msg = 0
              then msg\<lparr>offset := getOffset (consumerGroupId msg) topic (m_commit_partition b)\<rparr> else msg);
            (case map_of (m_partition b) topic of
               None \<Rightarrow> Some b
             | Some p \<Rightarrow> do {
                 (count, out, info') \<leftarrow> sendToConsumer junk pad info p;
                 Some (send_each conne out b)
               })
          })"

definition handleCommit :: "bytes \<Rightarrow> broker \<Rightarrow> broker option" where
  "handleCommit f b = do {
     topic \<leftarrow> getTopic f;
     let msg = packet_at f;
     Some (b\<lparr>m_commit_partition :=
       commit (scast (consumerGroupId msg)) topic (offset msg) (m_commit_partition b)\<rparr>)
   }"

definition removeInvaildConnection :: "conn \<Rightarrow> broker \<Rightarrow> broker" where
  "removeInvaildConnection conne b =
     (if map_of (m_consumer b) conne \<noteq> None then b\<lparr>m_consumer := AList.delete conne (m_consumer b)\<rparr> else b)"

section \<open>Receiving\<close>

definition dispatch :: "(nat \<Rightarrow> byte) \<Rightarrow> (nat \<Rightarrow> byte) \<Rightarrow> conn \<Rightarrow> bytes \<Rightarrow> broker \<Rightarrow> broker option" where
  "dispatch junk pad conne f b =
     (let msg = packet_at f in
      if command msg = command_code MQ_COMMAND_DELIVERY then do {
        b1 \<leftarrow> handleDeliver junk pad f b;
        simpleSendReply junk pad (messageId msg) (command_code MQ_COMMAND_DELIVERY) conne b1
      } else if command msg = command_code MQ_COMMAND_PULL then handlePull junk pad conne f b
      else if command msg = command_code MQ_COMMAND_CANCEL_SUBSCRIBE
        \<or> command msg = command_code MQ_COMMAND_SUBSCRIBE then handleSubscribe junk pad conne f b
      else if command msg = command_code MQ_COMMAND_COMMIT then do {
        b1 \<leftarrow> handleCommit f b;
        simpleSendReply junk pad (messageId msg) (command_code MQ_COMMAND_COMMIT) conne b1
      } else Some b)"

function broker_loop :: "(nat \<Rightarrow> byte) \<Rightarrow> (nat \<Rightarrow> byte) \<Rightarrow> conn \<Rightarrow> buffer \<Rightarrow> broker \<Rightarrow> (buffer \<times> broker) option" where
  "broker_loop junk pad conne buff b =
     (if readableBytes buff > sizeof_MqPacket then do {
        (msg, buff') \<leftarrow> serializationToMqPacket buff;
        (case msg of
           None \<Rightarrow> Some (buff', b)
         | Some f \<Rightarrow> do {
             b' \<leftarrow> dispatch junk pad conne f b;
             broker_loop junk pad conne buff' b'
           })
      } else Some (buff, b))"
  by pat_completeness auto
termination
  by (relation "measure (\<lambda>(junk, pad, conne, buff, b). readableBytes buff)")
    (auto dest: serializationToMqPacket_less)

declare broker_loop.simps [simp del]

definition onMessageFromMqBusd :: "(nat \<Rightarrow> byte) \<Rightarrow> (nat \<Rightarrow> byte) \<Rightarrow> conn \<Rightarrow> buffer \<Rightarrow> broker \<Rightarrow> (buffer \<times> broker) option" where
  "onMessageFromMqBusd junk pad conne buff b =
     (if readableBytes buff < sizeof_MqPacket then Some (buff, b\<lparr>shut := shut b @ [conne]\<rparr>)
      else broker_loop junk pad conne buff b)"

section \<open>Timers\<close>

fun sync_all :: "(bytes \<times> partition) list \<Rightarrow> (bytes \<times> partition) list option" where
  "sync_all [] = Some []"
| "sync_all ((topic, p) # ps) = do {
     p' \<leftarrow> syncTodisk p;
     ps' \<leftarrow> sync_all ps;
     Some ((topic, p') # ps')
   }"

definition persistentPartitionWithMs :: "broker \<Rightarrow> broker option" where
  "persistentPartitionWithMs b = do {
     ps \<leftarrow> sync_all (m_partition b);
     Some (b\<lparr>m_partition := ps\<rparr>)
   }"

text \<open>The timer wakes the thread that writes the commits.\<close>

definition persistentCommitWithMs :: "broker \<Rightarrow> broker option" where
  "persistentCommitWithMs b = do {
     c \<leftarrow> persist_round (m_commit_partition b);
     Some (b\<lparr>m_commit_partition := c\<rparr>)
   }"

fun append_sizes :: "(bytes \<times> partition) list \<Rightarrow> buffer \<Rightarrow> nat \<Rightarrow> (buffer \<times> nat) option" where
  "append_sizes [] buff len = Some (buff, len)"
| "append_sizes ((topic, p) # ps) buff len = do {
     let str = topic @ [58] @ to_string (getSize p) @ crlf;
     buff' \<leftarrow> buf_append str buff;
     append_sizes ps buff' (len + length str)
   }"

definition sendRegisterWithMs :: "(nat \<Rightarrow> byte) \<Rightarrow> (nat \<Rightarrow> byte) \<Rightarrow> conn \<Rightarrow> broker \<Rightarrow> broker option" where
  "sendRegisterWithMs junk pad conne b = do {
     let host = m_local_addr b;
     buff1 \<leftarrow> buf_append (pad_bytes junk 0 sizeof_DirServerPacket) (buffer_new kInitialSize);
     buff2 \<leftarrow> buf_append (host @ crlf) buff1;
     (buff3, len) \<leftarrow> append_sizes (m_partition b) buff2 (length host + 2);
     let buff4 = store_header pad \<lparr>dcommand = dir_code COMMAND_REGISTER, Msgbytes = int len\<rparr> buff3;
     Some (bsend conne (contents buff4) b)
   }"

fun register_each :: "(nat \<Rightarrow> byte) \<Rightarrow> (nat \<Rightarrow> byte) \<Rightarrow> conn option list \<Rightarrow> broker \<Rightarrow> broker option" where
  "register_each junk pad [] b = Some b"
| "register_each junk pad (None # cs) b = register_each junk pad cs b"
| "register_each junk pad (Some c # cs) b = do {
     b' \<leftarrow> sendRegisterWithMs junk pad c b;
     register_each junk pad cs b'
   }"

definition sendKeepAliveWithMs :: "(nat \<Rightarrow> byte) \<Rightarrow> (nat \<Rightarrow> byte) \<Rightarrow> broker \<Rightarrow> broker option" where
  "sendKeepAliveWithMs junk pad b = register_each junk pad (m_dirpeer_conns b) b"

text \<open>
  What a directory server answers: its acknowledgement starts, once in the life of the process, one
  more timer that registers on that connection.
\<close>

definition onMessageFromDirPeer :: "bool \<Rightarrow> buffer \<Rightarrow> (buffer \<times> bool \<times> bool) option" where
  "onMessageFromDirPeer isVaild buff = do {
     let p = drop (m_rpos buff) (m_queue buff);
     buff' \<leftarrow> updatePos sizeof_DirServerPacket buff;
     if dcommand (dir_packet_at p) = dir_code COMMAND_ACK \<and> \<not> isVaild
     then Some (buff', True, True)
     else Some (buff', isVaild, False)
   }"

end
