(* ===== verification/BrokerProps.thy ===== *)
theory BrokerProps
  imports Broker
begin

text \<open>
  What the broker promises its clients: what is stored of a delivery, who is subscribed to what, and
  which messages a pull brings.
\<close>

section \<open>Deliveries\<close>

text \<open>What a client reads in a frame: the id of the message, its topic and its text.\<close>

definition reads :: "bytes \<Rightarrow> u64 \<times> (bytes \<times> bytes) option" where
  "reads f = (messageId (packet_at f), getTopicAndMessage f)"

text \<open>A delivery as it arrives.\<close>

definition delivery :: "bytes \<Rightarrow> bytes \<Rightarrow> bool" where
  "delivery topic f \<longleftrightarrow> mq_frame f \<and> command (packet_at f) = command_code MQ_COMMAND_DELIVERY
     \<and> unat (topicBytes (packet_at f)) = length topic
     \<and> (\<exists>message. getTopicAndMessage f = Some (topic, message))"

text \<open>The frame that goes into the log for it.\<close>

definition logged :: "(nat \<Rightarrow> byte) \<Rightarrow> (nat \<Rightarrow> byte) \<Rightarrow> bytes \<Rightarrow> bytes" where
  "logged junk pad f =
     frame_image junk pad ((packet_at f)\<lparr>command := command_code MQ_COMMAND_PULL\<rparr>)
       (take (body_len (packet_at f)) (drop 72 f))"

lemma delivery_body:
  assumes "delivery topic f"
  obtains message where "getTopicAndMessage f = Some (topic, message)"
    and "take (body_len (packet_at f)) (drop 72 f) = topic @ message"
    and "unat (topicBytes (packet_at f)) = length topic" and "unat (msgBytes (packet_at f)) = length message"
    and "length f = 84 + length topic + length message"
proof -
  let ?m = "packet_at f"
  from assms obtain message where g: "getTopicAndMessage f = Some (topic, message)"
    and t: "unat (topicBytes ?m) = length topic" and f: "mq_frame f"
    by (auto simp: delivery_def)
  have len: "length f = 84 + body_len ?m" using f by (simp add: mq_frame_def MqPacketLength_body)
  from g have eq: "topic = take (unat (topicBytes ?m)) (drop 72 f)"
    "message = take (unat (msgBytes ?m)) (drop (unat (topicBytes ?m)) (drop 72 f))"
    by (auto simp: getTopicAndMessage_def Let_def layout)
  then have m: "unat (msgBytes ?m) = length message" using len by (simp add: body_len_def)
  have "take (body_len ?m) (drop 72 f) = topic @ message"
    unfolding body_len_def take_add using eq by simp
  then show thesis using that g t m len by (simp add: body_len_def)
qed

lemma getTopicAndMessage_at:
  assumes "drop 72 f = topic @ message @ rest" and "unat (topicBytes (packet_at f)) = length topic"
    and "unat (msgBytes (packet_at f)) = length message"
    and "command (packet_at f) \<noteq> command_code MQ_COMMAND_ACK"
    and "command (packet_at f) \<noteq> command_code MQ_COMMAND_HEARTBEAT"
  shows "getTopicAndMessage f = Some (topic, message)"
  using assms by (simp add: getTopicAndMessage_def Let_def layout)

lemma drop_stamp: "72 \<le> length f \<Longrightarrow> drop 72 (stamp n f) = drop 72 f"
  by (simp add: stamp_def drop_splice_at)

lemma logged_frame:
  assumes "delivery topic f"
  shows "mq_frame (logged junk pad f)" and "length (logged junk pad f) = length f"
    and "reads (stamp n (logged junk pad f)) = reads f"
proof -
  let ?m = "(packet_at f)\<lparr>command := command_code MQ_COMMAND_PULL\<rparr>"
  obtain message where msg: "getTopicAndMessage f = Some (topic, message)"
    "take (body_len (packet_at f)) (drop 72 f) = topic @ message"
    "unat (topicBytes (packet_at f)) = length topic" "unat (msgBytes (packet_at f)) = length message"
    "length f = 84 + length topic + length message"
    using delivery_body [OF assms] by metis
  have g: "logged junk pad f = frame_image junk pad ?m (topic @ message)"
    by (simp add: logged_def msg(2))
  have body: "length (topic @ message) \<le> body_len ?m" using msg by (simp add: body_len_def)
  note fr = frame_image_is_frame [OF body, of junk pad]
  show frame: "mq_frame (logged junk pad f)" unfolding g by (rule fr(1)) simp
  have at: "packet_at (logged junk pad f) = ?m" unfolding g by (rule fr(2)) simp
  show len: "length (logged junk pad f) = length f"
    using frame msg by (simp add: mq_frame_def at MqPacketLength_body body_len_def)
  have ln: "72 \<le> length (logged junk pad f)" using len msg by simp
  have at': "packet_at (stamp n (logged junk pad f)) = ?m\<lparr>offset := of_nat n\<rparr>"
    using ln by (simp add: packet_at_stamp at)
  have "take (length (topic @ message)) (drop 72 (logged junk pad f)) = topic @ message"
    unfolding g by (rule frame_image_body [OF body])
  then have "drop 72 (stamp n (logged junk pad f)) =
      topic @ message @ drop (length (topic @ message)) (drop 72 (logged junk pad f))"
    unfolding drop_stamp [OF ln] by (metis append.assoc append_take_drop_id)
  then have "getTopicAndMessage (stamp n (logged junk pad f)) = Some (topic, message)"
    by (rule getTopicAndMessage_at) (use msg at' in simp_all)
  then show "reads (stamp n (logged junk pad f)) = reads f"
    using msg(1) by (simp add: reads_def at')
qed

text \<open>The messages of a topic; a topic without a partition or a directory has none.\<close>

definition topic_log :: "broker \<Rightarrow> bytes \<Rightarrow> bytes list \<Rightarrow> bool" where
  "topic_log b topic ms \<longleftrightarrow>
     (case map_of (m_partition b) topic of
        None \<Rightarrow> ms = [] \<and> map_of (disk b) (dir_name topic 0) = None
      | Some p \<Rightarrow> partition_log p ms \<and> ksingleFileMaxSize p = kFileMax b)"

lemma handleDeliver_spec:
  assumes log: "topic_log b topic ms" and f: "delivery topic f"
    and new: "messageId (packet_at f) \<notin> set (m_messageId_set b)"
    and fit: "length f \<le> kFileMax b" "length f < 2 ^ 31" and big: "length ms + 1 < 2 ^ 64"
  shows "\<exists>b'. handleDeliver junk pad f b = Some b'
    \<and> b' = b\<lparr>m_partition := m_partition b'\<rparr>
    \<and> (\<forall>t. t \<noteq> topic \<longrightarrow> map_of (m_partition b') t = map_of (m_partition b) t)
    \<and> topic_log b' topic (ms @ [stamp (length ms) (logged junk pad f)])"
proof -
  let ?m = "(packet_at f)\<lparr>command := command_code MQ_COMMAND_PULL\<rparr>" and ?g = "logged junk pad f"
  obtain message where msg: "getTopicAndMessage f = Some (topic, message)"
    "take (body_len (packet_at f)) (drop 72 f) = topic @ message"
    "unat (topicBytes (packet_at f)) = length topic" "unat (msgBytes (packet_at f)) = length message"
    "length f = 84 + length topic + length message"
    using delivery_body [OF f] by metis
  have g: "?g = frame_image junk pad ?m (topic @ message)" by (simp add: logged_def msg(2))
  note lg = logged_frame [OF f, where junk = junk and pad = pad]
  obtain p where p: "(if map_of (m_partition b) topic = None then open_partition topic 0 b else Some b) =
      Some (if map_of (m_partition b) topic = None then set_partition topic p b else b)"
    "map_of (m_partition (if map_of (m_partition b) topic = None then set_partition topic p b else b)) topic = Some p"
    "partition_log p ms" "ksingleFileMaxSize p = kFileMax b"
  proof (cases "map_of (m_partition b) topic")
    case None
    obtain p where "Partition topic (kFileMax b) (kMsgMax b) (kIndexMin b) None = Some p"
      "holds p [(0, [])]" "ksingleFileMaxSize p = kFileMax b"
      using Partition_new by blast
    moreover from this(2) have "partition_log p []" by (force simp: partition_log_def messages_def)
    ultimately show thesis
      using None log that [of p] by (simp add: topic_log_def open_partition_def set_partition_def)
  next
    case (Some p)
    with log that [of p] show thesis by (simp add: topic_log_def)
  qed
  have len: "MqPacketLength ?m < 2 ^ 31" using fit(2) msg by (simp add: MqPacketLength_body body_len_def)
  obtain tmp where tmp: "buf_append ?g (buffer_new kInitialSize) = Some tmp"
    using buf_append_spec [OF wf_buffer_new, of ?g kInitialSize] by auto
  have ser: "serializationToBuffer_message junk pad ?m topic message (buffer_new kInitialSize) = Some tmp"
    using tmp msg len by (simp add: serializationToBuffer_message_def put_frame_def g)
  have "fits_file p ?g" using lg fit(1) p(4) by (simp add: fits_file_def)
  then obtain p' where p': "log_frame ?g p = Some p'"
    "partition_log p' (ms @ [stamp (length ms) ?g])" "fits_file p' = fits_file p"
    using plog.put_ok [OF p(3)] big by blast
  obtain tmp' where add: "addToLog tmp p = Some (tmp', p')"
    using p'(1) tmp by (auto simp: log_frame_def split: Option.bind_split_asm)
  have k: "ksingleFileMaxSize p' = kFileMax b"
  proof -
    obtain segs where segs: "holds p segs" "ms = messages segs" "m_size p = length ms"
      using p(3) partition_log_size [OF p(3)] by (auto simp: partition_log_def)
    obtain tb where tb: "buf_append ?g (buffer_new kInitialSize) = Some tb" "wf_buffer tb" "contents tb = ?g"
      using buf_append_spec [OF wf_buffer_new, of ?g kInitialSize] by auto
    with tmp have "tb = tmp" by simp
    with addToLog_spec [OF segs(1) tb(2) tb(3) lg(1)] lg(2) fit(1) p(4) big segs(3) add
    show ?thesis by (auto simp: same_shape_def)
  qed
  let ?b1 = "if map_of (m_partition b) topic = None then set_partition topic p b else b"
  have "handleDeliver junk pad f b = Some (set_partition topic p' ?b1)"
    using new msg(1) ser p(1,2) add by (simp add: handleDeliver_def Let_def del: if_split_eq1 split del: if_split)
  moreover have "\<forall>t. t \<noteq> topic \<longrightarrow>
      map_of (m_partition (set_partition topic p' ?b1)) t = map_of (m_partition b) t"
    by (simp add: set_partition_def)
  moreover have "topic_log (set_partition topic p' ?b1) topic (ms @ [stamp (length ms) ?g])"
    using p'(2) k by (simp add: topic_log_def set_partition_def)
  moreover have "set_partition topic p' ?b1 =
      b\<lparr>m_partition := m_partition (set_partition topic p' ?b1)\<rparr>"
    by (simp add: set_partition_def)
  ultimately show ?thesis by blast
qed

lemma handleDeliver_stores:
  assumes "topic_log b topic ms" and "delivery topic f" and "messageId (packet_at f) \<notin> set (m_messageId_set b)"
    and "length f \<le> kFileMax b" and "length f < 2 ^ 31" and "length ms + 1 < 2 ^ 64"
  shows "\<exists>b' g. handleDeliver junk pad f b = Some b' \<and> topic_log b' topic (ms @ [g]) \<and> reads g = reads f
    \<and> stored (length ms) g \<and> (\<forall>t. t \<noteq> topic \<longrightarrow> map_of (m_partition b') t = map_of (m_partition b) t)"
proof -
  have "stored (length ms) (stamp (length ms) (logged junk pad f))"
    by (rule stored_stamp(1) [OF logged_frame(1) [OF assms(2)]]) (use assms(6) in simp)
  with handleDeliver_spec [OF assms] logged_frame(3) [OF assms(2)] show ?thesis by metis
qed

section \<open>Subscriptions\<close>

datatype broker_event =
    Recv "nat \<Rightarrow> byte" "nat \<Rightarrow> byte" conn buffer
  | Closed conn
  | Sync_Partitions
  | Sync_Commits
  | Keep_Alive "nat \<Rightarrow> byte" "nat \<Rightarrow> byte"

fun broker_step :: "broker_event \<Rightarrow> broker \<Rightarrow> broker option" where
  "broker_step (Recv junk pad conne buff) b = map_option snd (onMessageFromMqBusd junk pad conne buff b)"
| "broker_step (Closed conne) b = Some (removeInvaildConnection conne b)"
| "broker_step Sync_Partitions b = persistentPartitionWithMs b"
| "broker_step Sync_Commits b = persistentCommitWithMs b"
| "broker_step (Keep_Alive junk pad) b = sendKeepAliveWithMs junk pad b"

fun broker_run :: "broker_event list \<Rightarrow> broker \<Rightarrow> broker option" where
  "broker_run [] b = Some b"
| "broker_run (e # es) b = (broker_step e b \<bind> broker_run es)"

text \<open>A connection is only ever subscribed to topics that have a partition.\<close>

definition subs_ok :: "broker \<Rightarrow> bool" where
  "subs_ok b \<longleftrightarrow> (\<forall>(c, ts) \<in> set (m_consumer b). \<forall>t \<in> set ts. map_of (m_partition b) t \<noteq> None)"

text \<open>Partitions stay; subscriptions are as they were.\<close>

definition grows :: "broker \<Rightarrow> broker \<Rightarrow> bool" where
  "grows b b' \<longleftrightarrow> m_consumer b' = m_consumer b
     \<and> (\<forall>t. map_of (m_partition b) t \<noteq> None \<longrightarrow> map_of (m_partition b') t \<noteq> None)
     \<and> m_messageId_set b' = m_messageId_set b"

lemma grows_refl [simp]: "grows b b"
  by (simp add: grows_def)

lemma grows_trans: "grows a b \<Longrightarrow> grows b c \<Longrightarrow> grows a c"
  by (simp add: grows_def)

lemma grows_send [simp]: "grows b (bsend c d b)" "grows b (send_each c out b)"
  by (simp_all add: grows_def bsend_def send_each_def)

lemma subs_ok_grows: "grows b b' \<Longrightarrow> subs_ok b \<Longrightarrow> subs_ok b'"
  by (fastforce simp: grows_def subs_ok_def)

lemma grows_set_partition [simp]: "grows b (set_partition t p b)"
  by (simp add: grows_def set_partition_def)

lemma handleDeliver_grows:
  assumes "handleDeliver junk pad f b = Some b'"
  shows "grows b b'"
proof (cases "messageId (packet_at f) \<in> set (m_messageId_set b)")
  case True
  with assms show ?thesis by (simp add: handleDeliver_def)
next
  case False
  with assms obtain topic b1 p where
    b1: "(if map_of (m_partition b) topic = None then open_partition topic 0 b else Some b) = Some b1"
    and b': "b' = set_partition topic p b1"
    by (auto simp: handleDeliver_def Let_def split: Option.bind_split_asm prod.split_asm)
  have "grows b b1"
    using b1 by (auto simp: open_partition_def split: if_split_asm Option.bind_split_asm)
  then show ?thesis unfolding b' by (rule grows_trans) simp
qed

lemma pull_topics_grows: "pull_topics junk pad c ts msg b = Some b' \<Longrightarrow> grows b b'"
proof (induction ts arbitrary: msg b)
  case (Cons t ts)
  then show ?case
    by (auto simp: Let_def split: Option.bind_split_asm if_split_asm prod.split_asm
        intro: grows_trans [OF grows_send(2)])
qed simp

lemma handlePull_grows: "handlePull junk pad c f b = Some b' \<Longrightarrow> grows b b'"
  by (auto simp: handlePull_def Let_def dest: pull_topics_grows
      split: option.split_asm Option.bind_split_asm if_split_asm prod.split_asm)

lemma handleCommit_grows: "handleCommit f b = Some b' \<Longrightarrow> grows b b'"
  by (auto simp: handleCommit_def Let_def grows_def split: Option.bind_split_asm)

lemma simpleSendReply_grows: "simpleSendReply junk pad mid cmd c b = Some b' \<Longrightarrow> grows b b'"
  by (auto simp: simpleSendReply_def split: Option.bind_split_asm)

lemma handleSubscribe_subs:
  assumes "handleSubscribe junk pad c f b = Some b'" and "subs_ok b"
  shows "subs_ok b' \<and> m_messageId_set b' = m_messageId_set b"
proof -
  have old: "\<forall>t \<in> set (consumer_topics c b). map_of (m_partition b) t \<noteq> None"
  proof (cases "map_of (m_consumer b) c")
    case (Some ts)
    then have "(c, ts) \<in> set (m_consumer b)" by (rule map_of_SomeD)
    with assms(2) have "\<forall>t \<in> set ts. map_of (m_partition b) t \<noteq> None"
      unfolding subs_ok_def by blast
    with Some show ?thesis by (simp add: consumer_topics_def)
  qed (simp add: consumer_topics_def)
  have upd: "subs_ok (b\<lparr>m_consumer := AList.update c ts (m_consumer b)\<rparr>)"
    if "\<forall>t \<in> set ts. map_of (m_partition b) t \<noteq> None" for ts
  proof -
    have "\<forall>t \<in> set us. map_of (m_partition b) t \<noteq> None"
      if "(d, us) \<in> set (AList.update c ts (m_consumer b))" for d us
    proof -
      from that set_alist_update [of c ts "m_consumer b"] have "us = ts \<or> (d, us) \<in> set (m_consumer b)"
        by blast
      with \<open>\<forall>t \<in> set ts. map_of (m_partition b) t \<noteq> None\<close> assms(2) show ?thesis
        unfolding subs_ok_def by blast
    qed
    then show ?thesis unfolding subs_ok_def by auto
  qed
  have send: "subs_ok (bsend x y z) \<longleftrightarrow> subs_ok z" "m_messageId_set (bsend x y z) = m_messageId_set z" for x y z
    by (simp_all add: subs_ok_def bsend_def)
  have rem: "\<forall>t \<in> set (removeAll x (consumer_topics c b)). map_of (m_partition b) t \<noteq> None" for x
    using old by simp
  have ins: "\<forall>t \<in> set (List.insert x (consumer_topics c b)). map_of (m_partition b) t \<noteq> None"
    if "map_of (m_partition b) x \<noteq> None" for x
    using old that by simp
  show ?thesis
    using assms(1) assms(2) upd [OF rem] upd [OF ins]
    unfolding handleSubscribe_def Let_def
    by (simp split: Option.bind_split_asm if_split_asm prod.split_asm) (auto simp: send)
qed

text \<open>What every step keeps.\<close>

definition keeps :: "broker \<Rightarrow> broker \<Rightarrow> bool" where
  "keeps b b' \<longleftrightarrow> (subs_ok b \<longrightarrow> subs_ok b') \<and> m_messageId_set b' = m_messageId_set b"

lemma keeps_refl [simp]: "keeps b b"
  by (simp add: keeps_def)

lemma keeps_trans: "keeps a b \<Longrightarrow> keeps b c \<Longrightarrow> keeps a c"
  by (simp add: keeps_def)

lemma grows_keeps: "grows b b' \<Longrightarrow> keeps b b'"
  using subs_ok_grows by (auto simp: keeps_def grows_def)

lemma handleSubscribe_keeps:
  assumes "handleSubscribe junk pad c f b = Some b'"
  shows "keeps b b'"
proof -
  have "m_messageId_set b' = m_messageId_set b"
    using assms by (auto simp: handleSubscribe_def Let_def bsend_def
        split: Option.bind_split_asm if_split_asm prod.split_asm)
  with handleSubscribe_subs [OF assms] show ?thesis by (auto simp: keeps_def)
qed

lemma dispatch_keeps:
  assumes "dispatch junk pad c f b = Some b'"
  shows "keeps b b'"
proof -
  have reply: "keeps b b'" if "grows b b1" "simpleSendReply junk pad mid cmd c b1 = Some b'" for b1 mid cmd
    using grows_trans [OF that(1) simpleSendReply_grows [OF that(2)]] by (rule grows_keeps)
  from assms show ?thesis
    unfolding dispatch_def Let_def
    by (auto split: if_split_asm Option.bind_split_asm
        dest: handleSubscribe_keeps grows_keeps [OF handlePull_grows]
        intro: reply [OF handleDeliver_grows] reply [OF handleCommit_grows])
qed

lemma broker_loop_keeps: "broker_loop junk pad c buff b = Some (buff', b') \<Longrightarrow> keeps b b'"
proof (induction junk pad c buff b rule: broker_loop.induct)
  case (1 junk pad c buff b)
  show ?case
  proof (cases "readableBytes buff > sizeof_MqPacket")
    case False
    with "1.prems" show ?thesis by (subst (asm) broker_loop.simps) simp
  next
    case True
    with "1.prems" obtain msg buff1 where 2: "serializationToMqPacket buff = Some (msg, buff1)"
      by (subst (asm) broker_loop.simps) (auto split: Option.bind_split_asm)
    show ?thesis
    proof (cases msg)
      case None
      with True 2 "1.prems" show ?thesis by (subst (asm) broker_loop.simps) simp
    next
      case (Some f)
      with True 2 "1.prems" obtain b1 where 3: "dispatch junk pad c f b = Some b1"
        and 4: "broker_loop junk pad c buff1 b1 = Some (buff', b')"
        by (subst (asm) broker_loop.simps) (auto split: Option.bind_split_asm)
      have "keeps b1 b'" by (rule "1.IH" [OF True 2 refl Some 3 4])
      with dispatch_keeps [OF 3] show ?thesis by (rule keeps_trans)
    qed
  qed
qed

lemma sync_all_keys: "sync_all ps = Some ps' \<Longrightarrow> map fst ps' = map fst ps"
  by (induction ps arbitrary: ps') (auto split: Option.bind_split_asm)

lemma map_of_keys: "map fst ps' = map fst ps \<Longrightarrow> map_of ps' t = None \<longleftrightarrow> map_of ps t = None"
  by (metis list.set_map map_of_eq_None_iff)

lemma register_each_grows: "register_each junk pad cs b = Some b' \<Longrightarrow> grows b b'"
proof (induction junk pad cs b rule: register_each.induct)
  case (3 junk pad c cs b)
  then obtain b1 where 1: "sendRegisterWithMs junk pad c b = Some b1" "register_each junk pad cs b1 = Some b'"
    by (auto split: Option.bind_split_asm)
  then have "grows b b1" by (auto simp: sendRegisterWithMs_def Let_def split: Option.bind_split_asm)
  with 1 3 show ?case by (metis grows_trans)
qed auto

lemma broker_step_keeps:
  assumes "broker_step e b = Some b'"
  shows "keeps b b'"
proof (cases e)
  case (Recv junk pad c buff)
  with assms obtain buff' where r: "onMessageFromMqBusd junk pad c buff b = Some (buff', b')" by auto
  show ?thesis
  proof (cases "readableBytes buff < sizeof_MqPacket")
    case True
    with r have "grows b b'" by (auto simp: onMessageFromMqBusd_def grows_def)
    then show ?thesis by (rule grows_keeps)
  next
    case False
    with r show ?thesis by (auto simp: onMessageFromMqBusd_def dest: broker_loop_keeps)
  qed
next
  case (Closed c)
  have "subs_ok (b\<lparr>m_consumer := AList.delete c (m_consumer b)\<rparr>)" if "subs_ok b"
    using that subsetD [OF set_alist_delete [of c "m_consumer b"]] unfolding subs_ok_def by fastforce
  with assms Closed show ?thesis by (auto simp: keeps_def removeInvaildConnection_def)
next
  case Sync_Partitions
  with assms obtain ps where ps: "sync_all (m_partition b) = Some ps" "b' = b\<lparr>m_partition := ps\<rparr>"
    by (auto simp: persistentPartitionWithMs_def split: Option.bind_split_asm)
  then have "grows b b'" using map_of_keys [OF sync_all_keys [OF ps(1)]] by (auto simp: grows_def)
  then show ?thesis by (rule grows_keeps)
next
  case Sync_Commits
  with assms obtain c where "b' = b\<lparr>m_commit_partition := c\<rparr>"
    by (auto simp: persistentCommitWithMs_def split: Option.bind_split_asm)
  then have "grows b b'" by (simp add: grows_def)
  then show ?thesis by (rule grows_keeps)
next
  case (Keep_Alive junk pad)
  with assms show ?thesis
    by (auto simp: sendKeepAliveWithMs_def dest: register_each_grows intro: grows_keeps)
qed

lemma broker_run_keeps: "broker_run es b = Some b' \<Longrightarrow> keeps b b'"
  by (induction es arbitrary: b) (auto split: Option.bind_split_asm dest: broker_step_keeps intro: keeps_trans)

lemma load_partitions_empty:
  "load_partitions names b = Some b' \<Longrightarrow> m_consumer b' = m_consumer b \<and> m_messageId_set b' = m_messageId_set b"
  by (induction names arbitrary: b)
    (auto simp: open_partition_def set_partition_def split: if_split_asm option.split_asm Option.bind_split_asm)

section \<open>Properties\<close>

text \<open>
  The set of message ids that is meant to catch repeated deliveries stays empty for ever: the same
  packet delivered again, at any later time, is stored again.
\<close>

lemma repeat_stored_again:
  assumes "MqBroker addr big blk iv file bak dirs = Some b0" and "broker_run es b0 = Some b"
    and "topic_log b topic ms" and "delivery topic f"
    and "length f \<le> kFileMax b" and "length f < 2 ^ 31" and "length ms + 2 < 2 ^ 64"
  shows "\<exists>b1 b2 g h. handleDeliver junk pad f b = Some b1 \<and> handleDeliver junk pad f b1 = Some b2
    \<and> topic_log b2 topic (ms @ [g, h]) \<and> reads g = reads f \<and> reads h = reads f"
proof -
  have "m_messageId_set b0 = []"
    using assms(1) by (auto simp: MqBroker_def dest!: load_partitions_empty split: Option.bind_split_asm)
  with broker_run_keeps [OF assms(2)] have none: "m_messageId_set b = []" by (simp add: keeps_def)
  let ?g = "\<lambda>n. stamp n (logged junk pad f)"
  from handleDeliver_spec [OF assms(3,4) _ assms(5,6), of junk pad] none assms(7)
  obtain b1 where b1: "handleDeliver junk pad f b = Some b1" "b1 = b\<lparr>m_partition := m_partition b1\<rparr>"
    "topic_log b1 topic (ms @ [?g (length ms)])" by auto
  have same: "m_messageId_set b1 = []" "kFileMax b1 = kFileMax b"
    using none by (subst b1(2), simp)+
  from handleDeliver_spec [OF b1(3) assms(4), of junk pad] same assms(5-7)
  obtain b2 where b2: "handleDeliver junk pad f b1 = Some b2"
    "topic_log b2 topic ((ms @ [?g (length ms)]) @ [?g (length (ms @ [?g (length ms)]))])" by auto
  show ?thesis
    using b1(1) b2 logged_frame(3) [OF assms(4)]
    by (intro exI [of _ b1] exI [of _ b2] exI [of _ "?g (length ms)"] exI [of _ "?g (Suc (length ms))"]) simp
qed

text \<open>
  Whatever a broker receives and whichever timers fire, every subscription is to a topic that has
  a partition, so that the assertion of a pull over all topics of a connection never fails.
\<close>

lemma subscribed_topics_exist:
  assumes "MqBroker addr big blk iv file bak dirs = Some b0" and "broker_run es b0 = Some b"
    and "map_of (m_consumer b) conne = Some topics" and "t \<in> set topics"
  shows "\<exists>p. map_of (m_partition b) t = Some p"
proof -
  have "subs_ok b0"
    using assms(1) by (auto simp: MqBroker_def subs_ok_def dest!: load_partitions_empty split: Option.bind_split_asm)
  with broker_run_keeps [OF assms(2)] have "subs_ok b" by (simp add: keeps_def)
  moreover have "(conne, topics) \<in> set (m_consumer b)" using assms(3) by (rule map_of_SomeD)
  ultimately show ?thesis using assms(4) unfolding subs_ok_def by blast
qed

section \<open>Witnesses\<close>

definition demo_broker :: "broker option" where
  "demo_broker = MqBroker [104, 58, 49] 1 0 10 None None []"

lemma demo_broker_new:
  "\<exists>b. demo_broker = Some b \<and> topic_log b [116] [] \<and> kFileMax b = 1024 \<and> m_messageId_set b = []"
  by (simp add: demo_broker_def MqBroker_def CommitPartition_def topic_log_def)

lemma demo_delivery: "delivery [116] (demo_frame 7)"
proof -
  have "getTopicAndMessage (demo_frame 7) = Some ([116], [7])"
    "command (packet_at (demo_frame 7)) = command_code MQ_COMMAND_DELIVERY"
    "unat (topicBytes (packet_at (demo_frame 7))) = 1"
    by code_simp+
  with demo_frames(5) show ?thesis by (simp add: delivery_def)
qed

definition demo_subscribe :: bytes where
  "demo_subscribe =
     header_bytes (\<lambda>_. 0) (mqPacket_default\<lparr>command := command_code MQ_COMMAND_SUBSCRIBE,
         consumerGroupId := 0, topicBytes := 1\<rparr>)
       @ [116] @ [255, 255, 255, 255] @ replicate 8 0"

text \<open>A broker that finds the directory of topic t when it starts.\<close>

definition demo_restarted :: "broker option" where
  "demo_restarted = MqBroker [104, 58, 49] 1 0 10 None None [([116, 45, 48], [])]"

lemma demo_restarted_has:
  "case demo_restarted of None \<Rightarrow> False | Some b \<Rightarrow> map_of (m_partition b) [116] \<noteq> None \<and> m_consumer b = []"
  by code_simp

definition demo_sub_msg :: buffer where
  "demo_sub_msg = \<lparr>m_wpos = 85, m_rpos = 0, m_queue = demo_subscribe\<rparr>"

lemma demo_sub_received:
  obtains buff where "serializationToMqPacket demo_sub_msg = Some (Some demo_subscribe, buff)" "readableBytes buff = 0"
    and "readableBytes demo_sub_msg = 85"
    and "getTopic demo_subscribe = Some [116]"
    and "command (packet_at demo_subscribe) = command_code MQ_COMMAND_SUBSCRIBE"
proof -
  have "case serializationToMqPacket demo_sub_msg of Some (Some f, buff) \<Rightarrow> f = demo_subscribe \<and> readableBytes buff = 0
      | _ \<Rightarrow> False" by code_simp
  moreover have "readableBytes demo_sub_msg = 85" "getTopic demo_subscribe = Some [116]"
    "command (packet_at demo_subscribe) = command_code MQ_COMMAND_SUBSCRIBE" by code_simp+
  ultimately show thesis using that by (auto split: option.split_asm prod.split_asm)
qed

text \<open>The answer to a subscription is short.\<close>

lemma demo_answer:
  obtains tmp where "serializationToBuffer_topic (\<lambda>_. 0) (\<lambda>_. 0) (packet_at demo_subscribe) [116]
    (buffer_new kInitialSize) = Some tmp"
proof -
  have "unat (topicBytes (packet_at demo_subscribe)) = 1" "MqPacketLength (packet_at demo_subscribe) = 85"
    by code_simp+
  moreover obtain tmp where "buf_append (frame_image (\<lambda>_. 0) (\<lambda>_. 0) (packet_at demo_subscribe) [116])
      (buffer_new kInitialSize) = Some tmp"
    using buf_append_spec [OF wf_buffer_new] by blast
  ultimately show thesis using that by (simp add: serializationToBuffer_topic_def put_frame_def)
qed

end
