(* ===== verification/Spec2Isabelle.thy ===== *)
theory Spec2Isabelle
  imports UdpConnection ThreadPool TcpServer Logging BTree ShamHash ShamQueue Memcached HttpServer TimerQueue Poll Connector TcpClient EventLoop
    RaftProps ProducerProps ConsumerProps DirServer BrokerProps
begin

text \<open>
  SkyLu is a C++ network library (event loops, buffers, TCP connections, and containers, under
  \<^verbatim>\<open>src/skylu\<close>) and a set of servers built on it (under \<^verbatim>\<open>src/example\<close>): a Raft node, a
  message queue made of directory servers, brokers, producers and consumers, an HTTP server and a memcached. This development models
  the logic of the servers and of the parts of the library that carry it, as functions on explicit
  states, and proves what makes them correct, or what the code does instead.

  \<^bold>\<open>How the parts work together.\<close> A Raft cluster replicates a log by datagrams: a timer calls
  \<^verbatim>\<open>tick\<close>, the socket calls \<^verbatim>\<open>recvMessage\<close>, a client's command goes through
  \<^verbatim>\<open>emit\<close>. In the message queue a broker registers its address and topics with the
  directory servers; producers and consumers ask them for brokers. A producer gives every message an id
  (Snowflake), chooses the broker of its topic by consistent hashing, sends the message in a packet and
  keeps it until the broker answers. The broker appends the packet to the log of the topic's partition. A
  consumer subscribes to topics, pulls from the offset it committed, and commits; the broker keeps the
  offsets of consumer groups in a file. All of them receive bytes into a \<^verbatim>\<open>Buffer\<close> and cut
  packets from it.

  \<^bold>\<open>Conventions.\<close> Code that aborts (a failed assertion, an uncaught exception, a null pointer that is
  read, undefined behaviour) has the value \<open>None\<close>; \<open>assert_that\<close> is the assertion. Machine integers
  that may wrap are words (\<open>byte\<close>, \<open>u32\<close>, \<open>u64\<close>), sizes are naturals. Inputs that the code
  takes from its surroundings are arguments: the clock, what a system call returns, bytes that nothing
  initialises (\<open>junk\<close>, \<open>pad\<close>), the applier and the snapshots of a Raft node. Output is collected
  in a field of the state. \<^verbatim>\<open>std::map\<close> is an association list sorted by key (\<open>ord_map\<close>);
  \<^verbatim>\<open>std::unordered_map\<close> and \<^verbatim>\<open>unordered_set\<close> are lists in iteration order, and
  properties hold for every order. What the components log is not modelled. A callback or timer is one step, since
  each loop runs them one after the other; where a second thread takes part, the theory says which lock
  makes a step of it.

  \<^bold>\<open>Libraries.\<close> \<open>Prelude\<close> has the assertion, loops that may abort, and byte strings;
  \<open>Interfaces\<close> the locales \<open>byte_fifo\<close> (interpreted on \<open>Buffer\<close>), \<open>framing\<close> (on the packets of
  the message queue), \<open>message_log\<close> (on the partition) and \<open>id_source\<close> (on Snowflake), with the lemmas
  that clients need of them; \<open>Text\<close> and \<open>OrdMap\<close> model the routines and containers of the standard
  library that the code uses.

  \<^bold>\<open>Raft\<close> (\<^verbatim>\<open>src/example/raft_server/raft.h\<close>, \<^verbatim>\<open>raft.cc\<close>,
  \<^verbatim>\<open>proto.h\<close>, and the command line of \<^verbatim>\<open>raftserver.cpp\<close>). \<open>RaftTypes\<close> has the
  structures, \<open>Raft\<close> every function under its own name. \<open>Voting\<close> is the abstract protocol of votes
  and the locale \<open>simulation\<close>; \<open>RaftElection\<close> shows that the nodes follow it, from which at most one
  node leads a term at a time, and that a node votes once in a term, and has the two scenarios where the
  code does worse. \<open>RaftLog\<close> has the invariant of the ring and one lemma per operation, \<open>RaftSync\<close>
  what a leader and a follower do with each other's messages when entries are sent in chunks (one exchange of
  messages per missing byte is enough fuel, as every exchange moves at least one byte), \<open>RaftProps\<close>
  the properties of the log.

  \<^bold>\<open>Bytes and packets.\<close> \<open>Buffer\<close> (\<^verbatim>\<open>src/skylu/net/buffer.h\<close>, \<^verbatim>\<open>buffer.cc\<close>)
  refines an unbounded queue of bytes. \<open>MqProto\<close> (\<^verbatim>\<open>src/skylu/proto/mq_proto.h\<close>,
  \<^verbatim>\<open>mq_proto.cc\<close>) has the packets and the round trip through any chopping of the stream.
  \<open>DirProto\<close> (\<^verbatim>\<open>src/skylu/proto/dirserver_proto.h\<close>, \<^verbatim>\<open>dirserver_proto.cc\<close>) has
  registrations and directories.

  \<^bold>\<open>The message queue.\<close> \<open>Snowflake\<close> (\<^verbatim>\<open>src/skylu/base/snowflake.h\<close>): ids increase and
  differ between workers. \<open>HashRing\<close> (\<^verbatim>\<open>src/skylu/base/consistenthash.hpp\<close>): the hash and
  the ring. \<open>Partition\<close> and \<open>PartitionLog\<close> (\<^verbatim>\<open>src/example/mqbroker/partition.h\<close>,
  \<^verbatim>\<open>partition.cc\<close>): the files of a topic refine the list of its messages, and what a pull
  brings. \<open>CommitPartition\<close> (\<^verbatim>\<open>commitpartition.h\<close>, \<^verbatim>\<open>commitpartition.cpp\<close>): the
  offsets and the file they are written to. \<open>Broker\<close> and \<open>BrokerProps\<close>
  (\<^verbatim>\<open>mqbroker.h\<close>, \<^verbatim>\<open>mqbroker.cc\<close>): the handlers and timers, and what they keep
  along any run. \<open>DirServer\<close> (\<^verbatim>\<open>src/example/dirserver\<close>): registration, requests, and the
  heartbeat timer. \<open>MqBusd\<close>, \<open>Producer\<close>, \<open>ProducerProps\<close>, \<open>Consumer\<close>, \<open>ConsumerProps\<close>
  (\<^verbatim>\<open>src/example/mqbusd\<close>): the clients; their records extend that of the base class as the
  classes do. This theory has what spans a client and a broker: a message from the producer's queue to
  the broker's log, and a commit from the consumer to the broker's offsets.

  \<^bold>\<open>The network library\<close> (\<^verbatim>\<open>src/skylu/net\<close>). \<open>EventLoop\<close> has the queue of functors and its
  wake-up descriptor: functors run once each, in the order they were queued, and only those that the loop's own
  thread queued while it was not running may wait for a poll to time out.
  \<open>Poll\<close> has channels and the two poll objects; both refine one set of watched descriptors through the locale
  \<open>event_poll\<close>, and agree with each other. \<open>TimerQueue\<close> has the two ordered sets of timers, kept
  consistent by every operation, and the expiry, which runs every timer that is due, in order and in time.
  \<open>TcpConnection\<close> has the states of a connection and its output: what is sent comes out once and in order,
  but for the sends that are dropped (a write that fails, the rest of a file), and while the socket takes
  bytes all that waits does. \<open>Connector\<close> has the states of an attempt to connect, its
  channel and its growing pause; \<open>TcpClient\<close> the client around it, with addresses and connection names. The
  results of system calls (\<open>sys_write\<close>, the number of an error, the clock) are arguments of a step.

  \<^bold>\<open>HTTP and memcached.\<close> \<open>HttpRequest\<close> and \<open>HttpServer\<close>
  (\<^verbatim>\<open>src/example/http\<close>): the parser on the connection's buffer, with the round trip of a printed
  request; the answers and what becomes of the connection. The file system and the results of reading from a
  CGI program are arguments. \<open>Memcached\<close> (\<^verbatim>\<open>src/example/memcached\<close>): the table in shards,
  the commands of a session and the append-only file, which brings the table back after a restart when no two
  commands fall into one second. Loops that may not end (\<open>parse_loop\<close>, \<open>load_loop\<close>) are partial
  functions, whose results the theorems state outright.

  \<^bold>\<open>Search trees and shared memory.\<close> \<open>BTree\<close> (\<^verbatim>\<open>src/skylu/base/tree.h\<close>,
  \<^verbatim>\<open>btree.cc\<close>): insertion and deletion, with what lies in the arrays behind the last key, refine a
  sorted list. \<open>ShamPool\<close> (\<^verbatim>\<open>src/skylu/base/shampool.hpp\<close>): the blocks and the free list in the
  bytes of a region that several processes map at different addresses; they share a heap of nodes. \<open>ShamHash\<close>
  (\<^verbatim>\<open>shamhash.hpp\<close>): the hash table on the pool is a finite map, also for a process that opens it
  again. \<open>ShamQueue\<close> (\<^verbatim>\<open>shamqueue.cc\<close>): the statements of concurrent writers and readers, a
  first-in first-out queue with one reader, which does not get stuck.

  \<^bold>\<open>Logging.\<close> \<open>Logging\<close> (\<^verbatim>\<open>src/skylu/base/log.h\<close>, \<^verbatim>\<open>log.cc\<close>): the patterns of
  formatters, with a round trip, and to which appenders an event goes, when no formatter is null.

  \<^bold>\<open>Datagrams.\<close> \<open>UdpConnection\<close> (\<^verbatim>\<open>src/skylu/net/udpconnection.h\<close>,
  \<^verbatim>\<open>udpconnection.cc\<close>): what is sent to which address, and how a send that would block ends it.

  \<^bold>\<open>Threads.\<close> \<open>TcpServer\<close> (\<^verbatim>\<open>src/skylu/net/tcpserver.h\<close>,
  \<^verbatim>\<open>tcpserver.cc\<close>, \<^verbatim>\<open>eventloopthreadpool.cc\<close>): a server and the loops of its pool, in any
  interleaving of their threads: no assertion fails, connections go to the loops in turn, and the tasks that close
  them run dry. \<open>ThreadPool\<close> (\<^verbatim>\<open>src/skylu/base/threadpool.h\<close>, \<^verbatim>\<open>threadpool.cc\<close>,
  \<^verbatim>\<open>safequeue.h\<close>, \<^verbatim>\<open>thread.cc\<close>): no task is left behind while threads sleep, and
  \<^verbatim>\<open>join\<close>, which may not come back.

  \<^bold>\<open>Not modelled.\<close> Locks, sockets, files and processes themselves
  (\<^verbatim>\<open>mutex.h\<close>, \<^verbatim>\<open>socket\<close>, \<^verbatim>\<open>file\<close>,
  \<^verbatim>\<open>daemon\<close>), which only call the system; how a loop's thread
  makes its loop; the B+ tree, which no other part uses; the making of shared
  memory (\<^verbatim>\<open>shammem\<close>); \<^verbatim>\<open>main\<close> functions, which read options and start servers. The
  JSON of a Raft server's clients is that of the library jansson, so its applier and its snapshots are
  arguments of the node.
\<close>

section \<open>From the producer to the log\<close>

text \<open>What a producer serialises is a delivery in the sense of the broker.\<close>

lemma delivery_packet_frame:
  fixes junk pad :: "nat \<Rightarrow> byte" and now i :: u64
  assumes "length topic + length message < 2 ^ 31"
  defines "m \<equiv> delivery_packet now (i, topic, message)"
  shows "delivery topic (frame_image junk pad m (topic @ message))"
    and "reads (frame_image junk pad m (topic @ message)) = (i, Some (topic, message))"
    and "length (frame_image junk pad m (topic @ message)) = 84 + length topic + length message"
proof -
  let ?f = "frame_image junk pad m (topic @ message)"
  have m: "unat (topicBytes m) = length topic" "unat (msgBytes m) = length message" "messageId m = i"
    "command m = command_code MQ_COMMAND_DELIVERY"
    using assms(1) by (simp_all add: m_def delivery_packet_def mqPacket_default_def unat_of_nat take_bit_nat_eq_self)
  have body: "length (topic @ message) \<le> body_len m" using m by (simp add: body_len_def)
  have cmd: "sint (command m) \<le> sint (command_code MQ_COMMAND_HEARTBEAT)" using m by simp
  note fr = frame_image_is_frame [OF body cmd, of junk pad]
  have "take (length (topic @ message)) (drop 72 ?f) = topic @ message" by (rule frame_image_body [OF body])
  then have "drop 72 ?f = topic @ message @ drop (length (topic @ message)) (drop 72 ?f)"
    by (metis append.assoc append_take_drop_id)
  then have g: "getTopicAndMessage ?f = Some (topic, message)"
    by (rule getTopicAndMessage_at) (use fr m in simp_all)
  show "delivery topic ?f" using fr m g by (simp add: delivery_def)
  show "reads ?f = (i, Some (topic, message))" using fr m g by (simp add: reads_def)
  show "length ?f = 84 + length topic + length message"
    using fr(1) m by (simp add: mq_frame_def fr(2) MqPacketLength_body body_len_def)
qed

text \<open>
  C3: A message of a producer, from its queue to the log of the broker: the producer appends one packet
  to its batch, and a broker that is given this packet has the message at the end of its topic, under the
  same id, and no other topic changes.
\<close>

theorem put_message_reaches_log:
  assumes "wf_buffer buff" and "readableBytes buff + 84 + length topic + length message \<le> max_batch"
    and "topic_log b topic ms" and "i \<notin> set (m_messageId_set b)"
    and "84 + length topic + length message \<le> kFileMax b" and "length ms + 1 < 2 ^ 64"
  shows "\<exists>buff' s' f b' g. batch_one junk pad now conne (i, topic, message) buff s = Some (buff', s')
    \<and> contents buff' = contents buff @ f
    \<and> Broker.handleDeliver junk' pad' f b = Some b' \<and> topic_log b' topic (ms @ [g])
    \<and> reads g = (i, Some (topic, message)) \<and> stored (length ms) g
    \<and> (\<forall>t. t \<noteq> topic \<longrightarrow> map_of (m_partition b') t = map_of (m_partition b) t)"
proof -
  let ?m = "delivery_packet now (i, topic, message)"
  let ?f = "frame_image junk pad ?m (topic @ message)"
  have small: "length topic + length message < 2 ^ 31" "84 + length topic + length message < 2 ^ 31"
    using assms(2) by (simp_all add: max_batch_def)
  note f = delivery_packet_frame [OF small(1), of junk pad now i]
  have m: "unat (topicBytes ?m) = length topic" "unat (msgBytes ?m) = length message"
    using small by (simp_all add: delivery_packet_def unat_of_nat take_bit_nat_eq_self)
  then have len: "MqPacketLength ?m = 84 + length topic + length message"
    by (simp add: MqPacketLength_body body_len_def)
  obtain buff' where buff': "buf_append ?f buff = Some buff'" "contents buff' = contents buff @ ?f"
    using buf_append_spec [OF assms(1)] by blast
  have "batch_one junk pad now conne (i, topic, message) buff s = Some (buff',
      s\<lparr>m_send_count := m_send_count s + 1, m_resend_set := om_insert i (topic, message) (m_resend_set s)\<rparr>)"
    using len m small assms(2) buff'(1)
    by (simp add: batch_one_def Let_def serializationToBuffer_message_def put_frame_def)
  moreover obtain b' g where "Broker.handleDeliver junk' pad' ?f b = Some b'" "topic_log b' topic (ms @ [g])"
    "reads g = reads ?f" "stored (length ms) g"
    "\<forall>t. t \<noteq> topic \<longrightarrow> map_of (m_partition b') t = map_of (m_partition b) t"
    using handleDeliver_stores [OF assms(3) f(1), of junk' pad'] assms(4-6) f(2,3) small
    by (auto simp: reads_def)
  ultimately show ?thesis using buff'(2) f(2) by auto
qed

theorem put_message_reaches_log_witness:
  "\<exists>b buff' s' f b' g. demo_broker = Some b
    \<and> batch_one (\<lambda>_. 0) (\<lambda>_. 0) 5 None (9, [116], [7]) (buffer_new kInitialSize) demo_producer = Some (buff', s')
    \<and> contents buff' = f \<and> Broker.handleDeliver (\<lambda>_. 0) (\<lambda>_. 0) f b = Some b'
    \<and> topic_log b' [116] [g] \<and> reads g = (9, Some ([116], [7]))"
proof -
  obtain b where b: "demo_broker = Some b" "topic_log b [116] []" "kFileMax b = 1024" "m_messageId_set b = []"
    using demo_broker_new by blast
  have "\<exists>buff' s' f b' g. batch_one (\<lambda>_. 0) (\<lambda>_. 0) 5 None (9, [116], [7]) (buffer_new kInitialSize) demo_producer
        = Some (buff', s') \<and> contents buff' = contents (buffer_new kInitialSize) @ f
    \<and> Broker.handleDeliver (\<lambda>_. 0) (\<lambda>_. 0) f b = Some b' \<and> topic_log b' [116] ([] @ [g])
    \<and> reads g = (9, Some ([116], [7])) \<and> stored (length ([] :: bytes list)) g
    \<and> (\<forall>t. t \<noteq> [116] \<longrightarrow> map_of (m_partition b') t = map_of (m_partition b) t)"
    by (rule put_message_reaches_log [OF wf_buffer_new _ b(2)])
      (simp_all add: b(3,4) max_batch_def buffer_new_def readableBytes_def)
  with b(1) show ?thesis by (auto simp: contents_buffer_new)
qed

section \<open>From the consumer's commit to the broker's offsets\<close>

text \<open>
  C4: What a consumer commits for a topic is one packet that tells the number behind the last message; a
  broker that is given the packet has that number, or a greater one it already had, as the offset of the
  consumer's group for the topic, and every other offset as it was.
\<close>

theorem commit_reaches_broker:
  assumes "msgs \<noteq> []" and "map_of (m_vaild_topic_conne s) topic = Some conne"
    and "t_id conne \<in> set (connected s)" and "length topic < 2 ^ 30"
  shows "\<exists>s' f. commit_one junk pad (topic, msgs) s = Some s'
    \<and> busd.sent s' = busd.sent s @ [(t_id conne, f)]
    \<and> Consumer.getOffset (t_name conne) (commit_entry topic s') = mi_offset (last msgs) + 1
    \<and> (\<forall>b. \<exists>b'. Broker.handleCommit f b = Some b' \<and>
        (\<forall>g t. CommitPartition.getOffset g t (m_commit_partition b') =
           (if g = m_groupId s \<and> t = topic
            then max (CommitPartition.getOffset g t (m_commit_partition b)) (mi_offset (last msgs) + 1)
            else CommitPartition.getOffset g t (m_commit_partition b))))"
proof -
  let ?m = "commit_packet (m_groupId s) topic msgs"
  let ?f = "frame_image junk pad ?m topic"
  have one: "commit_one junk pad (topic, msgs) s = Some (set_commit topic
      (setOffset (t_name conne) (mi_offset (last msgs) + 1) (commit_entry topic s)) (conne_send conne ?f s))"
    by (rule commit_one_spec [OF assms(1,2,4)])
  note f = commit_frame [OF assms(4), of junk pad "m_groupId s" msgs]
  have scast: "scast g = (scast h :: u64) \<longleftrightarrow> g = h" for g h :: u32
  proof
    assume "scast g = (scast h :: u64)"
    then have "sint (scast g :: u64) = sint (scast h :: u64)" by simp
    then show "g = h" by (intro signed_word_eqI) (simp add: sint_up_scast is_up)
  qed simp
  have m: "consumerGroupId ?m = m_groupId s" "offset ?m = mi_offset (last msgs) + 1"
    by (simp_all add: commit_packet_def)
  have "Broker.handleCommit ?f b = Some (b\<lparr>m_commit_partition :=
      CommitPartition.commit (scast (m_groupId s)) topic (mi_offset (last msgs) + 1) (m_commit_partition b)\<rparr>)" for b
    using m by (simp add: Broker.handleCommit_def f(2,3) Let_def)
  then have "\<forall>b. \<exists>b'. Broker.handleCommit ?f b = Some b' \<and>
        (\<forall>g t. CommitPartition.getOffset g t (m_commit_partition b') =
           (if g = m_groupId s \<and> t = topic
            then max (CommitPartition.getOffset g t (m_commit_partition b)) (mi_offset (last msgs) + 1)
            else CommitPartition.getOffset g t (m_commit_partition b)))"
    by (auto simp: getOffset_commit scast)
  then show ?thesis
    using one assms(3)
    by (intro exI [of _ ?f] exI conjI)
      (auto simp: conne_send_def set_commit_def commit_entry_def setOffset_def Consumer.getOffset_def)
qed

text \<open>A consumer of group 1 that got message 4 of topic t, and commits 5.\<close>

definition demo_consumer :: consumer where
  "demo_consumer = (Consumer 1 [99] 1 True True True)
     \<lparr>m_vaild_topic_conne := [([116], \<lparr>t_id = 3, t_name = [98]\<rparr>)], connected := [3]\<rparr>"

theorem commit_reaches_broker_witness:
  "\<exists>s' f b b'. commit_one (\<lambda>_. 0) (\<lambda>_. 0) ([116], [\<lparr>mi_id = 9, mi_offset = 4, mi_content = [7]\<rparr>]) demo_consumer
      = Some s' \<and> busd.sent s' = [(3, f)]
    \<and> demo_broker = Some b \<and> Broker.handleCommit f b = Some b'
    \<and> CommitPartition.getOffset 1 [116] (m_commit_partition b') = 5"
proof -
  have c: "map_of (m_vaild_topic_conne demo_consumer) [116] = Some \<lparr>t_id = 3, t_name = [98]\<rparr>"
    "t_id \<lparr>t_id = 3, t_name = [98]\<rparr> \<in> set (connected demo_consumer)" "busd.sent demo_consumer = []"
    "m_groupId demo_consumer = 1"
    by (simp_all add: demo_consumer_def Consumer_def busd.defs busd_init_def)
  obtain b where b: "demo_broker = Some b" "m_infos (m_commit_partition b) = []"
    by (simp add: demo_broker_def MqBroker_def CommitPartition_def)
  have old: "CommitPartition.getOffset 1 [116] (m_commit_partition b) = 0"
    by (simp add: getOffset_committed committed_def b(2))
  show ?thesis
    using commit_reaches_broker [OF _ c(1,2), of "[\<lparr>mi_id = 9, mi_offset = 4, mi_content = [7]\<rparr>]"
        "\<lambda>_. 0" "\<lambda>_. 0"] b(1) old c(3,4)
    by fastforce
qed

end
